(* ===== verification/Xp_Prelude.thy ===== *)
theory Xp_Prelude
  imports Main "HOL-Library.Word" "HOL-Library.Monad_Syntax"
begin

text \<open>
  Shared vocabulary of the development: the machine integer types of the kernel sources,
  pointers, the collections of simplification rules the component theories extend, and the
  generic facts about lists, options and words they share.

  A C++ object address is a natural number and a pointer is an \<open>addr option\<close> whose
  \<^const>\<open>None\<close> is \<open>nullptr\<close>. An operation that dereferences a pointer returns an option: its
  \<^const>\<open>None\<close> is the fault a null or dangling access causes, so that a theorem that an operation
  returns \<^const>\<open>Some\<close> is a memory safety statement.
\<close>

unbundle bit_operations_syntax

type_synonym u8 = "8 word"
type_synonym u16 = "16 word"
type_synonym u32 = "32 word"
type_synonym u64 = "64 word"
type_synonym addr = nat
type_synonym ptr = "addr option"

named_theorems heap_simps \<open>reads and writes of object fields through pointers\<close>
named_theorems seq_simps \<open>positions, insertion and removal in sequences\<close>
named_theorems word_nat \<open>from machine words to natural numbers\<close>

subsection \<open>First and last element of a sequence, with a default\<close>

text \<open>
  The neighbours of a position in a linked structure: the first element of what follows it, or the
  last of what precedes it, with a default for the empty sequence.
\<close>

fun first_or :: "'a list \<Rightarrow> 'a option \<Rightarrow> 'a option" where
  "first_or [] d = d"
| "first_or (x # xs) d = Some x"

fun last_or :: "'a list \<Rightarrow> 'a option \<Rightarrow> 'a option" where
  "last_or [] d = d"
| "last_or (x # xs) d = last_or xs (Some x)"

lemma first_or_append [simp]: "first_or (xs @ ys) d = first_or xs (first_or ys d)"
  by (cases xs) auto

lemma last_or_append [simp]: "last_or (xs @ ys) d = last_or ys (last_or xs d)"
  by (induction xs arbitrary: d) auto

lemma last_or_snoc: "last_or (xs @ [x]) d = Some x"
  by simp

lemma first_or_None_iff [simp]: "first_or xs d = None \<longleftrightarrow> xs = [] \<and> d = None"
  by (cases xs) auto

lemma last_or_None_iff [simp]: "last_or xs d = None \<longleftrightarrow> xs = [] \<and> d = None"
  by (induction xs arbitrary: d) auto

lemma first_or_in_set: "first_or xs None = Some x \<Longrightarrow> x \<in> set xs"
  by (cases xs) auto

lemma last_or_in_set: "last_or xs None = Some x \<Longrightarrow> x \<in> set xs"
  by (cases xs rule: rev_cases) auto

subsection \<open>Sequences addressed by position\<close>

text \<open>
  The behaviour of a sequence container on the sequence of its elements: insertion before a
  position and removal at a position.
\<close>

definition seq_insert :: "nat \<Rightarrow> 'a \<Rightarrow> 'a list \<Rightarrow> 'a list" where
  "seq_insert i x xs = take i xs @ x # drop i xs"

definition seq_erase :: "nat \<Rightarrow> 'a list \<Rightarrow> 'a list" where
  "seq_erase i xs = take i xs @ drop (Suc i) xs"

lemma length_seq_insert [simp, seq_simps]: "length (seq_insert i x xs) = Suc (length xs)"
  by (simp add: seq_insert_def)

lemma length_seq_erase [simp, seq_simps]:
  "i < length xs \<Longrightarrow> length (seq_erase i xs) = length xs - 1"
  by (simp add: seq_erase_def)

lemma set_seq_insert [simp, seq_simps]: "set (seq_insert i x xs) = insert x (set xs)"
proof -
  have "set xs = set (take i xs) \<union> set (drop i xs)"
    by (metis append_take_drop_id set_append)
  then show ?thesis by (auto simp: seq_insert_def)
qed

lemma set_seq_erase_subset: "set (seq_erase i xs) \<subseteq> set xs"
  by (auto simp: seq_erase_def dest: in_set_takeD in_set_dropD)

lemma seq_erase_insert [simp, seq_simps]:
  "i \<le> length xs \<Longrightarrow> seq_erase i (seq_insert i x xs) = xs"
  by (simp add: seq_erase_def seq_insert_def)

lemma seq_insert_end [simp, seq_simps]: "seq_insert (length xs) x xs = xs @ [x]"
  by (simp add: seq_insert_def)

lemma seq_erase_0 [simp, seq_simps]: "seq_erase 0 (x # xs) = xs"
  by (simp add: seq_erase_def)

lemma seq_erase_Suc [simp, seq_simps]: "seq_erase (Suc i) (x # xs) = x # seq_erase i xs"
  by (simp add: seq_erase_def)

lemma seq_insert_append [seq_simps]:
  "seq_insert (length xs) x (xs @ ys) = xs @ x # ys"
  by (simp add: seq_insert_def)

lemma seq_erase_append [seq_simps]:
  "seq_erase (length xs) (xs @ y # ys) = xs @ ys"
  by (simp add: seq_erase_def)

lemma distinct_seq_erase: "distinct xs \<Longrightarrow> distinct (seq_erase i xs)"
proof -
  assume d: "distinct xs"
  have "set (take i xs) \<inter> set (drop (Suc i) xs) = {}"
    using set_take_disj_set_drop_if_distinct [OF d, of i "Suc i"] by simp
  with d show ?thesis by (simp add: seq_erase_def)
qed

lemma length_concat_update:
  "b < length xss \<Longrightarrow>
   length (concat (xss[b := es])) + length (xss ! b) = length (concat xss) + length es"
proof (induction xss arbitrary: b)
  case Nil
  then show ?case by simp
next
  case (Cons xs xss)
  then show ?case by (cases b) auto
qed

subsection \<open>Machine words\<close>

lemma unat_lt_64 [simp]: "unat (w :: u64) < 18446744073709551616"
  using unsigned_less [of w, where ?'a = nat] by simp

lemma unat_of_nat_64 [word_nat]: "n < 2 ^ 64 \<Longrightarrow> unat (of_nat n :: u64) = n"
  by (simp add: unat_of_nat)

lemma word_less_succ: "(n :: u64) \<noteq> - 1 \<Longrightarrow> x \<le> n \<Longrightarrow> x < n + 1"
  using inc_less_eq_iff by fastforce

lemma unat_and_not_mask [word_nat]:
  "unat ((w :: 'a :: len word) AND NOT (mask k)) = unat w div 2 ^ k * 2 ^ k"
proof -
  have "unat (w AND NOT (mask k)) = push_bit k (drop_bit k (unat w))"
    by (rule bit_eqI) (auto simp: bit_unsigned_iff bit_and_iff bit_not_iff bit_mask_iff
        bit_push_bit_iff bit_drop_bit_eq dest: bit_imp_le_length)
  then show ?thesis by (simp add: push_bit_eq_mult drop_bit_eq_div)
qed

lemma unat_and_mask [word_nat]: "unat ((w :: 'a :: len word) AND mask k) = unat w mod 2 ^ k"
  by (metis take_bit_eq_mask take_bit_eq_mod unsigned_take_bit_eq)

lemma bit_unat: "bit (unat (x :: 'a :: len word)) n \<longleftrightarrow> bit x n"
  by (simp add: bit_unsigned_iff)

lemma high_bits_clear:
  assumes "unat (x :: 'a :: len word) < 2 ^ k" "k \<le> n"
  shows "\<not> bit x n"
proof -
  have "unat x < 2 ^ n" using less_le_trans [OF assms(1) power_increasing [OF assms(2)]] by simp
  then have "\<not> bit (unat x) n" by (simp add: bit_iff_odd)
  then show ?thesis by (simp add: bit_unat)
qed

end
