(* ===== verification/Common_List.thy ===== *)
theory Common_List
  imports Xp_Prelude
begin

text \<open>
  The doubly linked list of \<open>Kernel/Common/List.h\<close>, on an explicit heap of list nodes.
  The operations follow the source pointer by pointer; \<open>list_rep\<close> relates a list object and the
  heap to the sequence of node addresses and the sequence of elements, and the lemmas show that
  every operation keeps that relation, does not fault, and acts on the elements as the operation
  of the same name acts on a sequence. The storage a node occupies comes from \<open>operator new\<close>,
  which is a parameter here: the address of the new node is an argument, and what is relied on is
  that no live node occupies it.
\<close>

subsection \<open>Data\<close>

record 'a ListNode =
  node_next :: ptr
  node_prev :: ptr
  node_value :: 'a

type_synonym 'a node_heap = "addr \<rightharpoonup> 'a ListNode"

record LinkedList =
  m_head :: ptr
  m_tail :: ptr
  m_size :: u64

type_synonym Iterator = ptr

definition list_empty :: LinkedList where
  "list_empty = \<lparr>m_head = None, m_tail = None, m_size = 0\<rparr>"

subsection \<open>Field access through pointers\<close>

definition set_next :: "'a node_heap \<Rightarrow> addr \<Rightarrow> ptr \<Rightarrow> 'a node_heap option" where
  "set_next h p v = map_option (\<lambda>n. h(p \<mapsto> n\<lparr>node_next := v\<rparr>)) (h p)"

definition set_prev :: "'a node_heap \<Rightarrow> addr \<Rightarrow> ptr \<Rightarrow> 'a node_heap option" where
  "set_prev h p v = map_option (\<lambda>n. h(p \<mapsto> n\<lparr>node_prev := v\<rparr>)) (h p)"

lemma set_next_Some [heap_simps]:
  "h p = Some n \<Longrightarrow> set_next h p v = Some (h(p \<mapsto> n\<lparr>node_next := v\<rparr>))"
  by (simp add: set_next_def)

lemma set_prev_Some [heap_simps]:
  "h p = Some n \<Longrightarrow> set_prev h p v = Some (h(p \<mapsto> n\<lparr>node_prev := v\<rparr>))"
  by (simp add: set_prev_def)

subsection \<open>Operations\<close>

definition new_ListNode :: "'a \<Rightarrow> 'a ListNode" where
  "new_ListNode v = \<lparr>node_next = None, node_prev = None, node_value = v\<rparr>"

definition list_size :: "LinkedList \<Rightarrow> u64" where
  "list_size l = m_size l"

definition list_begin :: "LinkedList \<Rightarrow> Iterator" where
  "list_begin l = m_head l"

definition list_end :: "LinkedList \<Rightarrow> Iterator" where
  "list_end l = None"

definition insert_node ::
  "'a node_heap \<Rightarrow> LinkedList \<Rightarrow> Iterator \<Rightarrow> addr \<Rightarrow> ('a node_heap \<times> LinkedList \<times> Iterator) option"
where
  "insert_node h l it node =
     (let l = l\<lparr>m_size := m_size l + 1\<rparr> in
      if m_head l = None then
        Some (h, l\<lparr>m_head := Some node, m_tail := Some node\<rparr>, Some node)
      else if it = list_end l then do {
        t \<leftarrow> m_tail l;
        h \<leftarrow> set_next h t (Some node);
        h \<leftarrow> set_prev h node (m_tail l);
        Some (h, l\<lparr>m_tail := Some node\<rparr>, Some node)
      } else do {
        q \<leftarrow> it;
        h \<leftarrow> set_next h node (Some q);
        nq \<leftarrow> h q;
        h \<leftarrow> set_prev h node (node_prev nq);
        (h, l) \<leftarrow> (case node_prev nq of
                    Some r \<Rightarrow> do { h \<leftarrow> set_next h r (Some node); Some (h, l) }
                  | None \<Rightarrow> Some (h, l\<lparr>m_head := Some node\<rparr>));
        h \<leftarrow> set_prev h q (Some node);
        Some (h, l, Some node)
      })"

definition list_insert ::
  "'a node_heap \<Rightarrow> LinkedList \<Rightarrow> Iterator \<Rightarrow> addr \<Rightarrow> 'a \<Rightarrow> ('a node_heap \<times> LinkedList \<times> Iterator) option"
where
  "list_insert h l it new_addr value = insert_node (h(new_addr \<mapsto> new_ListNode value)) l it new_addr"

definition list_push_back ::
  "'a node_heap \<Rightarrow> LinkedList \<Rightarrow> addr \<Rightarrow> 'a \<Rightarrow> ('a node_heap \<times> LinkedList) option"
where
  "list_push_back h l new_addr value = do {
     (h, l, _) \<leftarrow> insert_node (h(new_addr \<mapsto> new_ListNode value)) l (list_end l) new_addr;
     Some (h, l)
   }"

definition list_erase ::
  "'a node_heap \<Rightarrow> LinkedList \<Rightarrow> Iterator \<Rightarrow> ('a node_heap \<times> LinkedList \<times> Iterator) option"
where
  "list_erase h l it = do {
     let l = l\<lparr>m_size := m_size l - 1\<rparr>;
     node \<leftarrow> it;
     n \<leftarrow> h node;
     let ret = node_next n;
     (h, l) \<leftarrow> (case node_prev n of
                 Some r \<Rightarrow> do { h \<leftarrow> set_next h r (node_next n); Some (h, l) }
               | None \<Rightarrow> Some (h, l\<lparr>m_head := node_next n\<rparr>));
     (h, l) \<leftarrow> (case node_next n of
                 Some r \<Rightarrow> do { h \<leftarrow> set_prev h r (node_prev n); Some (h, l) }
               | None \<Rightarrow> Some (h, l\<lparr>m_tail := node_prev n\<rparr>));
     Some (h(node := None), l, ret)
   }"

partial_function (option) clear_nodes :: "'a node_heap \<Rightarrow> ptr \<Rightarrow> 'a node_heap option" where
  "clear_nodes h node =
     (case node of None \<Rightarrow> Some h
      | Some p \<Rightarrow> (case h p of None \<Rightarrow> None
                   | Some n \<Rightarrow> clear_nodes (h(p := None)) (node_next n)))"

definition list_clear :: "'a node_heap \<Rightarrow> LinkedList \<Rightarrow> ('a node_heap \<times> LinkedList) option" where
  "list_clear h l = do {
     h \<leftarrow> clear_nodes h (m_head l);
     Some (h, l\<lparr>m_head := None, m_tail := None, m_size := 0\<rparr>)
   }"

definition list_front :: "'a node_heap \<Rightarrow> LinkedList \<Rightarrow> 'a option" where
  "list_front h l = do { p \<leftarrow> m_head l; n \<leftarrow> h p; Some (node_value n) }"

definition list_back :: "'a node_heap \<Rightarrow> LinkedList \<Rightarrow> 'a option" where
  "list_back h l = do { p \<leftarrow> m_tail l; n \<leftarrow> h p; Some (node_value n) }"

definition iter_next :: "'a node_heap \<Rightarrow> Iterator \<Rightarrow> Iterator option" where
  "iter_next h it = do { p \<leftarrow> it; n \<leftarrow> h p; Some (node_next n) }"

definition iter_prev :: "'a node_heap \<Rightarrow> LinkedList \<Rightarrow> Iterator \<Rightarrow> Iterator option" where
  "iter_prev h l it =
     (case it of None \<Rightarrow> Some (m_tail l) | Some p \<Rightarrow> do { n \<leftarrow> h p; Some (node_prev n) })"

definition iter_deref :: "'a node_heap \<Rightarrow> Iterator \<Rightarrow> 'a option" where
  "iter_deref h it = do { p \<leftarrow> it; n \<leftarrow> h p; Some (node_value n) }"

definition list_swap :: "LinkedList \<Rightarrow> LinkedList \<Rightarrow> LinkedList \<times> LinkedList" where
  "list_swap a b = (b, a)"

text \<open>
  The copy constructor and the initializer-list constructor append the elements one after the
  other; each append takes the address of a new node.
\<close>

fun list_append_all ::
  "'a node_heap \<Rightarrow> LinkedList \<Rightarrow> addr list \<Rightarrow> 'a list \<Rightarrow> ('a node_heap \<times> LinkedList) option"
where
  "list_append_all h l [] [] = Some (h, l)"
| "list_append_all h l (p # ps) (v # vs) = do {
     (h, l) \<leftarrow> list_push_back h l p v;
     list_append_all h l ps vs
   }"
| "list_append_all h l _ _ = None"

subsection \<open>The representation relation\<close>

text \<open>
  \<open>chain h pr ps nx xs\<close>: the nodes at addresses \<open>ps\<close> hold the elements \<open>xs\<close>, are linked in both
  directions in that order, the first one's predecessor link is \<open>pr\<close> and the last one's successor
  link is \<open>nx\<close>.
\<close>

fun chain :: "'a node_heap \<Rightarrow> ptr \<Rightarrow> addr list \<Rightarrow> ptr \<Rightarrow> 'a list \<Rightarrow> bool" where
  "chain h pr [] nx [] = True"
| "chain h pr (p # ps) nx (x # xs) =
     (h p = Some \<lparr>node_next = first_or ps nx, node_prev = pr, node_value = x\<rparr>
      \<and> chain h (Some p) ps nx xs)"
| "chain h pr _ nx _ = False"

definition list_rep :: "'a node_heap \<Rightarrow> LinkedList \<Rightarrow> addr list \<Rightarrow> 'a list \<Rightarrow> bool" where
  "list_rep h l ps xs \<longleftrightarrow>
     chain h None ps None xs \<and> distinct ps \<and>
     m_head l = first_or ps None \<and> m_tail l = last_or ps None \<and> m_size l = of_nat (length ps)"

lemma chain_length: "chain h pr ps nx xs \<Longrightarrow> length ps = length xs"
  by (induction h pr ps nx xs rule: chain.induct) auto

lemma chain_append:
  "length ps = length xs \<Longrightarrow>
   chain h pr (ps @ qs) nx (xs @ ys) \<longleftrightarrow>
     chain h pr ps (first_or qs nx) xs \<and> chain h (last_or ps pr) qs nx ys"
  by (induction ps xs arbitrary: pr rule: list_induct2) auto

lemma chain_frame [simp]:
  "p \<notin> set ps \<Longrightarrow> chain (h(p := v)) pr ps nx xs = chain h pr ps nx xs"
  by (induction h pr ps nx xs rule: chain.induct) auto

lemma chain_cong:
  "(\<And>p. p \<in> set ps \<Longrightarrow> h p = h' p) \<Longrightarrow> chain h pr ps nx xs = chain h' pr ps nx xs"
  by (induction h pr ps nx xs rule: chain.induct) auto

lemma chain_single [simp]:
  "chain h pr [p] nx [x] \<longleftrightarrow> h p = Some \<lparr>node_next = nx, node_prev = pr, node_value = x\<rparr>"
  by simp

lemma chain_in_dom: "chain h pr ps nx xs \<Longrightarrow> set ps \<subseteq> dom h"
  by (induction h pr ps nx xs rule: chain.induct) auto

subsection \<open>Insertion\<close>

lemma list_rep_Nil_iff: "list_rep h l ps xs \<Longrightarrow> m_head l = None \<longleftrightarrow> ps = []"
  by (auto simp: list_rep_def)

lemma list_rep_length: "list_rep h l ps xs \<Longrightarrow> length ps = length xs"
  by (auto simp: list_rep_def dest: chain_length)

lemma list_insert_into_empty:
  assumes "list_rep h l [] []"
  shows "\<exists>h' l'. list_insert h l it p v = Some (h', l', Some p) \<and> list_rep h' l' [p] [v] \<and>
           (\<forall>a. a \<noteq> p \<longrightarrow> h' a = h a)"
  using assms
  by (simp add: list_insert_def insert_node_def list_rep_def new_ListNode_def Let_def)

lemma list_insert_at_end:
  assumes rep: "list_rep h l (ps @ [r]) (xs @ [x])" and len: "length ps = length xs"
    and fresh: "p \<notin> set (ps @ [r])"
  shows "\<exists>h' l'. list_insert h l None p v = Some (h', l', Some p) \<and>
           list_rep h' l' (ps @ [r, p]) (xs @ [x, v]) \<and>
           (\<forall>a. a \<notin> set (ps @ [r, p]) \<longrightarrow> h' a = h a)"
proof -
  define nr where "nr = \<lparr>node_next = None, node_prev = last_or ps None, node_value = x\<rparr>"
  have r: "h r = Some nr" and ps: "chain h None ps (Some r) xs"
    using rep len by (auto simp: list_rep_def chain_append nr_def)
  have d: "distinct ps" "r \<notin> set ps" using rep by (auto simp: list_rep_def)
  have tail: "m_tail l = Some r" and head: "m_head l \<noteq> None"
    using rep by (simp_all add: list_rep_def)
  let ?h = "h(p \<mapsto> \<lparr>node_next = None, node_prev = Some r, node_value = v\<rparr>,
              r \<mapsto> nr\<lparr>node_next := Some p\<rparr>)"
  let ?l = "l\<lparr>m_size := m_size l + 1, m_tail := Some p\<rparr>"
  have "list_insert h l None p v = Some (?h, ?l, Some p)"
    using fresh r tail head
    by (auto simp: list_insert_def insert_node_def new_ListNode_def list_end_def set_next_def
        set_prev_def fun_upd_twist)
  moreover have "list_rep ?h ?l (ps @ [r, p]) (xs @ [x, v])"
  proof -
    have "chain ?h None ps (Some r) xs" using ps fresh d by auto
    then have "chain ?h None (ps @ [r, p]) None (xs @ [x, v])"
      using len fresh by (auto simp: chain_append nr_def)
    then show ?thesis using rep fresh d by (auto simp: list_rep_def)
  qed
  moreover have "\<forall>a. a \<notin> set (ps @ [r, p]) \<longrightarrow> ?h a = h a" by auto
  ultimately show ?thesis by blast
qed

lemma list_insert_before:
  assumes rep: "list_rep h l (ps @ q # qs) (xs @ y # ys)" and len: "length ps = length xs"
    and fresh: "p \<notin> set (ps @ q # qs)"
  shows "\<exists>h' l'. list_insert h l (Some q) p v = Some (h', l', Some p) \<and>
           list_rep h' l' (ps @ p # q # qs) (xs @ v # y # ys) \<and>
           (\<forall>a. a \<notin> set (ps @ p # q # qs) \<longrightarrow> h' a = h a)"
proof (cases ps rule: rev_cases)
  case Nil
  define nq where "nq = \<lparr>node_next = first_or qs None, node_prev = None, node_value = y\<rparr>"
  have xs: "xs = []" using len Nil by simp
  have q: "h q = Some nq" and qs: "chain h (Some q) qs None ys"
    using rep Nil xs by (auto simp: list_rep_def nq_def)
  let ?h = "h(p \<mapsto> \<lparr>node_next = Some q, node_prev = None, node_value = v\<rparr>,
              q \<mapsto> nq\<lparr>node_prev := Some p\<rparr>)"
  let ?l = "l\<lparr>m_size := m_size l + 1, m_head := Some p\<rparr>"
  have "list_insert h l (Some q) p v = Some (?h, ?l, Some p)"
    using fresh q rep Nil
    by (auto simp: list_insert_def insert_node_def new_ListNode_def list_end_def set_next_def
        set_prev_def list_rep_def nq_def)
  moreover have "list_rep ?h ?l (p # q # qs) (v # y # ys)"
    using rep fresh Nil xs qs by (auto simp: list_rep_def nq_def)
  ultimately show ?thesis using Nil xs by force
next
  case (snoc ps' r)
  then obtain xs' x where xs: "xs = xs' @ [x]" and len': "length ps' = length xs'"
    using len by (cases xs rule: rev_cases) auto
  define nr where "nr = \<lparr>node_next = Some q, node_prev = last_or ps' None, node_value = x\<rparr>"
  define nq where "nq = \<lparr>node_next = first_or qs None, node_prev = Some r, node_value = y\<rparr>"
  have r: "h r = Some nr" and q: "h q = Some nq" and ps': "chain h None ps' (Some r) xs'"
    and qs: "chain h (Some q) qs None ys"
    using rep snoc xs len' by (auto simp: list_rep_def chain_append nr_def nq_def)
  have d: "distinct (ps' @ r # q # qs)" and head: "m_head l \<noteq> None"
    using rep snoc by (simp_all add: list_rep_def)
  let ?h = "h(p \<mapsto> \<lparr>node_next = Some q, node_prev = Some r, node_value = v\<rparr>,
              r \<mapsto> nr\<lparr>node_next := Some p\<rparr>, q \<mapsto> nq\<lparr>node_prev := Some p\<rparr>)"
  let ?l = "l\<lparr>m_size := m_size l + 1\<rparr>"
  have "list_insert h l (Some q) p v = Some (?h, ?l, Some p)"
    using fresh q r d head snoc
    by (auto simp: list_insert_def insert_node_def new_ListNode_def list_end_def set_next_def
        set_prev_def nq_def nr_def Let_def fun_upd_twist)
  moreover have "list_rep ?h ?l (ps @ p # q # qs) (xs @ v # y # ys)"
  proof -
    have "chain ?h None ps' (Some r) xs'" and "chain ?h (Some q) qs None ys"
      using ps' qs fresh d snoc by auto
    then have "chain ?h None (ps' @ r # p # q # qs) None (xs' @ x # v # y # ys)"
      using len' fresh d snoc by (auto simp: chain_append nq_def nr_def)
    then show ?thesis using rep fresh snoc xs by (auto simp: list_rep_def)
  qed
  moreover have "\<forall>a. a \<notin> set (ps @ p # q # qs) \<longrightarrow> ?h a = h a" using snoc by auto
  ultimately show ?thesis by blast
qed

lemma list_insert_rep:
  assumes rep: "list_rep h l (ps @ qs) (xs @ ys)" and len: "length ps = length xs"
    and fresh: "p \<notin> set (ps @ qs)"
  shows "\<exists>h' l'. list_insert h l (first_or qs None) p v = Some (h', l', Some p) \<and>
           list_rep h' l' (ps @ p # qs) (xs @ v # ys) \<and>
           (\<forall>a. a \<notin> set (ps @ p # qs) \<longrightarrow> h' a = h a)"
proof (cases qs)
  case (Cons q qs')
  then obtain y ys' where "ys = y # ys'"
    using list_rep_length [OF rep] len by (cases ys) auto
  then show ?thesis using list_insert_before [of h l ps q qs' xs y ys'] rep len fresh Cons by simp
next
  case Nil
  then have ys: "ys = []" using list_rep_length [OF rep] len by simp
  show ?thesis
  proof (cases ps rule: rev_cases)
    case Nil
    with \<open>qs = []\<close> ys len rep have "list_rep h l [] []" by simp
    from list_insert_into_empty [OF this, of None p v]
    show ?thesis using Nil \<open>qs = []\<close> ys len by auto
  next
    case (snoc ps' r)
    then obtain xs' x where "xs = xs' @ [x]" "length ps' = length xs'"
      using len by (cases xs rule: rev_cases) auto
    then show ?thesis
      using list_insert_at_end [of h l ps' r xs' x p v] rep fresh snoc \<open>qs = []\<close> ys by simp
  qed
qed

subsection \<open>Removal\<close>

lemma list_erase_unlink:
  assumes rep: "list_rep h l (ps @ q # qs) (xs @ y # ys)" and len: "length ps = length xs"
  obtains h' where
    "list_erase h l (Some q) =
       Some (h', \<lparr>m_head = first_or (ps @ qs) None, m_tail = last_or (ps @ qs) None,
                  m_size = m_size l - 1\<rparr>, first_or qs None)"
    "chain h' None ps (first_or qs None) xs" "chain h' (last_or ps None) qs None ys"
    "\<forall>a. a \<notin> set (ps @ q # qs) \<longrightarrow> h' a = h a" "h' q = None"
proof -
  define nq where
    "nq = \<lparr>node_next = first_or qs None, node_prev = last_or ps None, node_value = y\<rparr>"
  have q: "h q = Some nq" and cps: "chain h None ps (Some q) xs"
    and cqs: "chain h (Some q) qs None ys"
    using rep len by (auto simp: list_rep_def chain_append nq_def)
  have d: "distinct ps" "distinct qs" "q \<notin> set ps" "q \<notin> set qs" "set ps \<inter> set qs = {}"
    using rep by (auto simp: list_rep_def)
  have l: "m_head l = first_or ps (Some q)" "m_tail l = last_or qs (Some q)"
    using rep by (auto simp: list_rep_def)
  let ?h1 = "case last_or ps None of None \<Rightarrow> h
             | Some r \<Rightarrow> h(r \<mapsto> (the (h r))\<lparr>node_next := first_or qs None\<rparr>)"
  let ?h2 = "case first_or qs None of None \<Rightarrow> ?h1
             | Some r \<Rightarrow> ?h1(r \<mapsto> (the (h r))\<lparr>node_prev := last_or ps None\<rparr>)"
  let ?h' = "?h2(q := None)"
  have cps': "chain ?h' None ps (first_or qs None) xs"
    using cps d len
    by (cases ps rule: rev_cases; cases xs rule: rev_cases; cases qs)
      (auto simp: chain_append)
  have cqs': "chain ?h' (last_or ps None) qs None ys"
    using cqs d by (cases qs; cases ys; cases ps rule: rev_cases) auto
  have "list_erase h l (Some q) =
       Some (?h', \<lparr>m_head = first_or (ps @ qs) None, m_tail = last_or (ps @ qs) None,
                  m_size = m_size l - 1\<rparr>, first_or qs None)"
    using q cps cqs d l len
    by (cases ps rule: rev_cases; cases xs rule: rev_cases; cases qs; cases ys)
      (auto simp: list_erase_def set_next_def set_prev_def nq_def chain_append Let_def)
  moreover have "\<forall>a. a \<notin> set (ps @ q # qs) \<longrightarrow> ?h' a = h a"
    by (cases ps rule: rev_cases; cases qs) auto
  ultimately show thesis using that [OF _ cps' cqs'] by simp
qed

lemma list_erase_rep:
  assumes rep: "list_rep h l (ps @ q # qs) (xs @ y # ys)" and len: "length ps = length xs"
  shows "\<exists>h' l'. list_erase h l (Some q) = Some (h', l', first_or qs None) \<and>
           list_rep h' l' (ps @ qs) (xs @ ys) \<and> h' q = None \<and>
           (\<forall>a. a \<notin> set (ps @ q # qs) \<longrightarrow> h' a = h a)"
proof -
  obtain h' where h': "list_erase h l (Some q) =
       Some (h', \<lparr>m_head = first_or (ps @ qs) None, m_tail = last_or (ps @ qs) None,
                  m_size = m_size l - 1\<rparr>, first_or qs None)"
    and c: "chain h' None ps (first_or qs None) xs" "chain h' (last_or ps None) qs None ys"
    and f: "\<forall>a. a \<notin> set (ps @ q # qs) \<longrightarrow> h' a = h a" "h' q = None"
    using list_erase_unlink [OF rep len] by blast
  have "list_rep h' \<lparr>m_head = first_or (ps @ qs) None, m_tail = last_or (ps @ qs) None,
                  m_size = m_size l - 1\<rparr> (ps @ qs) (xs @ ys)"
    using c rep len by (auto simp: list_rep_def chain_append)
  then show ?thesis using h' f by blast
qed

subsection \<open>Clearing, appending and traversal\<close>

lemma clear_nodes_chain:
  "chain h pr ps None xs \<Longrightarrow> distinct ps \<Longrightarrow>
   clear_nodes h (first_or ps None) = Some (\<lambda>a. if a \<in> set ps then None else h a)"
proof (induction ps arbitrary: h pr xs)
  case Nil
  then show ?case by (simp add: clear_nodes.simps)
next
  case (Cons p ps)
  then obtain x xs' where xs: "xs = x # xs'" by (cases xs) auto
  have "clear_nodes h (Some p) = clear_nodes (h(p := None)) (first_or ps None)"
    using Cons.prems xs by (subst clear_nodes.simps) auto
  also have "\<dots> = Some (\<lambda>a. if a \<in> set ps then None else (h(p := None)) a)"
  proof (rule Cons.IH)
    show "chain (h(p := None)) (Some p) ps None xs'"
      using Cons.prems xs by (intro chain_frame [THEN iffD2]) auto
    show "distinct ps" using Cons.prems by simp
  qed
  finally show ?case by (auto simp: fun_eq_iff)
qed

lemma list_clear_rep:
  assumes "list_rep h l ps xs"
  shows "list_clear h l = Some (\<lambda>a. if a \<in> set ps then None else h a, list_empty)"
  using assms clear_nodes_chain [of h None ps xs]
  by (auto simp: list_clear_def list_rep_def list_empty_def)

lemma list_push_back_rep:
  assumes "list_rep h l ps xs" and "p \<notin> set ps"
  shows "\<exists>h' l'. list_push_back h l p v = Some (h', l') \<and> list_rep h' l' (ps @ [p]) (xs @ [v]) \<and>
           (\<forall>a. a \<notin> set (ps @ [p]) \<longrightarrow> h' a = h a)"
  using list_insert_rep [of h l ps "[]" xs "[]" p v] assms list_rep_length [OF assms(1)]
  by (auto simp: list_push_back_def list_insert_def list_end_def)

lemma list_append_all_rep:
  assumes "list_rep h l ps xs" and "length qs = length vs" and "distinct (ps @ qs)"
  shows "\<exists>h' l'. list_append_all h l qs vs = Some (h', l') \<and>
           list_rep h' l' (ps @ qs) (xs @ vs) \<and> (\<forall>a. a \<notin> set (ps @ qs) \<longrightarrow> h' a = h a)"
  using assms(2,1,3)
proof (induction qs vs arbitrary: h l ps xs rule: list_induct2)
  case Nil
  then show ?case by auto
next
  case (Cons q qs v vs)
  then obtain h1 l1 where 1: "list_push_back h l q v = Some (h1, l1)"
    and rep1: "list_rep h1 l1 (ps @ [q]) (xs @ [v])"
    and f1: "\<forall>a. a \<notin> set (ps @ [q]) \<longrightarrow> h1 a = h a"
    using list_push_back_rep [of h l ps xs q v] by auto
  from Cons.IH [OF rep1] Cons.prems obtain h2 l2 where
    2: "list_append_all h1 l1 qs vs = Some (h2, l2)"
    and rep2: "list_rep h2 l2 (ps @ q # qs) (xs @ v # vs)"
    and f2: "\<forall>a. a \<notin> set (ps @ q # qs) \<longrightarrow> h2 a = h1 a"
    by auto
  from 1 2 rep2 f1 f2 show ?case by auto
qed

lemma iter_rep:
  assumes "list_rep h l (ps @ p # qs) (xs @ y # ys)" and "length ps = length xs"
  shows "iter_deref h (Some p) = Some y" "iter_next h (Some p) = Some (first_or qs None)"
    "iter_prev h l (Some p) = Some (last_or ps None)"
  using assms by (auto simp: list_rep_def chain_append iter_deref_def iter_next_def iter_prev_def)

lemma iter_prev_end:
  "list_rep h l ps xs \<Longrightarrow> iter_prev h l (list_end l) = Some (last_or ps None)"
  by (simp add: iter_prev_def list_end_def list_rep_def)

subsection \<open>The contract of a sequence container\<close>

text \<open>
  What the clients of the list rely on: a state represents a sequence of positions (node addresses)
  and a sequence of elements; inserting before a position and erasing at a position change exactly
  that place. \<open>'p\<close> is the type of positions, an iterator is a \<open>'p option\<close> and \<^const>\<open>None\<close> is the end.
\<close>

definition iter_at :: "'p list \<Rightarrow> nat \<Rightarrow> 'p option" where
  "iter_at ps i = first_or (drop i ps) None"

lemma iter_at_less [simp]: "i < length ps \<Longrightarrow> iter_at ps i = Some (ps ! i)"
  by (simp add: iter_at_def Cons_nth_drop_Suc [symmetric])

lemma iter_at_end [simp]: "length ps \<le> i \<Longrightarrow> iter_at ps i = None"
  by (simp add: iter_at_def)

locale sequence_container =
  fixes rep :: "'s \<Rightarrow> 'p list \<Rightarrow> 'a list \<Rightarrow> bool"
    and agree :: "'p set \<Rightarrow> 's \<Rightarrow> 's \<Rightarrow> bool"
    and insert_before :: "'s \<Rightarrow> 'p option \<Rightarrow> 'p \<Rightarrow> 'a \<Rightarrow> ('s \<times> 'p option) option"
    and erase_at :: "'s \<Rightarrow> 'p option \<Rightarrow> ('s \<times> 'p option) option"
  assumes rep_length: "rep s ps xs \<Longrightarrow> length ps = length xs"
    and agree_trans: "agree A s t \<Longrightarrow> agree A t u \<Longrightarrow> agree A s u"
    and insert_law: "rep s (ps @ qs) (xs @ ys) \<Longrightarrow> length ps = length xs \<Longrightarrow> p \<notin> set (ps @ qs) \<Longrightarrow>
      \<exists>s'. insert_before s (first_or qs None) p v = Some (s', Some p) \<and>
           rep s' (ps @ p # qs) (xs @ v # ys) \<and> agree (insert p (set (ps @ qs))) s s'"
    and erase_law: "rep s (ps @ q # qs) (xs @ y # ys) \<Longrightarrow> length ps = length xs \<Longrightarrow>
      \<exists>s'. erase_at s (Some q) = Some (s', first_or qs None) \<and> rep s' (ps @ qs) (xs @ ys) \<and>
           agree (set (ps @ q # qs)) s s'"
begin

lemma insert_at_position:
  assumes "rep s ps xs" and "i \<le> length xs" and "p \<notin> set ps"
  shows "\<exists>s'. insert_before s (iter_at ps i) p v = Some (s', Some p) \<and>
              rep s' (seq_insert i p ps) (seq_insert i v xs) \<and> agree (insert p (set ps)) s s'"
  using insert_law [of s "take i ps" "drop i ps" "take i xs" "drop i xs" p v] assms
    rep_length [OF assms(1)]
  by (simp add: seq_insert_def iter_at_def set_append [symmetric] del: set_append)

lemma erase_at_position:
  assumes "rep s ps xs" and "i < length xs"
  shows "\<exists>s'. erase_at s (iter_at ps i) = Some (s', iter_at ps (Suc i)) \<and>
              rep s' (seq_erase i ps) (seq_erase i xs) \<and> agree (set ps) s s'"
  using erase_law [of s "take i ps" "ps ! i" "drop (Suc i) ps" "take i xs" "xs ! i" "drop (Suc i) xs"]
    assms rep_length [OF assms(1)]
  by (simp add: seq_erase_def id_take_nth_drop [symmetric] iter_at_def [of _ "Suc i"] del: set_append)

lemma insert_then_erase:
  assumes "rep s ps xs" and "i \<le> length xs" and "p \<notin> set ps"
  shows "\<exists>s' it s''. insert_before s (iter_at ps i) p v = Some (s', it) \<and>
              erase_at s' it = Some (s'', iter_at ps i) \<and> rep s'' ps xs \<and>
              agree (insert p (set ps)) s s''"
proof -
  obtain s' where 1: "insert_before s (iter_at ps i) p v = Some (s', Some p)"
    and rep': "rep s' (seq_insert i p ps) (seq_insert i v xs)"
    and a1: "agree (insert p (set ps)) s s'"
    using insert_at_position [OF assms] by blast
  have len: "length ps = length xs" using rep_length [OF assms(1)] .
  have "iter_at (seq_insert i p ps) i = Some p" "iter_at (seq_insert i p ps) (Suc i) = iter_at ps i"
    using assms(2) len by (simp_all add: iter_at_def seq_insert_def)
  then obtain s'' where "erase_at s' (Some p) = Some (s'', iter_at ps i)" "rep s'' ps xs"
    "agree (insert p (set ps)) s' s''"
    using erase_at_position [OF rep', of i] assms(2) len by auto
  with 1 a1 show ?thesis using agree_trans by blast
qed

end

text \<open>The linked list on its heap fulfils the contract.\<close>

definition list_obj_rep :: "'a node_heap \<times> LinkedList \<Rightarrow> addr list \<Rightarrow> 'a list \<Rightarrow> bool" where
  "list_obj_rep s ps xs = list_rep (fst s) (snd s) ps xs"

definition list_obj_insert ::
  "'a node_heap \<times> LinkedList \<Rightarrow> Iterator \<Rightarrow> addr \<Rightarrow> 'a \<Rightarrow> (('a node_heap \<times> LinkedList) \<times> Iterator) option"
where
  "list_obj_insert s it p v =
     map_option (\<lambda>(h, l, it'). ((h, l), it')) (list_insert (fst s) (snd s) it p v)"

definition list_obj_erase ::
  "'a node_heap \<times> LinkedList \<Rightarrow> Iterator \<Rightarrow> (('a node_heap \<times> LinkedList) \<times> Iterator) option"
where
  "list_obj_erase s it = map_option (\<lambda>(h, l, it'). ((h, l), it')) (list_erase (fst s) (snd s) it)"

definition list_obj_agree :: "addr set \<Rightarrow> 'a node_heap \<times> LinkedList \<Rightarrow> 'a node_heap \<times> LinkedList \<Rightarrow> bool"
where
  "list_obj_agree A s t \<longleftrightarrow> (\<forall>a. a \<notin> A \<longrightarrow> fst t a = fst s a)"

lemmas list_obj_defs = list_obj_agree_def list_obj_rep_def list_obj_insert_def list_obj_erase_def

interpretation dll: sequence_container list_obj_rep list_obj_agree list_obj_insert list_obj_erase
proof (standard, goal_cases)
  case (1 s ps xs)
  then show ?case by (auto simp: list_obj_rep_def dest: list_rep_length)
next
  case (2 A s t u)
  then show ?case by (simp add: list_obj_agree_def)
next
  case (3 s ps qs xs ys p v)
  then show ?case
    using list_insert_rep [of "fst s" "snd s" ps qs xs ys p v] by (force simp: list_obj_defs)
next
  case (4 s ps q qs xs y ys)
  then show ?case
    using list_erase_rep [of "fst s" "snd s" ps q qs xs y ys] by (force simp: list_obj_defs)
qed

subsection \<open>Properties\<close>

text \<open>
  C16: \<open>List::insert\<close> before the i-th element never faults, returns an iterator to the new node, inserts
  exactly the new element at that position, keeps the list doubly linked with the right size, and
  touches no heap node outside the list.
\<close>

theorem list_insert_refines:
  assumes "list_rep h l ps xs" and "i \<le> length xs" and "p \<notin> set ps"
  shows "\<exists>h' l'. list_insert h l (iter_at ps i) p v = Some (h', l', Some p) \<and>
           list_rep h' l' (seq_insert i p ps) (seq_insert i v xs) \<and>
           (\<forall>a. a \<noteq> p \<and> a \<notin> set ps \<longrightarrow> h' a = h a)"
  using dll.insert_at_position [of "(h, l)" ps xs i p v] assms by (force simp: list_obj_defs)

theorem list_insert_refines_witness:
  "\<exists>h' l'. list_insert [7 \<mapsto> new_ListNode (10 :: nat)] \<lparr>m_head = Some 7, m_tail = Some 7, m_size = 1\<rparr>
       (iter_at [7] 0) 8 20 = Some (h', l', Some 8) \<and>
     list_rep h' l' (seq_insert 0 8 [7]) (seq_insert 0 20 [10]) \<and>
     (\<forall>a. a \<noteq> 8 \<and> a \<notin> set [7] \<longrightarrow> h' a = [7 \<mapsto> new_ListNode (10 :: nat)] a)"
  by (rule list_insert_refines) (simp_all add: list_rep_def new_ListNode_def)

text \<open>
  C17: \<open>List::erase\<close> of the i-th element never faults, returns an iterator to the element after it,
  removes exactly that element, relinks its neighbours and the ends of the list, and touches no heap
  node outside the list.
\<close>

theorem list_erase_refines:
  assumes "list_rep h l ps xs" and "i < length xs"
  shows "\<exists>h' l'. list_erase h l (iter_at ps i) = Some (h', l', iter_at ps (Suc i)) \<and>
           list_rep h' l' (seq_erase i ps) (seq_erase i xs) \<and>
           (\<forall>a. a \<notin> set ps \<longrightarrow> h' a = h a)"
  using dll.erase_at_position [of "(h, l)" ps xs i] assms by (force simp: list_obj_defs)

theorem list_erase_refines_witness:
  "\<exists>h' l'. list_erase [7 \<mapsto> new_ListNode (10 :: nat)] \<lparr>m_head = Some 7, m_tail = Some 7, m_size = 1\<rparr>
       (iter_at [7] 0) = Some (h', l', iter_at [7] (Suc 0)) \<and>
     list_rep h' l' (seq_erase 0 [7]) (seq_erase 0 [10]) \<and>
     (\<forall>a. a \<notin> set [7] \<longrightarrow> h' a = [7 \<mapsto> new_ListNode (10 :: nat)] a)"
  by (rule list_erase_refines) (simp_all add: list_rep_def new_ListNode_def)

text \<open>
  C34: \<open>List::clear\<close> terminates without a fault, frees exactly the nodes of the list, and leaves an
  empty list that can be filled again: appending any elements to it gives the list of those elements.
\<close>

theorem list_clear_then_fill:
  assumes "list_rep h l ps xs" and "length qs = length vs" and "distinct qs"
  shows "\<exists>h' l' h'' l''. list_clear h l = Some (h', l') \<and> dom h' = dom h - set ps \<and>
           list_append_all h' l' qs vs = Some (h'', l'') \<and> list_rep h'' l'' qs vs"
proof -
  let ?h = "\<lambda>a. if a \<in> set ps then None else h a"
  have "list_rep ?h list_empty [] []" by (simp add: list_rep_def list_empty_def)
  from list_append_all_rep [OF this assms(2)] assms(3)
  obtain h'' l'' where "list_append_all ?h list_empty qs vs = Some (h'', l'')" "list_rep h'' l'' qs vs"
    by auto
  moreover have "dom ?h = dom h - set ps" by (auto split: if_splits)
  ultimately show ?thesis using list_clear_rep [OF assms(1)] by blast
qed

theorem list_clear_then_fill_witness:
  "\<exists>h' l' h'' l''. list_clear [7 \<mapsto> new_ListNode (10 :: nat)]
         \<lparr>m_head = Some 7, m_tail = Some 7, m_size = 1\<rparr> = Some (h', l') \<and>
       dom h' = dom [7 \<mapsto> new_ListNode (10 :: nat)] - set [7] \<and>
       list_append_all h' l' [3, 5] [30, 50] = Some (h'', l'') \<and> list_rep h'' l'' [3, 5] [30, 50]"
  by (rule list_clear_then_fill [where xs = "[10]"]) (simp_all add: list_rep_def new_ListNode_def)

end
