(* ===== verification/Common_PriorityQueue.thy ===== *)
theory Common_PriorityQueue
  imports Common_List "HOL-Library.Multiset"
begin

text \<open>
  The priority queue of \<open>Kernel/Common/PriorityQueue.h\<close>: a linked list kept in descending order.
  The operations are modelled on the list's heap; \<open>queue_push\<close>, \<open>queue_pop\<close> and \<open>queue_top\<close> are what
  they do to the sequence of elements, which is the view the scheduler and the sleep timer use.
  The comparison \<open>gt\<close> is the element type's \<open>operator>\<close>.
\<close>

subsection \<open>Operations on the heap\<close>

partial_function (option) get_insert_iterator ::
  "('a \<Rightarrow> 'a \<Rightarrow> bool) \<Rightarrow> 'a node_heap \<Rightarrow> 'a \<Rightarrow> Iterator \<Rightarrow> Iterator option"
where
  "get_insert_iterator gt h element it =
     (case it of
        None \<Rightarrow> Some None
      | Some p \<Rightarrow>
          (case h p of
             None \<Rightarrow> None
           | Some n \<Rightarrow>
               if gt element (node_value n) then Some (Some p)
               else get_insert_iterator gt h element (node_next n)))"

definition pq_push ::
  "('a \<Rightarrow> 'a \<Rightarrow> bool) \<Rightarrow> 'a node_heap \<Rightarrow> LinkedList \<Rightarrow> addr \<Rightarrow> 'a \<Rightarrow> ('a node_heap \<times> LinkedList) option"
where
  "pq_push gt h m_list new_addr element = do {
     it \<leftarrow> get_insert_iterator gt h element (list_begin m_list);
     (h, m_list, _) \<leftarrow> list_insert h m_list it new_addr element;
     Some (h, m_list)
   }"

definition pq_pop :: "'a node_heap \<Rightarrow> LinkedList \<Rightarrow> ('a node_heap \<times> LinkedList) option" where
  "pq_pop h m_list =
     (let it = list_begin m_list in
      if it = list_end m_list then Some (h, m_list)
      else do { (h, m_list, _) \<leftarrow> list_erase h m_list it; Some (h, m_list) })"

definition pq_top :: "'a node_heap \<Rightarrow> LinkedList \<Rightarrow> 'a option" where
  "pq_top h m_list = iter_deref h (list_begin m_list)"

definition pq_size :: "LinkedList \<Rightarrow> u64" where
  "pq_size m_list = list_size m_list"

subsection \<open>Operations on the sequence of elements\<close>

definition insert_position :: "('a \<Rightarrow> 'a \<Rightarrow> bool) \<Rightarrow> 'a \<Rightarrow> 'a list \<Rightarrow> nat" where
  "insert_position gt e xs = length (takeWhile (\<lambda>x. \<not> gt e x) xs)"

definition queue_push :: "('a \<Rightarrow> 'a \<Rightarrow> bool) \<Rightarrow> 'a \<Rightarrow> 'a list \<Rightarrow> 'a list" where
  "queue_push gt e xs = seq_insert (insert_position gt e xs) e xs"

definition queue_pop :: "'a list \<Rightarrow> 'a list" where
  "queue_pop xs = (case xs of [] \<Rightarrow> [] | _ # ys \<Rightarrow> ys)"

definition queue_top :: "'a list \<Rightarrow> 'a option" where
  "queue_top xs = (case xs of [] \<Rightarrow> None | x # _ \<Rightarrow> Some x)"

lemma insert_position_le: "insert_position gt e xs \<le> length xs"
  by (simp add: insert_position_def length_takeWhile_le)

lemma queue_push_alt:
  "queue_push gt e xs = takeWhile (\<lambda>x. \<not> gt e x) xs @ e # dropWhile (\<lambda>x. \<not> gt e x) xs"
  by (simp add: queue_push_def seq_insert_def insert_position_def takeWhile_eq_take [symmetric]
      dropWhile_eq_drop [symmetric])

lemma queue_push_Nil [simp]: "queue_push gt e [] = [e]"
  by (simp add: queue_push_alt)

lemma queue_push_Cons [simp]:
  "queue_push gt e (x # xs) = (if gt e x then e # x # xs else x # queue_push gt e xs)"
  by (simp add: queue_push_alt)

lemma mset_queue_push [simp]: "mset (queue_push gt e xs) = add_mset e (mset xs)"
  by (induction xs) auto

lemma set_queue_push [simp]: "set (queue_push gt e xs) = insert e (set xs)"
  by (induction xs) auto

lemma length_queue_push [simp]: "length (queue_push gt e xs) = Suc (length xs)"
  by (induction xs) auto

lemma queue_pop_simps [simp]: "queue_pop [] = []" "queue_pop (x # xs) = xs"
  by (simp_all add: queue_pop_def)

lemma queue_top_simps [simp]: "queue_top [] = None" "queue_top (x # xs) = Some x"
  by (simp_all add: queue_top_def)

subsection \<open>The heap operations act on the sequence\<close>

lemma get_insert_iterator_chain:
  "chain h pr ps None xs \<Longrightarrow>
   get_insert_iterator gt h e (first_or ps None) = Some (iter_at ps (insert_position gt e xs))"
proof (induction ps arbitrary: pr xs)
  case Nil
  then show ?case by (simp add: get_insert_iterator.simps)
next
  case (Cons p ps)
  then obtain x xs' where xs: "xs = x # xs'" by (cases xs) auto
  with Cons.prems have p: "h p = Some \<lparr>node_next = first_or ps None, node_prev = pr, node_value = x\<rparr>"
    and c: "chain h (Some p) ps None xs'" by auto
  have "iter_at (p # ps) (Suc n) = iter_at ps n" for n by (simp add: iter_at_def)
  then show ?case using p xs Cons.IH [OF c]
    by (subst get_insert_iterator.simps) (simp add: insert_position_def)
qed

lemma pq_push_rep:
  assumes rep: "list_rep h l ps xs" and fresh: "p \<notin> set ps"
  shows "\<exists>h' l'. pq_push gt h l p e = Some (h', l') \<and>
           list_rep h' l' (seq_insert (insert_position gt e xs) p ps) (queue_push gt e xs)"
proof -
  have it: "get_insert_iterator gt h e (list_begin l) =
      Some (iter_at ps (insert_position gt e xs))"
    using rep get_insert_iterator_chain [of h None ps xs gt e]
    by (simp add: list_rep_def list_begin_def)
  obtain s' where "list_obj_insert (h, l) (iter_at ps (insert_position gt e xs)) p e = Some (s', Some p)"
    and "list_obj_rep s' (seq_insert (insert_position gt e xs) p ps) (queue_push gt e xs)"
    using dll.insert_at_position [of "(h, l)" ps xs "insert_position gt e xs" p e] rep fresh
    by (auto simp: queue_push_def insert_position_le list_obj_rep_def)
  then show ?thesis using it by (auto simp: pq_push_def list_obj_defs)
qed

lemma pq_pop_rep:
  assumes rep: "list_rep h l ps xs"
  shows "\<exists>h' l'. pq_pop h l = Some (h', l') \<and> list_rep h' l' (tl ps) (queue_pop xs)"
proof (cases ps)
  case Nil
  then show ?thesis using rep list_rep_length [OF rep]
    by (auto simp: pq_pop_def list_begin_def list_end_def list_rep_def)
next
  case (Cons p ps')
  then obtain x xs' where xs: "xs = x # xs'" using list_rep_length [OF rep] by (cases xs) auto
  have "list_begin l = Some p" using rep Cons by (simp add: list_begin_def list_rep_def)
  moreover obtain h' l' where "list_erase h l (Some p) = Some (h', l', first_or ps' None)"
    "list_rep h' l' ps' xs'"
    using list_erase_rep [of h l "[]" p ps' "[]" x xs'] rep Cons xs by auto
  ultimately show ?thesis using Cons xs by (simp add: pq_pop_def list_end_def)
qed

lemma pq_top_rep: "list_rep h l ps xs \<Longrightarrow> pq_top h l = queue_top xs"
  using iter_rep(1) [of h l "[]" _ _ "[]"] list_rep_length [of h l ps xs]
  by (cases ps; cases xs)
    (auto simp: pq_top_def list_begin_def list_rep_def iter_deref_def)

subsection \<open>Queues ordered by a strict weak order\<close>

text \<open>
  The comparison operators the kernel uses compare a key, so that elements may tie. This is what is
  needed of them, and what the queue then guarantees: the top is a maximal element, a push keeps the
  order, and equal elements leave the queue in the order they came.
\<close>

definition queue_sorted :: "('a \<Rightarrow> 'a \<Rightarrow> bool) \<Rightarrow> 'a list \<Rightarrow> bool" where
  "queue_sorted gt xs = sorted_wrt (\<lambda>x y. \<not> gt y x) xs"

definition ties :: "('a \<Rightarrow> 'a \<Rightarrow> bool) \<Rightarrow> 'a \<Rightarrow> 'a \<Rightarrow> bool" where
  "ties gt e x \<longleftrightarrow> \<not> gt e x \<and> \<not> gt x e"

locale queue_order =
  fixes gt :: "'a \<Rightarrow> 'a \<Rightarrow> bool"
  assumes gt_asym: "gt x y \<Longrightarrow> \<not> gt y x"
    and gt_negtrans: "\<not> gt x y \<Longrightarrow> \<not> gt y z \<Longrightarrow> \<not> gt x z"
begin

lemma push_sorted: "queue_sorted gt xs \<Longrightarrow> queue_sorted gt (queue_push gt e xs)"
proof (induction xs)
  case Nil
  then show ?case by (simp add: queue_sorted_def)
next
  case (Cons x xs)
  have e: "\<not> gt y e" if "gt e x" "y \<in> set xs" for y
  proof -
    have "\<not> gt y x" using Cons.prems that by (simp add: queue_sorted_def)
    moreover have "\<not> gt x e" using that gt_asym by blast
    ultimately show ?thesis by (rule gt_negtrans)
  qed
  have x: "\<not> gt x e" if "gt e x" using that gt_asym by blast
  show ?case using Cons e x by (simp add: queue_sorted_def)
qed

lemma pop_sorted: "queue_sorted gt xs \<Longrightarrow> queue_sorted gt (queue_pop xs)"
  by (cases xs) (auto simp: queue_sorted_def)

lemma top_maximal: "queue_sorted gt xs \<Longrightarrow> queue_top xs = Some t \<Longrightarrow> x \<in> set xs \<Longrightarrow> \<not> gt x t"
  using gt_asym by (cases xs) (auto simp: queue_sorted_def)

lemma push_fifo:
  "queue_sorted gt xs \<Longrightarrow>
   filter (ties gt e) (queue_push gt e xs) = filter (ties gt e) xs @ [e]"
proof (induction xs)
  case Nil
  then show ?case using gt_asym by (auto simp: ties_def)
next
  case (Cons x xs)
  show ?case
  proof (cases "gt e x")
    case True
    have "\<not> ties gt e y" if "y \<in> set xs" for y
    proof -
      have "\<not> gt y x" using Cons.prems that by (simp add: queue_sorted_def)
      with True have "gt e y" using gt_negtrans by blast
      then show ?thesis by (simp add: ties_def)
    qed
    then have "filter (ties gt e) xs = []" by (simp add: filter_empty_conv)
    moreover have "\<not> ties gt e x" "ties gt e e" using True gt_asym by (auto simp: ties_def)
    ultimately show ?thesis using True by simp
  next
    case False
    then show ?thesis using Cons by (simp add: queue_sorted_def)
  qed
qed

end

end
