(* ===== verification/Common_Hashmap.thy ===== *)
theory Common_Hashmap
  imports Common_List
begin

text \<open>
  The hash of \<open>Kernel/Common/Hash/MurmurHash3.cpp\<close>, the hash map of \<open>Kernel/Common/Hashmap.h\<close>
  and, as its first client, the pipe table of \<open>Kernel/Tasks/Task.h\<close>.

  A bucket is a \<open>Common::List\<close>, modelled by the sequence of its elements (the view that
  theory \<open>Common_List\<close> justifies); a hash map iterator is the bucket number and the position in it.
  The parameter \<open>kb\<close> gives the object representation of a key, the bytes that are hashed.
  A result \<^const>\<open>None\<close> is a fault: the division by a zero bucket count of a moved-from map, or a
  failed \<open>KERNEL_ASSERT\<close>.
\<close>

subsection \<open>MurmurHash3\<close>

definition rotl64 :: "u64 \<Rightarrow> nat \<Rightarrow> u64" where
  "rotl64 x r = push_bit r x OR drop_bit (64 - r) x"

definition fmix64 :: "u64 \<Rightarrow> u64" where
  "fmix64 k =
     (let k = k XOR drop_bit 33 k;
          k = k * 0xff51afd7ed558ccd;
          k = k XOR drop_bit 33 k;
          k = k * 0xc4ceb9fe1a85ec53;
          k = k XOR drop_bit 33 k
      in k)"

definition xor_bytes :: "u8 list \<Rightarrow> u64" where
  "xor_bytes bs = fold (\<lambda>i k. k XOR push_bit (8 * i) (ucast (bs ! i))) (rev [0..<length bs]) 0"

definition getblock64 :: "u8 list \<Rightarrow> nat \<Rightarrow> u64" where
  "getblock64 data i = xor_bytes (take 8 (drop (8 * i) data))"

definition murmur_c1 :: u64 where "murmur_c1 = 0x87c37b91114253d5"
definition murmur_c2 :: u64 where "murmur_c2 = 0x4cf5ad432745937f"

definition murmur_k1 :: "u64 \<Rightarrow> u64" where
  "murmur_k1 k1 = rotl64 (k1 * murmur_c1) 31 * murmur_c2"

definition murmur_k2 :: "u64 \<Rightarrow> u64" where
  "murmur_k2 k2 = rotl64 (k2 * murmur_c2) 33 * murmur_c1"

fun murmur_body :: "u8 list \<Rightarrow> nat \<Rightarrow> nat \<Rightarrow> u64 \<times> u64 \<Rightarrow> u64 \<times> u64" where
  "murmur_body data i 0 (h1, h2) = (h1, h2)"
| "murmur_body data i (Suc n) (h1, h2) =
     (let k1 = getblock64 data (i * 2);
          k2 = getblock64 data (i * 2 + 1);
          h1 = h1 XOR murmur_k1 k1;
          h1 = (rotl64 h1 27 + h2) * 5 + 0x52dce729;
          h2 = h2 XOR murmur_k2 k2;
          h2 = (rotl64 h2 31 + h1) * 5 + 0x38495ab5
      in murmur_body data (Suc i) n (h1, h2))"

definition murmur_tail :: "u8 list \<Rightarrow> u64 \<times> u64 \<Rightarrow> u64 \<times> u64" where
  "murmur_tail tail h =
     (let h2 = (if 9 \<le> length tail then snd h XOR murmur_k2 (xor_bytes (drop 8 tail)) else snd h);
          h1 = (if 1 \<le> length tail then fst h XOR murmur_k1 (xor_bytes (take 8 tail)) else fst h)
      in (h1, h2))"

definition MurmurHash3_x64_128 :: "u8 list \<Rightarrow> u32 \<Rightarrow> u64 \<times> u64" where
  "MurmurHash3_x64_128 key seed =
     (let nblocks = length key div 16;
          (h1, h2) = murmur_body key 0 nblocks (ucast seed, ucast seed);
          (h1, h2) = murmur_tail (drop (nblocks * 16) key) (h1, h2);
          h1 = h1 XOR of_nat (length key);
          h2 = h2 XOR of_nat (length key);
          h1 = h1 + h2;
          h2 = h2 + h1;
          h1 = fmix64 h1;
          h2 = fmix64 h2;
          h1 = h1 + h2;
          h2 = h2 + h1
      in (h1, h2))"

subsection \<open>The hash map\<close>

record ('k, 'v) Hashmap =
  m_bucketCount :: u64
  hm_size :: u64
  m_bucketArray :: "('k \<times> 'v) list list"

datatype hm_iter = HEnd | HAt nat nat

definition hm_new :: "('k, 'v) Hashmap" where
  "hm_new = \<lparr>m_bucketCount = 1, hm_size = 0, m_bucketArray = [[]]\<rparr>"

definition bucket_index :: "('k \<Rightarrow> u8 list) \<Rightarrow> ('k, 'v) Hashmap \<Rightarrow> 'k \<Rightarrow> nat option" where
  "bucket_index kb hm key =
     (if m_bucketCount hm = 0 then None
      else Some (unat (fst (MurmurHash3_x64_128 (kb key) 3) mod m_bucketCount hm)))"

fun find_from :: "'k \<Rightarrow> ('k \<times> 'v) list \<Rightarrow> nat \<Rightarrow> nat option" where
  "find_from key [] i = None"
| "find_from key ((k, v) # es) i = (if k = key then Some i else find_from key es (Suc i))"

definition hm_find :: "('k \<Rightarrow> u8 list) \<Rightarrow> ('k, 'v) Hashmap \<Rightarrow> 'k \<Rightarrow> hm_iter option" where
  "hm_find kb hm key = do {
     b \<leftarrow> bucket_index kb hm key;
     Some (case find_from key (m_bucketArray hm ! b) 0 of None \<Rightarrow> HEnd | Some i \<Rightarrow> HAt b i)
   }"

fun hm_deref :: "('k, 'v) Hashmap \<Rightarrow> hm_iter \<Rightarrow> ('k \<times> 'v) option" where
  "hm_deref hm HEnd = None"
| "hm_deref hm (HAt b i) =
     (if b < length (m_bucketArray hm) \<and> i < length (m_bucketArray hm ! b)
      then Some (m_bucketArray hm ! b ! i) else None)"

definition update_size_on_insertion :: "('k, 'v) Hashmap \<Rightarrow> ('k, 'v) Hashmap" where
  "update_size_on_insertion hm = hm\<lparr>hm_size := hm_size hm + 1\<rparr>"

definition update_size_on_removal :: "('k, 'v) Hashmap \<Rightarrow> ('k, 'v) Hashmap" where
  "update_size_on_removal hm = hm\<lparr>hm_size := hm_size hm - 1\<rparr>"

definition force_insert ::
  "('k \<Rightarrow> u8 list) \<Rightarrow> ('k, 'v) Hashmap \<Rightarrow> 'k \<times> 'v \<Rightarrow> (('k, 'v) Hashmap \<times> hm_iter) option"
where
  "force_insert kb hm value = do {
     let hm = update_size_on_insertion hm;
     b \<leftarrow> bucket_index kb hm (fst value);
     let bucket = m_bucketArray hm ! b;
     Some (hm\<lparr>m_bucketArray := (m_bucketArray hm)[b := bucket @ [value]]\<rparr>, HAt b (length bucket))
   }"

definition hm_insert ::
  "('k \<Rightarrow> u8 list) \<Rightarrow> ('k, 'v) Hashmap \<Rightarrow> 'k \<times> 'v \<Rightarrow> (('k, 'v) Hashmap \<times> hm_iter \<times> bool) option"
where
  "hm_insert kb hm value = do {
     it \<leftarrow> hm_find kb hm (fst value);
     if it \<noteq> HEnd then Some (hm, it, False)
     else do { (hm, it) \<leftarrow> force_insert kb hm value; Some (hm, it, True) }
   }"

fun hm_erase_iter :: "('k, 'v) Hashmap \<Rightarrow> hm_iter \<Rightarrow> ('k, 'v) Hashmap" where
  "hm_erase_iter hm HEnd = hm"
| "hm_erase_iter hm (HAt b i) =
     update_size_on_removal
       (hm\<lparr>m_bucketArray := (m_bucketArray hm)[b := seq_erase i (m_bucketArray hm ! b)]\<rparr>)"

definition hm_erase :: "('k \<Rightarrow> u8 list) \<Rightarrow> ('k, 'v) Hashmap \<Rightarrow> 'k \<Rightarrow> ('k, 'v) Hashmap option" where
  "hm_erase kb hm key = do {
     it \<leftarrow> hm_find kb hm key;
     Some (if it \<noteq> HEnd then hm_erase_iter hm it else hm)
   }"

definition hm_index :: "('k \<Rightarrow> u8 list) \<Rightarrow> ('k, 'v) Hashmap \<Rightarrow> 'k \<Rightarrow> 'v option" where
  "hm_index kb hm key = do {
     it \<leftarrow> hm_find kb hm key;
     if it = HEnd then None else map_option snd (hm_deref hm it)
   }"

definition hm_clear :: "('k, 'v) Hashmap \<Rightarrow> ('k, 'v) Hashmap" where
  "hm_clear hm = hm\<lparr>m_bucketArray := map (\<lambda>_. []) (m_bucketArray hm), hm_size := 0\<rparr>"

definition hm_swap ::
  "('k, 'v) Hashmap \<Rightarrow> ('k, 'v) Hashmap \<Rightarrow> ('k, 'v) Hashmap \<times> ('k, 'v) Hashmap"
where
  "hm_swap a b = (b, a)"

definition hm_move :: "('k, 'v) Hashmap \<Rightarrow> ('k, 'v) Hashmap \<times> ('k, 'v) Hashmap" where
  "hm_move other = (other, \<lparr>m_bucketCount = 0, hm_size = 0, m_bucketArray = []\<rparr>)"

definition hm_begin :: "('k, 'v) Hashmap \<Rightarrow> hm_iter" where
  "hm_begin hm = (if hm_size hm = 0 then HEnd else HAt 0 0)"

function hm_skip :: "('k, 'v) Hashmap \<Rightarrow> nat \<Rightarrow> nat \<Rightarrow> hm_iter" where
  "hm_skip hm b i =
     (if b < length (m_bucketArray hm) \<and> i \<ge> length (m_bucketArray hm ! b) then
        (if Suc b = length (m_bucketArray hm) then HEnd else hm_skip hm (Suc b) 0)
      else HAt b i)"
  by pat_completeness auto
termination
  by (relation "measure (\<lambda>(hm, b, i). length (m_bucketArray hm) - b)") auto

declare hm_skip.simps [simp del]

fun hm_next :: "('k, 'v) Hashmap \<Rightarrow> hm_iter \<Rightarrow> hm_iter" where
  "hm_next hm HEnd = HEnd"
| "hm_next hm (HAt b i) = hm_skip hm b (Suc i)"

partial_function (option) hm_collect ::
  "('k, 'v) Hashmap \<Rightarrow> hm_iter \<Rightarrow> ('k \<times> 'v) list option"
where
  "hm_collect hm it =
     (if it = HEnd then Some []
      else do { e \<leftarrow> hm_deref hm it; es \<leftarrow> hm_collect hm (hm_next hm it); Some (e # es) })"

fun hm_insert_all ::
  "('k \<Rightarrow> u8 list) \<Rightarrow> ('k, 'v) Hashmap \<Rightarrow> ('k \<times> 'v) list \<Rightarrow> ('k, 'v) Hashmap option"
where
  "hm_insert_all kb hm [] = Some hm"
| "hm_insert_all kb hm (e # es) = do { (hm, _, _) \<leftarrow> hm_insert kb hm e; hm_insert_all kb hm es }"

definition hm_copy :: "('k \<Rightarrow> u8 list) \<Rightarrow> ('k, 'v) Hashmap \<Rightarrow> ('k, 'v) Hashmap option" where
  "hm_copy kb other = do { es \<leftarrow> hm_collect other (hm_begin other); hm_insert_all kb hm_new es }"

subsection \<open>Invariant and abstraction\<close>

text \<open>
  Every entry lies in the bucket its key hashes to, no key occurs twice, and the size counts the
  entries. The abstraction is the partial map from keys to values.
\<close>

definition hm_inv :: "('k \<Rightarrow> u8 list) \<Rightarrow> ('k, 'v) Hashmap \<Rightarrow> bool" where
  "hm_inv kb hm \<longleftrightarrow>
     m_bucketCount hm \<noteq> 0 \<and> length (m_bucketArray hm) = unat (m_bucketCount hm) \<and>
     (\<forall>b < length (m_bucketArray hm).
        distinct (map fst (m_bucketArray hm ! b)) \<and>
        (\<forall>k \<in> fst ` set (m_bucketArray hm ! b). bucket_index kb hm k = Some b)) \<and>
     hm_size hm = of_nat (length (concat (m_bucketArray hm)))"

definition hm_bucket :: "('k \<Rightarrow> u8 list) \<Rightarrow> ('k, 'v) Hashmap \<Rightarrow> 'k \<Rightarrow> nat" where
  "hm_bucket kb hm key = unat (fst (MurmurHash3_x64_128 (kb key) 3) mod m_bucketCount hm)"

definition hm_lookup :: "('k \<Rightarrow> u8 list) \<Rightarrow> ('k, 'v) Hashmap \<Rightarrow> 'k \<Rightarrow> 'v option" where
  "hm_lookup kb hm key = map_of (m_bucketArray hm ! hm_bucket kb hm key) key"

lemma bucket_index_inv [simp]:
  "m_bucketCount hm \<noteq> 0 \<Longrightarrow> bucket_index kb hm k = Some (hm_bucket kb hm k)"
  by (simp add: bucket_index_def hm_bucket_def)

lemma hm_bucket_less: "hm_inv kb hm \<Longrightarrow> hm_bucket kb hm k < length (m_bucketArray hm)"
  by (auto simp: hm_inv_def hm_bucket_def unat_mod intro!: mod_less_divisor
      simp: unat_gt_0)

lemma hm_bucket_cong: "m_bucketCount hm' = m_bucketCount hm \<Longrightarrow> hm_bucket kb hm' k = hm_bucket kb hm k"
  by (simp add: hm_bucket_def)

lemma find_from_None: "find_from k es i = None \<longleftrightarrow> map_of es k = None"
  by (induction es arbitrary: i) auto

lemma find_from_Some:
  "find_from k es i = Some j \<Longrightarrow>
   \<exists>n. j = i + n \<and> n < length es \<and> fst (es ! n) = k \<and> map_of es k = Some (snd (es ! n))"
proof (induction es arbitrary: i)
  case Nil
  then show ?case by simp
next
  case (Cons e es)
  show ?case
  proof (cases "fst e = k")
    case True
    with Cons.prems show ?thesis by (intro exI [of _ 0]) (cases e, auto)
  next
    case False
    with Cons.prems have "find_from k es (Suc i) = Some j" by (cases e) auto
    from Cons.IH [OF this] obtain n where "j = Suc i + n" "n < length es" "fst (es ! n) = k"
      "map_of es k = Some (snd (es ! n))" by blast
    with False show ?thesis by (intro exI [of _ "Suc n"]) (cases e, auto)
  qed
qed

lemma map_of_seq_erase:
  "distinct (map fst es) \<Longrightarrow> n < length es \<Longrightarrow>
   map_of (seq_erase n es) = (map_of es)(fst (es ! n) := None)"
proof (induction es arbitrary: n)
  case Nil
  then show ?case by simp
next
  case (Cons e es)
  show ?case
  proof (cases n)
    case 0
    have "map_of es (fst e) = None" using Cons.prems by (simp add: map_of_eq_None_iff)
    with 0 show ?thesis by (auto simp: fun_eq_iff)
  next
    case (Suc m)
    have "fst (es ! m) \<noteq> fst e" using Cons.prems Suc by (metis distinct.simps(2) length_Cons
        length_map list.simps(9) not_less_eq nth_map nth_mem)
    with Suc Cons show ?thesis by (auto simp: fun_eq_iff)
  qed
qed

subsection \<open>Lookup, insertion and removal\<close>

lemma hm_find_None:
  assumes "hm_inv kb hm" shows "hm_find kb hm k = Some HEnd \<longleftrightarrow> hm_lookup kb hm k = None"
  using assms find_from_None [of k "m_bucketArray hm ! hm_bucket kb hm k" 0]
  by (auto simp: hm_find_def hm_inv_def hm_lookup_def split: option.splits)

lemma hm_find_Some:
  assumes "hm_inv kb hm" and "hm_lookup kb hm k = Some v"
  shows "\<exists>i. hm_find kb hm k = Some (HAt (hm_bucket kb hm k) i) \<and>
             i < length (m_bucketArray hm ! hm_bucket kb hm k) \<and>
             m_bucketArray hm ! hm_bucket kb hm k ! i = (k, v)"
proof -
  let ?es = "m_bucketArray hm ! hm_bucket kb hm k"
  obtain j where j: "find_from k ?es 0 = Some j"
    using assms find_from_None [of k ?es 0] by (cases "find_from k ?es 0") (auto simp: hm_lookup_def)
  from find_from_Some [OF j] assms(2) have "j < length ?es" "?es ! j = (k, v)"
    by (auto simp: hm_lookup_def prod_eq_iff)
  with j assms(1) show ?thesis by (auto simp: hm_find_def hm_inv_def)
qed

lemma hm_deref_find:
  assumes "hm_inv kb hm"
  shows "\<exists>it. hm_find kb hm k = Some it \<and> map_option snd (hm_deref hm it) = hm_lookup kb hm k \<and>
              (it = HEnd \<longleftrightarrow> hm_lookup kb hm k = None)"
proof (cases "hm_lookup kb hm k")
  case None
  with hm_find_None [OF assms] show ?thesis by auto
next
  case (Some v)
  from hm_find_Some [OF assms Some] hm_bucket_less [OF assms, of k] Some show ?thesis by auto
qed

lemma bucket_replace_inv:
  assumes inv: "hm_inv kb hm" and b: "b < length (m_bucketArray hm)"
    and d: "distinct (map fst es)" and k: "\<forall>k \<in> fst ` set es. hm_bucket kb hm k = b"
    and sz: "sz + of_nat (length (m_bucketArray hm ! b)) = hm_size hm + of_nat (length es)"
  shows "hm_inv kb (hm\<lparr>hm_size := sz, m_bucketArray := (m_bucketArray hm)[b := es]\<rparr>)"
proof -
  have "length (concat (m_bucketArray hm)) + length es =
      length (concat ((m_bucketArray hm)[b := es])) + length (m_bucketArray hm ! b)"
    using length_concat_update [OF b, of es] by simp
  then have "of_nat (length (concat (m_bucketArray hm))) + of_nat (length es) =
      (of_nat (length (concat ((m_bucketArray hm)[b := es]))) +
       of_nat (length (m_bucketArray hm ! b)) :: u64)"
    by (metis of_nat_add)
  with sz inv have "sz = of_nat (length (concat ((m_bucketArray hm)[b := es])))"
    by (simp add: hm_inv_def)
  with inv b d k show ?thesis
    by (fastforce simp: hm_inv_def nth_list_update hm_bucket_def bucket_index_def)
qed

lemma hm_bucketD:
  assumes "hm_inv kb hm" and "b < length (m_bucketArray hm)" and "e \<in> set (m_bucketArray hm ! b)"
  shows "hm_bucket kb hm (fst e) = b"
  using assms by (fastforce simp: hm_inv_def)

lemma hm_lookup_replace:
  "b < length (m_bucketArray hm) \<Longrightarrow>
   hm_lookup kb (hm\<lparr>hm_size := sz, m_bucketArray := (m_bucketArray hm)[b := es]\<rparr>) k =
     (if hm_bucket kb hm k = b then map_of es k else hm_lookup kb hm k)"
  by (simp add: hm_lookup_def hm_bucket_def)

lemma hm_insert_new:
  assumes inv: "hm_inv kb hm" and new: "hm_lookup kb hm k = None"
  shows "\<exists>hm' it. hm_insert kb hm (k, v) = Some (hm', it, True) \<and> hm_inv kb hm' \<and>
           hm_lookup kb hm' = (hm_lookup kb hm)(k \<mapsto> v) \<and> hm_deref hm' it = Some (k, v) \<and>
           hm_size hm' = hm_size hm + 1 \<and> m_bucketCount hm' = m_bucketCount hm"
proof -
  let ?b = "hm_bucket kb hm k"
  let ?es = "m_bucketArray hm ! ?b"
  let ?hm = "hm\<lparr>hm_size := hm_size hm + 1, m_bucketArray := (m_bucketArray hm)[?b := ?es @ [(k, v)]]\<rparr>"
  have b: "?b < length (m_bucketArray hm)" using hm_bucket_less [OF inv] .
  have cnt: "m_bucketCount hm \<noteq> 0" using inv by (simp add: hm_inv_def)
  have k: "k \<notin> fst ` set ?es" using new by (simp add: hm_lookup_def map_of_eq_None_iff)
  have "hm_inv kb ?hm"
    by (rule bucket_replace_inv [OF inv b])
      (use inv b k in \<open>auto simp: hm_inv_def hm_bucketD [OF inv b]\<close>)
  moreover have "hm_lookup kb ?hm = (hm_lookup kb hm)(k \<mapsto> v)"
  proof
    fix k'
    have "map_of (?es @ [(k, v)]) k' = (if k' = k then Some v else map_of ?es k')"
      using k by (simp add: map_add_Some_iff map_of_eq_None_iff [THEN iffD2] map_add_def
          split: option.split)
    then show "hm_lookup kb ?hm k' = ((hm_lookup kb hm)(k \<mapsto> v)) k'"
      using b by (simp only: hm_lookup_replace) (simp add: hm_lookup_def)
  qed
  moreover have "hm_insert kb hm (k, v) = Some (?hm, HAt ?b (length ?es), True)"
    using cnt hm_find_None [OF inv, of k] new hm_bucket_cong [of "update_size_on_insertion hm" hm kb k]
    by (simp add: hm_insert_def force_insert_def update_size_on_insertion_def Let_def)
  ultimately show ?thesis using b by auto
qed

lemma hm_insert_old:
  assumes inv: "hm_inv kb hm" and old: "hm_lookup kb hm k = Some w"
  shows "\<exists>it. hm_insert kb hm (k, v) = Some (hm, it, False) \<and> hm_deref hm it = Some (k, w)"
  using hm_find_Some [OF assms] hm_bucket_less [OF inv, of k] by (auto simp: hm_insert_def)

lemma hm_erase_inv:
  assumes inv: "hm_inv kb hm"
  shows "\<exists>hm'. hm_erase kb hm k = Some hm' \<and> hm_inv kb hm' \<and>
           hm_lookup kb hm' = (hm_lookup kb hm)(k := None) \<and> m_bucketCount hm' = m_bucketCount hm"
proof (cases "hm_lookup kb hm k")
  case None
  with hm_find_None [OF inv, of k] inv show ?thesis by (auto simp: hm_erase_def)
next
  case (Some v)
  let ?b = "hm_bucket kb hm k"
  let ?es = "m_bucketArray hm ! ?b"
  have b: "?b < length (m_bucketArray hm)" using hm_bucket_less [OF inv] .
  from hm_find_Some [OF inv Some] obtain i where f: "hm_find kb hm k = Some (HAt ?b i)"
    and i: "i < length ?es" "?es ! i = (k, v)" by blast
  let ?hm = "hm\<lparr>hm_size := hm_size hm - 1, m_bucketArray := (m_bucketArray hm)[?b := seq_erase i ?es]\<rparr>"
  have d: "distinct (map fst ?es)" using inv b by (simp add: hm_inv_def)
  have "map fst (seq_erase i ?es) = seq_erase i (map fst ?es)"
    by (simp add: seq_erase_def take_map drop_map)
  then have d': "distinct (map fst (seq_erase i ?es))" using d distinct_seq_erase by metis
  have keys: "\<forall>k' \<in> fst ` set (seq_erase i ?es). hm_bucket kb hm k' = ?b"
    using set_seq_erase_subset [of i ?es] hm_bucketD [OF inv b] by blast
  have "length ?es = length (seq_erase i ?es) + 1" using i by simp
  then have "(of_nat (length ?es) :: u64) = of_nat (length (seq_erase i ?es)) + 1"
    by (metis of_nat_1 of_nat_add)
  then have "hm_size hm - 1 + of_nat (length ?es) = hm_size hm + of_nat (length (seq_erase i ?es))"
    by simp
  then have "hm_inv kb ?hm" by (rule bucket_replace_inv [OF inv b d' keys])
  moreover have "hm_lookup kb ?hm = (hm_lookup kb hm)(k := None)"
  proof
    fix k'
    have "map_of (seq_erase i ?es) k' = (if k' = k then None else map_of ?es k')"
      using map_of_seq_erase [OF d i(1)] i by simp
    then show "hm_lookup kb ?hm k' = ((hm_lookup kb hm)(k := None)) k'"
      using b by (simp only: hm_lookup_replace) (simp add: hm_lookup_def)
  qed
  moreover have "hm_erase kb hm k = Some ?hm"
    using f by (simp add: hm_erase_def update_size_on_removal_def)
  ultimately show ?thesis by auto
qed

subsection \<open>The contract of a key-value store\<close>

text \<open>
  What the kernel's tables rely on: a lookup returns the stored value, an insertion of a new key
  stores it, an insertion of a present key changes nothing and says so, a removal forgets the key.
  \<open>get\<close> is \<open>find(k)\<close> followed by reading \<open>second\<close>, with the inner \<^const>\<open>None\<close> for \<open>end()\<close>.
\<close>

locale kv_store =
  fixes invar :: "'m \<Rightarrow> bool"
    and look :: "'m \<Rightarrow> 'k \<Rightarrow> 'v option"
    and get :: "'m \<Rightarrow> 'k \<Rightarrow> 'v option option"
    and put :: "'m \<Rightarrow> 'k \<Rightarrow> 'v \<Rightarrow> ('m \<times> bool) option"
    and del :: "'m \<Rightarrow> 'k \<Rightarrow> 'm option"
  assumes get_law: "invar m \<Longrightarrow> get m k = Some (look m k)"
    and put_new: "invar m \<Longrightarrow> look m k = None \<Longrightarrow>
      \<exists>m'. put m k v = Some (m', True) \<and> invar m' \<and> look m' = (look m)(k \<mapsto> v)"
    and put_old: "invar m \<Longrightarrow> look m k = Some w \<Longrightarrow> put m k v = Some (m, False)"
    and del_law: "invar m \<Longrightarrow> \<exists>m'. del m k = Some m' \<and> invar m' \<and> look m' = (look m)(k := None)"
begin

lemma put_get:
  assumes "invar m"
  shows "\<exists>m' fresh. put m k v = Some (m', fresh) \<and> invar m' \<and> (fresh \<longleftrightarrow> look m k = None) \<and>
           get m' k = Some (Some (if fresh then v else the (look m k))) \<and>
           (\<forall>k'. k' \<noteq> k \<longrightarrow> get m' k' = get m k')"
proof (cases "look m k")
  case None
  with put_new [OF assms] obtain m' where "put m k v = Some (m', True)" "invar m'"
    "look m' = (look m)(k \<mapsto> v)" by blast
  with None assms get_law show ?thesis by auto
next
  case (Some w)
  with put_old [OF assms Some] assms get_law show ?thesis by auto
qed

lemma put_del:
  assumes "invar m" and "look m k = None"
  shows "\<exists>m' m''. put m k v = Some (m', True) \<and> del m' k = Some m'' \<and> invar m'' \<and>
           look m'' = look m"
proof -
  obtain m' where 1: "put m k v = Some (m', True)" "invar m'" "look m' = (look m)(k \<mapsto> v)"
    using put_new [OF assms] by blast
  from del_law [OF 1(2)] obtain m'' where "del m' k = Some m''" "invar m''"
    "look m'' = (look m')(k := None)" by blast
  with 1 assms(2) show ?thesis by (auto simp: fun_eq_iff)
qed

lemma del_get:
  assumes "invar m"
  shows "\<exists>m'. del m k = Some m' \<and> invar m' \<and> get m' k = Some None \<and>
           (\<forall>k'. k' \<noteq> k \<longrightarrow> get m' k' = get m k')"
  using del_law [OF assms, of k] get_law assms by auto

end

definition hm_get :: "('k \<Rightarrow> u8 list) \<Rightarrow> ('k, 'v) Hashmap \<Rightarrow> 'k \<Rightarrow> 'v option option" where
  "hm_get kb hm k = do { it \<leftarrow> hm_find kb hm k; Some (map_option snd (hm_deref hm it)) }"

definition hm_put ::
  "('k \<Rightarrow> u8 list) \<Rightarrow> ('k, 'v) Hashmap \<Rightarrow> 'k \<Rightarrow> 'v \<Rightarrow> (('k, 'v) Hashmap \<times> bool) option"
where
  "hm_put kb hm k v = map_option (\<lambda>(hm', it, fresh). (hm', fresh)) (hm_insert kb hm (k, v))"

interpretation hm: kv_store "hm_inv kb" "hm_lookup kb" "hm_get kb" "hm_put kb" "hm_erase kb"
  for kb :: "'k \<Rightarrow> u8 list"
proof (standard, goal_cases)
  case (1 m k)
  then show ?case using hm_deref_find [of kb m k] by (auto simp: hm_get_def)
next
  case (2 m k v)
  then show ?case using hm_insert_new [of kb m k v] by (auto simp: hm_put_def)
next
  case (3 m k w v)
  then show ?case using hm_insert_old [of kb m k w v] by (auto simp: hm_put_def)
next
  case (4 m k)
  then show ?case using hm_erase_inv [of kb m k] by auto
qed

lemma hm_new_inv [simp]: "hm_inv kb hm_new"
  by (simp add: hm_inv_def hm_new_def)

lemma hm_new_lookup [simp]: "hm_lookup kb hm_new = Map.empty"
proof
  fix k
  have "hm_bucket kb (hm_new :: ('a, 'b) Hashmap) k < 1"
    using hm_bucket_less [OF hm_new_inv, of kb k] by (simp add: hm_new_def)
  then show "hm_lookup kb hm_new k = (None :: 'b option)" by (simp add: hm_lookup_def hm_new_def)
qed

subsection \<open>Iteration and copying\<close>

lemma collect_in_bucket:
  assumes rest: "hm_collect hm (hm_skip hm b (length (m_bucketArray hm ! b))) = Some es"
    and b: "b < length (m_bucketArray hm)" and i: "i \<le> length (m_bucketArray hm ! b)"
  shows "hm_collect hm (hm_skip hm b i) = Some (drop i (m_bucketArray hm ! b) @ es)"
  using i
proof (induction i rule: inc_induct)
  case base
  with rest show ?case by simp
next
  case (step n)
  then have "hm_skip hm b n = HAt b n" by (simp add: hm_skip.simps)
  then have "hm_collect hm (hm_skip hm b n) =
      do { es \<leftarrow> hm_collect hm (hm_skip hm b (Suc n)); Some (m_bucketArray hm ! b ! n # es) }"
    using b step by (subst hm_collect.simps) simp
  with step show ?case by (simp add: Cons_nth_drop_Suc [symmetric])
qed

lemma collect_skip:
  assumes "b < length (m_bucketArray hm)" and "i \<le> length (m_bucketArray hm ! b)"
  shows "hm_collect hm (hm_skip hm b i) =
    Some (drop i (m_bucketArray hm ! b) @ concat (drop (Suc b) (m_bucketArray hm)))"
  using assms
proof (induction "length (m_bucketArray hm) - b" arbitrary: b i)
  case 0
  then show ?case by simp
next
  case (Suc n)
  have "hm_collect hm (hm_skip hm b (length (m_bucketArray hm ! b))) =
      Some (concat (drop (Suc b) (m_bucketArray hm)))"
  proof (cases "Suc b = length (m_bucketArray hm)")
    case True
    then show ?thesis by (simp add: hm_skip.simps hm_collect.simps)
  next
    case False
    then have lt: "Suc b < length (m_bucketArray hm)" using Suc.prems by simp
    then have "hm_skip hm b (length (m_bucketArray hm ! b)) = hm_skip hm (Suc b) 0"
      using Suc.prems False by (subst hm_skip.simps) simp
    moreover have "hm_collect hm (hm_skip hm (Suc b) 0) =
        Some (drop 0 (m_bucketArray hm ! Suc b) @ concat (drop (Suc (Suc b)) (m_bucketArray hm)))"
      using Suc.hyps(2) lt by (intro Suc.hyps(1)) auto
    ultimately show ?thesis using lt by (simp add: Cons_nth_drop_Suc [symmetric])
  qed
  then show ?case by (rule collect_in_bucket) (use Suc.prems in auto)
qed

lemma hm_insert_all_lookup:
  assumes "hm_inv kb hm" and "distinct (map fst es)" and "\<forall>k \<in> fst ` set es. hm_lookup kb hm k = None"
  shows "\<exists>hm'. hm_insert_all kb hm es = Some hm' \<and> hm_inv kb hm' \<and>
           hm_lookup kb hm' = hm_lookup kb hm ++ map_of es"
  using assms
proof (induction es arbitrary: hm)
  case Nil
  then show ?case by simp
next
  case (Cons e es)
  obtain k v where e: "e = (k, v)" by (cases e)
  obtain hm1 it where 1: "hm_insert kb hm (k, v) = Some (hm1, it, True)" "hm_inv kb hm1"
    "hm_lookup kb hm1 = (hm_lookup kb hm)(k \<mapsto> v)"
    using hm_insert_new [of kb hm k v] Cons.prems e by auto
  have "\<forall>k \<in> fst ` set es. hm_lookup kb hm1 k = None" using Cons.prems 1 e by auto
  with Cons.IH [OF 1(2)] Cons.prems(2) obtain hm' where
    a: "hm_insert_all kb hm1 es = Some hm'" "hm_inv kb hm'" and
    l: "hm_lookup kb hm' = hm_lookup kb hm1 ++ map_of es"
    by auto
  have "map_of es k = None" using Cons.prems e by (simp add: map_of_eq_None_iff)
  then have "(hm_lookup kb hm)(k \<mapsto> v) ++ map_of es = hm_lookup kb hm ++ map_of (e # es)"
    by (auto simp: e fun_eq_iff map_add_def split: option.split)
  with l 1(3) have "hm_lookup kb hm' = hm_lookup kb hm ++ map_of (e # es)" by (simp only:)
  moreover have "hm_insert_all kb hm (e # es) = Some hm'" using 1 e a by simp
  ultimately show ?case using a by blast
qed

lemma hm_collect_all:
  assumes "hm_inv kb hm" and "m_bucketCount hm = 1" and "length (concat (m_bucketArray hm)) < 2 ^ 64"
  shows "hm_collect hm (hm_begin hm) = Some (m_bucketArray hm ! 0)"
proof -
  from assms(1,2) have "length (m_bucketArray hm) = 1" by (simp add: hm_inv_def)
  then obtain es where arr: "m_bucketArray hm = [es]" by (metis One_nat_def length_0_conv length_Suc_conv)
  show ?thesis
  proof (cases "es = []")
    case True
    with assms(1) arr show ?thesis by (simp add: hm_begin_def hm_inv_def hm_collect.simps)
  next
    case False
    with assms(1,3) arr have "hm_size hm \<noteq> 0"
      by (auto simp: hm_inv_def unat_of_nat_64 dest!: arg_cong [where f = unat])
    then have "hm_begin hm = hm_skip hm 0 0" using False arr by (simp add: hm_begin_def hm_skip.simps)
    with collect_skip [of 0 hm 0] arr show ?thesis by simp
  qed
qed

subsection \<open>The pipe table and the descriptor table\<close>

definition u64_bytes :: "u64 \<Rightarrow> u8 list" where
  "u64_bytes w = map (\<lambda>i. ucast (drop_bit (8 * i) w)) [0..<8]"

record PipeTable =
  m_nextAvailID :: u64
  pt_hashmap :: "(u64, addr) Hashmap"

definition PipeTable_new :: PipeTable where
  "PipeTable_new = \<lparr>m_nextAvailID = 3, pt_hashmap = hm_new\<rparr>"

definition PipeTable_insert :: "PipeTable \<Rightarrow> addr \<Rightarrow> (PipeTable \<times> u64) option" where
  "PipeTable_insert t pipe = do {
     (hm, it, _) \<leftarrow> hm_insert u64_bytes (pt_hashmap t) (m_nextAvailID t, pipe);
     e \<leftarrow> hm_deref hm it;
     Some (\<lparr>m_nextAvailID = m_nextAvailID t + 1, pt_hashmap = hm\<rparr>, fst e)
   }"

definition PipeTable_remove :: "PipeTable \<Rightarrow> u64 \<Rightarrow> PipeTable option" where
  "PipeTable_remove t ident = do {
     hm \<leftarrow> hm_erase u64_bytes (pt_hashmap t) ident;
     Some (t\<lparr>pt_hashmap := hm\<rparr>)
   }"

definition PipeTable_get :: "PipeTable \<Rightarrow> u64 \<Rightarrow> addr option option" where
  "PipeTable_get t pipeId = do {
     it \<leftarrow> hm_find u64_bytes (pt_hashmap t) pipeId;
     if it \<noteq> HEnd then map_option (Some \<circ> snd) (hm_deref (pt_hashmap t) it) else Some None
   }"

definition pt_inv :: "PipeTable \<Rightarrow> bool" where
  "pt_inv t \<longleftrightarrow> hm_inv u64_bytes (pt_hashmap t) \<and>
     (\<forall>i \<in> dom (hm_lookup u64_bytes (pt_hashmap t)). i < m_nextAvailID t)"

lemma PipeTable_get_lookup:
  assumes "hm_inv u64_bytes (pt_hashmap t)"
  shows "PipeTable_get t i = Some (hm_lookup u64_bytes (pt_hashmap t) i)"
  using hm_deref_find [OF assms, of i] by (auto simp: PipeTable_get_def)

record 'd DescriptorTable =
  dt_nextAvailID :: u64
  dt_hashmap :: "(u64, 'd) Hashmap"

definition DescriptorTable_insert :: "'d DescriptorTable \<Rightarrow> 'd \<Rightarrow> ('d DescriptorTable \<times> hm_iter) option" where
  "DescriptorTable_insert t descriptor = do {
     (hm, _, _) \<leftarrow> hm_insert u64_bytes (dt_hashmap t) (dt_nextAvailID t, descriptor);
     it \<leftarrow> hm_find u64_bytes hm (dt_nextAvailID t);
     Some (\<lparr>dt_nextAvailID = dt_nextAvailID t + 1, dt_hashmap = hm\<rparr>, it)
   }"

definition DescriptorTable_remove :: "'d DescriptorTable \<Rightarrow> u64 \<Rightarrow> 'd DescriptorTable option" where
  "DescriptorTable_remove t ident = do {
     hm \<leftarrow> hm_erase u64_bytes (dt_hashmap t) ident;
     Some (t\<lparr>dt_hashmap := hm\<rparr>)
   }"

definition DescriptorTable_get :: "'d DescriptorTable \<Rightarrow> u64 \<Rightarrow> hm_iter option" where
  "DescriptorTable_get t descriptorID = hm_find u64_bytes (dt_hashmap t) descriptorID"

subsection \<open>Properties\<close>

text \<open>
  C18: \<open>Hashmap::insert\<close> on a well-formed map does not fault and keeps it well-formed; it reports a new
  pair exactly when the key was absent; afterwards \<open>find\<close> returns the new value for a new key, the old
  value for a key that was present, and every other key looks up as before.
\<close>

theorem hm_insert_find:
  assumes "hm_inv kb hm"
  shows "\<exists>hm' it fresh. hm_insert kb hm (k, v) = Some (hm', it, fresh) \<and> hm_inv kb hm' \<and>
           (fresh \<longleftrightarrow> hm_get kb hm k = Some None) \<and>
           hm_get kb hm' k = Some (Some (if fresh then v else the (the (hm_get kb hm k)))) \<and>
           (\<forall>k'. k' \<noteq> k \<longrightarrow> hm_get kb hm' k' = hm_get kb hm k')"
  using hm.put_get [OF assms, of k v] hm.get_law [OF assms, of k] by (auto simp: hm_put_def)

theorem hm_insert_find_witness:
  "\<exists>hm' it fresh. hm_insert u64_bytes hm_new (5, True) = Some (hm', it, fresh) \<and> hm_inv u64_bytes hm' \<and>
     (fresh \<longleftrightarrow> hm_get u64_bytes hm_new 5 = Some (None :: bool option)) \<and>
     hm_get u64_bytes hm' 5 = Some (Some (if fresh then True else the (the (hm_get u64_bytes hm_new 5)))) \<and>
     (\<forall>k'. k' \<noteq> 5 \<longrightarrow> hm_get u64_bytes hm' k' = hm_get u64_bytes hm_new k')"
  by (rule hm_insert_find) simp

text \<open>
  \<open>Hashmap::erase\<close> by key on a well-formed map does not fault and keeps it well-formed; afterwards
  the key is not found and every other key looks up as before; and erasing a key that was just
  inserted for the first time gives back the same map of keys to values.
\<close>

theorem hm_erase_find:
  assumes "hm_inv kb hm"
  shows "(\<exists>hm'. hm_erase kb hm k = Some hm' \<and> hm_inv kb hm' \<and> hm_get kb hm' k = Some None \<and>
             (\<forall>k'. k' \<noteq> k \<longrightarrow> hm_get kb hm' k' = hm_get kb hm k')) \<and>
         (hm_lookup kb hm k = None \<longrightarrow>
            (\<exists>hm' it hm''. hm_insert kb hm (k, v) = Some (hm', it, True) \<and>
               hm_erase kb hm' k = Some hm'' \<and> hm_inv kb hm'' \<and>
               hm_lookup kb hm'' = hm_lookup kb hm))"
  using hm.del_get [OF assms, of k] hm.put_del [OF assms, of k v] by (auto simp: hm_put_def)

theorem hm_erase_find_witness:
  "(\<exists>hm'. hm_erase u64_bytes hm_new 5 = Some hm' \<and> hm_inv u64_bytes hm' \<and>
      hm_get u64_bytes hm' 5 = Some (None :: bool option)) \<and>
   (\<exists>hm' it hm''. hm_insert u64_bytes hm_new (5, True) = Some (hm', it, True) \<and>
      hm_erase u64_bytes hm' 5 = Some hm'' \<and> hm_inv u64_bytes hm'' \<and>
      hm_lookup u64_bytes hm'' = hm_lookup u64_bytes hm_new)"
proof -
  have inv: "hm_inv u64_bytes (hm_new :: (u64, bool) Hashmap)" by simp
  have "hm_lookup u64_bytes hm_new 5 = (None :: bool option)" by simp
  then show ?thesis using hm_erase_find [OF inv, of 5 True] by auto
qed

text \<open>
  Copying a hash map terminates and gives a well-formed map that holds exactly the same
  key-value pairs (the copy constructor, through the map's iterator and \<open>insert\<close>). The map has one
  bucket, as every map the kernel builds.
\<close>

theorem hm_copy_same:
  assumes inv: "hm_inv kb hm" and one: "m_bucketCount hm = 1"
    and bound: "length (concat (m_bucketArray hm)) < 2 ^ 64"
  shows "\<exists>hm'. hm_copy kb hm = Some hm' \<and> hm_inv kb hm' \<and> hm_lookup kb hm' = hm_lookup kb hm"
proof -
  let ?es = "m_bucketArray hm ! 0"
  have len: "length (m_bucketArray hm) = 1" using inv one by (simp add: hm_inv_def)
  then have d: "distinct (map fst ?es)" using inv by (simp add: hm_inv_def)
  have "hm_bucket kb hm k = 0" for k using hm_bucket_less [OF inv, of k] len by simp
  then have l: "hm_lookup kb hm = map_of ?es" by (simp add: fun_eq_iff hm_lookup_def)
  have "hm_collect hm (hm_begin hm) = Some ?es" by (rule hm_collect_all [OF inv one bound])
  moreover obtain hm' where "hm_insert_all kb hm_new ?es = Some hm'" "hm_inv kb hm'"
    "hm_lookup kb hm' = map_of ?es"
    using hm_insert_all_lookup [OF hm_new_inv d] by auto
  ultimately show ?thesis using l by (auto simp: hm_copy_def)
qed

theorem hm_copy_same_witness:
  "\<exists>hm'. hm_copy u64_bytes \<lparr>m_bucketCount = 1, hm_size = 1, m_bucketArray = [[(7, True)]]\<rparr> = Some hm' \<and>
     hm_inv u64_bytes hm' \<and>
     hm_lookup u64_bytes hm' =
       hm_lookup u64_bytes \<lparr>m_bucketCount = 1, hm_size = 1, m_bucketArray = [[(7, True)]]\<rparr>"
proof (rule hm_copy_same)
  have "unat ((x :: u64) mod 1) = 0" for x by (simp add: unat_mod)
  then show "hm_inv u64_bytes \<lparr>m_bucketCount = 1, hm_size = 1, m_bucketArray = [[(7, True)]]\<rparr>"
    by (simp add: hm_inv_def bucket_index_def)
qed simp_all

text \<open>
  A task's pipe table gives out fresh descriptors: \<open>PipeTable::insert\<close> does not fault, returns
  an identifier no open pipe has, under which \<open>get\<close> then finds the pipe, leaves every other
  identifier as it was, and keeps the table's invariant, as long as the 64-bit counter has not run
  out; and \<open>remove\<close> then makes the identifier unknown again.
\<close>

theorem PipeTable_insert_fresh:
  assumes inv: "pt_inv t" and nowrap: "m_nextAvailID t \<noteq> - 1"
  shows "\<exists>t' i t''. PipeTable_insert t pipe = Some (t', i) \<and> pt_inv t' \<and>
           PipeTable_get t i = Some None \<and> PipeTable_get t' i = Some (Some pipe) \<and>
           (\<forall>j. j \<noteq> i \<longrightarrow> PipeTable_get t' j = PipeTable_get t j) \<and>
           PipeTable_remove t' i = Some t'' \<and> pt_inv t'' \<and> PipeTable_get t'' i = Some None"
proof -
  let ?n = "m_nextAvailID t"
  have hm: "hm_inv u64_bytes (pt_hashmap t)" using inv by (simp add: pt_inv_def)
  have new: "hm_lookup u64_bytes (pt_hashmap t) ?n = None" using inv by (auto simp: pt_inv_def)
  obtain m it where 1: "hm_insert u64_bytes (pt_hashmap t) (?n, pipe) = Some (m, it, True)"
    "hm_inv u64_bytes m" "hm_lookup u64_bytes m = (hm_lookup u64_bytes (pt_hashmap t))(?n \<mapsto> pipe)"
    "hm_deref m it = Some (?n, pipe)"
    using hm_insert_new [OF hm new] by blast
  let ?t' = "\<lparr>m_nextAvailID = ?n + 1, pt_hashmap = m\<rparr>"
  have "pt_inv ?t'" using inv 1 nowrap
    by (auto simp: pt_inv_def intro!: word_less_succ less_imp_le)
  moreover obtain m'' where "hm_erase u64_bytes m ?n = Some m''" "hm_inv u64_bytes m''"
    "hm_lookup u64_bytes m'' = (hm_lookup u64_bytes m)(?n := None)"
    using hm_erase_inv [OF 1(2)] by blast
  ultimately show ?thesis
    using 1 hm new
    by (auto simp: PipeTable_insert_def PipeTable_remove_def PipeTable_get_lookup pt_inv_def)
qed

theorem PipeTable_insert_fresh_witness:
  "\<exists>t' i t''. PipeTable_insert PipeTable_new 4096 = Some (t', i) \<and> pt_inv t' \<and>
     PipeTable_get PipeTable_new i = Some None \<and> PipeTable_get t' i = Some (Some 4096) \<and>
     (\<forall>j. j \<noteq> i \<longrightarrow> PipeTable_get t' j = PipeTable_get PipeTable_new j) \<and>
     PipeTable_remove t' i = Some t'' \<and> pt_inv t'' \<and> PipeTable_get t'' i = Some None"
  by (rule PipeTable_insert_fresh) (simp_all add: pt_inv_def PipeTable_new_def)

end
