(* ===== verification/Physical_Memory.thy ===== *)
theory Physical_Memory
  imports Xp_Prelude
begin

text \<open>
  The physical memory manager: \<open>Kernel/Memory/Address.h\<close>, the bitmap and the frame operations of
  \<open>Memory::Manager\<close> in \<open>MemoryManager.h\<close> and \<open>MemoryManager.cpp\<close>, and the alignment macros of
  \<open>Memory.h\<close>. Bits and block counts are natural numbers: they come from 64-bit addresses divided by
  the block size, so no computation on them wraps. Addresses are 64-bit words. \<open>Kernel::panic\<close> is an
  \<^const>\<open>Inl\<close> result, and so is an access to an object that is not there. The lock around the bitmap is taken and released within each operation; it is
  modelled in the theory on locks.
\<close>

subsection \<open>Alignment macros\<close>

definition BYTE_ALIGN_UP :: "u64 \<Rightarrow> u64 \<Rightarrow> u64" where
  "BYTE_ALIGN_UP x align = (x + (align - 1)) AND NOT (align - 1)"

definition BYTE_ALIGN_DOWN :: "u64 \<Rightarrow> u64 \<Rightarrow> u64" where
  "BYTE_ALIGN_DOWN x align = x AND NOT (align - 1)"

definition CHECK_ALIGN :: "u64 \<Rightarrow> u64 \<Rightarrow> bool" where
  "CHECK_ALIGN x align \<longleftrightarrow> x AND (align - 1) = 0"

subsection \<open>Addresses\<close>

definition KERNEL_PHYS_MAP_ADDRESS :: u64 where
  "KERNEL_PHYS_MAP_ADDRESS = 0xFFFFFF8000000000"

definition is_aligned :: "u64 \<Rightarrow> u64 \<Rightarrow> bool" where
  "is_aligned physAddress to = (physAddress AND (to - 1) = 0)"

definition VirtualAddress_of_physical :: "u64 \<Rightarrow> u64" where
  "VirtualAddress_of_physical p = p + KERNEL_PHYS_MAP_ADDRESS"

definition get_low_physical :: "u64 \<Rightarrow> u64" where
  "get_low_physical v = v - KERNEL_PHYS_MAP_ADDRESS"

subsection \<open>The bitmap of physical frames\<close>

definition CHAR_BIT :: nat where "CHAR_BIT = 8"

definition PHYSICAL_BLOCK_SIZE :: nat where "PHYSICAL_BLOCK_SIZE = 0x1000"

record PhysicalBitmap =
  m_bitmap :: "u8 list"
  m_bitmapAddress :: u64

definition m_bitmapSize :: "PhysicalBitmap \<Rightarrow> nat" where
  "m_bitmapSize b = length (m_bitmap b)"

definition initialise :: "u64 \<Rightarrow> nat \<Rightarrow> PhysicalBitmap" where
  "initialise bitmap numberOfBits =
     (let sz = numberOfBits div CHAR_BIT;
          sz = (if numberOfBits mod CHAR_BIT \<noteq> 0 then sz + 1 else sz)
      in \<lparr>m_bitmap = replicate sz 0xFF, m_bitmapAddress = bitmap\<rparr>)"

definition bitmap_set :: "nat \<Rightarrow> PhysicalBitmap \<Rightarrow> PhysicalBitmap" where
  "bitmap_set n b =
     (if n \<ge> m_bitmapSize b * CHAR_BIT then b
      else b\<lparr>m_bitmap := (m_bitmap b)[n div CHAR_BIT :=
               m_bitmap b ! (n div CHAR_BIT) OR push_bit (n mod CHAR_BIT) 1]\<rparr>)"

definition bitmap_unset :: "nat \<Rightarrow> PhysicalBitmap \<Rightarrow> PhysicalBitmap" where
  "bitmap_unset n b =
     (if n \<ge> m_bitmapSize b * CHAR_BIT then b
      else b\<lparr>m_bitmap := (m_bitmap b)[n div CHAR_BIT :=
               m_bitmap b ! (n div CHAR_BIT) AND NOT (push_bit (n mod CHAR_BIT) 1)]\<rparr>)"

fun first_unset_from :: "u8 list \<Rightarrow> nat \<Rightarrow> nat" where
  "first_unset_from [] i = 0"
| "first_unset_from (b # bs) i =
     (if b = 0xFF then first_unset_from bs (i + 1)
      else case find (\<lambda>j. b AND push_bit j 1 = 0) [0..<CHAR_BIT] of
             Some j \<Rightarrow> i * CHAR_BIT + j
           | None \<Rightarrow> first_unset_from bs (i + 1))"

definition first_unset :: "PhysicalBitmap \<Rightarrow> nat" where
  "first_unset b = first_unset_from (m_bitmap b) 0"

subsection \<open>The manager and its frame operations\<close>

text \<open>
  \<open>phys_tables\<close> is the part of physical memory that holds page tables: for the physical address of a
  table (a 4KiB block) and a 9-bit index, the entry stored there. The paging theory works on it.
\<close>

type_synonym table_index = "9 word"

record Manager =
  m_physicalMemorySize :: u64
  m_physicalBitmap :: PhysicalBitmap
  m_virtualAddressSpace :: u64
  phys_tables :: "u64 \<Rightarrow> table_index \<Rightarrow> u64"

datatype panic = OutOfMemory | NoMemoryMap | Misaligned | NotMapped | BadAccess

type_synonym 'a kresult = "panic + 'a"

definition init_physical_region :: "u64 \<Rightarrow> u64 \<Rightarrow> Manager \<Rightarrow> Manager" where
  "init_physical_region base sz s =
     (let align = unat base div PHYSICAL_BLOCK_SIZE;
          blocks = unat sz div PHYSICAL_BLOCK_SIZE;
          b = fold (\<lambda>i. bitmap_unset (align + i)) [0..<blocks] (m_physicalBitmap s)
      in s\<lparr>m_physicalBitmap := bitmap_set 0 b\<rparr>)"

definition deinit_physical_region :: "u64 \<Rightarrow> u64 \<Rightarrow> Manager \<Rightarrow> Manager" where
  "deinit_physical_region base sz s =
     (let align = unat base div PHYSICAL_BLOCK_SIZE;
          blocks = unat sz div PHYSICAL_BLOCK_SIZE;
          blocks = (if unat sz mod PHYSICAL_BLOCK_SIZE \<noteq> 0 then blocks + 1 else blocks);
          blocks = (if unat sz mod PHYSICAL_BLOCK_SIZE + unat base mod PHYSICAL_BLOCK_SIZE
                         > PHYSICAL_BLOCK_SIZE
                    then blocks + 1 else blocks)
      in s\<lparr>m_physicalBitmap :=
             fold (\<lambda>i. bitmap_set (align + i)) [0..<blocks] (m_physicalBitmap s)\<rparr>)"

definition alloc_physical_block :: "Manager \<Rightarrow> (u64 \<times> Manager) kresult" where
  "alloc_physical_block s =
     (let frame = first_unset (m_physicalBitmap s);
          physAddress = of_nat (frame * PHYSICAL_BLOCK_SIZE)
      in if frame = 0 then Inl OutOfMemory
         else Inr (physAddress, s\<lparr>m_physicalBitmap := bitmap_set frame (m_physicalBitmap s)\<rparr>))"

definition free_physical_block :: "u64 \<Rightarrow> Manager \<Rightarrow> Manager" where
  "free_physical_block block s =
     s\<lparr>m_physicalBitmap := bitmap_unset (unat block div PHYSICAL_BLOCK_SIZE) (m_physicalBitmap s)\<rparr>"

text \<open>
  At boot the Multiboot2 memory map gives the regions of physical memory. The entries of its tag are
  the list \<open>mmap\<close>, with \<^const>\<open>None\<close> when the tag is missing; \<open>mbi\<close> and \<open>total_size\<close> are the address
  and the size of the Multiboot structure itself.
\<close>

record multiboot_mmap_entry =
  mmap_addr :: u64
  mmap_len :: u64
  mmap_type :: nat

definition AVAILABLE_RAM :: nat where "AVAILABLE_RAM = 1"

definition mmap_sizes :: "multiboot_mmap_entry list \<Rightarrow> u64 \<times> u64" where
  "mmap_sizes es = fold (\<lambda>e (useable, total).
     let entryEnd = mmap_addr e + mmap_len e
     in (if mmap_type e = AVAILABLE_RAM \<and> entryEnd > useable then entryEnd else useable,
         if entryEnd > total then entryEnd else total)) es (0, 0)"

definition bitmap_bits :: "u64 \<Rightarrow> nat" where
  "bitmap_bits useable =
     (let numBits = unat useable div PHYSICAL_BLOCK_SIZE
      in if unat useable mod PHYSICAL_BLOCK_SIZE \<noteq> 0 then numBits + 1 else numBits)"

definition bitmap_bytes :: "nat \<Rightarrow> nat" where
  "bitmap_bytes numBits =
     (let numBytes = numBits div CHAR_BIT
      in if numBytes mod CHAR_BIT \<noteq> 0 then numBytes + 1 else numBytes)"

definition init_available_regions :: "multiboot_mmap_entry list \<Rightarrow> Manager \<Rightarrow> Manager" where
  "init_available_regions es s = fold (\<lambda>e s.
     if mmap_type e = AVAILABLE_RAM
     then init_physical_region (BYTE_ALIGN_UP (mmap_addr e) (of_nat PHYSICAL_BLOCK_SIZE)) (mmap_len e) s
     else s) es s"

definition protect_physical_regions ::
  "multiboot_mmap_entry list option \<Rightarrow> u64 \<Rightarrow> u64 \<Rightarrow> u64 \<Rightarrow> Manager \<Rightarrow> Manager kresult" where
  "protect_physical_regions mmap kernelEnd mbi total_size s =
     (case mmap of
        None \<Rightarrow> Inl NoMemoryMap
      | Some es \<Rightarrow>
          let (useable, total) = mmap_sizes es;
              numBits = bitmap_bits useable;
              numBytes = of_nat (bitmap_bytes numBits);
              s = s\<lparr>m_physicalMemorySize := total,
                    m_physicalBitmap := initialise (VirtualAddress_of_physical (useable - numBytes)) numBits\<rparr>;
              pageStart = BYTE_ALIGN_UP (useable - numBytes) (of_nat PHYSICAL_BLOCK_SIZE);
              s = init_available_regions es s;
              s = deinit_physical_region pageStart (useable - pageStart) s;
              s = deinit_physical_region 0 kernelEnd s
          in Inr (deinit_physical_region mbi total_size s))"

subsection \<open>The set of free frames\<close>

definition free_bits :: "PhysicalBitmap \<Rightarrow> nat set" where
  "free_bits b = {n. n < m_bitmapSize b * 8 \<and> \<not> bit (m_bitmap b ! (n div 8)) (n mod 8)}"

definition free_frames :: "Manager \<Rightarrow> nat set" where
  "free_frames s = free_bits (m_physicalBitmap s)"

definition phys_inv :: "Manager \<Rightarrow> bool" where
  "phys_inv s \<longleftrightarrow> 0 \<notin> free_frames s \<and> m_bitmapSize (m_physicalBitmap s) * 8 \<le> 2 ^ 52"

lemma bit_pow2_u8 [simp]: "bit ((2 :: u8) ^ n) m \<longleftrightarrow> m < 8 \<and> n = m"
  by (auto simp: bit_exp_iff)

lemma and_pow2_iff: "(w :: u8) AND 2 ^ j = 0 \<longleftrightarrow> \<not> (j < 8 \<and> bit w j)"
  by (auto simp: bit_eq_iff [of "w AND 2 ^ j" 0] bit_and_iff)

lemma size_bitmap_set [simp]: "m_bitmapSize (bitmap_set n b) = m_bitmapSize b"
  by (simp add: bitmap_set_def m_bitmapSize_def)

lemma size_bitmap_unset [simp]: "m_bitmapSize (bitmap_unset n b) = m_bitmapSize b"
  by (simp add: bitmap_unset_def m_bitmapSize_def)

lemma div_mod_8_eq: "(m :: nat) div 8 = n div 8 \<Longrightarrow> m mod 8 = n mod 8 \<Longrightarrow> m = n"
  by (metis div_mult_mod_eq)

lemma free_bits_set [simp]: "free_bits (bitmap_set n b) = free_bits b - {n}"
proof (cases "n < m_bitmapSize b * 8")
  case True
  then have "n div 8 < length (m_bitmap b)" by (simp add: m_bitmapSize_def less_mult_imp_div_less)
  with True show ?thesis
    by (auto simp: free_bits_def bitmap_set_def CHAR_BIT_def m_bitmapSize_def nth_list_update
        bit_or_iff dest: div_mod_8_eq split: if_splits)
next
  case False
  then show ?thesis by (auto simp: free_bits_def bitmap_set_def CHAR_BIT_def)
qed

lemma free_bits_unset:
  "free_bits (bitmap_unset n b) = free_bits b \<union> ({n} \<inter> {..<m_bitmapSize b * 8})"
proof (cases "n < m_bitmapSize b * 8")
  case True
  then have "n div 8 < length (m_bitmap b)" by (simp add: m_bitmapSize_def less_mult_imp_div_less)
  with True show ?thesis
    by (auto simp: free_bits_def bitmap_unset_def CHAR_BIT_def m_bitmapSize_def nth_list_update
        bit_and_iff bit_not_iff dest: div_mod_8_eq split: if_splits)
next
  case False
  then show ?thesis by (auto simp: free_bits_def bitmap_unset_def CHAR_BIT_def)
qed

lemma fold_bitmap_size [simp]:
  "m_bitmapSize (fold (\<lambda>i. bitmap_set (a + i)) xs b) = m_bitmapSize b"
  "m_bitmapSize (fold (\<lambda>i. bitmap_unset (a + i)) xs b) = m_bitmapSize b"
  by (induction xs arbitrary: b) simp_all

lemma range_Suc: "{a..<a + Suc n} = insert (a + n) {a..<a + n}"
  by auto

lemma fold_bitmap_set [simp]:
  "free_bits (fold (\<lambda>i. bitmap_set (a + i)) [0..<n] b) = free_bits b - {a..<a + n}"
proof (induction n)
  case (Suc n)
  then show ?case unfolding range_Suc by auto
qed simp

lemma fold_bitmap_unset [simp]:
  "free_bits (fold (\<lambda>i. bitmap_unset (a + i)) [0..<n] b) =
     free_bits b \<union> ({a..<a + n} \<inter> {..<m_bitmapSize b * 8})"
proof (induction n)
  case (Suc n)
  then show ?case unfolding range_Suc by (simp add: free_bits_unset) blast
qed simp

subsection \<open>The search for the first free frame\<close>

lemma u8_full_iff: "(w :: u8) = 0xFF \<longleftrightarrow> (\<forall>j<8. bit w j)"
proof -
  have "(0xFF :: u8) = - 1" by simp
  then show ?thesis by (auto simp: bit_eq_iff)
qed

lemma find_clear_bit:
  "find (\<lambda>j. (w :: u8) AND push_bit j 1 = 0) [0..<CHAR_BIT] = None \<longleftrightarrow> w = 0xFF"
  "find (\<lambda>j. (w :: u8) AND push_bit j 1 = 0) [0..<CHAR_BIT] = Some j \<Longrightarrow>
     j < 8 \<and> \<not> bit w j \<and> (\<forall>k<j. bit w k)"
  by (auto simp: find_None_iff find_Some_iff and_pow2_iff CHAR_BIT_def u8_full_iff)

lemma div_8_shift: "(m + 8) div 8 = Suc (m div 8)" for m :: nat
  by simp

lemma bit_at_Cons:
  "bit ((b # bs) ! (n div 8)) (n mod 8) \<longleftrightarrow>
     (if n < 8 then bit b n else bit (bs ! ((n - 8) div 8)) ((n - 8) mod 8))"
  for b :: u8
proof (cases "n < 8")
  case False
  then obtain m where "n = m + 8" by (metis add.commute le_Suc_ex not_less)
  then show ?thesis by (simp del: div_add_self2 add: div_8_shift)
qed simp

lemma first_unset_from_full: "\<forall>b\<in>set bs. b = 0xFF \<Longrightarrow> first_unset_from bs i = 0"
  by (induction bs arbitrary: i) auto

lemma first_unset_from_least:
  assumes "n < length bs * 8" "\<not> bit (bs ! (n div 8)) (n mod 8)"
    and "\<forall>m<n. bit (bs ! (m div 8)) (m mod 8)"
  shows "first_unset_from bs i = i * 8 + n"
  using assms
proof (induction bs arbitrary: n i)
  case (Cons b bs)
  have here: "\<not> bit b n" if "n < 8" using Cons.prems(2) that by (simp add: bit_at_Cons)
  have before: "bit b j" if "j < n" "j < 8" for j
    using Cons.prems(3) that by (auto simp: bit_at_Cons)
  show ?case
  proof (cases "n < 8")
    case True
    then have "b \<noteq> 0xFF" using here u8_full_iff by blast
    moreover then obtain j where j: "find (\<lambda>j. b AND push_bit j 1 = 0) [0..<CHAR_BIT] = Some j"
      using find_clear_bit(1) by blast
    moreover have "j = n" using find_clear_bit(2) [OF j] here before True by (meson nat_neq_iff)
    ultimately show ?thesis by (simp add: CHAR_BIT_def)
  next
    case False
    then have full: "b = 0xFF" using before u8_full_iff by (meson less_le_trans not_less)
    have "first_unset_from bs (i + 1) = (i + 1) * 8 + (n - 8)"
    proof (rule Cons.IH)
      show "\<forall>m<n - 8. bit (bs ! (m div 8)) (m mod 8)"
      proof (intro allI impI)
        fix m assume "m < n - 8"
        then have "bit ((b # bs) ! ((m + 8) div 8)) ((m + 8) mod 8)"
          using Cons.prems(3) [rule_format, of "m + 8"] by linarith
        then show "bit (bs ! (m div 8)) (m mod 8)" by (simp only: div_8_shift nth_Cons_Suc mod_add_self2)
      qed
    next
      show "n - 8 < length bs * 8" using Cons.prems(1) False by simp
      show "\<not> bit (bs ! ((n - 8) div 8)) ((n - 8) mod 8)"
        using Cons.prems(2) False unfolding bit_at_Cons by simp
    qed
    then show ?thesis using full False by simp
  qed
qed simp

lemma first_unset_spec:
  "first_unset b = (if free_bits b = {} then 0 else Min (free_bits b))"
proof (cases "free_bits b = {}")
  case True
  have "c = 0xFF" if c: "c \<in> set (m_bitmap b)" for c
  proof -
    obtain i where i: "i < length (m_bitmap b)" "c = m_bitmap b ! i"
      using c by (metis in_set_conv_nth)
    have "bit c j" if "j < 8" for j
    proof -
      have "i * 8 + j < m_bitmapSize b * 8" using i that by (simp add: m_bitmapSize_def)
      then have "bit (m_bitmap b ! ((i * 8 + j) div 8)) ((i * 8 + j) mod 8)"
        using True by (auto simp: free_bits_def)
      then show ?thesis using i that by simp
    qed
    then show ?thesis using u8_full_iff by blast
  qed
  then show ?thesis using True by (simp add: first_unset_def first_unset_from_full)
next
  case False
  have fin: "finite (free_bits b)" by (simp add: free_bits_def)
  obtain n where n: "n \<in> free_bits b" "n = Min (free_bits b)" using Min_in [OF fin False] by simp
  have "first_unset_from (m_bitmap b) 0 = 0 * 8 + n"
  proof (rule first_unset_from_least)
    show "n < length (m_bitmap b) * 8" "\<not> bit (m_bitmap b ! (n div 8)) (n mod 8)"
      using n(1) by (simp_all add: free_bits_def m_bitmapSize_def)
    show "\<forall>m<n. bit (m_bitmap b ! (m div 8)) (m mod 8)"
    proof (intro allI impI)
      fix m assume m: "m < n"
      then have "m \<notin> free_bits b" using n(2) fin Min_le not_less by blast
      then show "bit (m_bitmap b ! (m div 8)) (m mod 8)" using n(1) m by (simp add: free_bits_def)
    qed
  qed
  then show ?thesis using False n(2) by (simp add: first_unset_def)
qed

subsection \<open>The contract of a frame allocator\<close>

text \<open>
  What the paging code relies on: an allocation hands out the least free frame and takes it off the
  free set, or reports that memory is exhausted; a release puts the frame back. From it follow facts
  about any number of allocations.
\<close>

definition frame_address :: "nat \<Rightarrow> u64" where
  "frame_address n = of_nat (n * PHYSICAL_BLOCK_SIZE)"

locale frame_allocator =
  fixes inv :: "'s \<Rightarrow> bool"
    and free :: "'s \<Rightarrow> nat set"
    and limit :: "'s \<Rightarrow> nat"
    and alloc :: "'s \<Rightarrow> (u64 \<times> 's) kresult"
    and release :: "u64 \<Rightarrow> 's \<Rightarrow> 's"
  assumes free_finite: "finite (free s)"
    and free_bounds: "inv s \<Longrightarrow> n \<in> free s \<Longrightarrow> 0 < n \<and> n < limit s"
    and limit_bound: "inv s \<Longrightarrow> limit s \<le> 2 ^ 52"
    and alloc_some: "inv s \<Longrightarrow> free s \<noteq> {} \<Longrightarrow>
          \<exists>s'. alloc s = Inr (frame_address (Min (free s)), s') \<and> inv s' \<and>
               free s' = free s - {Min (free s)} \<and> limit s' = limit s"
    and alloc_none: "inv s \<Longrightarrow> free s = {} \<Longrightarrow> alloc s = Inl OutOfMemory"
    and release_free: "inv s \<Longrightarrow> 0 < n \<Longrightarrow> n < limit s \<Longrightarrow>
          inv (release (frame_address n) s) \<and>
          free (release (frame_address n) s) = insert n (free s) \<and>
          limit (release (frame_address n) s) = limit s"
begin

fun alloc_many :: "nat \<Rightarrow> 's \<Rightarrow> (u64 list \<times> 's) kresult" where
  "alloc_many 0 s = Inr ([], s)"
| "alloc_many (Suc k) s =
     (case alloc s of Inl e \<Rightarrow> Inl e
      | Inr (p, s') \<Rightarrow>
          (case alloc_many k s' of Inl e \<Rightarrow> Inl e | Inr (ps, s'') \<Rightarrow> Inr (p # ps, s'')))"

lemma alloc_many_frames:
  assumes "inv s" "k \<le> card (free s)"
  shows "\<exists>fs s'. alloc_many k s = Inr (map frame_address fs, s') \<and> length fs = k \<and> distinct fs \<and>
           set fs \<subseteq> free s \<and> inv s' \<and> free s' = free s - set fs \<and> limit s' = limit s"
  using assms
proof (induction k arbitrary: s)
  case 0
  then show ?case by simp
next
  case (Suc k)
  have ne: "free s \<noteq> {}" using Suc.prems(2) by auto
  let ?m = "Min (free s)"
  have m: "?m \<in> free s" using Min_in [OF free_finite ne] .
  obtain s1 where 1: "alloc s = Inr (frame_address ?m, s1)" "inv s1" "free s1 = free s - {?m}"
    "limit s1 = limit s" using alloc_some [OF Suc.prems(1) ne] by blast
  have "k \<le> card (free s1)" using Suc.prems(2) m 1(3) by (simp add: free_finite)
  then obtain fs s2 where 2: "alloc_many k s1 = Inr (map frame_address fs, s2)" "length fs = k"
    "distinct fs" "set fs \<subseteq> free s1" "inv s2" "free s2 = free s1 - set fs" "limit s2 = limit s1"
    using Suc.IH [OF 1(2)] by blast
  have "?m \<notin> set fs" using 2(4) 1(3) by blast
  with 1 2 m show ?case
    by (intro exI [of _ "?m # fs"] exI [of _ s2]) auto
qed

lemma alloc_many_exhausted:
  assumes "inv s" "card (free s) < k"
  shows "alloc_many k s = Inl OutOfMemory"
  using assms
proof (induction k arbitrary: s)
  case (Suc k)
  show ?case
  proof (cases "free s = {}")
    case True
    then show ?thesis using alloc_none Suc.prems(1) by simp
  next
    case False
    obtain s1 where 1: "alloc s = Inr (frame_address (Min (free s)), s1)" "inv s1"
      "free s1 = free s - {Min (free s)}" using alloc_some [OF Suc.prems(1) False] by blast
    have "Min (free s) \<in> free s" using Min_in [OF free_finite False] .
    then have "card (free s1) = card (free s) - 1" "0 < card (free s)"
      using 1(3) False by (simp_all add: free_finite card_gt_0_iff)
    then have "card (free s1) < k" using Suc.prems(2) by simp
    then show ?thesis using Suc.IH 1 by simp
  qed
qed simp

lemma alloc_release:
  assumes "inv s" "alloc s = Inr (p, s')"
  shows "inv (release p s') \<and> free (release p s') = free s"
proof -
  have ne: "free s \<noteq> {}" using assms alloc_none by fastforce
  then have m: "Min (free s) \<in> free s" using Min_in free_finite by blast
  obtain s1 where 1: "alloc s = Inr (frame_address (Min (free s)), s1)" "inv s1"
    "free s1 = free s - {Min (free s)}" "limit s1 = limit s" using alloc_some [OF assms(1) ne] by blast
  then have "p = frame_address (Min (free s))" "s1 = s'" using assms(2) by auto
  then show ?thesis using 1 m release_free [of s1 "Min (free s)"] free_bounds [OF assms(1) m] by auto
qed

end

definition frame_limit :: "Manager \<Rightarrow> nat" where
  "frame_limit s = m_bitmapSize (m_physicalBitmap s) * 8"

lemma finite_free_frames [simp]: "finite (free_frames s)"
  by (simp add: free_frames_def free_bits_def)

lemma free_frames_less: "n \<in> free_frames s \<Longrightarrow> n < frame_limit s"
  by (simp add: free_frames_def free_bits_def frame_limit_def)

lemma unat_frame_address [simp]: "n < 2 ^ 52 \<Longrightarrow> unat (frame_address n) = n * 4096"
  by (simp add: frame_address_def PHYSICAL_BLOCK_SIZE_def unat_of_nat_64 del: of_nat_mult)

lemma alloc_physical_block_some:
  assumes "phys_inv s" "free_frames s \<noteq> {}"
  shows "\<exists>s'. alloc_physical_block s = Inr (frame_address (Min (free_frames s)), s') \<and> phys_inv s' \<and>
           free_frames s' = free_frames s - {Min (free_frames s)} \<and> frame_limit s' = frame_limit s \<and>
           phys_tables s' = phys_tables s"
proof -
  have "Min (free_frames s) \<in> free_frames s" using Min_in assms(2) finite_free_frames by blast
  then have "Min (free_frames s) \<noteq> 0" using assms(1) unfolding phys_inv_def by metis
  then show ?thesis using assms
    by (simp add: alloc_physical_block_def first_unset_spec free_frames_def frame_address_def
        phys_inv_def frame_limit_def Let_def del: of_nat_mult)
qed

lemma alloc_physical_block_none:
  "free_frames s = {} \<Longrightarrow> alloc_physical_block s = Inl OutOfMemory"
  by (simp add: alloc_physical_block_def first_unset_spec free_frames_def)

lemma free_physical_block_frames:
  assumes "phys_inv s" "0 < n" "n < frame_limit s"
  shows "phys_inv (free_physical_block (frame_address n) s) \<and>
         free_frames (free_physical_block (frame_address n) s) = insert n (free_frames s) \<and>
         frame_limit (free_physical_block (frame_address n) s) = frame_limit s \<and>
         phys_tables (free_physical_block (frame_address n) s) = phys_tables s"
proof -
  have "n < 2 ^ 52" using assms by (simp add: phys_inv_def frame_limit_def)
  then have "unat (frame_address n) div PHYSICAL_BLOCK_SIZE = n"
    by (simp add: PHYSICAL_BLOCK_SIZE_def)
  then show ?thesis using assms
    by (auto simp: free_physical_block_def free_frames_def free_bits_unset phys_inv_def frame_limit_def)
qed

interpretation pmm: frame_allocator phys_inv free_frames frame_limit
  alloc_physical_block free_physical_block
proof unfold_locales
  fix s :: Manager and n
  assume "phys_inv s" "n \<in> free_frames s"
  then show "0 < n \<and> n < frame_limit s"
    using free_frames_less unfolding phys_inv_def by (metis gr0I)
next
  fix s :: Manager
  assume "phys_inv s"
  then show "frame_limit s \<le> 2 ^ 52" by (simp add: phys_inv_def frame_limit_def)
qed (use finite_free_frames alloc_physical_block_some alloc_physical_block_none
    free_physical_block_frames in \<open>blast+\<close>)

subsection \<open>Regions\<close>

definition deinit_blocks :: "nat \<Rightarrow> nat \<Rightarrow> nat" where
  "deinit_blocks base sz = sz div 4096 + (if sz mod 4096 \<noteq> 0 then 1 else 0) +
     (if sz mod 4096 + base mod 4096 > 4096 then 1 else 0)"

lemma deinit_frames [simp]:
  "free_frames (deinit_physical_region base sz s) =
     free_frames s - {unat base div 4096 ..< unat base div 4096 + deinit_blocks (unat base) (unat sz)}"
  "frame_limit (deinit_physical_region base sz s) = frame_limit s"
  by (simp_all add: deinit_physical_region_def free_frames_def frame_limit_def deinit_blocks_def
      PHYSICAL_BLOCK_SIZE_def Let_def)

lemma init_frames [simp]:
  "free_frames (init_physical_region base sz s) =
     (free_frames s \<union> ({unat base div 4096 ..< unat base div 4096 + unat sz div 4096} \<inter> {..<frame_limit s}))
      - {0}"
  "frame_limit (init_physical_region base sz s) = frame_limit s"
  by (simp_all add: init_physical_region_def free_frames_def frame_limit_def
      PHYSICAL_BLOCK_SIZE_def Let_def)

lemma deinit_blocks_split:
  fixes base sz :: nat
  obtains c q r where "base = base div 4096 * 4096 + c" "c < 4096" "sz = q * 4096 + r" "r < 4096"
    "base mod 4096 = c" "sz mod 4096 = r"
    "deinit_blocks base sz = q + (if r \<noteq> 0 then 1 else 0) + (if r + c > 4096 then 1 else 0)"
proof
  show "base = base div 4096 * 4096 + base mod 4096" "sz = sz div 4096 * 4096 + sz mod 4096"
    by (rule div_mult_mod_eq [symmetric])+
qed (auto simp: deinit_blocks_def)

lemma deinit_blocks_cover:
  assumes al: "base mod 4096 = 0 \<or> sz mod 4096 \<noteq> 0" and a: "base \<le> a" "a < base + sz"
  shows "a div 4096 \<in> {base div 4096 ..< base div 4096 + deinit_blocks base sz}"
proof -
  obtain c q r where *: "base = base div 4096 * 4096 + c" "c < 4096" "sz = q * 4096 + r" "r < 4096"
    "base mod 4096 = c" "sz mod 4096 = r"
    "deinit_blocks base sz = q + (if r \<noteq> 0 then 1 else 0) + (if r + c > 4096 then 1 else 0)"
    by (rule deinit_blocks_split)
  have "a < (base div 4096 + deinit_blocks base sz) * 4096"
    unfolding *(7) using a al *(1-6) by (auto simp: algebra_simps)
  then show ?thesis using a(1) by (simp add: div_le_mono less_mult_imp_div_less)
qed

lemma deinit_blocks_tight:
  assumes n: "n \<in> {base div 4096 ..< base div 4096 + deinit_blocks base sz}"
  shows "\<exists>a. base \<le> a \<and> a < base + sz \<and> a div 4096 = n"
proof -
  obtain c q r where *: "base = base div 4096 * 4096 + c" "c < 4096" "sz = q * 4096 + r" "r < 4096"
    "base mod 4096 = c" "sz mod 4096 = r"
    "deinit_blocks base sz = q + (if r \<noteq> 0 then 1 else 0) + (if r + c > 4096 then 1 else 0)"
    by (rule deinit_blocks_split)
  have pos: "0 < sz" using n *(2,3,4,7) by (auto split: if_splits)
  have "n * 4096 \<le> (base div 4096 + deinit_blocks base sz - 1) * 4096"
    using n by (intro mult_le_mono1) auto
  also have "\<dots> < base + sz" unfolding *(7) using pos *(1-6) by (auto simp: algebra_simps)
  finally have lt: "n * 4096 < base + sz" .
  show ?thesis
  proof (cases "n = base div 4096")
    case True
    then show ?thesis using pos by (intro exI [of _ base]) simp
  next
    case False
    then have "base div 4096 < n" using n by simp
    then have "base \<le> n * 4096" by (simp add: div_less_iff_less_mult)
    then show ?thesis using lt by (intro exI [of _ "n * 4096"]) simp
  qed
qed

definition region_frames :: "multiboot_mmap_entry \<Rightarrow> nat set" where
  "region_frames e = (let a = unat (BYTE_ALIGN_UP (mmap_addr e) 0x1000) div 4096
                      in {a ..< a + unat (mmap_len e) div 4096})"

definition available_frames :: "multiboot_mmap_entry list \<Rightarrow> nat set" where
  "available_frames es = (\<Union>e\<in>{e \<in> set es. mmap_type e = AVAILABLE_RAM}. region_frames e)"

lemma available_frames_Cons [simp]:
  "available_frames (e # es) =
     (if mmap_type e = AVAILABLE_RAM then region_frames e else {}) \<union> available_frames es"
  by (auto simp: available_frames_def)

lemma init_available_frames:
  "0 \<notin> free_frames s \<Longrightarrow>
   free_frames (init_available_regions es s) =
     free_frames s \<union> (available_frames es \<inter> {0<..<frame_limit s}) \<and>
   frame_limit (init_available_regions es s) = frame_limit s"
proof (induction es arbitrary: s)
  case Nil
  then show ?case by (simp add: init_available_regions_def available_frames_def)
next
  case (Cons e es)
  let ?s = "if mmap_type e = AVAILABLE_RAM
            then init_physical_region (BYTE_ALIGN_UP (mmap_addr e) 0x1000) (mmap_len e) s else s"
  have z: "0 \<notin> free_frames ?s" using Cons.prems by simp
  have "init_available_regions (e # es) s = init_available_regions es ?s"
    by (simp add: init_available_regions_def PHYSICAL_BLOCK_SIZE_def)
  moreover have "free_frames ?s = free_frames s \<union>
      ((if mmap_type e = AVAILABLE_RAM then region_frames e else {}) \<inter> {0<..<frame_limit s})"
    using Cons.prems by (auto simp: region_frames_def Let_def)
  moreover have "frame_limit ?s = frame_limit s" by simp
  ultimately show ?case using Cons.IH [OF z] by (simp add: Int_Un_distrib2 Un_assoc)
qed

lemma initialise_frames:
  "free_bits (initialise p n) = {}" "m_bitmapSize (initialise p n) = (n + 7) div 8"
proof -
  have "bit (0xFF :: u8) j" if "j < 8" for j using u8_full_iff that by blast
  moreover have "i div 8 < k" if "i < k * 8" for i k :: nat using that by (simp add: less_mult_imp_div_less)
  ultimately show "free_bits (initialise p n) = {}"
    by (auto simp: free_bits_def initialise_def m_bitmapSize_def Let_def)
  have "(n + 7) div 8 = n div 8 + (if n mod 8 \<noteq> 0 then 1 else 0)" by presburger
  then show "m_bitmapSize (initialise p n) = (n + 7) div 8"
    by (simp add: initialise_def m_bitmapSize_def Let_def CHAR_BIT_def)
qed

definition boot_bitmap_start :: "u64 \<Rightarrow> u64" where
  "boot_bitmap_start useable = useable - of_nat (bitmap_bytes (bitmap_bits useable))"

lemma protect_frames:
  assumes "protect_physical_regions (Some es) kernelEnd mbi total_size s = Inr s'"
  defines "useable \<equiv> fst (mmap_sizes es)"
  defines "pageStart \<equiv> BYTE_ALIGN_UP (boot_bitmap_start useable) 0x1000"
  shows "frame_limit s' = (bitmap_bits useable + 7) div 8 * 8"
    and "free_frames s' = available_frames es \<inter> {0<..<frame_limit s'}
      - {unat pageStart div 4096 ..<
           unat pageStart div 4096 + deinit_blocks (unat pageStart) (unat (useable - pageStart))}
      - {..<deinit_blocks 0 (unat kernelEnd)}
      - {unat mbi div 4096 ..< unat mbi div 4096 + deinit_blocks (unat mbi) (unat total_size)}"
proof -
  let ?s = "s\<lparr>m_physicalMemorySize := snd (mmap_sizes es),
      m_physicalBitmap := initialise (VirtualAddress_of_physical (boot_bitmap_start useable))
        (bitmap_bits useable)\<rparr>"
  have s': "s' = deinit_physical_region mbi total_size (deinit_physical_region 0 kernelEnd
      (deinit_physical_region pageStart (useable - pageStart) (init_available_regions es ?s)))"
    using assms(1) by (simp add: protect_physical_regions_def useable_def pageStart_def Let_def
        boot_bitmap_start_def PHYSICAL_BLOCK_SIZE_def split: prod.splits)
  have 0: "free_frames ?s = {}" "frame_limit ?s = (bitmap_bits useable + 7) div 8 * 8"
    by (simp_all add: free_frames_def frame_limit_def initialise_frames)
  then have 1: "free_frames (init_available_regions es ?s) =
      available_frames es \<inter> {0<..<(bitmap_bits useable + 7) div 8 * 8}"
    "frame_limit (init_available_regions es ?s) = (bitmap_bits useable + 7) div 8 * 8"
    using init_available_frames [of ?s es] by simp_all
  then show lim: "frame_limit s' = (bitmap_bits useable + 7) div 8 * 8" by (simp add: s')
  show "free_frames s' = available_frames es \<inter> {0<..<frame_limit s'}
      - {unat pageStart div 4096 ..<
           unat pageStart div 4096 + deinit_blocks (unat pageStart) (unat (useable - pageStart))}
      - {..<deinit_blocks 0 (unat kernelEnd)}
      - {unat mbi div 4096 ..< unat mbi div 4096 + deinit_blocks (unat mbi) (unat total_size)}"
    unfolding lim by (simp add: s' 1 atLeast0LessThan)
qed

lemma protect_total: "\<exists>s'. protect_physical_regions (Some es) kernelEnd mbi total_size s = Inr s'"
  by (cases "mmap_sizes es") (simp add: protect_physical_regions_def Let_def)

lemma unat_BYTE_ALIGN_UP:
  assumes "unat x + 4095 < 2 ^ 64"
  shows "unat (BYTE_ALIGN_UP x 0x1000) = (unat x + 4095) div 4096 * 4096"
proof -
  have "unat (x + 4095) = unat x + 4095" using assms by (subst unat_add_lem [THEN iffD1]) simp_all
  moreover have "(4095 :: u64) = mask 12" by (simp add: mask_eq_exp_minus_1)
  ultimately show ?thesis using unat_and_not_mask [of "x + 4095" 12] by (simp add: BYTE_ALIGN_UP_def)
qed

lemma bitmap_bytes_bounds:
  assumes "7 \<le> n" "n < 32752"
  shows "1 \<le> bitmap_bytes (n + 1) \<and> bitmap_bytes (n + 1) \<le> 4095"
proof -
  have "1 \<le> (n + 1) div 8" "(n + 1) div 8 \<le> 4094" using assms by auto
  then show ?thesis by (simp add: bitmap_bytes_def CHAR_BIT_def Let_def)
qed

lemma bitmap_bits_bound: "(bitmap_bits useable + 7) div 8 * 8 \<le> 2 ^ 52"
proof -
  have "unat useable div 4096 < 4503599627370496" by (rule less_mult_imp_div_less) simp
  then have "bitmap_bits useable \<le> 8 * 562949953421312"
    by (simp add: bitmap_bits_def PHYSICAL_BLOCK_SIZE_def Let_def)
  then have "bitmap_bits useable + 7 < 562949953421313 * 8" by simp
  then have "(bitmap_bits useable + 7) div 8 < 562949953421313" by (rule less_mult_imp_div_less)
  then show ?thesis by simp
qed

subsection \<open>Properties\<close>

text \<open>
  C5: \<open>alloc_physical_block\<close> panics exactly when no frame is free; otherwise it returns the address of
  the least free frame, never frame 0, and takes exactly that frame; giving the block back with
  \<open>free_physical_block\<close> restores the set of free frames. The manager's invariant is kept throughout.
\<close>

theorem alloc_physical_block_least:
  assumes "phys_inv s"
  shows "case alloc_physical_block s of
           Inl e \<Rightarrow> e = OutOfMemory \<and> free_frames s = {}
         | Inr (p, s') \<Rightarrow>
             (\<exists>n\<in>free_frames s. 0 < n \<and> (\<forall>m\<in>free_frames s. n \<le> m) \<and> unat p = n * 4096 \<and>
                free_frames s' = free_frames s - {n}) \<and>
             phys_inv s' \<and> phys_inv (free_physical_block p s') \<and>
             free_frames (free_physical_block p s') = free_frames s"
proof (cases "free_frames s = {}")
  case True
  then show ?thesis by (simp add: alloc_physical_block_none)
next
  case False
  let ?n = "Min (free_frames s)"
  have n: "?n \<in> free_frames s" using Min_in [OF finite_free_frames False] .
  then have b: "0 < ?n" "?n < 2 ^ 52" using pmm.free_bounds [OF assms n] pmm.limit_bound [OF assms] by auto
  obtain s' where s': "alloc_physical_block s = Inr (frame_address ?n, s')" "phys_inv s'"
    "free_frames s' = free_frames s - {?n}" using alloc_physical_block_some [OF assms False] by blast
  have "\<exists>n\<in>free_frames s. 0 < n \<and> (\<forall>m\<in>free_frames s. n \<le> m) \<and>
      unat (frame_address ?n) = n * 4096 \<and> free_frames s' = free_frames s - {n}"
    using n b s'(3) Min_le [OF finite_free_frames] unat_frame_address [OF b(2)] by blast
  then show ?thesis using s' pmm.alloc_release [OF assms s'(1)] by simp
qed

definition example_manager :: Manager where
  "example_manager = \<lparr>m_physicalMemorySize = 0x8000,
     m_physicalBitmap = \<lparr>m_bitmap = [0xF3], m_bitmapAddress = 0\<rparr>,
     m_virtualAddressSpace = 0, phys_tables = \<lambda>_ _. 0\<rparr>"

lemma example_manager_inv: "phys_inv example_manager"
  by (simp add: phys_inv_def free_frames_def free_bits_def example_manager_def m_bitmapSize_def)

theorem alloc_physical_block_least_witness:
  "case alloc_physical_block example_manager of
     Inl e \<Rightarrow> e = OutOfMemory \<and> free_frames example_manager = {}
   | Inr (p, s') \<Rightarrow>
       (\<exists>n\<in>free_frames example_manager. 0 < n \<and> (\<forall>m\<in>free_frames example_manager. n \<le> m) \<and>
          unat p = n * 4096 \<and> free_frames s' = free_frames example_manager - {n}) \<and>
       phys_inv s' \<and> phys_inv (free_physical_block p s') \<and>
       free_frames (free_physical_block p s') = free_frames example_manager"
  by (rule alloc_physical_block_least) (rule example_manager_inv)

text \<open>
  \<open>deinit_physical_region\<close> reserves every frame a byte of the region lies in, as its comment asks,
  whenever the base is aligned to a block or the size is not a multiple of the block size; it
  reserves no frame the region does not touch, and frees none. In the remaining case, an unaligned
  base with a size that is a whole number of blocks, the last frame of the region stays as it was.
\<close>

theorem deinit_physical_region_covers:
  "(unat base mod 4096 = 0 \<or> unat sz mod 4096 \<noteq> 0 \<longrightarrow>
      (\<forall>a. unat base \<le> a \<and> a < unat base + unat sz \<longrightarrow>
         a div 4096 \<notin> free_frames (deinit_physical_region base sz s))) \<and>
   free_frames (deinit_physical_region base sz s) \<subseteq> free_frames s \<and>
   (\<forall>n \<in> free_frames s - free_frames (deinit_physical_region base sz s).
      \<exists>a. unat base \<le> a \<and> a < unat base + unat sz \<and> a div 4096 = n) \<and>
   (unat base mod 4096 \<noteq> 0 \<and> unat sz mod 4096 = 0 \<longrightarrow>
      (\<forall>n. n = (unat base + unat sz) div 4096 \<longrightarrow>
         (n \<in> free_frames (deinit_physical_region base sz s) \<longleftrightarrow> n \<in> free_frames s)))"
proof -
  have "(unat base + unat sz) div 4096 = unat base div 4096 + deinit_blocks (unat base) (unat sz)"
    if "unat sz mod 4096 = 0"
  proof -
    have "unat base mod 4096 \<le> 4096" by (simp add: less_imp_le)
    then have "deinit_blocks (unat base) (unat sz) = unat sz div 4096"
      using that by (simp add: deinit_blocks_def)
    then show ?thesis using that by (simp add: div_add1_eq)
  qed
  then show ?thesis using deinit_blocks_cover deinit_blocks_tight by simp
qed

theorem deinit_physical_region_covers_witness:
  "0x1000 div 4096 \<notin> free_frames (deinit_physical_region 0x1000 0x1800 example_manager) \<and>
   0x27FF div 4096 \<notin> free_frames (deinit_physical_region 0x1000 0x1800 example_manager) \<and>
   free_frames (deinit_physical_region 0x1000 0x1800 example_manager) \<subseteq> free_frames example_manager \<and>
   (3 \<in> free_frames (deinit_physical_region 0x1800 0x2000 example_manager) \<longleftrightarrow>
      3 \<in> free_frames example_manager)"
proof -
  have "\<forall>a. 0x1000 \<le> a \<and> a < 0x2800 \<longrightarrow>
      a div 4096 \<notin> free_frames (deinit_physical_region 0x1000 0x1800 example_manager)"
    using deinit_physical_region_covers [of "0x1000" "0x1800" example_manager] by simp
  from this [rule_format, of "0x1000"] this [rule_format, of "0x27FF"] show ?thesis
    using deinit_physical_region_covers [of "0x1000" "0x1800" example_manager]
      deinit_physical_region_covers [of "0x1800" "0x2000" example_manager] by simp
qed

text \<open>
  With a memory map \<open>protect_physical_regions\<close> does not panic. Afterwards the allocator's invariant
  holds; no frame with a byte of the kernel image (addresses below \<open>kernelEnd\<close>) is free, nor any frame
  of the Multiboot structure when its address is block aligned or its size is not a whole number of
  blocks; and every free frame is one the memory map gives as available.
\<close>

theorem protect_physical_regions_safe:
  "\<exists>s'. protect_physical_regions (Some es) kernelEnd mbi total_size s = Inr s' \<and> phys_inv s' \<and>
    (\<forall>a. a < unat kernelEnd \<longrightarrow> a div 4096 \<notin> free_frames s') \<and>
    (unat mbi mod 4096 = 0 \<or> unat total_size mod 4096 \<noteq> 0 \<longrightarrow>
       (\<forall>a. unat mbi \<le> a \<and> a < unat mbi + unat total_size \<longrightarrow> a div 4096 \<notin> free_frames s')) \<and>
    free_frames s' \<subseteq> available_frames es"
proof -
  obtain s' where s': "protect_physical_regions (Some es) kernelEnd mbi total_size s = Inr s'"
    using protect_total by blast
  have "phys_inv s'"
    using protect_frames [OF s'] bitmap_bits_bound [of "fst (mmap_sizes es)"]
    by (simp add: phys_inv_def frame_limit_def)
  moreover have "a div 4096 \<in> {..<deinit_blocks 0 (unat kernelEnd)}" if "a < unat kernelEnd" for a
    using deinit_blocks_cover [of 0 "unat kernelEnd" a] that by simp
  ultimately show ?thesis
    using s' protect_frames(2) [OF s'] deinit_blocks_cover [of "unat mbi" "unat total_size"] by auto
qed

definition example_mmap :: "multiboot_mmap_entry list" where
  "example_mmap = [\<lparr>mmap_addr = 0, mmap_len = 0x8000, mmap_type = 1\<rparr>]"

theorem protect_physical_regions_safe_witness:
  "\<exists>s'. protect_physical_regions (Some example_mmap) 0x1800 0x3000 0x200 example_manager = Inr s' \<and>
     phys_inv s' \<and> 1 \<notin> free_frames s' \<and> 3 \<notin> free_frames s' \<and>
     free_frames s' \<subseteq> available_frames example_mmap"
proof -
  obtain s' where s': "protect_physical_regions (Some example_mmap) 0x1800 0x3000 0x200 example_manager = Inr s'"
    "phys_inv s'" "\<forall>a. a < 0x1800 \<longrightarrow> a div 4096 \<notin> free_frames s'"
    "\<forall>a. 0x3000 \<le> a \<and> a < 0x3200 \<longrightarrow> a div 4096 \<notin> free_frames s'"
    "free_frames s' \<subseteq> available_frames example_mmap"
    using protect_physical_regions_safe [of example_mmap "0x1800" "0x3000" "0x200" example_manager] by auto
  then show ?thesis using s'(3) [rule_format, of "0x1000"] s'(4) [rule_format, of "0x3000"] by auto
qed

text \<open>
  The frames that hold the allocation bitmap itself are not always reserved at boot. The start of
  the bitmap is rounded up, not down, before it is reserved: when usable memory ends on a block
  boundary and the bitmap is shorter than a block, the bitmap starts in the last frame, and that
  frame is still free if the memory map lists it and neither the kernel nor the Multiboot structure
  covers it. The allocator can then hand out the frame its own bitmap is stored in.
\<close>

theorem protect_physical_regions_bitmap_exposed:
  assumes prot: "protect_physical_regions (Some es) kernelEnd mbi total_size s = Inr s'"
    and useable: "fst (mmap_sizes es) = of_nat ((n + 1) * 4096)"
    and n: "7 \<le> n" "n < 32752"
    and avail: "n \<in> available_frames es"
    and kernel: "unat kernelEnd \<le> n * 4096"
    and mbi: "unat mbi + unat total_size \<le> n * 4096"
  shows "n \<in> free_frames s' \<and>
         unat (boot_bitmap_start (fst (mmap_sizes es))) div 4096 = n"
proof -
  let ?u = "fst (mmap_sizes es)" and ?nb = "bitmap_bytes (n + 1)"
  have u: "unat ?u = (n + 1) * 4096" using n(2) unfolding useable by (subst unat_of_nat_64) simp_all
  then have bits: "bitmap_bits ?u = n + 1" by (simp add: bitmap_bits_def PHYSICAL_BLOCK_SIZE_def)
  have nb: "1 \<le> ?nb" "?nb \<le> 4095" using bitmap_bytes_bounds [OF n] by simp_all
  have start: "unat (boot_bitmap_start ?u) = n * 4096 + (4096 - ?nb)"
  proof -
    have "boot_bitmap_start ?u = of_nat ((n + 1) * 4096 - ?nb)"
      unfolding boot_bitmap_start_def bits using nb useable by (subst of_nat_diff) simp_all
    moreover have "(n + 1) * 4096 - ?nb < 2 ^ 64" using n(2) by simp
    ultimately show ?thesis using nb by (simp add: unat_of_nat_64 del: of_nat_diff)
  qed
  have "(n * 4096 + (4096 - ?nb) + 4095) div 4096 = n + 1" using nb by (intro div_nat_eqI) simp_all
  moreover have "unat (boot_bitmap_start ?u) + 4095 < 2 ^ 64" unfolding start using n(2) by simp
  ultimately have page: "BYTE_ALIGN_UP (boot_bitmap_start ?u) 0x1000 = ?u"
    unfolding word_unat_eq_iff by (simp only: unat_BYTE_ALIGN_UP start u)
  have "deinit_blocks 0 (unat kernelEnd) \<le> n"
    using deinit_blocks_tight [of n 0 "unat kernelEnd"] kernel by force
  moreover have "n \<notin> {unat mbi div 4096 ..< unat mbi div 4096 + deinit_blocks (unat mbi) (unat total_size)}"
    using deinit_blocks_tight [of n "unat mbi" "unat total_size"] mbi by force
  moreover have "n < frame_limit s'" using protect_frames(1) [OF prot] bits by simp
  ultimately have "n \<in> free_frames s'"
    using protect_frames(2) [OF prot] avail n(1) page
    by (simp add: deinit_blocks_def [of _ 0])
  then show ?thesis using start nb by simp
qed

theorem protect_physical_regions_bitmap_exposed_witness:
  "\<exists>s'. protect_physical_regions (Some example_mmap) 0x1800 0x3000 0x200 example_manager = Inr s' \<and>
     7 \<in> free_frames s' \<and> unat (boot_bitmap_start (fst (mmap_sizes example_mmap))) div 4096 = 7"
proof -
  obtain s' where s': "protect_physical_regions (Some example_mmap) 0x1800 0x3000 0x200 example_manager = Inr s'"
    using protect_total by blast
  have "7 \<in> available_frames example_mmap"
    by (simp add: available_frames_def example_mmap_def AVAILABLE_RAM_def region_frames_def
        BYTE_ALIGN_UP_def)
  moreover have "fst (mmap_sizes example_mmap) = of_nat ((7 + 1) * 4096)"
    by (simp add: mmap_sizes_def example_mmap_def AVAILABLE_RAM_def)
  ultimately show ?thesis
    using protect_physical_regions_bitmap_exposed [OF s', of 7] s' by simp
qed

end
