(* ===== verification/Page_Tables.thy ===== *)
theory Page_Tables
  imports Physical_Memory "HOL-Library.Sublist"
begin

text \<open>
  Virtual memory: the entries and the four levels of page tables of \<open>MemoryManager.h\<close> and the map,
  unmap and translation operations of \<open>MemoryManager.cpp\<close>. A table is named by its physical address,
  which the code turns into a pointer through the direct map of physical memory; an entry is read
  from and written to \<^const>\<open>phys_tables\<close> at every access, so that aliasing tables would show.
  Flushing the TLB and loading \<open>CR3\<close> have no effect on this state.
\<close>

subsection \<open>Requests\<close>

datatype PageSize = PAGE_4KiB | PAGE_2MiB | PAGE_1GiB

fun page_bytes :: "PageSize \<Rightarrow> u64" where
  "page_bytes PAGE_4KiB = 0x1000"
| "page_bytes PAGE_2MiB = 0x200000"
| "page_bytes PAGE_1GiB = 0x40000000"

record VirtualMemoryAllocationRequest =
  alloc_virtualAddress :: u64
  alloc_allowWrite :: bool
  alloc_allowUserAccess :: bool

record VirtualMemoryFreeRequest =
  free_virtualAddress :: u64

record VirtualMemoryMapRequest =
  physicalAddress :: u64
  virtualAddress :: u64
  allowWrite :: bool
  allowUserAccess :: bool
  pageSize :: PageSize

record VirtualMemoryUnmapRequest =
  unmap_virtualAddress :: u64
  unmap_pageSize :: PageSize

definition UnmapRequest_of_free :: "VirtualMemoryFreeRequest \<Rightarrow> VirtualMemoryUnmapRequest" where
  "UnmapRequest_of_free r =
     \<lparr>unmap_virtualAddress = free_virtualAddress r, unmap_pageSize = PAGE_4KiB\<rparr>"

subsection \<open>Entries\<close>

definition ENTRY_FRAME_MASK :: u64 where "ENTRY_FRAME_MASK = 0xFFFFFFFFFFFFF000"

datatype Flag = PRESENT | WRITEABLE | USER_ACCESS | PAGE_SIZE

fun flag_mask :: "Flag \<Rightarrow> u64" where
  "flag_mask PRESENT = 0x1"
| "flag_mask WRITEABLE = 0x2"
| "flag_mask USER_ACCESS = 0x4"
| "flag_mask PAGE_SIZE = 0x80"

definition get_flag :: "u64 \<Rightarrow> Flag \<Rightarrow> bool" where
  "get_flag e f \<longleftrightarrow> e AND flag_mask f \<noteq> 0"

definition set_flag :: "Flag \<Rightarrow> u64 \<Rightarrow> u64" where
  "set_flag f e = e OR flag_mask f"

definition clear_flag :: "Flag \<Rightarrow> u64 \<Rightarrow> u64" where
  "clear_flag f e = e AND NOT (flag_mask f)"

definition set_frame :: "u64 \<Rightarrow> u64 \<Rightarrow> u64" where
  "set_frame frame e = frame OR (e AND NOT ENTRY_FRAME_MASK)"

definition get_frame :: "u64 \<Rightarrow> u64" where
  "get_frame e = e AND ENTRY_FRAME_MASK"

definition is_present :: "u64 \<Rightarrow> bool" where
  "is_present e = get_flag e PRESENT"

definition set_access_flags :: "VirtualMemoryMapRequest \<Rightarrow> u64 \<Rightarrow> u64" where
  "set_access_flags req e =
     (let e = set_flag PRESENT e;
          e = (if allowUserAccess req then set_flag USER_ACCESS e else e)
      in if allowWrite req then set_flag WRITEABLE e else e)"

subsection \<open>Tables\<close>

definition set_entry :: "u64 \<Rightarrow> table_index \<Rightarrow> u64 \<Rightarrow> Manager \<Rightarrow> Manager" where
  "set_entry t i e s = s\<lparr>phys_tables := (phys_tables s)(t := (phys_tables s t)(i := e))\<rparr>"

definition zero_table :: "u64 \<Rightarrow> Manager \<Rightarrow> Manager" where
  "zero_table t s = s\<lparr>phys_tables := (phys_tables s)(t := (\<lambda>_. 0))\<rparr>"

definition is_table_empty :: "Manager \<Rightarrow> u64 \<Rightarrow> bool" where
  "is_table_empty s t \<longleftrightarrow> list_all (\<lambda>i. phys_tables s t (of_nat i) = 0) [0..<512]"

definition prepare_table_for_entry ::
  "VirtualMemoryMapRequest \<Rightarrow> u64 \<Rightarrow> table_index \<Rightarrow> Manager \<Rightarrow> Manager kresult" where
  "prepare_table_for_entry req t i s =
     (let e = phys_tables s t i
      in if \<not> get_flag e PRESENT \<or> get_flag e PAGE_SIZE
         then case alloc_physical_block s of
                Inl err \<Rightarrow> Inl err
              | Inr (newTable, s1) \<Rightarrow>
                  let s2 = zero_table newTable s1;
                      e = clear_flag PAGE_SIZE (set_frame newTable (phys_tables s2 t i))
                  in Inr (set_entry t i (set_access_flags req e) s2)
         else Inr (set_entry t i (set_access_flags req e) s))"

definition prepare_page_for_entry ::
  "VirtualMemoryMapRequest \<Rightarrow> u64 \<Rightarrow> table_index \<Rightarrow> Manager \<Rightarrow> Manager" where
  "prepare_page_for_entry req t i s =
     (let e = phys_tables s t i;
          e = (if pageSize req \<noteq> PAGE_4KiB then set_flag PAGE_SIZE e else e);
          e = set_frame (physicalAddress req) e
      in set_entry t i (set_access_flags req e) s)"

definition free_table :: "u64 \<Rightarrow> table_index \<Rightarrow> Manager \<Rightarrow> Manager" where
  "free_table t i s =
     (let e = phys_tables s t i
      in if get_flag e PRESENT \<and> \<not> get_flag e PAGE_SIZE
         then set_entry t i 0 (free_physical_block (get_frame e) s)
         else s)"

subsection \<open>The four levels\<close>

definition PML4_index :: "u64 \<Rightarrow> table_index" where
  "PML4_index v = ucast (drop_bit 39 v)"

definition PDPT_index :: "u64 \<Rightarrow> table_index" where
  "PDPT_index v = ucast (drop_bit 30 v)"

definition PD_index :: "u64 \<Rightarrow> table_index" where
  "PD_index v = ucast (drop_bit 21 v)"

definition PT_index :: "u64 \<Rightarrow> table_index" where
  "PT_index v = ucast (drop_bit 12 v)"

definition request_aligned :: "VirtualMemoryMapRequest \<Rightarrow> PageSize \<Rightarrow> bool" where
  "request_aligned req sz \<longleftrightarrow>
     CHECK_ALIGN (physicalAddress req) (page_bytes sz) \<and> CHECK_ALIGN (virtualAddress req) (page_bytes sz)"

definition PageTable_map :: "VirtualMemoryMapRequest \<Rightarrow> u64 \<Rightarrow> Manager \<Rightarrow> Manager kresult" where
  "PageTable_map req t s =
     (if \<not> request_aligned req PAGE_4KiB then Inl Misaligned
      else Inr (prepare_page_for_entry req t (PT_index (virtualAddress req)) s))"

definition PageDirectoryTable_map :: "VirtualMemoryMapRequest \<Rightarrow> u64 \<Rightarrow> Manager \<Rightarrow> Manager kresult" where
  "PageDirectoryTable_map req t s =
     (let i = PD_index (virtualAddress req)
      in if pageSize req = PAGE_2MiB
         then if \<not> request_aligned req PAGE_2MiB then Inl Misaligned
              else Inr (prepare_page_for_entry req t i (free_table t i s))
         else case prepare_table_for_entry req t i s of
                Inl err \<Rightarrow> Inl err
              | Inr s1 \<Rightarrow> PageTable_map req (get_frame (phys_tables s1 t i)) s1)"

definition PageDirectoryPointerTable_map ::
  "VirtualMemoryMapRequest \<Rightarrow> u64 \<Rightarrow> Manager \<Rightarrow> Manager kresult" where
  "PageDirectoryPointerTable_map req t s =
     (let i = PDPT_index (virtualAddress req)
      in if pageSize req = PAGE_1GiB
         then if \<not> request_aligned req PAGE_1GiB then Inl Misaligned
              else Inr (prepare_page_for_entry req t i (free_table t i s))
         else case prepare_table_for_entry req t i s of
                Inl err \<Rightarrow> Inl err
              | Inr s1 \<Rightarrow> PageDirectoryTable_map req (get_frame (phys_tables s1 t i)) s1)"

definition PML4Table_map :: "VirtualMemoryMapRequest \<Rightarrow> u64 \<Rightarrow> Manager \<Rightarrow> Manager kresult" where
  "PML4Table_map req t s =
     (let i = PML4_index (virtualAddress req)
      in case prepare_table_for_entry req t i s of
           Inl err \<Rightarrow> Inl err
         | Inr s1 \<Rightarrow> PageDirectoryPointerTable_map req (get_frame (phys_tables s1 t i)) s1)"

definition request_virtual_map :: "VirtualMemoryMapRequest \<Rightarrow> u64 \<Rightarrow> Manager \<Rightarrow> Manager kresult" where
  "request_virtual_map req addressSpace s = PML4Table_map req addressSpace s"

definition PageTable_unmap ::
  "VirtualMemoryUnmapRequest \<Rightarrow> u64 \<Rightarrow> Manager \<Rightarrow> (bool \<times> Manager) kresult" where
  "PageTable_unmap req t s =
     (let i = PT_index (unmap_virtualAddress req)
      in if get_frame (phys_tables s t i) = 0 then Inl NotMapped
         else let s1 = set_entry t i 0 s in Inr (is_table_empty s1 t, s1))"

definition PageDirectoryTable_unmap ::
  "VirtualMemoryUnmapRequest \<Rightarrow> u64 \<Rightarrow> Manager \<Rightarrow> (bool \<times> Manager) kresult" where
  "PageDirectoryTable_unmap req t s =
     (let i = PD_index (unmap_virtualAddress req)
      in if \<not> is_present (phys_tables s t i) then Inl NotMapped
         else if unmap_pageSize req = PAGE_2MiB
         then let s1 = set_entry t i 0 s in Inr (is_table_empty s1 t, s1)
         else case PageTable_unmap req (get_frame (phys_tables s t i)) s of
                Inl err \<Rightarrow> Inl err
              | Inr (isEmpty, s1) \<Rightarrow>
                  let s2 = (if isEmpty then free_table t i s1 else s1) in Inr (is_table_empty s2 t, s2))"

definition PageDirectoryPointerTable_unmap ::
  "VirtualMemoryUnmapRequest \<Rightarrow> u64 \<Rightarrow> Manager \<Rightarrow> (bool \<times> Manager) kresult" where
  "PageDirectoryPointerTable_unmap req t s =
     (let i = PDPT_index (unmap_virtualAddress req)
      in if \<not> is_present (phys_tables s t i) then Inl NotMapped
         else if unmap_pageSize req = PAGE_1GiB
         then let s1 = set_entry t i 0 s in Inr (is_table_empty s1 t, s1)
         else case PageDirectoryTable_unmap req (get_frame (phys_tables s t i)) s of
                Inl err \<Rightarrow> Inl err
              | Inr (isEmpty, s1) \<Rightarrow>
                  let s2 = (if isEmpty then free_table t i s1 else s1) in Inr (is_table_empty s2 t, s2))"

definition PML4Table_unmap :: "VirtualMemoryUnmapRequest \<Rightarrow> u64 \<Rightarrow> Manager \<Rightarrow> Manager kresult" where
  "PML4Table_unmap req t s =
     (let i = PML4_index (unmap_virtualAddress req)
      in if \<not> is_present (phys_tables s t i) then Inl NotMapped
         else case PageDirectoryPointerTable_unmap req (get_frame (phys_tables s t i)) s of
                Inl err \<Rightarrow> Inl err
              | Inr (isEmpty, s1) \<Rightarrow> Inr (if isEmpty then free_table t i s1 else s1))"

definition request_virtual_unmap :: "VirtualMemoryUnmapRequest \<Rightarrow> u64 \<Rightarrow> Manager \<Rightarrow> Manager kresult" where
  "request_virtual_unmap req addressSpace s = PML4Table_unmap req addressSpace s"

definition PageTable_get :: "Manager \<Rightarrow> u64 \<Rightarrow> u64 \<Rightarrow> u64" where
  "PageTable_get s v t =
     (let e = phys_tables s t (PT_index v) in if \<not> is_present e then 0 else get_frame e)"

definition PageDirectoryTable_get :: "Manager \<Rightarrow> u64 \<Rightarrow> u64 \<Rightarrow> u64" where
  "PageDirectoryTable_get s v t =
     (let e = phys_tables s t (PD_index v)
      in if \<not> is_present e then 0
         else if get_flag e PAGE_SIZE then get_frame e
         else PageTable_get s v (get_frame e))"

definition PageDirectoryPointerTable_get :: "Manager \<Rightarrow> u64 \<Rightarrow> u64 \<Rightarrow> u64" where
  "PageDirectoryPointerTable_get s v t =
     (let e = phys_tables s t (PDPT_index v)
      in if \<not> is_present e then 0
         else if get_flag e PAGE_SIZE then get_frame e
         else PageDirectoryTable_get s v (get_frame e))"

definition PML4Table_get :: "Manager \<Rightarrow> u64 \<Rightarrow> u64 \<Rightarrow> u64" where
  "PML4Table_get s v t =
     (let e = phys_tables s t (PML4_index v)
      in if \<not> is_present e then 0 else PageDirectoryPointerTable_get s v (get_frame e))"

definition get_physical_address :: "Manager \<Rightarrow> u64 \<Rightarrow> u64 \<Rightarrow> u64" where
  "get_physical_address s addressSpace v = PML4Table_get s v addressSpace"

subsection \<open>Pages and address spaces\<close>

definition alloc_page :: "VirtualMemoryAllocationRequest \<Rightarrow> u64 \<Rightarrow> Manager \<Rightarrow> Manager kresult" where
  "alloc_page req addressSpace s =
     (case alloc_physical_block s of
        Inl err \<Rightarrow> Inl err
      | Inr (p, s1) \<Rightarrow>
          request_virtual_map \<lparr>physicalAddress = p, virtualAddress = alloc_virtualAddress req,
            allowWrite = alloc_allowWrite req, allowUserAccess = alloc_allowUserAccess req,
            pageSize = PAGE_4KiB\<rparr> addressSpace s1)"

definition free_page :: "VirtualMemoryFreeRequest \<Rightarrow> u64 \<Rightarrow> Manager \<Rightarrow> Manager kresult" where
  "free_page req addressSpace s = request_virtual_unmap (UnmapRequest_of_free req) addressSpace s"

fun map_physical_memory :: "nat list \<Rightarrow> u64 \<Rightarrow> Manager \<Rightarrow> Manager kresult" where
  "map_physical_memory [] addressSpace s = Inr s"
| "map_physical_memory (k # ks) addressSpace s =
     (let p = of_nat k * page_bytes PAGE_2MiB
      in case request_virtual_map \<lparr>physicalAddress = p, virtualAddress = VirtualAddress_of_physical p,
               allowWrite = True, allowUserAccess = False, pageSize = PAGE_2MiB\<rparr> addressSpace s of
           Inl err \<Rightarrow> Inl err
         | Inr s1 \<Rightarrow> map_physical_memory ks addressSpace s1)"

definition create_virtual_address_space :: "Manager \<Rightarrow> (u64 \<times> Manager) kresult" where
  "create_virtual_address_space s =
     (case alloc_physical_block s of
        Inl err \<Rightarrow> Inl err
      | Inr (p, s1) \<Rightarrow>
          (case map_physical_memory [0..<2048] p (zero_table p s1) of
             Inl err \<Rightarrow> Inl err
           | Inr s2 \<Rightarrow> Inr (p, s2)))"

definition destroy_virtual_address_space :: "u64 \<Rightarrow> Manager \<Rightarrow> Manager" where
  "destroy_virtual_address_space addressSpace s = free_physical_block addressSpace s"

definition remap_pages :: "Manager \<Rightarrow> Manager kresult" where
  "remap_pages s =
     (case create_virtual_address_space s of
        Inl err \<Rightarrow> Inl err
      | Inr (p, s1) \<Rightarrow> Inr (s1\<lparr>m_virtualAddressSpace := p\<rparr>))"

subsection \<open>Reading back entries\<close>

definition aligned12 :: "u64 \<Rightarrow> bool" where
  "aligned12 p \<longleftrightarrow> p AND 0xFFF = 0"

named_theorems entry_simps \<open>flags and frames of page table entries\<close>

lemma mask12: "(0xFFF :: u64) = mask 12" "ENTRY_FRAME_MASK = NOT (mask 12)"
  by (simp_all add: mask_eq_exp_minus_1 ENTRY_FRAME_MASK_def)

fun flag_bit :: "Flag \<Rightarrow> nat" where
  "flag_bit PRESENT = 0" | "flag_bit WRITEABLE = 1" | "flag_bit USER_ACCESS = 2" | "flag_bit PAGE_SIZE = 7"

lemma flag_bit_less [simp]: "flag_bit f < 12" by (cases f) simp_all

lemma flag_bit_not_ge [simp]: "\<not> 12 \<le> flag_bit f" by (simp add: not_le)

lemma flag_mask_bit: "flag_mask f = 2 ^ flag_bit f" by (cases f) simp_all

lemma flag_bit_inj [simp]: "flag_bit f = flag_bit g \<longleftrightarrow> f = g" by (cases f; cases g) simp_all

lemma bit_flag_mask [simp]: "bit (flag_mask f) n \<longleftrightarrow> n = flag_bit f"
proof -
  have "flag_bit f < 64" using flag_bit_less [of f] by linarith
  then show ?thesis by (auto simp: flag_mask_bit bit_exp_iff)
qed

lemma get_flag_bit: "get_flag e f \<longleftrightarrow> bit e (flag_bit f)"
  by (auto simp: get_flag_def bit_eq_iff [of "e AND flag_mask f" 0] bit_and_iff dest: bit_imp_le_length)

lemma aligned12_bit: "aligned12 p \<longleftrightarrow> (\<forall>n<12. \<not> bit p n)"
proof -
  have "bit p n \<Longrightarrow> n < 64" for n using bit_imp_le_length [of p n] by simp
  then show ?thesis
    by (auto simp: aligned12_def mask12 bit_eq_iff [of "p AND mask 12" 0] bit_and_iff bit_mask_iff)
qed

lemma bit_set_frame: "bit (set_frame p e) n \<longleftrightarrow> bit p n \<or> (n < 12 \<and> bit e n)"
  by (auto simp: set_frame_def mask12 bit_or_iff bit_and_iff bit_mask_iff dest: bit_imp_le_length)

lemma bit_get_frame: "bit (get_frame e) n \<longleftrightarrow> 12 \<le> n \<and> bit e n"
  by (auto simp: get_frame_def mask12 bit_and_iff bit_not_iff bit_mask_iff dest: bit_imp_le_length)

lemma aligned12_get_frame [simp]: "aligned12 (get_frame e)"
  by (simp add: aligned12_bit bit_get_frame)

lemma get_flag_frame [entry_simps]: "aligned12 p \<Longrightarrow> get_flag (set_frame p e) f \<longleftrightarrow> get_flag e f"
  by (simp add: get_flag_bit bit_set_frame aligned12_bit)

lemma get_frame_set_frame [entry_simps]: "aligned12 p \<Longrightarrow> get_frame (set_frame p e) = p"
  by (rule bit_word_eqI) (auto simp: bit_get_frame bit_set_frame aligned12_bit not_less)

lemma get_flag_set_flag [entry_simps]: "get_flag (set_flag g e) f \<longleftrightarrow> f = g \<or> get_flag e f"
  by (auto simp: get_flag_bit set_flag_def bit_or_iff)

lemma get_flag_clear_flag [entry_simps]: "get_flag (clear_flag g e) f \<longleftrightarrow> f \<noteq> g \<and> get_flag e f"
  by (auto simp: get_flag_bit clear_flag_def bit_and_iff bit_not_iff dest: bit_imp_le_length)

lemma get_frame_set_flag [entry_simps]: "get_frame (set_flag g e) = get_frame e"
  by (intro bit_word_eqI) (auto simp: bit_get_frame set_flag_def bit_or_iff)

lemma get_frame_clear_flag [entry_simps]: "get_frame (clear_flag g e) = get_frame e"
  by (intro bit_word_eqI) (auto simp: bit_get_frame clear_flag_def bit_and_iff bit_not_iff)

lemma get_frame_access [entry_simps]: "get_frame (set_access_flags req e) = get_frame e"
  by (simp add: set_access_flags_def Let_def entry_simps)

lemma get_flag_access [entry_simps]:
  "get_flag (set_access_flags req e) f \<longleftrightarrow>
     f = PRESENT \<or> (f = USER_ACCESS \<and> allowUserAccess req) \<or> (f = WRITEABLE \<and> allowWrite req) \<or>
     get_flag e f"
  by (auto simp: set_access_flags_def Let_def entry_simps)

lemma get_flag_0 [simp]: "\<not> get_flag 0 f"
  by (simp add: get_flag_def)

lemma aligned12_frame_address [simp]: "aligned12 (frame_address n)"
proof -
  have "(4096 :: u64) = push_bit 12 1" by simp
  then have "frame_address n = push_bit 12 (of_nat n)"
    by (simp add: frame_address_def PHYSICAL_BLOCK_SIZE_def push_bit_eq_mult mult.commute)
  then show ?thesis by (simp add: aligned12_bit bit_push_bit_iff)
qed

lemma frame_address_inj:
  assumes "m < 2 ^ 52" "n < 2 ^ 52" "frame_address m = frame_address n"
  shows "m = n"
  using assms unat_frame_address by (metis mult_cancel2 zero_neq_numeral)

subsection \<open>The tree of tables\<close>

text \<open>
  The tables of an address space form a tree: \<open>table_at T r p\<close> is the table the indexes \<open>p\<close> lead to
  from the top level table \<open>r\<close>, and \<open>walk T r p\<close> the frame a full path of four indexes leads to,
  with the indexes that are left because the frame is a large page.
  The invariant speaks of a set \<open>R\<close> of top level tables, one per address space: no table is reached
  along two different paths or from two address spaces, every table lies in a frame the allocator
  regards as used, and top level entries are never marked as large pages.
\<close>

definition is_table :: "u64 \<Rightarrow> bool" where
  "is_table e \<longleftrightarrow> get_flag e PRESENT \<and> \<not> get_flag e PAGE_SIZE"

definition is_huge :: "u64 \<Rightarrow> bool" where
  "is_huge e \<longleftrightarrow> get_flag e PRESENT \<and> get_flag e PAGE_SIZE"

fun table_at :: "(u64 \<Rightarrow> table_index \<Rightarrow> u64) \<Rightarrow> u64 \<Rightarrow> table_index list \<Rightarrow> u64 option" where
  "table_at T t [] = Some t"
| "table_at T t (i # is) = (if is_table (T t i) then table_at T (get_frame (T t i)) is else None)"

fun walk ::
  "(u64 \<Rightarrow> table_index \<Rightarrow> u64) \<Rightarrow> u64 \<Rightarrow> table_index list \<Rightarrow> (u64 \<times> table_index list) option" where
  "walk T t [] = None"
| "walk T t [i] = (if get_flag (T t i) PRESENT then Some (get_frame (T t i), []) else None)"
| "walk T t (i # j # js) =
     (if \<not> get_flag (T t i) PRESENT then None
      else if get_flag (T t i) PAGE_SIZE then Some (get_frame (T t i), j # js)
      else walk T (get_frame (T t i)) (j # js))"

definition translate :: "(u64 \<Rightarrow> table_index \<Rightarrow> u64) \<Rightarrow> u64 \<Rightarrow> table_index list \<Rightarrow> u64" where
  "translate T r q = (case walk T r q of None \<Rightarrow> 0 | Some (f, _) \<Rightarrow> f)"

definition vpath :: "u64 \<Rightarrow> table_index list" where
  "vpath v = [PML4_index v, PDPT_index v, PD_index v, PT_index v]"

definition owned :: "Manager \<Rightarrow> u64 \<Rightarrow> bool" where
  "owned s t \<longleftrightarrow> (\<exists>n. t = frame_address n \<and> 0 < n \<and> n < frame_limit s \<and> n \<notin> free_frames s)"

definition vm_inv :: "u64 set \<Rightarrow> Manager \<Rightarrow> bool" where
  "vm_inv R s \<longleftrightarrow> phys_inv s \<and>
     (\<forall>r\<in>R. \<forall>i. \<not> get_flag (phys_tables s r i) PAGE_SIZE) \<and>
     (\<forall>r\<in>R. \<forall>p t. length p \<le> 3 \<longrightarrow> table_at (phys_tables s) r p = Some t \<longrightarrow> owned s t) \<and>
     (\<forall>r\<in>R. \<forall>r'\<in>R. \<forall>p p' t. length p \<le> 3 \<longrightarrow> length p' \<le> 3 \<longrightarrow>
        table_at (phys_tables s) r p = Some t \<longrightarrow> table_at (phys_tables s) r' p' = Some t \<longrightarrow>
        r = r' \<and> p = p')"

lemma length_vpath [simp]: "length (vpath v) = 4"
  by (simp add: vpath_def)

lemma translate_vpath:
  assumes "vm_inv R s" "r \<in> R"
  shows "get_physical_address s r v = translate (phys_tables s) r (vpath v)"
  using assms
  by (simp add: translate_def get_physical_address_def PML4Table_get_def PageDirectoryPointerTable_get_def
      PageDirectoryTable_get_def PageTable_get_def is_present_def vpath_def vm_inv_def Let_def)

lemma table_at_append:
  "table_at T r (p @ q) = (case table_at T r p of None \<Rightarrow> None | Some t \<Rightarrow> table_at T t q)"
  by (induction T r p rule: table_at.induct) auto

lemma walk_append:
  "q \<noteq> [] \<Longrightarrow> table_at T r p = Some t \<Longrightarrow> walk T r (p @ q) = walk T t q"
proof (induction T r p rule: table_at.induct)
  case (2 T r i p)
  then obtain j js where "p @ q = j # js" by (cases "p @ q") auto
  then show ?case using 2 by (simp add: is_table_def split: if_splits)
qed simp

definition same_entry :: "u64 \<Rightarrow> u64 \<Rightarrow> bool" where
  "same_entry e e' \<longleftrightarrow> get_frame e = get_frame e' \<and>
     get_flag e PRESENT = get_flag e' PRESENT \<and> get_flag e PAGE_SIZE = get_flag e' PAGE_SIZE"

lemma same_entry_refl [simp]: "same_entry e e" by (simp add: same_entry_def)

lemma tree_cong:
  assumes "\<And>p j q' t. q = p @ j # q' \<Longrightarrow> table_at T r p = Some t \<Longrightarrow> same_entry (T' t j) (T t j)"
  shows "table_at T' r q = table_at T r q \<and> walk T' r q = walk T r q"
  using assms
proof (induction T r q rule: walk.induct)
  case (2 T r i)
  from 2 [of "[]"] show ?case by (simp add: same_entry_def is_table_def)
next
  case (3 T r i j js)
  have e: "same_entry (T' r i) (T r i)" using "3.prems" [of "[]"] by simp
  show ?case
  proof (cases "is_table (T r i)")
    case True
    have "table_at T' (get_frame (T r i)) (j # js) = table_at T (get_frame (T r i)) (j # js) \<and>
          walk T' (get_frame (T r i)) (j # js) = walk T (get_frame (T r i)) (j # js)"
    proof (rule "3.IH")
      fix p k q' t
      assume "j # js = p @ k # q'" "table_at T (get_frame (T r i)) p = Some t"
      then show "same_entry (T' t k) (T t k)" using "3.prems" [of "i # p" k q' t] True by simp
    qed (use True in \<open>simp_all add: is_table_def\<close>)
    then show ?thesis using e True by (simp add: same_entry_def is_table_def)
  next
    case False
    then show ?thesis using e by (auto simp: same_entry_def is_table_def)
  qed
qed simp

lemma vm_inv_phys: "vm_inv R s \<Longrightarrow> phys_inv s"
  by (simp add: vm_inv_def)

lemma vm_inv_owned:
  "vm_inv R s \<Longrightarrow> r \<in> R \<Longrightarrow> length p \<le> 3 \<Longrightarrow> table_at (phys_tables s) r p = Some t \<Longrightarrow> owned s t"
  by (simp add: vm_inv_def)

lemma vm_inv_unique:
  "vm_inv R s \<Longrightarrow> r \<in> R \<Longrightarrow> r' \<in> R \<Longrightarrow> length p \<le> 3 \<Longrightarrow> length p' \<le> 3 \<Longrightarrow>
   table_at (phys_tables s) r p = Some t \<Longrightarrow> table_at (phys_tables s) r' p' = Some t \<Longrightarrow>
   r = r' \<and> p = p'"
  unfolding vm_inv_def by blast

lemma vm_inv_shrink:
  assumes "vm_inv R s" "phys_inv s'"
    and "\<And>r i. r \<in> R \<Longrightarrow> \<not> get_flag (phys_tables s' r i) PAGE_SIZE"
    and "\<And>r q t. r \<in> R \<Longrightarrow> length q \<le> 3 \<Longrightarrow> table_at (phys_tables s') r q = Some t \<Longrightarrow>
           table_at (phys_tables s) r q = Some t \<and> owned s' t"
  shows "vm_inv R s'"
  unfolding vm_inv_def
proof (intro conjI ballI allI impI)
  fix r r' p p' t
  assume "r \<in> R" "r' \<in> R" "length p \<le> 3" "length p' \<le> 3"
    "table_at (phys_tables s') r p = Some t" "table_at (phys_tables s') r' p' = Some t"
  then show "r = r'" "p = p'" using assms(4) vm_inv_unique [OF assms(1)] by blast+
qed (use assms in auto)

text \<open>
  Writing one entry of a table at a known path: everything that does not pass through the entry is
  as before, and what passes through it continues from the new entry.
\<close>

lemma write_off_path:
  assumes inv: "vm_inv R s" and r: "r \<in> R" and p: "length p \<le> 3" "table_at (phys_tables s) r p = Some t"
    and q: "r' \<in> R" "length q \<le> 4" "\<not> (r' = r \<and> prefix (p @ [i]) q)"
  shows "table_at ((phys_tables s)(t := (phys_tables s t)(i := e))) r' q = table_at (phys_tables s) r' q \<and>
         walk ((phys_tables s)(t := (phys_tables s t)(i := e))) r' q = walk (phys_tables s) r' q"
proof (rule tree_cong)
  fix p' j q' t'
  assume q': "q = p' @ j # q'" "table_at (phys_tables s) r' p' = Some t'"
  have "t' \<noteq> t \<or> j \<noteq> i"
  proof (rule ccontr)
    assume "\<not> ?thesis"
    then have "r' = r \<and> p' = p" "j = i"
      using vm_inv_unique [OF inv q(1) r _ p(1) _ p(2), of p'] q' q(2) by auto
    then show False using q(3) q'(1) by auto
  qed
  then show "same_entry (((phys_tables s)(t := (phys_tables s t)(i := e))) t' j) (phys_tables s t' j)"
    by auto
qed

lemma write_on_path:
  fixes i e
  assumes "vm_inv R s" "r \<in> R" "length p \<le> 3" "table_at (phys_tables s) r p = Some t"
  defines "T' \<equiv> (phys_tables s)(t := (phys_tables s t)(i := e))"
  shows "table_at T' r (p @ i # q) = (if is_table e then table_at T' (get_frame e) q else None)"
    and "walk T' r (p @ i # q) = walk T' t (i # q)"
    and "table_at T' r p = Some t"
proof -
  show "table_at T' r p = Some t"
    using write_off_path [OF assms(1-4) assms(2), of p i e] assms(3,4) by (simp add: T'_def)
  then show "table_at T' r (p @ i # q) = (if is_table e then table_at T' (get_frame e) q else None)"
    "walk T' r (p @ i # q) = walk T' t (i # q)"
    by (simp_all add: table_at_append walk_append T'_def)
qed

lemma walk_leaf:
  assumes "\<not> is_table (T t i) \<or> q = []"
  shows "walk T t (i # q) = (if get_flag (T t i) PRESENT then Some (get_frame (T t i), q) else None)"
  using assms by (cases q) (auto simp: is_table_def)

lemma table_not_root:
  assumes "vm_inv R s" "r \<in> R" "length p \<le> 3" "table_at (phys_tables s) r p = Some t" "p \<noteq> []" "r' \<in> R"
  shows "r' \<noteq> t"
  using vm_inv_unique [OF assms(1,2,6,3) _ assms(4), of "[]"] assms(5) by auto

text \<open>A new entry that is not a table cuts the subtree below it off.\<close>

lemma cut_entry:
  assumes inv: "vm_inv R s" and r: "r \<in> R" and p: "length p \<le> 3" "table_at (phys_tables s) r p = Some t"
    and T: "phys_tables s' = (phys_tables s)(t := (phys_tables s t)(i := e))"
    and e: "length p < 3 \<longrightarrow> \<not> is_table e" and root: "p = [] \<longrightarrow> \<not> get_flag e PAGE_SIZE"
    and phys: "phys_inv s'"
    and owned: "\<And>r' q u. r' \<in> R \<Longrightarrow> length q \<le> 3 \<Longrightarrow> table_at (phys_tables s) r' q = Some u \<Longrightarrow>
       \<not> (r' = r \<and> prefix (p @ [i]) q) \<Longrightarrow> owned s' u"
  shows "vm_inv R s' \<and> (\<forall>w. prefix w p \<longrightarrow> table_at (phys_tables s') r w = table_at (phys_tables s) r w) \<and>
    (\<forall>r'\<in>R. \<forall>q. length q = 4 \<longrightarrow> walk (phys_tables s') r' q =
       (if r' = r \<and> prefix (p @ [i]) q then (if get_flag e PRESENT then Some (get_frame e, drop (length p + 1) q) else None)
        else walk (phys_tables s) r' q))"
proof (intro conjI ballI allI impI)
  show "vm_inv R s'"
  proof (rule vm_inv_shrink [OF inv phys])
    fix r' j assume "r' \<in> R"
    then show "\<not> get_flag (phys_tables s' r' j) PAGE_SIZE"
      using inv root table_not_root [OF inv r p, of r'] p(2)
      by (cases "p = []") (auto simp: T vm_inv_def)
  next
    fix r' q u
    assume q: "r' \<in> R" "length q \<le> 3" "table_at (phys_tables s') r' q = Some u"
    show "table_at (phys_tables s) r' q = Some u \<and> owned s' u"
    proof (cases "r' = r \<and> prefix (p @ [i]) q")
      case True
      then obtain q2 where "q = p @ i # q2" by (auto simp: prefix_def)
      then show ?thesis using True q e write_on_path(1) [OF inv r p, of i e q2] by (simp add: T)
    next
      case False
      then have "table_at (phys_tables s) r' q = Some u"
        using write_off_path [OF inv r p q(1) _ False, of e] q(2,3) by (simp add: T)
      then show ?thesis using owned q(1,2) False by blast
    qed
  qed
next
  fix w assume w: "prefix w p"
  then have "length w \<le> length p" by (rule prefix_length_le)
  moreover have "\<not> prefix (p @ [i]) w"
    using prefix_length_le [of "p @ [i]" w] prefix_length_le [OF w] by auto
  ultimately show "table_at (phys_tables s') r w = table_at (phys_tables s) r w"
    using write_off_path [OF inv r p r, of w i e] p(1) by (simp add: T)
next
  fix r' and q :: "table_index list"
  assume q: "r' \<in> R" "length q = 4"
  show "walk (phys_tables s') r' q =
       (if r' = r \<and> prefix (p @ [i]) q then (if get_flag e PRESENT then Some (get_frame e, drop (length p + 1) q) else None)
        else walk (phys_tables s) r' q)"
  proof (cases "r' = r \<and> prefix (p @ [i]) q")
    case True
    then obtain q2 where q2: "q = p @ i # q2" by (auto simp: prefix_def)
    then have "length p < 3 \<or> q2 = []" using q(2) p(1) by (cases q2) auto
    then have "walk (phys_tables s') t (i # q2) = (if get_flag e PRESENT then Some (get_frame e, q2) else None)"
      using e walk_leaf [of "phys_tables s'" t i q2] by (auto simp: T)
    then show ?thesis using True q2 write_on_path(2) [OF inv r p, of i e q2] by (simp add: T)
  next
    case False
    have "walk (phys_tables s') r' q = walk (phys_tables s) r' q"
      using write_off_path [OF inv r p q(1) _ False, of e] q(2) by (simp add: T)
    then show ?thesis by (simp only: if_not_P [OF False])
  qed
qed

subsection \<open>Effect of the entry operations on the tree\<close>

lemma set_entry_simps [simp]:
  "phys_tables (set_entry t i e s) = (phys_tables s)(t := (phys_tables s t)(i := e))"
  "free_frames (set_entry t i e s) = free_frames s" "frame_limit (set_entry t i e s) = frame_limit s"
  "phys_inv (set_entry t i e s) = phys_inv s" "owned (set_entry t i e s) = owned s"
  by (simp_all add: set_entry_def free_frames_def frame_limit_def phys_inv_def owned_def fun_eq_iff)

lemma zero_table_simps [simp]:
  "phys_tables (zero_table t s) = (phys_tables s)(t := (\<lambda>_. 0))"
  "free_frames (zero_table t s) = free_frames s" "frame_limit (zero_table t s) = frame_limit s"
  "phys_inv (zero_table t s) = phys_inv s" "owned (zero_table t s) = owned s"
  by (simp_all add: zero_table_def free_frames_def frame_limit_def phys_inv_def owned_def fun_eq_iff)

lemma page_step:
  fixes i
  assumes inv: "vm_inv R s" "r \<in> R" "length p \<le> 3" "table_at (phys_tables s) r p = Some t"
    and p: "p \<noteq> []" "length p < 3 \<longleftrightarrow> pageSize req \<noteq> PAGE_4KiB" and al: "aligned12 (physicalAddress req)"
  defines "s' \<equiv> prepare_page_for_entry req t i s"
  shows "vm_inv R s' \<and> free_frames s' = free_frames s \<and>
    (\<forall>r'\<in>R. \<forall>q. length q = 4 \<longrightarrow> walk (phys_tables s') r' q =
       (if r' = r \<and> prefix (p @ [i]) q then Some (physicalAddress req, drop (length p + 1) q)
        else walk (phys_tables s) r' q))"
proof -
  define e where "e = set_access_flags req (set_frame (physicalAddress req)
      (if pageSize req \<noteq> PAGE_4KiB then set_flag PAGE_SIZE (phys_tables s t i) else phys_tables s t i))"
  have s': "s' = set_entry t i e s" by (simp add: s'_def prepare_page_for_entry_def Let_def e_def)
  have e: "get_flag e PRESENT" "get_frame e = physicalAddress req" "length p < 3 \<longrightarrow> \<not> is_table e"
    using al p(2) by (auto simp: e_def entry_simps is_table_def)
  have "vm_inv R s' \<and> (\<forall>w. prefix w p \<longrightarrow> table_at (phys_tables s') r w = table_at (phys_tables s) r w) \<and>
    (\<forall>r'\<in>R. \<forall>q. length q = 4 \<longrightarrow> walk (phys_tables s') r' q =
       (if r' = r \<and> prefix (p @ [i]) q then (if get_flag e PRESENT then Some (get_frame e, drop (length p + 1) q) else None)
        else walk (phys_tables s) r' q))"
    using e(3) p(1) vm_inv_phys [OF inv(1)] vm_inv_owned [OF inv(1)]
    by (intro cut_entry [OF inv]) (auto simp: s')
  moreover have "free_frames s' = free_frames s" by (simp add: s')
  ultimately show ?thesis using e(1,2) by simp
qed

lemma clear_step:
  assumes inv: "vm_inv R s" "r \<in> R" "length p \<le> 3" "table_at (phys_tables s) r p = Some t"
  shows "vm_inv R (set_entry t i 0 s) \<and>
    (\<forall>w. prefix w p \<longrightarrow> table_at (phys_tables (set_entry t i 0 s)) r w = table_at (phys_tables s) r w) \<and>
    (\<forall>r'\<in>R. \<forall>q. length q = 4 \<longrightarrow> walk (phys_tables (set_entry t i 0 s)) r' q =
       (if r' = r \<and> prefix (p @ [i]) q then None else walk (phys_tables s) r' q))"
  using cut_entry [OF inv, of "set_entry t i 0 s" i 0] vm_inv_phys [OF inv(1)] vm_inv_owned [OF inv(1)]
  by (simp add: is_table_def)

lemma owned_after_free:
  assumes "phys_inv s" "owned s t" "owned s u" "u \<noteq> t"
  shows "owned (free_physical_block t s) u"
proof -
  obtain n where n: "t = frame_address n" "0 < n" "n < frame_limit s" using assms(2) by (auto simp: owned_def)
  show ?thesis using free_physical_block_frames [OF assms(1) n(2,3)] assms(3,4) n(1)
    by (auto simp: owned_def)
qed

lemma free_table_step:
  assumes inv: "vm_inv R s" "r \<in> R" "length p \<le> 2" "table_at (phys_tables s) r p = Some t"
  shows "vm_inv R (free_table t i s) \<and>
    (\<forall>w. prefix w p \<longrightarrow> table_at (phys_tables (free_table t i s)) r w = table_at (phys_tables s) r w) \<and>
    free_frames s \<subseteq> free_frames (free_table t i s) \<and>
    \<not> is_table (phys_tables (free_table t i s) t i) \<and>
    (\<forall>r'\<in>R. \<forall>q. length q = 4 \<longrightarrow> walk (phys_tables (free_table t i s)) r' q =
       (if r' = r \<and> prefix (p @ [i]) q \<and> is_table (phys_tables s t i) then None
        else walk (phys_tables s) r' q))"
proof (cases "is_table (phys_tables s t i)")
  case False
  then show ?thesis using inv by (auto simp: free_table_def is_table_def Let_def)
next
  case True
  let ?f = "get_frame (phys_tables s t i)"
  have p: "length p \<le> 3" using inv(3) by simp
  have tab: "table_at (phys_tables s) r (p @ [i]) = Some ?f"
    using True inv(4) by (simp add: table_at_append)
  have own: "owned s ?f" using vm_inv_owned [OF inv(1,2) _ tab] inv(3) by simp
  then obtain n where n: "?f = frame_address n" "0 < n" "n < frame_limit s" by (auto simp: owned_def)
  note phys = vm_inv_phys [OF inv(1)]
  note free = free_physical_block_frames [OF phys n(2,3), folded n(1)]
  have s': "free_table t i s = set_entry t i 0 (free_physical_block ?f s)"
    using True by (simp add: free_table_def is_table_def)
  have T: "phys_tables (free_table t i s) = (phys_tables s)(t := (phys_tables s t)(i := 0))"
    using free by (simp add: s')
  have "owned (free_table t i s) u"
    if "r' \<in> R" "length q \<le> 3" "table_at (phys_tables s) r' q = Some u" "\<not> (r' = r \<and> prefix (p @ [i]) q)"
    for r' q u
  proof -
    have "u \<noteq> ?f"
      using vm_inv_unique [OF inv(1) that(1) inv(2) that(2) _ that(3), of "p @ [i]"] tab that(4) inv(3)
      by auto
    then show ?thesis
      using owned_after_free [OF phys own] vm_inv_owned [OF inv(1) that(1,2,3)] by (simp add: s')
  qed
  moreover have "phys_inv (free_table t i s)" using free by (simp add: s')
  ultimately have "vm_inv R (free_table t i s) \<and>
    (\<forall>w. prefix w p \<longrightarrow> table_at (phys_tables (free_table t i s)) r w = table_at (phys_tables s) r w) \<and>
    (\<forall>r'\<in>R. \<forall>q. length q = 4 \<longrightarrow> walk (phys_tables (free_table t i s)) r' q =
       (if r' = r \<and> prefix (p @ [i]) q then (if get_flag 0 PRESENT then Some (get_frame 0, drop (length p + 1) q) else None)
        else walk (phys_tables s) r' q))"
    by (intro cut_entry [OF inv(1,2) p inv(4) T]) (auto simp: is_table_def)
  moreover have "free_frames s \<subseteq> free_frames (free_table t i s)" using free by (auto simp: s')
  moreover have "\<not> is_table (phys_tables (free_table t i s) t i)" by (simp add: T is_table_def)
  ultimately show ?thesis using True by simp
qed

text \<open>The frame \<open>free_table\<close> gives back is the one of the table below the entry, and nothing else.\<close>

lemma free_table_frame:
  assumes inv: "vm_inv R s" "r \<in> R" "length p \<le> 2" "table_at (phys_tables s) r p = Some t"
    and tab: "is_table (phys_tables s t i)"
  shows "\<exists>n. get_frame (phys_tables s t i) = frame_address n \<and> n < frame_limit s \<and>
    free_frames (free_table t i s) = insert n (free_frames s) \<and>
    frame_limit (free_table t i s) = frame_limit s \<and>
    phys_tables (free_table t i s) = (phys_tables s)(t := (phys_tables s t)(i := 0))"
proof -
  let ?f = "get_frame (phys_tables s t i)"
  have "table_at (phys_tables s) r (p @ [i]) = Some ?f"
    using tab inv(4) by (simp add: table_at_append)
  then have "owned s ?f" using vm_inv_owned [OF inv(1,2), of "p @ [i]"] inv(3) by simp
  then obtain n where n: "?f = frame_address n" "0 < n" "n < frame_limit s" by (auto simp: owned_def)
  have "free_table t i s = set_entry t i 0 (free_physical_block ?f s)"
    using tab by (simp add: free_table_def is_table_def)
  then show ?thesis
    using free_physical_block_frames [OF vm_inv_phys [OF inv(1)] n(2,3)] n by auto
qed

text \<open>A freshly allocated, zeroed block is a new, empty top level table.\<close>

lemma walk_zero_table: "T t = (\<lambda>_. 0) \<Longrightarrow> walk T t q = None"
  by (induction T t q rule: walk.induct) auto

lemma fresh_root_step:
  assumes inv: "vm_inv R s" and al: "alloc_physical_block s = Inr (nt, s1)"
  defines "s2 \<equiv> zero_table nt s1"
  shows "vm_inv (insert nt R) s2 \<and> nt \<notin> R \<and> aligned12 nt \<and> frame_limit s2 = frame_limit s \<and>
    free_frames s2 \<subseteq> free_frames s \<and> card (free_frames s) = card (free_frames s2) + 1 \<and>
    (\<forall>r\<in>R. \<forall>q. length q \<le> 4 \<longrightarrow> table_at (phys_tables s2) r q = table_at (phys_tables s) r q \<and>
       walk (phys_tables s2) r q = walk (phys_tables s) r q)"
proof -
  note phys = vm_inv_phys [OF inv]
  have ne: "free_frames s \<noteq> {}" using al alloc_physical_block_none by fastforce
  define n where "n = Min (free_frames s)"
  have n: "n \<in> free_frames s" using Min_in [OF finite_free_frames ne] by (simp add: n_def)
  have a: "nt = frame_address n" "phys_inv s1" "free_frames s1 = free_frames s - {n}"
    "frame_limit s1 = frame_limit s" "phys_tables s1 = phys_tables s"
    using alloc_physical_block_some [OF phys ne] al by (auto simp: n_def)
  have b: "0 < n" "n < frame_limit s" "frame_limit s \<le> 2 ^ 52"
    using pmm.free_bounds [OF phys n] pmm.limit_bound [OF phys] by auto
  have new: "\<not> owned s nt"
    using n b(2,3) by (auto simp: owned_def a(1) dest: frame_address_inj [rotated 2])
  have old: "table_at (phys_tables s2) r q = table_at (phys_tables s) r q \<and>
      walk (phys_tables s2) r q = walk (phys_tables s) r q" if r: "r \<in> R" "length q \<le> 4" for r q
  proof (rule tree_cong)
    fix p j q' t assume "q = p @ j # q'" "table_at (phys_tables s) r p = Some t"
    then have "t \<noteq> nt" using vm_inv_owned [OF inv r(1), of p t] r(2) new by auto
    then show "same_entry (phys_tables s2 t j) (phys_tables s t j)" by (simp add: s2_def a(5))
  qed
  have nt: "table_at (phys_tables s2) nt q = Some t \<longleftrightarrow> q = [] \<and> t = nt" for q t
    by (cases q) (auto simp: s2_def is_table_def)
  have own: "owned s2 nt" "\<And>t. owned s t \<Longrightarrow> owned s2 t"
    using b a by (auto simp: s2_def owned_def)
  have R: "nt \<notin> R" using vm_inv_owned [OF inv, of nt "[]"] new by auto
  have "vm_inv (insert nt R) s2"
    unfolding vm_inv_def
  proof (intro conjI ballI allI impI)
    show "phys_inv s2" using a(2) by (simp add: s2_def)
    show "\<not> get_flag (phys_tables s2 r i) PAGE_SIZE" if "r \<in> insert nt R" for r i
      using that inv by (auto simp: s2_def a(5) vm_inv_def)
    show "owned s2 t" if "r \<in> insert nt R" "length p \<le> 3" "table_at (phys_tables s2) r p = Some t"
      for r p t
      using that old [of r p] nt own vm_inv_owned [OF inv, of r p t] by auto
    fix r r' p p' t
    assume *: "r \<in> insert nt R" "r' \<in> insert nt R" "length p \<le> 3" "length p' \<le> 3"
      "table_at (phys_tables s2) r p = Some t" "table_at (phys_tables s2) r' p' = Some t"
    have split: "if t = nt then x = nt \<and> q = [] else x \<in> R \<and> table_at (phys_tables s) x q = Some t"
      if "x \<in> insert nt R" "length q \<le> 3" "table_at (phys_tables s2) x q = Some t" for x q
      using that old [of x q] vm_inv_owned [OF inv, of x q t] nt [of q t] new by auto
    show "r = r'" "p = p'"
      using split [OF *(1,3,5)] split [OF *(2,4,6)] vm_inv_unique [OF inv _ _ *(3,4), of r r' t]
      by (simp_all split: if_splits)
  qed
  moreover have "card (free_frames s) = card (free_frames s1) + 1"
    using n a(3) ne by (simp add: card_gt_0_iff)
  ultimately show ?thesis using old R a by (auto simp: s2_def)
qed

text \<open>Making sure an entry points to a table: the old one, or a new empty one.\<close>

lemma link_step:
  fixes i
  assumes inv: "vm_inv (insert nt R) s" "r \<in> R" "length p \<le> 2" "table_at (phys_tables s) r p = Some t"
    and nt: "nt \<notin> R" "phys_tables s nt = (\<lambda>_. 0)"
    and e: "is_table e" "get_frame e = nt"
  defines "s' \<equiv> set_entry t i e s"
  shows "vm_inv R s' \<and> table_at (phys_tables s') r (p @ [i]) = Some nt \<and>
    (\<forall>r'\<in>R. \<forall>q. length q = 4 \<longrightarrow> walk (phys_tables s') r' q =
       (if r' = r \<and> prefix (p @ [i]) q then None else walk (phys_tables s) r' q))"
proof -
  let ?T = "phys_tables s" and ?T' = "phys_tables s'"
  have T': "?T' = ?T(t := (?T t)(i := e))" by (simp add: s'_def)
  have p: "length p \<le> 3" "r \<in> insert nt R" using inv(2,3) by auto
  note at = inv(1) p(2) p(1) inv(4)
  have tnt: "t \<noteq> nt" using vm_inv_unique [OF at(1,2) _ at(3) _ at(4), of nt "[]"] nt(1) inv(2) by auto
  have new: "?T' nt = (\<lambda>_. 0)" using tnt nt(2) by (simp add: T')
  have sub: "table_at ?T' nt q = Some u \<longleftrightarrow> q = [] \<and> u = nt" for q u
    using new by (cases q) (auto simp: is_table_def)
  have tab: "table_at ?T' r' q = Some u \<Longrightarrow>
      (r' = r \<and> q = p @ [i] \<and> u = nt) \<or> (u \<noteq> nt \<and> table_at ?T r' q = Some u)"
    if q: "r' \<in> R" "length q \<le> 3" for r' q u
  proof (cases "r' = r \<and> prefix (p @ [i]) q")
    case True
    then obtain q2 where q2: "q = p @ i # q2" by (auto simp: prefix_def)
    assume "table_at ?T' r' q = Some u"
    then show ?thesis using True q2 e sub write_on_path(1) [OF at, of i e q2] by (simp add: T')
  next
    case False
    assume u: "table_at ?T' r' q = Some u"
    have "table_at ?T r' q = Some u"
      using u write_off_path [OF at _ _ False, of e] q by (simp add: T')
    moreover then have "u \<noteq> nt"
      using vm_inv_unique [OF at(1) _ _ q(2), of r' nt "[]" u] q(1) nt(1) by auto
    ultimately show ?thesis by simp
  qed
  have "vm_inv R s'"
    unfolding vm_inv_def
  proof (intro conjI ballI allI impI)
    show "phys_inv s'" using vm_inv_phys [OF inv(1)] by (simp add: s'_def)
    show "\<not> get_flag (?T' r' j) PAGE_SIZE" if "r' \<in> R" for r' j
      using that e(1) inv(1) by (auto simp: T' vm_inv_def is_table_def)
    show "owned s' u" if "r' \<in> R" "length q \<le> 3" "table_at ?T' r' q = Some u" for r' q u
      using tab [OF that] vm_inv_owned [OF inv(1), of r' q u] vm_inv_owned [OF inv(1), of nt "[]" nt] that
      by (auto simp: s'_def)
    fix r1 r2 p1 p2 u
    assume *: "r1 \<in> R" "r2 \<in> R" "length p1 \<le> 3" "length p2 \<le> 3"
      "table_at ?T' r1 p1 = Some u" "table_at ?T' r2 p2 = Some u"
    show "r1 = r2" "p1 = p2"
      using tab [OF *(1,3,5)] tab [OF *(2,4,6)] vm_inv_unique [OF inv(1) _ _ *(3,4), of r1 r2 u] *(1,2)
      by auto
  qed
  moreover have "table_at ?T' r (p @ [i]) = Some nt"
    using write_on_path(1) [OF at, of i e "[]"] e by (simp add: T')
  moreover have "walk ?T' r' q = (if r' = r \<and> prefix (p @ [i]) q then None else walk ?T r' q)"
    if q: "r' \<in> R" "length q = 4" for r' q
  proof (cases "r' = r \<and> prefix (p @ [i]) q")
    case True
    then obtain q2 where q2: "q = p @ i # q2" by (auto simp: prefix_def)
    then obtain j js where "q2 = j # js" using q(2) inv(3) by (cases q2) auto
    then have "walk ?T' t (i # q2) = walk ?T' nt q2" using e by (simp add: T' is_table_def)
    then show ?thesis
      using True q2 write_on_path(2) [OF at, of i e q2] walk_zero_table [of ?T' nt, OF new]
      by (simp add: T')
  next
    case False
    have "walk ?T' r' q = walk ?T r' q"
      using write_off_path [OF at _ _ False, of e] q by (simp add: T')
    then show ?thesis by (simp only: if_not_P [OF False])
  qed
  ultimately show ?thesis by blast
qed

lemma walk_rest_shorter: "walk T t q = Some (f, rest) \<Longrightarrow> length rest < length q"
proof (induction T t q rule: walk.induct)
  case (3 T t i j js)
  then show ?case by (auto split: if_splits intro: less_SucI)
qed (auto split: if_splits)

text \<open>
  A path \<open>q\<close> runs into a large page at \<open>w\<close> when its translation ends after the indexes \<open>w\<close>.
\<close>

definition large_page_at ::
  "(u64 \<Rightarrow> table_index \<Rightarrow> u64) \<Rightarrow> u64 \<Rightarrow> table_index list \<Rightarrow> table_index list \<Rightarrow> bool" where
  "large_page_at T r w q \<longleftrightarrow> prefix w q \<and> (\<exists>f. walk T r q = Some (f, drop (length w) q))"

lemma walk_through_table:
  assumes "table_at T r (p @ [i]) = Some u" "prefix (p @ [i]) q" "length p + 1 < length q"
  shows "\<not> large_page_at T r (p @ [i]) q"
proof -
  obtain q2 where q2: "q = (p @ [i]) @ q2" using assms(2) by (auto simp: prefix_def)
  then have "q2 \<noteq> []" using assms(3) by auto
  then have "walk T r q = walk T u q2" using walk_append [OF _ assms(1)] q2 by simp
  then show ?thesis using walk_rest_shorter [of T u q2] q2 by (fastforce simp: large_page_at_def)
qed

lemma walk_not_table:
  assumes "table_at T r p = Some t" "\<not> is_table (T t i)" "prefix (p @ [i]) q"
    "\<not> large_page_at T r (p @ [i]) q"
  shows "walk T r q = None"
proof -
  obtain q2 where q2: "q = p @ i # q2" using assms(3) by (auto simp: prefix_def)
  then have "walk T r q = walk T t (i # q2)" using walk_append [OF _ assms(1)] by simp
  then show ?thesis using walk_leaf [of T t i q2] assms(2-4) q2
    by (auto simp: large_page_at_def split: if_splits)
qed

lemma same_entry_access: "get_flag e PRESENT \<Longrightarrow> same_entry (set_access_flags req e) e"
  by (simp add: same_entry_def entry_simps)

lemma access_step:
  fixes req
  assumes inv: "vm_inv R s" and e: "is_table (phys_tables s t i)"
  defines "s' \<equiv> set_entry t i (set_access_flags req (phys_tables s t i)) s"
  shows "vm_inv R s' \<and> table_at (phys_tables s') r q = table_at (phys_tables s) r q \<and>
         walk (phys_tables s') r q = walk (phys_tables s) r q"
proof -
  have "same_entry (phys_tables s' u j) (phys_tables s u j)" for u j
    using same_entry_access e by (simp add: s'_def is_table_def)
  then have "table_at (phys_tables s') r q = table_at (phys_tables s) r q \<and>
      walk (phys_tables s') r q = walk (phys_tables s) r q" for r q by (intro tree_cong)
  moreover then have "vm_inv R s'"
    using inv vm_inv_owned [OF inv] e
    by (intro vm_inv_shrink [OF inv]) (auto simp: s'_def vm_inv_def entry_simps is_table_def)
  ultimately show ?thesis by blast
qed

lemma prepare_table_step:
  assumes inv: "vm_inv R s" "r \<in> R" "length p \<le> 2" "table_at (phys_tables s) r p = Some t"
    and free: "free_frames s \<noteq> {}"
  shows "\<exists>s'. prepare_table_for_entry req t i s = Inr s' \<and> vm_inv R s' \<and>
    table_at (phys_tables s') r (p @ [i]) = Some (get_frame (phys_tables s' t i)) \<and>
    card (free_frames s) \<le> card (free_frames s') + 1 \<and> free_frames s' \<subseteq> free_frames s \<and>
    (\<forall>r'\<in>R. \<forall>q. length q = 4 \<longrightarrow> walk (phys_tables s') r' q =
       (if r' = r \<and> large_page_at (phys_tables s) r (p @ [i]) q then None else walk (phys_tables s) r' q))"
proof (cases "is_table (phys_tables s t i)")
  case True
  let ?s = "set_entry t i (set_access_flags req (phys_tables s t i)) s"
  have "prepare_table_for_entry req t i s = Inr ?s"
    using True by (simp add: prepare_table_for_entry_def is_table_def Let_def)
  moreover have tab: "table_at (phys_tables s) r (p @ [i]) = Some (get_frame (phys_tables s t i))"
    using True inv(4) by (simp add: table_at_append)
  moreover have "\<not> large_page_at (phys_tables s) r (p @ [i]) q" if "length q = 4" for q
    using walk_through_table [OF tab] that inv(3) by (auto simp: large_page_at_def)
  moreover have "vm_inv R ?s" "\<And>r q. table_at (phys_tables ?s) r q = table_at (phys_tables s) r q"
    "\<And>r q. walk (phys_tables ?s) r q = walk (phys_tables s) r q"
    using access_step [OF inv(1) True, of req] by blast+
  ultimately show ?thesis
    by (intro exI [of _ ?s]) (simp add: entry_simps del: set_entry_simps(1), simp add: entry_simps)
next
  case False
  obtain nt s1 where al: "alloc_physical_block s = Inr (nt, s1)"
    using alloc_physical_block_some [OF vm_inv_phys [OF inv(1)] free] by blast
  let ?s2 = "zero_table nt s1"
  have f: "vm_inv (insert nt R) ?s2" "nt \<notin> R" "aligned12 nt" "free_frames ?s2 \<subseteq> free_frames s"
    "card (free_frames s) = card (free_frames ?s2) + 1"
    and old: "\<And>r q. r \<in> R \<Longrightarrow> length q \<le> 4 \<Longrightarrow> table_at (phys_tables ?s2) r q = table_at (phys_tables s) r q"
      "\<And>r q. r \<in> R \<Longrightarrow> length q \<le> 4 \<Longrightarrow> walk (phys_tables ?s2) r q = walk (phys_tables s) r q"
    using fresh_root_step [OF inv(1) al] by blast+
  define e where "e = set_access_flags req (clear_flag PAGE_SIZE (set_frame nt (phys_tables ?s2 t i)))"
  have e: "is_table e" "get_frame e = nt" using f(3) by (auto simp: e_def is_table_def entry_simps)
  let ?s' = "set_entry t i e ?s2"
  have "prepare_table_for_entry req t i s = Inr ?s'"
    using False al by (auto simp: prepare_table_for_entry_def is_table_def Let_def e_def)
  moreover have tab: "table_at (phys_tables ?s2) r p = Some t" using old(1) inv(2-4) by simp
  have zero: "phys_tables ?s2 nt = (\<lambda>_. 0)" by simp
  note link = link_step [OF f(1) inv(2,3) tab f(2) zero e, of i]
  note l = link [THEN conjunct1] link [THEN conjunct2, THEN conjunct1]
    link [THEN conjunct2, THEN conjunct2, rule_format]
  moreover have "walk (phys_tables ?s') r' q =
      (if r' = r \<and> large_page_at (phys_tables s) r (p @ [i]) q then None else walk (phys_tables s) r' q)"
    if q: "r' \<in> R" "length q = 4" for r' q
  proof (cases "r' = r \<and> prefix (p @ [i]) q")
    case True
    then have "walk (phys_tables ?s') r' q = None" using l(3) [OF q] by (simp only: if_P)
    moreover have "\<not> large_page_at (phys_tables s) r (p @ [i]) q \<Longrightarrow> walk (phys_tables s) r' q = None"
      using True walk_not_table [OF inv(4) False, of q] by simp
    ultimately show ?thesis by (cases "large_page_at (phys_tables s) r (p @ [i]) q") (simp_all only: True if_True if_False simp_thms)
  next
    case False
    then have "walk (phys_tables ?s') r' q = walk (phys_tables s) r' q"
      using l(3) [OF q] old(2) [OF q(1)] q(2) by (simp only: if_False order_refl)
    moreover have "\<not> (r' = r \<and> large_page_at (phys_tables s) r (p @ [i]) q)"
      using False by (auto simp: large_page_at_def)
    ultimately show ?thesis by (simp only: if_False)
  qed
  ultimately show ?thesis using f(4,5) e(2) l(1,2) by (intro exI [of _ ?s']) simp
qed

subsection \<open>Empty tables\<close>

lemma is_table_empty_iff: "is_table_empty s t \<longleftrightarrow> phys_tables s t = (\<lambda>_. 0)"
proof
  assume e: "is_table_empty s t"
  show "phys_tables s t = (\<lambda>_. 0)"
  proof
    fix i :: table_index
    have "unat i < 512" using unsigned_less [of i, where ?'a = nat] by simp
    then have "phys_tables s t (of_nat (unat i)) = 0"
      using e unfolding is_table_empty_def list_all_iff by (metis atLeastLessThan_iff set_upt zero_le)
    then show "phys_tables s t i = 0" by simp
  qed
qed (simp add: is_table_empty_def list_all_iff)

lemma free_empty_step:
  assumes inv: "vm_inv R s" "r \<in> R" "length p \<le> 2" "table_at (phys_tables s) r p = Some t"
    and tab: "is_table (phys_tables s t i)" and empty: "is_table_empty s (get_frame (phys_tables s t i))"
    and q: "r' \<in> R" "length q = 4"
  shows "walk (phys_tables (free_table t i s)) r' q = walk (phys_tables s) r' q"
proof (cases "r' = r \<and> prefix (p @ [i]) q")
  case True
  then obtain q2 where q2: "q = (p @ [i]) @ q2" by (auto simp: prefix_def)
  then have "q2 \<noteq> []" using q(2) inv(3) by auto
  moreover have "table_at (phys_tables s) r (p @ [i]) = Some (get_frame (phys_tables s t i))"
    using inv(4) tab by (simp add: table_at_append)
  ultimately have "walk (phys_tables s) r q = walk (phys_tables s) (get_frame (phys_tables s t i)) q2"
    unfolding q2 by (rule walk_append)
  then have "walk (phys_tables s) r q = None"
    using walk_zero_table empty by (simp add: is_table_empty_iff)
  then show ?thesis using free_table_step [OF inv, of i] True q by simp
next
  case False
  then show ?thesis using free_table_step [OF inv, of i] q by auto
qed

end
