(* ===== verification/Page_Mapping.thy ===== *)
theory Page_Mapping
  imports Page_Tables
begin

text \<open>
  The correctness of the map, unmap and page operations of \<open>Memory::Manager\<close>, on the tree view of the
  page tables: what every virtual address of every address space translates to afterwards, and that
  the invariant of the tables and of the frame allocator is kept.
\<close>

subsection \<open>The path of a request\<close>

fun page_depth :: "PageSize \<Rightarrow> nat" where
  "page_depth PAGE_4KiB = 4"
| "page_depth PAGE_2MiB = 3"
| "page_depth PAGE_1GiB = 2"

definition page_path :: "PageSize \<Rightarrow> u64 \<Rightarrow> table_index list" where
  "page_path sz v = take (page_depth sz) (vpath v)"

definition large_page_above :: "(u64 \<Rightarrow> table_index \<Rightarrow> u64) \<Rightarrow> u64 \<Rightarrow> table_index list \<Rightarrow> table_index list \<Rightarrow> bool" where
  "large_page_above T r tp q \<longleftrightarrow> (\<exists>w. strict_prefix w tp \<and> w \<noteq> [] \<and> large_page_at T r w q)"

lemma page_path_simps [simp]:
  "page_path PAGE_4KiB v = [PML4_index v, PDPT_index v, PD_index v, PT_index v]"
  "page_path PAGE_2MiB v = [PML4_index v, PDPT_index v, PD_index v]"
  "page_path PAGE_1GiB v = [PML4_index v, PDPT_index v]"
  by (simp_all add: page_path_def vpath_def)

lemma page_bytes_mask: "\<exists>k\<ge>12. k < 64 \<and> page_bytes sz - 1 = mask k"
proof (cases sz)
  case PAGE_4KiB
  then show ?thesis by (intro exI [of _ 12]) (simp add: mask_eq_exp_minus_1)
next
  case PAGE_2MiB
  then show ?thesis by (intro exI [of _ 21]) (simp add: mask_eq_exp_minus_1)
next
  case PAGE_1GiB
  then show ?thesis by (intro exI [of _ 30]) (simp add: mask_eq_exp_minus_1)
qed

lemma request_aligned_frame: "request_aligned req sz \<Longrightarrow> aligned12 (physicalAddress req)"
proof -
  assume a: "request_aligned req sz"
  obtain k where k: "12 \<le> k" "k < 64" "page_bytes sz - 1 = mask k" using page_bytes_mask by blast
  have "\<not> bit (physicalAddress req AND mask k) n" for n
    using a k(3) by (simp add: request_aligned_def CHECK_ALIGN_def)
  moreover have "bit (physicalAddress req) n \<Longrightarrow> n < 64" for n
    using bit_imp_le_length [of "physicalAddress req" n] by simp
  ultimately show ?thesis using k(1)
    by (auto simp: aligned12_bit bit_and_iff bit_mask_iff dest: less_le_trans)
qed

subsection \<open>Mapping\<close>

definition maps_to ::
  "u64 set \<Rightarrow> u64 \<Rightarrow> table_index list set \<Rightarrow> table_index list \<Rightarrow> u64 \<Rightarrow> nat \<Rightarrow>
     Manager \<Rightarrow> Manager \<Rightarrow> bool" where
  "maps_to R r W tp f n s s' \<longleftrightarrow> vm_inv R s' \<and> card (free_frames s) \<le> card (free_frames s') + n \<and>
     (\<forall>r'\<in>R. r' \<noteq> r \<longrightarrow> (\<forall>q. length q = 4 \<longrightarrow> walk (phys_tables s') r' q = walk (phys_tables s) r' q)) \<and>
     (\<forall>q. length q = 4 \<longrightarrow> walk (phys_tables s') r q =
        (if prefix tp q then Some (f, drop (length tp) q)
         else if \<exists>w\<in>W. large_page_at (phys_tables s) r w q then None
         else walk (phys_tables s) r q))"

lemma maps_to_step:
  assumes m: "maps_to R r W tp f n s1 s2" and r: "r \<in> R"
    and c: "card (free_frames s) \<le> card (free_frames s1) + 1"
    and op: "\<forall>r'\<in>R. \<forall>q. length q = 4 \<longrightarrow> walk (phys_tables s1) r' q =
       (if r' = r \<and> large_page_at (phys_tables s) r w q then None else walk (phys_tables s) r' q)"
  shows "maps_to R r (insert w W) tp f (n + 1) s s2"
  unfolding maps_to_def
proof (intro conjI ballI allI impI)
  show "vm_inv R s2" "card (free_frames s) \<le> card (free_frames s2) + (n + 1)"
    using m c by (simp_all add: maps_to_def)
next
  fix r' and q :: "table_index list"
  assume "r' \<in> R" "r' \<noteq> r" "length q = 4"
  then show "walk (phys_tables s2) r' q = walk (phys_tables s) r' q"
    using m op by (simp add: maps_to_def)
next
  fix q :: "table_index list"
  assume q: "length q = 4"
  have 1: "walk (phys_tables s1) r q =
      (if large_page_at (phys_tables s) r w q then None else walk (phys_tables s) r q)"
    using op r q by simp
  then have "large_page_at (phys_tables s1) r w' q \<longleftrightarrow>
      large_page_at (phys_tables s) r w' q \<and> \<not> large_page_at (phys_tables s) r w q" for w'
    unfolding large_page_at_def [of "phys_tables s1"] by (auto simp: large_page_at_def)
  then show "walk (phys_tables s2) r q =
        (if prefix tp q then Some (f, drop (length tp) q)
         else if \<exists>w\<in>insert w W. large_page_at (phys_tables s) r w q then None
         else walk (phys_tables s) r q)"
    using m q 1 unfolding maps_to_def by auto
qed

lemma maps_to_mono: "maps_to R r W tp f n s s' \<Longrightarrow> n \<le> m \<Longrightarrow> maps_to R r W tp f m s s'"
  by (auto simp: maps_to_def)

lemma maps_to_page:
  assumes "vm_inv R s'" "r \<in> R" "free_frames s \<subseteq> free_frames s'"
    and "\<forall>r'\<in>R. \<forall>q. length q = 4 \<longrightarrow> walk (phys_tables s') r' q =
       (if r' = r \<and> prefix tp q then Some (f, drop (length tp) q) else walk (phys_tables s) r' q)"
  shows "maps_to R r {} tp f 0 s s'"
  using assms by (simp add: maps_to_def card_mono)

lemma PageTable_map_step:
  assumes inv: "vm_inv R s" "r \<in> R" "table_at (phys_tables s) r p = Some t" "length p = 3"
    and al: "request_aligned req PAGE_4KiB" "pageSize req = PAGE_4KiB"
  shows "\<exists>s'. PageTable_map req t s = Inr s' \<and>
           maps_to R r {} (p @ [PT_index (virtualAddress req)]) (physicalAddress req) 0 s s'"
proof -
  have p: "length p \<le> 3" "p \<noteq> []" "length p < 3 \<longleftrightarrow> pageSize req \<noteq> PAGE_4KiB" using inv(4) al(2) by auto
  show ?thesis
    using page_step [OF inv(1,2) p(1) inv(3) p(2,3) request_aligned_frame [OF al(1)]] al(1)
      maps_to_page [OF _ inv(2), where s = s and tp = "p @ [PT_index (virtualAddress req)]"]
    by (simp add: PageTable_map_def)
qed

lemma large_map_step:
  assumes inv: "vm_inv R s" "r \<in> R" "table_at (phys_tables s) r p = Some t" "length p \<le> 2" "p \<noteq> []"
    and al: "request_aligned req sz" "pageSize req \<noteq> PAGE_4KiB"
  shows "maps_to R r {} (p @ [i]) (physicalAddress req) 0 s (prepare_page_for_entry req t i (free_table t i s))"
proof -
  let ?s1 = "free_table t i s" and ?s2 = "prepare_page_for_entry req t i (free_table t i s)"
  note free = free_table_step [OF inv(1,2,4,3), of i]
  have p: "length p \<le> 3" "length p < 3 \<longleftrightarrow> pageSize req \<noteq> PAGE_4KiB" using inv(4) al(2) by auto
  have tab: "table_at (phys_tables ?s1) r p = Some t" using free inv(3) by simp
  note page = page_step [OF free [THEN conjunct1] inv(2) p(1) tab inv(5) p(2) request_aligned_frame [OF al(1)], of i]
  have "walk (phys_tables ?s2) r' q =
      (if r' = r \<and> prefix (p @ [i]) q then Some (physicalAddress req, drop (length p + 1) q)
       else walk (phys_tables s) r' q)" if "r' \<in> R" "length q = 4" for r' q
    using free page that by (simp only: simp_thms split: if_splits) auto
  then show ?thesis using page free maps_to_page [OF _ inv(2), where s = s and tp = "p @ [i]"] by simp
qed

lemma PageDirectoryTable_map_step:
  assumes inv: "vm_inv R s" "r \<in> R" "table_at (phys_tables s) r p = Some t" "length p = 2"
    and al: "request_aligned req (pageSize req)" "pageSize req \<noteq> PAGE_1GiB" and free: "free_frames s \<noteq> {}"
  defines "a \<equiv> PD_index (virtualAddress req)"
  shows "\<exists>s'. PageDirectoryTable_map req t s = Inr s' \<and>
    (if pageSize req = PAGE_2MiB then maps_to R r {} (p @ [a]) (physicalAddress req) 0 s s'
     else maps_to R r {p @ [a]} (p @ [a, PT_index (virtualAddress req)]) (physicalAddress req) 1 s s')"
proof (cases "pageSize req = PAGE_2MiB")
  case True
  have "p \<noteq> []" "length p \<le> 2" using inv(4) by auto
  then show ?thesis using True al large_map_step [OF inv(1-3) _ _ al(1), of a]
    by (simp add: PageDirectoryTable_map_def a_def Let_def)
next
  case False
  then have sz: "pageSize req = PAGE_4KiB" using al(2) by (cases "pageSize req") auto
  have p: "length p \<le> 2" "length (p @ [a]) = 3" using inv(4) by auto
  obtain s1 where s1: "prepare_table_for_entry req t a s = Inr s1" "vm_inv R s1"
    "table_at (phys_tables s1) r (p @ [a]) = Some (get_frame (phys_tables s1 t a))"
    "card (free_frames s) \<le> card (free_frames s1) + 1"
    "\<forall>r'\<in>R. \<forall>q. length q = 4 \<longrightarrow> walk (phys_tables s1) r' q =
       (if r' = r \<and> large_page_at (phys_tables s) r (p @ [a]) q then None else walk (phys_tables s) r' q)"
    using prepare_table_step [OF inv(1,2) p(1) inv(3) free, of req a] by (elim exE conjE)
  obtain s2 where s2: "PageTable_map req (get_frame (phys_tables s1 t a)) s1 = Inr s2"
    "maps_to R r {} ((p @ [a]) @ [PT_index (virtualAddress req)]) (physicalAddress req) 0 s1 s2"
    using PageTable_map_step [OF s1(2) inv(2) s1(3) p(2) _ sz] al(1) sz by auto
  show ?thesis using sz s1(1) s2(1) maps_to_step [OF s2(2) inv(2) s1(4,5)]
    by (simp add: PageDirectoryTable_map_def a_def)
qed

lemma PageDirectoryPointerTable_map_step:
  assumes inv: "vm_inv R s" "r \<in> R" "table_at (phys_tables s) r [i] = Some t"
    and al: "request_aligned req (pageSize req)" and free: "2 \<le> card (free_frames s)"
  defines "a \<equiv> PDPT_index (virtualAddress req)" and "b \<equiv> PD_index (virtualAddress req)"
  shows "\<exists>s'. PageDirectoryPointerTable_map req t s = Inr s' \<and>
    (case pageSize req of
       PAGE_1GiB \<Rightarrow> maps_to R r {} [i, a] (physicalAddress req) 2 s s'
     | PAGE_2MiB \<Rightarrow> maps_to R r {[i, a]} [i, a, b] (physicalAddress req) 2 s s'
     | PAGE_4KiB \<Rightarrow> maps_to R r {[i, a], [i, a, b]} [i, a, b, PT_index (virtualAddress req)]
                      (physicalAddress req) 2 s s')"
proof (cases "pageSize req = PAGE_1GiB")
  case True
  then show ?thesis using al maps_to_mono [OF large_map_step [OF inv _ _ al(1), of a], of 2]
    by (simp add: PageDirectoryPointerTable_map_def a_def Let_def)
next
  case False
  have ne: "free_frames s \<noteq> {}" using free by auto
  have i: "length [i] \<le> 2" by simp
  obtain s1 where s1: "prepare_table_for_entry req t a s = Inr s1" "vm_inv R s1"
    "table_at (phys_tables s1) r ([i] @ [a]) = Some (get_frame (phys_tables s1 t a))"
    "card (free_frames s) \<le> card (free_frames s1) + 1"
    "\<forall>r'\<in>R. \<forall>q. length q = 4 \<longrightarrow> walk (phys_tables s1) r' q =
       (if r' = r \<and> large_page_at (phys_tables s) r ([i] @ [a]) q then None else walk (phys_tables s) r' q)"
    using prepare_table_step [OF inv(1,2) i inv(3) ne, of req a] by (elim exE conjE)
  have s1': "length ([i] @ [a]) = 2" "free_frames s1 \<noteq> {}" using s1(4) free by auto
  obtain s2 where s2: "PageDirectoryTable_map req (get_frame (phys_tables s1 t a)) s1 = Inr s2"
    "if pageSize req = PAGE_2MiB then maps_to R r {} (([i] @ [a]) @ [b]) (physicalAddress req) 0 s1 s2
     else maps_to R r {([i] @ [a]) @ [b]} (([i] @ [a]) @ [b, PT_index (virtualAddress req)])
            (physicalAddress req) 1 s1 s2"
    using PageDirectoryTable_map_step [OF s1(2) inv(2) s1(3) s1'(1) al False s1'(2)]
    unfolding b_def by (elim exE conjE)
  have "maps_to R r {[i, a]} [i, a, b] (physicalAddress req) (0 + 1) s s2" if "pageSize req = PAGE_2MiB"
    using s2(2) that maps_to_step [OF _ inv(2) s1(4,5)] by simp
  moreover have "maps_to R r {[i, a], [i, a, b]} [i, a, b, PT_index (virtualAddress req)]
      (physicalAddress req) (1 + 1) s s2" if "pageSize req = PAGE_4KiB"
    using s2(2) that maps_to_step [OF _ inv(2) s1(4,5)] by simp
  ultimately show ?thesis using False s1(1) s2(1) maps_to_mono [of R r _ _ _ _ s s2 2]
    by (cases "pageSize req") (auto simp: PageDirectoryPointerTable_map_def a_def numeral_2_eq_2)
qed

lemma request_virtual_map_step:
  assumes inv: "vm_inv R s" "r \<in> R"
    and al: "request_aligned req (pageSize req)" and free: "3 \<le> card (free_frames s)"
  shows "\<exists>s' W. request_virtual_map req r s = Inr s' \<and>
    (\<forall>w. w \<in> W \<longleftrightarrow> strict_prefix w (page_path (pageSize req) (virtualAddress req)) \<and> w \<noteq> []) \<and>
    maps_to R r W (page_path (pageSize req) (virtualAddress req)) (physicalAddress req) 3 s s'"
proof -
  let ?a = "PML4_index (virtualAddress req)"
  have ne: "free_frames s \<noteq> {}" using free by auto
  obtain s1 where s1: "prepare_table_for_entry req r ?a s = Inr s1" "vm_inv R s1"
    "table_at (phys_tables s1) r ([] @ [?a]) = Some (get_frame (phys_tables s1 r ?a))"
    "card (free_frames s) \<le> card (free_frames s1) + 1"
    "\<forall>r'\<in>R. \<forall>q. length q = 4 \<longrightarrow> walk (phys_tables s1) r' q =
       (if r' = r \<and> large_page_at (phys_tables s) r ([] @ [?a]) q then None else walk (phys_tables s) r' q)"
    using prepare_table_step [OF inv _ _ ne, of "[]" r req ?a] by auto
  have f: "2 \<le> card (free_frames s1)" using s1(4) free by simp
  have tab: "table_at (phys_tables s1) r [?a] = Some (get_frame (phys_tables s1 r ?a))" using s1(3) by simp
  obtain s2 W where s2:
    "PageDirectoryPointerTable_map req (get_frame (phys_tables s1 r ?a)) s1 = Inr s2"
    "maps_to R r W (page_path (pageSize req) (virtualAddress req)) (physicalAddress req) 2 s1 s2"
    "\<forall>w. w \<in> insert [?a] W \<longleftrightarrow> strict_prefix w (page_path (pageSize req) (virtualAddress req)) \<and> w \<noteq> []"
    using PageDirectoryPointerTable_map_step [OF s1(2) inv(2) tab al f]
    by (cases "pageSize req") (fastforce simp: strict_prefix_def prefix_Cons)+
  show ?thesis
    using s1(1) s2(1,3) maps_to_step [OF s2(2) inv(2) s1(4,5)]
    by (intro exI [of _ s2] exI [of _ "insert [?a] W"])
      (simp add: request_virtual_map_def PML4Table_map_def numeral_3_eq_3 numeral_2_eq_2)
qed

subsection \<open>Unmapping\<close>

text \<open>
  What the levels of \<open>unmap\<close> below the table at path \<open>p\<close> do with the page at path \<open>tp\<close>. Of the tables
  on the way to the page each is either gone or still in its place and not empty; the frames that
  became free are exactly the frames of those that are gone.
\<close>

definition freed_tables :: "u64 \<Rightarrow> table_index list \<Rightarrow> table_index list \<Rightarrow> Manager \<Rightarrow> Manager \<Rightarrow> nat set" where
  "freed_tables r p tp s s' = {n. n < frame_limit s \<and> (\<exists>w. strict_prefix p w \<and> strict_prefix w tp \<and>
     table_at (phys_tables s) r w = Some (frame_address n) \<and> table_at (phys_tables s') r w = None)}"

definition tables_kept :: "u64 \<Rightarrow> table_index list \<Rightarrow> table_index list \<Rightarrow> Manager \<Rightarrow> Manager \<Rightarrow> bool" where
  "tables_kept r p tp s s' \<longleftrightarrow> (\<forall>w. strict_prefix p w \<and> strict_prefix w tp \<longrightarrow>
     (case table_at (phys_tables s') r w of
        None \<Rightarrow> True
      | Some t \<Rightarrow> table_at (phys_tables s) r w = Some t \<and> \<not> is_table_empty s' t))"

definition unmaps :: "u64 set \<Rightarrow> u64 \<Rightarrow> table_index list \<Rightarrow> table_index list \<Rightarrow> Manager \<Rightarrow> Manager \<Rightarrow> bool" where
  "unmaps R r p tp s s' \<longleftrightarrow> vm_inv R s' \<and> prefix p tp \<and> frame_limit s' = frame_limit s \<and>
     (\<forall>w. prefix w p \<longrightarrow> table_at (phys_tables s') r w = table_at (phys_tables s) r w) \<and>
     (\<forall>r'\<in>R. \<forall>q. length q = 4 \<longrightarrow> walk (phys_tables s') r' q =
        (if r' = r \<and> prefix tp q then None else walk (phys_tables s) r' q)) \<and>
     free_frames s' = free_frames s \<union> freed_tables r p tp s s' \<and> tables_kept r p tp s s'"

text \<open>
  The common part of the three upper levels: the level below unmapped its page and reports whether
  its table is empty; if so the table is given back and the entry cleared.
\<close>

lemma strict_prefix_snoc_cases:
  assumes "prefix (p @ [i]) tp" "strict_prefix p w" "strict_prefix w tp"
  shows "w = p @ [i] \<or> strict_prefix (p @ [i]) w"
proof -
  have "length p < length w" using prefix_length_less [OF assms(2)] .
  moreover have "prefix w tp" using assms(3) by (rule prefix_order.less_imp_le)
  ultimately have "prefix (p @ [i]) w" using prefix_length_prefix [OF assms(1)] by simp
  then show ?thesis by (auto simp: strict_prefix_def)
qed

lemma table_at_empty: "is_table_empty s u \<Longrightarrow> table_at (phys_tables s) u (i # w) = None"
  by (simp add: is_table_empty_iff is_table_def get_flag_def)

lemma unmap_release_step:
  assumes r: "r \<in> R" and p: "length p \<le> 2" "table_at (phys_tables s) r p = Some t"
    and tab: "table_at (phys_tables s) r (p @ [i]) = Some u"
    and sub: "unmaps R r (p @ [i]) tp s s1" and tp: "p @ [i] \<noteq> tp"
    and e: "e \<longleftrightarrow> is_table_empty s1 u"
  shows "unmaps R r p tp s (if e then free_table t i s1 else s1)"
proof -
  have inv: "vm_inv R s1" and pre: "prefix (p @ [i]) tp" and lim: "frame_limit s1 = frame_limit s"
    and up: "\<And>w. prefix w (p @ [i]) \<Longrightarrow> table_at (phys_tables s1) r w = table_at (phys_tables s) r w"
    and free: "free_frames s1 = free_frames s \<union> freed_tables r (p @ [i]) tp s s1"
    and kept: "tables_kept r (p @ [i]) tp s s1"
    using sub by (auto simp: unmaps_def)
  have 1: "table_at (phys_tables s1) r p = Some t" "table_at (phys_tables s1) r (p @ [i]) = Some u"
    using up [of p] up [of "p @ [i]"] p(2) tab by auto
  then have t: "is_table (phys_tables s1 t i)" "get_frame (phys_tables s1 t i) = u"
    by (auto simp: table_at_append split: if_splits)
  have stp: "strict_prefix (p @ [i]) tp" using pre tp by (simp add: strict_prefix_def)
  have below: "strict_prefix p w" if "strict_prefix (p @ [i]) w" for w
    using that by (auto simp: strict_prefix_def prefix_def)
  have ptp: "prefix p tp" using pre by (auto simp: prefix_def)
  show ?thesis
  proof (cases e)
    case True
    let ?s = "free_table t i s1"
    obtain n where n: "u = frame_address n" "n < frame_limit s"
      "free_frames ?s = insert n (free_frames s1)" "frame_limit ?s = frame_limit s"
      "phys_tables ?s = (phys_tables s1)(t := (phys_tables s1 t)(i := 0))"
      using free_table_frame [OF inv r p(1) 1(1) t(1)] t(2) lim by auto
    have step: "vm_inv R ?s" "\<And>w. prefix w p \<Longrightarrow>
        table_at (phys_tables ?s) r w = table_at (phys_tables s1) r w"
      using free_table_step [OF inv r p(1) 1(1), of i] by auto
    have walks: "walk (phys_tables ?s) r' q = walk (phys_tables s1) r' q"
      if "r' \<in> R" "length q = 4" for r' q
      using free_empty_step [OF inv r p(1) 1(1) t(1) _ that] t(2) e True by simp
    have gone: "table_at (phys_tables ?s) r w = None" if pw: "prefix (p @ [i]) w" for w
    proof -
      from pw obtain w' where "w = p @ i # w'" by (elim prefixE) simp
      moreover have "table_at (phys_tables ?s) r p = Some t" using step(2) [of p] 1(1) by simp
      ultimately show ?thesis by (simp add: table_at_append n(5) is_table_def)
    qed
    have gone1: "table_at (phys_tables s1) r w = None" if pw: "strict_prefix (p @ [i]) w" for w
    proof -
      from pw obtain j w' where "w = (p @ [i]) @ j # w'" by (elim strict_prefixE')
      then show ?thesis using 1(2) table_at_empty [of s1 u j w'] e True
        by (simp only: table_at_append) simp
    qed
    have "freed_tables r p tp s ?s = insert n (freed_tables r (p @ [i]) tp s s1)"
    proof (intro set_eqI iffI)
      fix m assume "m \<in> freed_tables r p tp s ?s"
      then obtain w where w: "m < frame_limit s" "strict_prefix p w" "strict_prefix w tp"
        "table_at (phys_tables s) r w = Some (frame_address m)" by (auto simp: freed_tables_def)
      from strict_prefix_snoc_cases [OF pre w(2,3)] show "m \<in> insert n (freed_tables r (p @ [i]) tp s s1)"
      proof
        assume "w = p @ [i]"
        then have "frame_address m = frame_address n" using w(4) tab n(1) by simp
        moreover have "frame_limit s \<le> 2 ^ 52"
          using vm_inv_phys [OF inv] lim by (simp add: phys_inv_def frame_limit_def)
        ultimately show ?thesis using w(1) n(2) frame_address_inj [of m n] by simp
      qed (use w gone1 in \<open>auto simp: freed_tables_def\<close>)
    next
      fix m assume "m \<in> insert n (freed_tables r (p @ [i]) tp s s1)"
      then show "m \<in> freed_tables r p tp s ?s"
      proof
        assume "m = n"
        then show ?thesis using n(1,2) tab stp gone [of "p @ [i]"]
          by (auto simp: freed_tables_def strict_prefix_def intro!: exI [of _ "p @ [i]"])
      next
        assume "m \<in> freed_tables r (p @ [i]) tp s s1"
        then obtain w where w: "m < frame_limit s" "strict_prefix (p @ [i]) w" "strict_prefix w tp"
          "table_at (phys_tables s) r w = Some (frame_address m)" by (auto simp: freed_tables_def)
        then show ?thesis using below gone [of w] by (auto simp: freed_tables_def strict_prefix_def)
      qed
    qed
    then have "free_frames ?s = free_frames s \<union> freed_tables r p tp s ?s" using n(3) free by auto
    moreover have "tables_kept r p tp s ?s"
      unfolding tables_kept_def
      using strict_prefix_snoc_cases [OF pre] gone by (fastforce simp: strict_prefix_def)
    ultimately show ?thesis using sub up True step walks ptp n(4) by (simp add: unmaps_def prefix_append)
  next
    case False
    have "freed_tables r p tp s s1 = freed_tables r (p @ [i]) tp s s1"
      using strict_prefix_snoc_cases [OF pre] below 1(2) by (fastforce simp: freed_tables_def)
    moreover have "tables_kept r p tp s s1"
      unfolding tables_kept_def
    proof (intro allI impI, elim conjE)
      fix w assume w: "strict_prefix p w" "strict_prefix w tp"
      from strict_prefix_snoc_cases [OF pre w] show "case table_at (phys_tables s1) r w of None \<Rightarrow> True
          | Some t \<Rightarrow> table_at (phys_tables s) r w = Some t \<and> \<not> is_table_empty s1 t"
      proof
        assume "w = p @ [i]"
        then show ?thesis using 1(2) tab e False by simp
      qed (use kept w in \<open>auto simp: tables_kept_def\<close>)
    qed
    ultimately show ?thesis using sub False ptp by (simp add: unmaps_def)
  qed
qed

lemma unmap_clear_step:
  assumes "vm_inv R s" "r \<in> R" "length p \<le> 3" "table_at (phys_tables s) r p = Some t"
  shows "unmaps R r p (p @ [i]) s (set_entry t i 0 s)"
proof -
  have no: "\<not> (strict_prefix p w \<and> strict_prefix w (p @ [i]))" for w
    by (auto simp: strict_prefix_def)
  have "freed_tables r p (p @ [i]) s (set_entry t i 0 s) = {}"
    "tables_kept r p (p @ [i]) s (set_entry t i 0 s)"
    using no by (auto simp: freed_tables_def tables_kept_def)
  then show ?thesis using clear_step [OF assms, of i] by (simp add: unmaps_def)
qed

lemma table_at_split:
  assumes "table_at T r (p @ [i]) = Some u"
  shows "\<exists>t. table_at T r p = Some t \<and> is_table (T t i) \<and> get_frame (T t i) = u"
  using assms by (auto simp: table_at_append split: option.splits if_splits)

lemma PageTable_unmap_step:
  assumes "vm_inv R s" "r \<in> R" "length p = 3" "table_at (phys_tables s) r p = Some t"
    and "get_frame (phys_tables s t (PT_index v)) \<noteq> 0" and v: "unmap_virtualAddress req = v"
  shows "\<exists>s'. PageTable_unmap req t s = Inr (is_table_empty s' t, s') \<and>
           unmaps R r p (p @ [PT_index v]) s s'"
  using unmap_clear_step [OF assms(1,2) _ assms(4), of "PT_index v"] assms(3,5)
  by (simp add: PageTable_unmap_def v Let_def)

lemma PageDirectoryTable_unmap_step:
  assumes inv: "vm_inv R s" "r \<in> R" "length p = 2" "table_at (phys_tables s) r p = Some t"
    and v: "unmap_virtualAddress req = v"
    and sz: "if unmap_pageSize req = PAGE_2MiB then is_present (phys_tables s t (PD_index v))
             else \<exists>u. table_at (phys_tables s) r (p @ [PD_index v]) = Some u \<and>
                      get_frame (phys_tables s u (PT_index v)) \<noteq> 0"
  shows "\<exists>s'. PageDirectoryTable_unmap req t s = Inr (is_table_empty s' t, s') \<and>
     unmaps R r p (if unmap_pageSize req = PAGE_2MiB then p @ [PD_index v]
                   else p @ [PD_index v, PT_index v]) s s'"
proof (cases "unmap_pageSize req = PAGE_2MiB")
  case True
  then show ?thesis
    using unmap_clear_step [OF inv(1,2) _ inv(4), of "PD_index v"] inv(3) sz
    by (simp add: PageDirectoryTable_unmap_def v Let_def)
next
  case False
  then obtain u where u: "table_at (phys_tables s) r (p @ [PD_index v]) = Some u"
    "get_frame (phys_tables s u (PT_index v)) \<noteq> 0" using sz by auto
  have e: "is_present (phys_tables s t (PD_index v))" "get_frame (phys_tables s t (PD_index v)) = u"
    using table_at_split [OF u(1)] inv(4) by (auto simp: is_present_def is_table_def)
  have p: "length (p @ [PD_index v]) = 3" "length p \<le> 2" using inv(3) by auto
  obtain s1 where s1: "PageTable_unmap req u s = Inr (is_table_empty s1 u, s1)"
    "unmaps R r (p @ [PD_index v]) ((p @ [PD_index v]) @ [PT_index v]) s s1"
    using PageTable_unmap_step [OF inv(1,2) p(1) u v] by blast
  have "unmaps R r p ((p @ [PD_index v]) @ [PT_index v]) s
      (if is_table_empty s1 u then free_table t (PD_index v) s1 else s1)"
    by (rule unmap_release_step [OF inv(2) p(2) inv(4) u(1) s1(2)]) simp_all
  then show ?thesis using False s1(1) e by (simp add: PageDirectoryTable_unmap_def v Let_def)
qed

text \<open>
  The condition under which an unmap request names a page that is there: the tables down to the
  level of the page exist, and the entry is present (for 4KiB pages the code tests the frame).
\<close>

definition page_mapped :: "Manager \<Rightarrow> u64 \<Rightarrow> PageSize \<Rightarrow> u64 \<Rightarrow> bool" where
  "page_mapped s r sz v \<longleftrightarrow>
     (case table_at (phys_tables s) r (butlast (page_path sz v)) of
        None \<Rightarrow> False
      | Some u \<Rightarrow> let e = phys_tables s u (last (page_path sz v))
                  in if sz = PAGE_4KiB then get_frame e \<noteq> 0 else is_present e)"

lemma PageDirectoryPointerTable_unmap_step:
  assumes inv: "vm_inv R s" "r \<in> R" "table_at (phys_tables s) r [PML4_index v] = Some t"
    and v: "unmap_virtualAddress req = v" and m: "page_mapped s r (unmap_pageSize req) v"
  shows "\<exists>s'. PageDirectoryPointerTable_unmap req t s = Inr (is_table_empty s' t, s') \<and>
     unmaps R r [PML4_index v] (page_path (unmap_pageSize req) v) s s'"
proof (cases "unmap_pageSize req = PAGE_1GiB")
  case True
  then show ?thesis
    using unmap_clear_step [OF inv(1,2) _ inv(3), of "PDPT_index v"] m inv(3)
    by (simp add: PageDirectoryPointerTable_unmap_def v Let_def page_mapped_def)
next
  case False
  let ?p = "[PML4_index v]"
  obtain u where u: "table_at (phys_tables s) r (?p @ [PDPT_index v]) = Some u"
    and sz: "if unmap_pageSize req = PAGE_2MiB then is_present (phys_tables s u (PD_index v))
      else \<exists>w. table_at (phys_tables s) r ((?p @ [PDPT_index v]) @ [PD_index v]) = Some w \<and>
               get_frame (phys_tables s w (PT_index v)) \<noteq> 0"
  proof (cases "unmap_pageSize req")
    case PAGE_4KiB
    then obtain w where w: "table_at (phys_tables s) r ((?p @ [PDPT_index v]) @ [PD_index v]) = Some w"
      "get_frame (phys_tables s w (PT_index v)) \<noteq> 0"
      using m by (auto simp: page_mapped_def split: option.splits)
    with PAGE_4KiB show ?thesis using table_at_split [OF w(1)] that by auto
  qed (use False m that in \<open>auto simp: page_mapped_def split: option.splits\<close>)
  have e: "is_present (phys_tables s t (PDPT_index v))" "get_frame (phys_tables s t (PDPT_index v)) = u"
    using table_at_split [OF u] inv(3) by (auto simp: is_present_def is_table_def)
  have p: "length (?p @ [PDPT_index v]) = 2" "length ?p \<le> 2" by auto
  obtain s1 where s1: "PageDirectoryTable_unmap req u s = Inr (is_table_empty s1 u, s1)"
    "unmaps R r (?p @ [PDPT_index v]) (page_path (unmap_pageSize req) v) s s1"
    using PageDirectoryTable_unmap_step [OF inv(1,2) p(1) u v sz] False
    by (cases "unmap_pageSize req") auto
  have "unmaps R r ?p (page_path (unmap_pageSize req) v) s
      (if is_table_empty s1 u then free_table t (PDPT_index v) s1 else s1)"
    using False by (intro unmap_release_step [OF inv(2) p(2) inv(3) u s1(2)]) (cases "unmap_pageSize req"; simp)+
  then show ?thesis using False s1(1) e by (simp add: PageDirectoryPointerTable_unmap_def v Let_def)
qed

lemma request_virtual_unmap_step:
  assumes inv: "vm_inv R s" "r \<in> R" and m: "page_mapped s r (unmap_pageSize req) (unmap_virtualAddress req)"
  shows "\<exists>s'. request_virtual_unmap req r s = Inr s' \<and>
     unmaps R r [] (page_path (unmap_pageSize req) (unmap_virtualAddress req)) s s'"
proof -
  define v where "v = unmap_virtualAddress req"
  let ?path = "page_path (unmap_pageSize req) v"
  have "\<exists>i. butlast ?path = [PML4_index v] @ i" by (cases "unmap_pageSize req") auto
  then obtain t where t: "table_at (phys_tables s) r ([] @ [PML4_index v]) = Some t"
    using m by (auto simp: page_mapped_def v_def table_at_append split: option.splits if_splits)
  have e: "is_present (phys_tables s r (PML4_index v))" "get_frame (phys_tables s r (PML4_index v)) = t"
    using table_at_split [OF t] by (auto simp: is_present_def is_table_def)
  obtain s1 where s1: "PageDirectoryPointerTable_unmap req t s = Inr (is_table_empty s1 t, s1)"
    "unmaps R r ([] @ [PML4_index v]) ?path s s1"
    using PageDirectoryPointerTable_unmap_step [OF inv _ v_def [symmetric]] t m by (auto simp: v_def)
  have "unmaps R r [] ?path s (if is_table_empty s1 t then free_table r (PML4_index v) s1 else s1)"
    by (intro unmap_release_step [OF inv(2) _ _ t s1(2)]) (cases "unmap_pageSize req"; simp)+
  then show ?thesis using s1(1) e
    by (simp add: request_virtual_unmap_def PML4Table_unmap_def v_def [symmetric] Let_def)
qed

subsection \<open>Pages as sets of addresses\<close>

fun page_shift :: "PageSize \<Rightarrow> nat" where
  "page_shift PAGE_4KiB = 12"
| "page_shift PAGE_2MiB = 21"
| "page_shift PAGE_1GiB = 30"

definition same_page :: "PageSize \<Rightarrow> u64 \<Rightarrow> u64 \<Rightarrow> bool" where
  "same_page sz v v' \<longleftrightarrow> (\<forall>n. page_shift sz \<le> n \<and> n < 48 \<longrightarrow> bit v n = bit v' n)"

lemma index_eq_iff:
  "(ucast (drop_bit k (v :: u64)) :: table_index) = ucast (drop_bit k v') \<longleftrightarrow>
     (\<forall>n. k \<le> n \<and> n < k + 9 \<longrightarrow> bit v n = bit v' n)"
proof
  assume e: "(ucast (drop_bit k v) :: table_index) = ucast (drop_bit k v')"
  show "\<forall>n. k \<le> n \<and> n < k + 9 \<longrightarrow> bit v n = bit v' n"
  proof (intro allI impI)
    fix n assume "k \<le> n \<and> n < k + 9"
    then obtain m where m: "n = k + m" "m < 9" by (metis add_less_cancel_left le_Suc_ex)
    have "bit (ucast (drop_bit k v) :: table_index) m = bit (ucast (drop_bit k v') :: table_index) m"
      using e by simp
    then show "bit v n = bit v' n" using m by (simp add: bit_ucast_iff bit_drop_bit_eq)
  qed
next
  assume "\<forall>n. k \<le> n \<and> n < k + 9 \<longrightarrow> bit v n = bit v' n"
  then show "(ucast (drop_bit k v) :: table_index) = ucast (drop_bit k v')"
    by (intro bit_word_eqI) (simp add: bit_ucast_iff bit_drop_bit_eq)
qed

lemma bits_split:
  "k \<le> m \<Longrightarrow> m \<le> (l :: nat) \<Longrightarrow>
   (\<forall>n. k \<le> n \<and> n < l \<longrightarrow> P n) \<longleftrightarrow> (\<forall>n. m \<le> n \<and> n < l \<longrightarrow> P n) \<and> (\<forall>n. k \<le> n \<and> n < m \<longrightarrow> P n)"
  by (metis le_trans less_le_trans not_less)

lemma same_page_path: "same_page sz v v' \<longleftrightarrow> prefix (page_path sz v) (vpath v')"
proof (cases sz)
  case PAGE_4KiB
  show ?thesis
    unfolding PAGE_4KiB page_path_simps vpath_def same_page_def page_shift.simps
      PML4_index_def PDPT_index_def PD_index_def PT_index_def
    using bits_split [of 12 39 48] bits_split [of 12 30 39] bits_split [of 12 21 30]
    by (simp add: index_eq_iff)
next
  case PAGE_2MiB
  show ?thesis
    unfolding PAGE_2MiB page_path_simps vpath_def same_page_def page_shift.simps
      PML4_index_def PDPT_index_def PD_index_def PT_index_def
    using bits_split [of 21 39 48] bits_split [of 21 30 39] by (simp add: index_eq_iff)
next
  case PAGE_1GiB
  show ?thesis
    unfolding PAGE_1GiB page_path_simps vpath_def same_page_def page_shift.simps
      PML4_index_def PDPT_index_def PD_index_def PT_index_def
    using bits_split [of 30 39 48] by (simp add: index_eq_iff)
qed

subsection \<open>The address space as a client sees it\<close>

text \<open>
  Address spaces the kernel builds use 2MiB pages for the direct map under top level index 511 and
  4KiB pages below it; \<open>space_inv\<close> adds this to the invariant of the tables. For requests that keep
  to it no page is ever split, so that a sequence of requests can be described request by request.
\<close>

definition space_inv :: "u64 set \<Rightarrow> u64 \<Rightarrow> Manager \<Rightarrow> bool" where
  "space_inv R r s \<longleftrightarrow> vm_inv R s \<and> r \<in> R \<and>
     (\<forall>q f rest. length q = 4 \<longrightarrow> walk (phys_tables s) r q = Some (f, rest) \<longrightarrow>
        length rest \<le> (if hd q = 511 then 1 else 0))"

definition regular_request :: "VirtualMemoryMapRequest \<Rightarrow> bool" where
  "regular_request req \<longleftrightarrow> request_aligned req (pageSize req) \<and>
     (if PML4_index (virtualAddress req) = 511 then pageSize req = PAGE_2MiB else pageSize req = PAGE_4KiB)"

locale update_loop =
  fixes inv :: "'s \<Rightarrow> bool"
    and budget :: "'s \<Rightarrow> nat"
    and cost :: nat
    and ok :: "'a \<Rightarrow> bool"
    and step :: "'a \<Rightarrow> 's \<Rightarrow> 'e + 's"
    and look :: "'s \<Rightarrow> 'k \<Rightarrow> 'v"
    and covers :: "'a \<Rightarrow> 'k \<Rightarrow> bool"
    and val :: "'a \<Rightarrow> 'v"
  assumes step_ok: "inv s \<Longrightarrow> ok a \<Longrightarrow> cost \<le> budget s \<Longrightarrow>
      \<exists>s'. step a s = Inr s' \<and> inv s' \<and> budget s \<le> budget s' + cost \<and>
           (\<forall>k. look s' k = (if covers a k then val a else look s k))"
begin

fun run :: "'a list \<Rightarrow> 's \<Rightarrow> 'e + 's" where
  "run [] s = Inr s"
| "run (a # as) s = (case step a s of Inl e \<Rightarrow> Inl e | Inr s' \<Rightarrow> run as s')"

lemma run_ok:
  assumes "inv s" "\<forall>a\<in>set as. ok a" "cost * length as \<le> budget s"
  shows "\<exists>s'. run as s = Inr s' \<and> inv s' \<and> budget s \<le> budget s' + cost * length as \<and>
           (\<forall>k. look s' k = fold (\<lambda>a v. if covers a k then val a else v) as (look s k))"
  using assms
proof (induction as arbitrary: s)
  case (Cons a as)
  have "cost \<le> budget s" using Cons.prems(3) by simp
  then obtain s1 where s1: "step a s = Inr s1" "inv s1" "budget s \<le> budget s1 + cost"
    "\<forall>k. look s1 k = (if covers a k then val a else look s k)"
    using step_ok [of s a] Cons.prems by auto
  moreover have "cost * length as \<le> budget s1" using Cons.prems(3) s1(3) by simp
  ultimately show ?case using Cons.IH [of s1] Cons.prems(2) by fastforce
qed simp

lemma run_other:
  assumes "inv s" "\<forall>a\<in>set as. ok a" "cost * length as \<le> budget s" "run as s = Inr s'"
    and "\<forall>a\<in>set as. \<not> covers a k"
  shows "look s' k = look s k"
proof -
  have "fold (\<lambda>a v. if covers a k then val a else v) as x = x" for x
    using assms(5) by (induction as) auto
  then show ?thesis using run_ok [OF assms(1-3)] assms(4) by auto
qed

lemma run_unique:
  assumes "inv s" "\<forall>a\<in>set as. ok a" "cost * length as \<le> budget s"
    and "a \<in> set as" "covers a k" "\<forall>b\<in>set as. covers b k \<longrightarrow> val b = val a"
  shows "\<exists>s'. run as s = Inr s' \<and> inv s' \<and> look s' k = val a"
proof -
  have "fold (\<lambda>a v. if covers a k then val a else v) as x = val a"
    if "a \<in> set as \<or> x = val a" "\<forall>b\<in>set as. covers b k \<longrightarrow> val b = val a" for as x
    using that assms(5) by (induction as arbitrary: x) auto
  then show ?thesis using run_ok [OF assms(1-3)] assms(4,6) by fastforce
qed

end

lemma regular_no_split:
  assumes "space_inv R r s" "regular_request req" "length q = 4"
    and "strict_prefix w (page_path (pageSize req) (virtualAddress req))" "w \<noteq> []"
  shows "\<not> large_page_at (phys_tables s) r w q"
proof
  assume l: "large_page_at (phys_tables s) r w q"
  then obtain f where f: "prefix w q" "walk (phys_tables s) r q = Some (f, drop (length w) q)"
    by (auto simp: large_page_at_def)
  have "hd q = hd w" using f(1) assms(5) by (auto simp: prefix_def)
  moreover have "hd w = PML4_index (virtualAddress req)" "length w < page_depth (pageSize req)"
    using assms(4,5) prefix_length_less [OF assms(4)]
    by (cases "pageSize req"; auto simp: strict_prefix_def prefix_Cons)+
  moreover have "length (drop (length w) q) \<le> (if hd q = 511 then 1 else 0)"
    using assms(1,3) f(2) unfolding space_inv_def by blast
  ultimately show False using assms(2,3) by (auto simp: regular_request_def split: if_splits)
qed

lemma regular_map_step:
  assumes inv: "space_inv R r s" and ok: "regular_request req" and free: "3 \<le> card (free_frames s)"
  shows "\<exists>s'. request_virtual_map req r s = Inr s' \<and> space_inv R r s' \<and>
    card (free_frames s) \<le> card (free_frames s') + 3 \<and>
    (\<forall>r'\<in>R. r' \<noteq> r \<longrightarrow> (\<forall>q. length q = 4 \<longrightarrow> walk (phys_tables s') r' q = walk (phys_tables s) r' q)) \<and>
    (\<forall>v. get_physical_address s' r v =
       (if same_page (pageSize req) (virtualAddress req) v then physicalAddress req
        else get_physical_address s r v))"
proof -
  let ?tp = "page_path (pageSize req) (virtualAddress req)"
  have vm: "vm_inv R s" "r \<in> R" using inv by (auto simp: space_inv_def)
  have al: "request_aligned req (pageSize req)" using ok by (simp add: regular_request_def)
  obtain s' W where s': "request_virtual_map req r s = Inr s'"
    and W: "\<forall>w. w \<in> W \<longleftrightarrow> strict_prefix w ?tp \<and> w \<noteq> []"
    and m: "maps_to R r W ?tp (physicalAddress req) 3 s s'"
    using request_virtual_map_step [OF vm al free] by (elim exE conjE)
  have w: "walk (phys_tables s') r q =
      (if prefix ?tp q then Some (physicalAddress req, drop (length ?tp) q) else walk (phys_tables s) r q)"
    if "length q = 4" for q
    using m W that regular_no_split [OF inv ok that] unfolding maps_to_def by auto
  have dropped: "length (drop (length ?tp) q) \<le> (if hd q = 511 then 1 else 0)"
    if "length q = 4" "prefix ?tp q" for q
    using ok that by (cases "pageSize req") (auto simp: regular_request_def prefix_def split: if_splits)
  have rest: "length rest \<le> (if hd q = 511 then 1 else 0)"
    if "length q = 4" "walk (phys_tables s') r q = Some (f, rest)" for q f rest
  proof (cases "prefix ?tp q")
    case True
    then show ?thesis using w [OF that(1)] that dropped [OF that(1) True] by simp
  next
    case False
    then have "walk (phys_tables s) r q = Some (f, rest)" using w [OF that(1)] that(2) by simp
    then show ?thesis using inv that(1) unfolding space_inv_def by blast
  qed
  have "vm_inv R s'" using m by (simp add: maps_to_def)
  then have "space_inv R r s'" using vm(2) rest unfolding space_inv_def by blast
  moreover have "get_physical_address s' r v =
      (if same_page (pageSize req) (virtualAddress req) v then physicalAddress req
       else get_physical_address s r v)" for v
    using translate_vpath [OF vm] translate_vpath [of R s' r v] calculation w [of "vpath v"]
    by (simp add: space_inv_def translate_def same_page_path)
  ultimately show ?thesis using s' m by (simp add: maps_to_def)
qed

definition translation_map :: "u64 set \<Rightarrow> Manager \<Rightarrow> u64 \<times> u64 \<Rightarrow> u64" where
  "translation_map R s = (\<lambda>(r, v). if r \<in> R then get_physical_address s r v else 0)"

interpretation regular_maps: update_loop "space_inv R r" "\<lambda>s. card (free_frames s)" 3 regular_request
  "\<lambda>req. request_virtual_map req r" "translation_map R"
  "\<lambda>req (r', v). r' = r \<and> same_page (pageSize req) (virtualAddress req) v" physicalAddress
  for R r
proof
  fix s :: Manager and req
  assume inv: "space_inv R r s" and ok: "regular_request req" "3 \<le> card (free_frames s)"
  obtain s' where s': "request_virtual_map req r s = Inr s'" "space_inv R r s'"
    "card (free_frames s) \<le> card (free_frames s') + 3"
    "\<And>r' q. r' \<in> R \<Longrightarrow> r' \<noteq> r \<Longrightarrow> length q = 4 \<Longrightarrow> walk (phys_tables s') r' q = walk (phys_tables s) r' q"
    "\<And>v. get_physical_address s' r v =
       (if same_page (pageSize req) (virtualAddress req) v then physicalAddress req
        else get_physical_address s r v)"
    using regular_map_step [OF inv ok] by blast
  have vm: "vm_inv R s" "vm_inv R s'" "r \<in> R" using inv s'(2) by (auto simp: space_inv_def)
  have "get_physical_address s' r' v = get_physical_address s r' v" if "r' \<in> R" "r' \<noteq> r" for r' v
    using s'(4) [OF that, of "vpath v"] translate_vpath [OF vm(1) that(1)] translate_vpath [OF vm(2) that(1)]
    by (simp add: translate_def)
  then have "translation_map R s' k = (if case k of (r', v) \<Rightarrow> r' = r \<and> same_page (pageSize req) (virtualAddress req) v
      then physicalAddress req else translation_map R s k)" for k
    using s'(5) vm(3) by (cases k; cases "fst k = r") (simp_all add: translation_map_def)
  then show "\<exists>s'. request_virtual_map req r s = Inr s' \<and> space_inv R r s' \<and>
      card (free_frames s) \<le> card (free_frames s') + 3 \<and>
      (\<forall>k. translation_map R s' k = (if case k of (r', v) \<Rightarrow> r' = r \<and> same_page (pageSize req) (virtualAddress req) v
         then physicalAddress req else translation_map R s k))"
    using s'(1-3) by blast
qed

subsection \<open>The direct map of physical memory\<close>

definition direct_map_request :: "nat \<Rightarrow> VirtualMemoryMapRequest" where
  "direct_map_request k =
     \<lparr>physicalAddress = of_nat k * 0x200000, virtualAddress = VirtualAddress_of_physical (of_nat k * 0x200000),
      allowWrite = True, allowUserAccess = False, pageSize = PAGE_2MiB\<rparr>"

lemma map_physical_memory_run:
  "map_physical_memory ks r s = regular_maps.run r (map direct_map_request ks) s"
  by (induction ks arbitrary: s) (simp_all add: direct_map_request_def Let_def split: sum.splits)

lemma bit_direct_map:
  assumes "unat x < 2 ^ 39"
  shows "bit (VirtualAddress_of_physical x) n \<longleftrightarrow> (39 \<le> n \<and> n < 64) \<or> bit x n"
proof -
  have k: "bit KERNEL_PHYS_MAP_ADDRESS n \<longleftrightarrow> 39 \<le> n \<and> n < 64" for n
  proof -
    have K: "KERNEL_PHYS_MAP_ADDRESS = NOT (mask 39)"
      by (simp add: KERNEL_PHYS_MAP_ADDRESS_def mask_eq_exp_minus_1)
    show ?thesis unfolding K by (auto simp: bit_not_iff bit_mask_iff)
  qed
  have hi: "\<not> bit x n" if "39 \<le> n" for n
    using high_bits_clear [OF assms that] .
  have "x + KERNEL_PHYS_MAP_ADDRESS = x OR KERNEL_PHYS_MAP_ADDRESS"
    by (rule disjunctive_add) (use k hi not_le in blast)
  then show ?thesis by (auto simp: VirtualAddress_of_physical_def bit_or_iff k)
qed

lemma direct_map_phys:
  assumes "k < 2048"
  shows "unat (of_nat k * 0x200000 :: u64) = k * 0x200000"
    and "bit (of_nat k * 0x200000 :: u64) n \<longleftrightarrow> 21 \<le> n \<and> bit k (n - 21)"
proof -
  have e: "(of_nat k * 0x200000 :: u64) = of_nat (k * 0x200000)" by simp
  show u: "unat (of_nat k * 0x200000 :: u64) = k * 0x200000"
    unfolding e using assms by (intro unat_of_nat_64) simp
  have "k * 0x200000 = push_bit 21 k" by (simp add: push_bit_eq_mult)
  then show "bit (of_nat k * 0x200000 :: u64) n \<longleftrightarrow> 21 \<le> n \<and> bit k (n - 21)"
    using bit_unat [of "of_nat k * 0x200000 :: u64" n] unfolding u by (simp add: bit_push_bit_iff)
qed

lemma check_align_2MiB: "CHECK_ALIGN x 0x200000 \<longleftrightarrow> (\<forall>n<21. \<not> bit x n)"
proof -
  have m: "(0x200000 - 1 :: u64) = mask 21" by (simp add: mask_eq_exp_minus_1)
  have "bit x n \<Longrightarrow> n < 64" for n using bit_imp_le_length [of x n] by simp
  then show ?thesis unfolding CHECK_ALIGN_def m
    by (auto simp: bit_eq_iff [of "x AND mask 21" 0] bit_and_iff bit_mask_iff)
qed

lemma direct_map_regular:
  assumes k: "k < 2048"
  shows "regular_request (direct_map_request k)"
proof -
  let ?p = "of_nat k * 0x200000 :: u64"
  have "unat ?p < 2 ^ 39" using direct_map_phys(1) [OF k] k by simp
  note v = bit_direct_map [OF this]
  have "PML4_index (VirtualAddress_of_physical ?p) = - 1"
    by (rule bit_word_eqI) (simp add: PML4_index_def bit_ucast_iff bit_drop_bit_eq v)
  moreover have "CHECK_ALIGN ?p 0x200000" "CHECK_ALIGN (VirtualAddress_of_physical ?p) 0x200000"
    by (simp_all add: check_align_2MiB v direct_map_phys(2) [OF k])
  ultimately show ?thesis
    by (simp add: regular_request_def direct_map_request_def request_aligned_def)
qed

lemma direct_map_covers:
  assumes k: "k < 2048" and x: "unat x < 2 ^ 32"
  shows "same_page PAGE_2MiB (virtualAddress (direct_map_request k)) (VirtualAddress_of_physical x) \<longleftrightarrow>
         k = unat x div 0x200000"
proof -
  let ?p = "of_nat k * 0x200000 :: u64"
  have p: "unat ?p < 2 ^ 39" using direct_map_phys(1) [OF k] k by simp
  have x39: "unat x < 2 ^ 39" using x by simp
  have hi: "\<not> bit x (n + 21)" "\<not> bit k n" if "18 \<le> n" for n
  proof -
    show "\<not> bit x (n + 21)" using high_bits_clear [OF x] that by simp
    have "k < 2 ^ 11" "(2 :: nat) ^ 11 \<le> 2 ^ n" using k that power_increasing [of 11 n "2 :: nat"] by simp_all
    then have "k < 2 ^ n" by linarith
    then show "\<not> bit k n" by (simp add: bit_iff_odd)
  qed
  have dx: "bit (unat x div 0x200000) n \<longleftrightarrow> bit x (n + 21)" for n
  proof -
    have "unat x div 0x200000 = drop_bit 21 (unat x)" by (simp add: drop_bit_eq_div)
    then show ?thesis by (simp add: bit_drop_bit_eq bit_unat add.commute)
  qed
  have "same_page PAGE_2MiB (virtualAddress (direct_map_request k)) (VirtualAddress_of_physical x) \<longleftrightarrow>
      (\<forall>n :: nat. 21 \<le> n \<and> n < 39 \<longrightarrow> bit ?p n = bit x n)"
    by (auto simp: same_page_def direct_map_request_def bit_direct_map [OF p] bit_direct_map [OF x39])
  also have "\<dots> \<longleftrightarrow> (\<forall>n. bit k n = bit (unat x div 0x200000) n)"
  proof (rule iffI; intro allI impI)
    fix n
    assume a: "\<forall>n. 21 \<le> n \<and> n < 39 \<longrightarrow> bit ?p n = bit x n"
    show "bit k n = bit (unat x div 0x200000) n"
      using a [rule_format, of "n + 21"] hi [of n] by (cases "18 \<le> n") (simp_all add: dx direct_map_phys(2) [OF k])
  next
    fix n :: nat
    assume a: "\<forall>n. bit k n = bit (unat x div 0x200000) n" and n: "21 \<le> n \<and> n < 39"
    then show "bit ?p n = bit x n"
      using a [rule_format, of "n - 21"] by (simp add: dx direct_map_phys(2) [OF k])
  qed
  also have "\<dots> \<longleftrightarrow> k = unat x div 0x200000" by (simp add: bit_eq_iff)
  finally show ?thesis .
qed

lemma direct_map_align_down:
  assumes "unat x < 2 ^ 32"
  shows "of_nat (unat x div 0x200000) * 0x200000 = BYTE_ALIGN_DOWN x 0x200000"
proof -
  have m: "(0x200000 - 1 :: u64) = mask 21" by (simp add: mask_eq_exp_minus_1)
  have "unat x div 0x200000 < 2048" using assms by (intro less_mult_imp_div_less) simp
  then show ?thesis
    unfolding BYTE_ALIGN_DOWN_def m
    by (simp only: word_unat_eq_iff direct_map_phys(1) unat_and_not_mask) simp
qed

lemma direct_map_run:
  assumes inv: "space_inv R r s" and free: "6144 \<le> card (free_frames s)"
  shows "\<exists>s'. map_physical_memory [0..<2048] r s = Inr s' \<and> space_inv R r s' \<and>
    (\<forall>x. unat x < 2 ^ 32 \<longrightarrow>
       get_physical_address s' r (VirtualAddress_of_physical x) = BYTE_ALIGN_DOWN x 0x200000) \<and>
    (\<forall>r'\<in>R. r' \<noteq> r \<longrightarrow> (\<forall>v. get_physical_address s' r' v = get_physical_address s r' v))"
proof -
  let ?as = "map direct_map_request [0..<2048]"
  have ok: "\<forall>a\<in>set ?as. regular_request a" using direct_map_regular by auto
  have b: "3 * length ?as \<le> card (free_frames s)" using free by simp
  obtain s' where s': "regular_maps.run r ?as s = Inr s'" "space_inv R r s'"
    using regular_maps.run_ok [OF inv ok b] by blast
  have rR: "r \<in> R" using inv by (simp add: space_inv_def)
  have "get_physical_address s' r (VirtualAddress_of_physical x) = BYTE_ALIGN_DOWN x 0x200000"
    if x: "unat x < 2 ^ 32" for x
  proof -
    let ?k = "unat x div 0x200000"
    have k: "?k < 2048" using x by (intro less_mult_imp_div_less) simp
    let ?a = "direct_map_request ?k" and ?key = "(r, VirtualAddress_of_physical x)"
    have cov: "same_page (pageSize b) (virtualAddress b) (VirtualAddress_of_physical x) \<longleftrightarrow> b = ?a"
      if "b \<in> set ?as" for b
      using that direct_map_covers [OF _ x] direct_map_covers [OF k x] by (auto simp: direct_map_request_def)
    have mem: "?a \<in> set ?as" using k by auto
    have "\<exists>s'. regular_maps.run r ?as s = Inr s' \<and> space_inv R r s' \<and> translation_map R s' ?key = physicalAddress ?a"
      using cov mem cov [OF mem] by (intro regular_maps.run_unique [OF inv ok b mem]) auto
    then show ?thesis
      using s'(1) rR direct_map_align_down [OF x] by (simp add: translation_map_def direct_map_request_def)
  qed
  moreover have "get_physical_address s' r' v = get_physical_address s r' v" if "r' \<in> R" "r' \<noteq> r" for r' v
    using regular_maps.run_other [OF inv ok b s'(1), of "(r', v)"] that by (simp add: translation_map_def)
  ultimately show ?thesis using s'(1,2) by (auto simp: map_physical_memory_run)
qed

lemma walk_page_mapped:
  assumes "walk (phys_tables s) r (vpath v) = Some (f, [])" "f \<noteq> 0"
  shows "page_mapped s r PAGE_4KiB v"
  using assms by (auto simp: vpath_def page_mapped_def is_table_def split: if_splits)

lemma alloc_keeps_vm:
  assumes inv: "vm_inv R s" and al: "alloc_physical_block s = Inr (p, s1)"
  shows "vm_inv R s1 \<and> phys_tables s1 = phys_tables s \<and> card (free_frames s) = card (free_frames s1) + 1 \<and>
    (\<exists>n\<in>free_frames s. p = frame_address n \<and> free_frames s1 = free_frames s - {n})"
proof -
  have ne: "free_frames s \<noteq> {}" using al alloc_physical_block_none by fastforce
  define n where "n = Min (free_frames s)"
  have n: "n \<in> free_frames s" using Min_in [OF finite_free_frames ne] by (simp add: n_def)
  have a: "p = frame_address n" "phys_inv s1" "free_frames s1 = free_frames s - {n}"
    "frame_limit s1 = frame_limit s" "phys_tables s1 = phys_tables s"
    using alloc_physical_block_some [OF vm_inv_phys [OF inv] ne] al by (auto simp: n_def)
  have "owned s1 t" if "owned s t" for t using that a(3,4) by (auto simp: owned_def)
  then have "vm_inv R s1" using inv vm_inv_owned [OF inv]
    by (intro vm_inv_shrink [OF inv a(2)]) (simp_all add: a(5) vm_inv_def)
  moreover have "card (free_frames s) = card (free_frames s1) + 1"
    using n a(3) ne by (simp add: card_gt_0_iff)
  ultimately show ?thesis using n a(1,3,5) by blast
qed

subsection \<open>An example\<close>

text \<open>An address space with an empty top level table in frame 1 and the frames 2 to 6407 free.\<close>

definition example_space :: Manager where
  "example_space = \<lparr>m_physicalMemorySize = 0x1908000,
     m_physicalBitmap = \<lparr>m_bitmap = 0x03 # replicate 800 0, m_bitmapAddress = 0\<rparr>,
     m_virtualAddressSpace = 0x1000, phys_tables = \<lambda>_ _. 0\<rparr>"

definition example_request :: VirtualMemoryMapRequest where
  "example_request = \<lparr>physicalAddress = 0x5000, virtualAddress = 0x400000,
     allowWrite = True, allowUserAccess = True, pageSize = PAGE_4KiB\<rparr>"

lemma example_space_frames: "free_frames example_space = {2..<6408}"
proof -
  have "bit ((0x03 # replicate 800 0 :: u8 list) ! (n div 8)) (n mod 8) \<longleftrightarrow> n < 2" if "n < 6408" for n
  proof (cases "n < 8")
    case True
    have "bit (3 :: u8) n \<longleftrightarrow> n < 2"
    proof -
      have m: "(3 :: u8) = mask 2" by (simp add: mask_eq_exp_minus_1)
      show ?thesis unfolding m using True by (auto simp: bit_mask_iff)
    qed
    then show ?thesis using True by simp
  next
    case False
    then have "n div 8 - 1 < 800" "n div 8 \<noteq> 0" using that by auto
    then show ?thesis using False by (simp add: nth_Cons')
  qed
  then show ?thesis
    by (auto simp: free_frames_def free_bits_def example_space_def m_bitmapSize_def)
qed

lemma example_space_inv: "vm_inv {0x1000} example_space"
proof -
  have "table_at (phys_tables example_space) r p = Some t \<longleftrightarrow> p = [] \<and> t = r" for r p t
    by (cases p) (auto simp: example_space_def is_table_def)
  moreover have "phys_inv example_space"
    using example_space_frames by (simp add: phys_inv_def example_space_def m_bitmapSize_def)
  moreover have "owned example_space 0x1000"
    unfolding owned_def example_space_frames
    by (intro exI [of _ 1]) (simp add: frame_address_def PHYSICAL_BLOCK_SIZE_def frame_limit_def
        example_space_def m_bitmapSize_def)
  moreover have "phys_tables example_space = (\<lambda>_ _. 0)" by (simp add: example_space_def)
  ultimately show ?thesis by (simp add: vm_inv_def)
qed

lemma example_request_regular: "regular_request example_request"
  by (simp add: regular_request_def example_request_def request_aligned_def CHECK_ALIGN_def PML4_index_def)

lemma example_space_space: "space_inv {0x1000} 0x1000 example_space"
  using example_space_inv walk_zero_table [of "phys_tables example_space" "0x1000"]
  by (simp add: space_inv_def example_space_def)

lemma map_request_translates:
  assumes inv: "vm_inv R s" "r \<in> R" and al: "request_aligned req (pageSize req)"
    and free: "3 \<le> card (free_frames s)"
  shows "\<exists>s'. request_virtual_map req r s = Inr s' \<and> vm_inv R s' \<and>
    (\<forall>r'\<in>R. \<forall>v. get_physical_address s' r' v =
       (if r' = r \<and> same_page (pageSize req) (virtualAddress req) v then physicalAddress req
        else if r' = r \<and> large_page_above (phys_tables s) r
               (page_path (pageSize req) (virtualAddress req)) (vpath v) then 0
        else get_physical_address s r' v))"
proof -
  let ?tp = "page_path (pageSize req) (virtualAddress req)"
  obtain s' W where s': "request_virtual_map req r s = Inr s'"
    and W: "\<forall>w. w \<in> W \<longleftrightarrow> strict_prefix w ?tp \<and> w \<noteq> []"
    and m: "maps_to R r W ?tp (physicalAddress req) 3 s s'"
    using request_virtual_map_step [OF inv al free] by (elim exE conjE)
  have vm: "vm_inv R s'" using m by (simp add: maps_to_def)
  have big: "(\<exists>w\<in>W. large_page_at (phys_tables s) r w q) \<longleftrightarrow> large_page_above (phys_tables s) r ?tp q" for q
    using W by (auto simp: large_page_above_def)
  have "get_physical_address s' r v =
      (if same_page (pageSize req) (virtualAddress req) v then physicalAddress req
       else if large_page_above (phys_tables s) r ?tp (vpath v) then 0 else get_physical_address s r v)" for v
    using m [unfolded maps_to_def big, THEN conjunct2, THEN conjunct2, THEN conjunct2, rule_format, of "vpath v"]
    by (simp add: translate_vpath [OF vm inv(2)] translate_vpath [OF inv] translate_def same_page_path)
  moreover have "get_physical_address s' r' v = get_physical_address s r' v" if "r' \<in> R" "r' \<noteq> r" for r' v
    using m that by (simp add: maps_to_def translate_vpath [OF vm that(1)] translate_vpath [OF inv(1) that(1)]
        translate_def)
  ultimately have "get_physical_address s' r' v =
       (if r' = r \<and> same_page (pageSize req) (virtualAddress req) v then physicalAddress req
        else if r' = r \<and> large_page_above (phys_tables s) r ?tp (vpath v) then 0
        else get_physical_address s r' v)" if "r' \<in> R" for r' v
    using that by (cases "r' = r") simp_all
  then show ?thesis using s' vm by blast
qed

subsection \<open>Properties\<close>

text \<open>
  C3: Mapping a page. A correctly aligned map request succeeds when three frames are free. Afterwards
  every address of the page translates to the requested frame, and every other address, in this and
  in every other address space, translates as before; the one exception is an address whose larger
  page had to be replaced by a table to make room for the new page, which is then unmapped. The
  tables stay a proper tree in frames the allocator does not hand out.
\<close>

theorem request_virtual_map_translates:
  assumes inv: "vm_inv R s" "r \<in> R" and al: "request_aligned req (pageSize req)"
    and free: "3 \<le> card (free_frames s)"
  shows "\<exists>s'. request_virtual_map req r s = Inr s' \<and> vm_inv R s' \<and>
    (\<forall>r'\<in>R. \<forall>v. get_physical_address s' r' v =
       (if r' = r \<and> same_page (pageSize req) (virtualAddress req) v then physicalAddress req
        else if r' = r \<and> large_page_above (phys_tables s) r
               (page_path (pageSize req) (virtualAddress req)) (vpath v) then 0
        else get_physical_address s r' v))"
  by (rule map_request_translates [OF assms])

theorem request_virtual_map_translates_witness:
  "\<exists>s'. request_virtual_map example_request 0x1000 example_space = Inr s' \<and> vm_inv {0x1000} s' \<and>
     get_physical_address s' 0x1000 0x400000 = 0x5000"
proof -
  have al: "request_aligned example_request (pageSize example_request)" "3 \<le> card (free_frames example_space)"
    using example_request_regular by (simp_all add: regular_request_def example_space_frames)
  have "same_page (pageSize example_request) (virtualAddress example_request) 0x400000"
    by (simp add: example_request_def same_page_def)
  moreover have "physicalAddress example_request = 0x5000" by (simp add: example_request_def)
  ultimately show ?thesis
    using request_virtual_map_translates [OF example_space_inv _ al, of "0x1000"] by auto
qed

text \<open>
  C4: Unmapping a page. When the page a request names is mapped with the requested size, the request
  succeeds; afterwards no address of the page translates to anything and every other address of every
  address space translates as before. Each table below the top one on the way to the page is then
  either gone or still in its place and not empty, and the frames that became free are exactly the
  frames of the tables that are gone. The invariant holds again.
\<close>

theorem request_virtual_unmap_translates:
  assumes inv: "vm_inv R s" "r \<in> R"
    and mapped: "page_mapped s r (unmap_pageSize req) (unmap_virtualAddress req)"
  shows "\<exists>s'. request_virtual_unmap req r s = Inr s' \<and> vm_inv R s' \<and>
    (\<forall>r'\<in>R. \<forall>v. get_physical_address s' r' v =
       (if r' = r \<and> same_page (unmap_pageSize req) (unmap_virtualAddress req) v then 0
        else get_physical_address s r' v)) \<and>
    (\<forall>w. w \<noteq> [] \<and> strict_prefix w (page_path (unmap_pageSize req) (unmap_virtualAddress req)) \<longrightarrow>
       (case table_at (phys_tables s') r w of
          None \<Rightarrow> True
        | Some t \<Rightarrow> table_at (phys_tables s) r w = Some t \<and> \<not> is_table_empty s' t)) \<and>
    free_frames s' = free_frames s \<union>
      {n. n < frame_limit s \<and>
          (\<exists>w. w \<noteq> [] \<and> strict_prefix w (page_path (unmap_pageSize req) (unmap_virtualAddress req)) \<and>
             table_at (phys_tables s) r w = Some (frame_address n) \<and> table_at (phys_tables s') r w = None)}"
proof -
  let ?tp = "page_path (unmap_pageSize req) (unmap_virtualAddress req)"
  obtain s' where s': "request_virtual_unmap req r s = Inr s'" "unmaps R r [] ?tp s s'"
    using request_virtual_unmap_step [OF assms] by blast
  have vm: "vm_inv R s'" using s'(2) by (simp add: unmaps_def)
  have "get_physical_address s' r' v =
       (if r' = r \<and> same_page (unmap_pageSize req) (unmap_virtualAddress req) v then 0
        else get_physical_address s r' v)" if "r' \<in> R" for r' v
    using s'(2) that by (simp add: unmaps_def translate_vpath [OF vm that] translate_vpath [OF inv(1) that]
        translate_def same_page_path)
  moreover have "strict_prefix [] w \<longleftrightarrow> w \<noteq> []" for w :: "table_index list" by (auto simp: strict_prefix_def)
  ultimately show ?thesis
    using s'(1,2) vm unfolding unmaps_def freed_tables_def tables_kept_def by auto
qed

theorem request_virtual_unmap_translates_witness:
  "\<exists>s1 s2. request_virtual_map example_request 0x1000 example_space = Inr s1 \<and>
     get_physical_address s1 0x1000 0x400000 = 0x5000 \<and>
     request_virtual_unmap \<lparr>unmap_virtualAddress = 0x400000, unmap_pageSize = PAGE_4KiB\<rparr> 0x1000 s1 = Inr s2 \<and>
     vm_inv {0x1000} s2 \<and> get_physical_address s2 0x1000 0x400000 = 0"
proof -
  obtain s1 where s1: "request_virtual_map example_request 0x1000 example_space = Inr s1"
    "space_inv {0x1000} 0x1000 s1"
    "\<forall>v. get_physical_address s1 0x1000 v =
       (if same_page (pageSize example_request) (virtualAddress example_request) v
        then physicalAddress example_request else get_physical_address example_space 0x1000 v)"
    using regular_map_step [OF example_space_space example_request_regular]
    by (auto simp: example_space_frames)
  have vm: "vm_inv {0x1000} s1" using s1(2) by (simp add: space_inv_def)
  have t: "get_physical_address s1 0x1000 0x400000 = 0x5000"
    using s1(3) by (simp add: example_request_def same_page_def)
  obtain f rest where w: "walk (phys_tables s1) 0x1000 (vpath 0x400000) = Some (f, rest)" "f = 0x5000"
    using t translate_vpath [OF vm, of "0x1000" "0x400000"] by (auto simp: translate_def split: option.splits)
  have "length rest \<le> (if hd (vpath 0x400000) = 511 then 1 else 0)"
    using s1(2) w(1) length_vpath unfolding space_inv_def by blast
  then have "rest = []" by (simp add: vpath_def PML4_index_def)
  then have "page_mapped s1 0x1000 PAGE_4KiB 0x400000" using walk_page_mapped w by simp
  then show ?thesis
    using request_virtual_unmap_translates [OF vm, of "0x1000"
        "\<lparr>unmap_virtualAddress = 0x400000, unmap_pageSize = PAGE_4KiB\<rparr>"] s1(1) t
    by (auto simp: same_page_def)
qed

text \<open>
  C31: A new address space starts with the direct map: with enough free frames
  \<open>create_virtual_address_space\<close> returns a top level table no other address space uses, in which the
  higher-half address of every physical byte below 4GiB translates to the 2MiB block that holds it,
  and leaves every translation of the existing address spaces unchanged.
\<close>

theorem create_virtual_address_space_direct_map:
  assumes inv: "vm_inv R s" and free: "6145 \<le> card (free_frames s)"
  shows "\<exists>r s'. create_virtual_address_space s = Inr (r, s') \<and> r \<notin> R \<and> vm_inv (insert r R) s' \<and>
    (\<forall>x. unat x < 2 ^ 32 \<longrightarrow>
       get_physical_address s' r (VirtualAddress_of_physical x) = BYTE_ALIGN_DOWN x 0x200000) \<and>
    (\<forall>r'\<in>R. \<forall>v. get_physical_address s' r' v = get_physical_address s r' v)"
proof -
  have ne: "free_frames s \<noteq> {}" using free by auto
  obtain r s1 where al: "alloc_physical_block s = Inr (r, s1)"
    using alloc_physical_block_some [OF vm_inv_phys [OF inv] ne] by blast
  let ?s2 = "zero_table r s1"
  have f: "vm_inv (insert r R) ?s2" "r \<notin> R" "card (free_frames s) = card (free_frames ?s2) + 1"
    "\<And>r' q. r' \<in> R \<Longrightarrow> length q \<le> 4 \<Longrightarrow> walk (phys_tables ?s2) r' q = walk (phys_tables s) r' q"
    using fresh_root_step [OF inv al] by blast+
  have "space_inv (insert r R) r ?s2"
    using f(1) by (simp add: space_inv_def walk_zero_table)
  then obtain s' where s': "map_physical_memory [0..<2048] r ?s2 = Inr s'" "space_inv (insert r R) r s'"
    "\<forall>x. unat x < 2 ^ 32 \<longrightarrow>
       get_physical_address s' r (VirtualAddress_of_physical x) = BYTE_ALIGN_DOWN x 0x200000"
    "\<forall>r'\<in>insert r R. r' \<noteq> r \<longrightarrow> (\<forall>v. get_physical_address s' r' v = get_physical_address ?s2 r' v)"
    using direct_map_run [of "insert r R" r ?s2] f(3) free by auto
  have "get_physical_address ?s2 r' v = get_physical_address s r' v" if "r' \<in> R" for r' v
    using f(4) [OF that] translate_vpath [OF inv that] translate_vpath [OF f(1), of r' v] that
    by (simp add: translate_def)
  then have "get_physical_address s' r' v = get_physical_address s r' v" if "r' \<in> R" for r' v
    using s'(4) that f(2) by auto
  then show ?thesis
    using al s' f(2) by (auto simp: create_virtual_address_space_def space_inv_def)
qed

theorem create_virtual_address_space_direct_map_witness:
  "\<exists>r s'. create_virtual_address_space example_space = Inr (r, s') \<and> r \<noteq> 0x1000 \<and>
     vm_inv {r, 0x1000} s' \<and>
     get_physical_address s' r (VirtualAddress_of_physical 0xB8000) = BYTE_ALIGN_DOWN 0xB8000 0x200000"
proof -
  have "6145 \<le> card (free_frames example_space)" by (simp add: example_space_frames)
  from create_virtual_address_space_direct_map [OF example_space_inv this]
  obtain r s' where "create_virtual_address_space example_space = Inr (r, s')" "r \<notin> {0x1000}"
    "vm_inv (insert r {0x1000}) s'" "\<forall>x. unat x < 2 ^ 32 \<longrightarrow>
       get_physical_address s' r (VirtualAddress_of_physical x) = BYTE_ALIGN_DOWN x 0x200000"
    by blast
  then show ?thesis by (intro exI [of _ r] exI [of _ s']) simp
qed

text \<open>
  Allocating a page. For an aligned address below the kernel's part of the address space, with
  four free frames, \<open>alloc_page\<close> succeeds and backs the page with a frame that was free before; every
  other address of every address space translates as before.
\<close>

theorem alloc_page_fresh:
  assumes inv: "space_inv R r s" and free: "4 \<le> card (free_frames s)"
    and v: "CHECK_ALIGN (alloc_virtualAddress req) 0x1000" "PML4_index (alloc_virtualAddress req) \<noteq> 511"
  shows "\<exists>s' n. alloc_page req r s = Inr s' \<and> space_inv R r s' \<and> n \<in> free_frames s \<and>
    (\<forall>r'\<in>R. \<forall>v. get_physical_address s' r' v =
       (if r' = r \<and> same_page PAGE_4KiB (alloc_virtualAddress req) v then frame_address n
        else get_physical_address s r' v))"
proof -
  have vm: "vm_inv R s" "r \<in> R" using inv by (simp_all add: space_inv_def)
  have ne: "free_frames s \<noteq> {}" using free by auto
  obtain p s1 where al: "alloc_physical_block s = Inr (p, s1)"
    using alloc_physical_block_some [OF vm_inv_phys [OF vm(1)] ne] by blast
  obtain n where n: "n \<in> free_frames s" "p = frame_address n" and s1: "vm_inv R s1"
    "phys_tables s1 = phys_tables s" "card (free_frames s) = card (free_frames s1) + 1"
    using alloc_keeps_vm [OF vm(1) al] by blast
  let ?m = "\<lparr>physicalAddress = p, virtualAddress = alloc_virtualAddress req,
      allowWrite = alloc_allowWrite req, allowUserAccess = alloc_allowUserAccess req, pageSize = PAGE_4KiB\<rparr>"
  have sp: "space_inv R r s1" using inv s1(1,2) by (simp add: space_inv_def)
  have ok: "regular_request ?m"
    using v n(2) aligned12_frame_address [of n]
    by (simp add: regular_request_def request_aligned_def CHECK_ALIGN_def aligned12_def)
  obtain s' where s': "request_virtual_map ?m r s1 = Inr s'" "space_inv R r s'"
    "\<forall>k. translation_map R s' k = (if case k of (r', v) \<Rightarrow> r' = r \<and> same_page (pageSize ?m) (virtualAddress ?m) v
         then physicalAddress ?m else translation_map R s1 k)"
    using regular_maps.step_ok [OF sp ok] s1(3) free by auto
  have same: "get_physical_address s1 r' v = get_physical_address s r' v" if "r' \<in> R" for r' v
    by (simp add: translate_vpath [OF s1(1) that] translate_vpath [OF vm(1) that] s1(2))
  have "get_physical_address s' r' v =
      (if r' = r \<and> same_page PAGE_4KiB (alloc_virtualAddress req) v then frame_address n
       else get_physical_address s r' v)" if "r' \<in> R" for r' v
    using s'(3) [rule_format, of "(r', v)"] that n(2) same by (simp add: translation_map_def)
  then show ?thesis using al s'(1,2) n(1) by (auto simp: alloc_page_def)
qed

theorem alloc_page_fresh_witness:
  "\<exists>s' n. alloc_page \<lparr>alloc_virtualAddress = 0x400000, alloc_allowWrite = True, alloc_allowUserAccess = True\<rparr>
       0x1000 example_space = Inr s' \<and> space_inv {0x1000} 0x1000 s' \<and> n \<in> {2..<6408} \<and>
     get_physical_address s' 0x1000 0x400000 = frame_address n"
proof -
  let ?req = "\<lparr>alloc_virtualAddress = 0x400000, alloc_allowWrite = True, alloc_allowUserAccess = True\<rparr>"
  have h: "4 \<le> card (free_frames example_space)" "CHECK_ALIGN (alloc_virtualAddress ?req) 0x1000"
    "PML4_index (alloc_virtualAddress ?req) \<noteq> 511"
    by (simp_all add: example_space_frames CHECK_ALIGN_def PML4_index_def)
  have p: "same_page PAGE_4KiB (alloc_virtualAddress ?req) 0x400000" by (simp add: same_page_def)
  show ?thesis using alloc_page_fresh [OF example_space_space h] p
    unfolding example_space_frames by auto
qed

text \<open>
  What a mapped page permits. The entry of a page is present, holds the requested frame and, as
  requested, allows writing and user access; but an access right an earlier mapping of the same page
  granted stays, because the flags are only ever set: mapping a page again without write access does
  not make it read-only.
\<close>

theorem prepare_page_permissions:
  assumes "aligned12 (physicalAddress req)"
  shows "let e = phys_tables (prepare_page_for_entry req t i s) t i; old = phys_tables s t i in
    get_flag e PRESENT \<and> get_frame e = physicalAddress req \<and>
    (get_flag e WRITEABLE \<longleftrightarrow> allowWrite req \<or> get_flag old WRITEABLE) \<and>
    (get_flag e USER_ACCESS \<longleftrightarrow> allowUserAccess req \<or> get_flag old USER_ACCESS)"
  using assms by (auto simp: prepare_page_for_entry_def Let_def entry_simps)

theorem prepare_page_permissions_witness:
  "let s = set_entry 0x1000 0 0x3007 example_space;
       req = \<lparr>physicalAddress = 0x5000, virtualAddress = 0, allowWrite = False, allowUserAccess = False,
              pageSize = PAGE_4KiB\<rparr>;
       e = phys_tables (prepare_page_for_entry req 0x1000 0 s) 0x1000 0 in
    get_flag e PRESENT \<and> get_frame e = 0x5000 \<and> get_flag e WRITEABLE \<and> get_flag e USER_ACCESS"
proof -
  let ?req = "\<lparr>physicalAddress = 0x5000, virtualAddress = 0, allowWrite = False, allowUserAccess = False,
      pageSize = PAGE_4KiB\<rparr>"
  have "aligned12 (physicalAddress ?req)" by (simp add: aligned12_def)
  from prepare_page_permissions [OF this, of "0x1000" 0 "set_entry 0x1000 0 0x3007 example_space"]
  show ?thesis by (simp add: Let_def get_flag_def)
qed

end
