(* ===== verification/Scheduler.thy ===== *)
theory Scheduler
  imports Common_PriorityQueue
begin

text \<open>
  The master scheduler of \<open>Kernel/Tasks/MasterScheduler.h\<close> and \<open>.cpp\<close>: two priority queues of task
  groups and the variable frequency buffer. Queues and lists are the sequences of elements the
  container theories refine them to. Group and task identifiers are natural numbers, 0 standing for
  none as in the code; times are the milliseconds since boot. \<open>priority\<close> is a signed \<open>int\<close>, whose
  division and remainder truncate.
\<close>

type_synonym TaskID = nat
type_synonym GroupID = nat

subsection \<open>Items of the priority queues\<close>

record TaskPriorityItem =
  pi_groupId :: GroupID
  pi_priority :: int

definition TaskPriorityItem_lt :: "TaskPriorityItem \<Rightarrow> TaskPriorityItem \<Rightarrow> bool" where
  "TaskPriorityItem_lt a b \<longleftrightarrow> pi_priority a > pi_priority b"

definition TaskPriorityItem_le :: "TaskPriorityItem \<Rightarrow> TaskPriorityItem \<Rightarrow> bool" where
  "TaskPriorityItem_le a b \<longleftrightarrow> pi_priority a > pi_priority b"

definition TaskPriorityItem_gt :: "TaskPriorityItem \<Rightarrow> TaskPriorityItem \<Rightarrow> bool" where
  "TaskPriorityItem_gt a b \<longleftrightarrow> pi_priority a < pi_priority b"

definition TaskPriorityItem_ge :: "TaskPriorityItem \<Rightarrow> TaskPriorityItem \<Rightarrow> bool" where
  "TaskPriorityItem_ge a b \<longleftrightarrow> pi_priority a \<le> pi_priority b"

interpretation prio: queue_order TaskPriorityItem_gt
  by unfold_locales (auto simp: TaskPriorityItem_gt_def)

subsection \<open>The variable frequency buffer\<close>

definition VARFREQ_CIRCULAR_BUFFER_SIZE :: nat where
  "VARFREQ_CIRCULAR_BUFFER_SIZE = 256"

record VariableFrequencyBuffer =
  buffer :: "GroupID list list"
  m_currentList :: nat
  vfb_m_size :: nat

definition vfb_new :: VariableFrequencyBuffer where
  "vfb_new = \<lparr>buffer = replicate VARFREQ_CIRCULAR_BUFFER_SIZE [], m_currentList = 0, vfb_m_size = 0\<rparr>"

definition vfb_add :: "GroupID \<Rightarrow> nat \<Rightarrow> VariableFrequencyBuffer \<Rightarrow> VariableFrequencyBuffer" where
  "vfb_add gid priority b =
     (let i = (m_currentList b + priority) mod VARFREQ_CIRCULAR_BUFFER_SIZE
      in b\<lparr>buffer := (buffer b)[i := buffer b ! i @ [gid]], vfb_m_size := vfb_m_size b + 1\<rparr>)"

partial_function (option) vfb_seek :: "GroupID list list \<Rightarrow> nat \<Rightarrow> nat option" where
  "vfb_seek buf cur =
     (if buf ! cur = [] then vfb_seek buf ((cur + 1) mod VARFREQ_CIRCULAR_BUFFER_SIZE) else Some cur)"

definition vfb_get_next :: "VariableFrequencyBuffer \<Rightarrow> (GroupID \<times> VariableFrequencyBuffer) option" where
  "vfb_get_next b =
     (if vfb_m_size b = 0 then Some (0, b)
      else case vfb_seek (buffer b) (m_currentList b) of
             None \<Rightarrow> None
           | Some cur \<Rightarrow>
               Some (hd (buffer b ! cur),
                     b\<lparr>buffer := (buffer b)[cur := tl (buffer b ! cur)],
                       m_currentList := cur, vfb_m_size := vfb_m_size b - 1\<rparr>))"

definition vfb_inv :: "VariableFrequencyBuffer \<Rightarrow> bool" where
  "vfb_inv b \<longleftrightarrow> length (buffer b) = 256 \<and> m_currentList b < 256 \<and>
     vfb_m_size b = length (concat (buffer b))"

definition vfb_groups :: "VariableFrequencyBuffer \<Rightarrow> GroupID list" where
  "vfb_groups b = concat (buffer b)"

text \<open>The distance of a list from the current one, going round the buffer.\<close>

definition vfb_distance :: "VariableFrequencyBuffer \<Rightarrow> nat \<Rightarrow> nat" where
  "vfb_distance b i = (i + 256 - m_currentList b) mod 256"

lemma vfb_new_inv: "vfb_inv vfb_new" "vfb_groups vfb_new = []"
  by (simp_all add: vfb_inv_def vfb_new_def VARFREQ_CIRCULAR_BUFFER_SIZE_def vfb_groups_def)

lemma mset_concat_update:
  "i < length xss \<Longrightarrow> mset (concat (xss[i := ys])) + mset (xss ! i) = mset (concat xss) + mset ys"
proof (induction xss arbitrary: i)
  case (Cons xs xss)
  then show ?case by (cases i) (auto simp: ac_simps)
qed simp

lemma vfb_add_inv:
  assumes "vfb_inv b"
  shows "vfb_inv (vfb_add gid p b) \<and> mset (vfb_groups (vfb_add gid p b)) = add_mset gid (mset (vfb_groups b))"
proof -
  let ?i = "(m_currentList b + p) mod 256"
  have i: "?i < length (buffer b)" using assms by (simp add: vfb_inv_def)
  have m: "mset (concat ((buffer b)[?i := buffer b ! ?i @ [gid]])) = add_mset gid (mset (concat (buffer b)))"
    using mset_concat_update [OF i, of "buffer b ! ?i @ [gid]"] by simp
  then have "length (concat ((buffer b)[?i := buffer b ! ?i @ [gid]])) = Suc (length (concat (buffer b)))"
    by (metis size_add_mset size_mset)
  then show ?thesis using assms m
    by (simp add: vfb_inv_def vfb_add_def vfb_groups_def VARFREQ_CIRCULAR_BUFFER_SIZE_def Let_def)
qed

lemma vfb_seek_step:
  "d < 256 \<Longrightarrow> buf ! ((cur + d) mod 256) \<noteq> [] \<Longrightarrow> (\<forall>d'<d. buf ! ((cur + d') mod 256) = []) \<Longrightarrow>
   cur < 256 \<Longrightarrow> vfb_seek buf cur = Some ((cur + d) mod 256)"
proof (induction d arbitrary: cur)
  case 0
  then show ?case by (subst vfb_seek.simps) simp
next
  case (Suc d)
  have "buf ! cur = []" using Suc.prems(3) [rule_format, of 0] Suc.prems(4) by simp
  moreover have "vfb_seek buf ((cur + 1) mod 256) = Some (((cur + 1) mod 256 + d) mod 256)"
  proof (rule Suc.IH)
    show "buf ! (((cur + 1) mod 256 + d) mod 256) \<noteq> []" using Suc.prems(2) by (simp add: mod_add_left_eq)
    show "\<forall>d'<d. buf ! (((cur + 1) mod 256 + d') mod 256) = []"
      using Suc.prems(3) by (auto simp: mod_add_left_eq dest: spec [of _ "Suc _"])
  qed (use Suc.prems in auto)
  ultimately show ?case
    by (subst vfb_seek.simps) (simp add: VARFREQ_CIRCULAR_BUFFER_SIZE_def mod_add_left_eq)
qed

lemma vfb_first_nonempty:
  assumes inv: "vfb_inv b" and ne: "vfb_m_size b \<noteq> 0"
  shows "\<exists>d<256. buffer b ! ((m_currentList b + d) mod 256) \<noteq> [] \<and>
           (\<forall>d'<d. buffer b ! ((m_currentList b + d') mod 256) = [])"
proof -
  let ?P = "\<lambda>d. d < 256 \<and> buffer b ! ((m_currentList b + d) mod 256) \<noteq> []"
  have "\<exists>xs\<in>set (buffer b). xs \<noteq> []" using inv ne by (auto simp: vfb_inv_def)
  then obtain i where i: "i < 256" "buffer b ! i \<noteq> []"
    using inv by (auto simp: vfb_inv_def in_set_conv_nth)
  have "(m_currentList b + (i + 256 - m_currentList b) mod 256) mod 256 = i"
    using i(1) inv by (simp add: mod_add_right_eq vfb_inv_def)
  then have "?P ((i + 256 - m_currentList b) mod 256)" using i by simp
  then have "?P (Least ?P)" "\<forall>d'<Least ?P. \<not> ?P d'" by (rule LeastI, use not_less_Least in blast)
  then show ?thesis by (intro exI [of _ "Least ?P"]) auto
qed

lemma vfb_get_next_spec:
  assumes inv: "vfb_inv b" and ne: "vfb_m_size b \<noteq> 0"
  shows "\<exists>d gid b'. d < 256 \<and> vfb_get_next b = Some (gid, b') \<and> vfb_inv b' \<and>
    m_currentList b' = (m_currentList b + d) mod 256 \<and>
    gid = hd (buffer b ! m_currentList b') \<and> buffer b ! m_currentList b' \<noteq> [] \<and>
    (\<forall>d'<d. buffer b ! ((m_currentList b + d') mod 256) = []) \<and>
    buffer b' = (buffer b)[m_currentList b' := tl (buffer b ! m_currentList b')] \<and>
    mset (vfb_groups b) = add_mset gid (mset (vfb_groups b'))"
proof -
  obtain d where d: "d < 256" "buffer b ! ((m_currentList b + d) mod 256) \<noteq> []"
    "\<forall>d'<d. buffer b ! ((m_currentList b + d') mod 256) = []"
    using vfb_first_nonempty [OF assms] by blast
  define cur where "cur = (m_currentList b + d) mod 256"
  let ?b' = "b\<lparr>buffer := (buffer b)[cur := tl (buffer b ! cur)], m_currentList := cur,
      vfb_m_size := vfb_m_size b - 1\<rparr>"
  have cur: "cur < length (buffer b)" "cur < 256" using inv by (simp_all add: vfb_inv_def cur_def)
  obtain g gs where g: "buffer b ! cur = g # gs" using d(2) by (cases "buffer b ! cur") (auto simp: cur_def)
  have "vfb_seek (buffer b) (m_currentList b) = Some cur"
    unfolding cur_def using inv d by (intro vfb_seek_step) (simp_all add: vfb_inv_def)
  then have n: "vfb_get_next b = Some (g, ?b')" using ne g by (simp add: vfb_get_next_def)
  have m: "mset (concat (buffer b)) = add_mset g (mset (concat ((buffer b)[cur := gs])))"
    using mset_concat_update [OF cur(1), of gs] g by simp
  then have "length (concat (buffer b)) = Suc (length (concat ((buffer b)[cur := gs])))"
    by (metis size_add_mset size_mset)
  then have "vfb_inv ?b'" using inv cur g by (simp add: vfb_inv_def)
  then show ?thesis using n d m g cur_def
    by (intro exI [of _ d] exI [of _ g] exI [of _ ?b']) (simp add: vfb_groups_def)
qed

text \<open>
  A group of queue priority 0 that is put back as soon as it was taken out stays in the current
  list, so the buffer never moves on to another list.
\<close>

fun vfb_rotate :: "nat \<Rightarrow> VariableFrequencyBuffer \<Rightarrow> (GroupID list \<times> VariableFrequencyBuffer) option" where
  "vfb_rotate 0 b = Some ([], b)"
| "vfb_rotate (Suc n) b =
     (case vfb_get_next b of
        None \<Rightarrow> None
      | Some (gid, b1) \<Rightarrow>
          (case vfb_rotate n (vfb_add gid 0 b1) of
             None \<Rightarrow> None
           | Some (gids, b2) \<Rightarrow> Some (gid # gids, b2)))"

lemma vfb_rotate_step:
  assumes inv: "vfb_inv b" and ne: "buffer b ! m_currentList b = g # gs"
  shows "\<exists>b1. vfb_get_next b = Some (g, b1) \<and> vfb_inv (vfb_add g 0 b1) \<and>
    m_currentList (vfb_add g 0 b1) = m_currentList b \<and>
    buffer (vfb_add g 0 b1) = (buffer b)[m_currentList b := gs @ [g]]"
proof -
  have c: "m_currentList b < 256" "length (buffer b) = 256" using inv by (simp_all add: vfb_inv_def)
  then have "g # gs \<in> set (buffer b)" using nth_mem [of "m_currentList b" "buffer b"] ne by simp
  then have "vfb_m_size b \<noteq> 0" using inv by (auto simp: vfb_inv_def)
  from vfb_get_next_spec [OF inv this] obtain d gid b1 where s: "vfb_get_next b = Some (gid, b1)" "vfb_inv b1"
    "m_currentList b1 = (m_currentList b + d) mod 256" "gid = hd (buffer b ! m_currentList b1)"
    "\<forall>d'<d. buffer b ! ((m_currentList b + d') mod 256) = []"
    "buffer b1 = (buffer b)[m_currentList b1 := tl (buffer b ! m_currentList b1)]" by blast
  have "d = 0" using s(5) [rule_format, of 0] ne c by auto
  then have e: "m_currentList b1 = m_currentList b" "gid = g" using s(3,4) c ne by auto
  then show ?thesis using s(1,2,6) e ne c vfb_add_inv [OF s(2), of g 0]
    by (simp add: vfb_add_def VARFREQ_CIRCULAR_BUFFER_SIZE_def Let_def)
qed

lemma vfb_rotate_stays:
  assumes "vfb_inv b" "buffer b ! m_currentList b \<noteq> []"
  shows "\<exists>gids b'. vfb_rotate n b = Some (gids, b') \<and> vfb_inv b' \<and> m_currentList b' = m_currentList b \<and>
    set gids \<subseteq> set (buffer b ! m_currentList b) \<and>
    buffer b' = (buffer b)[m_currentList b := rotate n (buffer b ! m_currentList b)]"
  using assms
proof (induction n arbitrary: b)
  case (Suc n)
  obtain g gs where g: "buffer b ! m_currentList b = g # gs" using Suc.prems(2) by (cases "buffer b ! m_currentList b") auto
  have c: "m_currentList b < length (buffer b)" using Suc.prems(1) by (simp add: vfb_inv_def)
  obtain b1 where b1: "vfb_get_next b = Some (g, b1)" "vfb_inv (vfb_add g 0 b1)"
    "m_currentList (vfb_add g 0 b1) = m_currentList b"
    "buffer (vfb_add g 0 b1) = (buffer b)[m_currentList b := gs @ [g]]"
    using vfb_rotate_step [OF Suc.prems(1) g] by blast
  then obtain gids b' where "vfb_rotate n (vfb_add g 0 b1) = Some (gids, b')" "vfb_inv b'"
    "m_currentList b' = m_currentList b" "set gids \<subseteq> set (gs @ [g])"
    "buffer b' = (buffer b)[m_currentList b := rotate n (gs @ [g])]"
    using Suc.IH [OF b1(2)] c by auto
  then show ?case using b1 g by (auto simp: rotate1_rotate_swap)
qed simp

end
