(* ===== verification/Task_Manager.thy ===== *)
theory Task_Manager
  imports Scheduler Page_Tables "HOL-Library.Signed_Division"
begin

text \<open>
  Tasks, groups and the task manager: \<open>Kernel/Tasks/Task.h\<close>, \<open>TaskManager.h\<close>, \<open>TaskManager.cpp\<close> and the
  part of \<open>MasterScheduler.cpp\<close> that works on them. The manager's two hash maps are maps from
  identifiers to the objects they point to, as the theory on hash maps justifies; looking up an
  identifier that is not there is the fault \<^const>\<open>None\<close>. Locks are taken and released within the
  operations; one processor runs with interrupts disabled in between, so that each operation is one
  step. Switching stacks and loading \<open>CR3\<close> are not modelled; \<open>now\<close> is the value of
  \<open>time_since_boot()\<close> at the call.
\<close>

subsection \<open>State\<close>

datatype State = NOT_STARTED | READY | WAIT

record Task =
  t_tid :: TaskID
  t_priority :: int
  t_state :: State
  t_groupId :: GroupID
  t_blockFlag :: bool
  t_tlTable :: u64
  t_entryPoint :: u64
  t_launchParam :: u64
  t_kstack :: u64

record Group =
  g_groupId :: GroupID
  g_priority :: int
  g_scheduled :: bool
  g_readyTasks :: "TaskID list"

record SleepingTask =
  st_tid :: TaskID
  st_wakeTime :: nat

definition SleepingTask_gt :: "SleepingTask \<Rightarrow> SleepingTask \<Rightarrow> bool" where
  "SleepingTask_gt a b \<longleftrightarrow> st_wakeTime a > st_wakeTime b"

interpretation sleepers: queue_order SleepingTask_gt
  by unfold_locales (auto simp: SleepingTask_gt_def)

record MasterScheduler =
  m_queue0 :: "TaskPriorityItem list"
  m_queue1 :: "TaskPriorityItem list"
  m_queue2 :: VariableFrequencyBuffer
  m_groupSliceStartTime :: nat
  m_groupSliceEndTime :: nat

definition fixedTimeslice :: nat where "fixedTimeslice = 15"

record TaskManager =
  m_isActive :: bool
  m_schedulerChangingTask :: bool
  m_taskCount :: nat
  m_groupCount :: nat
  m_currentTask :: TaskID
  m_taskHashmap :: "TaskID \<rightharpoonup> Task"
  m_groupHashmap :: "GroupID \<rightharpoonup> Group"
  m_sleepingTasks :: "SleepingTask list"
  m_scheduler :: MasterScheduler

record TaskDescriptor =
  td_addressSpace :: u64
  td_entryPoint :: u64
  td_launchParam :: u64
  td_taskPriority :: int
  td_groupId :: GroupID

definition get_task_from_tid :: "TaskID \<Rightarrow> TaskManager \<Rightarrow> Task option" where
  "get_task_from_tid tid s = m_taskHashmap s tid"

definition get_group_from_gid :: "GroupID \<Rightarrow> TaskManager \<Rightarrow> Group option" where
  "get_group_from_gid gid s = m_groupHashmap s gid"

definition get_current_task :: "TaskManager \<Rightarrow> Task option" where
  "get_current_task s = (if m_currentTask s \<noteq> 0 then get_task_from_tid (m_currentTask s) s else None)"

definition set_task :: "TaskID \<Rightarrow> Task \<Rightarrow> TaskManager \<Rightarrow> TaskManager" where
  "set_task tid t s = s\<lparr>m_taskHashmap := (m_taskHashmap s)(tid \<mapsto> t)\<rparr>"

definition set_group :: "GroupID \<Rightarrow> Group \<Rightarrow> TaskManager \<Rightarrow> TaskManager" where
  "set_group gid g s = s\<lparr>m_groupHashmap := (m_groupHashmap s)(gid \<mapsto> g)\<rparr>"

subsection \<open>The master scheduler\<close>

definition add_group_to_queue :: "GroupID \<Rightarrow> TaskManager \<Rightarrow> TaskManager option" where
  "add_group_to_queue gid s =
     (case get_group_from_gid gid s of
        None \<Rightarrow> None
      | Some grp \<Rightarrow>
          let s = set_group gid (grp\<lparr>g_scheduled := True\<rparr>) s;
              priority = g_priority grp;
              queue = priority sdiv 256;
              queuePriority = priority smod 256;
              sch = m_scheduler s;
              item = \<lparr>pi_groupId = gid, pi_priority = queuePriority\<rparr>
          in Some (s\<lparr>m_scheduler :=
               (if queue = 0 then sch\<lparr>m_queue0 := queue_push TaskPriorityItem_gt item (m_queue0 sch)\<rparr>
                else if queue = 1 then sch\<lparr>m_queue1 := queue_push TaskPriorityItem_gt item (m_queue1 sch)\<rparr>
                else if queue = 2 then sch\<lparr>m_queue2 := vfb_add gid (nat queuePriority) (m_queue2 sch)\<rparr>
                else sch)\<rparr>))"

definition schedule_group :: "GroupID \<Rightarrow> TaskManager \<Rightarrow> TaskManager option" where
  "schedule_group gid s = add_group_to_queue gid s"

definition deschedule_current_task :: "TaskManager \<Rightarrow> TaskManager" where
  "deschedule_current_task s = s"

text \<open>
  The first half of \<open>get_next_task\<close> looks at the group of the current task: it returns the thread
  whose turn it is while the group has time left, and otherwise says how the group leaves the
  processor. The second half starts a new slice with the next group of the queues.
\<close>

definition next_in_slice :: "nat \<Rightarrow> TaskManager \<Rightarrow> (TaskID option \<times> TaskManager) option" where
  "next_in_slice now s =
     (if m_currentTask s = 0 then Some (None, s)
      else case get_current_task s of
        None \<Rightarrow> None
      | Some currentTask \<Rightarrow>
          (case get_group_from_gid (t_groupId currentTask) s of
             None \<Rightarrow> None
           | Some grp \<Rightarrow>
               let ready = g_readyTasks grp; sch = m_scheduler s
               in if length ready > 0
                  then if now < m_groupSliceEndTime sch
                       then let sliceTime = m_groupSliceEndTime sch - m_groupSliceStartTime sch;
                                taskNum = ((now - m_groupSliceStartTime sch) * length ready) div sliceTime
                            in if taskNum < length ready then Some (Some (ready ! taskNum), s) else None
                       else (case add_group_to_queue (t_groupId currentTask) s of
                               None \<Rightarrow> None | Some s \<Rightarrow> Some (None, s))
                  else Some (None, set_group (t_groupId currentTask) (grp\<lparr>g_scheduled := False\<rparr>) s)))"

definition take_group :: "MasterScheduler \<Rightarrow> (GroupID \<times> MasterScheduler) option" where
  "take_group sch =
     (case m_queue0 sch of
        i # _ \<Rightarrow> Some (pi_groupId i, sch\<lparr>m_queue0 := queue_pop (m_queue0 sch)\<rparr>)
      | [] \<Rightarrow>
          (case m_queue1 sch of
             i # _ \<Rightarrow> Some (pi_groupId i, sch\<lparr>m_queue1 := queue_pop (m_queue1 sch)\<rparr>)
           | [] \<Rightarrow>
               if vfb_m_size (m_queue2 sch) \<noteq> 0
               then (case vfb_get_next (m_queue2 sch) of
                       None \<Rightarrow> None | Some (gid, b) \<Rightarrow> Some (gid, sch\<lparr>m_queue2 := b\<rparr>))
               else Some (0, sch)))"

definition start_slice :: "nat \<Rightarrow> TaskManager \<Rightarrow> (TaskID \<times> TaskManager) option" where
  "start_slice now s =
     (let sch = (m_scheduler s)\<lparr>m_groupSliceStartTime := now, m_groupSliceEndTime := now + fixedTimeslice\<rparr>
      in case take_group sch of
           None \<Rightarrow> None
         | Some (gid, sch) \<Rightarrow>
             let s = s\<lparr>m_scheduler := sch\<rparr>
             in if gid \<noteq> 0
                then (case get_group_from_gid gid s of
                        None \<Rightarrow> None
                      | Some grp \<Rightarrow>
                          (case g_readyTasks grp of [] \<Rightarrow> None | t # _ \<Rightarrow> Some (t, s)))
                else Some (0, s))"

definition get_next_task :: "nat \<Rightarrow> TaskManager \<Rightarrow> (TaskID \<times> TaskManager) option" where
  "get_next_task now s =
     (case next_in_slice now s of
        None \<Rightarrow> None
      | Some (Some tid, s) \<Rightarrow> Some (tid, s)
      | Some (None, s) \<Rightarrow> start_slice now s)"

subsection \<open>Blocking and waking\<close>

definition unblock :: "TaskID \<Rightarrow> TaskManager \<Rightarrow> TaskManager option" where
  "unblock tid s =
     (case get_task_from_tid tid s of
        None \<Rightarrow> None
      | Some task \<Rightarrow>
          if t_state task = READY then Some (set_task tid (task\<lparr>t_blockFlag := False\<rparr>) s)
          else let s = set_task tid (task\<lparr>t_blockFlag := False, t_state := READY\<rparr>) s
               in case get_group_from_gid (t_groupId task) s of
                    None \<Rightarrow> None
                  | Some grp \<Rightarrow>
                      let s = set_group (t_groupId task) (grp\<lparr>g_readyTasks := g_readyTasks grp @ [tid]\<rparr>) s
                      in if \<not> g_scheduled grp then schedule_group (t_groupId task) s else Some s)"

definition lockless_unblock :: "TaskID \<Rightarrow> TaskManager \<Rightarrow> TaskManager option" where
  "lockless_unblock tid s =
     (case get_task_from_tid tid s of
        None \<Rightarrow> None
      | Some task \<Rightarrow>
          if t_state task = READY then Some (set_task tid (task\<lparr>t_blockFlag := False\<rparr>) s)
          else let s = set_task tid (task\<lparr>t_blockFlag := False, t_state := READY\<rparr>) s
               in case get_group_from_gid (t_groupId task) s of
                    None \<Rightarrow> None
                  | Some grp \<Rightarrow>
                      let s = set_group (t_groupId task) (grp\<lparr>g_readyTasks := g_readyTasks grp @ [tid]\<rparr>) s
                      in if \<not> g_scheduled grp then schedule_group (t_groupId task) s else Some s)"

fun wake_sleepers :: "nat \<Rightarrow> SleepingTask list \<Rightarrow> TaskManager \<Rightarrow> TaskManager option" where
  "wake_sleepers now [] s = Some (s\<lparr>m_sleepingTasks := []\<rparr>)"
| "wake_sleepers now (task # rest) s =
     (if now \<ge> st_wakeTime task
      then case lockless_unblock (st_tid task) (s\<lparr>m_sleepingTasks := rest\<rparr>) of
             None \<Rightarrow> None | Some s \<Rightarrow> wake_sleepers now rest s
      else Some (s\<lparr>m_sleepingTasks := task # rest\<rparr>))"

text \<open>
  \<open>refresh\<close> wakes the sleepers whose time has come and lets the scheduler choose. When nothing is
  runnable the processor halts inside \<open>refresh\<close> with no current task and \<open>m_schedulerChangingTask\<close>
  set; \<open>resume_idle\<close> is one more turn of that loop after an interrupt.
\<close>

definition enter_task :: "TaskManager \<Rightarrow> TaskManager option" where
  "enter_task s =
     (case get_current_task s of
        None \<Rightarrow> None
      | Some task \<Rightarrow>
          Some (if t_state task = NOT_STARTED
                then set_task (m_currentTask s) (task\<lparr>t_state := READY\<rparr>) s else s))"

definition choose_task :: "nat \<Rightarrow> TaskManager \<Rightarrow> TaskManager option" where
  "choose_task now s =
     (case get_next_task now s of
        None \<Rightarrow> None
      | Some (tid, s) \<Rightarrow>
          let s = s\<lparr>m_currentTask := tid\<rparr>
          in if tid = 0 then Some s else enter_task (s\<lparr>m_schedulerChangingTask := False\<rparr>))"

definition refresh :: "nat \<Rightarrow> TaskManager \<Rightarrow> TaskManager option" where
  "refresh now s =
     (case wake_sleepers now (m_sleepingTasks s) s of
        None \<Rightarrow> None
      | Some s \<Rightarrow>
          if m_schedulerChangingTask s then Some s
          else choose_task now (s\<lparr>m_schedulerChangingTask := True\<rparr>))"

definition resume_idle :: "nat \<Rightarrow> TaskManager \<Rightarrow> TaskManager option" where
  "resume_idle now s = choose_task now s"

definition begin_tasks :: "nat \<Rightarrow> TaskManager \<Rightarrow> TaskManager option" where
  "begin_tasks now s = refresh now (s\<lparr>m_isActive := True\<rparr>)"

definition about_to_block :: "TaskManager \<Rightarrow> TaskManager option" where
  "about_to_block s =
     (case get_current_task s of
        None \<Rightarrow> None
      | Some task \<Rightarrow> Some (set_task (m_currentTask s) (task\<lparr>t_blockFlag := True\<rparr>) s))"

definition block :: "nat \<Rightarrow> TaskManager \<Rightarrow> TaskManager option" where
  "block now s =
     (case get_current_task s of
        None \<Rightarrow> None
      | Some task \<Rightarrow>
          if \<not> t_blockFlag task then Some s
          else let s = set_task (m_currentTask s) (task\<lparr>t_state := WAIT\<rparr>) s
               in case get_group_from_gid (t_groupId task) s of
                    None \<Rightarrow> None
                  | Some grp \<Rightarrow>
                      let s = set_group (t_groupId task)
                                (grp\<lparr>g_readyTasks := remove1 (t_tid task) (g_readyTasks grp)\<rparr>) s
                      in refresh now (deschedule_current_task s))"

definition sleep_until :: "nat \<Rightarrow> nat \<Rightarrow> TaskManager \<Rightarrow> TaskManager option" where
  "sleep_until now time s =
     (if now \<ge> time then Some s
      else case about_to_block s of
             None \<Rightarrow> None
           | Some s \<Rightarrow>
               block now (s\<lparr>m_sleepingTasks := queue_push SleepingTask_gt
                  \<lparr>st_tid = m_currentTask s, st_wakeTime = time\<rparr> (m_sleepingTasks s)\<rparr>))"

definition sleep_for :: "nat \<Rightarrow> nat \<Rightarrow> TaskManager \<Rightarrow> TaskManager option" where
  "sleep_for now duration s = sleep_until now (now + duration) s"

definition terminate_task :: "nat \<Rightarrow> TaskManager \<Rightarrow> TaskManager option" where
  "terminate_task now s = (case about_to_block s of None \<Rightarrow> None | Some s \<Rightarrow> block now s)"

subsection \<open>Launching tasks\<close>

definition START_OF_PROCESS_KSTACKS :: u64 where
  "START_OF_PROCESS_KSTACKS = 0xFFFFCF8000000000"

definition STACK_PAGES :: nat where "STACK_PAGES = 32"

definition stack_bottom :: "TaskID \<Rightarrow> u64" where
  "stack_bottom tid = START_OF_PROCESS_KSTACKS + 0x20000 * of_nat tid"

fun alloc_stack :: "nat list \<Rightarrow> u64 \<Rightarrow> Manager \<Rightarrow> Manager kresult" where
  "alloc_stack [] bottom m = Inr m"
| "alloc_stack (k # ks) bottom m =
     (case alloc_page \<lparr>alloc_virtualAddress = bottom + of_nat k * 0x1000, alloc_allowWrite = True,
               alloc_allowUserAccess = False\<rparr> (m_virtualAddressSpace m) m of
        Inl e \<Rightarrow> Inl e | Inr m \<Rightarrow> alloc_stack ks bottom m)"

text \<open>
  \<open>initialise\<close> allocates the stack that the processor switches to in a system call. Setting up the
  system call registers and the task state segment is not modelled.
\<close>

definition initialise_kstacks :: "Manager \<Rightarrow> Manager kresult" where
  "initialise_kstacks m = alloc_stack [0..<STACK_PAGES] START_OF_PROCESS_KSTACKS m"

definition share_page :: "u64 \<Rightarrow> u64 \<Rightarrow> Manager \<Rightarrow> Manager kresult" where
  "share_page v tlTable m =
     request_virtual_map \<lparr>physicalAddress = get_physical_address m (m_virtualAddressSpace m) v,
        virtualAddress = v, allowWrite = True, allowUserAccess = False, pageSize = PAGE_4KiB\<rparr> tlTable m"

fun map_stacks :: "nat list \<Rightarrow> u64 \<Rightarrow> u64 \<Rightarrow> Manager \<Rightarrow> Manager kresult" where
  "map_stacks [] bottom tlTable m = Inr m"
| "map_stacks (k # ks) bottom tlTable m =
     (case share_page (START_OF_PROCESS_KSTACKS + of_nat k * 0x1000) tlTable m of
        Inl e \<Rightarrow> Inl e
      | Inr m \<Rightarrow>
          (case share_page (bottom + of_nat k * 0x1000) tlTable m of
             Inl e \<Rightarrow> Inl e | Inr m \<Rightarrow> map_stacks ks bottom tlTable m))"

definition prepare_stacks :: "TaskID \<Rightarrow> u64 \<Rightarrow> Manager \<Rightarrow> Manager kresult" where
  "prepare_stacks tid tlTable m =
     (case alloc_stack [0..<STACK_PAGES] (stack_bottom tid) m of
        Inl e \<Rightarrow> Inl e | Inr m \<Rightarrow> map_stacks [0..<STACK_PAGES] (stack_bottom tid) tlTable m)"

definition register_task :: "Task \<Rightarrow> TaskManager \<Rightarrow> (TaskID \<times> TaskManager) option" where
  "register_task task s =
     (let fresh = (t_groupId task = 0);
          gid = (if fresh then m_groupCount s + 1 else t_groupId task);
          s = (if fresh
               then set_group gid \<lparr>g_groupId = gid, g_priority = t_priority task, g_scheduled = False,
                      g_readyTasks = []\<rparr> (s\<lparr>m_groupCount := m_groupCount s + 1\<rparr>)
               else s);
          task = task\<lparr>t_groupId := gid\<rparr>
      in case get_group_from_gid gid s of
           None \<Rightarrow> None
         | Some grp \<Rightarrow>
             let s = set_group gid (grp\<lparr>g_readyTasks := g_readyTasks grp @ [t_tid task]\<rparr>) s;
                 s = set_task (t_tid task) task s
             in (case (if \<not> g_scheduled grp then schedule_group gid s else Some s) of
                   None \<Rightarrow> None | Some s \<Rightarrow> Some (t_tid task, s)))"

text \<open>
  The outer \<^const>\<open>Inl\<close> is a panic of the memory manager, the inner \<^const>\<open>None\<close> an access to a group that
  does not exist.
\<close>

definition launch_task ::
  "TaskDescriptor \<Rightarrow> Manager \<Rightarrow> TaskManager \<Rightarrow> (Manager \<times> (TaskID \<times> TaskManager) option) kresult" where
  "launch_task desc m s =
     (let s = s\<lparr>m_taskCount := m_taskCount s + 1\<rparr>;
          tid = m_taskCount s
      in case prepare_stacks tid (td_addressSpace desc) m of
           Inl e \<Rightarrow> Inl e
         | Inr m \<Rightarrow>
             Inr (m, register_task \<lparr>t_tid = tid, t_priority = td_taskPriority desc, t_state = NOT_STARTED,
                 t_groupId = td_groupId desc, t_blockFlag = False, t_tlTable = td_addressSpace desc,
                 t_entryPoint = td_entryPoint desc, t_launchParam = td_launchParam desc,
                 t_kstack = stack_bottom tid + 0x20000\<rparr> s))"

definition launch_kernel_process ::
  "u64 \<Rightarrow> u64 \<Rightarrow> int \<Rightarrow> Manager \<Rightarrow> TaskManager \<Rightarrow> (Manager \<times> (TaskID \<times> TaskManager) option) kresult" where
  "launch_kernel_process entryPoint launchParam taskPriority m s =
     launch_task \<lparr>td_addressSpace = m_virtualAddressSpace m, td_entryPoint = entryPoint,
       td_launchParam = launchParam, td_taskPriority = taskPriority, td_groupId = 0\<rparr> m s"

definition launch_thread ::
  "u64 \<Rightarrow> u64 \<Rightarrow> Manager \<Rightarrow> TaskManager \<Rightarrow> (Manager \<times> (TaskID \<times> TaskManager) option) kresult" where
  "launch_thread entryPoint launchParam m s =
     (case get_current_task s of
        None \<Rightarrow> Inr (m, None)
      | Some currentTask \<Rightarrow>
          launch_task \<lparr>td_addressSpace = t_tlTable currentTask, td_entryPoint = entryPoint,
            td_launchParam = launchParam, td_taskPriority = 512, td_groupId = t_groupId currentTask\<rparr> m s)"

end
