(* ===== verification/Task_Scheduling.thy ===== *)
theory Task_Scheduling
  imports Task_Manager
begin

text \<open>
  The invariant of the task manager and the scheduler, and that every operation keeps it and does not
  fault: a ready task is always in the ready list of its group, and a group with ready
  tasks is either the group of the current task or in the scheduler's queues, exactly once. The flag
  \<open>x\<close> of the invariant adds what holds as long as no task is woken before it first ran: then a ready list
  has each ready task exactly once and nothing else.
\<close>

subsection \<open>The invariant\<close>

definition sched_queue :: "MasterScheduler \<Rightarrow> GroupID multiset" where
  "sched_queue sch = mset (map pi_groupId (m_queue0 sch)) + mset (map pi_groupId (m_queue1 sch)) +
     mset (vfb_groups (m_queue2 sch))"

definition sched_ok :: "MasterScheduler \<Rightarrow> bool" where
  "sched_ok sch \<longleftrightarrow> vfb_inv (m_queue2 sch) \<and>
     queue_sorted TaskPriorityItem_gt (m_queue0 sch) \<and> queue_sorted TaskPriorityItem_gt (m_queue1 sch) \<and>
     (m_groupSliceEndTime sch = m_groupSliceStartTime sch + 15 \<or> m_groupSliceEndTime sch = 0)"

definition tasks_ok :: "(TaskID \<rightharpoonup> Task) \<Rightarrow> (GroupID \<rightharpoonup> Group) \<Rightarrow> nat \<Rightarrow> bool" where
  "tasks_ok T G n \<longleftrightarrow> (\<forall>tid t. T tid = Some t \<longrightarrow>
     tid \<noteq> 0 \<and> tid \<le> n \<and> t_tid t = tid \<and> (\<exists>g. G (t_groupId t) = Some g))"

definition is_ready :: "(TaskID \<rightharpoonup> Task) \<Rightarrow> GroupID \<Rightarrow> TaskID \<Rightarrow> bool" where
  "is_ready T gid tid \<longleftrightarrow> (\<exists>t. T tid = Some t \<and> t_groupId t = gid \<and> t_state t \<noteq> WAIT)"

definition listed :: "bool \<Rightarrow> (TaskID \<rightharpoonup> Task) \<Rightarrow> GroupID \<Rightarrow> TaskID \<Rightarrow> bool" where
  "listed x T gid tid \<longleftrightarrow> (\<exists>t. T tid = Some t \<and> t_groupId t = gid \<and> (x \<longrightarrow> t_state t \<noteq> WAIT))"

definition groups_ok :: "bool \<Rightarrow> (TaskID \<rightharpoonup> Task) \<Rightarrow> (GroupID \<rightharpoonup> Group) \<Rightarrow> nat \<Rightarrow> bool" where
  "groups_ok x T G n \<longleftrightarrow> (\<forall>gid g. G gid = Some g \<longrightarrow>
     gid \<noteq> 0 \<and> gid \<le> n \<and> 0 \<le> g_priority g \<and> g_priority g < 768 \<and>
     (\<forall>tid. is_ready T gid tid \<longrightarrow> tid \<in> set (g_readyTasks g)) \<and>
     (\<forall>tid\<in>set (g_readyTasks g). listed x T gid tid) \<and> (x \<longrightarrow> distinct (g_readyTasks g)))"

definition queue_ok :: "GroupID option \<Rightarrow> (GroupID \<rightharpoonup> Group) \<Rightarrow> GroupID multiset \<Rightarrow> bool" where
  "queue_ok c G Q \<longleftrightarrow>
     (\<forall>gid. gid \<in># Q \<longrightarrow> count Q gid = 1 \<and> c \<noteq> Some gid \<and>
        (\<exists>g. G gid = Some g \<and> g_scheduled g \<and> g_readyTasks g \<noteq> [])) \<and>
     (\<forall>gid g. G gid = Some g \<longrightarrow>
        (g_scheduled g \<longrightarrow> gid \<in># Q \<or> c = Some gid) \<and> (g_readyTasks g \<noteq> [] \<longrightarrow> g_scheduled g)) \<and>
     (\<forall>gid. c = Some gid \<longrightarrow> (\<exists>g. G gid = Some g \<and> g_scheduled g))"

definition current_group :: "TaskManager \<Rightarrow> GroupID option" where
  "current_group s =
     (if m_currentTask s = 0 then None else map_option t_groupId (m_taskHashmap s (m_currentTask s)))"

definition sleepers_ok :: "(TaskID \<rightharpoonup> Task) \<Rightarrow> SleepingTask list \<Rightarrow> bool" where
  "sleepers_ok T ss \<longleftrightarrow> (\<forall>st\<in>set ss. \<exists>t. T (st_tid st) = Some t \<and> t_state t \<noteq> NOT_STARTED)"

definition tm_base :: "bool \<Rightarrow> GroupID option \<Rightarrow> TaskManager \<Rightarrow> bool" where
  "tm_base x c s \<longleftrightarrow> sched_ok (m_scheduler s) \<and>
     tasks_ok (m_taskHashmap s) (m_groupHashmap s) (m_taskCount s) \<and>
     groups_ok x (m_taskHashmap s) (m_groupHashmap s) (m_groupCount s) \<and>
     queue_ok c (m_groupHashmap s) (sched_queue (m_scheduler s)) \<and>
     sleepers_ok (m_taskHashmap s) (m_sleepingTasks s)"

definition tm_inv :: "bool \<Rightarrow> TaskManager \<Rightarrow> bool" where
  "tm_inv x s \<longleftrightarrow> tm_base x (current_group s) s \<and>
     (m_currentTask s \<noteq> 0 \<longrightarrow> \<not> m_schedulerChangingTask s \<and>
        (\<exists>t. m_taskHashmap s (m_currentTask s) = Some t \<and> t_state t \<noteq> NOT_STARTED \<and> (x \<longrightarrow> t_state t \<noteq> WAIT)))"

subsection \<open>Changes of the queues\<close>

lemma queue_ok_enqueue:
  assumes "queue_ok c G Q" "\<And>g. G gid = Some g \<Longrightarrow> \<not> g_scheduled g"
    and "g_scheduled g'" "g_readyTasks g' \<noteq> []"
  shows "queue_ok c (G(gid \<mapsto> g')) (add_mset gid Q)"
proof -
  have "gid \<notin># Q" "c \<noteq> Some gid" using assms(1,2) unfolding queue_ok_def by blast+
  then show ?thesis using assms unfolding queue_ok_def by (auto simp: not_in_iff)
qed

lemma queue_ok_update:
  assumes "queue_ok c G Q" "G gid = Some g" "g_scheduled g" "g_scheduled g'"
    and "gid \<in># Q \<Longrightarrow> g_readyTasks g' \<noteq> []"
  shows "queue_ok c (G(gid \<mapsto> g')) Q"
  using assms unfolding queue_ok_def by auto

lemma queue_ok_expire:
  assumes "queue_ok (Some gid) G Q" "g_scheduled g'" "g_readyTasks g' \<noteq> []"
  shows "queue_ok None (G(gid \<mapsto> g')) (add_mset gid Q)"
proof -
  have "gid \<notin># Q" using assms(1) unfolding queue_ok_def by blast
  then show ?thesis using assms unfolding queue_ok_def by (auto simp: not_in_iff)
qed

lemma queue_ok_leave:
  assumes "queue_ok (Some gid) G Q" "\<not> g_scheduled g'" "g_readyTasks g' = []"
  shows "queue_ok None (G(gid \<mapsto> g')) Q"
proof -
  have "gid \<notin># Q" using assms(1) unfolding queue_ok_def by blast
  then show ?thesis using assms unfolding queue_ok_def by auto
qed

lemma queue_ok_take:
  assumes "queue_ok None G (add_mset gid Q)"
  shows "queue_ok (Some gid) G Q" "\<exists>g. G gid = Some g \<and> g_scheduled g \<and> g_readyTasks g \<noteq> []"
proof -
  have q: "x = gid \<or> x \<in># Q \<Longrightarrow> count (add_mset gid Q) x = 1 \<and>
      (\<exists>g. G x = Some g \<and> g_scheduled g \<and> g_readyTasks g \<noteq> [])" for x
    using assms unfolding queue_ok_def by auto
  have g: "G x = Some g \<Longrightarrow> (g_scheduled g \<longrightarrow> x = gid \<or> x \<in># Q) \<and> (g_readyTasks g \<noteq> [] \<longrightarrow> g_scheduled g)" for x g
    using assms unfolding queue_ok_def by auto
  have n: "gid \<notin># Q" using q [of gid] by (simp add: not_in_iff)
  then have "count Q x = 1" if "x \<in># Q" for x using q [of x] that by (auto split: if_splits)
  then show "queue_ok (Some gid) G Q" unfolding queue_ok_def using q g n by blast
  show "\<exists>g. G gid = Some g \<and> g_scheduled g \<and> g_readyTasks g \<noteq> []" using q by blast
qed

lemma sdiv_cases:
  assumes "0 \<le> p" "p < (768 :: int)"
  shows "p sdiv 256 = 0 \<or> p sdiv 256 = 1 \<or> p sdiv 256 = 2"
proof -
  have "p sdiv 256 = p div 256" using assms by (cases "p = 0") (simp_all add: signed_divide_int_def)
  then show ?thesis using assms by auto
qed

lemma add_group_to_queue_spec:
  assumes g: "m_groupHashmap s gid = Some g" and p: "0 \<le> g_priority g" "g_priority g < 768"
    and ok: "sched_ok (m_scheduler s)"
  shows "\<exists>sch. add_group_to_queue gid s =
      Some (s\<lparr>m_groupHashmap := (m_groupHashmap s)(gid \<mapsto> g\<lparr>g_scheduled := True\<rparr>), m_scheduler := sch\<rparr>) \<and>
    sched_ok sch \<and> sched_queue sch = add_mset gid (sched_queue (m_scheduler s))"
proof -
  let ?sch = "m_scheduler s" and ?p = "g_priority g smod 256"
  let ?item = "\<lparr>pi_groupId = gid, pi_priority = ?p\<rparr>"
  define sch where "sch = (if g_priority g sdiv 256 = 0
      then ?sch\<lparr>m_queue0 := queue_push TaskPriorityItem_gt ?item (m_queue0 ?sch)\<rparr>
      else if g_priority g sdiv 256 = 1
      then ?sch\<lparr>m_queue1 := queue_push TaskPriorityItem_gt ?item (m_queue1 ?sch)\<rparr>
      else if g_priority g sdiv 256 = 2
      then ?sch\<lparr>m_queue2 := vfb_add gid (nat ?p) (m_queue2 ?sch)\<rparr> else ?sch)"
  have "add_group_to_queue gid s =
      Some (s\<lparr>m_groupHashmap := (m_groupHashmap s)(gid \<mapsto> g\<lparr>g_scheduled := True\<rparr>), m_scheduler := sch\<rparr>)"
    using g by (simp add: add_group_to_queue_def get_group_from_gid_def set_group_def Let_def sch_def)
  moreover have "sched_ok sch \<and> sched_queue sch = add_mset gid (sched_queue ?sch)"
    using sdiv_cases [OF p]
  proof (elim disjE)
    assume "g_priority g sdiv 256 = 0"
    then show ?thesis using ok by (simp add: sch_def sched_ok_def sched_queue_def prio.push_sorted)
  next
    assume "g_priority g sdiv 256 = 1"
    then show ?thesis using ok by (simp add: sch_def sched_ok_def sched_queue_def prio.push_sorted)
  next
    assume "g_priority g sdiv 256 = 2"
    then show ?thesis using ok vfb_add_inv [of "m_queue2 ?sch" gid "nat ?p"]
      by (simp add: sch_def sched_ok_def sched_queue_def)
  qed
  ultimately show ?thesis by blast
qed

subsection \<open>Choosing the next task\<close>

lemmas lookup_defs = get_task_from_tid_def get_group_from_gid_def get_current_task_def set_task_def set_group_def

lemma tm_baseD:
  assumes "tm_base x c s"
  shows "sched_ok (m_scheduler s)" "tasks_ok (m_taskHashmap s) (m_groupHashmap s) (m_taskCount s)"
    "groups_ok x (m_taskHashmap s) (m_groupHashmap s) (m_groupCount s)"
    "queue_ok c (m_groupHashmap s) (sched_queue (m_scheduler s))"
    "sleepers_ok (m_taskHashmap s) (m_sleepingTasks s)"
  using assms by (simp_all add: tm_base_def)

lemma groups_okD:
  assumes "groups_ok x T G n" "G gid = Some g"
  shows "gid \<noteq> 0" "0 \<le> g_priority g" "g_priority g < 768"
    "is_ready T gid tid \<Longrightarrow> tid \<in> set (g_readyTasks g)" "tid \<in> set (g_readyTasks g) \<Longrightarrow> listed x T gid tid"
    "x \<Longrightarrow> distinct (g_readyTasks g)"
  using assms unfolding groups_ok_def by blast+

lemma listed_ready: "x \<Longrightarrow> listed x T gid tid \<longleftrightarrow> is_ready T gid tid"
  by (auto simp: listed_def is_ready_def)

lemma groups_ok_flag:
  "groups_ok x T G n \<Longrightarrow> G gid = Some g \<Longrightarrow> g_readyTasks g' = g_readyTasks g \<Longrightarrow>
   g_priority g' = g_priority g \<Longrightarrow> groups_ok x T (G(gid \<mapsto> g')) n"
  unfolding groups_ok_def by auto

lemma tasks_ok_group: "tasks_ok T G n \<Longrightarrow> tasks_ok T (G(gid \<mapsto> g')) n"
  unfolding tasks_ok_def by auto

lemma slice_index:
  assumes "sched_ok sch" "now < m_groupSliceEndTime sch" "0 < n"
  shows "((now - m_groupSliceStartTime sch) * n) div (m_groupSliceEndTime sch - m_groupSliceStartTime sch) < n"
proof -
  have "m_groupSliceEndTime sch = m_groupSliceStartTime sch + 15" using assms(1,2) by (auto simp: sched_ok_def)
  then have "now - m_groupSliceStartTime sch < 15" "m_groupSliceEndTime sch - m_groupSliceStartTime sch = 15"
    using assms(2) by auto
  then show ?thesis using assms(3) by (simp add: less_mult_imp_div_less mult.commute)
qed

lemma next_in_slice_spec:
  assumes base: "tm_base x (current_group s) s"
    and cur: "m_currentTask s \<noteq> 0 \<longrightarrow> (\<exists>t. m_taskHashmap s (m_currentTask s) = Some t)"
  shows "(\<exists>s'. next_in_slice now s = Some (None, s') \<and> tm_base x None s' \<and>
            m_taskHashmap s' = m_taskHashmap s \<and> m_sleepingTasks s' = m_sleepingTasks s) \<or>
         (\<exists>tid gid. next_in_slice now s = Some (Some tid, s) \<and> current_group s = Some gid \<and>
            listed x (m_taskHashmap s) gid tid)"
proof (cases "m_currentTask s = 0")
  case True
  then show ?thesis using base by (simp add: next_in_slice_def current_group_def)
next
  case False
  note b = tm_baseD [OF base]
  obtain t where t: "m_taskHashmap s (m_currentTask s) = Some t" using cur False by blast
  obtain g where g: "m_groupHashmap s (t_groupId t) = Some g" using b(2) t unfolding tasks_ok_def by blast
  have c: "current_group s = Some (t_groupId t)" using t False by (simp add: current_group_def)
  note q = b(4) [unfolded c]
  show ?thesis
  proof (cases "g_readyTasks g = []")
    case True
    let ?s = "set_group (t_groupId t) (g\<lparr>g_scheduled := False\<rparr>) s"
    have "next_in_slice now s = Some (None, ?s)"
      using False t g True by (simp add: next_in_slice_def lookup_defs)
    moreover have "tm_base x None ?s"
      using b(1,5) tasks_ok_group [OF b(2)] groups_ok_flag [OF b(3) g] queue_ok_leave [OF q] True
      by (simp add: tm_base_def lookup_defs)
    ultimately show ?thesis by (intro disjI1) (simp add: lookup_defs)
  next
    case ne: False
    show ?thesis
    proof (cases "now < m_groupSliceEndTime (m_scheduler s)")
      case True
      let ?i = "((now - m_groupSliceStartTime (m_scheduler s)) * length (g_readyTasks g)) div
        (m_groupSliceEndTime (m_scheduler s) - m_groupSliceStartTime (m_scheduler s))"
      have i: "?i < length (g_readyTasks g)" using slice_index [OF b(1) True] ne by simp
      then have "listed x (m_taskHashmap s) (t_groupId t) (g_readyTasks g ! ?i)"
        using groups_okD(5) [OF b(3) g] nth_mem by blast
      moreover have "next_in_slice now s = Some (Some (g_readyTasks g ! ?i), s)"
        using False t g ne True i by (simp add: next_in_slice_def lookup_defs Let_def)
      ultimately show ?thesis using c by blast
    next
      case expired: False
      obtain sch where a: "add_group_to_queue (t_groupId t) s =
          Some (s\<lparr>m_groupHashmap := (m_groupHashmap s)(t_groupId t \<mapsto> g\<lparr>g_scheduled := True\<rparr>), m_scheduler := sch\<rparr>)"
        "sched_ok sch" "sched_queue sch = add_mset (t_groupId t) (sched_queue (m_scheduler s))"
        using add_group_to_queue_spec [OF g groups_okD(2,3) [OF b(3) g] b(1)] by blast
      have "tm_base x None (s\<lparr>m_groupHashmap := (m_groupHashmap s)(t_groupId t \<mapsto> g\<lparr>g_scheduled := True\<rparr>), m_scheduler := sch\<rparr>)"
        using a(2,3) b(5) tasks_ok_group [OF b(2)] groups_ok_flag [OF b(3) g] queue_ok_expire [OF q] ne
        by (simp add: tm_base_def)
      then show ?thesis using False t g ne expired a(1)
        by (intro disjI1) (simp add: next_in_slice_def lookup_defs Let_def)
    qed
  qed
qed

lemma take_group_spec:
  assumes "sched_ok sch"
  shows "(take_group sch = Some (0, sch) \<and> sched_queue sch = {#}) \<or>
    (\<exists>gid sch'. take_group sch = Some (gid, sch') \<and> sched_queue sch = add_mset gid (sched_queue sch') \<and> sched_ok sch')"
proof (cases "m_queue0 sch")
  case (Cons i q)
  then show ?thesis using assms prio.pop_sorted [of "m_queue0 sch"]
    by (intro disjI2) (simp add: take_group_def sched_queue_def sched_ok_def)
next
  case Nil
  note 0 = Nil
  show ?thesis
  proof (cases "m_queue1 sch")
    case (Cons i q)
    then show ?thesis using 0 assms prio.pop_sorted [of "m_queue1 sch"]
      by (intro disjI2) (simp add: take_group_def sched_queue_def sched_ok_def)
  next
    case Nil
    have v: "vfb_inv (m_queue2 sch)" using assms by (simp add: sched_ok_def)
    show ?thesis
    proof (cases "vfb_m_size (m_queue2 sch) = 0")
      case True
      then show ?thesis using 0 Nil v by (simp add: take_group_def sched_queue_def vfb_inv_def vfb_groups_def)
    next
      case False
      then obtain gid b where "vfb_get_next (m_queue2 sch) = Some (gid, b)" "vfb_inv b"
        "mset (vfb_groups (m_queue2 sch)) = add_mset gid (mset (vfb_groups b))"
        using vfb_get_next_spec [OF v] by blast
      then show ?thesis using 0 Nil False assms
        by (intro disjI2) (simp add: take_group_def sched_queue_def sched_ok_def)
    qed
  qed
qed

lemma start_slice_spec:
  assumes base: "tm_base x None s"
  shows "\<exists>tid s'. start_slice now s = Some (tid, s') \<and> m_taskHashmap s' = m_taskHashmap s \<and>
    m_sleepingTasks s' = m_sleepingTasks s \<and>
    (if tid = 0 then tm_base x None s' \<and> sched_queue (m_scheduler s') = {#}
     else \<exists>gid. tm_base x (Some gid) s' \<and> listed x (m_taskHashmap s') gid tid)"
proof -
  note b = tm_baseD [OF base]
  let ?sch = "(m_scheduler s)\<lparr>m_groupSliceStartTime := now, m_groupSliceEndTime := now + fixedTimeslice\<rparr>"
  have ok: "sched_ok ?sch" "sched_queue ?sch = sched_queue (m_scheduler s)"
    using b(1) by (simp_all add: sched_ok_def fixedTimeslice_def sched_queue_def)
  from take_group_spec [OF ok(1)] show ?thesis
  proof (elim disjE exE conjE)
    assume "take_group ?sch = Some (0, ?sch)" "sched_queue ?sch = {#}"
    then show ?thesis using b ok by (simp add: start_slice_def tm_base_def)
  next
    fix gid sch'
    assume t: "take_group ?sch = Some (gid, sch')" "sched_queue ?sch = add_mset gid (sched_queue sch')" "sched_ok sch'"
    have q: "queue_ok None (m_groupHashmap s) (add_mset gid (sched_queue sch'))" using b(4) ok(2) t(2) by simp
    obtain g where g: "m_groupHashmap s gid = Some g" "g_readyTasks g \<noteq> []" using queue_ok_take(2) [OF q] by blast
    obtain tid ts where r: "g_readyTasks g = tid # ts" using g(2) by (cases "g_readyTasks g") auto
    have rdy: "listed x (m_taskHashmap s) gid tid" using groups_okD(5) [OF b(3) g(1), of tid] r by simp
    then have "tid \<noteq> 0" using b(2) by (auto simp: listed_def tasks_ok_def)
    moreover have "start_slice now s = Some (tid, s\<lparr>m_scheduler := sch'\<rparr>)"
      using t(1) g(1) r groups_okD(1) [OF b(3) g(1)] by (simp add: start_slice_def lookup_defs)
    moreover have "tm_base x (Some gid) (s\<lparr>m_scheduler := sch'\<rparr>)"
      using b t(3) queue_ok_take(1) [OF q] by (simp add: tm_base_def)
    ultimately show ?thesis using rdy by auto
  qed
qed

text \<open>A change of a task that leaves its group and whether it waits as they are.\<close>

lemma is_ready_update:
  "T tid = Some t \<Longrightarrow> t_groupId t' = t_groupId t \<Longrightarrow> (t_state t' = WAIT \<longleftrightarrow> t_state t = WAIT) \<Longrightarrow>
   is_ready (T(tid \<mapsto> t')) = is_ready T"
  by (auto simp: is_ready_def fun_eq_iff)

lemma listed_update:
  "T tid = Some t \<Longrightarrow> t_groupId t' = t_groupId t \<Longrightarrow> (t_state t' = WAIT \<longleftrightarrow> t_state t = WAIT) \<Longrightarrow>
   listed x (T(tid \<mapsto> t')) = listed x T"
  by (auto simp: listed_def fun_eq_iff)

lemma tm_base_task:
  assumes base: "tm_base x c s" and t: "m_taskHashmap s tid = Some t"
    and t': "t_tid t' = t_tid t" "t_groupId t' = t_groupId t" "t_state t' = WAIT \<longleftrightarrow> t_state t = WAIT"
      "t_state t' = NOT_STARTED \<Longrightarrow> t_state t = NOT_STARTED"
  shows "tm_base x c (set_task tid t' s)"
proof -
  note b = tm_baseD [OF base]
  have "tasks_ok ((m_taskHashmap s)(tid \<mapsto> t')) (m_groupHashmap s) (m_taskCount s)"
    using b(2) t t' unfolding tasks_ok_def by auto
  moreover have "groups_ok x ((m_taskHashmap s)(tid \<mapsto> t')) (m_groupHashmap s) (m_groupCount s)"
    using b(3) unfolding groups_ok_def is_ready_update [of "m_taskHashmap s", OF t t'(2,3)]
      listed_update [of "m_taskHashmap s", OF t t'(2,3)] .
  moreover have "sleepers_ok ((m_taskHashmap s)(tid \<mapsto> t')) (m_sleepingTasks s)"
    using b(5) t t'(4) unfolding sleepers_ok_def by fastforce
  ultimately show ?thesis using b by (simp add: tm_base_def set_task_def)
qed

lemma get_next_task_spec:
  assumes base: "tm_base x (current_group s) s"
    and cur: "m_currentTask s \<noteq> 0 \<longrightarrow> (\<exists>t. m_taskHashmap s (m_currentTask s) = Some t)"
  shows "\<exists>tid s'. get_next_task now s = Some (tid, s') \<and> m_taskHashmap s' = m_taskHashmap s \<and>
    m_sleepingTasks s' = m_sleepingTasks s \<and>
    (if tid = 0 then tm_base x None s' \<and> sched_queue (m_scheduler s') = {#}
     else \<exists>gid. tm_base x (Some gid) s' \<and> listed x (m_taskHashmap s') gid tid)"
  using next_in_slice_spec [OF assms, of now]
proof (elim disjE exE conjE)
  fix s1 assume s1: "next_in_slice now s = Some (None, s1)" "tm_base x None s1"
    "m_taskHashmap s1 = m_taskHashmap s" "m_sleepingTasks s1 = m_sleepingTasks s"
  show ?thesis using start_slice_spec [OF s1(2), of now] s1 by (simp add: get_next_task_def)
next
  fix tid gid assume t: "next_in_slice now s = Some (Some tid, s)" "current_group s = Some gid"
    "listed x (m_taskHashmap s) gid tid"
  then have "tid \<noteq> 0" using tm_baseD(2) [OF base] by (auto simp: listed_def tasks_ok_def)
  then show ?thesis using t base by (auto simp: get_next_task_def)
qed

lemma choose_task_spec:
  assumes base: "tm_base x (current_group s) s"
    and cur: "m_currentTask s \<noteq> 0 \<longrightarrow> (\<exists>t. m_taskHashmap s (m_currentTask s) = Some t)"
  shows "\<exists>s'. choose_task now s = Some s' \<and> tm_inv x s' \<and>
    (m_currentTask s' = 0 \<longrightarrow> (\<forall>gid tid. \<not> is_ready (m_taskHashmap s') gid tid))"
proof -
  obtain tid s1 where n: "get_next_task now s = Some (tid, s1)" and
    r: "if tid = 0 then tm_base x None s1 \<and> sched_queue (m_scheduler s1) = {#}
     else \<exists>gid. tm_base x (Some gid) s1 \<and> listed x (m_taskHashmap s1) gid tid"
    using get_next_task_spec [OF assms] by blast
  show ?thesis
  proof (cases "tid = 0")
    case True
    let ?s = "s1\<lparr>m_currentTask := 0\<rparr>"
    have b: "tm_base x None s1" "sched_queue (m_scheduler s1) = {#}" using r True by auto
    have "\<not> is_ready (m_taskHashmap s1) gid t" for gid t
    proof
      assume a: "is_ready (m_taskHashmap s1) gid t"
      then obtain g where g: "m_groupHashmap s1 gid = Some g"
        using tm_baseD(2) [OF b(1)] unfolding is_ready_def tasks_ok_def by blast
      then have "g_readyTasks g \<noteq> []" using groups_okD(4) [OF tm_baseD(3) [OF b(1)] g a] by auto
      then show False using g tm_baseD(4) [OF b(1)] b(2) unfolding queue_ok_def by auto
    qed
    moreover have "tm_inv x ?s" using b(1) by (simp add: tm_inv_def current_group_def tm_base_def)
    ultimately show ?thesis using n True by (simp add: choose_task_def)
  next
    case False
    then obtain gid where b: "tm_base x (Some gid) s1" "listed x (m_taskHashmap s1) gid tid" using r by auto
    then obtain t where t: "m_taskHashmap s1 tid = Some t" "t_groupId t = gid" "x \<longrightarrow> t_state t \<noteq> WAIT"
      by (auto simp: listed_def)
    let ?s = "s1\<lparr>m_currentTask := tid, m_schedulerChangingTask := False\<rparr>"
    have b': "tm_base x (Some gid) ?s" using b(1) by (simp add: tm_base_def)
    show ?thesis
    proof (cases "t_state t = NOT_STARTED")
      case True
      let ?s' = "set_task tid (t\<lparr>t_state := READY\<rparr>) ?s"
      have "tm_base x (Some gid) ?s'" by (rule tm_base_task [OF b']) (use t True in auto)
      then have "tm_inv x ?s'" using t False by (simp add: tm_inv_def current_group_def set_task_def)
      then show ?thesis using n False t True
        by (simp add: choose_task_def enter_task_def lookup_defs)
    next
      case launched: False
      then have "tm_inv x ?s" using t False b' by (simp add: tm_inv_def current_group_def)
      then show ?thesis using n False t launched by (simp add: choose_task_def enter_task_def lookup_defs)
    qed
  qed
qed

subsection \<open>Waking and blocking\<close>

lemma groups_ok_change:
  assumes ok: "groups_ok x T G n" and g: "G gid = Some g" "g_priority g' = g_priority g"
    and others: "\<And>y h u. y \<noteq> gid \<Longrightarrow> G y = Some h \<Longrightarrow> is_ready T' y u \<Longrightarrow> u \<in> set (g_readyTasks h)"
      "\<And>y h u. y \<noteq> gid \<Longrightarrow> G y = Some h \<Longrightarrow> u \<in> set (g_readyTasks h) \<Longrightarrow> listed x T' y u"
    and own: "\<And>u. is_ready T' gid u \<Longrightarrow> u \<in> set (g_readyTasks g')"
      "\<And>u. u \<in> set (g_readyTasks g') \<Longrightarrow> listed x T' gid u" "x \<Longrightarrow> distinct (g_readyTasks g')"
  shows "groups_ok x T' (G(gid \<mapsto> g')) n"
  using ok g(1) unfolding groups_ok_def
  by (simp add: g(2)) (metis others own)

lemma groups_ok_wake:
  assumes ok: "groups_ok x T G n" and t: "T tid = Some t" "x \<longrightarrow> t_state t = WAIT" "G (t_groupId t) = Some g"
    and t': "t_groupId t' = t_groupId t" "t_state t' = READY"
    and g': "g_readyTasks g' = g_readyTasks g @ [tid]" "g_priority g' = g_priority g"
  shows "groups_ok x (T(tid \<mapsto> t')) (G(t_groupId t \<mapsto> g')) n"
proof -
  have x: "x \<Longrightarrow> tid \<notin> set (g_readyTasks g)" using groups_okD(5) [OF ok t(3), of tid] t(1,2) by (auto simp: listed_def)
  have r: "is_ready (T(tid \<mapsto> t')) y u \<Longrightarrow> is_ready T y u \<or> (u = tid \<and> y = t_groupId t)" for y u
    using t(1) t' by (auto simp: is_ready_def split: if_splits)
  have l: "listed x T y u \<Longrightarrow> listed x (T(tid \<mapsto> t')) y u" "listed x (T(tid \<mapsto> t')) (t_groupId t) tid" for y u
    using t(1) t' by (auto simp: listed_def)
  show ?thesis
  proof (rule groups_ok_change [OF ok t(3) g'(2)])
    show "u \<in> set (g_readyTasks h)" if "y \<noteq> t_groupId t" "G y = Some h" "is_ready (T(tid \<mapsto> t')) y u" for y h u
      using r [OF that(3)] groups_okD(4) [OF ok that(2)] that(1) by blast
    show "u \<in> set (g_readyTasks g')" if "is_ready (T(tid \<mapsto> t')) (t_groupId t) u" for u
      using r [OF that] groups_okD(4) [OF ok t(3), of u] by (auto simp: g'(1))
    show "listed x (T(tid \<mapsto> t')) (t_groupId t) u" if "u \<in> set (g_readyTasks g')" for u
      using that l groups_okD(5) [OF ok t(3), of u] by (auto simp: g'(1))
    show "distinct (g_readyTasks g')" if x using x [OF that] groups_okD(6) [OF ok t(3) that] by (simp add: g'(1))
  qed (use l groups_okD(5) [OF ok] in blast)
qed

lemma unblock_spec:
  assumes base: "tm_base x c s" and t: "m_taskHashmap s tid = Some t" "x \<longrightarrow> t_state t \<noteq> NOT_STARTED"
  shows "\<exists>s' t'. unblock tid s = Some s' \<and> tm_base x c s' \<and> m_currentTask s' = m_currentTask s \<and>
    m_schedulerChangingTask s' = m_schedulerChangingTask s \<and> m_sleepingTasks s' = m_sleepingTasks s \<and>
    m_taskHashmap s' = (m_taskHashmap s)(tid \<mapsto> t') \<and> t_groupId t' = t_groupId t \<and>
    t_state t' = READY \<and> \<not> t_blockFlag t'"
proof (cases "t_state t = READY")
  case True
  let ?t = "t\<lparr>t_blockFlag := False\<rparr>"
  have "tm_base x c (set_task tid ?t s)" by (rule tm_base_task [OF base t(1)]) auto
  then show ?thesis using t True
    by (intro exI [of _ "set_task tid ?t s"] exI [of _ ?t]) (simp add: unblock_def lookup_defs)
next
  case False
  then have w: "x \<longrightarrow> t_state t = WAIT" using t(2) by (cases "t_state t") auto
  note b = tm_baseD [OF base]
  obtain g where g: "m_groupHashmap s (t_groupId t) = Some g" using b(2) t(1) unfolding tasks_ok_def by blast
  let ?t = "t\<lparr>t_blockFlag := False, t_state := READY\<rparr>" and ?gid = "t_groupId t"
  let ?g = "g\<lparr>g_readyTasks := g_readyTasks g @ [tid]\<rparr>"
  let ?T = "(m_taskHashmap s)(tid \<mapsto> ?t)"
  let ?s = "set_group ?gid ?g (set_task tid ?t s)"
  have T: "tasks_ok ?T G (m_taskCount s)" if "tasks_ok (m_taskHashmap s) G (m_taskCount s)" for G
    using that t(1) unfolding tasks_ok_def by auto
  have S: "sleepers_ok ?T (m_sleepingTasks s)" using b(5) unfolding sleepers_ok_def by auto
  show ?thesis
  proof (cases "g_scheduled g")
    case True
    have "queue_ok c ((m_groupHashmap s)(?gid \<mapsto> ?g)) (sched_queue (m_scheduler s))"
      by (rule queue_ok_update [OF b(4) g True]) (use True in auto)
    then have "tm_base x c ?s"
      using b(1) S T [OF tasks_ok_group [OF b(2)]] groups_ok_wake [OF b(3) t(1) w g, of ?t ?g]
      by (simp add: tm_base_def lookup_defs)
    moreover have "unblock tid s = Some ?s" using t(1) g False True by (simp add: unblock_def lookup_defs Let_def)
    ultimately show ?thesis by (intro exI [of _ ?s] exI [of _ ?t]) (simp add: lookup_defs)
  next
    case idle: False
    have g': "m_groupHashmap ?s ?gid = Some ?g" by (simp add: lookup_defs)
    have p: "0 \<le> g_priority ?g" "g_priority ?g < 768" using groups_okD(2,3) [OF b(3) g] by auto
    obtain sch where a: "add_group_to_queue ?gid ?s =
        Some (?s\<lparr>m_groupHashmap := (m_groupHashmap ?s)(?gid \<mapsto> ?g\<lparr>g_scheduled := True\<rparr>), m_scheduler := sch\<rparr>)"
      "sched_ok sch" "sched_queue sch = add_mset ?gid (sched_queue (m_scheduler ?s))"
      using add_group_to_queue_spec [OF g' p] b(1) by (auto simp: lookup_defs)
    let ?g2 = "?g\<lparr>g_scheduled := True\<rparr>"
    have q: "queue_ok c ((m_groupHashmap s)(?gid \<mapsto> ?g2)) (add_mset ?gid (sched_queue (m_scheduler s)))"
      by (rule queue_ok_enqueue [OF b(4)]) (use g idle in auto)
    have sch: "sched_queue sch = add_mset ?gid (sched_queue (m_scheduler s))" using a(3) by (simp add: lookup_defs)
    let ?s' = "?s\<lparr>m_groupHashmap := (m_groupHashmap ?s)(?gid \<mapsto> ?g2), m_scheduler := sch\<rparr>"
    have "tm_base x c ?s'"
      using a(2) q S T [OF tasks_ok_group [OF b(2)]] groups_ok_wake [OF b(3) t(1) w g, of ?t ?g2]
      by (simp add: tm_base_def lookup_defs sch)
    moreover have "unblock tid s = Some ?s'"
      using t(1) g False idle a(1) by (simp add: unblock_def lookup_defs Let_def schedule_group_def)
    ultimately show ?thesis by (intro exI [of _ ?s'] exI [of _ ?t]) (simp add: lookup_defs)
  qed
qed

lemma lockless_unblock_eq: "lockless_unblock = unblock"
  by (simp add: fun_eq_iff lockless_unblock_def unblock_def)

text \<open>What waking tasks leaves alone: no task disappears, changes its group or stops being ready.\<close>

definition wakes :: "TaskManager \<Rightarrow> TaskManager \<Rightarrow> bool" where
  "wakes s s' \<longleftrightarrow> m_currentTask s' = m_currentTask s \<and>
     m_schedulerChangingTask s' = m_schedulerChangingTask s \<and>
     (\<forall>tid t. m_taskHashmap s tid = Some t \<longrightarrow>
        (\<exists>t'. m_taskHashmap s' tid = Some t' \<and> t_groupId t' = t_groupId t \<and>
              (t_state t' = t_state t \<or> t_state t' = READY)))"

lemma wakes_refl [simp]: "wakes s s" "wakes s (s\<lparr>m_sleepingTasks := ss\<rparr>)" "wakes (s\<lparr>m_sleepingTasks := ss\<rparr>) s' \<longleftrightarrow> wakes s s'"
  by (auto simp: wakes_def)

lemma wakes_trans: "wakes s s1 \<Longrightarrow> wakes s1 s2 \<Longrightarrow> wakes s s2"
  unfolding wakes_def by metis

lemma wakes_unblock:
  assumes "tm_base x c s" "m_taskHashmap s tid = Some t" "x \<longrightarrow> t_state t \<noteq> NOT_STARTED"
  shows "\<exists>s'. unblock tid s = Some s' \<and> tm_base x c s' \<and> wakes s s' \<and> m_sleepingTasks s' = m_sleepingTasks s"
  using unblock_spec [OF assms] assms(2) by (auto simp: wakes_def)

lemma wake_sleepers_spec:
  assumes "tm_base x c s" "m_sleepingTasks s = ss"
  shows "\<exists>s'. wake_sleepers now ss s = Some s' \<and> tm_base x c s' \<and> wakes s s' \<and>
    m_sleepingTasks s' = dropWhile (\<lambda>st. st_wakeTime st \<le> now) ss"
  using assms
proof (induction ss arbitrary: s)
  case Nil
  then show ?case by (auto simp: tm_base_def sleepers_ok_def)
next
  case (Cons st ss)
  have b: "tm_base x c (s\<lparr>m_sleepingTasks := ss\<rparr>)"
    using Cons.prems by (simp add: tm_base_def sleepers_ok_def)
  obtain t where t: "m_taskHashmap (s\<lparr>m_sleepingTasks := ss\<rparr>) (st_tid st) = Some t" "t_state t \<noteq> NOT_STARTED"
    using tm_baseD(5) [OF Cons.prems(1)] Cons.prems(2) by (auto simp: sleepers_ok_def)
  obtain s1 where s1: "unblock (st_tid st) (s\<lparr>m_sleepingTasks := ss\<rparr>) = Some s1" "tm_base x c s1" "wakes s s1"
    "m_sleepingTasks s1 = ss"
    using wakes_unblock [OF b t(1)] t(2) by auto
  have "tm_base x c (s\<lparr>m_sleepingTasks := st # ss\<rparr>)" using Cons.prems by (simp add: tm_base_def)
  then show ?case
    using s1 Cons.IH [OF s1(2,4)] Cons.prems by (auto simp: lockless_unblock_eq intro: wakes_trans)
qed

lemma current_group_wakes:
  assumes "wakes s s'" "m_currentTask s \<noteq> 0 \<longrightarrow> (\<exists>t. m_taskHashmap s (m_currentTask s) = Some t)"
  shows "current_group s' = current_group s"
    "m_currentTask s' \<noteq> 0 \<longrightarrow> (\<exists>t. m_taskHashmap s' (m_currentTask s') = Some t)"
proof -
  have c: "m_currentTask s' = m_currentTask s" using assms(1) by (simp add: wakes_def)
  have "\<exists>t t'. m_taskHashmap s (m_currentTask s) = Some t \<and> m_taskHashmap s' (m_currentTask s) = Some t' \<and>
      t_groupId t' = t_groupId t" if "m_currentTask s \<noteq> 0"
    using assms that unfolding wakes_def by blast
  then show "current_group s' = current_group s"
    "m_currentTask s' \<noteq> 0 \<longrightarrow> (\<exists>t. m_taskHashmap s' (m_currentTask s') = Some t)"
    by (auto simp: c current_group_def)
qed

lemma tm_base_other [simp]:
  "tm_base x c (s\<lparr>m_schedulerChangingTask := y\<rparr>) = tm_base x c s"
  "current_group (s\<lparr>m_schedulerChangingTask := y\<rparr>) = current_group s"
  "current_group (s\<lparr>m_sleepingTasks := ss\<rparr>) = current_group s"
  "current_group (s\<lparr>m_taskCount := n\<rparr>) = current_group s"
  "tm_base x c (s\<lparr>m_isActive := y\<rparr>) = tm_base x c s" "current_group (s\<lparr>m_isActive := y\<rparr>) = current_group s"
  by (simp_all add: tm_base_def current_group_def)

lemma refresh_spec:
  assumes base: "tm_base x (current_group s) s"
    and cur: "m_currentTask s \<noteq> 0 \<longrightarrow> (\<exists>t. m_taskHashmap s (m_currentTask s) = Some t)"
    and idle: "m_schedulerChangingTask s \<Longrightarrow> m_currentTask s = 0"
  shows "\<exists>s'. refresh now s = Some s' \<and> tm_inv x s' \<and>
    (\<not> m_schedulerChangingTask s \<longrightarrow> m_currentTask s' = 0 \<longrightarrow>
       (\<forall>gid tid. \<not> is_ready (m_taskHashmap s') gid tid))"
proof -
  obtain s1 where s1: "wake_sleepers now (m_sleepingTasks s) s = Some s1"
    "tm_base x (current_group s) s1" "wakes s s1"
    using wake_sleepers_spec [OF base refl] by blast
  note c = current_group_wakes [OF s1(3) cur]
  show ?thesis
  proof (cases "m_schedulerChangingTask s")
    case True
    then have "m_currentTask s1 = 0" "m_schedulerChangingTask s1" using idle s1(3) by (auto simp: wakes_def)
    then have "tm_inv x s1" "refresh now s = Some s1"
      using s1(1,2) c(1) by (auto simp: tm_inv_def refresh_def current_group_def)
    then show ?thesis using True by blast
  next
    case False
    let ?s = "s1\<lparr>m_schedulerChangingTask := True\<rparr>"
    have c1: "tm_base x (current_group ?s) ?s" using s1(2) c(1) by simp
    have c2: "m_currentTask ?s \<noteq> 0 \<longrightarrow> (\<exists>t. m_taskHashmap ?s (m_currentTask ?s) = Some t)"
      using c(2) by simp
    obtain s' where "choose_task now ?s = Some s'" "tm_inv x s'"
      "m_currentTask s' = 0 \<longrightarrow> (\<forall>gid tid. \<not> is_ready (m_taskHashmap s') gid tid)"
      using choose_task_spec [OF c1 c2, of now] by (elim exE conjE)
    moreover have "\<not> m_schedulerChangingTask s1" using False s1(3) by (simp add: wakes_def)
    ultimately show ?thesis using s1(1) by (auto simp: refresh_def)
  qed
qed

lemma groups_ok_wait:
  assumes ok: "groups_ok x T G n" and t: "T tid = Some t" "G (t_groupId t) = Some g"
    and t': "t_groupId t' = t_groupId t" "t_state t' = WAIT"
    and g': "g_readyTasks g' = remove1 tid (g_readyTasks g)" "g_priority g' = g_priority g"
  shows "groups_ok x (T(tid \<mapsto> t')) (G(t_groupId t \<mapsto> g')) n"
proof -
  have d: "x \<Longrightarrow> distinct (g_readyTasks g)" using groups_okD(6) [OF ok t(2)] .
  have r: "is_ready (T(tid \<mapsto> t')) gid u \<Longrightarrow> is_ready T gid u \<and> u \<noteq> tid" for gid u
    using t' by (auto simp: is_ready_def split: if_splits)
  have l: "listed x T gid u \<Longrightarrow> \<not> (x \<and> u = tid) \<Longrightarrow> listed x (T(tid \<mapsto> t')) gid u" for gid u
    using t(1) t' by (auto simp: listed_def)
  have own: "listed x T y tid \<Longrightarrow> y = t_groupId t" for y using t(1) by (simp add: listed_def)
  have l': "u \<in> set (remove1 tid (g_readyTasks g)) \<Longrightarrow> u \<in> set (g_readyTasks g) \<and> \<not> (x \<and> u = tid)" for u
    using set_remove1_subset [of tid "g_readyTasks g"] d by auto
  show ?thesis
  proof (rule groups_ok_change [OF ok t(2) g'(2)])
    show "listed x (T(tid \<mapsto> t')) y u" if "y \<noteq> t_groupId t" "G y = Some h" "u \<in> set (g_readyTasks h)" for y h u
      using l groups_okD(5) [OF ok that(2,3)] own that(1) by blast
    show "listed x (T(tid \<mapsto> t')) (t_groupId t) u" if "u \<in> set (g_readyTasks g')" for u
      using l l' groups_okD(5) [OF ok t(2)] that unfolding g'(1) by blast
    show "u \<in> set (g_readyTasks g')" if "is_ready (T(tid \<mapsto> t')) (t_groupId t) u" for u
      using r [OF that] groups_okD(4) [OF ok t(2), of u] unfolding g'(1) by simp
  qed (use r groups_okD(4) [OF ok] d g'(1) in auto)
qed

lemma block_spec:
  assumes inv: "tm_inv x s" and cur: "m_currentTask s \<noteq> 0"
  shows "\<exists>s'. block now s = Some s' \<and> tm_inv x s'"
proof -
  obtain t where t: "m_taskHashmap s (m_currentTask s) = Some t" "\<not> m_schedulerChangingTask s"
    using inv cur by (auto simp: tm_inv_def)
  have base: "tm_base x (current_group s) s" using inv by (simp add: tm_inv_def)
  note b = tm_baseD [OF base]
  have c: "current_group s = Some (t_groupId t)" using t cur by (simp add: current_group_def)
  obtain g where g: "m_groupHashmap s (t_groupId t) = Some g" "g_scheduled g"
    using b(4) c unfolding queue_ok_def by blast
  have tid: "t_tid t = m_currentTask s" using b(2) t(1) by (simp add: tasks_ok_def)
  show ?thesis
  proof (cases "t_blockFlag t")
    case False
    then show ?thesis using t cur inv by (simp add: block_def lookup_defs)
  next
    case True
    let ?t = "t\<lparr>t_state := WAIT\<rparr>" and ?g = "g\<lparr>g_readyTasks := remove1 (t_tid t) (g_readyTasks g)\<rparr>"
    let ?s = "set_group (t_groupId t) ?g (set_task (m_currentTask s) ?t s)"
    have "t_groupId t \<notin># sched_queue (m_scheduler s)" using b(4) c unfolding queue_ok_def by blast
    then have "queue_ok (current_group s) ((m_groupHashmap s)(t_groupId t \<mapsto> ?g)) (sched_queue (m_scheduler s))"
      by (intro queue_ok_update [OF b(4) g(1,2)]) (use g in auto)
    moreover have "tasks_ok ((m_taskHashmap s)(m_currentTask s \<mapsto> ?t)) ((m_groupHashmap s)(t_groupId t \<mapsto> ?g)) (m_taskCount s)"
      using tasks_ok_group [OF b(2)] t(1) unfolding tasks_ok_def by auto
    moreover have "groups_ok x ((m_taskHashmap s)(m_currentTask s \<mapsto> ?t)) ((m_groupHashmap s)(t_groupId t \<mapsto> ?g)) (m_groupCount s)"
      using groups_ok_wait [OF b(3) t(1) g(1), of ?t ?g] tid by simp
    moreover have "sleepers_ok ((m_taskHashmap s)(m_currentTask s \<mapsto> ?t)) (m_sleepingTasks s)"
      using b(5) unfolding sleepers_ok_def by auto
    ultimately have "tm_base x (current_group s) ?s" using b(1) by (simp add: tm_base_def lookup_defs)
    moreover have "current_group ?s = current_group s" using t by (simp add: current_group_def lookup_defs)
    ultimately have "tm_base x (current_group ?s) ?s" by simp
    then obtain s' where "refresh now ?s = Some s'" "tm_inv x s'"
      using refresh_spec [of x ?s now] t by (auto simp: lookup_defs)
    then show ?thesis using t g(1) True cur
      by (simp add: block_def deschedule_current_task_def lookup_defs Let_def)
  qed
qed

lemma tm_inv_task:
  assumes inv: "tm_inv x s" and cur: "m_currentTask s \<noteq> 0"
  shows "\<exists>t. m_taskHashmap s (m_currentTask s) = Some t \<and> t_state t \<noteq> NOT_STARTED \<and> (x \<longrightarrow> t_state t \<noteq> WAIT)"
  using assms by (simp add: tm_inv_def)

lemma about_to_block_spec:
  assumes inv: "tm_inv x s" and cur: "m_currentTask s \<noteq> 0"
  shows "\<exists>s' t. about_to_block s = Some s' \<and> tm_inv x s' \<and> m_currentTask s' = m_currentTask s \<and>
    m_taskHashmap s' (m_currentTask s) = Some t \<and> t_blockFlag t \<and> t_state t \<noteq> NOT_STARTED"
proof -
  obtain t where t: "m_taskHashmap s (m_currentTask s) = Some t" "t_state t \<noteq> NOT_STARTED"
    using tm_inv_task [OF assms] by blast
  let ?s = "set_task (m_currentTask s) (t\<lparr>t_blockFlag := True\<rparr>) s"
  have "tm_base x (current_group s) ?s"
    by (rule tm_base_task [of _ _ s "m_currentTask s" t]) (use inv t in \<open>auto simp: tm_inv_def\<close>)
  moreover have "current_group ?s = current_group s" using t by (simp add: current_group_def set_task_def)
  ultimately have "tm_inv x ?s" using inv t cur by (simp add: tm_inv_def set_task_def)
  then show ?thesis using t cur by (auto simp: about_to_block_def lookup_defs)
qed

lemma unblock_inv:
  assumes inv: "tm_inv x s" and t: "m_taskHashmap s tid = Some t" "x \<longrightarrow> t_state t \<noteq> NOT_STARTED"
  shows "\<exists>s'. unblock tid s = Some s' \<and> tm_inv x s' \<and> wakes s s'"
proof -
  have base: "tm_base x (current_group s) s" using inv by (simp add: tm_inv_def)
  obtain s' where s': "unblock tid s = Some s'" "tm_base x (current_group s) s'" "wakes s s'"
    using wakes_unblock [OF base t] by blast
  have cur: "m_currentTask s \<noteq> 0 \<longrightarrow> (\<exists>t. m_taskHashmap s (m_currentTask s) = Some t)"
    using inv by (auto simp: tm_inv_def)
  have "m_currentTask s' \<noteq> 0 \<longrightarrow> \<not> m_schedulerChangingTask s' \<and>
      (\<exists>t. m_taskHashmap s' (m_currentTask s') = Some t \<and> t_state t \<noteq> NOT_STARTED \<and> (x \<longrightarrow> t_state t \<noteq> WAIT))"
    using s'(3) inv unfolding wakes_def tm_inv_def by (metis State.distinct(1,5))
  then have "tm_inv x s'" using s'(2) current_group_wakes(1) [OF s'(3) cur] by (simp add: tm_inv_def)
  then show ?thesis using s' by blast
qed

lemma sleep_until_spec:
  assumes inv: "tm_inv x s" and cur: "m_currentTask s \<noteq> 0"
  shows "\<exists>s'. sleep_until now time s = Some s' \<and> tm_inv x s'"
proof (cases "now \<ge> time")
  case True
  then show ?thesis using inv by (simp add: sleep_until_def)
next
  case False
  obtain s1 t where s1: "about_to_block s = Some s1" "tm_inv x s1" "m_currentTask s1 = m_currentTask s"
    "m_taskHashmap s1 (m_currentTask s) = Some t" "t_state t \<noteq> NOT_STARTED"
    using about_to_block_spec [OF assms] by blast
  let ?s = "s1\<lparr>m_sleepingTasks := queue_push SleepingTask_gt
      \<lparr>st_tid = m_currentTask s1, st_wakeTime = time\<rparr> (m_sleepingTasks s1)\<rparr>"
  have "tm_inv x ?s" using s1 by (simp add: tm_inv_def tm_base_def sleepers_ok_def)
  then show ?thesis using block_spec [of x ?s now] s1 cur False by (simp add: sleep_until_def)
qed

subsection \<open>Launching tasks\<close>

lemma tasks_ok_mono: "tasks_ok T G n \<Longrightarrow> n \<le> m \<Longrightarrow> tasks_ok T G m"
  unfolding tasks_ok_def by fastforce

lemma groups_ok_launch:
  assumes ok: "groups_ok x T G n" and t: "T tid = None" "G gid = Some g" "t_groupId t' = gid" "t_state t' = NOT_STARTED"
    and g': "g_readyTasks g' = g_readyTasks g @ [tid]" "g_priority g' = g_priority g"
  shows "groups_ok x (T(tid \<mapsto> t')) (G(gid \<mapsto> g')) n"
proof -
  have n: "tid \<notin> set (g_readyTasks h)" if "G y = Some h" for y h using groups_okD(5) [OF ok that, of tid] t(1) by (auto simp: listed_def)
  have r: "is_ready (T(tid \<mapsto> t')) y u \<Longrightarrow> is_ready T y u \<or> (u = tid \<and> y = gid)" for y u
    using t by (auto simp: is_ready_def split: if_splits)
  have l: "listed x T y u \<Longrightarrow> listed x (T(tid \<mapsto> t')) y u" "listed x (T(tid \<mapsto> t')) gid tid" for y u
    using t by (auto simp: listed_def)
  show ?thesis
  proof (rule groups_ok_change [OF ok t(2) g'(2)])
    show "u \<in> set (g_readyTasks h)" if "y \<noteq> gid" "G y = Some h" "is_ready (T(tid \<mapsto> t')) y u" for y h u
      using r [OF that(3)] groups_okD(4) [OF ok that(2)] that(1) by blast
    show "u \<in> set (g_readyTasks g')" if "is_ready (T(tid \<mapsto> t')) (gid) u" for u
      using r [OF that] groups_okD(4) [OF ok t(2), of u] by (auto simp: g'(1))
    show "listed x (T(tid \<mapsto> t')) (gid) u" if "u \<in> set (g_readyTasks g')" for u
      using that l groups_okD(5) [OF ok t(2), of u] by (auto simp: g'(1))
    show "distinct (g_readyTasks g')" if x using n [OF t(2)] groups_okD(6) [OF ok t(2) that] by (simp add: g'(1))
  qed (use l groups_okD(5) [OF ok] in blast)
qed

lemma register_existing:
  assumes base: "tm_base x c s" and gid: "t_groupId task = gid" "m_groupHashmap s gid = Some g"
    and task: "m_taskHashmap s (t_tid task) = None" "t_tid task \<noteq> 0" "t_tid task \<le> m_taskCount s"
      "t_state task = NOT_STARTED"
  shows "\<exists>s'. register_task task s = Some (t_tid task, s') \<and> tm_base x c s' \<and>
    m_currentTask s' = m_currentTask s \<and> m_schedulerChangingTask s' = m_schedulerChangingTask s \<and>
    m_taskHashmap s' = (m_taskHashmap s)(t_tid task \<mapsto> task)"
proof -
  note b = tm_baseD [OF base]
  let ?tid = "t_tid task" and ?g = "g\<lparr>g_readyTasks := g_readyTasks g @ [t_tid task]\<rparr>"
  let ?T = "(m_taskHashmap s)(?tid \<mapsto> task)"
  let ?s = "set_task ?tid task (set_group gid ?g s)"
  have gid0: "gid \<noteq> 0" using groups_okD(1) [OF b(3) gid(2)] .
  have T: "tasks_ok ?T ((m_groupHashmap s)(gid \<mapsto> g')) (m_taskCount s)" for g'
    using tasks_ok_group [OF b(2)] gid task(2,3) unfolding tasks_ok_def by auto
  have S: "sleepers_ok ?T (m_sleepingTasks s)" using b(5) task(1) unfolding sleepers_ok_def by force
  have reg: "register_task task s = (case (if \<not> g_scheduled g then schedule_group gid ?s else Some ?s) of
      None \<Rightarrow> None | Some s \<Rightarrow> Some (?tid, s))"
  proof -
    have t: "task\<lparr>t_groupId := gid\<rparr> = task" using gid(1) by (cases task) simp
    show ?thesis using gid(2) gid0
      by (simp add: register_task_def lookup_defs Let_def gid(1) t split: option.split)
  qed
  show ?thesis
  proof (cases "g_scheduled g")
    case True
    have "queue_ok c ((m_groupHashmap s)(gid \<mapsto> ?g)) (sched_queue (m_scheduler s))"
      by (rule queue_ok_update [OF b(4) gid(2) True]) (use True in auto)
    then have "tm_base x c ?s"
      using b(1) S T groups_ok_launch [OF b(3) task(1) gid(2,1) task(4), of ?g]
      by (simp add: tm_base_def lookup_defs)
    then show ?thesis using reg True by (simp add: lookup_defs)
  next
    case False
    have g': "m_groupHashmap ?s gid = Some ?g" by (simp add: lookup_defs)
    have p: "0 \<le> g_priority ?g" "g_priority ?g < 768" using groups_okD(2,3) [OF b(3) gid(2)] by auto
    obtain sch where a: "add_group_to_queue gid ?s =
        Some (?s\<lparr>m_groupHashmap := (m_groupHashmap ?s)(gid \<mapsto> ?g\<lparr>g_scheduled := True\<rparr>), m_scheduler := sch\<rparr>)"
      "sched_ok sch" "sched_queue sch = add_mset gid (sched_queue (m_scheduler ?s))"
      using add_group_to_queue_spec [OF g' p] b(1) by (auto simp: lookup_defs)
    let ?g2 = "?g\<lparr>g_scheduled := True\<rparr>"
    have q: "queue_ok c ((m_groupHashmap s)(gid \<mapsto> ?g2)) (add_mset gid (sched_queue (m_scheduler s)))"
      by (rule queue_ok_enqueue [OF b(4)]) (use gid False in auto)
    have sch: "sched_queue sch = add_mset gid (sched_queue (m_scheduler s))" using a(3) by (simp add: lookup_defs)
    let ?s' = "?s\<lparr>m_groupHashmap := (m_groupHashmap ?s)(gid \<mapsto> ?g2), m_scheduler := sch\<rparr>"
    have "tm_base x c ?s'"
      using a(2) q S T groups_ok_launch [OF b(3) task(1) gid(2,1) task(4), of ?g2]
      by (simp add: tm_base_def lookup_defs sch)
    then show ?thesis using reg False a(1) by (simp add: schedule_group_def lookup_defs)
  qed
qed

lemma tm_base_new_group:
  assumes base: "tm_base x c s" and p: "0 \<le> prio" "prio < 768"
  defines "gid \<equiv> m_groupCount s + 1"
  defines "s' \<equiv> set_group gid \<lparr>g_groupId = gid, g_priority = prio, g_scheduled = False, g_readyTasks = []\<rparr>
      (s\<lparr>m_groupCount := gid\<rparr>)"
  shows "tm_base x c s'"
proof -
  note b = tm_baseD [OF base]
  have new: "m_groupHashmap s gid = None"
    using b(3) unfolding groups_ok_def gid_def by (metis Suc_eq_plus1 not_less_eq_eq option.exhaust order_refl)
  have "\<not> is_ready (m_taskHashmap s) gid tid" for tid
    using b(2) new unfolding is_ready_def tasks_ok_def by (metis option.distinct(1))
  moreover have "x \<le> gid" if "m_groupHashmap s x = Some g" for x g
    using b(3) that unfolding groups_ok_def gid_def by (metis le_SucI Suc_eq_plus1)
  ultimately have "groups_ok x (m_taskHashmap s) (m_groupHashmap s' ) gid"
    using b(3) p unfolding groups_ok_def by (auto simp: s'_def set_group_def gid_def)
  moreover have "queue_ok c (m_groupHashmap s') (sched_queue (m_scheduler s))"
    using b(4) new unfolding queue_ok_def s'_def set_group_def by auto
  ultimately show ?thesis using b(1,5) tasks_ok_group [OF b(2)]
    by (simp add: tm_base_def s'_def set_group_def)
qed

lemma register_fresh:
  fixes s
  assumes "t_groupId task = 0"
  defines "gid \<equiv> m_groupCount s + 1"
  shows "register_task task s = register_task (task\<lparr>t_groupId := gid\<rparr>)
     (set_group gid \<lparr>g_groupId = gid, g_priority = t_priority task, g_scheduled = False, g_readyTasks = []\<rparr>
        (s\<lparr>m_groupCount := gid\<rparr>))"
  using assms by (simp add: register_task_def lookup_defs Let_def split: option.split)

lemma launch_task_spec:
  assumes inv: "tm_inv x s" and l: "launch_task desc m s = Inr (m', res)"
    and ok: "if td_groupId desc = 0 then 0 \<le> td_taskPriority desc \<and> td_taskPriority desc < 768
             else m_groupHashmap s (td_groupId desc) \<noteq> None"
  shows "\<exists>s' gid. res = Some (m_taskCount s + 1, s') \<and> tm_inv x s' \<and>
    m_taskHashmap s (m_taskCount s + 1) = None \<and> is_ready (m_taskHashmap s') gid (m_taskCount s + 1)"
proof -
  let ?tid = "m_taskCount s + 1" and ?s = "s\<lparr>m_taskCount := m_taskCount s + 1\<rparr>"
  have base: "tm_base x (current_group s) ?s"
    using inv tasks_ok_mono [of _ _ "m_taskCount s"] by (simp add: tm_inv_def tm_base_def)
  have new: "m_taskHashmap s ?tid = None"
    using inv unfolding tm_inv_def tm_base_def tasks_ok_def
    by (metis Suc_eq_plus1 not_less_eq_eq option.exhaust order_refl)
  define task where "task = \<lparr>t_tid = ?tid, t_priority = td_taskPriority desc, t_state = NOT_STARTED,
      t_groupId = td_groupId desc, t_blockFlag = False, t_tlTable = td_addressSpace desc,
      t_entryPoint = td_entryPoint desc, t_launchParam = td_launchParam desc,
      t_kstack = stack_bottom ?tid + 0x20000\<rparr>"
  have task: "t_tid task = ?tid" "t_groupId task = td_groupId desc" "t_state task = NOT_STARTED"
    "t_priority task = td_taskPriority desc" by (simp_all add: task_def)
  have res: "res = register_task task ?s"
    using l by (auto simp: launch_task_def Let_def task_def split: sum.splits)
  have reg: "\<exists>s' gid. register_task task ?s = Some (?tid, s') \<and> tm_base x (current_group s) s' \<and>
      m_currentTask s' = m_currentTask s \<and> m_schedulerChangingTask s' = m_schedulerChangingTask s \<and>
      m_taskHashmap s' = (m_taskHashmap s)(?tid \<mapsto> task\<lparr>t_groupId := gid\<rparr>)"
  proof (cases "td_groupId desc = 0")
    case True
    let ?gid = "m_groupCount ?s + 1"
    let ?sg = "set_group ?gid \<lparr>g_groupId = ?gid, g_priority = t_priority task, g_scheduled = False,
        g_readyTasks = []\<rparr> (?s\<lparr>m_groupCount := ?gid\<rparr>)"
    have b0: "tm_base x (current_group s) ?sg"
      using tm_base_new_group [OF base, of "t_priority task"] ok True task(4) by simp
    have "register_task task ?s = register_task (task\<lparr>t_groupId := ?gid\<rparr>) ?sg"
      by (rule register_fresh) (simp add: True task(2))
    moreover obtain s' where "register_task (task\<lparr>t_groupId := ?gid\<rparr>) ?sg = Some (?tid, s')"
      "tm_base x (current_group s) s'" "m_currentTask s' = m_currentTask s"
      "m_schedulerChangingTask s' = m_schedulerChangingTask s"
      "m_taskHashmap s' = (m_taskHashmap s)(?tid \<mapsto> task\<lparr>t_groupId := ?gid\<rparr>)"
      using register_existing [OF b0, of "task\<lparr>t_groupId := ?gid\<rparr>" ?gid] task new by (auto simp: lookup_defs)
    ultimately show ?thesis by (intro exI [of _ s'] exI [of _ ?gid]) simp
  next
    case False
    then obtain g where "m_groupHashmap ?s (td_groupId desc) = Some g" using ok by auto
    then obtain s' where "register_task task ?s = Some (?tid, s')"
      "tm_base x (current_group s) s'" "m_currentTask s' = m_currentTask s"
      "m_schedulerChangingTask s' = m_schedulerChangingTask s"
      "m_taskHashmap s' = (m_taskHashmap s)(?tid \<mapsto> task)"
      using register_existing [OF base task(2)] task new by auto
    moreover have "task\<lparr>t_groupId := td_groupId desc\<rparr> = task" by (simp add: task_def)
    ultimately show ?thesis by (intro exI [of _ s'] exI [of _ "td_groupId desc"]) simp
  qed
  then obtain s' gid where s': "res = Some (?tid, s')" "tm_base x (current_group s) s'"
    "m_currentTask s' = m_currentTask s" "m_schedulerChangingTask s' = m_schedulerChangingTask s"
    "m_taskHashmap s' = (m_taskHashmap s)(?tid \<mapsto> task\<lparr>t_groupId := gid\<rparr>)" using res by blast
  have cur: "m_currentTask s \<noteq> ?tid" using new inv by (auto simp: tm_inv_def)
  have "current_group s' = current_group s" using s'(3,5) cur by (simp add: current_group_def)
  then have "tm_inv x s'" using s' cur inv by (auto simp: tm_inv_def)
  moreover have "is_ready (m_taskHashmap s') gid ?tid" using s'(5) task(3) by (simp add: is_ready_def)
  ultimately show ?thesis using s'(1) new by blast
qed

subsection \<open>The system\<close>

text \<open>
  A run of the system: the scheduler is started, a timer interrupt or a yield refreshes, the idle loop looks for work again
  after an interrupt, the current task announces that it will block, blocks, sleeps or terminates, any
  task is woken, and tasks are launched. The time of each step is arbitrary. A step is an early wake-up when it wakes a
  task that was launched and has not run yet, which an interrupt handler does when the thread of its driver is woken
  before the scheduler has entered it; a run without early wake-ups is orderly.
\<close>

definition tm_new :: TaskManager where
  "tm_new = \<lparr>m_isActive = False, m_schedulerChangingTask = False, m_taskCount = 0, m_groupCount = 0,
     m_currentTask = 0, m_taskHashmap = Map.empty, m_groupHashmap = Map.empty, m_sleepingTasks = [],
     m_scheduler = \<lparr>m_queue0 = [], m_queue1 = [], m_queue2 = vfb_new,
       m_groupSliceStartTime = 0, m_groupSliceEndTime = 0\<rparr>\<rparr>"

definition launch_ok :: "TaskDescriptor \<Rightarrow> TaskManager \<Rightarrow> bool" where
  "launch_ok desc s \<longleftrightarrow> (if td_groupId desc = 0 then 0 \<le> td_taskPriority desc \<and> td_taskPriority desc < 768
     else m_groupHashmap s (td_groupId desc) \<noteq> None)"

inductive tm_step :: "TaskManager \<Rightarrow> TaskManager \<Rightarrow> bool" where
  step_begin: "begin_tasks now s = Some s' \<Longrightarrow> tm_step s s'"
| step_refresh: "refresh now s = Some s' \<Longrightarrow> tm_step s s'"
| step_idle: "m_currentTask s = 0 \<Longrightarrow> resume_idle now s = Some s' \<Longrightarrow> tm_step s s'"
| step_announce: "m_currentTask s \<noteq> 0 \<Longrightarrow> about_to_block s = Some s' \<Longrightarrow> tm_step s s'"
| step_block: "m_currentTask s \<noteq> 0 \<Longrightarrow> block now s = Some s' \<Longrightarrow> tm_step s s'"
| step_sleep: "m_currentTask s \<noteq> 0 \<Longrightarrow> sleep_until now time s = Some s' \<Longrightarrow> tm_step s s'"
| step_terminate: "m_currentTask s \<noteq> 0 \<Longrightarrow> terminate_task now s = Some s' \<Longrightarrow> tm_step s s'"
| step_unblock: "unblock tid s = Some s' \<Longrightarrow> tm_step s s'"
| step_launch: "launch_ok desc s \<Longrightarrow> launch_task desc m s = Inr (m', Some (tid, s')) \<Longrightarrow> tm_step s s'"

inductive_cases tm_step_E: "tm_step s s'"

inductive tm_reachable :: "TaskManager \<Rightarrow> bool" where
  reach_new: "tm_reachable tm_new"
| reach_step: "tm_reachable s \<Longrightarrow> tm_step s s' \<Longrightarrow> tm_reachable s'"

definition early_wake :: "TaskManager \<Rightarrow> TaskManager \<Rightarrow> bool" where
  "early_wake s s' \<longleftrightarrow> (\<exists>tid t. m_taskHashmap s tid = Some t \<and> t_state t = NOT_STARTED \<and> unblock tid s = Some s')"

inductive orderly :: "TaskManager \<Rightarrow> bool" where
  orderly_new: "orderly tm_new"
| orderly_step: "orderly s \<Longrightarrow> tm_step s s' \<Longrightarrow> \<not> early_wake s s' \<Longrightarrow> orderly s'"

lemma orderly_reachable: "orderly s \<Longrightarrow> tm_reachable s"
  by (induction rule: orderly.induct) (auto intro: reach_new reach_step)

lemma tm_new_inv: "tm_inv x tm_new"
  by (simp add: tm_inv_def tm_base_def tm_new_def current_group_def sched_ok_def tasks_ok_def groups_ok_def
      queue_ok_def sleepers_ok_def sched_queue_def vfb_new_inv queue_sorted_def)

lemma refresh_inv: "tm_inv x s \<Longrightarrow> \<exists>s'. refresh now s = Some s' \<and> tm_inv x s' \<and>
    (\<not> m_schedulerChangingTask s \<longrightarrow> m_currentTask s' = 0 \<longrightarrow> (\<forall>gid tid. \<not> is_ready (m_taskHashmap s') gid tid))"
  by (rule refresh_spec) (auto simp: tm_inv_def)

lemma resume_idle_inv: "tm_inv x s \<Longrightarrow> m_currentTask s = 0 \<Longrightarrow> \<exists>s'. resume_idle now s = Some s' \<and> tm_inv x s'"
  using choose_task_spec [of x s now] by (auto simp: tm_inv_def resume_idle_def)

lemma terminate_task_inv: "tm_inv x s \<Longrightarrow> m_currentTask s \<noteq> 0 \<Longrightarrow> \<exists>s'. terminate_task now s = Some s' \<and> tm_inv x s'"
proof -
  assume a: "tm_inv x s" "m_currentTask s \<noteq> 0"
  then obtain s1 where "about_to_block s = Some s1" "tm_inv x s1" "m_currentTask s1 \<noteq> 0"
    using about_to_block_spec by fastforce
  then show ?thesis using block_spec [of x s1 now] by (simp add: terminate_task_def)
qed

lemma unblock_exists: "unblock tid s = Some s' \<Longrightarrow> \<exists>t. m_taskHashmap s tid = Some t"
  by (auto simp: unblock_def lookup_defs split: option.splits)

lemma tm_step_inv: "tm_step s s' \<Longrightarrow> tm_inv x s \<Longrightarrow> x \<longrightarrow> \<not> early_wake s s' \<Longrightarrow> tm_inv x s'"
proof (induction rule: tm_step.induct)
  case (step_begin now s s')
  then have "tm_inv x (s\<lparr>m_isActive := True\<rparr>)" by (auto simp: tm_inv_def tm_base_def current_group_def)
  then show ?case using step_begin(1) refresh_inv [of x "s\<lparr>m_isActive := True\<rparr>" now] by (auto simp: begin_tasks_def)
next
  case (step_refresh now s s')
  then show ?case using refresh_inv [of x s now] by auto
next
  case (step_idle s now s')
  then show ?case using resume_idle_inv [of x s now] by auto
next
  case (step_announce s s')
  then show ?case using about_to_block_spec [of x s] by auto
next
  case (step_block s now s')
  then show ?case using block_spec [of x s now] by auto
next
  case (step_sleep s now time s')
  then show ?case using sleep_until_spec [of x s now time] by auto
next
  case (step_terminate s now s')
  then show ?case using terminate_task_inv [of x s now] by auto
next
  case (step_unblock tid s s')
  obtain t where t: "m_taskHashmap s tid = Some t" using unblock_exists [OF step_unblock(1)] by blast
  moreover have "x \<longrightarrow> t_state t \<noteq> NOT_STARTED" using step_unblock t by (auto simp: early_wake_def)
  ultimately show ?case using unblock_inv [OF step_unblock(2)] step_unblock(1) by fastforce
next
  case (step_launch desc s m m' tid s')
  then show ?case using launch_task_spec [OF step_launch.prems(1) step_launch.hyps(2)]
    by (simp add: launch_ok_def)
qed

lemma tm_reachable_inv: "tm_reachable s \<Longrightarrow> tm_inv False s"
  by (induction rule: tm_reachable.induct) (auto intro: tm_new_inv tm_step_inv)

lemma orderly_inv: "orderly s \<Longrightarrow> tm_inv True s"
  by (induction rule: orderly.induct) (auto intro: tm_new_inv tm_step_inv)

end
