(* ===== verification/Task_Properties.thy ===== *)
theory Task_Properties
  imports Task_Scheduling Page_Mapping
begin

text \<open>
  The kernel stacks a new task gets, and the properties of the task manager and the scheduler in
  every reachable state of the system.
\<close>

subsection \<open>Kernel stacks\<close>

text \<open>
  Every address space in \<open>R\<close> keeps to 2MiB pages in the direct map and 4KiB pages elsewhere.
\<close>

definition all_spaces :: "u64 set \<Rightarrow> Manager \<Rightarrow> bool" where
  "all_spaces R m \<longleftrightarrow> (\<forall>r\<in>R. space_inv R r m)"

lemma all_spaces_map:
  assumes inv: "all_spaces R m" and r: "r \<in> R" and ok: "regular_request req" and free: "3 \<le> card (free_frames m)"
  shows "\<exists>m'. request_virtual_map req r m = Inr m' \<and> all_spaces R m' \<and>
    card (free_frames m) \<le> card (free_frames m') + 3 \<and>
    (\<forall>r'\<in>R. \<forall>v. get_physical_address m' r' v =
       (if r' = r \<and> same_page (pageSize req) (virtualAddress req) v then physicalAddress req
        else get_physical_address m r' v))"
proof -
  have sp: "space_inv R r m" using inv r by (simp add: all_spaces_def)
  obtain m' where m': "request_virtual_map req r m = Inr m'" "space_inv R r m'"
    "card (free_frames m) \<le> card (free_frames m') + 3"
    "\<And>r' q. r' \<in> R \<Longrightarrow> r' \<noteq> r \<Longrightarrow> length q = 4 \<Longrightarrow> walk (phys_tables m') r' q = walk (phys_tables m) r' q"
    "\<And>v. get_physical_address m' r v =
       (if same_page (pageSize req) (virtualAddress req) v then physicalAddress req
        else get_physical_address m r v)"
    using regular_map_step [OF sp ok free] by blast
  have vm: "vm_inv R m" "vm_inv R m'" using sp m'(2) by (simp_all add: space_inv_def)
  have "space_inv R r' m'" if "r' \<in> R" for r'
    using m'(2,4) inv that vm(2) by (cases "r' = r") (auto simp: all_spaces_def space_inv_def)
  moreover have "get_physical_address m' r' v = get_physical_address m r' v" if "r' \<in> R" "r' \<noteq> r" for r' v
    using m'(4) [OF that, of "vpath v"] by (simp add: translate_vpath [OF vm(1) that(1)]
        translate_vpath [OF vm(2) that(1)] translate_def)
  then have "get_physical_address m' r' v =
      (if r' = r \<and> same_page (pageSize req) (virtualAddress req) v then physicalAddress req
       else get_physical_address m r' v)" if "r' \<in> R" for r' v
    using m'(5) that by (cases "r' = r") simp_all
  ultimately show ?thesis using m'(1,3) unfolding all_spaces_def by blast
qed

lemma all_spaces_alloc:
  assumes inv: "all_spaces R m" and r: "r \<in> R" and free: "4 \<le> card (free_frames m)"
    and v: "CHECK_ALIGN (alloc_virtualAddress req) 0x1000" "PML4_index (alloc_virtualAddress req) \<noteq> 511"
  shows "\<exists>m' p. alloc_page req r m = Inr m' \<and> all_spaces R m' \<and> p \<noteq> 0 \<and>
    card (free_frames m) \<le> card (free_frames m') + 4 \<and>
    (\<forall>r'\<in>R. \<forall>v. get_physical_address m' r' v =
       (if r' = r \<and> same_page PAGE_4KiB (alloc_virtualAddress req) v then p
        else get_physical_address m r' v))"
proof -
  have vm: "vm_inv R m" using inv r by (simp add: all_spaces_def space_inv_def)
  have ne: "free_frames m \<noteq> {}" using free by auto
  obtain p m1 where al: "alloc_physical_block m = Inr (p, m1)"
    using alloc_physical_block_some [OF vm_inv_phys [OF vm] ne] by blast
  obtain n where n: "n \<in> free_frames m" "p = frame_address n" and m1: "vm_inv R m1"
    "phys_tables m1 = phys_tables m" "card (free_frames m) = card (free_frames m1) + 1"
    using alloc_keeps_vm [OF vm al] by blast
  let ?r = "\<lparr>physicalAddress = p, virtualAddress = alloc_virtualAddress req,
      allowWrite = alloc_allowWrite req, allowUserAccess = alloc_allowUserAccess req, pageSize = PAGE_4KiB\<rparr>"
  have sp: "all_spaces R m1" using inv m1(1,2) by (simp add: all_spaces_def space_inv_def)
  have ok: "regular_request ?r"
    using v n(2) aligned12_frame_address [of n]
    by (simp add: regular_request_def request_aligned_def CHECK_ALIGN_def aligned12_def)
  have bn: "0 < n" "n < 2 ^ 52"
    using pmm.free_bounds [OF vm_inv_phys [OF vm] n(1)] pmm.limit_bound [OF vm_inv_phys [OF vm]] by auto
  have "unat p \<noteq> 0" using unat_frame_address [OF bn(2)] n(2) bn(1) by simp
  then have "p \<noteq> 0" by (metis unat_0)
  moreover have "get_physical_address m1 r' v = get_physical_address m r' v" if "r' \<in> R" for r' v
    by (simp add: translate_vpath [OF m1(1) that] translate_vpath [OF vm that] m1(2))
  moreover obtain m' where "request_virtual_map ?r r m1 = Inr m'" "all_spaces R m'"
    "card (free_frames m1) \<le> card (free_frames m') + 3"
    "\<forall>r'\<in>R. \<forall>v. get_physical_address m' r' v =
       (if r' = r \<and> same_page PAGE_4KiB (alloc_virtualAddress req) v then p else get_physical_address m1 r' v)"
    using all_spaces_map [OF sp r ok] m1(3) free by auto
  ultimately show ?thesis using al m1(3) by (auto simp: alloc_page_def)
qed

lemma same_page_trans:
  assumes "vm_inv R m" "r \<in> R" "same_page PAGE_4KiB v v'"
  shows "get_physical_address m r v = get_physical_address m r v'"
proof -
  have "vpath v = vpath v'" using assms(3) by (simp add: same_page_path vpath_def)
  then show ?thesis by (simp add: translate_vpath [OF assms(1,2)])
qed

lemma main_space_unchanged [simp]:
  "alloc_physical_block m = Inr (p, m') \<Longrightarrow> m_virtualAddressSpace m' = m_virtualAddressSpace m"
  "m_virtualAddressSpace (set_entry t i e m) = m_virtualAddressSpace m"
  "m_virtualAddressSpace (zero_table t m) = m_virtualAddressSpace m"
  "m_virtualAddressSpace (free_physical_block b m) = m_virtualAddressSpace m"
  by (auto simp: alloc_physical_block_def Let_def set_entry_def zero_table_def free_physical_block_def
      split: if_splits)

lemma main_space_tables [simp]:
  "m_virtualAddressSpace (free_table t i m) = m_virtualAddressSpace m"
  "m_virtualAddressSpace (prepare_page_for_entry req t i m) = m_virtualAddressSpace m"
  "prepare_table_for_entry req t i m = Inr m' \<Longrightarrow> m_virtualAddressSpace m' = m_virtualAddressSpace m"
  by (auto simp: free_table_def prepare_page_for_entry_def prepare_table_for_entry_def Let_def
      split: sum.splits if_splits)

lemma request_virtual_map_main:
  "request_virtual_map req r m = Inr m' \<Longrightarrow> m_virtualAddressSpace m' = m_virtualAddressSpace m"
  by (auto simp: request_virtual_map_def PML4Table_map_def PageDirectoryPointerTable_map_def
      PageDirectoryTable_map_def PageTable_map_def Let_def split: sum.splits if_splits
      dest!: main_space_tables(3))

lemma alloc_page_main: "alloc_page req r m = Inr m' \<Longrightarrow> m_virtualAddressSpace m' = m_virtualAddressSpace m"
  by (auto simp: alloc_page_def split: sum.splits dest!: request_virtual_map_main)

lemma get_physical_address_aligned:
  assumes "vm_inv R m" "r \<in> R"
  shows "CHECK_ALIGN (get_physical_address m r v) 0x1000"
proof -
  have "(get_frame e AND 0xFFF) = 0" for e
    by (simp add: get_frame_def ENTRY_FRAME_MASK_def and.assoc)
  then show ?thesis
    by (simp add: CHECK_ALIGN_def get_physical_address_def PML4Table_get_def PageDirectoryPointerTable_get_def
        PageDirectoryTable_get_def PageTable_get_def Let_def)
qed

lemma stack_address:
  assumes "tid < 2 ^ 21" "k < 32"
  shows "CHECK_ALIGN (stack_bottom tid + of_nat k * 0x1000) 0x1000"
    and "PML4_index (stack_bottom tid + of_nat k * 0x1000) = 415"
proof -
  let ?v = "stack_bottom tid + of_nat k * 0x1000"
  have "?v = of_nat (415 * 2 ^ 39 + 0x1FFFE * 2 ^ 47 + (0x20000 * tid + k * 0x1000))"
    by (simp add: stack_bottom_def START_OF_PROCESS_KSTACKS_def)
  then have u: "unat ?v = 415 * 2 ^ 39 + 0x1FFFE * 2 ^ 47 + (0x20000 * tid + k * 0x1000)"
    using assms by (simp only:) (rule unat_of_nat_64, simp)
  have "unat ?v mod 2 ^ 12 = 0" unfolding u by simp
  then have "take_bit 12 ?v = 0"
    by (intro word_unat_eq_iff [THEN iffD2]) (simp only: unsigned_take_bit_eq unat_0 take_bit_eq_mod [of 12 "unat ?v"])
  then show "CHECK_ALIGN ?v 0x1000"
    by (simp add: CHECK_ALIGN_def take_bit_eq_mask mask_eq_exp_minus_1)
  have "unat ?v div 2 ^ 39 = 415 + 0x1FFFE * 2 ^ 8" using assms unfolding u by simp
  then have "drop_bit 39 (unat ?v) = 33554335" by (simp add: drop_bit_eq_div)
  then have "unat (drop_bit 39 ?v) = 33554335" by (simp add: unat_drop_bit_eq)
  then show "PML4_index ?v = 415"
    by (intro word_unat_eq_iff [THEN iffD2])
      (simp add: PML4_index_def unsigned_ucast_eq take_bit_eq_mod [of 9 "unat _"])
qed

lemma alloc_stack_ok:
  assumes inv: "all_spaces R m" and r: "m_virtualAddressSpace m \<in> R" and free: "4 * length ks \<le> card (free_frames m)"
    and v: "\<forall>k\<in>set ks. CHECK_ALIGN (bottom + of_nat k * 0x1000) 0x1000 \<and> PML4_index (bottom + of_nat k * 0x1000) \<noteq> 511"
  shows "\<exists>m'. alloc_stack ks bottom m = Inr m' \<and> all_spaces R m' \<and> m_virtualAddressSpace m' = m_virtualAddressSpace m \<and>
    card (free_frames m) \<le> card (free_frames m') + 4 * length ks \<and>
    (\<forall>v. (\<exists>k\<in>set ks. same_page PAGE_4KiB (bottom + of_nat k * 0x1000) v) \<or> get_physical_address m (m_virtualAddressSpace m) v \<noteq> 0 \<longrightarrow>
       get_physical_address m' (m_virtualAddressSpace m) v \<noteq> 0)"
  using assms
proof (induction ks arbitrary: m)
  case Nil
  then show ?case by simp
next
  case (Cons k ks)
  let ?req = "\<lparr>alloc_virtualAddress = bottom + of_nat k * 0x1000, alloc_allowWrite = True,
      alloc_allowUserAccess = False\<rparr>" and ?r = "m_virtualAddressSpace m"
  obtain m1 p where m1: "alloc_page ?req ?r m = Inr m1" "all_spaces R m1" "p \<noteq> 0"
    "card (free_frames m) \<le> card (free_frames m1) + 4"
    "\<forall>v. get_physical_address m1 ?r v =
       (if same_page PAGE_4KiB (bottom + of_nat k * 0x1000) v then p else get_physical_address m ?r v)"
    using all_spaces_alloc [OF Cons.prems(1,2), of ?req] Cons.prems(2-4) by auto
  have main: "m_virtualAddressSpace m1 = ?r" by (rule alloc_page_main [OF m1(1)])
  obtain m2 where m2: "alloc_stack ks bottom m1 = Inr m2" "all_spaces R m2" "m_virtualAddressSpace m2 = ?r"
    "card (free_frames m1) \<le> card (free_frames m2) + 4 * length ks"
    "\<forall>v. (\<exists>k\<in>set ks. same_page PAGE_4KiB (bottom + of_nat k * 0x1000) v) \<or> get_physical_address m1 ?r v \<noteq> 0 \<longrightarrow>
       get_physical_address m2 ?r v \<noteq> 0"
    using Cons.IH [OF m1(2)] Cons.prems(2-4) m1(4) main by auto
  have "get_physical_address m2 ?r v \<noteq> 0"
    if "(\<exists>k\<in>set (k # ks). same_page PAGE_4KiB (bottom + of_nat k * 0x1000) v) \<or> get_physical_address m ?r v \<noteq> 0" for v
    using that m2(5) m1(3,5) by (cases "same_page PAGE_4KiB (bottom + of_nat k * 0x1000) v") auto
  moreover have "card (free_frames m) \<le> card (free_frames m2) + 4 * length (k # ks)"
    using m1(4) m2(4) by simp
  ultimately show ?case using m1(1) m2(1-3) by simp
qed

text \<open>
  Sharing a page never changes what the kernel's own address space translates to, even when it is the
  address space the page is shared with.
\<close>

lemma share_page_ok:
  assumes inv: "all_spaces R m" and r: "m_virtualAddressSpace m \<in> R" "tbl \<in> R" and free: "3 \<le> card (free_frames m)"
    and v: "CHECK_ALIGN v 0x1000" "PML4_index v \<noteq> 511"
  shows "\<exists>m'. share_page v tbl m = Inr m' \<and> all_spaces R m' \<and> m_virtualAddressSpace m' = m_virtualAddressSpace m \<and>
    card (free_frames m) \<le> card (free_frames m') + 3 \<and>
    (\<forall>w. get_physical_address m' (m_virtualAddressSpace m) w = get_physical_address m (m_virtualAddressSpace m) w) \<and>
    (\<forall>w. get_physical_address m' tbl w =
       (if same_page PAGE_4KiB v w then get_physical_address m (m_virtualAddressSpace m) w else get_physical_address m tbl w))"
proof -
  let ?main = "m_virtualAddressSpace m"
  have vm: "vm_inv R m" using inv r(1) by (simp add: all_spaces_def space_inv_def)
  let ?req = "\<lparr>physicalAddress = get_physical_address m ?main v, virtualAddress = v, allowWrite = True,
      allowUserAccess = False, pageSize = PAGE_4KiB\<rparr>"
  have "regular_request ?req" using v get_physical_address_aligned [OF vm r(1)]
    by (simp add: regular_request_def request_aligned_def)
  then obtain m' where m': "request_virtual_map ?req tbl m = Inr m'" "all_spaces R m'"
    "card (free_frames m) \<le> card (free_frames m') + 3"
    "\<forall>r'\<in>R. \<forall>w. get_physical_address m' r' w =
       (if r' = tbl \<and> same_page PAGE_4KiB v w then get_physical_address m ?main v else get_physical_address m r' w)"
    using all_spaces_map [OF inv r(2) _ free] by fastforce
  have page: "get_physical_address m ?main v = get_physical_address m ?main w" if "same_page PAGE_4KiB v w" for w
    using same_page_trans [OF vm r(1) that] .
  have "get_physical_address m' ?main w = get_physical_address m ?main w" for w
    using m'(4) r(1) page by auto
  moreover have "get_physical_address m' tbl w =
      (if same_page PAGE_4KiB v w then get_physical_address m ?main w else get_physical_address m tbl w)" for w
    using m'(4) r(2) page by simp
  ultimately show ?thesis using m'(1-3) request_virtual_map_main [OF m'(1)] unfolding share_page_def by blast
qed

lemma map_stacks_ok:
  assumes inv: "all_spaces R m" and r: "m_virtualAddressSpace m \<in> R" "tbl \<in> R"
    and free: "6 * length ks \<le> card (free_frames m)"
    and v: "\<forall>k\<in>set ks. \<forall>b\<in>{START_OF_PROCESS_KSTACKS, bottom}.
       CHECK_ALIGN (b + of_nat k * 0x1000) 0x1000 \<and> PML4_index (b + of_nat k * 0x1000) \<noteq> 511"
  shows "\<exists>m'. map_stacks ks bottom tbl m = Inr m' \<and> all_spaces R m' \<and>
    m_virtualAddressSpace m' = m_virtualAddressSpace m \<and>
    (\<forall>w. get_physical_address m' (m_virtualAddressSpace m) w = get_physical_address m (m_virtualAddressSpace m) w) \<and>
    (\<forall>w. get_physical_address m' tbl w =
       (if \<exists>k\<in>set ks. \<exists>b\<in>{START_OF_PROCESS_KSTACKS, bottom}. same_page PAGE_4KiB (b + of_nat k * 0x1000) w
        then get_physical_address m (m_virtualAddressSpace m) w else get_physical_address m tbl w))"
  using assms
proof (induction ks arbitrary: m)
  case Nil
  then show ?case by simp
next
  case (Cons k ks)
  let ?r = "m_virtualAddressSpace m" and ?v = "START_OF_PROCESS_KSTACKS + of_nat k * 0x1000"
    and ?v' = "bottom + of_nat k * 0x1000"
  have "3 \<le> card (free_frames m)" "CHECK_ALIGN ?v 0x1000" "PML4_index ?v \<noteq> 511"
    using Cons.prems(4,5) by auto
  then obtain m1 where m1: "share_page ?v tbl m = Inr m1" "all_spaces R m1" "m_virtualAddressSpace m1 = ?r"
    "card (free_frames m) \<le> card (free_frames m1) + 3"
    "\<forall>w. get_physical_address m1 ?r w = get_physical_address m ?r w"
    "\<forall>w. get_physical_address m1 tbl w =
       (if same_page PAGE_4KiB ?v w then get_physical_address m ?r w else get_physical_address m tbl w)"
    using share_page_ok [OF Cons.prems(1-3)] by blast
  have "m_virtualAddressSpace m1 \<in> R" "3 \<le> card (free_frames m1)" "CHECK_ALIGN ?v' 0x1000" "PML4_index ?v' \<noteq> 511"
    using Cons.prems(2,4,5) m1(3,4) by auto
  then obtain m2 where m2: "share_page ?v' tbl m1 = Inr m2" "all_spaces R m2" "m_virtualAddressSpace m2 = ?r"
    "card (free_frames m1) \<le> card (free_frames m2) + 3"
    "\<forall>w. get_physical_address m2 ?r w = get_physical_address m ?r w"
    "\<forall>w. get_physical_address m2 tbl w =
       (if same_page PAGE_4KiB ?v' w then get_physical_address m ?r w else get_physical_address m1 tbl w)"
    using share_page_ok [OF m1(2) _ Cons.prems(3), of ?v'] m1(3,5) by metis
  have "6 * length ks \<le> card (free_frames m2)" using m1(4) m2(4) Cons.prems(4) by simp
  then obtain m3 where m3: "map_stacks ks bottom tbl m2 = Inr m3" "all_spaces R m3" "m_virtualAddressSpace m3 = ?r"
    "\<forall>w. get_physical_address m3 ?r w = get_physical_address m ?r w"
    "\<forall>w. get_physical_address m3 tbl w =
       (if \<exists>k\<in>set ks. \<exists>b\<in>{START_OF_PROCESS_KSTACKS, bottom}. same_page PAGE_4KiB (b + of_nat k * 0x1000) w
        then get_physical_address m ?r w else get_physical_address m2 tbl w)"
    using Cons.IH [OF m2(2) _ Cons.prems(3)] Cons.prems(2,5) m2(3,5) by auto
  then show ?case using m1(1,6) m2(1,6) by auto
qed

lemma prepare_stacks_ok:
  assumes inv: "all_spaces R m" and r: "m_virtualAddressSpace m \<in> R" "tbl \<in> R"
    and free: "320 \<le> card (free_frames m)" and tid: "tid < 2 ^ 21"
  shows "\<exists>m'. prepare_stacks tid tbl m = Inr m' \<and> all_spaces R m' \<and>
    m_virtualAddressSpace m' = m_virtualAddressSpace m \<and>
    (\<forall>k<32. get_physical_address m' (m_virtualAddressSpace m) (stack_bottom tid + of_nat k * 0x1000) \<noteq> 0 \<and>
       get_physical_address m' tbl (stack_bottom tid + of_nat k * 0x1000) =
       get_physical_address m' (m_virtualAddressSpace m) (stack_bottom tid + of_nat k * 0x1000))"
proof -
  let ?r = "m_virtualAddressSpace m" and ?ks = "[0..<STACK_PAGES]"
  have bottom: "START_OF_PROCESS_KSTACKS = stack_bottom 0" by (simp add: stack_bottom_def)
  have v: "\<forall>k\<in>set ?ks. \<forall>b\<in>{START_OF_PROCESS_KSTACKS, stack_bottom tid}.
      CHECK_ALIGN (b + of_nat k * 0x1000) 0x1000 \<and> PML4_index (b + of_nat k * 0x1000) \<noteq> 511"
    using stack_address tid unfolding bottom by (auto simp: STACK_PAGES_def)
  obtain m1 where m1: "alloc_stack ?ks (stack_bottom tid) m = Inr m1" "all_spaces R m1" "m_virtualAddressSpace m1 = ?r"
    "card (free_frames m) \<le> card (free_frames m1) + 128"
    "\<forall>v. (\<exists>k\<in>set ?ks. same_page PAGE_4KiB (stack_bottom tid + of_nat k * 0x1000) v) \<longrightarrow> get_physical_address m1 ?r v \<noteq> 0"
    using alloc_stack_ok [OF inv r(1), of ?ks "stack_bottom tid"] free v by (auto simp: STACK_PAGES_def)
  obtain m2 where m2: "map_stacks ?ks (stack_bottom tid) tbl m1 = Inr m2" "all_spaces R m2"
    "m_virtualAddressSpace m2 = ?r" "\<forall>w. get_physical_address m2 ?r w = get_physical_address m1 ?r w"
    "\<forall>w. get_physical_address m2 tbl w =
       (if \<exists>k\<in>set ?ks. \<exists>b\<in>{START_OF_PROCESS_KSTACKS, stack_bottom tid}. same_page PAGE_4KiB (b + of_nat k * 0x1000) w
        then get_physical_address m1 ?r w else get_physical_address m1 tbl w)"
    using map_stacks_ok [OF m1(2) _ r(2), of ?ks "stack_bottom tid"] m1(3,4) r(1) free v by (auto simp: STACK_PAGES_def)
  have "\<exists>k'\<in>set ?ks. same_page PAGE_4KiB (stack_bottom tid + of_nat k' * 0x1000) (stack_bottom tid + of_nat k * 0x1000)"
    if "k < 32" for k
    using that by (intro bexI [of _ k]) (simp_all add: same_page_def STACK_PAGES_def)
  then have "get_physical_address m2 ?r (stack_bottom tid + of_nat k * 0x1000) \<noteq> 0 \<and>
      get_physical_address m2 tbl (stack_bottom tid + of_nat k * 0x1000) =
      get_physical_address m2 ?r (stack_bottom tid + of_nat k * 0x1000)" if "k < 32" for k
    using m1(5) m2(4,5) that by (metis insertCI)
  then show ?thesis using m1(1) m2(1-3) by (simp add: prepare_stacks_def)
qed

subsection \<open>The order of the sleepers\<close>

lemma sleepers_scheduler:
  "add_group_to_queue gid s = Some s' \<Longrightarrow> m_sleepingTasks s' = m_sleepingTasks s"
  "next_in_slice now s = Some (r, s') \<Longrightarrow> m_sleepingTasks s' = m_sleepingTasks s"
  "start_slice now s = Some (tid, s') \<Longrightarrow> m_sleepingTasks s' = m_sleepingTasks s"
proof -
  show a: "add_group_to_queue gid s = Some s' \<Longrightarrow> m_sleepingTasks s' = m_sleepingTasks s" for gid s s'
    by (auto simp: add_group_to_queue_def lookup_defs Let_def split: option.splits)
  show "next_in_slice now s = Some (r, s') \<Longrightarrow> m_sleepingTasks s' = m_sleepingTasks s"
    by (auto simp: next_in_slice_def lookup_defs Let_def dest: a split: option.splits if_splits)
  show "start_slice now s = Some (tid, s') \<Longrightarrow> m_sleepingTasks s' = m_sleepingTasks s"
    by (auto simp: start_slice_def lookup_defs Let_def split: option.splits if_splits list.splits)
qed

lemma sleepers_choose: "choose_task now s = Some s' \<Longrightarrow> m_sleepingTasks s' = m_sleepingTasks s"
  by (auto simp: choose_task_def get_next_task_def enter_task_def lookup_defs Let_def
      dest!: sleepers_scheduler(2,3) split: option.splits if_splits)

lemma sleepers_unblock: "unblock tid s = Some s' \<Longrightarrow> m_sleepingTasks s' = m_sleepingTasks s"
  by (auto simp: unblock_def lookup_defs schedule_group_def Let_def dest!: sleepers_scheduler(1)
      split: option.splits if_splits)

lemma sleepers_wake:
  "wake_sleepers now ss s = Some s' \<Longrightarrow> m_sleepingTasks s' = dropWhile (\<lambda>st. st_wakeTime st \<le> now) ss"
  by (induction ss arbitrary: s) (auto split: if_splits option.splits)

lemma sleepers_refresh:
  "refresh now s = Some s' \<Longrightarrow> m_sleepingTasks s' = dropWhile (\<lambda>st. st_wakeTime st \<le> now) (m_sleepingTasks s)"
  by (auto simp: refresh_def dest!: sleepers_wake sleepers_choose split: option.splits if_splits)

lemma sleepers_block:
  "block now s = Some s' \<Longrightarrow> m_sleepingTasks s' = m_sleepingTasks s \<or>
     m_sleepingTasks s' = dropWhile (\<lambda>st. st_wakeTime st \<le> now) (m_sleepingTasks s)"
  by (auto simp: block_def lookup_defs deschedule_current_task_def Let_def dest!: sleepers_refresh
      split: option.splits if_splits)

lemma sleepers_announce: "about_to_block s = Some s' \<Longrightarrow> m_sleepingTasks s' = m_sleepingTasks s"
  by (auto simp: about_to_block_def lookup_defs split: option.splits)

lemma sleepers_launch: "launch_task desc m s = Inr (m', Some (tid, s')) \<Longrightarrow> m_sleepingTasks s' = m_sleepingTasks s"
  by (auto simp: launch_task_def register_task_def lookup_defs schedule_group_def Let_def
      dest!: sleepers_scheduler(1) split: sum.splits option.splits if_splits)

lemma queue_sorted_dropWhile: "queue_sorted gt xs \<Longrightarrow> queue_sorted gt (dropWhile P xs)"
  unfolding queue_sorted_def by (metis sorted_wrt_append takeWhile_dropWhile_id)

lemmas sleepers_steps = sleepers_refresh sleepers_choose sleepers_announce sleepers_block sleepers_unblock
  sleepers_launch

lemma tm_step_sleepers:
  "tm_step s s' \<Longrightarrow> queue_sorted SleepingTask_gt (m_sleepingTasks s) \<Longrightarrow> queue_sorted SleepingTask_gt (m_sleepingTasks s')"
proof (induction rule: tm_step.induct)
  case (step_sleep s now time s')
  then show ?case
    by (auto simp: sleep_until_def dest!: sleepers_announce sleepers_block
        intro!: queue_sorted_dropWhile sleepers.push_sorted split: option.splits if_splits)
next
  case (step_terminate s now s')
  then show ?case
    by (auto simp: terminate_task_def dest!: sleepers_announce sleepers_block intro: queue_sorted_dropWhile
        split: option.splits)
qed (auto simp: resume_idle_def begin_tasks_def dest!: sleepers_steps intro: queue_sorted_dropWhile)

lemma tm_reachable_sleepers: "tm_reachable s \<Longrightarrow> queue_sorted SleepingTask_gt (m_sleepingTasks s)"
  by (induction rule: tm_reachable.induct) (auto simp: tm_new_def queue_sorted_def dest: tm_step_sleepers)

subsection \<open>An example run\<close>

text \<open>
  One task of priority 10 is launched in the kernel's address space and the scheduler is started.
\<close>

definition example_desc :: TaskDescriptor where
  "example_desc = \<lparr>td_addressSpace = 0x1000, td_entryPoint = 0x400000, td_launchParam = 0,
     td_taskPriority = 10, td_groupId = 0\<rparr>"

definition example_task :: Task where
  "example_task = \<lparr>t_tid = 1, t_priority = 10, t_state = NOT_STARTED, t_groupId = 1, t_blockFlag = False,
     t_tlTable = 0x1000, t_entryPoint = 0x400000, t_launchParam = 0, t_kstack = stack_bottom 1 + 0x20000\<rparr>"

definition example_launched :: TaskManager where
  "example_launched = tm_new\<lparr>m_taskCount := 1, m_groupCount := 1,
     m_taskHashmap := [1 \<mapsto> example_task],
     m_groupHashmap := [1 \<mapsto> \<lparr>g_groupId = 1, g_priority = 10, g_scheduled = True, g_readyTasks = [1]\<rparr>],
     m_scheduler := \<lparr>m_queue0 = [\<lparr>pi_groupId = 1, pi_priority = 10\<rparr>], m_queue1 = [], m_queue2 = vfb_new,
       m_groupSliceStartTime = 0, m_groupSliceEndTime = 0\<rparr>\<rparr>"

definition example_running :: TaskManager where
  "example_running = example_launched\<lparr>m_isActive := True, m_currentTask := 1,
     m_taskHashmap := [1 \<mapsto> example_task\<lparr>t_state := READY\<rparr>],
     m_scheduler := \<lparr>m_queue0 = [], m_queue1 = [], m_queue2 = vfb_new,
       m_groupSliceStartTime = 100, m_groupSliceEndTime = 115\<rparr>\<rparr>"

lemma example_spaces: "all_spaces {0x1000} example_space" "m_virtualAddressSpace example_space = 0x1000"
  using example_space_space by (simp_all add: all_spaces_def example_space_def)

lemma example_launch: "\<exists>m. launch_task example_desc example_space tm_new = Inr (m, Some (1, example_launched))"
proof -
  obtain m where "prepare_stacks 1 0x1000 example_space = Inr m"
    using prepare_stacks_ok [OF example_spaces(1), of "0x1000" 1] example_spaces(2)
    by (auto simp: example_space_frames)
  then show ?thesis
    by (simp add: launch_task_def register_task_def lookup_defs schedule_group_def add_group_to_queue_def
        example_desc_def example_launched_def example_task_def tm_new_def Let_def)
qed

lemma example_begin: "begin_tasks 100 example_launched = Some example_running"
  by (simp add: begin_tasks_def refresh_def choose_task_def get_next_task_def next_in_slice_def start_slice_def take_group_def
      enter_task_def lookup_defs fixedTimeslice_def example_launched_def example_running_def example_task_def
      tm_new_def Let_def)

lemma example_launched_reachable: "tm_reachable example_launched"
proof -
  obtain m where l: "launch_task example_desc example_space tm_new = Inr (m, Some (1, example_launched))"
    using example_launch by blast
  have "launch_ok example_desc tm_new" by (simp add: launch_ok_def example_desc_def)
  then show ?thesis using reach_step [OF reach_new] step_launch l by blast
qed

lemma example_launched_orderly: "orderly example_launched"
proof -
  obtain m where l: "launch_task example_desc example_space tm_new = Inr (m, Some (1, example_launched))"
    using example_launch by blast
  have "launch_ok example_desc tm_new" by (simp add: launch_ok_def example_desc_def)
  then show ?thesis using orderly_step [OF orderly_new] step_launch l by (fastforce simp: early_wake_def tm_new_def)
qed

lemma example_running_reachable: "tm_reachable example_running"
  using reach_step [OF example_launched_reachable] step_begin [OF example_begin] .

subsection \<open>Properties\<close>



text \<open>
  An early wake-up puts a task into the ready list twice. The task that has blocked is then still in the list and runs again
  although nothing has woken it.
\<close>

definition example_woken :: TaskManager where
  "example_woken = the (unblock 1 example_launched)"

lemma early_wake_duplicates:
  "unblock 1 example_launched = Some example_woken" "early_wake example_launched example_woken"
  "map_option g_readyTasks (m_groupHashmap example_woken 1) = Some [1, 1]"
  by (simp_all add: example_woken_def unblock_def early_wake_def lookup_defs example_launched_def example_task_def tm_new_def Let_def)

lemma early_wake_runs_waiting:
  "\<exists>s1 s2 s3 t. begin_tasks 100 example_woken = Some s1 \<and> about_to_block s1 = Some s2 \<and> block 105 s2 = Some s3 \<and>
     m_currentTask s3 = 1 \<and> m_taskHashmap s3 1 = Some t \<and> t_state t = WAIT"
  by (simp add: example_woken_def unblock_def begin_tasks_def about_to_block_def block_def refresh_def choose_task_def get_next_task_def
      next_in_slice_def start_slice_def take_group_def enter_task_def lookup_defs fixedTimeslice_def deschedule_current_task_def
      example_launched_def example_task_def tm_new_def vfb_new_def Let_def)



text \<open>
  C14: No wake-up is lost. When a task has announced that it is going to block and is woken before it
  does, \<open>block\<close> returns at once: the task stays runnable and nothing changes.
\<close>

theorem wakeup_before_block:
  assumes "tm_reachable s" "m_currentTask s \<noteq> 0"
  shows "\<exists>s1 s2. about_to_block s = Some s1 \<and> unblock (m_currentTask s) s1 = Some s2 \<and>
    tm_reachable s2 \<and> m_currentTask s2 = m_currentTask s \<and> block now s2 = Some s2"
proof -
  obtain s1 t where s1: "about_to_block s = Some s1" "m_currentTask s1 = m_currentTask s"
    "m_taskHashmap s1 (m_currentTask s) = Some t" "tm_inv False s1"
    using about_to_block_spec [OF tm_reachable_inv [OF assms(1)] assms(2)] by blast
  have base: "tm_base False (current_group s1) s1" using s1(4) by (simp add: tm_inv_def)
  obtain s2 t' where u: "unblock (m_currentTask s) s1 = Some s2" "m_currentTask s2 = m_currentTask s1"
    "m_taskHashmap s2 = (m_taskHashmap s1)(m_currentTask s \<mapsto> t')" "\<not> t_blockFlag t'"
    using unblock_spec [OF base s1(3)] by blast
  have "tm_reachable s2"
    using reach_step [OF reach_step [OF assms(1) step_announce [OF assms(2) s1(1)]] step_unblock [OF u(1)]] .
  moreover have "block now s2 = Some s2" "m_currentTask s2 = m_currentTask s"
    using s1(2) u assms(2) by (simp_all add: block_def lookup_defs)
  ultimately show ?thesis using s1(1) u(1) by blast
qed

theorem wakeup_before_block_witness:
  "\<exists>s1 s2. about_to_block example_running = Some s1 \<and> unblock 1 s1 = Some s2 \<and> block 105 s2 = Some s2"
proof -
  have "m_currentTask example_running = 1" by (simp add: example_running_def)
  then show ?thesis using wakeup_before_block [OF example_running_reachable, of 105] by auto
qed

text \<open>
  Launching a task. When the memory manager has 320 free frames, launching succeeds: the new task
  gets a fresh identifier and is ready, every page of its kernel stack is backed by a frame, and it
  is the same frame in the kernel's address space and in the task's own.
\<close>

theorem launch_task_stacks:
  assumes "tm_reachable s" "launch_ok desc s" "all_spaces R m" "m_virtualAddressSpace m \<in> R"
    "td_addressSpace desc \<in> R" "320 \<le> card (free_frames m)" "m_taskCount s + 1 < 2 ^ 21"
  shows "\<exists>m' s' gid. launch_task desc m s = Inr (m', Some (m_taskCount s + 1, s')) \<and> tm_reachable s' \<and>
    m_taskHashmap s (m_taskCount s + 1) = None \<and> is_ready (m_taskHashmap s') gid (m_taskCount s + 1) \<and>
    all_spaces R m' \<and>
    (\<forall>k<32. get_physical_address m' (m_virtualAddressSpace m') (stack_bottom (m_taskCount s + 1) + of_nat k * 0x1000) \<noteq> 0 \<and>
       get_physical_address m' (td_addressSpace desc) (stack_bottom (m_taskCount s + 1) + of_nat k * 0x1000) =
       get_physical_address m' (m_virtualAddressSpace m') (stack_bottom (m_taskCount s + 1) + of_nat k * 0x1000))"
proof -
  let ?tid = "m_taskCount s + 1"
  obtain m' where m': "prepare_stacks ?tid (td_addressSpace desc) m = Inr m'" "all_spaces R m'"
    "m_virtualAddressSpace m' = m_virtualAddressSpace m"
    "\<forall>k<32. get_physical_address m' (m_virtualAddressSpace m) (stack_bottom ?tid + of_nat k * 0x1000) \<noteq> 0 \<and>
       get_physical_address m' (td_addressSpace desc) (stack_bottom ?tid + of_nat k * 0x1000) =
       get_physical_address m' (m_virtualAddressSpace m) (stack_bottom ?tid + of_nat k * 0x1000)"
    using prepare_stacks_ok [OF assms(3-7)] by blast
  obtain res where l: "launch_task desc m s = Inr (m', res)" using m'(1) by (simp add: launch_task_def)
  then obtain s' gid where "res = Some (?tid, s')" "m_taskHashmap s ?tid = None" "is_ready (m_taskHashmap s') gid ?tid"
    using launch_task_spec [OF tm_reachable_inv [OF assms(1)] l] assms(2) unfolding launch_ok_def by blast
  moreover from this(1) l have "tm_reachable s'" using reach_step [OF assms(1) step_launch [OF assms(2)]] by simp
  ultimately show ?thesis using l m'(2-4) by metis
qed

theorem launch_task_stacks_witness:
  "\<exists>m' s'. launch_task example_desc example_space tm_new = Inr (m', Some (1, s')) \<and>
     get_physical_address m' (m_virtualAddressSpace m') (stack_bottom 1 + of_nat 31 * 0x1000) \<noteq> 0"
proof -
  have ok: "launch_ok example_desc tm_new" "td_addressSpace example_desc \<in> {0x1000}" "m_taskCount tm_new + 1 = 1"
    "m_virtualAddressSpace example_space \<in> {0x1000}" "320 \<le> card (free_frames example_space)"
    "m_taskCount tm_new + 1 < 2 ^ 21" "(31 :: nat) < 32"
    by (simp_all add: launch_ok_def example_desc_def tm_new_def example_spaces(2) example_space_frames)
  show ?thesis
    using launch_task_stacks [OF reach_new ok(1) example_spaces(1) ok(4,2,5,6)] ok(7) unfolding ok(3) by blast
qed

text \<open>
  Sleeping tasks. The sleepers are queued with the latest wake time first, and \<open>refresh\<close> stops
  at the first sleeper that is not due: as long as one task sleeps on, no sleeper is woken, however
  long it has been due.
\<close>

theorem sleepers_wait_for_latest:
  assumes "tm_reachable s" "st \<in> set (m_sleepingTasks s)" "now < st_wakeTime st"
  shows "wake_sleepers now (m_sleepingTasks s) s = Some s"
proof -
  obtain st' ss where ss: "m_sleepingTasks s = st' # ss" using assms(2) by (cases "m_sleepingTasks s") auto
  have "\<not> SleepingTask_gt st st'"
    using sleepers.top_maximal [OF tm_reachable_sleepers [OF assms(1)] _ assms(2), of st'] ss by simp
  then have "now < st_wakeTime st'" using assms(3) by (simp add: SleepingTask_gt_def)
  then show ?thesis using ss by simp
qed

definition example_asleep :: TaskManager where
  "example_asleep = the (sleep_until 110 500 example_running)"

lemma example_sleep: "sleep_until 110 500 example_running = Some example_asleep"
  "m_sleepingTasks example_asleep = [\<lparr>st_tid = 1, st_wakeTime = 500\<rparr>]"
  by (simp_all add: example_asleep_def sleep_until_def about_to_block_def block_def refresh_def choose_task_def
      get_next_task_def next_in_slice_def start_slice_def take_group_def enter_task_def lookup_defs
      fixedTimeslice_def deschedule_current_task_def example_launched_def example_running_def example_task_def
      tm_new_def vfb_new_def Let_def)

theorem sleepers_wait_for_latest_witness:
  "wake_sleepers 499 (m_sleepingTasks example_asleep) example_asleep = Some example_asleep"
proof -
  have "m_currentTask example_running \<noteq> 0" by (simp add: example_running_def)
  then have "tm_reachable example_asleep"
    using reach_step [OF example_running_reachable] step_sleep [OF _ example_sleep(1)] by blast
  then show ?thesis
    using sleepers_wait_for_latest [of example_asleep "\<lparr>st_tid = 1, st_wakeTime = 500\<rparr>" 499]
    by (simp add: example_sleep(2))
qed

text \<open>
  Which group runs next. The scheduler takes a group of the first priority queue as long as there
  is one, then of the second, and in each the group with the smallest priority number; only then it
  turns to the variable frequency buffer, where it takes the first group of the nearest list that is
  not empty, going round from the current list.
\<close>

theorem take_group_choice:
  assumes "sched_ok sch" "sched_queue sch \<noteq> {#}"
  shows "\<exists>gid sch'. take_group sch = Some (gid, sch') \<and> sched_queue sch = add_mset gid (sched_queue sch') \<and>
    (if m_queue0 sch \<noteq> []
     then \<exists>i\<in>set (m_queue0 sch). gid = pi_groupId i \<and> (\<forall>j\<in>set (m_queue0 sch). pi_priority i \<le> pi_priority j)
     else if m_queue1 sch \<noteq> []
     then \<exists>i\<in>set (m_queue1 sch). gid = pi_groupId i \<and> (\<forall>j\<in>set (m_queue1 sch). pi_priority i \<le> pi_priority j)
     else \<exists>d<256. let b = m_queue2 sch; i = (m_currentList b + d) mod 256 in
            buffer b ! i \<noteq> [] \<and> gid = hd (buffer b ! i) \<and> m_currentList (m_queue2 sch') = i \<and>
            (\<forall>d'<d. buffer b ! ((m_currentList b + d') mod 256) = []))"
proof -
  obtain gid sch' where t: "take_group sch = Some (gid, sch')" "sched_queue sch = add_mset gid (sched_queue sch')"
    using take_group_spec [OF assms(1)] assms(2) by auto
  have least: "\<forall>j\<in>set q. pi_priority i \<le> pi_priority j"
    if "queue_sorted TaskPriorityItem_gt q" "q = i # q'" for q i q'
    using prio.top_maximal [OF that(1), of i] that(2) by (fastforce simp: TaskPriorityItem_gt_def)
  have s: "queue_sorted TaskPriorityItem_gt (m_queue0 sch)" "queue_sorted TaskPriorityItem_gt (m_queue1 sch)"
    "vfb_inv (m_queue2 sch)"
    using assms(1) by (simp_all add: sched_ok_def)
  show ?thesis
  proof (cases "m_queue0 sch")
    case (Cons i q)
    then show ?thesis using t least [OF s(1) Cons] by (auto simp: take_group_def)
  next
    case Nil
    note empty0 = Nil
    show ?thesis
    proof (cases "m_queue1 sch")
      case (Cons i q)
      then show ?thesis using t empty0 least [OF s(2) Cons] by (auto simp: take_group_def)
    next
      case Nil
      then have ne: "vfb_m_size (m_queue2 sch) \<noteq> 0"
        using assms(2) s(3) empty0 by (auto simp: sched_queue_def vfb_inv_def vfb_groups_def)
      obtain d b' where d: "d < 256" "vfb_get_next (m_queue2 sch) = Some (gid, b')"
        "m_currentList b' = (m_currentList (m_queue2 sch) + d) mod 256"
        "gid = hd (buffer (m_queue2 sch) ! m_currentList b')" "buffer (m_queue2 sch) ! m_currentList b' \<noteq> []"
        "\<forall>d'<d. buffer (m_queue2 sch) ! ((m_currentList (m_queue2 sch) + d') mod 256) = []"
        and sch': "sch' = sch\<lparr>m_queue2 := b'\<rparr>"
        using vfb_get_next_spec [OF s(3) ne] t(1) empty0 Nil ne by (auto simp: take_group_def)
      then show ?thesis using t empty0 Nil by (auto simp: Let_def intro!: exI [of _ d])
    qed
  qed
qed

theorem take_group_choice_witness:
  "\<exists>gid sch'. take_group (m_scheduler example_launched) = Some (gid, sch') \<and>
     sched_queue (m_scheduler example_launched) = add_mset gid (sched_queue sch') \<and> gid = 1"
proof -
  have "sched_ok (m_scheduler example_launched)" "sched_queue (m_scheduler example_launched) \<noteq> {#}"
    "m_queue0 (m_scheduler example_launched) = [\<lparr>pi_groupId = 1, pi_priority = 10\<rparr>]"
    by (simp_all add: example_launched_def sched_ok_def sched_queue_def queue_sorted_def vfb_new_inv)
  then show ?thesis using take_group_choice by fastforce
qed

text \<open>
  The variable frequency buffer and a group of queue priority 0 (priority 512). When every group
  that is taken from the buffer is put back with queue priority 0, the current list never changes: only
  the groups of that list are chosen, in turn, and the groups of every other list wait for ever.
\<close>

theorem vfb_priority_zero_starves:
  assumes "vfb_inv b" "buffer b ! m_currentList b \<noteq> []"
  shows "\<exists>gids b'. vfb_rotate n b = Some (gids, b') \<and> set gids \<subseteq> set (buffer b ! m_currentList b) \<and>
    m_currentList b' = m_currentList b \<and>
    (\<forall>i. i \<noteq> m_currentList b \<longrightarrow> buffer b' ! i = buffer b ! i)"
  using vfb_rotate_stays [OF assms, of n] by fastforce

theorem vfb_priority_zero_starves_witness:
  "\<exists>gids b'. vfb_rotate 1000 (vfb_add 8 1 (vfb_add 7 0 vfb_new)) = Some (gids, b') \<and> set gids \<subseteq> {7} \<and>
     buffer b' ! 1 = [8]"
proof -
  let ?b = "vfb_add 8 1 (vfb_add 7 0 vfb_new)"
  have "vfb_inv ?b" using vfb_add_inv vfb_new_inv by blast
  moreover have "m_currentList ?b = 0" "buffer ?b ! 0 = [7]" "buffer ?b ! 1 = [8]"
    by (simp_all add: vfb_add_def vfb_new_def VARFREQ_CIRCULAR_BUFFER_SIZE_def Let_def)
  ultimately show ?thesis using vfb_priority_zero_starves [of ?b 1000] by fastforce
qed

end
