(* ===== verification/Tasks_Sync.thy ===== *)
theory Tasks_Sync
  imports Task_Properties
begin

text \<open>
  Spinlocks, mutexes and wait queues: \<open>Kernel/Tasks/Spinlock.h\<close>, \<open>Mutex.h\<close>, \<open>WaitQueue.h\<close> and their
  implementations. The kernel runs on one processor: a spinlock that is already held is never
  released while another acquirer spins with interrupts disabled, so such an \<open>acquire\<close> does not
  return and is the value \<^const>\<open>None\<close>. The spinlocks inside a mutex and a wait queue are taken and
  released within the operation and are left out of their state.
\<close>

subsection \<open>Spinlocks\<close>

text \<open>The counter and the flag shared by all spinlocks, and the processor's interrupt flag.\<close>

record SpinlockState =
  m_cli :: nat
  m_shouldRestore :: bool
  rflags_if :: bool

definition push_cli :: "SpinlockState \<Rightarrow> SpinlockState" where
  "push_cli s =
     (let rflags = rflags_if s; s1 = s\<lparr>rflags_if := False\<rparr>
      in if m_cli s1 = 0 then s1\<lparr>m_cli := m_cli s1 + 1, m_shouldRestore := rflags\<rparr>
         else s1\<lparr>m_cli := m_cli s1 + 1\<rparr>)"

definition pop_cli :: "SpinlockState \<Rightarrow> SpinlockState" where
  "pop_cli s =
     (let s1 = s\<lparr>m_cli := m_cli s - 1\<rparr>
      in if m_cli s1 = 0 \<and> m_shouldRestore s1 then s1\<lparr>rflags_if := True\<rparr> else s1)"

definition spinlock_acquire :: "bool \<Rightarrow> SpinlockState \<Rightarrow> (bool \<times> SpinlockState) option" where
  "spinlock_acquire m_locked s = (let s = push_cli s in if m_locked then None else Some (True, s))"

definition spinlock_try_acquire :: "bool \<Rightarrow> SpinlockState \<Rightarrow> bool \<times> bool \<times> SpinlockState" where
  "spinlock_try_acquire m_locked s =
     (let s = push_cli s in if m_locked then (False, True, pop_cli s) else (True, True, s))"

definition spinlock_release :: "bool \<Rightarrow> SpinlockState \<Rightarrow> bool \<times> SpinlockState" where
  "spinlock_release m_locked s = (False, pop_cli s)"

definition spinlock_is_acquired :: "bool \<Rightarrow> bool" where
  "spinlock_is_acquired m_locked = m_locked"

text \<open>
  \<open>LockAcquirer\<close> takes the lock in its constructor and releases it in its destructor unless it was
  moved from or the lock was released before.
\<close>

definition LockAcquirer_construct :: "bool \<Rightarrow> SpinlockState \<Rightarrow> (bool \<times> SpinlockState) option" where
  "LockAcquirer_construct m_locked s = spinlock_acquire m_locked s"

definition LockAcquirer_destruct :: "bool \<Rightarrow> bool \<Rightarrow> SpinlockState \<Rightarrow> bool \<times> SpinlockState" where
  "LockAcquirer_destruct moved m_locked s =
     (if \<not> moved \<and> spinlock_is_acquired m_locked then spinlock_release m_locked s else (m_locked, s))"

definition ConditionalSpinlockAcquirer_construct ::
  "bool \<Rightarrow> bool \<Rightarrow> SpinlockState \<Rightarrow> (bool \<times> SpinlockState) option" where
  "ConditionalSpinlockAcquirer_construct SpinlockEnable m_locked s =
     (if SpinlockEnable then spinlock_acquire m_locked s else Some (m_locked, s))"

definition ConditionalSpinlockAcquirer_destruct :: "bool \<Rightarrow> bool \<Rightarrow> SpinlockState \<Rightarrow> bool \<times> SpinlockState" where
  "ConditionalSpinlockAcquirer_destruct SpinlockEnable m_locked s =
     (if SpinlockEnable \<and> spinlock_is_acquired m_locked then spinlock_release m_locked s else (m_locked, s))"

text \<open>
  A run of the processor: locks, identified by numbers, are acquired, tried and released in any
  order; a lock is only released while it is held, and only a free lock is acquired.
\<close>

datatype lock_op = Acquire nat | TryAcquire nat | Release nat

fun run_lock :: "lock_op \<Rightarrow> nat set \<times> SpinlockState \<Rightarrow> (nat set \<times> SpinlockState) option" where
  "run_lock (Acquire l) (held, s) =
     (case spinlock_acquire (l \<in> held) s of None \<Rightarrow> None | Some (_, s) \<Rightarrow> Some (insert l held, s))"
| "run_lock (TryAcquire l) (held, s) =
     (case spinlock_try_acquire (l \<in> held) s of (got, _, s) \<Rightarrow> Some (if got then insert l held else held, s))"
| "run_lock (Release l) (held, s) =
     (if l \<in> held then Some (held - {l}, snd (spinlock_release True s)) else None)"

fun run_locks :: "lock_op list \<Rightarrow> nat set \<times> SpinlockState \<Rightarrow> (nat set \<times> SpinlockState) option" where
  "run_locks [] x = Some x"
| "run_locks (o1 # os) x = (case run_lock o1 x of None \<Rightarrow> None | Some x \<Rightarrow> run_locks os x)"

definition locks_inv :: "bool \<Rightarrow> nat set \<times> SpinlockState \<Rightarrow> bool" where
  "locks_inv i = (\<lambda>(held, s). finite held \<and> m_cli s = card held \<and>
     (if held = {} then rflags_if s = i else \<not> rflags_if s \<and> m_shouldRestore s = i))"

lemma push_cli_inv:
  assumes "locks_inv i (held, s)" "l \<notin> held"
  shows "locks_inv i (insert l held, push_cli s)"
  using assms by (cases "held = {}") (simp_all add: locks_inv_def push_cli_def Let_def)

lemma pop_cli_inv:
  assumes "locks_inv i (held, s)" "l \<in> held"
  shows "locks_inv i (held - {l}, pop_cli s)"
proof -
  have f: "finite held" "m_cli s = card held" "held \<noteq> {}" using assms by (auto simp: locks_inv_def)
  have "m_cli s - 1 = card (held - {l})" using f assms(2) by simp
  moreover have "card (held - {l}) = 0 \<longleftrightarrow> held - {l} = {}" using f(1) by (simp only: card_0_eq finite_Diff)
  ultimately show ?thesis using assms(1) f unfolding locks_inv_def pop_cli_def Let_def
    by (cases "held - {l} = {}") auto
qed

lemma push_pop_inv:
  assumes "locks_inv i (held, s)" "l \<in> held"
  shows "locks_inv i (held, pop_cli (push_cli s))"
  using assms by (cases "held = {}") (auto simp: locks_inv_def push_cli_def pop_cli_def Let_def)

lemma run_lock_inv: "locks_inv i (held, s) \<Longrightarrow> run_lock op (held, s) = Some x' \<Longrightarrow> locks_inv i x'"
proof (cases op)
  case (Acquire l)
  assume "locks_inv i (held, s)" "run_lock op (held, s) = Some x'"
  then show ?thesis using Acquire push_cli_inv [of i held s l]
    by (simp add: spinlock_acquire_def Let_def split: if_splits)
next
  case (TryAcquire l)
  assume "locks_inv i (held, s)" "run_lock op (held, s) = Some x'"
  then show ?thesis using TryAcquire push_cli_inv [of i held s l] push_pop_inv [of i held s l]
    by (auto simp: spinlock_try_acquire_def Let_def split: if_splits)
next
  case (Release l)
  assume "locks_inv i (held, s)" "run_lock op (held, s) = Some x'"
  then show ?thesis using Release pop_cli_inv [of i held s l]
    by (auto simp: spinlock_release_def split: if_splits)
qed

lemma run_locks_inv: "locks_inv i x \<Longrightarrow> run_locks ops x = Some x' \<Longrightarrow> locks_inv i x'"
  by (induction ops arbitrary: x) (auto dest: run_lock_inv split: option.splits)

subsection \<open>Mutexes\<close>

record Mutex =
  m_waitingTasks :: "TaskID list"
  m_acquired :: bool

definition mutex_new :: Mutex where
  "mutex_new = \<lparr>m_waitingTasks = [], m_acquired = False\<rparr>"

definition mutex_acquire :: "nat \<Rightarrow> Mutex \<Rightarrow> TaskManager \<Rightarrow> (Mutex \<times> TaskManager) option" where
  "mutex_acquire now m s =
     (if \<not> m_isActive s then Some (m, s)
      else if m_acquired m
      then case about_to_block s of
             None \<Rightarrow> None
           | Some s \<Rightarrow>
               let m = m\<lparr>m_waitingTasks := m_waitingTasks m @ [m_currentTask s]\<rparr>
               in (case block now s of None \<Rightarrow> None | Some s \<Rightarrow> Some (m, s))
      else Some (m\<lparr>m_acquired := True\<rparr>, s))"

definition mutex_release :: "nat \<Rightarrow> Mutex \<Rightarrow> TaskManager \<Rightarrow> (Mutex \<times> TaskManager) option" where
  "mutex_release now m s =
     (if \<not> m_isActive s then Some (m, s)
      else case m_waitingTasks m of
             [] \<Rightarrow> Some (m\<lparr>m_acquired := False\<rparr>, s)
           | t # ts \<Rightarrow>
               (case unblock t s of
                  None \<Rightarrow> None
                | Some s \<Rightarrow>
                    let m = m\<lparr>m_waitingTasks := ts\<rparr>
                    in (case refresh now s of None \<Rightarrow> None | Some s \<Rightarrow> Some (m, s))))"

definition mutex_is_acquired :: "Mutex \<Rightarrow> bool" where
  "mutex_is_acquired m = m_acquired m"

subsection \<open>Wait queues\<close>

text \<open>
  The queue is the list's sequence of nodes, each with its address; \<open>Item\<close> is the iterator to a node.
  \<open>new_addr\<close> is the address the allocator gives the new node.
\<close>

type_synonym WaitQueue = "(addr \<times> TaskID) list"

definition add_to_queue :: "addr \<Rightarrow> WaitQueue \<Rightarrow> TaskManager \<Rightarrow> (addr \<times> WaitQueue \<times> TaskManager) option" where
  "add_to_queue new_addr m_queue s =
     (let tid = m_currentTask s
      in case about_to_block s of
           None \<Rightarrow> None
         | Some s \<Rightarrow> let m_queue = m_queue @ [(new_addr, tid)] in Some (fst (last m_queue), m_queue, s))"

fun unblock_all :: "TaskID list \<Rightarrow> TaskManager \<Rightarrow> TaskManager option" where
  "unblock_all [] s = Some s"
| "unblock_all (tid # tids) s = (case unblock tid s of None \<Rightarrow> None | Some s \<Rightarrow> unblock_all tids s)"

definition wake_queue :: "WaitQueue \<Rightarrow> TaskManager \<Rightarrow> (nat \<times> TaskManager) option" where
  "wake_queue m_queue s =
     (case unblock_all (map snd m_queue) s of None \<Rightarrow> None | Some s \<Rightarrow> Some (length m_queue, s))"

definition wake_one :: "WaitQueue \<Rightarrow> TaskManager \<Rightarrow> (nat \<times> TaskManager) option" where
  "wake_one m_queue s =
     (case m_queue of
        [] \<Rightarrow> Some (0, s)
      | (_, tid) # _ \<Rightarrow> (case unblock tid s of None \<Rightarrow> None | Some s \<Rightarrow> Some (1, s)))"

definition remove_from_queue :: "addr \<Rightarrow> WaitQueue \<Rightarrow> WaitQueue option" where
  "remove_from_queue item m_queue =
     (if item \<in> fst ` set m_queue then Some (filter (\<lambda>(a, _). a \<noteq> item) m_queue) else None)"

definition queue_is_empty :: "WaitQueue \<Rightarrow> bool" where
  "queue_is_empty m_queue \<longleftrightarrow> length m_queue = 0"

subsection \<open>Ready tasks stay ready\<close>

lemma tasks_scheduler:
  "add_group_to_queue gid s = Some s' \<Longrightarrow> m_taskHashmap s' = m_taskHashmap s"
  "next_in_slice now s = Some (r, s') \<Longrightarrow> m_taskHashmap s' = m_taskHashmap s"
  "start_slice now s = Some (tid, s') \<Longrightarrow> m_taskHashmap s' = m_taskHashmap s"
proof -
  show a: "add_group_to_queue gid s = Some s' \<Longrightarrow> m_taskHashmap s' = m_taskHashmap s" for gid s s'
    by (auto simp: add_group_to_queue_def lookup_defs Let_def split: option.splits)
  show "next_in_slice now s = Some (r, s') \<Longrightarrow> m_taskHashmap s' = m_taskHashmap s"
    by (auto simp: next_in_slice_def lookup_defs Let_def dest: a split: option.splits if_splits)
  show "start_slice now s = Some (tid, s') \<Longrightarrow> m_taskHashmap s' = m_taskHashmap s"
    by (auto simp: start_slice_def lookup_defs Let_def split: option.splits if_splits list.splits)
qed

lemma choose_task_ready:
  "choose_task now s = Some s' \<Longrightarrow> is_ready (m_taskHashmap s) gid t \<Longrightarrow> is_ready (m_taskHashmap s') gid t"
  by (auto simp: choose_task_def get_next_task_def enter_task_def lookup_defs Let_def is_ready_def
      dest!: tasks_scheduler(2,3) split: option.splits if_splits)

lemma wakes_ready: "wakes s s' \<Longrightarrow> is_ready (m_taskHashmap s) gid t \<Longrightarrow> is_ready (m_taskHashmap s') gid t"
  unfolding wakes_def is_ready_def by (metis State.distinct(5))

lemma refresh_ready:
  assumes "tm_inv x s" "refresh now s = Some s'" "is_ready (m_taskHashmap s) gid t"
  shows "is_ready (m_taskHashmap s') gid t"
proof -
  have "tm_base x (current_group s) s" using assms(1) by (simp add: tm_inv_def)
  then obtain s1 where s1: "wake_sleepers now (m_sleepingTasks s) s = Some s1" "wakes s s1"
    using wake_sleepers_spec by blast
  then have "is_ready (m_taskHashmap s1) gid t" using wakes_ready assms(3) by blast
  then show ?thesis using assms(2) s1(1) choose_task_ready [of now "s1\<lparr>m_schedulerChangingTask := True\<rparr>" s' gid t]
    by (auto simp: refresh_def split: if_splits)
qed

lemma unblock_ready:
  assumes "unblock tid s = Some s'" "m_taskHashmap s tid = Some t"
  shows "is_ready (m_taskHashmap s') (t_groupId t) tid"
  using assms by (auto simp: unblock_def lookup_defs schedule_group_def Let_def is_ready_def
      dest!: tasks_scheduler(1) split: option.splits if_splits)

definition launched :: "TaskManager \<Rightarrow> TaskID \<Rightarrow> bool" where
  "launched s tid \<longleftrightarrow> (\<exists>t. m_taskHashmap s tid = Some t)"

lemma wakes_started: "wakes s s' \<Longrightarrow> launched s tid \<Longrightarrow> launched s' tid"
  unfolding wakes_def launched_def by metis

lemma unblock_task:
  assumes r: "tm_reachable tm" and t: "launched tm t"
  shows "\<exists>tm' T. unblock t tm = Some tm' \<and> tm_reachable tm' \<and> m_currentTask tm' = m_currentTask tm \<and>
    m_taskHashmap tm' = (m_taskHashmap tm)(t \<mapsto> T) \<and> t_state T = READY \<and> wakes tm tm'"
proof -
  obtain T0 where T0: "m_taskHashmap tm t = Some T0" using t by (auto simp: launched_def)
  have "tm_base False (current_group tm) tm" using tm_reachable_inv [OF r] by (simp add: tm_inv_def)
  from unblock_spec [OF this T0] obtain tm' T where u: "unblock t tm = Some tm'" "m_currentTask tm' = m_currentTask tm"
    "m_schedulerChangingTask tm' = m_schedulerChangingTask tm" "m_taskHashmap tm' = (m_taskHashmap tm)(t \<mapsto> T)" "t_groupId T = t_groupId T0" "t_state T = READY" by blast
  then have "wakes tm tm'" using T0 by (auto simp: wakes_def)
  moreover have "tm_reachable tm'" by (rule reach_step [OF r step_unblock [OF u(1)]])
  ultimately show ?thesis using u by blast
qed

lemma unblock_all_reachable:
  assumes "tm_reachable s" "\<forall>t\<in>set ts. launched s t"
  shows "\<exists>s'. unblock_all ts s = Some s' \<and> tm_reachable s' \<and> wakes s s' \<and>
    (\<forall>t\<in>set ts. \<exists>gid. is_ready (m_taskHashmap s') gid t)"
  using assms
proof (induction ts arbitrary: s)
  case Nil
  then show ?case by simp
next
  case (Cons t ts)
  obtain k where k: "m_taskHashmap s t = Some k"
    using Cons.prems(2) by (auto simp: launched_def)
  obtain s1 where s1: "unblock t s = Some s1" "wakes s s1"
    using unblock_inv [OF tm_reachable_inv [OF Cons.prems(1)] k] by blast
  have r: "tm_reachable s1" using reach_step [OF Cons.prems(1) step_unblock [OF s1(1)]] .
  have "\<forall>t\<in>set ts. launched s1 t" using Cons.prems(2) wakes_started [OF s1(2)] by simp
  then obtain s2 where s2: "unblock_all ts s1 = Some s2" "tm_reachable s2" "wakes s1 s2"
    "\<forall>t\<in>set ts. \<exists>gid. is_ready (m_taskHashmap s2) gid t"
    using Cons.IH [OF r] by blast
  moreover have "is_ready (m_taskHashmap s2) (t_groupId k) t"
    using wakes_ready [OF s2(3)] unblock_ready [OF s1(1) k] by blast
  ultimately show ?case using s1 wakes_trans by auto
qed

subsection \<open>Properties\<close>

lemma example_asleep_started: "tm_reachable example_asleep" "launched example_asleep 1" "m_isActive example_asleep"
proof -
  have "m_currentTask example_running \<noteq> 0" by (simp add: example_running_def)
  then show r: "tm_reachable example_asleep"
    using reach_step [OF example_running_reachable] step_sleep [OF _ example_sleep(1)] by blast
  show "launched example_asleep 1"
    using tm_baseD(5) [of False "current_group example_asleep" example_asleep] tm_reachable_inv [OF r] example_sleep(2)
    by (auto simp: tm_inv_def sleepers_ok_def launched_def)
  show "m_isActive example_asleep"
    by (simp add: example_asleep_def sleep_until_def about_to_block_def block_def refresh_def choose_task_def
        get_next_task_def next_in_slice_def start_slice_def take_group_def enter_task_def lookup_defs
        fixedTimeslice_def deschedule_current_task_def example_launched_def example_running_def example_task_def
        tm_new_def vfb_new_def Let_def)
qed



text \<open>
  C32: Interrupts and spinlocks. However acquisitions, attempts and releases of any number of locks are
  interleaved, interrupts are disabled as long as a lock is held, and when the last one is released
  they are enabled exactly if they were before the first was taken; the counter is the number of locks
  held.
\<close>

theorem spinlocks_interrupts:
  assumes "run_locks ops ({}, \<lparr>m_cli = 0, m_shouldRestore = r, rflags_if = i\<rparr>) = Some (held, s)"
  shows "m_cli s = card held \<and> (if held = {} then rflags_if s = i else \<not> rflags_if s)"
proof -
  have "locks_inv i ({}, \<lparr>m_cli = 0, m_shouldRestore = r, rflags_if = i\<rparr>)" by (simp add: locks_inv_def)
  then show ?thesis using run_locks_inv [OF _ assms] by (auto simp: locks_inv_def split: if_splits)
qed

theorem spinlocks_interrupts_witness:
  "\<exists>s. run_locks [Acquire 1, TryAcquire 1, Acquire 2, Release 1, Release 2]
     ({}, \<lparr>m_cli = 0, m_shouldRestore = False, rflags_if = True\<rparr>) = Some ({}, s) \<and> rflags_if s"
proof -
  let ?ops = "[Acquire 1, TryAcquire 1, Acquire 2, Release 1, Release 2]"
    and ?x = "({}, \<lparr>m_cli = 0, m_shouldRestore = False, rflags_if = True\<rparr>)"
  have d: "{2, 1} - {1} - {2} = ({} :: nat set)" by auto
  obtain s where s: "run_locks ?ops ?x = Some ({}, s)"
    using d by (simp add: spinlock_acquire_def spinlock_try_acquire_def spinlock_release_def push_cli_def pop_cli_def Let_def)
  then show ?thesis using spinlocks_interrupts [OF s] by auto
qed

text \<open>
  A mutex is handed over in the order of arrival. Releasing a mutex that tasks wait for leaves it
  acquired, removes the task that waited longest from the waiting list and makes it ready, and the
  others keep their order.
\<close>

theorem mutex_release_handover:
  assumes "tm_reachable s" "m_isActive s" "m_waitingTasks m = t # ts" "launched s t"
  shows "\<exists>m' s' gid. mutex_release now m s = Some (m', s') \<and> m_acquired m' = m_acquired m \<and>
    m_waitingTasks m' = ts \<and> tm_reachable s' \<and> is_ready (m_taskHashmap s') gid t"
proof -
  obtain k where k: "m_taskHashmap s t = Some k" using assms(4) by (auto simp: launched_def)
  obtain s1 where s1: "unblock t s = Some s1" "tm_inv False s1"
    using unblock_inv [OF tm_reachable_inv [OF assms(1)] k] by blast
  obtain s2 where s2: "refresh now s1 = Some s2" using refresh_inv [OF s1(2)] by blast
  have "tm_reachable s2"
    using reach_step [OF reach_step [OF assms(1) step_unblock [OF s1(1)]] step_refresh [OF s2]] .
  then show ?thesis using assms(2,3) s1(1) s2 refresh_ready [OF s1(2) s2 unblock_ready [OF s1(1) k]]
    by (auto simp: mutex_release_def Let_def)
qed

theorem mutex_release_handover_witness:
  "\<exists>m' s' gid. mutex_release 200 \<lparr>m_waitingTasks = [1], m_acquired = True\<rparr> example_asleep = Some (m', s') \<and>
     m_acquired m' \<and> m_waitingTasks m' = [] \<and> is_ready (m_taskHashmap s') gid 1"
  using mutex_release_handover [OF example_asleep_started(1,3), of "\<lparr>m_waitingTasks = [1], m_acquired = True\<rparr>" 1 "[]" 200]
    example_asleep_started(2) by auto

text \<open>
  Waking a wait queue makes every task in it ready, leaves the queue to the waiters, who remove
  themselves, and reports how many there are.
\<close>

theorem wake_queue_wakes_all:
  assumes "tm_reachable s" "\<forall>(a, t)\<in>set m_queue. launched s t"
  shows "\<exists>s'. wake_queue m_queue s = Some (length m_queue, s') \<and> tm_reachable s' \<and>
    (\<forall>(a, t)\<in>set m_queue. \<exists>gid. is_ready (m_taskHashmap s') gid t)"
proof -
  have "\<forall>t\<in>set (map snd m_queue). launched s t" using assms(2) by auto
  then obtain s' where "unblock_all (map snd m_queue) s = Some s'" "tm_reachable s'"
    "\<forall>t\<in>set (map snd m_queue). \<exists>gid. is_ready (m_taskHashmap s') gid t"
    using unblock_all_reachable [OF assms(1)] by blast
  then show ?thesis by (fastforce simp: wake_queue_def)
qed

theorem wake_queue_wakes_all_witness:
  "\<exists>s' gid. wake_queue [(100, 1)] example_asleep = Some (1, s') \<and> is_ready (m_taskHashmap s') gid 1"
  using wake_queue_wakes_all [OF example_asleep_started(1), of "[(100, 1)]"] example_asleep_started(2) by auto

end
