(* ===== verification/Address_Space.thy ===== *)
theory Address_Space
  imports Physical_Memory
begin

text \<open>
  The regions of an address space, \<open>Kernel/Memory/AddressSpace.h\<close> and \<open>AddressSpace.cpp\<close>: the sorted
  list of \<open>MappedRegion\<close>s of a \<open>RegionableVirtualAddressSpace\<close>. Addresses are 64-bit words, compared
  as unsigned numbers when they are pointers; the size of a gap is a signed difference.
\<close>

record MappedRegion =
  r_start :: u64
  r_end :: u64

definition region_length :: "MappedRegion \<Rightarrow> u64" where
  "region_length r = r_end r - r_start r"

definition region_null :: MappedRegion where
  "region_null = \<lparr>r_start = 0, r_end = 0\<rparr>"

fun insert_region :: "MappedRegion \<Rightarrow> MappedRegion list \<Rightarrow> MappedRegion list" where
  "insert_region region [] = [region]"
| "insert_region region (it # m_sortedRegions) =
     (if r_start it < r_start region then it # insert_region region m_sortedRegions
      else region # it # m_sortedRegions)"

fun extract_region :: "u64 \<Rightarrow> MappedRegion list \<Rightarrow> MappedRegion \<times> MappedRegion list" where
  "extract_region start [] = (region_null, [])"
| "extract_region start (it # m_sortedRegions) =
     (if r_start it = start then (it, m_sortedRegions)
      else let (region, rest) = extract_region start m_sortedRegions in (region, it # rest))"

fun find_region_begin :: "u64 \<Rightarrow> u64 \<Rightarrow> MappedRegion list \<Rightarrow> u64" where
  "find_region_begin sz regionBegin [] = regionBegin"
| "find_region_begin sz regionBegin [currentIt] = r_end currentIt"
| "find_region_begin sz regionBegin (currentIt # it # m_sortedRegions) =
     find_region_begin sz
       (if sint sz \<le> sint (r_start it - r_end currentIt) then r_end currentIt else regionBegin)
       (it # m_sortedRegions)"

definition acquire_available_region :: "u64 \<Rightarrow> MappedRegion list \<Rightarrow> MappedRegion \<times> MappedRegion list" where
  "acquire_available_region sz m_sortedRegions =
     (let sz = BYTE_ALIGN_UP sz 0x1000;
          regionBegin = find_region_begin sz 0x1000 m_sortedRegions;
          region = \<lparr>r_start = regionBegin, r_end = regionBegin + sz\<rparr>
      in (region, insert_region region m_sortedRegions))"

text \<open>A well-formed list: no region is empty and each ends before the next one starts.\<close>

definition regions_ok :: "MappedRegion list \<Rightarrow> bool" where
  "regions_ok rs \<longleftrightarrow> sorted_wrt (\<lambda>a b. r_end a \<le> r_start b) rs \<and> (\<forall>r\<in>set rs. r_start r < r_end r)"

lemma find_region_begin_last: "rs \<noteq> [] \<Longrightarrow> find_region_begin sz b rs = r_end (last rs)"
  by (induction sz b rs rule: find_region_begin.induct) auto

lemma insert_region_last: "\<forall>r\<in>set rs. r_start r < r_start region \<Longrightarrow> insert_region region rs = rs @ [region]"
  by (induction rs) auto

lemma set_insert_region [simp]: "set (insert_region region rs) = insert region (set rs)"
  by (induction rs) auto

lemma regions_ok_last:
  assumes "regions_ok rs" "rs \<noteq> []" "r \<in> set rs"
  shows "r_end r \<le> r_end (last rs)" "r_start r < r_end (last rs)"
proof -
  obtain xs x where rs: "rs = xs @ [x]" using assms(2) by (cases rs rule: rev_cases) auto
  have "r_end r \<le> r_end x"
    using assms unfolding rs regions_ok_def by (auto simp: sorted_wrt_append intro: order.trans less_imp_le)
  then show "r_end r \<le> r_end (last rs)" "r_start r < r_end (last rs)"
    using assms(1,3) unfolding rs regions_ok_def by (auto intro: less_le_trans)
qed

lemma insert_region_ok:
  assumes "regions_ok rs" "r_start region < r_end region"
    and "\<forall>r\<in>set rs. r_end r \<le> r_start region \<or> r_end region \<le> r_start r"
  shows "regions_ok (insert_region region rs)"
  using assms
proof (induction rs)
  case Nil
  then show ?case by (simp add: regions_ok_def)
next
  case (Cons it rs)
  have it: "r_start it < r_end it" "\<forall>r\<in>set rs. r_end it \<le> r_start r" "regions_ok rs"
    "\<forall>r\<in>set rs. r_start r < r_end r"
    using Cons.prems(1) by (auto simp: regions_ok_def)
  have h: "r_end it \<le> r_start region \<or> r_end region \<le> r_start it" using Cons.prems(3) by simp
  show ?case
  proof (cases "r_start it < r_start region")
    case True
    then have "r_end it \<le> r_start region" using h Cons.prems(2) by auto
    moreover have "regions_ok (insert_region region rs)" using Cons.IH [OF it(3) Cons.prems(2)] Cons.prems(3) by simp
    ultimately show ?thesis using True it by (auto simp: regions_ok_def)
  next
    case False
    then have e: "r_end region \<le> r_start it" using h it(1) by auto
    then have "r_end region \<le> r_start r" if "r \<in> set rs" for r
      using it(1,2) that by (meson less_imp_le order.trans)
    then show ?thesis using False e Cons.prems(1,2) by (auto simp: regions_ok_def)
  qed
qed

lemma acquire_region_ok:
  fixes rs sz
  defines "len \<equiv> BYTE_ALIGN_UP sz 0x1000" and "b \<equiv> (if rs = [] then 0x1000 else r_end (last rs))"
  assumes "regions_ok rs" "0 < len" "unat b + unat len < 2 ^ 64"
  shows "\<exists>region rs'. acquire_available_region sz rs = (region, rs') \<and> rs' = rs @ [region] \<and>
    regions_ok rs' \<and> r_start region = b \<and> region_length region = len \<and>
    (\<forall>r\<in>set rs. r_end r \<le> r_start region)"
proof -
  let ?r = "\<lparr>r_start = b, r_end = b + len\<rparr>"
  have f: "find_region_begin len 0x1000 rs = b" by (auto simp: b_def find_region_begin_last)
  have u: "unat (b + len) = unat b + unat len" using assms(5) by (simp add: unat_plus_if_size word_size)
  have lt: "b < b + len" using assms(4) unfolding word_less_nat_alt u by simp
  have last: "r_end r \<le> b" "r_start r < b" if "r \<in> set rs" for r
    using regions_ok_last [OF assms(3) _ that] that by (auto simp: b_def)
  have i: "insert_region ?r rs = rs @ [?r]" using insert_region_last [of rs ?r] last by simp
  have "regions_ok (insert_region ?r rs)" using insert_region_ok [OF assms(3), of ?r] last lt by simp
  then show ?thesis using f i last
    by (intro exI [of _ ?r]) (simp add: acquire_available_region_def len_def [symmetric] region_length_def Let_def)
qed

subsection \<open>Properties\<close>

text \<open>
  Removing a region that was inserted gives the region back and restores the list.
\<close>

theorem extract_insert_region:
  assumes "r_start region \<notin> r_start ` set rs"
  shows "extract_region (r_start region) (insert_region region rs) = (region, rs)"
  using assms by (induction rs) auto

theorem extract_insert_region_witness:
  "extract_region 0x5000 (insert_region \<lparr>r_start = 0x5000, r_end = 0x6000\<rparr> [\<lparr>r_start = 0x1000, r_end = 0x3000\<rparr>]) =
     (\<lparr>r_start = 0x5000, r_end = 0x6000\<rparr>, [\<lparr>r_start = 0x1000, r_end = 0x3000\<rparr>])"
  using extract_insert_region [of "\<lparr>r_start = 0x5000, r_end = 0x6000\<rparr>" "[\<lparr>r_start = 0x1000, r_end = 0x3000\<rparr>]"]
  by simp

text \<open>
  A region acquired from an address space is disjoint from all others and has the requested
  length, rounded up to pages. It always follows the last region, or starts at the first page when
  there is none, even when an earlier gap is large enough.
\<close>

theorem acquire_available_region_disjoint:
  fixes rs sz
  defines "len \<equiv> BYTE_ALIGN_UP sz 0x1000" and "b \<equiv> (if rs = [] then 0x1000 else r_end (last rs))"
  assumes "regions_ok rs" "0 < len" "unat b + unat len < 2 ^ 64"
  shows "\<exists>region rs'. acquire_available_region sz rs = (region, rs') \<and> rs' = rs @ [region] \<and>
    regions_ok rs' \<and> r_start region = b \<and> region_length region = len \<and>
    (\<forall>r\<in>set rs. r_end r \<le> r_start region)"
  using acquire_region_ok [of rs sz] assms by blast

theorem acquire_available_region_disjoint_witness:
  "\<exists>region rs'. acquire_available_region 100 [\<lparr>r_start = 0x1000, r_end = 0x2000\<rparr>, \<lparr>r_start = 0x9000, r_end = 0xA000\<rparr>]
     = (region, rs') \<and> regions_ok rs' \<and> r_start region = 0xA000"
  using acquire_available_region_disjoint
      [of "[\<lparr>r_start = 0x1000, r_end = 0x2000\<rparr>, \<lparr>r_start = 0x9000, r_end = 0xA000\<rparr>]" 100]
  by (auto simp: regions_ok_def BYTE_ALIGN_UP_def)

end
