(* ===== verification/Common_RefCount.thy ===== *)
theory Common_RefCount
  imports Xp_Prelude "HOL-Library.Multiset"
begin

text \<open>
  The reference counted handle \<open>AutomaticReferenceCountable\<close> of \<open>Kernel/Common/ReferenceCounting.h\<close>. A
  handle is the pointer \<open>m_controlBlock\<close>, the control blocks are in a heap. The copy constructor
  follows the pointer without a test, so that copying a handle that was moved from is a fault.
\<close>

record 'a ControlBlock =
  m_resource :: 'a
  m_refCount :: nat

type_synonym 'a arc_heap = "addr \<rightharpoonup> 'a ControlBlock"

definition arc_new :: "addr \<Rightarrow> 'a \<Rightarrow> 'a arc_heap \<Rightarrow> 'a arc_heap \<times> ptr" where
  "arc_new a resource h =
     (let block = \<lparr>m_resource = resource, m_refCount = 0\<rparr>
      in (h(a \<mapsto> block\<lparr>m_refCount := m_refCount block + 1\<rparr>), Some a))"

definition arc_copy :: "ptr \<Rightarrow> 'a arc_heap \<Rightarrow> ('a arc_heap \<times> ptr) option" where
  "arc_copy sharedResource h = do {
     a \<leftarrow> sharedResource;
     block \<leftarrow> h a;
     Some (h(a \<mapsto> block\<lparr>m_refCount := m_refCount block + 1\<rparr>), sharedResource)
   }"

definition arc_move :: "ptr \<Rightarrow> ptr \<times> ptr" where
  "arc_move sharedResource = (sharedResource, None)"

definition arc_swap :: "ptr \<Rightarrow> ptr \<Rightarrow> ptr \<times> ptr" where
  "arc_swap a b = (b, a)"

definition arc_deref :: "ptr \<Rightarrow> 'a arc_heap \<Rightarrow> 'a option" where
  "arc_deref p h = do { a \<leftarrow> p; block \<leftarrow> h a; Some (m_resource block) }"

definition arc_destroy :: "ptr \<Rightarrow> 'a arc_heap \<Rightarrow> 'a arc_heap option" where
  "arc_destroy p h =
     (case p of
        None \<Rightarrow> Some h
      | Some a \<Rightarrow>
          (case h a of
             None \<Rightarrow> None
           | Some block \<Rightarrow>
               let n = m_refCount block - 1
               in Some (if n = 0 then h(a := None) else h(a \<mapsto> block\<lparr>m_refCount := n\<rparr>))))"

text \<open>
  The assignment takes its argument by value: the argument is copied, swapped with the handle, and
  the copy, which now has the old control block, is destroyed.
\<close>

definition arc_assign :: "ptr \<Rightarrow> ptr \<Rightarrow> 'a arc_heap \<Rightarrow> ('a arc_heap \<times> ptr) option" where
  "arc_assign this sharedResource h = do {
     (h, argument) \<leftarrow> arc_copy sharedResource h;
     let (this, argument) = arc_swap this argument;
     h \<leftarrow> arc_destroy argument h;
     Some (h, this)
   }"

text \<open>The move assignment overwrites the handle without releasing its control block.\<close>

definition arc_move_assign :: "ptr \<Rightarrow> ptr \<Rightarrow> ptr \<times> ptr" where
  "arc_move_assign this sharedResource = (sharedResource, None)"

subsection \<open>Counting handles\<close>

definition refs :: "'a arc_heap \<Rightarrow> addr \<Rightarrow> nat" where
  "refs h a = (case h a of None \<Rightarrow> 0 | Some block \<Rightarrow> m_refCount block)"

definition arc_inv :: "'a arc_heap \<Rightarrow> ptr multiset \<Rightarrow> bool" where
  "arc_inv h H \<longleftrightarrow> (\<forall>a. refs h a = count H (Some a)) \<and> (\<forall>a block. h a = Some block \<longrightarrow> 0 < m_refCount block)"

lemma refs_update [simp]:
  "refs (h(a \<mapsto> block)) = (refs h)(a := m_refCount block)"
  "refs (h(a := None)) = (refs h)(a := 0)"
  by (auto simp: refs_def)

text \<open>
  A run of a program that creates, copies, assigns and destroys handles; a handle is copied or
  assigned from only if it was not moved from.
\<close>

inductive arc_step :: "'a arc_heap \<times> ptr multiset \<Rightarrow> 'a arc_heap \<times> ptr multiset \<Rightarrow> bool" where
  step_new: "h a = None \<Longrightarrow> arc_new a r h = (h', p) \<Longrightarrow> arc_step (h, H) (h', add_mset p H)"
| step_copy: "Some a \<in># H \<Longrightarrow> arc_copy (Some a) h = Some (h', p) \<Longrightarrow> arc_step (h, H) (h', add_mset p H)"
| step_move: "p \<in># H \<Longrightarrow> arc_move p = (q, p') \<Longrightarrow> arc_step (h, H) (h, add_mset q (add_mset p' (H - {#p#})))"
| step_assign: "{#p, Some a#} \<subseteq># H \<Longrightarrow> arc_assign p (Some a) h = Some (h', p') \<Longrightarrow>
    arc_step (h, H) (h', add_mset p' (H - {#p#}))"
| step_destroy: "p \<in># H \<Longrightarrow> arc_destroy p h = Some h' \<Longrightarrow> arc_step (h, H) (h', H - {#p#})"

inductive arc_reachable :: "'a arc_heap \<times> ptr multiset \<Rightarrow> bool" where
  arc_start: "arc_reachable (Map.empty, {#})"
| arc_next: "arc_reachable x \<Longrightarrow> arc_step x y \<Longrightarrow> arc_reachable y"

inductive_cases arc_step_E: "arc_step (h, H) y"

lemma arc_inv_live:
  assumes "arc_inv h H" "Some a \<in># H"
  shows "\<exists>block. h a = Some block \<and> m_refCount block = count H (Some a)"
proof -
  have "refs h a = count H (Some a)" using assms(1) by (simp add: arc_inv_def)
  moreover have "0 < count H (Some a)" using assms(2) by simp
  ultimately show ?thesis by (cases "h a") (simp_all add: refs_def)
qed

lemma arc_new_inv: "arc_inv h H \<Longrightarrow> h a = None \<Longrightarrow> arc_new a r h = (h', p) \<Longrightarrow> arc_inv h' (add_mset p H)"
proof -
  assume a: "arc_inv h H" "h a = None" "arc_new a r h = (h', p)"
  have "refs h a = 0" using a(2) by (simp add: refs_def)
  then have c: "count H (Some a) = 0" using a(1) by (simp add: arc_inv_def)
  have h': "h' = h(a \<mapsto> \<lparr>m_resource = r, m_refCount = 1\<rparr>)" "p = Some a" using a(3) by (auto simp: arc_new_def)
  have "refs h' b = count (add_mset p H) (Some b)" for b
    using a(1) c by (cases "b = a") (simp_all add: h' arc_inv_def)
  then show ?thesis using a(1) by (auto simp: arc_inv_def h')
qed

lemma arc_copy_ok:
  assumes "arc_inv h H" "Some a \<in># H"
  shows "\<exists>h'. arc_copy (Some a) h = Some (h', Some a) \<and> arc_inv h' (add_mset (Some a) H)"
proof -
  obtain b where b: "h a = Some b" "m_refCount b = count H (Some a)" using arc_inv_live [OF assms] by blast
  then show ?thesis using assms(1) by (auto simp: arc_copy_def arc_inv_def)
qed

lemma arc_destroy_ok:
  assumes "arc_inv h H" "p \<in># H"
  shows "\<exists>h'. arc_destroy p h = Some h' \<and> arc_inv h' (H - {#p#})"
proof (cases p)
  case None
  then show ?thesis using assms by (simp add: arc_destroy_def arc_inv_def)
next
  case (Some a)
  obtain b where b: "h a = Some b" "m_refCount b = count H (Some a)"
    using arc_inv_live [OF assms(1)] assms(2) Some by blast
  have "refs h c = count H (Some c)" for c using assms(1) by (simp add: arc_inv_def)
  then show ?thesis using assms(1) b Some
    by (cases "m_refCount b - 1 = 0") (auto simp: arc_destroy_def arc_inv_def)
qed

lemma arc_assign_ok:
  assumes "arc_inv h H" "{#p, Some a#} \<subseteq># H"
  shows "\<exists>h'. arc_assign p (Some a) h = Some (h', Some a) \<and> arc_inv h' (add_mset (Some a) (H - {#p#}))"
proof -
  have p: "p \<in># H" "Some a \<in># H" using mset_subset_eqD [OF assms(2)] by auto
  have e: "add_mset (Some a) H - {#p#} = add_mset (Some a) (H - {#p#})"
    using p(1) by (simp add: multiset_eq_iff)
  obtain h1 where h1: "arc_copy (Some a) h = Some (h1, Some a)" "arc_inv h1 (add_mset (Some a) H)"
    using arc_copy_ok [OF assms(1) p(2)] by blast
  obtain h2 where "arc_destroy p h1 = Some h2" "arc_inv h2 (add_mset (Some a) H - {#p#})"
    using arc_destroy_ok [OF h1(2), of p] p(1) by auto
  then show ?thesis using h1(1) e by (simp add: arc_assign_def arc_swap_def)
qed

lemma arc_step_inv: "arc_step x y \<Longrightarrow> arc_inv (fst x) (snd x) \<Longrightarrow> arc_inv (fst y) (snd y)"
proof (induction rule: arc_step.induct)
  case (step_new h a r h' p H)
  then show ?case using arc_new_inv by auto
next
  case (step_copy a H h h' p)
  then show ?case using arc_copy_ok [of h H a] by auto
next
  case (step_move p H q p' h)
  then have e: "add_mset q (add_mset p' (H - {#p#})) = add_mset None H" by (auto simp: arc_move_def)
  show ?case using step_move(3) by (simp add: arc_inv_def e)
next
  case (step_assign p a H h h' p')
  then show ?case using arc_assign_ok [of h H p a] by auto
next
  case (step_destroy p H h h')
  then show ?case using arc_destroy_ok [of h H p] by auto
qed

lemma arc_reachable_inv: "arc_reachable x \<Longrightarrow> arc_inv (fst x) (snd x)"
proof (induction rule: arc_reachable.induct)
  case arc_start
  then show ?case by (simp add: arc_inv_def refs_def)
next
  case (arc_next x y)
  then show ?case using arc_step_inv by blast
qed

subsection \<open>Properties\<close>

text \<open>
  C19: No leak and no dangling handle. In every run of creations, copies, moves, assignments and
  destructions of handles, a control block is allocated exactly as long as some handle refers to it,
  and its count is the number of these handles; so every live handle can be dereferenced, and the
  resource is released with the last handle.
\<close>

theorem arc_counts_handles:
  assumes "arc_reachable (h, H)"
  shows "(h a \<noteq> None \<longleftrightarrow> Some a \<in># H) \<and> (\<forall>block. h a = Some block \<longrightarrow> m_refCount block = count H (Some a))"
proof -
  have inv: "arc_inv h H" using arc_reachable_inv [OF assms] by simp
  then have "h a \<noteq> None" if "Some a \<in># H" using arc_inv_live [OF inv that] by auto
  moreover have "m_refCount block = count H (Some a) \<and> Some a \<in># H" if "h a = Some block" for block
  proof -
    have "refs h a = count H (Some a)" "0 < m_refCount block" using inv that by (auto simp: arc_inv_def)
    then show ?thesis using that by (simp add: refs_def)
  qed
  ultimately show ?thesis by blast
qed

theorem arc_counts_handles_witness:
  "\<exists>h :: nat arc_heap. arc_reachable (h, {#Some 5#}) \<and> h 5 \<noteq> None"
proof -
  have n: "arc_new 5 (7 :: nat) Map.empty = ([5 \<mapsto> \<lparr>m_resource = 7, m_refCount = 1\<rparr>], Some 5)"
    by (simp add: arc_new_def)
  have r: "arc_reachable ([5 \<mapsto> \<lparr>m_resource = 7 :: nat, m_refCount = 1\<rparr>], {#Some 5#})"
    using arc_next [OF arc_start step_new [OF _ n]] by simp
  have "[5 \<mapsto> \<lparr>m_resource = 7 :: nat, m_refCount = 1\<rparr>] (5 :: addr) \<noteq> None"
    by (rule arc_counts_handles [OF r, THEN conjunct1, THEN iffD2]) simp
  with r show ?thesis by blast
qed

end
