(* ===== verification/Shared_Memory.thy ===== *)
theory Shared_Memory
  imports Task_Properties Address_Space Common_RefCount
begin

text \<open>
  Shared memory, \<open>Kernel/Memory/SharedMemory.cpp\<close>: a named block of physical pages that tasks map into
  their address spaces. A \<open>MemoryMap\<close> refers to its pages through a reference counted control block.
  The lists of maps are sequences of nodes with their addresses; \<open>cb\<close> and \<open>nd\<close> are the addresses the
  allocator gives a new control block and a new node. The strings are the names; the hash map of lists
  is a map. An address space is given by the address of its top level table.
\<close>

record MemoryMap =
  m_region :: MappedRegion
  m_physMem :: "ptr"
  m_vas :: u64

record SharedState =
  sh_manager :: Manager
  sh_blocks :: "u64 list arc_heap"
  sharedMaps :: "string \<rightharpoonup> (addr \<times> MemoryMap) list"
  sh_regions :: "u64 \<Rightarrow> MappedRegion list"

subsection \<open>Control blocks\<close>

definition page_count :: "u64 \<Rightarrow> nat" where
  "page_count len = (unat len + 0xFFF) div 0x1000"

fun alloc_physical_pages :: "nat \<Rightarrow> Manager \<Rightarrow> (u64 list \<times> Manager) kresult" where
  "alloc_physical_pages 0 m = Inr ([], m)"
| "alloc_physical_pages (Suc n) m =
     (case alloc_physical_block m of
        Inl e \<Rightarrow> Inl e
      | Inr (p, m) \<Rightarrow>
          (case alloc_physical_pages n m of Inl e \<Rightarrow> Inl e | Inr (ps, m) \<Rightarrow> Inr (p # ps, m)))"

definition PhysicalMemoryControlBlock_new :: "u64 \<Rightarrow> Manager \<Rightarrow> (u64 list \<times> Manager) kresult" where
  "PhysicalMemoryControlBlock_new alignedLength m = alloc_physical_pages (page_count alignedLength) m"

definition PhysicalMemoryControlBlock_destroy :: "u64 list \<Rightarrow> Manager \<Rightarrow> Manager" where
  "PhysicalMemoryControlBlock_destroy m_physicalPages m = fold free_physical_block m_physicalPages m"

subsection \<open>Maps\<close>

fun map_pages :: "u64 list \<Rightarrow> u64 \<Rightarrow> u64 \<Rightarrow> Manager \<Rightarrow> Manager kresult" where
  "map_pages [] regionPtr vas m = Inr m"
| "map_pages (page # pages) regionPtr vas m =
     (case request_virtual_map \<lparr>physicalAddress = page, virtualAddress = regionPtr, allowWrite = True,
               allowUserAccess = True, pageSize = PAGE_4KiB\<rparr> vas m of
        Inl e \<Rightarrow> Inl e | Inr m \<Rightarrow> map_pages pages (regionPtr + 0x1000) vas m)"

definition MemoryMap_construct ::
  "MappedRegion \<Rightarrow> u64 \<Rightarrow> ptr \<Rightarrow> SharedState \<Rightarrow> (MemoryMap \<times> SharedState) kresult" where
  "MemoryMap_construct region vas ref s =
     (let mm = \<lparr>m_region = region, m_physMem = ref, m_vas = vas\<rparr>
      in if ref = None then Inr (mm, s)
         else case arc_deref ref (sh_blocks s) of
                None \<Rightarrow> Inl BadAccess
              | Some pages \<Rightarrow>
                  (case map_pages pages (r_start region) vas (sh_manager s) of
                     Inl e \<Rightarrow> Inl e | Inr m \<Rightarrow> Inr (mm, s\<lparr>sh_manager := m\<rparr>)))"

definition MemoryMap_new ::
  "addr \<Rightarrow> MappedRegion \<Rightarrow> u64 \<Rightarrow> SharedState \<Rightarrow> (MemoryMap \<times> SharedState) kresult" where
  "MemoryMap_new cb region vas s =
     (case PhysicalMemoryControlBlock_new (region_length region) (sh_manager s) of
        Inl e \<Rightarrow> Inl e
      | Inr (pages, m) \<Rightarrow>
          let (blocks, ref) = arc_new cb pages (sh_blocks s)
          in MemoryMap_construct region vas ref (s\<lparr>sh_manager := m, sh_blocks := blocks\<rparr>))"

definition MemoryMap_shared ::
  "MappedRegion \<Rightarrow> u64 \<Rightarrow> MemoryMap \<Rightarrow> SharedState \<Rightarrow> (MemoryMap \<times> SharedState) kresult" where
  "MemoryMap_shared region vas sharedWith s =
     (case arc_copy (m_physMem sharedWith) (sh_blocks s) of
        None \<Rightarrow> Inl BadAccess
      | Some (blocks, ref) \<Rightarrow> MemoryMap_construct region vas ref (s\<lparr>sh_blocks := blocks\<rparr>))"

definition MemoryMap_length :: "MemoryMap \<Rightarrow> u64" where
  "MemoryMap_length mm = region_length (m_region mm)"

fun unmap_pages :: "nat \<Rightarrow> u64 \<Rightarrow> u64 \<Rightarrow> Manager \<Rightarrow> Manager kresult" where
  "unmap_pages 0 ptr vas m = Inr m"
| "unmap_pages (Suc n) ptr vas m =
     (case request_virtual_unmap \<lparr>unmap_virtualAddress = ptr, unmap_pageSize = PAGE_4KiB\<rparr> vas m of
        Inl e \<Rightarrow> Inl e | Inr m \<Rightarrow> unmap_pages n (ptr + 0x1000) vas m)"

text \<open>
  The destructor unmaps the pages; then the handle is destroyed, and with the last handle the
  control block, which gives the pages back.
\<close>

definition release_block :: "ptr \<Rightarrow> SharedState \<Rightarrow> SharedState kresult" where
  "release_block ref s =
     (case arc_destroy ref (sh_blocks s) of
        None \<Rightarrow> Inl BadAccess
      | Some blocks \<Rightarrow>
          let freed = (ref \<noteq> None \<and> blocks (the ref) = None);
              m = (if freed then PhysicalMemoryControlBlock_destroy (m_resource (the (sh_blocks s (the ref)))) (sh_manager s)
                   else sh_manager s)
          in Inr (s\<lparr>sh_blocks := blocks, sh_manager := m\<rparr>))"

definition MemoryMap_destroy :: "MemoryMap \<Rightarrow> SharedState \<Rightarrow> SharedState kresult" where
  "MemoryMap_destroy mm s =
     (if m_physMem mm = None then Inr s
      else case unmap_pages (page_count (region_length (m_region mm))) (r_start (m_region mm)) (m_vas mm) (sh_manager s) of
             Inl e \<Rightarrow> Inl e
           | Inr m \<Rightarrow> release_block (m_physMem mm) (s\<lparr>sh_manager := m\<rparr>))"

subsection \<open>Opening and closing\<close>

record LinkRequest =
  lr_str :: string
  lr_mappedTo :: u64
  lr_length :: u64

definition shm_open ::
  "bool \<Rightarrow> LinkRequest \<Rightarrow> u64 \<Rightarrow> addr \<Rightarrow> addr \<Rightarrow> SharedState \<Rightarrow> (bool \<times> LinkRequest \<times> SharedState) kresult" where
  "shm_open create linkRequest vas cb nd s =
     (let found = sharedMaps s (lr_str linkRequest)
      in if (found \<noteq> None) = create then Inr (False, linkRequest, s)
         else let mappingList = (if create then [] else the found)
              in if \<not> create \<and> mappingList = [] then Inl BadAccess
                 else let linkRequest = (if create then linkRequest
                        else linkRequest\<lparr>lr_length := MemoryMap_length (snd (hd mappingList))\<rparr>);
                      (region, regions) = acquire_available_region (BYTE_ALIGN_UP (lr_length linkRequest) 4096)
                        (sh_regions s vas);
                      s = s\<lparr>sh_regions := (sh_regions s)(vas := regions)\<rparr>;
                      linkRequest = linkRequest\<lparr>lr_mappedTo := r_start region\<rparr>
                  in (case (if create then MemoryMap_new cb region vas s
                            else MemoryMap_shared region vas (snd (hd mappingList)) s) of
                        Inl e \<Rightarrow> Inl e
                      | Inr (mm, s) \<Rightarrow>
                          Inr (True, linkRequest,
                            s\<lparr>sharedMaps := (sharedMaps s)(lr_str linkRequest \<mapsto> mappingList @ [(nd, mm)])\<rparr>)))"

definition shm_close :: "string \<Rightarrow> addr \<Rightarrow> SharedState \<Rightarrow> SharedState kresult" where
  "shm_close str mapIt s =
     (case sharedMaps s str of
        None \<Rightarrow> Inr s
      | Some mappingList \<Rightarrow>
          (case map_of mappingList mapIt of
             None \<Rightarrow> Inl BadAccess
           | Some mm \<Rightarrow>
               (case MemoryMap_destroy mm s of
                  Inl e \<Rightarrow> Inl e
                | Inr s \<Rightarrow>
                    let mappingList = filter (\<lambda>(a, _). a \<noteq> mapIt) mappingList
                    in Inr (s\<lparr>sharedMaps := (sharedMaps s)(str := (if mappingList = [] then None else Some mappingList))\<rparr>))))"

subsection \<open>Mapping a sequence of pages\<close>

text \<open>A range of pages in the lower half of the address space.\<close>

definition user_range :: "u64 \<Rightarrow> nat \<Rightarrow> bool" where
  "user_range v n \<longleftrightarrow> unat v mod 4096 = 0 \<and> unat v + 4096 * n \<le> 2 ^ 47"

lemma user_range_page:
  assumes "user_range v n" "k < n"
  shows "unat (v + of_nat k * 0x1000) = unat v + k * 4096" "CHECK_ALIGN (v + of_nat k * 0x1000) 0x1000"
    "PML4_index (v + of_nat k * 0x1000) \<noteq> 511"
proof -
  let ?w = "v + of_nat k * 0x1000"
  have b: "unat v + k * 4096 < 2 ^ 47" "unat v mod 4096 = 0" using assms by (simp_all add: user_range_def)
  have e: "?w = of_nat (unat v + k * 4096)" by simp
  show u: "unat ?w = unat v + k * 4096" unfolding e by (rule unat_of_nat_64) (use b in simp)
  have "unat ?w mod 2 ^ 12 = 0" unfolding u using b(2) by (simp add: mod_add_right_eq [symmetric])
  then have "take_bit 12 ?w = 0"
    by (intro word_unat_eq_iff [THEN iffD2]) (simp only: unsigned_take_bit_eq unat_0 take_bit_eq_mod [of 12 "unat ?w"])
  then show "CHECK_ALIGN ?w 0x1000" by (simp add: CHECK_ALIGN_def take_bit_eq_mask mask_eq_exp_minus_1)
  have "\<not> bit ?w 47" using high_bits_clear [of ?w 47 47] u b(1) by simp
  then have "\<not> bit (PML4_index ?w) 8" by (simp add: PML4_index_def bit_ucast_iff bit_drop_bit_eq)
  then show "PML4_index ?w \<noteq> 511" by auto
qed

lemma user_range_tail: "user_range v (Suc n) \<Longrightarrow> user_range (v + 0x1000) n \<and> unat (v + 0x1000) = unat v + 4096"
proof -
  assume a: "user_range v (Suc n)"
  have e: "v + 0x1000 = of_nat (unat v + 4096)" by simp
  have "unat (v + 0x1000) = unat v + 4096"
    unfolding e by (rule unat_of_nat_64) (use a in \<open>simp add: user_range_def\<close>)
  then show ?thesis using a by (simp add: user_range_def)
qed

lemma same_page_user:
  assumes "user_range v n" "j < n" "k < n"
  shows "same_page PAGE_4KiB (v + of_nat j * 0x1000) (v + of_nat k * 0x1000) \<longleftrightarrow> j = k"
proof
  let ?a = "v + of_nat j * 0x1000" and ?b = "v + of_nat k * 0x1000"
  assume s: "same_page PAGE_4KiB ?a ?b"
  have low: "\<not> bit (v + of_nat i * 0x1000) m" if "i < n" "m < 12" for i m
  proof -
    have "take_bit 12 (v + of_nat i * 0x1000) = 0"
      using user_range_page(2) [OF assms(1) that(1)] by (simp add: CHECK_ALIGN_def take_bit_eq_mask mask_eq_exp_minus_1)
    then have "\<not> bit (take_bit 12 (v + of_nat i * 0x1000)) m" by simp
    then show ?thesis using that(2) by (simp add: bit_take_bit_iff)
  qed
  have high: "\<not> bit (v + of_nat i * 0x1000) m" if "i < n" "48 \<le> m" for i m
    by (rule high_bits_clear [of _ 48]) (use user_range_page(1) [OF assms(1) that(1)] assms(1) that in \<open>auto simp: user_range_def\<close>)
  have "?a = ?b"
  proof (rule bit_word_eqI)
    fix m assume "m < LENGTH(64)"
    show "bit ?a m = bit ?b m"
      using s low [of j m] low [of k m] high [of j m] high [of k m] assms
      by (cases "m < 12"; cases "48 \<le> m") (auto simp: same_page_def)
  qed
  then have "unat ?a = unat ?b" by simp
  then show "j = k" unfolding user_range_page(1) [OF assms(1,2)] user_range_page(1) [OF assms(1,3)] by simp
next
  show "j = k \<Longrightarrow> same_page PAGE_4KiB (v + of_nat j * 0x1000) (v + of_nat k * 0x1000)" by (simp add: same_page_def)
qed

lemma map_pages_ok:
  assumes "all_spaces R m" "r \<in> R" "user_range v (length ps)" "3 * length ps \<le> card (free_frames m)"
    and "\<forall>p\<in>set ps. CHECK_ALIGN p 0x1000"
  shows "\<exists>m'. map_pages ps v r m = Inr m' \<and> all_spaces R m' \<and>
    card (free_frames m) \<le> card (free_frames m') + 3 * length ps \<and>
    (\<forall>k<length ps. get_physical_address m' r (v + of_nat k * 0x1000) = ps ! k) \<and>
    (\<forall>r'\<in>R. \<forall>w. r' \<noteq> r \<or> (\<forall>k<length ps. \<not> same_page PAGE_4KiB (v + of_nat k * 0x1000) w) \<longrightarrow>
       get_physical_address m' r' w = get_physical_address m r' w)"
  using assms
proof (induction ps arbitrary: v m)
  case Nil
  then show ?case by simp
next
  case (Cons p ps)
  let ?req = "\<lparr>physicalAddress = p, virtualAddress = v, allowWrite = True, allowUserAccess = True,
      pageSize = PAGE_4KiB\<rparr>"
  have v0: "CHECK_ALIGN v 0x1000" "PML4_index v \<noteq> 511" using user_range_page(2,3) [OF Cons.prems(3), of 0] by simp_all
  have "regular_request ?req" "3 \<le> card (free_frames m)"
    using v0 Cons.prems(4,5) by (simp_all add: regular_request_def request_aligned_def)
  then obtain m1 where m1: "request_virtual_map ?req r m = Inr m1" "all_spaces R m1"
    "card (free_frames m) \<le> card (free_frames m1) + 3"
    "\<forall>r'\<in>R. \<forall>w. get_physical_address m1 r' w =
       (if r' = r \<and> same_page PAGE_4KiB v w then p else get_physical_address m r' w)"
    using all_spaces_map [OF Cons.prems(1,2)] by fastforce
  have t: "user_range (v + 0x1000) (length ps)" using user_range_tail Cons.prems(3) by simp
  have sh: "v + 0x1000 + of_nat k * 0x1000 = v + of_nat (Suc k) * 0x1000" for k by (simp add: algebra_simps)
  obtain m2 where m2: "map_pages ps (v + 0x1000) r m1 = Inr m2" "all_spaces R m2"
    "\<forall>k<length ps. get_physical_address m2 r (v + of_nat (Suc k) * 0x1000) = ps ! k"
    "\<forall>r'\<in>R. \<forall>w. r' \<noteq> r \<or> (\<forall>k<length ps. \<not> same_page PAGE_4KiB (v + of_nat (Suc k) * 0x1000) w) \<longrightarrow>
       get_physical_address m2 r' w = get_physical_address m1 r' w"
    "card (free_frames m1) \<le> card (free_frames m2) + 3 * length ps"
    using Cons.IH [OF m1(2) Cons.prems(2) t] m1(3) Cons.prems(4,5) unfolding sh by auto
  have "\<not> same_page PAGE_4KiB (v + of_nat (Suc k) * 0x1000) v" if "k < length ps" for k
    using same_page_user [OF Cons.prems(3), of "Suc k" 0] that by simp
  then have first: "get_physical_address m2 r v = p"
    using m2(4) m1(4) Cons.prems(2) by (simp add: same_page_def)
  have "get_physical_address m2 r (v + of_nat k * 0x1000) = (p # ps) ! k" if "k < length (p # ps)" for k
    using that first m2(3) by (cases k) (auto simp: algebra_simps)
  moreover have "get_physical_address m2 r' w = get_physical_address m r' w"
    if "r' \<in> R" "r' \<noteq> r \<or> (\<forall>k<length (p # ps). \<not> same_page PAGE_4KiB (v + of_nat k * 0x1000) w)" for r' w
  proof (cases "r' = r")
    case True
    then have n: "\<not> same_page PAGE_4KiB (v + of_nat k * 0x1000) w" if "k < Suc (length ps)" for k
      using that \<open>r' \<noteq> r \<or> _\<close> by simp
    show ?thesis using n [of 0] n [of "Suc _"] m2(4) m1(4) that(1) True by simp
  next
    case False
    then show ?thesis using m2(4) m1(4) that(1) by simp
  qed
  moreover have "card (free_frames m) \<le> card (free_frames m2) + 3 * length (p # ps)" using m1(3) m2(5) by simp
  ultimately show ?case using m1(1) m2(1,2) by simp
qed

subsection \<open>Opening\<close>

lemma alloc_physical_pages_ok:
  assumes "all_spaces R m" "R \<noteq> {}" "n \<le> card (free_frames m)"
  shows "\<exists>ps m'. alloc_physical_pages n m = Inr (ps, m') \<and> all_spaces R m' \<and> length ps = n \<and>
    card (free_frames m) = card (free_frames m') + n \<and> (\<forall>p\<in>set ps. CHECK_ALIGN p 0x1000 \<and> p \<noteq> 0) \<and>
    (\<forall>r\<in>R. \<forall>v. get_physical_address m' r v = get_physical_address m r v)"
  using assms
proof (induction n arbitrary: m)
  case 0
  then show ?case by simp
next
  case (Suc n)
  obtain r where r: "r \<in> R" using Suc.prems(2) by blast
  have vm: "vm_inv R m" using Suc.prems(1) r by (simp add: all_spaces_def space_inv_def)
  have ne: "free_frames m \<noteq> {}" using Suc.prems(3) by auto
  obtain p m1 where al: "alloc_physical_block m = Inr (p, m1)"
    using alloc_physical_block_some [OF vm_inv_phys [OF vm] ne] by blast
  obtain f where f: "f \<in> free_frames m" "p = frame_address f" and m1: "vm_inv R m1"
    "phys_tables m1 = phys_tables m" "card (free_frames m) = card (free_frames m1) + 1"
    using alloc_keeps_vm [OF vm al] by blast
  have sp: "all_spaces R m1" using Suc.prems(1) m1(1,2) by (simp add: all_spaces_def space_inv_def)
  have bn: "0 < f" "f < 2 ^ 52"
    using pmm.free_bounds [OF vm_inv_phys [OF vm] f(1)] pmm.limit_bound [OF vm_inv_phys [OF vm]] by auto
  have "unat p \<noteq> 0" using unat_frame_address [OF bn(2)] f(2) bn(1) by simp
  then have p: "p \<noteq> 0" "CHECK_ALIGN p 0x1000"
    using aligned12_frame_address [of f] f(2) by (auto simp: CHECK_ALIGN_def aligned12_def)
  have g: "get_physical_address m1 r' v = get_physical_address m r' v" if "r' \<in> R" for r' v
    by (simp add: translate_vpath [OF m1(1) that] translate_vpath [OF vm that] m1(2))
  obtain ps m2 where "alloc_physical_pages n m1 = Inr (ps, m2)" "all_spaces R m2" "length ps = n"
    "card (free_frames m1) = card (free_frames m2) + n" "\<forall>p\<in>set ps. CHECK_ALIGN p 0x1000 \<and> p \<noteq> 0"
    "\<forall>r\<in>R. \<forall>v. get_physical_address m2 r v = get_physical_address m1 r v"
    using Suc.IH [OF sp Suc.prems(2)] Suc.prems(3) m1(3) by auto
  then show ?case using al p g m1(3) by simp
qed

lemma page_length:
  assumes "user_range v n" "0 < n"
  shows "unat (of_nat (4096 * n) :: u64) = 4096 * n"
    and "BYTE_ALIGN_UP (of_nat (4096 * n)) 0x1000 = of_nat (4096 * n)"
    and "page_count (of_nat (4096 * n)) = n"
proof -
  have b: "4096 * n \<le> 2 ^ 47" using assms(1) by (simp add: user_range_def)
  show u: "unat (of_nat (4096 * n) :: u64) = 4096 * n" by (rule unat_of_nat_64) (use b in simp)
  have e: "of_nat (4096 * n) + 0xFFF = (of_nat (4096 * n + 0xFFF) :: u64)" by simp
  have "unat (of_nat (4096 * n) + 0xFFF :: u64) = 4096 * n + 0xFFF"
    unfolding e by (rule unat_of_nat_64) (use b in simp)
  then have "unat ((of_nat (4096 * n) + 0xFFF :: u64) AND NOT (mask 12)) = 4096 * n"
    unfolding unat_and_not_mask by simp
  then have "(of_nat (4096 * n) + 0xFFF :: u64) AND NOT (mask 12) = of_nat (4096 * n)"
    unfolding word_unat_eq_iff u .
  then show "BYTE_ALIGN_UP (of_nat (4096 * n)) 0x1000 = of_nat (4096 * n)"
    by (simp add: BYTE_ALIGN_UP_def mask_eq_exp_minus_1)
  show "page_count (of_nat (4096 * n)) = n" unfolding page_count_def u by simp
qed

definition next_region :: "MappedRegion list \<Rightarrow> u64" where
  "next_region rs = (if rs = [] then 0x1000 else r_end (last rs))"

lemma acquire_pages:
  assumes "regions_ok rs" "user_range (next_region rs) n" "0 < n"
  shows "acquire_available_region (of_nat (4096 * n)) rs =
      (\<lparr>r_start = next_region rs, r_end = next_region rs + of_nat (4096 * n)\<rparr>,
       rs @ [\<lparr>r_start = next_region rs, r_end = next_region rs + of_nat (4096 * n)\<rparr>])"
    and "regions_ok (rs @ [\<lparr>r_start = next_region rs, r_end = next_region rs + of_nat (4096 * n)\<rparr>])"
proof -
  note len = page_length [OF assms(2,3)]
  have "0 < (of_nat (4096 * n) :: u64)" unfolding word_less_nat_alt len(1) using assms(3) by simp
  moreover have "unat (next_region rs) + unat (of_nat (4096 * n) :: u64) < 2 ^ 64"
    unfolding len(1) using assms(2) by (simp add: user_range_def)
  ultimately obtain region where a: "acquire_available_region (of_nat (4096 * n)) rs = (region, rs @ [region])"
    "regions_ok (rs @ [region])" "r_start region = next_region rs" "region_length region = of_nat (4096 * n)"
    using acquire_region_ok [OF assms(1), of "of_nat (4096 * n)"] unfolding len(2) next_region_def by metis
  have "region = \<lparr>r_start = next_region rs, r_end = next_region rs + of_nat (4096 * n)\<rparr>"
    using a(3,4) by (simp add: region_length_def algebra_simps)
  then show "acquire_available_region (of_nat (4096 * n)) rs =
      (\<lparr>r_start = next_region rs, r_end = next_region rs + of_nat (4096 * n)\<rparr>,
       rs @ [\<lparr>r_start = next_region rs, r_end = next_region rs + of_nat (4096 * n)\<rparr>])"
    "regions_ok (rs @ [\<lparr>r_start = next_region rs, r_end = next_region rs + of_nat (4096 * n)\<rparr>])"
    using a(1,2) by auto
qed

text \<open>
  The state of a shared block that a task has opened: its first map refers to a control block with
  \<open>pages\<close>, whose number is the length of the region.
\<close>

definition block_open :: "SharedState \<Rightarrow> string \<Rightarrow> u64 list \<Rightarrow> bool" where
  "block_open s str pages \<longleftrightarrow> (\<exists>nd mm rest. sharedMaps s str = Some ((nd, mm) # rest) \<and>
     arc_deref (m_physMem mm) (sh_blocks s) = Some pages \<and>
     region_length (m_region mm) = of_nat (4096 * length pages) \<and>
     pages \<noteq> [] \<and> (\<forall>p\<in>set pages. CHECK_ALIGN p 0x1000 \<and> p \<noteq> 0))"

lemma shm_create_ok:
  assumes inv: "all_spaces R (sh_manager s)" "vas \<in> R" and new: "sharedMaps s (lr_str req) = None"
    and rs: "regions_ok (sh_regions s vas)" "user_range (next_region (sh_regions s vas)) n" "0 < n"
    and len: "lr_length req = of_nat (4096 * n)" and free: "4 * n \<le> card (free_frames (sh_manager s))"
  shows "\<exists>req' s' pages. shm_open True req vas cb nd s = Inr (True, req', s') \<and>
    all_spaces R (sh_manager s') \<and> block_open s' (lr_str req) pages \<and> length pages = n \<and>
    card (free_frames (sh_manager s)) \<le> card (free_frames (sh_manager s')) + 4 * n \<and>
    lr_mappedTo req' = next_region (sh_regions s vas) \<and>
    (\<forall>k<n. get_physical_address (sh_manager s') vas (lr_mappedTo req' + of_nat k * 0x1000) = pages ! k) \<and>
    sh_regions s' = (sh_regions s)(vas := sh_regions s vas @
      [\<lparr>r_start = lr_mappedTo req', r_end = lr_mappedTo req' + of_nat (4096 * n)\<rparr>])"
proof -
  let ?v = "next_region (sh_regions s vas)" and ?m = "sh_manager s"
  let ?region = "\<lparr>r_start = ?v, r_end = ?v + of_nat (4096 * n)\<rparr>"
  have R: "R \<noteq> {}" using inv(2) by auto
  obtain ps m1 where m1: "alloc_physical_pages n ?m = Inr (ps, m1)" "all_spaces R m1" "length ps = n"
    "card (free_frames ?m) = card (free_frames m1) + n" "\<forall>p\<in>set ps. CHECK_ALIGN p 0x1000 \<and> p \<noteq> 0"
    using alloc_physical_pages_ok [OF inv(1) R, of n] free by auto
  have f: "3 * length ps \<le> card (free_frames m1)" "user_range ?v (length ps)" using m1(3,4) free rs(2) by auto
  obtain m2 where m2: "map_pages ps ?v vas m1 = Inr m2" "all_spaces R m2"
    "card (free_frames m1) \<le> card (free_frames m2) + 3 * length ps"
    "\<forall>k<length ps. get_physical_address m2 vas (?v + of_nat k * 0x1000) = ps ! k"
    using map_pages_ok [OF m1(2) inv(2) f(2,1)] m1(5) by blast
  let ?mm = "\<lparr>m_region = ?region, m_physMem = Some cb, m_vas = vas\<rparr>"
  let ?s = "s\<lparr>sh_regions := (sh_regions s)(vas := sh_regions s vas @ [?region]), sh_manager := m2,
      sh_blocks := (sh_blocks s)(cb \<mapsto> \<lparr>m_resource = ps, m_refCount = 1\<rparr>),
      sharedMaps := (sharedMaps s)(lr_str req \<mapsto> [(nd, ?mm)])\<rparr>"
  note pl = page_length [OF rs(2,3)]
  have "region_length ?region = of_nat (4096 * n)" by (simp add: region_length_def)
  moreover have "BYTE_ALIGN_UP (lr_length req) 4096 = of_nat (4096 * n)" using pl(2) len by simp
  ultimately have o: "shm_open True req vas cb nd s = Inr (True, req\<lparr>lr_mappedTo := ?v\<rparr>, ?s)"
    using new m1(1) m2(1) acquire_pages(1) [OF rs] pl(3)
    by (simp add: shm_open_def MemoryMap_new_def PhysicalMemoryControlBlock_new_def MemoryMap_construct_def
        arc_new_def arc_deref_def Let_def)
  have "block_open ?s (lr_str req) ps"
    using m1(3,5) rs(3) by (auto simp: block_open_def arc_deref_def region_length_def)
  then show ?thesis using o m1(3,4) m2(2-4) f
    by (intro exI [of _ "req\<lparr>lr_mappedTo := ?v\<rparr>"] exI [of _ ?s] exI [of _ ps]) simp
qed

subsection \<open>Properties\<close>

text \<open>
  C25: Sharing. When a task links to an existing block of shared memory, with enough free frames and room in the lower half, the request reports the length of
  the block and the start of a new region of that length, which is recorded behind all regions of the address space and
  translates, page by page, to the physical pages of the block, the same ones the first mapping
  has. The new mapping is recorded with the block's others and refers to the same pages. No other translation and no
  list of regions of another address space changes.
\<close>

theorem shm_link_shares_pages:
  assumes "all_spaces R (sh_manager s)" "vas \<in> R" "block_open s (lr_str req) pages"
    and "regions_ok (sh_regions s vas)" "user_range (next_region (sh_regions s vas)) (length pages)"
    and "3 * length pages \<le> card (free_frames (sh_manager s))"
  shows "\<exists>req' s'. shm_open False req vas cb nd s = Inr (True, req', s') \<and> all_spaces R (sh_manager s') \<and>
    lr_length req' = of_nat (4096 * length pages) \<and> lr_mappedTo req' = next_region (sh_regions s vas) \<and>
    (\<forall>region\<in>set (sh_regions s vas). r_end region \<le> lr_mappedTo req') \<and>
    sh_regions s' = (sh_regions s)(vas := sh_regions s vas @
      [\<lparr>r_start = lr_mappedTo req', r_end = lr_mappedTo req' + of_nat (4096 * length pages)\<rparr>]) \<and>
    regions_ok (sh_regions s' vas) \<and>
    (\<exists>maps mm. sharedMaps s (lr_str req) = Some maps \<and>
      sharedMaps s' = (sharedMaps s)(lr_str req \<mapsto> maps @ [(nd, mm)]) \<and>
      m_region mm = \<lparr>r_start = lr_mappedTo req', r_end = lr_mappedTo req' + of_nat (4096 * length pages)\<rparr> \<and> m_vas mm = vas \<and>
      arc_deref (m_physMem mm) (sh_blocks s') = Some pages) \<and>
    (\<forall>k<length pages. get_physical_address (sh_manager s') vas (lr_mappedTo req' + of_nat k * 0x1000) = pages ! k) \<and>
    (\<forall>r\<in>R. \<forall>v. r \<noteq> vas \<or> (\<forall>k<length pages. \<not> same_page PAGE_4KiB (lr_mappedTo req' + of_nat k * 0x1000) v) \<longrightarrow>
       get_physical_address (sh_manager s') r v = get_physical_address (sh_manager s) r v)"
proof -
  let ?v = "next_region (sh_regions s vas)" and ?n = "length pages"
  let ?region = "\<lparr>r_start = ?v, r_end = ?v + of_nat (4096 * ?n)\<rparr>"
  obtain nd1 mm rest where mm: "sharedMaps s (lr_str req) = Some ((nd1, mm) # rest)"
    "arc_deref (m_physMem mm) (sh_blocks s) = Some pages" "region_length (m_region mm) = of_nat (4096 * ?n)"
    and n: "0 < ?n" and al: "\<forall>p\<in>set pages. CHECK_ALIGN p 0x1000"
    using assms(3) by (auto simp: block_open_def)
  obtain a block where a: "m_physMem mm = Some a" "sh_blocks s a = Some block" "m_resource block = pages"
    using mm(2) by (auto simp: arc_deref_def Option.bind_eq_Some_conv)
  obtain m2 where m2: "map_pages pages ?v vas (sh_manager s) = Inr m2" "all_spaces R m2"
    "\<forall>k<?n. get_physical_address m2 vas (?v + of_nat k * 0x1000) = pages ! k"
    "\<forall>r\<in>R. \<forall>w. r \<noteq> vas \<or> (\<forall>k<?n. \<not> same_page PAGE_4KiB (?v + of_nat k * 0x1000) w) \<longrightarrow>
       get_physical_address m2 r w = get_physical_address (sh_manager s) r w"
    using map_pages_ok [OF assms(1,2,5,6) al] by blast
  let ?req = "req\<lparr>lr_length := of_nat (4096 * ?n), lr_mappedTo := ?v\<rparr>"
  let ?mm = "\<lparr>m_region = ?region, m_physMem = Some a, m_vas = vas\<rparr>"
  let ?s = "s\<lparr>sh_regions := (sh_regions s)(vas := sh_regions s vas @ [?region]), sh_manager := m2,
      sh_blocks := (sh_blocks s)(a \<mapsto> block\<lparr>m_refCount := m_refCount block + 1\<rparr>),
      sharedMaps := (sharedMaps s)(lr_str req \<mapsto> ((nd1, mm) # rest) @ [(nd, ?mm)])\<rparr>"
  note pl = page_length [OF assms(5) n]
  have "BYTE_ALIGN_UP (of_nat (4096 * ?n)) 4096 = of_nat (4096 * ?n)" using pl(2) by simp
  then have "shm_open False req vas cb nd s = Inr (True, ?req, ?s)"
    using mm(1,3) a m2(1) acquire_pages(1) [OF assms(4,5) n]
    by (simp add: shm_open_def MemoryMap_shared_def MemoryMap_construct_def MemoryMap_length_def arc_copy_def
        arc_deref_def Let_def)
  moreover have "\<forall>region\<in>set (sh_regions s vas). r_end region \<le> ?v"
    using regions_ok_last(1) [OF assms(4)] by (auto simp: next_region_def)
  moreover have "\<exists>maps mm. sharedMaps s (lr_str req) = Some maps \<and>
      sharedMaps ?s = (sharedMaps s)(lr_str req \<mapsto> maps @ [(nd, mm)]) \<and> m_region mm = ?region \<and> m_vas mm = vas \<and>
      arc_deref (m_physMem mm) (sh_blocks ?s) = Some pages"
    using mm(1) a(3) by (intro exI [of _ "(nd1, mm) # rest"] exI [of _ ?mm]) (simp add: arc_deref_def)
  ultimately show ?thesis using m2(2-4) acquire_pages(2) [OF assms(4,5) n]
    by (intro exI [of _ ?req] exI [of _ ?s]) (simp del: fun_upd_apply add: fun_upd_same)
qed

definition example_shared :: SharedState where
  "example_shared = \<lparr>sh_manager = example_space, sh_blocks = Map.empty, sharedMaps = Map.empty,
     sh_regions = (\<lambda>_. [])\<rparr>"

definition example_link :: LinkRequest where
  "example_link = \<lparr>lr_str = ''fb'', lr_mappedTo = 0, lr_length = 0x2000\<rparr>"

theorem shm_link_shares_pages_witness:
  "\<exists>req1 s1 req2 s2 p. shm_open True example_link 0x1000 50 60 example_shared = Inr (True, req1, s1) \<and>
     get_physical_address (sh_manager s1) 0x1000 (lr_mappedTo req1 + of_nat 1 * 0x1000) = p \<and>
     shm_open False example_link 0x1000 51 61 s1 = Inr (True, req2, s2) \<and>
     get_physical_address (sh_manager s2) 0x1000 (lr_mappedTo req2 + of_nat 1 * 0x1000) = p \<and> p \<noteq> 0"
proof -
  have c: "all_spaces {0x1000} (sh_manager example_shared)" "sharedMaps example_shared (lr_str example_link) = None"
    "regions_ok (sh_regions example_shared 0x1000)" "user_range (next_region (sh_regions example_shared 0x1000)) 2"
    "lr_length example_link = of_nat (4096 * 2)" "4 * 2 \<le> card (free_frames (sh_manager example_shared))"
    "next_region (sh_regions example_shared 0x1000) = 0x1000"
    using example_spaces(1)
    by (simp_all add: example_shared_def regions_ok_def user_range_def next_region_def example_link_def example_space_frames)
  have n: "(0 :: nat) < 2" "(0x1000 :: u64) \<in> {0x1000}" by simp_all
  from shm_create_ok [OF c(1) n(2) c(2,3,4) n(1) c(5,6), of 50 60]
  obtain req1 s1 pages where s1: "shm_open True example_link 0x1000 50 60 example_shared = Inr (True, req1, s1)"
    "all_spaces {0x1000} (sh_manager s1)" "block_open s1 (lr_str example_link) pages" "length pages = 2"
    "card (free_frames (sh_manager example_shared)) \<le> card (free_frames (sh_manager s1)) + 4 * 2"
    "lr_mappedTo req1 = 0x1000"
    "\<forall>k<2. get_physical_address (sh_manager s1) 0x1000 (lr_mappedTo req1 + of_nat k * 0x1000) = pages ! k"
    "sh_regions s1 = (sh_regions example_shared)(0x1000 := sh_regions example_shared 0x1000 @
      [\<lparr>r_start = lr_mappedTo req1, r_end = lr_mappedTo req1 + of_nat (4096 * 2)\<rparr>])"
    unfolding c(7) by blast
  have r: "sh_regions s1 0x1000 = [\<lparr>r_start = 0x1000, r_end = 0x3000\<rparr>]"
    using s1(6,8) by (simp add: example_shared_def)
  have d: "regions_ok (sh_regions s1 0x1000)" "user_range (next_region (sh_regions s1 0x1000)) (length pages)"
    "3 * length pages \<le> card (free_frames (sh_manager s1))"
    using s1(4,5) by (simp_all add: r regions_ok_def user_range_def next_region_def example_shared_def example_space_frames)
  obtain req2 s2 where s2: "shm_open False example_link 0x1000 51 61 s1 = Inr (True, req2, s2)"
    "\<forall>k<length pages. get_physical_address (sh_manager s2) 0x1000 (lr_mappedTo req2 + of_nat k * 0x1000) = pages ! k"
    using shm_link_shares_pages [OF s1(2) n(2) s1(3) d, of 51 61] by blast
  have "pages ! 1 \<noteq> 0" using s1(3,4) by (auto simp: block_open_def)
  moreover have "(1 :: nat) < 2" by simp
  ultimately show ?thesis using s1(1,4,7) s2 by metis
qed

end
