(* ===== verification/Common_CircularBuffer.thy ===== *)
theory Common_CircularBuffer
  imports Xp_Prelude
begin

text \<open>
  The byte queue \<open>FixedCircularBuffer\<close> of \<open>Kernel/Common/CircularBuffer.h\<close>. \<open>Size\<close> is the template
  parameter; the two indices stay below it, so that the \<open>int\<close> computations do not overflow. Copying
  bytes is \<open>copy_bytes dst off src n\<close>, which is what \<open>memcpy(dst + off, src, n)\<close> leaves in \<open>dst\<close>.
\<close>

type_synonym byte = u8

definition copy_bytes :: "byte list \<Rightarrow> nat \<Rightarrow> byte list \<Rightarrow> nat \<Rightarrow> byte list" where
  "copy_bytes dst off src n = take off dst @ take n src @ drop (off + n) dst"

record FixedCircularBuffer =
  m_queueFront :: nat
  m_queueBack :: nat
  m_queue :: "byte list"

definition cb_new :: "nat \<Rightarrow> byte list \<Rightarrow> FixedCircularBuffer" where
  "cb_new Size memory = \<lparr>m_queueFront = 0, m_queueBack = 0, m_queue = take Size memory\<rparr>"

definition is_queue_empty :: "FixedCircularBuffer \<Rightarrow> bool" where
  "is_queue_empty b \<longleftrightarrow> m_queueFront b = m_queueBack b"

definition is_queue_full :: "nat \<Rightarrow> FixedCircularBuffer \<Rightarrow> bool" where
  "is_queue_full Size b \<longleftrightarrow> (m_queueBack b + 1) mod Size = m_queueFront b"

fun cb_read_loop :: "nat \<Rightarrow> nat \<Rightarrow> nat \<Rightarrow> FixedCircularBuffer \<Rightarrow> nat \<times> FixedCircularBuffer" where
  "cb_read_loop Size 0 readCount b = (readCount, b)"
| "cb_read_loop Size (Suc count) readCount b =
     (if is_queue_empty b then (readCount, b)
      else cb_read_loop Size count (readCount + 1) (b\<lparr>m_queueFront := (m_queueFront b + 1) mod Size\<rparr>))"

definition cb_read :: "nat \<Rightarrow> nat \<Rightarrow> FixedCircularBuffer \<Rightarrow> nat \<times> byte list \<times> FixedCircularBuffer" where
  "cb_read Size count b =
     (let start = m_queueFront b;
          (readCount, b) = cb_read_loop Size count 0 b;
          end = m_queueFront b;
          buf = (if start \<le> end then take (end - start) (drop start (m_queue b))
                 else take (Size - start) (drop start (m_queue b)) @ take end (m_queue b))
      in (readCount, buf, b))"

fun cb_write_loop :: "nat \<Rightarrow> nat \<Rightarrow> nat \<Rightarrow> FixedCircularBuffer \<Rightarrow> nat \<times> FixedCircularBuffer" where
  "cb_write_loop Size 0 writeCount b = (writeCount, b)"
| "cb_write_loop Size (Suc count) writeCount b =
     (if is_queue_full Size b then (writeCount, b)
      else cb_write_loop Size count (writeCount + 1) (b\<lparr>m_queueBack := (m_queueBack b + 1) mod Size\<rparr>))"

definition cb_write :: "nat \<Rightarrow> byte list \<Rightarrow> FixedCircularBuffer \<Rightarrow> nat \<times> FixedCircularBuffer" where
  "cb_write Size buf b =
     (let start = m_queueBack b;
          (writeCount, b) = cb_write_loop Size (length buf) 0 b;
          end = m_queueBack b;
          q = (if start \<le> end then copy_bytes (m_queue b) start buf (end - start)
               else copy_bytes (copy_bytes (m_queue b) start buf (Size - start)) 0 (drop (Size - start) buf) end)
      in (writeCount, b\<lparr>m_queue := q\<rparr>))"

subsection \<open>Byte streams\<close>

text \<open>
  What a client relies on: a bounded first-in first-out queue of bytes. The lemma of the locale is the
  end-to-end guarantee over any sequence of reads and writes.
\<close>

datatype stream_op = Put "byte list" | Get nat

locale byte_stream =
  fixes inv :: "'s \<Rightarrow> bool"
    and contents :: "'s \<Rightarrow> byte list"
    and capacity :: nat
    and put :: "byte list \<Rightarrow> 's \<Rightarrow> nat \<times> 's"
    and get :: "nat \<Rightarrow> 's \<Rightarrow> nat \<times> byte list \<times> 's"
  assumes put_law: "inv s \<Longrightarrow> put bs s = (n, s') \<Longrightarrow>
      inv s' \<and> n = min (length bs) (capacity - length (contents s)) \<and> contents s' = contents s @ take n bs"
    and get_law: "inv s \<Longrightarrow> get k s = (n, bs, s') \<Longrightarrow>
      inv s' \<and> n = min k (length (contents s)) \<and> bs = take n (contents s) \<and> contents s' = drop n (contents s)"
begin

fun run :: "stream_op list \<Rightarrow> 's \<Rightarrow> byte list \<times> byte list \<times> 's" where
  "run [] s = ([], [], s)"
| "run (Put bs # ops) s =
     (let (n, s) = put bs s; (ins, outs, s) = run ops s in (take n bs @ ins, outs, s))"
| "run (Get k # ops) s =
     (let (n, bs, s) = get k s; (ins, outs, s) = run ops s in (ins, bs @ outs, s))"

lemma run_fifo: "inv s \<Longrightarrow> run ops s = (ins, outs, s') \<Longrightarrow> inv s' \<and> contents s @ ins = outs @ contents s'"
proof (induction ops arbitrary: s ins outs)
  case Nil
  then show ?case by simp
next
  case (Cons op ops)
  show ?case
  proof (cases op)
    case (Put bs)
    obtain n s1 where p: "put bs s = (n, s1)" by force
    obtain ins1 outs1 where r: "run ops s1 = (ins1, outs1, s')" "ins = take n bs @ ins1" "outs = outs1"
      using Cons.prems(2) Put p by (auto split: prod.splits)
    show ?thesis using put_law [OF Cons.prems(1) p] Cons.IH [OF _ r(1)] r(2,3) by auto
  next
    case (Get k)
    obtain n bs s1 where g: "get k s = (n, bs, s1)" by (metis prod_cases3)
    obtain ins1 outs1 where r: "run ops s1 = (ins1, outs1, s')" "ins = ins1" "outs = bs @ outs1"
      using Cons.prems(2) Get g by (auto split: prod.splits)
    show ?thesis using get_law [OF Cons.prems(1) g] Cons.IH [OF _ r(1)] r(2,3)
      by (metis append.assoc append_take_drop_id)
  qed
qed

end

subsection \<open>The circular buffer is a byte stream\<close>

definition cb_inv :: "nat \<Rightarrow> FixedCircularBuffer \<Rightarrow> bool" where
  "cb_inv Size b \<longleftrightarrow> 0 < Size \<and> m_queueFront b < Size \<and> m_queueBack b < Size \<and> length (m_queue b) = Size"

definition cb_used :: "nat \<Rightarrow> FixedCircularBuffer \<Rightarrow> nat" where
  "cb_used Size b =
     (if m_queueFront b \<le> m_queueBack b then m_queueBack b - m_queueFront b
      else m_queueBack b + Size - m_queueFront b)"

definition cb_contents :: "nat \<Rightarrow> FixedCircularBuffer \<Rightarrow> byte list" where
  "cb_contents Size b = map (\<lambda>i. m_queue b ! ((m_queueFront b + i) mod Size)) [0..<cb_used Size b]"

lemma length_cb_contents [simp]: "length (cb_contents Size b) = cb_used Size b"
  by (simp add: cb_contents_def)

lemma mod_wrap: "x < 2 * n \<Longrightarrow> x mod n = (if x < n then x else x - (n :: nat))"
  by (simp add: mod_if)

lemma cb_used_less: "cb_inv Size b \<Longrightarrow> cb_used Size b < Size"
  by (auto simp: cb_inv_def cb_used_def)

lemma cb_back: "cb_inv Size b \<Longrightarrow> m_queueBack b = (m_queueFront b + cb_used Size b) mod Size"
  by (auto simp: cb_inv_def cb_used_def mod_wrap)

lemma cb_used_front:
  assumes "cb_inv Size b" "n \<le> cb_used Size b"
  shows "cb_used Size (b\<lparr>m_queueFront := (m_queueFront b + n) mod Size\<rparr>) = cb_used Size b - n"
proof -
  have "n < Size" using assms cb_used_less by fastforce
  then show ?thesis using assms by (auto simp: cb_inv_def cb_used_def mod_wrap split: if_splits)
qed

lemma cb_used_back:
  assumes "cb_inv Size b" "n < Size - cb_used Size b"
  shows "cb_used Size (b\<lparr>m_queueBack := (m_queueBack b + n) mod Size\<rparr>) = cb_used Size b + n"
  using assms by (auto simp: cb_inv_def cb_used_def mod_wrap split: if_splits)

lemma cb_read_loop_spec:
  assumes "cb_inv Size b"
  shows "cb_read_loop Size count rc b =
    (rc + min count (cb_used Size b), b\<lparr>m_queueFront := (m_queueFront b + min count (cb_used Size b)) mod Size\<rparr>)"
  using assms
proof (induction count arbitrary: rc b)
  case 0
  then show ?case by (simp add: cb_inv_def)
next
  case (Suc count)
  show ?case
  proof (cases "is_queue_empty b")
    case True
    then show ?thesis using Suc.prems by (simp add: is_queue_empty_def cb_used_def cb_inv_def)
  next
    case False
    let ?b = "b\<lparr>m_queueFront := (m_queueFront b + 1) mod Size\<rparr>"
    have u: "1 \<le> cb_used Size b" using False Suc.prems by (auto simp: is_queue_empty_def cb_used_def cb_inv_def)
    have "cb_inv Size ?b" using Suc.prems by (simp add: cb_inv_def)
    note IH = Suc.IH [OF this, of "rc + 1"]
    obtain k where k: "cb_used Size b = Suc k" using u by (cases "cb_used Size b") auto
    then have "cb_used Size ?b = k" using cb_used_front [OF Suc.prems u] by simp
    then show ?thesis using False IH k by (simp add: mod_simps)
  qed
qed

lemma cb_write_loop_spec:
  assumes "cb_inv Size b"
  shows "cb_write_loop Size count wc b =
    (wc + min count (Size - 1 - cb_used Size b),
     b\<lparr>m_queueBack := (m_queueBack b + min count (Size - 1 - cb_used Size b)) mod Size\<rparr>)"
  using assms
proof (induction count arbitrary: wc b)
  case 0
  then show ?case by (simp add: cb_inv_def)
next
  case (Suc count)
  have full: "is_queue_full Size b \<longleftrightarrow> cb_used Size b = Size - 1"
    using Suc.prems by (auto simp: is_queue_full_def cb_used_def cb_inv_def mod_wrap mod_Suc)
  show ?case
  proof (cases "is_queue_full Size b")
    case True
    then show ?thesis using full Suc.prems by (simp add: cb_inv_def)
  next
    case False
    let ?b = "b\<lparr>m_queueBack := (m_queueBack b + 1) mod Size\<rparr>"
    have u: "1 < Size - cb_used Size b" using False full cb_used_less [OF Suc.prems] by linarith
    have "cb_inv Size ?b" using Suc.prems by (simp add: cb_inv_def)
    note IH = Suc.IH [OF this, of "wc + 1"]
    obtain k where k: "Size - 1 - cb_used Size b = Suc k" using u by (cases "Size - 1 - cb_used Size b") auto
    then have "Size - 1 - cb_used Size ?b = k" using cb_used_back [OF Suc.prems u] by simp
    then show ?thesis using False IH k by (simp add: mod_simps)
  qed
qed

lemma nth_copy_bytes:
  assumes "off + n \<le> length dst" "n \<le> length src" "j < length dst"
  shows "copy_bytes dst off src n ! j = (if off \<le> j \<and> j < off + n then src ! (j - off) else dst ! j)"
  using assms by (auto simp: copy_bytes_def nth_append min_def)

lemma length_copy_bytes: "off + n \<le> length dst \<Longrightarrow> n \<le> length src \<Longrightarrow> length (copy_bytes dst off src n) = length dst"
  by (simp add: copy_bytes_def)

lemma cb_read_law:
  assumes inv: "cb_inv Size b" and r: "cb_read Size k b = (n, bs, b')"
  shows "cb_inv Size b' \<and> n = min k (length (cb_contents Size b)) \<and> bs = take n (cb_contents Size b) \<and>
    cb_contents Size b' = drop n (cb_contents Size b)"
proof -
  let ?f = "m_queueFront b" and ?q = "m_queue b"
  define m where "m = min k (cb_used Size b)"
  have m: "m \<le> cb_used Size b" "m < Size" using cb_used_less [OF inv] by (auto simp: m_def)
  have f: "?f < Size" "length ?q = Size" "0 < Size" using inv by (auto simp: cb_inv_def)
  let ?b' = "b\<lparr>m_queueFront := (?f + m) mod Size\<rparr>"
  have res: "n = m" "b' = ?b'"
    "bs = (if ?f \<le> (?f + m) mod Size then take ((?f + m) mod Size - ?f) (drop ?f ?q)
           else take (Size - ?f) (drop ?f ?q) @ take ((?f + m) mod Size) ?q)"
    using r cb_read_loop_spec [OF inv, of k 0] by (auto simp: cb_read_def m_def Let_def)
  have "bs = map (\<lambda>i. ?q ! ((?f + i) mod Size)) [0..<m]"
  proof (rule nth_equalityI)
    show "length bs = length (map (\<lambda>i. ?q ! ((?f + i) mod Size)) [0..<m])"
      using res(3) f m by (auto simp: mod_wrap)
    fix i assume "i < length bs"
    then show "bs ! i = map (\<lambda>i. ?q ! ((?f + i) mod Size)) [0..<m] ! i"
      using res(3) f m by (auto simp: mod_wrap nth_append add.commute split: if_splits)
  qed
  moreover have "take m (cb_contents Size b) = map (\<lambda>i. ?q ! ((?f + i) mod Size)) [0..<m]"
    using m(1) by (simp add: cb_contents_def take_map)
  moreover have "cb_contents Size ?b' = drop m (cb_contents Size b)"
  proof (rule nth_equalityI)
    show "length (cb_contents Size ?b') = length (drop m (cb_contents Size b))"
      using cb_used_front [OF inv m(1)] by simp
    fix i assume "i < length (cb_contents Size ?b')"
    then have i: "i < cb_used Size ?b'" "m + i < cb_used Size b" using cb_used_front [OF inv m(1)] by simp_all
    then show "cb_contents Size ?b' ! i = drop m (cb_contents Size b) ! i"
      by (simp add: cb_contents_def mod_simps add.assoc)
  qed
  ultimately show ?thesis using res(1,2) inv by (simp add: m_def cb_inv_def)
qed

lemma cb_write_law:
  assumes inv: "cb_inv Size b" and r: "cb_write Size bs b = (n, b')"
  shows "cb_inv Size b' \<and> n = min (length bs) (Size - 1 - length (cb_contents Size b)) \<and>
    cb_contents Size b' = cb_contents Size b @ take n bs"
proof -
  let ?e = "m_queueBack b" and ?q = "m_queue b"
  define m where "m = min (length bs) (Size - 1 - cb_used Size b)"
  have u: "cb_used Size b < Size" by (rule cb_used_less [OF inv])
  have m: "m \<le> length bs" "m < Size - cb_used Size b" "m < Size" using u by (auto simp: m_def)
  have f: "?e < Size" "length ?q = Size" "0 < Size" using inv by (auto simp: cb_inv_def)
  define q where "q = (if ?e \<le> (?e + m) mod Size then copy_bytes ?q ?e bs ((?e + m) mod Size - ?e)
      else copy_bytes (copy_bytes ?q ?e bs (Size - ?e)) 0 (drop (Size - ?e) bs) ((?e + m) mod Size))"
  let ?b' = "b\<lparr>m_queueBack := (?e + m) mod Size, m_queue := q\<rparr>"
  have res: "n = m" "b' = ?b'"
    using r cb_write_loop_spec [OF inv, of "length bs" 0] by (auto simp: cb_write_def m_def q_def Let_def)
  have lq: "length q = Size" using f m by (auto simp: q_def mod_wrap length_copy_bytes)
  have q: "q ! j = (if ?e + m < Size then if ?e \<le> j \<and> j < ?e + m then bs ! (j - ?e) else ?q ! j
      else if ?e \<le> j then bs ! (j - ?e) else if j < ?e + m - Size then bs ! (Size - ?e + j) else ?q ! j)"
    if "j < Size" for j
    using that f m by (auto simp: q_def mod_wrap nth_copy_bytes length_copy_bytes)
  have new: "q ! ((?e + i) mod Size) = bs ! i" if "i < m" for i
  proof (cases "?e + i < Size")
    case True
    then show ?thesis using that f m q [of "?e + i"] by (simp add: mod_wrap)
  next
    case False
    then have "(?e + i) mod Size = ?e + i - Size" using that f m by (simp add: mod_wrap)
    moreover have "?e + i - Size < ?e" "?e + i - Size < ?e + m - Size" "\<not> ?e + m < Size" "Size - ?e + (?e + i - Size) = i"
      using False that f m by linarith+
    ultimately show ?thesis using q [of "?e + i - Size"] f by simp
  qed
  have old: "q ! j = ?q ! j" if j: "j = (m_queueFront b + i) mod Size" "i < cb_used Size b" for i j
  proof -
    have "m_queueFront b < Size" using inv by (simp add: cb_inv_def)
    then have k: "j < Size" "if ?e + m < Size then j < ?e \<or> ?e + m \<le> j else j < ?e \<and> ?e + m - Size \<le> j"
      using that f m by (auto simp: cb_used_def mod_wrap split: if_splits)
    then show ?thesis using q [OF k(1)] by (auto split: if_splits)
  qed
  have "cb_used Size ?b' = cb_used Size (b\<lparr>m_queueBack := (?e + m) mod Size\<rparr>)" by (simp add: cb_used_def)
  then have used: "cb_used Size ?b' = cb_used Size b + m" using cb_used_back [OF inv m(2)] by simp
  have "cb_contents Size ?b' = cb_contents Size b @ take m bs"
  proof (rule nth_equalityI)
    show "length (cb_contents Size ?b') = length (cb_contents Size b @ take m bs)" using used m(1) by simp
    fix i assume i: "i < length (cb_contents Size ?b')"
    show "cb_contents Size ?b' ! i = (cb_contents Size b @ take m bs) ! i"
    proof (cases "i < cb_used Size b")
      case True
      then show ?thesis using i old by (simp add: cb_contents_def nth_append used)
    next
      case False
      then obtain j where j: "i = cb_used Size b + j" "j < m" using i used by (auto simp: le_iff_add not_less)
      have "(m_queueFront b + i) mod Size = (?e + j) mod Size"
        unfolding cb_back [OF inv] j(1) by (simp add: mod_simps ac_simps)
      then show ?thesis using j new [OF j(2)] used by (simp add: cb_contents_def nth_append)
    qed
  qed
  then show ?thesis using res inv lq f by (simp add: m_def cb_inv_def)
qed

interpretation cb: byte_stream "cb_inv Size" "cb_contents Size" "Size - 1" "cb_write Size" "cb_read Size"
  for Size
  by unfold_locales (rule cb_write_law, assumption+, rule cb_read_law, assumption+)

lemma cb_new_inv: "0 < Size \<Longrightarrow> length memory = Size \<Longrightarrow> cb_inv Size (cb_new Size memory) \<and> cb_contents Size (cb_new Size memory) = []"
  by (simp add: cb_inv_def cb_new_def cb_contents_def cb_used_def)

lemma cb_read_loop_numeral [simp]:
  "cb_read_loop Size (numeral k) rc b = (if is_queue_empty b then (rc, b)
     else cb_read_loop Size (pred_numeral k) (rc + 1) (b\<lparr>m_queueFront := (m_queueFront b + 1) mod Size\<rparr>))"
  by (simp add: numeral_eq_Suc)

subsection \<open>Properties\<close>

text \<open>
  C20: The circular buffer neither loses, duplicates nor reorders bytes. Whatever reads and writes are
  made on a new buffer, wrapping around its end any number of times, the bytes the writes accepted are
  the bytes the reads returned followed by those still in the buffer.
\<close>

theorem circular_buffer_fifo:
  assumes "0 < Size" "length memory = Size" "cb.run Size ops (cb_new Size memory) = (ins, outs, b)"
  shows "ins = outs @ cb_contents Size b \<and> cb_inv Size b"
  using cb.run_fifo [OF _ assms(3)] cb_new_inv [OF assms(1,2)] by auto

theorem circular_buffer_fifo_witness:
  "\<exists>b. cb.run 4 [Put [1, 2, 3, 4], Get 2, Put [5, 6], Get 9] (cb_new 4 [0, 0, 0, 0]) = ([1, 2, 3, 5, 6], [1, 2, 3, 5, 6], b) \<and>
     cb_contents 4 b = []"
proof -
  obtain b where r: "cb.run 4 [Put [1, 2, 3, 4], Get 2, Put [5, 6], Get 9] (cb_new 4 [0, 0, 0, 0]) =
      ([1, 2, 3, 5, 6], [1, 2, 3, 5, 6], b)"
    by (simp add: cb_new_def cb_write_def cb_read_def is_queue_empty_def is_queue_full_def copy_bytes_def)
  then show ?thesis using circular_buffer_fifo [of 4 "[0, 0, 0, 0]", OF _ _ r] by auto
qed

text \<open>
  A write takes as many bytes as fit, which is at most one less than the size of the buffer, and
  a read returns as many as there are.
\<close>

theorem circular_buffer_counts:
  assumes "cb_inv Size b" "cb_write Size bs b = (n, b1)" "cb_read Size k b = (m, out, b2)"
  shows "n = min (length bs) (Size - 1 - length (cb_contents Size b)) \<and> cb_contents Size b1 = cb_contents Size b @ take n bs \<and>
    m = min k (length (cb_contents Size b)) \<and> out = take m (cb_contents Size b) \<and>
    cb_contents Size b2 = drop m (cb_contents Size b) \<and>
    (is_queue_empty b \<longleftrightarrow> cb_contents Size b = []) \<and> (is_queue_full Size b \<longleftrightarrow> length (cb_contents Size b) = Size - 1)"
proof -
  have "is_queue_empty b \<longleftrightarrow> cb_used Size b = 0"
    using assms(1) by (auto simp: is_queue_empty_def cb_used_def cb_inv_def)
  moreover have "is_queue_full Size b \<longleftrightarrow> cb_used Size b = Size - 1"
    using assms(1) by (auto simp: is_queue_full_def cb_used_def cb_inv_def mod_wrap mod_Suc)
  moreover have "cb_contents Size b = [] \<longleftrightarrow> cb_used Size b = 0" using length_cb_contents [of Size b] by (auto simp del: length_cb_contents)
  ultimately show ?thesis using cb.put_law [OF assms(1,2)] cb.get_law [OF assms(1,3)] by simp
qed

theorem circular_buffer_counts_witness:
  "\<exists>b1 b2. cb_write 4 [1, 2, 3, 4, 5] (cb_new 4 [0, 0, 0, 0]) = (3, b1) \<and> cb_contents 4 b1 = [1, 2, 3] \<and>
     cb_read 4 7 (cb_new 4 [0, 0, 0, 0]) = (0, [], b2)"
proof -
  obtain n b1 where w: "cb_write 4 [1, 2, 3, 4, 5] (cb_new 4 [0, 0, 0, 0]) = (n, b1)" by force
  obtain m out b2 where r: "cb_read 4 7 (cb_new 4 [0, 0, 0, 0]) = (m, out, b2)" by (metis prod_cases3)
  have c: "cb_inv 4 (cb_new 4 [0, 0, 0, 0])" "cb_contents 4 (cb_new 4 [0, 0, 0, 0]) = []"
    using cb_new_inv [of 4 "[0, 0, 0, 0]"] by simp_all
  show ?thesis using circular_buffer_counts [OF c(1) w r] w r unfolding c(2) by auto
qed

end
