(* ===== verification/Common_Vector.thy ===== *)
theory Common_Vector
  imports Xp_Prelude
begin

text \<open>
  The growable array of \<open>Kernel/Common/Vector.h\<close>. The allocation is a list of slots, of which a slot
  without an object is \<^const>\<open>None\<close>; \<open>m_finish\<close> and iterators are indices into it. Reading a slot
  without an object, constructing an object outside the allocation and moving below its start are
  faults, the result \<^const>\<open>None\<close>.
\<close>

record 'a Vector =
  m_slots :: "'a option list"
  m_finish :: nat

definition vec_new :: "'a Vector" where
  "vec_new = \<lparr>m_slots = [], m_finish = 0\<rparr>"

definition vec_capacity :: "'a Vector \<Rightarrow> nat" where
  "vec_capacity v = length (m_slots v)"

definition vec_size :: "'a Vector \<Rightarrow> nat" where
  "vec_size v = m_finish v"

definition vec_reserve :: "nat \<Rightarrow> 'a Vector \<Rightarrow> 'a Vector" where
  "vec_reserve new_cap v =
     (if new_cap \<le> vec_capacity v then v
      else let sz = vec_size v
           in \<lparr>m_slots = take sz (m_slots v) @ replicate (new_cap - sz) None, m_finish = sz\<rparr>)"

text \<open>The placement \<open>new\<close> of an object at an index of the allocation.\<close>

definition construct_at :: "nat \<Rightarrow> 'a \<Rightarrow> 'a Vector \<Rightarrow> 'a Vector option" where
  "construct_at i x v = (if i < vec_capacity v then Some (v\<lparr>m_slots := (m_slots v)[i := Some x]\<rparr>) else None)"

definition vec_push_back :: "'a \<Rightarrow> 'a Vector \<Rightarrow> 'a Vector option" where
  "vec_push_back x v =
     (let v = (if vec_size v \<ge> vec_capacity v then vec_reserve (vec_capacity v * 2 + 1) v else v)
      in case construct_at (m_finish v) x v of None \<Rightarrow> None | Some v \<Rightarrow> Some (v\<lparr>m_finish := m_finish v + 1\<rparr>))"

fun vec_push_all :: "'a list \<Rightarrow> 'a Vector \<Rightarrow> 'a Vector option" where
  "vec_push_all [] v = Some v"
| "vec_push_all (x # xs) v = (case vec_push_back x v of None \<Rightarrow> None | Some v \<Rightarrow> vec_push_all xs v)"

definition vec_at :: "nat \<Rightarrow> 'a Vector \<Rightarrow> 'a option" where
  "vec_at position v = (if position < vec_capacity v then m_slots v ! position else None)"

definition vec_front :: "'a Vector \<Rightarrow> 'a option" where
  "vec_front v = vec_at 0 v"

definition vec_back :: "'a Vector \<Rightarrow> 'a option" where
  "vec_back v = vec_at (m_finish v) v"

text \<open>
  \<open>pop_back\<close> runs the destructor at the address of \<open>back()\<close>, which is the end of the vector: what is
  there is not an object of the vector, and the last element is not destroyed.
\<close>

definition vec_pop_back :: "'a Vector \<Rightarrow> 'a Vector option" where
  "vec_pop_back v =
     (let v = v\<lparr>m_slots := (m_slots v)[m_finish v := None]\<rparr>
      in if m_finish v = 0 then None else Some (v\<lparr>m_finish := m_finish v - 1\<rparr>))"

fun vec_clear_loop :: "nat \<Rightarrow> 'a Vector \<Rightarrow> 'a Vector option" where
  "vec_clear_loop 0 v = Some v"
| "vec_clear_loop (Suc n) v = (case vec_pop_back v of None \<Rightarrow> None | Some v \<Rightarrow> vec_clear_loop n v)"

definition vec_clear :: "'a Vector \<Rightarrow> 'a Vector option" where
  "vec_clear v = (let init_size = vec_size v in vec_clear_loop init_size v)"

definition vec_with_capacity :: "nat \<Rightarrow> 'a Vector" where
  "vec_with_capacity count = vec_reserve count vec_new"

fun vec_fill_loop :: "nat \<Rightarrow> nat \<Rightarrow> 'a \<Rightarrow> 'a Vector \<Rightarrow> 'a Vector option" where
  "vec_fill_loop 0 count x v = Some v"
| "vec_fill_loop (Suc i) count x v = (case construct_at count x v of None \<Rightarrow> None | Some v \<Rightarrow> vec_fill_loop i count x v)"

definition vec_fill :: "nat \<Rightarrow> 'a \<Rightarrow> 'a Vector option" where
  "vec_fill count x = vec_fill_loop count count x (vec_reserve count vec_new)"

subsection \<open>Iterators\<close>

type_synonym VecIterator = int

definition vec_begin :: "'a Vector \<Rightarrow> VecIterator" where
  "vec_begin v = 0"

definition vec_end :: "'a Vector \<Rightarrow> VecIterator" where
  "vec_end v = int (m_finish v)"

definition vit_deref :: "VecIterator \<Rightarrow> 'a Vector \<Rightarrow> 'a option" where
  "vit_deref m_item v = (if m_item < 0 then None else vec_at (nat m_item) v)"

definition vit_index :: "VecIterator \<Rightarrow> int \<Rightarrow> 'a Vector \<Rightarrow> 'a option" where
  "vit_index m_item i v = vit_deref (m_item + i) v"

definition vit_inc :: "VecIterator \<Rightarrow> VecIterator" where
  "vit_inc m_item = m_item + 1"

definition vit_dec :: "VecIterator \<Rightarrow> VecIterator" where
  "vit_dec m_item = m_item - 1"

definition vit_post_inc :: "VecIterator \<Rightarrow> VecIterator \<times> VecIterator" where
  "vit_post_inc m_item = (let copy = m_item in (copy, vit_inc m_item))"

definition vit_post_dec :: "VecIterator \<Rightarrow> VecIterator \<times> VecIterator" where
  "vit_post_dec m_item = (let copy = m_item in (copy, vit_dec m_item))"

definition vit_advance :: "VecIterator \<Rightarrow> int \<Rightarrow> VecIterator" where
  "vit_advance m_item i = m_item + i"

definition vit_retreat :: "VecIterator \<Rightarrow> int \<Rightarrow> VecIterator" where
  "vit_retreat m_item i = m_item - i"

definition vit_diff :: "VecIterator \<Rightarrow> VecIterator \<Rightarrow> int" where
  "vit_diff lhs rhs = lhs - rhs"

text \<open>A range based \<open>for\<close> loop over the vector, which collects the elements.\<close>

function vec_iterate :: "'a Vector \<Rightarrow> VecIterator \<Rightarrow> 'a list option" where
  "vec_iterate v it =
     (if it \<ge> vec_end v then Some []
      else case vit_deref it v of
             None \<Rightarrow> None
           | Some x \<Rightarrow> (case vec_iterate v (vit_inc it) of None \<Rightarrow> None | Some xs \<Rightarrow> Some (x # xs)))"
  by pat_completeness auto
termination
  by (relation "measure (\<lambda>(v, it). nat (vec_end v - it))") (auto simp: vit_inc_def)

declare vec_iterate.simps [simp del]

definition vec_copy :: "'a Vector \<Rightarrow> 'a Vector option" where
  "vec_copy v =
     (case vec_iterate v (vec_begin v) of
        None \<Rightarrow> None | Some xs \<Rightarrow> vec_push_all xs (vec_reserve (vec_capacity v) vec_new))"

definition vec_swap :: "'a Vector \<Rightarrow> 'a Vector \<Rightarrow> 'a Vector \<times> 'a Vector" where
  "vec_swap a b = (b, a)"

definition vec_move :: "'a Vector \<Rightarrow> 'a Vector \<times> 'a Vector" where
  "vec_move v = (v, vec_new)"

definition vec_assign :: "'a Vector \<Rightarrow> 'a Vector \<Rightarrow> 'a Vector option" where
  "vec_assign this v = (case vec_copy v of None \<Rightarrow> None | Some v \<Rightarrow> Some (snd (vec_swap v this)))"

subsection \<open>The elements\<close>

definition vec_rep :: "'a Vector \<Rightarrow> 'a list \<Rightarrow> bool" where
  "vec_rep v xs \<longleftrightarrow> m_finish v = length xs \<and> length xs \<le> length (m_slots v) \<and>
     take (length xs) (m_slots v) = map Some xs"

lemma vec_rep_reserve: "vec_rep v xs \<Longrightarrow> vec_rep (vec_reserve n v) xs"
  by (auto simp: vec_rep_def vec_reserve_def vec_capacity_def vec_size_def Let_def)

lemma vec_rep_push:
  assumes "vec_rep v xs"
  shows "\<exists>v'. vec_push_back x v = Some v' \<and> vec_rep v' (xs @ [x])"
proof -
  define w where "w = (if vec_size v \<ge> vec_capacity v then vec_reserve (vec_capacity v * 2 + 1) v else v)"
  have "vec_rep w xs" using assms vec_rep_reserve [OF assms] by (simp add: w_def)
  moreover have "m_finish w < length (m_slots w)"
    using assms by (simp add: w_def vec_rep_def vec_capacity_def vec_size_def vec_reserve_def Let_def)
  ultimately have w: "vec_rep w xs" "m_finish w < length (m_slots w)" .
  let ?v = "w\<lparr>m_slots := (m_slots w)[length xs := Some x], m_finish := length xs + 1\<rparr>"
  have "vec_push_back x v = (case construct_at (m_finish w) x w of None \<Rightarrow> None | Some v \<Rightarrow> Some (v\<lparr>m_finish := m_finish v + 1\<rparr>))"
    by (simp only: vec_push_back_def w_def Let_def)
  then have "vec_push_back x v = Some ?v"
    using w by (simp add: construct_at_def vec_capacity_def vec_rep_def)
  moreover have "vec_rep ?v (xs @ [x])"
    using w by (auto simp: vec_rep_def take_Suc_conv_app_nth nth_list_update_eq)
  ultimately show ?thesis by blast
qed

lemma vec_rep_push_all: "vec_rep v xs \<Longrightarrow> \<exists>v'. vec_push_all ys v = Some v' \<and> vec_rep v' (xs @ ys)"
proof (induction ys arbitrary: v xs)
  case Nil
  then show ?case by simp
next
  case (Cons y ys)
  obtain v1 where "vec_push_back y v = Some v1" "vec_rep v1 (xs @ [y])" using vec_rep_push [OF Cons.prems] by blast
  then show ?case using Cons.IH [of v1 "xs @ [y]"] by auto
qed

lemma vec_rep_at: "vec_rep v xs \<Longrightarrow> i < length xs \<Longrightarrow> vec_at i v = Some (xs ! i)"
  unfolding vec_rep_def vec_at_def vec_capacity_def by (metis length_map less_le_trans nth_map nth_take)

lemma vec_rep_new: "vec_rep vec_new []"
  by (simp add: vec_rep_def vec_new_def)

lemma vec_iterate_from:
  assumes "vec_rep v xs" "i \<le> length xs"
  shows "vec_iterate v (int i) = Some (drop i xs)"
  using assms(2)
proof (induction "length xs - i" arbitrary: i)
  case 0
  then show ?case using assms(1) by (subst vec_iterate.simps) (simp add: vec_end_def vec_rep_def)
next
  case (Suc n)
  then have i: "i < length xs" by simp
  have "vec_iterate v (int (Suc i)) = Some (drop (Suc i) xs)" using Suc by (intro Suc.hyps(1)) auto
  moreover have "vit_inc (int i) = int (Suc i)" by (simp add: vit_inc_def)
  ultimately show ?case using vec_rep_at [OF assms(1) i] i assms(1)
    by (subst vec_iterate.simps) (simp add: vec_end_def vec_rep_def vit_deref_def Cons_nth_drop_Suc)
qed

subsection \<open>Properties\<close>

text \<open>
  A vector built by appending holds exactly the appended elements: it never writes outside its
  allocation, each element is found at its position, iteration visits them in order, and a copy holds
  the same elements.
\<close>

theorem vector_push_back_elements:
  "\<exists>v. vec_push_all xs vec_new = Some v \<and> vec_size v = length xs \<and> vec_size v \<le> vec_capacity v \<and>
    map (\<lambda>i. vec_at i v) [0..<length xs] = map Some xs \<and> vec_iterate v (vec_begin v) = Some xs \<and>
    (\<exists>w. vec_copy v = Some w \<and> vec_iterate w (vec_begin w) = Some xs)"
proof -
  obtain v where v: "vec_push_all xs vec_new = Some v" "vec_rep v xs"
    using vec_rep_push_all [OF vec_rep_new, of xs] by auto
  have it: "vec_iterate v (vec_begin v) = Some xs" if "vec_rep v xs" for v :: "'a Vector"
    using vec_iterate_from [OF that, of 0] by (simp add: vec_begin_def)
  obtain w where "vec_copy v = Some w" "vec_rep w xs"
    using vec_rep_push_all [OF vec_rep_reserve [OF vec_rep_new], of xs "vec_capacity v"] it [OF v(2)]
    by (auto simp: vec_copy_def)
  moreover have "map (\<lambda>i. vec_at i v) [0..<length xs] = map Some xs"
    by (rule nth_equalityI) (simp_all add: vec_rep_at [OF v(2)])
  ultimately show ?thesis using v it by (auto simp: vec_size_def vec_rep_def vec_capacity_def)
qed

text \<open>
  Two faults of the vector. The constructor that fills a vector with copies of an element writes
  behind the allocation for every positive count, and \<open>back\<close> never gives the last element: after an
  append it reads a slot without an object, or behind the allocation.
\<close>

theorem vector_fill_and_back_fault:
  assumes "vec_rep v xs" "\<forall>i. length xs \<le> i \<and> i < vec_capacity v \<longrightarrow> m_slots v ! i = None"
  shows "vec_fill (Suc n) x = None \<and> vec_back v = None"
  using assms by (auto simp: vec_fill_def vec_reserve_def vec_new_def vec_capacity_def vec_size_def construct_at_def
      vec_back_def vec_at_def vec_rep_def Let_def)

theorem vector_fill_and_back_fault_witness:
  "vec_fill 3 (7 :: nat) = None \<and> vec_back \<lparr>m_slots = [Some 1, Some 2, None], m_finish = 2\<rparr> = (None :: nat option)"
proof -
  have v: "vec_rep \<lparr>m_slots = [Some 1, Some 2, None], m_finish = 2\<rparr> [1, 2 :: nat]" by (simp add: vec_rep_def)
  have e: "(3 :: nat) = Suc 2" by simp
  show ?thesis unfolding e
    by (rule vector_fill_and_back_fault [OF v, of 2 7]) (auto simp: vec_capacity_def less_Suc_eq)
qed

end
