(* ===== verification/Net_Endian.thy ===== *)
theory Net_Endian
  imports Xp_Prelude
begin

text \<open>
  Big-endian fields and hardware addresses: \<open>Kernel/API/Endian.h\<close> and \<open>Kernel/API/Network.h\<close>. A
  \<open>BigEndian<T>\<close> is the raw word \<open>m_value\<close>; the processor is little-endian, so the bytes of a packed
  structure are those of the raw words from the least significant one on.
\<close>

type_synonym byte = u8

definition byte_at :: "nat \<Rightarrow> 'a :: len word \<Rightarrow> byte" where
  "byte_at s x = ucast (drop_bit s x)"

definition byteswap8 :: "u8 \<Rightarrow> u8" where
  "byteswap8 x = x"

definition byteswap16 :: "u16 \<Rightarrow> u16" where
  "byteswap16 x = push_bit 8 (ucast (byte_at 0 x)) OR ucast (byte_at 8 x)"

definition byteswap32 :: "u32 \<Rightarrow> u32" where
  "byteswap32 x = push_bit 24 (ucast (byte_at 0 x)) OR push_bit 16 (ucast (byte_at 8 x)) OR
     push_bit 8 (ucast (byte_at 16 x)) OR ucast (byte_at 24 x)"

subsection \<open>Big-endian values\<close>

definition be8_set :: "u8 \<Rightarrow> u8" where "be8_set v = byteswap8 v"
definition be8_get :: "u8 \<Rightarrow> u8" where "be8_get m_value = byteswap8 m_value"
definition be16_set :: "u16 \<Rightarrow> u16" where "be16_set v = byteswap16 v"
definition be16_get :: "u16 \<Rightarrow> u16" where "be16_get m_value = byteswap16 m_value"
definition be16_set_raw :: "u16 \<Rightarrow> u16" where "be16_set_raw v = v"
definition be32_set :: "u32 \<Rightarrow> u32" where "be32_set v = byteswap32 v"
definition be32_get :: "u32 \<Rightarrow> u32" where "be32_get m_value = byteswap32 m_value"

definition be32_eq :: "u32 \<Rightarrow> u32 \<Rightarrow> bool" where
  "be32_eq lhs rhs \<longleftrightarrow> be32_get lhs = be32_get rhs"

text \<open>The bytes of a raw field in memory, and a field read from memory.\<close>

definition mem16 :: "u16 \<Rightarrow> byte list" where
  "mem16 raw = [byte_at 0 raw, byte_at 8 raw]"

definition mem32 :: "u32 \<Rightarrow> byte list" where
  "mem32 raw = [byte_at 0 raw, byte_at 8 raw, byte_at 16 raw, byte_at 24 raw]"

definition load16 :: "byte \<Rightarrow> byte \<Rightarrow> u16" where
  "load16 b0 b1 = push_bit 8 (ucast b1) OR ucast b0"

definition load32 :: "byte \<Rightarrow> byte \<Rightarrow> byte \<Rightarrow> byte \<Rightarrow> u32" where
  "load32 b0 b1 b2 b3 = push_bit 24 (ucast b3) OR push_bit 16 (ucast b2) OR push_bit 8 (ucast b1) OR ucast b0"

lemma bit_byte_at: "bit (byte_at s x) n \<longleftrightarrow> n < 8 \<and> bit x (s + n)"
  by (simp add: byte_at_def bit_ucast_iff bit_drop_bit_eq)

lemmas byte_bits = bit_byte_at bit_or_iff bit_push_bit_iff bit_ucast_iff

lemma byte_at_swap16 [simp]: "byte_at 0 (byteswap16 x) = byte_at 8 x" "byte_at 8 (byteswap16 x) = byte_at 0 x"
  by (rule bit_word_eqI; auto simp: byteswap16_def byte_bits)+

lemma byte_at_swap32 [simp]:
  "byte_at 0 (byteswap32 x) = byte_at 24 x" "byte_at 8 (byteswap32 x) = byte_at 16 x"
  "byte_at 16 (byteswap32 x) = byte_at 8 x" "byte_at 24 (byteswap32 x) = byte_at 0 x"
  by (rule bit_word_eqI; auto simp: byteswap32_def byte_bits)+

lemma load16_bytes [simp]: "load16 (byte_at 0 x) (byte_at 8 x) = x"
  by (rule bit_word_eqI) (auto simp: load16_def byte_bits)

lemma load32_bytes [simp]: "load32 (byte_at 0 x) (byte_at 8 x) (byte_at 16 x) (byte_at 24 x) = x"
proof (rule bit_word_eqI)
  fix n assume "n < LENGTH(32)"
  then consider "n < 8" | "8 \<le> n" "n < 16" | "16 \<le> n" "n < 24" | "24 \<le> n" "n < 32" by force
  then show "bit (load32 (byte_at 0 x) (byte_at 8 x) (byte_at 16 x) (byte_at 24 x)) n = bit x n"
    by cases (auto simp: load32_def byte_bits)
qed

lemma byteswap16_load: "byteswap16 x = load16 (byte_at 8 x) (byte_at 0 x)"
  by (simp add: byteswap16_def load16_def)

lemma byteswap32_load: "byteswap32 x = load32 (byte_at 24 x) (byte_at 16 x) (byte_at 8 x) (byte_at 0 x)"
  by (simp add: byteswap32_def load32_def)

lemma byteswap16_inv [simp]: "byteswap16 (byteswap16 x) = x"
  by (simp add: byteswap16_load [of "byteswap16 x"])

lemma byteswap32_inv [simp]: "byteswap32 (byteswap32 x) = x"
  by (simp add: byteswap32_load [of "byteswap32 x"])

lemma be_get_set [simp]:
  "be8_get (be8_set x) = x" "be16_get (be16_set y) = y" "be16_set (be16_get y) = y"
  "be32_get (be32_set z) = z" "be32_set (be32_get z) = z"
  by (simp_all add: be8_get_def be8_set_def byteswap8_def be16_get_def be16_set_def be32_get_def be32_set_def)

lemma be32_eq_iff [simp]: "be32_eq x y \<longleftrightarrow> x = y"
  unfolding be32_eq_def be32_get_def by (metis byteswap32_inv)

lemma mem16_be: "mem16 (be16_set v) = [byte_at 8 v, byte_at 0 v]"
  by (simp add: mem16_def be16_set_def)

lemma mem32_be: "mem32 (be32_set v) = [byte_at 24 v, byte_at 16 v, byte_at 8 v, byte_at 0 v]"
  by (simp add: mem32_def be32_set_def)

subsection \<open>Hardware addresses\<close>

definition MAC_ADDRESS_SIZE :: nat where "MAC_ADDRESS_SIZE = 6"

type_synonym MediaAccessControlAddress = "byte list"

definition mac_set_value :: "u64 \<Rightarrow> MediaAccessControlAddress" where
  "mac_set_value addr =
     [ucast (drop_bit 40 (addr AND 0xff0000000000)), ucast (drop_bit 32 (addr AND 0x00ff00000000)),
      ucast (drop_bit 24 (addr AND 0x0000ff000000)), ucast (drop_bit 16 (addr AND 0x000000ff0000)),
      ucast (drop_bit 8 (addr AND 0x00000000ff00)), ucast (addr AND 0x0000000000ff)]"

definition mac_set_raw_value :: "u64 \<Rightarrow> MediaAccessControlAddress" where
  "mac_set_raw_value addr =
     [ucast (addr AND 0x0000000000ff), ucast (drop_bit 8 (addr AND 0x00000000ff00)),
      ucast (drop_bit 16 (addr AND 0x000000ff0000)), ucast (drop_bit 24 (addr AND 0x0000ff000000)),
      ucast (drop_bit 32 (addr AND 0x00ff00000000)), ucast (drop_bit 40 (addr AND 0xff0000000000))]"

definition mac_get_value :: "MediaAccessControlAddress \<Rightarrow> u64" where
  "mac_get_value m_mac =
     push_bit 40 (ucast (m_mac ! 0)) OR push_bit 32 (ucast (m_mac ! 1)) OR push_bit 24 (ucast (m_mac ! 2)) OR
     push_bit 16 (ucast (m_mac ! 3)) OR push_bit 8 (ucast (m_mac ! 4)) OR ucast (m_mac ! 5)"

definition mac_eq :: "MediaAccessControlAddress \<Rightarrow> MediaAccessControlAddress \<Rightarrow> bool" where
  "mac_eq lhs rhs \<longleftrightarrow> mac_get_value lhs = mac_get_value rhs"

definition BROADCAST_MAC :: MediaAccessControlAddress where
  "BROADCAST_MAC = mac_set_value 0xFFFFFFFFFFFF"

lemma mask_byte:
  "ucast (drop_bit s (addr AND push_bit s (mask 8))) = byte_at s (addr :: u64)" if "s \<le> 40"
  by (rule bit_word_eqI)
    (use that in \<open>auto simp: byte_bits bit_drop_bit_eq bit_and_iff bit_mask_iff simp del: mask_numeral\<close>)

lemma mac_set_value_bytes:
  "mac_set_value addr = [byte_at 40 addr, byte_at 32 addr, byte_at 24 addr, byte_at 16 addr, byte_at 8 addr, byte_at 0 addr]"
  using mask_byte [of 40 addr] mask_byte [of 32 addr] mask_byte [of 24 addr] mask_byte [of 16 addr]
    mask_byte [of 8 addr] mask_byte [of 0 addr] by (simp add: mac_set_value_def mask_eq_exp_minus_1)

lemma bit_mac_get_value:
  assumes "length m = 6"
  shows "bit (mac_get_value m) n \<longleftrightarrow> n < 48 \<and> bit (m ! (5 - n div 8)) (n mod 8)"
proof -
  have b: "bit (x :: byte) k \<Longrightarrow> k < 8" for x k using bit_imp_le_length [of x k] by simp
  consider "n < 8" | "8 \<le> n" "n < 16" | "16 \<le> n" "n < 24" | "24 \<le> n" "n < 32" | "32 \<le> n" "n < 40"
    | "40 \<le> n" "n < 48" | "48 \<le> n" by linarith
  then show ?thesis
  proof cases
    case 1 then show ?thesis by (auto simp: mac_get_value_def byte_bits)
  next
    case 2 then have "n div 8 = 1" "n mod 8 = n - 8" by presburger+
    then show ?thesis using 2 by (auto simp: mac_get_value_def byte_bits dest: b)
  next
    case 3 then have "n div 8 = 2" "n mod 8 = n - 16" by presburger+
    then show ?thesis using 3 by (auto simp: mac_get_value_def byte_bits dest: b)
  next
    case 4 then have "n div 8 = 3" "n mod 8 = n - 24" by presburger+
    then show ?thesis using 4 by (auto simp: mac_get_value_def byte_bits dest: b)
  next
    case 5 then have "n div 8 = 4" "n mod 8 = n - 32" by presburger+
    then show ?thesis using 5 by (auto simp: mac_get_value_def byte_bits dest: b)
  next
    case 6 then have "n div 8 = 5" "n mod 8 = n - 40" by presburger+
    then show ?thesis using 6 by (auto simp: mac_get_value_def byte_bits dest: b)
  next
    case 7 then show ?thesis by (auto simp: mac_get_value_def byte_bits dest: b)
  qed
qed

end
