(* ===== verification/Net_IPv4.thy ===== *)
theory Net_IPv4
  imports Net_Endian
begin

text \<open>
  The IPv4 message header and the Internet checksum: \<open>Kernel/Networking/IP/IPv4/Common.h\<close> and
  \<open>checksum\<close> of \<open>Kernel/Networking/IP/IPv4.cpp\<close>. The header is the record of its raw fields, as they
  lie in memory; \<open>header_bytes\<close> is the memory of the packed structure and \<open>header_at\<close> the
  \<open>reinterpret_cast\<close> of memory to it.
\<close>

type_synonym InternetProtocolAddress = u32

subsection \<open>The message header\<close>

record MessageHeader =
  m_versionAndIhl :: u8
  m_DscpAndEcn :: u8
  m_length :: u16
  m_ident :: u16
  m_flagsAndFragment :: u8
  m_fragment :: u8
  m_ttl :: u8
  m_protocol :: u8
  m_headerChecksum :: u16
  m_sourceAddress :: InternetProtocolAddress
  m_destAddress :: InternetProtocolAddress

definition Version_IPV4 :: u8 where "Version_IPV4 = 4"
definition Flags_NO_FRAGMENT :: u8 where "Flags_NO_FRAGMENT = 2"
definition Protocol_TCP :: u8 where "Protocol_TCP = 6"
definition Protocol_UDP :: u8 where "Protocol_UDP = 0x11"

definition get_version :: "MessageHeader \<Rightarrow> u8" where
  "get_version h = drop_bit 4 (be8_get (m_versionAndIhl h)) AND 0xF"

definition set_version :: "u8 \<Rightarrow> MessageHeader \<Rightarrow> MessageHeader" where
  "set_version version h = h\<lparr>m_versionAndIhl := be8_set ((be8_get (m_versionAndIhl h) AND 0x0F) OR push_bit 4 version)\<rparr>"

definition get_ihl :: "MessageHeader \<Rightarrow> u8" where
  "get_ihl h = be8_get (m_versionAndIhl h) AND 0xF"

definition set_ihl :: "u8 \<Rightarrow> MessageHeader \<Rightarrow> MessageHeader" where
  "set_ihl ihl h = h\<lparr>m_versionAndIhl := be8_set ((be8_get (m_versionAndIhl h) AND 0xF0) OR ihl)\<rparr>"

definition get_length :: "MessageHeader \<Rightarrow> u16" where
  "get_length h = be16_get (m_length h)"

definition set_length :: "u16 \<Rightarrow> MessageHeader \<Rightarrow> MessageHeader" where
  "set_length v h = h\<lparr>m_length := be16_set v\<rparr>"

definition get_ident :: "MessageHeader \<Rightarrow> u16" where
  "get_ident h = be16_get (m_ident h)"

definition set_ident :: "u16 \<Rightarrow> MessageHeader \<Rightarrow> MessageHeader" where
  "set_ident v h = h\<lparr>m_ident := be16_set v\<rparr>"

definition get_flags :: "MessageHeader \<Rightarrow> u8" where
  "get_flags h = drop_bit 5 (be8_get (m_flagsAndFragment h) AND 0xE0)"

definition set_flags :: "u8 \<Rightarrow> MessageHeader \<Rightarrow> MessageHeader" where
  "set_flags flags h = h\<lparr>m_flagsAndFragment := be8_set (push_bit 5 flags)\<rparr>"

definition get_time_to_live :: "MessageHeader \<Rightarrow> u8" where
  "get_time_to_live h = be8_get (m_ttl h)"

definition set_time_to_live :: "u8 \<Rightarrow> MessageHeader \<Rightarrow> MessageHeader" where
  "set_time_to_live ttl h = h\<lparr>m_ttl := be8_set ttl\<rparr>"

definition get_protocol :: "MessageHeader \<Rightarrow> u8" where
  "get_protocol h = be8_get (m_protocol h)"

definition set_protocol :: "u8 \<Rightarrow> MessageHeader \<Rightarrow> MessageHeader" where
  "set_protocol protocol h = h\<lparr>m_protocol := be8_set protocol\<rparr>"

definition set_fragment_offset :: "u16 \<Rightarrow> MessageHeader \<Rightarrow> MessageHeader" where
  "set_fragment_offset fragment h = h\<lparr>m_fragment := be8_set (ucast fragment)\<rparr>"

definition get_header_checksum :: "MessageHeader \<Rightarrow> u16" where
  "get_header_checksum h = be16_get (m_headerChecksum h)"

definition set_header_checksum :: "u16 \<Rightarrow> MessageHeader \<Rightarrow> MessageHeader" where
  "set_header_checksum v h = h\<lparr>m_headerChecksum := be16_set v\<rparr>"

definition get_source_ip :: "MessageHeader \<Rightarrow> InternetProtocolAddress" where
  "get_source_ip h = be32_set (be32_get (m_sourceAddress h))"

definition set_source_ip :: "InternetProtocolAddress \<Rightarrow> MessageHeader \<Rightarrow> MessageHeader" where
  "set_source_ip address h = h\<lparr>m_sourceAddress := address\<rparr>"

definition get_dest_ip :: "MessageHeader \<Rightarrow> InternetProtocolAddress" where
  "get_dest_ip h = be32_set (be32_get (m_destAddress h))"

definition set_dest_ip :: "InternetProtocolAddress \<Rightarrow> MessageHeader \<Rightarrow> MessageHeader" where
  "set_dest_ip address h = h\<lparr>m_destAddress := address\<rparr>"

definition sizeof_MessageHeader :: nat where "sizeof_MessageHeader = 20"

definition header_bytes :: "MessageHeader \<Rightarrow> byte list" where
  "header_bytes h =
     [m_versionAndIhl h, m_DscpAndEcn h] @ mem16 (m_length h) @ mem16 (m_ident h) @
     [m_flagsAndFragment h, m_fragment h, m_ttl h, m_protocol h] @ mem16 (m_headerChecksum h) @
     mem32 (m_sourceAddress h) @ mem32 (m_destAddress h)"

definition header_at :: "byte list \<Rightarrow> MessageHeader option" where
  "header_at b =
     (if length b < sizeof_MessageHeader then None else Some
       \<lparr>m_versionAndIhl = b ! 0, m_DscpAndEcn = b ! 1, m_length = load16 (b ! 2) (b ! 3),
        m_ident = load16 (b ! 4) (b ! 5), m_flagsAndFragment = b ! 6, m_fragment = b ! 7,
        m_ttl = b ! 8, m_protocol = b ! 9, m_headerChecksum = load16 (b ! 10) (b ! 11),
        m_sourceAddress = load32 (b ! 12) (b ! 13) (b ! 14) (b ! 15),
        m_destAddress = load32 (b ! 16) (b ! 17) (b ! 18) (b ! 19)\<rparr>)"

lemma length_header_bytes [simp]: "length (header_bytes h) = 20"
  by (simp add: header_bytes_def mem16_def mem32_def)

lemma header_at_bytes [simp]: "header_at (header_bytes h @ rest) = Some h"
  by (simp add: header_at_def header_bytes_def mem16_def mem32_def sizeof_MessageHeader_def nth_append)

lemmas get_defs = get_version_def get_ihl_def get_length_def get_ident_def get_flags_def get_time_to_live_def
  get_protocol_def get_header_checksum_def get_source_ip_def get_dest_ip_def

lemmas set_defs = set_version_def set_ihl_def set_length_def set_ident_def set_flags_def set_time_to_live_def
  set_protocol_def set_fragment_offset_def set_header_checksum_def set_source_ip_def set_dest_ip_def

subsection \<open>The checksum\<close>

text \<open>
  The bytes are read in pairs as little-endian 16-bit words \<open>data[i]\<close>. The last byte of a buffer of
  odd size is read through a \<open>char\<close>, which is signed here, before it is widened to 16 bits.
\<close>

definition swapped_word :: "u16 \<Rightarrow> u32" where
  "swapped_word d = drop_bit 8 (ucast d AND 0xFF00) OR push_bit 8 (ucast d AND 0x00FF)"

fun checksum_sum :: "byte list \<Rightarrow> nat \<Rightarrow> nat \<Rightarrow> u32 \<Rightarrow> u32" where
  "checksum_sum data i 0 temp = temp"
| "checksum_sum data i (Suc n) temp =
     checksum_sum data (Suc i) n (temp + swapped_word (load16 (data ! (2 * i)) (data ! (2 * i + 1))))"

lemma unat_u32_bound: "unat (w :: u32) < 4294967296"
  using unsigned_less [of w, where ?'a = nat] by simp

lemma low_half: "(temp :: u32) AND 0xFFFF = take_bit 16 temp"
proof -
  have "(0xFFFF :: u32) = mask 16" by (simp add: mask_eq_exp_minus_1)
  then show ?thesis by (simp only: take_bit_eq_mask)
qed

lemma high_half: "(temp :: u32) AND 0xFFFF0000 = push_bit 16 (drop_bit 16 temp)"
proof -
  have m: "(0xFFFF0000 :: u32) = push_bit 16 (mask 16)" by (simp add: mask_eq_exp_minus_1)
  show ?thesis unfolding m
    by (rule bit_word_eqI) (auto simp: bit_and_iff bit_push_bit_iff bit_mask_iff bit_drop_bit_eq simp del: push_bit_numeral mask_numeral push_bit_of_1 )
qed

lemma high_half_zero: "(temp :: u32) AND 0xFFFF0000 = 0 \<longleftrightarrow> unat temp < 65536"
proof -
  have "unat (push_bit 16 (drop_bit 16 temp)) = unat temp div 65536 * 65536"
    using unat_u32_bound [of temp]
    by (simp add: drop_bit_eq_div push_bit_eq_mult unat_word_ariths unat_div)
  then show ?thesis unfolding high_half unat_eq_0 [symmetric] by (simp add: div_eq_0_iff)
qed

lemma unat_fold_step: "unat (((temp :: u32) AND 0xFFFF) + drop_bit 16 temp) = unat temp mod 65536 + unat temp div 65536"
proof -
  have a: "unat (take_bit 16 temp) = unat temp mod 65536"
    by (simp add: take_bit_eq_mod unat_mod)
  have b: "unat (drop_bit 16 temp) = unat temp div 65536"
    by (simp add: drop_bit_eq_div unat_div)
  have "unat temp mod 65536 + unat temp div 65536 < 2 ^ 32" using unat_u32_bound [of temp] by simp
  then show ?thesis unfolding low_half by (simp add: a b unat_word_ariths)
qed
lemma checksum_fold_less:
  "(temp :: u32) AND 0xFFFF0000 \<noteq> 0 \<Longrightarrow> unat ((temp AND 0xFFFF) + drop_bit 16 temp) < unat temp"
proof -
  assume "temp AND 0xFFFF0000 \<noteq> 0"
  then have "65536 \<le> unat temp" by (simp add: high_half_zero)
  then show ?thesis unfolding unat_fold_step
    using div_mult_mod_eq [of "unat temp" 65536] div_greater_zero_iff [of "unat temp" 65536] by linarith
qed

function checksum_fold :: "u32 \<Rightarrow> u32" where
  "checksum_fold temp =
     (if temp AND 0xFFFF0000 \<noteq> 0 then checksum_fold ((temp AND 0xFFFF) + drop_bit 16 temp) else temp)"
  by auto
termination
  by (relation "measure unat") (auto simp: checksum_fold_less)

declare checksum_fold.simps [simp del]

definition checksum :: "byte list \<Rightarrow> u16" where
  "checksum data =
     (let temp = checksum_sum data 0 (length data div 2) 0;
          temp = (if length data mod 2 \<noteq> 0
                  then temp + push_bit 8 (ucast (scast (last data) :: u16)) else temp);
          temp = checksum_fold temp
      in ucast (drop_bit 8 (NOT temp AND 0xFF00) OR push_bit 8 (NOT temp AND 0x00FF)))"

subsection \<open>The checksum in one's complement arithmetic\<close>

text \<open>
  The reference: the sum of the big-endian 16-bit words, the last byte of an odd buffer padded with
  zero on the right, folded by end-around carry to 16 bits.
\<close>

fun be_words :: "byte list \<Rightarrow> nat" where
  "be_words [] = 0"
| "be_words [b] = 256 * unat b"
| "be_words (b0 # b1 # bs) = 256 * unat b0 + unat b1 + be_words bs"

definition end_around :: "nat \<Rightarrow> nat" where
  "end_around n = (if n = 0 then 0 else (n - 1) mod 65535 + 1)"

lemma end_around_small: "n < 65536 \<Longrightarrow> end_around n = n"
  by (auto simp: end_around_def)

lemma end_around_step: "end_around (n mod 65536 + n div 65536) = end_around n"
proof (cases "n = 0")
  case False
  then have pos: "n mod 65536 + n div 65536 \<noteq> 0" by (auto simp: div_eq_0_iff)
  have "n = n mod 65536 + n div 65536 + 65535 * (n div 65536)" using div_mult_mod_eq [of n 65536] by linarith
  then have "n - 1 = (n mod 65536 + n div 65536 - 1) + 65535 * (n div 65536)" using pos by linarith
  then have "(n - 1) mod 65535 = (n mod 65536 + n div 65536 - 1) mod 65535" by (metis mod_mult_self2)
  with pos False show ?thesis by (simp add: end_around_def)
qed (simp add: end_around_def)

lemma unat_checksum_fold: "unat (checksum_fold temp) = end_around (unat temp)"
proof (induction temp rule: checksum_fold.induct)
  case (1 temp)
  then show ?case
    using end_around_step [of "unat temp"] unat_fold_step [of temp]
    by (subst checksum_fold.simps) (auto simp: high_half_zero end_around_small)
qed

lemma end_around_le: "end_around n \<le> 65535"
  using mod_less_divisor [of 65535 "n - 1"] by (auto simp: end_around_def)

lemma end_around_complement: "end_around (n + (65535 - end_around n)) = 65535"
proof (cases "n = 0")
  case False
  have "end_around n = (n - 1) mod 65535 + 1" using False by (simp add: end_around_def)
  moreover have "(n - 1) mod 65535 < 65535" by simp
  moreover have "65535 * ((n - 1) div 65535) + (n - 1) mod 65535 = n - 1" by (rule mult_div_mod_eq)
  ultimately have "n + (65535 - end_around n) - 1 = 65534 + 65535 * ((n - 1) div 65535)"
    using False by linarith
  then have "(n + (65535 - end_around n) - 1) mod 65535 = 65534" by simp
  with False show ?thesis by (simp add: end_around_def)
qed (simp add: end_around_def)

lemma swapped_word_load: "swapped_word (load16 b0 b1) = of_nat (256 * unat b0 + unat b1)"
proof -
  have m: "(0xFF00 :: u32) = push_bit 8 (mask 8)" "(0x00FF :: u32) = mask 8"
    by (simp_all add: mask_eq_exp_minus_1)
  have "swapped_word (load16 b0 b1) = push_bit 8 (ucast b0) OR ucast b1"
    unfolding swapped_word_def m
    by (rule bit_word_eqI)
      (auto simp: load16_def byte_bits bit_and_iff bit_mask_iff bit_drop_bit_eq dest: bit_imp_le_length
        simp del: push_bit_numeral mask_numeral)
  also have "\<dots> = push_bit 8 (ucast b0) + ucast b1"
    by (rule disjunctive_add_eq_or [symmetric], rule bit_word_eqI)
      (auto simp: byte_bits bit_and_iff dest: bit_imp_le_length)
  finally show ?thesis by (simp add: push_bit_eq_mult mult.commute)
qed

lemma checksum_sum_words:
  "2 * (i + n) \<le> length data \<Longrightarrow>
   checksum_sum data i n temp = temp + of_nat (be_words (take (2 * n) (drop (2 * i) data)))"
proof (induction n arbitrary: i temp)
  case (Suc n)
  then have "drop (2 * i) data = data ! (2 * i) # data ! (2 * i + 1) # drop (2 * Suc i) data"
    by (simp add: Cons_nth_drop_Suc)
  with Suc show ?case by (simp add: swapped_word_load)
qed simp

lemma be_words_append: "even (length xs) \<Longrightarrow> be_words (xs @ ys) = be_words xs + be_words ys"
  by (induction xs rule: be_words.induct) auto

lemma unat_byte_le: "unat (b :: byte) \<le> 255"
  using unsigned_less [of b, where ?'a = nat] by simp

lemma be_words_le: "2 * be_words bs \<le> 65535 * (length bs + 1)"
proof (induction bs rule: be_words.induct)
  case (2 b)
  then show ?case using unat_byte_le [of b] by simp
next
  case (3 b0 b1 bs)
  then show ?case using unat_byte_le [of b0] unat_byte_le [of b1] by simp
qed simp

lemma swap_complement:
  "ucast (drop_bit 8 (NOT (temp :: u32) AND 0xFF00) OR push_bit 8 (NOT temp AND 0x00FF)) = be16_set (NOT (ucast temp))"
proof -
  have m: "(0xFF00 :: u32) = push_bit 8 (mask 8)" "(0x00FF :: u32) = mask 8"
    by (simp_all add: mask_eq_exp_minus_1)
  show ?thesis unfolding m be16_set_def byteswap16_def
    by (rule bit_word_eqI)
      (auto simp: byte_bits bit_and_iff bit_mask_iff bit_drop_bit_eq bit_not_iff
        simp del: push_bit_numeral mask_numeral)
qed

lemma unat_not_u16: "unat (NOT (w :: u16)) = 65535 - unat w"
proof -
  have "NOT w = - 1 - w" by (simp add: not_eq_complement)
  moreover have "unat (- 1 - w) = unat (- 1 :: u16) - unat w" by (rule unat_sub) simp
  moreover have "unat (- 1 :: u16) = 65535" by (simp add: unsigned_minus_1_eq_mask mask_eq_exp_minus_1)
  ultimately show ?thesis by simp
qed

lemma unat_of_nat_16: "n < 65536 \<Longrightarrow> unat (of_nat n :: u16) = n"
  by (simp add: unat_of_nat)

lemma sum_words_even: "checksum_sum data 0 (length data div 2) 0 = of_nat (be_words (take (2 * (length data div 2)) data))"
  using checksum_sum_words [of 0 "length data div 2" data 0] by simp

lemma be_words_snoc: "even (length xs) \<Longrightarrow> be_words (xs @ [b]) = be_words xs + 256 * unat b"
  by (simp add: be_words_append)

lemma odd_half: "n < 256 \<Longrightarrow> odd (n div 128) \<longleftrightarrow> 128 \<le> (n :: nat)"
proof -
  assume "n < 256"
  then have "n div 128 = (if 128 \<le> n then 1 else 0)" by (auto simp: div_nat_eqI)
  then show ?thesis by simp
qed

lemma sint_byte: "sint (b :: byte) = uint b - (if 128 \<le> unat b then 256 else 0)"
proof -
  have u: "uint b = int (unat b)" "unat b < 256" using unat_byte_le [of b] by simp_all
  have "bit (uint b) 7 \<longleftrightarrow> bit (unat b) 7" by (simp add: bit_unsigned_iff)
  also have "\<dots> \<longleftrightarrow> odd (unat b div 128)" by (simp add: bit_iff_odd)
  also have "\<dots> \<longleftrightarrow> 128 \<le> unat b"
    by (rule odd_half [OF u(2)])
  finally have s: "bit (uint b) 7 \<longleftrightarrow> 128 \<le> unat b" .
  have "sint b = take_bit 8 (uint b) - 256 * of_bool (bit (uint b) 7)"
    by (simp add: sint_uint signed_take_bit_eq_take_bit_minus)
  also have "take_bit 8 (uint b) = uint b"
    using unsigned_less [of b, where ?'a = int] by (simp add: take_bit_int_eq_self)
  finally show ?thesis unfolding s by simp
qed

lemma odd_byte:
  "push_bit 8 (ucast (scast (b :: byte) :: u16) :: u32) =
   of_nat (256 * unat b + (if 128 \<le> unat b then 0xFF0000 else 0))"
proof -
  have "(scast b :: u16) = of_nat (unat b + (if 128 \<le> unat b then 0xFF00 else 0))"
  proof -
    have "(scast b :: u16) = of_int (sint b)" by simp
    then show ?thesis unfolding sint_byte by simp
  qed
  then have "unat (scast b :: u16) = unat b + (if 128 \<le> unat b then 0xFF00 else 0)"
    using unat_byte_le [of b] by (simp only: unat_of_nat_16 split: if_split) (simp add: unat_of_nat_16)
  moreover have "(ucast (scast b :: u16) :: u32) = of_nat (unat (scast b :: u16))" by simp
  ultimately have "(ucast (scast b :: u16) :: u32) = of_nat (unat b + (if 128 \<le> unat b then 0xFF00 else 0))"
    by (simp only:)
  then show ?thesis by (simp only: push_bit_eq_mult) (simp add: algebra_simps)
qed

definition checksum_total :: "byte list \<Rightarrow> nat" where
  "checksum_total data =
     be_words data + (if odd (length data) \<and> 128 \<le> unat (last data) then 0xFF0000 else 0)"

lemma checksum_spec:
  assumes "length data \<le> 65600"
  shows "unat (be16_get (checksum data)) = 65535 - end_around (checksum_total data)"
proof -
  let ?temp = "if length data mod 2 \<noteq> 0 then of_nat (be_words (take (2 * (length data div 2)) data))
      + push_bit 8 (ucast (scast (last data) :: u16)) else of_nat (be_words (take (2 * (length data div 2)) data)) :: u32"
  have "?temp = of_nat (checksum_total data)"
  proof (cases "even (length data)")
    case False
    then have "data \<noteq> []" by auto
    then obtain xs b where d: "data = xs @ [b]" by (metis append_butlast_last_id)
    with False have "even (length xs)" by simp
    then show ?thesis using False unfolding d odd_byte
      by (simp add: checksum_total_def be_words_append odd_byte mod2_eq_if)
  qed (simp add: checksum_total_def)
  moreover have "checksum_total data < 2 ^ 32"
    using be_words_le [of data] assms by (simp add: checksum_total_def)
  ultimately have "unat ?temp = checksum_total data" by (simp add: unat_of_nat)
  then have "unat (checksum_fold ?temp) = end_around (checksum_total data)" by (simp only: unat_checksum_fold)
  moreover have "checksum data = be16_set (NOT (ucast (checksum_fold ?temp)))"
    by (simp only: checksum_def sum_words_even swap_complement Let_def)
  ultimately show ?thesis
    using end_around_le [of "checksum_total data"] by (simp add: unat_not_u16 unsigned_ucast_eq take_bit_eq_mod)
qed

lemma be16_zero [simp]: "be16_set 0 = 0" "be16_get 0 = 0"
  by (simp_all add: be16_set_def be16_get_def byteswap16_def byte_at_def)

lemma checksum_zero_iff:
  "length data \<le> 65600 \<Longrightarrow> checksum data = 0 \<longleftrightarrow> end_around (checksum_total data) = 65535"
proof -
  assume "length data \<le> 65600"
  from checksum_spec [OF this] have "be16_get (checksum data) = 0 \<longleftrightarrow> end_around (checksum_total data) = 65535"
    using end_around_le [of "checksum_total data"] by (simp add: unat_eq_0 [symmetric])
  moreover have "be16_get w = 0 \<longleftrightarrow> w = 0" for w
    by (metis be_get_set(2,3) be16_zero)
  ultimately show ?thesis by simp
qed

lemma unat_load16: "unat (load16 b0 b1) = 256 * unat b1 + unat b0"
proof -
  have "load16 b0 b1 = push_bit 8 (ucast b1) + ucast b0" unfolding load16_def
    by (rule disjunctive_add_eq_or [symmetric], rule bit_word_eqI)
      (auto simp: byte_bits bit_and_iff dest: bit_imp_le_length)
  also have "\<dots> = of_nat (256 * unat b1 + unat b0)" by (simp add: push_bit_eq_mult mult.commute)
  finally show ?thesis using unat_byte_le [of b0] unat_byte_le [of b1] by (simp only: unat_of_nat_16)
qed

lemma be_words_mem16: "be_words (mem16 w) = unat (be16_get w)"
  by (simp add: mem16_def be16_get_def byteswap16_load unat_load16)

text \<open>
  A checksum computed with its own field zero and then stored there makes the checksum of the whole
  buffer zero, which is what a receiver tests.
\<close>

lemma checksum_verifies:
  assumes len: "length (pre @ mem16 0 @ post) \<le> 65600" and pre: "even (length pre)" "post \<noteq> []"
    and odd: "even (length post) \<or> unat (last post) < 128"
  shows "checksum (pre @ mem16 (checksum (pre @ mem16 0 @ post)) @ post) = 0"
proof -
  let ?d = "pre @ mem16 0 @ post" and ?c = "checksum (pre @ mem16 0 @ post)"
  have l: "length (mem16 w) = 2" for w by (simp add: mem16_def)
  have total: "checksum_total (pre @ mem16 w @ post) = be_words pre + unat (be16_get w) + be_words post" for w
    using pre odd by (auto simp: checksum_total_def be_words_append l be_words_mem16)
  have "unat (be16_get ?c) = 65535 - end_around (checksum_total ?d)" by (rule checksum_spec [OF len])
  then have "checksum_total (pre @ mem16 ?c @ post) = checksum_total ?d + (65535 - end_around (checksum_total ?d))"
    by (simp add: total)
  then have "end_around (checksum_total (pre @ mem16 ?c @ post)) = 65535" by (simp only: end_around_complement)
  then show ?thesis using len by (simp add: checksum_zero_iff l)
qed

subsection \<open>The header of an outgoing message\<close>

definition chksum_value :: "byte list \<Rightarrow> u16" where
  "chksum_value data = be16_get (be16_set_raw (checksum data))"

definition build_header ::
  "MessageHeader \<Rightarrow> InternetProtocolAddress \<Rightarrow> u8 \<Rightarrow> nat \<Rightarrow> InternetProtocolAddress \<Rightarrow> MessageHeader"
where
  "build_header message destIp protocol len ipAddress =
     (let message = set_version Version_IPV4 message;
          message = set_ihl (of_nat (sizeof_MessageHeader div 4)) message;
          message = set_length (of_nat len) message;
          message = set_ident 0x0001 message;
          message = set_flags Flags_NO_FRAGMENT message;
          message = set_fragment_offset 0 message;
          message = set_time_to_live 0x40 message;
          message = set_protocol protocol message;
          message = set_dest_ip destIp message;
          message = set_source_ip ipAddress message;
          message = set_header_checksum 0 message
      in set_header_checksum (chksum_value (header_bytes message)) message)"

lemma build_header_checksum: "checksum (header_bytes (build_header g d p n s)) = 0"
proof -
  let ?h = "build_header g d p n s"
  let ?pre = "[m_versionAndIhl ?h, m_DscpAndEcn ?h] @ mem16 (m_length ?h) @ mem16 (m_ident ?h) @
     [m_flagsAndFragment ?h, m_fragment ?h, m_ttl ?h, m_protocol ?h]"
  let ?post = "mem32 (m_sourceAddress ?h) @ mem32 (m_destAddress ?h)"
  have "header_bytes ?h = ?pre @ mem16 (checksum (?pre @ mem16 0 @ ?post)) @ ?post"
    by (simp add: build_header_def header_bytes_def set_defs chksum_value_def be16_set_raw_def Let_def
        be16_zero)
  also have "checksum \<dots> = 0" by (rule checksum_verifies) (simp_all add: mem16_def mem32_def)
  finally show ?thesis .
qed

lemma end_around_full: "end_around n = 65535 \<Longrightarrow> n mod 65535 = 0"
  by (cases n) (auto simp: end_around_def mod_Suc split: if_splits)

lemma end_around_shift: "0 < n \<Longrightarrow> end_around (n + 0xFF0000) \<noteq> end_around n"
proof
  assume n: "0 < n" and "end_around (n + 0xFF0000) = end_around n"
  then have "(n - 1 + 0xFF0000) mod 65535 = (n - 1) mod 65535" by (simp add: end_around_def)
  then have "65535 dvd (n - 1 + 0xFF0000 - (n - 1) :: nat)" by (rule mod_eq_dvd_iff_nat [THEN iffD1, rotated]) simp
  then show False by simp
qed

lemma be_words_last: "data \<noteq> [] \<Longrightarrow> unat (last data) \<le> be_words data"
  by (induction data rule: be_words.induct) (auto split: if_splits intro: trans_le_add2)

lemma version_ihl_byte: "((((g :: u8) AND 0x0F) OR push_bit 4 4) AND 0xF0) OR 5 = 0x45"
proof -
  have "((g AND 0x0F) OR 0x40) AND 0xF0 = (g AND (0x0F AND 0xF0)) OR (0x40 AND 0xF0)"
    by (simp only: bit.conj_disj_distrib2 and.assoc)
  then show ?thesis by simp
qed

lemma build_header_version: "m_versionAndIhl (build_header g d p n s) = 0x45"
  using version_ihl_byte [of "m_versionAndIhl g"]
  by (simp add: build_header_def Let_def set_defs be8_get_def be8_set_def byteswap8_def Version_IPV4_def
      sizeof_MessageHeader_def)

lemma build_header_fields [simp]:
  "m_length (build_header g d p n s) = be16_set (of_nat n)" "m_flagsAndFragment (build_header g d p n s) = 0x40"
  "m_protocol (build_header g d p n s) = be8_set p" "m_destAddress (build_header g d p n s) = d"
  "m_sourceAddress (build_header g d p n s) = s"
  "m_DscpAndEcn (build_header g d p n s) = m_DscpAndEcn g" "m_ident (build_header g d p n s) = be16_set 1"
  "m_fragment (build_header g d p n s) = 0" "m_ttl (build_header g d p n s) = 0x40"
  by (simp_all add: build_header_def Let_def set_defs be8_set_def byteswap8_def Flags_NO_FRAGMENT_def)

subsection \<open>Properties\<close>

text \<open>
  C28: The header that \<open>InternetProtocolV4::send\<close> builds in the memory it allocated, whatever that memory
  held, has the checksum that the protocol defines: the sum of the ten big-endian 16-bit words of its twenty bytes,
  the checksum among them, is a multiple of 65535, which is zero in one's complement arithmetic. Its other bytes are the version 4 with five
  words of header, the length, the identification 1, the flag against fragmentation with offset 0, the time to live of 64, the protocol
  and the two addresses, in network order; only the second byte, the kind of service, is what the memory held.
  So \<open>checksum\<close> of the header is zero, which is what a receiver tests.
\<close>

theorem ip_header_verifies:
  "let h = header_bytes (build_header garbage destIp protocol len src) in
     (\<exists>c0 c1. h = [0x45, m_DscpAndEcn garbage, byte_at 8 (of_nat len :: u16), byte_at 0 (of_nat len :: u16), 0, 1, 0x40, 0, 0x40, protocol, c0, c1] @ mem32 src @ mem32 destIp) \<and>
     be_words h mod 65535 = 0 \<and> checksum h = 0"
proof -
  let ?h = "build_header garbage destIp protocol len src"
  have c: "end_around (be_words (header_bytes ?h)) = 65535"
    using build_header_checksum [of garbage destIp protocol len src] by (simp add: checksum_zero_iff checksum_total_def)
  have "header_bytes ?h = [0x45, m_DscpAndEcn garbage, byte_at 8 (of_nat len :: u16), byte_at 0 (of_nat len :: u16), 0, 1, 0x40, 0, 0x40, protocol,
      byte_at 0 (m_headerChecksum ?h), byte_at 8 (m_headerChecksum ?h)] @ mem32 src @ mem32 destIp"
    by (simp add: header_bytes_def build_header_version mem16_be be8_set_def byteswap8_def mem16_def [of "m_headerChecksum h" for h] byte_at_def)
  moreover have "be_words (header_bytes ?h) mod 65535 = 0" by (rule end_around_full [OF c])
  ultimately show ?thesis unfolding Let_def using build_header_checksum by blast
qed

text \<open>A header to compare with: its checksum is 0xB860.\<close>

lemma example_header:
  "header_bytes (build_header \<lparr>m_versionAndIhl = 0x12, m_DscpAndEcn = 0, m_length = 0, m_ident = 0, m_flagsAndFragment = 0xFF, m_fragment = 0,
       m_ttl = 0, m_protocol = 0, m_headerChecksum = 0x3456, m_sourceAddress = 0, m_destAddress = 0\<rparr> 0xC700A8C0 0x11 0x73 0x0100A8C0) =
     [0x45, 0, 0, 0x73, 0, 1, 0x40, 0, 0x40, 0x11, 0xB8, 0x60, 0xC0, 0xA8, 0, 1, 0xC0, 0xA8, 0, 0xC7]"
  by code_simp

text \<open>
  For a buffer of at most 65600 bytes \<open>checksum\<close> returns, in network order, the complement of the
  one's complement sum of its big-endian words if and only if the buffer has an even size or its last
  byte is below 128: the last byte of an odd buffer is read through a signed \<open>char\<close>, and a byte of
  128 or more is sign extended into the sum.
\<close>

theorem checksum_reference:
  assumes "length data \<le> 65600"
  shows "unat (be16_get (checksum data)) = 65535 - end_around (be_words data) \<longleftrightarrow>
         even (length data) \<or> unat (last data) < 128"
proof (cases "odd (length data) \<and> 128 \<le> unat (last data)")
  case True
  then have "data \<noteq> []" by auto
  with True be_words_last [of data] have "0 < be_words data" by linarith
  with True checksum_spec [OF assms] end_around_shift [of "be_words data"] show ?thesis
    using end_around_le [of "be_words data"] end_around_le [of "be_words data + 0xFF0000"]
    by (auto simp: checksum_total_def)
qed (use checksum_spec [OF assms] in \<open>auto simp: checksum_total_def\<close>)

theorem checksum_reference_witness:
  "length [0x12, 0x34, 0x80 :: byte] \<le> 65600 \<and>
   unat (be16_get (checksum [0x12, 0x34, 0x80])) \<noteq> 65535 - end_around (be_words [0x12, 0x34, 0x80])"
  using checksum_reference [of "[0x12, 0x34, 0x80]"] by simp

end
