(* ===== verification/Net_Link.thy ===== *)
theory Net_Link
  imports Net_IPv4 Common_Hashmap
begin

text \<open>
  The link layer and the sending half of IPv4: \<open>Kernel/Networking/Ethernet\<close>, \<open>Kernel/Networking/ARP\<close>
  and \<open>send\<close> of \<open>Kernel/Networking/IP/IPv4.cpp\<close>.

  \<open>NetState\<close> holds the variables of the three namespaces. \<open>driverSent\<close> is what has been handed to the
  network driver. \<open>arrivals\<close> is the schedule of the other threads while this thread asks for an address: the first entry lists
  the ARP payloads they receive after its look-up in the table and before it joins the wait queue, each other one those they
  receive until this thread could run again: while it sleeps in \<open>Task::Manager::block\<close>, or, once it has been woken, between
  two rounds of its loop. A call that has not returned when the schedule is exhausted is \<^const>\<open>None\<close>.
  \<open>tableWaiters\<close> and \<open>tableWakes\<close> count the items in the wait queue of the table and the wake-ups
  delivered to them. \<open>heapGarbage\<close> is what the memory a \<open>kmalloc\<close> returns holds, and \<open>bufs\<close> the
  received frames that have not been freed.
\<close>

record NetState =
  ipAddress :: InternetProtocolAddress
  gatewayAddress :: InternetProtocolAddress
  subnet :: u32
  macAddress :: MediaAccessControlAddress
  m_table :: "(InternetProtocolAddress, MediaAccessControlAddress) Hashmap"
  tableWaiters :: nat
  tableWakes :: nat
  driverSent :: "byte list list"
  arrivals :: "byte list list list"
  heapGarbage :: MessageHeader
  bufs :: "addr \<rightharpoonup> byte list"

definition ip_initialise ::
  "InternetProtocolAddress \<Rightarrow> InternetProtocolAddress \<Rightarrow> u32 \<Rightarrow> 'a NetState_scheme \<Rightarrow> 'a NetState_scheme"
where
  "ip_initialise address gateway subnetMask st =
     st\<lparr>ipAddress := address, gatewayAddress := gateway, subnet := subnetMask\<rparr>"

subsection \<open>Ethernet frames\<close>

record FrameHeader =
  macDest :: MediaAccessControlAddress
  macSource :: MediaAccessControlAddress
  ethertype :: u16

definition sizeof_FrameHeader :: nat where "sizeof_FrameHeader = 14"

definition EtherType_IPV4 :: u16 where "EtherType_IPV4 = be16_set 0x0800"
definition EtherType_ARP :: u16 where "EtherType_ARP = be16_set 0x0806"

definition frame_bytes :: "FrameHeader \<Rightarrow> byte list" where
  "frame_bytes f = macDest f @ macSource f @ mem16 (ethertype f)"

definition frame_at :: "byte list \<Rightarrow> FrameHeader option" where
  "frame_at b =
     (if length b < sizeof_FrameHeader then None
      else Some \<lparr>macDest = take 6 b, macSource = take 6 (drop 6 b), ethertype = load16 (b ! 12) (b ! 13)\<rparr>)"

definition ethernet_initialise :: "MediaAccessControlAddress \<Rightarrow> 'a NetState_scheme \<Rightarrow> 'a NetState_scheme" where
  "ethernet_initialise address st = st\<lparr>macAddress := address\<rparr>"

definition send_to_driver :: "byte list \<Rightarrow> 'a NetState_scheme \<Rightarrow> 'a NetState_scheme" where
  "send_to_driver buf st = st\<lparr>driverSent := driverSent st @ [buf]\<rparr>"

definition ethernet_send ::
  "MediaAccessControlAddress \<Rightarrow> u16 \<Rightarrow> byte list \<Rightarrow> 'a NetState_scheme \<Rightarrow> 'a NetState_scheme"
where
  "ethernet_send dest etype buf st =
     send_to_driver (frame_bytes \<lparr>macDest = dest, macSource = macAddress st, ethertype = etype\<rparr> @ buf) st"

lemma frame_at_bytes [simp]:
  "length d = 6 \<Longrightarrow> length s = 6 \<Longrightarrow>
   frame_at (frame_bytes \<lparr>macDest = d, macSource = s, ethertype = t\<rparr> @ rest) =
     Some \<lparr>macDest = d, macSource = s, ethertype = t\<rparr>"
  by (simp add: frame_at_def frame_bytes_def sizeof_FrameHeader_def mem16_def nth_append)

lemma length_frame_bytes [simp]:
  "length (macDest f) = 6 \<Longrightarrow> length (macSource f) = 6 \<Longrightarrow> length (frame_bytes f) = 14"
  by (simp add: frame_bytes_def mem16_def)

subsection \<open>Address resolution\<close>

record ArpMessage =
  hardwareType :: u16
  protocolType :: u16
  hardwareAddressLen :: u8
  protocolAddressLen :: u8
  operation :: u16
  senderHardwareAddress :: MediaAccessControlAddress
  senderProtocolAddress :: InternetProtocolAddress
  targetHardwareAddress :: MediaAccessControlAddress
  targetProtocolAddress :: InternetProtocolAddress

definition sizeof_ArpMessage :: nat where "sizeof_ArpMessage = 28"

definition HardwareType_ETHERNET :: u16 where "HardwareType_ETHERNET = be16_set 1"
definition HardwareAddressLength_ETHERNET :: u8 where "HardwareAddressLength_ETHERNET = be8_set 6"
definition ProtocolAddressLength_IPV4 :: u8 where "ProtocolAddressLength_IPV4 = be8_set 4"
definition Operation_REQUEST :: u16 where "Operation_REQUEST = be16_set 1"
definition Operation_REPLY :: u16 where "Operation_REPLY = be16_set 2"

definition arp_bytes :: "ArpMessage \<Rightarrow> byte list" where
  "arp_bytes m =
     mem16 (hardwareType m) @ mem16 (protocolType m) @ [hardwareAddressLen m, protocolAddressLen m] @
     mem16 (operation m) @ senderHardwareAddress m @ mem32 (senderProtocolAddress m) @
     targetHardwareAddress m @ mem32 (targetProtocolAddress m)"

definition arp_at :: "byte list \<Rightarrow> ArpMessage option" where
  "arp_at b =
     (if length b < sizeof_ArpMessage then None else Some
       \<lparr>hardwareType = load16 (b ! 0) (b ! 1), protocolType = load16 (b ! 2) (b ! 3),
        hardwareAddressLen = b ! 4, protocolAddressLen = b ! 5, operation = load16 (b ! 6) (b ! 7),
        senderHardwareAddress = take 6 (drop 8 b),
        senderProtocolAddress = load32 (b ! 14) (b ! 15) (b ! 16) (b ! 17),
        targetHardwareAddress = take 6 (drop 18 b),
        targetProtocolAddress = load32 (b ! 24) (b ! 25) (b ! 26) (b ! 27)\<rparr>)"

definition arp_initialise :: "'a NetState_scheme \<Rightarrow> 'a NetState_scheme" where
  "arp_initialise st = st\<lparr>m_table := hm_new\<rparr>"

definition handle_request :: "ArpMessage \<Rightarrow> 'a NetState_scheme \<Rightarrow> 'a NetState_scheme" where
  "handle_request message st =
     (let response = message\<lparr>operation := Operation_REPLY,
            targetHardwareAddress := senderHardwareAddress message,
            targetProtocolAddress := senderProtocolAddress message,
            senderHardwareAddress := macAddress st, senderProtocolAddress := ipAddress st\<rparr>
      in ethernet_send (senderHardwareAddress message) EtherType_ARP (arp_bytes response) st)"

definition handle_reply :: "ArpMessage \<Rightarrow> 'a NetState_scheme \<Rightarrow> 'a NetState_scheme option" where
  "handle_reply message st = do {
     (table, _, _) \<leftarrow> hm_insert mem32 (m_table st) (senderProtocolAddress message, senderHardwareAddress message);
     Some (st\<lparr>m_table := table, tableWakes := tableWakes st + tableWaiters st\<rparr>)
   }"

definition arp_accepts :: "'a NetState_scheme \<Rightarrow> ArpMessage \<Rightarrow> bool" where
  "arp_accepts st m \<longleftrightarrow>
     be16_get (hardwareType m) = be16_get HardwareType_ETHERNET \<and>
     be16_get (protocolType m) = be16_get EtherType_IPV4 \<and>
     be8_get (hardwareAddressLen m) = be8_get HardwareAddressLength_ETHERNET \<and>
     be8_get (protocolAddressLen m) = be8_get ProtocolAddressLength_IPV4 \<and>
     be32_eq (targetProtocolAddress m) (ipAddress st)"

definition arp_receive :: "byte list \<Rightarrow> 'a NetState_scheme \<Rightarrow> 'a NetState_scheme option" where
  "arp_receive payload st =
     (case arp_at payload of
        None \<Rightarrow> Some st
      | Some arpMsg \<Rightarrow>
          if arp_accepts st arpMsg then
            if be16_get (operation arpMsg) = be16_get Operation_REQUEST then Some (handle_request arpMsg st)
            else if be16_get (operation arpMsg) = be16_get Operation_REPLY then handle_reply arpMsg st
            else Some st
          else Some st)"

definition request_message :: "'a NetState_scheme \<Rightarrow> InternetProtocolAddress \<Rightarrow> ArpMessage" where
  "request_message st reqIp =
     \<lparr>hardwareType = HardwareType_ETHERNET, protocolType = EtherType_IPV4,
      hardwareAddressLen = HardwareAddressLength_ETHERNET, protocolAddressLen = ProtocolAddressLength_IPV4,
      operation = Operation_REQUEST, senderHardwareAddress = macAddress st,
      senderProtocolAddress = ipAddress st, targetHardwareAddress = mac_set_value 0,
      targetProtocolAddress = reqIp\<rparr>"

definition send_request :: "InternetProtocolAddress \<Rightarrow> 'a NetState_scheme \<Rightarrow> 'a NetState_scheme" where
  "send_request reqIp st = ethernet_send BROADCAST_MAC EtherType_ARP (arp_bytes (request_message st reqIp)) st"

definition find_cached_address ::
  "InternetProtocolAddress \<Rightarrow> 'a NetState_scheme \<Rightarrow> MediaAccessControlAddress option option"
where
  "find_cached_address ip st = do {
     it \<leftarrow> hm_find mem32 (m_table st) ip;
     if it \<noteq> HEnd then map_option (Some \<circ> snd) (hm_deref (m_table st) it) else Some None
   }"

fun arp_receive_all :: "byte list list \<Rightarrow> 'a NetState_scheme \<Rightarrow> 'a NetState_scheme option" where
  "arp_receive_all [] st = Some st"
| "arp_receive_all (p # ps) st = do { st \<leftarrow> arp_receive p st; arp_receive_all ps st }"

text \<open>
  \<open>block\<close> returns only when the queue has been woken since this thread joined it, \<open>woken\<close>: then its \<open>blockFlag\<close> is
  cleared, and stays so, as nothing in the loop sets it again. The later rounds therefore do not sleep.
\<close>

fun wait_for_reply ::
  "byte list list list \<Rightarrow> InternetProtocolAddress \<Rightarrow> bool \<Rightarrow> 'a NetState_scheme \<Rightarrow>
   ('a NetState_scheme \<times> MediaAccessControlAddress) option"
where
  "wait_for_reply [] reqIp woken st = None"
| "wait_for_reply (batch # rest) reqIp woken st = do {
     let wakes = tableWakes st;
     st \<leftarrow> arp_receive_all batch (st\<lparr>arrivals := rest\<rparr>);
     if woken \<or> wakes < tableWakes st
     then do {
       cached \<leftarrow> find_cached_address reqIp st;
       case cached of Some mac \<Rightarrow> Some (st, mac) | None \<Rightarrow> wait_for_reply rest reqIp True st
     }
     else wait_for_reply rest reqIp False st
   }"

definition request_and_wait_for_reply ::
  "InternetProtocolAddress \<Rightarrow> 'a NetState_scheme \<Rightarrow> ('a NetState_scheme \<times> MediaAccessControlAddress) option"
where
  "request_and_wait_for_reply reqIp st = do {
     cached \<leftarrow> find_cached_address reqIp st;
     st \<leftarrow> (if cached = None then arp_receive_all (concat (take 1 (arrivals st))) (st\<lparr>arrivals := tl (arrivals st)\<rparr>) else Some st);
     let st = st\<lparr>tableWaiters := tableWaiters st + 1\<rparr>;
     (st, mac) \<leftarrow> (case cached of
         Some mac \<Rightarrow> Some (st, mac)
       | None \<Rightarrow> wait_for_reply (arrivals st) reqIp False (send_request reqIp st));
     Some (st\<lparr>tableWaiters := tableWaiters st - 1\<rparr>, mac)
   }"

subsection \<open>Sending a message\<close>

definition ip_route :: "'a NetState_scheme \<Rightarrow> InternetProtocolAddress \<Rightarrow> InternetProtocolAddress" where
  "ip_route st destIp =
     (if be32_get destIp AND subnet st \<noteq> be32_get (ipAddress st) AND subnet st then gatewayAddress st else destIp)"

definition ip_send ::
  "InternetProtocolAddress \<Rightarrow> u8 \<Rightarrow> byte list \<Rightarrow> 'a NetState_scheme \<Rightarrow> 'a NetState_scheme option"
where
  "ip_send destIp protocol buf st = do {
     let len = length buf + sizeof_MessageHeader;
     let message = build_header (heapGarbage st) destIp protocol len (ipAddress st);
     (st, routePhysicalAddress) \<leftarrow> request_and_wait_for_reply (ip_route st destIp) st;
     Some (ethernet_send routePhysicalAddress EtherType_IPV4 (header_bytes message @ buf) st)
   }"

subsection \<open>What the table learns\<close>

lemma find_cached_lookup [simp]:
  "hm_inv mem32 (m_table st) \<Longrightarrow> find_cached_address ip st = Some (hm_lookup mem32 (m_table st) ip)"
  using hm_deref_find [of mem32 "m_table st" ip] by (auto simp: find_cached_address_def)

lemma arp_at_bytes [simp]:
  "length (senderHardwareAddress m) = 6 \<Longrightarrow> length (targetHardwareAddress m) = 6 \<Longrightarrow> arp_at (arp_bytes m) = Some m"
  by (simp add: arp_at_def arp_bytes_def sizeof_ArpMessage_def mem16_def mem32_def nth_append)

lemma hm_insert_lookup:
  assumes "hm_inv kb hm"
  shows "\<exists>hm' it fresh. hm_insert kb hm (k, v) = Some (hm', it, fresh) \<and> hm_inv kb hm' \<and>
     hm_lookup kb hm' = (if hm_lookup kb hm k = None then (hm_lookup kb hm)(k \<mapsto> v) else hm_lookup kb hm)"
  using hm_insert_new [OF assms, of k v] hm_insert_old [OF assms, of k _ v] assms
  by (cases "hm_lookup kb hm k") auto

text \<open>The address a payload announces for \<open>ip\<close>, if it is a reply that is addressed to this host.\<close>

definition reply_mac ::
  "'a NetState_scheme \<Rightarrow> InternetProtocolAddress \<Rightarrow> byte list \<Rightarrow> MediaAccessControlAddress option"
where
  "reply_mac st ip payload =
     (case arp_at payload of
        None \<Rightarrow> None
      | Some m \<Rightarrow> if arp_accepts st m \<and> operation m = Operation_REPLY \<and> senderProtocolAddress m = ip
                 then Some (senderHardwareAddress m) else None)"

definition replies ::
  "'a NetState_scheme \<Rightarrow> InternetProtocolAddress \<Rightarrow> byte list list \<Rightarrow> MediaAccessControlAddress list"
where
  "replies st ip payloads = List.map_filter (reply_mac st ip) payloads"

text \<open>Everything but the table, the wake-ups and the frames sent is unchanged, and frames are only added.\<close>

definition arp_only :: "'a NetState_scheme \<Rightarrow> 'a NetState_scheme \<Rightarrow> bool" where
  "arp_only st st' \<longleftrightarrow>
     st' = st\<lparr>m_table := m_table st', tableWakes := tableWakes st', driverSent := driverSent st'\<rparr> \<and>
     (\<exists>fs. driverSent st' = driverSent st @ fs)"

lemma arp_only_refl: "arp_only st st"
  by (simp add: arp_only_def)

lemma arp_only_trans: "arp_only a b \<Longrightarrow> arp_only b c \<Longrightarrow> arp_only a c"
  by (cases a; cases b; cases c) (auto simp: arp_only_def)

lemma arp_only_fields:
  assumes "arp_only st st'"
  shows "ipAddress st' = ipAddress st" "gatewayAddress st' = gatewayAddress st" "subnet st' = subnet st"
    "macAddress st' = macAddress st" "tableWaiters st' = tableWaiters st" "arrivals st' = arrivals st"
    "heapGarbage st' = heapGarbage st" "bufs st' = bufs st" "NetState.more st' = NetState.more st"
  using assms by (cases st; cases st'; auto simp: arp_only_def)+

lemma arp_only_arrivals:
  "arp_only (st\<lparr>arrivals := a\<rparr>) s1 \<Longrightarrow> arp_only (s1\<lparr>arrivals := b\<rparr>) s2 \<Longrightarrow> arp_only (st\<lparr>arrivals := b\<rparr>) s2"
  by (cases st; cases s1; cases s2) (auto simp: arp_only_def)

lemma be16_get_eq [simp]: "be16_get a = be16_get b \<longleftrightarrow> a = b"
  by (metis be_get_set(3))

lemma operations_differ [simp]: "Operation_REPLY \<noteq> Operation_REQUEST"
  by (simp add: Operation_REPLY_def Operation_REQUEST_def be16_set_def byteswap16_def byte_at_def)

lemma arp_receive_spec:
  assumes inv: "hm_inv mem32 (m_table st)"
  shows "\<exists>st'. arp_receive p st = Some st' \<and> hm_inv mem32 (m_table st') \<and> arp_only st st' \<and>
    (\<forall>ip. hm_lookup mem32 (m_table st') ip =
       (case hm_lookup mem32 (m_table st) ip of Some m \<Rightarrow> Some m | None \<Rightarrow> reply_mac st ip p))"
proof (cases "arp_at p")
  case None
  then show ?thesis using inv
    by (auto simp: arp_receive_def reply_mac_def arp_only_refl split: option.split)
next
  case (Some m)
  show ?thesis
  proof (cases "arp_accepts st m \<and> operation m = Operation_REPLY")
    case True
    from hm_insert_lookup [OF inv, of "senderProtocolAddress m" "senderHardwareAddress m"]
    show ?thesis using Some True
      by (auto simp: arp_receive_def handle_reply_def reply_mac_def arp_only_def split: option.split)
  next
    case False
    have "arp_receive p st = Some (if arp_accepts st m \<and> operation m = Operation_REQUEST then handle_request m st else st)"
      using Some False by (auto simp: arp_receive_def)
    moreover have "arp_only st (handle_request m st)" "m_table (handle_request m st) = m_table st"
      by (simp_all add: arp_only_def handle_request_def ethernet_send_def send_to_driver_def Let_def)
    ultimately show ?thesis using Some False inv
      by (auto simp: reply_mac_def arp_only_refl split: option.split)
  qed
qed

lemma reply_mac_cong: "ipAddress st' = ipAddress st \<Longrightarrow> reply_mac st' ip p = reply_mac (st :: 'a NetState_scheme) ip p"
  by (simp add: reply_mac_def arp_accepts_def split: option.split)

lemma replies_cong: "ipAddress st' = ipAddress st \<Longrightarrow> replies st' ip ps = replies (st :: 'a NetState_scheme) ip ps"
proof -
  assume "ipAddress st' = ipAddress st"
  then have "reply_mac st' ip = reply_mac st ip" by (intro ext reply_mac_cong)
  then show ?thesis by (simp add: replies_def)
qed

lemma replies_simps [simp]:
  "replies st ip [] = []"
  "replies st ip (p # ps) = (case reply_mac st ip p of None \<Rightarrow> replies st ip ps | Some m \<Rightarrow> m # replies st ip ps)"
  unfolding replies_def by simp_all

lemma replies_append [simp]: "replies st ip (ps @ qs) = replies st ip ps @ replies st ip qs"
  by (induction ps) (auto split: option.split)

lemma arp_receive_all_spec:
  assumes "hm_inv mem32 (m_table st)"
  shows "\<exists>st'. arp_receive_all ps st = Some st' \<and> hm_inv mem32 (m_table st') \<and> arp_only st st' \<and>
    (\<forall>ip. hm_lookup mem32 (m_table st') ip =
       (case hm_lookup mem32 (m_table st) ip of Some m \<Rightarrow> Some m | None \<Rightarrow> first_or (replies st ip ps) None))"
  using assms
proof (induction ps arbitrary: st)
  case Nil
  then show ?case by (auto simp: arp_only_refl split: option.split)
next
  case (Cons p ps)
  from arp_receive_spec [OF Cons.prems, of p] obtain s1 where
    1: "arp_receive p st = Some s1" "hm_inv mem32 (m_table s1)" "arp_only st s1"
    "\<And>ip. hm_lookup mem32 (m_table s1) ip =
       (case hm_lookup mem32 (m_table st) ip of Some m \<Rightarrow> Some m | None \<Rightarrow> reply_mac st ip p)" by blast
  from Cons.IH [OF 1(2)] obtain s2 where
    2: "arp_receive_all ps s1 = Some s2" "hm_inv mem32 (m_table s2)" "arp_only s1 s2"
    "\<And>ip. hm_lookup mem32 (m_table s2) ip =
       (case hm_lookup mem32 (m_table s1) ip of Some m \<Rightarrow> Some m | None \<Rightarrow> first_or (replies s1 ip ps) None)" by blast
  have r: "replies s1 ip ps = replies st ip ps" for ip
    using arp_only_fields(1) [OF 1(3)] by (rule replies_cong)
  show ?case
    using 1(1) 2(1,2) arp_only_trans [OF 1(3) 2(3)]
    by (auto simp: 1(4) 2(4) r split: option.split)
qed

text \<open>A payload that wakes the queue: a reply to this host, about any address.\<close>

definition wakes_queue :: "'a NetState_scheme \<Rightarrow> byte list \<Rightarrow> bool" where
  "wakes_queue st payload \<longleftrightarrow> (case arp_at payload of None \<Rightarrow> False | Some m \<Rightarrow> arp_accepts st m \<and> operation m = Operation_REPLY)"

lemma wakes_queue_cong: "ipAddress st' = ipAddress st \<Longrightarrow> wakes_queue st' = wakes_queue (st :: 'a NetState_scheme)"
  by (intro ext) (simp add: wakes_queue_def arp_accepts_def split: option.split)

lemma reply_wakes: "reply_mac st ip p = Some m \<Longrightarrow> wakes_queue st p"
  by (auto simp: reply_mac_def wakes_queue_def split: option.splits if_splits)

lemma replies_wake: "replies st ip ps \<noteq> [] \<Longrightarrow> list_ex (wakes_queue st) ps"
  by (induction ps) (auto simp: reply_wakes split: option.splits)

lemma arp_receive_wakes:
  "arp_receive p st = Some st' \<Longrightarrow> tableWakes st' = tableWakes st + (if wakes_queue st p then tableWaiters st else 0)"
  by (auto simp: arp_receive_def wakes_queue_def handle_reply_def handle_request_def ethernet_send_def send_to_driver_def Let_def
      operations_differ [symmetric] split: option.splits if_splits bind_splits)

lemma arp_receive_all_wakes:
  assumes "hm_inv mem32 (m_table st)" "arp_receive_all ps st = Some st'" "0 < tableWaiters st"
  shows "tableWakes st \<le> tableWakes st' \<and> (tableWakes st < tableWakes st' \<longleftrightarrow> list_ex (wakes_queue st) ps)"
  using assms
proof (induction ps arbitrary: st)
  case (Cons p ps)
  from arp_receive_spec [OF Cons.prems(1), of p] obtain s1 where
    1: "arp_receive p st = Some s1" "hm_inv mem32 (m_table s1)" "arp_only st s1" by blast
  note f = arp_only_fields [OF 1(3)]
  have "tableWakes s1 \<le> tableWakes st' \<and> (tableWakes s1 < tableWakes st' \<longleftrightarrow> list_ex (wakes_queue st) ps)"
    using Cons.IH [OF 1(2)] Cons.prems(2,3) 1(1) f(5) wakes_queue_cong [OF f(1)] by simp
  then show ?case using arp_receive_wakes [OF 1(1)] Cons.prems(3) by (auto split: if_splits)
qed simp

text \<open>The address that the table has for \<open>ip\<close> after the payloads: an address once known is kept.\<close>

definition learnt :: "'a NetState_scheme \<Rightarrow> InternetProtocolAddress \<Rightarrow> byte list list \<Rightarrow> MediaAccessControlAddress option" where
  "learnt st ip payloads = (case hm_lookup mem32 (m_table st) ip of Some m \<Rightarrow> Some m | None \<Rightarrow> first_or (replies st ip payloads) None)"

lemma arp_receive_batch:
  assumes "hm_inv mem32 (m_table st)"
  shows "\<exists>st'. arp_receive_all ps st = Some st' \<and> hm_inv mem32 (m_table st') \<and> arp_only st st' \<and>
    hm_lookup mem32 (m_table st') ip = learnt st ip ps \<and> (\<forall>qs. learnt st' ip qs = learnt st ip (ps @ qs)) \<and>
    wakes_queue st' = wakes_queue st"
proof -
  from arp_receive_all_spec [OF assms, of ps] obtain s1 where
    1: "arp_receive_all ps st = Some s1" "hm_inv mem32 (m_table s1)" "arp_only st s1"
    "hm_lookup mem32 (m_table s1) ip = learnt st ip ps" unfolding learnt_def by blast
  note f = arp_only_fields(1) [OF 1(3)]
  have "replies s1 ip qs = replies st ip qs" for qs using f by (rule replies_cong)
  then have "learnt s1 ip qs = learnt st ip (ps @ qs)" for qs
    using 1(4) by (cases "replies st ip ps") (auto simp: learnt_def split: option.splits)
  then show ?thesis using 1 wakes_queue_cong [OF f] by blast
qed

lemma learnt_arrivals [simp]: "learnt (st\<lparr>arrivals := a\<rparr>) ip ps = learnt (st :: 'a NetState_scheme) ip ps"
  "wakes_queue (st\<lparr>arrivals := a\<rparr>) = wakes_queue (st :: 'a NetState_scheme)"
  using replies_cong [of "st\<lparr>arrivals := a\<rparr>" st] wakes_queue_cong [of "st\<lparr>arrivals := a\<rparr>" st] by (simp_all add: learnt_def split: option.split)

lemma wait_for_reply_spec:
  assumes "hm_inv mem32 (m_table st)" and "0 < tableWaiters st" and "woken \<longrightarrow> hm_lookup mem32 (m_table st) reqIp = None"
  shows "case learnt st reqIp (concat bs) of
      Some m \<Rightarrow> if woken \<or> list_ex (wakes_queue st) (concat bs)
        then \<exists>st'. wait_for_reply bs reqIp woken st = Some (st', m) \<and> hm_inv mem32 (m_table st') \<and>
          hm_lookup mem32 (m_table st') reqIp = Some m \<and> arp_only (st\<lparr>arrivals := arrivals st'\<rparr>) st'
        else wait_for_reply bs reqIp woken st = None
    | None \<Rightarrow> wait_for_reply bs reqIp woken st = None"
  using assms
proof (induction bs arbitrary: st woken)
  case Nil
  then show ?case by (auto simp: learnt_def split: option.split)
next
  case (Cons b bs)
  let ?st = "st\<lparr>arrivals := bs\<rparr>"
  have inv: "hm_inv mem32 (m_table ?st)" using Cons.prems by simp
  from arp_receive_batch [OF inv, of b reqIp] obtain s1 where
    1: "arp_receive_all b ?st = Some s1" "hm_inv mem32 (m_table s1)" "arp_only ?st s1"
    "hm_lookup mem32 (m_table s1) reqIp = learnt st reqIp b" "\<And>qs. learnt s1 reqIp qs = learnt st reqIp (b @ qs)"
    "wakes_queue s1 = wakes_queue st" by auto
  note f = arp_only_fields [OF 1(3)]
  have w: "tableWakes st < tableWakes s1 \<longleftrightarrow> list_ex (wakes_queue st) b" and t: "0 < tableWaiters s1"
    using arp_receive_all_wakes [OF inv 1(1)] Cons.prems(2) f(5) by simp_all
  have rest: "arp_only (s1\<lparr>arrivals := arrivals s2\<rparr>) s2 \<Longrightarrow> arp_only (st\<lparr>arrivals := arrivals s2\<rparr>) s2" for s2
    using arp_only_arrivals 1(3) by blast
  have step: "wait_for_reply (b # bs) reqIp woken st =
    (if woken \<or> list_ex (wakes_queue st) b
     then case learnt st reqIp b of Some mac \<Rightarrow> Some (s1, mac) | None \<Rightarrow> wait_for_reply bs reqIp True s1
     else wait_for_reply bs reqIp False s1)"
    using 1(1,2,4) w by (simp add: Let_def)
  show ?case
  proof (cases "(woken \<or> list_ex (wakes_queue st) b) \<and> learnt st reqIp b \<noteq> None")
    case True
    then obtain m where m: "learnt st reqIp b = Some m" by auto
    then have "learnt st reqIp (concat (b # bs)) = Some m"
      by (cases "replies st reqIp b") (auto simp: learnt_def split: option.splits)
    then show ?thesis using True m 1 step f(6) by auto
  next
    case False
    then have *: "(woken \<or> list_ex (wakes_queue st) b) \<longrightarrow> hm_lookup mem32 (m_table s1) reqIp = None" using 1(4) by auto
    have "wait_for_reply (b # bs) reqIp woken st = wait_for_reply bs reqIp (woken \<or> list_ex (wakes_queue st) b) s1"
      using False step by (auto split: option.split)
    then show ?thesis using Cons.IH [OF 1(2) t *] 1(5) [of "concat bs"] 1(6) rest
      by (auto split: option.splits if_splits)
  qed
qed

lemma request_cached:
  "hm_inv mem32 (m_table st) \<Longrightarrow> hm_lookup mem32 (m_table st) ip = Some mac \<Longrightarrow>
   request_and_wait_for_reply ip st = Some (st, mac)"
  by (simp add: request_and_wait_for_reply_def)

definition request_frame :: "'a NetState_scheme \<Rightarrow> InternetProtocolAddress \<Rightarrow> byte list" where
  "request_frame st ip =
     frame_bytes \<lparr>macDest = BROADCAST_MAC, macSource = macAddress st, ethertype = EtherType_ARP\<rparr> @
     arp_bytes (request_message st ip)"

lemma request_uncached:
  assumes inv: "hm_inv mem32 (m_table st)" and none: "hm_lookup mem32 (m_table st) ip = None"
  shows "case replies st ip (concat (arrivals st)) of
      [] \<Rightarrow> request_and_wait_for_reply ip st = None
    | m # _ \<Rightarrow> if list_ex (wakes_queue st) (concat (tl (arrivals st)))
        then \<exists>st' fs0 fs. request_and_wait_for_reply ip st = Some (st', m) \<and> hm_inv mem32 (m_table st') \<and>
          hm_lookup mem32 (m_table st') ip = Some m \<and> tableWaiters st' = tableWaiters st \<and>
          driverSent st' = driverSent st @ fs0 @ request_frame st ip # fs
        else request_and_wait_for_reply ip st = None"
proof -
  let ?before = "concat (take 1 (arrivals st))" and ?later = "tl (arrivals st)"
  have "hm_inv mem32 (m_table (st\<lparr>arrivals := ?later\<rparr>))" using inv by simp
  from arp_receive_batch [OF this, of ?before ip] obtain s1 where
    1: "arp_receive_all ?before (st\<lparr>arrivals := ?later\<rparr>) = Some s1" "hm_inv mem32 (m_table s1)" "arp_only (st\<lparr>arrivals := ?later\<rparr>) s1"
    "\<And>qs. learnt s1 ip qs = learnt st ip (?before @ qs)" "wakes_queue s1 = wakes_queue st" by auto
  note f = arp_only_fields [OF 1(3)]
  from 1(3) obtain fs0 where fs0: "driverSent s1 = driverSent st @ fs0" by (auto simp: arp_only_def)
  define s0 where "s0 = send_request ip (s1\<lparr>tableWaiters := tableWaiters s1 + 1\<rparr>)"
  have e: "m_table s0 = m_table s1" "ipAddress s0 = ipAddress s1" "arrivals s0 = ?later"
    "tableWaiters s0 = tableWaiters st + 1" "driverSent s0 = driverSent st @ fs0 @ [request_frame st ip]"
    using f fs0 by (simp_all add: s0_def send_request_def ethernet_send_def send_to_driver_def request_frame_def
        request_message_def)
  have "replies s0 ip ps = replies s1 ip ps" for ps by (rule replies_cong) (rule e)
  then have "learnt s0 ip qs = learnt s1 ip qs" for qs by (simp add: learnt_def e split: option.split)
  then have l: "learnt s0 ip (concat ?later) = first_or (replies st ip (concat (arrivals st))) None"
    using 1(4) [of "concat ?later"] none by (cases "arrivals st") (simp_all add: learnt_def)
  have w: "wakes_queue s0 = wakes_queue st" using wakes_queue_cong [OF e(2)] 1(5) by simp
  have q: "request_and_wait_for_reply ip st = do {
      (s1, mac) \<leftarrow> wait_for_reply ?later ip False s0; Some (s1\<lparr>tableWaiters := tableWaiters s1 - 1\<rparr>, mac) }"
    using inv none 1(1) f(6) by (simp add: request_and_wait_for_reply_def s0_def Let_def)
  have i: "hm_inv mem32 (m_table s0)" "0 < tableWaiters s0" using 1(2) e by simp_all
  show ?thesis
  proof (cases "replies st ip (concat (arrivals st))")
    case Nil
    then show ?thesis using wait_for_reply_spec [OF i, of False ip ?later] by (simp add: l q)
  next
    case (Cons m ms)
    show ?thesis
    proof (cases "list_ex (wakes_queue st) (concat ?later)")
      case True
      with Cons wait_for_reply_spec [OF i, of False ip ?later] obtain s2 where
        2: "wait_for_reply ?later ip False s0 = Some (s2, m)" "hm_inv mem32 (m_table s2)"
        "hm_lookup mem32 (m_table s2) ip = Some m" "arp_only (s0\<lparr>arrivals := arrivals s2\<rparr>) s2" by (auto simp: l w)
      from arp_only_fields(5) [OF 2(4)] have "tableWaiters s2 = tableWaiters st + 1" by (simp add: e)
      moreover from 2(4) obtain fs where "driverSent s2 = driverSent st @ fs0 @ request_frame st ip # fs"
        unfolding arp_only_def by (auto simp: e)
      ultimately show ?thesis using 2 Cons True by (auto simp: q)
    next
      case False
      then show ?thesis using Cons wait_for_reply_spec [OF i, of False ip ?later] by (simp add: l w q)
    qed
  qed
qed

subsection \<open>Properties\<close>


definition example_reply :: "'a NetState_scheme \<Rightarrow> InternetProtocolAddress \<Rightarrow> MediaAccessControlAddress \<Rightarrow> ArpMessage" where
  "example_reply st ip mac = (request_message st (ipAddress st))
     \<lparr>operation := Operation_REPLY, senderHardwareAddress := mac, senderProtocolAddress := ip\<rparr>"

definition example_net :: NetState where
  "example_net =
     \<lparr>ipAddress = 0x0a00020a, gatewayAddress = 0x0202000a, subnet = 0xffffff00, macAddress = [1, 2, 3, 4, 5, 6],
      m_table = hm_new, tableWaiters = 0, tableWakes = 0, driverSent = [], arrivals = [], heapGarbage =
        \<lparr>m_versionAndIhl = 0, m_DscpAndEcn = 0, m_length = 0, m_ident = 0, m_flagsAndFragment = 0,
         m_fragment = 0, m_ttl = 0, m_protocol = 0, m_headerChecksum = 0, m_sourceAddress = 0, m_destAddress = 0\<rparr>,
      bufs = Map.empty\<rparr>"

definition example_waiting :: NetState where
  "example_waiting = example_net\<lparr>arrivals := [[], [arp_bytes (example_reply example_net 7 [9, 8, 7, 6, 5, 4])]]\<rparr>"

lemma length_mac_set_value [simp]: "length (mac_set_value v) = 6"
  by (simp add: mac_set_value_def)

lemma example_waiting_replies: "replies example_waiting 7 (concat (arrivals example_waiting)) = [[9, 8, 7, 6, 5, 4]]"
  "list_ex (wakes_queue example_waiting) (concat (tl (arrivals example_waiting)))"
  by (simp_all add: example_waiting_def example_reply_def request_message_def reply_mac_def wakes_queue_def arp_accepts_def)


text \<open>A reply that comes after the look-up and before the caller is in the queue does not wake it.\<close>

lemma reply_before_queue_lost:
  assumes "hm_inv mem32 (m_table st)" "hm_lookup mem32 (m_table st) ip = None" "arrivals st = [batch]"
  shows "request_and_wait_for_reply ip st = None"
  using request_uncached [OF assms(1,2)] assms(3) by (cases "replies st ip batch") auto

end
