(* ===== verification/Net_TCP.thy ===== *)
theory Net_TCP
  imports Net_Link Common_CircularBuffer
begin

text \<open>
  The transmission control protocol of \<open>Kernel/Networking/TCP\<close>. A socket is the record of the members
  of \<open>Socket\<close>; \<open>TcpState\<close> adds to the state of the lower layers the socket objects, the network
  sockets they deliver to and the global socket map.

  The handlers of a segment get the socket \<open>s\<close> they are called on and return it with the new state.
  A segment lies in the buffer of the frame it came in, and pointers into it are kept as a pair of the
  buffer's address and an offset: \<^const>\<open>None\<close> is an access outside the buffer or to a buffer that has
  been freed, or a \<open>send\<close> that stays blocked in address resolution.
\<close>

subsection \<open>Headers\<close>

record PseudoHeader =
  m_sourceIp :: u32
  m_destIp :: u32
  ph_protocol :: u16
  ph_length :: u16

definition ph_get_source_ip :: "PseudoHeader \<Rightarrow> InternetProtocolAddress" where
  "ph_get_source_ip h = be32_set (be32_get (m_sourceIp h))"

definition ph_set_source_ip :: "InternetProtocolAddress \<Rightarrow> PseudoHeader \<Rightarrow> PseudoHeader" where
  "ph_set_source_ip ip h = h\<lparr>m_sourceIp := ip\<rparr>"

definition ph_get_dest_ip :: "PseudoHeader \<Rightarrow> InternetProtocolAddress" where
  "ph_get_dest_ip h = be32_set (be32_get (m_destIp h))"

definition ph_set_dest_ip :: "InternetProtocolAddress \<Rightarrow> PseudoHeader \<Rightarrow> PseudoHeader" where
  "ph_set_dest_ip ip h = h\<lparr>m_destIp := ip\<rparr>"

definition ph_get_protocol :: "PseudoHeader \<Rightarrow> u16" where
  "ph_get_protocol h = be16_get (ph_protocol h)"

definition ph_set_protocol :: "u16 \<Rightarrow> PseudoHeader \<Rightarrow> PseudoHeader" where
  "ph_set_protocol v h = h\<lparr>ph_protocol := be16_set v\<rparr>"

definition ph_get_length :: "PseudoHeader \<Rightarrow> u16" where
  "ph_get_length h = be16_get (ph_length h)"

definition ph_set_length :: "u16 \<Rightarrow> PseudoHeader \<Rightarrow> PseudoHeader" where
  "ph_set_length v h = h\<lparr>ph_length := be16_set v\<rparr>"

definition FIN :: u8 where "FIN = 0x01"
definition SYN :: u8 where "SYN = 0x02"
definition RST :: u8 where "RST = 0x04"
definition ACK :: u8 where "ACK = 0x10"

record Header =
  m_sourcePort :: u16
  m_destPort :: u16
  m_sequenceNumber :: u32
  m_ackNumber :: u32
  m_dataOffset :: u8
  m_flags :: u8
  m_windowSize :: u16
  m_checksum :: u16
  m_urgentPointer :: u16
  m_options :: u32

definition get_source_port :: "Header \<Rightarrow> u16" where "get_source_port h = be16_get (m_sourcePort h)"
definition set_source_port :: "u16 \<Rightarrow> Header \<Rightarrow> Header" where
  "set_source_port v h = h\<lparr>m_sourcePort := be16_set v\<rparr>"
definition get_dest_port :: "Header \<Rightarrow> u16" where "get_dest_port h = be16_get (m_destPort h)"
definition set_dest_port :: "u16 \<Rightarrow> Header \<Rightarrow> Header" where
  "set_dest_port v h = h\<lparr>m_destPort := be16_set v\<rparr>"
definition get_sequence_number :: "Header \<Rightarrow> u32" where
  "get_sequence_number h = be32_get (m_sequenceNumber h)"
definition set_sequence_number :: "u32 \<Rightarrow> Header \<Rightarrow> Header" where
  "set_sequence_number v h = h\<lparr>m_sequenceNumber := be32_set v\<rparr>"
definition get_ack_number :: "Header \<Rightarrow> u32" where "get_ack_number h = be32_get (m_ackNumber h)"
definition set_ack_number :: "u32 \<Rightarrow> Header \<Rightarrow> Header" where
  "set_ack_number v h = h\<lparr>m_ackNumber := be32_set v\<rparr>"
definition get_data_offset :: "Header \<Rightarrow> u8" where
  "get_data_offset h = drop_bit 4 (be8_get (m_dataOffset h))"
definition set_data_offset :: "u8 \<Rightarrow> Header \<Rightarrow> Header" where
  "set_data_offset v h = h\<lparr>m_dataOffset := be8_set (push_bit 4 (v AND 0x0F))\<rparr>"
definition tcp_get_flags :: "Header \<Rightarrow> u8" where "tcp_get_flags h = be8_get (m_flags h)"
definition tcp_set_flags :: "u8 \<Rightarrow> Header \<Rightarrow> Header" where "tcp_set_flags v h = h\<lparr>m_flags := be8_set v\<rparr>"
definition get_window_size :: "Header \<Rightarrow> u16" where "get_window_size h = be16_get (m_windowSize h)"
definition set_window_size :: "u16 \<Rightarrow> Header \<Rightarrow> Header" where
  "set_window_size v h = h\<lparr>m_windowSize := be16_set v\<rparr>"
definition get_checksum :: "Header \<Rightarrow> u16" where "get_checksum h = be16_get (m_checksum h)"
definition set_checksum :: "u16 \<Rightarrow> Header \<Rightarrow> Header" where
  "set_checksum v h = h\<lparr>m_checksum := be16_set v\<rparr>"
definition get_urgent_pointer :: "Header \<Rightarrow> u16" where "get_urgent_pointer h = be16_get (m_urgentPointer h)"
definition set_urgent_pointer :: "u16 \<Rightarrow> Header \<Rightarrow> Header" where
  "set_urgent_pointer v h = h\<lparr>m_urgentPointer := be16_set v\<rparr>"
definition get_options :: "Header \<Rightarrow> u32" where "get_options h = be32_get (m_options h)"
definition set_options :: "u32 \<Rightarrow> Header \<Rightarrow> Header" where
  "set_options v h = h\<lparr>m_options := be32_set v\<rparr>"

definition sizeof_PseudoHeader :: nat where "sizeof_PseudoHeader = 12"
definition sizeof_Header :: nat where "sizeof_Header = 24"

definition pseudo_bytes :: "PseudoHeader \<Rightarrow> byte list" where
  "pseudo_bytes h = mem32 (m_sourceIp h) @ mem32 (m_destIp h) @ mem16 (ph_protocol h) @ mem16 (ph_length h)"

definition tcp_bytes :: "Header \<Rightarrow> byte list" where
  "tcp_bytes h =
     mem16 (m_sourcePort h) @ mem16 (m_destPort h) @ mem32 (m_sequenceNumber h) @ mem32 (m_ackNumber h) @
     [m_dataOffset h, m_flags h] @ mem16 (m_windowSize h) @ mem16 (m_checksum h) @
     mem16 (m_urgentPointer h) @ mem32 (m_options h)"

definition tcp_at :: "byte list \<Rightarrow> Header option" where
  "tcp_at b =
     (if length b < sizeof_Header then None else Some
       \<lparr>m_sourcePort = load16 (b ! 0) (b ! 1), m_destPort = load16 (b ! 2) (b ! 3),
        m_sequenceNumber = load32 (b ! 4) (b ! 5) (b ! 6) (b ! 7),
        m_ackNumber = load32 (b ! 8) (b ! 9) (b ! 10) (b ! 11),
        m_dataOffset = b ! 12, m_flags = b ! 13, m_windowSize = load16 (b ! 14) (b ! 15),
        m_checksum = load16 (b ! 16) (b ! 17), m_urgentPointer = load16 (b ! 18) (b ! 19),
        m_options = load32 (b ! 20) (b ! 21) (b ! 22) (b ! 23)\<rparr>)"

subsection \<open>Sockets\<close>

type_synonym Endpoint = "u16 \<times> InternetProtocolAddress"
type_synonym data_ptr = "addr \<times> nat"

definition endpoint_bytes :: "Endpoint \<Rightarrow> byte list" where
  "endpoint_bytes e = mem16 (fst e) @ mem32 (snd e)"

record Packet =
  sequenceNumber :: u32
  pk_length :: u32
  pk_data :: data_ptr

datatype SocketState = LISTEN | SYN_SENT | SYN_RECEIVED | ESTABLISHED | FIN_WAIT1 | FIN_WAIT2 | CLOSE_WAIT
  | CLOSING | LAST_ACK | TIME_WAIT | CLOSED

record Socket =
  m_state :: SocketState
  snd_una :: u32
  snd_nxt :: u32
  snd_wnd :: u32
  snd_up :: u32
  snd_wl1 :: u32
  snd_wl2 :: u32
  iss :: u32
  rcv_nxt :: u32
  rcv_wnd :: u32
  rcv_up :: u32
  irs :: u32
  m_localPort :: u16
  m_remotePort :: u16
  m_localIp :: InternetProtocolAddress
  m_remoteIp :: InternetProtocolAddress
  m_netSock :: addr
  m_retransmissionQueue :: "Packet list"
  m_outOfOrderList :: "Packet list"
  m_connectionQueue :: "(Endpoint \<times> data_ptr) list"

definition WINDOW_SIZE :: u32 where "WINDOW_SIZE = 8192"

text \<open>
  The members without an initialiser, the state and the two endpoints, keep what the memory of the new
  object held.
\<close>

definition Socket_new :: "Socket \<Rightarrow> addr \<Rightarrow> Socket" where
  "Socket_new garbage netSock = garbage
     \<lparr>snd_una := 0xbeef0101, snd_nxt := 0xbeef0101, snd_wnd := WINDOW_SIZE, snd_up := 0, snd_wl1 := 0,
      snd_wl2 := 0, iss := 0xbeef0101, rcv_nxt := 0, rcv_wnd := 8192, rcv_up := 0, irs := 0,
      m_netSock := netSock, m_retransmissionQueue := [], m_outOfOrderList := [], m_connectionQueue := []\<rparr>"

record NetworkSocket =
  ns_queue :: FixedCircularBuffer
  ns_shouldNotBlock :: bool
  ns_connections :: int
  ns_protocol :: u8
  m_protocolSock :: "addr option"
  readWaiters :: nat
  connectWaiters :: nat
  wakesRead :: nat
  wakesConnect :: nat
  ns_notified :: "u64 list"

record TcpState = NetState +
  m_globalSocketMap :: "(Endpoint, addr list) Hashmap"
  sockets :: "addr \<rightharpoonup> Socket"
  netSocks :: "addr \<rightharpoonup> NetworkSocket"
  sockGarbage :: Socket

definition QUEUE_SIZE :: nat where "QUEUE_SIZE = 1024"
definition EVENT_READABLE :: u64 where "EVENT_READABLE = 1"

definition read_buf :: "TcpState \<Rightarrow> data_ptr \<Rightarrow> nat \<Rightarrow> byte list option" where
  "read_buf st p n = do {
     b \<leftarrow> bufs st (fst p);
     if snd p + n \<le> length b then Some (take n (drop (snd p) b)) else None
   }"

definition hdr :: "TcpState \<Rightarrow> data_ptr \<Rightarrow> Header option" where
  "hdr st p = do { b \<leftarrow> bufs st (fst p); tcp_at (drop (snd p) b) }"

text \<open>Delivery to the network socket: \<open>NetworkSocket::receive\<close>.\<close>

definition ns_arrived :: "bool \<Rightarrow> nat \<Rightarrow> NetworkSocket \<Rightarrow> NetworkSocket" where
  "ns_arrived socketWasEmpty writeCount ns =
     (if writeCount > 0 then
        let ns = ns\<lparr>wakesRead := wakesRead ns + readWaiters ns\<rparr>
        in if socketWasEmpty then ns\<lparr>ns_notified := ns_notified ns @ [EVENT_READABLE]\<rparr> else ns
      else ns)"

definition ns_receive :: "addr \<Rightarrow> data_ptr \<Rightarrow> u32 \<Rightarrow> TcpState \<Rightarrow> TcpState option" where
  "ns_receive n data len st = do {
     ns \<leftarrow> netSocks st n;
     bytes \<leftarrow> read_buf st data (unat len);
     let socketWasEmpty = is_queue_empty (ns_queue ns);
     let (writeCount, q) = cb_write QUEUE_SIZE bytes (ns_queue ns);
     let ns = ns_arrived socketWasEmpty writeCount (ns\<lparr>ns_queue := q\<rparr>);
     Some (st\<lparr>netSocks := (netSocks st)(n \<mapsto> ns)\<rparr>)
   }"

subsection \<open>Sending a segment\<close>

definition build_segment ::
  "u32 \<Rightarrow> byte list \<Rightarrow> u8 \<Rightarrow> InternetProtocolAddress \<Rightarrow> Socket \<Rightarrow> Header \<Rightarrow> PseudoHeader \<Rightarrow> PseudoHeader \<times> Header"
where
  "build_segment seq data flags ipAddr s header pseudoHeader =
     (let len = length data;
          header = set_ack_number (if flags AND ACK \<noteq> 0 then rcv_nxt s else 0) header;
          header = set_sequence_number seq header;
          header = tcp_set_flags flags header;
          header = set_source_port (m_localPort s) header;
          header = set_dest_port (m_remotePort s) header;
          header = set_window_size (ucast WINDOW_SIZE) header;
          header = set_checksum 0 header;
          header = set_urgent_pointer 0 header;
          header = set_options (if flags AND SYN \<noteq> 0 then 0x020405B4 else 0) header;
          header = set_data_offset (of_nat (sizeof_Header div 4)) header;
          pseudoHeader = ph_set_dest_ip (m_remoteIp s) pseudoHeader;
          pseudoHeader = ph_set_source_ip ipAddr pseudoHeader;
          pseudoHeader = ph_set_length (of_nat (sizeof_Header + len)) pseudoHeader;
          pseudoHeader = ph_set_protocol (ucast Protocol_TCP) pseudoHeader
      in (pseudoHeader,
          set_checksum (chksum_value (pseudo_bytes pseudoHeader @ tcp_bytes header @ data)) header))"

definition garbage_header :: Header where
  "garbage_header = \<lparr>m_sourcePort = 0, m_destPort = 0, m_sequenceNumber = 0, m_ackNumber = 0, m_dataOffset = 0,
     m_flags = 0, m_windowSize = 0, m_checksum = 0, m_urgentPointer = 0, m_options = 0\<rparr>"

definition garbage_pseudo :: PseudoHeader where
  "garbage_pseudo = \<lparr>m_sourceIp = 0, m_destIp = 0, ph_protocol = 0, ph_length = 0\<rparr>"

definition tcp_send ::
  "u32 \<Rightarrow> byte list \<Rightarrow> u8 \<Rightarrow> Socket \<Rightarrow> TcpState \<Rightarrow> (Socket \<times> TcpState) option"
where
  "tcp_send seq data flags s st = do {
     let (pseudoHeader, header) = build_segment seq data flags (ipAddress st) s garbage_header garbage_pseudo;
     st \<leftarrow> ip_send (m_remoteIp s) Protocol_TCP (tcp_bytes header @ data) st;
     let s = s\<lparr>snd_nxt := snd_nxt s + of_nat (length data)\<rparr>;
     let s = (if flags AND (FIN OR SYN) \<noteq> 0 then s\<lparr>snd_nxt := snd_nxt s + 1\<rparr> else s);
     Some (s, st)
   }"

definition socket_send :: "byte list \<Rightarrow> Socket \<Rightarrow> TcpState \<Rightarrow> (Socket \<times> TcpState) option" where
  "socket_send data s st = tcp_send (snd_nxt s) (take (length data mod 65536) data) ACK s st"

subsection \<open>Opening a connection\<close>

definition socket_listen :: "Socket \<Rightarrow> Socket" where
  "socket_listen s = s\<lparr>m_state := LISTEN\<rparr>"

definition socket_connect :: "Endpoint \<Rightarrow> Socket \<Rightarrow> TcpState \<Rightarrow> (Socket \<times> TcpState) option" where
  "socket_connect to s st =
     (let s = s\<lparr>m_remotePort := fst to, m_remoteIp := snd to, m_state := SYN_SENT\<rparr>
      in tcp_send (snd_nxt s) [] SYN s st)"

definition accept_on_listen :: "Header \<Rightarrow> Socket \<Rightarrow> TcpState \<Rightarrow> (Socket \<times> TcpState) option" where
  "accept_on_listen header s st =
     (if tcp_get_flags header AND ACK \<noteq> 0 then Some (s, st)
      else if \<not> tcp_get_flags header AND SYN \<noteq> 0 then Some (s, st)
      else
        let s = s\<lparr>rcv_nxt := irs s + 1\<rparr>;
            s = s\<lparr>irs := get_sequence_number header, snd_una := get_ack_number header,
                  snd_wnd := ucast (get_window_size header), snd_wl1 := get_sequence_number header,
                  snd_wl2 := get_ack_number header, m_state := SYN_RECEIVED\<rparr>
        in tcp_send (snd_nxt s) [] (SYN OR ACK) s st)"

definition receive_on_syn_sent :: "Header \<Rightarrow> Socket \<Rightarrow> TcpState \<Rightarrow> (Socket \<times> TcpState) option" where
  "receive_on_syn_sent header s st =
     (if tcp_get_flags header AND ACK \<noteq> 0 \<and>
         (get_ack_number header \<le> iss s \<or> get_ack_number header > snd_nxt s) then Some (s, st)
      else if \<not> tcp_get_flags header AND SYN \<noteq> 0 then Some (s, st)
      else
        let s = s\<lparr>irs := get_sequence_number header, rcv_nxt := get_sequence_number header + 1\<rparr>
        in if tcp_get_flags header AND ACK \<noteq> 0 then
             let s = s\<lparr>snd_una := get_ack_number header, snd_wnd := ucast (get_window_size header),
                       snd_wl1 := get_sequence_number header, snd_wl2 := get_ack_number header,
                       m_state := ESTABLISHED\<rparr>
             in tcp_send (snd_nxt s) [] ACK s st
           else
             let s = s\<lparr>m_state := SYN_RECEIVED, snd_nxt := snd_nxt s - 1\<rparr>
             in tcp_send (snd_nxt s) [] (SYN OR ACK) s st)"

subsection \<open>Handling a segment\<close>

text \<open>
  \<open>erase\<close> returns the iterator behind the erased packet and the loop then increments it: the packet
  behind an erased one is kept without a test, and incrementing the end iterator dereferences null.
\<close>

fun refresh_retransmission_loop :: "u32 \<Rightarrow> Packet list \<Rightarrow> Packet list option" where
  "refresh_retransmission_loop una [] = Some []"
| "refresh_retransmission_loop una (p # ps) =
     (if sequenceNumber p < una then
        (case ps of [] \<Rightarrow> None | q # qs \<Rightarrow> map_option ((#) q) (refresh_retransmission_loop una qs))
      else map_option ((#) p) (refresh_retransmission_loop una ps))"

definition refresh_retransmission_queue :: "Socket \<Rightarrow> Socket option" where
  "refresh_retransmission_queue s = do {
     q \<leftarrow> refresh_retransmission_loop (snd_una s) (m_retransmissionQueue s);
     Some (s\<lparr>m_retransmissionQueue := q\<rparr>)
   }"

definition update_window :: "Header \<Rightarrow> Socket \<Rightarrow> Socket" where
  "update_window header s =
     s\<lparr>snd_wnd := ucast (get_window_size header), snd_wl1 := get_sequence_number header,
       snd_wl2 := get_ack_number header\<rparr>"

definition receive_ack :: "Header \<Rightarrow> Socket \<Rightarrow> TcpState \<Rightarrow> (Socket \<times> TcpState) option" where
  "receive_ack header s st =
     (case m_state s of
        SYN_RECEIVED \<Rightarrow>
          if snd_una s \<le> get_ack_number header \<and> get_ack_number header \<le> snd_nxt s
          then Some ((update_window header s)\<lparr>m_state := ESTABLISHED\<rparr>, st)
          else tcp_send (get_ack_number header) [] (RST OR ACK) s st
      | ESTABLISHED \<Rightarrow>
          if snd_una s \<le> get_ack_number header \<and> get_ack_number header \<le> snd_nxt s then do {
            let s = s\<lparr>snd_una := get_ack_number header\<rparr>;
            let s = (if snd_wl1 s < get_sequence_number header \<or>
                        snd_wl1 s = get_sequence_number header \<and> snd_wl2 s < get_ack_number header
                     then update_window header s else s);
            s \<leftarrow> refresh_retransmission_queue s;
            Some (s, st)
          } else Some (s, st)
      | _ \<Rightarrow> Some (s, st))"

definition receive_rst :: "Header \<Rightarrow> Socket \<Rightarrow> TcpState \<Rightarrow> (Socket \<times> TcpState) option" where
  "receive_rst header s st = Some (s, st)"

definition receive_fin :: "Header \<Rightarrow> Socket \<Rightarrow> TcpState \<Rightarrow> (Socket \<times> TcpState) option" where
  "receive_fin header s st = do {
     let s = s\<lparr>rcv_nxt := get_sequence_number header + 1\<rparr>;
     (s, st) \<leftarrow> tcp_send (snd_nxt s) [] ACK s st;
     let s = (case m_state s of
         SYN_RECEIVED \<Rightarrow> s\<lparr>m_state := CLOSE_WAIT\<rparr>
       | ESTABLISHED \<Rightarrow> s\<lparr>m_state := CLOSE_WAIT\<rparr>
       | FIN_WAIT1 \<Rightarrow> s\<lparr>m_state := (if get_ack_number header > snd_nxt s then TIME_WAIT else CLOSING)\<rparr>
       | FIN_WAIT2 \<Rightarrow> s\<lparr>m_state := TIME_WAIT\<rparr>
       | TIME_WAIT \<Rightarrow> s\<lparr>m_state := TIME_WAIT\<rparr>
       | _ \<Rightarrow> s);
     Some (s, st)
   }"

definition receive_on_listen ::
  "InternetProtocolAddress \<Rightarrow> Header \<Rightarrow> data_ptr \<Rightarrow> Socket \<Rightarrow> Socket"
where
  "receive_on_listen sourceIp header p s =
     s\<lparr>m_connectionQueue := m_connectionQueue s @ [((get_source_port header, sourceIp), p)]\<rparr>"

definition add_to_received :: "Packet \<Rightarrow> Socket \<Rightarrow> Socket" where
  "add_to_received packet s =
     (let before = takeWhile (\<lambda>q. \<not> sequenceNumber packet < sequenceNumber q) (m_outOfOrderList s);
          i = length before
      in s\<lparr>m_outOfOrderList := seq_insert i packet (m_outOfOrderList s)\<rparr>)"

fun process_packets :: "Packet list \<Rightarrow> Socket \<Rightarrow> TcpState \<Rightarrow> (Socket \<times> TcpState) option" where
  "process_packets [] s st = Some (s\<lparr>m_outOfOrderList := []\<rparr>, st)"
| "process_packets (p # ps) s st =
     (if rcv_nxt s \<noteq> sequenceNumber p then Some (s\<lparr>m_outOfOrderList := p # ps\<rparr>, st)
      else do {
        let s = s\<lparr>rcv_nxt := rcv_nxt s + pk_length p\<rparr>;
        st \<leftarrow> ns_receive (m_netSock s) (pk_data p) (pk_length p) st;
        process_packets ps s st
      })"

definition process_received :: "Socket \<Rightarrow> TcpState \<Rightarrow> (Socket \<times> TcpState) option" where
  "process_received s st = process_packets (m_outOfOrderList s) s st"

definition receive_data :: "Header \<Rightarrow> data_ptr \<Rightarrow> u16 \<Rightarrow> Socket \<Rightarrow> TcpState \<Rightarrow> (Socket \<times> TcpState) option" where
  "receive_data header p len s st =
     (let headerSize = unat (get_data_offset header) * 4
      in if headerSize \<ge> unat len then Some (s, st)
         else if m_state s = ESTABLISHED then do {
           let packet = \<lparr>sequenceNumber = get_sequence_number header,
                         pk_length = of_nat (unat len - headerSize), pk_data = (fst p, snd p + headerSize)\<rparr>;
           (s, st) \<leftarrow> process_received (add_to_received packet s) st;
           tcp_send (snd_nxt s) [] ACK s st
         } else Some (s, st))"

definition socket_receive ::
  "InternetProtocolAddress \<Rightarrow> data_ptr \<Rightarrow> u16 \<Rightarrow> Socket \<Rightarrow> TcpState \<Rightarrow> (Socket \<times> TcpState) option"
where
  "socket_receive sourceIp p len s st = do {
     _ \<leftarrow> read_buf st p (unat len);
     header \<leftarrow> hdr st p;
     case m_state s of
       LISTEN \<Rightarrow> Some (receive_on_listen sourceIp header p s, st)
     | SYN_SENT \<Rightarrow> receive_on_syn_sent header s st
     | _ \<Rightarrow>
       if tcp_get_flags header AND RST \<noteq> 0 then receive_rst header s st
       else if tcp_get_flags header AND SYN \<noteq> 0 then tcp_send 0 [] (RST OR ACK) s st
       else if \<not> tcp_get_flags header AND ACK \<noteq> 0 then Some (s, st)
       else do {
         (s, st) \<leftarrow> receive_ack header s st;
         (s, st) \<leftarrow> receive_data header p len s st;
         if tcp_get_flags header AND FIN \<noteq> 0 then receive_fin header s st else Some (s, st)
       }
   }"

subsection \<open>Finding the socket\<close>

fun find_socket ::
  "u16 \<Rightarrow> InternetProtocolAddress \<Rightarrow> u16 \<Rightarrow> InternetProtocolAddress \<Rightarrow> addr list \<Rightarrow> TcpState \<Rightarrow>
   (addr option \<times> TcpState) option"
where
  "find_socket localPort destIp remotePort sourceIp [] st = Some (None, st)"
| "find_socket localPort destIp remotePort sourceIp (a # as) st = do {
     s \<leftarrow> sockets st a;
     let s = (if m_localPort s = localPort \<and> be32_eq (m_localIp s) destIp \<and> m_state s = LISTEN
              then s\<lparr>m_remotePort := remotePort, m_remoteIp := sourceIp\<rparr> else s);
     let st = st\<lparr>sockets := (sockets st)(a \<mapsto> s)\<rparr>;
     if m_localPort s = localPort \<and> be32_eq (m_localIp s) destIp \<and> m_remotePort s = remotePort \<and>
        be32_eq (m_remoteIp s) sourceIp
     then Some (Some a, st)
     else find_socket localPort destIp remotePort sourceIp as st
   }"

definition receive_ip ::
  "InternetProtocolAddress \<Rightarrow> InternetProtocolAddress \<Rightarrow> data_ptr \<Rightarrow> u32 \<Rightarrow> TcpState \<Rightarrow> TcpState option"
where
  "receive_ip destIp sourceIp payload len st = do {
     header \<leftarrow> hdr st payload;
     let localPort = get_dest_port header;
     let remotePort = get_source_port header;
     it \<leftarrow> hm_find endpoint_bytes (m_globalSocketMap st) (localPort, destIp);
     if it = HEnd then Some st
     else do {
       entry \<leftarrow> hm_deref (m_globalSocketMap st) it;
       (socket, st) \<leftarrow> find_socket localPort destIp remotePort sourceIp (snd entry) st;
       case socket of
         None \<Rightarrow> Some st
       | Some a \<Rightarrow> do {
           s \<leftarrow> sockets st a;
           (s, st) \<leftarrow> socket_receive sourceIp payload (ucast len) s st;
           Some (st\<lparr>sockets := (sockets st)(a \<mapsto> s)\<rparr>)
         }
     }
   }"

subsection \<open>Creating sockets\<close>

definition tcp_initialise :: "TcpState \<Rightarrow> TcpState" where
  "tcp_initialise st = st\<lparr>m_globalSocketMap := hm_new\<rparr>"

fun hm_update_at :: "('k, 'v) Hashmap \<Rightarrow> hm_iter \<Rightarrow> ('v \<Rightarrow> 'v) \<Rightarrow> ('k, 'v) Hashmap" where
  "hm_update_at hm HEnd f = hm"
| "hm_update_at hm (HAt b i) f =
     hm\<lparr>m_bucketArray := (m_bucketArray hm)[b := (m_bucketArray hm ! b)[i := map_prod id f (m_bucketArray hm ! b ! i)]]\<rparr>"

definition create_socket :: "addr \<Rightarrow> Endpoint \<Rightarrow> addr \<Rightarrow> TcpState \<Rightarrow> TcpState option" where
  "create_socket newAddr endpoint netSock st = do {
     it \<leftarrow> hm_find endpoint_bytes (m_globalSocketMap st) endpoint;
     (globalMap, it) \<leftarrow> (if it = HEnd then do {
           (hm, it, _) \<leftarrow> hm_insert endpoint_bytes (m_globalSocketMap st) (endpoint, []);
           Some (hm, it)
         } else Some (m_globalSocketMap st, it));
     let sock = Socket_new (sockGarbage st) netSock;
     let sock = sock\<lparr>m_localPort := fst endpoint, m_localIp := snd endpoint\<rparr>;
     Some (st\<lparr>m_globalSocketMap := hm_update_at globalMap it (\<lambda>l. l @ [newAddr]), sockets := (sockets st)(newAddr \<mapsto> sock)\<rparr>)
   }"

definition accept_conn_request ::
  "addr \<Rightarrow> addr \<Rightarrow> Socket \<Rightarrow> TcpState \<Rightarrow> (addr option \<times> TcpState) option"
where
  "accept_conn_request newAddr netSock s st =
     (case m_connectionQueue s of
        [] \<Rightarrow> Some (None, st)
      | (endpoint, header_ptr) # _ \<Rightarrow> do {
          st \<leftarrow> create_socket newAddr (m_localPort s, m_localIp s) netSock st;
          newSock \<leftarrow> sockets st newAddr;
          let newSock = newSock\<lparr>m_remotePort := fst endpoint, m_remoteIp := snd endpoint\<rparr>;
          header \<leftarrow> hdr st header_ptr;
          (newSock, st) \<leftarrow> accept_on_listen header newSock st;
          Some (Some newAddr, st\<lparr>sockets := (sockets st)(newAddr \<mapsto> newSock)\<rparr>)
        })"
end
