(* ===== verification/Net_TCP_Stream.thy ===== *)
theory Net_TCP_Stream
  imports Net_TCP
begin

text \<open>
  What the operations of \<^theory_text>\<open>Net_TCP\<close> achieve: the segments a socket sends, the active open, the delivery of
  a stream of segments, and what happens to segments that arrive twice or for an endpoint with a
  listening socket. A route is \<open>resolved\<close> when the ARP table holds the address of its next hop, so that
  sending does not wait.
\<close>

subsection \<open>Sending with a resolved route\<close>

definition resolved :: "'a NetState_scheme \<Rightarrow> InternetProtocolAddress \<Rightarrow> MediaAccessControlAddress \<Rightarrow> bool" where
  "resolved st ip mac \<longleftrightarrow> hm_inv mem32 (m_table st) \<and> hm_lookup mem32 (m_table st) (ip_route st ip) = Some mac"

definition ip_frame ::
  "'a NetState_scheme \<Rightarrow> MediaAccessControlAddress \<Rightarrow> InternetProtocolAddress \<Rightarrow> u8 \<Rightarrow> byte list \<Rightarrow> byte list"
where
  "ip_frame st mac destIp protocol buf =
     frame_bytes \<lparr>macDest = mac, macSource = macAddress st, ethertype = EtherType_IPV4\<rparr> @
     header_bytes (build_header (heapGarbage st) destIp protocol (length buf + 20) (ipAddress st)) @ buf"

lemma ip_send_resolved:
  "resolved st ip mac \<Longrightarrow>
   ip_send ip protocol buf st = Some (st\<lparr>driverSent := driverSent st @ [ip_frame st mac ip protocol buf]\<rparr>)"
  by (simp add: ip_send_def resolved_def request_cached ethernet_send_def send_to_driver_def ip_frame_def
      sizeof_MessageHeader_def)

definition segment_frame ::
  "TcpState \<Rightarrow> MediaAccessControlAddress \<Rightarrow> Socket \<Rightarrow> u32 \<Rightarrow> byte list \<Rightarrow> u8 \<Rightarrow> byte list"
where
  "segment_frame st mac s seq data flags =
     ip_frame st mac (m_remoteIp s) Protocol_TCP
       (tcp_bytes (snd (build_segment seq data flags (ipAddress st) s garbage_header garbage_pseudo)) @ data)"

lemma tcp_send_resolved:
  "resolved st (m_remoteIp s) mac \<Longrightarrow>
   tcp_send seq data flags s st =
     Some (s\<lparr>snd_nxt := snd_nxt s + of_nat (length data) + (if flags AND (FIN OR SYN) \<noteq> 0 then 1 else 0)\<rparr>,
           st\<lparr>driverSent := driverSent st @ [segment_frame st mac s seq data flags]\<rparr>)"
  by (simp add: tcp_send_def ip_send_resolved segment_frame_def split: prod.split)

lemma resolved_sent [simp]: "resolved (st\<lparr>driverSent := fs\<rparr>) ip mac \<longleftrightarrow> resolved st ip mac"
  "resolved (st\<lparr>netSocks := n\<rparr>) ip mac \<longleftrightarrow> resolved st ip mac"
  by (simp_all add: resolved_def ip_route_def)

lemma read_buf_cong [simp]: "read_buf (st\<lparr>driverSent := fs\<rparr>) p n = read_buf st p n"
  "read_buf (st\<lparr>netSocks := ns\<rparr>) p n = read_buf st p n"
  by (simp_all add: read_buf_def)

lemma hdr_cong [simp]: "hdr (st\<lparr>driverSent := fs\<rparr>) p = hdr st p" "hdr (st\<lparr>netSocks := ns\<rparr>) p = hdr st p"
  by (simp_all add: hdr_def)

subsection \<open>The segment on the wire\<close>

lemma length_tcp_bytes [simp]: "length (tcp_bytes h) = 24" "length (pseudo_bytes p) = 12"
  by (simp_all add: tcp_bytes_def pseudo_bytes_def mem16_def mem32_def)

lemma tcp_at_bytes [simp]: "tcp_at (tcp_bytes h @ rest) = Some h"
  by (simp add: tcp_at_def tcp_bytes_def mem16_def mem32_def sizeof_Header_def nth_append)

lemmas tcp_get_defs = get_source_port_def get_dest_port_def get_sequence_number_def get_ack_number_def
  get_data_offset_def tcp_get_flags_def get_window_size_def get_checksum_def get_options_def

lemmas tcp_set_defs = set_source_port_def set_dest_port_def set_sequence_number_def set_ack_number_def
  set_data_offset_def tcp_set_flags_def set_window_size_def set_checksum_def set_urgent_pointer_def set_options_def
  ph_set_source_ip_def ph_set_dest_ip_def ph_set_protocol_def ph_set_length_def

lemma build_segment_checksum:
  assumes "length data \<le> 65511" and "even (length data) \<or> unat (last data) < 128"
    and b: "build_segment seq data flags ip s h0 p0 = (p, h)"
  shows "checksum (pseudo_bytes p @ tcp_bytes h @ data) = 0"
proof -
  let ?pre = "pseudo_bytes p @ mem16 (m_sourcePort h) @ mem16 (m_destPort h) @ mem32 (m_sequenceNumber h) @
     mem32 (m_ackNumber h) @ [m_dataOffset h, m_flags h] @ mem16 (m_windowSize h)"
  let ?post = "mem16 (m_urgentPointer h) @ mem32 (m_options h) @ data"
  have "m_checksum h = checksum (?pre @ mem16 0 @ ?post)"
    using b by (auto simp: build_segment_def Let_def tcp_set_defs tcp_bytes_def chksum_value_def be16_set_raw_def)
  then have "pseudo_bytes p @ tcp_bytes h @ data = ?pre @ mem16 (checksum (?pre @ mem16 0 @ ?post)) @ ?post"
    by (simp add: tcp_bytes_def)
  also have "checksum \<dots> = 0"
    using assms by (intro checksum_verifies) (auto simp: mem16_def mem32_def)
  finally show ?thesis .
qed

lemma build_segment_fields:
  assumes "build_segment seq data flags ip s h0 p0 = (p, h)"
  shows "get_source_port h = m_localPort s" "get_dest_port h = m_remotePort s" "get_sequence_number h = seq"
    "get_ack_number h = (if flags AND ACK \<noteq> 0 then rcv_nxt s else 0)" "tcp_get_flags h = flags"
    "get_data_offset h = 6" "get_window_size h = 8192"
  using assms
  by (auto simp: build_segment_def Let_def tcp_set_defs tcp_get_defs WINDOW_SIZE_def sizeof_Header_def
      be8_set_def be8_get_def byteswap8_def)

subsection \<open>Delivery in order\<close>

lemma ns_arrived_queue [simp]: "ns_queue (ns_arrived e w ns) = ns_queue ns"
  by (simp add: ns_arrived_def Let_def)

lemma ns_receive_spec:
  assumes "netSocks st n = Some ns" "cb_inv QUEUE_SIZE (ns_queue ns)" "read_buf st p (unat len) = Some data"
    and "length (cb_contents QUEUE_SIZE (ns_queue ns)) + length data < QUEUE_SIZE"
  shows "\<exists>ns'. ns_receive n p len st = Some (st\<lparr>netSocks := (netSocks st)(n \<mapsto> ns')\<rparr>) \<and>
    cb_inv QUEUE_SIZE (ns_queue ns') \<and>
    cb_contents QUEUE_SIZE (ns_queue ns') = cb_contents QUEUE_SIZE (ns_queue ns) @ data"
proof -
  obtain w q where w: "cb_write QUEUE_SIZE data (ns_queue ns) = (w, q)" by fastforce
  from cb_write_law [OF assms(2) w] assms(4)
  have "cb_inv QUEUE_SIZE q" "cb_contents QUEUE_SIZE q = cb_contents QUEUE_SIZE (ns_queue ns) @ data"
    by auto
  moreover have "ns_receive n p len st =
      Some (st\<lparr>netSocks := (netSocks st)(n \<mapsto> ns_arrived (is_queue_empty (ns_queue ns)) w (ns\<lparr>ns_queue := q\<rparr>))\<rparr>)"
    using assms w by (simp add: ns_receive_def)
  ultimately show ?thesis
    by (intro exI [of _ "ns_arrived (is_queue_empty (ns_queue ns)) w (ns\<lparr>ns_queue := q\<rparr>)"]) simp
qed

text \<open>
  A segment at \<open>p\<close> that carries \<open>data\<close> from sequence number \<open>seq\<close> on and acknowledges everything the
  socket has sent.
\<close>

definition data_segment :: "TcpState \<Rightarrow> Socket \<Rightarrow> u32 \<Rightarrow> data_ptr \<times> u16 \<Rightarrow> byte list \<Rightarrow> bool" where
  "data_segment st s seq seg data \<longleftrightarrow>
     (case hdr st (fst seg) of
        None \<Rightarrow> False
      | Some h \<Rightarrow>
          tcp_get_flags h = ACK \<and> get_sequence_number h = seq \<and> get_ack_number h = snd_nxt s \<and> data \<noteq> [] \<and>
          unat (snd seg) = unat (get_data_offset h) * 4 + length data \<and>
          read_buf st (fst seg) (unat (snd seg)) \<noteq> None \<and>
          read_buf st (fst (fst seg), snd (fst seg) + unat (get_data_offset h) * 4) (length data) = Some data)"

lemma flag_tests [simp]: "ACK AND RST = 0" "ACK AND SYN = 0" "ACK AND FIN = 0" "ACK AND ACK = ACK" "ACK \<noteq> 0"
  "ACK AND (FIN OR SYN) = 0" "SYN AND (FIN OR SYN) = SYN" "SYN AND ACK = 0" "SYN \<noteq> 0" "SYN AND SYN = SYN"
  by (simp_all add: ACK_def RST_def SYN_def FIN_def)

lemma unat_word32_of_nat: "n < 65536 \<Longrightarrow> unat (of_nat n :: u32) = n"
  by (simp add: unat_of_nat)

lemma send_ack_resolved:
  "resolved st (m_remoteIp s) mac \<Longrightarrow>
   tcp_send seq [] ACK s st = Some (s, st\<lparr>driverSent := driverSent st @ [segment_frame st mac s seq [] ACK]\<rparr>)"
  by (simp add: tcp_send_resolved)

text \<open>A socket that can take and acknowledge data.\<close>

definition can_receive :: "TcpState \<Rightarrow> Socket \<Rightarrow> MediaAccessControlAddress \<Rightarrow> bool" where
  "can_receive st s mac \<longleftrightarrow> m_state s = ESTABLISHED \<and> m_retransmissionQueue s = [] \<and> snd_una s \<le> snd_nxt s \<and>
     resolved st (m_remoteIp s) mac"

definition same_end :: "Socket \<Rightarrow> Socket \<Rightarrow> bool" where
  "same_end s s' \<longleftrightarrow> snd_nxt s' = snd_nxt s \<and> m_remoteIp s' = m_remoteIp s \<and> m_netSock s' = m_netSock s \<and>
     m_localPort s' = m_localPort s \<and> m_remotePort s' = m_remotePort s \<and> m_localIp s' = m_localIp s"

lemma receive_ack_established:
  assumes "can_receive st s mac" "get_ack_number h = snd_nxt s"
  shows "\<exists>s'. receive_ack h s st = Some (s', st) \<and> can_receive st s' mac \<and> same_end s s' \<and>
    rcv_nxt s' = rcv_nxt s \<and> m_outOfOrderList s' = m_outOfOrderList s"
  using assms
  by (auto simp: can_receive_def same_end_def receive_ack_def refresh_retransmission_queue_def update_window_def Let_def)

text \<open>
  A data segment: the packet is filed, the list is worked off, and an acknowledgement is sent; \<open>ptr\<close> is
  where the data of the packet lie.
\<close>

lemma socket_receive_segment:
  assumes c: "can_receive st s mac" and d: "data_segment st s seq (p, len) data"
  shows "\<exists>s1 ptr. can_receive st s1 mac \<and> same_end s s1 \<and> rcv_nxt s1 = rcv_nxt s \<and>
    m_outOfOrderList s1 = m_outOfOrderList s \<and> fst ptr = fst p \<and> read_buf st ptr (length data) = Some data \<and>
    socket_receive src p len s st = do {
      (s2, st2) \<leftarrow> process_received
        (add_to_received \<lparr>sequenceNumber = seq, pk_length = of_nat (length data), pk_data = ptr\<rparr> s1) st;
      tcp_send (snd_nxt s2) [] ACK s2 st2 }"
proof -
  from d obtain h where h: "hdr st p = Some h" "tcp_get_flags h = ACK" "get_sequence_number h = seq"
    "get_ack_number h = snd_nxt s" "data \<noteq> []" "unat len = unat (get_data_offset h) * 4 + length data"
    "read_buf st p (unat len) \<noteq> None"
    "read_buf st (fst p, snd p + unat (get_data_offset h) * 4) (length data) = Some data"
    by (auto simp: data_segment_def split: option.splits)
  have m: "m_state s = ESTABLISHED" using c by (simp add: can_receive_def)
  from receive_ack_established [OF c h(4)] obtain s1 where
    s1: "receive_ack h s st = Some (s1, st)" "can_receive st s1 mac" "same_end s s1" "rcv_nxt s1 = rcv_nxt s"
    "m_outOfOrderList s1 = m_outOfOrderList s" by blast
  have "m_state s1 = ESTABLISHED" using s1(2) by (simp add: can_receive_def)
  then have "socket_receive src p len s st = do {
      (s2, st2) \<leftarrow> process_received (add_to_received \<lparr>sequenceNumber = seq, pk_length = of_nat (length data),
         pk_data = (fst p, snd p + unat (get_data_offset h) * 4)\<rparr> s1) st;
      tcp_send (snd_nxt s2) [] ACK s2 st2 }"
    using h s1(1) m
    by (auto simp: socket_receive_def receive_data_def Let_def intro!: bind_option_cong split: option.split)
  with s1 h(8) show ?thesis by (intro exI [of _ s1] exI [of _ "(fst p, snd p + unat (get_data_offset h) * 4)"]) simp
qed

text \<open>Between segments that arrive in order: nothing is held back, and the queue holds \<open>queued\<close>.\<close>

definition receiving :: "TcpState \<Rightarrow> Socket \<Rightarrow> MediaAccessControlAddress \<Rightarrow> byte list \<Rightarrow> bool" where
  "receiving st s mac queued \<longleftrightarrow>
     can_receive st s mac \<and> m_outOfOrderList s = [] \<and>
     (case netSocks st (m_netSock s) of None \<Rightarrow> False
      | Some ns \<Rightarrow> cb_inv QUEUE_SIZE (ns_queue ns) \<and> cb_contents QUEUE_SIZE (ns_queue ns) = queued)"

text \<open>
  The header of an acknowledgement a socket sends, and the acknowledgement numbers due for segments that
  carry \<open>datas\<close> from sequence number \<open>q\<close> on: after each segment the number of the next byte expected.
\<close>

definition ack_header :: "Socket \<Rightarrow> u32 \<Rightarrow> Header \<Rightarrow> bool" where
  "ack_header s r h \<longleftrightarrow> tcp_get_flags h = ACK \<and> get_ack_number h = r \<and> get_sequence_number h = snd_nxt s \<and>
     get_source_port h = m_localPort s \<and> get_dest_port h = m_remotePort s"

fun ack_numbers :: "u32 \<Rightarrow> byte list list \<Rightarrow> u32 list" where
  "ack_numbers q [] = []"
| "ack_numbers q (d # ds) = (q + of_nat (length d)) # ack_numbers (q + of_nat (length d)) ds"

lemma segment_frame_ack:
  "\<exists>h. segment_frame st mac s (snd_nxt s) [] ACK = ip_frame st mac (m_remoteIp s) Protocol_TCP (tcp_bytes h) \<and>
       ack_header s (rcv_nxt s) h"
proof -
  obtain p h where b: "build_segment (snd_nxt s) [] ACK (ipAddress st) s garbage_header garbage_pseudo = (p, h)"
    by fastforce
  then show ?thesis using build_segment_fields [OF b]
    by (intro exI [of _ h]) (simp add: segment_frame_def ack_header_def)
qed

lemma ip_frame_cong [simp]: "ip_frame (st\<lparr>driverSent := fs\<rparr>) = ip_frame st" "ip_frame (st\<lparr>netSocks := ns\<rparr>) = ip_frame st"
  by (simp_all add: ip_frame_def fun_eq_iff)

lemma socket_receive_in_order:
  assumes r: "receiving st s mac queued" and d: "data_segment st s (rcv_nxt s) (p, len) data"
    and fits: "length queued + length data < QUEUE_SIZE"
  shows "\<exists>s' st'. socket_receive src p len s st = Some (s', st') \<and> receiving st' s' mac (queued @ data) \<and>
    rcv_nxt s' = rcv_nxt s + of_nat (length data) \<and> same_end s s' \<and>
    bufs st' = bufs st \<and> ip_frame st' = ip_frame st \<and>
    (\<exists>h. driverSent st' = driverSent st @ [ip_frame st mac (m_remoteIp s) Protocol_TCP (tcp_bytes h)] \<and>
         ack_header s (rcv_nxt s + of_nat (length data)) h)"
proof -
  have c: "can_receive st s mac" "m_outOfOrderList s = []" using r by (auto simp: receiving_def)
  from r obtain ns where ns: "netSocks st (m_netSock s) = Some ns" "cb_inv QUEUE_SIZE (ns_queue ns)"
    "cb_contents QUEUE_SIZE (ns_queue ns) = queued" by (auto simp: receiving_def split: option.splits)
  let ?n = "of_nat (length data) :: u32"
  from socket_receive_segment [OF c(1) d, of src] obtain s1 ptr where
    s1: "can_receive st s1 mac" "same_end s s1" "rcv_nxt s1 = rcv_nxt s" "m_outOfOrderList s1 = m_outOfOrderList s"
    "read_buf st ptr (length data) = Some data"
    "socket_receive src p len s st = do {
      (s2, st2) \<leftarrow> process_received (add_to_received \<lparr>sequenceNumber = rcv_nxt s, pk_length = ?n, pk_data = ptr\<rparr> s1) st;
      tcp_send (snd_nxt s2) [] ACK s2 st2 }" by blast
  have e: "snd_nxt s1 = snd_nxt s" "m_remoteIp s1 = m_remoteIp s" "m_netSock s1 = m_netSock s"
    using s1(2) by (simp_all add: same_end_def)
  have len: "length data < 65536" using fits by (simp add: QUEUE_SIZE_def)
  from ns_receive_spec [OF ns(1,2), of ptr ?n data] s1(5) fits ns(3) len obtain ns' where
    n: "ns_receive (m_netSock s) ptr ?n st = Some (st\<lparr>netSocks := (netSocks st)(m_netSock s \<mapsto> ns')\<rparr>)"
    "cb_inv QUEUE_SIZE (ns_queue ns')" "cb_contents QUEUE_SIZE (ns_queue ns') = queued @ data"
    by (auto simp: unat_word32_of_nat)
  let ?s2 = "s1\<lparr>rcv_nxt := rcv_nxt s + ?n, m_outOfOrderList := []\<rparr>"
    and ?st2 = "st\<lparr>netSocks := (netSocks st)(m_netSock s \<mapsto> ns')\<rparr>"
  let ?f = "segment_frame ?st2 mac ?s2 (snd_nxt s) [] ACK"
  have "process_received (add_to_received \<lparr>sequenceNumber = rcv_nxt s, pk_length = ?n, pk_data = ptr\<rparr> s1) st = Some (?s2, ?st2)"
    using s1(3,4) c(2) n(1) e by (simp add: add_to_received_def process_received_def seq_insert_def)
  then have "socket_receive src p len s st = Some (?s2, ?st2\<lparr>driverSent := driverSent st @ [?f]\<rparr>)"
    using s1(1,6) e by (simp add: send_ack_resolved [where mac = mac] can_receive_def)
  moreover have "receiving (?st2\<lparr>driverSent := driverSent st @ [?f]\<rparr>) ?s2 mac (queued @ data)"
    using s1(1) n e by (simp add: receiving_def can_receive_def)
  moreover obtain h where "?f = ip_frame st mac (m_remoteIp s) Protocol_TCP (tcp_bytes h)"
    "ack_header s (rcv_nxt s + ?n) h"
    using segment_frame_ack [of ?st2 mac ?s2] s1(2) e by (auto simp: ack_header_def same_end_def)
  ultimately show ?thesis using s1(2)
    by (intro exI [of _ ?s2] exI [of _ "?st2\<lparr>driverSent := driverSent st @ [?f]\<rparr>"]) (auto simp: same_end_def)
qed

fun receive_segments ::
  "InternetProtocolAddress \<Rightarrow> (data_ptr \<times> u16) list \<Rightarrow> Socket \<Rightarrow> TcpState \<Rightarrow> (Socket \<times> TcpState) option"
where
  "receive_segments src [] s st = Some (s, st)"
| "receive_segments src ((p, len) # segs) s st = do {
     (s, st) \<leftarrow> socket_receive src p len s st;
     receive_segments src segs s st
   }"

fun carries :: "TcpState \<Rightarrow> Socket \<Rightarrow> u32 \<Rightarrow> (data_ptr \<times> u16) list \<Rightarrow> byte list list \<Rightarrow> bool" where
  "carries st s seq [] [] \<longleftrightarrow> True"
| "carries st s seq (g # gs) (d # ds) \<longleftrightarrow>
     data_segment st s seq g d \<and> carries st s (seq + of_nat (length d)) gs ds"
| "carries st s seq _ _ \<longleftrightarrow> False"

lemma data_segment_cong:
  "bufs st' = bufs st \<Longrightarrow> snd_nxt s' = snd_nxt s \<Longrightarrow> data_segment st' s' seq g d = data_segment st s seq g d"
  by (simp add: data_segment_def hdr_def read_buf_def split: option.split)

lemma carries_cong:
  assumes "bufs st' = bufs st" "snd_nxt s' = snd_nxt s"
  shows "carries st' s' seq gs ds = carries st s seq gs ds"
proof (induction gs arbitrary: seq ds)
  case Nil
  show ?case by (cases ds) simp_all
next
  case (Cons g gs)
  show ?case by (cases ds) (simp_all add: Cons.IH data_segment_cong [OF assms])
qed

lemma receive_segments_in_order:
  assumes "receiving st s mac queued" "carries st s (rcv_nxt s) segs datas"
    "length queued + length (concat datas) < QUEUE_SIZE"
  shows "\<exists>s' st' acks. receive_segments src segs s st = Some (s', st') \<and> receiving st' s' mac (queued @ concat datas) \<and>
    rcv_nxt s' = rcv_nxt s + of_nat (length (concat datas)) \<and>
    driverSent st' = driverSent st @ map (\<lambda>h. ip_frame st mac (m_remoteIp s) Protocol_TCP (tcp_bytes h)) acks \<and>
    list_all2 (ack_header s) (ack_numbers (rcv_nxt s) datas) acks"
  using assms
proof (induction segs arbitrary: st s queued datas)
  case Nil
  then show ?case by (cases datas) auto
next
  case (Cons g gs)
  obtain p len where g: "g = (p, len)" by (cases g)
  from Cons.prems obtain d ds where d: "datas = d # ds" by (cases datas) auto
  have "length queued + length d < QUEUE_SIZE" using Cons.prems d by simp
  from socket_receive_in_order [OF Cons.prems(1) _ this, of p len src] Cons.prems(2) obtain s1 st1 h where
    1: "socket_receive src p len s st = Some (s1, st1)" "receiving st1 s1 mac (queued @ d)"
    "rcv_nxt s1 = rcv_nxt s + of_nat (length d)" "same_end s s1" "bufs st1 = bufs st"
    "ip_frame st1 = ip_frame st"
    "driverSent st1 = driverSent st @ [ip_frame st mac (m_remoteIp s) Protocol_TCP (tcp_bytes h)]"
    "ack_header s (rcv_nxt s + of_nat (length d)) h" by (auto simp: d g)
  have e: "snd_nxt s1 = snd_nxt s" "m_remoteIp s1 = m_remoteIp s" "ack_header s1 = ack_header s"
    using 1(4) by (simp_all add: same_end_def ack_header_def fun_eq_iff)
  have "carries st1 s1 (rcv_nxt s1) gs ds" using Cons.prems(2) 1 by (simp add: d g carries_cong [OF 1(5) e(1)])
  from Cons.IH [OF 1(2) this] Cons.prems(3) obtain s' st' acks where
    "receive_segments src gs s1 st1 = Some (s', st')" "receiving st' s' mac ((queued @ d) @ concat ds)"
    "rcv_nxt s' = rcv_nxt s1 + of_nat (length (concat ds))"
    "driverSent st' = driverSent st1 @ map (\<lambda>h. ip_frame st1 mac (m_remoteIp s1) Protocol_TCP (tcp_bytes h)) acks"
    "list_all2 (ack_header s1) (ack_numbers (rcv_nxt s1) ds) acks" by (auto simp: d)
  with 1 e show ?case
    by (intro exI [of _ s'] exI [of _ st'] exI [of _ "h # acks"]) (simp add: d g add.assoc)
qed

subsection \<open>Segments that arrive twice\<close>

definition stale :: "u32 \<Rightarrow> Socket \<Rightarrow> bool" where
  "stale q0 s \<longleftrightarrow> q0 < rcv_nxt s \<and> (\<exists>q qs. m_outOfOrderList s = q # qs \<and> sequenceNumber q = q0)"

lemma process_received_stale: "stale q0 s \<Longrightarrow> process_received s st = Some (s, st)"
  by (auto simp: stale_def process_received_def)

lemma socket_receive_stale:
  assumes c: "can_receive st s mac" and d: "data_segment st s seq (p, len) data"
    and old: "stale q0 s \<and> q0 \<le> seq \<or> m_outOfOrderList s = [] \<and> seq = q0 \<and> q0 < rcv_nxt s"
  shows "\<exists>s' st'. socket_receive src p len s st = Some (s', st') \<and> can_receive st' s' mac \<and> snd_nxt s' = snd_nxt s \<and>
    rcv_nxt s' = rcv_nxt s \<and> stale q0 s' \<and> netSocks st' = netSocks st \<and> bufs st' = bufs st"
proof -
  let ?n = "of_nat (length data) :: u32"
  from socket_receive_segment [OF c d, of src] obtain s1 ptr where
    s1: "can_receive st s1 mac" "same_end s s1" "rcv_nxt s1 = rcv_nxt s" "m_outOfOrderList s1 = m_outOfOrderList s"
    "socket_receive src p len s st = do {
      (s2, st2) \<leftarrow> process_received (add_to_received \<lparr>sequenceNumber = seq, pk_length = ?n, pk_data = ptr\<rparr> s1) st;
      tcp_send (snd_nxt s2) [] ACK s2 st2 }" by blast
  let ?s2 = "add_to_received \<lparr>sequenceNumber = seq, pk_length = ?n, pk_data = ptr\<rparr> s1"
  have "stale q0 ?s2"
    using old s1(3,4) by (auto simp: stale_def add_to_received_def seq_insert_def Let_def)
  moreover have "can_receive st ?s2 mac" "rcv_nxt ?s2 = rcv_nxt s" "snd_nxt ?s2 = snd_nxt s"
    using s1 by (simp_all add: can_receive_def add_to_received_def same_end_def Let_def)
  ultimately show ?thesis using s1(5) process_received_stale [of q0 ?s2 st]
    send_ack_resolved [of st ?s2 mac "snd_nxt ?s2"] by (auto simp: can_receive_def)
qed

lemma receive_segments_stale:
  assumes "can_receive st s mac" "stale q0 s" "\<forall>g \<in> set segs. \<exists>seq data. data_segment st s seq g data \<and> q0 \<le> seq"
  shows "\<exists>s' st'. receive_segments src segs s st = Some (s', st') \<and> rcv_nxt s' = rcv_nxt s \<and> netSocks st' = netSocks st"
  using assms
proof (induction segs arbitrary: st s)
  case (Cons g gs)
  obtain p len where g: "g = (p, len)" by (cases g)
  from Cons.prems(3) obtain seq data where "data_segment st s seq (p, len) data" "q0 \<le> seq" by (auto simp: g)
  with socket_receive_stale [OF Cons.prems(1) this(1), of q0 src] Cons.prems(2) obtain s1 st1 where
    1: "socket_receive src p len s st = Some (s1, st1)" "can_receive st1 s1 mac" "snd_nxt s1 = snd_nxt s"
    "rcv_nxt s1 = rcv_nxt s" "stale q0 s1" "netSocks st1 = netSocks st" "bufs st1 = bufs st" by auto
  have "\<forall>g \<in> set gs. \<exists>seq data. data_segment st1 s1 seq g data \<and> q0 \<le> seq"
    using Cons.prems(3) by (simp add: data_segment_cong [OF 1(7,3)])
  from Cons.IH [OF 1(2,5) this] 1 show ?case by (auto simp: g)
qed simp

subsection \<open>Opening and dispatch\<close>

lemma find_socket_first_listener:
  assumes "sockets st a = Some l" "m_state l = LISTEN" "m_localPort l = port" "m_localIp l = ip"
  shows "find_socket port ip rport rip (a # as) st =
     Some (Some a, st\<lparr>sockets := (sockets st)(a \<mapsto> l\<lparr>m_remotePort := rport, m_remoteIp := rip\<rparr>)\<rparr>)"
  using assms by simp

subsection \<open>An example connection\<close>

definition example_garbage :: Socket where
  "example_garbage =
     \<lparr>m_state = CLOSED, snd_una = 0, snd_nxt = 0, snd_wnd = 0, snd_up = 0, snd_wl1 = 0, snd_wl2 = 0, iss = 0,
      rcv_nxt = 0, rcv_wnd = 0, rcv_up = 0, irs = 0, m_localPort = 0, m_remotePort = 0, m_localIp = 0,
      m_remoteIp = 0, m_netSock = 0, m_retransmissionQueue = [], m_outOfOrderList = [], m_connectionQueue = []\<rparr>"

definition example_sock :: Socket where
  "example_sock = (Socket_new example_garbage 50)
     \<lparr>m_state := ESTABLISHED, m_localPort := 80, m_remotePort := 5000, m_localIp := 9, m_remoteIp := 7, rcv_nxt := 1000\<rparr>"

definition example_listener :: Socket where
  "example_listener = example_sock\<lparr>m_state := LISTEN\<rparr>"

definition example_segment :: "u32 \<Rightarrow> u8 \<Rightarrow> u32 \<Rightarrow> Header" where
  "example_segment seq flags ack =
     set_source_port 5000 (set_dest_port 80 (set_sequence_number seq (set_ack_number ack
       (set_data_offset 6 (tcp_set_flags flags garbage_header)))))"

definition example_netsock :: NetworkSocket where
  "example_netsock =
     \<lparr>ns_queue = cb_new QUEUE_SIZE (replicate QUEUE_SIZE 0), ns_shouldNotBlock = False, ns_connections = 0,
      ns_protocol = Protocol_TCP, m_protocolSock = Some 40, readWaiters = 0, connectWaiters = 0, wakesRead = 0,
      wakesConnect = 0, ns_notified = []\<rparr>"

definition example_tcp :: TcpState where
  "example_tcp =
     \<lparr>ipAddress = 9, gatewayAddress = 8, subnet = 0, macAddress = [1, 2, 3, 4, 5, 6],
      m_table = \<lparr>m_bucketCount = 1, hm_size = 1, m_bucketArray = [[(7, [9, 8, 7, 6, 5, 4])]]\<rparr>,
      tableWaiters = 0, tableWakes = 0, driverSent = [], arrivals = [], heapGarbage = heapGarbage example_net,
      bufs = [100 \<mapsto> tcp_bytes (example_segment 1000 ACK 0xbeef0101) @ [0x61, 0x62, 0x63],
              101 \<mapsto> tcp_bytes (example_segment 1003 ACK 0xbeef0101) @ [0x64],
              102 \<mapsto> tcp_bytes (example_segment 999 ACK 0xbeef0101) @ [0x60]],
      m_globalSocketMap = \<lparr>m_bucketCount = 1, hm_size = 1, m_bucketArray = [[((80, 9), [40, 41])]]\<rparr>,
      sockets = [40 \<mapsto> example_listener, 41 \<mapsto> example_sock], netSocks = [50 \<mapsto> example_netsock],
      sockGarbage = example_garbage\<rparr>"

lemma example_resolved: "resolved example_tcp 7 [9, 8, 7, 6, 5, 4]"
  by (simp add: resolved_def example_tcp_def hm_inv_def hm_lookup_def hm_bucket_def bucket_index_def ip_route_def)

lemma example_segment_fields [simp]:
  "get_source_port (example_segment seq f a) = 5000" "get_dest_port (example_segment seq f a) = 80"
  "get_sequence_number (example_segment seq f a) = seq" "get_ack_number (example_segment seq f a) = a"
  "tcp_get_flags (example_segment seq f a) = f" "get_data_offset (example_segment seq f a) = 6"
  by (simp_all add: example_segment_def tcp_get_defs tcp_set_defs be8_set_def be8_get_def byteswap8_def)

lemma example_receiving: "receiving example_tcp example_sock [9, 8, 7, 6, 5, 4] []"
  using example_resolved cb_new_inv [of QUEUE_SIZE "replicate QUEUE_SIZE 0"]
  by (simp add: receiving_def can_receive_def example_sock_def Socket_new_def example_tcp_def example_netsock_def
      QUEUE_SIZE_def)

lemma example_data:
  "data_segment example_tcp example_sock 1000 ((100, 0), 27) [0x61, 0x62, 0x63]"
  "data_segment example_tcp example_sock 1003 ((101, 0), 25) [0x64]"
  "data_segment example_tcp example_sock 999 ((102, 0), 25) [0x60]"
  by (simp_all add: data_segment_def hdr_def read_buf_def example_tcp_def example_sock_def Socket_new_def)

subsection \<open>Properties\<close>

text \<open>
  The segment \<open>Socket::send\<close> puts together carries the socket's ports, the sequence number and the
  flags it was given, and \<open>rcv_nxt\<close> as acknowledgement number if and only if the ACK flag is set; for data that fit
  an IP message and, when of odd size, end in a byte below 128, the checksum over the pseudo header, the
  header and the data is zero, which is what the peer tests.
\<close>

theorem tcp_segment_verifies:
  assumes "length data \<le> 65511" and "even (length data) \<or> unat (last data) < 128"
  shows "case build_segment seq data flags ip s garbage garbage' of (p, h) \<Rightarrow>
    checksum (pseudo_bytes p @ tcp_bytes h @ data) = 0 \<and>
    ph_get_source_ip p = ip \<and> ph_get_dest_ip p = m_remoteIp s \<and>
    tcp_at (tcp_bytes h @ data) = Some h \<and> get_source_port h = m_localPort s \<and> get_dest_port h = m_remotePort s \<and>
    get_sequence_number h = seq \<and> tcp_get_flags h = flags \<and>
    get_ack_number h = (if flags AND ACK \<noteq> 0 then rcv_nxt s else 0)"
proof (cases "build_segment seq data flags ip s garbage garbage'")
  case (Pair p h)
  have "m_sourceIp p = ip \<and> m_destIp p = m_remoteIp s"
    using Pair by (auto simp: build_segment_def Let_def tcp_set_defs)
  with Pair build_segment_checksum [OF assms Pair] build_segment_fields [OF Pair] show ?thesis
    by (simp add: ph_get_source_ip_def ph_get_dest_ip_def)
qed

theorem tcp_segment_verifies_witness:
  "length [0x68, 0x69 :: byte] \<le> 65511 \<and>
   (case build_segment 5 [0x68, 0x69] ACK 9 example_sock garbage_header garbage_pseudo of (p, h) \<Rightarrow>
     checksum (pseudo_bytes p @ tcp_bytes h @ [0x68, 0x69]) = 0 \<and> get_ack_number h = 1000)"
  using tcp_segment_verifies [where data = "[0x68, 0x69]" and seq = 5 and flags = ACK and ip = 9 and
      s = example_sock and garbage = garbage_header and garbage' = garbage_pseudo]
  by (auto simp: example_sock_def split: prod.splits)





text \<open>
  A segment that arrives a second time stalls the connection. Its packet, older than \<open>rcv_nxt\<close>, goes to
  the head of the out-of-order list and is never taken off, so that none of the segments
  that follow, in order or not, is delivered: the queues of the network sockets and \<open>rcv_nxt\<close> stay as they were.
\<close>

theorem tcp_duplicate_stalls:
  assumes "receiving st s mac queued" and "data_segment st s seq (p, len) data" and "seq < rcv_nxt s"
    and "\<forall>g \<in> set segs. \<exists>seq' data'. data_segment st s seq' g data' \<and> seq \<le> seq'"
  shows "\<exists>s' st'. receive_segments src ((p, len) # segs) s st = Some (s', st') \<and>
    netSocks st' = netSocks st \<and> rcv_nxt s' = rcv_nxt s"
proof -
  have c: "can_receive st s mac" "m_outOfOrderList s = []" using assms(1) by (auto simp: receiving_def)
  from socket_receive_stale [OF c(1) assms(2), of seq src] c(2) assms(3) obtain s1 st1 where
    1: "socket_receive src p len s st = Some (s1, st1)" "can_receive st1 s1 mac" "snd_nxt s1 = snd_nxt s"
    "rcv_nxt s1 = rcv_nxt s" "stale seq s1" "netSocks st1 = netSocks st" "bufs st1 = bufs st" by auto
  have "\<forall>g \<in> set segs. \<exists>seq' data'. data_segment st1 s1 seq' g data' \<and> seq \<le> seq'"
    using assms(4) by (simp add: data_segment_cong [OF 1(7,3)])
  from receive_segments_stale [OF 1(2,5) this, of src] 1 show ?thesis by auto
qed

theorem tcp_duplicate_stalls_witness:
  "data_segment example_tcp example_sock 999 ((102, 0), 25) [0x60] \<and> 999 < rcv_nxt example_sock \<and>
   data_segment example_tcp example_sock (rcv_nxt example_sock) ((100, 0), 27) [0x61, 0x62, 0x63] \<and>
   (\<exists>s' st'. receive_segments 7 [((102, 0), 25), ((100, 0), 27)] example_sock example_tcp = Some (s', st') \<and>
      netSocks st' = netSocks example_tcp \<and> rcv_nxt s' = rcv_nxt example_sock)"
proof -
  have r: "rcv_nxt example_sock = 1000" by (simp add: example_sock_def)
  have "\<forall>g \<in> set [((100, 0), 27)]. \<exists>seq' data'. data_segment example_tcp example_sock seq' g data' \<and> 999 \<le> seq'"
    using example_data(1) by (auto intro!: exI [of _ 1000])
  from tcp_duplicate_stalls [OF example_receiving example_data(3) _ this, of 7] example_data show ?thesis
    by (auto simp: r)
qed

text \<open>
  While the first socket of an endpoint is listening, every segment for that endpoint, whatever its
  flags and even if it belongs to a connection that has been accepted, is queued as a connection request of
  the listening socket; no other socket and no network socket changes.
\<close>

theorem listener_takes_all_segments:
  assumes "hm_inv endpoint_bytes (m_globalSocketMap st)"
    and "hm_lookup endpoint_bytes (m_globalSocketMap st) (get_dest_port h, destIp) = Some (a # as)"
    and "sockets st a = Some l" "m_state l = LISTEN" "m_localPort l = get_dest_port h" "m_localIp l = destIp"
    and "hdr st p = Some h" "read_buf st p (unat (ucast len :: u16)) \<noteq> None"
  shows "\<exists>l'. receive_ip destIp sourceIp p len st = Some (st\<lparr>sockets := (sockets st)(a \<mapsto> l')\<rparr>) \<and>
    m_state l' = LISTEN \<and>
    m_connectionQueue l' = m_connectionQueue l @ [((get_source_port h, sourceIp), p)]"
proof -
  from hm_deref_find [OF assms(1), of "(get_dest_port h, destIp)"] assms(2) obtain it where
    it: "hm_find endpoint_bytes (m_globalSocketMap st) (get_dest_port h, destIp) = Some it" "it \<noteq> HEnd"
    "map_option snd (hm_deref (m_globalSocketMap st) it) = Some (a # as)" by auto
  then obtain entry where e: "hm_deref (m_globalSocketMap st) it = Some entry" "snd entry = a # as" by auto
  have b: "hdr (st\<lparr>sockets := f\<rparr>) p = hdr st p" "read_buf (st\<lparr>sockets := f\<rparr>) p n = read_buf st p n" for f n
    by (simp_all add: hdr_def read_buf_def)
  show ?thesis
    using it(1,2) e find_socket_first_listener [OF assms(3-6)] assms(4,7,8)
    by (auto simp: receive_ip_def socket_receive_def receive_on_listen_def b)
qed

theorem listener_takes_all_segments_witness:
  "sockets example_tcp 41 = Some example_sock \<and>
   (\<exists>l'. receive_ip 9 7 (100, 0) 27 example_tcp =
      Some (example_tcp\<lparr>sockets := (sockets example_tcp)(40 \<mapsto> l')\<rparr>) \<and> m_connectionQueue l' = [((5000, 7), (100, 0))])"
proof -
  have h: "hdr example_tcp (100, 0) = Some (example_segment 1000 ACK 0xbeef0101)"
    by (simp add: hdr_def example_tcp_def)
  have m: "hm_inv endpoint_bytes (m_globalSocketMap example_tcp)"
    "hm_lookup endpoint_bytes (m_globalSocketMap example_tcp) (80, 9) = Some [40, 41]"
    by (simp_all add: example_tcp_def hm_inv_def hm_lookup_def hm_bucket_def bucket_index_def)
  have l: "m_connectionQueue example_listener = []" "m_state example_listener = LISTEN"
    "m_localPort example_listener = 80" "m_localIp example_listener = 9"
    by (simp_all add: example_listener_def example_sock_def Socket_new_def)
  have t: "sockets example_tcp 40 = Some example_listener" "sockets example_tcp 41 = Some example_sock"
    "read_buf example_tcp (100, 0) 27 \<noteq> None" by (simp_all add: example_tcp_def read_buf_def)
  show ?thesis
    using listener_takes_all_segments [of example_tcp "example_segment 1000 ACK 0xbeef0101" 9 40 "[41]"
        example_listener "(100, 0)" 27 7] m h l t by auto
qed
end
