(* ===== verification/Net_Server.thy ===== *)
theory Net_Server
  imports Net_TCP_Stream
begin

text \<open>
  The receiving path: \<open>InternetProtocolV4::receive\<close>, \<open>Ethernet::receive\<close>, the queue and the threads of
  \<open>Kernel/Networking/NetworkServer.cpp\<close>, and the network sockets of \<open>Kernel/Networking/NetworkSocket.cpp\<close>
  that tasks use.

  A received frame is the buffer of the \<open>Vector\<close> the driver hands over: \<open>Ethernet::receive\<close> takes it by
  value, so it is freed when the call returns.
\<close>

subsection \<open>Receiving a message\<close>

definition ip_receive :: "data_ptr \<Rightarrow> nat \<Rightarrow> TcpState \<Rightarrow> TcpState option" where
  "ip_receive buf len st =
     (if len < sizeof_MessageHeader then Some st
      else do {
        b \<leftarrow> bufs st (fst buf);
        message \<leftarrow> header_at (drop (snd buf) b);
        if \<not> be32_eq (get_dest_ip message) (ipAddress st) then Some st
        else do {
          let message = (if unat (get_length message) > len then set_length (of_nat len) message else message);
          let b = take (snd buf) b @ header_bytes message @ drop (snd buf + sizeof_MessageHeader) b;
          let st = st\<lparr>bufs := (bufs st)(fst buf \<mapsto> b)\<rparr>;
          if get_protocol message = Protocol_TCP then
            receive_ip (get_dest_ip message) (get_source_ip message)
              (fst buf, snd buf + 4 * unat (get_ihl message))
              (of_int (int (unat (get_length message)) - 4 * int (unat (get_ihl message)))) st
          else Some st
        }
      })"

definition ethernet_receive :: "addr \<Rightarrow> MediaAccessControlAddress \<Rightarrow> TcpState \<Rightarrow> TcpState option" where
  "ethernet_receive data ourMac st = do {
     b \<leftarrow> bufs st data;
     frame \<leftarrow> frame_at b;
     st \<leftarrow> (if mac_get_value (macDest frame) = mac_get_value ourMac then
              if be16_get (ethertype frame) = be16_get EtherType_IPV4 then
                ip_receive (data, sizeof_FrameHeader) (length b - sizeof_FrameHeader) st
              else if be16_get (ethertype frame) = be16_get EtherType_ARP then
                arp_receive (drop sizeof_FrameHeader b) st
              else Some st
            else Some st);
     Some (st\<lparr>bufs := (bufs st)(data := None)\<rparr>)
   }"

subsection \<open>The network threads\<close>

record EthernetServer =
  m_messageQueue :: "addr list"
  threadWaiters :: nat
  threadWakes :: nat
  m_started :: bool

definition receive_from_driver :: "addr \<Rightarrow> EthernetServer \<Rightarrow> EthernetServer" where
  "receive_from_driver data srv =
     srv\<lparr>m_messageQueue := m_messageQueue srv @ [data],
         threadWakes := threadWakes srv + (if threadWaiters srv > 0 then 1 else 0)\<rparr>"

text \<open>
  One pass of the loop of \<open>network_thread\<close> that finds a message: the wait queue item is taken back and
  the first message of the queue is handled. A thread that finds the queue empty blocks.
\<close>

definition network_thread_step ::
  "MediaAccessControlAddress \<Rightarrow> EthernetServer \<times> TcpState \<Rightarrow> (EthernetServer \<times> TcpState) option option"
where
  "network_thread_step mac = (\<lambda>(srv, st).
     case m_messageQueue srv of
       [] \<Rightarrow> Some None
     | message # rest \<Rightarrow>
         (case ethernet_receive message mac st of
            None \<Rightarrow> None
          | Some st \<Rightarrow> Some (Some (srv\<lparr>m_messageQueue := rest\<rparr>, st))))"

fun network_thread_run ::
  "nat \<Rightarrow> MediaAccessControlAddress \<Rightarrow> EthernetServer \<times> TcpState \<Rightarrow> (EthernetServer \<times> TcpState) option"
where
  "network_thread_run 0 mac cfg = Some cfg"
| "network_thread_run (Suc n) mac cfg = do {
     next \<leftarrow> network_thread_step mac cfg;
     case next of None \<Rightarrow> Some cfg | Some cfg \<Rightarrow> network_thread_run n mac cfg
   }"

subsection \<open>Network sockets\<close>

definition ns_open :: "addr \<Rightarrow> nat \<Rightarrow> byte list \<Rightarrow> TcpState \<Rightarrow> TcpState" where
  "ns_open new flags memory st = st\<lparr>netSocks := (netSocks st)(new \<mapsto>
     \<lparr>ns_queue = cb_new QUEUE_SIZE memory, ns_shouldNotBlock = odd flags, ns_connections = 0,
      ns_protocol = Protocol_TCP, m_protocolSock = None, readWaiters = 0, connectWaiters = 0, wakesRead = 0,
      wakesConnect = 0, ns_notified = []\<rparr>)\<rparr>"

definition ns_close :: "addr \<Rightarrow> TcpState \<Rightarrow> TcpState" where
  "ns_close n st = st\<lparr>netSocks := (netSocks st)(n := None)\<rparr>"

definition ns_bind :: "addr \<Rightarrow> addr \<Rightarrow> Endpoint \<Rightarrow> TcpState \<Rightarrow> TcpState option" where
  "ns_bind n new endpoint st = do {
     st \<leftarrow> create_socket new endpoint n st;
     ns \<leftarrow> netSocks st n;
     Some (st\<lparr>netSocks := (netSocks st)(n \<mapsto> ns\<lparr>m_protocolSock := Some new\<rparr>)\<rparr>)
   }"

definition conn_request :: "NetworkSocket \<Rightarrow> NetworkSocket" where
  "conn_request ns = ns\<lparr>ns_connections := ns_connections ns + 1,
     wakesConnect := wakesConnect ns + (if connectWaiters ns > 0 then 1 else 0)\<rparr>"

definition ns_connect :: "addr \<Rightarrow> Endpoint \<Rightarrow> TcpState \<Rightarrow> TcpState option" where
  "ns_connect n endpoint st = do {
     ns \<leftarrow> netSocks st n;
     a \<leftarrow> m_protocolSock ns;
     s \<leftarrow> sockets st a;
     (s, st) \<leftarrow> socket_connect endpoint s st;
     Some (st\<lparr>sockets := (sockets st)(a \<mapsto> s)\<rparr>)
   }"

definition ns_write :: "addr \<Rightarrow> byte list \<Rightarrow> TcpState \<Rightarrow> (nat \<times> TcpState) option" where
  "ns_write n buf st = do {
     ns \<leftarrow> netSocks st n;
     a \<leftarrow> m_protocolSock ns;
     s \<leftarrow> sockets st a;
     (s, st) \<leftarrow> socket_send buf s st;
     Some (length buf, st\<lparr>sockets := (sockets st)(a \<mapsto> s)\<rparr>)
   }"

text \<open>
  \<open>read\<close> with the frames the network threads handle while it is blocked: each entry of \<open>wakes\<close> is what the
  other threads do during one \<open>block\<close>. The item a non-blocking reader put into the wait queue stays there.
\<close>

fun ns_read_wait :: "addr \<Rightarrow> (TcpState \<Rightarrow> TcpState option) list \<Rightarrow> TcpState \<Rightarrow> (bool \<times> TcpState) option" where
  "ns_read_wait n wakes st = do {
     ns \<leftarrow> netSocks st n;
     if \<not> is_queue_empty (ns_queue ns) then Some (True, st)
     else if ns_shouldNotBlock ns then Some (False, st)
     else (case wakes of [] \<Rightarrow> None | w # ws \<Rightarrow> do { st \<leftarrow> w st; ns_read_wait n ws st })
   }"

definition ns_read ::
  "addr \<Rightarrow> nat \<Rightarrow> (TcpState \<Rightarrow> TcpState option) list \<Rightarrow> TcpState \<Rightarrow> (nat \<times> byte list \<times> TcpState) option"
where
  "ns_read n count wakes st = do {
     ns \<leftarrow> netSocks st n;
     let st = st\<lparr>netSocks := (netSocks st)(n \<mapsto> ns\<lparr>readWaiters := readWaiters ns + 1\<rparr>)\<rparr>;
     (ready, st) \<leftarrow> ns_read_wait n wakes st;
     if \<not> ready then Some (0, [], st)
     else do {
       ns \<leftarrow> netSocks st n;
       let (readCount, buf, q) = cb_read QUEUE_SIZE count (ns_queue ns);
       Some (readCount, buf, st\<lparr>netSocks := (netSocks st)(n \<mapsto> ns\<lparr>readWaiters := readWaiters ns - 1, ns_queue := q\<rparr>)\<rparr>)
     }
   }"

definition SOCK_REQUEST_CONN :: u64 where "SOCK_REQUEST_CONN = 4"
definition EVENT_WRITEABLE :: u64 where "EVENT_WRITEABLE = 2"

definition ns_notify_mask :: "NetworkSocket \<Rightarrow> u64" where
  "ns_notify_mask ns =
     (if \<not> is_queue_empty (ns_queue ns) then EVENT_READABLE else 0) OR
     (if ns_connections ns > 0 then SOCK_REQUEST_CONN else 0) OR EVENT_WRITEABLE"

text \<open>
  A blocking \<open>accept\<close> with no connection waits for \<open>conn_request\<close>, which nothing calls: it does not return.
\<close>

definition ns_accept :: "addr \<Rightarrow> addr \<Rightarrow> TcpState \<Rightarrow> TcpState option" where
  "ns_accept n new st = do {
     ns \<leftarrow> netSocks st n;
     if ns_connections ns = 0 \<and> \<not> ns_shouldNotBlock ns then None
     else do {
       a \<leftarrow> m_protocolSock ns;
       s \<leftarrow> sockets st a;
       (_, st) \<leftarrow> accept_conn_request new n s st;
       ns \<leftarrow> netSocks st n;
       Some (st\<lparr>netSocks := (netSocks st)(n \<mapsto> ns\<lparr>ns_connections := ns_connections ns - 1\<rparr>)\<rparr>)
     }
   }"

subsection \<open>From frame to segment\<close>

lemma build_header_gets [simp]:
  "get_ihl (build_header g d p n src) = 5" "get_length (build_header g d p n src) = of_nat n"
  "get_protocol (build_header g d p n src) = p" "get_dest_ip (build_header g d p n src) = d"
  "get_source_ip (build_header g d p n src) = src"
  by (simp_all add: get_defs build_header_version be8_get_def be8_set_def byteswap8_def)

lemma ip_frame_parts:
  assumes "length mac = 6" "length (macAddress A) = 6"
  shows "frame_at (ip_frame A mac d p buf) = Some \<lparr>macDest = mac, macSource = macAddress A, ethertype = EtherType_IPV4\<rparr>"
    "drop 14 (ip_frame A mac d p buf) =
       header_bytes (build_header (heapGarbage A) d p (length buf + 20) (ipAddress A)) @ buf"
    "drop 34 (ip_frame A mac d p buf) = buf" "length (ip_frame A mac d p buf) = 34 + length buf"
  using assms by (simp_all add: ip_frame_def)

lemma ethernet_receive_frame:
  assumes b: "bufs st d = Some (ip_frame A mac (ipAddress st) Protocol_TCP buf)"
    and m: "length mac = 6" "length (macAddress A) = 6" and l: "length buf + 20 < 65536"
  shows "ethernet_receive d mac st = do {
    st' \<leftarrow> receive_ip (ipAddress st) (ipAddress A) (d, 34) (of_nat (length buf)) st;
    Some (st'\<lparr>bufs := (bufs st')(d := None)\<rparr>) }"
proof -
  let ?f = "ip_frame A mac (ipAddress st) Protocol_TCP buf"
  let ?h = "build_header (heapGarbage A) (ipAddress st) Protocol_TCP (length buf + 20) (ipAddress A)"
  note parts = ip_frame_parts [OF m, of "ipAddress st" Protocol_TCP buf]
  have n: "unat (of_nat (length buf + 20) :: u16) = length buf + 20" using l by (rule unat_of_nat_16)
  have whole: "take 14 ?f @ header_bytes ?h @ drop 34 ?f = ?f"
    using m by (simp add: ip_frame_def)
  have i: "(word_of_int (int (length buf + 20) - 20) :: u32) = of_nat (length buf)"
    by simp
  have st: "st\<lparr>bufs := (bufs st)(d \<mapsto> ?f)\<rparr> = st" using b by (simp add: fun_upd_idem)
  have "ip_receive (d, 14) (length ?f - 14) st = receive_ip (ipAddress st) (ipAddress A) (d, 34) (of_nat (length buf)) st"
    using b parts n whole st by (simp add: ip_receive_def sizeof_MessageHeader_def i)
  with b parts(1) show ?thesis by (simp add: ethernet_receive_def sizeof_FrameHeader_def)
qed

text \<open>The socket at \<open>a\<close> is the one that segments from \<open>remote\<close> to \<open>here\<close> are for.\<close>

definition reaches :: "TcpState \<Rightarrow> Endpoint \<Rightarrow> Endpoint \<Rightarrow> addr \<Rightarrow> Socket \<Rightarrow> bool" where
  "reaches st here remote a s \<longleftrightarrow>
     hm_inv endpoint_bytes (m_globalSocketMap st) \<and>
     (\<exists>as. hm_lookup endpoint_bytes (m_globalSocketMap st) here = Some (a # as)) \<and>
     sockets st a = Some s \<and> m_state s \<noteq> LISTEN \<and> m_localPort s = fst here \<and> m_localIp s = snd here \<and>
     m_remotePort s = fst remote \<and> m_remoteIp s = snd remote"

lemma receive_ip_reaches:
  assumes r: "reaches st (get_dest_port h, ip) (get_source_port h, rip) a s" and h: "hdr st p = Some h"
  shows "receive_ip ip rip p len st = do {
    (s', st') \<leftarrow> socket_receive rip p (ucast len) s st;
    Some (st'\<lparr>sockets := (sockets st')(a \<mapsto> s')\<rparr>) }"
proof -
  from r obtain as where l: "hm_lookup endpoint_bytes (m_globalSocketMap st) (get_dest_port h, ip) = Some (a # as)"
    and inv: "hm_inv endpoint_bytes (m_globalSocketMap st)"
    and s: "sockets st a = Some s" "m_state s \<noteq> LISTEN" "m_localPort s = get_dest_port h" "m_localIp s = ip"
      "m_remotePort s = get_source_port h" "m_remoteIp s = rip" by (auto simp: reaches_def)
  from hm_deref_find [OF inv, of "(get_dest_port h, ip)"] l obtain it where
    it: "hm_find endpoint_bytes (m_globalSocketMap st) (get_dest_port h, ip) = Some it" "it \<noteq> HEnd"
    "map_option snd (hm_deref (m_globalSocketMap st) it) = Some (a # as)" by auto
  then obtain entry where e: "hm_deref (m_globalSocketMap st) it = Some entry" "snd entry = a # as" by auto
  have st: "st\<lparr>sockets := (sockets st)(a \<mapsto> s)\<rparr> = st" using s(1) by (simp add: fun_upd_idem)
  show ?thesis using it(1,2) e h s st by (simp add: receive_ip_def)
qed

lemma out_of_order_kept:
  assumes c: "can_receive st s mac" and d: "data_segment st s seq (p, len) data" and e: "m_outOfOrderList s = []"
    and late: "seq \<noteq> rcv_nxt s"
  shows "\<exists>s' f off. socket_receive src p len s st = Some (s', st\<lparr>driverSent := driverSent st @ [f]\<rparr>) \<and>
    can_receive st s' mac \<and> same_end s s' \<and> rcv_nxt s' = rcv_nxt s \<and>
    m_outOfOrderList s' = [\<lparr>sequenceNumber = seq, pk_length = of_nat (length data), pk_data = (fst p, off)\<rparr>]"
proof -
  from socket_receive_segment [OF c d, of src] obtain s1 ptr where
    s1: "can_receive st s1 mac" "same_end s s1" "rcv_nxt s1 = rcv_nxt s" "m_outOfOrderList s1 = []" "fst ptr = fst p"
    "socket_receive src p len s st = do {
      (s2, st2) \<leftarrow> process_received
        (add_to_received \<lparr>sequenceNumber = seq, pk_length = of_nat (length data), pk_data = ptr\<rparr> s1) st;
      tcp_send (snd_nxt s2) [] ACK s2 st2 }" using e by auto
  let ?pk = "\<lparr>sequenceNumber = seq, pk_length = of_nat (length data), pk_data = ptr\<rparr>"
  let ?s2 = "s1\<lparr>m_outOfOrderList := [?pk]\<rparr>"
  have "process_received (add_to_received ?pk s1) st = Some (?s2, st)"
    using late s1(3,4) by (simp add: add_to_received_def process_received_def seq_insert_def)
  with s1 send_ack_resolved [of st ?s2 mac] have "socket_receive src p len s st =
      Some (?s2, st\<lparr>driverSent := driverSent st @ [segment_frame st mac ?s2 (snd_nxt s1) [] ACK]\<rparr>)"
    by (simp add: can_receive_def)
  moreover have "can_receive st ?s2 mac" "same_end s ?s2" using s1 by (simp_all add: can_receive_def same_end_def)
  moreover have "ptr = (fst p, snd ptr)" using s1(5) by (simp add: prod_eq_iff)
  ultimately show ?thesis using s1(3)
    by (intro exI [of _ ?s2] exI [of _ "segment_frame st mac ?s2 (snd_nxt s1) [] ACK"] exI [of _ "snd ptr"]) simp
qed

lemma ns_receive_freed: "bufs st (fst p) = None \<Longrightarrow> ns_receive n p len st = None"
  by (simp add: ns_receive_def read_buf_def split: Option.bind_splits)

lemma due_packet_freed:
  assumes c: "can_receive st s mac" and d: "data_segment st s (rcv_nxt s) (p, len) data"
    and q: "m_outOfOrderList s = [q]" "sequenceNumber q = rcv_nxt s + of_nat (length data)"
      "rcv_nxt s < sequenceNumber q" "bufs st (fst (pk_data q)) = None"
  shows "socket_receive src p len s st = None"
proof -
  from socket_receive_segment [OF c d, of src] obtain s1 ptr where
    s1: "rcv_nxt s1 = rcv_nxt s" "m_outOfOrderList s1 = [q]"
    "socket_receive src p len s st = do {
      (s2, st2) \<leftarrow> process_received
        (add_to_received \<lparr>sequenceNumber = rcv_nxt s, pk_length = of_nat (length data), pk_data = ptr\<rparr> s1) st;
      tcp_send (snd_nxt s2) [] ACK s2 st2 }" using q(1) by auto
  let ?pk = "\<lparr>sequenceNumber = rcv_nxt s, pk_length = of_nat (length data), pk_data = ptr\<rparr>"
  have l: "add_to_received ?pk s1 = s1\<lparr>m_outOfOrderList := [?pk, q]\<rparr>"
    using q(3) s1(2) by (simp add: add_to_received_def seq_insert_def)
  have k: "bufs st' = bufs st" if "ns_receive n p' len' st = Some st'" for n p' len' st'
    using that by (auto simp: ns_receive_def split: Option.bind_splits prod.splits)
  have "process_received (add_to_received ?pk s1) st = None"
    using q(2,4) s1(1) k by (auto simp: process_received_def l ns_receive_freed split: Option.bind_splits)
  with s1(3) show ?thesis by simp
qed

subsection \<open>Two frames of a connection\<close>

text \<open>A frame from \<open>A\<close> to this host that carries \<open>data\<close> of the connection from sequence number \<open>seq\<close> on.\<close>

definition connection_frame ::
  "TcpState \<Rightarrow> TcpState \<Rightarrow> MediaAccessControlAddress \<Rightarrow> Socket \<Rightarrow> u32 \<Rightarrow> byte list \<Rightarrow> byte list \<Rightarrow> bool"
where
  "connection_frame st A ourMac s seq data f \<longleftrightarrow>
     (\<exists>h. f = ip_frame A ourMac (ipAddress st) Protocol_TCP (tcp_bytes h @ data) \<and>
        get_dest_port h = m_localPort s \<and> get_source_port h = m_remotePort s \<and> get_data_offset h = 6 \<and>
        tcp_get_flags h = ACK \<and> get_sequence_number h = seq \<and> get_ack_number h = snd_nxt s) \<and>
     data \<noteq> [] \<and> length data < 1500 \<and> length ourMac = 6 \<and> length (macAddress A) = 6"

lemma connection_frame_segment:
  assumes f: "connection_frame st A ourMac s seq data f" and b: "bufs st d = Some f"
  shows "\<exists>h len. ethernet_receive d ourMac st = do {
      st' \<leftarrow> receive_ip (ipAddress st) (ipAddress A) (d, 34) len st;
      Some (st'\<lparr>bufs := (bufs st')(d := None)\<rparr>) } \<and>
    hdr st (d, 34) = Some h \<and> get_dest_port h = m_localPort s \<and> get_source_port h = m_remotePort s \<and>
    data_segment st s seq ((d, 34), ucast len) data"
proof -
  from f obtain h where h: "f = ip_frame A ourMac (ipAddress st) Protocol_TCP (tcp_bytes h @ data)"
    "get_dest_port h = m_localPort s" "get_source_port h = m_remotePort s" "get_data_offset h = 6"
    "tcp_get_flags h = ACK" "get_sequence_number h = seq" "get_ack_number h = snd_nxt s"
    and m: "data \<noteq> []" "length data < 1500" "length ourMac = 6" "length (macAddress A) = 6"
    by (auto simp: connection_frame_def)
  note parts = ip_frame_parts [OF m(3,4), of "ipAddress st" Protocol_TCP "tcp_bytes h @ data"]
  define len where "len = (of_nat (length (tcp_bytes h @ data)) :: u32)"
  have e: "ethernet_receive d ourMac st = do {
      st' \<leftarrow> receive_ip (ipAddress st) (ipAddress A) (d, 34) len st;
      Some (st'\<lparr>bufs := (bufs st')(d := None)\<rparr>) }"
    unfolding len_def by (rule ethernet_receive_frame) (use b h(1) m in auto)
  have hd: "hdr st (d, 34) = Some h" using b h(1) parts(3) by (simp add: hdr_def)
  have "unat len = 24 + length data"
    unfolding len_def using m(2) unat_word32_of_nat [of "24 + length data"] by simp
  then have n: "unat (ucast len :: u16) = 24 + length data"
    using m(2) by (simp only: unsigned_ucast_eq) (simp add: take_bit_eq_mod)
  have "drop 58 f = data" using parts(3) h(1) drop_drop [of 24 34 f] by simp
  then have "data_segment st s seq ((d, 34), ucast len) data"
    unfolding data_segment_def using hd h b parts(4) m(1) n by (simp add: read_buf_def)
  with e hd h show ?thesis by blast
qed

lemma length_BROADCAST_MAC [simp]: "length BROADCAST_MAC = 6"
  by (simp add: BROADCAST_MAC_def mac_set_value_def)

definition example_server :: TcpState where
  "example_server = example_tcp
     \<lparr>m_globalSocketMap := \<lparr>m_bucketCount = 1, hm_size = 1, m_bucketArray = [[((80, 9), [41])]]\<rparr>\<rparr>"

definition example_peer :: TcpState where
  "example_peer = example_tcp\<lparr>ipAddress := 7, macAddress := [9, 8, 7, 6, 5, 4]\<rparr>"

definition example_frame :: "u32 \<Rightarrow> byte list \<Rightarrow> byte list" where
  "example_frame seq data =
     ip_frame example_peer [1, 2, 3, 4, 5, 6] 9 Protocol_TCP (tcp_bytes (example_segment seq ACK 0xbeef0101) @ data)"

definition example_frames :: TcpState where
  "example_frames = example_server
     \<lparr>bufs := [200 \<mapsto> example_frame 1003 [0x64], 201 \<mapsto> example_frame 1000 [0x61, 0x62, 0x63]]\<rparr>"

lemma example_connection_frame:
  "data \<noteq> [] \<Longrightarrow> length data < 1500 \<Longrightarrow>
   connection_frame example_frames example_peer [1, 2, 3, 4, 5, 6] example_sock seq data (example_frame seq data)"
  by (auto simp: connection_frame_def example_frame_def example_frames_def example_server_def example_tcp_def
      example_sock_def Socket_new_def example_peer_def intro!: exI [of _ "example_segment seq ACK 0xbeef0101"])

lemma example_reaches: "reaches example_frames (80, 9) (5000, 7) 41 example_sock"
  by (simp add: reaches_def example_frames_def example_server_def example_tcp_def example_sock_def hm_inv_def
      hm_lookup_def hm_bucket_def bucket_index_def)

subsection \<open>Properties\<close>

text \<open>
  C27: What one host sends the other receives: a frame in which \<open>InternetProtocolV4::send\<close> of host \<open>A\<close> put a
  TCP segment \<open>buf\<close> for the address of this host, received under the hardware address it was sent to, leads to
  exactly one call of \<open>Socket::receive_ip\<close>, with the two addresses and with the segment where it lies in
  the frame, and the frame is freed afterwards.
\<close>

theorem frame_delivers_segment:
  assumes "bufs st d = Some (ip_frame A mac (ipAddress st) Protocol_TCP buf)"
    and "length mac = 6" "length (macAddress A) = 6" "length buf + 20 < 65536"
  shows "drop 34 (ip_frame A mac (ipAddress st) Protocol_TCP buf) = buf \<and>
    ethernet_receive d mac st = do {
      st' \<leftarrow> receive_ip (ipAddress st) (ipAddress A) (d, 34) (of_nat (length buf)) st;
      Some (st'\<lparr>bufs := (bufs st')(d := None)\<rparr>) }"
  using ethernet_receive_frame [OF assms] ip_frame_parts(3) [OF assms(2,3)] by simp

theorem frame_delivers_segment_witness:
  "\<exists>buf. bufs example_frames 200 = Some (ip_frame example_peer [1, 2, 3, 4, 5, 6] (ipAddress example_frames) Protocol_TCP buf) \<and>
    length buf + 20 < 65536 \<and>
    ethernet_receive 200 [1, 2, 3, 4, 5, 6] example_frames = do {
      st' \<leftarrow> receive_ip (ipAddress example_frames) (ipAddress example_peer) (200, 34) (of_nat (length buf)) example_frames;
      Some (st'\<lparr>bufs := (bufs st')(200 := None)\<rparr>) }"
proof -
  let ?buf = "tcp_bytes (example_segment 1003 ACK 0xbeef0101) @ [0x64]"
  have b: "bufs example_frames 200 = Some (ip_frame example_peer [1, 2, 3, 4, 5, 6] (ipAddress example_frames) Protocol_TCP ?buf)"
    by (simp add: example_frames_def example_frame_def example_server_def example_tcp_def)
  have l: "length (macAddress example_peer) = 6" by (simp add: example_peer_def)
  show ?thesis using frame_delivers_segment [OF b _ l] b by (intro exI [of _ ?buf]) simp
qed

text \<open>
  No host answers an address request. The frame \<open>send_request\<close> broadcasts is dropped by every host whose
  own hardware address is not the broadcast address, whatever address the request asks for: its state
  does not change but for the frame that is freed, so no reply is ever sent.
\<close>

theorem arp_request_not_heard:
  assumes "bufs st d = Some (request_frame A ip)" and "length (macAddress A) = 6"
    and "mac_get_value ourMac \<noteq> mac_get_value BROADCAST_MAC"
  shows "ethernet_receive d ourMac st = Some (st\<lparr>bufs := (bufs st)(d := None)\<rparr>)"
  using assms by (simp add: ethernet_receive_def request_frame_def)

theorem arp_request_not_heard_witness:
  "ethernet_receive 5 [1, 2, 3, 4, 5, 6] (example_tcp\<lparr>bufs := [5 \<mapsto> request_frame example_peer (ipAddress example_tcp)]\<rparr>) =
     Some (example_tcp\<lparr>bufs := Map.empty\<rparr>)"
proof -
  have "mac_get_value [1, 2, 3, 4, 5, 6] \<noteq> mac_get_value BROADCAST_MAC"
    by (simp add: mac_get_value_def BROADCAST_MAC_def mac_set_value_def)
  with arp_request_not_heard [of "example_tcp\<lparr>bufs := [5 \<mapsto> request_frame example_peer (ipAddress example_tcp)]\<rparr>" 5
      example_peer "ipAddress example_tcp" "[1, 2, 3, 4, 5, 6]"] show ?thesis by (simp add: example_peer_def)
qed

text \<open>
  Two frames of a connection that arrive in the wrong order end in an access to freed memory. The packet
  of the frame that comes first, with the later sequence number, is kept with a pointer into that frame,
  which is freed when its handling returns; when the frame with the expected sequence number arrives, the kept packet
  is due and its data are read.
\<close>

theorem reordered_frames_fault:
  assumes r: "reaches st (m_localPort s, ipAddress st) (m_remotePort s, ipAddress A) a s"
    and c: "can_receive st s mac" "m_outOfOrderList s = []"
    and f1: "bufs st d1 = Some f1" "connection_frame st A ourMac s (rcv_nxt s + of_nat (length data2)) data1 f1"
    and f2: "bufs st d2 = Some f2" "connection_frame st A ourMac s (rcv_nxt s) data2 f2"
    and n: "d1 \<noteq> d2" "rcv_nxt s < rcv_nxt s + of_nat (length data2)"
  shows "do { st \<leftarrow> ethernet_receive d1 ourMac st; ethernet_receive d2 ourMac st } = None"
proof -
  let ?seq = "rcv_nxt s + of_nat (length data2)"
  from connection_frame_segment [OF f1(2,1)] obtain h1 len1 where
    1: "ethernet_receive d1 ourMac st = do {
      st' \<leftarrow> receive_ip (ipAddress st) (ipAddress A) (d1, 34) len1 st; Some (st'\<lparr>bufs := (bufs st')(d1 := None)\<rparr>) }"
    "hdr st (d1, 34) = Some h1" "get_dest_port h1 = m_localPort s" "get_source_port h1 = m_remotePort s"
    "data_segment st s ?seq ((d1, 34), ucast len1) data1" by blast
  have "?seq \<noteq> rcv_nxt s" using n(2) by auto
  from out_of_order_kept [OF c(1) 1(5) c(2) this, of "ipAddress A"] obtain s' f off where
    s': "socket_receive (ipAddress A) (d1, 34) (ucast len1) s st = Some (s', st\<lparr>driverSent := driverSent st @ [f]\<rparr>)"
    "can_receive st s' mac" "same_end s s'" "rcv_nxt s' = rcv_nxt s"
    "m_outOfOrderList s' = [\<lparr>sequenceNumber = ?seq, pk_length = of_nat (length data1), pk_data = (d1, off)\<rparr>]" by auto
  let ?st = "st\<lparr>driverSent := driverSent st @ [f], sockets := (sockets st)(a \<mapsto> s'), bufs := (bufs st)(d1 := None)\<rparr>"
  have "receive_ip (ipAddress st) (ipAddress A) (d1, 34) len1 st =
      Some (st\<lparr>driverSent := driverSent st @ [f], sockets := (sockets st)(a \<mapsto> s')\<rparr>)"
    using receive_ip_reaches [of st h1 "ipAddress st" "ipAddress A" a s "(d1, 34)" len1] r 1(2-4) s'(1) by simp
  then have e1: "ethernet_receive d1 ourMac st = Some ?st" using 1(1) by simp
  have "connection_frame ?st A ourMac s' (rcv_nxt s) data2 f2"
    using f2(2) s'(3) by (simp add: connection_frame_def same_end_def)
  from connection_frame_segment [OF this, of d2] f2(1) n(1) obtain h2 len2 where
    2: "ethernet_receive d2 ourMac ?st = do {
      st' \<leftarrow> receive_ip (ipAddress st) (ipAddress A) (d2, 34) len2 ?st; Some (st'\<lparr>bufs := (bufs st')(d2 := None)\<rparr>) }"
    "hdr ?st (d2, 34) = Some h2" "get_dest_port h2 = m_localPort s'" "get_source_port h2 = m_remotePort s'"
    "data_segment ?st s' (rcv_nxt s') ((d2, 34), ucast len2) data2" using s'(4) by auto
  have c': "can_receive ?st s' mac" using s'(2) by (auto simp: can_receive_def resolved_def ip_route_def split: if_splits)
  have "socket_receive (ipAddress A) (d2, 34) (ucast len2) s' ?st = None"
    by (rule due_packet_freed [OF c' 2(5) s'(5)]) (use n(2) s'(4) in simp_all)
  moreover have "reaches ?st (get_dest_port h2, ipAddress st) (get_source_port h2, ipAddress A) a s'"
    using r s'(2,3) 2(3,4) by (auto simp: reaches_def same_end_def can_receive_def)
  ultimately have "receive_ip (ipAddress st) (ipAddress A) (d2, 34) len2 ?st = None"
    using receive_ip_reaches [OF _ 2(2), of "ipAddress st" "ipAddress A" a s' len2] by simp
  with e1 2(1) show ?thesis by simp
qed

theorem reordered_frames_fault_witness:
  "do { st \<leftarrow> ethernet_receive 200 [1, 2, 3, 4, 5, 6] example_frames; ethernet_receive 201 [1, 2, 3, 4, 5, 6] st } = None"
proof -
  have f: "ipAddress example_frames = 9" "ipAddress example_peer = 7"
    "bufs example_frames 200 = Some (example_frame 1003 [0x64])"
    "bufs example_frames 201 = Some (example_frame 1000 [0x61, 0x62, 0x63])"
    by (simp_all add: example_frames_def example_server_def example_tcp_def example_peer_def)
  have s: "rcv_nxt example_sock = 1000" "m_localPort example_sock = 80" "m_remotePort example_sock = 5000"
    "m_outOfOrderList example_sock = []" "m_remoteIp example_sock = 7" by (simp_all add: example_sock_def Socket_new_def)
  have c: "can_receive example_frames example_sock [9, 8, 7, 6, 5, 4]"
    using example_receiving
    by (auto simp: receiving_def can_receive_def example_frames_def example_server_def resolved_def ip_route_def
        split: if_splits)
  show ?thesis
    using reordered_frames_fault [of example_frames example_sock example_peer 41 "[9, 8, 7, 6, 5, 4]" 200 _
        "[1, 2, 3, 4, 5, 6]" "[0x61, 0x62, 0x63]" "[0x64]" 201]
      example_reaches c f s example_connection_frame [of "[0x64]" 1003]
      example_connection_frame [of "[0x61, 0x62, 0x63]" 1000] by simp
qed
end
