(* ===== verification/Memory_Routines.thy ===== *)
theory Memory_Routines
  imports Xp_Prelude
begin

text \<open>
  The memory and string routines of \<open>Kernel/Memory/Memory.h\<close> and \<open>Kernel/Common/String.cpp\<close> on byte
  addressed memory. Addresses and sizes are natural numbers; the ranges lie below the top of the
  address space, so pointers do not wrap. A loop over a string that has no terminator is not bounded, and
  \<^const>\<open>None\<close> is a loop that does not end.
\<close>

type_synonym memory = "addr \<Rightarrow> u8"

subsection \<open>Filling and copying\<close>

fun default_memset :: "memory \<Rightarrow> addr \<Rightarrow> u64 \<Rightarrow> nat \<Rightarrow> memory" where
  "default_memset mem p c 0 = mem"
| "default_memset mem p c (Suc sz) = default_memset (mem(p := ucast c)) (p + 1) c sz"

definition store64 :: "memory \<Rightarrow> addr \<Rightarrow> u64 \<Rightarrow> memory" where
  "store64 mem p w = (\<lambda>a. if p \<le> a \<and> a < p + 8 then ucast (drop_bit (8 * (a - p)) w) else mem a)"

fun store_words :: "memory \<Rightarrow> addr \<Rightarrow> u64 \<Rightarrow> nat \<Rightarrow> memory" where
  "store_words mem p c 0 = mem"
| "store_words mem p c (Suc sz) = store_words (store64 mem p c) (p + 8) c sz"

definition fast_aligned_wordwise_64_memset :: "memory \<Rightarrow> addr \<Rightarrow> u64 \<Rightarrow> nat \<Rightarrow> memory" where
  "fast_aligned_wordwise_64_memset mem p c sz =
     (let c = c AND 0xff;
          c = c OR push_bit 8 c;
          c = c OR push_bit 16 c;
          c = c OR push_bit 32 c
      in store_words mem p c (sz div 8))"

fun memset_head :: "memory \<Rightarrow> addr \<Rightarrow> u8 \<Rightarrow> nat \<Rightarrow> memory \<times> addr \<times> nat" where
  "memset_head mem bp cp 0 = (mem, bp, if bp mod 8 \<noteq> 0 then 2 ^ 64 - 1 else 0)"
| "memset_head mem bp cp (Suc sz) =
     (if bp mod 8 \<noteq> 0 then memset_head (mem(bp := cp)) (bp + 1) cp sz else (mem, bp, Suc sz))"

definition fast_unaligned_wordwise_64_memset :: "memory \<Rightarrow> addr \<Rightarrow> u64 \<Rightarrow> nat \<Rightarrow> memory" where
  "fast_unaligned_wordwise_64_memset mem p c sz =
     (let cp = ucast (c AND 0xff);
          (mem, bp, sz) = memset_head mem p cp sz;
          t = sz mod 8;
          c = c OR push_bit 8 c;
          c = c OR push_bit 16 c;
          c = c OR push_bit 32 c;
          mem = store_words mem bp c (sz div 8)
      in default_memset mem (bp + 8 * (sz div 8)) (ucast cp) t)"

definition memset :: "memory \<Rightarrow> addr \<Rightarrow> u64 \<Rightarrow> nat \<Rightarrow> memory" where
  "memset mem p c sz =
     (if sz < 16 then default_memset mem p c sz
      else if p mod 8 \<noteq> 0 then fast_unaligned_wordwise_64_memset mem p c sz
      else fast_aligned_wordwise_64_memset mem p c sz)"

fun slow_memcpy :: "memory \<Rightarrow> addr \<Rightarrow> addr \<Rightarrow> nat \<Rightarrow> memory" where
  "slow_memcpy mem dst src 0 = mem"
| "slow_memcpy mem dst src (Suc sz) = slow_memcpy (mem(dst := mem src)) (dst + 1) (src + 1) sz"

definition memcpy :: "memory \<Rightarrow> addr \<Rightarrow> addr \<Rightarrow> nat \<Rightarrow> memory" where
  "memcpy mem dst src sz = slow_memcpy mem dst src sz"

subsection \<open>Strings\<close>

partial_function (option) strcpy_loop :: "memory \<Rightarrow> addr \<Rightarrow> addr \<Rightarrow> memory option" where
  "strcpy_loop mem dptr str =
     (let mem' = mem(dptr := mem str)
      in if mem str \<noteq> 0 then strcpy_loop mem' (dptr + 1) (str + 1) else Some mem')"

definition strcpy :: "memory \<Rightarrow> addr \<Rightarrow> addr \<Rightarrow> memory option" where
  "strcpy mem dst str = strcpy_loop mem dst str"

lemma unat_pred_less: "(w :: u64) \<noteq> 0 \<Longrightarrow> unat (w - 1) < unat w"
  by (simp add: unat_minus_one unat_gt_0)

function strncpy_copy :: "memory \<Rightarrow> addr \<Rightarrow> addr \<Rightarrow> u64 \<Rightarrow> memory \<times> u64" where
  "strncpy_copy mem dptr str num =
     (let mem' = mem(dptr := mem str)
      in if mem str = 0 then (mem', num)
         else let num = num - 1
              in if num = 0 then (mem', num) else strncpy_copy mem' (dptr + 1) (str + 1) num)"
  by auto
termination
proof (relation "measure (\<lambda>(_, _, _, num). unat (num - 1))", goal_cases)
  case (2 mem dptr str num mem' num')
  then show ?case using unat_pred_less [of num'] by (simp only: in_measure prod.case) simp
qed simp

declare strncpy_copy.simps [simp del]

fun strncpy_pad :: "memory \<Rightarrow> addr \<Rightarrow> nat \<Rightarrow> memory" where
  "strncpy_pad mem dst 0 = mem"
| "strncpy_pad mem dst (Suc num) = strncpy_pad (mem(dst := 0)) (dst + 1) num"

definition strncpy :: "memory \<Rightarrow> addr \<Rightarrow> addr \<Rightarrow> u64 \<Rightarrow> addr \<times> memory" where
  "strncpy mem dst str num =
     (let (mem, num) = strncpy_copy mem dst str num in (dst + unat num, strncpy_pad mem dst (unat num)))"

partial_function (option) strcmp :: "memory \<Rightarrow> addr \<Rightarrow> addr \<Rightarrow> int option" where
  "strcmp mem s1 s2 =
     (if mem s1 \<noteq> 0 \<and> mem s1 = mem s2 then strcmp mem (s1 + 1) (s2 + 1)
      else Some (int (unat (mem s1)) - int (unat (mem s2))))"

fun strncmp :: "memory \<Rightarrow> addr \<Rightarrow> addr \<Rightarrow> nat \<Rightarrow> int" where
  "strncmp mem s1 s2 0 = 0"
| "strncmp mem s1 s2 (Suc num) =
     (if mem s1 \<noteq> 0 \<and> mem s1 = mem s2 then strncmp mem (s1 + 1) (s2 + 1) num
      else int (unat (mem s1)) - int (unat (mem s2)))"

subsection \<open>What filling does\<close>

definition set_range :: "memory \<Rightarrow> addr \<Rightarrow> u8 \<Rightarrow> nat \<Rightarrow> memory" where
  "set_range mem p b n = (\<lambda>a. if p \<le> a \<and> a < p + n then b else mem a)"

lemma set_range_0 [simp]: "set_range mem p b 0 = mem"
  by (rule ext) (auto simp: set_range_def)

lemma set_range_append: "set_range (set_range mem p b m) (p + m) b n = set_range mem p b (m + n)"
  by (rule ext) (auto simp: set_range_def)

lemma set_range_Suc: "set_range (mem(p := b)) (Suc p) b n = set_range mem p b (Suc n)"
  by (rule ext) (auto simp: set_range_def)

lemma default_memset_spec: "default_memset mem p c sz = set_range mem p (ucast c) sz"
  by (induction sz arbitrary: mem p) (simp_all add: set_range_Suc)

lemma store_words_spec:
  "(\<And>k. k < 8 \<Longrightarrow> ucast (drop_bit (8 * k) c) = b) \<Longrightarrow> store_words mem p c n = set_range mem p b (8 * n)"
proof (induction n arbitrary: mem p)
  case (Suc n)
  have "store64 mem p c = set_range mem p b 8"
    by (rule ext) (use Suc.prems in \<open>auto simp: store64_def set_range_def\<close>)
  with Suc show ?case using set_range_append [of mem p b 8 "8 * n"] by simp
qed simp

text \<open>Doubling steps that spread a byte over a word.\<close>

lemma spread_step:
  fixes x c :: u64
  assumes "\<And>n. bit x n \<longleftrightarrow> n < m \<and> bit c (n mod 8)" and "8 dvd m" "2 * m \<le> 64"
  shows "bit (x OR push_bit m x) n \<longleftrightarrow> n < 2 * m \<and> bit c (n mod 8)"
proof -
  obtain q where q: "m = 8 * q" using assms(2) by (elim dvdE)
  have "(n - m) mod 8 = n mod 8" if "m \<le> n"
  proof -
    have "n = n - m + 8 * q" using that q by simp
    then have "n mod 8 = (n - m + 8 * q) mod 8" by (rule arg_cong)
    then show ?thesis by (simp only: mod_mult_self2)
  qed
  moreover have "bit (x OR push_bit m x) n \<longleftrightarrow> bit x n \<or> m \<le> n \<and> n < 64 \<and> bit x (n - m)"
    by (auto simp: bit_or_iff bit_push_bit_iff)
  moreover have "n - m < m \<longleftrightarrow> n < 2 * m" if "m \<le> n" using that by linarith
  ultimately show ?thesis using assms(3) by (cases "m \<le> n") (simp_all add: assms(1), auto)
qed

lemma spread_byte:
  fixes c :: u64
  assumes c: "unat c < 256" and k: "k < 8"
  shows "ucast (drop_bit (8 * k) (let c = c OR push_bit 8 c; c = c OR push_bit 16 c in c OR push_bit 32 c)) = (ucast c :: u8)"
proof -
  have b0: "bit c n \<longleftrightarrow> n < 8 \<and> bit c (n mod 8)" for n
  proof -
    have "take_bit 8 c = c" using c by (simp add: take_bit_eq_mod word_unat_eq_iff unat_mod)
    then have "bit c n \<Longrightarrow> n < 8" by (metis bit_take_bit_iff)
    then show ?thesis by auto
  qed
  define c1 where "c1 = c OR push_bit 8 c"
  define c2 where "c2 = c1 OR push_bit 16 c1"
  have b1: "bit c1 n \<longleftrightarrow> n < 16 \<and> bit c (n mod 8)" for n unfolding c1_def using spread_step [OF b0, of n] by simp
  have b2: "bit c2 n \<longleftrightarrow> n < 32 \<and> bit c (n mod 8)" for n unfolding c2_def using spread_step [OF b1, of n] by simp
  define c3 where "c3 = c2 OR push_bit 32 c2"
  have b3: "bit c3 n \<longleftrightarrow> n < 64 \<and> bit c (n mod 8)" for n unfolding c3_def using spread_step [OF b2, of n] by simp
  have "ucast (drop_bit (8 * k) c3) = (ucast c :: u8)"
    by (rule bit_word_eqI) (use k in \<open>auto simp: bit_ucast_iff bit_drop_bit_eq b3\<close>)
  then show ?thesis by (simp add: Let_def c1_def c2_def c3_def)
qed

lemma memset_head_steps:
  "(p + k) mod 8 = 0 \<Longrightarrow> (\<And>j. j < k \<Longrightarrow> (p + j) mod 8 \<noteq> 0) \<Longrightarrow> k \<le> sz \<Longrightarrow>
   memset_head mem p b sz = (set_range mem p b k, p + k, sz - k)"
proof (induction k arbitrary: mem p sz)
  case 0
  then show ?case by (cases sz) simp_all
next
  case (Suc k)
  obtain n where n: "sz = Suc n" using Suc.prems(3) by (cases sz) auto
  have "p mod 8 \<noteq> 0" using Suc.prems(2) [of 0] by simp
  moreover have "memset_head (mem(p := b)) (p + 1) b n = (set_range (mem(p := b)) (p + 1) b k, p + 1 + k, n - k)"
    using Suc.prems(1,3) Suc.prems(2) [of "Suc _"] n by (intro Suc.IH) auto
  ultimately show ?case by (simp add: n set_range_Suc)
qed

lemma memset_head_spec:
  assumes "8 \<le> sz"
  shows "\<exists>k \<le> sz. memset_head mem p b sz = (set_range mem p b k, p + k, sz - k)"
proof -
  define k where "k = (8 - p mod 8) mod 8"
  have r: "(p + j) mod 8 = (p mod 8 + j) mod 8" for j by (simp add: mod_simps)
  have m: "p mod 8 < 8" by simp
  have k: "(p + k) mod 8 = 0" "k < 8" unfolding r k_def using m by (cases "p mod 8 = 0"; simp)+
  have "(p + j) mod 8 \<noteq> 0" if "j < k" for j
  proof -
    have "p mod 8 + j < 8" "0 < p mod 8" using that m unfolding k_def by (cases "p mod 8 = 0"; simp)+
    then show ?thesis unfolding r by simp
  qed
  with memset_head_steps [OF k(1)] k(2) assms show ?thesis by (intro exI [of _ k]) auto
qed

lemma memset_fills:
  assumes c: "unat c < 256"
  shows "memset mem p c sz = set_range mem p (ucast c) (if 16 \<le> sz \<and> p mod 8 = 0 then 8 * (sz div 8) else sz)"
proof -
  have m: "c AND 0xff = c"
  proof -
    have "(0xff :: u64) = mask 8" by (simp add: mask_eq_exp_minus_1)
    moreover have "take_bit 8 c = c" using c by (simp add: take_bit_eq_mod word_unat_eq_iff unat_mod)
    ultimately show ?thesis by (simp only: take_bit_eq_mask)
  qed
  let ?w = "let c = c OR push_bit 8 c; c = c OR push_bit 16 c in c OR push_bit 32 c"
  have w: "store_words mem p ?w n = set_range mem p (ucast c) (8 * n)" for mem p n
    by (rule store_words_spec) (rule spread_byte [OF c])
  consider "sz < 16" | "16 \<le> sz" "p mod 8 = 0" | "16 \<le> sz" "p mod 8 \<noteq> 0" by linarith
  then show ?thesis
  proof cases
    case 1
    then show ?thesis by (simp add: memset_def default_memset_spec)
  next
    case 2
    then show ?thesis using w [of mem p "sz div 8"]
      by (simp add: memset_def fast_aligned_wordwise_64_memset_def m Let_def)
  next
    case 3
    then obtain k where k: "k \<le> sz" "memset_head mem p (ucast c) sz = (set_range mem p (ucast c) k, p + k, sz - k)"
      using memset_head_spec [of sz mem p "ucast c"] by auto
    have u: "(ucast (ucast c :: u8) :: u64) = c"
      using c by (simp add: word_unat_eq_iff unsigned_ucast_eq take_bit_eq_mod unat_mod)
    have t: "8 * ((sz - k) div 8) + (sz - k) mod 8 = sz - k" by simp
    have "memset mem p c sz = default_memset (store_words (set_range mem p (ucast c) k) (p + k) ?w ((sz - k) div 8))
        (p + k + 8 * ((sz - k) div 8)) c ((sz - k) mod 8)"
      using 3 by (simp add: memset_def fast_unaligned_wordwise_64_memset_def m k u Let_def)
    also have "\<dots> = set_range mem p (ucast c) (k + 8 * ((sz - k) div 8) + (sz - k) mod 8)"
      unfolding w default_memset_spec
      using set_range_append [of mem p "ucast c" k] set_range_append [of mem p "ucast c" "k + 8 * ((sz - k) div 8)"]
      by (simp add: add.assoc)
    finally show ?thesis using 3 k(1) t by (simp add: add.assoc)
  qed
qed

subsection \<open>What copying and comparing do\<close>

text \<open>The characters of a terminated string in memory.\<close>

fun cstring :: "memory \<Rightarrow> addr \<Rightarrow> u8 list \<Rightarrow> bool" where
  "cstring mem p [] \<longleftrightarrow> mem p = 0"
| "cstring mem p (x # xs) \<longleftrightarrow> x \<noteq> 0 \<and> mem p = x \<and> cstring mem (Suc p) xs"

definition disjoint_ranges :: "addr \<Rightarrow> addr \<Rightarrow> nat \<Rightarrow> bool" where
  "disjoint_ranges a b n \<longleftrightarrow> a + n \<le> b \<or> b + n \<le> a"

lemma cstring_cong:
  "(\<And>a. p \<le> a \<Longrightarrow> a \<le> p + length xs \<Longrightarrow> mem' a = mem a) \<Longrightarrow> cstring mem' p xs = cstring mem p xs"
  by (induction xs arbitrary: p) auto

lemma disjoint_ranges_Suc:
  "disjoint_ranges d s (Suc n) \<Longrightarrow> disjoint_ranges (Suc d) (Suc s) n"
  by (auto simp: disjoint_ranges_def)

lemma strcpy_loop_spec:
  assumes "cstring mem s xs" "disjoint_ranges d s (Suc (length xs))"
  shows "\<exists>mem'. strcpy_loop mem d s = Some mem' \<and> cstring mem' d xs \<and>
    (\<forall>a. a < d \<or> d + length xs < a \<longrightarrow> mem' a = mem a)"
  using assms
proof (induction xs arbitrary: mem d s)
  case Nil
  then show ?case by (subst strcpy_loop.simps) simp
next
  case (Cons x xs)
  let ?m = "mem(d := x)"
  have "cstring ?m (Suc s) xs"
    using Cons.prems by (subst cstring_cong [where mem = mem]) (auto simp: disjoint_ranges_def)
  moreover have "disjoint_ranges (Suc d) (Suc s) (Suc (length xs))"
    using Cons.prems(2) by (simp add: disjoint_ranges_Suc)
  ultimately obtain mem' where
    m: "strcpy_loop ?m (Suc d) (Suc s) = Some mem'" "cstring mem' (Suc d) xs"
    "\<forall>a. a < Suc d \<or> Suc d + length xs < a \<longrightarrow> mem' a = ?m a" using Cons.IH by blast
  have "strcpy_loop mem d s = Some mem'" using m(1) Cons.prems(1) by (subst strcpy_loop.simps) simp
  moreover have "mem' d = x" using m(3) by simp
  ultimately show ?case using m Cons.prems(1) by auto
qed

lemma uint_pos: "(w :: u8) \<noteq> 0 \<Longrightarrow> 0 < uint w"
  using uint_0_iff [of w] unsigned_greater_eq [of w, where ?'a = int] by linarith

lemma strcmp_spec:
  "cstring mem a xs \<Longrightarrow> cstring mem b ys \<Longrightarrow>
   \<exists>r. strcmp mem a b = Some r \<and> (r = 0 \<longleftrightarrow> xs = ys) \<and> (r < 0 \<longleftrightarrow> (xs, ys) \<in> lexord {(x, y). x < y})"
proof (induction xs arbitrary: a b ys)
  case Nil
  then show ?case
    by (subst strcmp.simps) (cases ys, auto simp: uint_0_iff uint_pos)
next
  case (Cons x xs)
  show ?case
  proof (cases "\<exists>ys'. ys = x # ys'")
    case True
    then obtain ys' where y: "ys = x # ys'" by blast
    from Cons.IH [of "Suc a" "Suc b" ys'] Cons.prems y obtain r where
      "strcmp mem (Suc a) (Suc b) = Some r" "(r = 0) = (xs = ys')" "(r < 0) = ((xs, ys') \<in> lexord {(x, y). x < y})"
      by auto
    then show ?thesis using Cons.prems y by (subst strcmp.simps) auto
  next
    case False
    then have "mem b \<noteq> x" using Cons.prems by (cases ys) auto
    then have "strcmp mem a b = Some (int (unat x) - int (unat (mem b)))"
      using Cons.prems by (subst strcmp.simps) auto
    moreover have "uint x \<noteq> uint (mem b)" using \<open>mem b \<noteq> x\<close> by (simp add: word_uint_eq_iff)
    moreover have "(x # xs, ys) \<in> lexord {(x, y). x < y} \<longleftrightarrow> uint x < uint (mem b)" "x # xs \<noteq> ys"
      using False Cons.prems by (cases ys; auto simp: word_less_def)+
    ultimately show ?thesis by simp
  qed
qed

lemma slow_memcpy_spec:
  "disjoint_ranges d s n \<Longrightarrow>
   slow_memcpy mem d s n = (\<lambda>a. if d \<le> a \<and> a < d + n then mem (s + (a - d)) else mem a)"
proof (induction n arbitrary: mem d s)
  case (Suc n)
  note ih = Suc.IH [OF disjoint_ranges_Suc [OF Suc.prems], of "mem(d := mem s)"]
  show ?case
  proof
    fix a
    consider "a < d" | "a = d" | "d < a" "a < d + Suc n" | "d + Suc n \<le> a" by linarith
    then show "slow_memcpy mem d s (Suc n) a = (if d \<le> a \<and> a < d + Suc n then mem (s + (a - d)) else mem a)"
      using Suc.prems by cases (auto simp: ih disjoint_ranges_def Suc_diff_Suc)
  qed
next
  case 0
  show ?case by (rule ext) auto
qed

lemma strncpy_pad_spec: "strncpy_pad mem d n = set_range mem d 0 n"
  by (induction n arbitrary: mem d) (simp_all add: set_range_Suc)

lemma strncpy_copy_short:
  "cstring mem s xs \<Longrightarrow> disjoint_ranges d s (Suc (length xs)) \<Longrightarrow> length xs < unat num \<Longrightarrow>
   \<exists>mem'. strncpy_copy mem d s num = (mem', num - of_nat (length xs))"
proof (induction xs arbitrary: mem d s num)
  case Nil
  then show ?case by (subst strncpy_copy.simps) simp
next
  case (Cons x xs)
  let ?m = "mem(d := x)"
  have 1: "cstring ?m (Suc s) xs"
    using Cons.prems by (subst cstring_cong [where mem = mem]) (auto simp: disjoint_ranges_def)
  have u: "unat (num - 1) = unat num - 1" using Cons.prems(3) by (simp add: unat_minus_one unat_eq_0 [symmetric])
  have "disjoint_ranges (Suc d) (Suc s) (Suc (length xs))"
    using Cons.prems(2) by (simp add: disjoint_ranges_Suc)
  moreover have "length xs < unat (num - 1)" using u Cons.prems(3) by simp
  ultimately obtain mem' where
    "strncpy_copy ?m (Suc d) (Suc s) (num - 1) = (mem', num - 1 - of_nat (length xs))" using Cons.IH [OF 1] by blast
  moreover have "num - 1 \<noteq> 0" using u Cons.prems(3) by (simp add: unat_eq_0 [symmetric] del: diff_eq_eq right_minus_eq)
  ultimately show ?case using Cons.prems(1) by (subst strncpy_copy.simps) (simp add: Let_def diff_diff_eq)
qed

subsection \<open>Properties\<close>

text \<open>
  \<open>memset\<close> with a byte value sets every byte of the range to it and changes nothing else, except that
  for a start address divisible by 8 and a size of at least 16 it stops at the last whole word: the
  remaining \<open>sz mod 8\<close> bytes keep their contents.
\<close>

theorem memset_sets_range:
  assumes "unat c < 256"
  shows "memset mem p c sz = set_range mem p (ucast c) (if 16 \<le> sz \<and> p mod 8 = 0 then 8 * (sz div 8) else sz)"
  by (rule memset_fills [OF assms])

theorem memset_sets_range_witness:
  "memset (\<lambda>_. 7) 64 0 20 = set_range (\<lambda>_. 7) 64 0 16 \<and> memset (\<lambda>_. 7) 64 0 20 80 = 7 \<and>
   memset (\<lambda>_. 7) 65 0 20 = set_range (\<lambda>_. 7) 65 0 20"
  using memset_sets_range [of 0 "\<lambda>_. 7" 64 20] memset_sets_range [of 0 "\<lambda>_. 7" 65 20]
  by (simp add: set_range_def)

text \<open>
  \<open>strcpy\<close> to a place that does not overlap the string returns, leaves the same string there, changes no
  other byte, and \<open>strcmp\<close> of the copy and the original then returns 0; \<open>strcmp\<close> of any two strings returns, with 0
  exactly for equal strings and a negative value exactly when the first comes before the second in
  lexicographic order of the unsigned bytes.
\<close>

theorem strcpy_strcmp:
  assumes "cstring mem s xs" "disjoint_ranges d s (Suc (length xs))" "cstring mem b ys"
  shows "(\<exists>mem'. strcpy mem d s = Some mem' \<and> cstring mem' d xs \<and> strcmp mem' d s = Some 0 \<and>
            (\<forall>a. mem' a = mem a \<or> d \<le> a \<and> a \<le> d + length xs)) \<and>
         (\<exists>r. strcmp mem s b = Some r \<and> (r = 0 \<longleftrightarrow> xs = ys) \<and> (r < 0 \<longleftrightarrow> (xs, ys) \<in> lexord {(x, y). x < y}))"
proof -
  from strcpy_loop_spec [OF assms(1,2)] obtain mem' where
    m: "strcpy_loop mem d s = Some mem'" "cstring mem' d xs" "\<forall>a. a < d \<or> d + length xs < a \<longrightarrow> mem' a = mem a" by blast
  have "cstring mem' s xs"
    using assms(1,2) m(3) by (subst cstring_cong [where mem = mem]) (auto simp: disjoint_ranges_def)
  with strcmp_spec [OF m(2)] have "strcmp mem' d s = Some 0" by fastforce
  moreover have "mem' a = mem a \<or> d \<le> a \<and> a \<le> d + length xs" for a using m(3) by (cases "a < d") auto
  ultimately show ?thesis using m strcmp_spec [OF assms(1,3)] by (auto simp: strcpy_def)
qed

definition example_memory :: memory where
  "example_memory = (\<lambda>_. 0)(100 := 0x68, 101 := 0x69, 200 := 0x68, 201 := 0x6a)"

theorem strcpy_strcmp_witness:
  "\<exists>mem' r. strcpy example_memory 300 100 = Some mem' \<and> cstring mem' 300 [0x68, 0x69] \<and>
     strcmp example_memory 100 200 = Some r \<and> r < 0"
proof -
  have "cstring example_memory 100 [0x68, 0x69]" "cstring example_memory 200 [0x68, 0x6a]"
    by (simp_all add: example_memory_def)
  moreover have "disjoint_ranges 300 100 (Suc (length [0x68, 0x69 :: u8]))" by (simp add: disjoint_ranges_def)
  ultimately show ?thesis
    using strcpy_strcmp [of example_memory 100 "[0x68, 0x69]" 300 200 "[0x68, 0x6a]"] by auto
qed

text \<open>
  \<open>strncpy\<close> of a string shorter than the given number destroys its copy: the bytes that should
  follow the string are cleared from the beginning of the destination on, so that it holds the empty string.
\<close>

theorem strncpy_clears_copy:
  assumes "cstring mem s xs" "disjoint_ranges d s (Suc (length xs))" "length xs < unat num"
  shows "cstring (snd (strncpy mem d s num)) d []"
proof -
  from strncpy_copy_short [OF assms] obtain mem' where
    m: "strncpy_copy mem d s num = (mem', num - of_nat (length xs))" by blast
  have "(of_nat (length xs) :: u64) < num"
    using assms(3) unat_of_nat_64 [of "length xs"] unat_lt_64 [of num] by (simp add: word_less_nat_alt)
  then have "0 < unat (num - of_nat (length xs))" by (simp add: unat_gt_0)
  then show ?thesis by (simp add: strncpy_def m strncpy_pad_spec set_range_def)
qed
end
