(* ===== verification/Pipes_Events.thy ===== *)
theory Pipes_Events
  imports Tasks_Sync Common_CircularBuffer "HOL-Library.Monad_Syntax"
begin

text \<open>
  Event notification between pipes and event listeners: \<open>Kernel/Pipes/EventListenerList.h\<close>, the state of
  \<open>Pipes::Pipe\<close>, \<open>Pipes::EventListener\<close> and \<open>Sockets::LocalSocket\<close>, and the upward path of an event,
  \<open>EventListenerList::notify\<close>, \<open>Pipe::raise_event\<close>, \<open>EventListener::inform\<close> and \<open>EventListener::wake\<close>.

  The objects live in one store, each kind in a map from addresses; \<^const>\<open>None\<close> as the result of an operation
  is an access to an object that is not there. Addresses of new objects and list nodes come from a counter,
  so that an address is never used twice and a reference to a freed node stays recognisable. A
  \<open>Common::List\<close> is its sequence of nodes with their addresses, an iterator is the address of a node or
  \<^const>\<open>None\<close> for \<open>end()\<close>. The callback of every list is the one the code passes:
  \<open>Pipe::raise_event\<close> in an \<open>EventListenerList\<close> and \<open>EventListener::inform\<close> in a pipe. Mutexes are
  taken and released within the operations and are not part of the state.
\<close>

subsection \<open>State\<close>

record Event =
  eventsRaised :: u64
  ev_pd :: u64

definition EVENTS_READABLE :: u64 where "EVENTS_READABLE = 1"
definition EVENTS_WRITEABLE :: u64 where "EVENTS_WRITEABLE = 2"

type_synonym EventListenerList = "(addr \<times> addr) list"

record EventListener =
  m_eventNotifRegs :: "((addr \<times> u64) \<times> addr option) list"
  el_waitQueue :: WaitQueue
  m_resultPtrQueue :: "(addr \<times> addr \<times> int) list"
  m_raisedEvents :: "Event list"

record Listener =
  interestedEvents :: u64
  l_listener :: addr
  l_pd :: u64

datatype device = SOCKET_LOCAL | ELISTENER

record Pipe =
  m_deviceSpecific :: "addr option"
  m_isOpen :: bool
  m_device :: "device option"
  m_offset :: u64
  m_listeners :: "(addr \<times> Listener) list"
  m_devReceipt :: "addr option option"

record LocalSocket =
  m_identifier :: "byte list"
  ls_queue :: FixedCircularBuffer
  m_endpoint :: "addr option"
  m_binded :: bool
  m_connected :: bool
  m_listening :: bool
  m_shouldNotBlock :: bool
  m_tid :: TaskID
  m_readWaitQueue :: WaitQueue
  m_writeWaitQueue :: WaitQueue
  m_connectionQueue :: "addr list"
  m_eventListenerList :: EventListenerList

record PipeState =
  ps_pipes :: "addr \<rightharpoonup> Pipe"
  ps_sockets :: "addr \<rightharpoonup> LocalSocket"
  ps_listeners :: "addr \<rightharpoonup> EventListener"
  ps_buffers :: "addr \<rightharpoonup> Event list"
  bind_map :: "byte list \<rightharpoonup> addr"
  pipeDevices :: "byte list \<rightharpoonup> device"
  ps_tm :: TaskManager
  ps_next :: addr

subsection \<open>Waking the tasks that wait for events\<close>

fun fill_events :: "int \<Rightarrow> int \<Rightarrow> Event list \<Rightarrow> Event list \<Rightarrow> Event list option" where
  "fill_events i maxEvents [] eventList = Some eventList"
| "fill_events i maxEvents (event # events) eventList =
     (if i = maxEvents then Some eventList
      else if nat i < length eventList then fill_events (i + 1) maxEvents events (eventList[nat i := event])
      else None)"

fun fill_results ::
  "(addr \<times> addr \<times> int) list \<Rightarrow> Event list \<Rightarrow> (addr \<rightharpoonup> Event list) \<Rightarrow> (addr \<rightharpoonup> Event list) option" where
  "fill_results [] raised buffers = Some buffers"
| "fill_results ((_, eventList, maxEvents) # results) raised buffers = do {
     buf \<leftarrow> buffers eventList;
     buf \<leftarrow> fill_events 0 maxEvents raised buf;
     fill_results results raised (buffers(eventList \<mapsto> buf))
   }"

definition el_wake :: "addr \<Rightarrow> PipeState \<Rightarrow> PipeState option" where
  "el_wake l st = do {
     L \<leftarrow> ps_listeners st l;
     if queue_is_empty (el_waitQueue L) then Some st
     else do {
       buffers \<leftarrow> fill_results (m_resultPtrQueue L) (m_raisedEvents L) (ps_buffers st);
       (_, tm) \<leftarrow> wake_queue (el_waitQueue L) (ps_tm st);
       Some (st\<lparr>ps_buffers := buffers, ps_tm := tm\<rparr>)
     }
   }"

fun raise_on_pipe :: "u64 \<Rightarrow> u64 \<Rightarrow> Event list \<Rightarrow> Event list" where
  "raise_on_pipe evMask pipe [] = [\<lparr>eventsRaised = evMask, ev_pd = pipe\<rparr>]"
| "raise_on_pipe evMask pipe (e # es) =
     (if ev_pd e = pipe then e\<lparr>eventsRaised := eventsRaised e OR evMask\<rparr> # es
      else e # raise_on_pipe evMask pipe es)"

definition inform :: "addr \<Rightarrow> u64 \<Rightarrow> u64 \<Rightarrow> PipeState \<Rightarrow> PipeState option" where
  "inform l evMask pipe st = do {
     L \<leftarrow> ps_listeners st l;
     let L = L\<lparr>m_raisedEvents := raise_on_pipe evMask pipe (m_raisedEvents L)\<rparr>;
     el_wake l (st\<lparr>ps_listeners := (ps_listeners st)(l \<mapsto> L)\<rparr>)
   }"

subsection \<open>Raising an event on a pipe and on a device\<close>

fun raise_to :: "u64 \<Rightarrow> (addr \<times> Listener) list \<Rightarrow> PipeState \<Rightarrow> PipeState option" where
  "raise_to event [] st = Some st"
| "raise_to event ((_, l) # ls) st = do {
     st \<leftarrow> (if interestedEvents l AND event \<noteq> 0
            then inform (l_listener l) (interestedEvents l AND event) (l_pd l) st else Some st);
     raise_to event ls st
   }"

definition raise_event :: "addr \<Rightarrow> u64 \<Rightarrow> PipeState \<Rightarrow> PipeState option" where
  "raise_event pipe event st = do { P \<leftarrow> ps_pipes st pipe; raise_to event (m_listeners P) st }"

definition ell_add :: "addr option \<Rightarrow> addr \<Rightarrow> EventListenerList \<Rightarrow> addr option \<times> EventListenerList" where
  "ell_add listener new_addr ls =
     (case listener of
        None \<Rightarrow> (None, ls)
      | Some pipe \<Rightarrow> (Some new_addr, ls @ [(new_addr, pipe)]))"

fun ell_notify :: "u64 \<Rightarrow> EventListenerList \<Rightarrow> PipeState \<Rightarrow> PipeState option" where
  "ell_notify events [] st = Some st"
| "ell_notify events ((_, pipe) # ls) st = do { st \<leftarrow> raise_event pipe events st; ell_notify events ls st }"

definition ell_remove :: "addr option \<Rightarrow> EventListenerList \<Rightarrow> EventListenerList option" where
  "ell_remove receipt ls =
     (case receipt of
        None \<Rightarrow> Some ls
      | Some node \<Rightarrow> if node \<in> fst ` set ls then Some (filter (\<lambda>(a, _). a \<noteq> node) ls) else None)"

subsection \<open>Notification does not fault\<close>

definition waiters_ok :: "TaskManager \<Rightarrow> WaitQueue \<Rightarrow> bool" where
  "waiters_ok tm q \<longleftrightarrow> (\<forall>t\<in>snd ` set q. launched tm t)"

definition results_ok :: "(addr \<rightharpoonup> Event list) \<Rightarrow> (addr \<times> addr \<times> int) list \<Rightarrow> bool" where
  "results_ok buffers q \<longleftrightarrow> (\<forall>(_, b, maxEvents)\<in>set q. \<exists>buf. buffers b = Some buf \<and> 0 \<le> maxEvents \<and> maxEvents \<le> int (length buf))"

definition listener_wf :: "PipeState \<Rightarrow> EventListener \<Rightarrow> bool" where
  "listener_wf st L \<longleftrightarrow> waiters_ok (ps_tm st) (el_waitQueue L) \<and> results_ok (ps_buffers st) (m_resultPtrQueue L)"

definition events_wf :: "PipeState \<Rightarrow> bool" where
  "events_wf st \<longleftrightarrow> tm_reachable (ps_tm st) \<and> (\<forall>l L. ps_listeners st l = Some L \<longrightarrow> listener_wf st L) \<and>
     (\<forall>p P. ps_pipes st p = Some P \<longrightarrow> (\<forall>x\<in>snd ` set (m_listeners P). l_listener x \<in> dom (ps_listeners st)))"

definition has_event :: "EventListener \<Rightarrow> u64 \<Rightarrow> nat \<Rightarrow> bool" where
  "has_event L pd k \<longleftrightarrow> (\<exists>e\<in>set (m_raisedEvents L). ev_pd e = pd \<and> bit (eventsRaised e) k)"

definition grows :: "EventListener \<Rightarrow> EventListener \<Rightarrow> bool" where
  "grows L L' \<longleftrightarrow> el_waitQueue L' = el_waitQueue L \<and> m_resultPtrQueue L' = m_resultPtrQueue L \<and>
     m_eventNotifRegs L' = m_eventNotifRegs L \<and> (\<forall>pd k. has_event L pd k \<longrightarrow> has_event L' pd k)"

lemma grows_refl [simp]: "grows L L"
  by (simp add: grows_def)

lemma grows_trans: "grows L L1 \<Longrightarrow> grows L1 L2 \<Longrightarrow> grows L L2"
  by (simp add: grows_def)

text \<open>What raising events changes: only raised events are added, results are filled in and tasks woken.\<close>

definition informed :: "PipeState \<Rightarrow> PipeState \<Rightarrow> bool" where
  "informed st st' \<longleftrightarrow>
     ps_pipes st' = ps_pipes st \<and> ps_sockets st' = ps_sockets st \<and> bind_map st' = bind_map st \<and>
     pipeDevices st' = pipeDevices st \<and> ps_next st' = ps_next st \<and>
     dom (ps_listeners st') = dom (ps_listeners st) \<and> wakes (ps_tm st) (ps_tm st') \<and>
     (\<forall>b buf. ps_buffers st b = Some buf \<longrightarrow> (\<exists>buf'. ps_buffers st' b = Some buf' \<and> length buf' = length buf)) \<and>
     (\<forall>l L. ps_listeners st l = Some L \<longrightarrow> (\<exists>L'. ps_listeners st' l = Some L' \<and> grows L L'))"

lemma informed_refl [simp]: "informed st st"
  by (auto simp: informed_def)

lemma informed_listener:
  "informed st st' \<Longrightarrow> ps_listeners st l = Some L \<Longrightarrow> \<exists>L'. ps_listeners st' l = Some L' \<and> grows L L'"
  by (simp add: informed_def)

lemma informed_buffer:
  "informed st st' \<Longrightarrow> ps_buffers st b = Some buf \<Longrightarrow> \<exists>buf'. ps_buffers st' b = Some buf' \<and> length buf' = length buf"
  by (simp add: informed_def)

lemma informed_trans:
  assumes a: "informed st st1" and b: "informed st1 st2"
  shows "informed st st2"
proof -
  have "\<exists>L'. ps_listeners st2 l = Some L' \<and> grows L L'" if "ps_listeners st l = Some L" for l L
    using informed_listener [OF a that] informed_listener [OF b] grows_trans by blast
  moreover have "\<exists>buf'. ps_buffers st2 c = Some buf' \<and> length buf' = length buf" if "ps_buffers st c = Some buf" for c buf
    using informed_buffer [OF a that] informed_buffer [OF b] by fastforce
  ultimately show ?thesis using a b wakes_trans [of "ps_tm st" "ps_tm st1" "ps_tm st2"] by (simp add: informed_def)
qed

lemma fill_events_length: "fill_events i maxEvents es buf = Some buf' \<Longrightarrow> length buf' = length buf"
  by (induction i maxEvents es buf rule: fill_events.induct) (auto split: if_splits)

lemma fill_events_total:
  "0 \<le> i \<Longrightarrow> i \<le> maxEvents \<Longrightarrow> maxEvents \<le> int (length buf) \<Longrightarrow> \<exists>buf'. fill_events i maxEvents es buf = Some buf'"
proof (induction i maxEvents es buf rule: fill_events.induct)
  case (2 i maxEvents event events buf)
  show ?case
  proof (cases "i = maxEvents")
    case False
    then have "nat i < length buf" using 2 by linarith
    then show ?thesis using False 2 by simp
  qed simp
qed simp

lemma fill_results_total:
  assumes "results_ok buffers q"
  shows "\<exists>buffers'. fill_results q raised buffers = Some buffers' \<and>
    (\<forall>b buf. buffers b = Some buf \<longrightarrow> (\<exists>buf'. buffers' b = Some buf' \<and> length buf' = length buf))"
  using assms
proof (induction q arbitrary: buffers)
  case (Cons r q)
  obtain n b maxEvents where r: "r = (n, b, maxEvents)" by (metis prod_cases3)
  obtain buf where buf: "buffers b = Some buf" "0 \<le> maxEvents" "maxEvents \<le> int (length buf)"
    using Cons.prems by (auto simp: results_ok_def r)
  obtain buf' where buf': "fill_events 0 maxEvents raised buf = Some buf'" "length buf' = length buf"
    using fill_events_total [of 0 maxEvents buf raised] fill_events_length buf by auto
  have "results_ok (buffers(b \<mapsto> buf')) q" using Cons.prems buf' buf(1) by (fastforce simp: results_ok_def)
  from Cons.IH [OF this] obtain buffers' where
    f: "fill_results q raised (buffers(b \<mapsto> buf')) = Some buffers'"
    "\<forall>c buf. (buffers(b \<mapsto> buf')) c = Some buf \<longrightarrow> (\<exists>buf'. buffers' c = Some buf' \<and> length buf' = length buf)" by blast
  have "\<exists>buf'. buffers' c = Some buf' \<and> length buf' = length x" if "buffers c = Some x" for c x
    using f(2) that buf(1) buf'(2) by (cases "c = b") (auto dest: spec [of _ c])
  then show ?case using f(1) r buf(1) buf'(1) by simp
qed simp

lemma results_ok_mono:
  assumes "results_ok buffers q"
    and "\<forall>b buf. buffers b = Some buf \<longrightarrow> (\<exists>buf'. buffers' b = Some buf' \<and> length buf' = length buf)"
  shows "results_ok buffers' q"
  using assms unfolding results_ok_def by fastforce

lemma waiters_ok_wakes: "waiters_ok tm q \<Longrightarrow> wakes tm tm' \<Longrightarrow> waiters_ok tm' q"
  by (auto simp: waiters_ok_def intro: wakes_started)

lemma waiters_ok_simps [simp]:
  "waiters_ok tm []" "waiters_ok tm ((a, t) # q) \<longleftrightarrow> launched tm t \<and> waiters_ok tm q"
  "waiters_ok tm (q @ q') \<longleftrightarrow> waiters_ok tm q \<and> waiters_ok tm q'"
  by (auto simp: waiters_ok_def)

lemma wake_queue_total:
  assumes "tm_reachable tm" "waiters_ok tm q"
  shows "\<exists>tm'. wake_queue q tm = Some (length q, tm') \<and> tm_reachable tm' \<and> wakes tm tm' \<and>
    (\<forall>t\<in>snd ` set q. \<exists>gid. is_ready (m_taskHashmap tm') gid t)"
proof -
  have "\<forall>t\<in>set (map snd q). launched tm t" using assms(2) by (auto simp: waiters_ok_def)
  from unblock_all_reachable [OF assms(1) this] show ?thesis by (auto simp: wake_queue_def)
qed

lemma el_wake_informs:
  assumes wf: "events_wf st" and L: "ps_listeners st l = Some L"
  shows "\<exists>st'. el_wake l st = Some st' \<and> informed st st' \<and> ps_listeners st' = ps_listeners st \<and> tm_reachable (ps_tm st') \<and>
    (\<forall>t\<in>snd ` set (el_waitQueue L). \<exists>gid. is_ready (m_taskHashmap (ps_tm st')) gid t)"
proof (cases "el_waitQueue L = []")
  case True
  then show ?thesis using wf by (simp add: el_wake_def L queue_is_empty_def events_wf_def)
next
  case False
  have w: "tm_reachable (ps_tm st)" "waiters_ok (ps_tm st) (el_waitQueue L)" "results_ok (ps_buffers st) (m_resultPtrQueue L)"
    using wf L by (auto simp: events_wf_def listener_wf_def)
  obtain bs where bs: "fill_results (m_resultPtrQueue L) (m_raisedEvents L) (ps_buffers st) = Some bs"
    "\<forall>b buf. ps_buffers st b = Some buf \<longrightarrow> (\<exists>buf'. bs b = Some buf' \<and> length buf' = length buf)"
    using fill_results_total [OF w(3)] by blast
  obtain tm where tm: "wake_queue (el_waitQueue L) (ps_tm st) = Some (length (el_waitQueue L), tm)" "tm_reachable tm"
    "wakes (ps_tm st) tm" "\<forall>t\<in>snd ` set (el_waitQueue L). \<exists>gid. is_ready (m_taskHashmap tm) gid t"
    using wake_queue_total [OF w(1,2)] by blast
  let ?st = "st\<lparr>ps_buffers := bs, ps_tm := tm\<rparr>"
  have "el_wake l st = Some ?st" using False by (simp add: el_wake_def L queue_is_empty_def bs(1) tm(1))
  moreover have "informed st ?st" using bs(2) tm(3) by (auto simp: informed_def)
  ultimately show ?thesis using tm by auto
qed

lemma events_wf_informed:
  assumes wf: "events_wf st" and i: "informed st st'" and r: "tm_reachable (ps_tm st')"
  shows "events_wf st'"
proof -
  have i': "wakes (ps_tm st) (ps_tm st')" "ps_pipes st' = ps_pipes st" "dom (ps_listeners st') = dom (ps_listeners st)"
    "\<forall>b buf. ps_buffers st b = Some buf \<longrightarrow> (\<exists>buf'. ps_buffers st' b = Some buf' \<and> length buf' = length buf)"
    using i by (auto simp: informed_def)
  have "listener_wf st' L'" if "ps_listeners st' l = Some L'" for l L'
  proof -
    have "l \<in> dom (ps_listeners st)" using i'(3) that by auto
    then obtain L where L: "ps_listeners st l = Some L" by auto
    then have "grows L L'" using informed_listener [OF i] that by fastforce
    moreover have "listener_wf st L" using wf L by (simp add: events_wf_def)
    ultimately show ?thesis
      using waiters_ok_wakes [OF _ i'(1)] results_ok_mono [OF _ i'(4)] by (simp add: listener_wf_def grows_def)
  qed
  then show ?thesis using wf r i' by (simp add: events_wf_def)
qed

lemma raise_on_pipe_has:
  "(\<exists>e\<in>set (raise_on_pipe evMask pipe es). ev_pd e = pd \<and> bit (eventsRaised e) k) \<longleftrightarrow>
   (\<exists>e\<in>set es. ev_pd e = pd \<and> bit (eventsRaised e) k) \<or> pd = pipe \<and> bit evMask k"
  by (induction evMask pipe es rule: raise_on_pipe.induct) (auto simp: bit_or_iff)

lemma inform_informs:
  assumes wf: "events_wf st" and L: "ps_listeners st l = Some L"
  shows "\<exists>st' L'. inform l evMask pd st = Some st' \<and> informed st st' \<and> events_wf st' \<and>
    ps_listeners st' l = Some L' \<and> m_raisedEvents L' = raise_on_pipe evMask pd (m_raisedEvents L) \<and>
    (\<forall>t\<in>snd ` set (el_waitQueue L). \<exists>gid. is_ready (m_taskHashmap (ps_tm st')) gid t)"
proof -
  define L1 where "L1 = L\<lparr>m_raisedEvents := raise_on_pipe evMask pd (m_raisedEvents L)\<rparr>"
  define st1 where "st1 = st\<lparr>ps_listeners := (ps_listeners st)(l \<mapsto> L1)\<rparr>"
  have i1: "informed st st1"
    using L raise_on_pipe_has [of evMask pd "m_raisedEvents L"] by (auto simp: informed_def st1_def L1_def has_event_def grows_def)
  have wf1: "events_wf st1" using events_wf_informed [OF wf i1] wf by (simp add: st1_def events_wf_def)
  have L1: "ps_listeners st1 l = Some L1" by (simp add: st1_def)
  obtain st2 where st2: "el_wake l st1 = Some st2" "informed st1 st2" "ps_listeners st2 = ps_listeners st1"
    "tm_reachable (ps_tm st2)" "\<forall>t\<in>snd ` set (el_waitQueue L1). \<exists>gid. is_ready (m_taskHashmap (ps_tm st2)) gid t"
    using el_wake_informs [OF wf1 L1] by blast
  have "inform l evMask pd st = Some st2" using st2(1) by (simp add: inform_def L st1_def L1_def)
  moreover have "events_wf st2" using events_wf_informed [OF wf1 st2(2,4)] .
  ultimately show ?thesis using informed_trans [OF i1 st2(2)] st2 L1 by (auto simp: L1_def)
qed

text \<open>An event has reached a listener: it is among the raised events and every task waiting there is ready.\<close>

definition told :: "PipeState \<Rightarrow> Listener \<Rightarrow> nat \<Rightarrow> bool" where
  "told st x k \<longleftrightarrow> (\<exists>L. ps_listeners st (l_listener x) = Some L \<and> has_event L (l_pd x) k \<and>
     (\<forall>t\<in>snd ` set (el_waitQueue L). \<exists>gid. is_ready (m_taskHashmap (ps_tm st)) gid t))"

lemma told_informed:
  assumes "told st x k" "informed st st'"
  shows "told st' x k"
proof -
  obtain L where L: "ps_listeners st (l_listener x) = Some L" "has_event L (l_pd x) k"
    "\<forall>t\<in>snd ` set (el_waitQueue L). \<exists>gid. is_ready (m_taskHashmap (ps_tm st)) gid t"
    using assms(1) by (auto simp: told_def)
  obtain L' where "ps_listeners st' (l_listener x) = Some L'" "grows L L'" using informed_listener [OF assms(2) L(1)] by blast
  moreover have "wakes (ps_tm st) (ps_tm st')" using assms(2) by (simp add: informed_def)
  ultimately show ?thesis using L wakes_ready by (fastforce simp: told_def grows_def)
qed

lemma raise_to_informs:
  assumes "events_wf st" "\<forall>x\<in>snd ` set ls. l_listener x \<in> dom (ps_listeners st)"
  shows "\<exists>st'. raise_to event ls st = Some st' \<and> informed st st' \<and> events_wf st' \<and>
    (\<forall>x\<in>snd ` set ls. \<forall>k. bit (interestedEvents x AND event) k \<longrightarrow> told st' x k)"
  using assms
proof (induction ls arbitrary: st)
  case (Cons nx ls)
  obtain n x where nx: "nx = (n, x)" by force
  let ?m = "interestedEvents x AND event"
  obtain L where L: "ps_listeners st (l_listener x) = Some L" using Cons.prems(2) nx by auto
  obtain st1 where st1: "(if ?m \<noteq> 0 then inform (l_listener x) ?m (l_pd x) st else Some st) = Some st1"
    "informed st st1" "events_wf st1" "\<forall>k. bit ?m k \<longrightarrow> told st1 x k"
  proof (cases "?m = 0")
    case True
    then show ?thesis using that [of st] Cons.prems(1) by simp
  next
    case False
    from inform_informs [OF Cons.prems(1) L, of ?m "l_pd x"] obtain st1 L' where
      i: "inform (l_listener x) ?m (l_pd x) st = Some st1" "informed st st1" "events_wf st1"
      "ps_listeners st1 (l_listener x) = Some L'" "m_raisedEvents L' = raise_on_pipe ?m (l_pd x) (m_raisedEvents L)"
      "\<forall>t\<in>snd ` set (el_waitQueue L). \<exists>gid. is_ready (m_taskHashmap (ps_tm st1)) gid t" by blast
    have "has_event L' (l_pd x) k" if "bit ?m k" for k
      using that raise_on_pipe_has [of ?m "l_pd x" "m_raisedEvents L"] by (auto simp: has_event_def i(5))
    moreover have "el_waitQueue L' = el_waitQueue L"
      using informed_listener [OF i(2) L] i(4) by (auto simp: grows_def)
    ultimately show ?thesis using that [of st1] i False by (auto simp: told_def)
  qed
  have "\<forall>x\<in>snd ` set ls. l_listener x \<in> dom (ps_listeners st1)"
    using Cons.prems(2) nx st1(2) by (auto simp: informed_def)
  from Cons.IH [OF st1(3) this] obtain st2 where st2: "raise_to event ls st1 = Some st2" "informed st1 st2" "events_wf st2"
    "\<forall>x\<in>snd ` set ls. \<forall>k. bit (interestedEvents x AND event) k \<longrightarrow> told st2 x k" by blast
  then show ?case using st1(1,4) told_informed [OF _ st2(2)] informed_trans [OF st1(2) st2(2)] nx by simp
qed simp

lemma ell_notify_informs:
  assumes "events_wf st" "snd ` set ls \<subseteq> dom (ps_pipes st)"
  shows "\<exists>st'. ell_notify event ls st = Some st' \<and> informed st st' \<and> events_wf st' \<and>
    (\<forall>p\<in>snd ` set ls. \<forall>P x k. ps_pipes st p = Some P \<longrightarrow> x \<in> snd ` set (m_listeners P) \<longrightarrow>
       bit (interestedEvents x AND event) k \<longrightarrow> told st' x k)"
  using assms
proof (induction ls arbitrary: st)
  case (Cons np ls)
  obtain n p where np: "np = (n, p)" by force
  obtain P where P: "ps_pipes st p = Some P" using Cons.prems(2) np by auto
  have "\<forall>x\<in>snd ` set (m_listeners P). l_listener x \<in> dom (ps_listeners st)"
    using Cons.prems(1) P by (auto simp: events_wf_def)
  from raise_to_informs [OF Cons.prems(1) this] obtain st1 where
    st1: "raise_to event (m_listeners P) st = Some st1" "informed st st1" "events_wf st1"
    "\<forall>x\<in>snd ` set (m_listeners P). \<forall>k. bit (interestedEvents x AND event) k \<longrightarrow> told st1 x k" by blast
  have pipes: "ps_pipes st1 = ps_pipes st" using st1(2) by (simp add: informed_def)
  then have "snd ` set ls \<subseteq> dom (ps_pipes st1)" using Cons.prems(2) by auto
  from Cons.IH [OF st1(3) this] obtain st2 where st2: "ell_notify event ls st1 = Some st2" "informed st1 st2" "events_wf st2"
    "\<forall>p\<in>snd ` set ls. \<forall>P x k. ps_pipes st1 p = Some P \<longrightarrow> x \<in> snd ` set (m_listeners P) \<longrightarrow>
       bit (interestedEvents x AND event) k \<longrightarrow> told st2 x k" by blast
  moreover have "ell_notify event (np # ls) st = Some st2" using st1(1) st2(1) by (simp add: np raise_event_def P)
  ultimately show ?case
    using st1(4) told_informed [OF _ st2(2)] informed_trans [OF st1(2) st2(2)] P np pipes by auto
qed simp

end
