(* ===== verification/Pipes_LocalSocket.thy ===== *)
theory Pipes_LocalSocket
  imports Pipes_Events
begin

text \<open>
  Local sockets, \<open>Kernel/Pipes/LocalSocket.cpp\<close>. An operation that waits is given what the other tasks
  do meanwhile: \<open>between\<close> is what they do between two critical sections of the operation, \<open>during\<close> what they
  do from the moment the task blocks until it runs again, and \<open>steps\<close> one such step for every time
  the task blocks in a loop. Running out of steps, \<^const>\<open>None\<close>, is a task that is never woken again.
  \<open>STRING_LENGTH\<close> bounds the identifiers: a longer one overruns the \<open>HashableString\<close> and \<open>m_identifier\<close>.
\<close>

definition LS_QUEUE_SIZE :: nat where "LS_QUEUE_SIZE = 65536"
definition STRING_LENGTH :: nat where "STRING_LENGTH = 256"
definition LS_REQUEST_CONN :: u64 where "LS_REQUEST_CONN = 4"

definition set_socket :: "addr \<Rightarrow> LocalSocket \<Rightarrow> PipeState \<Rightarrow> PipeState" where
  "set_socket n S st = st\<lparr>ps_sockets := (ps_sockets st)(n \<mapsto> S)\<rparr>"

subsection \<open>Opening and closing\<close>

text \<open>The identifier and the bytes of the queue are not initialised: \<open>ident\<close> and \<open>memory\<close> are what is there.\<close>

definition ls_new :: "int \<Rightarrow> byte list \<Rightarrow> byte list \<Rightarrow> LocalSocket" where
  "ls_new flags ident memory =
     \<lparr>m_identifier = ident, ls_queue = cb_new LS_QUEUE_SIZE memory, m_endpoint = None, m_binded = False,
      m_connected = False, m_listening = False, m_shouldNotBlock = odd flags, m_tid = 0,
      m_readWaitQueue = [], m_writeWaitQueue = [], m_connectionQueue = [], m_eventListenerList = []\<rparr>"

definition ls_open :: "int \<Rightarrow> byte list \<Rightarrow> byte list \<Rightarrow> PipeState \<Rightarrow> addr \<times> PipeState" where
  "ls_open flags ident memory st =
     (ps_next st, set_socket (ps_next st) (ls_new flags ident memory) (st\<lparr>ps_next := ps_next st + 1\<rparr>))"

definition ls_close :: "addr \<Rightarrow> PipeState \<Rightarrow> PipeState option" where
  "ls_close n st = do {
     socket \<leftarrow> ps_sockets st n;
     let st = st\<lparr>bind_map := (bind_map st)(m_identifier socket := None)\<rparr>;
     Some (st\<lparr>ps_sockets := (ps_sockets st)(n := None)\<rparr>)
   }"

subsection \<open>Making connections\<close>

definition socket_of :: "addr \<Rightarrow> PipeState \<Rightarrow> addr option" where
  "socket_of pipe st = do { P \<leftarrow> ps_pipes st pipe; m_deviceSpecific P }"

definition ls_bind :: "addr \<Rightarrow> byte list \<Rightarrow> PipeState \<Rightarrow> (bool \<times> PipeState) option" where
  "ls_bind pipe ident st = do {
     n \<leftarrow> socket_of pipe st;
     socket \<leftarrow> ps_sockets st n;
     if m_binded socket then Some (False, st)
     else if STRING_LENGTH \<le> length ident then None
     else if bind_map st ident \<noteq> None then Some (False, st)
     else do {
       let socket = socket\<lparr>m_identifier := ident\<rparr>;
       let st = st\<lparr>bind_map := (bind_map st)(ident \<mapsto> n)\<rparr>;
       Some (True, set_socket n (socket\<lparr>m_binded := True\<rparr>) st)
     }
   }"

definition ls_listen :: "addr \<Rightarrow> PipeState \<Rightarrow> (bool \<times> PipeState) option" where
  "ls_listen pipe st = do {
     n \<leftarrow> socket_of pipe st;
     socket \<leftarrow> ps_sockets st n;
     if \<not> m_binded socket then Some (False, st)
     else Some (True, set_socket n (socket\<lparr>m_listening := True\<rparr>) st)
   }"

definition accept_check :: "addr \<Rightarrow> PipeState \<Rightarrow> bool option option" where
  "accept_check n st = do {
     socket \<leftarrow> ps_sockets st n;
     Some (if \<not> m_listening socket then None
           else Some (m_connectionQueue socket = [] \<and> \<not> m_shouldNotBlock socket))
   }"

definition accept_wait :: "nat \<Rightarrow> addr \<Rightarrow> PipeState \<Rightarrow> PipeState option" where
  "accept_wait now n st = do {
     socket \<leftarrow> ps_sockets st n;
     let st = set_socket n (socket\<lparr>m_tid := m_currentTask (ps_tm st)\<rparr>) st;
     tm \<leftarrow> about_to_block (ps_tm st);
     tm \<leftarrow> block now tm;
     Some (st\<lparr>ps_tm := tm\<rparr>)
   }"

definition accept_link :: "addr \<Rightarrow> addr \<Rightarrow> PipeState \<Rightarrow> PipeState option" where
  "accept_link newPipe remote st = do {
     new \<leftarrow> socket_of newPipe st;
     newSocket \<leftarrow> ps_sockets st new;
     let st = set_socket new (newSocket\<lparr>m_endpoint := Some remote\<rparr>) st;
     remoteSocket \<leftarrow> ps_sockets st remote;
     let st = set_socket remote (remoteSocket\<lparr>m_endpoint := Some new\<rparr>) st;
     newSocket \<leftarrow> ps_sockets st new;
     let st = set_socket new (newSocket\<lparr>m_connected := True\<rparr>) st;
     remoteSocket \<leftarrow> ps_sockets st remote;
     tm \<leftarrow> unblock (m_tid remoteSocket) (ps_tm st);
     Some (st\<lparr>ps_tm := tm\<rparr>)
   }"

definition accept_take :: "addr \<Rightarrow> addr \<Rightarrow> PipeState \<Rightarrow> (bool \<times> PipeState) option" where
  "accept_take n newPipe st = do {
     socket \<leftarrow> ps_sockets st n;
     case m_connectionQueue socket of
       [] \<Rightarrow> Some (False, st)
     | remote # rest \<Rightarrow> do {
         st \<leftarrow> accept_link newPipe remote (set_socket n (socket\<lparr>m_connectionQueue := rest\<rparr>) st);
         Some (True, st)
       }
   }"

definition ls_accept ::
  "nat \<Rightarrow> (PipeState \<Rightarrow> PipeState option) \<Rightarrow> (PipeState \<Rightarrow> PipeState option) \<Rightarrow> addr \<Rightarrow> addr \<Rightarrow> PipeState \<Rightarrow>
   (bool \<times> PipeState) option" where
  "ls_accept now between during pipe newPipe st = do {
     n \<leftarrow> socket_of pipe st;
     check \<leftarrow> accept_check n st;
     case check of
       None \<Rightarrow> Some (False, st)
     | Some shouldBlock \<Rightarrow> do {
         st \<leftarrow> (if shouldBlock then do { st \<leftarrow> between st; st \<leftarrow> accept_wait now n st; during st } else Some st);
         accept_take n newPipe st
       }
   }"

definition connect_request :: "addr \<Rightarrow> byte list \<Rightarrow> PipeState \<Rightarrow> ((addr \<times> TaskID) option \<times> PipeState) option" where
  "connect_request n ident st = do {
     socket \<leftarrow> ps_sockets st n;
     let st = set_socket n (socket\<lparr>m_tid := m_currentTask (ps_tm st)\<rparr>) st;
     if STRING_LENGTH \<le> length ident then None
     else case bind_map st ident of
       None \<Rightarrow> Some (None, st)
     | Some remote \<Rightarrow> do {
         remoteSocket \<leftarrow> ps_sockets st remote;
         if \<not> m_listening remoteSocket then Some (None, st)
         else do {
           let st = set_socket remote (remoteSocket\<lparr>m_connectionQueue := m_connectionQueue remoteSocket @ [n]\<rparr>) st;
           st \<leftarrow> ell_notify LS_REQUEST_CONN (m_eventListenerList remoteSocket) st;
           remoteSocket \<leftarrow> ps_sockets st remote;
           Some (Some (remote, m_tid remoteSocket), st)
         }
       }
   }"

definition connect_wait :: "nat \<Rightarrow> addr \<Rightarrow> addr \<Rightarrow> TaskID \<Rightarrow> PipeState \<Rightarrow> PipeState option" where
  "connect_wait now n remote remoteTid st = do {
     socket \<leftarrow> ps_sockets st n;
     let st = set_socket n (socket\<lparr>m_connected := True\<rparr>) st;
     tm \<leftarrow> about_to_block (ps_tm st);
     tm \<leftarrow> (if remoteTid \<noteq> 0 then do { remoteSocket \<leftarrow> ps_sockets st remote; unblock (m_tid remoteSocket) tm } else Some tm);
     tm \<leftarrow> block now tm;
     Some (st\<lparr>ps_tm := tm\<rparr>)
   }"

definition ls_connect ::
  "nat \<Rightarrow> (PipeState \<Rightarrow> PipeState option) \<Rightarrow> (PipeState \<Rightarrow> PipeState option) \<Rightarrow> addr \<Rightarrow> byte list \<Rightarrow> PipeState \<Rightarrow>
   (bool \<times> PipeState) option" where
  "ls_connect now between during pipe ident st = do {
     n \<leftarrow> socket_of pipe st;
     (request, st) \<leftarrow> connect_request n ident st;
     case request of
       None \<Rightarrow> Some (False, st)
     | Some (remote, remoteTid) \<Rightarrow> do {
         st \<leftarrow> between st;
         st \<leftarrow> connect_wait now n remote remoteTid st;
         st \<leftarrow> during st;
         Some (True, st)
       }
   }"

subsection \<open>Reading and writing\<close>

fun ls_read_wait :: "nat \<Rightarrow> (PipeState \<Rightarrow> PipeState option) list \<Rightarrow> addr \<Rightarrow> PipeState \<Rightarrow> (bool \<times> PipeState) option" where
  "ls_read_wait now steps n st = do {
     socket \<leftarrow> ps_sockets st n;
     if m_connected socket \<and> is_queue_empty (ls_queue socket)
     then if m_shouldNotBlock socket then Some (False, st)
          else case steps of
                 [] \<Rightarrow> None
               | w # ws \<Rightarrow> do {
                   tm \<leftarrow> block now (ps_tm st);
                   st \<leftarrow> w (st\<lparr>ps_tm := tm\<rparr>);
                   ls_read_wait now ws n st
                 }
     else Some (True, st)
   }"

declare ls_read_wait.simps [simp del]

definition read_enter :: "addr \<Rightarrow> PipeState \<Rightarrow> (addr \<times> PipeState) option" where
  "read_enter n st = do {
     socket \<leftarrow> ps_sockets st n;
     (wqitem, q, tm) \<leftarrow> add_to_queue (ps_next st) (m_readWaitQueue socket) (ps_tm st);
     Some (wqitem, set_socket n (socket\<lparr>m_readWaitQueue := q\<rparr>) (st\<lparr>ps_tm := tm, ps_next := ps_next st + 1\<rparr>))
   }"

definition read_finish :: "addr \<Rightarrow> nat \<Rightarrow> addr \<Rightarrow> PipeState \<Rightarrow> (nat \<times> byte list \<times> PipeState) option" where
  "read_finish wqitem cnt n st = do {
     socket \<leftarrow> ps_sockets st n;
     q \<leftarrow> remove_from_queue wqitem (m_readWaitQueue socket);
     let socket = socket\<lparr>m_readWaitQueue := q\<rparr>;
     if \<not> m_connected socket then Some (0, [], set_socket n socket st)
     else do {
       let socketWasFull = is_queue_full LS_QUEUE_SIZE (ls_queue socket);
       let (readCount, buf, q') = cb_read LS_QUEUE_SIZE cnt (ls_queue socket);
       let st = set_socket n (socket\<lparr>ls_queue := q'\<rparr>) st;
       if readCount > 0 then do {
         (_, tm) \<leftarrow> wake_queue (m_writeWaitQueue socket) (ps_tm st);
         let st = st\<lparr>ps_tm := tm\<rparr>;
         st \<leftarrow> (if socketWasFull then ell_notify EVENTS_WRITEABLE (m_eventListenerList socket) st else Some st);
         Some (readCount, buf, st)
       } else Some (readCount, buf, st)
     }
   }"

definition ls_read ::
  "nat \<Rightarrow> (PipeState \<Rightarrow> PipeState option) list \<Rightarrow> nat \<Rightarrow> addr \<Rightarrow> PipeState \<Rightarrow> (nat \<times> byte list \<times> PipeState) option" where
  "ls_read now steps cnt n st = do {
     (wqitem, st) \<leftarrow> read_enter n st;
     (proceed, st) \<leftarrow> ls_read_wait now steps n st;
     if \<not> proceed then Some (0, [], st) else read_finish wqitem cnt n st
   }"

fun ls_write_wait ::
  "nat \<Rightarrow> (PipeState \<Rightarrow> PipeState option) list \<Rightarrow> bool \<Rightarrow> addr \<Rightarrow> PipeState \<Rightarrow> (bool \<times> PipeState) option" where
  "ls_write_wait now steps shouldNotBlock remote st = do {
     remoteSocket \<leftarrow> ps_sockets st remote;
     if m_connected remoteSocket \<and> is_queue_full LS_QUEUE_SIZE (ls_queue remoteSocket)
     then if shouldNotBlock then Some (False, st)
          else case steps of
                 [] \<Rightarrow> None
               | w # ws \<Rightarrow> do {
                   tm \<leftarrow> block now (ps_tm st);
                   st \<leftarrow> w (st\<lparr>ps_tm := tm\<rparr>);
                   ls_write_wait now ws shouldNotBlock remote st
                 }
     else Some (True, st)
   }"

declare ls_write_wait.simps [simp del]

definition write_enter :: "addr \<Rightarrow> PipeState \<Rightarrow> (addr \<times> PipeState) option" where
  "write_enter remote st = do {
     remoteSocket \<leftarrow> ps_sockets st remote;
     (wqitem, q, tm) \<leftarrow> add_to_queue (ps_next st) (m_writeWaitQueue remoteSocket) (ps_tm st);
     Some (wqitem, set_socket remote (remoteSocket\<lparr>m_writeWaitQueue := q\<rparr>) (st\<lparr>ps_tm := tm, ps_next := ps_next st + 1\<rparr>))
   }"

definition write_finish :: "addr \<Rightarrow> byte list \<Rightarrow> addr \<Rightarrow> PipeState \<Rightarrow> (nat \<times> PipeState) option" where
  "write_finish wqitem buf remote st = do {
     remoteSocket \<leftarrow> ps_sockets st remote;
     q \<leftarrow> remove_from_queue wqitem (m_writeWaitQueue remoteSocket);
     let remoteSocket = remoteSocket\<lparr>m_writeWaitQueue := q\<rparr>;
     if \<not> m_connected remoteSocket then Some (0, set_socket remote remoteSocket st)
     else do {
       let socketWasEmpty = is_queue_empty (ls_queue remoteSocket);
       let (writeCount, q') = cb_write LS_QUEUE_SIZE buf (ls_queue remoteSocket);
       let st = set_socket remote (remoteSocket\<lparr>ls_queue := q'\<rparr>) st;
       if writeCount > 0 then do {
         (_, tm) \<leftarrow> wake_queue (m_readWaitQueue remoteSocket) (ps_tm st);
         let st = st\<lparr>ps_tm := tm\<rparr>;
         st \<leftarrow> (if socketWasEmpty then ell_notify EVENTS_READABLE (m_eventListenerList remoteSocket) st else Some st);
         Some (writeCount, st)
       } else Some (writeCount, st)
     }
   }"

definition ls_write ::
  "nat \<Rightarrow> (PipeState \<Rightarrow> PipeState option) list \<Rightarrow> byte list \<Rightarrow> addr \<Rightarrow> PipeState \<Rightarrow> (nat \<times> PipeState) option" where
  "ls_write now steps buf n st = do {
     socket \<leftarrow> ps_sockets st n;
     case m_endpoint socket of
       None \<Rightarrow> Some (0, st)
     | Some remote \<Rightarrow> do {
         (wqitem, st) \<leftarrow> write_enter remote st;
         (proceed, st) \<leftarrow> ls_write_wait now steps (m_shouldNotBlock socket) remote st;
         if \<not> proceed then Some (0, st) else write_finish wqitem buf remote st
       }
   }"

subsection \<open>Events\<close>

definition ls_notify :: "addr option \<Rightarrow> addr \<Rightarrow> PipeState \<Rightarrow> (u64 \<times> addr option \<times> PipeState) option" where
  "ls_notify listener n st = do {
     socket \<leftarrow> ps_sockets st n;
     let evMask = (if m_connected socket \<and> \<not> is_queue_empty (ls_queue socket) then EVENTS_READABLE else 0) OR
                  (if length (m_connectionQueue socket) > 0 then LS_REQUEST_CONN else 0);
     evMask \<leftarrow> (case m_endpoint socket of
                 None \<Rightarrow> Some evMask
               | Some remote \<Rightarrow> do {
                   remoteSocket \<leftarrow> ps_sockets st remote;
                   Some (if m_connected remoteSocket \<and> \<not> is_queue_full LS_QUEUE_SIZE (ls_queue remoteSocket)
                         then evMask OR EVENTS_WRITEABLE else evMask)
                 });
     let (receipt, ls) = ell_add listener (ps_next st) (m_eventListenerList socket);
     Some (evMask, receipt, set_socket n (socket\<lparr>m_eventListenerList := ls\<rparr>) (st\<lparr>ps_next := ps_next st + 1\<rparr>))
   }"

definition ls_denotify :: "addr option \<Rightarrow> addr \<Rightarrow> PipeState \<Rightarrow> PipeState option" where
  "ls_denotify receipt n st = do {
     socket \<leftarrow> ps_sockets st n;
     ls \<leftarrow> ell_remove receipt (m_eventListenerList socket);
     Some (set_socket n (socket\<lparr>m_eventListenerList := ls\<rparr>) st)
   }"

subsection \<open>Well-formed states\<close>

text \<open>
  No reference of a socket dangles: its endpoint, the sockets that want to connect and the pipes that
  listen exist, and every task it may wake has been started.
\<close>

definition socket_wf :: "PipeState \<Rightarrow> LocalSocket \<Rightarrow> bool" where
  "socket_wf st S \<longleftrightarrow> cb_inv LS_QUEUE_SIZE (ls_queue S) \<and> set_option (m_endpoint S) \<subseteq> dom (ps_sockets st) \<and>
     (\<forall>r\<in>set (m_connectionQueue S). \<exists>T. ps_sockets st r = Some T \<and> launched (ps_tm st) (m_tid T)) \<and>
     waiters_ok (ps_tm st) (m_readWaitQueue S) \<and> waiters_ok (ps_tm st) (m_writeWaitQueue S) \<and>
     snd ` set (m_eventListenerList S) \<subseteq> dom (ps_pipes st) \<and> (m_tid S = 0 \<or> launched (ps_tm st) (m_tid S))"

definition ipc_wf :: "PipeState \<Rightarrow> bool" where
  "ipc_wf st \<longleftrightarrow> events_wf st \<and> (\<forall>n S. ps_sockets st n = Some S \<longrightarrow> socket_wf st S) \<and>
     ran (bind_map st) \<subseteq> dom (ps_sockets st)"

lemma ipc_wf_socket: "ipc_wf st \<Longrightarrow> ps_sockets st n = Some S \<Longrightarrow> socket_wf st S"
  by (simp add: ipc_wf_def)

definition keeps :: "PipeState \<Rightarrow> PipeState \<Rightarrow> bool" where
  "keeps st st' \<longleftrightarrow> dom (ps_pipes st) \<subseteq> dom (ps_pipes st') \<and>
     (\<forall>t. launched (ps_tm st) t \<longrightarrow> launched (ps_tm st') t) \<and>
     (\<forall>n S. ps_sockets st n = Some S \<longrightarrow> (\<exists>S'. ps_sockets st' n = Some S' \<and>
        (m_tid S' = m_tid S \<or> launched (ps_tm st') (m_tid S'))))"

lemma socket_wf_keeps:
  assumes "socket_wf st S" "keeps st st'"
  shows "socket_wf st' S"
proof -
  have d: "dom (ps_sockets st) \<subseteq> dom (ps_sockets st')" using assms(2) by (fastforce simp: keeps_def)
  have w: "waiters_ok (ps_tm st) q \<Longrightarrow> waiters_ok (ps_tm st') q" for q
    using assms(2) by (auto simp: keeps_def waiters_ok_def)
  have "\<exists>T. ps_sockets st' r = Some T \<and> launched (ps_tm st') (m_tid T)" if "r \<in> set (m_connectionQueue S)" for r
  proof -
    have "\<exists>T. ps_sockets st r = Some T \<and> launched (ps_tm st) (m_tid T)" using assms(1) that by (simp add: socket_wf_def)
    then obtain T where T: "ps_sockets st r = Some T" "launched (ps_tm st) (m_tid T)" by blast
    then have "\<exists>T'. ps_sockets st' r = Some T' \<and> (m_tid T' = m_tid T \<or> launched (ps_tm st') (m_tid T'))"
      using assms(2) by (simp add: keeps_def)
    moreover have "launched (ps_tm st') (m_tid T)" using assms(2) T(2) by (simp add: keeps_def)
    ultimately show ?thesis by auto
  qed
  moreover have "set_option (m_endpoint S) \<subseteq> dom (ps_sockets st')"
    using assms(1) d by (intro order_trans [OF _ d]) (simp add: socket_wf_def)
  moreover have "snd ` set (m_eventListenerList S) \<subseteq> dom (ps_pipes st')"
  proof (rule order_trans)
    show "snd ` set (m_eventListenerList S) \<subseteq> dom (ps_pipes st)" using assms(1) by (simp add: socket_wf_def)
    show "dom (ps_pipes st) \<subseteq> dom (ps_pipes st')" using assms(2) by (simp add: keeps_def)
  qed
  moreover have "launched (ps_tm st) (m_tid S) \<Longrightarrow> launched (ps_tm st') (m_tid S)" using assms(2) by (simp add: keeps_def)
  then have "m_tid S = 0 \<or> launched (ps_tm st') (m_tid S)" using socket_wf_def [THEN iffD1, OF assms(1)] by blast
  ultimately show ?thesis using assms(1) w by (simp add: socket_wf_def)
qed

lemma keeps_informed: "informed st st' \<Longrightarrow> keeps st st'"
  using wakes_started by (auto simp: informed_def keeps_def)

lemma keeps_set:
  "ps_sockets st n = Some S \<Longrightarrow> m_tid S' = m_tid S \<or> launched (ps_tm st) (m_tid S') \<Longrightarrow> keeps st (set_socket n S' st)"
  by (auto simp: keeps_def set_socket_def)

lemma events_wf_tm:
  assumes wf: "events_wf st" and tm: "tm_reachable tm" "\<forall>t. launched (ps_tm st) t \<longrightarrow> launched tm t"
  shows "events_wf (st\<lparr>ps_tm := tm\<rparr>)"
  using assms unfolding events_wf_def listener_wf_def waiters_ok_def by auto

lemma events_wf_other [simp]:
  "events_wf (st\<lparr>ps_next := m\<rparr>) \<longleftrightarrow> events_wf st" "events_wf (st\<lparr>bind_map := b\<rparr>) \<longleftrightarrow> events_wf st"
  "events_wf (st\<lparr>ps_sockets := x\<rparr>) \<longleftrightarrow> events_wf st" "events_wf (set_socket n S st) \<longleftrightarrow> events_wf st"
  by (auto simp: events_wf_def listener_wf_def set_socket_def)

lemma ipc_wf_tm:
  assumes "ipc_wf st" "tm_reachable tm" "\<forall>t. launched (ps_tm st) t \<longrightarrow> launched tm t"
  shows "ipc_wf (st\<lparr>ps_tm := tm\<rparr>)"
proof -
  have k: "keeps st (st\<lparr>ps_tm := tm\<rparr>)" using assms(3) by (auto simp: keeps_def)
  show ?thesis using assms socket_wf_keeps [OF _ k] events_wf_tm [OF _ assms(2,3)] by (simp add: ipc_wf_def)
qed

lemma ipc_wf_set:
  assumes wf: "ipc_wf st" and S: "ps_sockets st n = Some S"
    and S': "socket_wf st S'" "m_tid S' = m_tid S \<or> launched (ps_tm st) (m_tid S')"
  shows "ipc_wf (set_socket n S' st)"
proof -
  have k: "keeps st (set_socket n S' st)" using keeps_set [OF S S'(2)] .
  have "socket_wf (set_socket n S' st) T" if "ps_sockets (set_socket n S' st) m = Some T" for m T
    using that wf S'(1) socket_wf_keeps [OF _ k] by (cases "m = n") (auto simp: set_socket_def ipc_wf_def)
  moreover have "ran (bind_map (set_socket n S' st)) \<subseteq> dom (ps_sockets (set_socket n S' st))"
    using wf by (auto simp: ipc_wf_def set_socket_def)
  ultimately show ?thesis using wf by (simp add: ipc_wf_def)
qed

lemma ipc_wf_informed:
  assumes "ipc_wf st" "informed st st'" "events_wf st'"
  shows "ipc_wf st'"
  using assms socket_wf_keeps [OF _ keeps_informed [OF assms(2)]] by (simp add: ipc_wf_def informed_def)

lemma ipc_wf_next [simp]: "ipc_wf (st\<lparr>ps_next := m\<rparr>) \<longleftrightarrow> ipc_wf st"
  by (simp add: ipc_wf_def socket_wf_def)

lemma socket_wf_next [simp]: "socket_wf (st\<lparr>ps_next := m\<rparr>) S \<longleftrightarrow> socket_wf st S"
  by (simp add: socket_wf_def)

end
