(* ===== verification/Pipes_Connections.thy ===== *)
theory Pipes_Connections
  imports Pipes_LocalSocket
begin

text \<open>
  What the operations of local sockets guarantee: no reference dangles as long as no socket is closed, a
  connected pair is a channel that keeps every byte in order, a write reaches the tasks that wait for it;
  and the wake-ups that \<open>accept\<close> and \<open>connect\<close> lose.
\<close>

subsection \<open>Every operation keeps the references valid\<close>

lemma announce_total:
  assumes "tm_reachable tm" "m_currentTask tm \<noteq> 0"
  shows "\<exists>tm'. about_to_block tm = Some tm' \<and> tm_reachable tm' \<and> wakes tm tm' \<and> launched tm (m_currentTask tm)"
proof -
  obtain tm' t where tm': "about_to_block tm = Some tm'" using about_to_block_spec [OF tm_reachable_inv [OF assms(1)] assms(2)] by blast
  obtain t where t: "m_taskHashmap tm (m_currentTask tm) = Some t"
    using tm_inv_task [OF tm_reachable_inv [OF assms(1)] assms(2)] by blast
  have "wakes tm tm'" using tm' t assms(2) by (auto simp: about_to_block_def lookup_defs wakes_def)
  then show ?thesis using tm' reach_step [OF assms(1) step_announce [OF assms(2) tm']] t by (auto simp: launched_def)
qed

lemma add_to_queue_total:
  assumes "tm_reachable tm" "m_currentTask tm \<noteq> 0" "waiters_ok tm q"
  shows "\<exists>tm'. add_to_queue a q tm = Some (a, q @ [(a, m_currentTask tm)], tm') \<and> tm_reachable tm' \<and> wakes tm tm' \<and>
    waiters_ok tm' (q @ [(a, m_currentTask tm)])"
  using announce_total [OF assms(1,2)] assms(3) by (auto simp: add_to_queue_def wakes_started intro: waiters_ok_wakes)

lemma wakes_all_started: "wakes tm tm' \<Longrightarrow> \<forall>t. launched tm t \<longrightarrow> launched tm' t"
  using wakes_started by blast

lemma ipc_wf_reachable: "ipc_wf st \<Longrightarrow> tm_reachable (ps_tm st)"
  by (simp add: ipc_wf_def events_wf_def)

lemmas socket_wfD = socket_wf_def [THEN iffD1]

lemma enter_total:
  assumes wf: "ipc_wf st" and cur: "m_currentTask (ps_tm st) \<noteq> 0" and S: "ps_sockets st n = Some S"
    and q: "waiters_ok (ps_tm st) q"
    and S': "m_tid S' = m_tid S"
      "\<And>tm. socket_wf (st\<lparr>ps_tm := tm\<rparr>) S \<Longrightarrow> waiters_ok tm (q @ [(ps_next st, m_currentTask (ps_tm st))]) \<Longrightarrow>
         socket_wf (st\<lparr>ps_tm := tm\<rparr>) S'"
  shows "\<exists>tm. add_to_queue (ps_next st) q (ps_tm st) =
       Some (ps_next st, q @ [(ps_next st, m_currentTask (ps_tm st))], tm) \<and> wakes (ps_tm st) tm \<and>
    ipc_wf (set_socket n S' (st\<lparr>ps_tm := tm, ps_next := ps_next st + 1\<rparr>))"
proof -
  from add_to_queue_total [OF ipc_wf_reachable [OF wf] cur q] obtain tm where
    tm: "add_to_queue (ps_next st) q (ps_tm st) = Some (ps_next st, q @ [(ps_next st, m_currentTask (ps_tm st))], tm)"
    "tm_reachable tm" "wakes (ps_tm st) tm" "waiters_ok tm (q @ [(ps_next st, m_currentTask (ps_tm st))])" by blast
  have wf1: "ipc_wf (st\<lparr>ps_tm := tm\<rparr>)" using ipc_wf_tm [OF wf tm(2) wakes_all_started [OF tm(3)]] .
  then have "socket_wf (st\<lparr>ps_tm := tm\<rparr>) S'" using S S'(2) tm(4) by (simp add: ipc_wf_def)
  then have "ipc_wf (set_socket n S' (st\<lparr>ps_tm := tm, ps_next := ps_next st + 1\<rparr>))"
    using wf1 S S'(1) by (intro ipc_wf_set [of _ n S]) simp_all
  then show ?thesis using tm by auto
qed

lemma read_enter_total:
  assumes wf: "ipc_wf st" and cur: "m_currentTask (ps_tm st) \<noteq> 0" and S: "ps_sockets st n = Some S"
    and S': "S' = S\<lparr>m_readWaitQueue := m_readWaitQueue S @ [(ps_next st, m_currentTask (ps_tm st))]\<rparr>"
  shows "\<exists>tm. read_enter n st = Some (ps_next st, set_socket n S' (st\<lparr>ps_tm := tm, ps_next := ps_next st + 1\<rparr>)) \<and>
    wakes (ps_tm st) tm \<and> ipc_wf (set_socket n S' (st\<lparr>ps_tm := tm, ps_next := ps_next st + 1\<rparr>))"
proof -
  have "waiters_ok (ps_tm st) (m_readWaitQueue S)" using ipc_wf_socket [OF wf S] by (simp add: socket_wf_def)
  from enter_total [OF wf cur S this, of S'] show ?thesis
    by (auto simp: read_enter_def S S' socket_wf_def)
qed

lemma write_enter_total:
  assumes wf: "ipc_wf st" and cur: "m_currentTask (ps_tm st) \<noteq> 0" and S: "ps_sockets st n = Some S"
    and S': "S' = S\<lparr>m_writeWaitQueue := m_writeWaitQueue S @ [(ps_next st, m_currentTask (ps_tm st))]\<rparr>"
  shows "\<exists>tm. write_enter n st = Some (ps_next st, set_socket n S' (st\<lparr>ps_tm := tm, ps_next := ps_next st + 1\<rparr>)) \<and>
    wakes (ps_tm st) tm \<and> ipc_wf (set_socket n S' (st\<lparr>ps_tm := tm, ps_next := ps_next st + 1\<rparr>))"
proof -
  have "waiters_ok (ps_tm st) (m_writeWaitQueue S)" using ipc_wf_socket [OF wf S] by (simp add: socket_wf_def)
  from enter_total [OF wf cur S this, of S'] show ?thesis
    by (auto simp: write_enter_def S S' socket_wf_def)
qed

text \<open>
  The common end of reading and writing: the queue of a socket is replaced, tasks of a wait queue are woken
  and, if asked, an event is raised.
\<close>

definition deliver :: "addr \<Rightarrow> LocalSocket \<Rightarrow> WaitQueue \<Rightarrow> u64 option \<Rightarrow> PipeState \<Rightarrow> PipeState option" where
  "deliver n S q event st = do {
     let st = set_socket n S st;
     (_, tm) \<leftarrow> wake_queue q (ps_tm st);
     let st = st\<lparr>ps_tm := tm\<rparr>;
     (case event of Some e \<Rightarrow> ell_notify e (m_eventListenerList S) st | None \<Rightarrow> Some st)
   }"

lemma deliver_total:
  assumes wf: "ipc_wf st" and S: "ps_sockets st n = Some S" and S': "socket_wf st S'" "m_tid S' = m_tid S"
    and q: "waiters_ok (ps_tm st) q"
  shows "\<exists>st'. deliver n S' q event st = Some st' \<and> ipc_wf st' \<and> ps_sockets st' = (ps_sockets st)(n \<mapsto> S') \<and>
    ps_pipes st' = ps_pipes st \<and> bind_map st' = bind_map st \<and>
    m_currentTask (ps_tm st') = m_currentTask (ps_tm st) \<and> wakes (ps_tm st) (ps_tm st') \<and>
    (\<forall>t\<in>snd ` set q. \<exists>gid. is_ready (m_taskHashmap (ps_tm st')) gid t) \<and>
    (\<forall>e p P x k. event = Some e \<longrightarrow> p \<in> snd ` set (m_eventListenerList S') \<longrightarrow> ps_pipes st p = Some P \<longrightarrow>
       x \<in> snd ` set (m_listeners P) \<longrightarrow> bit (interestedEvents x AND e) k \<longrightarrow> told st' x k)"
proof -
  define st1 where "st1 = set_socket n S' st"
  have wf1: "ipc_wf st1" unfolding st1_def using S'(2) by (intro ipc_wf_set [OF wf S S'(1)]) simp
  have q1: "waiters_ok (ps_tm st1) q" using q by (simp add: st1_def set_socket_def)
  obtain tm where tm: "wake_queue q (ps_tm st1) = Some (length q, tm)" "tm_reachable tm" "wakes (ps_tm st1) tm"
    "\<forall>t\<in>snd ` set q. \<exists>gid. is_ready (m_taskHashmap tm) gid t"
    using wake_queue_total [OF ipc_wf_reachable [OF wf1] q1] by blast
  define st2 where "st2 = st1\<lparr>ps_tm := tm\<rparr>"
  have wf2: "ipc_wf st2" unfolding st2_def using ipc_wf_tm [OF wf1 tm(2) wakes_all_started [OF tm(3)]] .
  have eq: "ps_sockets st2 = (ps_sockets st)(n \<mapsto> S')" "ps_pipes st2 = ps_pipes st" "bind_map st2 = bind_map st"
    "ps_tm st2 = tm" "wakes (ps_tm st) tm" using tm(3) by (simp_all add: st2_def st1_def set_socket_def)
  have d: "deliver n S' q event st = (case event of Some e \<Rightarrow> ell_notify e (m_eventListenerList S') st2 | None \<Rightarrow> Some st2)"
    using tm(1) by (cases event) (simp_all add: deliver_def st1_def st2_def Let_def)
  show ?thesis
  proof (cases event)
    case None
    moreover have "m_currentTask tm = m_currentTask (ps_tm st)" using eq(5) by (simp add: wakes_def)
    ultimately show ?thesis using d wf2 eq tm(4) by simp
  next
    case (Some e)
    have ls: "snd ` set (m_eventListenerList S') \<subseteq> dom (ps_pipes st2)" using S'(1) eq(2) by (simp add: socket_wf_def)
    have "events_wf st2" using wf2 by (simp add: ipc_wf_def)
    from ell_notify_informs [OF this ls, of e] obtain st3 where st3: "ell_notify e (m_eventListenerList S') st2 = Some st3"
      "informed st2 st3" "events_wf st3"
      "\<forall>p\<in>snd ` set (m_eventListenerList S'). \<forall>P x k. ps_pipes st2 p = Some P \<longrightarrow> x \<in> snd ` set (m_listeners P) \<longrightarrow>
       bit (interestedEvents x AND e) k \<longrightarrow> told st3 x k" by blast
    have i: "wakes tm (ps_tm st3)" "ps_sockets st3 = ps_sockets st2" "ps_pipes st3 = ps_pipes st2" "bind_map st3 = bind_map st2"
      using st3(2) eq(4) by (auto simp: informed_def)
    have w: "wakes (ps_tm st) (ps_tm st3)" using eq(5) i(1) wakes_trans by blast
    have "\<forall>t\<in>snd ` set q. \<exists>gid. is_ready (m_taskHashmap (ps_tm st3)) gid t" using tm(4) wakes_ready [OF i(1)] by blast
    moreover have "ipc_wf st3" using ipc_wf_informed [OF wf2 st3(2,3)] .
    moreover have "m_currentTask (ps_tm st3) = m_currentTask (ps_tm st)" using w by (simp add: wakes_def)
    moreover have "deliver n S' q event st = Some st3" using d Some st3(1) by simp
    moreover have "\<forall>e p P x k. event = Some e \<longrightarrow> p \<in> snd ` set (m_eventListenerList S') \<longrightarrow> ps_pipes st p = Some P \<longrightarrow>
       x \<in> snd ` set (m_listeners P) \<longrightarrow> bit (interestedEvents x AND e) k \<longrightarrow> told st3 x k"
      using st3(4) Some eq(2) by auto
    ultimately show ?thesis using i eq(1-3) w by (intro exI [of _ st3]) simp
  qed
qed

lemma waiters_ok_filter: "waiters_ok tm q \<Longrightarrow> waiters_ok tm (filter P q)"
  by (auto simp: waiters_ok_def)

lemma socket_wf_queue:
  assumes "socket_wf st S" "cb_inv LS_QUEUE_SIZE q"
  shows "socket_wf st (S\<lparr>m_readWaitQueue := filter P (m_readWaitQueue S), ls_queue := q\<rparr>)"
    "socket_wf st (S\<lparr>m_writeWaitQueue := filter P (m_writeWaitQueue S), ls_queue := q\<rparr>)"
  using assms waiters_ok_filter by (auto simp: socket_wf_def)

lemma read_finish_deliver:
  assumes "ps_sockets st n = Some S" "m_connected S" "item \<in> fst ` set (m_readWaitQueue S)"
    and "cb_read LS_QUEUE_SIZE cnt (ls_queue S) = (k, out, q')"
    and "S' = S\<lparr>m_readWaitQueue := filter (\<lambda>(a, _). a \<noteq> item) (m_readWaitQueue S), ls_queue := q'\<rparr>"
  shows "read_finish item cnt n st =
      (if k > 0 then do {
         st' \<leftarrow> deliver n S' (m_writeWaitQueue S)
                (if is_queue_full LS_QUEUE_SIZE (ls_queue S) then Some EVENTS_WRITEABLE else None) st;
         Some (k, out, st')
       } else Some (k, out, set_socket n S' st))"
  using assms by (auto simp: read_finish_def remove_from_queue_def deliver_def Let_def split: prod.splits Option.bind_splits)

lemma write_finish_deliver:
  assumes "ps_sockets st n = Some S" "m_connected S" "item \<in> fst ` set (m_writeWaitQueue S)"
    and "cb_write LS_QUEUE_SIZE bs (ls_queue S) = (k, q')"
    and "S' = S\<lparr>m_writeWaitQueue := filter (\<lambda>(a, _). a \<noteq> item) (m_writeWaitQueue S), ls_queue := q'\<rparr>"
  shows "write_finish item bs n st =
      (if k > 0 then do {
         st' \<leftarrow> deliver n S' (m_readWaitQueue S) (if is_queue_empty (ls_queue S) then Some EVENTS_READABLE else None) st;
         Some (k, st')
       } else Some (k, set_socket n S' st))"
  using assms by (auto simp: write_finish_def remove_from_queue_def deliver_def Let_def split: prod.splits Option.bind_splits)

lemma read_finish_total:
  assumes wf: "ipc_wf st" and S: "ps_sockets st n = Some S" "m_connected S" and i: "item \<in> fst ` set (m_readWaitQueue S)"
    and r: "cb_read LS_QUEUE_SIZE cnt (ls_queue S) = (k, out, q')"
    and S': "S' = S\<lparr>m_readWaitQueue := filter (\<lambda>(a, _). a \<noteq> item) (m_readWaitQueue S), ls_queue := q'\<rparr>"
  shows "\<exists>st'. read_finish item cnt n st = Some (k, out, st') \<and> ipc_wf st' \<and> ps_sockets st' = (ps_sockets st)(n \<mapsto> S') \<and>
    m_currentTask (ps_tm st') = m_currentTask (ps_tm st) \<and>
    (k > 0 \<longrightarrow> (\<forall>t\<in>snd ` set (m_writeWaitQueue S). \<exists>gid. is_ready (m_taskHashmap (ps_tm st')) gid t)) \<and>
    (k > 0 \<and> is_queue_full LS_QUEUE_SIZE (ls_queue S) \<longrightarrow> (\<forall>p P x j. p \<in> snd ` set (m_eventListenerList S) \<longrightarrow>
       ps_pipes st p = Some P \<longrightarrow> x \<in> snd ` set (m_listeners P) \<longrightarrow> bit (interestedEvents x AND EVENTS_WRITEABLE) j \<longrightarrow>
       told st' x j))"
proof -
  have w: "socket_wf st S" by (rule ipc_wf_socket [OF wf S(1)])
  then have "cb_inv LS_QUEUE_SIZE (ls_queue S)" by (simp add: socket_wf_def)
  then have "cb_inv LS_QUEUE_SIZE q'" using cb.get_law [OF _ r] by blast
  then have w': "socket_wf st S'" unfolding S' using socket_wf_queue(1) [OF w] by blast
  have q: "waiters_ok (ps_tm st) (m_writeWaitQueue S)" using w by (simp add: socket_wf_def)
  define ev where "ev = (if is_queue_full LS_QUEUE_SIZE (ls_queue S) then Some EVENTS_WRITEABLE else None)"
  have f: "read_finish item cnt n st =
      (if k > 0 then do { st' \<leftarrow> deliver n S' (m_writeWaitQueue S) ev st; Some (k, out, st') }
       else Some (k, out, set_socket n S' st))"
    unfolding ev_def by (rule read_finish_deliver [OF S i r S'])
  show ?thesis
  proof (cases "k > 0")
    case True
    from deliver_total [OF wf S(1) w' _ q, of ev] obtain st' where
      d: "deliver n S' (m_writeWaitQueue S) ev st = Some st'" "ipc_wf st'" "ps_sockets st' = (ps_sockets st)(n \<mapsto> S')"
      "m_currentTask (ps_tm st') = m_currentTask (ps_tm st)"
      "\<forall>t\<in>snd ` set (m_writeWaitQueue S). \<exists>gid. is_ready (m_taskHashmap (ps_tm st')) gid t"
      "\<forall>e p P x k. ev = Some e \<longrightarrow> p \<in> snd ` set (m_eventListenerList S') \<longrightarrow> ps_pipes st p = Some P \<longrightarrow>
       x \<in> snd ` set (m_listeners P) \<longrightarrow> bit (interestedEvents x AND e) k \<longrightarrow> told st' x k"
      using S' by auto
    have "read_finish item cnt n st = Some (k, out, st')" using f d(1) True by simp
    then show ?thesis using d(2-6) S' by (intro exI [of _ st']) (auto simp: ev_def)
  next
    case False
    have "ipc_wf (set_socket n S' st)" using ipc_wf_set [OF wf S(1) w'] S' by simp
    then show ?thesis using f False by (simp add: set_socket_def)
  qed
qed

lemma write_finish_total:
  assumes wf: "ipc_wf st" and S: "ps_sockets st n = Some S" "m_connected S" and i: "item \<in> fst ` set (m_writeWaitQueue S)"
    and r: "cb_write LS_QUEUE_SIZE bs (ls_queue S) = (k, q')"
    and S': "S' = S\<lparr>m_writeWaitQueue := filter (\<lambda>(a, _). a \<noteq> item) (m_writeWaitQueue S), ls_queue := q'\<rparr>"
  shows "\<exists>st'. write_finish item bs n st = Some (k, st') \<and> ipc_wf st' \<and> ps_sockets st' = (ps_sockets st)(n \<mapsto> S') \<and>
    m_currentTask (ps_tm st') = m_currentTask (ps_tm st) \<and>
    (k > 0 \<longrightarrow> (\<forall>t\<in>snd ` set (m_readWaitQueue S). \<exists>gid. is_ready (m_taskHashmap (ps_tm st')) gid t)) \<and>
    (k > 0 \<and> is_queue_empty (ls_queue S) \<longrightarrow> (\<forall>p P x j. p \<in> snd ` set (m_eventListenerList S) \<longrightarrow>
       ps_pipes st p = Some P \<longrightarrow> x \<in> snd ` set (m_listeners P) \<longrightarrow> bit (interestedEvents x AND EVENTS_READABLE) j \<longrightarrow>
       told st' x j))"
proof -
  have w: "socket_wf st S" by (rule ipc_wf_socket [OF wf S(1)])
  then have "cb_inv LS_QUEUE_SIZE (ls_queue S)" by (simp add: socket_wf_def)
  then have "cb_inv LS_QUEUE_SIZE q'" using cb.put_law [OF _ r] by blast
  then have w': "socket_wf st S'" unfolding S' using socket_wf_queue(2) [OF w] by blast
  have q: "waiters_ok (ps_tm st) (m_readWaitQueue S)" using w by (simp add: socket_wf_def)
  define ev where "ev = (if is_queue_empty (ls_queue S) then Some EVENTS_READABLE else None)"
  have f: "write_finish item bs n st =
      (if k > 0 then do { st' \<leftarrow> deliver n S' (m_readWaitQueue S) ev st; Some (k, st') }
       else Some (k, set_socket n S' st))"
    unfolding ev_def by (rule write_finish_deliver [OF S i r S'])
  show ?thesis
  proof (cases "k > 0")
    case True
    from deliver_total [OF wf S(1) w' _ q, of ev] obtain st' where
      d: "deliver n S' (m_readWaitQueue S) ev st = Some st'" "ipc_wf st'" "ps_sockets st' = (ps_sockets st)(n \<mapsto> S')"
      "m_currentTask (ps_tm st') = m_currentTask (ps_tm st)"
      "\<forall>t\<in>snd ` set (m_readWaitQueue S). \<exists>gid. is_ready (m_taskHashmap (ps_tm st')) gid t"
      "\<forall>e p P x k. ev = Some e \<longrightarrow> p \<in> snd ` set (m_eventListenerList S') \<longrightarrow> ps_pipes st p = Some P \<longrightarrow>
       x \<in> snd ` set (m_listeners P) \<longrightarrow> bit (interestedEvents x AND e) k \<longrightarrow> told st' x k"
      using S' by auto
    have "write_finish item bs n st = Some (k, st')" using f d(1) True by simp
    then show ?thesis using d(2-6) S' by (intro exI [of _ st']) (auto simp: ev_def)
  next
    case False
    have "ipc_wf (set_socket n S' st)" using ipc_wf_set [OF wf S(1) w'] S' by simp
    then show ?thesis using f False by (simp add: set_socket_def)
  qed
qed

subsection \<open>Reading and writing without waiting\<close>

abbreviation ls_contents :: "LocalSocket \<Rightarrow> byte list" where
  "ls_contents S \<equiv> cb_contents LS_QUEUE_SIZE (ls_queue S)"

definition same_link :: "LocalSocket \<Rightarrow> LocalSocket \<Rightarrow> bool" where
  "same_link S S' \<longleftrightarrow> m_endpoint S' = m_endpoint S \<and> m_connected S' = m_connected S \<and> m_shouldNotBlock S' = m_shouldNotBlock S"

lemma cb_empty_iff: "cb_inv Size b \<Longrightarrow> is_queue_empty b \<longleftrightarrow> cb_contents Size b = []"
  by (auto simp: is_queue_empty_def cb_contents_def cb_used_def cb_inv_def split: if_splits)

lemma cb_full_iff: "cb_inv Size b \<Longrightarrow> is_queue_full Size b \<longleftrightarrow> length (cb_contents Size b) = Size - 1"
  by (auto simp: is_queue_full_def cb_used_def cb_inv_def mod_wrap mod_Suc)

lemma ls_read_total:
  assumes wf: "ipc_wf st" and cur: "m_currentTask (ps_tm st) \<noteq> 0"
    and S: "ps_sockets st n = Some S" "m_connected S" "m_shouldNotBlock S \<or> ls_contents S \<noteq> []"
  shows "\<exists>k st' S'. ls_read now steps cnt n st = Some (k, take k (ls_contents S), st') \<and> ipc_wf st' \<and>
    m_currentTask (ps_tm st') = m_currentTask (ps_tm st) \<and> ps_sockets st' = (ps_sockets st)(n \<mapsto> S') \<and> same_link S S' \<and>
    k = min cnt (length (ls_contents S)) \<and> ls_contents S' = drop k (ls_contents S) \<and>
    (k > 0 \<longrightarrow> (\<forall>t\<in>snd ` set (m_writeWaitQueue S). \<exists>gid. is_ready (m_taskHashmap (ps_tm st')) gid t))"
proof -
  define S1 where "S1 = S\<lparr>m_readWaitQueue := m_readWaitQueue S @ [(ps_next st, m_currentTask (ps_tm st))]\<rparr>"
  from read_enter_total [OF wf cur S(1) S1_def] obtain tm where
    e: "read_enter n st = Some (ps_next st, set_socket n S1 (st\<lparr>ps_tm := tm, ps_next := ps_next st + 1\<rparr>))"
    "wakes (ps_tm st) tm" "ipc_wf (set_socket n S1 (st\<lparr>ps_tm := tm, ps_next := ps_next st + 1\<rparr>))" by blast
  define st1 where "st1 = set_socket n S1 (st\<lparr>ps_tm := tm, ps_next := ps_next st + 1\<rparr>)"
  have st1: "ipc_wf st1" "ps_sockets st1 n = Some S1" "m_currentTask (ps_tm st1) = m_currentTask (ps_tm st)"
    "ps_sockets st1 = (ps_sockets st)(n \<mapsto> S1)"
    using e(2,3) by (simp_all add: st1_def set_socket_def wakes_def)
  have inv: "cb_inv LS_QUEUE_SIZE (ls_queue S)" using ipc_wf_socket [OF wf S(1)] by (simp add: socket_wf_def)
  have empty: "is_queue_empty (ls_queue S) \<longleftrightarrow> ls_contents S = []" by (rule cb_empty_iff [OF inv])
  show ?thesis
  proof (cases "ls_contents S = []")
    case True
    then have "ls_read now steps cnt n st = Some (0, [], st1)"
      using e(1) st1(2) S(2,3) empty by (simp add: ls_read_def ls_read_wait.simps S1_def st1_def)
    then show ?thesis using True st1 by (intro exI [of _ 0] exI [of _ st1] exI [of _ S1]) (simp add: S1_def same_link_def)
  next
    case False
    obtain k out q' where r: "cb_read LS_QUEUE_SIZE cnt (ls_queue S) = (k, out, q')" by (metis prod_cases3)
    define S2 where "S2 = S1\<lparr>m_readWaitQueue := filter (\<lambda>(a, _). a \<noteq> ps_next st) (m_readWaitQueue S1), ls_queue := q'\<rparr>"
    have "ps_next st \<in> fst ` set (m_readWaitQueue S1)" "m_connected S1" "cb_read LS_QUEUE_SIZE cnt (ls_queue S1) = (k, out, q')"
      using S(2) r by (simp_all add: S1_def)
    from read_finish_total [OF st1(1,2) this(2,1,3) S2_def] obtain st2 where
      st2: "read_finish (ps_next st) cnt n st1 = Some (k, out, st2)" "ipc_wf st2" "ps_sockets st2 = (ps_sockets st1)(n \<mapsto> S2)"
      "m_currentTask (ps_tm st2) = m_currentTask (ps_tm st1)"
      "k > 0 \<longrightarrow> (\<forall>t\<in>snd ` set (m_writeWaitQueue S1). \<exists>gid. is_ready (m_taskHashmap (ps_tm st2)) gid t)" by blast
    have "ls_read now steps cnt n st = Some (k, out, st2)"
      using e(1) st1(2) False empty st2(1) by (simp add: ls_read_def ls_read_wait.simps S1_def st1_def)
    moreover have "k = min cnt (length (ls_contents S))" "out = take k (ls_contents S)"
      "ls_contents S2 = drop k (ls_contents S)" using cb.get_law [OF inv r] by (simp_all add: S2_def)
    moreover have "same_link S S2" "m_writeWaitQueue S1 = m_writeWaitQueue S" by (simp_all add: same_link_def S1_def S2_def)
    ultimately show ?thesis using st2 st1(3,4) by (intro exI [of _ k] exI [of _ st2] exI [of _ S2]) simp
  qed
qed

lemma ls_write_total:
  assumes wf: "ipc_wf st" and cur: "m_currentTask (ps_tm st) \<noteq> 0"
    and A: "ps_sockets st a = Some A" "m_endpoint A = Some b"
    and S: "ps_sockets st b = Some S" "m_connected S" "m_shouldNotBlock A \<or> length (ls_contents S) < LS_QUEUE_SIZE - 1"
  shows "\<exists>k st' S'. ls_write now steps bs a st = Some (k, st') \<and> ipc_wf st' \<and>
    m_currentTask (ps_tm st') = m_currentTask (ps_tm st) \<and> ps_sockets st' = (ps_sockets st)(b \<mapsto> S') \<and> same_link S S' \<and>
    k = min (length bs) (LS_QUEUE_SIZE - 1 - length (ls_contents S)) \<and> ls_contents S' = ls_contents S @ take k bs \<and>
    (k > 0 \<longrightarrow> (\<forall>t\<in>snd ` set (m_readWaitQueue S). \<exists>gid. is_ready (m_taskHashmap (ps_tm st')) gid t)) \<and>
    (k > 0 \<and> ls_contents S = [] \<longrightarrow> (\<forall>p P x j. p \<in> snd ` set (m_eventListenerList S) \<longrightarrow> ps_pipes st p = Some P \<longrightarrow>
       x \<in> snd ` set (m_listeners P) \<longrightarrow> bit (interestedEvents x AND EVENTS_READABLE) j \<longrightarrow> told st' x j))"
proof -
  define S1 where "S1 = S\<lparr>m_writeWaitQueue := m_writeWaitQueue S @ [(ps_next st, m_currentTask (ps_tm st))]\<rparr>"
  from write_enter_total [OF wf cur S(1) S1_def] obtain tm where
    e: "write_enter b st = Some (ps_next st, set_socket b S1 (st\<lparr>ps_tm := tm, ps_next := ps_next st + 1\<rparr>))"
    "wakes (ps_tm st) tm" "ipc_wf (set_socket b S1 (st\<lparr>ps_tm := tm, ps_next := ps_next st + 1\<rparr>))" by blast
  define st1 where "st1 = set_socket b S1 (st\<lparr>ps_tm := tm, ps_next := ps_next st + 1\<rparr>)"
  have st1: "ipc_wf st1" "ps_sockets st1 b = Some S1" "m_currentTask (ps_tm st1) = m_currentTask (ps_tm st)"
    "ps_sockets st1 = (ps_sockets st)(b \<mapsto> S1)" "ps_pipes st1 = ps_pipes st"
    using e(2,3) by (simp_all add: st1_def set_socket_def wakes_def)
  have inv: "cb_inv LS_QUEUE_SIZE (ls_queue S)" using ipc_wf_socket [OF wf S(1)] by (simp add: socket_wf_def)
  have full: "is_queue_full LS_QUEUE_SIZE (ls_queue S) \<longleftrightarrow> length (ls_contents S) = LS_QUEUE_SIZE - 1"
    by (rule cb_full_iff [OF inv])
  have empty: "is_queue_empty (ls_queue S) \<longleftrightarrow> ls_contents S = []" by (rule cb_empty_iff [OF inv])
  show ?thesis
  proof (cases "length (ls_contents S) = LS_QUEUE_SIZE - 1")
    case True
    then have "m_shouldNotBlock A" using S(3) by simp
    then have "ls_write now steps bs a st = Some (0, st1)"
      using True e(1) st1(2) S(2) A full by (simp add: ls_write_def ls_write_wait.simps S1_def st1_def)
    then show ?thesis using True st1 by (intro exI [of _ 0] exI [of _ st1] exI [of _ S1]) (simp add: S1_def same_link_def)
  next
    case False
    obtain k q' where r: "cb_write LS_QUEUE_SIZE bs (ls_queue S) = (k, q')" by force
    define S2 where "S2 = S1\<lparr>m_writeWaitQueue := filter (\<lambda>(a, _). a \<noteq> ps_next st) (m_writeWaitQueue S1), ls_queue := q'\<rparr>"
    have "ps_next st \<in> fst ` set (m_writeWaitQueue S1)" "m_connected S1" "cb_write LS_QUEUE_SIZE bs (ls_queue S1) = (k, q')"
      using S(2) r by (simp_all add: S1_def)
    from write_finish_total [OF st1(1,2) this(2,1,3) S2_def] obtain st2 where
      st2: "write_finish (ps_next st) bs b st1 = Some (k, st2)" "ipc_wf st2" "ps_sockets st2 = (ps_sockets st1)(b \<mapsto> S2)"
      "m_currentTask (ps_tm st2) = m_currentTask (ps_tm st1)"
      "k > 0 \<longrightarrow> (\<forall>t\<in>snd ` set (m_readWaitQueue S1). \<exists>gid. is_ready (m_taskHashmap (ps_tm st2)) gid t)"
      "k > 0 \<and> is_queue_empty (ls_queue S1) \<longrightarrow> (\<forall>p P x j. p \<in> snd ` set (m_eventListenerList S1) \<longrightarrow>
       ps_pipes st1 p = Some P \<longrightarrow> x \<in> snd ` set (m_listeners P) \<longrightarrow> bit (interestedEvents x AND EVENTS_READABLE) j \<longrightarrow>
       told st2 x j)" by blast
    have "ls_write now steps bs a st = Some (k, st2)"
      using e(1) st1(2) False full st2(1) A by (simp add: ls_write_def ls_write_wait.simps S1_def st1_def)
    moreover have "k = min (length bs) (LS_QUEUE_SIZE - 1 - length (ls_contents S))"
      "ls_contents S2 = ls_contents S @ take k bs" using cb.put_law [OF inv r] by (simp_all add: S2_def)
    moreover have "same_link S S2" "m_readWaitQueue S1 = m_readWaitQueue S" "ls_queue S1 = ls_queue S"
      "m_eventListenerList S1 = m_eventListenerList S" by (simp_all add: same_link_def S1_def S2_def)
    ultimately show ?thesis using st2 st1(3-5) empty
      by (intro exI [of _ k] exI [of _ st2] exI [of _ S2]) simp
  qed
qed

subsection \<open>A connected pair is a channel\<close>

text \<open>
  The contract of a bounded channel that never blocks: both operations always return, and transfer as much
  as fits or is there.
\<close>

locale byte_channel =
  fixes inv :: "'s \<Rightarrow> bool"
    and contents :: "'s \<Rightarrow> byte list"
    and capacity :: nat
    and put :: "byte list \<Rightarrow> 's \<Rightarrow> (nat \<times> 's) option"
    and get :: "nat \<Rightarrow> 's \<Rightarrow> (nat \<times> byte list \<times> 's) option"
  assumes put_total: "inv s \<Longrightarrow> \<exists>n s'. put bs s = Some (n, s') \<and> inv s' \<and>
      n = min (length bs) (capacity - length (contents s)) \<and> contents s' = contents s @ take n bs"
    and get_total: "inv s \<Longrightarrow> \<exists>n s'. get k s = Some (n, take n (contents s), s') \<and> inv s' \<and>
      n = min k (length (contents s)) \<and> contents s' = drop n (contents s)"
begin

fun transfer :: "stream_op list \<Rightarrow> 's \<Rightarrow> (byte list \<times> byte list \<times> 's) option" where
  "transfer [] s = Some ([], [], s)"
| "transfer (Put bs # ops) s = do {
     (n, s) \<leftarrow> put bs s;
     (ins, outs, s) \<leftarrow> transfer ops s;
     Some (take n bs @ ins, outs, s)
   }"
| "transfer (Get k # ops) s = do {
     (n, bs, s) \<leftarrow> get k s;
     (ins, outs, s) \<leftarrow> transfer ops s;
     Some (ins, bs @ outs, s)
   }"

lemma transfer_fifo:
  "inv s \<Longrightarrow> \<exists>ins outs s'. transfer ops s = Some (ins, outs, s') \<and> inv s' \<and> contents s @ ins = outs @ contents s'"
proof (induction ops arbitrary: s)
  case (Cons op ops)
  show ?case
  proof (cases op)
    case (Put bs)
    obtain n s1 where "put bs s = Some (n, s1)" "inv s1" "contents s1 = contents s @ take n bs"
      using put_total [OF Cons.prems] by blast
    with Cons.IH [of s1] show ?thesis by (auto simp: Put)
  next
    case (Get k)
    obtain n s1 where "get k s = Some (n, take n (contents s), s1)" "inv s1" "contents s1 = drop n (contents s)"
      using get_total [OF Cons.prems] by blast
    moreover from this(2) Cons.IH obtain ins outs s' where
      "transfer ops s1 = Some (ins, outs, s')" "inv s'" "contents s1 @ ins = outs @ contents s'" by blast
    ultimately show ?thesis by (simp add: Get) (metis append.assoc append_take_drop_id)
  qed
qed simp

end

definition pair_inv :: "addr \<Rightarrow> addr \<Rightarrow> PipeState \<Rightarrow> bool" where
  "pair_inv a b st \<longleftrightarrow> ipc_wf st \<and> m_currentTask (ps_tm st) \<noteq> 0 \<and>
     (\<exists>A B. ps_sockets st a = Some A \<and> m_endpoint A = Some b \<and> m_shouldNotBlock A \<and>
        ps_sockets st b = Some B \<and> m_connected B \<and> m_shouldNotBlock B)"

definition pair_contents :: "addr \<Rightarrow> PipeState \<Rightarrow> byte list" where
  "pair_contents b st = (case ps_sockets st b of Some B \<Rightarrow> ls_contents B | None \<Rightarrow> [])"

lemma pair_inv_same_link:
  assumes "pair_inv a b st" "ps_sockets st b = Some B" "same_link B B'" "ps_sockets st' = (ps_sockets st)(b \<mapsto> B')"
    "ipc_wf st'" "m_currentTask (ps_tm st') = m_currentTask (ps_tm st)"
  shows "pair_inv a b st' \<and> pair_contents b st' = ls_contents B'"
  using assms by (cases "a = b") (auto simp: pair_inv_def pair_contents_def same_link_def)

interpretation pair: byte_channel "pair_inv a b" "pair_contents b" "LS_QUEUE_SIZE - 1"
  "\<lambda>bs. ls_write now [] bs a" "\<lambda>k. ls_read now [] k b"
  for a b now
proof unfold_locales
  fix st bs assume p: "pair_inv a b st"
  then obtain A B where AB: "ps_sockets st a = Some A" "m_endpoint A = Some b" "m_shouldNotBlock A"
    "ps_sockets st b = Some B" "m_connected B" "m_shouldNotBlock B" "ipc_wf st" "m_currentTask (ps_tm st) \<noteq> 0"
    by (auto simp: pair_inv_def)
  have c: "pair_contents b st = ls_contents B" using AB(4) by (simp add: pair_contents_def)
  from ls_write_total [OF AB(7,8,1,2,4,5) disjI1 [OF AB(3)], of now "[]" bs] obtain k st' B' where
    w: "ls_write now [] bs a st = Some (k, st')" "ipc_wf st'" "m_currentTask (ps_tm st') = m_currentTask (ps_tm st)"
    "ps_sockets st' = (ps_sockets st)(b \<mapsto> B')" "same_link B B'"
    "k = min (length bs) (LS_QUEUE_SIZE - 1 - length (ls_contents B))" "ls_contents B' = ls_contents B @ take k bs" by blast
  show "\<exists>n s'. ls_write now [] bs a st = Some (n, s') \<and> pair_inv a b s' \<and>
      n = min (length bs) (LS_QUEUE_SIZE - 1 - length (pair_contents b st)) \<and>
      pair_contents b s' = pair_contents b st @ take n bs"
    using w pair_inv_same_link [OF p AB(4) w(5,4,2,3)] c by (intro exI [of _ k] exI [of _ st']) simp
next
  fix st k assume p: "pair_inv a b st"
  then obtain B where B: "ps_sockets st b = Some B" "m_connected B" "m_shouldNotBlock B" "ipc_wf st" "m_currentTask (ps_tm st) \<noteq> 0"
    by (auto simp: pair_inv_def)
  have c: "pair_contents b st = ls_contents B" using B(1) by (simp add: pair_contents_def)
  from ls_read_total [OF B(4,5,1,2) disjI1 [OF B(3)], of now "[]" k] obtain n st' B' where
    r: "ls_read now [] k b st = Some (n, take n (ls_contents B), st')" "ipc_wf st'"
    "m_currentTask (ps_tm st') = m_currentTask (ps_tm st)" "ps_sockets st' = (ps_sockets st)(b \<mapsto> B')" "same_link B B'"
    "n = min k (length (ls_contents B))" "ls_contents B' = drop n (ls_contents B)" by blast
  show "\<exists>n s'. ls_read now [] k b st = Some (n, take n (pair_contents b st), s') \<and> pair_inv a b s' \<and>
      n = min k (length (pair_contents b st)) \<and> pair_contents b s' = drop n (pair_contents b st)"
    using r pair_inv_same_link [OF p B(1) r(5,4,2,3)] c by (intro exI [of _ n] exI [of _ st']) simp
qed

end
