(* ===== verification/Pipes_Pipe.thy ===== *)
theory Pipes_Pipe
  imports Pipes_Connections
begin

text \<open>
  Pipes and event listeners: \<open>Kernel/Pipes/Pipe.cpp\<close>, \<open>Pipe.h\<close> and \<open>EventListener.cpp\<close>. A device is the
  table of operations its \<open>initialise\<close> fills in, with \<^const>\<open>None\<close> for a null pointer; calling a null
  operation is a fault. \<open>m_device\<close> and \<open>m_deviceSpecific\<close> of a pipe that could not be opened are not
  initialised and are \<^const>\<open>None\<close>.

  The environment of a call holds the time, what other tasks do while the calling task is blocked, and what
  uninitialised memory contains.
\<close>

record Env =
  env_now :: nat
  env_steps :: "(PipeState \<Rightarrow> PipeState option) list"
  env_ident :: "byte list"
  env_memory :: "byte list"
  env_events :: "nat \<Rightarrow> Event"
  env_word :: u64

record DeviceOperations =
  dop_open :: "(int \<Rightarrow> PipeState \<Rightarrow> (addr \<times> PipeState) option) option"
  dop_close :: "(addr \<Rightarrow> PipeState \<Rightarrow> PipeState option) option"
  dop_read :: "(u64 \<Rightarrow> nat \<Rightarrow> addr \<Rightarrow> PipeState \<Rightarrow> (nat \<times> byte list \<times> PipeState) option) option"
  dop_write :: "(u64 \<Rightarrow> byte list \<Rightarrow> addr \<Rightarrow> PipeState \<Rightarrow> (nat \<times> PipeState) option) option"
  dop_notify :: "(addr option \<Rightarrow> addr \<Rightarrow> PipeState \<Rightarrow> (u64 \<times> addr option \<times> PipeState) option) option"
  dop_denotify :: "(addr option \<Rightarrow> addr \<Rightarrow> PipeState \<Rightarrow> PipeState option) option"
  dop_info :: "(addr \<Rightarrow> PipeState \<Rightarrow> nat option) option"

definition set_pipe :: "addr \<Rightarrow> Pipe \<Rightarrow> PipeState \<Rightarrow> PipeState" where
  "set_pipe p P st = st\<lparr>ps_pipes := (ps_pipes st)(p \<mapsto> P)\<rparr>"

definition set_listener :: "addr \<Rightarrow> EventListener \<Rightarrow> PipeState \<Rightarrow> PipeState" where
  "set_listener l L st = st\<lparr>ps_listeners := (ps_listeners st)(l \<mapsto> L)\<rparr>"

subsection \<open>Waiting for events\<close>

definition el_new :: EventListener where
  "el_new = \<lparr>m_eventNotifRegs = [], el_waitQueue = [], m_resultPtrQueue = [], m_raisedEvents = []\<rparr>"

definition el_open :: "int \<Rightarrow> PipeState \<Rightarrow> addr \<times> PipeState" where
  "el_open flags st = (ps_next st, set_listener (ps_next st) el_new (st\<lparr>ps_next := ps_next st + 1\<rparr>))"

definition listen_enter :: "addr \<Rightarrow> addr \<Rightarrow> int \<Rightarrow> PipeState \<Rightarrow> (addr \<times> addr \<times> bool \<times> PipeState) option" where
  "listen_enter l eventListResult maxEvents st = do {
     L \<leftarrow> ps_listeners st l;
     (wqItem, q, tm) \<leftarrow> add_to_queue (ps_next st) (el_waitQueue L) (ps_tm st);
     let it = ps_next st + 1;
     let L = L\<lparr>el_waitQueue := q, m_resultPtrQueue := m_resultPtrQueue L @ [(it, eventListResult, maxEvents)]\<rparr>;
     Some (wqItem, it, m_raisedEvents L = [], set_listener l L (st\<lparr>ps_tm := tm, ps_next := ps_next st + 2\<rparr>))
   }"

definition listen_finish :: "addr \<Rightarrow> addr \<Rightarrow> addr \<Rightarrow> PipeState \<Rightarrow> (nat \<times> PipeState) option" where
  "listen_finish wqItem it l st = do {
     L \<leftarrow> ps_listeners st l;
     let eventsReceived = length (m_raisedEvents L);
     let L = L\<lparr>m_raisedEvents := []\<rparr>;
     if it \<notin> fst ` set (m_resultPtrQueue L) then None
     else do {
       let L = L\<lparr>m_resultPtrQueue := filter (\<lambda>(a, _). a \<noteq> it) (m_resultPtrQueue L)\<rparr>;
       q \<leftarrow> remove_from_queue wqItem (el_waitQueue L);
       Some (eventsReceived, set_listener l (L\<lparr>el_waitQueue := q\<rparr>) st)
     }
   }"

definition el_listen :: "Env \<Rightarrow> addr \<Rightarrow> addr \<Rightarrow> int \<Rightarrow> PipeState \<Rightarrow> (nat \<times> PipeState) option" where
  "el_listen env l eventListResult maxEvents st = do {
     (wqItem, it, eventQueueEmpty, st) \<leftarrow> listen_enter l eventListResult maxEvents st;
     st \<leftarrow> (if eventQueueEmpty
            then case env_steps env of
                   [] \<Rightarrow> None
                 | during # _ \<Rightarrow> do { tm \<leftarrow> block (env_now env) (ps_tm st); during (st\<lparr>ps_tm := tm\<rparr>) }
            else el_wake l st);
     listen_finish wqItem it l st
   }"

definition sizeof_Event :: nat where "sizeof_Event = 16"

definition le64_bytes :: "u64 \<Rightarrow> byte list" where
  "le64_bytes w = map (\<lambda>i. ucast (drop_bit (8 * i) w)) [0..<8]"

definition event_bytes :: "Event \<Rightarrow> byte list" where
  "event_bytes e = le64_bytes (eventsRaised e) @ le64_bytes (ev_pd e)"

definition el_read :: "Env \<Rightarrow> nat \<Rightarrow> addr \<Rightarrow> PipeState \<Rightarrow> (nat \<times> byte list \<times> PipeState) option" where
  "el_read env cnt l st = do {
     let maxEvents = sint (of_nat (cnt div sizeof_Event) :: u32);
     let events = ps_next st;
     let st = st\<lparr>ps_buffers := (ps_buffers st)(events \<mapsto> map (env_events env) [0..<cnt]), ps_next := ps_next st + 1\<rparr>;
     (received, st) \<leftarrow> el_listen env l events maxEvents st;
     let raised = received * sizeof_Event;
     buf \<leftarrow> ps_buffers st events;
     if length buf < received then None
     else Some (raised, concat (map event_bytes (take received buf)),
                st\<lparr>ps_buffers := (ps_buffers st)(events := None)\<rparr>)
   }"

subsection \<open>Pipes\<close>

text \<open>
  \<open>m_listeners.erase(notifReg)\<close> with the end iterator or a node that has been erased is a fault.
  The device of a pipe is only told when its last listener goes away. \<open>dev_denotify\<close> is the entry \<open>denotify\<close> of
  the table of a device.
\<close>

definition dev_denotify :: "device \<Rightarrow> (addr option \<Rightarrow> addr \<Rightarrow> PipeState \<Rightarrow> PipeState option) option" where
  "dev_denotify d = (case d of SOCKET_LOCAL \<Rightarrow> Some ls_denotify | ELISTENER \<Rightarrow> None)"

definition pipe_unnotify :: "addr \<Rightarrow> addr option \<Rightarrow> PipeState \<Rightarrow> PipeState option" where
  "pipe_unnotify p notifReg st = do {
     P \<leftarrow> ps_pipes st p;
     node \<leftarrow> notifReg;
     if node \<notin> fst ` set (m_listeners P) then None
     else do {
       let P = P\<lparr>m_listeners := filter (\<lambda>(a, _). a \<noteq> node) (m_listeners P)\<rparr>;
       let st = set_pipe p P st;
       d \<leftarrow> m_device P;
       case dev_denotify d of
         None \<Rightarrow> Some st
       | Some denotify \<Rightarrow>
           (case m_devReceipt P of
              None \<Rightarrow> Some st
            | Some receipt \<Rightarrow>
                if length (m_listeners P) = 0 then do { ds \<leftarrow> m_deviceSpecific P; denotify receipt ds st }
                else Some st)
     }
   }"

fun unnotify_all ::
  "((addr \<times> u64) \<times> addr option) list \<Rightarrow> PipeState \<Rightarrow> PipeState option" where
  "unnotify_all [] st = Some st"
| "unnotify_all (((p, _), reg) # regs) st = do {
     st \<leftarrow> pipe_unnotify p reg st;
     unnotify_all regs st
   }"

definition el_close :: "addr \<Rightarrow> PipeState \<Rightarrow> PipeState option" where
  "el_close l st = do {
     L \<leftarrow> ps_listeners st l;
     st \<leftarrow> unnotify_all (m_eventNotifRegs L) st;
     Some (st\<lparr>ps_listeners := (ps_listeners st)(l := None)\<rparr>)
   }"

definition local_socket_operations :: "Env \<Rightarrow> DeviceOperations" where
  "local_socket_operations env =
     \<lparr>dop_open = Some (\<lambda>flags st. Some (ls_open flags (env_ident env) (env_memory env) st)),
      dop_close = Some ls_close,
      dop_read = Some (\<lambda>offset cnt. ls_read (env_now env) (env_steps env) cnt),
      dop_write = Some (\<lambda>offset buf. ls_write (env_now env) (env_steps env) buf),
      dop_notify = Some ls_notify,
      dop_denotify = dev_denotify SOCKET_LOCAL,
      dop_info = None\<rparr>"

definition elistener_operations :: "Env \<Rightarrow> DeviceOperations" where
  "elistener_operations env =
     \<lparr>dop_open = Some (\<lambda>flags st. Some (el_open flags st)),
      dop_close = Some el_close,
      dop_read = Some (\<lambda>offset cnt. el_read env cnt),
      dop_write = None,
      dop_notify = None,
      dop_denotify = dev_denotify ELISTENER,
      dop_info = None\<rparr>"

definition operations :: "Env \<Rightarrow> device \<Rightarrow> DeviceOperations" where
  "operations env d = (case d of SOCKET_LOCAL \<Rightarrow> local_socket_operations env | ELISTENER \<Rightarrow> elistener_operations env)"

definition register_device :: "byte list \<Rightarrow> device \<Rightarrow> PipeState \<Rightarrow> PipeState" where
  "register_device name ops st =
     (if pipeDevices st name = None then st\<lparr>pipeDevices := (pipeDevices st)(name \<mapsto> ops)\<rparr> else st)"

definition pipe_closed :: Pipe where
  "pipe_closed = \<lparr>m_deviceSpecific = None, m_isOpen = False, m_device = None, m_offset = 0, m_listeners = [], m_devReceipt = None\<rparr>"

definition pipe_construct :: "Env \<Rightarrow> byte list \<Rightarrow> int \<Rightarrow> PipeState \<Rightarrow> (Pipe \<times> PipeState) option" where
  "pipe_construct env name flags st =
     (case pipeDevices st name of
        None \<Rightarrow> Some (pipe_closed, st)
      | Some d \<Rightarrow>
          (case dop_open (operations env d) of
             None \<Rightarrow> Some (pipe_closed, st)
           | Some open \<Rightarrow> do {
               (ds, st) \<leftarrow> open flags st;
               Some (pipe_closed\<lparr>m_deviceSpecific := Some ds, m_isOpen := True, m_device := Some d\<rparr>, st)
             }))"

definition has_active_connection :: "Pipe \<Rightarrow> bool" where
  "has_active_connection P = m_isOpen P"

definition pipe_destruct :: "Env \<Rightarrow> Pipe \<Rightarrow> PipeState \<Rightarrow> PipeState option" where
  "pipe_destruct env P st =
     (if \<not> has_active_connection P then Some st
      else do {
        d \<leftarrow> m_device P;
        case dop_close (operations env d) of
          None \<Rightarrow> Some st
        | Some close \<Rightarrow> do { ds \<leftarrow> m_deviceSpecific P; close ds st }
      })"

datatype SeekType = SEEK_SET | SEEK_CUR | SEEK_END

definition pipe_seek :: "int \<Rightarrow> SeekType \<Rightarrow> Pipe \<Rightarrow> u64 \<times> Pipe" where
  "pipe_seek cnt type P =
     (let P = (case type of
                 SEEK_CUR \<Rightarrow> P\<lparr>m_offset := m_offset P + of_int cnt\<rparr>
               | SEEK_SET \<Rightarrow> P\<lparr>m_offset := of_int cnt\<rparr>
               | SEEK_END \<Rightarrow> P)
      in (m_offset P, P))"

definition pipe_read :: "Env \<Rightarrow> addr \<Rightarrow> nat \<Rightarrow> PipeState \<Rightarrow> (nat \<times> byte list \<times> PipeState) option" where
  "pipe_read env p cnt st = do {
     P \<leftarrow> ps_pipes st p;
     if \<not> has_active_connection P then Some (0, [], st)
     else do {
       d \<leftarrow> m_device P;
       case dop_read (operations env d) of
         None \<Rightarrow> Some (0, [], st)
       | Some read \<Rightarrow> do {
           ds \<leftarrow> m_deviceSpecific P;
           (readCount, buf, st) \<leftarrow> read (m_offset P) cnt ds st;
           P \<leftarrow> ps_pipes st p;
           Some (readCount, buf, set_pipe p (snd (pipe_seek (int readCount) SEEK_CUR P)) st)
         }
     }
   }"

definition pipe_write :: "Env \<Rightarrow> addr \<Rightarrow> byte list \<Rightarrow> PipeState \<Rightarrow> (nat \<times> PipeState) option" where
  "pipe_write env p buf st = do {
     P \<leftarrow> ps_pipes st p;
     if \<not> has_active_connection P then Some (0, st)
     else do {
       d \<leftarrow> m_device P;
       case dop_write (operations env d) of
         None \<Rightarrow> Some (0, st)
       | Some write \<Rightarrow> do {
           ds \<leftarrow> m_deviceSpecific P;
           (writeCount, st) \<leftarrow> write (m_offset P) buf ds st;
           P \<leftarrow> ps_pipes st p;
           Some (writeCount, set_pipe p (snd (pipe_seek (int writeCount) SEEK_CUR P)) st)
         }
     }
   }"

text \<open>\<open>info\<close> tests the operation \<open>write\<close> and calls \<open>info\<close>.\<close>

definition pipe_info :: "Env \<Rightarrow> addr \<Rightarrow> PipeState \<Rightarrow> nat option" where
  "pipe_info env p st = do {
     P \<leftarrow> ps_pipes st p;
     if \<not> has_active_connection P then Some 0
     else do {
       d \<leftarrow> m_device P;
       case dop_write (operations env d) of
         None \<Rightarrow> Some 0
       | Some _ \<Rightarrow> do { info \<leftarrow> dop_info (operations env d); ds \<leftarrow> m_deviceSpecific P; info ds st }
     }
   }"

definition pipe_swap :: "Pipe \<Rightarrow> Pipe \<Rightarrow> Pipe \<times> Pipe" where
  "pipe_swap a b =
     (a\<lparr>m_isOpen := m_isOpen b, m_device := m_device b, m_deviceSpecific := m_deviceSpecific b, m_offset := m_offset b,
        m_listeners := m_listeners b, m_devReceipt := m_devReceipt b\<rparr>,
      b\<lparr>m_isOpen := m_isOpen a, m_device := m_device a, m_deviceSpecific := m_deviceSpecific a, m_offset := m_offset a,
        m_listeners := m_listeners a, m_devReceipt := m_devReceipt a\<rparr>)"

definition pipe_move :: "Pipe \<Rightarrow> Pipe \<times> Pipe" where
  "pipe_move P = (case pipe_swap P pipe_closed of (old, new) \<Rightarrow> (new, old))"

text \<open>\<open>currentMask\<close> is only set when the device was asked: \<^const>\<open>None\<close> leaves the caller's variable as it is.\<close>

definition ask_device ::
  "(addr option \<Rightarrow> addr \<Rightarrow> PipeState \<Rightarrow> (u64 \<times> addr option \<times> PipeState) option) \<Rightarrow> addr \<Rightarrow> PipeState \<Rightarrow>
   (u64 \<times> PipeState) option" where
  "ask_device notify p st = do {
     P \<leftarrow> ps_pipes st p;
     ds \<leftarrow> m_deviceSpecific P;
     if m_devReceipt P \<noteq> None then do {
       (maskOut, _, st) \<leftarrow> notify None ds st;
       Some (maskOut, st)
     } else do {
       (maskOut, receipt, st) \<leftarrow> notify (Some p) ds st;
       P \<leftarrow> ps_pipes st p;
       Some (maskOut, set_pipe p (P\<lparr>m_devReceipt := Some receipt\<rparr>) st)
     }
   }"

definition pipe_notify :: "Env \<Rightarrow> addr \<Rightarrow> u64 \<Rightarrow> addr \<Rightarrow> u64 \<Rightarrow> PipeState \<Rightarrow> (addr option \<times> u64 option \<times> PipeState) option" where
  "pipe_notify env p eventMask listener pd st = do {
     P \<leftarrow> ps_pipes st p;
     if \<not> m_isOpen P then Some (None, None, st)
     else do {
       d \<leftarrow> m_device P;
       case dop_notify (operations env d) of
         None \<Rightarrow> Some (None, None, st)
       | Some notify \<Rightarrow> do {
           let l = \<lparr>interestedEvents = eventMask, l_listener = listener, l_pd = pd\<rparr>;
           let P = P\<lparr>m_listeners := m_listeners P @ [(ps_next st, l)]\<rparr>;
           (maskOut, st') \<leftarrow> ask_device notify p (set_pipe p P (st\<lparr>ps_next := ps_next st + 1\<rparr>));
           Some (Some (ps_next st), Some maskOut, st')
         }
     }
   }"

definition el_add :: "Env \<Rightarrow> addr \<Rightarrow> addr \<Rightarrow> u64 \<Rightarrow> u64 \<Rightarrow> PipeState \<Rightarrow> PipeState option" where
  "el_add env listener p pd eventMask st = do {
     l \<leftarrow> socket_of listener st;
     L \<leftarrow> ps_listeners st l;
     (pipeNotifReg, current, st) \<leftarrow> pipe_notify env p eventMask l pd st;
     let currentEvents = (case current of None \<Rightarrow> env_word env | Some m \<Rightarrow> m);
     L \<leftarrow> ps_listeners st l;
     let L = (if (p, eventMask) \<in> fst ` set (m_eventNotifRegs L) then L
              else L\<lparr>m_eventNotifRegs := m_eventNotifRegs L @ [((p, eventMask), pipeNotifReg)]\<rparr>);
     let st = set_listener l L st;
     if currentEvents AND eventMask \<noteq> 0 then inform l (currentEvents AND eventMask) pd st else Some st
   }"

definition el_remove :: "Env \<Rightarrow> addr \<Rightarrow> addr \<Rightarrow> u64 \<Rightarrow> u64 \<Rightarrow> PipeState \<Rightarrow> PipeState option" where
  "el_remove env listener p pd event st = do {
     l \<leftarrow> socket_of listener st;
     L \<leftarrow> ps_listeners st l;
     case map_of (m_eventNotifRegs L) (p, event) of
       None \<Rightarrow> Some st
     | Some reg \<Rightarrow> pipe_unnotify p reg st
   }"

end
