(* ===== verification/Pipes_Properties.thy ===== *)
theory Pipes_Properties
  imports Pipes_Pipe
begin

text \<open>
  Properties of pipes, local sockets and event listeners: the references that stay valid whatever the tasks do as
  long as nothing is closed, the channel between two connected sockets, delivery of events, and the defects of
  the connection handshake, of removing a listener and of closing a socket.
\<close>

subsection \<open>Tasks stay launched\<close>

lemma scheduler_tasks:
  "schedule_group gid s = Some s' \<Longrightarrow> m_taskHashmap s' = m_taskHashmap s"
  by (auto simp: schedule_group_def lookup_defs dest: tasks_scheduler(1) split: option.splits)

lemma unblock_started: "unblock tid s = Some s' \<Longrightarrow> launched s t \<Longrightarrow> launched s' t"
  by (auto simp: unblock_def lookup_defs Let_def launched_def dest!: scheduler_tasks split: option.splits if_splits)

lemma wake_sleepers_started: "wake_sleepers now ss s = Some s' \<Longrightarrow> launched s t \<Longrightarrow> launched s' t"
proof (induction ss arbitrary: s)
  case (Cons x ss)
  show ?case
  proof (cases "now \<ge> st_wakeTime x")
    case True
    then obtain s1 where s1: "unblock (st_tid x) (s\<lparr>m_sleepingTasks := ss\<rparr>) = Some s1" "wake_sleepers now ss s1 = Some s'"
      using Cons.prems(1) by (auto simp: lockless_unblock_eq split: option.splits)
    have "launched (s\<lparr>m_sleepingTasks := ss\<rparr>) t" using Cons.prems(2) by (simp add: launched_def)
    then show ?thesis using Cons.IH [OF s1(2) unblock_started [OF s1(1)]] by blast
  next
    case False
    then show ?thesis using Cons.prems by (auto simp: launched_def)
  qed
qed (auto simp: launched_def)

lemma choose_task_started: "choose_task now s = Some s' \<Longrightarrow> launched s t \<Longrightarrow> launched s' t"
  by (auto simp: choose_task_def get_next_task_def enter_task_def lookup_defs Let_def launched_def
      dest!: tasks_scheduler(2,3) split: option.splits if_splits)

lemma refresh_started: "refresh now s = Some s' \<Longrightarrow> launched s t \<Longrightarrow> launched s' t"
proof -
  assume r: "refresh now s = Some s'" "launched s t"
  obtain s1 where s1: "wake_sleepers now (m_sleepingTasks s) s = Some s1" using r(1) by (auto simp: refresh_def split: option.splits)
  have "launched (s1\<lparr>m_schedulerChangingTask := True\<rparr>) t" "launched s1 t"
    using wake_sleepers_started [OF s1 r(2)] by (simp_all add: launched_def)
  then show ?thesis using r(1) s1 choose_task_started by (auto simp: refresh_def split: if_splits)
qed

lemma announce_started: "about_to_block s = Some s' \<Longrightarrow> launched s t \<Longrightarrow> launched s' t"
  by (auto simp: about_to_block_def lookup_defs launched_def split: option.splits if_splits)

lemma block_started:
  assumes "block now s = Some s'" "launched s t"
  shows "launched s' t"
proof -
  obtain k where k: "get_current_task s = Some k" using assms(1) by (auto simp: block_def split: option.splits)
  show ?thesis
  proof (cases "t_blockFlag k")
    case False
    then show ?thesis using assms k by (simp add: block_def)
  next
    case True
    then obtain g where g: "get_group_from_gid (t_groupId k) (set_task (m_currentTask s) (k\<lparr>t_state := WAIT\<rparr>) s) = Some g"
      using assms(1) k by (auto simp: block_def Let_def split: option.splits)
    show ?thesis
    proof (rule refresh_started)
      show "refresh now (deschedule_current_task (set_group (t_groupId k)
          (g\<lparr>g_readyTasks := remove1 (t_tid k) (g_readyTasks g)\<rparr>) (set_task (m_currentTask s) (k\<lparr>t_state := WAIT\<rparr>) s))) = Some s'"
        using assms(1) k g True by (simp add: block_def Let_def)
    next
      show "launched (deschedule_current_task (set_group (t_groupId k)
          (g\<lparr>g_readyTasks := remove1 (t_tid k) (g_readyTasks g)\<rparr>) (set_task (m_currentTask s) (k\<lparr>t_state := WAIT\<rparr>) s))) t"
        using assms(2) by (auto simp: launched_def deschedule_current_task_def lookup_defs Let_def split: option.splits)
    qed
  qed
qed

lemma launch_started:
  assumes "tm_inv x s" "launch_task desc m s = Inr (m', Some (tid, s'))" "launched s t"
  shows "launched s' t"
proof -
  have "\<And>tid x. m_taskHashmap s tid = Some x \<Longrightarrow> tid \<le> m_taskCount s"
    using assms(1) unfolding tm_inv_def tm_base_def tasks_ok_def by blast
  then show ?thesis using assms(2,3)
    by (fastforce simp: launch_task_def register_task_def lookup_defs launched_def Let_def
        dest!: scheduler_tasks split: sum.splits option.splits if_splits)
qed

lemma tm_step_started:
  assumes "tm_step s s'" "tm_inv x s" "launched s t"
  shows "launched s' t"
  using assms
proof (induction rule: tm_step.induct)
  case (step_begin now s s')
  then have "launched (s\<lparr>m_isActive := True\<rparr>) t" by (simp add: launched_def)
  then show ?case using step_begin refresh_started by (auto simp: begin_tasks_def)
next
  case (step_sleep s now time s')
  show ?case
  proof (cases "now \<ge> time")
    case True
    then show ?thesis using step_sleep by (simp add: sleep_until_def)
  next
    case False
    then obtain s1 q where s1: "about_to_block s = Some s1" "block now (s1\<lparr>m_sleepingTasks := q\<rparr>) = Some s'"
      using step_sleep(2) by (auto simp: sleep_until_def split: option.splits)
    have "launched (s1\<lparr>m_sleepingTasks := q\<rparr>) t" using announce_started [OF s1(1) step_sleep(4)] by (simp add: launched_def)
    then show ?thesis using block_started [OF s1(2)] by blast
  qed
next
  case (step_terminate s now s')
  then show ?case using announce_started block_started by (fastforce simp: terminate_task_def split: option.splits)
qed (auto simp: resume_idle_def dest: refresh_started choose_task_started announce_started block_started unblock_started launch_started)

subsection \<open>Steps keep the references valid\<close>

definition below_next :: "PipeState \<Rightarrow> bool" where
  "below_next st \<longleftrightarrow> dom (ps_sockets st) \<union> dom (ps_pipes st) \<union> dom (ps_listeners st) \<union> dom (ps_buffers st) \<subseteq> {..<ps_next st}"

definition ipc_ok :: "PipeState \<Rightarrow> bool" where
  "ipc_ok st \<longleftrightarrow> ipc_wf st \<and> below_next st"

lemma ipc_okD: "ipc_ok st \<Longrightarrow> ipc_wf st" "ipc_ok st \<Longrightarrow> tm_reachable (ps_tm st)" "ipc_ok st \<Longrightarrow> events_wf st"
  by (simp_all add: ipc_ok_def ipc_wf_def events_wf_def)

lemma ipc_ok_next: "ipc_ok st \<Longrightarrow> ps_next st \<le> m \<Longrightarrow> ipc_ok (st\<lparr>ps_next := m\<rparr>)"
  by (auto simp: ipc_ok_def below_next_def)

lemma ipc_ok_tm:
  assumes "ipc_ok st" "tm_reachable tm" "\<forall>t. launched (ps_tm st) t \<longrightarrow> launched tm t"
  shows "ipc_ok (st\<lparr>ps_tm := tm\<rparr>)"
  using assms ipc_wf_tm by (auto simp: ipc_ok_def below_next_def)

lemma ipc_ok_set:
  assumes "ipc_ok st" "ps_sockets st n = Some S" "socket_wf st S'" "m_tid S' = m_tid S \<or> launched (ps_tm st) (m_tid S')"
  shows "ipc_ok (set_socket n S' st)"
  using assms ipc_wf_set [of st n S S'] by (auto simp: ipc_ok_def below_next_def set_socket_def)

lemma ipc_ok_informed:
  assumes "ipc_ok st" "informed st st'" "events_wf st'" "dom (ps_buffers st') = dom (ps_buffers st)"
  shows "ipc_ok st'"
  using assms ipc_wf_informed [of st st'] by (simp add: ipc_ok_def below_next_def informed_def)

text \<open>Raising events does not create buffers.\<close>

lemma fill_results_dom: "fill_results q raised bs = Some bs' \<Longrightarrow> dom bs' = dom bs"
  by (induction q raised bs rule: fill_results.induct) (auto split: Option.bind_splits)

lemma el_wake_buffers: "el_wake l st = Some st' \<Longrightarrow> dom (ps_buffers st') = dom (ps_buffers st)"
  by (clarsimp simp: el_wake_def fill_results_dom split: Option.bind_splits if_splits)

lemma inform_buffers: "inform l m pd st = Some st' \<Longrightarrow> dom (ps_buffers st') = dom (ps_buffers st)"
  by (clarsimp simp: inform_def split: Option.bind_splits) (drule el_wake_buffers, simp)

lemma raise_to_buffers: "raise_to event ls st = Some st' \<Longrightarrow> dom (ps_buffers st') = dom (ps_buffers st)"
proof (induction event ls st rule: raise_to.induct)
  case (2 event n l ls st)
  obtain st1 where st1: "(if interestedEvents l AND event \<noteq> 0
      then inform (l_listener l) (interestedEvents l AND event) (l_pd l) st else Some st) = Some st1"
    "raise_to event ls st1 = Some st'" using 2(2) by (auto split: Option.bind_splits)
  then have "dom (ps_buffers st1) = dom (ps_buffers st)" using inform_buffers by (auto split: if_splits)
  then show ?case using 2(1) [OF st1] by simp
qed simp

lemma ell_notify_buffers: "ell_notify event ls st = Some st' \<Longrightarrow> dom (ps_buffers st') = dom (ps_buffers st)"
proof (induction event ls st rule: ell_notify.induct)
  case (2 event n pipe ls st)
  obtain st1 where st1: "raise_event pipe event st = Some st1" "ell_notify event ls st1 = Some st'"
    using 2(2) by (auto split: Option.bind_splits)
  have "dom (ps_buffers st1) = dom (ps_buffers st)"
    using st1(1) raise_to_buffers by (auto simp: raise_event_def split: Option.bind_splits)
  then show ?case using 2(1) [OF st1] by simp
qed simp

lemma ell_notify_ok:
  assumes "ipc_ok st" "snd ` set ls \<subseteq> dom (ps_pipes st)" "ell_notify e ls st = Some st'"
  shows "ipc_ok st' \<and> informed st st'"
proof -
  obtain st1 where "ell_notify e ls st = Some st1" "informed st st1" "events_wf st1"
    using ell_notify_informs [OF ipc_okD(3) [OF assms(1)] assms(2), of e] by blast
  then show ?thesis using assms ell_notify_buffers [OF assms(3)] ipc_ok_informed [OF assms(1), of st'] by simp
qed

lemma inform_ok:
  assumes "ipc_ok st" "inform l m pd st = Some st'"
  shows "ipc_ok st'"
proof -
  obtain L where L: "ps_listeners st l = Some L" using assms(2) by (auto simp: inform_def split: Option.bind_splits)
  obtain st1 where "inform l m pd st = Some st1" "informed st st1" "events_wf st1"
    using inform_informs [OF ipc_okD(3) [OF assms(1)] L] by blast
  then show ?thesis using assms inform_buffers [OF assms(2)] ipc_ok_informed [OF assms(1), of st'] by simp
qed

lemma unblock_ok:
  assumes "tm_reachable tm" "launched tm t" "unblock t tm = Some tm'"
  shows "tm_reachable tm' \<and> (\<forall>u. launched tm u \<longrightarrow> launched tm' u)"
  using reach_step [OF assms(1) step_unblock [OF assms(3)]] unblock_started [OF assms(3)] by blast

lemma announce_ok:
  assumes "tm_reachable tm" "m_currentTask tm \<noteq> 0" "about_to_block tm = Some tm'"
  shows "tm_reachable tm' \<and> (\<forall>u. launched tm u \<longrightarrow> launched tm' u) \<and> m_currentTask tm' = m_currentTask tm \<and>
    launched tm (m_currentTask tm)"
  using announce_total [OF assms(1,2)] announce_started [OF assms(3)] assms(3) by (auto simp: wakes_def)

lemma block_ok:
  assumes "tm_reachable tm" "m_currentTask tm \<noteq> 0" "block now tm = Some tm'"
  shows "tm_reachable tm' \<and> (\<forall>u. launched tm u \<longrightarrow> launched tm' u)"
  using reach_step [OF assms(1) step_block [OF assms(2,3)]] block_started [OF assms(3)] by blast

lemma bind_ok:
  assumes ok: "ipc_ok st" and b: "ls_bind p ident st = Some (r, st')"
  shows "ipc_ok st'"
proof (cases r)
  case True
  then obtain n S where n: "ps_sockets st n = Some S"
    "st' = set_socket n (S\<lparr>m_identifier := ident, m_binded := True\<rparr>) (st\<lparr>bind_map := (bind_map st)(ident \<mapsto> n)\<rparr>)"
    using b by (auto simp: ls_bind_def Let_def split: Option.bind_splits if_splits)
  let ?st = "st\<lparr>bind_map := (bind_map st)(ident \<mapsto> n)\<rparr>"
  have eq: "socket_wf ?st T \<longleftrightarrow> socket_wf st T" for T by (simp add: socket_wf_def)
  have "ipc_ok ?st" using ok n(1) by (auto simp: ipc_ok_def ipc_wf_def below_next_def eq ran_def)
  moreover have "socket_wf ?st (S\<lparr>m_identifier := ident, m_binded := True\<rparr>)"
    using ipc_wf_socket [OF ipc_okD(1) [OF ok] n(1)] by (simp add: socket_wf_def)
  ultimately show ?thesis using n by (auto intro: ipc_ok_set [of ?st n S])
next
  case False
  then have "st' = st" using b by (auto simp: ls_bind_def Let_def split: Option.bind_splits if_splits)
  then show ?thesis using ok by simp
qed

lemma listen_ok:
  assumes ok: "ipc_ok st" and b: "ls_listen p st = Some (r, st')"
  shows "ipc_ok st'"
proof -
  obtain n S where n: "socket_of p st = Some n" "ps_sockets st n = Some S"
    using b by (auto simp: ls_listen_def split: Option.bind_splits)
  have "socket_wf st (S\<lparr>m_listening := True\<rparr>)"
    using ipc_wf_socket [OF ipc_okD(1) [OF ok] n(2)] by (simp add: socket_wf_def)
  then have "ipc_ok (set_socket n (S\<lparr>m_listening := True\<rparr>) st)" by (intro ipc_ok_set [OF ok n(2)]) simp_all
  then show ?thesis using b n ok by (cases "m_binded S") (auto simp: ls_listen_def)
qed

lemma socket_wf_fields:
  assumes "socket_wf st S"
  shows "e \<in> dom (ps_sockets st) \<Longrightarrow> socket_wf st (S\<lparr>m_endpoint := Some e\<rparr>)"
    "socket_wf st (S\<lparr>m_connected := c\<rparr>)" "launched (ps_tm st) t \<Longrightarrow> socket_wf st (S\<lparr>m_tid := t\<rparr>)"
    "set qs \<subseteq> set (m_connectionQueue S) \<Longrightarrow> socket_wf st (S\<lparr>m_connectionQueue := qs\<rparr>)"
  using assms by (simp_all add: socket_wf_def domD subset_iff)

lemma set_field_ok:
  assumes ok: "ipc_ok st" and S: "ps_sockets st n = Some S"
  shows "e \<in> dom (ps_sockets st) \<Longrightarrow> ipc_ok (set_socket n (S\<lparr>m_endpoint := Some e\<rparr>) st)"
    "ipc_ok (set_socket n (S\<lparr>m_connected := c\<rparr>) st)"
    "launched (ps_tm st) t \<Longrightarrow> ipc_ok (set_socket n (S\<lparr>m_tid := t\<rparr>) st)"
    "set qs \<subseteq> set (m_connectionQueue S) \<Longrightarrow> ipc_ok (set_socket n (S\<lparr>m_connectionQueue := qs\<rparr>) st)"
  using socket_wf_fields [OF ipc_wf_socket [OF ipc_okD(1) [OF ok] S]] by (auto intro!: ipc_ok_set [OF ok S])

lemma set_socket_simps [simp]:
  "ps_sockets (set_socket n S st) = (ps_sockets st)(n \<mapsto> S)" "ps_tm (set_socket n S st) = ps_tm st"
  "ps_pipes (set_socket n S st) = ps_pipes st" "bind_map (set_socket n S st) = bind_map st"
  "ps_next (set_socket n S st) = ps_next st" "ps_listeners (set_socket n S st) = ps_listeners st"
  by (simp_all add: set_socket_def)

lemma accept_link_ok:
  assumes ok: "ipc_ok st" and T: "ps_sockets st remote = Some T" "launched (ps_tm st) (m_tid T)"
    and a: "accept_link newPipe remote st = Some st'"
  shows "ipc_ok st'"
proof -
  obtain new N where N: "socket_of newPipe st = Some new" "ps_sockets st new = Some N"
    using a unfolding accept_link_def by (cases "socket_of newPipe st"; cases "ps_sockets st (the (socket_of newPipe st))") auto
  define st2 where "st2 = set_socket new (N\<lparr>m_endpoint := Some remote\<rparr>) st"
  obtain R where R: "ps_sockets st2 remote = Some R" "m_tid R = m_tid T" using T N by (cases "remote = new") (auto simp: st2_def)
  define st3 where "st3 = set_socket remote (R\<lparr>m_endpoint := Some new\<rparr>) st2"
  obtain N' where N': "ps_sockets st3 new = Some N'" "new = remote \<Longrightarrow> m_tid N' = m_tid T"
    using R(2) by (cases "new = remote") (auto simp: st3_def st2_def)
  define st4 where "st4 = set_socket new (N'\<lparr>m_connected := True\<rparr>) st3"
  obtain R' where R': "ps_sockets st4 remote = Some R'" "m_tid R' = m_tid T"
    using R(2) N'(2) by (cases "new = remote") (auto simp: st4_def st3_def)
  have "accept_link newPipe remote st = do { tm \<leftarrow> unblock (m_tid R') (ps_tm st4); Some (st4\<lparr>ps_tm := tm\<rparr>) }"
    using N R(1) N'(1) R'(1) by (simp add: accept_link_def Let_def st2_def [symmetric] st3_def [symmetric] st4_def [symmetric]
        del: set_socket_simps)
  then obtain tm where tm: "unblock (m_tid R') (ps_tm st4) = Some tm" "st' = st4\<lparr>ps_tm := tm\<rparr>"
    using a by (auto split: Option.bind_splits)
  have ok2: "ipc_ok st2" unfolding st2_def using T by (intro set_field_ok(1) [OF ok N(2)]) auto
  have ok3: "ipc_ok st3" unfolding st3_def using N(2) by (intro set_field_ok(1) [OF ok2 R(1)]) (auto simp: st2_def)
  have ok4: "ipc_ok st4" unfolding st4_def by (rule set_field_ok(2) [OF ok3 N'(1)])
  have "launched (ps_tm st4) (m_tid R')" using T(2) R'(2) by (simp add: st4_def st3_def st2_def)
  from unblock_ok [OF ipc_okD(2) [OF ok4] this tm(1)] show ?thesis using tm(2) ipc_ok_tm [OF ok4] by blast
qed

lemma accept_take_ok:
  assumes ok: "ipc_ok st" and a: "accept_take n newPipe st = Some (r, st')"
  shows "ipc_ok st'"
proof -
  obtain S where S: "ps_sockets st n = Some S" using a by (auto simp: accept_take_def split: Option.bind_splits)
  show ?thesis
  proof (cases "m_connectionQueue S")
    case Nil
    then show ?thesis using a ok S by (simp add: accept_take_def)
  next
    case (Cons remote rest)
    let ?st = "set_socket n (S\<lparr>m_connectionQueue := rest\<rparr>) st"
    have l: "accept_link newPipe remote ?st = Some st'"
      using a S Cons by (auto simp: accept_take_def split: Option.bind_splits)
    have w: "socket_wf st S" using ipc_wf_socket [OF ipc_okD(1) [OF ok] S] .
    obtain T where "ps_sockets st remote = Some T" "launched (ps_tm st) (m_tid T)"
      using w Cons by (auto simp: socket_wf_def)
    then obtain T' where "ps_sockets ?st remote = Some T'" "launched (ps_tm ?st) (m_tid T')" using S by (cases "remote = n") auto
    moreover have "ipc_ok ?st" using Cons by (intro set_field_ok(4) [OF ok S]) auto
    ultimately show ?thesis using accept_link_ok [OF _ _ _ l] by blast
  qed
qed

lemma connect_request_ok:
  assumes ok: "ipc_ok st" and cur: "m_currentTask (ps_tm st) \<noteq> 0" and c: "connect_request n ident st = Some (r, st')"
  shows "ipc_ok st'"
proof -
  obtain S where S: "ps_sockets st n = Some S" using c by (auto simp: connect_request_def split: Option.bind_splits)
  define st1 where "st1 = set_socket n (S\<lparr>m_tid := m_currentTask (ps_tm st)\<rparr>) st"
  have s: "launched (ps_tm st) (m_currentTask (ps_tm st))" using announce_total [OF ipc_okD(2) [OF ok] cur] by blast
  have ok1: "ipc_ok st1" unfolding st1_def by (rule set_field_ok(3) [OF ok S s])
  consider "st' = st1" | remote R where "ps_sockets st1 remote = Some R"
    "(\<exists>st3. ell_notify LS_REQUEST_CONN (m_eventListenerList R)
        (set_socket remote (R\<lparr>m_connectionQueue := m_connectionQueue R @ [n]\<rparr>) st1) = Some st3 \<and> st' = st3)"
    using c S by (auto simp: connect_request_def Let_def st1_def [symmetric] simp del: set_socket_simps
        split: Option.bind_splits if_splits option.splits)
  then show ?thesis
  proof cases
    case (2 remote R)
    let ?st = "set_socket remote (R\<lparr>m_connectionQueue := m_connectionQueue R @ [n]\<rparr>) st1"
    have w: "socket_wf st1 R" using ipc_wf_socket [OF ipc_okD(1) [OF ok1] 2(1)] .
    moreover have "\<exists>T. ps_sockets st1 n = Some T \<and> launched (ps_tm st1) (m_tid T)" using s by (simp add: st1_def)
    ultimately have "socket_wf st1 (R\<lparr>m_connectionQueue := m_connectionQueue R @ [n]\<rparr>)" by (auto simp: socket_wf_def)
    then have "ipc_ok ?st" by (intro ipc_ok_set [OF ok1 2(1)]) auto
    moreover have "snd ` set (m_eventListenerList R) \<subseteq> dom (ps_pipes ?st)" using w by (simp add: socket_wf_def)
    ultimately show ?thesis using 2(2) ell_notify_ok by blast
  qed (use ok1 in simp)
qed

lemma accept_wait_ok:
  assumes ok: "ipc_ok st" and cur: "m_currentTask (ps_tm st) \<noteq> 0" and a: "accept_wait now n st = Some st'"
  shows "ipc_ok st'"
proof -
  obtain S tm1 tm2 where w: "ps_sockets st n = Some S" "about_to_block (ps_tm st) = Some tm1" "block now tm1 = Some tm2"
    "st' = (set_socket n (S\<lparr>m_tid := m_currentTask (ps_tm st)\<rparr>) st)\<lparr>ps_tm := tm2\<rparr>"
    using a by (auto simp: accept_wait_def split: Option.bind_splits)
  note b = announce_ok [OF ipc_okD(2) [OF ok] cur w(2)]
  have b2: "tm_reachable tm2 \<and> (\<forall>u. launched tm1 u \<longrightarrow> launched tm2 u)" using block_ok [OF _ _ w(3)] b cur by simp
  have "ipc_ok (set_socket n (S\<lparr>m_tid := m_currentTask (ps_tm st)\<rparr>) st)" using b by (intro set_field_ok(3) [OF ok w(1)]) simp
  then show ?thesis unfolding w(4) using b b2 by (intro ipc_ok_tm) simp_all
qed

lemma connect_wait_ok:
  assumes ok: "ipc_ok st" and cur: "m_currentTask (ps_tm st) \<noteq> 0" and c: "connect_wait now n remote rt st = Some st'"
    and R: "rt \<noteq> 0 \<longrightarrow> (\<exists>R. ps_sockets st remote = Some R \<and> m_tid R \<noteq> 0)"
  shows "ipc_ok st'"
proof -
  obtain S where S: "ps_sockets st n = Some S" using c by (auto simp: connect_wait_def split: Option.bind_splits)
  define st1 where "st1 = set_socket n (S\<lparr>m_connected := True\<rparr>) st"
  have ok1: "ipc_ok st1" unfolding st1_def by (rule set_field_ok(2) [OF ok S])
  define wake where "wake tm = (if rt \<noteq> 0 then do { R \<leftarrow> ps_sockets st1 remote; unblock (m_tid R) tm } else Some tm)" for tm
  have "connect_wait now n remote rt st =
      do { tm \<leftarrow> about_to_block (ps_tm st1); tm \<leftarrow> wake tm; tm \<leftarrow> block now tm; Some (st1\<lparr>ps_tm := tm\<rparr>) }"
    by (simp only: connect_wait_def S Option.bind.bind_lunit Let_def st1_def [symmetric] wake_def)
  then obtain tm1 tm2 tm3 where w: "about_to_block (ps_tm st1) = Some tm1" "wake tm1 = Some tm2"
    "block now tm2 = Some tm3" "st' = st1\<lparr>ps_tm := tm3\<rparr>"
    using c by (auto split: Option.bind_splits)
  have cur1: "m_currentTask (ps_tm st1) \<noteq> 0" using cur by (simp add: st1_def)
  note b = announce_ok [OF ipc_okD(2) [OF ok1] cur1 w(1)]
  have b2: "tm_reachable tm2 \<and> (\<forall>u. launched tm1 u \<longrightarrow> launched tm2 u) \<and> m_currentTask tm2 = m_currentTask tm1"
  proof (cases "rt = 0")
    case True
    then show ?thesis using w(2) b by (simp add: wake_def)
  next
    case False
    then obtain R where R1: "ps_sockets st1 remote = Some R" "m_tid R \<noteq> 0"
      using R S by (cases "remote = n") (auto simp: st1_def)
    then have "launched (ps_tm st1) (m_tid R)" using ipc_wf_socket [OF ipc_okD(1) [OF ok1] R1(1)] by (simp add: socket_wf_def)
    moreover have u: "unblock (m_tid R) tm1 = Some tm2" using w(2) False R1(1) by (simp add: wake_def)
    moreover have "m_currentTask tm2 = m_currentTask tm1" using u
      by (auto simp: unblock_def lookup_defs schedule_group_def add_group_to_queue_def Let_def split: option.splits if_splits)
    ultimately show ?thesis using unblock_ok [of tm1 "m_tid R" tm2] b by blast
  qed
  have "tm_reachable tm3 \<and> (\<forall>u. launched tm2 u \<longrightarrow> launched tm3 u)" using block_ok [OF _ _ w(3)] b b2 cur1 by simp
  then show ?thesis unfolding w(4) using b b2 by (intro ipc_ok_tm [OF ok1]) simp_all
qed

lemma below_next_set: "below_next st \<Longrightarrow> ps_sockets st n = Some S \<Longrightarrow> below_next (set_socket n S' st)"
  by (auto simp: below_next_def set_socket_def)

lemma read_enter_ok:
  assumes ok: "ipc_ok st" and cur: "m_currentTask (ps_tm st) \<noteq> 0" and e: "read_enter n st = Some (item, st')"
  shows "ipc_ok st'"
proof -
  obtain S where S: "ps_sockets st n = Some S" using e by (auto simp: read_enter_def split: Option.bind_splits)
  from read_enter_total [OF ipc_okD(1) [OF ok] cur S refl] obtain tm S' where
    st': "st' = set_socket n S' (st\<lparr>ps_tm := tm, ps_next := ps_next st + 1\<rparr>)" "ipc_wf st'"
    using e by auto
  have "below_next st'" unfolding st'(1) using ok S by (intro below_next_set [of _ n S]) (auto simp: ipc_ok_def below_next_def)
  then show ?thesis using st'(2) by (simp add: ipc_ok_def)
qed

lemma write_enter_ok:
  assumes ok: "ipc_ok st" and cur: "m_currentTask (ps_tm st) \<noteq> 0" and e: "write_enter n st = Some (item, st')"
  shows "ipc_ok st'"
proof -
  obtain S where S: "ps_sockets st n = Some S" using e by (auto simp: write_enter_def split: Option.bind_splits)
  from write_enter_total [OF ipc_okD(1) [OF ok] cur S refl] obtain tm S' where
    st': "st' = set_socket n S' (st\<lparr>ps_tm := tm, ps_next := ps_next st + 1\<rparr>)" "ipc_wf st'"
    using e by auto
  have "below_next st'" unfolding st'(1) using ok S by (intro below_next_set [of _ n S]) (auto simp: ipc_ok_def below_next_def)
  then show ?thesis using st'(2) by (simp add: ipc_ok_def)
qed

lemma deliver_ok:
  assumes ok: "ipc_ok st" and S: "ps_sockets st n = Some S" "socket_wf st S'" "m_tid S' = m_tid S"
    and q: "waiters_ok (ps_tm st) q" and d: "deliver n S' q event st = Some st'"
  shows "ipc_ok st'"
proof -
  define st1 where "st1 = set_socket n S' st"
  have ok1: "ipc_ok st1" unfolding st1_def using S(3) by (intro ipc_ok_set [OF ok S(1,2)]) simp
  obtain tm where tm: "wake_queue q (ps_tm st1) = Some (length q, tm)" "tm_reachable tm" "wakes (ps_tm st1) tm"
    using wake_queue_total [OF ipc_okD(2) [OF ok1], of q] q by (auto simp: st1_def)
  let ?st = "st1\<lparr>ps_tm := tm\<rparr>"
  have ok2: "ipc_ok ?st" using ipc_ok_tm [OF ok1 tm(2) wakes_all_started [OF tm(3)]] .
  have "snd ` set (m_eventListenerList S') \<subseteq> dom (ps_pipes ?st)" using S(2) by (simp add: st1_def socket_wf_def)
  then have "ell_notify e (m_eventListenerList S') ?st = Some st' \<Longrightarrow> ipc_ok st'" for e using ell_notify_ok [OF ok2] by blast
  then show ?thesis using d tm(1) ok2 by (cases event) (auto simp: deliver_def st1_def [symmetric] Let_def simp del: set_socket_simps)
qed

lemma read_finish_ok:
  assumes ok: "ipc_ok st" and f: "read_finish item cnt n st = Some (k, out, st')"
  shows "ipc_ok st'"
proof -
  obtain S where S: "ps_sockets st n = Some S" "item \<in> fst ` set (m_readWaitQueue S)"
    using f by (auto simp: read_finish_def remove_from_queue_def split: Option.bind_splits if_splits)
  have w: "socket_wf st S" by (rule ipc_wf_socket [OF ipc_okD(1) [OF ok] S(1)])
  have inv: "cb_inv LS_QUEUE_SIZE (ls_queue S)" using w by (simp add: socket_wf_def)
  let ?q = "filter (\<lambda>(a, _). a \<noteq> item) (m_readWaitQueue S)"
  show ?thesis
  proof (cases "m_connected S")
    case True
    obtain k1 o1 q' where r: "cb_read LS_QUEUE_SIZE cnt (ls_queue S) = (k1, o1, q')" by (metis prod_cases3)
    let ?S = "S\<lparr>m_readWaitQueue := ?q, ls_queue := q'\<rparr>"
    have w': "socket_wf st ?S" using socket_wf_queue(1) [OF w] cb.get_law [OF inv r] by blast
    have q: "waiters_ok (ps_tm st) (m_writeWaitQueue S)" using w by (simp add: socket_wf_def)
    have "ipc_ok (set_socket n ?S st)" by (rule ipc_ok_set [OF ok S(1) w']) simp
    then show ?thesis using f deliver_ok [OF ok S(1) w' _ q]
      by (auto simp: read_finish_deliver [OF S(1) True S(2) r refl] split: if_splits Option.bind_splits)
  next
    case False
    have "socket_wf st (S\<lparr>m_readWaitQueue := ?q\<rparr>)" using socket_wf_queue(1) [OF w inv] by simp
    then have "ipc_ok (set_socket n (S\<lparr>m_readWaitQueue := ?q\<rparr>) st)" by (rule ipc_ok_set [OF ok S(1)]) simp
    then show ?thesis using f False S by (simp add: read_finish_def remove_from_queue_def)
  qed
qed

lemma write_finish_ok:
  assumes ok: "ipc_ok st" and f: "write_finish item bs n st = Some (k, st')"
  shows "ipc_ok st'"
proof -
  obtain S where S: "ps_sockets st n = Some S" "item \<in> fst ` set (m_writeWaitQueue S)"
    using f by (auto simp: write_finish_def remove_from_queue_def split: Option.bind_splits if_splits)
  have w: "socket_wf st S" by (rule ipc_wf_socket [OF ipc_okD(1) [OF ok] S(1)])
  have inv: "cb_inv LS_QUEUE_SIZE (ls_queue S)" using w by (simp add: socket_wf_def)
  let ?q = "filter (\<lambda>(a, _). a \<noteq> item) (m_writeWaitQueue S)"
  show ?thesis
  proof (cases "m_connected S")
    case True
    obtain k1 q' where r: "cb_write LS_QUEUE_SIZE bs (ls_queue S) = (k1, q')" by force
    let ?S = "S\<lparr>m_writeWaitQueue := ?q, ls_queue := q'\<rparr>"
    have w': "socket_wf st ?S" using socket_wf_queue(2) [OF w] cb.put_law [OF inv r] by blast
    have q: "waiters_ok (ps_tm st) (m_readWaitQueue S)" using w by (simp add: socket_wf_def)
    have "ipc_ok (set_socket n ?S st)" by (rule ipc_ok_set [OF ok S(1) w']) simp
    then show ?thesis using f deliver_ok [OF ok S(1) w' _ q]
      by (auto simp: write_finish_deliver [OF S(1) True S(2) r refl] split: if_splits Option.bind_splits)
  next
    case False
    have "socket_wf st (S\<lparr>m_writeWaitQueue := ?q\<rparr>)" using socket_wf_queue(2) [OF w inv] by simp
    then have "ipc_ok (set_socket n (S\<lparr>m_writeWaitQueue := ?q\<rparr>) st)" by (rule ipc_ok_set [OF ok S(1)]) simp
    then show ?thesis using f False S by (simp add: write_finish_def remove_from_queue_def)
  qed
qed

subsection \<open>Pipes and listeners\<close>

lemma keeps_sockets:
  assumes "keeps st st'" "ipc_wf st" "events_wf st'" "bind_map st' = bind_map st" "ps_sockets st' = ps_sockets st"
  shows "ipc_wf st'"
  using assms socket_wf_keeps [OF _ assms(1)] by (simp add: ipc_wf_def)

lemma set_pipe_ok:
  assumes ok: "ipc_ok st" and p: "p < ps_next st"
    and P: "\<forall>x\<in>snd ` set (m_listeners P). l_listener x \<in> dom (ps_listeners st)"
  shows "ipc_ok (set_pipe p P st)"
proof -
  have "keeps st (set_pipe p P st)" by (auto simp: keeps_def set_pipe_def)
  moreover have "events_wf (set_pipe p P st)"
    using ipc_okD(3) [OF ok] P unfolding events_wf_def by (auto simp: set_pipe_def listener_wf_def)
  ultimately have "ipc_wf (set_pipe p P st)" using keeps_sockets [of st "set_pipe p P st"] ipc_okD(1) [OF ok] by (simp add: set_pipe_def)
  then show ?thesis using ok p by (auto simp: ipc_ok_def below_next_def set_pipe_def)
qed

lemma set_listener_ok:
  assumes ok: "ipc_ok st" and l: "l < ps_next st" and L: "listener_wf st L"
  shows "ipc_ok (set_listener l L st)"
proof -
  have "keeps st (set_listener l L st)" by (auto simp: keeps_def set_listener_def)
  moreover have "events_wf (set_listener l L st)"
    using ipc_okD(3) [OF ok] L unfolding events_wf_def by (auto simp: set_listener_def listener_wf_def)
  ultimately have "ipc_wf (set_listener l L st)" using keeps_sockets [of st "set_listener l L st"] ipc_okD(1) [OF ok] by (simp add: set_listener_def)
  then show ?thesis using ok l by (auto simp: ipc_ok_def below_next_def set_listener_def)
qed

lemma ipc_ok_dom:
  "ipc_ok st \<Longrightarrow> ps_sockets st a = Some S \<Longrightarrow> a < ps_next st" "ipc_ok st \<Longrightarrow> ps_pipes st a = Some P \<Longrightarrow> a < ps_next st"
  "ipc_ok st \<Longrightarrow> ps_listeners st a = Some L \<Longrightarrow> a < ps_next st"
  by (auto simp: ipc_ok_def below_next_def)

lemma ls_open_ok:
  assumes ok: "ipc_ok st" and m: "length memory = LS_QUEUE_SIZE"
  shows "ipc_ok (snd (ls_open flags ident memory st))"
proof -
  let ?st = "snd (ls_open flags ident memory st)" and ?S = "ls_new flags ident memory"
  have n: "ps_sockets st (ps_next st) = None" using ok by (auto simp: ipc_ok_def below_next_def)
  have k: "keeps st ?st" using n by (auto simp: keeps_def ls_open_def)
  have "cb_inv LS_QUEUE_SIZE (ls_queue ?S)" using cb_new_inv [of LS_QUEUE_SIZE memory] m by (simp add: ls_new_def LS_QUEUE_SIZE_def)
  then have "socket_wf ?st ?S" by (simp add: socket_wf_def ls_new_def)
  moreover have "socket_wf ?st T" if "ps_sockets st n = Some T" for n T
    using socket_wf_keeps [OF ipc_wf_socket [OF ipc_okD(1) [OF ok] that] k] .
  ultimately have "\<forall>n T. ps_sockets ?st n = Some T \<longrightarrow> socket_wf ?st T" by (simp add: ls_open_def)
  moreover have "ran (bind_map ?st) \<subseteq> dom (ps_sockets ?st)" using ok by (auto simp: ipc_ok_def ipc_wf_def ls_open_def)
  ultimately show ?thesis using ok by (auto simp: ipc_ok_def ipc_wf_def below_next_def ls_open_def set_socket_def)
qed

lemma el_open_ok: "ipc_ok st \<Longrightarrow> ipc_ok (snd (el_open flags st))"
  unfolding el_open_def snd_conv
  by (rule set_listener_ok) (auto simp: el_new_def listener_wf_def results_ok_def intro: ipc_ok_next)

definition open_pipe :: "Env \<Rightarrow> byte list \<Rightarrow> int \<Rightarrow> PipeState \<Rightarrow> PipeState option" where
  "open_pipe env name flags st = do {
     (P, st) \<leftarrow> pipe_construct env name flags st;
     Some (set_pipe (ps_next st) P (st\<lparr>ps_next := ps_next st + 1\<rparr>))
   }"

lemma open_pipe_ok:
  assumes ok: "ipc_ok st" and m: "length (env_memory env) = LS_QUEUE_SIZE" and o: "open_pipe env name flags st = Some st'"
  shows "ipc_ok st'"
proof -
  obtain P st1 where c: "pipe_construct env name flags st = Some (P, st1)"
    "st' = set_pipe (ps_next st1) P (st1\<lparr>ps_next := ps_next st1 + 1\<rparr>)"
    using o by (auto simp: open_pipe_def split: Option.bind_splits)
  have "ipc_ok st1 \<and> m_listeners P = []"
  proof (cases "pipeDevices st name")
    case None
    then show ?thesis using c(1) ok by (auto simp: pipe_construct_def pipe_closed_def)
  next
    case (Some d)
    then show ?thesis using c(1) ls_open_ok [OF ok m, of flags "env_ident env"] el_open_ok [OF ok, of flags]
      by (cases d) (auto simp: pipe_construct_def pipe_closed_def operations_def local_socket_operations_def
          elistener_operations_def split: prod.splits)
  qed
  then show ?thesis unfolding c(2) by (intro set_pipe_ok ipc_ok_next) auto
qed

lemma ls_notify_ok:
  assumes ok: "ipc_ok st" and l: "set_option listener \<subseteq> dom (ps_pipes st)"
    and n: "ls_notify listener n st = Some (m, r, st')"
  shows "ipc_ok st' \<and> ps_pipes st' = ps_pipes st \<and> ps_listeners st' = ps_listeners st"
proof -
  obtain S where S: "ps_sockets st n = Some S" using n by (auto simp: ls_notify_def split: Option.bind_splits)
  obtain ls where ls: "ell_add listener (ps_next st) (m_eventListenerList S) = (r, ls)"
    "st' = set_socket n (S\<lparr>m_eventListenerList := ls\<rparr>) (st\<lparr>ps_next := ps_next st + 1\<rparr>)"
    using n S by (auto simp: ls_notify_def Let_def split: Option.bind_splits prod.splits)
  have w: "socket_wf st S" using ipc_wf_socket [OF ipc_okD(1) [OF ok] S] .
  have "snd ` set (m_eventListenerList S) \<subseteq> dom (ps_pipes st)" using w by (simp add: socket_wf_def)
  then have "snd ` set ls \<subseteq> dom (ps_pipes st)" using ls(1) l
    by (cases listener) (auto simp: ell_add_def image_subset_iff)
  then have "socket_wf (st\<lparr>ps_next := ps_next st + 1\<rparr>) (S\<lparr>m_eventListenerList := ls\<rparr>)" using w by (simp add: socket_wf_def)
  then have "ipc_ok st'" unfolding ls(2) using S by (intro ipc_ok_set [OF ipc_ok_next [OF ok], of _ n S]) simp_all
  then show ?thesis using ls(2) by simp
qed

lemma ls_denotify_ok:
  assumes ok: "ipc_ok st" and d: "ls_denotify r n st = Some st'"
  shows "ipc_ok st'"
proof -
  obtain S ls where S: "ps_sockets st n = Some S" "ell_remove r (m_eventListenerList S) = Some ls"
    "st' = set_socket n (S\<lparr>m_eventListenerList := ls\<rparr>) st"
    using d by (auto simp: ls_denotify_def split: Option.bind_splits)
  have w: "socket_wf st S" using ipc_wf_socket [OF ipc_okD(1) [OF ok] S(1)] .
  have "set ls \<subseteq> set (m_eventListenerList S)" using S(2) by (auto simp: ell_remove_def split: option.splits if_splits)
  then have "snd ` set ls \<subseteq> dom (ps_pipes st)" using w unfolding socket_wf_def by (meson image_mono order_trans)
  then have "socket_wf st (S\<lparr>m_eventListenerList := ls\<rparr>)" using w by (simp add: socket_wf_def)
  then show ?thesis unfolding S(3) by (intro ipc_ok_set [OF ok S(1)]) simp_all
qed

lemma pipe_listeners_ok: "ipc_ok st \<Longrightarrow> ps_pipes st p = Some P \<Longrightarrow> \<forall>x\<in>snd ` set (m_listeners P). l_listener x \<in> dom (ps_listeners st)"
  using ipc_okD(3) unfolding events_wf_def by blast

lemma set_pipe_simps [simp]:
  "ps_pipes (set_pipe p P st) = (ps_pipes st)(p \<mapsto> P)" "ps_listeners (set_pipe p P st) = ps_listeners st"
  "ps_next (set_pipe p P st) = ps_next st" "ps_sockets (set_pipe p P st) = ps_sockets st" "ps_tm (set_pipe p P st) = ps_tm st"
  by (simp_all add: set_pipe_def)

lemma ask_device_ok:
  assumes ok: "ipc_ok st" and a: "ask_device ls_notify p st = Some (m, st')"
  shows "ipc_ok st' \<and> ps_listeners st' = ps_listeners st"
proof -
  obtain P ds where P: "ps_pipes st p = Some P" "m_deviceSpecific P = Some ds"
    using a by (auto simp: ask_device_def split: Option.bind_splits)
  show ?thesis
  proof (cases "m_devReceipt P = None")
    case False
    then obtain r where "ls_notify None ds st = Some (m, r, st')"
      using a P by (auto simp: ask_device_def split: Option.bind_splits)
    then show ?thesis using ls_notify_ok [OF ok, of None] by auto
  next
    case True
    then obtain r st2 where s2: "ls_notify (Some p) ds st = Some (m, r, st2)"
      "do { P \<leftarrow> ps_pipes st2 p; Some (m, set_pipe p (P\<lparr>m_devReceipt := Some r\<rparr>) st2) } = Some (m, st')"
      using a P by (auto simp: ask_device_def split: Option.bind_splits)
    have ok2: "ipc_ok st2" "ps_pipes st2 = ps_pipes st" "ps_listeners st2 = ps_listeners st"
      using ls_notify_ok [OF ok _ s2(1)] P(1) by auto
    then have st': "st' = set_pipe p (P\<lparr>m_devReceipt := Some r\<rparr>) st2" using s2(2) P(1) by simp
    have p2: "ps_pipes st2 p = Some P" using ok2(2) P(1) by simp
    have "ipc_ok st'" unfolding st'
      using ipc_ok_dom(2) [OF ok2(1) p2] pipe_listeners_ok [OF ok2(1) p2] by (intro set_pipe_ok [OF ok2(1)]) simp_all
    then show ?thesis using ok2(3) st' by simp
  qed
qed

lemma pipe_notify_ok:
  assumes ok: "ipc_ok st" and l: "l \<in> dom (ps_listeners st)" and n: "pipe_notify env p ev l pd st = Some (reg, cur, st')"
  shows "ipc_ok st' \<and> ps_listeners st' = ps_listeners st"
proof -
  obtain P where P: "ps_pipes st p = Some P" using n by (auto simp: pipe_notify_def split: Option.bind_splits)
  show ?thesis
  proof (cases "m_isOpen P \<and> m_device P = Some SOCKET_LOCAL")
    case False
    then have "st' = st" using n P
      by (auto simp: pipe_notify_def operations_def elistener_operations_def
          split: Option.bind_splits if_splits option.splits device.splits)
    then show ?thesis using ok by simp
  next
    case True
    let ?P = "P\<lparr>m_listeners := m_listeners P @ [(ps_next st, \<lparr>interestedEvents = ev, l_listener = l, l_pd = pd\<rparr>)]\<rparr>"
    let ?st = "set_pipe p ?P (st\<lparr>ps_next := ps_next st + 1\<rparr>)"
    have ok1: "ipc_ok ?st"
      using ipc_ok_dom(2) [OF ok P] pipe_listeners_ok [OF ok P] l by (intro set_pipe_ok ipc_ok_next [OF ok]) auto
    obtain m where "ask_device ls_notify p ?st = Some (m, st')"
      using n P True by (auto simp: pipe_notify_def operations_def local_socket_operations_def Let_def simp del: set_pipe_simps
          split: Option.bind_splits)
    from ask_device_ok [OF ok1 this] show ?thesis by simp
  qed
qed

lemma el_add_ok:
  assumes ok: "ipc_ok st" and a: "el_add env lp p pd ev st = Some st'"
  shows "ipc_ok st'"
proof -
  obtain l L reg cur st1 where l: "socket_of lp st = Some l" "ps_listeners st l = Some L"
    "pipe_notify env p ev l pd st = Some (reg, cur, st1)"
    using a by (auto simp: el_add_def split: Option.bind_splits)
  have ok1: "ipc_ok st1" "ps_listeners st1 = ps_listeners st" using pipe_notify_ok [OF ok _ l(3)] l(2) by auto
  then have L1: "ps_listeners st1 l = Some L" using l(2) by simp
  define L' where "L' = (if (p, ev) \<in> fst ` set (m_eventNotifRegs L) then L
    else L\<lparr>m_eventNotifRegs := m_eventNotifRegs L @ [((p, ev), reg)]\<rparr>)"
  have "listener_wf st1 L" using ipc_okD(3) [OF ok1(1)] L1 by (simp add: events_wf_def)
  then have "listener_wf st1 L'" by (simp add: L'_def listener_wf_def)
  then have ok2: "ipc_ok (set_listener l L' st1)" using set_listener_ok [OF ok1(1) ipc_ok_dom(3) [OF ok1(1) L1]] by blast
  have "(\<exists>m. inform l m pd (set_listener l L' st1) = Some st') \<or> st' = set_listener l L' st1"
    using a l L1 by (auto simp: el_add_def Let_def L'_def [symmetric] split: if_splits)
  then show ?thesis using ok2 inform_ok by blast
qed

lemma pipe_unnotify_ok:
  assumes ok: "ipc_ok st" and u: "pipe_unnotify p reg st = Some st'"
  shows "ipc_ok st'"
proof -
  obtain P node where P: "ps_pipes st p = Some P" "reg = Some node" using u by (auto simp: pipe_unnotify_def split: Option.bind_splits)
  let ?P = "P\<lparr>m_listeners := filter (\<lambda>(a, _). a \<noteq> node) (m_listeners P)\<rparr>"
  let ?st = "set_pipe p ?P st"
  have "ipc_ok ?st" using ipc_ok_dom(2) [OF ok P(1)] pipe_listeners_ok [OF ok P(1)] by (intro set_pipe_ok [OF ok]) auto
  moreover have "st' = ?st \<or> (\<exists>r ds. ls_denotify r ds ?st = Some st')"
    using u P by (auto simp: pipe_unnotify_def dev_denotify_def Let_def simp del: set_pipe_simps
        split: Option.bind_splits if_splits option.splits device.splits)
  ultimately show ?thesis using ls_denotify_ok by blast
qed

lemma el_remove_ok:
  assumes ok: "ipc_ok st" and r: "el_remove env lp p pd ev st = Some st'"
  shows "ipc_ok st'"
  using r ok pipe_unnotify_ok by (auto simp: el_remove_def split: Option.bind_splits option.splits)

lemma listen_enter_ok:
  assumes ok: "ipc_ok st" and cur: "m_currentTask (ps_tm st) \<noteq> 0"
    and b: "ps_buffers st b = Some buf" "0 \<le> n" "n \<le> int (length buf)"
    and e: "listen_enter l b n st = Some (item, it, em, st')"
  shows "ipc_ok st'"
proof -
  obtain L where L: "ps_listeners st l = Some L" using e by (auto simp: listen_enter_def split: Option.bind_splits)
  have w: "listener_wf st L" using ipc_okD(3) [OF ok] L by (simp add: events_wf_def)
  let ?q = "el_waitQueue L @ [(ps_next st, m_currentTask (ps_tm st))]"
  have "waiters_ok (ps_tm st) (el_waitQueue L)" using w by (simp add: listener_wf_def)
  from add_to_queue_total [OF ipc_okD(2) [OF ok] cur this] obtain tm where
    tm: "add_to_queue (ps_next st) (el_waitQueue L) (ps_tm st) = Some (ps_next st, ?q, tm)" "tm_reachable tm"
    "wakes (ps_tm st) tm" "waiters_ok tm ?q" by blast
  let ?L = "L\<lparr>el_waitQueue := ?q, m_resultPtrQueue := m_resultPtrQueue L @ [(ps_next st + 1, b, n)]\<rparr>"
  let ?st = "st\<lparr>ps_tm := tm\<rparr>\<lparr>ps_next := ps_next st + 2\<rparr>"
  have st': "st' = set_listener l ?L ?st" using e L tm(1) by (auto simp: listen_enter_def Let_def)
  have ok1: "ipc_ok (st\<lparr>ps_tm := tm\<rparr>)" using ipc_ok_tm [OF ok tm(2) wakes_all_started [OF tm(3)]] .
  have ok2: "ipc_ok ?st" by (rule ipc_ok_next [OF ok1]) simp
  have "listener_wf ?st ?L" using w tm(4) b by (auto simp: listener_wf_def results_ok_def)
  then show ?thesis unfolding st' using ipc_ok_dom(3) [OF ok L] by (intro set_listener_ok [OF ok2]) simp_all
qed

lemma el_wake_ok:
  assumes ok: "ipc_ok st" and w: "el_wake l st = Some st'"
  shows "ipc_ok st'"
proof -
  obtain L where L: "ps_listeners st l = Some L" using w by (auto simp: el_wake_def split: Option.bind_splits)
  obtain st1 where "el_wake l st = Some st1" "informed st st1" "tm_reachable (ps_tm st1)"
    using el_wake_informs [OF ipc_okD(3) [OF ok] L] by blast
  then show ?thesis using w ipc_ok_informed [OF ok, of st'] events_wf_informed [OF ipc_okD(3) [OF ok], of st']
    el_wake_buffers [OF w] by simp
qed

lemma listen_finish_ok:
  assumes ok: "ipc_ok st" and f: "listen_finish item it l st = Some (k, st')"
  shows "ipc_ok st'"
proof -
  obtain L q where L: "ps_listeners st l = Some L" "remove_from_queue item (el_waitQueue L) = Some q"
    "st' = set_listener l (L\<lparr>m_raisedEvents := [], m_resultPtrQueue := filter (\<lambda>(a, _). a \<noteq> it) (m_resultPtrQueue L), el_waitQueue := q\<rparr>) st"
    using f by (auto simp: listen_finish_def Let_def split: Option.bind_splits if_splits)
  have w: "listener_wf st L" using ipc_okD(3) [OF ok] L by (simp add: events_wf_def)
  have "waiters_ok (ps_tm st) q" using L(2) w waiters_ok_filter
    by (auto simp: remove_from_queue_def listener_wf_def split: if_splits)
  then have "listener_wf st (L\<lparr>m_raisedEvents := [], m_resultPtrQueue := filter (\<lambda>(a, _). a \<noteq> it) (m_resultPtrQueue L), el_waitQueue := q\<rparr>)"
    using w by (auto simp: listener_wf_def results_ok_def)
  then show ?thesis unfolding L(3) using set_listener_ok [OF ok ipc_ok_dom(3) [OF ok L(1)]] by blast
qed

end
