(* ===== verification/Pipes_Theorems.thy ===== *)
theory Pipes_Theorems
  imports Pipes_Properties
begin

text \<open>
  The reachable states of pipes, sockets and event listeners under any interleaving of tasks, and the properties
  that hold there.

  A step is one critical section of an operation, by the running task, or a step of the task manager.
  Closing is left out: it is the subject of \<open>close_leaves_endpoint_dangling\<close>. \<open>connect\<close> continues with the
  identifier of the listening task it has read before; a socket's identifier is never set back to 0.
\<close>

definition bytes_of :: "string \<Rightarrow> byte list" where
  "bytes_of s = map of_char s"

definition ipc_init :: "TaskManager \<Rightarrow> PipeState" where
  "ipc_init tm = register_device (bytes_of ''elistener'') ELISTENER (register_device (bytes_of ''socket::local'') SOCKET_LOCAL
     \<lparr>ps_pipes = Map.empty, ps_sockets = Map.empty, ps_listeners = Map.empty, ps_buffers = Map.empty, bind_map = Map.empty,
      pipeDevices = Map.empty, ps_tm = tm, ps_next = 1\<rparr>)"

definition new_buffer :: "Event list \<Rightarrow> PipeState \<Rightarrow> PipeState" where
  "new_buffer buf st = st\<lparr>ps_buffers := (ps_buffers st)(ps_next st \<mapsto> buf), ps_next := ps_next st + 1\<rparr>"

definition free_buffer :: "addr \<Rightarrow> PipeState \<Rightarrow> PipeState" where
  "free_buffer b st = st\<lparr>ps_buffers := (ps_buffers st)(b := None)\<rparr>"

inductive ipc_step :: "PipeState \<Rightarrow> PipeState \<Rightarrow> bool" where
  ipc_tasks: "tm_step (ps_tm st) tm \<Longrightarrow> ipc_step st (st\<lparr>ps_tm := tm\<rparr>)"
| ipc_open: "length (env_memory env) = LS_QUEUE_SIZE \<Longrightarrow> open_pipe env name flags st = Some st' \<Longrightarrow> ipc_step st st'"
| ipc_bind: "ls_bind p ident st = Some (r, st') \<Longrightarrow> ipc_step st st'"
| ipc_listen: "ls_listen p st = Some (r, st') \<Longrightarrow> ipc_step st st'"
| ipc_accept_wait: "m_currentTask (ps_tm st) \<noteq> 0 \<Longrightarrow> accept_wait now n st = Some st' \<Longrightarrow> ipc_step st st'"
| ipc_accept_take: "accept_take n newPipe st = Some (r, st') \<Longrightarrow> ipc_step st st'"
| ipc_connect_request: "m_currentTask (ps_tm st) \<noteq> 0 \<Longrightarrow> connect_request n ident st = Some (q, st') \<Longrightarrow> ipc_step st st'"
| ipc_connect_wait: "m_currentTask (ps_tm st) \<noteq> 0 \<Longrightarrow> (rt \<noteq> 0 \<longrightarrow> (\<exists>R. ps_sockets st remote = Some R \<and> m_tid R \<noteq> 0)) \<Longrightarrow>
    connect_wait now n remote rt st = Some st' \<Longrightarrow> ipc_step st st'"
| ipc_read_enter: "m_currentTask (ps_tm st) \<noteq> 0 \<Longrightarrow> read_enter n st = Some (item, st') \<Longrightarrow> ipc_step st st'"
| ipc_read_finish: "read_finish item cnt n st = Some (k, out, st') \<Longrightarrow> ipc_step st st'"
| ipc_write_enter: "m_currentTask (ps_tm st) \<noteq> 0 \<Longrightarrow> write_enter n st = Some (item, st') \<Longrightarrow> ipc_step st st'"
| ipc_write_finish: "write_finish item bs n st = Some (k', st') \<Longrightarrow> ipc_step st st'"
| ipc_add: "el_add env lp p pd ev st = Some st' \<Longrightarrow> ipc_step st st'"
| ipc_remove: "el_remove env lp p pd ev st = Some st' \<Longrightarrow> ipc_step st st'"
| ipc_buffer: "ipc_step st (new_buffer buf st)"
| ipc_free: "(\<forall>l L. ps_listeners st l = Some L \<longrightarrow> b \<notin> (\<lambda>x. fst (snd x)) ` set (m_resultPtrQueue L)) \<Longrightarrow> ipc_step st (free_buffer b st)"
| ipc_listen_enter: "m_currentTask (ps_tm st) \<noteq> 0 \<Longrightarrow> ps_buffers st b = Some buf \<Longrightarrow> 0 \<le> n' \<Longrightarrow> n' \<le> int (length buf) \<Longrightarrow>
    listen_enter l b n' st = Some (item, it, em, st') \<Longrightarrow> ipc_step st st'"
| ipc_wake: "el_wake l st = Some st' \<Longrightarrow> ipc_step st st'"
| ipc_listen_finish: "listen_finish item it l st = Some (k', st') \<Longrightarrow> ipc_step st st'"

inductive ipc_reachable :: "PipeState \<Rightarrow> bool" where
  ipc_start: "tm_reachable tm \<Longrightarrow> ipc_reachable (ipc_init tm)"
| ipc_next: "ipc_reachable st \<Longrightarrow> ipc_step st st' \<Longrightarrow> ipc_reachable st'"

lemma new_buffer_ok: "ipc_ok st \<Longrightarrow> ipc_ok (new_buffer buf st)"
proof -
  assume ok: "ipc_ok st"
  have n: "ps_buffers st (ps_next st) = None" using ok by (auto simp: ipc_ok_def below_next_def)
  have "results_ok (ps_buffers st) q \<Longrightarrow> results_ok ((ps_buffers st)(ps_next st \<mapsto> buf)) q" for q
    using n by (fastforce simp: results_ok_def)
  then have "events_wf (new_buffer buf st)" using ipc_okD(3) [OF ok] by (auto simp: events_wf_def new_buffer_def listener_wf_def)
  then have "ipc_wf (new_buffer buf st)"
    using keeps_sockets [of st "new_buffer buf st"] ipc_okD(1) [OF ok] by (simp add: new_buffer_def keeps_def)
  then show ?thesis using ok by (auto simp: ipc_ok_def below_next_def new_buffer_def)
qed

lemma free_buffer_ok:
  assumes ok: "ipc_ok st" and b: "\<forall>l L. ps_listeners st l = Some L \<longrightarrow> b \<notin> (\<lambda>x. fst (snd x)) ` set (m_resultPtrQueue L)"
  shows "ipc_ok (free_buffer b st)"
proof -
  have "results_ok ((ps_buffers st)(b := None)) (m_resultPtrQueue L)" if "ps_listeners st l = Some L" for l L
  proof -
    have r: "results_ok (ps_buffers st) (m_resultPtrQueue L)"
      using ipc_okD(3) [OF ok] that by (simp add: events_wf_def listener_wf_def)
    have "c \<noteq> b" if "(a, c, m) \<in> set (m_resultPtrQueue L)" for a c m
      using b \<open>ps_listeners st l = Some L\<close> that by force
    then show ?thesis using r unfolding results_ok_def by fastforce
  qed
  then have "events_wf (free_buffer b st)" using ipc_okD(3) [OF ok] by (auto simp: events_wf_def free_buffer_def listener_wf_def)
  then have "ipc_wf (free_buffer b st)"
    using keeps_sockets [of st "free_buffer b st"] ipc_okD(1) [OF ok] by (simp add: free_buffer_def keeps_def)
  then show ?thesis using ok by (auto simp: ipc_ok_def below_next_def free_buffer_def)
qed

lemma ipc_step_ok: "ipc_step st st' \<Longrightarrow> ipc_ok st \<Longrightarrow> ipc_ok st'"
proof (induction rule: ipc_step.induct)
  case (ipc_tasks st tm)
  have "tm_inv False (ps_tm st)" by (rule tm_reachable_inv [OF ipc_okD(2) [OF ipc_tasks(2)]])
  then show ?case
    using ipc_tasks reach_step [OF ipc_okD(2) [OF ipc_tasks(2)] ipc_tasks(1)] tm_step_started [OF ipc_tasks(1)]
    by (intro ipc_ok_tm) blast+
qed (auto intro: open_pipe_ok bind_ok listen_ok accept_wait_ok accept_take_ok connect_request_ok connect_wait_ok
    read_enter_ok read_finish_ok write_enter_ok write_finish_ok el_add_ok el_remove_ok new_buffer_ok free_buffer_ok
    listen_enter_ok el_wake_ok listen_finish_ok)

lemma ipc_init_ok: "tm_reachable tm \<Longrightarrow> ipc_ok (ipc_init tm)"
  by (simp add: ipc_ok_def ipc_wf_def events_wf_def below_next_def ipc_init_def register_device_def)

lemma ipc_reachable_ok: "ipc_reachable st \<Longrightarrow> ipc_ok st"
  by (induction rule: ipc_reachable.induct) (auto intro: ipc_init_ok ipc_step_ok)

lemma ls_read_defined:
  assumes wf: "ipc_wf st" and cur: "m_currentTask (ps_tm st) \<noteq> 0" and S: "ps_sockets st n = Some S" "m_shouldNotBlock S"
  shows "ls_read now steps cnt n st \<noteq> None"
proof (cases "m_connected S")
  case True
  then show ?thesis using ls_read_total [OF wf cur S(1) True disjI1 [OF S(2)], of now steps cnt] by auto
next
  case False
  from read_enter_total [OF wf cur S(1) refl] obtain tm where
    "read_enter n st = Some (ps_next st, set_socket n (S\<lparr>m_readWaitQueue := m_readWaitQueue S @ [(ps_next st, m_currentTask (ps_tm st))]\<rparr>)
      (st\<lparr>ps_tm := tm, ps_next := ps_next st + 1\<rparr>))" by blast
  then show ?thesis using False by (simp add: ls_read_def ls_read_wait.simps read_finish_def remove_from_queue_def)
qed

lemma ls_write_defined:
  assumes wf: "ipc_wf st" and cur: "m_currentTask (ps_tm st) \<noteq> 0" and S: "ps_sockets st n = Some S" "m_shouldNotBlock S"
  shows "ls_write now steps bs n st \<noteq> None"
proof (cases "m_endpoint S")
  case None
  then show ?thesis using S(1) by (simp add: ls_write_def)
next
  case (Some e)
  have "e \<in> dom (ps_sockets st)" using ipc_wf_socket [OF wf S(1)] Some by (simp add: socket_wf_def)
  then obtain R where R: "ps_sockets st e = Some R" by auto
  show ?thesis
  proof (cases "m_connected R")
    case True
    then show ?thesis using ls_write_total [OF wf cur S(1) Some R True disjI1 [OF S(2)], of now steps bs] by auto
  next
    case False
    from write_enter_total [OF wf cur R refl] obtain tm where
      "write_enter e st = Some (ps_next st, set_socket e (R\<lparr>m_writeWaitQueue := m_writeWaitQueue R @ [(ps_next st, m_currentTask (ps_tm st))]\<rparr>)
        (st\<lparr>ps_tm := tm, ps_next := ps_next st + 1\<rparr>))" by blast
    then show ?thesis using False S Some by (simp add: ls_write_def ls_write_wait.simps write_finish_def remove_from_queue_def)
  qed
qed

subsection \<open>Properties\<close>


definition example_env :: Env where
  "example_env = \<lparr>env_now = 0, env_steps = [], env_ident = [], env_memory = replicate LS_QUEUE_SIZE 0,
     env_events = (\<lambda>_. \<lparr>eventsRaised = 0, ev_pd = 0\<rparr>), env_word = 0\<rparr>"

definition example_opened :: PipeState where
  "example_opened = (ipc_init example_running)
     \<lparr>ps_sockets := [1 \<mapsto> ls_new 1 [] (replicate LS_QUEUE_SIZE 0)],
      ps_pipes := [2 \<mapsto> pipe_closed\<lparr>m_deviceSpecific := Some 1, m_isOpen := True, m_device := Some SOCKET_LOCAL\<rparr>], ps_next := 3\<rparr>"

lemma example_opened_reachable: "ipc_reachable example_opened"
proof -
  have n: "ps_next (ipc_init example_running) = 1" "ps_sockets (ipc_init example_running) = Map.empty"
    "ps_pipes (ipc_init example_running) = Map.empty"
    "pipeDevices (ipc_init example_running) (bytes_of ''socket::local'') = Some SOCKET_LOCAL"
    by (simp_all add: ipc_init_def register_device_def bytes_of_def)
  have "open_pipe example_env (bytes_of ''socket::local'') 1 (ipc_init example_running) = Some example_opened"
    using n by (simp add: open_pipe_def pipe_construct_def operations_def local_socket_operations_def ls_open_def
        example_env_def example_opened_def set_socket_def set_pipe_def)
      (rule PipeState.equality; simp add: numeral_2_eq_2 numeral_3_eq_3)
  then show ?thesis
    by (intro ipc_next [OF ipc_start [OF example_running_reachable]] ipc_open [of example_env]) (simp_all add: example_env_def)
qed


text \<open>
  C15: A connected pair of non-blocking local sockets is a first-in first-out channel: every sequence of writes on
  one and reads on the other returns, the bytes the writes accepted are the bytes that were read followed
  by those still queued, and the pair stays connected.
\<close>

theorem local_socket_channel:
  assumes "pair_inv a b st"
  shows "\<exists>ins outs st'. pair.transfer now a b ops st = Some (ins, outs, st') \<and> pair_inv a b st' \<and>
    pair_contents b st @ ins = outs @ pair_contents b st'"
  by (rule pair.transfer_fifo [OF assms])

definition example_pair :: PipeState where
  "example_pair = (ipc_init example_running)
     \<lparr>ps_sockets := [1 \<mapsto> (ls_new 1 [] (replicate LS_QUEUE_SIZE 0))\<lparr>m_endpoint := Some 2, m_connected := True\<rparr>,
                     2 \<mapsto> (ls_new 1 [] (replicate LS_QUEUE_SIZE 0))\<lparr>m_endpoint := Some 1, m_connected := True,
                            m_readWaitQueue := [(6, 1)], m_eventListenerList := [(7, 4)]\<rparr>],
      ps_pipes := [4 \<mapsto> pipe_closed\<lparr>m_deviceSpecific := Some 2, m_isOpen := True, m_device := Some SOCKET_LOCAL,
                          m_listeners := [(8, \<lparr>interestedEvents = 3, l_listener = 5, l_pd = 9\<rparr>)],
                          m_devReceipt := Some (Some 7)\<rparr>],
      ps_listeners := [5 \<mapsto> el_new\<lparr>m_eventNotifRegs := [((4, 3), Some 8)]\<rparr>], ps_next := 10\<rparr>"

lemma example_pair_inv: "pair_inv 1 2 example_pair" "ipc_wf example_pair" "pair_contents 2 example_pair = []"
proof -
  let ?q = "cb_new LS_QUEUE_SIZE (replicate LS_QUEUE_SIZE 0)"
  have c: "cb_inv LS_QUEUE_SIZE ?q" "cb_contents LS_QUEUE_SIZE ?q = []"
    using cb_new_inv [of LS_QUEUE_SIZE "replicate LS_QUEUE_SIZE 0"] by (simp_all add: LS_QUEUE_SIZE_def)
  have t: "ps_tm example_pair = example_running" by (simp add: example_pair_def ipc_init_def register_device_def)
  have s: "launched example_running 1" "m_currentTask example_running \<noteq> 0"
    by (simp_all add: launched_def example_running_def example_launched_def)
  show wf: "ipc_wf example_pair"
    using c(1) s(1) example_running_reachable unfolding ipc_wf_def events_wf_def t
    by (auto simp: example_pair_def listener_wf_def socket_wf_def ls_new_def el_new_def results_ok_def t [unfolded example_pair_def]
        ipc_init_def register_device_def pipe_closed_def split: if_splits)
  show "pair_inv 1 2 example_pair" using wf s(2) t by (simp add: pair_inv_def) (simp add: example_pair_def ls_new_def)
  show "pair_contents 2 example_pair = []" using c(2) by (simp add: pair_contents_def example_pair_def ls_new_def)
qed

theorem local_socket_channel_witness:
  "\<exists>ins outs st'. pair.transfer 0 1 2 [Put [1, 2, 3], Get 2, Put [4], Get 7] example_pair = Some (ins, outs, st') \<and>
     ins = outs @ pair_contents 2 st'"
  using local_socket_channel [OF example_pair_inv(1), of 0 "[Put [1, 2, 3], Get 2, Put [4], Get 7]"]
  unfolding example_pair_inv(3) append_Nil by blast



text \<open>
  Accepting connects the sockets in order of arrival: the socket that asked first and the new one become each other's
  endpoint, the new one is connected, the other requests keep their order, and the task that asked is ready.
\<close>

theorem accept_connects:
  assumes "ipc_wf st" "ps_sockets st n = Some S" "m_connectionQueue S = r # rest" "socket_of newPipe st = Some new"
    "ps_sockets st new = Some N" "ps_sockets st r = Some R" "distinct [n, new, r]"
  shows "\<exists>st' gid. accept_take n newPipe st = Some (True, st') \<and>
    ps_sockets st' = (ps_sockets st)(n \<mapsto> S\<lparr>m_connectionQueue := rest\<rparr>,
       new \<mapsto> N\<lparr>m_endpoint := Some r, m_connected := True\<rparr>, r \<mapsto> R\<lparr>m_endpoint := Some new\<rparr>) \<and>
    is_ready (m_taskHashmap (ps_tm st')) gid (m_tid R)"
proof -
  have "launched (ps_tm st) (m_tid R)"
    using ipc_wf_socket [OF assms(1,2)] assms(3,6) by (auto simp: socket_wf_def)
  then obtain t where t: "m_taskHashmap (ps_tm st) (m_tid R) = Some t" by (auto simp: launched_def)
  obtain tm where tm: "unblock (m_tid R) (ps_tm st) = Some tm"
    using unblock_inv [OF tm_reachable_inv [OF ipc_wf_reachable [OF assms(1)]] t] by blast
  let ?socks = "(ps_sockets st)(n \<mapsto> S\<lparr>m_connectionQueue := rest\<rparr>,
       new \<mapsto> N\<lparr>m_endpoint := Some r, m_connected := True\<rparr>, r \<mapsto> R\<lparr>m_endpoint := Some new\<rparr>)"
  have "accept_take n newPipe st = Some (True, st\<lparr>ps_sockets := ?socks, ps_tm := tm\<rparr>)"
    using assms tm by (simp add: accept_take_def accept_link_def socket_of_def set_socket_def Let_def fun_upd_twist)
  moreover have "is_ready (m_taskHashmap tm) (t_groupId t) (m_tid R)" by (rule unblock_ready [OF tm t])
  ultimately show ?thesis by (intro exI [of _ "st\<lparr>ps_sockets := ?socks, ps_tm := tm\<rparr>"] exI [of _ "t_groupId t"]) simp
qed

definition example_request :: PipeState where
  "example_request = (ipc_init example_running)
     \<lparr>ps_sockets := [1 \<mapsto> (ls_new 0 [] (replicate LS_QUEUE_SIZE 0))\<lparr>m_listening := True, m_connectionQueue := [2]\<rparr>,
                     2 \<mapsto> (ls_new 0 [] (replicate LS_QUEUE_SIZE 0))\<lparr>m_tid := 1\<rparr>,
                     3 \<mapsto> ls_new 0 [] (replicate LS_QUEUE_SIZE 0)],
      ps_pipes := [4 \<mapsto> pipe_closed\<lparr>m_deviceSpecific := Some 3, m_isOpen := True, m_device := Some SOCKET_LOCAL\<rparr>], ps_next := 5\<rparr>"

lemma example_request_wf: "ipc_wf example_request"
proof -
  have c: "cb_inv LS_QUEUE_SIZE (cb_new LS_QUEUE_SIZE (replicate LS_QUEUE_SIZE 0))"
    using cb_new_inv [of LS_QUEUE_SIZE "replicate LS_QUEUE_SIZE 0"] by (simp add: LS_QUEUE_SIZE_def)
  have t: "ps_tm example_request = example_running" by (simp add: example_request_def ipc_init_def register_device_def)
  have s: "launched example_running 1" by (simp add: launched_def example_running_def example_launched_def)
  show ?thesis
    using c s example_running_reachable unfolding ipc_wf_def events_wf_def t
    by (auto simp: example_request_def socket_wf_def ls_new_def t [unfolded example_request_def]
        ipc_init_def register_device_def pipe_closed_def split: if_splits)
qed

theorem accept_connects_witness:
  "\<exists>st' N R. accept_take 1 4 example_request = Some (True, st') \<and> ps_sockets st' 3 = Some N \<and> m_endpoint N = Some 2 \<and>
     ps_sockets st' 2 = Some R \<and> m_endpoint R = Some 3"
proof -
  let ?S = "(ls_new 0 [] (replicate LS_QUEUE_SIZE 0))\<lparr>m_listening := True, m_connectionQueue := [2]\<rparr>"
    and ?R = "(ls_new 0 [] (replicate LS_QUEUE_SIZE 0))\<lparr>m_tid := 1\<rparr>" and ?N = "ls_new 0 [] (replicate LS_QUEUE_SIZE 0)"
  have s: "ps_sockets example_request 1 = Some ?S" "ps_sockets example_request 2 = Some ?R"
    "ps_sockets example_request 3 = Some ?N" "socket_of 4 example_request = Some 3"
    by (simp_all add: example_request_def socket_of_def)
  show ?thesis using accept_connects [OF example_request_wf s(1) _ s(4,3,2)] by auto
qed

subsection \<open>Lost wake-ups and dangling references\<close>

lemma block_waits:
  assumes "m_taskHashmap tm (m_currentTask tm) = Some t" "t_blockFlag t" "m_sleepingTasks tm = []" "m_currentTask tm \<noteq> 0"
    "block now tm = Some tm'"
  shows "\<exists>t'. m_taskHashmap tm' (m_currentTask tm) = Some t' \<and> t_state t' = WAIT"
proof -
  obtain g where g: "m_groupHashmap tm (t_groupId t) = Some g" using assms by (auto simp: block_def lookup_defs split: option.splits)
  have "refresh now (deschedule_current_task (set_group (t_groupId t)
      (g\<lparr>g_readyTasks := remove1 (t_tid t) (g_readyTasks g)\<rparr>) (set_task (m_currentTask tm) (t\<lparr>t_state := WAIT\<rparr>) tm))) = Some tm'"
    using assms g by (simp add: block_def lookup_defs Let_def)
  then show ?thesis using assms(3)
    by (auto simp: refresh_def choose_task_def get_next_task_def enter_task_def deschedule_current_task_def lookup_defs Let_def
        dest!: tasks_scheduler(2,3) split: option.splits if_splits)
qed

text \<open>
  \<open>accept\<close> looks for a request and announces that it will block in two separate critical sections. A request that
  arrives between them is not seen: the task goes to sleep although the queue is not empty, and
  \<open>connect\<close>, which found no task to wake, sleeps as well.
\<close>

theorem accept_sleeps_on_pending_request:
  assumes "ipc_wf st" "m_currentTask (ps_tm st) \<noteq> 0" "m_sleepingTasks (ps_tm st) = []"
    "ps_sockets st n = Some S" "m_connectionQueue S \<noteq> []" "accept_wait now n st = Some st'"
  shows "\<exists>t S'. m_taskHashmap (ps_tm st') (m_currentTask (ps_tm st)) = Some t \<and> t_state t = WAIT \<and>
    ps_sockets st' n = Some S' \<and> m_connectionQueue S' \<noteq> []"
proof -
  obtain tm1 tm2 where w: "about_to_block (ps_tm st) = Some tm1" "block now tm1 = Some tm2"
    "st' = (set_socket n (S\<lparr>m_tid := m_currentTask (ps_tm st)\<rparr>) st)\<lparr>ps_tm := tm2\<rparr>"
    using assms(4,6) by (auto simp: accept_wait_def split: Option.bind_splits)
  obtain t where t: "m_taskHashmap tm1 (m_currentTask tm1) = Some t" "t_blockFlag t" "m_currentTask tm1 = m_currentTask (ps_tm st)"
    using about_to_block_spec [OF tm_reachable_inv [OF ipc_wf_reachable [OF assms(1)]] assms(2)] w(1) by auto
  moreover have "m_sleepingTasks tm1 = []" using sleepers_announce [OF w(1)] assms(3) by simp
  ultimately show ?thesis using block_waits [OF t(1,2) _ _ w(2)] assms(2,5) w(3) by auto
qed

text \<open>
  Closing a socket frees it while the socket at the other end still refers to it: the next write there accesses
  freed memory.
\<close>

theorem close_leaves_endpoint_dangling:
  assumes "ps_sockets st a = Some A" "m_endpoint A = Some b" "a \<noteq> b" "ls_close b st = Some st'"
  shows "ls_write now steps bs a st' = None"
  using assms by (auto simp: ls_close_def ls_write_def write_enter_def split: Option.bind_splits)

text \<open>
  After the last listener of a pipe has been removed, the pipe keeps the receipt of the device. A listener added later is
  not announced to the device, so the socket has nobody to tell about events; removing that listener again
  erases a node that no longer exists.
\<close>

theorem readded_listener_is_deaf:
  assumes "ps_pipes st p = Some P" "m_isOpen P" "m_device P = Some SOCKET_LOCAL" "m_deviceSpecific P = Some n"
    "m_listeners P = []" "m_devReceipt P = None" "ps_sockets st n = Some S" "\<not> m_connected S" "m_connectionQueue S = []"
    "m_endpoint S = None" "m_eventListenerList S = []" "p \<noteq> lp" "socket_of lp st = Some l" "ps_listeners st l = Some L"
    "m_eventNotifRegs L = []"
  shows "\<exists>st1 st2 st3 P3 S3. el_add env lp p pd ev st = Some st1 \<and> el_remove env lp p pd ev st1 = Some st2 \<and>
    el_add env lp p pd ev st2 = Some st3 \<and> ps_pipes st3 p = Some P3 \<and> length (m_listeners P3) = 1 \<and>
    ps_sockets st3 n = Some S3 \<and> m_eventListenerList S3 = [] \<and> el_remove env lp p pd ev st3 = None"
proof -
  note defs = el_add_def el_remove_def pipe_notify_def ask_device_def pipe_unnotify_def ls_notify_def ls_denotify_def ell_add_def
    ell_remove_def operations_def local_socket_operations_def dev_denotify_def set_pipe_def set_socket_def set_listener_def
    socket_of_def Let_def
  obtain PL where PL: "ps_pipes st lp = Some PL" "m_deviceSpecific PL = Some l"
    using assms(13) by (auto simp: socket_of_def split: Option.bind_splits)
  obtain st1 where st1: "el_add env lp p pd ev st = Some st1" "ps_next st1 = ps_next st + 2"
    "ps_pipes st1 = (ps_pipes st)(p \<mapsto> P\<lparr>m_listeners := [(ps_next st, \<lparr>interestedEvents = ev, l_listener = l, l_pd = pd\<rparr>)],
       m_devReceipt := Some (Some (ps_next st + 1))\<rparr>)"
    "ps_sockets st1 = (ps_sockets st)(n \<mapsto> S\<lparr>m_eventListenerList := [(ps_next st + 1, p)]\<rparr>)"
    "ps_listeners st1 = (ps_listeners st)(l \<mapsto> L\<lparr>m_eventNotifRegs := [((p, ev), Some (ps_next st))]\<rparr>)"
    using assms PL by (simp add: defs)
  obtain st2 where st2: "el_remove env lp p pd ev st1 = Some st2" "ps_next st2 = ps_next st1"
    "ps_pipes st2 = (ps_pipes st)(p \<mapsto> P\<lparr>m_devReceipt := Some (Some (ps_next st + 1)), m_listeners := []\<rparr>)"
    "ps_sockets st2 = (ps_sockets st)(n \<mapsto> S\<lparr>m_eventListenerList := []\<rparr>)" "ps_listeners st2 = ps_listeners st1"
    using assms PL st1 by (simp add: defs)
  obtain st3 where st3: "el_add env lp p pd ev st2 = Some st3"
    "ps_pipes st3 = (ps_pipes st)(p \<mapsto> P\<lparr>m_devReceipt := Some (Some (ps_next st + 1)),
       m_listeners := [(ps_next st + 2, \<lparr>interestedEvents = ev, l_listener = l, l_pd = pd\<rparr>)]\<rparr>)"
    "ps_sockets st3 = (ps_sockets st)(n \<mapsto> S\<lparr>m_eventListenerList := []\<rparr>)" "ps_listeners st3 = ps_listeners st1"
    using assms PL st1 st2 by (simp add: defs)
  have "el_remove env lp p pd ev st3 = None" using assms PL st1 st3 by (simp add: defs)
  then show ?thesis using st1(1) st2(1) st3 by auto
qed

subsection \<open>Waiting for events\<close>

lemma fill_events_result:
  "i \<le> m \<Longrightarrow> m \<le> length buf \<Longrightarrow>
   fill_events (int i) (int m) es buf = Some (take i buf @ take (m - i) es @ drop (i + min (m - i) (length es)) buf)"
proof (induction es arbitrary: i buf)
  case (Cons e es)
  show ?case
  proof (cases "i = m")
    case False
    then have i: "Suc i \<le> m" "i < length buf" using Cons.prems by simp_all
    have "fill_events (int i) (int m) (e # es) buf = fill_events (int (Suc i)) (int m) es (buf[i := e])"
      using False i by (simp add: add.commute)
    also have "\<dots> = Some (take (Suc i) (buf[i := e]) @ take (m - Suc i) es @
        drop (Suc i + min (m - Suc i) (length es)) (buf[i := e]))"
      using i Cons.prems by (intro Cons.IH) simp_all
    also have "take (Suc i) (buf[i := e]) = take i buf @ [e]" using i(2) by (simp add: take_Suc_conv_app_nth)
    also have "drop (Suc i + min (m - Suc i) (length es)) (buf[i := e]) = drop (i + min (m - i) (length (e # es))) buf"
    proof -
      have "Suc i + min (m - Suc i) (length es) = i + min (m - i) (length (e # es))" using i(1) by (simp add: min_def) linarith
      then have "drop (Suc i + min (m - Suc i) (length es)) (buf[i := e]) = drop (i + min (m - i) (length (e # es))) (buf[i := e])"
        by (rule arg_cong)
      moreover have "i < i + min (m - i) (length (e # es))" using i(1) by simp
      ultimately show ?thesis by (simp only: drop_update_cancel)
    qed
    finally show ?thesis using i(1) by (simp add: Suc_diff_Suc [symmetric])
  qed simp
qed simp

lemma fill_results_other:
  "fill_results q raised bs = Some bs' \<Longrightarrow> b \<notin> (\<lambda>x. fst (snd x)) ` set q \<Longrightarrow> bs' b = bs b"
  by (induction q raised bs rule: fill_results.induct) (auto split: Option.bind_splits)

lemma fill_results_append:
  "fill_results (q @ q') raised bs = do { bs \<leftarrow> fill_results q raised bs; fill_results q' raised bs }"
proof (induction q arbitrary: bs)
  case (Cons x q)
  then show ?case by (cases x) (simp add: Option.bind_assoc fun_upd_def)
qed simp

text \<open>
  A task that waits for events when some are pending gets them at once: the call returns, the result array begins
  with the pending events in the order in which they were first raised, one entry per pipe, and nothing stays
  pending. The returned number counts every pending event, also those beyond the size of the array,
  which are lost.
\<close>

theorem listen_returns_raised:
  assumes "ipc_ok st" "m_currentTask (ps_tm st) \<noteq> 0" "ps_listeners st l = Some L" "m_raisedEvents L = es" "es \<noteq> []"
    "ps_buffers st b = Some buf" "n \<le> length buf" "\<forall>x\<in>set (m_resultPtrQueue L). fst (snd x) \<noteq> b"
  shows "\<exists>st' buf' L'. el_listen env l b (int n) st = Some (length es, st') \<and> ps_buffers st' b = Some buf' \<and>
    take (min n (length es)) buf' = take n es \<and> ps_listeners st' l = Some L' \<and> m_raisedEvents L' = []"
proof -
  have ev: "events_wf st" by (rule ipc_okD(3) [OF assms(1)])
  have wf: "listener_wf st L" using ev assms(3) by (simp add: events_wf_def)
  let ?q = "el_waitQueue L @ [(ps_next st, m_currentTask (ps_tm st))]"
  have "waiters_ok (ps_tm st) (el_waitQueue L)" using wf by (simp add: listener_wf_def)
  from add_to_queue_total [OF ipc_okD(2) [OF assms(1)] assms(2) this] obtain tm where
    tm: "add_to_queue (ps_next st) (el_waitQueue L) (ps_tm st) = Some (ps_next st, ?q, tm)" by blast
  let ?L = "L\<lparr>el_waitQueue := ?q, m_resultPtrQueue := m_resultPtrQueue L @ [(ps_next st + 1, b, int n)]\<rparr>"
  let ?st = "set_listener l ?L (st\<lparr>ps_tm := tm, ps_next := ps_next st + 2\<rparr>)"
  have enter: "listen_enter l b (int n) st = Some (ps_next st, ps_next st + 1, False, ?st)"
    using assms(3,4,5) tm by (simp add: listen_enter_def)
  have L1: "ps_listeners ?st l = Some ?L" by (simp add: set_listener_def)
  have ok1: "ipc_ok ?st" using listen_enter_ok [OF assms(1,2,6) _ _ enter] assms(7) by simp
  obtain st2 where st2: "el_wake l ?st = Some st2" "ps_listeners st2 = ps_listeners ?st"
    using el_wake_informs [OF ipc_okD(3) [OF ok1] L1] by blast
  obtain bs where bs: "fill_results (m_resultPtrQueue ?L) es (ps_buffers st) = Some bs" "ps_buffers st2 = bs"
    using st2(1) L1 assms(4) by (auto simp: el_wake_def queue_is_empty_def set_listener_def split: Option.bind_splits)
  obtain bs1 where bs1: "fill_results (m_resultPtrQueue L) es (ps_buffers st) = Some bs1"
    "fill_results [(ps_next st + 1, b, int n)] es bs1 = Some bs"
    using bs(1) by (auto simp: fill_results_append split: Option.bind_splits)
  have "bs1 b = Some buf" using fill_results_other [OF bs1(1), of b] assms(6,8) by force
  then have "bs b = Some (take n es @ drop (min n (length es)) buf)"
    using bs1(2) fill_events_result [of 0 n buf es] assms(7) by (auto split: Option.bind_splits)
  moreover have "\<exists>st' L'. listen_finish (ps_next st) (ps_next st + 1) l st2 = Some (length es, st') \<and>
      ps_buffers st' = bs \<and> ps_listeners st' l = Some L' \<and> m_raisedEvents L' = []"
    using st2(2) L1 bs(2) assms(4) by (simp add: listen_finish_def remove_from_queue_def set_listener_def)
  moreover have "el_listen env l b (int n) st = listen_finish (ps_next st) (ps_next st + 1) l st2"
    using enter st2(1) by (simp add: el_listen_def)
  ultimately show ?thesis by (auto simp: min_def)
qed

definition example_events :: PipeState where
  "example_events = (ipc_init example_running)
     \<lparr>ps_listeners := [1 \<mapsto> el_new\<lparr>m_raisedEvents := [\<lparr>eventsRaised = 1, ev_pd = 7\<rparr>, \<lparr>eventsRaised = 2, ev_pd = 8\<rparr>]\<rparr>],
      ps_buffers := [2 \<mapsto> replicate 4 \<lparr>eventsRaised = 0, ev_pd = 0\<rparr>], ps_next := 3\<rparr>"

theorem listen_returns_raised_witness:
  "(\<exists>st' buf'. el_listen example_env 1 2 4 example_events = Some (2, st') \<and> ps_buffers st' 2 = Some buf' \<and>
     take 2 buf' = [\<lparr>eventsRaised = 1, ev_pd = 7\<rparr>, \<lparr>eventsRaised = 2, ev_pd = 8\<rparr>]) \<and>
   (\<exists>st'. el_listen example_env 1 2 1 example_events = Some (2, st'))"
proof -
  have t: "ps_tm example_events = example_running" by (simp add: example_events_def ipc_init_def register_device_def)
  have ok: "ipc_ok example_events"
    using example_running_reachable unfolding ipc_ok_def ipc_wf_def events_wf_def t
    by (auto simp: example_events_def listener_wf_def el_new_def results_ok_def below_next_def ipc_init_def register_device_def)
  have cur: "m_currentTask (ps_tm example_events) \<noteq> 0" by (simp add: t example_running_def)
  have l: "ps_listeners example_events 1 = Some (el_new\<lparr>m_raisedEvents := [\<lparr>eventsRaised = 1, ev_pd = 7\<rparr>, \<lparr>eventsRaised = 2, ev_pd = 8\<rparr>]\<rparr>)"
    "ps_buffers example_events 2 = Some (replicate 4 \<lparr>eventsRaised = 0, ev_pd = 0\<rparr>)" by (simp_all add: example_events_def)
  show ?thesis
    using listen_returns_raised [OF ok cur l(1) refl _ l(2), of 4 example_env]
      listen_returns_raised [OF ok cur l(1) refl _ l(2), of 1 example_env] by (auto simp: el_new_def numeral_2_eq_2)
qed

end
