(* ===== verification/FS_VFS.thy ===== *)
theory FS_VFS
  imports Xp_Prelude Common_CircularBuffer "HOL-Library.Monad_Syntax"
begin

text \<open>
  The virtual file system, \<open>Kernel/Filesystem/VFS.cpp\<close> and \<open>VFS.h\<close>: a tree of nodes that caches what the driver of the
  mounted file system has found. Strings are their bytes without the terminator. Nodes are in a store
  by address; \<^const>\<open>None\<close> as the result of an operation is a fault or a spinlock that is never released,
  since a node's spinlock that is already held is not released while the acquirer spins. Every object of
  the mounted file system carries the operations of its driver, which are an argument of the definitions.

  \<open>parse_path\<close> copies each component with \<open>strncpy\<close> and its length. For length 0 the counter wraps
  around and the copy runs over all memory, and a component of \<open>MAX_PATH_SIZE\<close> bytes or more overruns the
  array, so both are faults.
\<close>

definition MAX_PATH_SIZE :: nat where "MAX_PATH_SIZE = 256"
definition PATH_SEPERATOR :: byte where "PATH_SEPERATOR = 0x2f"

datatype ObjectType = FILE | DIRECTORY | MOUNTPOINT

record ConcreteObject =
  inodeNum :: nat
  co_fs :: "addr option"
  co_refCount :: int
  co_type :: ObjectType

text \<open>The operations of a driver; a null operation is \<^const>\<open>None\<close>. \<open>finddir\<close> returns a new object or none.\<close>

record DriverOperations =
  drv_read :: "(ConcreteObject \<Rightarrow> nat \<Rightarrow> nat \<Rightarrow> (nat \<times> byte list) option) option"
  drv_write :: "(ConcreteObject \<Rightarrow> nat \<Rightarrow> byte list \<Rightarrow> nat option) option"
  drv_finddir :: "(ConcreteObject \<Rightarrow> byte list \<Rightarrow> ConcreteObject option option) option"
  drv_fileinfo :: "(ConcreteObject \<Rightarrow> nat option) option"

record Node =
  vn_refCount :: int
  vn_lock :: bool
  componentName :: "byte list"
  concreteObject :: "ConcreteObject option"
  childNodes :: "addr list"
  parentNode :: "addr option"
  freeListIterator :: "addr option"

record VirtualFilesystem =
  vfs_nodes :: "addr \<rightharpoonup> Node"
  m_rootNode :: addr
  m_unusedNodes :: "(addr \<times> addr) list"
  vfs_next :: addr

definition node_new :: "byte list \<Rightarrow> addr option \<Rightarrow> Node" where
  "node_new name parent =
     \<lparr>vn_refCount = 0, vn_lock = False, componentName = name, concreteObject = None, childNodes = [],
      parentNode = parent, freeListIterator = None\<rparr>"

definition vfs_construct :: VirtualFilesystem where
  "vfs_construct =
     \<lparr>vfs_nodes = [1 \<mapsto> (node_new [] None)\<lparr>vn_refCount := 1\<rparr>], m_rootNode = 1, m_unusedNodes = [], vfs_next = 2\<rparr>"

definition set_node :: "addr \<Rightarrow> Node \<Rightarrow> VirtualFilesystem \<Rightarrow> VirtualFilesystem" where
  "set_node a n v = v\<lparr>vfs_nodes := (vfs_nodes v)(a \<mapsto> n)\<rparr>"

definition register_filesystem :: "ConcreteObject \<Rightarrow> VirtualFilesystem \<Rightarrow> (int \<times> VirtualFilesystem) option" where
  "register_filesystem root v = do {
     n \<leftarrow> vfs_nodes v (m_rootNode v);
     Some (1, set_node (m_rootNode v) (n\<lparr>concreteObject := Some root\<rparr>) v)
   }"

subsection \<open>Paths\<close>

function parse_path :: "byte list \<Rightarrow> byte list list option" where
  "parse_path [] = Some []"
| "parse_path (c # path) =
     (let component = takeWhile (\<lambda>x. x \<noteq> PATH_SEPERATOR) (c # path);
          rest = dropWhile (\<lambda>x. x \<noteq> PATH_SEPERATOR) (c # path)
      in if component = [] \<or> MAX_PATH_SIZE \<le> length component then None
         else do { components \<leftarrow> parse_path (tl rest); Some (component # components) })"
  by pat_completeness auto
termination
proof (relation "measure length", goal_cases)
  case (2 c path component rest)
  have "length rest \<le> length (c # path)" unfolding 2(2) by (rule length_dropWhile_le)
  then show ?case by (cases rest) auto
qed simp

subsection \<open>Opening and closing\<close>

definition lock_node :: "addr \<Rightarrow> VirtualFilesystem \<Rightarrow> VirtualFilesystem option" where
  "lock_node a v = do {
     n \<leftarrow> vfs_nodes v a;
     if vn_lock n then None else Some (set_node a (n\<lparr>vn_lock := True\<rparr>) v)
   }"

definition unlock_node :: "addr \<Rightarrow> VirtualFilesystem \<Rightarrow> VirtualFilesystem option" where
  "unlock_node a v = do { n \<leftarrow> vfs_nodes v a; Some (set_node a (n\<lparr>vn_lock := False\<rparr>) v) }"

definition increment_node_reference_count :: "addr \<Rightarrow> VirtualFilesystem \<Rightarrow> VirtualFilesystem option" where
  "increment_node_reference_count a v = do {
     n \<leftarrow> vfs_nodes v a;
     (n, v) \<leftarrow> (if vn_refCount n = 0 then
                 (case freeListIterator n of
                    Some it \<Rightarrow>
                      if it \<in> fst ` set (m_unusedNodes v)
                      then Some (n\<lparr>freeListIterator := None\<rparr>, v\<lparr>m_unusedNodes := filter (\<lambda>(i, _). i \<noteq> it) (m_unusedNodes v)\<rparr>)
                      else None
                  | None \<Rightarrow> Some (n, v))
               else Some (n, v));
     Some (set_node a (n\<lparr>vn_refCount := vn_refCount n + 1\<rparr>) v)
   }"

definition decrement_node_reference_count :: "addr \<Rightarrow> VirtualFilesystem \<Rightarrow> VirtualFilesystem option" where
  "decrement_node_reference_count a v = do {
     n \<leftarrow> vfs_nodes v a;
     let n = n\<lparr>vn_refCount := vn_refCount n - 1\<rparr>;
     if vn_refCount n > 0 then Some (set_node a n v)
     else Some (set_node a (n\<lparr>freeListIterator := Some (vfs_next v)\<rparr>)
                 (v\<lparr>m_unusedNodes := m_unusedNodes v @ [(vfs_next v, a)], vfs_next := vfs_next v + 1\<rparr>))
   }"

definition create_new_node :: "byte list \<Rightarrow> addr \<Rightarrow> ConcreteObject \<Rightarrow> VirtualFilesystem \<Rightarrow> addr \<times> VirtualFilesystem" where
  "create_new_node name parent object v =
     (let n = (node_new name (Some parent))\<lparr>concreteObject := Some (object\<lparr>co_refCount := co_refCount object + 1\<rparr>)\<rparr>
      in (vfs_next v, set_node (vfs_next v) n (v\<lparr>vfs_next := vfs_next v + 1\<rparr>)))"

fun find_child :: "byte list \<Rightarrow> addr list \<Rightarrow> VirtualFilesystem \<Rightarrow> addr option option" where
  "find_child name [] v = Some None"
| "find_child name (child # children) v = do {
     n \<leftarrow> vfs_nodes v child;
     if componentName n = name then Some (Some child) else find_child name children v
   }"

text \<open>The next node on the path, from the cache or from the driver; the inner \<^const>\<open>None\<close> is \<open>return false\<close>.\<close>

definition next_node ::
  "DriverOperations \<Rightarrow> addr \<Rightarrow> byte list \<Rightarrow> VirtualFilesystem \<Rightarrow> (addr option \<times> VirtualFilesystem) option" where
  "next_node drops node name v = do {
     n \<leftarrow> vfs_nodes v node;
     cached \<leftarrow> find_child name (childNodes n) v;
     case cached of
       Some child \<Rightarrow> Some (Some child, v)
     | None \<Rightarrow> do {
         object \<leftarrow> concreteObject n;
         finddir \<leftarrow> drv_finddir drops;
         found \<leftarrow> finddir object name;
         case found of
           None \<Rightarrow> Some (None, v)
         | Some found \<Rightarrow> do {
             let (child, v) = create_new_node name node found v;
             n \<leftarrow> vfs_nodes v node;
             Some (Some child, set_node node (n\<lparr>childNodes := childNodes n @ [child]\<rparr>) v)
           }
       }
   }"

fun open_components ::
  "DriverOperations \<Rightarrow> byte list list \<Rightarrow> addr \<Rightarrow> VirtualFilesystem \<Rightarrow> (addr option \<times> VirtualFilesystem) option" where
  "open_components drops [] node v = do { v \<leftarrow> unlock_node node v; Some (Some node, v) }"
| "open_components drops (name # names) node v = do {
     (next, v) \<leftarrow> next_node drops node name v;
     case next of
       None \<Rightarrow> Some (None, v)
     | Some next \<Rightarrow> do {
         v \<leftarrow> increment_node_reference_count node v;
         v \<leftarrow> unlock_node node v;
         v \<leftarrow> lock_node next v;
         n \<leftarrow> vfs_nodes v next;
         if concreteObject n = None then Some (None, v) else open_components drops names next v
       }
   }"

definition vfs_open :: "DriverOperations \<Rightarrow> byte list \<Rightarrow> VirtualFilesystem \<Rightarrow> (addr option \<times> VirtualFilesystem) option" where
  "vfs_open drops path v = do {
     v \<leftarrow> lock_node (m_rootNode v) v;
     parsedPath \<leftarrow> parse_path path;
     open_components drops parsedPath (m_rootNode v) v
   }"

text \<open>The loop of \<open>close\<close> follows the parents up to the root.\<close>

partial_function (option) vfs_close :: "addr \<Rightarrow> VirtualFilesystem \<Rightarrow> VirtualFilesystem option" where
  "vfs_close node v = do {
     v \<leftarrow> lock_node node v;
     n \<leftarrow> vfs_nodes v node;
     v \<leftarrow> decrement_node_reference_count node v;
     v \<leftarrow> unlock_node node v;
     (case parentNode n of None \<Rightarrow> Some v | Some parent \<Rightarrow> vfs_close parent v)
   }"

subsection \<open>Files\<close>

definition vfs_read :: "DriverOperations \<Rightarrow> nat \<Rightarrow> nat \<Rightarrow> addr \<Rightarrow> VirtualFilesystem \<Rightarrow> (nat \<times> byte list) option" where
  "vfs_read drops offset cnt node v = do {
     n \<leftarrow> vfs_nodes v node;
     object \<leftarrow> concreteObject n;
     read \<leftarrow> drv_read drops;
     read object offset cnt
   }"

definition vfs_write :: "DriverOperations \<Rightarrow> nat \<Rightarrow> byte list \<Rightarrow> addr \<Rightarrow> VirtualFilesystem \<Rightarrow> nat option" where
  "vfs_write drops offset buf node v = do {
     n \<leftarrow> vfs_nodes v node;
     object \<leftarrow> concreteObject n;
     write \<leftarrow> drv_write drops;
     write object offset buf
   }"

definition vfs_info :: "DriverOperations \<Rightarrow> addr \<Rightarrow> VirtualFilesystem \<Rightarrow> nat option" where
  "vfs_info drops node v = do {
     n \<leftarrow> vfs_nodes v node;
     object \<leftarrow> concreteObject n;
     fileinfo \<leftarrow> drv_fileinfo drops;
     fileinfo object
   }"

definition filelen :: "DriverOperations \<Rightarrow> addr \<Rightarrow> VirtualFilesystem \<Rightarrow> nat option" where
  "filelen drops node v = vfs_info drops node v"

subsection \<open>The cache is transparent\<close>

text \<open>
  The reference: a path is resolved by asking the driver for one component after the other. The outer
  \<^const>\<open>None\<close> is a fault of the driver, the inner one a component that does not exist.
\<close>

definition same_object :: "ConcreteObject \<Rightarrow> ConcreteObject \<Rightarrow> bool" where
  "same_object a b \<longleftrightarrow> a\<lparr>co_refCount := 0\<rparr> = b\<lparr>co_refCount := 0\<rparr>"

fun resolve ::
  "(ConcreteObject \<Rightarrow> byte list \<Rightarrow> ConcreteObject option option) \<Rightarrow> ConcreteObject \<Rightarrow> byte list list \<Rightarrow>
   ConcreteObject option option" where
  "resolve finddir object [] = Some (Some object)"
| "resolve finddir object (name # names) = do {
     found \<leftarrow> finddir object name;
     case found of None \<Rightarrow> Some None | Some found \<Rightarrow> resolve finddir found names
   }"

text \<open>The nodes form a tree that agrees with the driver; exactly the node \<open>lk\<close> is locked.\<close>

definition child_ok ::
  "(ConcreteObject \<Rightarrow> byte list \<Rightarrow> ConcreteObject option option) \<Rightarrow> VirtualFilesystem \<Rightarrow> addr \<Rightarrow> ConcreteObject \<Rightarrow> addr \<Rightarrow> bool" where
  "child_ok finddir v a object c \<longleftrightarrow> (\<exists>m found object'. vfs_nodes v c = Some m \<and> parentNode m = Some a \<and> c \<noteq> a \<and>
     finddir object (componentName m) = Some (Some found) \<and> concreteObject m = Some object' \<and> same_object found object')"

definition vfs_inv ::
  "(ConcreteObject \<Rightarrow> byte list \<Rightarrow> ConcreteObject option option) \<Rightarrow> addr option \<Rightarrow> VirtualFilesystem \<Rightarrow> bool" where
  "vfs_inv finddir lk v \<longleftrightarrow> m_rootNode v \<in> dom (vfs_nodes v) \<and>
     distinct (map fst (m_unusedNodes v)) \<and> (\<forall>i\<in>fst ` set (m_unusedNodes v). i < vfs_next v) \<and>
     (\<forall>a n. vfs_nodes v a = Some n \<longrightarrow> a < vfs_next v \<and> (vn_lock n \<longleftrightarrow> lk = Some a) \<and>
        (\<forall>it. freeListIterator n = Some it \<longrightarrow> (it, a) \<in> set (m_unusedNodes v)) \<and>
        (\<forall>p. parentNode n = Some p \<longrightarrow> p < a \<and> p \<in> dom (vfs_nodes v)) \<and>
        (\<exists>object. concreteObject n = Some object \<and> (\<forall>c\<in>set (childNodes n). child_ok finddir v a object c)))"

text \<open>What locking and counting leave alone.\<close>

definition same_tree :: "VirtualFilesystem \<Rightarrow> VirtualFilesystem \<Rightarrow> bool" where
  "same_tree v v' \<longleftrightarrow> m_rootNode v' = m_rootNode v \<and>
     (\<forall>a. map_option (\<lambda>n. (concreteObject n, parentNode n)) (vfs_nodes v' a) = map_option (\<lambda>n. (concreteObject n, parentNode n)) (vfs_nodes v a))"

text \<open>Nodes stay and keep their objects.\<close>

definition keeps_objects :: "VirtualFilesystem \<Rightarrow> VirtualFilesystem \<Rightarrow> bool" where
  "keeps_objects v v' \<longleftrightarrow> m_rootNode v' = m_rootNode v \<and>
     (\<forall>a n. vfs_nodes v a = Some n \<longrightarrow> (\<exists>n'. vfs_nodes v' a = Some n' \<and> concreteObject n' = concreteObject n))"

lemma keeps_objects_refl [simp]: "keeps_objects v v"
  by (simp add: keeps_objects_def)

lemma keeps_objects_trans: "keeps_objects u v \<Longrightarrow> keeps_objects v w \<Longrightarrow> keeps_objects u w"
  unfolding keeps_objects_def by metis

text \<open>
  What opening gives, for the object the driver resolves the path to: the node of that object, with the
  invariant kept and no node locked; for a path that does not exist, false, with a node still locked.
\<close>

definition open_agrees ::
  "(ConcreteObject \<Rightarrow> byte list \<Rightarrow> ConcreteObject option option) \<Rightarrow> VirtualFilesystem \<Rightarrow> ConcreteObject option option \<Rightarrow>
   (addr option \<times> VirtualFilesystem) option \<Rightarrow> bool" where
  "open_agrees finddir v resolved outcome \<longleftrightarrow> (case resolved of
      None \<Rightarrow> outcome = None
    | Some None \<Rightarrow> (\<exists>v' b m. outcome = Some (None, v') \<and> vfs_nodes v' b = Some m \<and> vn_lock m)
    | Some (Some result) \<Rightarrow> (\<exists>b v' m object. outcome = Some (Some b, v') \<and> vfs_inv finddir None v' \<and>
        vfs_nodes v' b = Some m \<and> concreteObject m = Some object \<and> same_object result object \<and> keeps_objects v v'))"

lemma open_agrees_keeps:
  "keeps_objects u v \<Longrightarrow> open_agrees finddir v resolved outcome \<Longrightarrow> open_agrees finddir u resolved outcome"
  unfolding open_agrees_def by (auto split: option.splits dest: keeps_objects_trans)

locale vfs_driver =
  fixes drops :: DriverOperations
    and finddir :: "ConcreteObject \<Rightarrow> byte list \<Rightarrow> ConcreteObject option option"
  assumes drops_finddir: "drv_finddir drops = Some finddir"
    and finddir_count: "finddir (object\<lparr>co_refCount := k\<rparr>) name = finddir object name"
begin

lemma finddir_same: "same_object a b \<Longrightarrow> finddir a name = finddir b name"
  using finddir_count [of 0 a name] finddir_count [of 0 b name] by (simp add: same_object_def)

lemma resolve_same: "same_object a b \<Longrightarrow> rel_option (rel_option same_object) (resolve finddir a names) (resolve finddir b names)"
proof (cases names)
  case (Cons name names')
  assume "same_object a b"
  then have eq: "resolve finddir a names = resolve finddir b names" using finddir_same Cons by simp
  have "rel_option (rel_option same_object) x x" for x by (rule option.rel_refl, rule option.rel_refl) (simp add: same_object_def)
  then show ?thesis using eq by simp
qed simp

lemma find_child_ok:
  assumes "\<forall>c\<in>set cs. child_ok finddir v a object c"
  shows "\<exists>r. find_child name cs v = Some r \<and> (\<forall>c. r = Some c \<longrightarrow> c \<in> set cs \<and> map_option componentName (vfs_nodes v c) = Some name)"
  using assms
proof (induction cs)
  case (Cons c cs)
  obtain m where m: "vfs_nodes v c = Some m" using Cons.prems by (auto simp: child_ok_def)
  show ?case
  proof (cases "componentName m = name")
    case True
    then show ?thesis using m by simp
  next
    case False
    then show ?thesis using m Cons by auto
  qed
qed simp

lemma child_ok_update:
  assumes "child_ok finddir v a object c" "vfs_nodes v b = Some n" "same_object object' object"
    "componentName n' = componentName n" "parentNode n' = parentNode n" "concreteObject n' = concreteObject n"
    "vfs_nodes v' = (vfs_nodes v)(b \<mapsto> n')"
  shows "child_ok finddir v' a object' c"
  using assms finddir_same [OF assms(3)] unfolding child_ok_def by (cases "c = b") auto

lemma vfs_inv_node: "vfs_inv finddir lk v \<Longrightarrow> vfs_nodes v a = Some n \<Longrightarrow> \<exists>object. concreteObject n = Some object \<and> (\<forall>c\<in>set (childNodes n). child_ok finddir v a object c)"
  unfolding vfs_inv_def by blast

lemma vfs_inv_update:
  assumes inv: "vfs_inv finddir lk v" and b: "vfs_nodes v b = Some n"
    and n': "componentName n' = componentName n" "parentNode n' = parentNode n" "concreteObject n' = concreteObject n"
      "\<forall>object. \<forall>c\<in>set (childNodes n'). concreteObject n = Some object \<longrightarrow> c \<in> set (childNodes n) \<or> child_ok finddir v' b object c"
    and v': "vfs_nodes v' = (vfs_nodes v)(b \<mapsto> n')" "m_rootNode v' = m_rootNode v" "vfs_next v \<le> vfs_next v'"
    and u: "distinct (map fst (m_unusedNodes v'))" "\<forall>i\<in>fst ` set (m_unusedNodes v'). i < vfs_next v'"
      "\<forall>it. freeListIterator n' = Some it \<longrightarrow> (it, b) \<in> set (m_unusedNodes v')"
      "\<forall>a m it. a \<noteq> b \<longrightarrow> vfs_nodes v a = Some m \<longrightarrow> freeListIterator m = Some it \<longrightarrow> (it, a) \<in> set (m_unusedNodes v')"
    and lk: "vn_lock n' \<longleftrightarrow> lk' = Some b" "\<forall>a. a \<noteq> b \<longrightarrow> (lk' = Some a \<longleftrightarrow> lk = Some a)"
  shows "vfs_inv finddir lk' v'"
proof -
  have node: "a < vfs_next v' \<and> (vn_lock m \<longleftrightarrow> lk' = Some a) \<and>
      (\<forall>it. freeListIterator m = Some it \<longrightarrow> (it, a) \<in> set (m_unusedNodes v')) \<and>
      (\<forall>p. parentNode m = Some p \<longrightarrow> p < a \<and> p \<in> dom (vfs_nodes v')) \<and>
      (\<exists>object. concreteObject m = Some object \<and> (\<forall>c\<in>set (childNodes m). child_ok finddir v' a object c))"
    if m: "vfs_nodes v' a = Some m" for a m
  proof -
    obtain m0 where m0: "vfs_nodes v a = Some m0" "concreteObject m = concreteObject m0" "parentNode m = parentNode m0"
      "a \<noteq> b \<Longrightarrow> m = m0" "a = b \<Longrightarrow> m = n' \<and> m0 = n"
      using m b n' v'(1) by (cases "a = b") auto
    obtain object where o: "concreteObject m0 = Some object" "\<forall>c\<in>set (childNodes m0). child_ok finddir v a object c"
      using vfs_inv_node [OF inv m0(1)] by blast
    have "child_ok finddir v' a object c" if "c \<in> set (childNodes m0)" for c
      using child_ok_update [OF _ b _ n'(1-3) v'(1), of a object c object] o(2) that by (simp add: same_object_def)
    then have "\<forall>c\<in>set (childNodes m). child_ok finddir v' a object c"
      using m0(4,5) n'(4) o(1) by (cases "a = b") auto
    moreover have "a < vfs_next v \<and> (vn_lock m0 \<longleftrightarrow> lk = Some a) \<and> (\<forall>p. parentNode m0 = Some p \<longrightarrow> p < a \<and> p \<in> dom (vfs_nodes v))"
      using inv m0(1) unfolding vfs_inv_def by blast
    ultimately show ?thesis using o(1) m0 u(3,4) lk v'(1,3) by (cases "a = b") auto
  qed
  have "m_rootNode v' \<in> dom (vfs_nodes v')" using inv v' by (simp add: vfs_inv_def)
  moreover have "\<forall>a m. vfs_nodes v' a = Some m \<longrightarrow> a < vfs_next v' \<and> (vn_lock m \<longleftrightarrow> lk' = Some a) \<and>
      (\<forall>it. freeListIterator m = Some it \<longrightarrow> (it, a) \<in> set (m_unusedNodes v')) \<and>
      (\<forall>p. parentNode m = Some p \<longrightarrow> p < a \<and> p \<in> dom (vfs_nodes v')) \<and>
      (\<exists>object. concreteObject m = Some object \<and> (\<forall>c\<in>set (childNodes m). child_ok finddir v' a object c))"
    by (intro allI impI) (rule node)
  ultimately show ?thesis using u(1,2) by (simp only: vfs_inv_def simp_thms)
qed

lemma vfs_invD:
  assumes "vfs_inv finddir lk v"
  shows "m_rootNode v \<in> dom (vfs_nodes v)" "distinct (map fst (m_unusedNodes v))" "\<forall>i\<in>fst ` set (m_unusedNodes v). i < vfs_next v"
    "vfs_nodes v a = Some n \<Longrightarrow> vn_lock n \<longleftrightarrow> lk = Some a" "vfs_nodes v a = Some n \<Longrightarrow> a < vfs_next v"
    "vfs_nodes v a = Some n \<Longrightarrow> freeListIterator n = Some it \<Longrightarrow> (it, a) \<in> set (m_unusedNodes v)"
  using assms unfolding vfs_inv_def by blast+

lemma same_tree_trans: "same_tree v v1 \<Longrightarrow> same_tree v1 v2 \<Longrightarrow> same_tree v v2"
  by (simp add: same_tree_def)

lemma same_tree_node:
  "same_tree v v' \<Longrightarrow> vfs_nodes v a = Some n \<Longrightarrow> \<exists>n'. vfs_nodes v' a = Some n' \<and> concreteObject n' = concreteObject n \<and> parentNode n' = parentNode n"
proof -
  assume t: "same_tree v v'" "vfs_nodes v a = Some n"
  then have "map_option (\<lambda>n. (concreteObject n, parentNode n)) (vfs_nodes v' a) = Some (concreteObject n, parentNode n)"
    by (simp add: same_tree_def)
  then show ?thesis by (cases "vfs_nodes v' a") auto
qed

lemma same_tree_keeps: "same_tree v v' \<Longrightarrow> keeps_objects v v'"
proof -
  assume t: "same_tree v v'"
  then have "m_rootNode v' = m_rootNode v" by (simp add: same_tree_def)
  then show ?thesis unfolding keeps_objects_def using same_tree_node [OF t] by blast
qed

lemma lock_node_ok:
  assumes inv: "vfs_inv finddir None v" and n: "vfs_nodes v a = Some n"
  shows "\<exists>v'. lock_node a v = Some v' \<and> vfs_inv finddir (Some a) v' \<and> same_tree v v'"
proof -
  have l: "\<not> vn_lock n" using vfs_invD(4) [OF inv n] by simp
  let ?v = "set_node a (n\<lparr>vn_lock := True\<rparr>) v"
  have "vfs_inv finddir (Some a) ?v"
    using vfs_invD(2,3,6) [OF inv] n by (intro vfs_inv_update [OF inv n]) (auto simp: set_node_def)
  then show ?thesis using l n by (auto simp: lock_node_def same_tree_def set_node_def)
qed

lemma unlock_node_ok:
  assumes inv: "vfs_inv finddir (Some a) v" and n: "vfs_nodes v a = Some n"
  shows "\<exists>v'. unlock_node a v = Some v' \<and> vfs_inv finddir None v' \<and> same_tree v v'"
proof -
  let ?v = "set_node a (n\<lparr>vn_lock := False\<rparr>) v"
  have "vfs_inv finddir None ?v"
    using vfs_invD(2,3,6) [OF inv] n by (intro vfs_inv_update [OF inv n]) (auto simp: set_node_def)
  then show ?thesis using n by (auto simp: unlock_node_def same_tree_def set_node_def)
qed

lemma increment_ok:
  assumes inv: "vfs_inv finddir lk v" and n: "vfs_nodes v a = Some n"
  shows "\<exists>v'. increment_node_reference_count a v = Some v' \<and> vfs_inv finddir lk v' \<and> same_tree v v'"
proof (cases "vn_refCount n = 0 \<and> freeListIterator n \<noteq> None")
  case True
  then obtain it where it: "freeListIterator n = Some it" by auto
  have i: "(it, a) \<in> set (m_unusedNodes v)" using vfs_invD(6) [OF inv n it] .
  let ?u = "filter (\<lambda>(i, _). i \<noteq> it) (m_unusedNodes v)"
  let ?n = "n\<lparr>freeListIterator := None, vn_refCount := vn_refCount n + 1\<rparr>"
  let ?v = "set_node a ?n (v\<lparr>m_unusedNodes := ?u\<rparr>)"
  have eq: "increment_node_reference_count a v = Some ?v"
    using n True it i by (force simp: increment_node_reference_count_def)
  have "j \<noteq> it" if "b \<noteq> a" "vfs_nodes v b = Some m" "freeListIterator m = Some j" for b m j
    using vfs_invD(6) [OF inv that(2,3)] vfs_invD(2) [OF inv] i that(1) by (metis Pair_inject eq_key_imp_eq_value)
  then have "vfs_inv finddir lk ?v"
    using vfs_invD(2,3,4,6) [OF inv] n
    by (intro vfs_inv_update [OF inv n]) (auto simp: set_node_def distinct_map_filter)
  then show ?thesis using eq n by (auto simp: same_tree_def set_node_def)
next
  case False
  let ?v = "set_node a (n\<lparr>vn_refCount := vn_refCount n + 1\<rparr>) v"
  have "increment_node_reference_count a v = Some ?v"
    using n False by (auto simp: increment_node_reference_count_def split: option.splits)
  moreover have "vfs_inv finddir lk ?v"
    using vfs_invD(2,3,4,6) [OF inv] n by (intro vfs_inv_update [OF inv n]) (auto simp: set_node_def)
  ultimately show ?thesis using n by (auto simp: same_tree_def set_node_def)
qed

lemma decrement_ok:
  assumes inv: "vfs_inv finddir lk v" and n: "vfs_nodes v a = Some n"
  shows "\<exists>v'. decrement_node_reference_count a v = Some v' \<and> vfs_inv finddir lk v' \<and> same_tree v v'"
proof (cases "vn_refCount n - 1 > 0")
  case True
  let ?v = "set_node a (n\<lparr>vn_refCount := vn_refCount n - 1\<rparr>) v"
  have "decrement_node_reference_count a v = Some ?v" using n True by (simp add: decrement_node_reference_count_def Let_def)
  moreover have "vfs_inv finddir lk ?v"
    using vfs_invD(2,3,4,6) [OF inv] n by (intro vfs_inv_update [OF inv n]) (auto simp: set_node_def)
  ultimately show ?thesis using n by (auto simp: same_tree_def set_node_def)
next
  case False
  let ?v = "set_node a (n\<lparr>vn_refCount := vn_refCount n - 1, freeListIterator := Some (vfs_next v)\<rparr>)
      (v\<lparr>m_unusedNodes := m_unusedNodes v @ [(vfs_next v, a)], vfs_next := vfs_next v + 1\<rparr>)"
  have "decrement_node_reference_count a v = Some ?v" using n False by (simp add: decrement_node_reference_count_def Let_def)
  moreover have "vfs_next v \<notin> fst ` set (m_unusedNodes v)" using vfs_invD(3) [OF inv] by blast
  then have "vfs_inv finddir lk ?v"
    using vfs_invD(2,3,4,6) [OF inv] n by (intro vfs_inv_update [OF inv n]) (auto simp: set_node_def less_Suc_eq)
  ultimately show ?thesis using n by (auto simp: same_tree_def set_node_def)
qed

lemma child_ok_fresh:
  assumes "child_ok finddir v a object c" "vfs_nodes v k = None" "vfs_nodes v' = (vfs_nodes v)(k \<mapsto> n)"
  shows "child_ok finddir v' a object c"
  using assms unfolding child_ok_def by (cases "c = k") auto

lemma vfs_next_fresh: "vfs_inv finddir lk v \<Longrightarrow> vfs_nodes v (vfs_next v) = None"
  by (rule ccontr) (use vfs_invD(5) [of lk v "vfs_next v"] in auto)

lemma vfs_inv_new:
  assumes inv: "vfs_inv finddir lk v" and a: "vfs_nodes v a = Some n" and lk: "lk \<noteq> Some (vfs_next v)"
    and m: "vn_lock m = False" "freeListIterator m = None" "parentNode m = Some a" "concreteObject m = Some object" "childNodes m = []"
    and v': "v' = set_node (vfs_next v) m (v\<lparr>vfs_next := vfs_next v + 1\<rparr>)"
  shows "vfs_inv finddir lk v'"
proof -
  have k: "vfs_nodes v (vfs_next v) = None" by (rule vfs_next_fresh [OF inv])
  have v'n: "vfs_nodes v' = (vfs_nodes v)(vfs_next v \<mapsto> m)" "m_unusedNodes v' = m_unusedNodes v" "vfs_next v' = vfs_next v + 1"
    "m_rootNode v' = m_rootNode v" by (simp_all add: v' set_node_def)
  have "b < vfs_next v' \<and> (vn_lock x \<longleftrightarrow> lk = Some b) \<and>
      (\<forall>it. freeListIterator x = Some it \<longrightarrow> (it, b) \<in> set (m_unusedNodes v')) \<and>
      (\<forall>p. parentNode x = Some p \<longrightarrow> p < b \<and> p \<in> dom (vfs_nodes v')) \<and>
      (\<exists>object. concreteObject x = Some object \<and> (\<forall>c\<in>set (childNodes x). child_ok finddir v' b object c))"
    if x: "vfs_nodes v' b = Some x" for b x
  proof (cases "b = vfs_next v")
    case True
    then show ?thesis using x m lk v'n vfs_invD(5) [OF inv a] a by auto
  next
    case False
    then have bx: "vfs_nodes v b = Some x" using x v'n by simp
    have "\<exists>object. concreteObject x = Some object \<and> (\<forall>c\<in>set (childNodes x). child_ok finddir v' b object c)"
      using vfs_inv_node [OF inv bx] child_ok_fresh [OF _ k v'n(1)] by blast
    moreover have "\<forall>p. parentNode x = Some p \<longrightarrow> p < b \<and> p \<in> dom (vfs_nodes v)" using inv bx unfolding vfs_inv_def by blast
    ultimately show ?thesis using vfs_invD(4,5,6) [OF inv bx] v'n by (auto simp: less_SucI)
  qed
  moreover have "m_rootNode v' \<in> dom (vfs_nodes v')" "distinct (map fst (m_unusedNodes v'))" "\<forall>i\<in>fst ` set (m_unusedNodes v'). i < vfs_next v'"
    using vfs_invD(1-3) [OF inv] v'n by (auto simp: less_SucI)
  ultimately show ?thesis unfolding vfs_inv_def by (intro conjI allI impI) blast+
qed

lemma next_node_ok:
  assumes inv: "vfs_inv finddir (Some a) v" and n: "vfs_nodes v a = Some n" "concreteObject n = Some object"
  shows "case finddir object name of
      None \<Rightarrow> next_node drops a name v = None
    | Some None \<Rightarrow> next_node drops a name v = Some (None, v)
    | Some (Some found) \<Rightarrow> (\<exists>c v' m object'. next_node drops a name v = Some (Some c, v') \<and> vfs_inv finddir (Some a) v' \<and>
        vfs_nodes v' c = Some m \<and> concreteObject m = Some object' \<and> same_object found object' \<and> c \<noteq> a \<and>
        keeps_objects v v' \<and> vfs_nodes v' a \<noteq> None)"
proof -
  have ch: "\<forall>c\<in>set (childNodes n). child_ok finddir v a object c" using vfs_inv_node [OF inv n(1)] n(2) by auto
  obtain r where r: "find_child name (childNodes n) v = Some r"
    "\<forall>c. r = Some c \<longrightarrow> c \<in> set (childNodes n) \<and> map_option componentName (vfs_nodes v c) = Some name"
    using find_child_ok [OF ch] by blast
  show ?thesis
  proof (cases r)
    case (Some c)
    then obtain m found object' where "vfs_nodes v c = Some m" "c \<noteq> a" "componentName m = name"
      "finddir object name = Some (Some found)" "concreteObject m = Some object'" "same_object found object'"
      using r(2) ch unfolding child_ok_def by fastforce
    then show ?thesis using inv n r(1) Some by (simp add: next_node_def)
  next
    case None
    define m where "m f = (node_new name (Some a))\<lparr>concreteObject := Some (f\<lparr>co_refCount := co_refCount f + 1\<rparr>)\<rparr>" for f
    define v1 where "v1 f = set_node (vfs_next v) (m f) (v\<lparr>vfs_next := vfs_next v + 1\<rparr>)" for f
    have k: "vfs_next v \<noteq> a" using vfs_invD(5) [OF inv n(1)] by simp
    have new: "\<exists>c v' m object'. next_node drops a name v = Some (Some c, v') \<and> vfs_inv finddir (Some a) v' \<and>
        vfs_nodes v' c = Some m \<and> concreteObject m = Some object' \<and> same_object f object' \<and> c \<noteq> a \<and>
        keeps_objects v v' \<and> vfs_nodes v' a \<noteq> None" if f: "finddir object name = Some (Some f)" for f
    proof -
      have inv1: "vfs_inv finddir (Some a) (v1 f)"
        using k by (intro vfs_inv_new [OF inv n(1) _ _ _ _ _ _ v1_def]) (simp_all add: m_def node_new_def)
      have a1: "vfs_nodes (v1 f) a = Some n" using n(1) k by (simp add: v1_def set_node_def)
      let ?v = "set_node a (n\<lparr>childNodes := childNodes n @ [vfs_next v]\<rparr>) (v1 f)"
      have c: "child_ok finddir ?v a object (vfs_next v)"
        using f k by (auto simp: child_ok_def v1_def set_node_def m_def node_new_def same_object_def)
      have "vfs_inv finddir (Some a) ?v"
        using vfs_invD(2,3,4,6) [OF inv1] a1 c n(2)
        by (intro vfs_inv_update [OF inv1 a1]) (auto simp: set_node_def)
      moreover have "next_node drops a name v = Some (Some (vfs_next v), ?v)"
        using n r(1) None f drops_finddir k by (simp add: next_node_def create_new_node_def m_def v1_def set_node_def Let_def)
      moreover have "vfs_nodes ?v (vfs_next v) = Some (m f)" using k by (simp add: v1_def set_node_def)
      moreover have "concreteObject (m f) = Some (f\<lparr>co_refCount := co_refCount f + 1\<rparr>)"
        "same_object f (f\<lparr>co_refCount := co_refCount f + 1\<rparr>)" by (simp_all add: m_def same_object_def)
      moreover have "keeps_objects v ?v"
      proof -
        have "vfs_nodes v (vfs_next v) = None" by (rule vfs_next_fresh [OF inv])
        then show ?thesis using n(1) k by (auto simp: keeps_objects_def v1_def set_node_def)
      qed
      ultimately show ?thesis using k by (auto simp: v1_def set_node_def)
    qed
    show ?thesis
    proof (cases "finddir object name")
      case (Some x)
      show ?thesis
      proof (cases x)
        case None
        then show ?thesis using n r(1) \<open>r = None\<close> drops_finddir Some by (simp add: next_node_def)
      next
        fix f assume "x = Some f"
        then show ?thesis using new [of f] Some by simp
      qed
    qed (use n r(1) None drops_finddir in \<open>simp add: next_node_def\<close>)
  qed
qed

lemma open_components_ok:
  assumes "vfs_inv finddir (Some a) v" "vfs_nodes v a = Some n" "concreteObject n = Some object0" "same_object object object0"
  shows "open_agrees finddir v (resolve finddir object names) (open_components drops names a v)"
  using assms
proof (induction names arbitrary: a v n object object0)
  case Nil
  obtain v' where v': "unlock_node a v = Some v'" "vfs_inv finddir None v'" "same_tree v v'"
    using unlock_node_ok [OF Nil(1,2)] by blast
  obtain n' where "vfs_nodes v' a = Some n'" "concreteObject n' = Some object0" using same_tree_node [OF v'(3) Nil(2)] Nil(3) by auto
  then show ?case using v' Nil(4) same_tree_keeps by (simp add: open_agrees_def)
next
  case (Cons name names)
  have f: "finddir object name = finddir object0 name" by (rule finddir_same [OF Cons.prems(4)])
  note nn = next_node_ok [OF Cons.prems(1,2,3), of name]
  consider "finddir object0 name = None" | "finddir object0 name = Some None" | found where "finddir object0 name = Some (Some found)"
    by (metis option.exhaust)
  then show ?case
  proof cases
    case 1
    then show ?thesis using nn f by (simp add: open_agrees_def)
  next
    case 2
    have "vn_lock n" using vfs_invD(4) [OF Cons.prems(1,2)] by simp
    then show ?thesis using nn f 2 Cons.prems(2) by (auto simp: open_agrees_def)
  next
    case (3 found)
    then obtain c v1 m object' where c: "next_node drops a name v = Some (Some c, v1)" "vfs_inv finddir (Some a) v1"
      "vfs_nodes v1 c = Some m" "concreteObject m = Some object'" "same_object found object'" "keeps_objects v v1"
      "vfs_nodes v1 a \<noteq> None" using nn by auto
    obtain n1 where n1: "vfs_nodes v1 a = Some n1" using c(7) by auto
    obtain v2 where v2: "increment_node_reference_count a v1 = Some v2" "vfs_inv finddir (Some a) v2" "same_tree v1 v2"
      using increment_ok [OF c(2) n1] by blast
    obtain n2 where n2: "vfs_nodes v2 a = Some n2" using same_tree_node [OF v2(3) n1] by blast
    obtain v3 where v3: "unlock_node a v2 = Some v3" "vfs_inv finddir None v3" "same_tree v2 v3" using unlock_node_ok [OF v2(2) n2] by blast
    obtain m3 where m3: "vfs_nodes v3 c = Some m3" "concreteObject m3 = Some object'"
      using same_tree_node [OF same_tree_trans [OF v2(3) v3(3)] c(3)] c(4) by auto
    obtain v4 where v4: "lock_node c v3 = Some v4" "vfs_inv finddir (Some c) v4" "same_tree v3 v4" using lock_node_ok [OF v3(2) m3(1)] by blast
    obtain m4 where m4: "vfs_nodes v4 c = Some m4" "concreteObject m4 = Some object'" using same_tree_node [OF v4(3) m3(1)] m3(2) by auto
    have "open_components drops (name # names) a v = open_components drops names c v4" using c(1) v2(1) v3(1) v4(1) m4 by simp
    moreover have "keeps_objects v v4"
      using keeps_objects_trans [OF c(6) same_tree_keeps [OF same_tree_trans [OF same_tree_trans [OF v2(3) v3(3)] v4(3)]]] .
    moreover have "resolve finddir object (name # names) = resolve finddir found names" using f 3 by simp
    moreover note Cons.IH [OF v4(2) m4 c(5)]
    ultimately show ?thesis using open_agrees_keeps by simp
  qed
qed

lemma vfs_open_ok:
  assumes inv: "vfs_inv finddir None v" and r: "vfs_nodes v (m_rootNode v) = Some n" "concreteObject n = Some root"
    and p: "parse_path path = Some names"
  shows "open_agrees finddir v (resolve finddir root names) (vfs_open drops path v)"
proof -
  obtain v1 where v1: "lock_node (m_rootNode v) v = Some v1" "vfs_inv finddir (Some (m_rootNode v)) v1" "same_tree v v1"
    using lock_node_ok [OF inv r(1)] by blast
  obtain n1 where n1: "vfs_nodes v1 (m_rootNode v) = Some n1" "concreteObject n1 = Some root" using same_tree_node [OF v1(3) r(1)] r(2) by auto
  have eq: "vfs_open drops path v = open_components drops names (m_rootNode v) v1" "m_rootNode v1 = m_rootNode v"
    using v1(1,3) p by (simp_all add: vfs_open_def same_tree_def)
  have "same_object root root" by (simp add: same_object_def)
  from open_components_ok [OF v1(2) n1 this, of names] show ?thesis
    unfolding eq by (rule open_agrees_keeps [OF same_tree_keeps [OF v1(3)]])
qed

lemma vfs_open_missing_at_root:
  assumes inv: "vfs_inv finddir None v" and r: "vfs_nodes v (m_rootNode v) = Some n" "concreteObject n = Some root"
    and p: "parse_path path = Some (name # names)" "finddir root name = Some None"
  shows "\<exists>v'. vfs_open drops path v = Some (None, v') \<and> (\<forall>q. vfs_open drops q v' = None)"
proof -
  obtain v1 where v1: "lock_node (m_rootNode v) v = Some v1" "vfs_inv finddir (Some (m_rootNode v)) v1" "same_tree v v1"
    using lock_node_ok [OF inv r(1)] by blast
  obtain n1 where n1: "vfs_nodes v1 (m_rootNode v) = Some n1" "concreteObject n1 = Some root" using same_tree_node [OF v1(3) r(1)] r(2) by auto
  have root: "m_rootNode v1 = m_rootNode v" using v1(3) by (simp add: same_tree_def)
  have "next_node drops (m_rootNode v) name v1 = Some (None, v1)" using next_node_ok [OF v1(2) n1, of name] p(2) by simp
  then have "vfs_open drops path v = Some (None, v1)" using v1(1) p(1) root by (simp add: vfs_open_def)
  moreover have "vn_lock n1" using vfs_invD(4) [OF v1(2) n1(1)] by simp
  then have "\<forall>q. vfs_open drops q v1 = None" using n1(1) root by (simp add: vfs_open_def lock_node_def)
  ultimately show ?thesis by blast
qed

lemma vfs_close_ok:
  "vfs_inv finddir None v \<Longrightarrow> vfs_nodes v a = Some n \<Longrightarrow>
   \<exists>v'. vfs_close a v = Some v' \<and> vfs_inv finddir None v' \<and> same_tree v v'"
proof (induction a arbitrary: v n rule: less_induct)
  case (less a)
  obtain v1 where v1: "lock_node a v = Some v1" "vfs_inv finddir (Some a) v1" "same_tree v v1" using lock_node_ok [OF less.prems] by blast
  obtain n1 where n1: "vfs_nodes v1 a = Some n1" "parentNode n1 = parentNode n" using same_tree_node [OF v1(3) less.prems(2)] by auto
  obtain v2 where v2: "decrement_node_reference_count a v1 = Some v2" "vfs_inv finddir (Some a) v2" "same_tree v1 v2"
    using decrement_ok [OF v1(2) n1(1)] by blast
  obtain n2 where n2: "vfs_nodes v2 a = Some n2" using same_tree_node [OF v2(3) n1(1)] by blast
  obtain v3 where v3: "unlock_node a v2 = Some v3" "vfs_inv finddir None v3" "same_tree v2 v3" using unlock_node_ok [OF v2(2) n2] by blast
  have t: "same_tree v v3" using same_tree_trans v1(3) v2(3) v3(3) by blast
  have eq: "vfs_close a v = (case parentNode n1 of None \<Rightarrow> Some v3 | Some p \<Rightarrow> vfs_close p v3)"
    by (subst vfs_close.simps) (simp add: v1(1) n1(1) v2(1) v3(1))
  show ?case
  proof (cases "parentNode n")
    case None
    then show ?thesis using eq n1(2) v3(2) t by simp
  next
    case (Some p)
    then have p: "p < a" "p \<in> dom (vfs_nodes v)" using less.prems unfolding vfs_inv_def by blast+
    then obtain m where "vfs_nodes v3 p = Some m" using same_tree_node [OF t] by blast
    from less.IH [OF p(1) v3(2) this] show ?thesis using eq n1(2) Some t same_tree_trans by auto
  qed
qed

end

end
