(* ===== verification/FS_Initrd.thy ===== *)
theory FS_Initrd
  imports FS_VFS Physical_Memory Memory_Routines "HOL-Library.Sublist"
begin

text \<open>
  The initial RAM disk, \<open>Kernel/Drivers/Initrd/TARinitrd.cpp\<close> and \<open>TARinitrd.h\<close>: a TAR archive in memory that
  is mounted as the root of the virtual file system. \<open>load_initrd\<close> walks over the headers of the archive and
  builds a map from directory numbers to their entries and one from file numbers to headers; the driver
  operations answer from these maps and from the memory of the archive.

  \<^const>\<open>None\<close> is a fault (a missing map entry is dereferenced, an unterminated name is read) or an archive
  whose headers do not end.
\<close>

definition INITRD_ADDRESS :: addr where "INITRD_ADDRESS = 0xFFFFFFFFA0000000"
definition TAR_ALIGN :: u64 where "TAR_ALIGN = 0x200"

subsection \<open>Headers\<close>

text \<open>A header is 512 bytes: the name in 100 bytes, the size in octal at offset 124.\<close>

definition tar_bytes :: "memory \<Rightarrow> addr \<Rightarrow> nat \<Rightarrow> byte list" where
  "tar_bytes mem p n = map mem [p..<p + n]"

definition get_filename :: "memory \<Rightarrow> addr \<Rightarrow> byte list option" where
  "get_filename mem h =
     (let name = takeWhile (\<lambda>c. c \<noteq> 0) (tar_bytes mem h 100) in if length name < 100 then Some name else None)"

fun get_size_loop :: "memory \<Rightarrow> addr \<Rightarrow> nat \<Rightarrow> u64 \<Rightarrow> u64 \<Rightarrow> u64" where
  "get_size_loop mem h 0 cnt sz = sz"
| "get_size_loop mem h (Suc i) cnt sz =
     get_size_loop mem h i (cnt * 8) (sz + (scast (mem (h + 124 + i)) - 48) * cnt)"

definition get_size :: "memory \<Rightarrow> addr \<Rightarrow> u64" where
  "get_size mem h = get_size_loop mem h 11 1 0"

definition get_next_header :: "memory \<Rightarrow> addr \<Rightarrow> addr" where
  "get_next_header mem h = h + 512 + unat (BYTE_ALIGN_UP (get_size mem h) TAR_ALIGN)"

subsection \<open>Loading\<close>

record TarDirectoryEntry =
  entry_filename :: "byte list"
  entry_inodeNum :: nat

record TarReader =
  m_headerCount :: nat
  m_directoryMap :: "nat \<rightharpoonup> TarDirectoryEntry list"
  m_fileMap :: "nat \<rightharpoonup> addr"
  m_dirVirtualNodeNum :: nat

definition find_entry :: "byte list \<Rightarrow> TarDirectoryEntry list \<Rightarrow> TarDirectoryEntry option" where
  "find_entry name entries = find (\<lambda>e. entry_filename e = name) entries"

definition push_entry :: "nat \<Rightarrow> TarDirectoryEntry \<Rightarrow> TarReader \<Rightarrow> TarReader option" where
  "push_entry d entry r = do {
     entries \<leftarrow> m_directoryMap r d;
     Some (r\<lparr>m_directoryMap := (m_directoryMap r)(d \<mapsto> entries @ [entry])\<rparr>)
   }"

definition enter_directory :: "nat \<Rightarrow> byte list \<Rightarrow> TarReader \<Rightarrow> (nat \<times> TarReader) option" where
  "enter_directory workingDirectory directoryName r = do {
     entries \<leftarrow> m_directoryMap r workingDirectory;
     case find_entry directoryName entries of
       Some entry \<Rightarrow> Some (entry_inodeNum entry, r)
     | None \<Rightarrow> do {
         let i = m_dirVirtualNodeNum r + 1;
         let r = r\<lparr>m_dirVirtualNodeNum := i, m_directoryMap := (m_directoryMap r)(i \<mapsto> [])\<rparr>;
         r \<leftarrow> push_entry workingDirectory \<lparr>entry_filename = directoryName, entry_inodeNum = i\<rparr> r;
         Some (i, r)
       }
   }"

definition add_file :: "nat \<Rightarrow> byte list \<Rightarrow> nat \<Rightarrow> addr \<Rightarrow> TarReader \<Rightarrow> TarReader option" where
  "add_file workingDirectory name fileInodeNum currentHeader r = do {
     r \<leftarrow> push_entry workingDirectory \<lparr>entry_filename = name, entry_inodeNum = fileInodeNum\<rparr> r;
     Some (r\<lparr>m_fileMap := (m_fileMap r)(fileInodeNum \<mapsto> currentHeader)\<rparr>)
   }"

text \<open>
  The loop of \<open>resolve_path\<close>. An empty component would be copied by \<open>strncpy\<close> with length 0, whose counter
  wraps around.
\<close>

function resolve_path_loop :: "nat \<Rightarrow> byte list \<Rightarrow> nat \<Rightarrow> addr \<Rightarrow> TarReader \<Rightarrow> TarReader option" where
  "resolve_path_loop workingDirectory path fileInodeNum currentHeader r =
     (if path = [] then Some r
      else if PATH_SEPERATOR \<in> set path then
        let directoryName = takeWhile (\<lambda>c. c \<noteq> PATH_SEPERATOR) path;
            path = drop (length directoryName + 1) path
        in if directoryName = [] then None
           else do {
             (workingDirectory, r) \<leftarrow> enter_directory workingDirectory directoryName r;
             resolve_path_loop workingDirectory path fileInodeNum currentHeader r
           }
      else do {
        r \<leftarrow> add_file workingDirectory path fileInodeNum currentHeader r;
        resolve_path_loop workingDirectory [] fileInodeNum currentHeader r
      })"
  by pat_completeness auto
termination by (relation "measure (\<lambda>(_, path, _). length path)") auto

declare resolve_path_loop.simps [simp del]

definition resolve_path :: "byte list \<Rightarrow> nat \<Rightarrow> addr \<Rightarrow> TarReader \<Rightarrow> TarReader option" where
  "resolve_path path fileInodeNum currentHeader r = resolve_path_loop 0 path fileInodeNum currentHeader r"

partial_function (option) count_headers :: "memory \<Rightarrow> addr \<Rightarrow> nat \<Rightarrow> nat option" where
  "count_headers mem h n = (if mem h = 0 then Some n else count_headers mem (get_next_header mem h) (n + 1))"

partial_function (option) load_headers :: "memory \<Rightarrow> addr \<Rightarrow> nat \<Rightarrow> TarReader \<Rightarrow> TarReader option" where
  "load_headers mem h headerNo r =
     (if mem h = 0 then Some r
      else do {
        substring \<leftarrow> get_filename mem h;
        r \<leftarrow> resolve_path substring headerNo h r;
        load_headers mem (get_next_header mem h) (headerNo + 1) r
      })"

definition create_concrete_object :: "nat \<Rightarrow> ObjectType \<Rightarrow> addr option \<Rightarrow> ConcreteObject" where
  "create_concrete_object inode ty fs = \<lparr>inodeNum = inode, co_fs = fs, co_refCount = 0, co_type = ty\<rparr>"

definition load_initrd :: "memory \<Rightarrow> VirtualFilesystem \<Rightarrow> (TarReader \<times> VirtualFilesystem) option" where
  "load_initrd mem v = do {
     (_, v) \<leftarrow> register_filesystem (create_concrete_object 0 DIRECTORY None) v;
     n \<leftarrow> count_headers mem INITRD_ADDRESS 0;
     r \<leftarrow> load_headers mem INITRD_ADDRESS 1
       \<lparr>m_headerCount = n, m_directoryMap = [0 \<mapsto> []], m_fileMap = Map.empty, m_dirVirtualNodeNum = n\<rparr>;
     Some (r, v)
   }"

subsection \<open>The driver\<close>

definition prepare_concrete_object :: "TarReader \<Rightarrow> TarDirectoryEntry \<Rightarrow> ConcreteObject option" where
  "prepare_concrete_object r entry =
     (if entry_inodeNum entry \<le> m_headerCount r \<and> entry_inodeNum entry \<noteq> 0
      then do { h \<leftarrow> m_fileMap r (entry_inodeNum entry); Some (create_concrete_object (entry_inodeNum entry) FILE (Some h)) }
      else Some (create_concrete_object (entry_inodeNum entry) DIRECTORY None))"

definition vfsdriver_finddir :: "TarReader \<Rightarrow> ConcreteObject \<Rightarrow> byte list \<Rightarrow> ConcreteObject option option" where
  "vfsdriver_finddir r vnode name = do {
     entries \<leftarrow> m_directoryMap r (inodeNum vnode);
     case find_entry name entries of
       None \<Rightarrow> Some None
     | Some entry \<Rightarrow> do { object \<leftarrow> prepare_concrete_object r entry; Some (Some object) }
   }"

definition read_header :: "memory \<Rightarrow> addr \<Rightarrow> nat \<Rightarrow> nat \<Rightarrow> nat \<times> byte list" where
  "read_header mem h offset sz = (sz, tar_bytes mem (h + unat TAR_ALIGN + offset) sz)"

definition vfsdriver_read :: "memory \<Rightarrow> ConcreteObject \<Rightarrow> nat \<Rightarrow> nat \<Rightarrow> (nat \<times> byte list) option" where
  "vfsdriver_read mem vnode offset sz = do { h \<leftarrow> co_fs vnode; Some (read_header mem h offset sz) }"

definition vfsdriver_fileinfo :: "memory \<Rightarrow> ConcreteObject \<Rightarrow> nat option" where
  "vfsdriver_fileinfo mem vnode = do { h \<leftarrow> co_fs vnode; Some (unat (get_size mem h)) }"

definition tar_drops :: "memory \<Rightarrow> TarReader \<Rightarrow> DriverOperations" where
  "tar_drops mem r =
     \<lparr>drv_read = Some (vfsdriver_read mem), drv_write = None,
      drv_finddir = Some (vfsdriver_finddir r), drv_fileinfo = Some (vfsdriver_fileinfo mem)\<rparr>"

interpretation tar: vfs_driver "tar_drops mem r" "vfsdriver_finddir r"
  by unfold_locales (simp_all add: tar_drops_def vfsdriver_finddir_def)

subsection \<open>The directory tree\<close>

text \<open>The number a path leads to, from a directory and from the root.\<close>

definition entry_of :: "TarReader \<Rightarrow> nat \<Rightarrow> byte list \<Rightarrow> nat option" where
  "entry_of r d x = do { entries \<leftarrow> m_directoryMap r d; map_option entry_inodeNum (find_entry x entries) }"

fun walk :: "TarReader \<Rightarrow> nat \<Rightarrow> byte list list \<Rightarrow> nat option" where
  "walk r d [] = Some d"
| "walk r d (x # xs) = do { i \<leftarrow> entry_of r d x; walk r i xs }"

definition tree :: "TarReader \<Rightarrow> byte list list \<Rightarrow> nat option" where
  "tree r q = walk r 0 q"

definition is_file :: "byte list \<Rightarrow> bool" where
  "is_file name \<longleftrightarrow> name \<noteq> [] \<and> last name \<noteq> PATH_SEPERATOR"

text \<open>
  The reader \<open>r\<close> of an archive of \<open>H\<close> headers, after the paths in \<open>P\<close>, of which \<open>F\<close> are the files with their
  numbers.
\<close>

definition tar_inv :: "nat \<Rightarrow> byte list list set \<Rightarrow> (byte list list \<times> nat) set \<Rightarrow> TarReader \<Rightarrow> bool" where
  "tar_inv H P F r \<longleftrightarrow> m_headerCount r = H \<and> H \<le> m_dirVirtualNodeNum r \<and>
     dom (m_directoryMap r) = {0} \<union> {H<..m_dirVirtualNodeNum r} \<and>
     (\<forall>(p, i)\<in>F. tree r p = Some i \<and> 0 < i \<and> i \<le> H \<and> m_fileMap r i \<noteq> None) \<and>
     (\<forall>q j. tree r q = Some j \<longrightarrow> j \<in> dom (m_directoryMap r) \<and> (q = [] \<or> (\<exists>p\<in>P. prefix q p)) \<or> (q, j) \<in> F) \<and>
     (\<forall>q q' j. tree r q = Some j \<longrightarrow> tree r q' = Some j \<longrightarrow> j \<in> dom (m_directoryMap r) \<longrightarrow> q = q')"

lemma walk_snoc: "walk r d (q @ [x]) = walk r d q \<bind> (\<lambda>i. entry_of r i x)"
  by (induction q arbitrary: d) (auto split: bind_splits)

lemma tree_snoc: "tree r (q @ [x]) = tree r q \<bind> (\<lambda>i. entry_of r i x)"
  by (simp add: tree_def walk_snoc)

lemma tree_Nil [simp]: "tree r [] = Some 0"
  by (simp add: tree_def)

lemma tar_invD:
  assumes "tar_inv H P F r"
  shows "m_headerCount r = H" and "H \<le> m_dirVirtualNodeNum r" and "dom (m_directoryMap r) = {0} \<union> {H<..m_dirVirtualNodeNum r}"
    and "\<And>p i. (p, i) \<in> F \<Longrightarrow> tree r p = Some i" and "\<And>p i. (p, i) \<in> F \<Longrightarrow> 0 < i \<and> i \<le> H"
    and "\<And>p i. (p, i) \<in> F \<Longrightarrow> m_fileMap r i \<noteq> None"
    and "\<And>q j. tree r q = Some j \<Longrightarrow> j \<in> dom (m_directoryMap r) \<and> (q = [] \<or> (\<exists>p\<in>P. prefix q p)) \<or> (q, j) \<in> F"
    and "\<And>q q' j. tree r q = Some j \<Longrightarrow> tree r q' = Some j \<Longrightarrow> j \<in> dom (m_directoryMap r) \<Longrightarrow> q = q'"
  using assms unfolding tar_inv_def by blast+

lemma tar_invI:
  assumes "m_headerCount r = H" "H \<le> m_dirVirtualNodeNum r" "dom (m_directoryMap r) = {0} \<union> {H<..m_dirVirtualNodeNum r}"
    and "\<And>p i. (p, i) \<in> F \<Longrightarrow> tree r p = Some i \<and> 0 < i \<and> i \<le> H \<and> m_fileMap r i \<noteq> None"
    and "\<And>q j. tree r q = Some j \<Longrightarrow> j \<in> dom (m_directoryMap r) \<and> (q = [] \<or> (\<exists>p\<in>P. prefix q p)) \<or> (q, j) \<in> F"
    and "\<And>q q' j. tree r q = Some j \<Longrightarrow> tree r q' = Some j \<Longrightarrow> j \<in> dom (m_directoryMap r) \<Longrightarrow> q = q'"
  shows "tar_inv H P F r"
proof -
  have "\<forall>(p, i)\<in>F. tree r p = Some i \<and> 0 < i \<and> i \<le> H \<and> m_fileMap r i \<noteq> None" using assms(4) by auto
  then show ?thesis unfolding tar_inv_def using assms(1-3) by (intro conjI allI impI) (assumption | rule assms(5,6), assumption+)+
qed

lemma tree_add:
  assumes w: "tree r pw = Some w" "\<And>q. tree r q = Some w \<Longrightarrow> q = pw" "entry_of r w x = None"
    and e: "\<And>d y. entry_of r' d y = (if d = w \<and> y = x then Some i else entry_of r d y)"
    and i: "\<And>y. entry_of r i y = None" "i \<noteq> w"
  shows "tree r' = (tree r)(pw @ [x] \<mapsto> i)"
proof
  fix q
  show "tree r' q = ((tree r)(pw @ [x] \<mapsto> i)) q"
  proof (induction q rule: rev_induct)
    case (snoc y q)
    show ?case
    proof (cases "q = pw @ [x]")
      case True
      have "tree r q = None" using w(1,3) by (simp add: True tree_snoc)
      then have "tree r (q @ [y]) = None" by (simp add: tree_snoc)
      moreover have "tree r' (q @ [y]) = None" unfolding tree_snoc [of r'] snoc using True i by (simp add: e)
      ultimately show ?thesis using True by simp
    next
      case False
      then have eq: "tree r' q = tree r q" using snoc by simp
      show ?thesis
      proof (cases "tree r q = Some w \<and> y = x")
        case True
        then show ?thesis using w(2) [of q] eq by (simp add: tree_snoc e)
      next
        case ne: False
        then have "q @ [y] \<noteq> pw @ [x]" using w(1) by auto
        then show ?thesis using eq ne by (cases "tree r q") (auto simp: tree_snoc e)
      qed
    qed
  qed simp
qed

lemma find_entry_snoc:
  "find_entry y (es @ [\<lparr>entry_filename = x, entry_inodeNum = i\<rparr>]) =
     (case find_entry y es of None \<Rightarrow> if y = x then Some \<lparr>entry_filename = x, entry_inodeNum = i\<rparr> else None | Some e \<Rightarrow> Some e)"
  by (induction es) (auto simp: find_entry_def)

lemma entry_of_push:
  assumes "m_directoryMap r w = Some es" "entry_of r w x = None"
    and "m_directoryMap r' = (m_directoryMap r)(w \<mapsto> es @ [\<lparr>entry_filename = x, entry_inodeNum = i\<rparr>])"
  shows "entry_of r' d y = (if d = w \<and> y = x then Some i else entry_of r d y)"
  using assms by (auto simp: entry_of_def find_entry_snoc split: option.splits)

text \<open>One new entry, a directory or a file.\<close>

lemma tar_inv_add:
  assumes inv: "tar_inv H P F r" and w: "tree r pw = Some w" "m_directoryMap r w = Some es" "entry_of r w x = None"
    and r': "\<And>d y. entry_of r' d y = (if d = w \<and> y = x then Some i else entry_of r d y)" "m_headerCount r' = H"
      "\<And>j. m_fileMap r j \<noteq> None \<Longrightarrow> m_fileMap r' j \<noteq> None"
      "dom (m_directoryMap r') = {0} \<union> {H<..m_dirVirtualNodeNum r'}" "m_dirVirtualNodeNum r \<le> m_dirVirtualNodeNum r'"
    and i: "\<And>q. tree r q \<noteq> Some i" "i \<notin> dom (m_directoryMap r)"
    and F': "F' = F \<and> i \<in> dom (m_directoryMap r') \<and> (\<exists>p\<in>P. prefix (pw @ [x]) p) \<or>
       F' = insert (pw @ [x], i) F \<and> i \<notin> dom (m_directoryMap r') \<and> 0 < i \<and> i \<le> H \<and> m_fileMap r' i \<noteq> None"
  shows "tar_inv H P F' r' \<and> tree r' = (tree r)(pw @ [x] \<mapsto> i)"
proof -
  have wd: "w \<in> dom (m_directoryMap r)" using w(2) by auto
  have t: "tree r' = (tree r)(pw @ [x] \<mapsto> i)"
    using i wd by (intro tree_add [OF w(1) _ w(3) r'(1)]) (auto simp: entry_of_def domIff intro: tar_invD(8) [OF inv _ w(1)])
  have new: "tree r (pw @ [x]) = None" using w by (simp add: tree_snoc)
  have sub: "dom (m_directoryMap r) \<subseteq> dom (m_directoryMap r')" using tar_invD(3) [OF inv] r'(4,5) by auto
  have "tree r' p = Some j \<and> 0 < j \<and> j \<le> H \<and> m_fileMap r' j \<noteq> None" if "(p, j) \<in> F'" for p j
  proof (cases "(p, j) \<in> F")
    case True
    then show ?thesis using tar_invD(4-6) [OF inv True] new r'(3) t by auto
  next
    case False
    then show ?thesis using that F' t by auto
  qed
  moreover have "j \<in> dom (m_directoryMap r') \<and> (q = [] \<or> (\<exists>p\<in>P. prefix q p)) \<or> (q, j) \<in> F'" if "tree r' q = Some j" for q j
  proof (cases "q = pw @ [x]")
    case True
    then show ?thesis using that t F' by auto
  next
    case False
    then show ?thesis using that t F' tar_invD(7) [OF inv, of q j] sub by auto
  qed
  moreover have "q = q'" if q: "tree r' q = Some j" "tree r' q' = Some j" "j \<in> dom (m_directoryMap r')" for q q' j
  proof -
    have "j \<in> dom (m_directoryMap r)" if "tree r p = Some j" for p
    proof -
      have "(p, j) \<notin> F" using tar_invD(5) [OF inv, of p j] q(3) unfolding r'(4) by auto
      then show ?thesis using tar_invD(7) [OF inv that] by blast
    qed
    then have old: "p = p'" if "tree r p = Some j" "tree r p' = Some j" for p p'
      using tar_invD(8) [OF inv that] that(1) by blast
    show ?thesis
    proof (cases "j = i")
      case True
      then show ?thesis using q(1,2) t i(1) by (metis map_upd_Some_unfold)
    next
      case False
      then show ?thesis using q(1,2) t by (intro old) (auto split: if_splits)
    qed
  qed
  moreover have "H \<le> m_dirVirtualNodeNum r'" using r'(5) tar_invD(2) [OF inv] by simp
  ultimately have "tar_inv H P F' r'" using r'(2,4) by (intro tar_invI)
  then show ?thesis using t by simp
qed

lemma enter_directory_ok:
  assumes inv: "tar_inv H P F r" and w: "tree r pw = Some w" "w \<in> dom (m_directoryMap r)"
    and p: "\<exists>p\<in>P. prefix (pw @ [x]) p" and f: "\<And>i. (pw @ [x], i) \<notin> F"
  shows "\<exists>w' r'. enter_directory w x r = Some (w', r') \<and> tar_inv H P F r' \<and> tree r' (pw @ [x]) = Some w' \<and>
     w' \<in> dom (m_directoryMap r') \<and> (\<forall>q. q \<noteq> pw @ [x] \<longrightarrow> tree r' q = tree r q) \<and> m_fileMap r' = m_fileMap r"
proof -
  obtain es where es: "m_directoryMap r w = Some es" using w(2) by auto
  show ?thesis
  proof (cases "find_entry x es")
    case (Some e)
    have t: "tree r (pw @ [x]) = Some (entry_inodeNum e)" using w(1) es Some by (simp add: tree_snoc entry_of_def)
    have "entry_inodeNum e \<in> dom (m_directoryMap r)" using tar_invD(7) [OF inv t] f by blast
    then show ?thesis using inv t es Some by (simp add: enter_directory_def)
  next
    case None
    let ?i = "m_dirVirtualNodeNum r + 1"
    let ?m = "(m_directoryMap r)(?i \<mapsto> [])"
    let ?r = "r\<lparr>m_dirVirtualNodeNum := ?i, m_directoryMap := ?m(w \<mapsto> es @ [\<lparr>entry_filename = x, entry_inodeNum = ?i\<rparr>])\<rparr>"
    have new: "?i \<notin> dom (m_directoryMap r)" using tar_invD(3) [OF inv] by auto
    then have wi: "w \<noteq> ?i" using w(2) by blast
    have e: "entry_of r w x = None" using es None by (simp add: entry_of_def)
    have r': "entry_of ?r d y = (if d = w \<and> y = x then Some ?i else entry_of r d y)" for d y
    proof -
      let ?r1 = "r\<lparr>m_directoryMap := ?m\<rparr>"
      have "entry_of ?r1 d y = entry_of r d y" for d y
        using new by (cases "d = ?i") (auto simp: entry_of_def domIff find_entry_def)
      then show ?thesis using entry_of_push [of ?r1 w es x ?r ?i d y] es wi e by simp
    qed
    have "tree r q \<noteq> Some ?i" for q
    proof
      assume "tree r q = Some ?i"
      from tar_invD(7) [OF inv this] have "(q, ?i) \<in> F" using new by blast
      from tar_invD(5) [OF inv this] show False using tar_invD(2) [OF inv] by simp
    qed
    then have "tar_inv H P F ?r \<and> tree ?r = (tree r)(pw @ [x] \<mapsto> ?i)"
      using tar_invD(1,2,3) [OF inv] new p w(2)
      by (intro tar_inv_add [OF inv w(1) es e r', where F' = F]) auto
    then show ?thesis using es None wi by (simp add: enter_directory_def push_entry_def Let_def)
  qed
qed

lemma add_file_ok:
  assumes inv: "tar_inv H P F r" and w: "tree r pw = Some w" "w \<in> dom (m_directoryMap r)"
    and x: "tree r (pw @ [x]) = None" and i: "0 < i" "i \<le> H" "\<And>p. (p, i) \<notin> F"
  shows "\<exists>r'. add_file w x i h r = Some r' \<and> tar_inv H P (insert (pw @ [x], i) F) r' \<and> m_fileMap r' = (m_fileMap r)(i \<mapsto> h)"
proof -
  obtain es where es: "m_directoryMap r w = Some es" using w(2) by auto
  let ?r = "r\<lparr>m_directoryMap := (m_directoryMap r)(w \<mapsto> es @ [\<lparr>entry_filename = x, entry_inodeNum = i\<rparr>]),
      m_fileMap := (m_fileMap r)(i \<mapsto> h)\<rparr>"
  have e: "entry_of r w x = None" using x w(1) by (simp add: tree_snoc)
  have new: "i \<notin> dom (m_directoryMap r)" using tar_invD(3) [OF inv] i(1,2) by auto
  have "tree r q \<noteq> Some i" for q using tar_invD(7) [OF inv, of q i] new i(3) by blast
  then have "tar_inv H P (insert (pw @ [x], i) F) ?r \<and> tree ?r = (tree r)(pw @ [x] \<mapsto> i)"
    using tar_invD(1,2,3) [OF inv] new w(2) i
    by (intro tar_inv_add [OF inv w(1) es e entry_of_push [OF es e]]) auto
  then show ?thesis using es by (simp add: add_file_def push_entry_def)
qed

lemma is_file_split: "is_file (x @ PATH_SEPERATOR # rest) = is_file rest"
  by (auto simp: is_file_def)

lemma parse_path_step:
  assumes "parse_path path = Some comps" "PATH_SEPERATOR \<in> set path"
  shows "\<exists>x rest. takeWhile (\<lambda>c. c \<noteq> PATH_SEPERATOR) path = x \<and> x \<noteq> [] \<and> comps = x # rest \<and>
     parse_path (drop (length x + 1) path) = Some rest \<and> is_file path = is_file (drop (length x + 1) path)"
proof (cases path)
  case (Cons c cs)
  let ?x = "takeWhile (\<lambda>c. c \<noteq> PATH_SEPERATOR) path"
  have d: "tl (dropWhile (\<lambda>c. c \<noteq> PATH_SEPERATOR) path) = drop (length ?x + 1) path"
    by (simp add: dropWhile_eq_drop tl_drop drop_Suc)
  have "path = ?x @ PATH_SEPERATOR # drop (length ?x + 1) path"
  proof -
    have "dropWhile (\<lambda>c. c \<noteq> PATH_SEPERATOR) path \<noteq> []" using assms(2) by (auto simp: dropWhile_eq_Nil_conv)
    moreover from this have "hd (dropWhile (\<lambda>c. c \<noteq> PATH_SEPERATOR) path) = PATH_SEPERATOR" using hd_dropWhile by blast
    ultimately show ?thesis using takeWhile_dropWhile_id [of "\<lambda>c. c \<noteq> PATH_SEPERATOR" path] d by (metis list.collapse)
  qed
  then have "is_file path = is_file (drop (length ?x + 1) path)" by (metis is_file_split)
  moreover have "parse_path path = (if ?x = [] \<or> MAX_PATH_SIZE \<le> length ?x then None
      else do { cs \<leftarrow> parse_path (tl (dropWhile (\<lambda>c. c \<noteq> PATH_SEPERATOR) path)); Some (?x # cs) })"
    unfolding Cons by (simp only: parse_path.simps Let_def)
  ultimately show ?thesis using assms(1) unfolding d by (simp split: if_splits bind_splits)
qed (use assms in simp)

lemma parse_path_last:
  assumes "parse_path path = Some comps" "path \<noteq> []" "PATH_SEPERATOR \<notin> set path"
  shows "comps = [path]" and "is_file path"
proof -
  have t: "takeWhile (\<lambda>c. c \<noteq> PATH_SEPERATOR) path = path" "dropWhile (\<lambda>c. c \<noteq> PATH_SEPERATOR) path = []"
    using assms(3) by (auto simp: takeWhile_eq_all_conv dropWhile_eq_Nil_conv)
  obtain c cs where "path = c # cs" using assms(2) by (cases path) auto
  then have "parse_path path = (let component = takeWhile (\<lambda>c. c \<noteq> PATH_SEPERATOR) path; rest = dropWhile (\<lambda>c. c \<noteq> PATH_SEPERATOR) path
      in if component = [] \<or> MAX_PATH_SIZE \<le> length component then None
         else do { components \<leftarrow> parse_path (tl rest); Some (component # components) })"
    by (simp only: parse_path.simps)
  then show "comps = [path]" using assms(1) by (simp add: t split: if_splits)
  show "is_file path" using assms(2,3) last_in_set [of path] unfolding is_file_def by metis
qed

lemma resolve_path_loop_ok:
  assumes "tar_inv H P F r" "tree r dn = Some w" "w \<in> dom (m_directoryMap r)" "parse_path path = Some comps" "dn @ comps \<in> P"
    and "\<And>p i. (p, i) \<in> F \<Longrightarrow> \<not> prefix p (dn @ comps)" "is_file path \<Longrightarrow> tree r (dn @ comps) = None"
    and i: "0 < i" "i \<le> H" "\<And>p. (p, i) \<notin> F"
  shows "\<exists>r'. resolve_path_loop w path i h r = Some r' \<and> tar_inv H P (if is_file path then insert (dn @ comps, i) F else F) r' \<and>
     m_fileMap r' = (if is_file path then (m_fileMap r)(i \<mapsto> h) else m_fileMap r)"
  using assms(1-7)
proof (induction "length path" arbitrary: path w r dn comps rule: less_induct)
  case less
  note inv = \<open>tar_inv H P F r\<close> and w = \<open>tree r dn = Some w\<close> \<open>w \<in> dom (m_directoryMap r)\<close> and pp = \<open>parse_path path = Some comps\<close>
  consider "path = []" | "path \<noteq> []" "PATH_SEPERATOR \<in> set path" | "path \<noteq> []" "PATH_SEPERATOR \<notin> set path" by blast
  then show ?case
  proof cases
    case 1
    then show ?thesis using inv by (simp add: resolve_path_loop.simps is_file_def)
  next
    case 2
    obtain x rest where x: "takeWhile (\<lambda>c. c \<noteq> PATH_SEPERATOR) path = x" "x \<noteq> []" "comps = x # rest"
      "parse_path (drop (length x + 1) path) = Some rest" "is_file path = is_file (drop (length x + 1) path)"
      using parse_path_step [OF pp 2(2)] by blast
    let ?path = "drop (length x + 1) path"
    have "\<exists>p\<in>P. prefix (dn @ [x]) p" using \<open>dn @ comps \<in> P\<close> x(3) by (intro bexI [of _ "dn @ comps"]) simp_all
    moreover have "(dn @ [x], i) \<notin> F" for i using less.prems(6) [of "dn @ [x]" i] x(3) by auto
    ultimately obtain w' r' where r': "enter_directory w x r = Some (w', r')" "tar_inv H P F r'" "tree r' (dn @ [x]) = Some w'"
      "w' \<in> dom (m_directoryMap r')" "\<And>q. q \<noteq> dn @ [x] \<Longrightarrow> tree r' q = tree r q" "m_fileMap r' = m_fileMap r"
      using enter_directory_ok [OF inv w, of x] by blast
    have "tree r' ((dn @ [x]) @ rest) = None" if "is_file ?path"
    proof -
      have "rest \<noteq> []" using that x(4) by (cases ?path) (auto simp: is_file_def Let_def split: if_splits bind_splits)
      then have "dn @ comps \<noteq> dn @ [x]" using x(3) by simp
      then show ?thesis using r'(5) less.prems(7) that x(3,5) by simp
    qed
    moreover have "length ?path < length path" using 2 by simp
    ultimately have "\<exists>r''. resolve_path_loop w' ?path i h r' = Some r'' \<and>
        tar_inv H P (if is_file ?path then insert ((dn @ [x]) @ rest, i) F else F) r'' \<and>
        m_fileMap r'' = (if is_file ?path then (m_fileMap r')(i \<mapsto> h) else m_fileMap r')"
      using less.prems(5,6) x(3) by (intro less.hyps [OF _ r'(2-4) x(4)]) simp_all
    moreover have "resolve_path_loop w path i h r = resolve_path_loop w' ?path i h r'"
      using 2 x(1,2) r'(1) by (subst resolve_path_loop.simps) (simp add: Let_def)
    ultimately show ?thesis using r'(6) x(3,5) by (cases "is_file path") simp_all
  next
    case 3
    note l = parse_path_last [OF pp 3]
    have "tree r (dn @ [path]) = None" using less.prems(7) l by simp
    from add_file_ok [OF inv w this i, of h] obtain r' where "add_file w path i h r = Some r'"
      "tar_inv H P (insert (dn @ [path], i) F) r'" "m_fileMap r' = (m_fileMap r)(i \<mapsto> h)" by blast
    then show ?thesis using 3 l by (simp add: resolve_path_loop.simps [of w path] resolve_path_loop.simps [of w "[]"])
  qed
qed

subsection \<open>Archives\<close>

text \<open>
  An archive is a list of names and contents; a name that ends with the separator is a directory. In memory
  its headers follow each other up to one whose name is empty. No file is the path of another entry or a
  directory on it.
\<close>

type_synonym archive = "(byte list \<times> byte list) list"

definition comps_of :: "byte list \<Rightarrow> byte list list" where
  "comps_of name = the (parse_path name)"

definition entry_at :: "memory \<Rightarrow> addr \<Rightarrow> byte list \<times> byte list \<Rightarrow> bool" where
  "entry_at mem h e \<longleftrightarrow> mem h \<noteq> 0 \<and> get_filename mem h = Some (fst e) \<and>
     get_size mem h = of_nat (length (snd e)) \<and> tar_bytes mem (h + 512) (length (snd e)) = snd e"

fun archive_at :: "memory \<Rightarrow> addr \<Rightarrow> archive \<Rightarrow> bool" where
  "archive_at mem h [] \<longleftrightarrow> mem h = 0"
| "archive_at mem h (e # es) \<longleftrightarrow> entry_at mem h e \<and> archive_at mem (get_next_header mem h) es"

definition entry_ok :: "byte list \<times> byte list \<Rightarrow> bool" where
  "entry_ok e \<longleftrightarrow> fst e \<noteq> [] \<and> length (fst e) < 100 \<and> 0 \<notin> set (fst e) \<and> parse_path (fst e) \<noteq> None \<and> length (snd e) < 8 ^ 11"

definition archive_ok :: "archive \<Rightarrow> bool" where
  "archive_ok es \<longleftrightarrow> list_all entry_ok es \<and>
     (\<forall>i<length es. \<forall>j<length es. i \<noteq> j \<longrightarrow> is_file (fst (es ! i)) \<longrightarrow>
        \<not> prefix (comps_of (fst (es ! i))) (comps_of (fst (es ! j))))"

definition paths_upto :: "archive \<Rightarrow> nat \<Rightarrow> byte list list set" where
  "paths_upto es k = {comps_of (fst (es ! j)) | j. j < k}"

definition files_upto :: "archive \<Rightarrow> nat \<Rightarrow> (byte list list \<times> nat) set" where
  "files_upto es k = {(comps_of (fst (es ! j)), j + 1) | j. j < k \<and> is_file (fst (es ! j))}"

definition header_of :: "memory \<Rightarrow> nat \<Rightarrow> addr" where
  "header_of mem k = (get_next_header mem ^^ k) INITRD_ADDRESS"

lemma count_headers_ok: "archive_at mem h es \<Longrightarrow> count_headers mem h n = Some (n + length es)"
  by (induction es arbitrary: h n) (auto simp: count_headers.simps [of mem] entry_at_def)

lemma tar_inv_mono: "tar_inv H P F r \<Longrightarrow> P \<subseteq> P' \<Longrightarrow> tar_inv H P' F r"
  unfolding tar_inv_def by blast

lemma is_file_comps: "is_file name \<Longrightarrow> parse_path name = Some q \<Longrightarrow> q \<noteq> []"
  by (cases name) (auto simp: is_file_def Let_def split: if_splits bind_splits)

lemma files_upto_Suc:
  "files_upto es (Suc k) = (if is_file (fst (es ! k)) then insert (comps_of (fst (es ! k)), k + 1) (files_upto es k) else files_upto es k)"
  by (auto simp: files_upto_def less_Suc_eq)

lemma paths_upto_Suc: "paths_upto es (Suc k) = insert (comps_of (fst (es ! k))) (paths_upto es k)"
  by (auto simp: paths_upto_def less_Suc_eq)

text \<open>One header.\<close>

lemma resolve_path_ok:
  assumes ok: "archive_ok es" and k: "k < length es" and inv: "tar_inv (length es) (paths_upto es k) (files_upto es k) r"
  shows "\<exists>r'. resolve_path (fst (es ! k)) (k + 1) h r = Some r' \<and>
     tar_inv (length es) (paths_upto es (Suc k)) (files_upto es (Suc k)) r' \<and>
     m_fileMap r' = (if is_file (fst (es ! k)) then (m_fileMap r)(k + 1 \<mapsto> h) else m_fileMap r)"
proof -
  let ?name = "fst (es ! k)"
  have e: "entry_ok (es ! k)" using ok k unfolding archive_ok_def by (simp add: list_all_length)
  then obtain q where q: "parse_path ?name = Some q" unfolding entry_ok_def by blast
  have cf: "\<not> prefix (comps_of (fst (es ! i))) (comps_of (fst (es ! j)))" if "i \<noteq> j" "i < length es" "j < length es" "is_file (fst (es ! i))" for i j
    using ok that unfolding archive_ok_def by blast
  have qc: "comps_of ?name = q" using q by (simp add: comps_of_def)
  have inv': "tar_inv (length es) (paths_upto es (Suc k)) (files_upto es k) r"
    using inv by (rule tar_inv_mono) (auto simp: paths_upto_Suc)
  have nf: "\<not> prefix p q" if "(p, i) \<in> files_upto es k" for p i
    using that cf k unfolding files_upto_def qc [symmetric] by auto
  have "tree r q = None" if f: "is_file ?name"
  proof (rule ccontr)
    assume "tree r q \<noteq> None"
    then obtain j where "tree r q = Some j" by auto
    from tar_invD(7) [OF inv this] consider "q = []" | "\<exists>p\<in>paths_upto es k. prefix q p" | "(q, j) \<in> files_upto es k" by blast
    then show False
    proof cases
      case 2
      then show False using cf [of k] f k unfolding paths_upto_def qc [symmetric] by auto
    qed (use is_file_comps [OF f q] nf in auto)
  qed
  then have "\<exists>r'. resolve_path_loop 0 ?name (k + 1) h r = Some r' \<and>
      tar_inv (length es) (paths_upto es (Suc k)) (if is_file ?name then insert ([] @ q, k + 1) (files_upto es k) else files_upto es k) r' \<and>
      m_fileMap r' = (if is_file ?name then (m_fileMap r)(k + 1 \<mapsto> h) else m_fileMap r)"
    using k q nf tar_invD(3) [OF inv]
    by (intro resolve_path_loop_ok [OF inv']) (auto simp: paths_upto_Suc qc files_upto_def)
  then show ?thesis by (cases "is_file ?name") (simp_all add: resolve_path_def files_upto_Suc qc)
qed

definition files_mapped :: "memory \<Rightarrow> archive \<Rightarrow> nat \<Rightarrow> TarReader \<Rightarrow> bool" where
  "files_mapped mem es k r \<longleftrightarrow> (\<forall>j<k. is_file (fst (es ! j)) \<longrightarrow> m_fileMap r (j + 1) = Some (header_of mem j))"

lemma load_headers_ok:
  assumes "archive_ok es" "k \<le> length es" "archive_at mem (header_of mem k) (drop k es)"
    and "tar_inv (length es) (paths_upto es k) (files_upto es k) r" "files_mapped mem es k r"
  shows "\<exists>r'. load_headers mem (header_of mem k) (k + 1) r = Some r' \<and>
     tar_inv (length es) (paths_upto es (length es)) (files_upto es (length es)) r' \<and> files_mapped mem es (length es) r'"
  using assms(2-)
proof (induction "length es - k" arbitrary: k r)
  case 0
  then show ?case by (subst load_headers.simps) simp
next
  case (Suc n)
  then have k: "k < length es" by simp
  have d: "drop k es = es ! k # drop (Suc k) es" using Cons_nth_drop_Suc [OF k] by simp
  have e: "entry_at mem (header_of mem k) (es ! k)" and at: "archive_at mem (header_of mem (Suc k)) (drop (Suc k) es)"
    using Suc.prems(2) unfolding d by (simp_all add: header_of_def)
  obtain r' where r': "resolve_path (fst (es ! k)) (k + 1) (header_of mem k) r = Some r'"
    "tar_inv (length es) (paths_upto es (Suc k)) (files_upto es (Suc k)) r'"
    "m_fileMap r' = (if is_file (fst (es ! k)) then (m_fileMap r)(k + 1 \<mapsto> header_of mem k) else m_fileMap r)"
    using resolve_path_ok [OF assms(1) k Suc.prems(3)] by blast
  have "files_mapped mem es (Suc k) r'" using Suc.prems(4) r'(3) by (auto simp: files_mapped_def less_Suc_eq)
  then have "\<exists>r''. load_headers mem (header_of mem (Suc k)) (Suc k + 1) r' = Some r'' \<and>
      tar_inv (length es) (paths_upto es (length es)) (files_upto es (length es)) r'' \<and> files_mapped mem es (length es) r''"
    using Suc.hyps(2) k at r'(2) by (intro Suc.hyps(1)) simp_all
  moreover have "load_headers mem (header_of mem k) (k + 1) r = load_headers mem (header_of mem (Suc k)) (Suc k + 1) r'"
    using e r'(1) by (subst load_headers.simps) (simp add: entry_at_def header_of_def)
  ultimately show ?case by simp
qed

end
