(* ===== verification/FS_Theorems.thy ===== *)
theory FS_Theorems
  imports FS_Initrd
begin

text \<open>
  The virtual file system on the initial RAM disk: what \<open>load_initrd\<close> makes of an archive, and what opening,
  reading and closing then do. \<open>tar_image\<close> is the archive format the reader expects, written out: a header with
  the name and the size in octal, the contents padded to a multiple of 512 bytes, and zeros after the last.
\<close>

subsection \<open>Writing an archive\<close>

fun tar_octal :: "nat \<Rightarrow> nat \<Rightarrow> byte list" where
  "tar_octal 0 n = []"
| "tar_octal (Suc k) n = tar_octal k (n div 8) @ [of_nat (48 + n mod 8)]"

definition tar_header :: "byte list \<times> byte list \<Rightarrow> byte list" where
  "tar_header e = fst e @ replicate (124 - length (fst e)) 0 @ tar_octal 11 (length (snd e)) @ replicate 377 0"

definition tar_record :: "byte list \<times> byte list \<Rightarrow> byte list" where
  "tar_record e = tar_header e @ snd e @ replicate ((length (snd e) + 511) div 512 * 512 - length (snd e)) 0"

definition tar_image :: "archive \<Rightarrow> byte list" where
  "tar_image es = concat (map tar_record es) @ replicate 1024 0"

definition memory_at :: "addr \<Rightarrow> byte list \<Rightarrow> memory" where
  "memory_at base bytes = (\<lambda>a. if base \<le> a \<and> a < base + length bytes then bytes ! (a - base) else 0)"

lemma length_tar_octal [simp]: "length (tar_octal k n) = k"
  by (induction k arbitrary: n) auto

lemma length_tar_header [simp]: "length (fst e) < 100 \<Longrightarrow> length (tar_header e) = 512"
  by (simp add: tar_header_def)

lemma tar_bytes_memory_at:
  assumes "i + n \<le> length xs"
  shows "tar_bytes (memory_at b xs) (b + i) n = take n (drop i xs)"
  using assms by (intro nth_equalityI) (auto simp: tar_bytes_def memory_at_def)

lemma scast_digit: "d < 8 \<Longrightarrow> (scast (of_nat (48 + d) :: u8) :: u64) - 48 = of_nat d"
proof -
  assume "d < 8"
  then have "d \<in> {0, 1, 2, 3, 4, 5, 6, 7}" by auto
  then show ?thesis by auto
qed

lemma get_size_loop_octal:
  assumes "tar_bytes mem (h + 124) k = tar_octal k n"
  shows "get_size_loop mem h k c sz = sz + c * of_nat (n mod 8 ^ k)"
  using assms
proof (induction k arbitrary: n c sz)
  case (Suc k)
  have "tar_bytes mem (h + 124) (Suc k) = tar_bytes mem (h + 124) k @ [mem (h + 124 + k)]" 
    unfolding tar_bytes_def add_Suc_right by (subst upt_Suc_append) simp_all
  then have t: "tar_bytes mem (h + 124) k = tar_octal k (n div 8)" "mem (h + 124 + k) = of_nat (48 + n mod 8)"
    using Suc.prems by simp_all
  have "n mod 8 ^ Suc k = 8 * (n div 8 mod 8 ^ k) + n mod 8" by (simp add: mod_mult2_eq)
  moreover have "scast (mem (h + 124 + k)) - 48 = (of_nat (n mod 8) :: u64)" unfolding t(2) by (rule scast_digit) simp
  ultimately show ?case by (simp add: Suc.IH [OF t(1)] algebra_simps)
qed simp

lemma get_size_octal: "tar_bytes mem (h + 124) 11 = tar_octal 11 n \<Longrightarrow> n < 8 ^ 11 \<Longrightarrow> get_size mem h = of_nat n"
  unfolding get_size_def using get_size_loop_octal [of mem h 11 n 1 0] by simp

lemma unat_align_up:
  assumes "n < 8 ^ 11"
  shows "unat (BYTE_ALIGN_UP (of_nat n) TAR_ALIGN) = (n + 511) div 512 * 512"
proof -
  have "(of_nat n + 511 :: u64) = of_nat (n + 511)" "(511 :: u64) = mask 9" by (simp_all add: mask_eq_exp_minus_1)
  moreover have "unat (of_nat (n + 511) :: u64) = n + 511" using assms by (subst unat_of_nat) simp
  ultimately show ?thesis using unat_and_not_mask [of "of_nat (n + 511) :: u64" 9] by (simp add: BYTE_ALIGN_UP_def TAR_ALIGN_def)
qed

lemma round_up_512: "(n :: nat) \<le> (n + 511) div 512 * 512"
proof -
  have "(n + 511) mod 512 < 512" by simp
  then show ?thesis using div_mult_mod_eq [of "n + 511" 512] by linarith
qed

lemma entry_at_image:
  fixes b :: addr
  assumes e: "entry_ok e" and xs: "xs = pre @ tar_record e @ post"
  defines "mem \<equiv> memory_at b xs" and "h \<equiv> b + length pre"
  shows "entry_at mem h e \<and> get_next_header mem h = b + length (pre @ tar_record e)"
proof -
  have l: "length (fst e) < 100" "fst e \<noteq> []" "0 \<notin> set (fst e)" "length (snd e) < 8 ^ 11" using e by (auto simp: entry_ok_def)
  have pad: "length (snd e) \<le> (length (snd e) + 511) div 512 * 512" by (rule round_up_512)
  have len: "length (tar_record e) = 512 + (length (snd e) + 511) div 512 * 512" using l(1) pad by (simp add: tar_record_def)
  have bytes: "tar_bytes mem (h + i) n = take n (drop i (tar_record e))" if "i + n \<le> length (tar_record e)" for i n
    using tar_bytes_memory_at [of "length pre + i" n xs b] that unfolding mem_def h_def xs by (simp add: add.assoc)
  have "tar_bytes mem (h + 0) 100 = fst e @ replicate (100 - length (fst e)) 0"
    using l(1) len by (subst bytes) (simp_all add: tar_record_def tar_header_def)
  moreover have "takeWhile (\<lambda>c. c \<noteq> 0) (fst e @ replicate (100 - length (fst e)) 0) = fst e"
    using l(1,3) by (subst takeWhile_append2) (auto simp: takeWhile_replicate)
  ultimately have name: "get_filename mem h = Some (fst e)" using l(1) by (simp add: get_filename_def)
  have "tar_bytes mem (h + 0) 1 = [hd (fst e)]"
    using l(1,2) len by (subst bytes) (auto simp: tar_record_def tar_header_def take_Suc_conv_app_nth hd_conv_nth nth_append Suc_le_eq)
  then have "mem h = hd (fst e)" by (simp add: tar_bytes_def)
  then have "mem h \<noteq> 0" using l(3) hd_in_set [OF l(2)] by metis
  moreover have "tar_bytes mem (h + 124) 11 = tar_octal 11 (length (snd e))"
    using l(1) len by (subst bytes) (simp_all add: tar_record_def tar_header_def)
  from get_size_octal [OF this l(4)] have sz: "get_size mem h = of_nat (length (snd e))" .
  moreover have "tar_bytes mem (h + 512) (length (snd e)) = snd e"
    using l(1) len pad by (subst bytes) (simp_all add: tar_record_def)
  moreover have "get_next_header mem h = b + length (pre @ tar_record e)"
    unfolding get_next_header_def sz unat_align_up [OF l(4)] by (simp add: len h_def)
  ultimately show ?thesis using name by (simp add: entry_at_def)
qed

lemma archive_at_image:
  assumes "list_all entry_ok es" "xs = pre @ concat (map tar_record es) @ replicate 1024 0"
  shows "archive_at (memory_at b xs) (b + length pre) es"
  using assms
proof (induction es arbitrary: pre)
  case (Cons e es)
  have "entry_at (memory_at b xs) (b + length pre) e \<and> get_next_header (memory_at b xs) (b + length pre) = b + length (pre @ tar_record e)"
    using Cons.prems by (intro entry_at_image [where post = "concat (map tar_record es) @ replicate 1024 0"]) simp_all
  moreover have "archive_at (memory_at b xs) (b + length (pre @ tar_record e)) es" using Cons.prems by (intro Cons.IH) simp_all
  ultimately show ?case by simp
qed (simp add: memory_at_def nth_append)

subsection \<open>Loading an archive\<close>

abbreviation initrd_root :: ConcreteObject where
  "initrd_root \<equiv> create_concrete_object 0 DIRECTORY None"

lemma tar_inv_initial:
  "tar_inv n {} {} \<lparr>m_headerCount = n, m_directoryMap = [0 \<mapsto> []], m_fileMap = Map.empty, m_dirVirtualNodeNum = n\<rparr>"
proof -
  let ?r = "\<lparr>m_headerCount = n, m_directoryMap = [0 \<mapsto> []], m_fileMap = Map.empty, m_dirVirtualNodeNum = n\<rparr>"
  have "tree ?r q = (if q = [] then Some 0 else None)" for q
    by (cases q) (simp_all add: tree_def entry_of_def find_entry_def)
  then show ?thesis by (intro tar_invI) (auto split: if_splits)
qed

lemma vfs_registered:
  "\<exists>v n. register_filesystem root vfs_construct = Some (1, v) \<and> vfs_inv f None v \<and>
     vfs_nodes v (m_rootNode v) = Some n \<and> concreteObject n = Some root"
  by (auto simp: register_filesystem_def vfs_construct_def set_node_def vfs_inv_def node_new_def)

lemma load_initrd_ok:
  assumes ok: "archive_ok es" and at: "archive_at mem INITRD_ADDRESS es"
  shows "\<exists>r v n. load_initrd mem vfs_construct = Some (r, v) \<and>
     tar_inv (length es) (paths_upto es (length es)) (files_upto es (length es)) r \<and> files_mapped mem es (length es) r \<and>
     vfs_inv (vfsdriver_finddir r) None v \<and> vfs_nodes v (m_rootNode v) = Some n \<and> concreteObject n = Some initrd_root"
proof -
  let ?r = "\<lparr>m_headerCount = length es, m_directoryMap = [0 \<mapsto> []], m_fileMap = Map.empty, m_dirVirtualNodeNum = length es\<rparr>"
  have "tar_inv (length es) (paths_upto es 0) (files_upto es 0) ?r" using tar_inv_initial by (simp add: paths_upto_def files_upto_def)
  then obtain r where r: "load_headers mem INITRD_ADDRESS 1 ?r = Some r"
    "tar_inv (length es) (paths_upto es (length es)) (files_upto es (length es)) r" "files_mapped mem es (length es) r"
    using load_headers_ok [OF ok, of 0 mem ?r] at by (auto simp: header_of_def files_mapped_def)
  moreover obtain v n where "register_filesystem initrd_root vfs_construct = Some (1, v)" "vfs_inv (vfsdriver_finddir r) None v"
    "vfs_nodes v (m_rootNode v) = Some n" "concreteObject n = Some initrd_root" using vfs_registered by blast
  ultimately show ?thesis using count_headers_ok [OF at, of 0] by (simp add: load_initrd_def)
qed

text \<open>Resolving with the driver is the walk over the directory tree.\<close>

definition object_of :: "TarReader \<Rightarrow> nat \<Rightarrow> ConcreteObject" where
  "object_of r j = (if 0 < j \<and> j \<le> m_headerCount r then create_concrete_object j FILE (m_fileMap r j) else create_concrete_object j DIRECTORY None)"

lemma inodeNum_object_of [simp]: "inodeNum (object_of r j) = j"
  by (simp add: object_of_def create_concrete_object_def)

lemma resolve_snoc:
  "resolve f ob (q @ [x]) = resolve f ob q \<bind> (\<lambda>found. case found of None \<Rightarrow> Some None | Some ob \<Rightarrow> f ob x)"
  by (induction q arbitrary: ob) (auto split: bind_splits option.splits)

lemma resolve_tree:
  assumes inv: "tar_inv H P F r" and "tree r q = Some j"
  shows "resolve (vfsdriver_finddir r) initrd_root q = Some (Some (object_of r j))"
  using assms(2)
proof (induction q arbitrary: j rule: rev_induct)
  case Nil
  then show ?case by (simp add: object_of_def)
next
  case (snoc x q)
  obtain d where d: "tree r q = Some d" "entry_of r d x = Some j" using snoc.prems by (auto simp: tree_snoc split: bind_splits)
  then obtain es e where e: "m_directoryMap r d = Some es" "find_entry x es = Some e" "entry_inodeNum e = j"
    by (auto simp: entry_of_def split: bind_splits)
  have "j \<in> dom (m_directoryMap r) \<or> (\<exists>p. (p, j) \<in> F)" using tar_invD(7) [OF inv snoc.prems] by blast
  then have "prepare_concrete_object r e = Some (object_of r j)"
  proof
    assume "j \<in> dom (m_directoryMap r)"
    then have "j = 0 \<or> H < j" using tar_invD(3) [OF inv] by auto
    then show ?thesis using e(3) tar_invD(1) [OF inv] by (auto simp: prepare_concrete_object_def object_of_def)
  next
    assume "\<exists>p. (p, j) \<in> F"
    then obtain p h where "0 < j" "j \<le> H" "m_fileMap r j = Some h" using tar_invD(5,6) [OF inv] by blast
    then show ?thesis using e(3) tar_invD(1) [OF inv] by (simp add: prepare_concrete_object_def object_of_def)
  qed
  then show ?case using snoc.IH [OF d(1)] e by (simp add: resolve_snoc vfsdriver_finddir_def [of r _ x])
qed

lemma resolve_missing:
  assumes inv: "tar_inv H P F r" and "tree r q = None" "\<And>p i. (p, i) \<in> F \<Longrightarrow> \<not> prefix p q"
  shows "resolve (vfsdriver_finddir r) initrd_root q = Some None"
  using assms(2,3)
proof (induction q rule: rev_induct)
  case (snoc x q)
  have f: "\<not> prefix p q" if "(p, i) \<in> F" for p i using snoc.prems(2) [OF that] by auto
  show ?case
  proof (cases "tree r q")
    case None
    then show ?thesis using snoc.IH f by (simp add: resolve_snoc)
  next
    case (Some d)
    then have "d \<in> dom (m_directoryMap r)" using tar_invD(7) [OF inv Some] f by blast
    then show ?thesis using resolve_tree [OF inv Some] snoc.prems(1) Some
      by (auto simp: resolve_snoc tree_snoc entry_of_def vfsdriver_finddir_def [of r _ x])
  qed
qed simp

subsection \<open>Opening and closing files\<close>

text \<open>The states the file system reaches when files are opened and closed; an open that fails is not followed by others.\<close>

inductive fs_reachable :: "DriverOperations \<Rightarrow> VirtualFilesystem \<Rightarrow> VirtualFilesystem \<Rightarrow> bool" for drops v0 where
  start: "fs_reachable drops v0 v0"
| opened: "fs_reachable drops v0 v \<Longrightarrow> vfs_open drops path v = Some (Some b, v') \<Longrightarrow> fs_reachable drops v0 v'"
| closed: "fs_reachable drops v0 v \<Longrightarrow> b \<in> dom (vfs_nodes v) \<Longrightarrow> vfs_close b v = Some v' \<Longrightarrow> fs_reachable drops v0 v'"

definition mounted :: "TarReader \<Rightarrow> VirtualFilesystem \<Rightarrow> bool" where
  "mounted r v \<longleftrightarrow> vfs_inv (vfsdriver_finddir r) None v \<and>
     (\<exists>n. vfs_nodes v (m_rootNode v) = Some n \<and> concreteObject n = Some initrd_root)"

lemma mounted_keeps:
  assumes "mounted r v" "keeps_objects v v'" "vfs_inv (vfsdriver_finddir r) None v'"
  shows "mounted r v'"
  using assms unfolding mounted_def keeps_objects_def by metis

lemma mounted_open:
  assumes m: "mounted r v" and o: "vfs_open (tar_drops mem r) path v = Some (Some b, v')"
  shows "mounted r v'"
proof -
  obtain n where n: "vfs_inv (vfsdriver_finddir r) None v" "vfs_nodes v (m_rootNode v) = Some n" "concreteObject n = Some initrd_root"
    using m unfolding mounted_def by blast
  obtain v1 where "lock_node (m_rootNode v) v = Some v1" using o by (auto simp: vfs_open_def split: bind_splits)
  then obtain names where names: "parse_path path = Some names" using o by (auto simp: vfs_open_def split: bind_splits)
  from tar.vfs_open_ok [OF n names, of mem] show ?thesis
    using o mounted_keeps [OF m] by (auto simp: open_agrees_def split: option.splits)
qed

lemma mounted_close:
  assumes m: "mounted r v" and c: "b \<in> dom (vfs_nodes v)" "vfs_close b v = Some v'"
  shows "mounted r v'"
proof -
  obtain n where "vfs_nodes v b = Some n" using c(1) by blast
  from tar.vfs_close_ok [OF _ this, of r] obtain v'' where "vfs_close b v = Some v''" "vfs_inv (vfsdriver_finddir r) None v''" "same_tree v v''"
    using m unfolding mounted_def by blast
  then show ?thesis using mounted_keeps [OF m] tar.same_tree_keeps c(2) by simp
qed

lemma fs_reachable_mounted: "fs_reachable (tar_drops mem r) v0 v \<Longrightarrow> mounted r v0 \<Longrightarrow> mounted r v"
  by (induction rule: fs_reachable.induct) (auto intro: mounted_open mounted_close)

definition initrd_memory :: "archive \<Rightarrow> memory" where
  "initrd_memory es = memory_at INITRD_ADDRESS (tar_image es)"

lemma initrd_loaded:
  assumes "archive_ok es"
  shows "\<exists>r v. load_initrd (initrd_memory es) vfs_construct = Some (r, v) \<and>
     tar_inv (length es) (paths_upto es (length es)) (files_upto es (length es)) r \<and>
     files_mapped (initrd_memory es) es (length es) r \<and> mounted r v"
proof -
  have "archive_at (initrd_memory es) INITRD_ADDRESS es"
    using archive_at_image [of es "tar_image es" "[]" INITRD_ADDRESS] assms by (simp add: initrd_memory_def tar_image_def archive_ok_def)
  from load_initrd_ok [OF assms this] show ?thesis unfolding mounted_def by blast
qed

lemma header_entry:
  assumes "archive_at mem INITRD_ADDRESS es" "k < length es"
  shows "entry_at mem (header_of mem k) (es ! k)"
proof -
  have "archive_at mem (header_of mem k) (drop k es)" if "k \<le> length es" for k
    using that
  proof (induction k)
    case (Suc k)
    then have "drop k es = es ! k # drop (Suc k) es" using Cons_nth_drop_Suc [of k es] by simp
    then show ?case using Suc by (simp add: header_of_def)
  qed (simp add: header_of_def assms(1))
  from this [of k] assms(2) show ?thesis using Cons_nth_drop_Suc [OF assms(2)] by (metis archive_at.simps(2) less_imp_le)
qed

lemma tar_bytes_slice: "off + n \<le> m \<Longrightarrow> tar_bytes mem p m = xs \<Longrightarrow> tar_bytes mem (p + off) n = take n (drop off xs)"
  by (intro nth_equalityI) (auto simp: tar_bytes_def add.assoc)

text \<open>The object of a file of the archive.\<close>

lemma initrd_file_object:
  assumes ok: "archive_ok es" and k: "k < length es" "is_file (fst (es ! k))"
    and inv: "tar_inv (length es) (paths_upto es (length es)) (files_upto es (length es)) r"
    and m: "files_mapped mem es (length es) r" and at: "archive_at mem INITRD_ADDRESS es"
  shows "\<exists>object. resolve (vfsdriver_finddir r) initrd_root (comps_of (fst (es ! k))) = Some (Some object) \<and>
     co_fs object = Some (header_of mem k) \<and> entry_at mem (header_of mem k) (es ! k)"
proof -
  have "(comps_of (fst (es ! k)), k + 1) \<in> files_upto es (length es)" using k by (auto simp: files_upto_def)
  from tar_invD(4) [OF inv this] have "tree r (comps_of (fst (es ! k))) = Some (k + 1)" .
  from resolve_tree [OF inv this] show ?thesis
    using k m header_entry [OF at k(1)] tar_invD(1) [OF inv]
    by (auto simp: object_of_def create_concrete_object_def files_mapped_def)
qed

text \<open>
  C8: every file of an archive can be read back. Loading the image of an archive with well formed names, where
  no file is the path or a directory of another entry, succeeds; and whatever files have then been opened
  and closed, opening the name of a file succeeds, its length is the length of its contents, and reading
  within it returns the bytes of the contents.
\<close>

theorem initrd_files_readable:
  assumes "archive_ok es" "k < length es" "is_file (fst (es ! k))"
  shows "\<exists>r v0. load_initrd (initrd_memory es) vfs_construct = Some (r, v0) \<and>
     (\<forall>v. fs_reachable (tar_drops (initrd_memory es) r) v0 v \<longrightarrow>
       (\<exists>b v'. vfs_open (tar_drops (initrd_memory es) r) (fst (es ! k)) v = Some (Some b, v') \<and>
          vfs_info (tar_drops (initrd_memory es) r) b v' = Some (length (snd (es ! k))) \<and>
          (\<forall>off n. off + n \<le> length (snd (es ! k)) \<longrightarrow>
             vfs_read (tar_drops (initrd_memory es) r) off n b v' = Some (n, take n (drop off (snd (es ! k)))))))"
proof -
  let ?mem = "initrd_memory es"
  obtain r v0 where r: "load_initrd ?mem vfs_construct = Some (r, v0)"
    "tar_inv (length es) (paths_upto es (length es)) (files_upto es (length es)) r"
    "files_mapped ?mem es (length es) r" "mounted r v0" using initrd_loaded [OF assms(1)] by blast
  have at: "archive_at ?mem INITRD_ADDRESS es"
    using archive_at_image [of es "tar_image es" "[]" INITRD_ADDRESS] assms(1) by (simp add: initrd_memory_def tar_image_def archive_ok_def)
  have e: "entry_ok (es ! k)" using assms(1,2) unfolding archive_ok_def by (simp add: list_all_length)
  then have p: "parse_path (fst (es ! k)) = Some (comps_of (fst (es ! k)))" by (auto simp: entry_ok_def comps_of_def)
  obtain object where ob: "resolve (vfsdriver_finddir r) initrd_root (comps_of (fst (es ! k))) = Some (Some object)"
    "co_fs object = Some (header_of ?mem k)" "entry_at ?mem (header_of ?mem k) (es ! k)"
    using initrd_file_object [OF assms r(2,3) at] by blast
  have "\<exists>b v'. vfs_open (tar_drops ?mem r) (fst (es ! k)) v = Some (Some b, v') \<and>
          vfs_info (tar_drops ?mem r) b v' = Some (length (snd (es ! k))) \<and>
          (\<forall>off n. off + n \<le> length (snd (es ! k)) \<longrightarrow>
             vfs_read (tar_drops ?mem r) off n b v' = Some (n, take n (drop off (snd (es ! k)))))"
    if "fs_reachable (tar_drops ?mem r) v0 v" for v
  proof -
    have "mounted r v" using fs_reachable_mounted [OF that r(4)] .
    then obtain n where n: "vfs_inv (vfsdriver_finddir r) None v" "vfs_nodes v (m_rootNode v) = Some n" "concreteObject n = Some initrd_root"
      unfolding mounted_def by blast
    obtain b v' m ob' where b: "vfs_open (tar_drops ?mem r) (fst (es ! k)) v = Some (Some b, v')" "vfs_nodes v' b = Some m"
      "concreteObject m = Some ob'" "same_object object ob'"
      using tar.vfs_open_ok [OF n p, of ?mem] ob(1) by (auto simp: open_agrees_def)
    have "co_fs ob' = Some (header_of ?mem k)" using b(4) ob(2) unfolding same_object_def by (metis ConcreteObject.ext_inject ConcreteObject.surjective ConcreteObject.update_convs(3))
    then show ?thesis using b e ob(3) tar_bytes_slice [of _ _ "length (snd (es ! k))" ?mem "header_of ?mem k + 512" "snd (es ! k)"]
      by (auto simp: vfs_info_def vfs_read_def tar_drops_def vfsdriver_read_def vfsdriver_fileinfo_def read_header_def entry_at_def
          entry_ok_def TAR_ALIGN_def unat_of_nat)
  qed
  then show ?thesis using r(1) by blast
qed

definition sample_archive :: archive where
  "sample_archive = [([0x61, 0x2f], []), ([0x61, 0x2f, 0x62], [0x68, 0x69])]"

lemma sample_archive_ok: "archive_ok sample_archive"
  by (auto simp: sample_archive_def archive_ok_def entry_ok_def less_Suc_eq is_file_def comps_of_def PATH_SEPERATOR_def MAX_PATH_SIZE_def)

theorem initrd_files_readable_witness:
  "\<exists>r v0 b v'. load_initrd (initrd_memory sample_archive) vfs_construct = Some (r, v0) \<and>
     vfs_open (tar_drops (initrd_memory sample_archive) r) [0x61, 0x2f, 0x62] v0 = Some (Some b, v') \<and>
     vfs_read (tar_drops (initrd_memory sample_archive) r) 1 1 b v' = Some (1, [0x69])"
proof -
  have "1 < length sample_archive" "is_file (fst (sample_archive ! 1))" by (simp_all add: sample_archive_def is_file_def PATH_SEPERATOR_def)
  from initrd_files_readable [OF sample_archive_ok this] obtain r v0 b v' where
    "load_initrd (initrd_memory sample_archive) vfs_construct = Some (r, v0)"
    "vfs_open (tar_drops (initrd_memory sample_archive) r) (fst (sample_archive ! 1)) v0 = Some (Some b, v')"
    "\<forall>off n. off + n \<le> length (snd (sample_archive ! 1)) \<longrightarrow>
       vfs_read (tar_drops (initrd_memory sample_archive) r) off n b v' = Some (n, take n (drop off (snd (sample_archive ! 1))))"
    using fs_reachable.start by blast
  moreover from this(3) have "vfs_read (tar_drops (initrd_memory sample_archive) r) 1 1 b v' =
      Some (1, take 1 (drop 1 (snd (sample_archive ! 1))))" by (simp add: sample_archive_def)
  moreover have "fst (sample_archive ! 1) = [0x61, 0x2f, 0x62]" "snd (sample_archive ! 1) = [0x68, 0x69]" by (simp_all add: sample_archive_def)
  ultimately show ?thesis by auto
qed

text \<open>
  C22: the cache of nodes is transparent. In every state reached from loading an archive by opening and closing
  files, opening a path agrees with asking the driver for one component after the other from the root: it
  returns a node with the object the driver finds, or false where the driver finds none.
\<close>

theorem vfs_open_is_resolution:
  assumes "archive_ok es" "load_initrd (initrd_memory es) vfs_construct = Some (r, v0)"
    and "fs_reachable (tar_drops (initrd_memory es) r) v0 v" "parse_path path = Some names"
  shows "open_agrees (vfsdriver_finddir r) v (resolve (vfsdriver_finddir r) initrd_root names)
     (vfs_open (tar_drops (initrd_memory es) r) path v)"
proof -
  have "mounted r v0" using initrd_loaded [OF assms(1)] assms(2) by auto
  then show ?thesis
    using fs_reachable_mounted [OF assms(3)] tar.vfs_open_ok [OF _ _ _ assms(4)] unfolding mounted_def by blast
qed

theorem vfs_open_is_resolution_witness:
  "\<exists>r v0. load_initrd (initrd_memory sample_archive) vfs_construct = Some (r, v0) \<and>
     open_agrees (vfsdriver_finddir r) v0 (resolve (vfsdriver_finddir r) initrd_root [[0x61]])
       (vfs_open (tar_drops (initrd_memory sample_archive) r) [0x61] v0)"
proof -
  obtain r v0 where r: "load_initrd (initrd_memory sample_archive) vfs_construct = Some (r, v0)"
    using initrd_loaded [OF sample_archive_ok] by blast
  have "parse_path [0x61] = Some [[0x61]]" by (simp add: PATH_SEPERATOR_def MAX_PATH_SIZE_def)
  from vfs_open_is_resolution [OF sample_archive_ok r fs_reachable.start this] show ?thesis using r by blast
qed

text \<open>
  a file that does not exist stops the file system. Opening a path of which no part exists in the archive
  returns false with the spinlock of the root still held, and after that no \<open>open\<close> of any path returns.
\<close>

theorem missing_file_blocks_file_system:
  assumes "archive_ok es" "parse_path path = Some (name # names)" "\<forall>e\<in>set es. hd (comps_of (fst e)) \<noteq> name"
  shows "\<exists>r v0 v'. load_initrd (initrd_memory es) vfs_construct = Some (r, v0) \<and>
     vfs_open (tar_drops (initrd_memory es) r) path v0 = Some (None, v') \<and>
     (\<forall>q. vfs_open (tar_drops (initrd_memory es) r) q v' = None)"
proof -
  obtain r v0 where r: "load_initrd (initrd_memory es) vfs_construct = Some (r, v0)"
    "tar_inv (length es) (paths_upto es (length es)) (files_upto es (length es)) r" "mounted r v0"
    using initrd_loaded [OF assms(1)] by blast
  have ne: "comps_of (fst (es ! j)) \<noteq> []" if "j < length es" "prefix [name] (comps_of (fst (es ! j))) \<or> is_file (fst (es ! j))" for j
    using that assms(1) is_file_comps by (fastforce simp: archive_ok_def list_all_length entry_ok_def comps_of_def)
  have no: "\<not> prefix [name] (comps_of (fst (es ! j)))" if "j < length es" for j
    using assms(3) that by (metis hd_append2 list.sel(1) not_Cons_self2 nth_mem prefix_def)
  have nf: "\<not> prefix p [name]" if "(p, i) \<in> files_upto es (length es)" for p i
  proof
    assume "prefix p [name]"
    moreover obtain j where j: "j < length es" "p = comps_of (fst (es ! j))" "is_file (fst (es ! j))" using \<open>(p, i) \<in> _\<close> by (auto simp: files_upto_def)
    ultimately have "p = [name]" using ne [of j] by (auto simp: prefix_Cons)
    then show False using no [of j] j by simp
  qed
  have "tree r [name] = None"
  proof (rule ccontr)
    assume "tree r [name] \<noteq> None"
    then obtain i where "tree r [name] = Some i" by blast
    from tar_invD(7) [OF r(2) this] show False using no nf by (auto simp: paths_upto_def)
  qed
  then have "resolve (vfsdriver_finddir r) initrd_root [name] = Some None" by (rule resolve_missing [OF r(2)]) (rule nf)
  then have "vfsdriver_finddir r initrd_root name = Some None"
    by (auto split: bind_splits option.splits)
  then show ?thesis using tar.vfs_open_missing_at_root [OF _ _ _ assms(2)] r(1,3) unfolding mounted_def by blast
qed

theorem missing_file_blocks_file_system_witness:
  "\<exists>r v0 v'. load_initrd (initrd_memory sample_archive) vfs_construct = Some (r, v0) \<and>
     vfs_open (tar_drops (initrd_memory sample_archive) r) [0x7a] v0 = Some (None, v') \<and>
     (\<forall>q. vfs_open (tar_drops (initrd_memory sample_archive) r) q v' = None)"
proof -
  have "parse_path [0x7a] = Some ([0x7a] # [])" by (simp add: PATH_SEPERATOR_def MAX_PATH_SIZE_def)
  moreover have "\<forall>e\<in>set sample_archive. hd (comps_of (fst e)) \<noteq> [0x7a]"
    by (simp add: sample_archive_def comps_of_def PATH_SEPERATOR_def MAX_PATH_SIZE_def)
  ultimately show ?thesis by (rule missing_file_blocks_file_system [OF sample_archive_ok])
qed

end
