(* ===== verification/IPC_Serialisation.thy ===== *)
theory IPC_Serialisation
  imports Xp_Prelude Common_CircularBuffer "HOL-Library.Monad_Syntax"
begin

text \<open>
  Serialisation of messages between processes, \<open>Userspace/Libraries/SerialisationLib\<close>. \<open>SerialisedData\<close> is the list of
  the bytes pushed so far; \<open>DeserialisedData\<close> is the bytes with the current offset, and reading beyond the bytes
  is \<^const>\<open>None\<close>. Integers are stored as the machine has them, least byte first.
\<close>

subsection \<open>Integers in memory\<close>

primrec le_bytes :: "nat \<Rightarrow> 'a :: len word \<Rightarrow> byte list" where
  "le_bytes 0 w = []"
| "le_bytes (Suc n) w = ucast w # le_bytes n (drop_bit 8 w)"

primrec load_le :: "byte list \<Rightarrow> 'a :: len word" where
  "load_le [] = 0"
| "load_le (b # bs) = ucast b OR push_bit 8 (load_le bs)"

lemma length_le_bytes [simp]: "length (le_bytes n w) = n"
  by (induction n arbitrary: w) simp_all

lemma load_le_bytes: "load_le (le_bytes n w) = take_bit (8 * n) w"
proof (induction n arbitrary: w)
  case (Suc n)
  have "ucast (ucast w :: byte) OR push_bit 8 (take_bit (8 * n) (drop_bit 8 w)) = take_bit (8 + 8 * n) w"
    by (rule bit_word_eqI) (auto simp: bit_simps)
  then show ?case by (simp add: Suc.IH)
qed simp

subsection \<open>Encoding\<close>

type_synonym SerialisedData = "byte list"

definition push :: "byte list \<Rightarrow> SerialisedData \<Rightarrow> SerialisedData" where
  "push values msg = msg @ values"

definition encode_int :: "u32 \<Rightarrow> SerialisedData \<Rightarrow> SerialisedData" where
  "encode_int v msg = push (le_bytes 4 v) msg"

definition encode_size :: "u64 \<Rightarrow> SerialisedData \<Rightarrow> SerialisedData" where
  "encode_size v msg = push (le_bytes 8 v) msg"

definition encode_char :: "byte \<Rightarrow> SerialisedData \<Rightarrow> SerialisedData" where
  "encode_char c msg = push [c] msg"

definition encode_bool :: "bool \<Rightarrow> SerialisedData \<Rightarrow> SerialisedData" where
  "encode_bool b msg = push [if b then 1 else 0] msg"

definition encode_vector :: "('a \<Rightarrow> SerialisedData \<Rightarrow> SerialisedData) \<Rightarrow> 'a list \<Rightarrow> SerialisedData \<Rightarrow> SerialisedData" where
  "encode_vector enc items msg = fold enc items (push (le_bytes 8 (of_nat (length items) :: u64)) msg)"

definition encode_string :: "byte list \<Rightarrow> SerialisedData \<Rightarrow> SerialisedData" where
  "encode_string str msg = fold encode_char str (push (le_bytes 8 (of_nat (length str) :: u64)) msg)"

subsection \<open>Decoding\<close>

record DeserialisedData =
  m_rawBytes :: "byte list"
  m_currentOffset :: nat

definition deserialised :: "byte list \<Rightarrow> DeserialisedData" where
  "deserialised buf = \<lparr>m_rawBytes = buf, m_currentOffset = 0\<rparr>"

definition pop :: "nat \<Rightarrow> DeserialisedData \<Rightarrow> (byte list \<times> DeserialisedData) option" where
  "pop cnt d =
     (if m_currentOffset d + cnt \<le> length (m_rawBytes d)
      then Some (take cnt (drop (m_currentOffset d) (m_rawBytes d)), d\<lparr>m_currentOffset := m_currentOffset d + cnt\<rparr>)
      else None)"

definition decode_int :: "DeserialisedData \<Rightarrow> (u32 \<times> DeserialisedData) option" where
  "decode_int d = do { (bs, d) \<leftarrow> pop 4 d; Some (load_le bs, d) }"

definition decode_size :: "DeserialisedData \<Rightarrow> (u64 \<times> DeserialisedData) option" where
  "decode_size d = do { (bs, d) \<leftarrow> pop 8 d; Some (load_le bs, d) }"

definition decode_char :: "DeserialisedData \<Rightarrow> (byte \<times> DeserialisedData) option" where
  "decode_char d = do { (bs, d) \<leftarrow> pop 1 d; Some (load_le bs, d) }"

definition decode_bool :: "DeserialisedData \<Rightarrow> (bool \<times> DeserialisedData) option" where
  "decode_bool d = do { (bs, d) \<leftarrow> pop 1 d; Some (load_le bs \<noteq> (0 :: byte), d) }"

fun decode_loop :: "(DeserialisedData \<Rightarrow> ('a \<times> DeserialisedData) option) \<Rightarrow> nat \<Rightarrow> 'a list \<Rightarrow> DeserialisedData \<Rightarrow>
    ('a list \<times> DeserialisedData) option" where
  "decode_loop dec 0 decodable d = Some (decodable, d)"
| "decode_loop dec (Suc n) decodable d = do { (t, d) \<leftarrow> dec d; decode_loop dec n (decodable @ [t]) d }"

definition decode_vector :: "(DeserialisedData \<Rightarrow> ('a \<times> DeserialisedData) option) \<Rightarrow> DeserialisedData \<Rightarrow> ('a list \<times> DeserialisedData) option" where
  "decode_vector dec d = do { (sz, d) \<leftarrow> decode_size d; decode_loop dec (unat sz) [] d }"

definition decode_list :: "(DeserialisedData \<Rightarrow> ('a \<times> DeserialisedData) option) \<Rightarrow> DeserialisedData \<Rightarrow> ('a list \<times> DeserialisedData) option" where
  "decode_list dec d = do { (sz, d) \<leftarrow> decode_size d; decode_loop dec (unat sz) [] d }"

definition decode_string :: "DeserialisedData \<Rightarrow> (byte list \<times> DeserialisedData) option" where
  "decode_string d = do { (sz, d) \<leftarrow> decode_size d; decode_loop decode_char (unat sz) [] d }"

subsection \<open>Round trips\<close>

text \<open>
  What an encoder and its decoder promise for the valid values of a type: the encoder appends bytes, and the
  decoder finds the value and stops behind these bytes, whatever stands before and behind them.
\<close>

locale codec =
  fixes enc :: "'v \<Rightarrow> SerialisedData \<Rightarrow> SerialisedData"
    and dec :: "DeserialisedData \<Rightarrow> ('v \<times> DeserialisedData) option"
    and valid :: "'v \<Rightarrow> bool"
  assumes enc_appends: "enc v msg = msg @ enc v []"
    and dec_enc: "valid v \<Longrightarrow> dec \<lparr>m_rawBytes = pre @ enc v [] @ post, m_currentOffset = length pre\<rparr> =
      Some (v, \<lparr>m_rawBytes = pre @ enc v [] @ post, m_currentOffset = length (pre @ enc v [])\<rparr>)"
begin

lemma fold_enc: "fold enc vs msg = msg @ concat (map (\<lambda>v. enc v []) vs)"
proof (induction vs arbitrary: msg)
  case (Cons v vs)
  then show ?case using enc_appends [of v msg] by simp
qed simp

lemma decode_loop_enc:
  assumes "list_all valid vs"
  shows "decode_loop dec (length vs) acc \<lparr>m_rawBytes = pre @ concat (map (\<lambda>v. enc v []) vs) @ post, m_currentOffset = length pre\<rparr> =
    Some (acc @ vs, \<lparr>m_rawBytes = pre @ concat (map (\<lambda>v. enc v []) vs) @ post,
       m_currentOffset = length (pre @ concat (map (\<lambda>v. enc v []) vs))\<rparr>)"
  using assms
proof (induction vs arbitrary: acc pre)
  case (Cons v vs)
  show ?case
    using dec_enc [of v pre "concat (map (\<lambda>v. enc v []) vs) @ post"] Cons.prems Cons.IH [of "acc @ [v]" "pre @ enc v []"] by simp
qed simp

end

lemma pop_bytes:
  "pop (length bs) \<lparr>m_rawBytes = pre @ bs @ post, m_currentOffset = length pre\<rparr> =
     Some (bs, \<lparr>m_rawBytes = pre @ bs @ post, m_currentOffset = length (pre @ bs)\<rparr>)"
  by (simp add: pop_def)

lemmas pop_le_bytes = pop_bytes [of "le_bytes n w" for n w, unfolded length_le_bytes]

interpretation int_codec: codec encode_int decode_int "\<lambda>_. True"
  by unfold_locales (simp_all add: encode_int_def decode_int_def push_def pop_le_bytes load_le_bytes take_bit_word_eq_self)

interpretation size_codec: codec encode_size decode_size "\<lambda>_. True"
  by unfold_locales (simp_all add: encode_size_def decode_size_def push_def pop_le_bytes load_le_bytes take_bit_word_eq_self)

interpretation char_codec: codec encode_char decode_char "\<lambda>_. True"
proof unfold_locales
  fix v :: byte and pre post
  show "decode_char \<lparr>m_rawBytes = pre @ encode_char v [] @ post, m_currentOffset = length pre\<rparr> =
      Some (v, \<lparr>m_rawBytes = pre @ encode_char v [] @ post, m_currentOffset = length (pre @ encode_char v [])\<rparr>)"
    using pop_bytes [of "[v]" pre post] by (simp add: encode_char_def decode_char_def push_def)
qed (simp add: encode_char_def push_def)

interpretation bool_codec: codec encode_bool decode_bool "\<lambda>_. True"
proof unfold_locales
  fix v :: bool and pre post
  show "decode_bool \<lparr>m_rawBytes = pre @ encode_bool v [] @ post, m_currentOffset = length pre\<rparr> =
      Some (v, \<lparr>m_rawBytes = pre @ encode_bool v [] @ post, m_currentOffset = length (pre @ encode_bool v [])\<rparr>)"
    using pop_bytes [of "[if v then 1 else 0]" pre post] by (simp add: encode_bool_def decode_bool_def push_def)
qed (simp add: encode_bool_def push_def)


text \<open>A vector of values that have a codec has one.\<close>

locale vector_codec = codec
begin

lemma encode_vector_eq: "encode_vector enc vs msg = msg @ le_bytes 8 (of_nat (length vs) :: u64) @ concat (map (\<lambda>v. enc v []) vs)"
  by (simp add: encode_vector_def push_def fold_enc)

lemma decode_vector_enc:
  assumes "list_all valid vs" "length vs < 2 ^ 64"
  shows "decode_vector dec \<lparr>m_rawBytes = pre @ encode_vector enc vs [] @ post, m_currentOffset = length pre\<rparr> =
    Some (vs, \<lparr>m_rawBytes = pre @ encode_vector enc vs [] @ post, m_currentOffset = length (pre @ encode_vector enc vs [])\<rparr>)"
proof -
  let ?n = "of_nat (length vs) :: u64" and ?bs = "concat (map (\<lambda>v. enc v []) vs)"
  have n: "unat ?n = length vs" using assms(2) by (simp add: unat_of_nat)
  have "decode_size \<lparr>m_rawBytes = pre @ le_bytes 8 ?n @ ?bs @ post, m_currentOffset = length pre\<rparr> =
      Some (?n, \<lparr>m_rawBytes = pre @ le_bytes 8 ?n @ ?bs @ post, m_currentOffset = length (pre @ le_bytes 8 ?n)\<rparr>)"
    using size_codec.dec_enc [where v = ?n and pre = pre and post = "?bs @ post"] by (simp add: encode_size_def push_def)
  then show ?thesis
    using decode_loop_enc [OF assms(1), of "[]" "pre @ le_bytes 8 ?n" post] n by (simp add: decode_vector_def encode_vector_eq)
qed

end

sublocale vector_codec \<subseteq> vec: codec "encode_vector enc" "decode_vector dec" "\<lambda>vs. list_all valid vs \<and> length vs < 2 ^ 64"
proof unfold_locales
  show "encode_vector enc vs msg = msg @ encode_vector enc vs []" for vs msg by (simp add: encode_vector_eq)
qed (rule decode_vector_enc, auto)

interpretation ints: vector_codec encode_int decode_int "\<lambda>_. True" ..

interpretation chars: vector_codec encode_char decode_char "\<lambda>_. True" ..

lemma string_is_vector: "encode_string = encode_vector encode_char" "decode_string = decode_vector decode_char"
  by (simp_all add: fun_eq_iff encode_string_def encode_vector_def decode_string_def decode_vector_def)

interpretation string_codec: codec encode_string decode_string "\<lambda>str. length str < 2 ^ 64"
  unfolding string_is_vector
proof unfold_locales
  show "encode_vector encode_char str msg = msg @ encode_vector encode_char str []" for str msg by (rule chars.vec.enc_appends)
qed (rule chars.vec.dec_enc, simp add: list_all_iff)

subsection \<open>The messages of the window server\<close>

text \<open>\<open>ClientEndpoint.h\<close> and \<open>ServerEndpoint.h\<close>: each message archives its fields in order.\<close>

record CreateWindow =
  cw_width :: u32
  cw_height :: u32

record CreateWindowCallback =
  sharedMemoryId :: "byte list"

record KeyEvent =
  keyUp :: bool
  ke_key :: byte

datatype Message = MsgCreateWindow CreateWindow | MsgFlushWindow | MsgCreateWindowCallback CreateWindowCallback | MsgKeyEvent KeyEvent

definition MessageId :: "Message \<Rightarrow> u32" where
  "MessageId m = (case m of MsgCreateWindow _ \<Rightarrow> 1 | MsgFlushWindow \<Rightarrow> 2 | MsgCreateWindowCallback _ \<Rightarrow> 3 | MsgKeyEvent _ \<Rightarrow> 4)"

definition serialise :: "Message \<Rightarrow> SerialisedData" where
  "serialise m = (case m of
      MsgCreateWindow c \<Rightarrow> encode_int (cw_height c) (encode_int (cw_width c) [])
    | MsgFlushWindow \<Rightarrow> []
    | MsgCreateWindowCallback c \<Rightarrow> encode_string (sharedMemoryId c) []
    | MsgKeyEvent e \<Rightarrow> encode_char (ke_key e) (encode_bool (keyUp e) []))"

definition deserialise :: "u32 \<Rightarrow> DeserialisedData \<Rightarrow> Message option" where
  "deserialise i d =
     (if i = 1 then do { (w, d) \<leftarrow> decode_int d; (h, d) \<leftarrow> decode_int d; Some (MsgCreateWindow \<lparr>cw_width = w, cw_height = h\<rparr>) }
      else if i = 2 then Some MsgFlushWindow
      else if i = 3 then do { (str, d) \<leftarrow> decode_string d; Some (MsgCreateWindowCallback \<lparr>sharedMemoryId = str\<rparr>) }
      else if i = 4 then do { (up, d) \<leftarrow> decode_bool d; (k, d) \<leftarrow> decode_char d; Some (MsgKeyEvent \<lparr>keyUp = up, ke_key = k\<rparr>) }
      else None)"

lemma deserialise_serialise:
  assumes "\<And>c. m = MsgCreateWindowCallback c \<Longrightarrow> length (sharedMemoryId c) < 2 ^ 64"
  shows "deserialise (MessageId m) (deserialised (serialise m)) = Some m"
proof (cases m)
  case (MsgCreateWindow c)
  let ?w = "encode_int (cw_width c) []" and ?h = "encode_int (cw_height c) []"
  have "serialise m = ?w @ ?h" using MsgCreateWindow int_codec.enc_appends [of "cw_height c" ?w] by (simp add: serialise_def)
  then show ?thesis
    using MsgCreateWindow int_codec.dec_enc [where v = "cw_width c" and pre = "[]" and post = ?h] int_codec.dec_enc [where v = "cw_height c" and pre = ?w and post = "[]"]
    by (simp add: deserialise_def deserialised_def MessageId_def)
next
  case (MsgCreateWindowCallback c)
  then show ?thesis using string_codec.dec_enc [of "sharedMemoryId c" "[]" "[]"] assms
    by (simp add: deserialise_def deserialised_def MessageId_def serialise_def)
next
  case (MsgKeyEvent e)
  let ?u = "encode_bool (keyUp e) []" and ?k = "encode_char (ke_key e) []"
  have "serialise m = ?u @ ?k" using MsgKeyEvent char_codec.enc_appends [of "ke_key e" ?u] by (simp add: serialise_def)
  then show ?thesis
    using MsgKeyEvent bool_codec.dec_enc [where v = "keyUp e" and pre = "[]" and post = ?k] char_codec.dec_enc [where v = "ke_key e" and pre = ?u and post = "[]"]
    by (simp add: deserialise_def deserialised_def MessageId_def)
qed (simp add: deserialise_def MessageId_def)

end
