(* ===== verification/WS_Geometry.thy ===== *)
theory WS_Geometry
  imports Xp_Prelude
begin

text \<open>
  Rectangles and clipping regions of the window server, \<open>Userspace/System/WindowServer/Geometry.h\<close>. Coordinates
  and sizes are integers: the positions of windows stay far below the 64 bits of a coordinate, and a size
  that is computed here is between 0 and the size of an existing rectangle, so that the conversions from
  \<open>long long\<close> to \<open>int\<close> are exact.
\<close>

record WorldCoord =
  wc_x :: int
  wc_y :: int

record Rect =
  coord :: WorldCoord
  width :: int
  height :: int

definition Rect_default :: Rect where
  "Rect_default = \<lparr>coord = \<lparr>wc_x = 0, wc_y = 0\<rparr>, width = 0, height = 0\<rparr>"

definition rect_left :: "Rect \<Rightarrow> int" where "rect_left r = wc_x (coord r)"
definition rect_top :: "Rect \<Rightarrow> int" where "rect_top r = wc_y (coord r)"
definition rect_right :: "Rect \<Rightarrow> int" where "rect_right r = rect_left r + width r"
definition rect_bottom :: "Rect \<Rightarrow> int" where "rect_bottom r = rect_top r + height r"

definition rect_contains :: "Rect \<Rightarrow> WorldCoord \<Rightarrow> bool" where
  "rect_contains r wc \<longleftrightarrow> wc_x wc \<ge> rect_left r \<and> wc_y wc \<ge> rect_top r \<and> wc_x wc < rect_right r \<and> wc_y wc < rect_bottom r"

definition rect_contains_rect :: "Rect \<Rightarrow> Rect \<Rightarrow> bool" where
  "rect_contains_rect t r \<longleftrightarrow> rect_left r \<ge> rect_left t \<and> rect_top r \<ge> rect_top t \<and>
     rect_right r \<le> rect_right t \<and> rect_bottom r \<le> rect_bottom t"

definition intersects :: "Rect \<Rightarrow> Rect \<Rightarrow> bool" where
  "intersects t r \<longleftrightarrow> rect_left t < rect_right r \<and> rect_right t > rect_left r \<and>
     rect_top t < rect_bottom r \<and> rect_bottom t > rect_top r"

definition rect_intersect :: "Rect \<Rightarrow> Rect \<Rightarrow> Rect" where
  "rect_intersect t r =
     (if \<not> intersects t r then Rect_default
      else
        let r = (if rect_left t > rect_left r \<and> rect_left t < rect_right r
                 then r\<lparr>width := width r - (rect_left t - rect_left r), coord := (coord r)\<lparr>wc_x := rect_left t\<rparr>\<rparr> else r);
            r = (if rect_top t > rect_top r \<and> rect_top t < rect_bottom r
                 then r\<lparr>height := height r - (rect_top t - rect_top r), coord := (coord r)\<lparr>wc_y := rect_top t\<rparr>\<rparr> else r);
            r = (if rect_right t > rect_left r \<and> rect_right t < rect_right r
                 then r\<lparr>width := width r - (rect_right r - rect_right t)\<rparr> else r);
            r = (if rect_bottom t > rect_top r \<and> rect_bottom t < rect_bottom r
                 then r\<lparr>height := height r - (rect_bottom r - rect_bottom t)\<rparr> else r)
        in r)"

text \<open>The four steps of \<open>Rect::subtract\<close>: what each cuts off the base goes to the result.\<close>

definition cut_left :: "Rect \<Rightarrow> Rect \<Rightarrow> Rect list \<times> Rect" where
  "cut_left cutting base =
     (if rect_left cutting > rect_left base \<and> rect_left cutting < rect_right base
      then let overlap = rect_left cutting - rect_left base
           in ([base\<lparr>width := overlap\<rparr>],
               base\<lparr>coord := (coord base)\<lparr>wc_x := wc_x (coord base) + overlap\<rparr>, width := width base - overlap\<rparr>)
      else ([], base))"

definition cut_top :: "Rect \<Rightarrow> Rect \<Rightarrow> Rect list \<times> Rect" where
  "cut_top cutting base =
     (if rect_top cutting > rect_top base \<and> rect_top cutting < rect_bottom base
      then let overlap = rect_top cutting - rect_top base
           in ([base\<lparr>height := overlap\<rparr>],
               base\<lparr>coord := (coord base)\<lparr>wc_y := wc_y (coord base) + overlap\<rparr>, height := height base - overlap\<rparr>)
      else ([], base))"

definition cut_right :: "Rect \<Rightarrow> Rect \<Rightarrow> Rect list \<times> Rect" where
  "cut_right cutting base =
     (if rect_right cutting > rect_left base \<and> rect_right cutting < rect_right base
      then let overlap = rect_right base - rect_right cutting
           in ([base\<lparr>coord := (coord base)\<lparr>wc_x := wc_x (coord base) + (rect_right cutting - rect_left base)\<rparr>, width := overlap\<rparr>],
               base\<lparr>width := width base - overlap\<rparr>)
      else ([], base))"

definition cut_bottom :: "Rect \<Rightarrow> Rect \<Rightarrow> Rect list \<times> Rect" where
  "cut_bottom cutting base =
     (if rect_bottom cutting > rect_top base \<and> rect_bottom cutting < rect_bottom base
      then let overlap = rect_bottom base - rect_bottom cutting
           in ([base\<lparr>coord := (coord base)\<lparr>wc_y := wc_y (coord base) + (rect_bottom cutting - rect_top base)\<rparr>, height := overlap\<rparr>],
               base\<lparr>height := height base - overlap\<rparr>)
      else ([], base))"

definition rect_subtract :: "Rect \<Rightarrow> Rect \<Rightarrow> Rect list" where
  "rect_subtract base cutting =
     (let (r1, base) = cut_left cutting base;
          (r2, base) = cut_top cutting base;
          (r3, base) = cut_right cutting base;
          (r4, base) = cut_bottom cutting base
      in r1 @ r2 @ r3 @ r4)"

subsection \<open>Coordinates of the viewport\<close>

record ViewportCoord =
  vc_x :: int
  vc_y :: int

definition from_world :: "WorldCoord \<Rightarrow> Rect \<Rightarrow> ViewportCoord" where
  "from_world wc viewport = \<lparr>vc_x = wc_x wc - wc_x (coord viewport), vc_y = wc_y wc - wc_y (coord viewport)\<rparr>"

definition world_coord :: "ViewportCoord \<Rightarrow> Rect \<Rightarrow> WorldCoord" where
  "world_coord vc viewport = \<lparr>wc_x = vc_x vc + wc_x (coord viewport), wc_y = vc_y vc + wc_y (coord viewport)\<rparr>"

subsection \<open>Clipping regions\<close>

text \<open>
  The loop of \<open>ClipRects::subtract\<close> with the position of its iterator. After a split the iterator is set to
  \<open>begin()\<close> and then still incremented by the loop, so that it continues with the second rectangle.
\<close>

definition intersecting :: "Rect \<Rightarrow> Rect list \<Rightarrow> nat" where
  "intersecting rect rects = length (filter (\<lambda>r. intersects r rect) rects)"

lemma rect_subtract_not_intersects: "list_all (\<lambda>r. \<not> intersects r c) (rect_subtract b c)"
proof -
  have "list_all (\<lambda>r. \<not> intersects r c) (fst (cut_left c b))" "list_all (\<lambda>r. \<not> intersects r c) (fst (cut_top c b))"
    "list_all (\<lambda>r. \<not> intersects r c) (fst (cut_right c b))" "list_all (\<lambda>r. \<not> intersects r c) (fst (cut_bottom c b))" for b
    by (auto simp: cut_left_def cut_top_def cut_right_def cut_bottom_def intersects_def rect_left_def rect_top_def rect_right_def rect_bottom_def Let_def)
  then show ?thesis unfolding rect_subtract_def by (simp add: case_prod_beta)
qed

lemma intersecting_split:
  assumes "it < length rects" "intersects (rects ! it) rect"
  shows "intersecting rect (take it rects @ drop (it + 1) rects @ rect_subtract (rects ! it) rect) < intersecting rect rects"
proof -
  have "filter (\<lambda>r. intersects r rect) (rect_subtract (rects ! it) rect) = []"
    using rect_subtract_not_intersects [of rect "rects ! it"] by (simp add: filter_empty_conv list_all_iff)
  moreover have "rects = take it rects @ rects ! it # drop (it + 1) rects" using id_take_nth_drop [OF assms(1)] by simp
  then have "filter (\<lambda>r. intersects r rect) rects =
      filter (\<lambda>r. intersects r rect) (take it rects) @ rects ! it # filter (\<lambda>r. intersects r rect) (drop (it + 1) rects)"
    using assms(2) by (metis (mono_tags, lifting) filter.simps(2) filter_append)
  ultimately show ?thesis by (simp add: intersecting_def)
qed

function clip_subtract_loop :: "Rect \<Rightarrow> nat \<Rightarrow> Rect list \<Rightarrow> Rect list" where
  "clip_subtract_loop rect it rects =
     (if length rects \<le> it then rects
      else if \<not> intersects (rects ! it) rect then clip_subtract_loop rect (it + 1) rects
      else clip_subtract_loop rect 1 (take it rects @ drop (it + 1) rects @ rect_subtract (rects ! it) rect))"
  by pat_completeness auto

termination
  by (relation "measures [\<lambda>(rect, it, rects). intersecting rect rects, \<lambda>(rect, it, rects). length rects - it]")
    (use intersecting_split in auto)

declare clip_subtract_loop.simps [simp del]

definition clip_subtract :: "Rect \<Rightarrow> Rect list \<Rightarrow> Rect list" where
  "clip_subtract rect rects = clip_subtract_loop rect 0 rects"

definition clip_add :: "Rect \<Rightarrow> Rect list \<Rightarrow> Rect list" where
  "clip_add rect rects = clip_subtract rect rects @ [rect]"

definition clip_intersect :: "Rect \<Rightarrow> Rect list \<Rightarrow> Rect list" where
  "clip_intersect rect rects = map (\<lambda>r. rect_intersect r rect) (filter (\<lambda>r. intersects r rect) rects)"

subsection \<open>Regions\<close>

definition region :: "Rect \<Rightarrow> WorldCoord set" where
  "region r = {p. rect_contains r p}"

definition regions :: "Rect list \<Rightarrow> WorldCoord set" where
  "regions rs = (\<Union>r\<in>set rs. region r)"

definition positive :: "Rect \<Rightarrow> bool" where
  "positive r \<longleftrightarrow> 0 < width r \<and> 0 < height r"

lemmas rect_defs = rect_left_def rect_top_def rect_right_def rect_bottom_def

lemma mem_region: "p \<in> region r \<longleftrightarrow> wc_x (coord r) \<le> wc_x p \<and> wc_x p < wc_x (coord r) + width r \<and>
    wc_y (coord r) \<le> wc_y p \<and> wc_y p < wc_y (coord r) + height r"
  by (auto simp: region_def rect_contains_def rect_defs)

lemma regions_simps [simp]: "regions [] = {}" "regions (r # rs) = region r \<union> regions rs" "regions (rs @ ss) = regions rs \<union> regions ss"
  by (auto simp: regions_def)

lemma region_intersects: "p \<in> region a \<Longrightarrow> p \<in> region b \<Longrightarrow> intersects a b"
  by (auto simp: mem_region intersects_def rect_defs)

lemma mem_region_bounds: "p \<in> region r \<longleftrightarrow> rect_left r \<le> wc_x p \<and> wc_x p < rect_right r \<and> rect_top r \<le> wc_y p \<and> wc_y p < rect_bottom r"
  by (auto simp: region_def rect_contains_def)

lemma positive_bounds: "positive r \<longleftrightarrow> rect_left r < rect_right r \<and> rect_top r < rect_bottom r"
  by (auto simp: positive_def rect_defs)

lemma rect_intersect_bounds:
  assumes "intersects a r" "positive a"
  shows "rect_left (rect_intersect a r) = max (rect_left a) (rect_left r)"
    and "rect_right (rect_intersect a r) = min (rect_right a) (rect_right r)"
    and "rect_top (rect_intersect a r) = max (rect_top a) (rect_top r)"
    and "rect_bottom (rect_intersect a r) = min (rect_bottom a) (rect_bottom r)"
  using assms by (simp_all add: rect_intersect_def intersects_def positive_def rect_defs Let_def)

lemma region_intersect:
  assumes "positive a"
  shows "region (rect_intersect a r) = region a \<inter> region r"
proof (cases "intersects a r")
  case True
  then show ?thesis using rect_intersect_bounds [OF True assms] by (auto simp: mem_region_bounds)
next
  case False
  then have "region a \<inter> region r = {}" using region_intersects by blast
  then show ?thesis using False by (auto simp: rect_intersect_def Rect_default_def mem_region)
qed

lemma positive_intersect: "positive a \<Longrightarrow> positive r \<Longrightarrow> intersects a r \<Longrightarrow> positive (rect_intersect a r)"
  using rect_intersect_bounds [of a r] by (simp add: positive_bounds intersects_def)

subsection \<open>Subtraction of rectangles\<close>

text \<open>Each step cuts off the part of the base on one side of the cutting rectangle.\<close>

lemma cut_left_ok:
  assumes "cut_left c b = (rs, b')" "rect_left c < rect_right b"
  shows "regions rs = {p \<in> region b. wc_x p < rect_left c}"
    and "rect_left b' = max (rect_left b) (rect_left c)" and "rect_right b' = rect_right b" and "rect_top b' = rect_top b" and "rect_bottom b' = rect_bottom b"
    and "positive b \<Longrightarrow> list_all positive rs" and "list_all (\<lambda>r. \<not> intersects r c) rs"
  using assms by (auto simp: cut_left_def mem_region positive_def intersects_def rect_defs Let_def split: if_splits)

lemma cut_top_ok:
  assumes "cut_top c b = (rs, b')" "rect_top c < rect_bottom b"
  shows "regions rs = {p \<in> region b. wc_y p < rect_top c}"
    and "rect_left b' = rect_left b" and "rect_right b' = rect_right b" and "rect_top b' = max (rect_top b) (rect_top c)" and "rect_bottom b' = rect_bottom b"
    and "positive b \<Longrightarrow> list_all positive rs" and "list_all (\<lambda>r. \<not> intersects r c) rs"
  using assms by (auto simp: cut_top_def mem_region positive_def intersects_def rect_defs Let_def split: if_splits)

lemma cut_right_ok:
  assumes "cut_right c b = (rs, b')" "rect_left b < rect_right c"
  shows "regions rs = {p \<in> region b. rect_right c \<le> wc_x p}"
    and "rect_left b' = rect_left b" and "rect_right b' = min (rect_right b) (rect_right c)" and "rect_top b' = rect_top b" and "rect_bottom b' = rect_bottom b"
    and "positive b \<Longrightarrow> list_all positive rs" and "list_all (\<lambda>r. \<not> intersects r c) rs"
  using assms by (auto simp: cut_right_def mem_region positive_def intersects_def rect_defs Let_def split: if_splits)

lemma cut_bottom_ok:
  assumes "cut_bottom c b = (rs, b')" "rect_top b < rect_bottom c"
  shows "regions rs = {p \<in> region b. rect_bottom c \<le> wc_y p}"
    and "rect_left b' = rect_left b" and "rect_right b' = rect_right b" and "rect_top b' = rect_top b" and "rect_bottom b' = min (rect_bottom b) (rect_bottom c)"
    and "positive b \<Longrightarrow> list_all positive rs" and "list_all (\<lambda>r. \<not> intersects r c) rs"
  using assms by (auto simp: cut_bottom_def mem_region positive_def intersects_def rect_defs Let_def split: if_splits)

lemma rect_subtract_ok:
  assumes i: "intersects b c" and c: "positive c" and b: "positive b"
  shows "regions (rect_subtract b c) = region b - region c \<and> list_all positive (rect_subtract b c)"
proof -
  obtain r1 b1 where 1: "cut_left c b = (r1, b1)" by (cases "cut_left c b")
  obtain r2 b2 where 2: "cut_top c b1 = (r2, b2)" by (cases "cut_top c b1")
  obtain r3 b3 where 3: "cut_right c b2 = (r3, b3)" by (cases "cut_right c b2")
  obtain r4 b4 where 4: "cut_bottom c b3 = (r4, b4)" by (cases "cut_bottom c b3")
  have s: "rect_subtract b c = r1 @ r2 @ r3 @ r4" using 1 2 3 4 by (simp add: rect_subtract_def)
  note bounds = i c b
  have "rect_left c < rect_right b" using i by (simp add: intersects_def)
  note c1 = cut_left_ok [OF 1 this]
  have "rect_top c < rect_bottom b1" using i c1 by (simp add: intersects_def)
  note c2 = cut_top_ok [OF 2 this]
  have "rect_left b2 < rect_right c" using i c1 c2 c by (simp add: intersects_def positive_bounds)
  note c3 = cut_right_ok [OF 3 this]
  have "rect_top b3 < rect_bottom c" using i c1 c2 c3 c by (simp add: intersects_def positive_bounds)
  note c4 = cut_bottom_ok [OF 4 this]
  have r: "p \<in> region b1 \<longleftrightarrow> p \<in> region b \<and> rect_left c \<le> wc_x p" "p \<in> region b2 \<longleftrightarrow> p \<in> region b1 \<and> rect_top c \<le> wc_y p"
    "p \<in> region b3 \<longleftrightarrow> p \<in> region b2 \<and> wc_x p < rect_right c" for p
    by (auto simp: mem_region_bounds c1(2-5) c2(2-5) c3(2-5))
  have "regions (rect_subtract b c) = region b - region c"
    unfolding s regions_simps c1(1) c2(1) c3(1) c4(1) by (auto simp: r mem_region_bounds [of _ c] not_le not_less)
  moreover have "positive b1" "positive b2" "positive b3"
    using b c i c1(2-5) c2(2-5) c3(2-5) by (simp_all add: positive_bounds intersects_def)
  then have "list_all positive (rect_subtract b c)" using c1(6) c2(6) c3(6) c4(6) b by (simp add: s)
  ultimately show ?thesis ..
qed

subsection \<open>Subtraction from a region\<close>

text \<open>
  Whatever it skips, \<open>ClipRects::subtract\<close> removes nothing but points of the rectangle.
\<close>

lemma split_regions:
  assumes "it < length rects"
  shows "regions rects = regions (take it rects) \<union> region (rects ! it) \<union> regions (drop (it + 1) rects)"
proof -
  have "regions (take it rects @ rects ! it # drop (it + 1) rects) = regions rects" using id_take_nth_drop [OF assms] by simp
  then show ?thesis by auto
qed

lemma clip_subtract_loop_bounds:
  assumes "positive rect" "list_all positive rects"
  shows "regions rects - region rect \<subseteq> regions (clip_subtract_loop rect it rects) \<and>
     regions (clip_subtract_loop rect it rects) \<subseteq> regions rects \<and> list_all positive (clip_subtract_loop rect it rects)"
  using assms
proof (induction rect it rects rule: clip_subtract_loop.induct)
  case (1 rect it rects)
  let ?rs = "take it rects @ drop (it + 1) rects @ rect_subtract (rects ! it) rect"
  show ?case
  proof (cases "it < length rects \<and> intersects (rects ! it) rect")
    case True
    then have p: "positive (rects ! it)" using "1.prems"(2) by (simp add: list_all_length)
    note s = rect_subtract_ok [OF _ "1.prems"(1) p]
    have "list_all positive (take it rects)" "list_all positive (drop (it + 1) rects)"
      using "1.prems"(2) by (auto simp: list_all_iff dest: in_set_takeD in_set_dropD)
    then have "list_all positive ?rs" using s True by simp
    from "1.IH"(2) [OF _ _ "1.prems"(1) this] show ?thesis
      using True s split_regions [of it rects] by (subst (1 2 3) clip_subtract_loop.simps) (auto simp: not_le)
  next
    case False
    then show ?thesis using 1 by (subst (1 2 3) clip_subtract_loop.simps) (auto simp: not_le)
  qed
qed

text \<open>Exact, when the rectangles before the iterator have been dealt with.\<close>

lemma clip_subtract_loop_exact:
  assumes "\<forall>j<min it (length rects). \<not> intersects (rects ! j) rect" "it = 0 \<longrightarrow> length rects \<le> 1 \<or> \<not> intersects (rects ! 0) rect"
  shows "list_all (\<lambda>r. \<not> intersects r rect) (clip_subtract_loop rect it rects)"
  using assms
proof (induction rect it rects rule: clip_subtract_loop.induct)
  case (1 rect it rects)
  let ?rs = "take it rects @ drop (it + 1) rects @ rect_subtract (rects ! it) rect"
  consider "length rects \<le> it" | "it < length rects" "\<not> intersects (rects ! it) rect" | "it < length rects" "intersects (rects ! it) rect" by linarith
  then show ?case
  proof cases
    case 1
    then show ?thesis using "1.prems"(1) by (subst clip_subtract_loop.simps) (simp add: list_all_length)
  next
    case 2
    then have "\<forall>j<min (it + 1) (length rects). \<not> intersects (rects ! j) rect" using "1.prems"(1) by (auto simp: less_Suc_eq)
    then show ?thesis using "1.IH"(1) 2 by (subst clip_subtract_loop.simps) simp
  next
    case 3
    have "\<not> intersects (?rs ! 0) rect" if "?rs \<noteq> []"
    proof (cases "it = 0")
      case True
      then have "?rs = rect_subtract (rects ! it) rect" using "1.prems"(2) 3 by simp
      moreover have "\<not> intersects (rect_subtract (rects ! it) rect ! 0) rect"
        using rect_subtract_not_intersects [of rect "rects ! it"] that calculation True by (auto simp: list_all_length)
      ultimately show ?thesis by (simp only: not_False_eq_True)
    next
      case False
      then show ?thesis using "1.prems"(1) 3(1) by (simp add: nth_append)
    qed
    then have "\<forall>j<min 1 (length ?rs). \<not> intersects (?rs ! j) rect" by auto
    then have "list_all (\<lambda>r. \<not> intersects r rect) (clip_subtract_loop rect 1 ?rs)" using "1.IH"(2) 3 by (simp add: not_le)
    then show ?thesis using 3 by (subst clip_subtract_loop.simps) (simp add: not_le)
  qed
qed

lemma not_intersects_regions: "list_all (\<lambda>r. \<not> intersects r rect) rects \<Longrightarrow> regions rects \<inter> region rect = {}"
  using region_intersects by (fastforce simp: list_all_iff regions_def)

lemmas clip_subtract_bounds = clip_subtract_loop_bounds [where it = 0, folded clip_subtract_def]

lemma clip_subtract_exact:
  assumes "positive rect" "list_all positive rects" "length rects \<le> 1 \<or> \<not> intersects (hd rects) rect"
  shows "regions (clip_subtract rect rects) = regions rects - region rect"
proof -
  have "list_all (\<lambda>r. \<not> intersects r rect) (clip_subtract rect rects)"
    using assms(3) unfolding clip_subtract_def by (intro clip_subtract_loop_exact) (cases rects; auto)+
  from not_intersects_regions [OF this] show ?thesis using clip_subtract_bounds [OF assms(1,2)] by blast
qed

lemma clip_add_region:
  assumes "positive rect" "list_all positive rects"
  shows "regions (clip_add rect rects) = regions rects \<union> region rect \<and> list_all positive (clip_add rect rects)"
  using clip_subtract_bounds [OF assms] assms(1) by (auto simp: clip_add_def)

lemma clip_intersect_region:
  assumes "positive rect" "list_all positive rects"
  shows "regions (clip_intersect rect rects) = regions rects \<inter> region rect \<and> list_all positive (clip_intersect rect rects)"
  using assms(2)
proof (induction rects)
  case (Cons a rects)
  have "intersects a rect \<Longrightarrow> positive (rect_intersect a rect)" using Cons.prems assms(1) positive_intersect by simp
  then show ?case using Cons region_intersect [of a rect] region_intersects [of _ a rect] by (auto simp: clip_intersect_def)
qed (simp add: clip_intersect_def)

text \<open>The rectangle at the front is skipped after a split.\<close>

lemma clip_subtract_loop_head:
  assumes "1 \<le> it" "rects \<noteq> []"
  shows "clip_subtract_loop rect it rects \<noteq> [] \<and> hd (clip_subtract_loop rect it rects) = hd rects"
  using assms
proof (induction rect it rects rule: clip_subtract_loop.induct)
  case (1 rect it rects)
  obtain r rs where r: "rects = r # rs" using "1.prems"(2) by (cases rects) auto
  obtain k where k: "it = Suc k" using "1.prems"(1) by (cases it) auto
  consider "length rects \<le> it" | "it < length rects" "\<not> intersects (rects ! it) rect" | "it < length rects" "intersects (rects ! it) rect" by linarith
  then show ?case
  proof cases
    case 1
    then show ?thesis using "1.prems" by (subst (1 2) clip_subtract_loop.simps) simp
  next
    case 2
    then show ?thesis using "1.IH"(1) "1.prems" by (subst (1 2) clip_subtract_loop.simps) simp
  next
    case 3
    then show ?thesis using "1.IH"(2) by (subst (1 2) clip_subtract_loop.simps) (simp add: r k)
  qed
qed

lemma clip_subtract_skips_second:
  assumes "intersects a rect"
  shows "b \<in> set (clip_subtract rect (a # b # rects))"
proof -
  have "clip_subtract rect (a # b # rects) = clip_subtract_loop rect 1 (b # rects @ rect_subtract a rect)"
    using assms unfolding clip_subtract_def by (subst clip_subtract_loop.simps) simp
  then show ?thesis using clip_subtract_loop_head [of 1 "b # rects @ rect_subtract a rect" rect] by (metis hd_in_set le_refl list.sel(1) list.discI)
qed

end
