(* ===== verification/WS_Graphics.thy ===== *)
theory WS_Graphics
  imports WS_Geometry
begin

text \<open>
  Drawing into the frame buffer, \<open>Userspace/System/WindowServer/Graphics.cpp\<close> and \<open>Graphics.h\<close>. A buffer is the
  list of its pixels, row by row; \<^const>\<open>None\<close> is an access outside of it. The template parameter \<open>Blend\<close> is a
  first argument.
\<close>

record RenderBuffer =
  rb_buffer :: "u32 list"
  rb_width :: int
  rb_height :: int

definition blend :: "u32 \<Rightarrow> u32 \<Rightarrow> u32" where
  "blend bg fg =
     (let fg_a = (drop_bit 24 fg) AND 0xFF in
      if fg_a = 0 then bg
      else if fg_a = 0xFF then fg
      else
        let fg_r = (drop_bit 16 fg) AND 0xFF;
            fg_g = (drop_bit 8 fg) AND 0xFF;
            fg_b = fg AND 0xFF;
            bg_r = (drop_bit 16 bg) AND 0xFF;
            bg_g = (drop_bit 8 bg) AND 0xFF;
            bg_b = bg AND 0xFF;
            alpha_factor = push_bit 8 fg_a + fg_a;
            inv_alpha_factor = push_bit 8 (fg_a XOR 0xFF) + (fg_a XOR 0xFF);
            out_r = drop_bit 16 (fg_r * alpha_factor + bg_r * inv_alpha_factor) AND 0xFF;
            out_g = drop_bit 16 (fg_g * alpha_factor + bg_g * inv_alpha_factor) AND 0xFF;
            out_b = drop_bit 16 (fg_b * alpha_factor + bg_b * inv_alpha_factor) AND 0xFF
        in push_bit 24 0xFF OR push_bit 16 out_r OR push_bit 8 out_g OR out_b)"

definition read_pixel :: "u32 list \<Rightarrow> int \<Rightarrow> u32 option" where
  "read_pixel buf idx = (if 0 \<le> idx \<and> idx < int (length buf) then Some (buf ! nat idx) else None)"

definition write_pixel :: "int \<Rightarrow> u32 \<Rightarrow> u32 list \<Rightarrow> u32 list option" where
  "write_pixel idx v buf = (if 0 \<le> idx \<and> idx < int (length buf) then Some (buf[nat idx := v]) else None)"

definition put_pixel :: "bool \<Rightarrow> int \<Rightarrow> u32 \<Rightarrow> u32 list \<Rightarrow> u32 list option" where
  "put_pixel Blend idx colour buf =
     (if Blend then do { old \<leftarrow> read_pixel buf idx; write_pixel idx (blend old colour) buf } else write_pixel idx colour buf)"

fun foldO :: "('a \<Rightarrow> 's \<Rightarrow> 's option) \<Rightarrow> 'a list \<Rightarrow> 's \<Rightarrow> 's option" where
  "foldO f [] s = Some s"
| "foldO f (x # xs) s = do { s \<leftarrow> f x s; foldO f xs s }"

definition fill_rect :: "bool \<Rightarrow> u32 list \<Rightarrow> Rect \<Rightarrow> Rect \<Rightarrow> u32 \<Rightarrow> u32 list option" where
  "fill_rect Blend buffer fillRect viewport colour =
     (let vc = from_world (coord fillRect) viewport in
      foldO (\<lambda>r. foldO (\<lambda>c. put_pixel Blend ((vc_x vc + c) + (vc_y vc + r) * width viewport) colour) [0..width fillRect - 1])
        [0..height fillRect - 1] buffer)"

definition buf_rect :: "bool \<Rightarrow> u32 list \<Rightarrow> u32 list \<Rightarrow> Rect \<Rightarrow> Rect \<Rightarrow> Rect \<Rightarrow> u32 list option" where
  "buf_rect Blend buffer src rect fillRect viewport =
     (let fillRect = rect_intersect rect fillRect in
      if width rect = 0 \<or> height rect = 0 then Some buffer
      else
        let startRow = wc_y (coord fillRect) - wc_y (coord rect);
            startCol = wc_x (coord fillRect) - wc_x (coord rect);
            vc = from_world (coord fillRect) viewport
        in foldO (\<lambda>r. foldO (\<lambda>c buf.
               let bufIdx = (vc_x vc + c) + (vc_y vc + r) * width viewport;
                   srcIdx = (startCol + c) + (startRow + r) * width rect
               in do { v \<leftarrow> read_pixel src srcIdx; put_pixel Blend bufIdx v buf })
             [0..width fillRect - 1]) [0..height fillRect - 1] buffer)"

subsection \<open>Positions in a buffer\<close>

text \<open>The position of a point in the buffer of a rectangle.\<close>

definition pos_in :: "Rect \<Rightarrow> WorldCoord \<Rightarrow> nat" where
  "pos_in r p = nat ((wc_x p - wc_x (coord r)) + (wc_y p - wc_y (coord r)) * width r)"

definition buffer_size :: "Rect \<Rightarrow> nat" where
  "buffer_size r = nat (width r * height r)"

lemma row_major_bound:
  fixes x y w h :: int
  assumes "0 \<le> x" "x < w" "0 \<le> y" "y < h"
  shows "0 \<le> x + y * w \<and> x + y * w < w * h"
proof -
  have "y * w + w = (y + 1) * w" by (simp add: algebra_simps)
  also have "\<dots> \<le> h * w" using assms by (intro mult_right_mono) auto
  finally show ?thesis using assms by (simp add: mult.commute [of w h])
qed

lemma row_major_inj:
  fixes x y w x' y' :: int
  assumes "0 \<le> x" "x < w" "0 \<le> x'" "x' < w" "x + y * w = x' + y' * w"
  shows "x = x' \<and> y = y'"
proof -
  have "(x + y * w) mod w = x" "(x' + y' * w) mod w = x'" using assms(1-4) by simp_all
  then have "x = x'" using assms(5) by simp
  then show ?thesis using assms by simp
qed

lemma pos_in_bound: "p \<in> region r \<Longrightarrow> pos_in r p < buffer_size r"
  using row_major_bound [of "wc_x p - wc_x (coord r)" "width r" "wc_y p - wc_y (coord r)" "height r"]
  by (auto simp: mem_region pos_in_def buffer_size_def)

lemma pos_in_inj: "p \<in> region r \<Longrightarrow> q \<in> region r \<Longrightarrow> pos_in r p = pos_in r q \<Longrightarrow> p = q"
  using row_major_inj [of "wc_x p - wc_x (coord r)" "width r" "wc_x q - wc_x (coord r)" "wc_y p - wc_y (coord r)" "wc_y q - wc_y (coord r)"]
    row_major_bound [of "wc_x p - wc_x (coord r)" "width r" "wc_y p - wc_y (coord r)" "height r"]
    row_major_bound [of "wc_x q - wc_x (coord r)" "width r" "wc_y q - wc_y (coord r)" "height r"]
  by (auto simp: mem_region pos_in_def nat_eq_iff)

subsection \<open>Writing many pixels\<close>

lemma foldO_append: "foldO f (xs @ ys) s = do { s \<leftarrow> foldO f xs s; foldO f ys s }"
  by (induction xs arbitrary: s) (auto split: bind_splits)

lemma foldO_map: "foldO f (map g xs) = foldO (\<lambda>x. f (g x)) xs"
proof (induction xs)
  case (Cons x xs)
  show ?case by (rule ext) (simp add: Cons.IH)
qed (rule ext, simp)

lemma foldO_product: "foldO (\<lambda>r. foldO (\<lambda>c. f r c) cs) rs = foldO (\<lambda>(r, c). f r c) (List.product rs cs)"
proof (induction rs)
  case (Cons r rs)
  show ?case by (rule ext) (simp add: Cons.IH foldO_append foldO_map)
qed (rule ext, simp)

lemma foldO_pixels:
  assumes "distinct (map f ps)" "\<And>p. p \<in> set ps \<Longrightarrow> f p < length buf"
    and step: "\<And>p b. p \<in> set ps \<Longrightarrow> length b = length buf \<Longrightarrow> step p b = Some (b[f p := g p (b ! f p)])"
  shows "\<exists>buf'. foldO step ps buf = Some buf' \<and> length buf' = length buf \<and>
     (\<forall>p\<in>set ps. buf' ! f p = g p (buf ! f p)) \<and> (\<forall>i. i \<notin> f ` set ps \<longrightarrow> buf' ! i = buf ! i)"
  using assms
proof (induction ps arbitrary: buf)
  case (Cons p ps)
  let ?b = "buf[f p := g p (buf ! f p)]"
  obtain buf' where b: "foldO step ps ?b = Some buf'" "length buf' = length buf"
    "\<forall>q\<in>set ps. buf' ! f q = g q (?b ! f q)" "\<forall>i. i \<notin> f ` set ps \<longrightarrow> buf' ! i = ?b ! i"
    using Cons.IH [of ?b] Cons.prems by auto
  have "f p \<notin> f ` set ps" using Cons.prems(1) by auto
  then have "\<forall>q\<in>set ps. ?b ! f q = buf ! f q" "buf' ! f p = g p (buf ! f p)" using b(4) Cons.prems(2) by (auto simp: nth_list_update)
  then show ?case using b Cons.prems(3) by (auto simp: nth_list_update)
qed simp

text \<open>What \<open>buf_rect\<close> draws: the points of the viewport that are in both rectangles.\<close>

definition pixel_of :: "bool \<Rightarrow> u32 \<Rightarrow> u32 \<Rightarrow> u32" where
  "pixel_of Blend old new = (if Blend then blend old new else new)"

lemma buf_rect_ok:
  assumes len: "length buf = buffer_size vp" and src: "buffer_size rect \<le> length src" and rect: "positive rect"
    and sub: "region rect \<inter> region fill \<subseteq> region vp"
  shows "\<exists>buf'. buf_rect Blend buf src rect fill vp = Some buf' \<and> length buf' = length buf \<and>
     (\<forall>p\<in>region vp. buf' ! pos_in vp p =
        (if p \<in> region rect \<inter> region fill then pixel_of Blend (buf ! pos_in vp p) (src ! pos_in rect p) else buf ! pos_in vp p))"
proof -
  define fr where "fr = rect_intersect rect fill"
  define pt where "pt = (\<lambda>(r, c). \<lparr>wc_x = wc_x (coord fr) + c, wc_y = wc_y (coord fr) + r\<rparr>)"
  define ps where "ps = List.product [0..height fr - 1] [0..width fr - 1]"
  define step where "step = (\<lambda>(r, c) buf.
     do { v \<leftarrow> read_pixel src ((wc_x (coord fr) - wc_x (coord rect) + c) + (wc_y (coord fr) - wc_y (coord rect) + r) * width rect);
          put_pixel Blend ((wc_x (coord fr) - wc_x (coord vp) + c) + (wc_y (coord fr) - wc_y (coord vp) + r) * width vp) v buf })"
  have region: "region fr = region rect \<inter> region fill" unfolding fr_def by (rule region_intersect [OF rect])
  have pts: "pt ` set ps = region fr"
  proof (rule set_eqI, rule iffI)
    fix p assume p: "p \<in> region fr"
    then have "(wc_y p - wc_y (coord fr), wc_x p - wc_x (coord fr)) \<in> set ps" by (auto simp: ps_def mem_region)
    moreover have "pt (wc_y p - wc_y (coord fr), wc_x p - wc_x (coord fr)) = p" by (simp add: pt_def)
    ultimately show "p \<in> pt ` set ps" by (metis imageI)
  qed (auto simp: ps_def pt_def mem_region)
  have inj: "inj_on pt (set ps)" by (auto simp: inj_on_def pt_def)
  have in_vp: "pt q \<in> region vp" "pt q \<in> region rect" if "q \<in> set ps" for q using that pts region sub by auto
  have eq: "buf_rect Blend buf src rect fill vp = foldO step ps buf"
    using rect unfolding buf_rect_def Let_def fr_def [symmetric] ps_def foldO_product
    by (simp add: positive_def step_def from_world_def case_prod_unfold)
  have "distinct (map (\<lambda>q. pos_in vp (pt q)) ps)"
    using inj in_vp(1) pos_in_inj [of _ vp] unfolding distinct_map ps_def
    by (auto simp: distinct_product inj_on_def)
  moreover have b: "pos_in vp (pt q) < length buf" if "q \<in> set ps" for q using pos_in_bound [OF in_vp(1) [OF that]] len by simp
  moreover have "step q b = Some (b[pos_in vp (pt q) := pixel_of Blend (b ! pos_in vp (pt q)) (src ! pos_in rect (pt q))])"
    if q: "q \<in> set ps" and l: "length b = length buf" for q b
  proof -
    obtain r c where rc: "q = (r, c)" by (cases q)
    have s: "read_pixel src ((wc_x (coord fr) - wc_x (coord rect) + c) + (wc_y (coord fr) - wc_y (coord rect) + r) * width rect) = Some (src ! pos_in rect (pt q))"
      using pos_in_bound [OF in_vp(2) [OF q]] src in_vp(2) [OF q]
        row_major_bound [of "wc_x (pt q) - wc_x (coord rect)" "width rect" "wc_y (pt q) - wc_y (coord rect)" "height rect"]
      by (auto simp: read_pixel_def pos_in_def pt_def rc mem_region add_ac nat_less_iff zless_nat_eq_int_zless algebra_simps)
    show ?thesis
      using s b [OF q] l in_vp(1) [OF q]
        row_major_bound [of "wc_x (pt q) - wc_x (coord vp)" "width vp" "wc_y (pt q) - wc_y (coord vp)" "height vp"]
      by (auto simp: step_def rc put_pixel_def read_pixel_def write_pixel_def pixel_of_def pos_in_def pt_def mem_region nat_less_iff algebra_simps)
  qed
  ultimately obtain buf' where b': "foldO step ps buf = Some buf'" "length buf' = length buf"
    "\<forall>q\<in>set ps. buf' ! pos_in vp (pt q) = pixel_of Blend (buf ! pos_in vp (pt q)) (src ! pos_in rect (pt q))"
    "\<forall>i. i \<notin> (\<lambda>q. pos_in vp (pt q)) ` set ps \<longrightarrow> buf' ! i = buf ! i"
    using foldO_pixels [of "\<lambda>q. pos_in vp (pt q)" ps buf step "\<lambda>q old. pixel_of Blend old (src ! pos_in rect (pt q))"] by blast
  have "buf' ! pos_in vp p = (if p \<in> region rect \<inter> region fill then pixel_of Blend (buf ! pos_in vp p) (src ! pos_in rect p) else buf ! pos_in vp p)"
    if p: "p \<in> region vp" for p
  proof (cases "p \<in> region fr")
    case True
    then obtain q where "q \<in> set ps" "p = pt q" using pts by blast
    then show ?thesis using b'(3) True region by simp
  next
    case False
    have "pos_in vp p \<notin> (\<lambda>q. pos_in vp (pt q)) ` set ps"
    proof
      assume "pos_in vp p \<in> (\<lambda>q. pos_in vp (pt q)) ` set ps"
      then obtain q where "q \<in> set ps" "pos_in vp p = pos_in vp (pt q)" by auto
      then have "p = pt q" using pos_in_inj p in_vp(1) by blast
      then show False using False pts \<open>q \<in> set ps\<close> by auto
    qed
    then show ?thesis using b'(4) False region by auto
  qed
  then show ?thesis using b'(1,2) eq by auto
qed

end
