(* ===== verification/WS_Desktop.thy ===== *)
theory WS_Desktop
  imports WS_Graphics
begin

text \<open>
  The desktop of the window server, \<open>Userspace/System/WindowServer/InfiniteDesktop.cpp\<close>, \<open>InfiniteDesktop.h\<close> and
  \<open>Window.h\<close>: windows from bottom to top, composed into the frame buffer. A window is identified by a number,
  which stands for its address; its pixels are those of the buffer it shares with its client. Images come
  decoded, since the decoder is third-party code.
\<close>

definition LEFTMB :: int where "LEFTMB = 0x1"

record Window =
  win_id :: nat
  m_worldCoord :: WorldCoord
  win_context :: RenderBuffer

definition get_geometry :: "Window \<Rightarrow> Rect" where
  "get_geometry w = \<lparr>coord = m_worldCoord w, width = rb_width (win_context w), height = rb_height (win_context w)\<rparr>"

definition move_window_to :: "WorldCoord \<Rightarrow> Window \<Rightarrow> Window" where
  "move_window_to wc w = w\<lparr>m_worldCoord := wc\<rparr>"

definition shift_window_by :: "int \<Rightarrow> int \<Rightarrow> Window \<Rightarrow> Window" where
  "shift_window_by deltaX deltaY w = w\<lparr>m_worldCoord := \<lparr>wc_x = wc_x (m_worldCoord w) + deltaX, wc_y = wc_y (m_worldCoord w) + deltaY\<rparr>\<rparr>"

record InfiniteDesktop =
  m_windows :: "Window list"
  m_buffer :: RenderBuffer
  m_viewport :: Rect
  m_bgBuffer :: RenderBuffer
  m_mouseRect :: Rect
  m_mouseBuffer :: RenderBuffer
  m_mouseButtons :: int
  m_dragWindow :: "nat option"
  m_dragWindowOffsetX :: int
  m_dragWindowOffsetY :: int

text \<open>The wallpaper is decoded to three bytes for each pixel, the cursor to four.\<close>

fun rgb_to_argb :: "u8 list \<Rightarrow> u32 list" where
  "rgb_to_argb (r # g # b # rest) =
     (push_bit 24 0xFF OR push_bit 16 (ucast r) OR push_bit 8 (ucast g) OR ucast b) # rgb_to_argb rest"
| "rgb_to_argb _ = []"

definition desktop_new :: "RenderBuffer \<Rightarrow> RenderBuffer \<Rightarrow> u8 list \<Rightarrow> int \<Rightarrow> int \<Rightarrow> InfiniteDesktop" where
  "desktop_new buffer cursor wallpaper bgWidth bgHeight =
     \<lparr>m_windows = [], m_buffer = buffer,
      m_viewport = \<lparr>coord = \<lparr>wc_x = 0, wc_y = 0\<rparr>, width = rb_width buffer, height = rb_height buffer\<rparr>,
      m_bgBuffer = \<lparr>rb_buffer = rgb_to_argb wallpaper, rb_width = bgWidth, rb_height = bgHeight\<rparr>,
      m_mouseRect = \<lparr>coord = \<lparr>wc_x = 0, wc_y = 0\<rparr>, width = rb_width cursor, height = rb_height cursor\<rparr>,
      m_mouseBuffer = cursor, m_mouseButtons = 0, m_dragWindow = None, m_dragWindowOffsetX = 0, m_dragWindowOffsetY = 0\<rparr>"

definition make_window :: "Window \<Rightarrow> InfiniteDesktop \<Rightarrow> InfiniteDesktop" where
  "make_window w d = d\<lparr>m_windows := m_windows d @ [w]\<rparr>"

subsection \<open>Painting\<close>

definition set_buffer :: "u32 list \<Rightarrow> InfiniteDesktop \<Rightarrow> InfiniteDesktop" where
  "set_buffer buf d = d\<lparr>m_buffer := (m_buffer d)\<lparr>rb_buffer := buf\<rparr>\<rparr>"

definition desktop_buf_rect :: "InfiniteDesktop \<Rightarrow> Window \<Rightarrow> Rect list \<Rightarrow> u32 list \<Rightarrow> u32 list option" where
  "desktop_buf_rect d window clipRects buf =
     foldO (\<lambda>clipRect buf. buf_rect False buf (rb_buffer (win_context window)) (get_geometry window) clipRect (m_viewport d))
       clipRects buf"

definition paint_background :: "InfiniteDesktop \<Rightarrow> Rect list \<Rightarrow> u32 list \<Rightarrow> u32 list option" where
  "paint_background d dirtyRegions buf =
     (let desktopClip = fold clip_add dirtyRegions [];
          desktopClip = clip_intersect (m_viewport d) desktopClip;
          desktopClip = fold (\<lambda>w. clip_subtract (get_geometry w)) (m_windows d) desktopClip
      in foldO (\<lambda>clipRect buf. buf_rect False buf (rb_buffer (m_bgBuffer d)) (m_viewport d) clipRect (m_viewport d)) desktopClip buf)"

definition subtract_above :: "Rect \<Rightarrow> Window list \<Rightarrow> Rect list \<Rightarrow> Rect list" where
  "subtract_above geometry upper clip =
     fold (\<lambda>w clip. if intersects (get_geometry w) geometry then clip_subtract (get_geometry w) clip else clip) upper clip"

fun paint_windows :: "InfiniteDesktop \<Rightarrow> Rect list \<Rightarrow> Window list \<Rightarrow> u32 list \<Rightarrow> u32 list option" where
  "paint_windows d dirtyRegions [] buf = Some buf"
| "paint_windows d dirtyRegions (w # upper) buf =
     (let windowClip = fold clip_add dirtyRegions [];
          windowClip = clip_intersect (get_geometry w) windowClip;
          windowClip = clip_intersect (m_viewport d) windowClip;
          windowClip = subtract_above (get_geometry w) upper windowClip
      in do { buf \<leftarrow> desktop_buf_rect d w windowClip buf; paint_windows d dirtyRegions upper buf })"

definition paint :: "Rect list \<Rightarrow> InfiniteDesktop \<Rightarrow> InfiniteDesktop option" where
  "paint dirtyRegions d = do {
     buf \<leftarrow> paint_background d dirtyRegions (rb_buffer (m_buffer d));
     buf \<leftarrow> paint_windows d dirtyRegions (m_windows d) buf;
     Some (set_buffer buf d)
   }"

definition paint_all :: "InfiniteDesktop \<Rightarrow> InfiniteDesktop option" where
  "paint_all d = paint [m_viewport d] d"

definition paint_window :: "Window \<Rightarrow> InfiniteDesktop \<Rightarrow> InfiniteDesktop option" where
  "paint_window window d =
     (let clip = clip_add (get_geometry window) [];
          clip = clip_intersect (m_viewport d) clip
      in do { buf \<leftarrow> desktop_buf_rect d window clip (rb_buffer (m_buffer d)); Some (set_buffer buf d) })"

definition draw_mouse :: "InfiniteDesktop \<Rightarrow> InfiniteDesktop option" where
  "draw_mouse d = do {
     buf \<leftarrow> buf_rect True (rb_buffer (m_buffer d)) (rb_buffer (m_mouseBuffer d)) (m_mouseRect d) (m_viewport d) (m_viewport d);
     Some (set_buffer buf d)
   }"

definition invalidate_window :: "nat \<Rightarrow> InfiniteDesktop \<Rightarrow> InfiniteDesktop option" where
  "invalidate_window window d =
     (case dropWhile (\<lambda>w. win_id w \<noteq> window) (m_windows d) of
        [] \<Rightarrow> None
      | w # upper \<Rightarrow>
          (let windowClip = clip_add (get_geometry w) [];
               windowClip = clip_intersect (m_viewport d) windowClip;
               windowClip = subtract_above (get_geometry w) upper windowClip
           in do {
             buf \<leftarrow> desktop_buf_rect d w windowClip (rb_buffer (m_buffer d));
             draw_mouse (set_buffer buf d)
           }))"

definition invalidate_windows :: "InfiniteDesktop \<Rightarrow> InfiniteDesktop option" where
  "invalidate_windows d = foldO (\<lambda>w d. invalidate_window (win_id w) d) (m_windows d) d"

definition desktop_fill_rect :: "Rect \<Rightarrow> u32 \<Rightarrow> Rect list \<Rightarrow> InfiniteDesktop \<Rightarrow> InfiniteDesktop option" where
  "desktop_fill_rect fillRect colour clipRects d = do {
     buf \<leftarrow> foldO (\<lambda>clipRect buf. fill_rect False buf (rect_intersect clipRect fillRect) (m_viewport d) colour) clipRects (rb_buffer (m_buffer d));
     Some (set_buffer buf d)
   }"

subsection \<open>Events\<close>

text \<open>The topmost window at the cursor is moved to the end of the list.\<close>

definition raise_window :: "WorldCoord \<Rightarrow> Window list \<Rightarrow> Window list" where
  "raise_window cursor windows =
     (let over = takeWhile (\<lambda>w. \<not> rect_contains (get_geometry w) cursor) (rev windows)
      in case dropWhile (\<lambda>w. \<not> rect_contains (get_geometry w) cursor) (rev windows) of
           [] \<Rightarrow> windows
         | w # lower \<Rightarrow> rev lower @ rev over @ [w])"

definition mouse_press :: "WorldCoord \<Rightarrow> InfiniteDesktop \<Rightarrow> InfiniteDesktop" where
  "mouse_press cursor d =
     (let windows = (if \<not> rect_contains (get_geometry (last (m_windows d))) cursor then raise_window cursor (m_windows d) else m_windows d);
          d = d\<lparr>m_windows := windows\<rparr>;
          winGeo = get_geometry (last windows)
      in if rect_contains winGeo cursor
         then d\<lparr>m_dragWindow := Some (win_id (last windows)), m_dragWindowOffsetX := wc_x cursor - wc_x (coord winGeo),
                m_dragWindowOffsetY := wc_y cursor - wc_y (coord winGeo)\<rparr>
         else d)"

definition mouse_buttons :: "WorldCoord \<Rightarrow> int \<Rightarrow> InfiniteDesktop \<Rightarrow> InfiniteDesktop" where
  "mouse_buttons cursor buttons d =
     (if buttons AND LEFTMB \<noteq> 0 \<and> m_windows d \<noteq> []
      then if m_mouseButtons d AND LEFTMB = 0 then mouse_press cursor d else d
      else d\<lparr>m_dragWindow := None\<rparr>)"

definition mouse_drag :: "WorldCoord \<Rightarrow> InfiniteDesktop \<Rightarrow> InfiniteDesktop option" where
  "mouse_drag cursor d =
     (case m_dragWindow d of
        None \<Rightarrow> Some d
      | Some i \<Rightarrow> do {
          window \<leftarrow> find (\<lambda>w. win_id w = i) (m_windows d);
          let dirty = clip_add (get_geometry window) [];
          let newPos = \<lparr>wc_x = wc_x cursor - m_dragWindowOffsetX d, wc_y = wc_y cursor - m_dragWindowOffsetY d\<rparr>;
          let window = move_window_to newPos window;
          let d = d\<lparr>m_windows := map (\<lambda>w. if win_id w = i then move_window_to newPos w else w) (m_windows d)\<rparr>;
          let dirty = clip_subtract (get_geometry window) dirty;
          let dirty = clip_intersect (m_viewport d) dirty;
          d \<leftarrow> paint_window window d;
          paint dirty d
        })"

definition process_mouse_event :: "ViewportCoord \<Rightarrow> int \<Rightarrow> InfiniteDesktop \<Rightarrow> InfiniteDesktop option" where
  "process_mouse_event vc buttons d = do {
     let cursor = world_coord vc (m_viewport d);
     let d = mouse_buttons cursor buttons d;
     d \<leftarrow> mouse_drag cursor d;
     d \<leftarrow> paint (clip_intersect (m_viewport d) (clip_add (m_mouseRect d) [])) d;
     draw_mouse (d\<lparr>m_mouseRect := (m_mouseRect d)\<lparr>coord := cursor\<rparr>, m_mouseButtons := buttons\<rparr>)
   }"

text \<open>A key goes to the topmost window; without a window, \<open>back()\<close> of the empty list is used.\<close>

definition process_keyboard_event :: "bool \<times> u8 \<Rightarrow> InfiniteDesktop \<Rightarrow> (nat \<times> bool \<times> u8) option" where
  "process_keyboard_event event d = (if m_windows d = [] then None else Some (win_id (last (m_windows d)), event))"

subsection \<open>The picture\<close>

text \<open>What a point of the world looks like: the topmost window that contains it, or the wallpaper.\<close>

definition window_pixel :: "Window \<Rightarrow> WorldCoord \<Rightarrow> u32" where
  "window_pixel w p = rb_buffer (win_context w) ! pos_in (get_geometry w) p"

definition scene_of :: "u32 list \<Rightarrow> Rect \<Rightarrow> Window list \<Rightarrow> WorldCoord \<Rightarrow> u32" where
  "scene_of bg vp ws p =
     (case find (\<lambda>w. rect_contains (get_geometry w) p) (rev ws) of Some w \<Rightarrow> window_pixel w p | None \<Rightarrow> bg ! pos_in vp p)"

definition scene :: "InfiniteDesktop \<Rightarrow> WorldCoord \<Rightarrow> u32" where
  "scene d p = scene_of (rb_buffer (m_bgBuffer d)) (m_viewport d) (m_windows d) p"

definition pixel_at :: "InfiniteDesktop \<Rightarrow> WorldCoord \<Rightarrow> u32" where
  "pixel_at d p = rb_buffer (m_buffer d) ! pos_in (m_viewport d) p"

definition window_ok :: "Window \<Rightarrow> bool" where
  "window_ok w \<longleftrightarrow> positive (get_geometry w) \<and> buffer_size (get_geometry w) \<le> length (rb_buffer (win_context w))"

definition desktop_ok :: "InfiniteDesktop \<Rightarrow> bool" where
  "desktop_ok d \<longleftrightarrow> positive (m_viewport d) \<and> length (rb_buffer (m_buffer d)) = buffer_size (m_viewport d) \<and>
     buffer_size (m_viewport d) \<le> length (rb_buffer (m_bgBuffer d)) \<and> list_all window_ok (m_windows d) \<and>
     positive (m_mouseRect d) \<and> buffer_size (m_mouseRect d) \<le> length (rb_buffer (m_mouseBuffer d)) \<and>
     distinct (map win_id (m_windows d)) \<and>
     m_dragWindow d \<in> insert None (Some ` win_id ` set (m_windows d))"

text \<open>A window that is created while another is dragged lies above the dragged one.\<close>

definition drag_on_top :: "InfiniteDesktop \<Rightarrow> bool" where
  "drag_on_top d \<longleftrightarrow> m_dragWindow d \<in> {None, Some (win_id (last (m_windows d)))}"

definition top_id :: "Window list \<Rightarrow> WorldCoord \<Rightarrow> nat option" where
  "top_id ws p = map_option win_id (find (\<lambda>w. rect_contains (get_geometry w) p) (rev ws))"

lemma mem_region_contains: "p \<in> region r \<longleftrightarrow> rect_contains r p"
  by (simp add: region_def)

lemma scene_of_Nil [simp]: "scene_of bg vp [] p = bg ! pos_in vp p"
  by (simp add: scene_of_def)

lemma scene_of_snoc: "scene_of bg vp (ws @ [w]) p = (if p \<in> region (get_geometry w) then window_pixel w p else scene_of bg vp ws p)"
  by (simp add: scene_of_def mem_region_contains)

text \<open>Drawing a list of clipping rectangles from one source.\<close>

lemma top_id_Nil [simp]: "top_id [] p = None"
  by (simp add: top_id_def)

lemma top_id_snoc: "top_id (ws @ [w]) p = (if p \<in> region (get_geometry w) then Some (win_id w) else top_id ws p)"
  by (simp add: top_id_def mem_region_contains)

lemma foldO_buf_rect:
  assumes len: "length buf = buffer_size vp" and src: "buffer_size rect \<le> length src" and rect: "positive rect"
    and sub: "regions clips \<subseteq> region vp"
  shows "\<exists>buf'. foldO (\<lambda>clip buf. buf_rect False buf src rect clip vp) clips buf = Some buf' \<and> length buf' = length buf \<and>
     (\<forall>p\<in>region vp. buf' ! pos_in vp p = (if p \<in> regions clips \<inter> region rect then src ! pos_in rect p else buf ! pos_in vp p))"
  using len sub
proof (induction clips arbitrary: buf)
  case (Cons c cs)
  have "pixel_of False old new = new" for old new by (simp add: pixel_of_def)
  note buf_rect = buf_rect_ok [where Blend = False, unfolded this]
  have "region rect \<inter> region c \<subseteq> region vp" using Cons.prems(2) by auto
  then obtain b1 where b1: "buf_rect False buf src rect c vp = Some b1" "length b1 = length buf"
    "\<forall>p\<in>region vp. b1 ! pos_in vp p = (if p \<in> region rect \<inter> region c then src ! pos_in rect p else buf ! pos_in vp p)"
    using buf_rect [OF Cons.prems(1) src rect] by blast
  obtain b2 where b2: "foldO (\<lambda>clip buf. buf_rect False buf src rect clip vp) cs b1 = Some b2" "length b2 = length b1"
    "\<forall>p\<in>region vp. b2 ! pos_in vp p = (if p \<in> regions cs \<inter> region rect then src ! pos_in rect p else b1 ! pos_in vp p)"
    using Cons.IH [of b1] Cons.prems b1(2) by auto
  have "b2 ! pos_in vp p = (if p \<in> regions (c # cs) \<inter> region rect then src ! pos_in rect p else buf ! pos_in vp p)"
    if "p \<in> region vp" for p using b1(3) b2(3) that by auto
  then show ?case using b1(1,2) b2(1,2) by auto
qed simp

text \<open>What the clipping regions of \<open>paint\<close> contain.\<close>

lemma fold_clip_add:
  assumes "list_all positive dirty" "list_all positive clips"
  shows "regions (fold clip_add dirty clips) = regions clips \<union> regions dirty \<and> list_all positive (fold clip_add dirty clips)"
  using assms by (induction dirty arbitrary: clips) (simp_all add: clip_add_region Un_ac)

lemma fold_clip_subtract:
  assumes "list_all positive (map g ws)" "list_all positive clips"
  shows "regions clips - regions (map g ws) \<subseteq> regions (fold (\<lambda>w. clip_subtract (g w)) ws clips) \<and>
     regions (fold (\<lambda>w. clip_subtract (g w)) ws clips) \<subseteq> regions clips \<and> list_all positive (fold (\<lambda>w. clip_subtract (g w)) ws clips)"
  using assms
proof (induction ws arbitrary: clips)
  case (Cons w ws)
  note s = clip_subtract_bounds [of "g w" clips]
  show ?case using s Cons.prems Cons.IH [of "clip_subtract (g w) clips"] by auto
qed simp

lemma subtract_above_bounds:
  assumes "list_all (\<lambda>w. positive (get_geometry w)) upper" "list_all positive clips"
  shows "regions clips \<inter> region geo - regions (map get_geometry upper) \<subseteq> regions (subtract_above geo upper clips) \<and>
     regions (subtract_above geo upper clips) \<subseteq> regions clips"
  using assms
proof (induction upper arbitrary: clips)
  case (Cons w ws)
  show ?case
  proof (cases "intersects (get_geometry w) geo")
    case True
    then show ?thesis using clip_subtract_bounds [of "get_geometry w" clips] Cons.prems Cons.IH [of "clip_subtract (get_geometry w) clips"]
      by (auto simp: subtract_above_def)
  next
    case False
    then show ?thesis using Cons by (auto simp: subtract_above_def)
  qed
qed (simp add: subtract_above_def)

subsection \<open>Painting shows the scene\<close>

lemma paint_background_ok:
  assumes ok: "desktop_ok d" and dirty: "list_all positive dirty" and len: "length buf = buffer_size (m_viewport d)"
  shows "\<exists>buf'. paint_background d dirty buf = Some buf' \<and> length buf' = length buf \<and>
     (\<forall>p\<in>region (m_viewport d). p \<notin> regions dirty \<longrightarrow> buf' ! pos_in (m_viewport d) p = buf ! pos_in (m_viewport d) p) \<and>
     (\<forall>p\<in>region (m_viewport d). p \<in> regions dirty \<longrightarrow> p \<notin> regions (map get_geometry (m_windows d)) \<longrightarrow>
        buf' ! pos_in (m_viewport d) p = rb_buffer (m_bgBuffer d) ! pos_in (m_viewport d) p)"
proof -
  let ?vp = "m_viewport d"
  define c1 where "c1 = fold clip_add dirty []"
  define c2 where "c2 = clip_intersect ?vp c1"
  define c3 where "c3 = fold (\<lambda>w. clip_subtract (get_geometry w)) (m_windows d) c2"
  have vp: "positive ?vp" "list_all positive (map get_geometry (m_windows d))"
    using ok by (auto simp: desktop_ok_def window_ok_def list_all_iff)
  have 1: "regions c1 = regions dirty \<and> list_all positive c1" using fold_clip_add [OF dirty, of "[]"] by (simp add: c1_def)
  then have 2: "regions c2 = regions dirty \<inter> region ?vp \<and> list_all positive c2" using clip_intersect_region [OF vp(1), of c1] by (simp add: c2_def)
  have 3: "regions c2 - regions (map get_geometry (m_windows d)) \<subseteq> regions c3" "regions c3 \<subseteq> regions c2"
    using fold_clip_subtract [OF vp(2), of c2] 2 by (simp_all add: c3_def)
  have "regions c3 \<subseteq> region ?vp" using 2 3 by auto
  from foldO_buf_rect [OF len _ vp(1) this, of "rb_buffer (m_bgBuffer d)"] obtain buf' where b:
    "foldO (\<lambda>clip buf. buf_rect False buf (rb_buffer (m_bgBuffer d)) ?vp clip ?vp) c3 buf = Some buf'" "length buf' = length buf"
    "\<forall>p\<in>region ?vp. buf' ! pos_in ?vp p = (if p \<in> regions c3 \<inter> region ?vp then rb_buffer (m_bgBuffer d) ! pos_in ?vp p else buf ! pos_in ?vp p)"
    using ok by (auto simp: desktop_ok_def)
  have "paint_background d dirty buf = Some buf'" using b(1) by (simp add: paint_background_def c1_def c2_def c3_def Let_def)
  moreover have "buf' ! pos_in ?vp p = buf ! pos_in ?vp p" if "p \<in> region ?vp" "p \<notin> regions dirty" for p
    using b(3) that 2 3(2) by auto
  moreover have "buf' ! pos_in ?vp p = rb_buffer (m_bgBuffer d) ! pos_in ?vp p"
    if "p \<in> region ?vp" "p \<in> regions dirty" "p \<notin> regions (map get_geometry (m_windows d))" for p
  proof -
    have "p \<in> regions c3" using that 2 3(1) by auto
    then show ?thesis using b(3) that(1) by simp
  qed
  ultimately show ?thesis using b(2) by blast
qed

lemma window_clip:
  assumes "positive vp" "list_all positive dirty" "positive geo" "list_all (\<lambda>w. positive (get_geometry w)) upper"
  defines "clip \<equiv> subtract_above geo upper (clip_intersect vp (clip_intersect geo (fold clip_add dirty [])))"
  shows "regions clip \<subseteq> regions dirty \<inter> region geo \<inter> region vp"
    and "regions dirty \<inter> region geo \<inter> region vp - regions (map get_geometry upper) \<subseteq> regions clip"
proof -
  define c1 where "c1 = fold clip_add dirty []"
  have 1: "regions c1 = regions dirty \<and> list_all positive c1" using fold_clip_add [OF assms(2), of "[]"] by (simp add: c1_def)
  then have 2: "regions (clip_intersect geo c1) = regions dirty \<inter> region geo \<and> list_all positive (clip_intersect geo c1)"
    using clip_intersect_region [OF assms(3), of c1] by simp
  then have 3: "regions (clip_intersect vp (clip_intersect geo c1)) = regions dirty \<inter> region geo \<inter> region vp \<and>
      list_all positive (clip_intersect vp (clip_intersect geo c1))" using clip_intersect_region [OF assms(1)] by simp
  from subtract_above_bounds [OF assms(4), of "clip_intersect vp (clip_intersect geo c1)" geo] 3
  show "regions clip \<subseteq> regions dirty \<inter> region geo \<inter> region vp"
    "regions dirty \<inter> region geo \<inter> region vp - regions (map get_geometry upper) \<subseteq> regions clip"
    unfolding clip_def c1_def [symmetric] by auto
qed

lemma paint_windows_ok:
  assumes vp: "positive (m_viewport d)" and dirty: "list_all positive dirty" and ws: "list_all window_ok ws2"
    and len: "length buf = buffer_size (m_viewport d)"
    and pre: "\<And>p. p \<in> region (m_viewport d) \<Longrightarrow> p \<in> regions dirty \<Longrightarrow> p \<notin> regions (map get_geometry ws2) \<Longrightarrow>
      buf ! pos_in (m_viewport d) p = scene_of bg (m_viewport d) ws1 p"
  shows "\<exists>buf'. paint_windows d dirty ws2 buf = Some buf' \<and> length buf' = length buf \<and>
     (\<forall>p\<in>region (m_viewport d). buf' ! pos_in (m_viewport d) p =
        (if p \<in> regions dirty then scene_of bg (m_viewport d) (ws1 @ ws2) p else buf ! pos_in (m_viewport d) p))"
  using ws len pre
proof (induction ws2 arbitrary: ws1 buf)
  case (Cons w upper)
  let ?vp = "m_viewport d" and ?geo = "get_geometry w"
  let ?clip = "subtract_above ?geo upper (clip_intersect ?vp (clip_intersect ?geo (fold clip_add dirty [])))"
  have w: "window_ok w" "positive ?geo" "list_all window_ok upper" "list_all (\<lambda>w. positive (get_geometry w)) upper"
    using Cons.prems(1) by (auto simp: window_ok_def list_all_iff)
  note clip = window_clip [OF vp dirty w(2,4)]
  have "regions ?clip \<subseteq> region ?vp" using clip(1) by blast
  from foldO_buf_rect [OF Cons.prems(2) _ w(2) this, of "rb_buffer (win_context w)"] obtain b1 where
    b1: "desktop_buf_rect d w ?clip buf = Some b1" "length b1 = length buf"
    "\<forall>p\<in>region ?vp. b1 ! pos_in ?vp p = (if p \<in> regions ?clip \<inter> region ?geo then window_pixel w p else buf ! pos_in ?vp p)"
    using w(1) by (auto simp: window_ok_def desktop_buf_rect_def window_pixel_def)
  have pre: "b1 ! pos_in ?vp p = scene_of bg ?vp (ws1 @ [w]) p"
    if p: "p \<in> region ?vp" "p \<in> regions dirty" "p \<notin> regions (map get_geometry upper)" for p
  proof (cases "p \<in> region ?geo")
    case True
    then have "p \<in> regions ?clip" using clip(2) p by blast
    then show ?thesis using True b1(3) p(1) by (simp add: scene_of_snoc)
  next
    case False
    then show ?thesis using b1(3) p Cons.prems(3) by (simp add: scene_of_snoc)
  qed
  obtain b2 where b2: "paint_windows d dirty upper b1 = Some b2" "length b2 = length b1"
    "\<forall>p\<in>region ?vp. b2 ! pos_in ?vp p = (if p \<in> regions dirty then scene_of bg ?vp ((ws1 @ [w]) @ upper) p else b1 ! pos_in ?vp p)"
    using Cons.IH [OF w(3), of b1 "ws1 @ [w]"] b1(2) Cons.prems(2) pre by auto
  have "b1 ! pos_in ?vp p = buf ! pos_in ?vp p" if "p \<in> region ?vp" "p \<notin> regions dirty" for p using b1(3) that clip(1) by auto
  then show ?case using b1(1,2) b2 by (simp add: Let_def)
qed auto

lemma paint_ok:
  assumes ok: "desktop_ok d" and dirty: "list_all positive dirty"
  shows "\<exists>buf. paint dirty d = Some (set_buffer buf d) \<and> length buf = buffer_size (m_viewport d) \<and>
     (\<forall>p\<in>region (m_viewport d). buf ! pos_in (m_viewport d) p = (if p \<in> regions dirty then scene d p else pixel_at d p))"
proof -
  let ?vp = "m_viewport d"
  have len: "length (rb_buffer (m_buffer d)) = buffer_size ?vp" and vp: "positive ?vp" and ws: "list_all window_ok (m_windows d)"
    using ok by (simp_all add: desktop_ok_def)
  obtain b1 where b1: "paint_background d dirty (rb_buffer (m_buffer d)) = Some b1" "length b1 = buffer_size ?vp"
    "\<forall>p\<in>region ?vp. p \<notin> regions dirty \<longrightarrow> b1 ! pos_in ?vp p = pixel_at d p"
    "\<forall>p\<in>region ?vp. p \<in> regions dirty \<longrightarrow> p \<notin> regions (map get_geometry (m_windows d)) \<longrightarrow> b1 ! pos_in ?vp p = rb_buffer (m_bgBuffer d) ! pos_in ?vp p"
    using paint_background_ok [OF ok dirty len] len by (auto simp: pixel_at_def)
  obtain b2 where "paint_windows d dirty (m_windows d) b1 = Some b2" "length b2 = length b1"
    "\<forall>p\<in>region ?vp. b2 ! pos_in ?vp p = (if p \<in> regions dirty then scene_of (rb_buffer (m_bgBuffer d)) ?vp ([] @ m_windows d) p else b1 ! pos_in ?vp p)"
    using paint_windows_ok [OF vp dirty ws b1(2), of "rb_buffer (m_bgBuffer d)" "[]"] b1(4) by auto
  then show ?thesis using b1 by (intro exI [of _ b2]) (simp add: paint_def scene_def)
qed

end
