(* ===== verification/WS_Theorems.thy ===== *)
theory WS_Theorems
  imports WS_Desktop
begin

text \<open>
  The window server keeps the picture on the screen: after every mouse event the frame buffer shows the scene,
  the topmost window at each point or the wallpaper, with the cursor blended over it.
\<close>

definition cursor_pixel :: "InfiniteDesktop \<Rightarrow> WorldCoord \<Rightarrow> u32" where
  "cursor_pixel d p = rb_buffer (m_mouseBuffer d) ! pos_in (m_mouseRect d) p"

definition shows_scene_outside :: "Rect \<Rightarrow> InfiniteDesktop \<Rightarrow> bool" where
  "shows_scene_outside r d \<longleftrightarrow> (\<forall>p\<in>region (m_viewport d) - region r. pixel_at d p = scene d p)"

text \<open>
  A client draws in the memory of its window at any time, so that the frame buffer lags behind until the window is
  painted again. \<open>S\<close> are the windows drawn to since; a point is \<open>fresh\<close> when none of these is the topmost there.
\<close>

definition fresh :: "nat set \<Rightarrow> InfiniteDesktop \<Rightarrow> WorldCoord \<Rightarrow> bool" where
  "fresh S d p \<longleftrightarrow> top_id (m_windows d) p \<notin> Some ` S"

definition shows_fresh_outside :: "nat set \<Rightarrow> Rect \<Rightarrow> InfiniteDesktop \<Rightarrow> bool" where
  "shows_fresh_outside S r d \<longleftrightarrow> (\<forall>p\<in>region (m_viewport d) - region r. fresh S d p \<longrightarrow> pixel_at d p = scene d p)"

definition shows_fresh :: "nat set \<Rightarrow> InfiniteDesktop \<Rightarrow> bool" where
  "shows_fresh S d \<longleftrightarrow> (\<forall>p\<in>region (m_viewport d). fresh S d p \<longrightarrow>
     pixel_at d p = (if rect_contains (m_mouseRect d) p then blend (scene d p) (cursor_pixel d p) else scene d p))"

definition shows_scene :: "InfiniteDesktop \<Rightarrow> bool" where
  "shows_scene d \<longleftrightarrow> (\<forall>p\<in>region (m_viewport d).
     pixel_at d p = (if rect_contains (m_mouseRect d) p then blend (scene d p) (cursor_pixel d p) else scene d p))"

lemma shows_scene_outside: "shows_scene d \<Longrightarrow> shows_scene_outside (m_mouseRect d) d"
  by (simp add: shows_scene_def shows_scene_outside_def mem_region_contains)

lemma fresh_empty [simp]: "fresh {} d p"
  by (simp add: fresh_def)

lemma shows_fresh_empty: "shows_scene_outside r d = shows_fresh_outside {} r d" "shows_scene d = shows_fresh {} d"
  by (simp_all add: shows_scene_outside_def shows_fresh_outside_def shows_scene_def shows_fresh_def)

lemma shows_fresh_outside: "shows_fresh S d \<Longrightarrow> shows_fresh_outside S (m_mouseRect d) d"
  by (simp add: shows_fresh_def shows_fresh_outside_def mem_region_contains)

lemma set_buffer_simps [simp]:
  "m_windows (set_buffer b d) = m_windows d" "m_viewport (set_buffer b d) = m_viewport d" "m_bgBuffer (set_buffer b d) = m_bgBuffer d"
  "m_mouseRect (set_buffer b d) = m_mouseRect d" "m_mouseBuffer (set_buffer b d) = m_mouseBuffer d" "m_dragWindow (set_buffer b d) = m_dragWindow d"
  "scene (set_buffer b d) p = scene d p" "pixel_at (set_buffer b d) p = b ! pos_in (m_viewport d) p"
  "cursor_pixel (set_buffer b d) p = cursor_pixel d p" "rb_buffer (m_buffer (set_buffer b d)) = b"
  "fresh S (set_buffer b d) p = fresh S d p" "drag_on_top (set_buffer b d) = drag_on_top d"
  by (simp_all add: set_buffer_def scene_def pixel_at_def cursor_pixel_def fresh_def drag_on_top_def)

lemma desktop_ok_set_buffer: "desktop_ok d \<Longrightarrow> length b = buffer_size (m_viewport d) \<Longrightarrow> desktop_ok (set_buffer b d)"
  by (simp add: desktop_ok_def)

lemma desktop_okD:
  assumes "desktop_ok d"
  shows "positive (m_viewport d)" and "length (rb_buffer (m_buffer d)) = buffer_size (m_viewport d)" and "list_all window_ok (m_windows d)"
    and "positive (m_mouseRect d)" and "buffer_size (m_mouseRect d) \<le> length (rb_buffer (m_mouseBuffer d))"
    and "distinct (map win_id (m_windows d))"
    and "m_dragWindow d = Some i \<Longrightarrow> i \<in> win_id ` set (m_windows d)"
  using assms unfolding desktop_ok_def by auto

lemma draw_mouse_ok:
  assumes ok: "desktop_ok d"
  shows "\<exists>b. draw_mouse d = Some (set_buffer b d) \<and> length b = buffer_size (m_viewport d) \<and>
     (\<forall>p\<in>region (m_viewport d). b ! pos_in (m_viewport d) p =
        (if p \<in> region (m_mouseRect d) then blend (pixel_at d p) (cursor_pixel d p) else pixel_at d p))"
proof -
  have "region (m_mouseRect d) \<inter> region (m_viewport d) \<subseteq> region (m_viewport d)" by simp
  from buf_rect_ok [OF desktop_okD(2,5,4) [OF ok] this, of True] obtain b where
    "buf_rect True (rb_buffer (m_buffer d)) (rb_buffer (m_mouseBuffer d)) (m_mouseRect d) (m_viewport d) (m_viewport d) = Some b"
    "length b = length (rb_buffer (m_buffer d))"
    "\<forall>p\<in>region (m_viewport d). b ! pos_in (m_viewport d) p = (if p \<in> region (m_mouseRect d) \<inter> region (m_viewport d)
       then pixel_of True (rb_buffer (m_buffer d) ! pos_in (m_viewport d) p) (rb_buffer (m_mouseBuffer d) ! pos_in (m_mouseRect d) p)
       else rb_buffer (m_buffer d) ! pos_in (m_viewport d) p)" by blast
  then show ?thesis using desktop_okD(2) [OF ok]
    by (intro exI [of _ b]) (simp add: draw_mouse_def pixel_of_def pixel_at_def cursor_pixel_def)
qed

lemma paint_window_ok:
  assumes ok: "desktop_ok d" and w: "window_ok w"
  shows "\<exists>b. paint_window w d = Some (set_buffer b d) \<and> length b = buffer_size (m_viewport d) \<and>
     (\<forall>p\<in>region (m_viewport d). b ! pos_in (m_viewport d) p = (if p \<in> region (get_geometry w) then window_pixel w p else pixel_at d p))"
proof -
  let ?clip = "clip_intersect (m_viewport d) (clip_add (get_geometry w) [])"
  have g: "positive (get_geometry w)" "buffer_size (get_geometry w) \<le> length (rb_buffer (win_context w))" using w by (simp_all add: window_ok_def)
  have "regions ?clip = region (get_geometry w) \<inter> region (m_viewport d)"
    using clip_add_region [OF g(1), of "[]"] clip_intersect_region [OF desktop_okD(1) [OF ok]] by simp
  then show ?thesis
    using foldO_buf_rect [OF desktop_okD(2) [OF ok] g(2,1), of ?clip] desktop_okD(2) [OF ok]
    by (auto simp: paint_window_def desktop_buf_rect_def pixel_at_def window_pixel_def Let_def)
qed

lemma scene_of_skip: "p \<notin> region (get_geometry w) \<Longrightarrow> scene_of bg vp (ws @ [w] @ vs) p = scene_of bg vp (ws @ vs) p"
proof (induction vs rule: rev_induct)
  case (snoc v vs)
  then show ?case using scene_of_snoc [of bg vp "ws @ [w] @ vs" v p] scene_of_snoc [of bg vp "ws @ vs" v p] by simp
qed (simp add: scene_of_snoc)

lemma top_id_skip: "p \<notin> region (get_geometry w) \<Longrightarrow> top_id (ws @ [w] @ vs) p = top_id (ws @ vs) p"
proof (induction vs rule: rev_induct)
  case (snoc v vs)
  then show ?case using top_id_snoc [of "ws @ [w] @ vs" v p] top_id_snoc [of "ws @ vs" v p] by simp
qed (simp add: top_id_snoc)

subsection \<open>Buttons\<close>

lemma raise_window_cases:
  obtains "raise_window c ws = ws" "\<forall>w\<in>set ws. \<not> rect_contains (get_geometry w) c"
  | xs w ys where "ws = xs @ [w] @ ys" "raise_window c ws = xs @ ys @ [w]" "rect_contains (get_geometry w) c"
proof (cases "dropWhile (\<lambda>w. \<not> rect_contains (get_geometry w) c) (rev ws)")
  case Nil
  then have "raise_window c ws = ws" unfolding raise_window_def Let_def by (simp only: list.case)
  moreover have "\<forall>w\<in>set ws. \<not> rect_contains (get_geometry w) c" using Nil by (simp add: dropWhile_eq_Nil_conv)
  ultimately show ?thesis by (rule that(1))
next
  case (Cons w lower)
  let ?over = "takeWhile (\<lambda>w. \<not> rect_contains (get_geometry w) c) (rev ws)"
  have "rev ws = ?over @ w # lower" using takeWhile_dropWhile_id [of _ "rev ws"] Cons by metis
  then have "ws = rev lower @ [w] @ rev ?over" by (metis append.assoc append_Cons append_Nil rev.simps(2) rev_append rev_rev_ident)
  moreover have "rect_contains (get_geometry w) c" using hd_dropWhile [of "\<lambda>w. \<not> rect_contains (get_geometry w) c" "rev ws"] Cons by simp
  moreover have "raise_window c ws = rev lower @ rev ?over @ [w]" unfolding raise_window_def Let_def Cons by (simp only: list.case)
  ultimately show ?thesis using that(2) by blast
qed

text \<open>Pressing and releasing moves at most the dragged window to the top.\<close>

lemma mouse_buttons_ok:
  fixes c :: WorldCoord and buttons :: int
  assumes ok: "desktop_ok d"
  defines "d' \<equiv> mouse_buttons c buttons d"
  shows "desktop_ok d' \<and> m_viewport d' = m_viewport d \<and> m_mouseRect d' = m_mouseRect d \<and> m_buffer d' = m_buffer d \<and>
     (drag_on_top d \<longrightarrow> drag_on_top d') \<and>
     (\<forall>p. m_dragWindow d' = None \<or> p \<notin> region (get_geometry (last (m_windows d'))) \<longrightarrow>
        scene d' p = scene d p \<and> fresh S d' p = fresh S d p)"
proof (cases "buttons AND LEFTMB \<noteq> 0 \<and> m_windows d \<noteq> [] \<and> m_mouseButtons d AND LEFTMB = 0")
  case False
  then show ?thesis using ok by (auto simp: d'_def mouse_buttons_def desktop_ok_def scene_def fresh_def drag_on_top_def)
next
  case True
  then have ne: "m_windows d \<noteq> []" and d': "d' = mouse_press c d" by (auto simp: d'_def mouse_buttons_def)
  show ?thesis
  proof (cases "rect_contains (get_geometry (last (m_windows d))) c")
    case True
    then show ?thesis using ok ne unfolding d'
      by (auto simp: mouse_press_def desktop_ok_def scene_def fresh_def drag_on_top_def Let_def)
  next
    case False
    show ?thesis
    proof (cases rule: raise_window_cases [of c "m_windows d"])
      case 1
      then show ?thesis using ok ne False unfolding d'
        by (auto simp: mouse_press_def desktop_ok_def scene_def fresh_def drag_on_top_def Let_def)
    next
      case (2 xs w ys)
      have w': "m_windows d' = xs @ ys @ [w]" "m_dragWindow d' = Some (win_id w)"
        using 2 False unfolding d' by (simp_all add: mouse_press_def Let_def)
      moreover have "m_viewport d' = m_viewport d" "m_mouseRect d' = m_mouseRect d" "m_buffer d' = m_buffer d"
        "m_bgBuffer d' = m_bgBuffer d" "m_mouseBuffer d' = m_mouseBuffer d" unfolding d' by (simp_all add: mouse_press_def Let_def)
      moreover have "scene d' p = scene d p" if "p \<notin> region (get_geometry w)" for p
        using scene_of_skip [OF that, of _ _ xs ys] scene_of_snoc [of _ _ "xs @ ys" w p] calculation 2(1) that by (simp add: scene_def)
      moreover have "fresh S d' p = fresh S d p" if "p \<notin> region (get_geometry w)" for p
        using top_id_skip [OF that, of xs ys] top_id_snoc [of "xs @ ys" w p] w' 2(1) that by (simp add: fresh_def)
      moreover have "drag_on_top d'" using w' by (simp add: drag_on_top_def)
      ultimately show ?thesis using ok 2(1) by (auto simp: desktop_ok_def)
    qed
  qed
qed

subsection \<open>Dragging\<close>

lemma move_window_simps [simp]:
  "width (get_geometry (move_window_to c w)) = width (get_geometry w)" "height (get_geometry (move_window_to c w)) = height (get_geometry w)"
  "win_context (move_window_to c w) = win_context w" "win_id (move_window_to c w) = win_id w"
  by (simp_all add: get_geometry_def move_window_to_def)

lemma window_ok_move: "window_ok w \<Longrightarrow> window_ok (move_window_to c w)"
  by (simp add: window_ok_def positive_def buffer_size_def)

lemma map_found_id:
  assumes "distinct (map win_id (ws @ w # vs))"
  shows "map (\<lambda>x. if win_id x = win_id w then f x else x) (ws @ w # vs) = ws @ f w # vs"
    and "find (\<lambda>x. win_id x = win_id w) (ws @ w # vs) = Some w"
proof -
  have "map (\<lambda>x. if win_id x = win_id w then f x else x) xs = xs" if "win_id w \<notin> win_id ` set xs" for xs
    using that by (intro map_idI) (metis imageI)
  then show "map (\<lambda>x. if win_id x = win_id w then f x else x) (ws @ w # vs) = ws @ f w # vs" using assms by simp
  show "find (\<lambda>x. win_id x = win_id w) (ws @ w # vs) = Some w" using assms by (induction ws) auto
qed

text \<open>The region the dragged window leaves.\<close>

lemma drag_dirty:
  assumes "positive vp" "positive old" "positive new"
  defines "dirty \<equiv> clip_intersect vp (clip_subtract new (clip_add old []))"
  shows "regions dirty = (region old - region new) \<inter> region vp" and "list_all positive dirty"
proof -
  have a: "clip_add old [] = [old]" by (simp add: clip_add_def clip_subtract_def clip_subtract_loop.simps)
  have "regions (clip_subtract new [old]) = region old - region new" "list_all positive (clip_subtract new [old])"
    using clip_subtract_exact [OF assms(3), of "[old]"] clip_subtract_bounds [OF assms(3), of "[old]"] assms(2) by simp_all
  then show "regions dirty = (region old - region new) \<inter> region vp" "list_all positive dirty"
    using clip_intersect_region [OF assms(1)] unfolding dirty_def a by simp_all
qed

lemma mouse_drag_ok:
  assumes ok: "desktop_ok d"
  shows "\<exists>d'. mouse_drag c d = Some d' \<and> desktop_ok d' \<and> m_viewport d' = m_viewport d \<and> m_mouseRect d' = m_mouseRect d \<and>
     (drag_on_top d \<longrightarrow> drag_on_top d' \<and>
       ((\<forall>p\<in>region (m_viewport d). p \<notin> R \<longrightarrow> fresh S d p \<longrightarrow>
           m_dragWindow d = None \<or> p \<notin> region (get_geometry (last (m_windows d))) \<longrightarrow> pixel_at d p = scene d p) \<longrightarrow>
        (\<forall>p\<in>region (m_viewport d). p \<notin> R \<longrightarrow> fresh S d' p \<longrightarrow> pixel_at d' p = scene d' p)))"
proof (cases "m_dragWindow d")
  case None
  then show ?thesis using ok by (simp add: mouse_drag_def)
next
  case (Some i)
  let ?vp = "m_viewport d"
  obtain ws w vs where ws: "m_windows d = ws @ w # vs" "i = win_id w"
    using desktop_okD(7) [OF ok Some] by (auto dest: split_list)
  have top: "vs = []" if "drag_on_top d"
    using that desktop_okD(6) [OF ok] by (cases vs rule: rev_cases) (auto simp: drag_on_top_def Some ws)
  define newPos where "newPos = \<lparr>wc_x = wc_x c - m_dragWindowOffsetX d, wc_y = wc_y c - m_dragWindowOffsetY d\<rparr>"
  define w' where "w' = move_window_to newPos w"
  define d1 where "d1 = d\<lparr>m_windows := ws @ w' # vs\<rparr>"
  define dirty where "dirty = clip_intersect ?vp (clip_subtract (get_geometry w') (clip_add (get_geometry w) []))"
  have m: "map (\<lambda>x. if win_id x = i then move_window_to newPos x else x) (m_windows d) = ws @ w' # vs"
    "find (\<lambda>w. win_id w = i) (m_windows d) = Some w"
    using map_found_id(1) [of ws w vs "move_window_to newPos"] map_found_id(2) [of ws w vs] desktop_okD(6) [OF ok]
    unfolding ws w'_def by simp_all
  have wok: "window_ok w" "window_ok w'" using desktop_okD(3) [OF ok] ws window_ok_move by (auto simp: w'_def)
  then have pos: "positive (get_geometry w)" "positive (get_geometry w')" by (simp_all add: window_ok_def)
  have ok1: "desktop_ok d1" using ok wok(2) by (simp add: desktop_ok_def d1_def ws w'_def)
  have dirty: "regions dirty = (region (get_geometry w) - region (get_geometry w')) \<inter> region ?vp" "list_all positive dirty"
    using drag_dirty [OF desktop_okD(1) [OF ok] pos] by (simp_all add: dirty_def)
  obtain b2 where b2: "paint_window w' d1 = Some (set_buffer b2 d1)" "length b2 = buffer_size ?vp"
    "\<forall>p\<in>region ?vp. b2 ! pos_in ?vp p = (if p \<in> region (get_geometry w') then window_pixel w' p else pixel_at d1 p)"
    using paint_window_ok [OF ok1 wok(2)] by (auto simp: d1_def)
  have ok2: "desktop_ok (set_buffer b2 d1)" using desktop_ok_set_buffer [OF ok1] b2(2) by (simp add: d1_def)
  obtain b3 where b3: "paint dirty (set_buffer b2 d1) = Some (set_buffer b3 (set_buffer b2 d1))" "length b3 = buffer_size ?vp"
    "\<forall>p\<in>region ?vp. b3 ! pos_in ?vp p = (if p \<in> regions dirty then scene d1 p else b2 ! pos_in ?vp p)"
    using paint_ok [OF ok2 dirty(2)] by (auto simp: d1_def)
  let ?d = "set_buffer b3 (set_buffer b2 d1)"
  have "b3 ! pos_in ?vp p = scene d1 p"
    if top: "vs = []" and p: "p \<in> region ?vp" "p \<notin> R" "fresh S d1 p"
      and shown: "\<forall>p\<in>region ?vp. p \<notin> R \<longrightarrow> fresh S d p \<longrightarrow>
        m_dragWindow d = None \<or> p \<notin> region (get_geometry (last (m_windows d))) \<longrightarrow> pixel_at d p = scene d p" for p
  proof -
    have scene1: "scene d1 p = (if p \<in> region (get_geometry w') then window_pixel w' p else scene_of (rb_buffer (m_bgBuffer d)) ?vp ws p)"
      "scene d p = (if p \<in> region (get_geometry w) then window_pixel w p else scene_of (rb_buffer (m_bgBuffer d)) ?vp ws p)"
      using top by (simp_all add: scene_def d1_def ws scene_of_snoc)
    show ?thesis
    proof (cases "p \<in> region (get_geometry w) \<or> p \<in> region (get_geometry w')")
      case True
      then show ?thesis using b2(3) b3(3) p(1) dirty(1) scene1(1) by auto
    next
      case False
      then have "b3 ! pos_in ?vp p = pixel_at d p" using b2(3) b3(3) p(1) dirty(1) by (simp add: d1_def pixel_at_def)
      moreover have "fresh S d p" using p(3) False top by (simp add: fresh_def d1_def ws top_id_snoc)
      ultimately show ?thesis using shown p False scene1 top by (simp add: ws)
    qed
  qed
  moreover have "mouse_drag c d = Some ?d"
    using Some m b2(1) b3(1) by (simp add: mouse_drag_def newPos_def [symmetric] w'_def [symmetric] d1_def [symmetric] dirty_def [symmetric] Let_def)
  moreover have "drag_on_top ?d" if "drag_on_top d"
    using top [OF that] Some ws by (simp add: drag_on_top_def d1_def w'_def)
  ultimately show ?thesis using desktop_ok_set_buffer [OF ok2, of b3] b3(2) top by (simp add: d1_def)
qed

text \<open>
  C21: the compositor is correct. On a well formed desktop \<open>paint\<close> stays within the buffers and afterwards every
  point of the viewport in a dirty region has the pixel of the topmost window that contains it, or of the
  wallpaper; all other points keep their pixels.
\<close>

theorem paint_shows_topmost:
  assumes "desktop_ok d" "list_all positive dirty"
  shows "\<exists>d'. paint dirty d = Some d' \<and>
     (\<forall>p. rect_contains (m_viewport d) p \<longrightarrow> pixel_at d' p = (if p \<in> regions dirty then scene d p else pixel_at d p))"
  using paint_ok [OF assms] by (force simp: mem_region_contains)

lemma mouse_event_ok:
  assumes ok: "desktop_ok d"
  shows "\<exists>d'. process_mouse_event vc buttons d = Some d' \<and> desktop_ok d' \<and>
     (drag_on_top d \<longrightarrow> drag_on_top d' \<and> (shows_fresh_outside S (m_mouseRect d) d \<longrightarrow> shows_fresh S d'))"
proof -
  let ?c = "world_coord vc (m_viewport d)" and ?vp = "m_viewport d"
  define d1 where "d1 = mouse_buttons ?c buttons d"
  have d1: "desktop_ok d1" "m_viewport d1 = ?vp" "m_mouseRect d1 = m_mouseRect d" "m_buffer d1 = m_buffer d"
    "drag_on_top d \<longrightarrow> drag_on_top d1"
    "\<And>p. m_dragWindow d1 = None \<or> p \<notin> region (get_geometry (last (m_windows d1))) \<Longrightarrow>
       scene d1 p = scene d p \<and> fresh S d1 p = fresh S d p"
    using mouse_buttons_ok [OF ok, of ?c buttons S] unfolding d1_def by blast+
  obtain d2 where d2: "mouse_drag ?c d1 = Some d2" "desktop_ok d2" "m_viewport d2 = ?vp" "m_mouseRect d2 = m_mouseRect d"
    "drag_on_top d1 \<longrightarrow> drag_on_top d2"
    "drag_on_top d1 \<Longrightarrow> \<forall>p\<in>region ?vp. p \<notin> region (m_mouseRect d) \<longrightarrow> fresh S d1 p \<longrightarrow>
       m_dragWindow d1 = None \<or> p \<notin> region (get_geometry (last (m_windows d1))) \<longrightarrow> pixel_at d1 p = scene d1 p \<Longrightarrow>
     \<forall>p\<in>region ?vp. p \<notin> region (m_mouseRect d) \<longrightarrow> fresh S d2 p \<longrightarrow> pixel_at d2 p = scene d2 p"
    using mouse_drag_ok [OF d1(1), of ?c "region (m_mouseRect d)" S] d1(2,3) by (elim exE conjE) simp
  have shown2: "\<forall>p\<in>region ?vp. p \<notin> region (m_mouseRect d) \<longrightarrow> fresh S d2 p \<longrightarrow> pixel_at d2 p = scene d2 p"
    if "drag_on_top d" "shows_fresh_outside S (m_mouseRect d) d"
  proof (rule d2(6))
    show "\<forall>p\<in>region ?vp. p \<notin> region (m_mouseRect d) \<longrightarrow> fresh S d1 p \<longrightarrow>
       m_dragWindow d1 = None \<or> p \<notin> region (get_geometry (last (m_windows d1))) \<longrightarrow> pixel_at d1 p = scene d1 p"
    proof (intro ballI impI)
      fix p assume p: "p \<in> region ?vp" "p \<notin> region (m_mouseRect d)" "fresh S d1 p"
        and "m_dragWindow d1 = None \<or> p \<notin> region (get_geometry (last (m_windows d1)))"
      then have "scene d1 p = scene d p" "fresh S d p" using d1(6) by blast+
      then show "pixel_at d1 p = scene d1 p"
        using that(2) p d1(2,4) by (simp add: shows_fresh_outside_def pixel_at_def)
    qed
  qed (use d1(5) that in blast)
  let ?dirty = "clip_intersect (m_viewport d2) (clip_add (m_mouseRect d2) [])"
  have dirty: "regions ?dirty = region (m_mouseRect d) \<inter> region ?vp" "list_all positive ?dirty"
    using clip_add_region [OF desktop_okD(4) [OF d2(2)], of "[]"] clip_intersect_region [OF desktop_okD(1) [OF d2(2)]] d2(3,4) by simp_all
  obtain b3 where b3: "paint ?dirty d2 = Some (set_buffer b3 d2)" "length b3 = buffer_size ?vp"
    "\<forall>p\<in>region ?vp. b3 ! pos_in ?vp p = (if p \<in> regions ?dirty then scene d2 p else pixel_at d2 p)"
    using paint_ok [OF d2(2) dirty(2)] d2(3) by auto
  define d4 where "d4 = (set_buffer b3 d2)\<lparr>m_mouseRect := (m_mouseRect d2)\<lparr>coord := ?c\<rparr>, m_mouseButtons := buttons\<rparr>"
  have ok4: "desktop_ok d4" using desktop_ok_set_buffer [OF d2(2), of b3] b3(2) d2(3)
    by (simp add: d4_def desktop_ok_def positive_def buffer_size_def)
  obtain b5 where b5: "draw_mouse d4 = Some (set_buffer b5 d4)" "length b5 = buffer_size ?vp"
    "\<forall>p\<in>region ?vp. b5 ! pos_in ?vp p = (if p \<in> region (m_mouseRect d4) then blend (pixel_at d4 p) (cursor_pixel d4 p) else pixel_at d4 p)"
    using draw_mouse_ok [OF ok4] d2(3) by (auto simp: d4_def)
  have eq: "process_mouse_event vc buttons d = Some (set_buffer b5 d4)"
    using d2(1) b3(1) b5(1) d1(2) d2(3) by (simp add: process_mouse_event_def d1_def [symmetric] d4_def Let_def)
  have vp4: "m_viewport d4 = ?vp" using d2(3) by (simp add: d4_def)
  have "shows_fresh S (set_buffer b5 d4)" if "drag_on_top d" "shows_fresh_outside S (m_mouseRect d) d"
  proof -
    have "pixel_at d4 p = scene d4 p" if "p \<in> region ?vp" "fresh S d4 p" for p
    proof -
      have f: "fresh S d2 p" using that(2) by (simp add: d4_def fresh_def set_buffer_def)
      then have "b3 ! pos_in ?vp p = scene d2 p"
        using b3(3) shown2 [OF \<open>drag_on_top d\<close> \<open>shows_fresh_outside S (m_mouseRect d) d\<close>] that(1) dirty(1) by auto
      then show ?thesis using d2(3) by (simp add: d4_def pixel_at_def scene_def)
    qed
    then show ?thesis using b5(3) vp4 by (simp add: shows_fresh_def mem_region_contains)
  qed
  moreover have "drag_on_top (set_buffer b5 d4)" if "drag_on_top d"
  proof -
    have "drag_on_top d2" using d1(5) d2(5) that by blast
    then show ?thesis by (simp add: d4_def drag_on_top_def set_buffer_def)
  qed
  ultimately show ?thesis using eq desktop_ok_set_buffer [OF ok4, of b5] b5(2) vp4 by simp
qed

text \<open>
  A mouse event keeps the picture. If the frame buffer shows the scene everywhere outside the cursor, then
  after a mouse event, which may raise a window, drag it and move the cursor, the frame buffer shows the new
  scene with the cursor blended over it, and nothing outside the buffers has been read or written.
\<close>

theorem process_mouse_event_shows_scene:
  assumes "desktop_ok d" "drag_on_top d" "shows_scene_outside (m_mouseRect d) d"
  shows "\<exists>d'. process_mouse_event vc buttons d = Some d' \<and> desktop_ok d' \<and> shows_scene d'"
  using mouse_event_ok [OF assms(1), of vc buttons "{}"] assms(2,3) by (auto simp: shows_fresh_empty)

subsection \<open>Examples\<close>

definition plain_window :: "nat \<Rightarrow> int \<Rightarrow> int \<Rightarrow> int \<Rightarrow> int \<Rightarrow> u32 \<Rightarrow> Window" where
  "plain_window i x y w h colour =
     \<lparr>win_id = i, m_worldCoord = \<lparr>wc_x = x, wc_y = y\<rparr>,
      win_context = \<lparr>rb_buffer = replicate (nat (w * h)) colour, rb_width = w, rb_height = h\<rparr>\<rparr>"

definition example_desktop :: InfiniteDesktop where
  "example_desktop =
     (desktop_new \<lparr>rb_buffer = replicate 36 0, rb_width = 6, rb_height = 6\<rparr> \<lparr>rb_buffer = [0], rb_width = 1, rb_height = 1\<rparr>
        (replicate 108 0) 6 6)
     \<lparr>m_windows := [plain_window 0 0 0 6 6 0xA, plain_window 1 2 2 2 2 0xB, plain_window 2 1 0 2 1 0xC]\<rparr>"

lemma length_rgb_to_argb [simp]: "length (rgb_to_argb xs) = length xs div 3"
  by (induction xs rule: rgb_to_argb.induct) simp_all

lemma example_desktop_ok: "desktop_ok example_desktop"
  by (simp add: desktop_ok_def example_desktop_def desktop_new_def plain_window_def positive_def buffer_size_def window_ok_def get_geometry_def)

theorem paint_shows_topmost_witness:
  "\<exists>d'. paint [m_viewport example_desktop] example_desktop = Some d' \<and> pixel_at d' \<lparr>wc_x = 2, wc_y = 0\<rparr> = 0xC"
proof -
  let ?p = "\<lparr>wc_x = 2, wc_y = 0\<rparr>"
  have "list_all positive [m_viewport example_desktop]" using desktop_okD(1) [OF example_desktop_ok] by simp
  from paint_shows_topmost [OF example_desktop_ok this] obtain d' where d': "paint [m_viewport example_desktop] example_desktop = Some d'"
    "\<forall>p. rect_contains (m_viewport example_desktop) p \<longrightarrow>
      pixel_at d' p = (if p \<in> regions [m_viewport example_desktop] then scene example_desktop p else pixel_at example_desktop p)" by blast
  have c: "rect_contains (m_viewport example_desktop) ?p"
    by (simp add: example_desktop_def desktop_new_def rect_contains_def rect_defs)
  then have "pixel_at d' ?p = scene example_desktop ?p" using d'(2) by (simp add: mem_region_contains)
  also have "\<dots> = 0xC"
    by (simp add: scene_def scene_of_def example_desktop_def plain_window_def get_geometry_def rect_contains_def rect_defs window_pixel_def pos_in_def)
  finally show ?thesis using d'(1) by blast
qed

theorem process_mouse_event_shows_scene_witness:
  "\<exists>d d'. paint_all example_desktop = Some d \<and> process_mouse_event \<lparr>vc_x = 3, vc_y = 3\<rparr> 1 d = Some d' \<and> shows_scene d'"
proof -
  let ?vp = "m_viewport example_desktop"
  have "list_all positive [?vp]" using desktop_okD(1) [OF example_desktop_ok] by simp
  from paint_ok [OF example_desktop_ok this] obtain b where b: "paint_all example_desktop = Some (set_buffer b example_desktop)"
    "length b = buffer_size ?vp" "\<forall>p\<in>region ?vp. b ! pos_in ?vp p = scene example_desktop p" by (auto simp: paint_all_def)
  have "desktop_ok (set_buffer b example_desktop)" by (rule desktop_ok_set_buffer [OF example_desktop_ok b(2)])
  moreover have "shows_scene_outside (m_mouseRect (set_buffer b example_desktop)) (set_buffer b example_desktop)"
    using b(3) by (simp add: shows_scene_outside_def)
  ultimately show ?thesis using process_mouse_event_shows_scene [of "set_buffer b example_desktop" "\<lparr>vc_x = 3, vc_y = 3\<rparr>" 1] b(1)
    by (auto simp: drag_on_top_def example_desktop_def desktop_new_def)
qed

text \<open>
  A client that refreshes its window can paint over windows above it: of the four pieces the second window
  leaves of the first, the third window intersects two, and the second of these is skipped by
  \<open>ClipRects::subtract\<close>.
\<close>

lemma example_overdrawn:
  "paint_all example_desktop \<bind> invalidate_window 0 \<bind> (\<lambda>d. Some (pixel_at d \<lparr>wc_x = 2, wc_y = 0\<rparr>, scene d \<lparr>wc_x = 2, wc_y = 0\<rparr>)) =
     Some (0xA, 0xC)"
  by code_simp

text \<open>
  refreshing a window can draw over windows above it. There is a well formed desktop whose frame buffer shows the
  scene and for which \<open>invalidate_window\<close> of the lowest window changes a pixel that belongs to another window.
\<close>

theorem invalidate_window_overdraws:
  "\<exists>d d' p. desktop_ok example_desktop \<and> paint_all example_desktop = Some d \<and> invalidate_window 0 d = Some d' \<and>
     rect_contains (m_viewport d) p \<and> pixel_at d p = scene d p \<and> pixel_at d' p \<noteq> scene d' p"
proof -
  let ?p = "\<lparr>wc_x = 2, wc_y = 0\<rparr>"
  obtain d d' where d: "paint_all example_desktop = Some d" "invalidate_window 0 d = Some d'" "pixel_at d' ?p = 0xA" "scene d' ?p = 0xC"
    using example_overdrawn by (auto simp: bind_eq_Some_conv)
  have "list_all positive [m_viewport example_desktop]" using desktop_okD(1) [OF example_desktop_ok] by simp
  from paint_ok [OF example_desktop_ok this] obtain b where b: "d = set_buffer b example_desktop"
    "\<forall>p\<in>region (m_viewport example_desktop). b ! pos_in (m_viewport example_desktop) p = scene example_desktop p"
    using d(1) by (auto simp: paint_all_def)
  have "?p \<in> region (m_viewport example_desktop)" by (simp add: example_desktop_def desktop_new_def mem_region)
  then have "rect_contains (m_viewport d) ?p \<and> pixel_at d ?p = scene d ?p" using b by (simp add: mem_region_contains)
  then show ?thesis using d example_desktop_ok by (intro exI [of _ d] exI [of _ d'] exI [of _ ?p]) simp
qed

end
