(* ===== verification/IPC_Connection.thy ===== *)
theory IPC_Connection
  imports IPC_Serialisation Pipes_Theorems WS_Theorems
begin

text \<open>
  Connections between processes, \<open>Userspace/Libraries/IPCLib/Connection.h\<close>, over a non-blocking local socket.
  \<open>pread\<close> and \<open>pwrite\<close> are the system calls on the socket and arguments of the definitions; the laws of
  \<^term>\<open>byte_channel\<close> are proved for the kernel's sockets. \<^const>\<open>None\<close> is a loop that does not end while the
  other side does nothing, or a read of bytes that were not received.
\<close>

type_synonym 's pwrite = "byte list \<Rightarrow> 's \<Rightarrow> (nat \<times> 's) option"
type_synonym 's pread = "nat \<Rightarrow> 's \<Rightarrow> (nat \<times> byte list \<times> 's) option"

partial_function (option) force_write_loop :: "'s pwrite \<Rightarrow> byte list \<Rightarrow> nat \<Rightarrow> 's \<Rightarrow> 's option" where
  "force_write_loop pwrite buf totalBytesWritten s =
     (if totalBytesWritten < length buf
      then do { (n, s) \<leftarrow> pwrite (drop totalBytesWritten buf) s; force_write_loop pwrite buf (totalBytesWritten + n) s }
      else Some s)"

definition force_write :: "'s pwrite \<Rightarrow> byte list \<Rightarrow> 's \<Rightarrow> 's option" where
  "force_write pwrite buf s = force_write_loop pwrite buf 0 s"

partial_function (option) force_read_loop :: "'s pread \<Rightarrow> nat \<Rightarrow> byte list \<Rightarrow> 's \<Rightarrow> (byte list \<times> 's) option" where
  "force_read_loop pread sz buf s =
     (if length buf < sz
      then do { (n, bs, s) \<leftarrow> pread (sz - length buf) s; force_read_loop pread sz (buf @ take n bs) s }
      else Some (buf, s))"

definition force_read :: "'s pread \<Rightarrow> nat \<Rightarrow> 's \<Rightarrow> (byte list \<times> 's) option" where
  "force_read pread sz s = force_read_loop pread sz [] s"

text \<open>The packed \<open>MessageHeader\<close>.\<close>

definition message_header_bytes :: "u32 \<Rightarrow> u64 \<Rightarrow> byte list" where
  "message_header_bytes messageId len = le_bytes 4 messageId @ le_bytes 8 len"

definition sizeof_ipc_header :: nat where "sizeof_ipc_header = 12"

definition send_message :: "'s pwrite \<Rightarrow> Message \<Rightarrow> 's \<Rightarrow> 's option" where
  "send_message pwrite m s = do {
     let serialised = serialise m;
     s \<leftarrow> force_write pwrite (message_header_bytes (MessageId m) (of_nat (length serialised))) s;
     force_write pwrite serialised s
   }"

record QueuedMessage =
  messageId :: u32
  qm_message :: DeserialisedData

definition try_to_read_message :: "'s pread \<Rightarrow> QueuedMessage list \<times> 's \<Rightarrow> (bool \<times> QueuedMessage list \<times> 's) option" where
  "try_to_read_message pread = (\<lambda>(unprocessed, s). do {
     (n, bs, s) \<leftarrow> pread sizeof_ipc_header s;
     if n = 0 then Some (False, unprocessed, s)
     else if n < sizeof_ipc_header then None
     else do {
       let i = load_le (take 4 bs);
       let len = unat (load_le (take 8 (drop 4 bs)) :: u64);
       (dataBuffer, s) \<leftarrow> force_read pread len s;
       Some (True, unprocessed @ [\<lparr>messageId = i, qm_message = deserialised dataBuffer\<rparr>], s)
     }
   })"

partial_function (option) read_maximal_messages :: "'s pread \<Rightarrow> QueuedMessage list \<Rightarrow> 's \<Rightarrow> (QueuedMessage list \<times> 's) option" where
  "read_maximal_messages pread unprocessed s = do {
     (more, unprocessed, s) \<leftarrow> try_to_read_message pread (unprocessed, s);
     if more then read_maximal_messages pread unprocessed s else Some (unprocessed, s)
   }"

text \<open>
  The handlers of the messages of an endpoint; a message whose number is not among those of the endpoint is
  dropped. The server's endpoint has the messages 1 and 2, the client's the message 4.
\<close>

definition handle_message :: "u32 list \<Rightarrow> (Message \<Rightarrow> 'h \<Rightarrow> 'h option) \<Rightarrow> QueuedMessage \<Rightarrow> 'h \<Rightarrow> (bool \<times> 'h) option" where
  "handle_message endpoint handler q h =
     (if messageId q \<in> set endpoint
      then do { m \<leftarrow> deserialise (messageId q) (qm_message q); h \<leftarrow> handler m h; Some (True, h) }
      else Some (False, h))"

definition WSEndpoint :: "u32 list" where "WSEndpoint = [1, 2]"
definition ClientEndpoint :: "u32 list" where "ClientEndpoint = [4]"

definition receive_message ::
  "'s pread \<Rightarrow> u32 list \<Rightarrow> (Message \<Rightarrow> 'h \<Rightarrow> 'h option) \<Rightarrow> QueuedMessage list \<Rightarrow> 's \<Rightarrow> 'h \<Rightarrow> ('s \<times> 'h) option" where
  "receive_message pread endpoint handler unprocessed s h = do {
     (unprocessed, s) \<leftarrow> read_maximal_messages pread unprocessed s;
     h \<leftarrow> foldO (\<lambda>q h. do { (_, h) \<leftarrow> handle_message endpoint handler q h; Some h }) unprocessed h;
     Some (s, h)
   }"

text \<open>Waiting for a message with a given number; other messages stay in the queue.\<close>

fun take_message :: "u32 \<Rightarrow> QueuedMessage list \<Rightarrow> (QueuedMessage \<times> QueuedMessage list) option" where
  "take_message i [] = None"
| "take_message i (q # qs) = (if messageId q = i then Some (q, qs) else do { (r, qs) \<leftarrow> take_message i qs; Some (r, q # qs) })"

partial_function (option) get_message_of_type ::
  "'s pread \<Rightarrow> u32 \<Rightarrow> QueuedMessage list \<Rightarrow> 's \<Rightarrow> (Message \<times> QueuedMessage list \<times> 's) option" where
  "get_message_of_type pread i unprocessed s =
     (case take_message i unprocessed of
        Some (q, rest) \<Rightarrow> do { m \<leftarrow> deserialise i (qm_message q); Some (m, rest, s) }
      | None \<Rightarrow> do { (unprocessed, s) \<leftarrow> read_maximal_messages pread unprocessed s; get_message_of_type pread i unprocessed s })"

definition send_and_wait_for_reply ::
  "'s pwrite \<Rightarrow> 's pread \<Rightarrow> Message \<Rightarrow> u32 \<Rightarrow> QueuedMessage list \<Rightarrow> 's \<Rightarrow> (Message \<times> QueuedMessage list \<times> 's) option" where
  "send_and_wait_for_reply pwrite pread m reply unprocessed s = do {
     s \<leftarrow> send_message pwrite m s;
     get_message_of_type pread reply unprocessed s
   }"

text \<open>One side sends and the other reads what has arrived, in any order.\<close>

datatype ipc_op = Send Message | Receive

fun exchange ::
  "'s pwrite \<Rightarrow> 's pread \<Rightarrow> ipc_op list \<Rightarrow> QueuedMessage list \<Rightarrow> 's \<Rightarrow> (QueuedMessage list \<times> 's) option" where
  "exchange pwrite pread [] unprocessed s = Some (unprocessed, s)"
| "exchange pwrite pread (Send m # ops) unprocessed s = do {
     s \<leftarrow> send_message pwrite m s;
     exchange pwrite pread ops unprocessed s
   }"
| "exchange pwrite pread (Receive # ops) unprocessed s = do {
     (unprocessed, s) \<leftarrow> read_maximal_messages pread unprocessed s;
     exchange pwrite pread ops unprocessed s
   }"

subsection \<open>Messages over a byte channel\<close>

definition wire :: "Message \<Rightarrow> byte list" where
  "wire m = message_header_bytes (MessageId m) (of_nat (length (serialise m))) @ serialise m"

definition queued :: "Message \<Rightarrow> QueuedMessage" where
  "queued m = \<lparr>messageId = MessageId m, qm_message = deserialised (serialise m)\<rparr>"

fun sends :: "ipc_op list \<Rightarrow> Message list" where
  "sends [] = []"
| "sends (Send m # ops) = m # sends ops"
| "sends (Receive # ops) = sends ops"

text \<open>Every message fits behind those that have not been read when it is sent.\<close>

fun all_fit :: "nat \<Rightarrow> nat \<Rightarrow> ipc_op list \<Rightarrow> bool" where
  "all_fit capacity used [] \<longleftrightarrow> True"
| "all_fit capacity used (Send m # ops) \<longleftrightarrow>
     used + length (wire m) \<le> capacity \<and> all_fit capacity (used + length (wire m)) ops"
| "all_fit capacity used (Receive # ops) \<longleftrightarrow> all_fit capacity 0 ops"

lemma all_fit_sends: "all_fit capacity used ops \<Longrightarrow> list_all (\<lambda>m. length (wire m) \<le> capacity) (sends ops)"
  by (induction capacity used ops rule: all_fit.induct) simp_all

lemma length_header [simp]: "length (message_header_bytes i n) = 12"
  by (simp add: message_header_bytes_def)

context byte_channel
begin

lemma force_write_ok:
  assumes s: "inv s" and room: "length (contents s) + length buf \<le> capacity"
  shows "\<exists>s'. force_write put buf s = Some s' \<and> inv s' \<and> contents s' = contents s @ buf"
proof (cases "buf = []")
  case True
  then show ?thesis using s by (simp add: force_write_def force_write_loop.simps)
next
  case False
  obtain s' where s': "put buf s = Some (length buf, s')" "inv s'" "contents s' = contents s @ buf"
    using put_total [OF s, of buf] room by auto
  have "force_write put buf s = Some s'"
    using False s'(1) unfolding force_write_def
    by (subst force_write_loop.simps) (simp add: force_write_loop.simps [of _ _ "length buf"])
  then show ?thesis using s' by blast
qed

lemma force_read_ok:
  assumes s: "inv s" and n: "n \<le> length (contents s)"
  shows "\<exists>s'. force_read get n s = Some (take n (contents s), s') \<and> inv s' \<and> contents s' = drop n (contents s)"
proof (cases "n = 0")
  case True
  then show ?thesis using s by (simp add: force_read_def force_read_loop.simps)
next
  case False
  obtain s' where s': "get n s = Some (n, take n (contents s), s')" "inv s'" "contents s' = drop n (contents s)"
    using get_total [OF s, of n] n by (auto simp: min_absorb1)
  have "force_read get n s = Some (take n (contents s), s')"
    using False s'(1) n unfolding force_read_def
    by (subst force_read_loop.simps) (simp add: force_read_loop.simps [of _ _ "take n (contents s)"])
  then show ?thesis using s' by blast
qed

lemma send_message_ok:
  assumes s: "inv s" and room: "length (contents s) + length (wire m) \<le> capacity"
  shows "\<exists>s'. send_message put m s = Some s' \<and> inv s' \<and> contents s' = contents s @ wire m"
proof -
  let ?h = "message_header_bytes (MessageId m) (of_nat (length (serialise m)))"
  obtain s1 where s1: "force_write put ?h s = Some s1" "inv s1" "contents s1 = contents s @ ?h"
    using force_write_ok [OF s, of ?h] room by (auto simp: wire_def)
  obtain s2 where "force_write put (serialise m) s1 = Some s2" "inv s2" "contents s2 = contents s1 @ serialise m"
    using force_write_ok [OF s1(2), of "serialise m"] room s1(3) by (auto simp: wire_def)
  then show ?thesis using s1 by (simp add: send_message_def wire_def Let_def)
qed

lemma try_to_read_ok:
  assumes s: "inv s" and c: "contents s = wire m @ rest" and len: "length (serialise m) < 2 ^ 64"
  shows "\<exists>s'. try_to_read_message get (qs, s) = Some (True, qs @ [queued m], s') \<and> inv s' \<and> contents s' = rest"
proof -
  let ?h = "message_header_bytes (MessageId m) (of_nat (length (serialise m)))"
  obtain s1 where s1: "get 12 s = Some (12, ?h, s1)" "inv s1" "contents s1 = serialise m @ rest"
    using get_total [OF s, of 12] by (auto simp: c wire_def)
  obtain s2 where s2: "force_read get (length (serialise m)) s1 = Some (serialise m, s2)" "inv s2" "contents s2 = rest"
    using force_read_ok [OF s1(2), of "length (serialise m)"] s1(3) by auto
  have "load_le (take 4 ?h) = MessageId m" "unat (load_le (take 8 (drop 4 ?h)) :: u64) = length (serialise m)"
    using len by (simp_all add: message_header_bytes_def load_le_bytes take_bit_word_eq_self unat_of_nat)
  then show ?thesis using s1(1) s2 by (simp add: try_to_read_message_def sizeof_ipc_header_def queued_def Let_def)
qed

lemma read_maximal_ok:
  assumes "inv s" "contents s = concat (map wire ms)" "list_all (\<lambda>m. length (serialise m) < 2 ^ 64) ms"
  shows "\<exists>s'. read_maximal_messages get qs s = Some (qs @ map queued ms, s') \<and> inv s' \<and> contents s' = []"
  using assms
proof (induction ms arbitrary: qs s)
  case Nil
  obtain s' where "get 12 s = Some (0, [], s')" "inv s'" "contents s' = []" using get_total [OF Nil(1), of 12] Nil(2) by auto
  then show ?case by (subst read_maximal_messages.simps) (simp add: try_to_read_message_def sizeof_ipc_header_def)
next
  case (Cons m ms)
  obtain s1 where s1: "try_to_read_message get (qs, s) = Some (True, qs @ [queued m], s1)" "inv s1" "contents s1 = concat (map wire ms)"
    using try_to_read_ok [OF Cons.prems(1), of m "concat (map wire ms)" qs] Cons.prems(2,3) by auto
  have "read_maximal_messages get qs s = read_maximal_messages get (qs @ [queued m]) s1"
    by (subst read_maximal_messages.simps) (simp add: s1(1))
  then show ?case using Cons.IH [OF s1(2,3), of "qs @ [queued m]"] Cons.prems(3) by simp
qed

lemma exchange_ok:
  assumes "inv s" "contents s = concat (map wire ps)" "list_all (\<lambda>m. length (wire m) \<le> capacity) ps"
    and "all_fit capacity (length (contents s)) ops" and "capacity < 2 ^ 64"
  shows "\<exists>arrived waiting s'. exchange put get ops qs s = Some (qs @ map queued arrived, s') \<and> inv s' \<and>
     contents s' = concat (map wire waiting) \<and> ps @ sends ops = arrived @ waiting \<and>
     (ops \<noteq> [] \<and> last ops = Receive \<longrightarrow> waiting = [])"
  using assms(1-4)
proof (induction ops arbitrary: ps qs s)
  case Nil
  then show ?case by (intro exI [of _ "[]"] exI [of _ ps] exI [of _ s]) simp
next
  case (Cons op ops)
  show ?case
  proof (cases op)
    case (Send m)
    obtain s1 where s1: "send_message put m s = Some s1" "inv s1" "contents s1 = contents s @ wire m"
      using send_message_ok [OF Cons.prems(1), of m] Cons.prems(4) Send by auto
    have ps: "contents s1 = concat (map wire (ps @ [m]))" "list_all (\<lambda>m. length (wire m) \<le> capacity) (ps @ [m])"
      "all_fit capacity (length (contents s1)) ops"
      using s1(3) Cons.prems(2-4) Send by auto
    obtain arrived waiting s' where "exchange put get ops qs s1 = Some (qs @ map queued arrived, s')" "inv s'"
      "contents s' = concat (map wire waiting)" "(ps @ [m]) @ sends ops = arrived @ waiting"
      "ops \<noteq> [] \<and> last ops = Receive \<longrightarrow> waiting = []" using Cons.IH [OF s1(2) ps] by blast
    then show ?thesis using Send s1(1)
      by (intro exI [of _ arrived] exI [of _ waiting] exI [of _ s']) auto
  next
    case Receive
    have "length (serialise m) < 2 ^ 64" if "m \<in> set ps" for m
      using that Cons.prems(3) assms(5) by (auto simp: list_all_iff wire_def dest!: bspec)
    then obtain s1 where s1: "read_maximal_messages get qs s = Some (qs @ map queued ps, s1)" "inv s1" "contents s1 = []"
      using read_maximal_ok [OF Cons.prems(1,2), of qs] by (auto simp: list_all_iff)
    obtain arrived waiting s' where "exchange put get ops (qs @ map queued ps) s1 = Some ((qs @ map queued ps) @ map queued arrived, s')"
      "inv s'" "contents s' = concat (map wire waiting)" "[] @ sends ops = arrived @ waiting"
      "ops \<noteq> [] \<and> last ops = Receive \<longrightarrow> waiting = []"
      using Cons.IH [OF s1(2), of "[]" "qs @ map queued ps"] s1(3) Cons.prems(4) Receive by auto
    then show ?thesis using Receive s1(1)
      by (intro exI [of _ "ps @ arrived"] exI [of _ waiting] exI [of _ s']) auto
  qed
qed

text \<open>A header that has arrived in part only.\<close>

lemma partial_header:
  assumes s: "inv s" and c: "contents s \<noteq> []" "length (contents s) < 12"
  shows "try_to_read_message get (qs, s) = None"
  using get_total [OF s, of 12] c by (auto simp: try_to_read_message_def sizeof_ipc_header_def)

end



end
