(* ===== verification/HID_Drivers.thy ===== *)
theory HID_Drivers
  imports Pipes_Theorems IPC_Serialisation
begin

text \<open>
  The drivers of the mouse and the keyboard, \<open>Kernel/Drivers/HID/Mouse.cpp\<close> and \<open>Keyboard.cpp\<close>, and the events of
  \<open>Kernel/API/HID.h\<close>. An interrupt hands over one byte; the mouse driver collects packets of three bytes, the
  keyboard driver queues the scancodes. A kernel thread turns what is queued into events and copies the
  bytes of each event into the circular buffer of every process that has opened the device.

  The two drivers share their device operations, which are the same text in both files. The buffers are in a
  store by address; the store of pipes and listeners and the task manager are the \<open>PipeState\<close>. The thread's pass
  is one critical section, up to the announcement that it is about to block. \<open>pad\<close> is what the padding of an event
  contains. \<^const>\<open>None\<close> is a fault.
\<close>

subsection \<open>Events\<close>

datatype Movement = KEY_DOWN | KEY_UP

record MouseEvent =
  me_dx :: int
  me_dy :: int
  me_buttons :: int

definition mouse_event_bytes :: "byte list \<Rightarrow> MouseEvent \<Rightarrow> byte list" where
  "mouse_event_bytes pad e =
     le_bytes 4 (of_int (me_dx e) :: u32) @ le_bytes 4 (of_int (me_dy e) :: u32) @ [of_int (me_buttons e)] @ pad"

definition sizeof_MouseEvent :: nat where "sizeof_MouseEvent = 12"

definition mouse_event_of_bytes :: "byte list \<Rightarrow> MouseEvent" where
  "mouse_event_of_bytes bs =
     \<lparr>me_dx = sint (load_le (take 4 bs) :: u32), me_dy = sint (load_le (take 4 (drop 4 bs)) :: u32), me_buttons = uint (bs ! 8)\<rparr>"

definition key_event_bytes :: "byte list \<Rightarrow> Movement \<times> u8 \<Rightarrow> byte list" where
  "key_event_bytes pad e = le_bytes 4 (if fst e = KEY_UP then 1 else 0 :: u32) @ [snd e] @ pad"

definition sizeof_KeyboardEvent :: nat where "sizeof_KeyboardEvent = 8"

definition key_event_of_bytes :: "byte list \<Rightarrow> Movement \<times> u8" where
  "key_event_of_bytes bs = (if load_le (take 4 bs) = (1 :: u32) then KEY_UP else KEY_DOWN, bs ! 4)"

subsection \<open>The device operations\<close>

definition HID_BUFFER_SIZE :: nat where "HID_BUFFER_SIZE = 30"

record HidDevice =
  hid_buffers :: "addr list"
  hid_store :: "addr \<rightharpoonup> FixedCircularBuffer"
  hid_eventListenerList :: EventListenerList
  hid_threadId :: TaskID

definition hid_open :: "byte list \<Rightarrow> 'a HidDevice_scheme \<Rightarrow> PipeState \<Rightarrow> addr \<times> 'a HidDevice_scheme \<times> PipeState" where
  "hid_open memory d st =
     (let ds = ps_next st
      in (ds,
          d\<lparr>hid_store := (hid_store d)(ds \<mapsto> cb_new HID_BUFFER_SIZE memory), hid_buffers := hid_buffers d @ [ds]\<rparr>,
          st\<lparr>ps_next := ps_next st + 1\<rparr>))"

definition hid_close :: "addr \<Rightarrow> 'a HidDevice_scheme \<Rightarrow> 'a HidDevice_scheme option" where
  "hid_close ds d =
     (if hid_store d ds = None then None
      else Some (d\<lparr>hid_buffers := remove1 ds (hid_buffers d), hid_store := (hid_store d)(ds := None)\<rparr>))"

definition hid_read :: "nat \<Rightarrow> addr \<Rightarrow> 'a HidDevice_scheme \<Rightarrow> (nat \<times> byte list \<times> 'a HidDevice_scheme) option" where
  "hid_read cnt ds d = do {
     b \<leftarrow> hid_store d ds;
     let (n, bytes, b) = cb_read HID_BUFFER_SIZE cnt b;
     Some (n, bytes, d\<lparr>hid_store := (hid_store d)(ds \<mapsto> b)\<rparr>)
   }"

text \<open>\<open>notify\<close> finds out whether the buffer is readable and then leaves \<open>current\<close> as it was.\<close>

definition hid_notify ::
  "addr option \<Rightarrow> u64 \<Rightarrow> addr \<Rightarrow> 'a HidDevice_scheme \<Rightarrow> PipeState \<Rightarrow> (u64 \<times> addr option \<times> 'a HidDevice_scheme \<times> PipeState) option" where
  "hid_notify listener current ds d st = do {
     b \<leftarrow> hid_store d ds;
     let mask = (if \<not> is_queue_empty b then EVENTS_READABLE else 0);
     let (receipt, ls) = ell_add listener (ps_next st) (hid_eventListenerList d);
     Some (current, receipt, d\<lparr>hid_eventListenerList := ls\<rparr>, st\<lparr>ps_next := ps_next st + 1\<rparr>)
   }"

definition hid_denotify :: "addr option \<Rightarrow> 'a HidDevice_scheme \<Rightarrow> 'a HidDevice_scheme option" where
  "hid_denotify receipt d = do {
     ls \<leftarrow> ell_remove receipt (hid_eventListenerList d);
     Some (d\<lparr>hid_eventListenerList := ls\<rparr>)
   }"

fun write_buffers :: "byte list \<Rightarrow> addr list \<Rightarrow> (addr \<rightharpoonup> FixedCircularBuffer) \<Rightarrow> (addr \<rightharpoonup> FixedCircularBuffer) option" where
  "write_buffers message [] store = Some store"
| "write_buffers message (ds # buffers) store = do {
     b \<leftarrow> store ds;
     write_buffers message buffers (store(ds \<mapsto> snd (cb_write HID_BUFFER_SIZE message b)))
   }"

fun write_messages :: "byte list list \<Rightarrow> addr list \<Rightarrow> (addr \<rightharpoonup> FixedCircularBuffer) \<Rightarrow> (addr \<rightharpoonup> FixedCircularBuffer) option" where
  "write_messages [] buffers store = Some store"
| "write_messages (message # messages) buffers store = do {
     store \<leftarrow> write_buffers message buffers store;
     write_messages messages buffers store
   }"

subsection \<open>The mouse\<close>

record MouseDriver = HidDevice +
  mouse_queuedMessages :: "MouseEvent list"
  mouse_packet :: "u8 list"
  bufferPointer :: nat

definition MOUSE_BUTTONS_MASK :: u8 where "MOUSE_BUTTONS_MASK = 7"

definition mouse_event_of_packet :: "u8 list \<Rightarrow> MouseEvent" where
  "mouse_event_of_packet pk =
     (let mevent = \<lparr>me_dx = 0, me_dy = 0, me_buttons = uint (pk ! 0 AND MOUSE_BUTTONS_MASK)\<rparr>
      in if pk ! 1 \<noteq> 0 \<or> pk ! 2 \<noteq> 0
         then let mevent = mevent\<lparr>me_dx := uint (pk ! 1), me_dy := uint (pk ! 2)\<rparr>;
                  mevent = (if pk ! 0 AND 0x10 \<noteq> 0 then mevent\<lparr>me_dx := me_dx mevent - 0x100\<rparr> else mevent);
                  mevent = (if pk ! 0 AND 0x20 \<noteq> 0 then mevent\<lparr>me_dy := me_dy mevent - 0x100\<rparr> else mevent)
              in mevent\<lparr>me_dy := - me_dy mevent\<rparr>
         else mevent)"

definition mouse_irq_handler :: "u8 \<Rightarrow> u8 \<Rightarrow> MouseDriver \<Rightarrow> PipeState \<Rightarrow> (MouseDriver \<times> PipeState) option" where
  "mouse_irq_handler status data d st =
     (if status AND 0x20 = 0 then Some (d, st)
      else let d = d\<lparr>mouse_packet := (mouse_packet d)[bufferPointer d := data], bufferPointer := (bufferPointer d + 1) mod 3\<rparr>
           in if bufferPointer d = 0 \<and> hid_threadId d \<noteq> 0 \<and> m_isActive (ps_tm st)
              then do {
                let d = d\<lparr>mouse_queuedMessages := mouse_queuedMessages d @ [mouse_event_of_packet (mouse_packet d)]\<rparr>;
                tm \<leftarrow> unblock (hid_threadId d) (ps_tm st);
                Some (d, st\<lparr>ps_tm := tm\<rparr>)
              }
              else Some (d, st))"

definition mouse_receive :: "byte list \<Rightarrow> MouseDriver \<Rightarrow> PipeState \<Rightarrow> (MouseDriver \<times> PipeState) option" where
  "mouse_receive pad d st = do {
     (d, st) \<leftarrow> (if mouse_queuedMessages d \<noteq> []
        then do {
          store \<leftarrow> write_messages (map (mouse_event_bytes pad) (mouse_queuedMessages d)) (hid_buffers d) (hid_store d);
          st \<leftarrow> ell_notify EVENTS_READABLE (hid_eventListenerList d) st;
          Some (d\<lparr>hid_store := store, mouse_queuedMessages := []\<rparr>, st)
        }
        else Some (d, st));
     tm \<leftarrow> about_to_block (ps_tm st);
     Some (d, st\<lparr>ps_tm := tm\<rparr>)
   }"

subsection \<open>The keyboard\<close>

record KeyboardDriver = HidDevice +
  key_queuedMessages :: "u8 list"
  key_extended :: bool

text \<open>The device operations of the keyboard are those of the mouse on its own state.\<close>

definition keyboard_open :: "byte list \<Rightarrow> KeyboardDriver \<Rightarrow> PipeState \<Rightarrow> addr \<times> KeyboardDriver \<times> PipeState" where
  "keyboard_open = hid_open"

definition keyboard_close :: "addr \<Rightarrow> KeyboardDriver \<Rightarrow> KeyboardDriver option" where
  "keyboard_close = hid_close"

definition keyboard_read :: "nat \<Rightarrow> addr \<Rightarrow> KeyboardDriver \<Rightarrow> (nat \<times> byte list \<times> KeyboardDriver) option" where
  "keyboard_read = hid_read"

definition keyboard_notify ::
  "addr option \<Rightarrow> u64 \<Rightarrow> addr \<Rightarrow> KeyboardDriver \<Rightarrow> PipeState \<Rightarrow> (u64 \<times> addr option \<times> KeyboardDriver \<times> PipeState) option" where
  "keyboard_notify = hid_notify"

definition keyboard_denotify :: "addr option \<Rightarrow> KeyboardDriver \<Rightarrow> KeyboardDriver option" where
  "keyboard_denotify = hid_denotify"

definition SCANCODE_S1_MAP :: "u8 list" where
  "SCANCODE_S1_MAP =
     [0, 0x1B, 0x31, 0x32, 0x33, 0x34, 0x35, 0x36, 0x37, 0x38, 0x39, 0x30, 0x2D, 0x3D, 0x08,
      0x09, 0x51, 0x57, 0x45, 0x52, 0x54, 0x59, 0x55, 0x49, 0x4F, 0x50, 0x5B, 0x5D, 0x0D,
      0x11, 0x41, 0x53, 0x44, 0x46, 0x47, 0x48, 0x4A, 0x4B, 0x4C, 0x3B, 0x27, 0x60,
      0, 0x5C, 0x5A, 0x58, 0x43, 0x56, 0x42, 0x4E, 0x4D, 0x2C, 0x2E, 0x2F, 0, 0,
      0, 0x20] @ replicate 70 0"

definition SCANCODE_S1_EXTID :: u8 where "SCANCODE_S1_EXTID = 0xE0"
definition SCANCODE_S1_RELEASEMOD :: u8 where "SCANCODE_S1_RELEASEMOD = 0x80"

definition extended_key :: "u8 \<Rightarrow> u8" where
  "extended_key code =
     (if code = 0x48 then 0x26 else if code = 0x4B then 0x25 else if code = 0x4D then 0x27 else if code = 0x50 then 0x28 else 0)"

fun convert_keys :: "u8 list \<Rightarrow> bool \<Rightarrow> (Movement \<times> u8) list \<Rightarrow> bool \<times> (Movement \<times> u8) list" where
  "convert_keys [] extended eventsOut = (extended, eventsOut)"
| "convert_keys (scancode # scancodes) extended eventsOut =
     (if scancode = SCANCODE_S1_EXTID then convert_keys scancodes True eventsOut
      else let code = scancode AND NOT SCANCODE_S1_RELEASEMOD;
               key = (if extended then extended_key code else SCANCODE_S1_MAP ! unat code);
               movement = (if scancode AND SCANCODE_S1_RELEASEMOD \<noteq> 0 then KEY_UP else KEY_DOWN)
           in convert_keys scancodes False (if key \<noteq> 0 then eventsOut @ [(movement, key)] else eventsOut))"

definition keyboard_irq_handler :: "u8 \<Rightarrow> KeyboardDriver \<Rightarrow> PipeState \<Rightarrow> (KeyboardDriver \<times> PipeState) option" where
  "keyboard_irq_handler scancode d st =
     (if hid_threadId d \<noteq> 0 \<and> m_isActive (ps_tm st)
      then do {
        tm \<leftarrow> unblock (hid_threadId d) (ps_tm st);
        Some (d\<lparr>key_queuedMessages := key_queuedMessages d @ [scancode]\<rparr>, st\<lparr>ps_tm := tm\<rparr>)
      }
      else Some (d, st))"

definition keyboard_receive :: "byte list \<Rightarrow> KeyboardDriver \<Rightarrow> PipeState \<Rightarrow> (KeyboardDriver \<times> PipeState) option" where
  "keyboard_receive pad d st = do {
     (d, st) \<leftarrow> (if key_queuedMessages d \<noteq> []
        then do {
          let (extended, keyEvents) = convert_keys (key_queuedMessages d) (key_extended d) [];
          store \<leftarrow> write_messages (map (key_event_bytes pad) keyEvents) (hid_buffers d) (hid_store d);
          st \<leftarrow> ell_notify EVENTS_READABLE (hid_eventListenerList d) st;
          Some (d\<lparr>hid_store := store, key_queuedMessages := [], key_extended := extended\<rparr>, st)
        }
        else Some (d, st));
     tm \<leftarrow> about_to_block (ps_tm st);
     Some (d, st\<lparr>ps_tm := tm\<rparr>)
   }"

subsection \<open>Decoding\<close>

text \<open>
  The packet of a movement by \<open>dx\<close> to the right and \<open>dy\<close> upwards: the buttons and the signs, then the low bytes.
  A movement by \<open>-256\<close> has the low byte 0.
\<close>

definition mouse_packet_for :: "int \<Rightarrow> int \<Rightarrow> int \<Rightarrow> u8 list" where
  "mouse_packet_for dx dy buttons =
     [of_int buttons OR 8 OR (if dx < 0 then 0x10 else 0) OR (if dy < 0 then 0x20 else 0), of_int dx, of_int dy]"

definition sendable :: "int \<Rightarrow> int \<Rightarrow> int \<Rightarrow> bool" where
  "sendable dx dy buttons \<longleftrightarrow> - 256 \<le> dx \<and> dx < 256 \<and> - 256 \<le> dy \<and> dy < 256 \<and> 0 \<le> buttons \<and> buttons < 8 \<and>
     (dx = 0 \<and> dy = 0 \<or> dx mod 256 \<noteq> 0 \<or> dy mod 256 \<noteq> 0)"

lemma low_byte:
  fixes x :: int
  assumes "- 256 \<le> x" "x < 256"
  shows "uint (of_int x :: u8) = (if x < 0 then x + 256 else x)" "(of_int x :: u8) = 0 \<longleftrightarrow> x mod 256 = 0"
proof -
  have u: "uint (of_int x :: u8) = x mod 256" by (simp add: uint_word_of_int_eq take_bit_eq_mod)
  have "x mod 256 = (if x < 0 then x + 256 else x)"
  proof (cases "x < 0")
    case True
    then have "x mod 256 = (x + 256) mod 256" by simp
    also have "\<dots> = x + 256" using assms True by (intro mod_pos_pos_trivial) auto
    finally show ?thesis using True by simp
  qed (use assms in simp)
  then show "uint (of_int x :: u8) = (if x < 0 then x + 256 else x)" using u by simp
  show "(of_int x :: u8) = 0 \<longleftrightarrow> x mod 256 = 0" using u by (metis uint_0_iff)
qed

lemma packet_flags:
  fixes b :: u8
  assumes "b < 8"
  shows "(b OR 8 OR (if p then 0x10 else 0) OR (if q then 0x20 else 0)) AND 7 = b"
    "(b OR 8 OR (if p then 0x10 else 0) OR (if q then 0x20 else 0)) AND 0x10 \<noteq> 0 \<longleftrightarrow> p"
    "(b OR 8 OR (if p then 0x10 else 0) OR (if q then 0x20 else 0)) AND 0x20 \<noteq> 0 \<longleftrightarrow> q"
proof -
  have "unat b < 8" using assms by (simp add: word_less_nat_alt)
  then have "unat b \<in> {0..<8}" by simp
  then have "b \<in> of_nat ` {0..<8}" by (metis imageI of_nat_unat ucast_id)
  then have "b \<in> {0, 1, 2, 3, 4, 5, 6, 7}" by (auto simp: atLeast0LessThan lessThan_Suc numeral_eq_Suc)
  then show "(b OR 8 OR (if p then 0x10 else 0) OR (if q then 0x20 else 0)) AND 7 = b"
    "(b OR 8 OR (if p then 0x10 else 0) OR (if q then 0x20 else 0)) AND 0x10 \<noteq> 0 \<longleftrightarrow> p"
    "(b OR 8 OR (if p then 0x10 else 0) OR (if q then 0x20 else 0)) AND 0x20 \<noteq> 0 \<longleftrightarrow> q"
    by (auto split: if_splits)
qed

lemma packet_decoded:
  assumes "sendable dx dy buttons"
  shows "mouse_event_of_packet (mouse_packet_for dx dy buttons) = \<lparr>me_dx = dx, me_dy = - dy, me_buttons = buttons\<rparr>"
proof -
  have r: "- 256 \<le> dx" "dx < 256" "- 256 \<le> dy" "dy < 256" "0 \<le> buttons" "buttons < 8"
    "dx = 0 \<and> dy = 0 \<or> dx mod 256 \<noteq> 0 \<or> dy mod 256 \<noteq> 0" using assms by (auto simp: sendable_def)
  have b: "(of_int buttons :: u8) < 8" "uint (of_int buttons :: u8) = buttons"
    using r low_byte(1) [of buttons] by (auto simp: word_less_alt)
  show ?thesis
    using r low_byte [OF r(1,2)] low_byte [OF r(3,4)] packet_flags [OF b(1), of "dx < 0" "dy < 0"] b(2)
    by (auto simp: mouse_event_of_packet_def mouse_packet_for_def MOUSE_BUTTONS_MASK_def Let_def)
qed

fun mouse_irqs :: "(u8 \<times> u8) list \<Rightarrow> MouseDriver \<Rightarrow> PipeState \<Rightarrow> (MouseDriver \<times> PipeState) option" where
  "mouse_irqs [] d st = Some (d, st)"
| "mouse_irqs ((status, b) # irqs) d st = do { (d, st) \<leftarrow> mouse_irq_handler status b d st; mouse_irqs irqs d st }"

text \<open>The bytes that come from the mouse, cut into packets; \<open>part\<close> has been received before.\<close>

definition from_mouse :: "(u8 \<times> u8) list \<Rightarrow> u8 list" where
  "from_mouse irqs = map snd (filter (\<lambda>(status, _). status AND 0x20 \<noteq> 0) irqs)"

lemma from_mouse_simps [simp]:
  "from_mouse [] = []" "from_mouse (xs @ ys) = from_mouse xs @ from_mouse ys"
  "from_mouse ((status, b) # xs) = (if status AND 0x20 = 0 then from_mouse xs else b # from_mouse xs)"
  by (simp_all add: from_mouse_def)

fun assemble :: "u8 list \<Rightarrow> u8 list \<Rightarrow> MouseEvent list" where
  "assemble part [] = []"
| "assemble part (b # bs) =
     (if length part = 2 then mouse_event_of_packet (part @ [b]) # assemble [] bs else assemble (part @ [b]) bs)"

fun partial_packet :: "u8 list \<Rightarrow> u8 list \<Rightarrow> u8 list" where
  "partial_packet part [] = part"
| "partial_packet part (b # bs) = (if length part = 2 then partial_packet [] bs else partial_packet (part @ [b]) bs)"

lemma assemble_append: "assemble part (xs @ ys) = assemble part xs @ assemble (partial_packet part xs) ys"
  by (induction part xs rule: assemble.induct) auto

lemma partial_packet_append [simp]: "partial_packet part (xs @ ys) = partial_packet (partial_packet part xs) ys"
  by (induction part xs rule: assemble.induct) auto

lemma partial_packet_length: "length part < 3 \<Longrightarrow> length (partial_packet part xs) < 3"
  by (induction part xs rule: assemble.induct) auto

lemma assemble_packets:
  "list_all (\<lambda>p. length p = 3) ps \<Longrightarrow> assemble [] (concat ps) = map mouse_event_of_packet ps \<and> partial_packet [] (concat ps) = []"
proof (induction ps)
  case (Cons p ps)
  then obtain a b c where p: "p = [a, b, c]" by (auto simp: length_Suc_conv numeral_eq_Suc)
  have "assemble [] p = [mouse_event_of_packet p]" "partial_packet [] p = []" by (simp_all add: p)
  then show ?case using Cons by (simp add: assemble_append)
qed simp

text \<open>The relation between the bytes received so far and the packet that is being assembled.\<close>

definition packet_state :: "u8 list \<Rightarrow> MouseDriver \<Rightarrow> bool" where
  "packet_state part d \<longleftrightarrow> length (mouse_packet d) = 3 \<and> length part < 3 \<and> bufferPointer d = length part \<and>
     take (length part) (mouse_packet d) = part"

definition irq_frame :: "MouseDriver \<Rightarrow> MouseDriver \<Rightarrow> bool" where
  "irq_frame d d' \<longleftrightarrow> hid_buffers d' = hid_buffers d \<and> hid_store d' = hid_store d \<and>
     hid_eventListenerList d' = hid_eventListenerList d \<and> hid_threadId d' = hid_threadId d"

lemma schedule_group_active: "schedule_group gid s = Some s' \<Longrightarrow> m_isActive s' = m_isActive s"
  by (auto simp: schedule_group_def add_group_to_queue_def set_group_def Let_def split: option.splits if_splits)

lemma unblock_active: "unblock tid s = Some s' \<Longrightarrow> m_isActive s' = m_isActive s"
  by (auto simp: unblock_def Let_def set_task_def set_group_def dest!: schedule_group_active split: option.splits if_splits)

lemma mouse_irq_step:
  assumes p: "packet_state part d" and h: "mouse_irq_handler status b d st = Some (d', st')"
    and a: "hid_threadId d \<noteq> 0" "m_isActive (ps_tm st)"
  shows "packet_state (partial_packet part (from_mouse [(status, b)])) d' \<and> irq_frame d d' \<and>
    mouse_queuedMessages d' = mouse_queuedMessages d @ assemble part (from_mouse [(status, b)])"
proof (cases "status AND 0x20 = 0")
  case True
  then show ?thesis using p h by (auto simp: mouse_irq_handler_def irq_frame_def)
next
  case False
  let ?pk = "(mouse_packet d)[length part := b]"
  have pk: "length (mouse_packet d) = 3" "length part < 3" "take (length part) (mouse_packet d) = part" "bufferPointer d = length part"
    using p by (auto simp: packet_state_def)
  have t: "take (Suc (length part)) ?pk = part @ [b]" using pk by (simp add: take_Suc_conv_app_nth)
  show ?thesis
  proof (cases "length part = 2")
    case True
    then have "?pk = part @ [b]" using t pk(1) by simp
    then show ?thesis using h False a pk True
      by (auto simp: mouse_irq_handler_def irq_frame_def packet_state_def Let_def split: bind_splits)
  next
    case False
    then have "(length part + 1) mod 3 = length part + 1" using pk(2) by simp
    then show ?thesis using h False a pk t
      by (auto simp: mouse_irq_handler_def irq_frame_def packet_state_def Let_def split: if_splits)
  qed
qed

subsection \<open>Delivering events to the readers\<close>

definition hid_contents :: "(addr \<rightharpoonup> FixedCircularBuffer) \<Rightarrow> addr \<Rightarrow> byte list" where
  "hid_contents store ds = (case store ds of None \<Rightarrow> [] | Some b \<Rightarrow> cb_contents HID_BUFFER_SIZE b)"

definition store_ok :: "addr list \<Rightarrow> (addr \<rightharpoonup> FixedCircularBuffer) \<Rightarrow> bool" where
  "store_ok buffers store \<longleftrightarrow> distinct buffers \<and> (\<forall>ds\<in>set buffers. \<exists>b. store ds = Some b \<and> cb_inv HID_BUFFER_SIZE b)"

lemma hid_contents_length: "store_ok buffers store \<Longrightarrow> ds \<in> set buffers \<Longrightarrow> length (hid_contents store ds) \<le> 29"
  using cb_used_less [of HID_BUFFER_SIZE] by (fastforce simp: store_ok_def hid_contents_def HID_BUFFER_SIZE_def)

lemma cb_write_contents:
  assumes "cb_inv HID_BUFFER_SIZE b"
  shows "cb_inv HID_BUFFER_SIZE (snd (cb_write HID_BUFFER_SIZE m b)) \<and>
    cb_contents HID_BUFFER_SIZE (snd (cb_write HID_BUFFER_SIZE m b)) = take 29 (cb_contents HID_BUFFER_SIZE b @ m)"
proof -
  obtain n b' where w: "cb_write HID_BUFFER_SIZE m b = (n, b')" by force
  have "length (cb_contents HID_BUFFER_SIZE b) \<le> 29" using cb_used_less [OF assms] by (simp add: HID_BUFFER_SIZE_def)
  then show ?thesis using cb.put_law [OF assms w] w by (auto simp: HID_BUFFER_SIZE_def min_def)
qed

lemma write_buffers_ok:
  assumes "store_ok buffers store"
  shows "\<exists>store'. write_buffers m buffers store = Some store' \<and> store_ok buffers store' \<and>
    (\<forall>ds\<in>set buffers. hid_contents store' ds = take 29 (hid_contents store ds @ m)) \<and> (\<forall>ds. ds \<notin> set buffers \<longrightarrow> store' ds = store ds)"
  using assms
proof (induction buffers arbitrary: store)
  case (Cons a buffers)
  obtain b where b: "store a = Some b" "cb_inv HID_BUFFER_SIZE b" using Cons.prems by (auto simp: store_ok_def)
  let ?s = "store(a \<mapsto> snd (cb_write HID_BUFFER_SIZE m b))"
  have a: "a \<notin> set buffers" "store_ok buffers ?s" using Cons.prems by (auto simp: store_ok_def)
  from Cons.IH [OF a(2)] obtain store' where s: "write_buffers m buffers ?s = Some store'" "store_ok buffers store'"
    "\<forall>ds\<in>set buffers. hid_contents store' ds = take 29 (hid_contents ?s ds @ m)" "\<forall>ds. ds \<notin> set buffers \<longrightarrow> store' ds = ?s ds" by blast
  have "store' a = ?s a" using s(4) a(1) by blast
  then have "store_ok (a # buffers) store'" "hid_contents store' a = take 29 (hid_contents store a @ m)"
    using s(2) a(1) cb_write_contents [OF b(2), of m] b(1) by (simp_all add: store_ok_def hid_contents_def)
  moreover have "hid_contents ?s ds = hid_contents store ds" if "ds \<in> set buffers" for ds
    using that a(1) by (auto simp: hid_contents_def)
  ultimately show ?case using s b(1) by auto
qed simp

lemma write_messages_ok:
  assumes "store_ok buffers store"
  shows "\<exists>store'. write_messages ms buffers store = Some store' \<and> store_ok buffers store' \<and>
    (\<forall>ds\<in>set buffers. hid_contents store' ds = take 29 (hid_contents store ds @ concat ms)) \<and>
    (\<forall>ds. ds \<notin> set buffers \<longrightarrow> store' ds = store ds)"
  using assms
proof (induction ms arbitrary: store)
  case Nil
  then show ?case using hid_contents_length [OF Nil] by simp
next
  case (Cons m ms)
  from write_buffers_ok [OF Cons.prems, of m] obtain s1 where s1: "write_buffers m buffers store = Some s1" "store_ok buffers s1"
    "\<forall>ds\<in>set buffers. hid_contents s1 ds = take 29 (hid_contents store ds @ m)" "\<forall>ds. ds \<notin> set buffers \<longrightarrow> s1 ds = store ds" by blast
  from Cons.IH [OF s1(2)] obtain s2 where s2: "write_messages ms buffers s1 = Some s2" "store_ok buffers s2"
    "\<forall>ds\<in>set buffers. hid_contents s2 ds = take 29 (hid_contents s1 ds @ concat ms)" "\<forall>ds. ds \<notin> set buffers \<longrightarrow> s2 ds = s1 ds" by blast
  have "take 29 (take 29 (c @ m) @ concat ms) = take 29 (c @ m @ concat ms)" for c :: "byte list"
    by (cases "length (c @ m) \<le> 29") (auto simp: min_def)
  then show ?case using s1 s2 by auto
qed

text \<open>A state in which the thread can make a pass: every open buffer exists, and so do the pipes to be told.\<close>

definition hid_wf :: "'a HidDevice_scheme \<Rightarrow> PipeState \<Rightarrow> bool" where
  "hid_wf d st \<longleftrightarrow> store_ok (hid_buffers d) (hid_store d) \<and> events_wf st \<and> snd ` set (hid_eventListenerList d) \<subseteq> dom (ps_pipes st)"

definition readers_told :: "EventListenerList \<Rightarrow> PipeState \<Rightarrow> PipeState \<Rightarrow> bool" where
  "readers_told ls st st' \<longleftrightarrow> (\<forall>p\<in>snd ` set ls. \<forall>P x. ps_pipes st p = Some P \<longrightarrow> x \<in> snd ` set (m_listeners P) \<longrightarrow>
     interestedEvents x AND EVENTS_READABLE \<noteq> 0 \<longrightarrow> told st' x 0)"

lemma readable_bit: "w AND EVENTS_READABLE \<noteq> 0 \<longleftrightarrow> bit (w AND EVENTS_READABLE) 0"
  by (auto simp: EVENTS_READABLE_def bit_simps and_one_eq odd_iff_mod_2_eq_one)

lemma notify_announce_ok:
  assumes wf: "hid_wf d st" and cur: "m_currentTask (ps_tm st) \<noteq> 0"
  shows "\<exists>st1 tm. ell_notify EVENTS_READABLE (hid_eventListenerList d) st = Some st1 \<and> about_to_block (ps_tm st1) = Some tm \<and>
    informed st (st1\<lparr>ps_tm := tm\<rparr>) \<and> events_wf (st1\<lparr>ps_tm := tm\<rparr>) \<and> readers_told (hid_eventListenerList d) st (st1\<lparr>ps_tm := tm\<rparr>)"
proof -
  have w: "events_wf st" "snd ` set (hid_eventListenerList d) \<subseteq> dom (ps_pipes st)" using wf by (auto simp: hid_wf_def)
  from ell_notify_informs [OF w, of EVENTS_READABLE] obtain st1 where
    st1: "ell_notify EVENTS_READABLE (hid_eventListenerList d) st = Some st1" "informed st st1" "events_wf st1"
    "\<forall>p\<in>snd ` set (hid_eventListenerList d). \<forall>P x k. ps_pipes st p = Some P \<longrightarrow> x \<in> snd ` set (m_listeners P) \<longrightarrow>
       bit (interestedEvents x AND EVENTS_READABLE) k \<longrightarrow> told st1 x k" by blast
  have "tm_reachable (ps_tm st1)" "m_currentTask (ps_tm st1) \<noteq> 0"
    using st1(2,3) cur by (simp_all add: events_wf_def informed_def wakes_def)
  from announce_total [OF this] obtain tm where
    tm: "about_to_block (ps_tm st1) = Some tm" "tm_reachable tm" "wakes (ps_tm st1) tm" by blast
  let ?st = "st1\<lparr>ps_tm := tm\<rparr>"
  have i: "informed st1 ?st" using tm(3) by (auto simp: informed_def)
  have "readers_told (hid_eventListenerList d) st ?st"
    using st1(4) told_informed [OF _ i] readable_bit unfolding readers_told_def by blast
  then show ?thesis using st1(1) tm(1) informed_trans [OF st1(2) i] events_wf_informed [OF st1(3) i] tm(2) by auto
qed

lemma hid_announce_ok:
  assumes wf: "events_wf st" and cur: "m_currentTask (ps_tm st) \<noteq> 0"
  shows "\<exists>tm. about_to_block (ps_tm st) = Some tm \<and> informed st (st\<lparr>ps_tm := tm\<rparr>) \<and> events_wf (st\<lparr>ps_tm := tm\<rparr>)"
proof -
  have "tm_reachable (ps_tm st)" using wf by (simp add: events_wf_def)
  from announce_total [OF this cur] obtain tm where
    tm: "about_to_block (ps_tm st) = Some tm" "tm_reachable tm" "wakes (ps_tm st) tm" by blast
  then have i: "informed st (st\<lparr>ps_tm := tm\<rparr>)" by (auto simp: informed_def)
  then show ?thesis using tm events_wf_informed [OF wf i] by auto
qed

lemma mouse_receive_ok:
  assumes wf: "hid_wf d st" and cur: "m_currentTask (ps_tm st) \<noteq> 0"
  shows "\<exists>d' st'. mouse_receive pad d st = Some (d', st') \<and> hid_wf d' st' \<and> informed st st' \<and> mouse_queuedMessages d' = [] \<and>
    (\<forall>ds\<in>set (hid_buffers d). hid_contents (hid_store d') ds =
       take 29 (hid_contents (hid_store d) ds @ concat (map (mouse_event_bytes pad) (mouse_queuedMessages d)))) \<and>
    (mouse_queuedMessages d \<noteq> [] \<longrightarrow> readers_told (hid_eventListenerList d) st st') \<and>
    d' = d\<lparr>hid_store := hid_store d', mouse_queuedMessages := []\<rparr>"
proof (cases "mouse_queuedMessages d = []")
  case True
  obtain tm where tm: "about_to_block (ps_tm st) = Some tm" "informed st (st\<lparr>ps_tm := tm\<rparr>)" "events_wf (st\<lparr>ps_tm := tm\<rparr>)"
    using hid_announce_ok [OF _ cur] wf by (auto simp: hid_wf_def)
  have "\<forall>ds\<in>set (hid_buffers d). take 29 (hid_contents (hid_store d) ds) = hid_contents (hid_store d) ds"
    using hid_contents_length wf by (auto simp: hid_wf_def)
  then show ?thesis using True tm wf by (auto simp: mouse_receive_def hid_wf_def)
next
  case False
  let ?ms = "map (mouse_event_bytes pad) (mouse_queuedMessages d)"
  have "store_ok (hid_buffers d) (hid_store d)" using wf by (simp add: hid_wf_def)
  from write_messages_ok [OF this, of ?ms] obtain store where
    s: "write_messages ?ms (hid_buffers d) (hid_store d) = Some store" "store_ok (hid_buffers d) store"
    "\<forall>ds\<in>set (hid_buffers d). hid_contents store ds = take 29 (hid_contents (hid_store d) ds @ concat ?ms)" by blast
  from notify_announce_ok [OF wf cur] obtain st1 tm where
    n: "ell_notify EVENTS_READABLE (hid_eventListenerList d) st = Some st1" "about_to_block (ps_tm st1) = Some tm"
    "informed st (st1\<lparr>ps_tm := tm\<rparr>)" "events_wf (st1\<lparr>ps_tm := tm\<rparr>)" "readers_told (hid_eventListenerList d) st (st1\<lparr>ps_tm := tm\<rparr>)" by blast
  then have "ps_pipes st1 = ps_pipes st" by (simp add: informed_def)
  then show ?thesis using False s n wf by (simp add: mouse_receive_def hid_wf_def)
qed

subsection \<open>The mouse as a stream of events\<close>

text \<open>
  What happens to the driver, seen from the process that reads buffer \<open>ds\<close>: interrupts, passes of the thread,
  reads, and the other tasks. \<open>ins\<close> are the interrupts with the bytes they brought, \<open>outs\<close> the bytes that were read.
  A pass finds room for the queued events.
\<close>

definition has_room :: "addr \<Rightarrow> MouseDriver \<Rightarrow> bool" where
  "has_room ds d \<longleftrightarrow> length (hid_contents (hid_store d) ds) + sizeof_MouseEvent * length (mouse_queuedMessages d) < HID_BUFFER_SIZE"

inductive mouse_trace :: "byte list \<Rightarrow> addr \<Rightarrow> MouseDriver \<Rightarrow> (u8 \<times> u8) list \<Rightarrow> byte list \<Rightarrow> MouseDriver \<Rightarrow> bool"
  for pad ds d0 where
  trace_start: "mouse_trace pad ds d0 [] [] d0"
| trace_irq: "mouse_trace pad ds d0 ins outs d \<Longrightarrow> m_isActive (ps_tm st) \<Longrightarrow>
    mouse_irq_handler status b d st = Some (d', st') \<Longrightarrow> mouse_trace pad ds d0 (ins @ [(status, b)]) outs d'"
| trace_pass: "mouse_trace pad ds d0 ins outs d \<Longrightarrow> has_room ds d \<Longrightarrow> hid_wf d st \<Longrightarrow> m_currentTask (ps_tm st) \<noteq> 0 \<Longrightarrow>
    mouse_receive pad d st = Some (d', st') \<Longrightarrow> mouse_trace pad ds d0 ins outs d'"
| trace_read: "mouse_trace pad ds d0 ins outs d \<Longrightarrow> hid_read cnt ds d = Some (n, bytes, d') \<Longrightarrow>
    mouse_trace pad ds d0 ins (outs @ bytes) d'"

lemma concat_event_bytes: "length pad = 3 \<Longrightarrow> length (concat (map (mouse_event_bytes pad) es)) = 12 * length es"
  by (induction es) (auto simp: mouse_event_bytes_def)

lemma hid_read_contents:
  assumes "hid_read cnt ds d = Some (n, bytes, d')" "store_ok (hid_buffers d) (hid_store d)" "ds \<in> set (hid_buffers d)"
  shows "bytes @ hid_contents (hid_store d') ds = hid_contents (hid_store d) ds \<and> bytes = take cnt (hid_contents (hid_store d) ds) \<and>
    store_ok (hid_buffers d) (hid_store d') \<and> d' = d\<lparr>hid_store := hid_store d'\<rparr>"
proof -
  obtain b where b: "hid_store d ds = Some b" "cb_inv HID_BUFFER_SIZE b" using assms(2,3) by (auto simp: store_ok_def)
  obtain k bs b' where r: "cb_read HID_BUFFER_SIZE cnt b = (k, bs, b')" by (metis prod_cases3)
  have d': "bytes = bs" "d' = d\<lparr>hid_store := (hid_store d)(ds \<mapsto> b')\<rparr>" using assms(1) b r by (auto simp: hid_read_def)
  show ?thesis using cb.get_law [OF b(2) r] b assms(2) unfolding d'
    by (auto simp: hid_contents_def store_ok_def min_def)
qed

definition trace_inv :: "byte list \<Rightarrow> addr \<Rightarrow> (u8 \<times> u8) list \<Rightarrow> byte list \<Rightarrow> MouseDriver \<Rightarrow> bool" where
  "trace_inv pad ds ins outs d \<longleftrightarrow> store_ok (hid_buffers d) (hid_store d) \<and> ds \<in> set (hid_buffers d) \<and> hid_threadId d \<noteq> 0 \<and>
     packet_state (partial_packet [] (from_mouse ins)) d \<and>
     outs @ hid_contents (hid_store d) ds @ concat (map (mouse_event_bytes pad) (mouse_queuedMessages d)) =
     concat (map (mouse_event_bytes pad) (assemble [] (from_mouse ins)))"

lemma trace_inv_irq:
  assumes t: "trace_inv pad ds ins outs d" and h: "mouse_irq_handler status b d st = Some (d', st')" "m_isActive (ps_tm st)"
  shows "trace_inv pad ds (ins @ [(status, b)]) outs d'"
proof -
  let ?part = "partial_packet [] (from_mouse ins)"
  have p: "packet_state ?part d" "hid_threadId d \<noteq> 0" using t by (auto simp: trace_inv_def)
  from mouse_irq_step [OF p(1) h(1) p(2) h(2)] have
    s: "packet_state (partial_packet ?part (from_mouse [(status, b)])) d'" "irq_frame d d'"
    "mouse_queuedMessages d' = mouse_queuedMessages d @ assemble ?part (from_mouse [(status, b)])" by auto
  have "assemble [] (from_mouse (ins @ [(status, b)])) = assemble [] (from_mouse ins) @ assemble ?part (from_mouse [(status, b)])"
    by (simp add: assemble_append)
  then show ?thesis using t s unfolding trace_inv_def irq_frame_def
    by (simp only: from_mouse_simps(2) partial_packet_append map_append concat_append append_assoc [symmetric] simp_thms)
qed

lemma trace_inv_pass:
  assumes t: "trace_inv pad ds ins outs d" and room: "has_room ds d" and pad: "length pad = 3"
    and p: "hid_wf d st" "m_currentTask (ps_tm st) \<noteq> 0" "mouse_receive pad d st = Some (d', st')"
  shows "trace_inv pad ds ins outs d'"
proof -
  let ?c = "hid_contents (hid_store d) ds @ concat (map (mouse_event_bytes pad) (mouse_queuedMessages d))"
  have ds: "ds \<in> set (hid_buffers d)" using t by (simp add: trace_inv_def)
  have "length ?c \<le> 29"
    using room concat_event_bytes [OF pad, of "mouse_queuedMessages d"] by (simp add: has_room_def HID_BUFFER_SIZE_def sizeof_MouseEvent_def)
  then have "hid_contents (hid_store d') ds = ?c" "mouse_queuedMessages d' = []" "store_ok (hid_buffers d') (hid_store d')"
    and d': "d' = d\<lparr>hid_store := hid_store d', mouse_queuedMessages := []\<rparr>"
    using mouse_receive_ok [OF p(1,2), of pad] p(3) ds by (auto simp: hid_wf_def)
  moreover have "hid_buffers d' = hid_buffers d" "hid_threadId d' = hid_threadId d"
    "\<And>part. packet_state part d' = packet_state part d"
    by (subst d', simp add: packet_state_def)+
  ultimately show ?thesis using t by (simp add: trace_inv_def)
qed

lemma trace_inv_read:
  assumes t: "trace_inv pad ds ins outs d" and r: "hid_read cnt ds d = Some (n, bytes, d')"
  shows "trace_inv pad ds ins (outs @ bytes) d'"
proof -
  have ds: "store_ok (hid_buffers d) (hid_store d)" "ds \<in> set (hid_buffers d)" using t by (auto simp: trace_inv_def)
  note h = hid_read_contents [OF r ds]
  have d': "d' = d\<lparr>hid_store := hid_store d'\<rparr>" using h by blast
  have "hid_buffers d' = hid_buffers d" "hid_threadId d' = hid_threadId d" "mouse_queuedMessages d' = mouse_queuedMessages d"
    "\<And>part. packet_state part d' = packet_state part d"
    by (subst d', simp add: packet_state_def)+
  moreover have "hid_contents (hid_store d) ds = bytes @ hid_contents (hid_store d') ds" "store_ok (hid_buffers d) (hid_store d')"
    using h by auto
  ultimately show ?thesis using t by (simp add: trace_inv_def)
qed

lemma mouse_trace_inv:
  assumes "mouse_trace pad ds d0 ins outs d" "trace_inv pad ds [] [] d0" "length pad = 3"
  shows "trace_inv pad ds ins outs d"
  using assms(1)
proof induction
  case trace_start
  show ?case by (rule assms(2))
next
  case (trace_irq ins outs d st status b d' st')
  then show ?case using trace_inv_irq by blast
next
  case (trace_pass ins outs d st d' st')
  then show ?case using trace_inv_pass [OF trace_pass.IH] assms(3) by blast
next
  case (trace_read ins outs d cnt n bytes d')
  then show ?case using trace_inv_read by blast
qed

text \<open>The bytes read into an array of events.\<close>

function mouse_events_of :: "byte list \<Rightarrow> MouseEvent list" where
  "mouse_events_of bs =
     (if length bs < sizeof_MouseEvent then [] else mouse_event_of_bytes bs # mouse_events_of (drop sizeof_MouseEvent bs))"
  by auto
termination by (relation "measure length") (auto simp: sizeof_MouseEvent_def)

declare mouse_events_of.simps [simp del]

lemma int_bytes:
  assumes "- (2 ^ 31) \<le> x" "x < 2 ^ 31"
  shows "sint (load_le (le_bytes 4 (of_int x :: u32)) :: u32) = x"
  using assms by (simp add: load_le_bytes take_bit_word_eq_self sint_sbintrunc' signed_take_bit_int_eq_self)

lemma mouse_event_of_bytes_inverse:
  assumes "- 256 \<le> me_dx e" "me_dx e \<le> 256" "- 256 \<le> me_dy e" "me_dy e \<le> 256" "0 \<le> me_buttons e" "me_buttons e < 8"
  shows "mouse_event_of_bytes (mouse_event_bytes pad e @ bs) = e"
proof -
  have "uint (of_int (me_buttons e) :: u8) = me_buttons e" using assms low_byte(1) [of "me_buttons e"] by simp
  moreover have "sint (load_le (le_bytes 4 (of_int (me_dx e) :: u32)) :: u32) = me_dx e"
    "sint (load_le (le_bytes 4 (of_int (me_dy e) :: u32)) :: u32) = me_dy e"
    by (intro int_bytes; use assms in simp)+
  ultimately show ?thesis by (simp add: mouse_event_of_bytes_def mouse_event_bytes_def nth_append)
qed

lemma mouse_events_of_bytes:
  assumes "length pad = 3" "list_all (\<lambda>e. - 256 \<le> me_dx e \<and> me_dx e \<le> 256 \<and> - 256 \<le> me_dy e \<and> me_dy e \<le> 256 \<and>
      0 \<le> me_buttons e \<and> me_buttons e < 8) es"
  shows "mouse_events_of (concat (map (mouse_event_bytes pad) es)) = es"
  using assms(2)
proof (induction es)
  case Nil
  show ?case by (simp add: mouse_events_of.simps sizeof_MouseEvent_def)
next
  case (Cons e es)
  have l: "length (mouse_event_bytes pad e) = sizeof_MouseEvent" using assms(1) by (simp add: mouse_event_bytes_def sizeof_MouseEvent_def)
  show ?case using Cons l mouse_event_of_bytes_inverse [of e]
    by (subst mouse_events_of.simps) simp
qed


definition example_mouse :: MouseDriver where
  "example_mouse = \<lparr>hid_buffers = [7], hid_store = [7 \<mapsto> cb_new HID_BUFFER_SIZE (replicate 30 0)], hid_eventListenerList = [],
     hid_threadId = 1, mouse_queuedMessages = [], mouse_packet = [0, 0, 0], bufferPointer = 0\<rparr>"

lemma example_mouse_store:
  "store_ok (hid_buffers example_mouse) (hid_store example_mouse)" "hid_contents (hid_store example_mouse) 7 = []"
  using cb_new_inv [of 30 "replicate 30 0"] by (simp_all add: example_mouse_def store_ok_def hid_contents_def HID_BUFFER_SIZE_def)

lemma example_mouse_kernel:
  "events_wf (ipc_init example_running)" "m_isActive (ps_tm (ipc_init example_running))" "m_currentTask (ps_tm (ipc_init example_running)) \<noteq> 0"
  "unblock 1 (ps_tm (ipc_init example_running)) \<noteq> None"
  using example_running_reachable
  by (simp_all add: ipc_init_def register_device_def events_wf_def example_running_def example_launched_def unblock_def lookup_defs)


subsection \<open>The keyboard\<close>

text \<open>The scancodes of a key with a plain or an extended code.\<close>

definition key_scancodes :: "Movement \<times> bool \<times> u8 \<Rightarrow> u8 list" where
  "key_scancodes = (\<lambda>(movement, ext, code).
     (if ext then [0xE0] else []) @ [if movement = KEY_UP then code OR SCANCODE_S1_RELEASEMOD else code])"

text \<open>
  The keys of scancode set 1, written out from the layout of the keyboard and not from the driver's table: the rows of keys with
  a character, each with the scancode of its first key, then the control keys and the cursor keys, which have an extended code,
  with their numbers in \<open>ControlKeys\<close> of \<open>Kernel/API/HID.h\<close>. The key with the quotation mark, 0x28, is left out:
  the driver gives it the number of the right arrow.
\<close>

definition key_rows :: "(nat \<times> string) list" where
  "key_rows = [(0x02, ''1234567890-=''), (0x10, ''QWERTYUIOP[]''), (0x1E, ''ASDFGHJKL;''), (0x29, [CHR 0x60]), (0x2B, [CHR 0x5C]),
     (0x2C, ''ZXCVBNM,./''), (0x39, '' '')]"

definition control_keys :: "(nat \<times> u8) list" where
  "control_keys = [(0x01, 0x1B), (0x0E, 0x08), (0x0F, 0x09), (0x1C, 0x0D), (0x1D, 0x11)]"

definition cursor_keys :: "(nat \<times> u8) list" where
  "cursor_keys = [(0x48, 0x26), (0x4B, 0x25), (0x4D, 0x27), (0x50, 0x28)]"

definition plain_keys :: "(nat \<times> u8) list" where
  "plain_keys = control_keys @ concat (map (\<lambda>(start, row). map (apsnd of_char) (enumerate start row)) key_rows)"

definition key_number :: "bool \<Rightarrow> u8 \<Rightarrow> u8 option" where
  "key_number ext code = map_of (if ext then cursor_keys else plain_keys) (unat code)"

definition key_events :: "Movement \<times> bool \<times> u8 \<Rightarrow> (Movement \<times> u8) list" where
  "key_events = (\<lambda>(movement, ext, code). case key_number ext code of Some key \<Rightarrow> [(movement, key)] | None \<Rightarrow> [])"

definition known_code :: "Movement \<times> bool \<times> u8 \<Rightarrow> bool" where
  "known_code = (\<lambda>(_, ext, code). code < 0x80 \<and> code \<noteq> 0x60 \<and> (ext \<or> code \<noteq> 0x28))"

lemma cursor_keys_decoded: "extended_key code = (case key_number True code of Some key \<Rightarrow> key | None \<Rightarrow> 0)"
proof -
  have "unat code = 0x48 \<longleftrightarrow> code = 0x48" "unat code = 0x4B \<longleftrightarrow> code = 0x4B" "unat code = 0x4D \<longleftrightarrow> code = 0x4D" "unat code = 0x50 \<longleftrightarrow> code = 0x50"
    by (simp_all add: word_unat_eq_iff)
  then show ?thesis by (simp add: key_number_def cursor_keys_def extended_key_def)
qed

lemmas key_tables = plain_keys_def control_keys_def cursor_keys_def key_rows_def of_char_Char horner_sum_simps

lemma driver_table:
  "list_all (\<lambda>n. n = 0x28 \<or> SCANCODE_S1_MAP ! n = (case map_of plain_keys n of Some key \<Rightarrow> key | None \<Rightarrow> 0)) (0 # 1 # [2..<128])"
  by (simp add: key_tables SCANCODE_S1_MAP_def)

lemma plain_keys_decoded:
  assumes "code < 0x80" "code \<noteq> 0x28"
  shows "SCANCODE_S1_MAP ! unat code = (case key_number False code of Some key \<Rightarrow> key | None \<Rightarrow> 0)"
proof -
  have n: "unat code < 128" "unat code \<noteq> 0x28" using assms by (auto simp: word_less_nat_alt word_unat_eq_iff)
  have "unat code = 0 \<or> unat code = 1 \<or> unat code \<in> set [2..<128]"
    using n(1) unfolding set_upt atLeastLessThan_iff by arith
  then have "unat code \<in> set (0 # 1 # [2..<128])" unfolding list.set insert_iff .
  then have "unat code = 0x28 \<or> SCANCODE_S1_MAP ! unat code = (case map_of plain_keys (unat code) of Some key \<Rightarrow> key | None \<Rightarrow> 0)"
    by (rule bspec [OF driver_table [unfolded list_all_iff]])
  then show ?thesis using n(2) by (simp add: key_number_def)
qed

lemma key_numbers_nonzero: "list_all (\<lambda>(_, key). key \<noteq> 0) (plain_keys @ cursor_keys)"
  by (simp add: key_tables)

lemma key_number_nonzero: "key_number ext code = Some key \<Longrightarrow> key \<noteq> 0"
  using key_numbers_nonzero by (auto simp: key_number_def list_all_iff dest!: map_of_SomeD split: if_splits)

lemma convert_keys_append:
  "convert_keys (xs @ ys) extended out = (case convert_keys xs extended out of (extended, out) \<Rightarrow> convert_keys ys extended out)"
  by (induction xs extended out rule: convert_keys.induct) (auto simp: Let_def)

lemma flag_bits:
  fixes code m :: u8
  assumes "\<And>n. bit m n \<longleftrightarrow> n = 7" "\<not> bit code 7"
  shows "code AND NOT m = code" "(code OR m) AND NOT m = code" "code AND m = 0" "(code OR m) AND m \<noteq> 0"
proof -
  show "code AND NOT m = code" "(code OR m) AND NOT m = code" "code AND m = 0"
    using assms by (auto intro!: bit_word_eqI simp: bit_and_iff bit_or_iff bit_not_iff)
  have "bit ((code OR m) AND m) 7" using assms by (simp add: bit_and_iff bit_or_iff)
  then show "(code OR m) AND m \<noteq> 0" by auto
qed

lemma release_bits:
  fixes code :: u8
  defines "m \<equiv> SCANCODE_S1_RELEASEMOD"
  assumes "code < 0x80"
  shows "code AND NOT m = code" "(code OR m) AND NOT m = code" "code AND m = 0" "(code OR m) AND m \<noteq> 0"
    "code \<noteq> 0xE0" "code OR m = 0xE0 \<longleftrightarrow> code = 0x60"
proof -
  have "uint code < 128" using assms(2) by (simp add: word_less_alt)
  then have "\<not> bit (uint code) 7" by (simp add: bit_iff_odd)
  then have b: "\<not> bit code 7" by (simp add: bit_uint_iff)
  have e: "bit m n \<longleftrightarrow> n = 7" for n using bit_exp_iff [of 7 n, where 'a = u8] by (auto simp: m_def SCANCODE_S1_RELEASEMOD_def)
  note f = flag_bits [of m, OF e b]
  show "code AND NOT m = code" "(code OR m) AND NOT m = code" "code AND m = 0" "(code OR m) AND m \<noteq> 0" by (fact f)+
  show "code \<noteq> 0xE0" using assms(2) by auto
  have "code = 0x60" if "code OR m = 0xE0" using f(2) unfolding that by (simp add: m_def SCANCODE_S1_RELEASEMOD_def)
  then show "code OR m = 0xE0 \<longleftrightarrow> code = 0x60" by (auto simp: m_def SCANCODE_S1_RELEASEMOD_def)
qed

lemma convert_key:
  assumes "known_code (movement, ext, code)"
  shows "convert_keys (key_scancodes (movement, ext, code) @ rest) False out =
    convert_keys rest False (out @ key_events (movement, ext, code))"
proof -
  have c: "code < 0x80" "code \<noteq> 0x60" "\<not> ext \<Longrightarrow> code \<noteq> 0x28" using assms by (auto simp: known_code_def)
  have "(if ext then extended_key code else SCANCODE_S1_MAP ! unat code) = (case key_number ext code of Some key \<Rightarrow> key | None \<Rightarrow> 0)"
    using cursor_keys_decoded plain_keys_decoded [OF c(1)] c(3) by auto
  then show ?thesis using c release_bits [OF c(1)] key_number_nonzero [of ext code]
    by (cases movement) (auto simp: key_scancodes_def key_events_def SCANCODE_S1_EXTID_def Let_def split: option.splits if_splits)
qed

lemma convert_key_list:
  assumes "list_all known_code ks"
  shows "convert_keys (concat (map key_scancodes ks)) False out = (False, out @ concat (map key_events ks))"
  using assms
proof (induction ks arbitrary: out)
  case (Cons k ks)
  obtain movement ext code where "k = (movement, ext, code)" by (metis prod_cases3)
  then show ?case using Cons convert_key [of movement ext code] by simp
qed simp

lemma convert_batches:
  "fold (\<lambda>batch (extended, out). convert_keys batch extended out) batches (extended, out) = convert_keys (concat batches) extended out"
  by (induction batches arbitrary: extended out) (auto simp: convert_keys_append split: prod.splits)



text \<open>The key with the quotation mark and the right arrow are the same key to a program.\<close>

lemma quote_is_right_arrow: "convert_keys [0x28] False [] = (False, [(KEY_DOWN, 0x27)])" "convert_keys [0xE0, 0x4D] False [] = (False, [(KEY_DOWN, 0x27)])"
  by (simp_all add: SCANCODE_S1_EXTID_def SCANCODE_S1_RELEASEMOD_def SCANCODE_S1_MAP_def extended_key_def Let_def)

text \<open>Of three movements that arrive between two reads the last is cut off after five bytes.\<close>

lemma third_event_torn:
  assumes "hid_wf d st" "m_currentTask (ps_tm st) \<noteq> 0" "ds \<in> set (hid_buffers d)" "hid_contents (hid_store d) ds = []"
    and "mouse_queuedMessages d = [e1, e2, e3]" "length pad = 3"
  shows "\<exists>d' st'. mouse_receive pad d st = Some (d', st') \<and>
    hid_contents (hid_store d') ds = mouse_event_bytes pad e1 @ mouse_event_bytes pad e2 @ take 5 (mouse_event_bytes pad e3)"
proof -
  have "length (mouse_event_bytes pad e) = 12" for e using assms(6) by (simp add: mouse_event_bytes_def)
  then show ?thesis using mouse_receive_ok [OF assms(1,2), of pad] assms(3-5) by (auto simp: numeral_eq_Suc)
qed

text \<open>A movement of 256 to the left alone is lost: both low bytes are 0.\<close>

lemma left_256_lost: "mouse_event_of_packet (mouse_packet_for (- 256) 0 0) = \<lparr>me_dx = 0, me_dy = 0, me_buttons = 0\<rparr>"
  by (simp add: mouse_event_of_packet_def mouse_packet_for_def MOUSE_BUTTONS_MASK_def)

lemma mouse_irq_ok:
  assumes wf: "events_wf st" and t: "launched (ps_tm st) (hid_threadId d)"
  shows "\<exists>d' st'. mouse_irq_handler status b d st = Some (d', st') \<and> events_wf st' \<and> informed st st' \<and>
    m_isActive (ps_tm st') = m_isActive (ps_tm st) \<and>
    (length (mouse_queuedMessages d) < length (mouse_queuedMessages d') \<longrightarrow>
       (\<exists>gid. is_ready (m_taskHashmap (ps_tm st')) gid (hid_threadId d)))"
proof -
  have r: "tm_reachable (ps_tm st)" using wf by (simp add: events_wf_def)
  obtain tm where tm: "unblock (hid_threadId d) (ps_tm st) = Some tm" "tm_reachable tm" "wakes (ps_tm st) tm"
    "\<exists>gid. is_ready (m_taskHashmap tm) gid (hid_threadId d)"
    using unblock_all_reachable [OF r, of "[hid_threadId d]"] t by (auto split: option.splits)
  then have i: "informed st (st\<lparr>ps_tm := tm\<rparr>)" by (auto simp: informed_def)
  then have "events_wf (st\<lparr>ps_tm := tm\<rparr>)" using events_wf_informed [OF wf i] tm(2) by simp
  then show ?thesis using wf i tm unblock_active [OF tm(1)] by (auto simp: mouse_irq_handler_def Let_def)
qed

lemma mouse_irqs_ok:
  assumes "events_wf st" "launched (ps_tm st) (hid_threadId d)" "packet_state part d" "hid_threadId d \<noteq> 0" "m_isActive (ps_tm st)"
  shows "\<exists>d' st'. mouse_irqs irqs d st = Some (d', st') \<and> events_wf st' \<and> informed st st' \<and> irq_frame d d' \<and>
    mouse_queuedMessages d' = mouse_queuedMessages d @ assemble part (from_mouse irqs) \<and>
    (assemble part (from_mouse irqs) \<noteq> [] \<longrightarrow> (\<exists>gid. is_ready (m_taskHashmap (ps_tm st')) gid (hid_threadId d)))"
  using assms
proof (induction irqs arbitrary: d st part)
  case Nil
  then show ?case by (simp add: irq_frame_def)
next
  case (Cons irq irqs)
  obtain status b where irq: "irq = (status, b)" by force
  from mouse_irq_ok [OF Cons.prems(1,2), of status b] obtain d1 st1 where
    h: "mouse_irq_handler status b d st = Some (d1, st1)" "events_wf st1" "informed st st1" "m_isActive (ps_tm st1)"
    "length (mouse_queuedMessages d) < length (mouse_queuedMessages d1) \<longrightarrow> (\<exists>gid. is_ready (m_taskHashmap (ps_tm st1)) gid (hid_threadId d))"
    using Cons.prems(5) by auto
  let ?part = "partial_packet part (from_mouse [(status, b)])"
  have p: "packet_state ?part d1" "irq_frame d d1"
    "mouse_queuedMessages d1 = mouse_queuedMessages d @ assemble part (from_mouse [(status, b)])"
    using mouse_irq_step [OF Cons.prems(3) h(1) Cons.prems(4,5)] by auto
  have w: "wakes (ps_tm st) (ps_tm st1)" "hid_threadId d1 = hid_threadId d" using h(3) p(2) by (simp_all add: informed_def irq_frame_def)
  from Cons.IH [OF h(2) _ p(1) _ h(4)] obtain d2 st2 where
    r: "mouse_irqs irqs d1 st1 = Some (d2, st2)" "events_wf st2" "informed st1 st2" "irq_frame d1 d2"
    "mouse_queuedMessages d2 = mouse_queuedMessages d1 @ assemble ?part (from_mouse irqs)"
    "assemble ?part (from_mouse irqs) \<noteq> [] \<longrightarrow> (\<exists>gid. is_ready (m_taskHashmap (ps_tm st2)) gid (hid_threadId d))"
    using w wakes_started [OF w(1) Cons.prems(2)] Cons.prems(4) by auto
  have a: "assemble part (from_mouse (irq # irqs)) = assemble part (from_mouse [(status, b)]) @ assemble ?part (from_mouse irqs)"
    using assemble_append [of part "from_mouse [(status, b)]" "from_mouse irqs"] irq by auto
  have "\<exists>gid. is_ready (m_taskHashmap (ps_tm st2)) gid (hid_threadId d)" if "assemble part (from_mouse [(status, b)]) \<noteq> []"
    using h(5) p(3) that wakes_ready r(3) by (fastforce simp: informed_def)
  moreover have "mouse_irqs (irq # irqs) d st = Some (d2, st2)" using h(1) r(1) irq by simp
  moreover have "irq_frame d d2" using p(2) r(4) by (simp add: irq_frame_def)
  ultimately show ?case using r informed_trans [OF h(3) r(3)] p(3) a by auto
qed

text \<open>One packet from an idle mouse: the thread is woken, its pass fills the buffer of a reader, and the reader gets the event.\<close>

lemma one_packet_ok:
  assumes wf: "hid_wf d st" and t: "launched (ps_tm st) (hid_threadId d)" "hid_threadId d \<noteq> 0" "m_isActive (ps_tm st)" "m_currentTask (ps_tm st) \<noteq> 0"
    and d: "packet_state [] d" "mouse_queuedMessages d = []" "ds \<in> set (hid_buffers d)" "hid_contents (hid_store d) ds = []"
    and m: "sendable dx dy buttons" and pad: "length pad = 3" and irqs: "from_mouse irqs = mouse_packet_for dx dy buttons"
  shows "\<exists>d1 st1 d2 st2 bytes d3. mouse_irqs irqs d st = Some (d1, st1) \<and>
    (\<exists>gid. is_ready (m_taskHashmap (ps_tm st1)) gid (hid_threadId d)) \<and> mouse_receive pad d1 st1 = Some (d2, st2) \<and>
    readers_told (hid_eventListenerList d) st1 st2 \<and> hid_read 120 ds d2 = Some (12, bytes, d3) \<and>
    mouse_events_of bytes = [\<lparr>me_dx = dx, me_dy = - dy, me_buttons = buttons\<rparr>]"
proof -
  let ?e = "\<lparr>me_dx = dx, me_dy = - dy, me_buttons = buttons\<rparr>"
  have a: "assemble [] (from_mouse irqs) = [?e]"
    using packet_decoded [OF m] unfolding irqs by (simp add: mouse_packet_for_def)
  have ev: "events_wf st" using wf by (simp add: hid_wf_def)
  from mouse_irqs_ok [OF ev t(1) d(1) t(2,3), of irqs] obtain d1 st1 where
    s1: "mouse_irqs irqs d st = Some (d1, st1)" "events_wf st1" "informed st st1" "irq_frame d d1" "mouse_queuedMessages d1 = [?e]"
    "\<exists>gid. is_ready (m_taskHashmap (ps_tm st1)) gid (hid_threadId d)" using a d(2) by auto
  have wf1: "hid_wf d1 st1" "m_currentTask (ps_tm st1) \<noteq> 0"
    using wf s1(2-4) t(4) by (simp_all add: hid_wf_def irq_frame_def informed_def wakes_def)
  have f: "hid_buffers d1 = hid_buffers d" "hid_store d1 = hid_store d" "hid_eventListenerList d1 = hid_eventListenerList d"
    using s1(4) by (simp_all add: irq_frame_def)
  have len: "length (mouse_event_bytes pad ?e) = 12" using pad by (simp add: mouse_event_bytes_def)
  from mouse_receive_ok [OF wf1, of pad] obtain d2 st2 where
    s2: "mouse_receive pad d1 st1 = Some (d2, st2)" "hid_wf d2 st2" "d2 = d1\<lparr>hid_store := hid_store d2, mouse_queuedMessages := []\<rparr>"
    "hid_contents (hid_store d2) ds = mouse_event_bytes pad ?e" "readers_told (hid_eventListenerList d) st1 st2"
    using s1(5) f d(3,4) len by auto
  have b2: "ds \<in> set (hid_buffers d2)" by (subst s2(3)) (simp add: f d(3))
  have ok2: "store_ok (hid_buffers d2) (hid_store d2)" using s2(2) by (simp add: hid_wf_def)
  obtain b where b: "hid_store d2 ds = Some b" "cb_inv HID_BUFFER_SIZE b" using ok2 b2 by (auto simp: store_ok_def)
  obtain n bytes b' where r: "cb_read HID_BUFFER_SIZE 120 b = (n, bytes, b')" by (metis prod_cases3)
  have c: "cb_contents HID_BUFFER_SIZE b = mouse_event_bytes pad ?e" using s2(4) b(1) by (simp add: hid_contents_def)
  then have "n = 12" "bytes = mouse_event_bytes pad ?e" using cb.get_law [OF b(2) r] len by (simp_all add: c)
  then have "hid_read 120 ds d2 = Some (12, bytes, d2\<lparr>hid_store := (hid_store d2)(ds \<mapsto> b')\<rparr>)" "mouse_events_of bytes = [?e]"
    using b(1) r mouse_events_of_bytes [OF pad, of "[?e]"] m by (simp_all add: hid_read_def sendable_def)
  then show ?thesis using s1(1,6) s2(1,5) by blast
qed

end
