(* ===== verification/WS_Server.thy ===== *)
theory WS_Server
  imports IPC_Connection HID_Drivers
begin

text \<open>
  The message handlers of the window server, \<open>Userspace/System/WindowServer/Server.cpp\<close>, and the server as a state
  machine. A connection is identified by a number, which stands for its address; \<open>framebuffer\<close> gives the pixels
  of the shared memory a context opens under a name, of the length it asks for.
\<close>

record WindowServer =
  ws_desktop :: InfiniteDesktop
  windowMap :: "nat \<rightharpoonup> nat"
  currentWindowId :: nat
  ws_sent :: "(nat \<times> Message) list"

definition SHARE_PREFIX :: "byte list" where
  "SHARE_PREFIX = [0x77, 0x73, 0x66, 0x62, 0x3a, 0x3a]"

fun to_string :: "nat \<Rightarrow> byte list" where
  "to_string n = (if n < 10 then [of_nat (48 + n)] else to_string (n div 10) @ [of_nat (48 + n mod 10)])"

declare to_string.simps [simp del]

definition context_new :: "(byte list \<Rightarrow> nat \<Rightarrow> u32 list) \<Rightarrow> byte list \<Rightarrow> int \<Rightarrow> int \<Rightarrow> RenderBuffer" where
  "context_new framebuffer bufferId w h = \<lparr>rb_buffer = framebuffer bufferId (nat (w * h)), rb_width = w, rb_height = h\<rparr>"

definition handle_create_window ::
  "(byte list \<Rightarrow> nat \<Rightarrow> u32 list) \<Rightarrow> nat \<Rightarrow> CreateWindow \<Rightarrow> WindowServer \<Rightarrow> WindowServer option" where
  "handle_create_window framebuffer conn cwindow ws = do {
     let callback = \<lparr>sharedMemoryId = SHARE_PREFIX @ to_string (currentWindowId ws)\<rparr>;
     let current = currentWindowId ws + 1;
     let ctx = context_new framebuffer (sharedMemoryId callback) (sint (cw_width cwindow)) (sint (cw_height cwindow));
     let window = \<lparr>win_id = current, m_worldCoord = \<lparr>wc_x = 10 + int current * 150, wc_y = 10\<rparr>, win_context = ctx\<rparr>;
     let desktop = make_window window (ws_desktop ws);
     desktop \<leftarrow> paint_all desktop;
     Some (ws\<lparr>ws_desktop := desktop, currentWindowId := current,
              windowMap := (case windowMap ws conn of None \<Rightarrow> (windowMap ws)(conn \<mapsto> current) | Some _ \<Rightarrow> windowMap ws),
              ws_sent := ws_sent ws @ [(conn, MsgCreateWindowCallback callback)]\<rparr>)
   }"

definition handle_flush_window :: "nat \<Rightarrow> WindowServer \<Rightarrow> WindowServer option" where
  "handle_flush_window conn ws =
     (case windowMap ws conn of
        None \<Rightarrow> Some ws
      | Some i \<Rightarrow> do { desktop \<leftarrow> invalidate_window i (ws_desktop ws); Some (ws\<lparr>ws_desktop := desktop\<rparr>) })"

definition ServerHandler :: "(byte list \<Rightarrow> nat \<Rightarrow> u32 list) \<Rightarrow> nat \<Rightarrow> Message \<Rightarrow> WindowServer \<Rightarrow> WindowServer option" where
  "ServerHandler framebuffer conn m ws = (case m of
      MsgCreateWindow c \<Rightarrow> handle_create_window framebuffer conn c ws
    | MsgFlushWindow \<Rightarrow> handle_flush_window conn ws
    | _ \<Rightarrow> Some ws)"

subsection \<open>Input\<close>

text \<open>
  \<open>HID.cpp\<close> and \<open>Context::handle_keyboard_event\<close>, on the events the drivers deliver. The thread reads up to ten events at a time and handles the first;
  an event that was not read keeps the values of its declaration, which for a key event are undefined.
\<close>

record HidState =
  mouseX :: int
  mouseY :: int

definition get_mouse_coord :: "HidState \<Rightarrow> ViewportCoord" where
  "get_mouse_coord hid = \<lparr>vc_x = mouseX hid, vc_y = mouseY hid\<rparr>"

definition read_and_handle_mouse_events :: "MouseEvent list \<Rightarrow> HidState \<Rightarrow> InfiniteDesktop \<Rightarrow> (HidState \<times> InfiniteDesktop) option" where
  "read_and_handle_mouse_events events hid d = do {
     let event = (case events of [] \<Rightarrow> \<lparr>me_dx = 0, me_dy = 0, me_buttons = 0\<rparr> | e # _ \<Rightarrow> e);
     let hid = \<lparr>mouseX = mouseX hid + me_dx event, mouseY = mouseY hid + me_dy event\<rparr>;
     d \<leftarrow> process_mouse_event (get_mouse_coord hid) (me_buttons event) d;
     Some (hid, d)
   }"

definition context_handle_keyboard_event :: "Movement \<times> u8 \<Rightarrow> Message" where
  "context_handle_keyboard_event event = MsgKeyEvent \<lparr>keyUp = (fst event = KEY_UP), ke_key = snd event\<rparr>"

definition read_and_handle_keyboard_events :: "(Movement \<times> u8) list \<Rightarrow> InfiniteDesktop \<Rightarrow> (nat \<times> Message) option" where
  "read_and_handle_keyboard_events events d = (case events of
      [] \<Rightarrow> None
    | e # _ \<Rightarrow> map_option (\<lambda>(w, _). (w, context_handle_keyboard_event e)) (process_keyboard_event (fst e = KEY_UP, snd e) d))"

subsection \<open>The server as a state machine\<close>

text \<open>
  The events that change what the server keeps, handled one after the other: a mouse event, the two requests of a client, and
  a client that writes one pixel of its window's shared memory. The source handles mouse events in a thread of
  their own, without a lock; here an event is complete before the next begins.
\<close>

datatype ws_event =
    MouseInput ViewportCoord int
  | NewWindow nat CreateWindow
  | Refresh nat
  | Draw nat nat u32

definition draw_pixel :: "nat \<Rightarrow> nat \<Rightarrow> u32 \<Rightarrow> Window \<Rightarrow> Window" where
  "draw_pixel i k colour w =
     (if win_id w = i then w\<lparr>win_context := (win_context w)\<lparr>rb_buffer := (rb_buffer (win_context w))[k := colour]\<rparr>\<rparr> else w)"

definition client_draws :: "nat \<Rightarrow> nat \<Rightarrow> u32 \<Rightarrow> InfiniteDesktop \<Rightarrow> InfiniteDesktop" where
  "client_draws i k colour d = d\<lparr>m_windows := map (draw_pixel i k colour) (m_windows d)\<rparr>"

definition ws_handle :: "(byte list \<Rightarrow> nat \<Rightarrow> u32 list) \<Rightarrow> ws_event \<Rightarrow> WindowServer \<Rightarrow> WindowServer option" where
  "ws_handle framebuffer ev ws = (case ev of
      MouseInput vc buttons \<Rightarrow> do { d \<leftarrow> process_mouse_event vc buttons (ws_desktop ws); Some (ws\<lparr>ws_desktop := d\<rparr>) }
    | NewWindow conn c \<Rightarrow> ServerHandler framebuffer conn (MsgCreateWindow c) ws
    | Refresh conn \<Rightarrow> ServerHandler framebuffer conn MsgFlushWindow ws
    | Draw i k colour \<Rightarrow> Some (ws\<lparr>ws_desktop := client_draws i k colour (ws_desktop ws)\<rparr>))"

text \<open>The windows drawn to since they were last painted as a whole.\<close>

definition drawn_after :: "ws_event \<Rightarrow> WindowServer \<Rightarrow> nat set \<Rightarrow> nat set" where
  "drawn_after ev ws S = (case ev of
      MouseInput vc buttons \<Rightarrow> S
    | NewWindow conn c \<Rightarrow> {}
    | Refresh conn \<Rightarrow> (case windowMap ws conn of None \<Rightarrow> S | Some i \<Rightarrow> S - {i})
    | Draw i k colour \<Rightarrow> insert i S)"

text \<open>
  Two events spoil the picture: a window that is created while another is dragged, which is then no longer the topmost
  one, and the refresh of a window with more than one window above it, for which \<open>ClipRects::subtract\<close> can skip a rectangle.
\<close>

definition at_most_one_upper :: "nat \<Rightarrow> InfiniteDesktop \<Rightarrow> bool" where
  "at_most_one_upper i d \<longleftrightarrow> length (dropWhile (\<lambda>w. win_id w \<noteq> i) (m_windows d)) \<le> 2"

definition harmless :: "ws_event \<Rightarrow> WindowServer \<Rightarrow> bool" where
  "harmless ev ws = (case ev of
      NewWindow conn c \<Rightarrow> m_dragWindow (ws_desktop ws) = None
    | Refresh conn \<Rightarrow> (case windowMap ws conn of None \<Rightarrow> True | Some i \<Rightarrow> at_most_one_upper i (ws_desktop ws))
    | _ \<Rightarrow> True)"

fun ws_run :: "(byte list \<Rightarrow> nat \<Rightarrow> u32 list) \<Rightarrow> ws_event list \<Rightarrow> WindowServer \<Rightarrow> WindowServer option" where
  "ws_run framebuffer [] ws = Some ws"
| "ws_run framebuffer (ev # evs) ws = do { ws \<leftarrow> ws_handle framebuffer ev ws; ws_run framebuffer evs ws }"

fun drawn_by :: "(byte list \<Rightarrow> nat \<Rightarrow> u32 list) \<Rightarrow> ws_event list \<Rightarrow> WindowServer \<Rightarrow> nat set \<Rightarrow> nat set" where
  "drawn_by framebuffer [] ws S = S"
| "drawn_by framebuffer (ev # evs) ws S =
     (case ws_handle framebuffer ev ws of None \<Rightarrow> S | Some ws' \<Rightarrow> drawn_by framebuffer evs ws' (drawn_after ev ws S))"

fun all_harmless :: "(byte list \<Rightarrow> nat \<Rightarrow> u32 list) \<Rightarrow> ws_event list \<Rightarrow> WindowServer \<Rightarrow> bool" where
  "all_harmless framebuffer [] ws \<longleftrightarrow> True"
| "all_harmless framebuffer (ev # evs) ws \<longleftrightarrow> harmless ev ws \<and>
     (case ws_handle framebuffer ev ws of None \<Rightarrow> False | Some ws' \<Rightarrow> all_harmless framebuffer evs ws')"

definition proper_size :: "ws_event \<Rightarrow> bool" where
  "proper_size ev = (case ev of NewWindow conn c \<Rightarrow> 0 < sint (cw_width c) \<and> 0 < sint (cw_height c) | _ \<Rightarrow> True)"

definition ws_ok :: "WindowServer \<Rightarrow> bool" where
  "ws_ok ws \<longleftrightarrow> desktop_ok (ws_desktop ws) \<and>
     (\<forall>w\<in>set (m_windows (ws_desktop ws)). win_id w \<le> currentWindowId ws) \<and>
     ran (windowMap ws) \<subseteq> win_id ` set (m_windows (ws_desktop ws))"

definition ws_right :: "nat set \<Rightarrow> WindowServer \<Rightarrow> bool" where
  "ws_right S ws \<longleftrightarrow> drag_on_top (ws_desktop ws) \<and> shows_fresh_outside S (m_mouseRect (ws_desktop ws)) (ws_desktop ws)"

lemma paint_all_ok:
  assumes "desktop_ok d"
  shows "\<exists>b. paint_all d = Some (set_buffer b d) \<and> length b = buffer_size (m_viewport d) \<and>
     (\<forall>p\<in>region (m_viewport d). b ! pos_in (m_viewport d) p = scene d p)"
proof -
  have "list_all positive [m_viewport d]" using desktop_okD(1) [OF assms] by simp
  from paint_ok [OF assms this] show ?thesis by (auto simp: paint_all_def)
qed

lemma make_window_ok:
  assumes "desktop_ok d" "window_ok w" "\<forall>v\<in>set (m_windows d). win_id v < win_id w"
  shows "desktop_ok (make_window w d)"
  using assms by (force simp: desktop_ok_def make_window_def)

lemma create_ok:
  assumes ws: "ws_ok ws" and pos: "0 < sint (cw_width c)" "0 < sint (cw_height c)" and fb: "\<And>i n. length (framebuffer i n) = n"
  shows "\<exists>ws'. ServerHandler framebuffer conn (MsgCreateWindow c) ws = Some ws' \<and> ws_ok ws' \<and>
     (m_dragWindow (ws_desktop ws) = None \<longrightarrow> ws_right {} ws')"
proof -
  define w where "w = \<lparr>win_id = currentWindowId ws + 1, m_worldCoord = \<lparr>wc_x = 10 + int (currentWindowId ws + 1) * 150, wc_y = 10\<rparr>,
     win_context = context_new framebuffer (SHARE_PREFIX @ to_string (currentWindowId ws)) (sint (cw_width c)) (sint (cw_height c))\<rparr>"
  define d where "d = make_window w (ws_desktop ws)"
  have "window_ok w" using pos fb by (simp add: window_ok_def w_def get_geometry_def context_new_def positive_def buffer_size_def)
  moreover have "\<forall>v\<in>set (m_windows (ws_desktop ws)). win_id v < win_id w" using ws by (auto simp: ws_ok_def w_def less_Suc_eq_le)
  ultimately have d: "desktop_ok d" using make_window_ok ws by (simp add: d_def ws_ok_def)
  obtain b where b: "paint_all d = Some (set_buffer b d)" "length b = buffer_size (m_viewport d)"
    "\<forall>p\<in>region (m_viewport d). b ! pos_in (m_viewport d) p = scene d p" using paint_all_ok [OF d] by blast
  define ws' where "ws' = ws\<lparr>ws_desktop := set_buffer b d, currentWindowId := currentWindowId ws + 1,
     windowMap := (case windowMap ws conn of None \<Rightarrow> (windowMap ws)(conn \<mapsto> Suc (currentWindowId ws)) | Some _ \<Rightarrow> windowMap ws),
     ws_sent := ws_sent ws @ [(conn, MsgCreateWindowCallback \<lparr>sharedMemoryId = SHARE_PREFIX @ to_string (currentWindowId ws)\<rparr>)]\<rparr>"
  have eq: "ServerHandler framebuffer conn (MsgCreateWindow c) ws = Some ws'"
    using b(1) by (simp add: ServerHandler_def handle_create_window_def Let_def w_def d_def ws'_def)
  have "m_windows d = m_windows (ws_desktop ws) @ [w]" "m_dragWindow d = m_dragWindow (ws_desktop ws)"
    by (simp_all add: d_def make_window_def)
  then have win: "m_windows (ws_desktop ws') = m_windows (ws_desktop ws) @ [w]" "m_dragWindow (ws_desktop ws') = m_dragWindow (ws_desktop ws)"
    by (simp_all add: ws'_def)
  have "ran (windowMap ws') \<subseteq> insert (win_id w) (ran (windowMap ws))"
    by (auto simp: ws'_def w_def ran_def split: option.splits if_splits)
  then have "ran (windowMap ws') \<subseteq> win_id ` set (m_windows (ws_desktop ws'))" using ws win by (auto simp: ws_ok_def)
  moreover have "\<forall>w\<in>set (m_windows (ws_desktop ws')). win_id w \<le> currentWindowId ws'"
    using ws win by (auto simp: ws_ok_def ws'_def w_def)
  moreover have "desktop_ok (ws_desktop ws')" using desktop_ok_set_buffer [OF d b(2)] by (simp add: ws'_def)
  moreover have "\<forall>p\<in>region (m_viewport (ws_desktop ws')). pixel_at (ws_desktop ws') p = scene (ws_desktop ws') p"
    using b(3) by (simp add: ws'_def)
  ultimately show ?thesis using eq win(2) unfolding ws_ok_def ws_right_def shows_fresh_outside_def drag_on_top_def by auto
qed

text \<open>A client that draws changes the scene only where its window is the topmost one.\<close>

lemma draw_pixel_simps [simp]:
  "get_geometry (draw_pixel i k c w) = get_geometry w" "win_id (draw_pixel i k c w) = win_id w"
  "length (rb_buffer (win_context (draw_pixel i k c w))) = length (rb_buffer (win_context w))"
  by (simp_all add: draw_pixel_def get_geometry_def)

lemma drawn_scene:
  "top_id (map (draw_pixel i k c) ws) p = top_id ws p \<and>
   (top_id ws p \<noteq> Some i \<longrightarrow> scene_of bg vp (map (draw_pixel i k c) ws) p = scene_of bg vp ws p)"
proof (induction ws rule: rev_induct)
  case (snoc w ws)
  then show ?case by (auto simp: top_id_snoc scene_of_snoc window_pixel_def) (simp_all add: draw_pixel_def)
qed simp

lemma draw_ok:
  fixes i k c
  assumes "ws_ok ws"
  defines "ws' \<equiv> ws\<lparr>ws_desktop := client_draws i k c (ws_desktop ws)\<rparr>"
  shows "ws_ok ws' \<and> (ws_right S ws \<longrightarrow> ws_right (insert i S) ws')"
proof -
  let ?d = "ws_desktop ws"
  have ids: "win_id \<circ> draw_pixel i k c = win_id" by (simp add: fun_eq_iff)
  then have set: "win_id ` set (map (draw_pixel i k c) (m_windows ?d)) = win_id ` set (m_windows ?d)"
    by (simp add: image_image)
  have "list_all window_ok (map (draw_pixel i k c) (m_windows ?d)) = list_all window_ok (m_windows ?d)"
    by (simp add: list_all_iff window_ok_def)
  then have "desktop_ok (client_draws i k c ?d) = desktop_ok ?d"
    using ids set by (simp add: desktop_ok_def client_draws_def del: set_map)
  moreover have "(\<forall>w\<in>set (map (draw_pixel i k c) (m_windows ?d)). win_id w \<le> currentWindowId ws) =
     (\<forall>w\<in>set (m_windows ?d). win_id w \<le> currentWindowId ws)" by simp
  ultimately have 1: "ws_ok ws'" using assms(1) set by (simp add: ws'_def ws_ok_def client_draws_def del: set_map)
  have "drag_on_top (client_draws i k c ?d) = drag_on_top ?d"
    by (cases "m_windows ?d = []") (simp_all add: drag_on_top_def client_draws_def last_map)
  moreover have "scene (client_draws i k c ?d) p = scene ?d p \<and> fresh S ?d p" if "fresh (insert i S) (client_draws i k c ?d) p" for p
    using that drawn_scene [of i k c "m_windows ?d" p "rb_buffer (m_bgBuffer ?d)" "m_viewport ?d"]
    by (auto simp: fresh_def scene_def client_draws_def)
  ultimately have "ws_right S ws \<longrightarrow> ws_right (insert i S) ws'"
    unfolding ws_right_def shows_fresh_outside_def by (simp add: ws'_def) (simp add: client_draws_def pixel_at_def)
  with 1 show ?thesis ..
qed

text \<open>With at most one window above, the clipping region is a single rectangle when that is subtracted.\<close>

lemma upper_clip:
  assumes "positive vp" "positive geo" "list_all (\<lambda>w. positive (get_geometry w)) upper" "length upper \<le> 1"
  shows "regions (subtract_above geo upper (clip_intersect vp (clip_add geo []))) =
    (region geo \<inter> region vp) - regions (map get_geometry upper)"
proof -
  have a: "clip_add geo [] = [geo]" by (simp add: clip_add_def clip_subtract_def clip_subtract_loop.simps)
  let ?c = "clip_intersect vp [geo]"
  have c: "regions ?c = region geo \<inter> region vp" "list_all positive ?c" "length ?c \<le> 1"
    using clip_intersect_region [OF assms(1), of "[geo]"] assms(2) by (simp_all add: clip_intersect_def)
  show ?thesis
  proof (cases upper)
    case (Cons u us)
    then have us: "us = []" using assms(4) by simp
    show ?thesis
    proof (cases "intersects (get_geometry u) geo")
      case True
      then show ?thesis using clip_subtract_exact [OF _ c(2), of "get_geometry u"] c(1,3) assms(3) Cons us a by (simp add: subtract_above_def)
    next
      case False
      then show ?thesis using region_intersects [of _ "get_geometry u" geo] c(1) Cons us a by (auto simp: subtract_above_def)
    qed
  qed (simp add: subtract_above_def a c)
qed

lemma scene_of_top:
  "p \<in> region (get_geometry w) \<Longrightarrow> p \<notin> regions (map get_geometry ys) \<Longrightarrow> scene_of bg vp (xs @ w # ys) p = window_pixel w p"
proof (induction ys rule: rev_induct)
  case Nil
  then show ?case by (simp add: scene_of_snoc)
next
  case (snoc y ys)
  then show ?case using scene_of_snoc [of bg vp "xs @ w # ys" y p] by simp
qed

lemma top_id_above:
  "p \<in> region (get_geometry w) \<Longrightarrow> p \<notin> regions (map get_geometry ys) \<Longrightarrow> top_id (xs @ w # ys) p = Some (win_id w)"
proof (induction ys rule: rev_induct)
  case Nil
  then show ?case by (simp add: top_id_snoc)
next
  case (snoc y ys)
  then show ?case using top_id_snoc [of "xs @ w # ys" y p] by simp
qed

lemma top_id_eq:
  "top_id (xs @ w # ys) p = Some (win_id w) \<Longrightarrow> distinct (map win_id (xs @ w # ys)) \<Longrightarrow>
   p \<in> region (get_geometry w) \<and> p \<notin> regions (map get_geometry ys)"
proof (induction ys rule: rev_induct)
  case Nil
  have "v \<in> set xs" if "find P (rev xs) = Some v" for P v
    using that by (auto simp: find_Some_iff rev_nth)
  then have "top_id xs p \<noteq> Some (win_id w)" if "win_id w \<notin> win_id ` set xs"
    using that by (auto simp: top_id_def) (metis imageI)
  then show ?case using Nil by (auto simp: top_id_snoc split: if_splits)
next
  case (snoc y ys)
  then show ?case using top_id_snoc [of "xs @ w # ys" y p] by (auto split: if_splits)
qed

lemma invalidate_ok:
  assumes ok: "desktop_ok d" and i: "i \<in> win_id ` set (m_windows d)"
  shows "\<exists>b. invalidate_window i d = Some (set_buffer b d) \<and> length b = buffer_size (m_viewport d) \<and>
     (at_most_one_upper i d \<longrightarrow> shows_fresh_outside S (m_mouseRect d) d \<longrightarrow>
      shows_fresh_outside (S - {i}) (m_mouseRect d) (set_buffer b d))"
proof -
  let ?vp = "m_viewport d"
  have "dropWhile (\<lambda>w. win_id w \<noteq> i) (m_windows d) \<noteq> []" using i by (auto simp: dropWhile_eq_Nil_conv)
  then obtain w upper where w: "dropWhile (\<lambda>w. win_id w \<noteq> i) (m_windows d) = w # upper" by (cases "dropWhile (\<lambda>w. win_id w \<noteq> i) (m_windows d)") auto
  then obtain xs where ws: "m_windows d = xs @ w # upper" by (metis takeWhile_dropWhile_id)
  have wi: "win_id w = i" using hd_dropWhile [of "\<lambda>w. win_id w \<noteq> i" "m_windows d"] w by simp
  have win: "window_ok w" "positive (get_geometry w)" "list_all (\<lambda>w. positive (get_geometry w)) upper"
    using desktop_okD(3) [OF ok] ws by (auto simp: window_ok_def list_all_iff)
  define clip where "clip = subtract_above (get_geometry w) upper (clip_intersect ?vp (clip_add (get_geometry w) []))"
  have "regions (clip_intersect ?vp (clip_add (get_geometry w) [])) = region (get_geometry w) \<inter> region ?vp"
    "list_all positive (clip_intersect ?vp (clip_add (get_geometry w) []))"
    using clip_add_region [OF win(2), of "[]"] clip_intersect_region [OF desktop_okD(1) [OF ok]] by simp_all
  then have "regions clip \<subseteq> region ?vp"
    using subtract_above_bounds [OF win(3), of "clip_intersect ?vp (clip_add (get_geometry w) [])" "get_geometry w"]
    unfolding clip_def by auto
  from foldO_buf_rect [OF desktop_okD(2) [OF ok] _ win(2) this, of "rb_buffer (win_context w)"] obtain b1 where
    b1: "desktop_buf_rect d w clip (rb_buffer (m_buffer d)) = Some b1" "length b1 = buffer_size ?vp"
    "\<forall>p\<in>region ?vp. b1 ! pos_in ?vp p = (if p \<in> regions clip \<inter> region (get_geometry w) then window_pixel w p else pixel_at d p)"
    using win(1) desktop_okD(2) [OF ok] by (auto simp: window_ok_def desktop_buf_rect_def window_pixel_def pixel_at_def)
  have ok1: "desktop_ok (set_buffer b1 d)" by (rule desktop_ok_set_buffer [OF ok b1(2)])
  obtain b2 where b2: "draw_mouse (set_buffer b1 d) = Some (set_buffer b2 (set_buffer b1 d))" "length b2 = buffer_size ?vp"
    "\<forall>p\<in>region ?vp. p \<notin> region (m_mouseRect d) \<longrightarrow> b2 ! pos_in ?vp p = b1 ! pos_in ?vp p"
    using draw_mouse_ok [OF ok1] by auto
  have "set_buffer b2 (set_buffer b1 d) = set_buffer b2 d" by (simp add: set_buffer_def)
  then have eq: "invalidate_window i d = Some (set_buffer b2 d)"
    using w b1(1) b2(1) by (simp add: invalidate_window_def clip_def Let_def)
  have "b2 ! pos_in ?vp p = scene d p"
    if one: "at_most_one_upper i d" and shown: "shows_fresh_outside S (m_mouseRect d) d"
      and p: "p \<in> region ?vp" "p \<notin> region (m_mouseRect d)" "fresh (S - {i}) d p" for p
  proof -
    have u: "length upper \<le> 1" using one w by (simp add: at_most_one_upper_def)
    have clip: "regions clip = (region (get_geometry w) \<inter> region ?vp) - regions (map get_geometry upper)"
      unfolding clip_def by (rule upper_clip [OF desktop_okD(1) [OF ok] win(2,3) u])
    show ?thesis
    proof (cases "p \<in> regions clip")
      case True
      then have "scene d p = window_pixel w p" using clip scene_of_top [of p w upper] by (simp add: scene_def ws)
      then show ?thesis using True b1(3) b2(3) p clip by auto
    next
      case False
      then have "top_id (m_windows d) p \<noteq> Some i"
        using top_id_eq [of xs w upper p] desktop_okD(6) [OF ok] ws wi clip p(1) by auto
      then have "fresh S d p" using p(3) by (auto simp: fresh_def)
      then show ?thesis using False b1(3) b2(3) p shown by (simp add: shows_fresh_outside_def)
    qed
  qed
  then have "at_most_one_upper i d \<longrightarrow> shows_fresh_outside S (m_mouseRect d) d \<longrightarrow>
      shows_fresh_outside (S - {i}) (m_mouseRect d) (set_buffer b2 d)" by (simp add: shows_fresh_outside_def)
  then show ?thesis using eq b2(2) by blast
qed

lemma mouse_event_windows:
  assumes "process_mouse_event vc buttons d = Some d'"
  shows "win_id ` set (m_windows d') = win_id ` set (m_windows d)"
proof -
  have "set (raise_window c ws) = set ws" for c ws
    by (cases rule: raise_window_cases [of c ws]) auto
  then have "set (m_windows (mouse_buttons c buttons d)) = set (m_windows d)" for c
    by (auto simp: mouse_buttons_def mouse_press_def Let_def)
  moreover have "win_id ` set (m_windows d2) = win_id ` set (m_windows d1)" if "mouse_drag c d1 = Some d2" for c d1 d2
  proof -
    have "map win_id (m_windows d2) = map win_id (m_windows d1)"
      using that by (auto simp: mouse_drag_def paint_def paint_window_def Let_def bind_eq_Some_conv split: option.splits)
    then show ?thesis by (metis set_map)
  qed
  moreover have "m_windows d2 = m_windows d1" if "paint dirty d1 = Some d2" for dirty d1 d2
    using that by (auto simp: paint_def bind_eq_Some_conv)
  moreover have "m_windows d2 = m_windows d1" if "draw_mouse d1 = Some d2" for d1 d2
    using that by (auto simp: draw_mouse_def bind_eq_Some_conv)
  ultimately show ?thesis using assms by (fastforce simp: process_mouse_event_def Let_def bind_eq_Some_conv)
qed

lemma ws_handle_ok:
  assumes ws: "ws_ok ws" and size: "proper_size ev" and fb: "\<And>i n. length (framebuffer i n) = n"
  shows "\<exists>ws'. ws_handle framebuffer ev ws = Some ws' \<and> ws_ok ws' \<and>
     (harmless ev ws \<longrightarrow> ws_right S ws \<longrightarrow> ws_right (drawn_after ev ws S) ws')"
proof (cases ev)
  case (MouseInput vc buttons)
  obtain d where d: "process_mouse_event vc buttons (ws_desktop ws) = Some d" "desktop_ok d"
    "drag_on_top (ws_desktop ws) \<longrightarrow> drag_on_top d \<and>
       (shows_fresh_outside S (m_mouseRect (ws_desktop ws)) (ws_desktop ws) \<longrightarrow> shows_fresh S d)"
    using mouse_event_ok [of "ws_desktop ws" vc buttons S] ws by (auto simp: ws_ok_def)
  have ids: "win_id ` set (m_windows d) = win_id ` set (m_windows (ws_desktop ws))" by (rule mouse_event_windows [OF d(1)])
  then have "\<forall>w\<in>set (m_windows d). win_id w \<le> currentWindowId ws" using ws unfolding ws_ok_def by (metis imageE imageI)
  then have "ws_ok (ws\<lparr>ws_desktop := d\<rparr>)" using ws d(2) ids by (simp add: ws_ok_def)
  moreover have "ws_right S ws \<longrightarrow> ws_right S (ws\<lparr>ws_desktop := d\<rparr>)"
    using d(3) shows_fresh_outside by (simp add: ws_right_def)
  ultimately show ?thesis using d(1) MouseInput by (simp add: ws_handle_def drawn_after_def)
next
  case (NewWindow conn c)
  obtain ws' where "ServerHandler framebuffer conn (MsgCreateWindow c) ws = Some ws'" "ws_ok ws'"
    "m_dragWindow (ws_desktop ws) = None \<longrightarrow> ws_right {} ws'"
    using create_ok [OF ws, of c framebuffer conn] size fb NewWindow by (auto simp: proper_size_def)
  then show ?thesis using NewWindow by (simp add: ws_handle_def harmless_def drawn_after_def)
next
  case (Refresh conn)
  show ?thesis
  proof (cases "windowMap ws conn")
    case None
    then show ?thesis using ws Refresh by (simp add: ws_handle_def ServerHandler_def handle_flush_window_def drawn_after_def)
  next
    case (Some i)
    then have "i \<in> win_id ` set (m_windows (ws_desktop ws))" using ws by (auto simp: ws_ok_def ran_def)
    then obtain b where b: "invalidate_window i (ws_desktop ws) = Some (set_buffer b (ws_desktop ws))" "length b = buffer_size (m_viewport (ws_desktop ws))"
      "at_most_one_upper i (ws_desktop ws) \<longrightarrow> shows_fresh_outside S (m_mouseRect (ws_desktop ws)) (ws_desktop ws) \<longrightarrow>
       shows_fresh_outside (S - {i}) (m_mouseRect (ws_desktop ws)) (set_buffer b (ws_desktop ws))"
      using invalidate_ok [of "ws_desktop ws" i S] ws by (auto simp: ws_ok_def)
    then have "ws_handle framebuffer ev ws = Some (ws\<lparr>ws_desktop := set_buffer b (ws_desktop ws)\<rparr>)"
      using Some Refresh by (simp add: ws_handle_def ServerHandler_def handle_flush_window_def)
    then show ?thesis using b Some Refresh ws desktop_ok_set_buffer
      by (simp add: ws_ok_def ws_right_def harmless_def drawn_after_def)
  qed
next
  case (Draw i k colour)
  then show ?thesis using draw_ok [OF ws, of i k colour S] by (simp add: ws_handle_def drawn_after_def)
qed

text \<open>Of the events read at once, all but the first are lost.\<close>

lemma mouse_events_dropped: "read_and_handle_mouse_events (e # events) hid d = read_and_handle_mouse_events [e] hid d"
  by (simp add: read_and_handle_mouse_events_def)

lemma painted_server_ok:
  assumes "desktop_ok d" "m_windows d = []"
  shows "\<exists>b. paint_all d = Some (set_buffer b d) \<and>
     ws_ok \<lparr>ws_desktop = set_buffer b d, windowMap = Map.empty, currentWindowId = 1, ws_sent = []\<rparr> \<and>
     ws_right {} \<lparr>ws_desktop = set_buffer b d, windowMap = Map.empty, currentWindowId = 1, ws_sent = []\<rparr>"
proof -
  obtain b where b: "paint_all d = Some (set_buffer b d)" "length b = buffer_size (m_viewport d)"
    "\<forall>p\<in>region (m_viewport d). b ! pos_in (m_viewport d) p = scene d p" using paint_all_ok [OF assms(1)] by blast
  moreover have "m_dragWindow d = None" using assms by (auto simp: desktop_ok_def)
  ultimately show ?thesis using desktop_ok_set_buffer [OF assms(1)] assms(2)
    by (intro exI [of _ b]) (simp add: ws_ok_def ws_right_def shows_fresh_outside_def drag_on_top_def)
qed

lemma mouse_event_cursor:
  assumes "process_mouse_event vc buttons d = Some d'"
  shows "coord (m_mouseRect d') = world_coord vc (m_viewport d)"
  using assms by (auto simp: process_mouse_event_def draw_mouse_def set_buffer_def Let_def bind_eq_Some_conv)





end
