(* ===== verification/Loader_ELF.thy ===== *)
theory Loader_ELF
  imports Shared_Memory Memory_Routines IPC_Serialisation
begin

text \<open>
  The loader of executables, \<open>Kernel/Loader/ELF.cpp\<close> and \<open>ELF.h\<close>. The memory is the address space of the task
  that loads its own executable, byte by byte; the page tables are those of the memory manager. Pointers
  into the file are natural numbers, addresses of pages are 64-bit words.

  The outer \<^const>\<open>None\<close> is a write to a page that is not mapped, or a loop over pages that runs past the end of the
  address space; a panic of the memory manager is \<^const>\<open>Inl\<close>.
\<close>

subsection \<open>Headers\<close>

record Elf64_Ehdr =
  e_ident :: "u8 list"
  e_type :: u16
  e_machine :: u16
  e_version :: u32
  e_entry :: u64
  e_phoff :: u64
  e_shoff :: u64
  e_flags :: u32
  e_ehsize :: u16
  e_phentsize :: u16
  e_phnum :: u16
  e_shentsize :: u16
  e_shnum :: u16
  e_shstrndx :: u16

record Elf64_Shdr =
  sh_name :: u32
  sh_type :: u32
  sh_flags :: u64
  sh_addr :: u64
  sh_offset :: u64
  sh_size :: u64
  sh_link :: u32
  sh_info :: u32
  sh_addralign :: u64
  sh_entsize :: u64

definition load_field :: "memory \<Rightarrow> addr \<Rightarrow> nat \<Rightarrow> 'a :: len word" where
  "load_field mem p n = load_le (map mem [p..<p + n])"

definition elf_header :: "memory \<Rightarrow> addr \<Rightarrow> Elf64_Ehdr" where
  "elf_header mem p =
     \<lparr>e_ident = map mem [p..<p + 16], e_type = load_field mem (p + 16) 2, e_machine = load_field mem (p + 18) 2,
      e_version = load_field mem (p + 20) 4, e_entry = load_field mem (p + 24) 8, e_phoff = load_field mem (p + 32) 8,
      e_shoff = load_field mem (p + 40) 8, e_flags = load_field mem (p + 48) 4, e_ehsize = load_field mem (p + 52) 2,
      e_phentsize = load_field mem (p + 54) 2, e_phnum = load_field mem (p + 56) 2, e_shentsize = load_field mem (p + 58) 2,
      e_shnum = load_field mem (p + 60) 2, e_shstrndx = load_field mem (p + 62) 2\<rparr>"

definition section_header :: "memory \<Rightarrow> addr \<Rightarrow> Elf64_Shdr" where
  "section_header mem p =
     \<lparr>sh_name = load_field mem p 4, sh_type = load_field mem (p + 4) 4, sh_flags = load_field mem (p + 8) 8,
      sh_addr = load_field mem (p + 16) 8, sh_offset = load_field mem (p + 24) 8, sh_size = load_field mem (p + 32) 8,
      sh_link = load_field mem (p + 40) 4, sh_info = load_field mem (p + 44) 4, sh_addralign = load_field mem (p + 48) 8,
      sh_entsize = load_field mem (p + 56) 8\<rparr>"

definition sizeof_Elf64_Ehdr :: nat where "sizeof_Elf64_Ehdr = 64"
definition sizeof_Elf64_Shdr :: nat where "sizeof_Elf64_Shdr = 64"

definition SHT_NOBITS :: u32 where "SHT_NOBITS = 8"

definition check_elf_header_ident :: "Elf64_Ehdr \<Rightarrow> bool" where
  "check_elf_header_ident header \<longleftrightarrow>
     e_ident header ! 0 = 0x7F \<and> e_ident header ! 1 = 0x45 \<and> e_ident header ! 2 = 0x4C \<and> e_ident header ! 3 = 0x46"

definition check_elf_header_support :: "Elf64_Ehdr \<Rightarrow> bool" where
  "check_elf_header_support header \<longleftrightarrow>
     e_ident header ! 4 = 2 \<and> e_ident header ! 5 = 1 \<and> e_machine header = 62 \<and> e_ident header ! 6 = 1 \<and>
     (e_type header = 1 \<or> e_type header = 2)"

definition get_section :: "memory \<Rightarrow> addr \<Rightarrow> nat \<Rightarrow> addr" where
  "get_section mem header index = header + unat (e_shoff (elf_header mem header)) + sizeof_Elf64_Shdr * index"

definition get_string_table :: "memory \<Rightarrow> addr \<Rightarrow> addr" where
  "get_string_table mem header =
     header + unat (sh_offset (section_header mem (get_section mem header (unat (e_shstrndx (elf_header mem header))))))"

definition lookup_string_in_table :: "memory \<Rightarrow> addr \<Rightarrow> nat \<Rightarrow> addr" where
  "lookup_string_in_table mem header offset = get_string_table mem header + offset"

subsection \<open>Loading\<close>

definition STACK_SIZE :: u64 where "STACK_SIZE = 0x1000 * 16"
definition ELF_HEADER_COPY :: u64 where "ELF_HEADER_COPY = 0x400000"
definition STACK_LOAD :: u64 where "STACK_LOAD = 0x1000000"

record LoaderState =
  ld_memory :: memory
  ld_manager :: Manager
  ld_regions :: "MappedRegion list"

lemma page_step_less:
  fixes page limit :: u64
  assumes "page < limit" "\<not> page + 0x1000 < page"
  shows "unat limit - unat (page + 0x1000) < unat limit - unat page"
proof -
  have "unat page < unat limit" "unat page \<le> unat (page + 0x1000)" "page + 0x1000 \<noteq> page" using assms by (simp_all add: word_less_nat_alt)
  then have "unat page < unat (page + 0x1000)" by (metis le_neq_implies_less word_unat_eq_iff)
  then show ?thesis using \<open>unat page < unat limit\<close> by simp
qed

function alloc_range :: "u64 \<Rightarrow> u64 \<Rightarrow> u64 \<Rightarrow> Manager \<Rightarrow> Manager kresult option" where
  "alloc_range tlTable page limit m =
     (if page < limit
      then case (if get_physical_address m tlTable page = 0
                 then alloc_page \<lparr>alloc_virtualAddress = page, alloc_allowWrite = True, alloc_allowUserAccess = True\<rparr> tlTable m
                 else Inr m) of
             Inl err \<Rightarrow> Some (Inl err)
           | Inr m \<Rightarrow> if page + 0x1000 < page then None else alloc_range tlTable (page + 0x1000) limit m
      else Some (Inr m))"
  by auto
termination by (relation "measure (\<lambda>(_, page, limit, _). unat limit - unat page)") (auto intro: page_step_less)

declare alloc_range.simps [simp del]

definition load_section :: "u64 \<Rightarrow> addr \<Rightarrow> Elf64_Shdr \<Rightarrow> LoaderState \<Rightarrow> LoaderState kresult option" where
  "load_section tlTable elfFile sectionHeader st =
     (if sh_addr sectionHeader \<noteq> 0
      then let begin = BYTE_ALIGN_DOWN (sh_addr sectionHeader) 0x1000;
               limit = begin + sh_size sectionHeader + 0x2000;
               st = st\<lparr>ld_regions := insert_region \<lparr>r_start = begin, r_end = limit\<rparr> (ld_regions st)\<rparr>
           in case alloc_range tlTable begin limit (ld_manager st) of
                None \<Rightarrow> None
              | Some (Inl err) \<Rightarrow> Some (Inl err)
              | Some (Inr m) \<Rightarrow>
                  Some (Inr (st\<lparr>ld_manager := m,
                    ld_memory :=
                      (if sh_type sectionHeader = SHT_NOBITS
                       then memset (ld_memory st) (unat (sh_addr sectionHeader)) 0 (unat (sh_size sectionHeader))
                       else memcpy (ld_memory st) (unat (sh_addr sectionHeader)) (elfFile + unat (sh_offset sectionHeader))
                              (unat (sh_size sectionHeader)))\<rparr>))
      else Some (Inr st))"

text \<open>The header is read once: sections that overwrite the copy of the file in the kernel's memory are not considered.\<close>

fun load_sections :: "u64 \<Rightarrow> addr \<Rightarrow> nat \<Rightarrow> addr \<Rightarrow> nat \<Rightarrow> LoaderState \<Rightarrow> LoaderState kresult option" where
  "load_sections tlTable elfFile entsize idx 0 st = Some (Inr st)"
| "load_sections tlTable elfFile entsize idx (Suc n) st =
     (case load_section tlTable elfFile (section_header (ld_memory st) idx) st of
        None \<Rightarrow> None
      | Some (Inl err) \<Rightarrow> Some (Inl err)
      | Some (Inr st) \<Rightarrow> load_sections tlTable elfFile entsize (idx + entsize) n st)"

definition store_file :: "byte list \<Rightarrow> addr \<Rightarrow> memory \<Rightarrow> memory" where
  "store_file file p mem = (\<lambda>a. if p \<le> a \<and> a < p + length file then file ! (a - p) else mem a)"

text \<open>
  \<open>file\<close> is what the pipe reads and \<open>elfFile\<close> the block that \<open>kmalloc\<close> returns. The result is the new entry point of the
  task, or \<^const>\<open>None\<close> when it keeps its old one.
\<close>

definition prepare_elf :: "u64 \<Rightarrow> byte list \<Rightarrow> addr \<Rightarrow> LoaderState \<Rightarrow> (u64 option \<times> LoaderState) kresult option" where
  "prepare_elf tlTable file elfFile st =
     (let st = st\<lparr>ld_memory := store_file file elfFile (ld_memory st)\<rparr>;
          header = elf_header (ld_memory st) elfFile
      in if \<not> check_elf_header_ident header \<or> \<not> check_elf_header_support header then Some (Inr (None, st))
         else case load_sections tlTable elfFile (unat (e_shentsize header)) (elfFile + unat (e_shoff header))
                     (if e_shentsize header = 0 then 0 else unat (e_shnum header)) st of
           None \<Rightarrow> None
         | Some (Inl err) \<Rightarrow> Some (Inl err)
         | Some (Inr st) \<Rightarrow>
             if get_physical_address (ld_manager st) tlTable ELF_HEADER_COPY = 0 then None
             else let st = st\<lparr>ld_memory := memcpy (ld_memory st) (unat ELF_HEADER_COPY) elfFile sizeof_Elf64_Ehdr,
                              ld_regions := insert_region \<lparr>r_start = STACK_LOAD, r_end = STACK_LOAD + STACK_SIZE\<rparr> (ld_regions st)\<rparr>
                  in case alloc_range tlTable STACK_LOAD (STACK_LOAD + STACK_SIZE + 1) (ld_manager st) of
                       None \<Rightarrow> None
                     | Some (Inl err) \<Rightarrow> Some (Inl err)
                     | Some (Inr m) \<Rightarrow> Some (Inr (Some (e_entry (elf_header (ld_memory st) elfFile)), st\<lparr>ld_manager := m\<rparr>)))"

subsection \<open>Pages\<close>

definition mapped :: "Manager \<Rightarrow> u64 \<Rightarrow> nat \<Rightarrow> bool" where
  "mapped m r a \<longleftrightarrow> get_physical_address m r (of_nat a) \<noteq> 0"

lemma same_page_of_nat:
  assumes "a div 4096 = b div 4096"
  shows "same_page PAGE_4KiB (of_nat a) (of_nat b)"
proof -
  have "bit (of_nat a :: u64) n = bit (of_nat b :: u64) n" if high: "12 \<le> n" for n
  proof -
    obtain k where n: "n = 12 + k" using le_Suc_ex [OF high] by blast
    have e: "bit c n = bit (c div 4096) k" for c :: nat by (simp add: bit_iff_odd n power_add div_mult2_eq)
    show ?thesis using assms by (simp add: bit_simps e [of a] e [of b])
  qed
  then show ?thesis by (simp add: same_page_def)
qed

lemma mapped_same_page:
  assumes "all_spaces R m" "r \<in> R" "a div 4096 = b div 4096"
  shows "mapped m r a = mapped m r b"
proof -
  have "vm_inv R m" using assms by (auto simp: all_spaces_def space_inv_def)
  then show ?thesis using same_page_trans [OF _ assms(2) same_page_of_nat [OF assms(3)]] by (simp add: mapped_def)
qed

text \<open>What allocating pages for a range does to the page tables: mappings are added, none is changed.\<close>

definition range_alloc :: "u64 set \<Rightarrow> u64 \<Rightarrow> nat \<Rightarrow> Manager \<Rightarrow> Manager \<Rightarrow> bool" where
  "range_alloc R r n m m' \<longleftrightarrow> all_spaces R m' \<and> card (free_frames m) \<le> card (free_frames m') + 4 * n \<and>
     (\<forall>v. get_physical_address m r v \<noteq> 0 \<longrightarrow> get_physical_address m' r v = get_physical_address m r v) \<and>
     (\<forall>r'\<in>R. r' \<noteq> r \<longrightarrow> (\<forall>v. get_physical_address m' r' v = get_physical_address m r' v))"

lemma range_alloc_trans: "range_alloc R r n m m1 \<Longrightarrow> range_alloc R r k m1 m2 \<Longrightarrow> range_alloc R r (n + k) m m2"
  by (auto simp: range_alloc_def)

lemma range_alloc_mapped: "range_alloc R r n m m' \<Longrightarrow> mapped m r a \<Longrightarrow> mapped m' r a"
  by (auto simp: range_alloc_def mapped_def)

lemma range_alloc_refl: "all_spaces R m \<Longrightarrow> range_alloc R r n m m"
  by (simp add: range_alloc_def)

lemma alloc_one:
  assumes "all_spaces R m" "r \<in> R" "user_range page (Suc n)" "4 \<le> card (free_frames m)"
  shows "\<exists>m'. (if get_physical_address m r page = 0
      then alloc_page \<lparr>alloc_virtualAddress = page, alloc_allowWrite = True, alloc_allowUserAccess = True\<rparr> r m else Inr m) = Inr m' \<and>
    range_alloc R r 1 m m' \<and> mapped m' r (unat page)"
proof (cases "get_physical_address m r page = 0")
  case False
  then show ?thesis using range_alloc_refl [OF assms(1)] by (simp add: mapped_def)
next
  case True
  let ?req = "\<lparr>alloc_virtualAddress = page, alloc_allowWrite = True, alloc_allowUserAccess = True\<rparr>"
  have "CHECK_ALIGN page 0x1000" "PML4_index page \<noteq> 511" using user_range_page(2,3) [OF assms(3), of 0] by simp_all
  then obtain m' p where m': "alloc_page ?req r m = Inr m'" "all_spaces R m'" "p \<noteq> 0" "card (free_frames m) \<le> card (free_frames m') + 4"
    "\<forall>r'\<in>R. \<forall>v. get_physical_address m' r' v = (if r' = r \<and> same_page PAGE_4KiB page v then p else get_physical_address m r' v)"
    using all_spaces_alloc [OF assms(1,2,4), of ?req] by auto
  have vm: "vm_inv R m" using assms(1,2) by (auto simp: all_spaces_def space_inv_def)
  have "\<not> same_page PAGE_4KiB page v" if "get_physical_address m r v \<noteq> 0" for v
    using same_page_trans [OF vm assms(2), of page v] True that by auto
  then have "range_alloc R r 1 m m'" using m'(2,4,5) assms(2) by (auto simp: range_alloc_def)
  moreover have "mapped m' r (unat page)" using m'(3,5) assms(2) by (simp add: mapped_def same_page_def)
  ultimately show ?thesis using m'(1) True by simp
qed

lemma alloc_range_ok:
  assumes "all_spaces R m" "r \<in> R" "user_range page n" "4 * n \<le> card (free_frames m)" "unat limit \<le> unat page + 4096 * n"
  shows "\<exists>m'. alloc_range r page limit m = Some (Inr m') \<and> range_alloc R r n m m' \<and>
    (\<forall>a. unat page \<le> a \<and> a < unat limit \<longrightarrow> mapped m' r a)"
  using assms
proof (induction n arbitrary: page m)
  case 0
  then have "\<not> page < limit" by (simp add: word_less_nat_alt)
  then show ?case using 0 range_alloc_refl by (auto simp: alloc_range.simps)
next
  case (Suc n)
  show ?case
  proof (cases "page < limit")
    case False
    then show ?thesis using Suc.prems range_alloc_refl [OF Suc.prems(1)] by (auto simp: alloc_range.simps word_less_nat_alt)
  next
    case True
    obtain m1 where m1: "(if get_physical_address m r page = 0
      then alloc_page \<lparr>alloc_virtualAddress = page, alloc_allowWrite = True, alloc_allowUserAccess = True\<rparr> r m else Inr m) = Inr m1"
      "range_alloc R r 1 m m1" "mapped m1 r (unat page)"
      using alloc_one [OF Suc.prems(1-3)] Suc.prems(4) by auto
    have u: "user_range (page + 0x1000) n" "unat (page + 0x1000) = unat page + 4096" using user_range_tail [OF Suc.prems(3)] by auto
    have s1: "all_spaces R m1" "4 * n \<le> card (free_frames m1)" using m1(2) Suc.prems(4) by (auto simp: range_alloc_def)
    obtain m2 where m2: "alloc_range r (page + 0x1000) limit m1 = Some (Inr m2)" "range_alloc R r n m1 m2"
      "\<forall>a. unat page + 4096 \<le> a \<and> a < unat limit \<longrightarrow> mapped m2 r a"
      using Suc.IH [OF s1(1) Suc.prems(2) u(1) s1(2)] Suc.prems(5) u(2) by auto
    have "alloc_range r page limit m = Some (Inr m2)"
      using True m1(1) m2(1) u(2) by (subst alloc_range.simps) (auto simp: word_less_nat_alt)
    moreover have "range_alloc R r (Suc n) m m2" using range_alloc_trans [OF m1(2) m2(2)] by simp
    moreover have "mapped m2 r a" if "unat page \<le> a" "a < unat limit" for a
    proof (cases "unat page + 4096 \<le> a")
      case False
      have "unat page mod 4096 = 0" using Suc.prems(3) by (simp add: user_range_def)
      then obtain q where q: "unat page = 4096 * q" by (auto simp: mod_eq_0_iff_dvd dvd_def)
      then have "a div 4096 = unat page div 4096" using False that(1) by (simp add: div_nat_eqI)
      then show ?thesis
        using mapped_same_page [of R m2 r a "unat page"] range_alloc_mapped [OF m2(2) m1(3)] m2(2) Suc.prems(2) by (simp add: range_alloc_def)
    qed (use m2(3) that in blast)
    ultimately show ?thesis by blast
  qed
qed

subsection \<open>Sections\<close>

text \<open>
  A section in the lower half of the address space, the pages it takes, and what is filled of it: \<open>memset\<close> leaves the
  end of an aligned section without contents as it was.
\<close>

definition section_pages :: "Elf64_Shdr \<Rightarrow> nat" where
  "section_pages sec = (unat (sh_size sec) + 0x2000 + 4095) div 4096"

definition section_ok :: "Elf64_Shdr \<Rightarrow> bool" where
  "section_ok sec \<longleftrightarrow> unat (sh_addr sec) + 4096 * section_pages sec \<le> 2 ^ 47"

definition section_fill :: "Elf64_Shdr \<Rightarrow> nat" where
  "section_fill sec = (let n = unat (sh_size sec)
     in if sh_type sec = SHT_NOBITS \<and> 16 \<le> n \<and> unat (sh_addr sec) mod 8 = 0 then 8 * (n div 8) else n)"

definition in_section :: "Elf64_Shdr \<Rightarrow> nat \<Rightarrow> bool" where
  "in_section sec a \<longleftrightarrow> sh_addr sec \<noteq> 0 \<and> unat (sh_addr sec) \<le> a \<and> a < unat (sh_addr sec) + unat (sh_size sec)"

definition loaded :: "memory \<Rightarrow> addr \<Rightarrow> memory \<Rightarrow> Elf64_Shdr \<Rightarrow> bool" where
  "loaded src elfFile mem sec \<longleftrightarrow> (\<forall>a. in_section sec a \<and> a < unat (sh_addr sec) + section_fill sec \<longrightarrow>
     mem a = (if sh_type sec = SHT_NOBITS then 0 else src (elfFile + unat (sh_offset sec) + (a - unat (sh_addr sec)))))"

lemma section_low: "section_ok sec \<Longrightarrow> 2 ^ 47 \<le> a \<Longrightarrow> \<not> in_section sec a"
  by (auto simp: section_ok_def section_pages_def in_section_def)

lemma unat_align_down: "unat (BYTE_ALIGN_DOWN v 0x1000) = unat v div 4096 * 4096"
proof -
  have e: "(0x1000 - 1 :: u64) = mask 12" by (simp add: mask_eq_exp_minus_1)
  have "BYTE_ALIGN_DOWN v 0x1000 = push_bit 12 (drop_bit 12 v)"
    unfolding BYTE_ALIGN_DOWN_def e by (rule bit_word_eqI) (auto simp: bit_simps)
  moreover have "unat (push_bit 12 (drop_bit 12 v)) = unat v div 4096 * 4096"
  proof -
    have "unat v div 4096 * 4096 < 2 ^ 64" using unsigned_less [of v] by (intro le_less_trans [OF div_times_less_eq_dividend]) simp
    then have "take_bit 64 (push_bit 12 (drop_bit 12 (unat v))) = unat v div 4096 * 4096"
      by (simp add: push_bit_eq_mult drop_bit_eq_div take_bit_nat_eq_self)
    then show ?thesis by (simp add: unsigned_push_bit_eq unat_drop_bit_eq)
  qed
  ultimately show ?thesis by simp
qed

lemma load_section_ok:
  assumes m: "all_spaces R (ld_manager st)" "r \<in> R" "4 * section_pages sec \<le> card (free_frames (ld_manager st))"
    and ok: "section_ok sec" and e: "2 ^ 47 \<le> elfFile"
  shows "\<exists>st'. load_section r elfFile sec st = Some (Inr st') \<and>
    range_alloc R r (section_pages sec) (ld_manager st) (ld_manager st') \<and>
    (\<forall>a. in_section sec a \<longrightarrow> mapped (ld_manager st') r a) \<and>
    loaded (ld_memory st) elfFile (ld_memory st') sec \<and>
    (\<forall>a. \<not> in_section sec a \<longrightarrow> ld_memory st' a = ld_memory st a)"
proof (cases "sh_addr sec = 0")
  case True
  then show ?thesis using range_alloc_refl [OF m(1)] by (simp add: load_section_def in_section_def loaded_def)
next
  case False
  let ?b = "BYTE_ALIGN_DOWN (sh_addr sec) 0x1000" and ?a = "unat (sh_addr sec)" and ?n = "unat (sh_size sec)"
  let ?l = "?b + sh_size sec + 0x2000"
  have b: "unat ?b = ?a div 4096 * 4096" "unat ?b \<le> ?a" "?a < unat ?b + 4096"
    using unat_align_down [of "sh_addr sec"] by (simp_all add: div_times_less_eq_dividend dividend_less_div_times)
  have p: "?n + 0x2000 \<le> 4096 * section_pages sec" by (simp add: section_pages_def)
  have s: "unat ?b + 4096 * section_pages sec \<le> 2 ^ 47" using ok b(2) by (simp add: section_ok_def)
  then have l: "unat ?l = unat ?b + ?n + 0x2000" using p by (simp add: unat_plus_if_size word_size)
  have u: "user_range ?b (section_pages sec)" using s by (simp add: user_range_def b(1))
  obtain m' where m': "alloc_range r ?b ?l (ld_manager st) = Some (Inr m')" "range_alloc R r (section_pages sec) (ld_manager st) m'"
    "\<forall>a. unat ?b \<le> a \<and> a < unat ?l \<longrightarrow> mapped m' r a"
    using alloc_range_ok [OF m(1,2) u m(3), of ?l] p unfolding l by auto
  have "mapped m' r a" if "in_section sec a" for a using m'(3) that b(2,3) unfolding l by (auto simp: in_section_def)
  moreover have "disjoint_ranges ?a (elfFile + unat (sh_offset sec)) ?n"
    using ok p e by (auto simp: disjoint_ranges_def section_ok_def)
  moreover have "memset mem ?a 0 ?n = set_range mem ?a 0 (if 16 \<le> ?n \<and> ?a mod 8 = 0 then 8 * (?n div 8) else ?n)" for mem
    using memset_fills [of 0 mem ?a ?n] by simp
  ultimately show ?thesis using False m'(1,2)
    by (auto simp: load_section_def Let_def loaded_def in_section_def section_fill_def memcpy_def slow_memcpy_spec set_range_def)
qed

lemma load_field_cong: "(\<And>a. p \<le> a \<Longrightarrow> a < p + n \<Longrightarrow> mem' a = mem a) \<Longrightarrow> load_field mem' p n = load_field mem p n"
  unfolding load_field_def by (rule arg_cong [of _ _ load_le], rule map_cong) auto

lemma section_header_cong:
  assumes "\<And>a. idx \<le> a \<Longrightarrow> a < idx + 64 \<Longrightarrow> mem' a = mem a"
  shows "section_header mem' idx = section_header mem idx"
  unfolding section_header_def by (simp, intro conjI; rule load_field_cong; use assms in simp)

lemma load_sections_ok:
  assumes "all_spaces R (ld_manager st)" "r \<in> R" "4 * sum_list (map section_pages secs) \<le> card (free_frames (ld_manager st))"
    and "list_all section_ok secs" "2 ^ 47 \<le> elfFile" "2 ^ 47 \<le> idx"
    and "sorted_wrt (\<lambda>s t. \<forall>a. \<not> (in_section s a \<and> in_section t a)) secs"
    and "\<forall>k<length secs. section_header (ld_memory st) (idx + k * entsize) = secs ! k"
  shows "\<exists>st'. load_sections r elfFile entsize idx (length secs) st = Some (Inr st') \<and>
    range_alloc R r (sum_list (map section_pages secs)) (ld_manager st) (ld_manager st') \<and>
    (\<forall>sec\<in>set secs. \<forall>a. in_section sec a \<longrightarrow> mapped (ld_manager st') r a) \<and>
    list_all (loaded (ld_memory st) elfFile (ld_memory st')) secs \<and>
    (\<forall>a. (\<forall>sec\<in>set secs. \<not> in_section sec a) \<longrightarrow> ld_memory st' a = ld_memory st a)"
  using assms
proof (induction secs arbitrary: st idx)
  case Nil
  then show ?case using range_alloc_refl by simp
next
  case (Cons sec secs)
  have hd: "section_header (ld_memory st) idx = sec" using Cons.prems(8) by (auto dest: spec [of _ 0])
  obtain st1 where s1: "load_section r elfFile sec st = Some (Inr st1)"
    "range_alloc R r (section_pages sec) (ld_manager st) (ld_manager st1)" "\<forall>a. in_section sec a \<longrightarrow> mapped (ld_manager st1) r a"
    "loaded (ld_memory st) elfFile (ld_memory st1) sec" "\<forall>a. \<not> in_section sec a \<longrightarrow> ld_memory st1 a = ld_memory st a"
    using load_section_ok [OF Cons.prems(1,2) _ _ Cons.prems(5), of sec] Cons.prems(3,4) by auto
  have low: "\<not> in_section t a" if "t \<in> set (sec # secs)" "2 ^ 47 \<le> a" for t a
    using Cons.prems(4) that section_low unfolding list_all_iff by blast
  have high: "ld_memory st1 a = ld_memory st a" if "2 ^ 47 \<le> a" for a using s1(5) low that by simp
  have "section_header (ld_memory st1) (idx + entsize + k * entsize) = secs ! k" if "k < length secs" for k
  proof -
    have "section_header (ld_memory st1) (idx + Suc k * entsize) = section_header (ld_memory st) (idx + Suc k * entsize)"
      by (rule section_header_cong) (use high Cons.prems(6) in auto)
    then show ?thesis using Cons.prems(8) that by (auto dest: spec [of _ "Suc k"] simp: ac_simps)
  qed
  moreover have "all_spaces R (ld_manager st1)" "4 * sum_list (map section_pages secs) \<le> card (free_frames (ld_manager st1))"
    using s1(2) Cons.prems(3) by (auto simp: range_alloc_def)
  ultimately obtain st2 where s2: "load_sections r elfFile entsize (idx + entsize) (length secs) st1 = Some (Inr st2)"
    "range_alloc R r (sum_list (map section_pages secs)) (ld_manager st1) (ld_manager st2)"
    "\<forall>sec\<in>set secs. \<forall>a. in_section sec a \<longrightarrow> mapped (ld_manager st2) r a"
    "list_all (loaded (ld_memory st1) elfFile (ld_memory st2)) secs"
    "\<forall>a. (\<forall>sec\<in>set secs. \<not> in_section sec a) \<longrightarrow> ld_memory st2 a = ld_memory st1 a"
    using Cons.IH [of st1 "idx + entsize"] Cons.prems(2,4-7) by auto
  have "loaded (ld_memory st) elfFile (ld_memory st2) sec"
    using s1(4) s2(5) Cons.prems(7) by (auto simp: loaded_def)
  moreover have "loaded (ld_memory st) elfFile (ld_memory st2) t" if "t \<in> set secs" for t
    using s2(4) that high Cons.prems(5) by (auto simp: loaded_def list_all_iff)
  ultimately have "list_all (loaded (ld_memory st) elfFile (ld_memory st2)) (sec # secs)" by (auto simp: list_all_iff)
  moreover have "\<forall>t\<in>set (sec # secs). \<forall>a. in_section t a \<longrightarrow> mapped (ld_manager st2) r a"
    using s1(3) s2(2,3) range_alloc_mapped by fastforce
  moreover have "load_sections r elfFile entsize idx (length (sec # secs)) st = Some (Inr st2)" using hd s1(1) s2(1) by simp
  ultimately show ?case using range_alloc_trans [OF s1(2) s2(2)] s1(5) s2(5) by auto
qed

lemma elf_header_cong:
  assumes "\<And>a. p \<le> a \<Longrightarrow> a < p + 64 \<Longrightarrow> mem' a = mem a"
  shows "elf_header mem' p = elf_header mem p"
  unfolding elf_header_def by (simp, intro conjI; (rule load_field_cong)?; use assms in \<open>auto\<close>)

subsection \<open>Properties\<close>

definition file_sections :: "memory \<Rightarrow> addr \<Rightarrow> Elf64_Shdr list" where
  "file_sections mem p =
     map (\<lambda>k. section_header mem (p + unat (e_shoff (elf_header mem p)) + k * unat (e_shentsize (elf_header mem p))))
       [0..<unat (e_shnum (elf_header mem p))]"

text \<open>
  An executable the loader can load: its sections lie in the lower half of the address space, do not overlap, and are
  in the file; one of them is in the page that the header is copied to, at a distance from the copy.
\<close>

definition loadable :: "byte list \<Rightarrow> Elf64_Shdr list \<Rightarrow> bool" where
  "loadable file secs \<longleftrightarrow> 64 \<le> length file \<and> list_all section_ok secs \<and>
     sorted_wrt (\<lambda>s t. \<forall>a. \<not> (in_section s a \<and> in_section t a)) secs \<and>
     (\<forall>sec\<in>set secs. sh_type sec \<noteq> SHT_NOBITS \<and> sh_addr sec \<noteq> 0 \<longrightarrow> unat (sh_offset sec) + unat (sh_size sec) \<le> length file) \<and>
     (\<exists>sec\<in>set secs. \<exists>a. in_section sec a \<and> a div 4096 = 0x400) \<and>
     (\<forall>sec\<in>set secs. \<forall>a. 0x400000 \<le> a \<and> a < 0x400040 \<longrightarrow> \<not> in_section sec a)"

lemma stack_range_ok:
  assumes "all_spaces R m" "r \<in> R" "68 \<le> card (free_frames m)"
  shows "\<exists>m'. alloc_range r STACK_LOAD (STACK_LOAD + STACK_SIZE + 1) m = Some (Inr m') \<and> range_alloc R r 17 m m' \<and>
    (\<forall>a. 0x1000000 \<le> a \<and> a \<le> 0x1010000 \<longrightarrow> mapped m' r a)"
proof -
  have "(a :: nat) \<le> 0x1010000 \<longleftrightarrow> a < 0x1010001" for a by auto
  then show ?thesis
    using alloc_range_ok [OF assms(1,2), of STACK_LOAD 17 "STACK_LOAD + STACK_SIZE + 1"] assms(3)
    by (simp add: STACK_LOAD_def STACK_SIZE_def user_range_def)
qed

lemma prepare_elf_ok:
  fixes st :: LoaderState and file_bytes :: "byte list" and p :: addr
  defines "mem \<equiv> store_file file_bytes p (ld_memory st)"
  assumes m: "all_spaces R (ld_manager st)" "r \<in> R" and p: "2 ^ 47 \<le> p"
    and h: "check_elf_header_ident (elf_header mem p)" "check_elf_header_support (elf_header mem p)" "e_shentsize (elf_header mem p) \<noteq> 0"
    and l: "loadable file_bytes (file_sections mem p)"
    and f: "4 * (sum_list (map section_pages (file_sections mem p)) + 17) \<le> card (free_frames (ld_manager st))"
  shows "\<exists>st'. prepare_elf r file_bytes p st = Some (Inr (Some (e_entry (elf_header mem p)), st')) \<and>
    range_alloc R r (sum_list (map section_pages (file_sections mem p)) + 17) (ld_manager st) (ld_manager st') \<and>
    (\<forall>sec\<in>set (file_sections mem p). (\<forall>a. in_section sec a \<longrightarrow> mapped (ld_manager st') r a) \<and> loaded mem p (ld_memory st') sec) \<and>
    (\<forall>i<64. ld_memory st' (0x400000 + i) = mem (p + i)) \<and>
    (\<forall>a. 0x1000000 \<le> a \<and> a \<le> 0x1010000 \<longrightarrow> mapped (ld_manager st') r a)"
proof -
  let ?st = "st\<lparr>ld_memory := mem\<rparr>" and ?h = "elf_header mem p" and ?secs = "file_sections mem p"
  let ?idx = "p + unat (e_shoff ?h)"
  note l' = l [unfolded loadable_def]
  obtain st1 where s1: "load_sections r p (unat (e_shentsize ?h)) ?idx (length ?secs) ?st = Some (Inr st1)"
    "range_alloc R r (sum_list (map section_pages ?secs)) (ld_manager st) (ld_manager st1)"
    "\<forall>sec\<in>set ?secs. \<forall>a. in_section sec a \<longrightarrow> mapped (ld_manager st1) r a" "list_all (loaded mem p (ld_memory st1)) ?secs"
    "\<forall>a. (\<forall>sec\<in>set ?secs. \<not> in_section sec a) \<longrightarrow> ld_memory st1 a = mem a"
    using load_sections_ok [of R ?st r ?secs p ?idx "unat (e_shentsize ?h)"] m p f l' by (auto simp: file_sections_def)
  have a1: "all_spaces R (ld_manager st1)" "68 \<le> card (free_frames (ld_manager st1))" using s1(2) f by (auto simp: range_alloc_def)
  have high: "ld_memory st1 a = mem a" if "2 ^ 47 \<le> a" for a
    using s1(5) l' that section_low unfolding list_all_iff by blast
  obtain sec0 a0 where a0: "sec0 \<in> set ?secs" "in_section sec0 a0" "a0 div 4096 = 0x400" using l' by blast
  then have "mapped (ld_manager st1) r a0" using s1(3) by blast
  then have "mapped (ld_manager st1) r 0x400000" using mapped_same_page [OF a1(1) m(2), of a0 "0x400000"] a0(3) by simp
  then have map: "get_physical_address (ld_manager st1) r ELF_HEADER_COPY \<noteq> 0" by (simp add: mapped_def ELF_HEADER_COPY_def)
  define mem2 where "mem2 = memcpy (ld_memory st1) 0x400000 p 64"
  have "disjoint_ranges 0x400000 p 64" using p by (simp add: disjoint_ranges_def)
  then have mem2: "mem2 a = (if 0x400000 \<le> a \<and> a < 0x400040 then ld_memory st1 (p + (a - 0x400000)) else ld_memory st1 a)" for a
    by (simp add: mem2_def memcpy_def slow_memcpy_spec)
  have eh: "elf_header mem2 p = ?h" by (rule elf_header_cong) (use mem2 high p in auto)
  obtain m2 where m2: "alloc_range r STACK_LOAD (STACK_LOAD + STACK_SIZE + 1) (ld_manager st1) = Some (Inr m2)"
    "range_alloc R r 17 (ld_manager st1) m2" "\<forall>a. 0x1000000 \<le> a \<and> a \<le> 0x1010000 \<longrightarrow> mapped m2 r a"
    using stack_range_ok [OF a1(1) m(2) a1(2)] by blast
  let ?st2 = "st1\<lparr>ld_memory := mem2, ld_regions := insert_region \<lparr>r_start = STACK_LOAD, r_end = STACK_LOAD + STACK_SIZE\<rparr> (ld_regions st1), ld_manager := m2\<rparr>"
  have "length ?secs = (if e_shentsize ?h = 0 then 0 else unat (e_shnum ?h))" using h(3) by (simp add: file_sections_def)
  then have "prepare_elf r file_bytes p st = Some (Inr (Some (e_entry ?h), ?st2))"
    using h s1(1) map m2(1) eh by (simp add: prepare_elf_def Let_def mem_def [symmetric] mem2_def ELF_HEADER_COPY_def sizeof_Elf64_Ehdr_def)
  moreover have "loaded mem p mem2 sec" if "sec \<in> set ?secs" for sec
    using s1(4) that mem2 l' by (auto simp: loaded_def list_all_iff)
  moreover have "mem2 (0x400000 + i) = mem (p + i)" if "i < 64" for i using mem2 high p that by simp
  ultimately show ?thesis using range_alloc_trans [OF s1(2) m2(2)] s1(3) range_alloc_mapped [OF m2(2)] m2(3) by (intro exI [of _ ?st2]) auto
qed

lemma load_file_field:
  assumes "k + n \<le> length f"
  shows "load_field (store_file f p mem) (p + k) n = load_le (take n (drop k f))"
proof -
  have "map (store_file f p mem) [p + k..<p + k + n] = take n (drop k f)"
    using assms by (intro nth_equalityI) (auto simp: store_file_def)
  then show ?thesis by (simp add: load_field_def)
qed

text \<open>
  The comment in the loader says that sections without contents should be filled with zeros. \<open>memset\<close> fills whole
  words, so the last bytes of such a section keep what the memory held before.
\<close>

definition left_out :: "Elf64_Shdr \<Rightarrow> nat \<Rightarrow> bool" where
  "left_out sec i \<longleftrightarrow> sh_type sec = SHT_NOBITS \<and> 16 \<le> unat (sh_size sec) \<and> unat (sh_addr sec) mod 8 = 0 \<and>
     8 * (unat (sh_size sec) div 8) \<le> i"

lemma section_fill_left_out: "i < unat (sh_size sec) \<Longrightarrow> i < section_fill sec \<longleftrightarrow> \<not> left_out sec i"
  by (auto simp: section_fill_def left_out_def Let_def)

lemma nobits_tail_unfilled:
  assumes "load_section r elfFile sec st = Some (Inr st')" "sh_addr sec \<noteq> 0" "left_out sec i"
  shows "ld_memory st' (unat (sh_addr sec) + i) = ld_memory st (unat (sh_addr sec) + i)"
  using assms memset_fills [of 0 "ld_memory st" "unat (sh_addr sec)" "unat (sh_size sec)"]
  by (auto simp: load_section_def left_out_def Let_def set_range_def split: option.splits sum.splits)


lemma load_le_zeros: "load_le (replicate n 0) = 0"
  by (induction n) simp_all

text \<open>An executable with one section of four bytes.\<close>

definition example_elf :: "byte list" where
  "example_elf =
     [0x7F, 0x45, 0x4C, 0x46, 2, 1, 1, 0, 0, 0, 0, 0, 0, 0, 0, 0, 2, 0, 62, 0, 1, 0, 0, 0, 0, 1, 0x40, 0, 0, 0, 0, 0,
      0, 0, 0, 0, 0, 0, 0, 0, 64, 0, 0, 0, 0, 0, 0, 0, 0, 0, 0, 0, 64, 0, 0, 0, 0, 0, 64, 0, 2, 0, 0, 0] @
     replicate 64 0 @
     [0, 0, 0, 0, 1, 0, 0, 0, 0, 0, 0, 0, 0, 0, 0, 0, 0, 1, 0x40, 0, 0, 0, 0, 0, 192, 0, 0, 0, 0, 0, 0, 0,
      4, 0, 0, 0, 0, 0, 0, 0] @ replicate 24 0 @ [0x90, 0x90, 0xC3, 0x55]"

lemma example_elf_fields:
  fixes p :: addr and mem :: memory
  defines "m \<equiv> store_file example_elf p mem"
  shows "check_elf_header_ident (elf_header m p)" "check_elf_header_support (elf_header m p)" "e_shentsize (elf_header m p) = 64"
    "e_shoff (elf_header m p) = 64" "e_shnum (elf_header m p) = 2" "e_entry (elf_header m p) = 0x400100"
    "sh_addr (section_header m (p + 64)) = 0" "sh_addr (section_header m (p + 128)) = 0x400100" "sh_offset (section_header m (p + 128)) = 192"
    "sh_size (section_header m (p + 64)) = 0" "sh_size (section_header m (p + 128)) = 4" "sh_type (section_header m (p + 128)) = 1"
proof -
  have len: "length example_elf = 196" by (simp add: example_elf_def)
  have b: "m (p + k) = example_elf ! k" if "k < 196" for k using that by (simp add: m_def store_file_def len)
  have f: "load_field m (p + k) n = load_le (take n (drop k example_elf))" if "k + n \<le> 196" for k n
    unfolding m_def by (rule load_file_field) (use that len in simp)
  show "check_elf_header_ident (elf_header m p)" "check_elf_header_support (elf_header m p)"
    using b [of 0] b [of 1] b [of 2] b [of 3] b [of 4] b [of 5] b [of 6]
    by (simp_all add: check_elf_header_ident_def check_elf_header_support_def elf_header_def f, simp_all add: example_elf_def)
  show "e_shentsize (elf_header m p) = 64" "e_shoff (elf_header m p) = 64" "e_shnum (elf_header m p) = 2" "e_entry (elf_header m p) = 0x400100"
    by (simp_all add: elf_header_def f, simp_all add: example_elf_def)
  show "sh_addr (section_header m (p + 64)) = 0" "sh_addr (section_header m (p + 128)) = 0x400100" "sh_offset (section_header m (p + 128)) = 192"
    "sh_size (section_header m (p + 64)) = 0" "sh_size (section_header m (p + 128)) = 4" "sh_type (section_header m (p + 128)) = 1"
    by (simp_all add: section_header_def add.assoc f, simp_all add: example_elf_def load_le_zeros)
qed


text \<open>A file without a valid header is ignored: the task keeps its entry point, and the caller is not told.\<close>

lemma prepare_elf_rejects:
  assumes "\<not> check_elf_header_ident (elf_header (store_file file_bytes p (ld_memory st)) p)"
  shows "prepare_elf r file_bytes p st = Some (Inr (None, st\<lparr>ld_memory := store_file file_bytes p (ld_memory st)\<rparr>))"
  using assms by (simp add: prepare_elf_def Let_def)

end
