(* ===== verification/Page_Loops.thy ===== *)
theory Page_Loops
  imports Loader_ELF
begin

text \<open>
  Loops that allocate one page after the other. \<open>vmmap_syscall\<close> and \<open>replacement_sbrk\<close> have such a loop; the locale has what
  they share: every byte of the range is mapped afterwards, and nothing else has changed.
\<close>

definition page_range :: "u64 \<Rightarrow> nat \<Rightarrow> bool" where
  "page_range v n \<longleftrightarrow> unat v mod 4096 = 0 \<and> unat v + 4096 * n < 2 ^ 64 \<and> (\<forall>k<n. PML4_index (v + of_nat k * 0x1000) \<noteq> 511)"

lemma user_range_pages: "user_range v n \<Longrightarrow> page_range v n"
  using user_range_page(3) [of v n] by (auto simp: page_range_def user_range_def)

lemma page_aligned_word: "unat (v :: u64) mod 4096 = 0 \<Longrightarrow> CHECK_ALIGN v 0x1000"
  using unat_and_mask [of v 12] by (simp add: CHECK_ALIGN_def mask_eq_exp_minus_1 unat_eq_zero)

lemma page_range_tail:
  assumes "page_range v (Suc n)"
  shows "page_range (v + 0x1000) n" "unat (v + 0x1000) = unat v + 4096" "CHECK_ALIGN v 0x1000" "PML4_index v \<noteq> 511"
proof -
  note p = assms [unfolded page_range_def]
  have e: "v + 0x1000 = of_nat (unat v + 4096)" by simp
  show u: "unat (v + 0x1000) = unat v + 4096" unfolding e by (rule unat_of_nat_64) (use p in simp)
  have "PML4_index (v + 0x1000 + of_nat k * 0x1000) \<noteq> 511" if "k < n" for k
    using p that by (auto simp: algebra_simps dest!: spec [of _ "Suc k"])
  then show "page_range (v + 0x1000) n" using p u by (simp add: page_range_def)
  show "CHECK_ALIGN v 0x1000" "PML4_index v \<noteq> 511" using page_aligned_word p by (auto dest: spec [of _ 0])
qed

locale page_allocation =
  fixes alloc_pages :: "u64 \<Rightarrow> u64 \<Rightarrow> u64 \<Rightarrow> Manager \<Rightarrow> Manager kresult option"
  assumes alloc_pages_step: "alloc_pages r page limit m =
    (if page < limit
     then case alloc_page \<lparr>alloc_virtualAddress = page, alloc_allowWrite = True, alloc_allowUserAccess = True\<rparr> r m of
            Inl err \<Rightarrow> Some (Inl err)
          | Inr m \<Rightarrow> if page + 0x1000 < page then None else alloc_pages r (page + 0x1000) limit m
     else Some (Inr m))"
begin

lemma pages_allocated:
  assumes "all_spaces R m" "r \<in> R" "page_range page n" "4 * n \<le> card (free_frames m)" "unat limit \<le> unat page + 4096 * n"
  shows "\<exists>m'. alloc_pages r page limit m = Some (Inr m') \<and> all_spaces R m' \<and>
    (\<forall>a. unat page \<le> a \<and> a < unat limit \<or> mapped m r a \<longrightarrow> mapped m' r a) \<and>
    (\<forall>r'\<in>R. \<forall>v. r' \<noteq> r \<or> (\<forall>i<n. \<not> same_page PAGE_4KiB (page + of_nat i * 0x1000) v) \<longrightarrow>
       get_physical_address m' r' v = get_physical_address m r' v)"
  using assms
proof (induction n arbitrary: page m)
  case 0
  then have "\<not> page < limit" by (simp add: word_less_nat_alt)
  then show ?case using 0 by (auto simp: alloc_pages_step [of r page])
next
  case (Suc n)
  show ?case
  proof (cases "page < limit")
    case False
    then show ?thesis using Suc.prems by (auto simp: alloc_pages_step [of r page] word_less_nat_alt)
  next
    case True
    let ?req = "\<lparr>alloc_virtualAddress = page, alloc_allowWrite = True, alloc_allowUserAccess = True\<rparr>"
    have v0: "CHECK_ALIGN page 0x1000" "PML4_index page \<noteq> 511" by (rule page_range_tail [OF Suc.prems(3)])+
    obtain m1 f where m1: "alloc_page ?req r m = Inr m1" "all_spaces R m1" "f \<noteq> 0" "card (free_frames m) \<le> card (free_frames m1) + 4"
      "\<forall>r'\<in>R. \<forall>v. get_physical_address m1 r' v = (if r' = r \<and> same_page PAGE_4KiB page v then f else get_physical_address m r' v)"
      using all_spaces_alloc [OF Suc.prems(1,2), of ?req] Suc.prems(4) v0 by auto
    note u = page_range_tail(1,2) [OF Suc.prems(3)]
    have sh: "page + 0x1000 + of_nat i * 0x1000 = page + of_nat (Suc i) * 0x1000" for i by (simp add: algebra_simps)
    obtain m2 where m2: "alloc_pages r (page + 0x1000) limit m1 = Some (Inr m2)" "all_spaces R m2"
      "\<forall>a. unat page + 4096 \<le> a \<and> a < unat limit \<or> mapped m1 r a \<longrightarrow> mapped m2 r a"
      "\<forall>r'\<in>R. \<forall>v. r' \<noteq> r \<or> (\<forall>i<n. \<not> same_page PAGE_4KiB (page + of_nat (Suc i) * 0x1000) v) \<longrightarrow>
         get_physical_address m2 r' v = get_physical_address m1 r' v"
      using Suc.IH [OF m1(2) Suc.prems(2) u(1)] Suc.prems(4,5) m1(4) u(2) unfolding sh by auto
    have "alloc_pages r page limit m = Some (Inr m2)"
      using True m1(1) m2(1) u(2) by (subst alloc_pages_step) (auto simp: word_less_nat_alt)
    moreover have "mapped m2 r a" if "unat page \<le> a \<and> a < unat limit \<or> mapped m r a" for a
    proof (cases "same_page PAGE_4KiB page (of_nat a) \<or> mapped m r a")
      case True
      then have "mapped m1 r a" using m1(3,5) Suc.prems(2) by (auto simp: mapped_def)
      then show ?thesis using m2(3) by blast
    next
      case False
      have "unat page mod 4096 = 0" using Suc.prems(3) by (simp add: page_range_def)
      then obtain q where q: "unat page = 4096 * q" by (auto simp: mod_eq_0_iff_dvd dvd_def)
      have "unat page + 4096 \<le> a"
      proof (rule ccontr)
        assume "\<not> unat page + 4096 \<le> a"
        then have "a div 4096 = q" using q that False by (intro div_nat_eqI) auto
        then have "unat page div 4096 = a div 4096" using q by simp
        then have "same_page PAGE_4KiB (of_nat (unat page)) (of_nat a)" by (rule same_page_of_nat)
        then show False using False by simp
      qed
      then show ?thesis using m2(3) that False by blast
    qed
    moreover have "get_physical_address m2 r' v = get_physical_address m r' v"
      if "r' \<in> R" "r' \<noteq> r \<or> (\<forall>i<Suc n. \<not> same_page PAGE_4KiB (page + of_nat i * 0x1000) v)" for r' v
    proof (cases "r' = r")
      case True
      then have n: "\<not> same_page PAGE_4KiB (page + of_nat i * 0x1000) v" if "i < Suc n" for i using that \<open>r' \<noteq> r \<or> _\<close> by simp
      show ?thesis using n [of 0] n [of "Suc _"] m2(4) m1(5) that(1) True by simp
    next
      case False
      then show ?thesis using m2(4) m1(5) that(1) by simp
    qed
    ultimately show ?thesis using m2(2) by blast
  qed
qed

end

end
