(* ===== verification/Syscalls.thy ===== *)
theory Syscalls
  imports Pipes_Theorems Common_Hashmap Page_Loops
begin

text \<open>
  The system calls, \<open>Kernel/Syscalls/SyscallHandler.cpp\<close>. Each call works for the current task: on the pipes in its
  descriptor table, which the threads of a process share, on its address space, and on the wait queues of its group.
  The memory is that of the current task; the arguments of a call are its registers. The record \<open>SysEnv\<close> holds what
  happens outside: the environment of the pipe operations, what other tasks do while a call waits, and the address
  of a new descriptor of a thread. A call returns the value for the register, or \<^const>\<open>None\<close> for a fault; calls that
  allocate memory can panic, which is \<^const>\<open>Inl\<close>. Setting the segment base and printing are not modelled.
\<close>

record KernelState =
  ks_pipes :: PipeState
  ks_tables :: "addr \<rightharpoonup> PipeTable"
  ks_openPipes :: "TaskID \<rightharpoonup> addr"
  ks_manager :: Manager
  ks_regions :: "u64 \<rightharpoonup> MappedRegion list"
  ks_futexes :: "GroupID \<Rightarrow> u64 \<rightharpoonup> WaitQueue"
  ks_memory :: memory

record SysEnv =
  se_env :: Env
  se_between :: "PipeState \<Rightarrow> PipeState option"
  se_during :: "PipeState \<Rightarrow> PipeState option"
  se_steps :: "(KernelState \<Rightarrow> KernelState option) list"
  se_tld :: u64

type_synonym sysresult = "(u64 \<times> KernelState) option"

definition current_task :: "KernelState \<Rightarrow> Task option" where
  "current_task k = get_current_task (ps_tm (ks_pipes k))"

subsection \<open>Pipes\<close>

definition open_table :: "KernelState \<Rightarrow> (addr \<times> PipeTable) option" where
  "open_table k = do {
     task \<leftarrow> current_task k;
     a \<leftarrow> ks_openPipes k (t_tid task);
     t \<leftarrow> ks_tables k a;
     Some (a, t)
   }"

definition get_pipe :: "u64 \<Rightarrow> KernelState \<Rightarrow> addr option option" where
  "get_pipe pd k = do { (_, t) \<leftarrow> open_table k; PipeTable_get t pd }"

partial_function (option) string_at :: "memory \<Rightarrow> addr \<Rightarrow> byte list option" where
  "string_at mem a = (if mem a = 0 then Some [] else do { s \<leftarrow> string_at mem (a + 1); Some (mem a # s) })"

definition insert_pipe :: "addr \<Rightarrow> KernelState \<Rightarrow> sysresult" where
  "insert_pipe pipe k = do {
     (a, t) \<leftarrow> open_table k;
     (t, pd) \<leftarrow> PipeTable_insert t pipe;
     Some (pd, k\<lparr>ks_tables := (ks_tables k)(a \<mapsto> t)\<rparr>)
   }"

definition popen_syscall :: "SysEnv \<Rightarrow> u64 \<Rightarrow> u64 \<Rightarrow> KernelState \<Rightarrow> sysresult" where
  "popen_syscall env dev flags k = do {
     name \<leftarrow> string_at (ks_memory k) (unat dev);
     (P, st) \<leftarrow> pipe_construct (se_env env) name (sint (ucast flags :: u32)) (ks_pipes k);
     let pipe = ps_next st;
     insert_pipe pipe (k\<lparr>ks_pipes := set_pipe pipe P (st\<lparr>ps_next := ps_next st + 1\<rparr>)\<rparr>)
   }"

definition pread_syscall :: "SysEnv \<Rightarrow> u64 \<Rightarrow> u64 \<Rightarrow> u64 \<Rightarrow> KernelState \<Rightarrow> sysresult" where
  "pread_syscall env pd buf cnt k = do {
     optPipe \<leftarrow> get_pipe pd k;
     case optPipe of
       None \<Rightarrow> Some (0, k)
     | Some pipe \<Rightarrow> do {
         (n, bytes, st) \<leftarrow> pipe_read (se_env env) pipe (unat cnt) (ks_pipes k);
         Some (of_nat n, k\<lparr>ks_pipes := st, ks_memory := store_file bytes (unat buf) (ks_memory k)\<rparr>)
       }
   }"

definition pwrite_syscall :: "SysEnv \<Rightarrow> u64 \<Rightarrow> u64 \<Rightarrow> u64 \<Rightarrow> KernelState \<Rightarrow> sysresult" where
  "pwrite_syscall env pd buf cnt k = do {
     optPipe \<leftarrow> get_pipe pd k;
     case optPipe of
       None \<Rightarrow> Some (0, k)
     | Some pipe \<Rightarrow> do {
         (n, st) \<leftarrow> pipe_write (se_env env) pipe (map (ks_memory k) [unat buf..<unat buf + unat cnt]) (ks_pipes k);
         Some (of_nat n, k\<lparr>ks_pipes := st\<rparr>)
       }
   }"

definition delete_pipe :: "SysEnv \<Rightarrow> addr \<Rightarrow> PipeState \<Rightarrow> PipeState option" where
  "delete_pipe env pipe st = do {
     P \<leftarrow> ps_pipes st pipe;
     st \<leftarrow> pipe_destruct (se_env env) P st;
     Some (st\<lparr>ps_pipes := (ps_pipes st)(pipe := None)\<rparr>)
   }"

definition pclose_syscall :: "SysEnv \<Rightarrow> u64 \<Rightarrow> KernelState \<Rightarrow> sysresult" where
  "pclose_syscall env pd k = do {
     optPipe \<leftarrow> get_pipe pd k;
     case optPipe of
       None \<Rightarrow> Some (0, k)
     | Some pipe \<Rightarrow> do {
         st \<leftarrow> delete_pipe env pipe (ks_pipes k);
         let k = k\<lparr>ks_pipes := st\<rparr>;
         (a, t) \<leftarrow> open_table k;
         t \<leftarrow> PipeTable_remove t pd;
         Some (0, k\<lparr>ks_tables := (ks_tables k)(a \<mapsto> t)\<rparr>)
       }
   }"

definition seek_type :: "u64 \<Rightarrow> SeekType" where
  "seek_type w = (if w = 0 then SEEK_SET else if w = 1 then SEEK_CUR else SEEK_END)"

definition pseek_syscall :: "u64 \<Rightarrow> u64 \<Rightarrow> u64 \<Rightarrow> KernelState \<Rightarrow> sysresult" where
  "pseek_syscall pd offset type k = do {
     optPipe \<leftarrow> get_pipe pd k;
     case optPipe of
       None \<Rightarrow> Some (0, k)
     | Some pipe \<Rightarrow> do {
         P \<leftarrow> ps_pipes (ks_pipes k) pipe;
         let (r, P) = pipe_seek (sint offset) (seek_type type) P;
         Some (r, k\<lparr>ks_pipes := set_pipe pipe P (ks_pipes k)\<rparr>)
       }
   }"

definition pinfo_syscall :: "SysEnv \<Rightarrow> u64 \<Rightarrow> u64 \<Rightarrow> KernelState \<Rightarrow> sysresult" where
  "pinfo_syscall env pd usrptr k = do {
     optPipe \<leftarrow> get_pipe pd k;
     case optPipe of
       None \<Rightarrow> Some (- 1, k)
     | Some pipe \<Rightarrow> do {
         n \<leftarrow> pipe_info (se_env env) pipe (ks_pipes k);
         Some (0, k\<lparr>ks_memory := store_file (le_bytes 8 (of_nat n :: u64)) (unat usrptr) (ks_memory k)\<rparr>)
       }
   }"

definition elistener_add_syscall :: "SysEnv \<Rightarrow> u64 \<Rightarrow> u64 \<Rightarrow> u64 \<Rightarrow> KernelState \<Rightarrow> sysresult" where
  "elistener_add_syscall env listenerpd targetpd eventMask k = do {
     optPipe \<leftarrow> get_pipe listenerpd k;
     case optPipe of
       None \<Rightarrow> Some (0, k)
     | Some pipe \<Rightarrow> do {
         optTargetPipe \<leftarrow> get_pipe targetpd k;
         case optTargetPipe of
           None \<Rightarrow> Some (0, k)
         | Some target \<Rightarrow> do {
             st \<leftarrow> el_add (se_env env) pipe target targetpd eventMask (ks_pipes k);
             Some (1, k\<lparr>ks_pipes := st\<rparr>)
           }
       }
   }"

definition elistener_remove_syscall :: "SysEnv \<Rightarrow> u64 \<Rightarrow> u64 \<Rightarrow> u64 \<Rightarrow> KernelState \<Rightarrow> sysresult" where
  "elistener_remove_syscall env listenerpd targetpd eventMask k = do {
     optPipe \<leftarrow> get_pipe listenerpd k;
     case optPipe of
       None \<Rightarrow> Some (0, k)
     | Some pipe \<Rightarrow> do {
         optTargetPipe \<leftarrow> get_pipe targetpd k;
         case optTargetPipe of
           None \<Rightarrow> Some (0, k)
         | Some target \<Rightarrow> do {
             st \<leftarrow> el_remove (se_env env) pipe target targetpd eventMask (ks_pipes k);
             Some (1, k\<lparr>ks_pipes := st\<rparr>)
           }
       }
   }"

subsection \<open>Local sockets\<close>

definition of_flag :: "bool \<Rightarrow> u64" where
  "of_flag b = (if b then 1 else 0)"

definition lsock_accept :: "SysEnv \<Rightarrow> u64 \<Rightarrow> KernelState \<Rightarrow> sysresult" where
  "lsock_accept env pd k = do {
     optPipe \<leftarrow> get_pipe pd k;
     case optPipe of
       None \<Rightarrow> Some (0, k)
     | Some pipe \<Rightarrow> do {
         (P, st) \<leftarrow> pipe_construct (se_env env) (bytes_of ''socket::local'') 1 (ks_pipes k);
         let newPipe = ps_next st;
         (didCreate, st) \<leftarrow> ls_accept (env_now (se_env env)) (se_between env) (se_during env) pipe newPipe
                              (set_pipe newPipe P (st\<lparr>ps_next := ps_next st + 1\<rparr>));
         if \<not> didCreate then do { st \<leftarrow> delete_pipe env newPipe st; Some (0, k\<lparr>ks_pipes := st\<rparr>) }
         else insert_pipe newPipe (k\<lparr>ks_pipes := st\<rparr>)
       }
   }"

definition lsock_connect :: "SysEnv \<Rightarrow> u64 \<Rightarrow> u64 \<Rightarrow> KernelState \<Rightarrow> sysresult" where
  "lsock_connect env pd ident k = do {
     optPipe \<leftarrow> get_pipe pd k;
     case optPipe of
       None \<Rightarrow> Some (0, k)
     | Some pipe \<Rightarrow> do {
         name \<leftarrow> string_at (ks_memory k) (unat ident);
         (r, st) \<leftarrow> ls_connect (env_now (se_env env)) (se_between env) (se_during env) pipe name (ks_pipes k);
         Some (of_flag r, k\<lparr>ks_pipes := st\<rparr>)
       }
   }"

definition lsock_bind :: "u64 \<Rightarrow> u64 \<Rightarrow> KernelState \<Rightarrow> sysresult" where
  "lsock_bind pd ident k = do {
     optPipe \<leftarrow> get_pipe pd k;
     case optPipe of
       None \<Rightarrow> Some (0, k)
     | Some pipe \<Rightarrow> do {
         name \<leftarrow> string_at (ks_memory k) (unat ident);
         (r, st) \<leftarrow> ls_bind pipe name (ks_pipes k);
         Some (of_flag r, k\<lparr>ks_pipes := st\<rparr>)
       }
   }"

definition lsock_listen :: "u64 \<Rightarrow> KernelState \<Rightarrow> sysresult" where
  "lsock_listen pd k = do {
     optPipe \<leftarrow> get_pipe pd k;
     case optPipe of
       None \<Rightarrow> Some (0, k)
     | Some pipe \<Rightarrow> do {
         (r, st) \<leftarrow> ls_listen pipe (ks_pipes k);
         Some (of_flag r, k\<lparr>ks_pipes := st\<rparr>)
       }
   }"

subsection \<open>Threads and futexes\<close>

definition sleep_for_syscall :: "SysEnv \<Rightarrow> u64 \<Rightarrow> KernelState \<Rightarrow> sysresult" where
  "sleep_for_syscall env duration k = do {
     tm \<leftarrow> sleep_for (env_now (se_env env)) (unat duration) (ps_tm (ks_pipes k));
     Some (0, k\<lparr>ks_pipes := (ks_pipes k)\<lparr>ps_tm := tm\<rparr>\<rparr>)
   }"

definition gettid_syscall :: "KernelState \<Rightarrow> u64" where
  "gettid_syscall k = of_nat (m_currentTask (ps_tm (ks_pipes k)))"

text \<open>
  A new thread starts in \<open>thread_start_helper\<close>, which reads the entry point and the stack pointer of the program from the
  block that \<open>launch_thread\<close> filled; the block is a \<open>ThreadLaunchDescriptor\<close>. The result of the helper is what it passes to the
  switch to user mode.
\<close>

definition ThreadLaunchDescriptor :: "u64 \<Rightarrow> u64 \<Rightarrow> byte list" where
  "ThreadLaunchDescriptor entryPoint stack = le_bytes 8 entryPoint @ le_bytes 8 stack"

definition thread_start_helper :: "u64 \<Rightarrow> KernelState \<Rightarrow> u64 \<times> u64" where
  "thread_start_helper tld k = (load_field (ks_memory k) (unat tld) 8, load_field (ks_memory k) (unat tld + 8) 8)"

definition launch_thread_syscall :: "SysEnv \<Rightarrow> u64 \<Rightarrow> u64 \<Rightarrow> u64 \<Rightarrow> KernelState \<Rightarrow> (u64 \<times> KernelState) kresult option" where
  "launch_thread_syscall env helper entryPoint stack k =
     (let k = k\<lparr>ks_memory := store_file (ThreadLaunchDescriptor entryPoint stack) (unat (se_tld env)) (ks_memory k)\<rparr>
      in case launch_thread helper (se_tld env) (ks_manager k) (ps_tm (ks_pipes k)) of
        Inl err \<Rightarrow> Some (Inl err)
      | Inr (m, None) \<Rightarrow> None
      | Inr (m, Some (tid, tm)) \<Rightarrow>
          (case current_task k of
             None \<Rightarrow> None
           | Some task \<Rightarrow>
               Some (Inr (of_nat tid,
                 k\<lparr>ks_manager := m, ks_pipes := (ks_pipes k)\<lparr>ps_tm := tm\<rparr>,
                   ks_openPipes := (ks_openPipes k)(tid := ks_openPipes k (t_tid task))\<rparr>))))"

definition set_futex :: "GroupID \<Rightarrow> u64 \<Rightarrow> WaitQueue \<Rightarrow> KernelState \<Rightarrow> KernelState" where
  "set_futex gid p q k = k\<lparr>ks_futexes := (ks_futexes k)(gid := (ks_futexes k gid)(p \<mapsto> q))\<rparr>"

definition futex_wake :: "u64 \<Rightarrow> KernelState \<Rightarrow> sysresult" where
  "futex_wake p k = do {
     task \<leftarrow> current_task k;
     case ks_futexes k (t_groupId task) p of
       None \<Rightarrow> Some (0, k)
     | Some q \<Rightarrow>
         if queue_is_empty q then Some (0, k)
         else do { (_, tm) \<leftarrow> wake_one q (ps_tm (ks_pipes k)); Some (1, k\<lparr>ks_pipes := (ks_pipes k)\<lparr>ps_tm := tm\<rparr>\<rparr>) }
   }"

definition futex_value :: "u64 \<Rightarrow> KernelState \<Rightarrow> u32" where
  "futex_value p k = load_field (ks_memory k) (unat p) 4"

definition futex_enter :: "u64 \<Rightarrow> KernelState \<Rightarrow> (addr \<times> GroupID \<times> KernelState) option" where
  "futex_enter p k = do {
     task \<leftarrow> current_task k;
     let gid = t_groupId task;
     let q = (case ks_futexes k gid p of None \<Rightarrow> [] | Some q \<Rightarrow> q);
     let st = ks_pipes k;
     (wqItem, q, tm) \<leftarrow> add_to_queue (ps_next st) q (ps_tm st);
     Some (wqItem, gid, set_futex gid p q (k\<lparr>ks_pipes := st\<lparr>ps_tm := tm, ps_next := ps_next st + 1\<rparr>\<rparr>))
   }"

fun futex_loop :: "nat \<Rightarrow> (KernelState \<Rightarrow> KernelState option) list \<Rightarrow> u64 \<Rightarrow> u32 \<Rightarrow> KernelState \<Rightarrow> KernelState option" where
  "futex_loop now steps p expected k =
     (if futex_value p k = expected
      then case steps of
             [] \<Rightarrow> None
           | during # steps \<Rightarrow> do {
               tm \<leftarrow> block now (ps_tm (ks_pipes k));
               k \<leftarrow> during (k\<lparr>ks_pipes := (ks_pipes k)\<lparr>ps_tm := tm\<rparr>\<rparr>);
               futex_loop now steps p expected k
             }
      else Some k)"

definition futex_leave :: "addr \<Rightarrow> GroupID \<Rightarrow> u64 \<Rightarrow> KernelState \<Rightarrow> KernelState option" where
  "futex_leave wqItem gid p k = do {
     q \<leftarrow> ks_futexes k gid p;
     q \<leftarrow> remove_from_queue wqItem q;
     Some (set_futex gid p q k)
   }"

definition futex_wait :: "SysEnv \<Rightarrow> u64 \<Rightarrow> u64 \<Rightarrow> KernelState \<Rightarrow> sysresult" where
  "futex_wait env p exp k = do {
     (wqItem, gid, k) \<leftarrow> futex_enter p k;
     k \<leftarrow> futex_loop (env_now (se_env env)) (se_steps env) p (ucast exp) k;
     k \<leftarrow> futex_leave wqItem gid p k;
     Some (0, k)
   }"

subsection \<open>Memory\<close>

function map_region :: "u64 \<Rightarrow> u64 \<Rightarrow> u64 \<Rightarrow> Manager \<Rightarrow> Manager kresult option" where
  "map_region tlTable allocateSpace limit m =
     (if allocateSpace < limit
      then case alloc_page \<lparr>alloc_virtualAddress = allocateSpace, alloc_allowWrite = True, alloc_allowUserAccess = True\<rparr> tlTable m of
             Inl err \<Rightarrow> Some (Inl err)
           | Inr m \<Rightarrow> if allocateSpace + 0x1000 < allocateSpace then None else map_region tlTable (allocateSpace + 0x1000) limit m
      else Some (Inr m))"
  by auto
termination by (relation "measure (\<lambda>(_, page, limit, _). unat limit - unat page)") (auto intro: page_step_less)

declare map_region.simps [simp del]

definition vmmap_syscall :: "u64 \<Rightarrow> u64 \<Rightarrow> u64 \<Rightarrow> u64 \<Rightarrow> KernelState \<Rightarrow> (u64 \<times> KernelState) kresult option" where
  "vmmap_syscall address sz hint flags k =
     (if flags AND 8 = 0 then Some (Inr (- 1, k))
      else case current_task k of
             None \<Rightarrow> None
           | Some task \<Rightarrow>
               (case ks_regions k (t_tlTable task) of
                  None \<Rightarrow> None
                | Some rs \<Rightarrow>
                    let (region, rs) = acquire_available_region sz rs;
                        regionBegin = r_start region
                    in case map_region (t_tlTable task) regionBegin (regionBegin + sz) (ks_manager k) of
                         None \<Rightarrow> None
                       | Some (Inl err) \<Rightarrow> Some (Inl err)
                       | Some (Inr m) \<Rightarrow>
                           Some (Inr (0, k\<lparr>ks_manager := m, ks_regions := (ks_regions k)(t_tlTable task \<mapsto> rs),
                             ks_memory := store_file (le_bytes 8 regionBegin) (unat address) (ks_memory k)\<rparr>))))"

function unmap_region :: "u64 \<Rightarrow> u64 \<Rightarrow> u64 \<Rightarrow> Manager \<Rightarrow> Manager kresult option" where
  "unmap_region tlTable deallocSpace limit m =
     (if deallocSpace < limit
      then case free_page \<lparr>free_virtualAddress = deallocSpace\<rparr> tlTable m of
             Inl err \<Rightarrow> Some (Inl err)
           | Inr m \<Rightarrow> if deallocSpace + 0x1000 < deallocSpace then None else unmap_region tlTable (deallocSpace + 0x1000) limit m
      else Some (Inr m))"
  by auto
termination by (relation "measure (\<lambda>(_, page, limit, _). unat limit - unat page)") (auto intro: page_step_less)

declare unmap_region.simps [simp del]

definition vmumap_syscall :: "u64 \<Rightarrow> u64 \<Rightarrow> KernelState \<Rightarrow> (u64 \<times> KernelState) kresult option" where
  "vmumap_syscall address sz k =
     (case current_task k of
        None \<Rightarrow> None
      | Some task \<Rightarrow>
          (case ks_regions k (t_tlTable task) of
             None \<Rightarrow> None
           | Some rs \<Rightarrow>
               let (region, rs) = extract_region address rs;
                   regionBegin = r_start region
               in case unmap_region (t_tlTable task) regionBegin (regionBegin + sz) (ks_manager k) of
                    None \<Rightarrow> None
                  | Some (Inl err) \<Rightarrow> Some (Inl err)
                  | Some (Inr m) \<Rightarrow> Some (Inr (0, k\<lparr>ks_manager := m, ks_regions := (ks_regions k)(t_tlTable task \<mapsto> rs)\<rparr>))))"

subsection \<open>Dispatch\<close>

text \<open>\<open>helper\<close> is the address of \<open>thread_start_helper\<close>; the numbers without a case return 0.\<close>

definition syscall_handler ::
  "SysEnv \<Rightarrow> u64 \<Rightarrow> u64 \<Rightarrow> u64 \<Rightarrow> u64 \<Rightarrow> u64 \<Rightarrow> u64 \<Rightarrow> KernelState \<Rightarrow> (u64 \<times> KernelState) kresult option" where
  "syscall_handler env helper rrax arg1 arg2 arg3 arg4 k =
     (if rrax = 2 then vmmap_syscall arg1 arg2 arg3 arg4 k
      else if rrax = 3 then vmumap_syscall arg1 arg2 k
      else if rrax = 24 then launch_thread_syscall env helper arg1 arg2 k
      else map_option Inr
       (if rrax = 4 then popen_syscall env arg1 arg3 k
        else if rrax = 6 then pread_syscall env arg1 arg2 arg3 k
        else if rrax = 7 then pwrite_syscall env arg1 arg2 arg3 k
        else if rrax = 5 then pclose_syscall env arg1 k
        else if rrax = 15 then sleep_for_syscall env arg1 k
        else if rrax = 16 then Some (gettid_syscall k, k)
        else if rrax = 18 then pseek_syscall arg1 arg2 arg3 k
        else if rrax = 12 then elistener_add_syscall env arg1 arg2 arg3 k
        else if rrax = 13 then elistener_remove_syscall env arg1 arg2 arg3 k
        else if rrax = 21 then lsock_accept env arg1 k
        else if rrax = 19 then lsock_bind arg1 arg2 k
        else if rrax = 22 then lsock_connect env arg1 arg2 k
        else if rrax = 20 then lsock_listen arg1 k
        else if rrax = 26 then futex_wait env arg1 arg2 k
        else if rrax = 25 then futex_wake arg1 k
        else if rrax = 27 then pinfo_syscall env arg1 arg2 k
        else if rrax = 28 then Some (of_nat (env_now (se_env env)), k)
        else if rrax = 1 \<or> rrax = 23 then Some (1, k)
        else Some (0, k)))"

subsection \<open>Mapping memory\<close>

interpretation vmmap: page_allocation map_region
  by unfold_locales (rule map_region.simps)

lemma align_up_pages:
  assumes "unat sz + 0xFFF < 2 ^ 64"
  shows "BYTE_ALIGN_UP sz 0x1000 = of_nat (4096 * page_count sz)" "unat sz \<le> 4096 * page_count sz" "4096 * page_count sz < 2 ^ 64"
proof -
  have u: "unat (sz + 0xFFF) = unat sz + 0xFFF" using assms by (simp add: unat_plus_if_size word_size)
  have c: "4096 * page_count sz = (unat sz + 0xFFF) div 4096 * 4096" by (simp add: page_count_def)
  show l: "4096 * page_count sz < 2 ^ 64" unfolding c using assms by (intro le_less_trans [OF div_times_less_eq_dividend])
  have "unat ((sz + 0xFFF) AND NOT (mask 12)) = 4096 * page_count sz" unfolding unat_and_not_mask u c by simp
  moreover have "unat (of_nat (4096 * page_count sz) :: u64) = 4096 * page_count sz" by (rule unat_of_nat_64 [OF l])
  ultimately have "(sz + 0xFFF) AND NOT (mask 12) = (of_nat (4096 * page_count sz) :: u64)" by (simp only: word_unat_eq_iff)
  then show "BYTE_ALIGN_UP sz 0x1000 = of_nat (4096 * page_count sz)" by (simp add: BYTE_ALIGN_UP_def mask_eq_exp_minus_1)
  show "unat sz \<le> 4096 * page_count sz" unfolding page_count_def by linarith
qed

text \<open>
  C12: Mapping memory. For a positive size, with enough free frames and room in the lower half, \<open>vmmap\<close> with the flag 8 records a new region for the
  address space of the task, behind all its regions, of the size rounded up to pages, writes its address where the task
  asked for it, and backs every byte of it with memory. The other bytes of the task's memory, the regions and
  translations of other address spaces, the task's translations outside of the region and everything else in the kernel stay
  as they were.
\<close>

theorem vmmap_gives_memory:
  assumes "all_spaces R (ks_manager k)" "current_task k = Some task" "t_tlTable task \<in> R" "ks_regions k (t_tlTable task) = Some rs"
    and "regions_ok rs" "flags AND 8 \<noteq> 0" "sz \<noteq> 0" "unat sz + 0xFFF < 2 ^ 64" "user_range (next_region rs) (page_count sz)"
    and "4 * page_count sz \<le> card (free_frames (ks_manager k))"
  shows "\<exists>m mem. vmmap_syscall address sz hint flags k =
      Some (Inr (0, k\<lparr>ks_manager := m, ks_memory := mem, ks_regions := (ks_regions k)(t_tlTable task \<mapsto>
        rs @ [\<lparr>r_start = next_region rs, r_end = next_region rs + of_nat (4096 * page_count sz)\<rparr>])\<rparr>)) \<and>
    regions_ok (rs @ [\<lparr>r_start = next_region rs, r_end = next_region rs + of_nat (4096 * page_count sz)\<rparr>]) \<and>
    (\<forall>region\<in>set rs. r_end region \<le> next_region rs) \<and>
    load_field mem (unat address) 8 = next_region rs \<and>
    (\<forall>a. \<not> (unat address \<le> a \<and> a < unat address + 8) \<longrightarrow> mem a = ks_memory k a) \<and>
    (\<forall>a. unat (next_region rs) \<le> a \<and> a < unat (next_region rs) + unat sz \<longrightarrow> mapped m (t_tlTable task) a) \<and>
    all_spaces R m \<and>
    (\<forall>r\<in>R. \<forall>v. r \<noteq> t_tlTable task \<or> (\<forall>i<page_count sz. \<not> same_page PAGE_4KiB (next_region rs + of_nat i * 0x1000) v) \<longrightarrow>
       get_physical_address m r v = get_physical_address (ks_manager k) r v)"
proof -
  let ?r = "t_tlTable task" and ?b = "next_region rs" and ?n = "page_count sz"
  note al = align_up_pages [OF assms(8)]
  have n: "0 < ?n" using al(2) assms(7) by (metis gr0I mult_0_right le_zero_eq unat_eq_zero)
  have "BYTE_ALIGN_UP (of_nat (4096 * ?n)) 0x1000 = of_nat (4096 * ?n)" by (rule page_length(2) [OF assms(9) n])
  then have acq: "acquire_available_region sz rs = acquire_available_region (of_nat (4096 * ?n)) rs"
    by (simp add: acquire_available_region_def al(1))
  let ?rs = "rs @ [\<lparr>r_start = ?b, r_end = ?b + of_nat (4096 * ?n)\<rparr>]"
  have reg: "acquire_available_region sz rs = (\<lparr>r_start = ?b, r_end = ?b + of_nat (4096 * ?n)\<rparr>, ?rs)" "regions_ok ?rs"
    using acquire_pages [OF assms(5,9) n] unfolding acq by auto
  have "unat ?b + unat sz < 2 ^ 64" using assms(9) al(2) by (simp add: user_range_def)
  then have l: "unat (?b + sz) = unat ?b + unat sz" by (simp add: unat_plus_if_size word_size)
  obtain m where m: "map_region ?r ?b (?b + sz) (ks_manager k) = Some (Inr m)" "all_spaces R m"
    "\<forall>a. unat ?b \<le> a \<and> a < unat (?b + sz) \<or> mapped (ks_manager k) ?r a \<longrightarrow> mapped m ?r a"
    "\<forall>r\<in>R. \<forall>v. r \<noteq> ?r \<or> (\<forall>i<?n. \<not> same_page PAGE_4KiB (?b + of_nat i * 0x1000) v) \<longrightarrow>
         get_physical_address m r v = get_physical_address (ks_manager k) r v"
    using vmmap.pages_allocated [OF assms(1,3) user_range_pages [OF assms(9)] assms(10), of "?b + sz"] al(2) unfolding l by auto
  let ?k = "k\<lparr>ks_manager := m, ks_regions := (ks_regions k)(?r \<mapsto> ?rs), ks_memory := store_file (le_bytes 8 ?b) (unat address) (ks_memory k)\<rparr>"
  have "vmmap_syscall address sz hint flags k = Some (Inr (0, ?k))"
    using assms(2,4,6) reg(1) m(1) by (simp add: vmmap_syscall_def)
  moreover have "load_field (ks_memory ?k) (unat address) 8 = (load_le (le_bytes 8 ?b) :: u64)"
    using load_file_field [of 0 8 "le_bytes 8 ?b" "unat address" "ks_memory k"] by simp
  then have "load_field (ks_memory ?k) (unat address) 8 = ?b" by (simp add: load_le_bytes take_bit_word_eq_self)
  moreover have "\<forall>region\<in>set rs. r_end region \<le> ?b" using regions_ok_last(1) [OF assms(5)] by (auto simp: next_region_def)
  moreover have "\<forall>a. \<not> (unat address \<le> a \<and> a < unat address + 8) \<longrightarrow> ks_memory ?k a = ks_memory k a"
    by (simp add: store_file_def)
  ultimately show ?thesis using m reg(2) unfolding l by (intro exI [of _ m] exI [of _ "ks_memory ?k"]) simp
qed

subsection \<open>Threads\<close>

text \<open>The descriptor carries the arguments of the call to the new thread, as long as its block is not written.\<close>

lemma launch_thread_starts:
  assumes "launch_thread_syscall env helper entryPoint stack k = Some (Inr (tid, k'))"
  shows "thread_start_helper (se_tld env) k' = (entryPoint, stack)"
proof -
  let ?d = "ThreadLaunchDescriptor entryPoint stack" and ?p = "unat (se_tld env)"
  have "ks_memory k' = store_file ?d ?p (ks_memory k)"
    using assms by (auto simp: launch_thread_syscall_def Let_def split: sum.splits prod.splits option.splits)
  moreover have "load_field (store_file ?d ?p (ks_memory k)) (?p + 0) 8 = entryPoint" "load_field (store_file ?d ?p (ks_memory k)) (?p + 8) 8 = stack"
    by (subst load_file_field; simp add: ThreadLaunchDescriptor_def load_le_bytes take_bit_word_eq_self)+
  ultimately show ?thesis by (simp add: thread_start_helper_def)
qed

subsection \<open>Errors\<close>

lemma PipeTable_remove_spec:
  assumes "pt_inv t"
  shows "\<exists>t'. PipeTable_remove t i = Some t' \<and> pt_inv t' \<and> PipeTable_get t' i = Some None \<and>
    (\<forall>j. j \<noteq> i \<longrightarrow> PipeTable_get t' j = PipeTable_get t j)"
proof -
  have hm: "hm_inv u64_bytes (pt_hashmap t)" using assms by (simp add: pt_inv_def)
  obtain m where m: "hm_erase u64_bytes (pt_hashmap t) i = Some m" "hm_inv u64_bytes m"
    "hm_lookup u64_bytes m = (hm_lookup u64_bytes (pt_hashmap t))(i := None)"
    using hm_erase_inv [OF hm] by blast
  then show ?thesis using assms hm by (auto simp: PipeTable_remove_def PipeTable_get_lookup pt_inv_def)
qed

lemma unknown_refused:
  assumes "get_pipe pd k = Some None"
  shows "pread_syscall env pd buf cnt k = Some (0, k)" "pwrite_syscall env pd buf cnt k = Some (0, k)"
    "pclose_syscall env pd k = Some (0, k)" "pseek_syscall pd offset type k = Some (0, k)" "pinfo_syscall env pd buf k = Some (- 1, k)"
    "elistener_add_syscall env pd target evMask k = Some (0, k)" "elistener_remove_syscall env pd target evMask k = Some (0, k)"
    "lsock_accept env pd k = Some (0, k)" "lsock_connect env pd ident k = Some (0, k)" "lsock_bind pd ident k = Some (0, k)"
    "lsock_listen pd k = Some (0, k)"
    "get_pipe lp k \<noteq> None \<Longrightarrow> elistener_add_syscall env lp pd evMask k = Some (0, k)"
    "get_pipe lp k \<noteq> None \<Longrightarrow> elistener_remove_syscall env lp pd evMask k = Some (0, k)"
  using assms
  by (auto simp: pread_syscall_def pwrite_syscall_def pclose_syscall_def pseek_syscall_def pinfo_syscall_def
      elistener_add_syscall_def elistener_remove_syscall_def lsock_accept_def lsock_connect_def lsock_bind_def lsock_listen_def
      split: option.splits)

text \<open>After a close that returns, the descriptor is unknown, whether or not it was open, and the others are as before.\<close>

lemma pclose_forgets:
  assumes inv: "\<forall>a t. ks_tables k a = Some t \<longrightarrow> pt_inv t" and c: "pclose_syscall env pd k = Some (r, k')"
  shows "\<exists>a t t'. ks_tables k a = Some t \<and> open_table k' = Some (a, t') \<and> pt_inv t' \<and> PipeTable_get t' pd = Some None \<and>
    (\<forall>j. j \<noteq> pd \<longrightarrow> PipeTable_get t' j = PipeTable_get t j) \<and> ks_tables k' = (ks_tables k)(a \<mapsto> t')"
proof (cases "get_pipe pd k")
  case None
  then show ?thesis using c by (simp add: pclose_syscall_def)
next
  case (Some p)
  then obtain a t where t: "open_table k = Some (a, t)" "PipeTable_get t pd = Some p"
    by (auto simp: get_pipe_def bind_eq_Some_conv)
  then have at: "ks_tables k a = Some t" by (auto simp: open_table_def bind_eq_Some_conv)
  show ?thesis
  proof (cases p)
    case None
    then have "k' = k" using c Some by (simp add: pclose_syscall_def)
    then show ?thesis using t None at inv by (intro exI [of _ a] exI [of _ t]) (simp add: fun_upd_idem)
  next
    case (Some pipe)
    obtain st a1 t1 t2 where d: "open_table (k\<lparr>ks_pipes := st\<rparr>) = Some (a1, t1)" "PipeTable_remove t1 pd = Some t2"
      "k' = k\<lparr>ks_pipes := st, ks_tables := (ks_tables k)(a1 \<mapsto> t2)\<rparr>"
      using c \<open>get_pipe pd k = Some p\<close> Some
      by (auto simp: pclose_syscall_def bind_eq_Some_conv Let_def)
    have 1: "ks_tables k a1 = Some t1" using d(1) by (auto simp: open_table_def bind_eq_Some_conv)
    then have "open_table k' = Some (a1, t2)" using d(1,3)
      by (auto simp: open_table_def bind_eq_Some_conv current_task_def)
    then show ?thesis using PipeTable_remove_spec [of t1 pd] inv 1 d by auto
  qed
qed

text \<open>
  C33: A closed descriptor gives no access. When the descriptor tables are well formed (\<open>pt_inv\<close>), a call of
  \<open>pclose\<close> that returns leaves the other descriptors of the table alone and, if the descriptor was not in the table, everything;
  and as long as no descriptor is opened every call on the descriptor is refused:
  it returns 0, \<open>pinfo\<close> and only that returns -1, and nothing changes. This includes the calls that
  name it as the pipe to which an event listener is added, or from which it is removed.
\<close>

theorem unknown_descriptor_ignored:
  assumes "\<forall>a t. ks_tables k a = Some t \<longrightarrow> pt_inv t" and "pclose_syscall env0 pd k = Some (r, k')"
  shows "(get_pipe pd k = Some None \<longrightarrow> k' = k) \<and>
    (\<exists>a t t'. ks_tables k a = Some t \<and> ks_tables k' = (ks_tables k)(a \<mapsto> t') \<and>
       (\<forall>j. j \<noteq> pd \<longrightarrow> PipeTable_get t' j = PipeTable_get t j)) \<and>
    pread_syscall env pd buf cnt k' = Some (0, k') \<and> pwrite_syscall env pd buf cnt k' = Some (0, k') \<and>
    pclose_syscall env pd k' = Some (0, k') \<and> pseek_syscall pd offset type k' = Some (0, k') \<and>
    pinfo_syscall env pd buf k' = Some (- 1, k') \<and>
    elistener_add_syscall env pd target evMask k' = Some (0, k') \<and> elistener_remove_syscall env pd target evMask k' = Some (0, k') \<and>
    elistener_add_syscall env listener pd evMask k' = Some (0, k') \<and> elistener_remove_syscall env listener pd evMask k' = Some (0, k') \<and>
    lsock_accept env pd k' = Some (0, k') \<and> lsock_connect env pd ident k' = Some (0, k') \<and> lsock_bind pd ident k' = Some (0, k') \<and>
    lsock_listen pd k' = Some (0, k')"
proof -
  obtain a t t' where t: "ks_tables k a = Some t" "open_table k' = Some (a, t')" "pt_inv t'" "PipeTable_get t' pd = Some None"
    "\<forall>j. j \<noteq> pd \<longrightarrow> PipeTable_get t' j = PipeTable_get t j" "ks_tables k' = (ks_tables k)(a \<mapsto> t')"
    using pclose_forgets [OF assms] by blast
  have u: "get_pipe pd k' = Some None" "get_pipe listener k' \<noteq> None"
    using t(2-4) by (simp_all add: get_pipe_def PipeTable_get_lookup pt_inv_def)
  have "get_pipe pd k = Some None \<longrightarrow> k' = k" using assms(2) by (auto simp: pclose_syscall_def)
  moreover have "\<exists>a t t'. ks_tables k a = Some t \<and> ks_tables k' = (ks_tables k)(a \<mapsto> t') \<and>
       (\<forall>j. j \<noteq> pd \<longrightarrow> PipeTable_get t' j = PipeTable_get t j)" using t(1,5,6) by blast
  ultimately show ?thesis
    by (intro conjI) (assumption | rule unknown_refused(1-11) [OF u(1)] | rule unknown_refused(12,13) [OF u])+
qed

subsection \<open>Futexes\<close>

lemma futex_wake_first:
  assumes r: "tm_reachable (ps_tm (ks_pipes k))" and c: "current_task k = Some task"
    and q: "ks_futexes k (t_groupId task) p = Some ((a, t) # q)" and t: "launched (ps_tm (ks_pipes k)) t"
  shows "\<exists>tm T task'. futex_wake p k = Some (1, k\<lparr>ks_pipes := (ks_pipes k)\<lparr>ps_tm := tm\<rparr>\<rparr>) \<and> tm_reachable tm \<and>
    m_taskHashmap tm = (m_taskHashmap (ps_tm (ks_pipes k)))(t \<mapsto> T) \<and> t_state T = READY \<and> launched tm t \<and>
    current_task (k\<lparr>ks_pipes := (ks_pipes k)\<lparr>ps_tm := tm\<rparr>\<rparr>) = Some task' \<and> t_groupId task' = t_groupId task"
proof -
  obtain tm T where u: "unblock t (ps_tm (ks_pipes k)) = Some tm" "tm_reachable tm" "m_currentTask tm = m_currentTask (ps_tm (ks_pipes k))"
    "m_taskHashmap tm = (m_taskHashmap (ps_tm (ks_pipes k)))(t \<mapsto> T)" "t_state T = READY" "wakes (ps_tm (ks_pipes k)) tm"
    using unblock_task [OF r t] by blast
  have cur: "m_currentTask (ps_tm (ks_pipes k)) \<noteq> 0" "m_taskHashmap (ps_tm (ks_pipes k)) (m_currentTask (ps_tm (ks_pipes k))) = Some task"
    using c by (auto simp: current_task_def get_current_task_def get_task_from_tid_def split: if_splits)
  then obtain task' where "m_taskHashmap tm (m_currentTask tm) = Some task'" "t_groupId task' = t_groupId task"
    using u(3,6) unfolding wakes_def by metis
  then have "current_task (k\<lparr>ks_pipes := (ks_pipes k)\<lparr>ps_tm := tm\<rparr>\<rparr>) = Some task'" "t_groupId task' = t_groupId task"
    using u(3) cur(1) by (simp_all add: current_task_def get_current_task_def get_task_from_tid_def)
  moreover have "futex_wake p k = Some (1, k\<lparr>ks_pipes := (ks_pipes k)\<lparr>ps_tm := tm\<rparr>\<rparr>)"
    using c q u(1) by (simp add: futex_wake_def queue_is_empty_def wake_one_def)
  moreover have "launched tm t" using u(4,5) by (simp add: launched_def)
  ultimately show ?thesis using u(2,4,5) by blast
qed

text \<open>
  Two wake-ups of a futex wake one task. \<open>wake_one\<close> leaves the task it wakes in the queue until the task itself runs
  and leaves, so a second \<open>futex_wake\<close> before that wakes the same task again: it returns 1, the first waiter is ready,
  and no other task has changed, in particular not the second waiter.
\<close>

theorem futex_second_wake_lost:
  assumes "tm_reachable (ps_tm (ks_pipes k))" "current_task k = Some task"
    and "ks_futexes k (t_groupId task) p = Some ((a1, t1) # (a2, t2) # q)" "launched (ps_tm (ks_pipes k)) t1" "t1 \<noteq> t2"
  shows "\<exists>k1 k2. futex_wake p k = Some (1, k1) \<and> futex_wake p k1 = Some (1, k2) \<and>
    (\<exists>gid. is_ready (m_taskHashmap (ps_tm (ks_pipes k2))) gid t1) \<and>
    m_taskHashmap (ps_tm (ks_pipes k2)) t2 = m_taskHashmap (ps_tm (ks_pipes k)) t2"
proof -
  obtain tm1 T1 task1 where w1: "futex_wake p k = Some (1, k\<lparr>ks_pipes := (ks_pipes k)\<lparr>ps_tm := tm1\<rparr>\<rparr>)" "tm_reachable tm1"
    "m_taskHashmap tm1 = (m_taskHashmap (ps_tm (ks_pipes k)))(t1 \<mapsto> T1)" "launched tm1 t1"
    "current_task (k\<lparr>ks_pipes := (ks_pipes k)\<lparr>ps_tm := tm1\<rparr>\<rparr>) = Some task1" "t_groupId task1 = t_groupId task"
    using futex_wake_first [OF assms(1-4)] by blast
  let ?k1 = "k\<lparr>ks_pipes := (ks_pipes k)\<lparr>ps_tm := tm1\<rparr>\<rparr>"
  have "ks_futexes ?k1 (t_groupId task1) p = Some ((a1, t1) # (a2, t2) # q)" using assms(3) w1(6) by simp
  from futex_wake_first [OF _ w1(5) this] w1(2,4) obtain tm2 T2 where
    w2: "futex_wake p ?k1 = Some (1, ?k1\<lparr>ks_pipes := (ks_pipes ?k1)\<lparr>ps_tm := tm2\<rparr>\<rparr>)" "m_taskHashmap tm2 = (m_taskHashmap tm1)(t1 \<mapsto> T2)" "t_state T2 = READY"
    by auto
  then show ?thesis using w1(1,3) assms(5) by (auto simp: is_ready_def)
qed

subsection \<open>An example\<close>

definition example_kernel :: KernelState where
  "example_kernel = \<lparr>ks_pipes = ipc_init example_running, ks_tables = [50 \<mapsto> PipeTable_new], ks_openPipes = [1 \<mapsto> 50],
     ks_manager = example_space, ks_regions = [0x1000 \<mapsto> [\<lparr>r_start = 0x400000, r_end = 0x402000\<rparr>]],
     ks_futexes = (\<lambda>_. [0x400100 \<mapsto> [(60, 1), (61, 2)]]), ks_memory = (\<lambda>_. 0)\<rparr>"

lemma example_kernel_task:
  "\<exists>task. current_task example_kernel = Some task \<and> t_tid task = 1 \<and> t_tlTable task = 0x1000"
  by (simp add: example_kernel_def current_task_def get_current_task_def get_task_from_tid_def ipc_init_def register_device_def
      example_running_def example_task_def)

lemma example_kernel_tm: "ps_tm (ks_pipes example_kernel) = example_running"
  by (simp add: example_kernel_def ipc_init_def register_device_def)

theorem vmmap_gives_memory_witness:
  "\<exists>m mem. vmmap_syscall 0x400200 5000 0 8 example_kernel = Some (Inr (0, example_kernel\<lparr>ks_manager := m, ks_memory := mem,
       ks_regions := (ks_regions example_kernel)(0x1000 \<mapsto> [\<lparr>r_start = 0x400000, r_end = 0x402000\<rparr>, \<lparr>r_start = 0x402000, r_end = 0x404000\<rparr>])\<rparr>)) \<and>
     load_field mem 0x400200 8 = (0x402000 :: u64) \<and> mapped m 0x1000 0x403000"
proof -
  obtain task where t: "current_task example_kernel = Some task" "t_tlTable task = 0x1000" using example_kernel_task by blast
  let ?rs = "[\<lparr>r_start = 0x400000, r_end = 0x402000\<rparr>]"
  have k: "ks_manager example_kernel = example_space" "ks_regions example_kernel 0x1000 = Some ?rs" by (simp_all add: example_kernel_def)
  have n: "next_region ?rs = 0x402000" "page_count 5000 = 2" "regions_ok ?rs"
    by (simp_all add: next_region_def page_count_def regions_ok_def)
  have u: "user_range (next_region ?rs) (page_count 5000)" "4 * page_count 5000 \<le> card (free_frames (ks_manager example_kernel))"
    unfolding n k(1) by (simp_all add: user_range_def example_space_frames)
  obtain m mem where k': "vmmap_syscall 0x400200 5000 0 8 example_kernel = Some (Inr (0, example_kernel\<lparr>ks_manager := m, ks_memory := mem,
       ks_regions := (ks_regions example_kernel)(0x1000 \<mapsto> ?rs @ [\<lparr>r_start = 0x402000, r_end = 0x402000 + of_nat (4096 * 2)\<rparr>])\<rparr>))"
    "load_field mem (unat (0x400200 :: u64)) 8 = (0x402000 :: u64)"
    "\<forall>a. unat (0x402000 :: u64) \<le> a \<and> a < unat (0x402000 :: u64) + unat (5000 :: u64) \<longrightarrow> mapped m 0x1000 a"
    using vmmap_gives_memory [of "{0x1000}" example_kernel task ?rs 8 5000 "0x400200" 0] example_spaces(1) t k u n(3) unfolding n(1,2) by auto
  then show ?thesis by (intro exI [of _ m] exI [of _ mem]) (auto dest: spec [of _ "0x403000"])
qed

definition example_open :: KernelState where
  "example_open = example_kernel\<lparr>ks_pipes := (ks_pipes example_kernel)\<lparr>ps_pipes := [9 \<mapsto> pipe_closed]\<rparr>,
     ks_tables := [50 \<mapsto> \<lparr>m_nextAvailID = 4, pt_hashmap = \<lparr>m_bucketCount = 1, hm_size = 1, m_bucketArray = [[(3, 9)]]\<rparr>\<rparr>]\<rparr>"

theorem unknown_descriptor_ignored_witness:
  "\<forall>env. \<exists>k'. get_pipe 3 example_open = Some (Some 9) \<and> pclose_syscall env 3 example_open = Some (0, k') \<and>
     pread_syscall env 3 0 10 k' = Some (0, k') \<and> lsock_listen 3 k' = Some (0, k')"
proof
  fix env
  let ?t = "\<lparr>m_nextAvailID = 4, pt_hashmap = \<lparr>m_bucketCount = 1, hm_size = 1, m_bucketArray = [[(3, 9)]]\<rparr>\<rparr> :: PipeTable"
  obtain task where task: "current_task example_kernel = Some task" "t_tid task = 1" using example_kernel_task by blast
  have x: "unat ((x :: u64) mod 1) = 0" for x by (simp add: unat_mod)
  then have inv: "pt_inv ?t"
    by (auto simp: pt_inv_def hm_inv_def bucket_index_def hm_lookup_def hm_bucket_def split: if_splits)
  have o: "open_table (example_open\<lparr>ks_pipes := (ks_pipes example_open)\<lparr>ps_pipes := P\<rparr>\<rparr>) = Some (50, ?t)" for P
    using task by (simp add: open_table_def current_task_def example_open_def) (simp add: example_kernel_def)
  have tabs: "\<forall>a t. ks_tables example_open a = Some t \<longrightarrow> pt_inv t" using inv by (simp add: example_open_def)
  have g: "get_pipe 3 example_open = Some (Some 9)"
    using o [of "ps_pipes (ks_pipes example_open)"] inv x
    by (simp add: get_pipe_def PipeTable_get_lookup pt_inv_def hm_lookup_def hm_bucket_def bucket_index_def)
  obtain t2 where t2: "PipeTable_remove ?t 3 = Some t2" using PipeTable_remove_spec [OF inv] by blast
  have "delete_pipe env 9 (ks_pipes example_open) = Some ((ks_pipes example_open)\<lparr>ps_pipes := Map.empty\<rparr>)"
    by (simp add: delete_pipe_def pipe_destruct_def example_open_def pipe_closed_def has_active_connection_def)
  then obtain k' where "pclose_syscall env 3 example_open = Some (0, k')"
    using g o [of Map.empty] t2 by (simp add: pclose_syscall_def)
  with unknown_descriptor_ignored [OF tabs this] g
  show "\<exists>k'. get_pipe 3 example_open = Some (Some 9) \<and> pclose_syscall env 3 example_open = Some (0, k') \<and>
     pread_syscall env 3 0 10 k' = Some (0, k') \<and> lsock_listen 3 k' = Some (0, k')" by blast
qed

theorem futex_second_wake_lost_witness:
  "\<exists>k1 k2. futex_wake 0x400100 example_kernel = Some (1, k1) \<and> futex_wake 0x400100 k1 = Some (1, k2)"
proof -
  obtain task where t: "current_task example_kernel = Some task" using example_kernel_task by blast
  have q: "ks_futexes example_kernel (t_groupId task) 0x400100 = Some [(60, 1), (61, 2)]" by (simp add: example_kernel_def)
  have s: "launched (ps_tm (ks_pipes example_kernel)) 1" unfolding example_kernel_tm by (simp add: launched_def example_running_def)
  have r: "tm_reachable (ps_tm (ks_pipes example_kernel))" unfolding example_kernel_tm by (rule example_running_reachable)
  show ?thesis using futex_second_wake_lost [OF r t q s] by auto
qed

end
