(* ===== verification/GUI_Layout.thy ===== *)
theory GUI_Layout
  imports WS_Graphics "HOL-Library.Signed_Division"
begin

text \<open>
  The layout and drawing of views, \<open>Userspace/Libraries/GUILib\<close>. A view is an image, a spacer, a row, a column or a frame;
  a layout is the tree of nodes with their sizes and their origins relative to the parent. The sizes are \<^typ>\<open>int\<close>: the
  numbers of the sources are pixels of a screen, whose sums stay far below the bound of a 32-bit \<open>int\<close>. Division rounds
  towards zero, as in C++. A decoded image is an argument, the pixels that \<open>stbi_load\<close> returns; a pixel outside of the
  buffer of the window or of an image is the fault \<^const>\<open>None\<close>.
\<close>

subsection \<open>Views and layouts\<close>

record GPoint =
  g_x :: int
  g_y :: int

record GSize =
  g_width :: int
  g_height :: int

datatype View =
    ImageView (image_width: int) (image_height: int) (m_pixelBuf: "u32 list")
  | SpacerView
  | HStackView (m_childViews: "View list") (m_spacing: int)
  | VStackView (m_childViews: "View list") (m_spacing: int)
  | FrameView (frame_child: View) (frame_width: "int option") (frame_height: "int option") (minWidth: "int option")
      (minHeight: "int option") (maxWidth: "int option") (maxHeight: "int option")

datatype LayoutNode = LayoutNode (ln_origin: GPoint) (ln_size: GSize) (ln_view: View) (ln_children: "LayoutNode list")

fun isFlexible :: "View \<Rightarrow> bool" where
  "isFlexible SpacerView = True"
| "isFlexible _ = False"

definition clamp :: "int \<Rightarrow> int option \<Rightarrow> int option \<Rightarrow> int" where
  "clamp v lo hi =
     (let v = (case lo of None \<Rightarrow> v | Some l \<Rightarrow> max v l)
      in case hi of None \<Rightarrow> v | Some h \<Rightarrow> min v h)"

definition ImageView_new :: "(int \<times> int \<times> u8 list) option \<Rightarrow> View" where
  "ImageView_new loaded =
     (case loaded of
        None \<Rightarrow> ImageView 0 0 []
      | Some (w, h, data) \<Rightarrow>
          ImageView w h (map (\<lambda>i. push_bit 24 0xFF OR push_bit 16 (ucast (data ! (i * 3))) OR push_bit 8 (ucast (data ! (i * 3 + 1))) OR
            ucast (data ! (i * 3 + 2))) [0..<nat (w * h)]))"

definition place_node :: "GPoint \<Rightarrow> GSize \<Rightarrow> LayoutNode \<Rightarrow> LayoutNode" where
  "place_node origin sz l = LayoutNode origin sz (ln_view l) (ln_children l)"

fun hstack_place :: "int \<Rightarrow> int \<Rightarrow> int \<Rightarrow> int \<Rightarrow> LayoutNode list \<Rightarrow> LayoutNode list" where
  "hstack_place spacing flexWidth highest x [] = []"
| "hstack_place spacing flexWidth highest x (layout # layouts) =
     (let sz = (if isFlexible (ln_view layout) then \<lparr>g_width = flexWidth, g_height = highest\<rparr> else ln_size layout);
          layout = place_node \<lparr>g_x = x, g_y = (highest - g_height sz) sdiv 2\<rparr> sz layout
      in layout # hstack_place spacing flexWidth highest (x + g_width sz + spacing) layouts)"

fun vstack_place :: "int \<Rightarrow> int \<Rightarrow> int \<Rightarrow> int \<Rightarrow> LayoutNode list \<Rightarrow> LayoutNode list" where
  "vstack_place spacing flexHeight widest y [] = []"
| "vstack_place spacing flexHeight widest y (layout # layouts) =
     (let sz = (if isFlexible (ln_view layout) then \<lparr>g_width = widest, g_height = flexHeight\<rparr> else ln_size layout);
          layout = place_node \<lparr>g_x = (widest - g_width sz) sdiv 2, g_y = y\<rparr> sz layout
      in layout # vstack_place spacing flexHeight widest (y + g_height sz + spacing) layouts)"

text \<open>
  \<open>hstack_measure\<close> and \<open>vstack_measure\<close> are the loops that ask the children for their sizes; they return the layouts, the
  allocated length and the greatest breadth. \<open>remainingFixed\<close> counts the children left that are not flexible, so that
  the division happens only when it is positive.
\<close>

fun computeLayout :: "View \<Rightarrow> GSize \<Rightarrow> LayoutNode"
  and hstack_measure :: "View list \<Rightarrow> GSize \<Rightarrow> int \<Rightarrow> int \<Rightarrow> int \<Rightarrow> LayoutNode list \<times> int \<times> int"
  and vstack_measure :: "View list \<Rightarrow> GSize \<Rightarrow> int \<Rightarrow> int \<Rightarrow> int \<Rightarrow> LayoutNode list \<times> int \<times> int" where
  "computeLayout (ImageView w h buf) suggestion = LayoutNode \<lparr>g_x = 0, g_y = 0\<rparr> \<lparr>g_width = w, g_height = h\<rparr> (ImageView w h buf) []"
| "computeLayout SpacerView suggestion = LayoutNode \<lparr>g_x = 0, g_y = 0\<rparr> \<lparr>g_width = 0, g_height = 0\<rparr> SpacerView []"
| "computeLayout (HStackView views spacing) suggestion =
     (let flexibleChildCount = int (length (filter isFlexible views));
          (layouts, allocatedWidth, highest) =
            hstack_measure views suggestion (spacing * (int (length views) - 1)) (int (length views) - flexibleChildCount) 0;
          flex = flexibleChildCount > 0 \<and> g_width suggestion > allocatedWidth;
          flexWidth = (if flex then (g_width suggestion - allocatedWidth) sdiv flexibleChildCount else 0);
          allocatedWidth = (if flex then g_width suggestion else allocatedWidth)
      in LayoutNode \<lparr>g_x = 0, g_y = 0\<rparr> \<lparr>g_width = allocatedWidth, g_height = highest\<rparr> (HStackView views spacing)
           (hstack_place spacing flexWidth highest 0 layouts))"
| "computeLayout (VStackView views spacing) suggestion =
     (let flexibleChildCount = int (length (filter isFlexible views));
          (layouts, allocatedHeight, widest) =
            vstack_measure views suggestion (spacing * (int (length views) - 1)) (int (length views) - flexibleChildCount) 0;
          flex = flexibleChildCount > 0 \<and> g_height suggestion > allocatedHeight;
          flexHeight = (if flex then (g_height suggestion - allocatedHeight) sdiv flexibleChildCount else 0);
          allocatedHeight = (if flex then g_height suggestion else allocatedHeight)
      in LayoutNode \<lparr>g_x = 0, g_y = 0\<rparr> \<lparr>g_width = widest, g_height = allocatedHeight\<rparr> (VStackView views spacing)
           (vstack_place spacing flexHeight widest 0 layouts))"
| "computeLayout (FrameView child w h minw minh maxw maxh) suggestion =
     (let clampedSize = \<lparr>g_width = (case w of Some w \<Rightarrow> w | None \<Rightarrow> clamp (g_width suggestion) minw maxw),
                         g_height = (case h of Some h \<Rightarrow> h | None \<Rightarrow> clamp (g_height suggestion) minh maxh)\<rparr>;
          childLayout = computeLayout child clampedSize;
          childSize = ln_size childLayout;
          sz = \<lparr>g_width = (case w of Some w \<Rightarrow> w | None \<Rightarrow> clamp (g_width childSize) minw maxw),
                g_height = (case h of Some h \<Rightarrow> h | None \<Rightarrow> clamp (g_height childSize) minh maxh)\<rparr>;
          childLayout = place_node \<lparr>g_x = (g_width sz - g_width childSize) sdiv 2, g_y = (g_height sz - g_height childSize) sdiv 2\<rparr>
                          childSize childLayout
      in LayoutNode \<lparr>g_x = 0, g_y = 0\<rparr> sz (FrameView child w h minw minh maxw maxh) [childLayout])"
| "hstack_measure [] suggestion allocatedWidth remainingFixed highest = ([], allocatedWidth, highest)"
| "hstack_measure (child # children) suggestion allocatedWidth remainingFixed highest =
     (if isFlexible child
      then let (layouts, a, m) = hstack_measure children suggestion allocatedWidth remainingFixed highest
           in (computeLayout child \<lparr>g_width = 0, g_height = 0\<rparr> # layouts, a, m)
      else let allocation = (g_width suggestion - allocatedWidth) sdiv remainingFixed;
               layout = computeLayout child \<lparr>g_width = allocation, g_height = g_height suggestion\<rparr>;
               (layouts, a, m) = hstack_measure children suggestion (allocatedWidth + g_width (ln_size layout)) (remainingFixed - 1)
                                   (if g_height (ln_size layout) > highest then g_height (ln_size layout) else highest)
           in (layout # layouts, a, m))"
| "vstack_measure [] suggestion allocatedHeight remainingFixed widest = ([], allocatedHeight, widest)"
| "vstack_measure (child # children) suggestion allocatedHeight remainingFixed widest =
     (if isFlexible child
      then let (layouts, a, m) = vstack_measure children suggestion allocatedHeight remainingFixed widest
           in (computeLayout child \<lparr>g_width = 0, g_height = 0\<rparr> # layouts, a, m)
      else let allocation = (g_height suggestion - allocatedHeight) sdiv remainingFixed;
               layout = computeLayout child \<lparr>g_width = g_width suggestion, g_height = allocation\<rparr>;
               (layouts, a, m) = vstack_measure children suggestion (allocatedHeight + g_height (ln_size layout)) (remainingFixed - 1)
                                   (if g_width (ln_size layout) > widest then g_width (ln_size layout) else widest)
           in (layout # layouts, a, m))"

subsection \<open>Drawing\<close>

record Context =
  cx_framebuffer :: "u32 list"
  cx_size :: GSize

definition image_draw :: "u32 list \<Rightarrow> GPoint \<Rightarrow> GSize \<Rightarrow> Context \<Rightarrow> Context option" where
  "image_draw pixelBuf point sz cx =
     (let destStartCol = max 0 (g_x point);
          destStartRow = max 0 (g_y point);
          destEndCol = min (g_width (cx_size cx)) (g_x point + g_width sz);
          destEndRow = min (g_height (cx_size cx)) (g_y point + g_height sz);
          destStride = g_width (cx_size cx);
          srcStartCol = destStartCol - g_x point;
          srcStartRow = destStartRow - g_y point;
          srcStride = g_width sz
      in do {
        fb \<leftarrow> foldO (\<lambda>r. foldO (\<lambda>c fb.
             do { v \<leftarrow> read_pixel pixelBuf ((r + srcStartRow) * srcStride + srcStartCol + c);
                  write_pixel ((r + destStartRow) * destStride + destStartCol + c) v fb })
             [0..destEndCol - destStartCol - 1]) [0..destEndRow - destStartRow - 1] (cx_framebuffer cx);
        Some (cx\<lparr>cx_framebuffer := fb\<rparr>)
      })"

fun view_draw :: "View \<Rightarrow> GPoint \<Rightarrow> GSize \<Rightarrow> Context \<Rightarrow> Context option" where
  "view_draw (ImageView w h buf) point sz cx = image_draw buf point sz cx"
| "view_draw _ point sz cx = Some cx"

fun draw_layout :: "LayoutNode \<Rightarrow> GPoint \<Rightarrow> Context \<Rightarrow> Context option"
  and draw_layouts :: "LayoutNode list \<Rightarrow> GPoint \<Rightarrow> Context \<Rightarrow> Context option" where
  "draw_layout (LayoutNode org sz view children) origin cx =
     (let origin = \<lparr>g_x = g_x origin + g_x org, g_y = g_y origin + g_y org\<rparr>
      in do { cx \<leftarrow> view_draw view origin sz cx; draw_layouts children origin cx })"
| "draw_layouts [] origin cx = Some cx"
| "draw_layouts (child # children) origin cx = do { cx \<leftarrow> draw_layout child origin cx; draw_layouts children origin cx }"

definition run_view :: "View \<Rightarrow> Context \<Rightarrow> Context option" where
  "run_view view cx =
     (let layoutTree = computeLayout view (cx_size cx)
      in draw_layout layoutTree
           \<lparr>g_x = (g_width (cx_size cx) - g_width (ln_size layoutTree)) sdiv 2, g_y = (g_height (cx_size cx) - g_height (ln_size layoutTree)) sdiv 2\<rparr>
           cx)"

subsection \<open>Rows and columns\<close>

lemma view_of_layout [simp]: "ln_view (computeLayout v sg) = v"
  by (cases v) (simp_all add: Let_def split: prod.splits)

text \<open>Views whose sizes make sense: no size and no bound is negative, an image has all its pixels, a stack has children.\<close>

fun wf_view :: "View \<Rightarrow> bool" where
  "wf_view (ImageView w h buf) \<longleftrightarrow> 0 \<le> w \<and> 0 \<le> h \<and> int (length buf) = w * h"
| "wf_view SpacerView \<longleftrightarrow> True"
| "wf_view (HStackView views spacing) \<longleftrightarrow> views \<noteq> [] \<and> 0 \<le> spacing \<and> (\<forall>v\<in>set views. wf_view v)"
| "wf_view (VStackView views spacing) \<longleftrightarrow> views \<noteq> [] \<and> 0 \<le> spacing \<and> (\<forall>v\<in>set views. wf_view v)"
| "wf_view (FrameView child w h minw minh maxw maxh) \<longleftrightarrow> wf_view child \<and> (\<forall>b\<in>set_option w \<union> set_option h \<union> set_option maxw \<union> set_option maxh. 0 \<le> b)"

text \<open>
  A node whose children stand one behind the other along an axis: in order, at least \<open>spacing\<close> apart, inside of the node
  in both directions, all flexible ones with the same length and the breadth of the node.
\<close>

definition stacked :: "(GPoint \<Rightarrow> int) \<Rightarrow> (GSize \<Rightarrow> int) \<Rightarrow> (GPoint \<Rightarrow> int) \<Rightarrow> (GSize \<Rightarrow> int) \<Rightarrow> View list \<Rightarrow> int \<Rightarrow> LayoutNode \<Rightarrow> bool" where
  "stacked pos len cross breadth views spacing node \<longleftrightarrow>
     (let cs = ln_children node; at = \<lambda>i. pos (ln_origin (cs ! i)); long = \<lambda>i. len (ln_size (cs ! i)) in
      map ln_view cs = views \<and>
      (\<forall>i<length cs. 0 \<le> at i \<and> at i + long i \<le> len (ln_size node) \<and>
         0 \<le> cross (ln_origin (cs ! i)) \<and> cross (ln_origin (cs ! i)) + breadth (ln_size (cs ! i)) \<le> breadth (ln_size node)) \<and>
      (\<forall>j<length cs. \<forall>i<j. at i + long i + spacing \<le> at j) \<and>
      (\<exists>fl. \<forall>i<length cs. isFlexible (views ! i) \<longrightarrow> long i = fl \<and> breadth (ln_size (cs ! i)) = breadth (ln_size node)))"

lemma half_room: "0 \<le> (d :: int) \<Longrightarrow> 0 \<le> d sdiv 2 \<and> d sdiv 2 \<le> d"
  by (auto simp: signed_divide_int_def sgn_if)

lemma share_room: "0 < (n :: int) \<Longrightarrow> 0 < d \<Longrightarrow> 0 \<le> d sdiv n \<and> n * (d sdiv n) \<le> d"
  by (simp add: signed_divide_int_def sgn_if pos_imp_zdiv_nonneg_iff flip: minus_mod_eq_mult_div)

locale stack_axis =
  fixes place :: "int \<Rightarrow> int \<Rightarrow> int \<Rightarrow> int \<Rightarrow> LayoutNode list \<Rightarrow> LayoutNode list"
    and measured :: "View list \<Rightarrow> GSize \<Rightarrow> int \<Rightarrow> int \<Rightarrow> int \<Rightarrow> LayoutNode list \<times> int \<times> int"
    and pos :: "GPoint \<Rightarrow> int" and len :: "GSize \<Rightarrow> int" and cross :: "GPoint \<Rightarrow> int" and breadth :: "GSize \<Rightarrow> int"
  assumes place_Nil: "place sp fl mx p [] = []"
    and place_Cons: "\<exists>l'. place sp fl mx p (l # ls) = l' # place sp fl mx (p + len (ln_size l') + sp) ls \<and>
      pos (ln_origin l') = p \<and> cross (ln_origin l') = (mx - breadth (ln_size l')) sdiv 2 \<and> ln_view l' = ln_view l \<and>
      len (ln_size l') = (if isFlexible (ln_view l) then fl else len (ln_size l)) \<and>
      breadth (ln_size l') = (if isFlexible (ln_view l) then mx else breadth (ln_size l))"
    and measured_Nil: "measured [] sg a rem mx = ([], a, mx)"
    and measured_Cons: "\<exists>sg' rem'. measured (v # vs) sg a rem mx =
      (let l = computeLayout v sg';
           (ls, a', m) = measured vs sg (if isFlexible v then a else a + len (ln_size l)) rem' (if isFlexible v then mx else max mx (breadth (ln_size l)))
       in (l # ls, a', m))"
begin

definition total :: "int \<Rightarrow> LayoutNode list \<Rightarrow> int" where
  "total fl ls = (\<Sum>l\<leftarrow>ls. if isFlexible (ln_view l) then fl else len (ln_size l))"

lemma measured_result:
  assumes "measured vs sg a rem mx = (ls, a', m)" "\<forall>v\<in>set vs. \<forall>sg. 0 \<le> len (ln_size (computeLayout v sg))"
  shows "map ln_view ls = vs \<and> a' = a + total 0 ls \<and> a \<le> a' \<and> mx \<le> m \<and> (\<forall>l\<in>set ls. isFlexible (ln_view l) \<or> 0 \<le> len (ln_size l) \<and> breadth (ln_size l) \<le> m) \<and>
    (\<forall>l\<in>set ls. \<exists>sg. l = computeLayout (ln_view l) sg)"
  using assms
proof (induction vs arbitrary: a rem mx ls a' m)
  case (Cons v vs)
  obtain sg' rem' where m: "measured (v # vs) sg a rem mx =
      (let l = computeLayout v sg';
           (ls, a', m) = measured vs sg (if isFlexible v then a else a + len (ln_size l)) rem' (if isFlexible v then mx else max mx (breadth (ln_size l)))
       in (l # ls, a', m))" using measured_Cons by blast
  let ?l = "computeLayout v sg'"
  obtain ls' a1 m1 where r: "measured vs sg (if isFlexible v then a else a + len (ln_size ?l)) rem' (if isFlexible v then mx else max mx (breadth (ln_size ?l))) = (ls', a1, m1)"
    by (metis prod_cases3)
  then have e: "ls = ?l # ls'" "a' = a1" "m = m1" using Cons.prems(1) m by (auto simp: Let_def)
  have "0 \<le> len (ln_size ?l)" using Cons.prems(2) by simp
  moreover have "\<exists>sg. ?l = computeLayout (ln_view ?l) sg" by auto
  ultimately show ?case using Cons.IH [OF r] Cons.prems(2) unfolding e by (auto simp: total_def)
qed (simp add: measured_Nil total_def)

lemma placed_result:
  assumes "\<forall>l\<in>set ls. isFlexible (ln_view l) \<or> 0 \<le> len (ln_size l) \<and> breadth (ln_size l) \<le> mx" "0 \<le> fl" "0 \<le> sp" "ls' = place sp fl mx p ls"
  shows "map ln_view ls' = map ln_view ls \<and>
    (\<forall>i<length ls'. p \<le> pos (ln_origin (ls' ! i)) \<and>
       pos (ln_origin (ls' ! i)) + len (ln_size (ls' ! i)) \<le> p + total fl ls + sp * (int (length ls) - 1) \<and>
       0 \<le> cross (ln_origin (ls' ! i)) \<and> cross (ln_origin (ls' ! i)) + breadth (ln_size (ls' ! i)) \<le> mx \<and>
       (isFlexible (ln_view (ls ! i)) \<longrightarrow> len (ln_size (ls' ! i)) = fl \<and> breadth (ln_size (ls' ! i)) = mx)) \<and>
    (\<forall>j<length ls'. \<forall>i<j. pos (ln_origin (ls' ! i)) + len (ln_size (ls' ! i)) + sp \<le> pos (ln_origin (ls' ! j)))"
  using assms
proof (induction ls arbitrary: p ls')
  case (Cons l ls)
  obtain l' where l': "place sp fl mx p (l # ls) = l' # place sp fl mx (p + len (ln_size l') + sp) ls"
    "pos (ln_origin l') = p" "cross (ln_origin l') = (mx - breadth (ln_size l')) sdiv 2" "ln_view l' = ln_view l"
    "len (ln_size l') = (if isFlexible (ln_view l) then fl else len (ln_size l))"
    "breadth (ln_size l') = (if isFlexible (ln_view l) then mx else breadth (ln_size l))" using place_Cons by blast
  let ?q = "p + len (ln_size l') + sp" and ?t = "p + total fl (l # ls) + sp * (int (length (l # ls)) - 1)"
  define ps where "ps = place sp fl mx ?q ls"
  have IH: "map ln_view ps = map ln_view ls"
    "\<forall>i<length ps. ?q \<le> pos (ln_origin (ps ! i)) \<and>
       pos (ln_origin (ps ! i)) + len (ln_size (ps ! i)) \<le> ?q + total fl ls + sp * (int (length ls) - 1) \<and>
       0 \<le> cross (ln_origin (ps ! i)) \<and> cross (ln_origin (ps ! i)) + breadth (ln_size (ps ! i)) \<le> mx \<and>
       (isFlexible (ln_view (ls ! i)) \<longrightarrow> len (ln_size (ps ! i)) = fl \<and> breadth (ln_size (ps ! i)) = mx)"
    "\<forall>j<length ps. \<forall>i<j. pos (ln_origin (ps ! i)) + len (ln_size (ps ! i)) + sp \<le> pos (ln_origin (ps ! j))"
    using Cons.IH [OF _ Cons.prems(2,3) ps_def] Cons.prems(1) by simp_all
  have ls': "ls' = l' # ps" using Cons.prems(4) l'(1) by (simp add: ps_def)
  have len': "0 \<le> len (ln_size l')" "breadth (ln_size l') \<le> mx" using Cons.prems(1,2) l'(5,6) by auto
  have cr: "0 \<le> cross (ln_origin l')" "cross (ln_origin l') + breadth (ln_size l') \<le> mx"
    using len'(2) half_room [of "mx - breadth (ln_size l')"] unfolding l'(3) by simp_all
  have t: "?q + total fl ls + sp * (int (length ls) - 1) = ?t" by (simp add: total_def l'(5) algebra_simps)
  have nn: "0 \<le> total fl ls" using Cons.prems(1,2) by (auto simp: total_def intro!: sum_list_nonneg)
  have "p + len (ln_size l') \<le> ?t" using nn Cons.prems(3) by (simp add: total_def l'(5))
  then have "\<forall>i<length ls'. p \<le> pos (ln_origin (ls' ! i)) \<and> pos (ln_origin (ls' ! i)) + len (ln_size (ls' ! i)) \<le> ?t \<and>
       0 \<le> cross (ln_origin (ls' ! i)) \<and> cross (ln_origin (ls' ! i)) + breadth (ln_size (ls' ! i)) \<le> mx \<and>
       (isFlexible (ln_view ((l # ls) ! i)) \<longrightarrow> len (ln_size (ls' ! i)) = fl \<and> breadth (ln_size (ls' ! i)) = mx)"
    using IH(2) l'(2,5,6) cr len' Cons.prems(3) unfolding ls' t by (auto simp: nth_Cons split: nat.splits)
  moreover have "\<forall>j<length ls'. \<forall>i<j. pos (ln_origin (ls' ! i)) + len (ln_size (ls' ! i)) + sp \<le> pos (ln_origin (ls' ! j))"
    using IH(2,3) l'(2) unfolding ls' by (auto simp: nth_Cons split: nat.splits)
  ultimately show ?case using IH(1) l'(4) by (simp add: ls')
qed (simp add: place_Nil)

lemma total_flex: "total fl ls = total 0 ls + fl * int (length (filter isFlexible (map ln_view ls)))"
  by (induction ls) (simp_all add: total_def algebra_simps)

lemma stack_ok:
  assumes m: "measured vs sg (sp * (int (length vs) - 1)) rem 0 = (ls, a, m)" and vs: "vs \<noteq> []" "0 \<le> sp"
    and nn: "\<forall>v\<in>set vs. \<forall>sg. 0 \<le> len (ln_size (computeLayout v sg))"
  defines "n \<equiv> int (length (filter isFlexible vs))"
  defines "flex \<equiv> n > 0 \<and> len sg > a"
  defines "fl \<equiv> if flex then (len sg - a) sdiv n else 0"
  assumes sz: "len (ln_size node) = (if flex then len sg else a)" "breadth (ln_size node) = m" and cs: "ln_children node = place sp fl m 0 ls"
  shows "stacked pos len cross breadth vs sp node \<and> 0 \<le> len (ln_size node) \<and> 0 \<le> breadth (ln_size node)"
proof -
  note r = measured_result [OF m nn]
  have a: "0 \<le> sp * (int (length vs) - 1)" using vs by (cases vs) auto
  have l: "length ls = length vs" using r by (metis length_map)
  have fl: "0 \<le> fl" "total fl ls + sp * (int (length ls) - 1) \<le> len (ln_size node)"
    using r share_room [of n "len sg - a"] unfolding total_flex [of fl] sz l by (auto simp: fl_def flex_def n_def mult.commute)
  have "isFlexible (vs ! i) \<longleftrightarrow> isFlexible (ln_view (ls ! i))" if "i < length vs" for i using r that l by (metis nth_map)
  then have "stacked pos len cross breadth vs sp node"
    using placed_result [OF _ fl(1) vs(2) cs, of] r fl(2) l unfolding stacked_def Let_def sz(2)
    by (smt (verit, ccfv_threshold) length_map)
  then show ?thesis using a r sz by (auto simp: flex_def)
qed

end

interpretation row: stack_axis hstack_place hstack_measure g_x g_width g_y g_height
proof unfold_locales
  show "\<exists>sg' rem'. hstack_measure (v # vs) sg a rem mx =
      (let l = computeLayout v sg';
           (ls, a', m) = hstack_measure vs sg (if isFlexible v then a else a + g_width (ln_size l)) rem'
             (if isFlexible v then mx else max mx (g_height (ln_size l)))
       in (l # ls, a', m))" for v vs sg a rem mx
    by (cases "isFlexible v")
      (force intro!: exI [of _ "\<lparr>g_width = 0, g_height = 0\<rparr>"] exI [of _ rem],
       rule exI [of _ "\<lparr>g_width = (g_width sg - a) sdiv rem, g_height = g_height sg\<rparr>"], rule exI [of _ "rem - 1"], simp add: Let_def max_def)
qed (simp_all add: Let_def place_node_def)

interpretation column: stack_axis vstack_place vstack_measure g_y g_height g_x g_width
proof unfold_locales
  show "\<exists>sg' rem'. vstack_measure (v # vs) sg a rem mx =
      (let l = computeLayout v sg';
           (ls, a', m) = vstack_measure vs sg (if isFlexible v then a else a + g_height (ln_size l)) rem'
             (if isFlexible v then mx else max mx (g_width (ln_size l)))
       in (l # ls, a', m))" for v vs sg a rem mx
    by (cases "isFlexible v")
      (force intro!: exI [of _ "\<lparr>g_width = 0, g_height = 0\<rparr>"] exI [of _ rem],
       rule exI [of _ "\<lparr>g_width = g_width sg, g_height = (g_height sg - a) sdiv rem\<rparr>"], rule exI [of _ "rem - 1"], simp add: Let_def max_def)
qed (simp_all add: Let_def place_node_def)

lemma clamp_nonneg: "0 \<le> v \<Longrightarrow> \<forall>b\<in>set_option hi. 0 \<le> b \<Longrightarrow> 0 \<le> clamp v lo hi"
  by (auto simp: clamp_def split: option.splits)

lemma hstack_node:
  fixes sg :: GSize
  assumes "views \<noteq> []" "0 \<le> spacing" "\<forall>v\<in>set views. \<forall>sg. 0 \<le> g_width (ln_size (computeLayout v sg))"
  defines "node \<equiv> computeLayout (HStackView views spacing) sg"
  shows "stacked g_x g_width g_y g_height views spacing node \<and> 0 \<le> g_width (ln_size node) \<and> 0 \<le> g_height (ln_size node)"
proof -
  obtain ls a m where m: "hstack_measure views sg (spacing * (int (length views) - 1)) (int (length views) - int (length (filter isFlexible views))) 0 = (ls, a, m)"
    by (metis prod_cases3)
  show ?thesis unfolding node_def by (rule row.stack_ok [OF m assms(1-3)]) (simp_all add: m Let_def)
qed

lemma vstack_node:
  fixes sg :: GSize
  assumes "views \<noteq> []" "0 \<le> spacing" "\<forall>v\<in>set views. \<forall>sg. 0 \<le> g_height (ln_size (computeLayout v sg))"
  defines "node \<equiv> computeLayout (VStackView views spacing) sg"
  shows "stacked g_y g_height g_x g_width views spacing node \<and> 0 \<le> g_width (ln_size node) \<and> 0 \<le> g_height (ln_size node)"
proof -
  obtain ls a m where m: "vstack_measure views sg (spacing * (int (length views) - 1)) (int (length views) - int (length (filter isFlexible views))) 0 = (ls, a, m)"
    by (metis prod_cases3)
  have "stacked g_y g_height g_x g_width views spacing node \<and> 0 \<le> g_height (ln_size node) \<and> 0 \<le> g_width (ln_size node)"
    unfolding node_def by (rule column.stack_ok [OF m assms(1-3)]) (simp_all add: m Let_def)
  then show ?thesis by blast
qed

lemma layout_nonneg: "wf_view v \<Longrightarrow> 0 \<le> g_width (ln_size (computeLayout v sg)) \<and> 0 \<le> g_height (ln_size (computeLayout v sg))"
proof (induction v arbitrary: sg)
  case (HStackView views spacing)
  then show ?case using hstack_node [of views spacing sg] by simp
next
  case (VStackView views spacing)
  then show ?case using vstack_node [of views spacing sg] by simp
next
  case (FrameView child w h minw minh maxw maxh)
  then show ?case by (auto simp: Let_def intro!: clamp_nonneg split: option.split)
qed simp_all


definition example_views :: "View list" where
  "example_views = [SpacerView, ImageView 2 1 [1, 2], SpacerView, FrameView (ImageView 1 1 [3]) (Some 3) (Some 3) None None None None]"


subsection \<open>The picture\<close>

text \<open>The images of a layout with their positions in the window, in the order in which they are drawn.\<close>

fun images_of :: "LayoutNode \<Rightarrow> GPoint \<Rightarrow> (GPoint \<times> View) list"
  and images_of_list :: "LayoutNode list \<Rightarrow> GPoint \<Rightarrow> (GPoint \<times> View) list" where
  "images_of (LayoutNode org sz view children) origin =
     (let origin = \<lparr>g_x = g_x origin + g_x org, g_y = g_y origin + g_y org\<rparr>
      in (case view of ImageView w h buf \<Rightarrow> [(origin, view)] | _ \<Rightarrow> []) @ images_of_list children origin)"
| "images_of_list [] origin = []"
| "images_of_list (child # children) origin = images_of child origin @ images_of_list children origin"

definition covers :: "GPoint \<times> View \<Rightarrow> int \<Rightarrow> int \<Rightarrow> bool" where
  "covers im x y \<longleftrightarrow> (case im of (p, v) \<Rightarrow> g_x p \<le> x \<and> x < g_x p + image_width v \<and> g_y p \<le> y \<and> y < g_y p + image_height v)"

definition colour_at :: "GPoint \<times> View \<Rightarrow> int \<Rightarrow> int \<Rightarrow> u32" where
  "colour_at im x y = (case im of (p, v) \<Rightarrow> m_pixelBuf v ! nat ((x - g_x p) + (y - g_y p) * image_width v))"

fun picture :: "(GPoint \<times> View) list \<Rightarrow> int \<Rightarrow> int \<Rightarrow> u32 \<Rightarrow> u32" where
  "picture [] x y old = old"
| "picture (im # ims) x y old = picture ims x y (if covers im x y then colour_at im x y else old)"

lemma picture_append [simp]: "picture (xs @ ys) x y old = picture ys x y (picture xs x y old)"
  by (induction xs arbitrary: old) simp_all

text \<open>The window that holds a picture: one pixel for each position.\<close>

definition context_ok :: "Context \<Rightarrow> bool" where
  "context_ok cx \<longleftrightarrow> 0 \<le> g_width (cx_size cx) \<and> 0 \<le> g_height (cx_size cx) \<and> int (length (cx_framebuffer cx)) = g_width (cx_size cx) * g_height (cx_size cx)"

definition shows_over :: "(GPoint \<times> View) list \<Rightarrow> Context \<Rightarrow> Context \<Rightarrow> bool" where
  "shows_over ims cx cx' \<longleftrightarrow> cx_size cx' = cx_size cx \<and> length (cx_framebuffer cx') = length (cx_framebuffer cx) \<and>
     (\<forall>x y. 0 \<le> x \<and> x < g_width (cx_size cx) \<and> 0 \<le> y \<and> y < g_height (cx_size cx) \<longrightarrow>
        cx_framebuffer cx' ! nat (x + y * g_width (cx_size cx)) = picture ims x y (cx_framebuffer cx ! nat (x + y * g_width (cx_size cx))))"

lemma image_draw_ok:
  assumes "context_ok cx" "0 \<le> w" "0 \<le> h" "int (length buf) = w * h"
  shows "\<exists>cx'. image_draw buf p \<lparr>g_width = w, g_height = h\<rparr> cx = Some cx' \<and> shows_over [(p, ImageView w h buf)] cx cx'"
proof -
  let ?W = "g_width (cx_size cx)" and ?H = "g_height (cx_size cx)" and ?fb = "cx_framebuffer cx"
  let ?c0 = "max 0 (g_x p)" and ?r0 = "max 0 (g_y p)"
  define ps where "ps = List.product [0..min ?H (g_y p + h) - ?r0 - 1] [0..min ?W (g_x p + w) - ?c0 - 1]"
  define step where "step = (\<lambda>(r, c) fb. do { v \<leftarrow> read_pixel buf ((r + (?r0 - g_y p)) * w + (?c0 - g_x p) + c); write_pixel ((r + ?r0) * ?W + ?c0 + c) v fb })"
  define f where "f = (\<lambda>(r, c). nat ((c + ?c0) + (r + ?r0) * ?W))"
  define s where "s = (\<lambda>(r, c). buf ! nat ((c + ?c0 - g_x p) + (r + ?r0 - g_y p) * w))"
  have ps: "(r, c) \<in> set ps \<longleftrightarrow> 0 \<le> r \<and> 0 \<le> c \<and> r + ?r0 < ?H \<and> r + ?r0 < g_y p + h \<and> c + ?c0 < ?W \<and> c + ?c0 < g_x p + w" for r c
    by (auto simp: ps_def)
  have fb: "0 \<le> (c + ?c0) + (r + ?r0) * ?W \<and> (c + ?c0) + (r + ?r0) * ?W < int (length ?fb)" if "(r, c) \<in> set ps" for r c
    using that assms(1) row_major_bound [of "c + ?c0" ?W "r + ?r0" ?H] unfolding ps context_ok_def by auto
  have src: "0 \<le> (c + ?c0 - g_x p) + (r + ?r0 - g_y p) * w \<and> (c + ?c0 - g_x p) + (r + ?r0 - g_y p) * w < int (length buf)" if "(r, c) \<in> set ps" for r c
    using that assms(4) row_major_bound [of "c + ?c0 - g_x p" w "r + ?r0 - g_y p" h] unfolding ps by auto
  have inj: "inj_on f (set ps)"
  proof (rule inj_onI, clarify)
    fix r c r' c' assume a: "(r, c) \<in> set ps" "(r', c') \<in> set ps" "f (r, c) = f (r', c')"
    then have "(c + ?c0) + (r + ?r0) * ?W = (c' + ?c0) + (r' + ?r0) * ?W" using fb [OF a(1)] fb [OF a(2)] by (simp only: f_def prod.case eq_nat_nat_iff)
    then show "r = r' \<and> c = c'" using row_major_inj [of "c + ?c0" ?W "c' + ?c0" "r + ?r0" "r' + ?r0"] a(1,2) unfolding ps by auto
  qed
  have "distinct (map f ps)" using inj by (simp add: distinct_map ps_def distinct_product)
  moreover have "f q < length ?fb" if "q \<in> set ps" for q using fb [of "fst q" "snd q"] that by (auto simp: f_def case_prod_unfold nat_less_iff)
  moreover have "step q b = Some (b[f q := s q])" if q: "q \<in> set ps" and l: "length b = length ?fb" for q b
  proof -
    obtain r c where rc: "q = (r, c)" by (cases q)
    have e: "(r + (?r0 - g_y p)) * w + (?c0 - g_x p) + c = (c + ?c0 - g_x p) + (r + ?r0 - g_y p) * w"
      "(r + ?r0) * ?W + ?c0 + c = (c + ?c0) + (r + ?r0) * ?W" by (simp_all add: algebra_simps)
    show ?thesis using fb [of r c] src [of r c] q l unfolding rc step_def prod.case e
      by (simp add: read_pixel_def write_pixel_def f_def s_def)
  qed
  ultimately obtain fb' where fb': "foldO step ps ?fb = Some fb'" "length fb' = length ?fb" "\<forall>q\<in>set ps. fb' ! f q = s q"
    "\<forall>i. i \<notin> f ` set ps \<longrightarrow> fb' ! i = ?fb ! i"
    using foldO_pixels [of f ps ?fb step "\<lambda>q _. s q"] by blast
  have "image_draw buf p \<lparr>g_width = w, g_height = h\<rparr> cx = Some (cx\<lparr>cx_framebuffer := fb'\<rparr>)"
    using fb'(1) unfolding image_draw_def Let_def foldO_product by (simp add: step_def ps_def)
  moreover have "fb' ! nat (x + y * ?W) = (if covers (p, ImageView w h buf) x y then colour_at (p, ImageView w h buf) x y else ?fb ! nat (x + y * ?W))"
    if xy: "0 \<le> x" "x < ?W" "0 \<le> y" "y < ?H" for x y
  proof (cases "covers (p, ImageView w h buf) x y")
    case True
    then have "(y - ?r0, x - ?c0) \<in> set ps" using xy unfolding ps by (auto simp: covers_def)
    then show ?thesis using fb'(3) True by (force simp: f_def s_def colour_at_def)
  next
    case False
    have "nat (x + y * ?W) \<notin> f ` set ps"
    proof
      assume "nat (x + y * ?W) \<in> f ` set ps"
      then obtain r c where rc: "(r, c) \<in> set ps" "nat (x + y * ?W) = f (r, c)" by auto
      moreover have "0 \<le> x + y * ?W" using row_major_bound [of x ?W y ?H] xy by simp
      ultimately have "x + y * ?W = (c + ?c0) + (r + ?r0) * ?W" using fb [OF rc(1)] by (simp only: f_def prod.case eq_nat_nat_iff)
      then have "x = c + ?c0 \<and> y = r + ?r0" using row_major_inj [of x ?W "c + ?c0" y "r + ?r0"] xy rc(1) unfolding ps by auto
      then show False using False rc(1) unfolding ps by (auto simp: covers_def)
    qed
    then show ?thesis using fb'(4) False by simp
  qed
  ultimately show ?thesis using fb'(2) by (auto simp: shows_over_def)
qed

lemma shows_over_Nil: "shows_over [] cx cx"
  by (simp add: shows_over_def)

lemma shows_over_trans: "shows_over xs cx cx1 \<Longrightarrow> shows_over ys cx1 cx2 \<Longrightarrow> shows_over (xs @ ys) cx cx2"
  by (auto simp: shows_over_def)

lemma context_ok_shows: "shows_over xs cx cx1 \<Longrightarrow> context_ok cx \<Longrightarrow> context_ok cx1"
  by (simp add: shows_over_def context_ok_def)

text \<open>In a layout every image has its own size.\<close>

fun sized :: "LayoutNode \<Rightarrow> bool" where
  "sized (LayoutNode org sz v cs) \<longleftrightarrow>
     (case v of ImageView w h buf \<Rightarrow> wf_view v \<and> sz = \<lparr>g_width = w, g_height = h\<rparr> | _ \<Rightarrow> True) \<and> (\<forall>c\<in>set cs. sized c)"

lemma sized_place:
  assumes "sized l" "\<not> isFlexible (ln_view l) \<Longrightarrow> sz = ln_size l"
  shows "sized (place_node org sz l)"
  using assms by (cases l) (auto simp: place_node_def split: View.splits)

lemma sized_stacks:
  "\<forall>l\<in>set ls. sized l \<Longrightarrow> \<forall>l\<in>set (hstack_place sp fl mx p ls). sized l"
  "\<forall>l\<in>set ls. sized l \<Longrightarrow> \<forall>l\<in>set (vstack_place sp fl mx p ls). sized l"
  by (induction ls arbitrary: p) (auto simp: Let_def intro!: sized_place)

lemma layout_sized: "wf_view v \<Longrightarrow> sized (computeLayout v sg)"
proof (induction v arbitrary: sg)
  case (HStackView views sp)
  obtain ls a m where m: "hstack_measure views sg (sp * (int (length views) - 1)) (int (length views) - int (length (filter isFlexible views))) 0 = (ls, a, m)"
    by (metis prod_cases3)
  have "map ln_view ls = views" "\<forall>l\<in>set ls. \<exists>sg. l = computeLayout (ln_view l) sg"
    using row.measured_result [OF m] HStackView.prems layout_nonneg by auto
  then have "\<forall>l\<in>set ls. sized l" using HStackView by (metis image_eqI list.set_map wf_view.simps(3))
  then show ?case using m by (auto simp: Let_def dest: sized_stacks(1))
next
  case (VStackView views sp)
  obtain ls a m where m: "vstack_measure views sg (sp * (int (length views) - 1)) (int (length views) - int (length (filter isFlexible views))) 0 = (ls, a, m)"
    by (metis prod_cases3)
  have "map ln_view ls = views" "\<forall>l\<in>set ls. \<exists>sg. l = computeLayout (ln_view l) sg"
    using column.measured_result [OF m] VStackView.prems layout_nonneg by auto
  then have "\<forall>l\<in>set ls. sized l" using VStackView by (metis image_eqI list.set_map wf_view.simps(4))
  then show ?case using m by (auto simp: Let_def dest: sized_stacks(2))
next
  case (FrameView child w h minw minh maxw maxh)
  then show ?case by (simp add: Let_def sized_place)
qed simp_all

lemma draw_layout_ok:
  "sized node \<Longrightarrow> context_ok cx \<Longrightarrow> \<exists>cx'. draw_layout node origin cx = Some cx' \<and> shows_over (images_of node origin) cx cx'"
  "\<forall>node\<in>set nodes. sized node \<Longrightarrow> context_ok cx \<Longrightarrow>
     \<exists>cx'. draw_layouts nodes origin cx = Some cx' \<and> shows_over (images_of_list nodes origin) cx cx'"
proof (induction node origin cx and nodes origin cx rule: draw_layout_draw_layouts.induct)
  case (1 org sz view children origin cx)
  let ?o = "\<lparr>g_x = g_x origin + g_x org, g_y = g_y origin + g_y org\<rparr>"
  obtain cx1 where cx1: "view_draw view ?o sz cx = Some cx1"
    "shows_over (case view of ImageView w h buf \<Rightarrow> [(?o, view)] | _ \<Rightarrow> []) cx cx1"
    using 1(2) image_draw_ok [OF 1(3), of "image_width view" "image_height view" "m_pixelBuf view" ?o] shows_over_Nil by (cases view) auto
  obtain cx2 where "draw_layouts children ?o cx1 = Some cx2" "shows_over (images_of_list children ?o) cx1 cx2"
    using 1(1) [OF refl cx1(1)] 1(2) context_ok_shows [OF cx1(2) 1(3)] by auto
  then show ?case using cx1 shows_over_trans by (auto simp: Let_def)
next
  case (2 origin cx)
  then show ?case by (simp add: shows_over_Nil)
next
  case (3 child children origin cx)
  then obtain cx1 where cx1: "draw_layout child origin cx = Some cx1" "shows_over (images_of child origin) cx cx1" by auto
  obtain cx2 where "draw_layouts children origin cx1 = Some cx2" "shows_over (images_of_list children origin) cx1 cx2"
    using 3(2) [OF cx1(1)] 3(3) context_ok_shows [OF cx1(2) 3(4)] by auto
  then show ?case using cx1 shows_over_trans by auto
qed

text \<open>
  C37: Showing a view. \<open>run_view\<close> on a window with its pixels computes the layout, centres it and draws it without an access
  outside of the window's buffer or of an image. A pixel shows the image that was drawn there last, at the position that
  the layout gives it, and the pixels without an image are unchanged.
\<close>

theorem run_view_shows:
  fixes cx :: Context and view :: View
  defines "tree \<equiv> computeLayout view (cx_size cx)"
  assumes "wf_view view" "context_ok cx"
  shows "\<exists>cx'. run_view view cx = Some cx' \<and>
    shows_over (images_of tree \<lparr>g_x = (g_width (cx_size cx) - g_width (ln_size tree)) sdiv 2, g_y = (g_height (cx_size cx) - g_height (ln_size tree)) sdiv 2\<rparr>)
      cx cx'"
  using draw_layout_ok(1) [OF layout_sized [OF assms(2)] assms(3)] unfolding run_view_def Let_def tree_def by blast

theorem run_view_shows_witness:
  "\<exists>cx'. run_view (VStackView [ImageView 2 1 [7, 8], ImageView 1 1 [9]] 0) \<lparr>cx_framebuffer = replicate 12 0, cx_size = \<lparr>g_width = 4, g_height = 3\<rparr>\<rparr> = Some cx' \<and>
     cx_framebuffer cx' ! 1 = 7 \<and> cx_framebuffer cx' ! 2 = 8 \<and> cx_framebuffer cx' ! 5 = 9 \<and> cx_framebuffer cx' ! 6 = 0"
proof -
  let ?v = "VStackView [ImageView 2 1 [7, 8], ImageView 1 1 [9]] 0" and ?cx = "\<lparr>cx_framebuffer = replicate 12 0, cx_size = \<lparr>g_width = 4, g_height = 3\<rparr>\<rparr>"
  have "wf_view ?v" "context_ok ?cx" by (simp_all add: context_ok_def)
  from run_view_shows [OF this] obtain cx' where r: "run_view ?v ?cx = Some cx'" and
    s: "shows_over [(\<lparr>g_x = 1, g_y = 0\<rparr>, ImageView 2 1 [7, 8]), (\<lparr>g_x = 1, g_y = 1\<rparr>, ImageView 1 1 [9])] ?cx cx'"
    by (auto simp: Let_def place_node_def signed_divide_int_def)
  have px: "cx_framebuffer cx' ! nat (x + y * 4) = picture [(\<lparr>g_x = 1, g_y = 0\<rparr>, ImageView 2 1 [7, 8]), (\<lparr>g_x = 1, g_y = 1\<rparr>, ImageView 1 1 [9])] x y 0"
    if "0 \<le> x" "x < 4" "0 \<le> y" "y < 3" for x y
  proof -
    have "nat (x + y * 4) < 12" using that by simp
    then show ?thesis using s that by (simp add: shows_over_def)
  qed
  show ?thesis using r px [of 1 0] px [of 2 0] px [of 1 1] px [of 2 1] by (simp add: covers_def colour_at_def)
qed

end
