(* ===== verification/Net_PCNet.thy ===== *)
theory Net_PCNet
  imports Tasks_Sync Net_Endian Memory_Routines
begin

text \<open>
  The driver of the network card, \<open>Kernel/Drivers/Network/PCNet.cpp\<close> and \<open>PCNet.h\<close>. The driver and the card share two
  rings of eight descriptors; the bit \<open>OWN_BUFFER\<close> says who may use a descriptor and its buffer. The memory is
  indexed by physical addresses. Reading and writing the ports of the card has no effect on the state of the driver and
  is not modelled, except for the cause of an interrupt, which is an argument. The interrupt handler runs with interrupts
  off and the thread holds \<open>m_threadLock\<close>, so each is one step.
\<close>

subsection \<open>The initialisation block\<close>

record InitialisationBlock =
  ib_mode :: u16
  ib_rlen :: u8
  ib_tlen :: u8
  ib_padrLow :: u32
  ib_padrHigh :: u16
  ib_ladrf :: u64
  ib_rdra :: u32
  ib_tdra :: u32

definition set_rlen :: "u8 \<Rightarrow> InitialisationBlock \<Rightarrow> InitialisationBlock" where
  "set_rlen rlen b = b\<lparr>ib_rlen := push_bit 4 (rlen AND 0x0F)\<rparr>"

definition get_rlen :: "InitialisationBlock \<Rightarrow> u16" where
  "get_rlen b = ucast (drop_bit 4 (ib_rlen b AND 0xF0))"

definition set_tlen :: "u8 \<Rightarrow> InitialisationBlock \<Rightarrow> InitialisationBlock" where
  "set_tlen tlen b = b\<lparr>ib_tlen := push_bit 4 (tlen AND 0x0F)\<rparr>"

definition get_tlen :: "InitialisationBlock \<Rightarrow> u16" where
  "get_tlen b = ucast (drop_bit 4 (ib_tlen b AND 0xF0))"

definition set_paddr :: "MediaAccessControlAddress \<Rightarrow> InitialisationBlock \<Rightarrow> InitialisationBlock" where
  "set_paddr mac b = b\<lparr>ib_padrHigh := push_bit 8 (ucast (mac ! 0)) OR ucast (mac ! 1),
     ib_padrLow := push_bit 24 (ucast (mac ! 2)) OR push_bit 16 (ucast (mac ! 3)) OR push_bit 6 (ucast (mac ! 4)) OR ucast (mac ! 5)\<rparr>"

definition get_paddr :: "InitialisationBlock \<Rightarrow> u64" where
  "get_paddr b = push_bit 32 (ucast (ib_padrHigh b)) OR ucast (ib_padrLow b)"

definition set_rdra :: "u64 \<Rightarrow> InitialisationBlock \<Rightarrow> InitialisationBlock" where
  "set_rdra a b = b\<lparr>ib_rdra := ucast a\<rparr>"

definition set_tdra :: "u64 \<Rightarrow> InitialisationBlock \<Rightarrow> InitialisationBlock" where
  "set_tdra a b = b\<lparr>ib_tdra := ucast a\<rparr>"

subsection \<open>The rings\<close>

record TransmitDescriptor =
  TMD0 :: u32
  TMD1 :: u32
  TMD2 :: u32
  TMD3 :: u32

record ReceiveDescriptor =
  RMD0 :: u32
  RMD1 :: u32
  RMD2 :: u32
  RMD3 :: u32

definition OWN_BUFFER :: u32 where "OWN_BUFFER = 0x80000000"
definition BUFFER_LEN :: u32 where "BUFFER_LEN = 0x07FF"
definition ONES :: u32 where "ONES = 0xF000"
definition STP :: u32 where "STP = 0x2000000"
definition ENP :: u32 where "ENP = 0x1000000"
definition TX_BUF_COUNT :: nat where "TX_BUF_COUNT = 8"
definition RX_BUF_COUNT :: nat where "RX_BUF_COUNT = 8"
definition BUF_SIZE :: nat where "BUF_SIZE = 2048"

record PCNet =
  m_curTxBufDescriptor :: nat
  m_curRxBufDescriptor :: nat
  m_txBufDescr :: "TransmitDescriptor list"
  m_rxBufDescr :: "ReceiveDescriptor list"
  pc_memory :: memory
  m_queuedMessages :: "byte list list"
  m_server :: bool
  m_threadId :: TaskID

definition init_tx_ring :: "u64 \<Rightarrow> TransmitDescriptor list" where
  "init_tx_ring base = map (\<lambda>i. \<lparr>TMD0 = ucast (base + of_nat (i * BUF_SIZE)), TMD1 = ONES OR BUFFER_LEN, TMD2 = 0, TMD3 = 0\<rparr>) [0..<TX_BUF_COUNT]"

definition init_rx_ring :: "u64 \<Rightarrow> ReceiveDescriptor list" where
  "init_rx_ring base =
     map (\<lambda>i. \<lparr>RMD0 = ucast (base + of_nat (i * BUF_SIZE)), RMD1 = OWN_BUFFER OR ONES OR BUFFER_LEN, RMD2 = 0, RMD3 = 0\<rparr>) [0..<RX_BUF_COUNT]"

definition send_data :: "addr \<Rightarrow> nat \<Rightarrow> PCNet \<Rightarrow> PCNet" where
  "send_data buf sz d =
     (let descriptor = m_curTxBufDescriptor d;
          td = m_txBufDescr d ! descriptor
      in d\<lparr>m_curTxBufDescriptor := (descriptor + 1) mod TX_BUF_COUNT,
           pc_memory := memcpy (pc_memory d) (unat (TMD0 td)) buf sz,
           m_txBufDescr := (m_txBufDescr d)[descriptor := td\<lparr>TMD1 := OWN_BUFFER OR ONES OR STP OR ENP OR ucast (- of_nat sz AND (0xFFF :: u64)), TMD2 := 0, TMD3 := 0\<rparr>]\<rparr>)"

definition received_size :: "ReceiveDescriptor \<Rightarrow> nat" where
  "received_size rd = (let sz = unat (RMD1 rd AND 0xFFF) in if sz > 64 then sz - 4 else sz)"

definition receive_one :: "PCNet \<times> TaskManager \<Rightarrow> (PCNet \<times> TaskManager) option" where
  "receive_one = (\<lambda>(d, tm).
     let cur = m_curRxBufDescriptor d;
         rd = m_rxBufDescr d ! cur;
         release = (\<lambda>d :: PCNet. d\<lparr>m_rxBufDescr := (m_rxBufDescr d)[cur := rd\<lparr>RMD1 := OWN_BUFFER OR ONES OR BUFFER_LEN\<rparr>],
                               m_curRxBufDescriptor := (cur + 1) mod RX_BUF_COUNT\<rparr>)
     in if RMD1 rd AND (STP OR ENP) = STP OR ENP \<and> m_server d
        then let data = map (pc_memory d) [unat (RMD0 rd)..<unat (RMD0 rd) + received_size rd]
             in do { tm \<leftarrow> unblock (m_threadId d) tm; Some (release (d\<lparr>m_queuedMessages := m_queuedMessages d @ [data]\<rparr>), tm) }
        else Some (release d, tm))"

definition unowned :: "PCNet \<Rightarrow> nat" where
  "unowned d = length (filter (\<lambda>rd. RMD1 rd AND OWN_BUFFER = 0) (m_rxBufDescr d))"

lemma filter_length_update:
  "i < length xs \<Longrightarrow> P (xs ! i) \<Longrightarrow> \<not> P y \<Longrightarrow> length (filter P (xs[i := y])) < length (filter P xs)"
proof (induction xs arbitrary: i)
  case (Cons x xs)
  then show ?case by (cases i) auto
qed simp

lemma receive_one_unowned:
  assumes "receive_one (d, tm) = Some (d', tm')" "m_curRxBufDescriptor d < length (m_rxBufDescr d)"
    and "RMD1 (m_rxBufDescr d ! m_curRxBufDescriptor d) AND OWN_BUFFER = 0"
  shows "unowned d' < unowned d"
proof -
  have "m_rxBufDescr d' = (m_rxBufDescr d)[m_curRxBufDescriptor d := (m_rxBufDescr d ! m_curRxBufDescriptor d)\<lparr>RMD1 := OWN_BUFFER OR ONES OR BUFFER_LEN\<rparr>]"
    using assms(1) by (auto simp: receive_one_def Let_def split: if_splits bind_splits)
  then show ?thesis using assms(2,3) by (simp add: unowned_def filter_length_update OWN_BUFFER_def ONES_def BUFFER_LEN_def)
qed

text \<open>The loop gives every descriptor it has seen back to the card, so it ends when it has gone around the ring.\<close>

function pcnet_receive_data :: "PCNet \<times> TaskManager \<Rightarrow> (PCNet \<times> TaskManager) option" where
  "pcnet_receive_data (d, tm) =
     (if m_curRxBufDescriptor d < length (m_rxBufDescr d)
      then if RMD1 (m_rxBufDescr d ! m_curRxBufDescriptor d) AND OWN_BUFFER = 0
           then (case receive_one (d, tm) of None \<Rightarrow> None | Some s \<Rightarrow> pcnet_receive_data s)
           else Some (d, tm)
      else None)"
  by pat_completeness auto
termination by (relation "measure (unowned \<circ> fst)") (auto intro: receive_one_unowned)

declare pcnet_receive_data.simps [simp del]

definition pcnet_irq_handler :: "u32 \<Rightarrow> PCNet \<times> TaskManager \<Rightarrow> (PCNet \<times> TaskManager) option" where
  "pcnet_irq_handler code s = (if code AND 0x0400 \<noteq> 0 then pcnet_receive_data s else Some s)"

text \<open>One pass of the thread: the messages for the server, in order, and the driver without them. The thread then blocks.\<close>

definition pcnet_receive_thread :: "PCNet \<Rightarrow> byte list list \<times> PCNet" where
  "pcnet_receive_thread d = ((if m_server d then m_queuedMessages d else []), d\<lparr>m_queuedMessages := []\<rparr>)"

definition connect_to_network_server :: "PCNet \<Rightarrow> PCNet" where
  "connect_to_network_server d = d\<lparr>m_server := True\<rparr>"

lemma rlen_tlen_roundtrip: "get_rlen (set_rlen n b) = ucast (n AND 0x0F)" "get_tlen (set_tlen n b) = ucast (n AND 0x0F)"
proof -
  have m: "(0x0F :: u8) = mask 4" "(0xF0 :: u8) = push_bit 4 (mask 4)" by (simp_all add: mask_eq_exp_minus_1)
  show "get_rlen (set_rlen n b) = ucast (n AND 0x0F)" "get_tlen (set_tlen n b) = ucast (n AND 0x0F)"
    unfolding get_rlen_def set_rlen_def get_tlen_def set_tlen_def m by (auto simp: bit_simps intro!: bit_word_eqI)
qed

text \<open>The address that the card is given is not the address of the card: the fifth byte is shifted by 6 places, and the bytes are reversed.\<close>

lemma set_paddr_wrong:
  "get_paddr (set_paddr [0x52, 0x54, 0, 0x12, 0x34, 0x56] b) = 0x525400120D56"
  "get_paddr (set_paddr [0x52, 0x54, 0, 0x12, 0x34, 0x56] b) \<noteq> 0x525400123456"
  by (simp_all add: get_paddr_def set_paddr_def)

subsection \<open>Receiving\<close>

text \<open>
  The card's side of the ring, from its data sheet: it fills the buffer of the next descriptor it owns, sets the two flags
  for a frame in one buffer, stores the length of the message in \<open>RMD2\<close> and clears \<open>OWN_BUFFER\<close>. The field of \<open>RMD1\<close> from
  which the driver takes the size is the length of the buffer, which the card does not change.
\<close>

definition card_store :: "nat \<Rightarrow> byte list \<Rightarrow> PCNet \<Rightarrow> PCNet" where
  "card_store p frame d =
     (let rd = m_rxBufDescr d ! p; a = unat (RMD0 rd)
      in d\<lparr>pc_memory := (\<lambda>x. if a \<le> x \<and> x < a + length frame then frame ! (x - a) else pc_memory d x),
           m_rxBufDescr := (m_rxBufDescr d)[p := rd\<lparr>RMD1 := (RMD1 rd AND NOT OWN_BUFFER) OR STP OR ENP, RMD2 := of_nat (length frame)\<rparr>]\<rparr>)"

definition empty_md1 :: u32 where "empty_md1 = OWN_BUFFER OR ONES OR BUFFER_LEN"
definition filled_md1 :: u32 where "filled_md1 = (empty_md1 AND NOT OWN_BUFFER) OR STP OR ENP"

lemmas md1_defs = empty_md1_def filled_md1_def OWN_BUFFER_def ONES_def BUFFER_LEN_def STP_def ENP_def

text \<open>The ring holds the frames \<open>ps\<close>: from the position of the driver on, their descriptors are filled; the others belong to the card.\<close>

definition slot_ok :: "nat \<Rightarrow> byte list option \<Rightarrow> PCNet \<Rightarrow> nat \<Rightarrow> bool" where
  "slot_ok base content d i \<longleftrightarrow>
     (case content of
        None \<Rightarrow> RMD1 (m_rxBufDescr d ! i) = empty_md1
      | Some f \<Rightarrow> RMD1 (m_rxBufDescr d ! i) = filled_md1 \<and> length f \<le> 2043 \<and>
          map (pc_memory d) [base + i * 2048..<base + i * 2048 + length f] = f)"

definition nth_frame :: "byte list list \<Rightarrow> nat \<Rightarrow> byte list option" where
  "nth_frame ps k = (if k < length ps then Some (ps ! k) else None)"

definition ring_ok :: "nat \<Rightarrow> byte list list \<Rightarrow> nat \<Rightarrow> PCNet \<Rightarrow> bool" where
  "ring_ok base ps p d \<longleftrightarrow> length (m_rxBufDescr d) = 8 \<and> m_curRxBufDescriptor d < 8 \<and> length ps \<le> 8 \<and>
     p = (m_curRxBufDescriptor d + length ps) mod 8 \<and> (\<forall>i<8. unat (RMD0 (m_rxBufDescr d ! i)) = base + i * 2048) \<and>
     (\<forall>k<8. slot_ok base (nth_frame ps k) d ((m_curRxBufDescriptor d + k) mod 8))"

lemma ring_okD:
  assumes "ring_ok base ps p d"
  shows "length (m_rxBufDescr d) = 8" "m_curRxBufDescriptor d < 8" "length ps \<le> 8" "p = (m_curRxBufDescriptor d + length ps) mod 8"
    "\<And>i. i < 8 \<Longrightarrow> unat (RMD0 (m_rxBufDescr d ! i)) = base + i * 2048"
    "\<And>k. k < 8 \<Longrightarrow> slot_ok base (nth_frame ps k) d ((m_curRxBufDescriptor d + k) mod 8)"
  using assms by (simp_all add: ring_ok_def)

lemma ring_first:
  assumes "ring_ok base ps p d"
  shows "slot_ok base (nth_frame ps 0) d (m_curRxBufDescriptor d)"
  using ring_okD(6) [OF assms, of 0] ring_okD(2) [OF assms] by simp

lemma slot_ok_cong:
  assumes "slot_ok base content d i" "m_rxBufDescr d' ! i = m_rxBufDescr d ! i"
    and "\<And>a. base + i * 2048 \<le> a \<Longrightarrow> a < base + i * 2048 + 2043 \<Longrightarrow> pc_memory d' a = pc_memory d a"
  shows "slot_ok base content d' i"
proof (cases content)
  case (Some f)
  then have "length f \<le> 2043" using assms(1) by (simp add: slot_ok_def)
  then have e: "map (pc_memory d') [base + i * 2048..<base + i * 2048 + length f] = map (pc_memory d) [base + i * 2048..<base + i * 2048 + length f]"
    using assms(3) by simp
  show ?thesis using assms(1,2) unfolding slot_ok_def Some option.case e by simp
qed (use assms in \<open>simp add: slot_ok_def\<close>)

text \<open>What a message for the server carries: the frame, and after it whatever is in the buffer up to 2043 bytes.\<close>

definition frame_carried :: "byte list \<Rightarrow> byte list \<Rightarrow> bool" where
  "frame_carried f msg \<longleftrightarrow> length msg = 2043 \<and> take (length f) msg = f"

lemma slot_ok_queue: "slot_ok base content (d\<lparr>m_queuedMessages := q\<rparr>) i = slot_ok base content d i"
  by (cases content) (simp_all add: slot_ok_def)

lemma ring_ok_queue: "ring_ok base ps p (d\<lparr>m_queuedMessages := q\<rparr>) = ring_ok base ps p d"
  by (simp add: ring_ok_def slot_ok_queue)

lemma ring_wrap: "i < 8 \<Longrightarrow> k \<le> 8 \<Longrightarrow> (i + k) mod 8 = (if i + k < 8 then i + k else i + k - (8 :: nat))"
  by (simp add: le_mod_geq)

lemma ring_slots: "i < 8 \<Longrightarrow> k < 8 \<Longrightarrow> n < 8 \<Longrightarrow> (i + k) mod 8 = (i + n) mod 8 \<Longrightarrow> k = (n :: nat)"
  by (auto simp: ring_wrap split: if_splits)

lemma ring_next:
  assumes r: "ring_ok base (f # ps) p d"
  defines "i \<equiv> m_curRxBufDescriptor d"
  shows "ring_ok base ps p (d\<lparr>m_rxBufDescr := (m_rxBufDescr d)[i := (m_rxBufDescr d ! i)\<lparr>RMD1 := empty_md1\<rparr>], m_curRxBufDescriptor := (i + 1) mod 8\<rparr>)"
proof -
  let ?d = "d\<lparr>m_rxBufDescr := (m_rxBufDescr d)[i := (m_rxBufDescr d ! i)\<lparr>RMD1 := empty_md1\<rparr>], m_curRxBufDescriptor := (i + 1) mod 8\<rparr>"
  note i = ring_okD(1,2,3) [OF r, folded i_def] ring_okD(5) [OF r]
  have "slot_ok base (nth_frame ps k) ?d (((i + 1) mod 8 + k) mod 8)" if k: "k < 8" for k
  proof (cases "k = 7")
    case True
    have j: "((i + 1) mod 8 + k) mod 8 = i" using i(2) True by (simp add: mod_simps)
    show ?thesis unfolding j using i(1-3) True by (simp add: slot_ok_def nth_frame_def)
  next
    case False
    have j: "((i + 1) mod 8 + k) mod 8 = (i + Suc k) mod 8" by (simp add: mod_simps)
    have "(i + Suc k) mod 8 \<noteq> i" using ring_slots [OF i(2), of "Suc k" 0] i(2) k False by auto
    then have u: "m_rxBufDescr ?d ! ((i + Suc k) mod 8) = m_rxBufDescr d ! ((i + Suc k) mod 8)" by simp
    have "slot_ok base (nth_frame (f # ps) (Suc k)) d ((i + Suc k) mod 8)" using ring_okD(6) [OF r, of "Suc k"] k False by (simp add: i_def)
    moreover have "nth_frame (f # ps) (Suc k) = nth_frame ps k" by (simp add: nth_frame_def)
    ultimately have "slot_ok base (nth_frame ps k) d ((i + Suc k) mod 8)" by simp
    from slot_ok_cong [OF this u] show ?thesis unfolding j by simp
  qed
  moreover have "p = ((i + 1) mod 8 + length ps) mod 8" using ring_okD(4) [OF r] by (simp add: mod_simps i_def)
  moreover have "\<forall>j<8. unat (RMD0 (m_rxBufDescr ?d ! j)) = base + j * 2048" using i(1,2,4) by (simp add: nth_list_update)
  ultimately show ?thesis using i(1-3) unfolding ring_ok_def by simp
qed

lemma buffers_apart:
  fixes j p :: nat
  assumes "j \<noteq> p" "base + j * 2048 \<le> a" "a < base + j * 2048 + 2043" "n \<le> 2043"
  shows "\<not> (base + p * 2048 \<le> a \<and> a < base + p * 2048 + n)"
proof -
  have "j + 1 \<le> p \<or> p + 1 \<le> j" using assms(1) by auto
  then have "j * 2048 + 2048 \<le> p * 2048 \<or> p * 2048 + 2048 \<le> j * 2048" by auto
  then show ?thesis using assms(2-4) by auto
qed

lemma ring_store:
  assumes r: "ring_ok base ps p d" and own: "RMD1 (m_rxBufDescr d ! p) AND OWN_BUFFER \<noteq> 0" and f: "length f \<le> 2043"
  shows "ring_ok base (ps @ [f]) ((p + 1) mod 8) (card_store p f d)"
proof -
  let ?d = "card_store p f d" and ?i = "m_curRxBufDescriptor d" and ?n = "length ps"
  note i = ring_okD(1,2,3,4) [OF r] ring_okD(5) [OF r]
  have p: "p < 8" using i(4) by simp
  have "?n \<noteq> 8"
  proof
    assume n: "?n = 8"
    then have "p = ?i" using i(2,4) by simp
    then have "RMD1 (m_rxBufDescr d ! p) = filled_md1" using ring_first [OF r] n by (simp add: slot_ok_def nth_frame_def)
    then show False using own by (simp add: md1_defs)
  qed
  then have n: "?n < 8" using i(3) by simp
  have e: "RMD1 (m_rxBufDescr d ! p) = empty_md1" using ring_okD(6) [OF r n] i(4) by (simp add: slot_ok_def nth_frame_def)
  have a: "unat (RMD0 (m_rxBufDescr d ! p)) = base + p * 2048" by (rule i(5) [OF p])
  have mem: "pc_memory ?d = (\<lambda>x. if base + p * 2048 \<le> x \<and> x < base + p * 2048 + length f then f ! (x - (base + p * 2048)) else pc_memory d x)"
    unfolding card_store_def Let_def a by simp
  have d: "m_curRxBufDescriptor ?d = ?i" "length (m_rxBufDescr ?d) = 8" "RMD1 (m_rxBufDescr ?d ! p) = filled_md1"
    "\<forall>j<8. unat (RMD0 (m_rxBufDescr ?d ! j)) = base + j * 2048" "\<forall>j. j \<noteq> p \<longrightarrow> m_rxBufDescr ?d ! j = m_rxBufDescr d ! j"
    using i(1) p e i(5) by (simp_all add: card_store_def Let_def filled_md1_def nth_list_update)
  have "slot_ok base (nth_frame (ps @ [f]) k) ?d ((?i + k) mod 8)" if k: "k < 8" for k
  proof (cases "k = ?n")
    case True
    have "map (pc_memory ?d) [base + p * 2048..<base + p * 2048 + length f] = f" unfolding mem by (intro nth_equalityI) simp_all
    then show ?thesis using d(3) f True i(4) by (simp add: slot_ok_def nth_frame_def)
  next
    case False
    have j: "(?i + k) mod 8 \<noteq> p" using ring_slots [OF i(2) k n] False i(4) by auto
    have "slot_ok base (nth_frame ps k) ?d ((?i + k) mod 8)"
      using j d(5) buffers_apart [OF j _ _ f] by (intro slot_ok_cong [OF ring_okD(6) [OF r k]]) (auto simp: mem)
    moreover have "nth_frame (ps @ [f]) k = nth_frame ps k" using False by (auto simp: nth_frame_def nth_append)
    ultimately show ?thesis by simp
  qed
  moreover have "(p + 1) mod 8 = (?i + length (ps @ [f])) mod 8" using i(4) by (simp add: mod_simps)
  ultimately show ?thesis using d(1,2,4) i(2) n unfolding ring_ok_def by simp
qed

lemma receive_data_all:
  assumes "ring_ok base ps p d" "m_server d" "tm_reachable tm" "launched tm (m_threadId d)"
  shows "\<exists>d' tm' msgs. pcnet_receive_data (d, tm) = Some (d', tm') \<and> ring_ok base [] p d' \<and> m_queuedMessages d' = m_queuedMessages d @ msgs \<and>
    list_all2 frame_carried ps msgs \<and> m_server d' \<and> m_threadId d' = m_threadId d \<and> tm_reachable tm' \<and> launched tm' (m_threadId d)"
  using assms
proof (induction ps arbitrary: d tm)
  case Nil
  then have "RMD1 (m_rxBufDescr d ! m_curRxBufDescriptor d) = empty_md1" "m_curRxBufDescriptor d < length (m_rxBufDescr d)"
    using ring_first [OF Nil(1)] ring_okD(1,2) [OF Nil(1)] by (simp_all add: slot_ok_def nth_frame_def)
  then have "pcnet_receive_data (d, tm) = Some (d, tm)" by (simp add: pcnet_receive_data.simps md1_defs)
  then show ?case using Nil by auto
next
  case (Cons f ps)
  let ?i = "m_curRxBufDescriptor d"
  have i: "?i < 8" "length (m_rxBufDescr d) = 8" "RMD1 (m_rxBufDescr d ! ?i) = filled_md1" "length f \<le> 2043"
    "unat (RMD0 (m_rxBufDescr d ! ?i)) = base + ?i * 2048" "map (pc_memory d) [base + ?i * 2048..<base + ?i * 2048 + length f] = f"
    using ring_first [OF Cons.prems(1)] ring_okD(1,2) [OF Cons.prems(1)] ring_okD(5) [OF Cons.prems(1)] by (simp_all add: slot_ok_def nth_frame_def)
  have sz: "received_size (m_rxBufDescr d ! ?i) = 2043" using i(3) by (simp add: received_size_def md1_defs)
  define msg where "msg = map (pc_memory d) [base + ?i * 2048..<base + ?i * 2048 + 2043]"
  obtain tm1 where u: "unblock (m_threadId d) tm = Some tm1" "tm_reachable tm1" "launched tm1 (m_threadId d)"
    using unblock_task [OF Cons.prems(3,4)] Cons.prems(4) wakes_started by blast
  define d1 where "d1 = d\<lparr>m_rxBufDescr := (m_rxBufDescr d)[?i := (m_rxBufDescr d ! ?i)\<lparr>RMD1 := empty_md1\<rparr>],
    m_curRxBufDescriptor := (?i + 1) mod 8\<rparr>\<lparr>m_queuedMessages := m_queuedMessages d @ [msg]\<rparr>"
  have "receive_one (d, tm) = Some (d1, tm1)"
    using i(3) u(1) Cons.prems(2) sz
    by (simp add: receive_one_def Let_def d1_def msg_def i(5) RX_BUF_COUNT_def) (simp add: md1_defs)
  moreover have "RMD1 (m_rxBufDescr d ! ?i) AND OWN_BUFFER = 0" using i(3) by (simp add: md1_defs)
  ultimately have step: "pcnet_receive_data (d, tm) = pcnet_receive_data (d1, tm1)" using i(1,2) by (simp add: pcnet_receive_data.simps [of d tm])
  have ring: "ring_ok base ps p d1" unfolding d1_def ring_ok_queue by (rule ring_next [OF Cons.prems(1)])
  have "frame_carried f msg"
  proof -
    have "[base + ?i * 2048..<base + ?i * 2048 + length f] = take (length f) [base + ?i * 2048..<base + ?i * 2048 + 2043]"
      using i(4) by (simp add: take_upt)
    then show ?thesis using i(6) by (simp add: frame_carried_def msg_def take_map)
  qed
  moreover have "m_server d1" "m_threadId d1 = m_threadId d" "m_queuedMessages d1 = m_queuedMessages d @ [msg]" using Cons.prems(2) by (simp_all add: d1_def)
  moreover from this obtain d' tm' msgs where "pcnet_receive_data (d1, tm1) = Some (d', tm')" "ring_ok base [] p d'" "m_queuedMessages d' = m_queuedMessages d1 @ msgs"
    "list_all2 frame_carried ps msgs" "m_server d'" "m_threadId d' = m_threadId d1" "tm_reachable tm'" "launched tm' (m_threadId d1)"
    using Cons.IH [OF ring _ u(2)] u(3) by auto
  ultimately show ?case unfolding step by (intro exI [of _ d'] exI [of _ tm'] exI [of _ "msg # msgs"]) simp
qed

subsection \<open>The card, interrupts and the thread\<close>

text \<open>
  The card stores frames, the processor takes interrupts, the thread of the driver passes messages to the server, and
  other tasks run, in any order. \<open>pc_sent\<close> are the frames that the card has stored, \<open>pc_delivered\<close> the messages that the
  server has got.
\<close>

record PCSystem =
  pc_dev :: PCNet
  pc_tm :: TaskManager
  pc_pos :: nat
  pc_sent :: "byte list list"
  pc_delivered :: "byte list list"

inductive pc_step :: "PCSystem \<Rightarrow> PCSystem \<Rightarrow> bool" where
  pc_card: "RMD1 (m_rxBufDescr (pc_dev s) ! pc_pos s) AND OWN_BUFFER \<noteq> 0 \<Longrightarrow> length f \<le> 2043 \<Longrightarrow>
    pc_step s (s\<lparr>pc_dev := card_store (pc_pos s) f (pc_dev s), pc_pos := (pc_pos s + 1) mod 8, pc_sent := pc_sent s @ [f]\<rparr>)"
| pc_irq: "pcnet_irq_handler code (pc_dev s, pc_tm s) = Some (d, tm) \<Longrightarrow> pc_step s (s\<lparr>pc_dev := d, pc_tm := tm\<rparr>)"
| pc_pass: "pcnet_receive_thread (pc_dev s) = (msgs, d) \<Longrightarrow> pc_step s (s\<lparr>pc_dev := d, pc_delivered := pc_delivered s @ msgs\<rparr>)"
| pc_others: "tm_reachable tm \<Longrightarrow> launched tm (m_threadId (pc_dev s)) \<Longrightarrow> pc_step s (s\<lparr>pc_tm := tm\<rparr>)"

definition pc_init :: "u64 \<Rightarrow> u64 \<Rightarrow> memory \<Rightarrow> TaskID \<Rightarrow> TaskManager \<Rightarrow> PCSystem" where
  "pc_init txBase rxBase mem tid tm =
     \<lparr>pc_dev = connect_to_network_server
        \<lparr>m_curTxBufDescriptor = 0, m_curRxBufDescriptor = 0, m_txBufDescr = init_tx_ring txBase, m_rxBufDescr = init_rx_ring rxBase,
         pc_memory = mem, m_queuedMessages = [], m_server = False, m_threadId = tid\<rparr>,
      pc_tm = tm, pc_pos = 0, pc_sent = [], pc_delivered = []\<rparr>"

definition pc_inv :: "nat \<Rightarrow> PCSystem \<Rightarrow> bool" where
  "pc_inv base s \<longleftrightarrow> m_server (pc_dev s) \<and> tm_reachable (pc_tm s) \<and> launched (pc_tm s) (m_threadId (pc_dev s)) \<and>
     (\<exists>got ps. pc_sent s = got @ ps \<and> ring_ok base ps (pc_pos s) (pc_dev s) \<and>
        list_all2 frame_carried got (pc_delivered s @ m_queuedMessages (pc_dev s)))"

lemma pcnet_irq_ok:
  assumes "ring_ok base ps p d" "m_server d" "tm_reachable tm" "launched tm (m_threadId d)"
  shows "\<exists>d' tm' now later msgs. pcnet_irq_handler code (d, tm) = Some (d', tm') \<and> ps = now @ later \<and> ring_ok base later p d' \<and>
    m_queuedMessages d' = m_queuedMessages d @ msgs \<and> list_all2 frame_carried now msgs \<and> m_server d' \<and> m_threadId d' = m_threadId d \<and>
    tm_reachable tm' \<and> launched tm' (m_threadId d) \<and> (code AND 0x400 \<noteq> 0 \<longrightarrow> later = [])"
proof (cases "code AND 0x400 = 0")
  case True
  then have "pcnet_irq_handler code (d, tm) = Some (d, tm)" by (simp add: pcnet_irq_handler_def)
  then show ?thesis using assms True by (intro exI [of _ d] exI [of _ tm] exI [of _ "[]"] exI [of _ ps]) simp
next
  case False
  obtain d' tm' msgs where r: "pcnet_receive_data (d, tm) = Some (d', tm')" "ring_ok base [] p d'" "m_queuedMessages d' = m_queuedMessages d @ msgs"
    "list_all2 frame_carried ps msgs" "m_server d'" "m_threadId d' = m_threadId d" "tm_reachable tm'" "launched tm' (m_threadId d)"
    using receive_data_all [OF assms] by blast
  have "pcnet_irq_handler code (d, tm) = Some (d', tm')" using False r(1) by (simp add: pcnet_irq_handler_def)
  then show ?thesis using r(2-) by (intro exI [of _ d'] exI [of _ tm'] exI [of _ ps] exI [of _ "[]"] exI [of _ msgs]) simp
qed

lemma pc_step_inv:
  assumes "pc_step s s'" "pc_inv base s"
  shows "pc_inv base s'"
proof -
  obtain got ps where i: "m_server (pc_dev s)" "tm_reachable (pc_tm s)" "launched (pc_tm s) (m_threadId (pc_dev s))"
    "pc_sent s = got @ ps" "ring_ok base ps (pc_pos s) (pc_dev s)" "list_all2 frame_carried got (pc_delivered s @ m_queuedMessages (pc_dev s))"
    using assms(2) by (auto simp: pc_inv_def)
  from assms(1) show ?thesis
  proof cases
    case (pc_card f)
    have "m_server (card_store (pc_pos s) f (pc_dev s))" "m_threadId (card_store (pc_pos s) f (pc_dev s)) = m_threadId (pc_dev s)"
      "m_queuedMessages (card_store (pc_pos s) f (pc_dev s)) = m_queuedMessages (pc_dev s)"
      using i(1) by (simp_all add: card_store_def Let_def)
    then show ?thesis using i(2-4,6) ring_store [OF i(5) pc_card(2,3)] unfolding pc_inv_def pc_card(1)
      by simp (metis append.assoc)
  next
    case (pc_irq code d tm)
    obtain now later msgs where r: "ps = now @ later" "ring_ok base later (pc_pos s) d" "m_queuedMessages d = m_queuedMessages (pc_dev s) @ msgs"
      "list_all2 frame_carried now msgs" "m_server d" "m_threadId d = m_threadId (pc_dev s)" "tm_reachable tm" "launched tm (m_threadId (pc_dev s))"
      using pcnet_irq_ok [OF i(5,1,2,3), of code] pc_irq(2) by auto
    have "list_all2 frame_carried (got @ now) ((pc_delivered s @ m_queuedMessages (pc_dev s)) @ msgs)" by (rule list_all2_appendI [OF i(6) r(4)])
    then show ?thesis using i(4) r unfolding pc_inv_def pc_irq(1) by simp (metis append.assoc)
  next
    case (pc_pass msgs d)
    then have d: "d = (pc_dev s)\<lparr>m_queuedMessages := []\<rparr>" "msgs = m_queuedMessages (pc_dev s)" using i(1) by (auto simp: pcnet_receive_thread_def)
    show ?thesis using i unfolding pc_inv_def pc_pass(1) d by (simp add: ring_ok_queue) blast
  next
    case (pc_others tm)
    then show ?thesis using i by (auto simp: pc_inv_def)
  qed
qed

lemma pc_init_inv:
  assumes "unat rxBase + 8 * 2048 \<le> 2 ^ 32" "tm_reachable tm" "launched tm tid"
  shows "pc_inv (unat rxBase) (pc_init txBase rxBase mem tid tm)"
proof -
  have "unat (ucast (rxBase + of_nat (i * 2048)) :: u32) = unat rxBase + i * 2048" if "i < 8" for i
  proof -
    have l: "unat rxBase + i * 2048 < 2 ^ 32" using assms(1) that by simp
    moreover from this have "unat (of_nat (i * 2048) :: u64) = i * 2048" by (intro unat_of_nat_64) simp
    ultimately have "unat (rxBase + of_nat (i * 2048)) = unat rxBase + i * 2048" by (simp add: unat_plus_if_size word_size del: of_nat_mult)
    then show ?thesis using l by (simp add: unsigned_ucast_eq take_bit_nat_eq_self)
  qed
  then have "ring_ok (unat rxBase) [] 0 (pc_dev (pc_init txBase rxBase mem tid tm))"
    by (auto simp: ring_ok_def slot_ok_def nth_frame_def pc_init_def connect_to_network_server_def init_rx_ring_def RX_BUF_COUNT_def BUF_SIZE_def empty_md1_def)
  then show ?thesis using assms by (auto simp: pc_inv_def pc_init_def connect_to_network_server_def)
qed


definition example_ring_frames :: PCSystem where
  "example_ring_frames =
     (let s = pc_init 0x10000 0x20000 (\<lambda>_. 0) 1 example_running;
          s = s\<lparr>pc_dev := card_store 0 [1, 2, 3] (pc_dev s), pc_pos := 1, pc_sent := [[1, 2, 3]]\<rparr>
      in s\<lparr>pc_dev := card_store 1 [4] (pc_dev s), pc_pos := 2, pc_sent := [[1, 2, 3], [4]]\<rparr>)"


text \<open>
  Sending has no such protocol: \<open>send_data\<close> does not look at \<open>OWN_BUFFER\<close>. The ninth frame in a row goes to the descriptor of the
  first, whether the card has sent that or not.
\<close>

lemma send_data_ring:
  assumes "m_curTxBufDescriptor d < 8" "length (m_txBufDescr d) = 8"
  shows "m_curTxBufDescriptor ((send_data buf sz ^^ n) d) = (m_curTxBufDescriptor d + n) mod 8 \<and> length (m_txBufDescr ((send_data buf sz ^^ n) d)) = 8"
  using assms by (induction n) (simp_all add: send_data_def Let_def TX_BUF_COUNT_def mod_simps)

lemma ninth_frame_overwrites:
  assumes "m_curTxBufDescriptor d < 8" "length (m_txBufDescr d) = 8"
  shows "m_curTxBufDescriptor ((send_data buf sz ^^ 8) d) = m_curTxBufDescriptor d"
  using send_data_ring [OF assms, where n = 8 and buf = buf and sz = sz] assms by simp

end
