(* ===== verification/Arch_Interrupts.thy ===== *)
theory Arch_Interrupts
  imports Task_Properties
begin

text \<open>
  Interrupts, \<open>Kernel/Arch/Interrupts/Interrupts.cpp\<close>, \<open>Interrupts.h\<close>, \<open>PIC.cpp\<close> and the timer \<open>Kernel/Arch/IO/PIT.cpp\<close>: the
  descriptors of the interrupt table, the two interrupt controllers, the table of handlers, and the dispatch with the
  handler of page faults. A controller is its state after the port writes: offset, mask and the number of
  end-of-interrupt commands. The registers CR2 and CR3 are arguments. A handler is a value of any type, and \<open>run\<close> says
  what it does to the state of its driver.
\<close>

subsection \<open>Descriptors\<close>

record DescriptorTableEntry =
  m_offsetLow :: u16
  m_codeSegmentSelector :: u16
  dt_flags :: u16
  m_offsetMid :: u16
  m_offsetHigh :: u32

definition DescriptorTableEntry_new :: DescriptorTableEntry where
  "DescriptorTableEntry_new = \<lparr>m_offsetLow = 0, m_codeSegmentSelector = 0, dt_flags = 0, m_offsetMid = 0, m_offsetHigh = 0\<rparr>"

definition set_offset :: "u64 \<Rightarrow> DescriptorTableEntry \<Rightarrow> DescriptorTableEntry" where
  "set_offset offset e = e\<lparr>m_offsetLow := ucast (offset AND 0xFFFF), m_offsetMid := ucast (drop_bit 16 offset AND 0xFFFF),
     m_offsetHigh := ucast (drop_bit 32 offset AND 0xFFFFFFFF)\<rparr>"

definition get_offset :: "DescriptorTableEntry \<Rightarrow> u64" where
  "get_offset e = push_bit 32 (ucast (m_offsetHigh e)) OR scast (push_bit 16 (ucast (m_offsetMid e)) :: u32) OR ucast (m_offsetLow e)"

definition set_code_segment_selector :: "u16 \<Rightarrow> DescriptorTableEntry \<Rightarrow> DescriptorTableEntry" where
  "set_code_segment_selector sel e = e\<lparr>m_codeSegmentSelector := sel\<rparr>"

definition dt_get_flags :: "DescriptorTableEntry \<Rightarrow> u8" where
  "dt_get_flags e = ucast (drop_bit 8 (dt_flags e))"

definition dt_set_flags :: "u8 \<Rightarrow> DescriptorTableEntry \<Rightarrow> DescriptorTableEntry" where
  "dt_set_flags flags e = e\<lparr>dt_flags := push_bit 8 (ucast flags)\<rparr>"

subsection \<open>The interrupt controllers\<close>

record PIC =
  pic_masterOffset :: u8
  pic_slaveOffset :: u8
  pic_masterMask :: u8
  pic_slaveMask :: u8
  pic_masterEoi :: nat
  pic_slaveEoi :: nat

definition remap_and_init_to_offsets :: "u8 \<Rightarrow> u8 \<Rightarrow> PIC \<Rightarrow> PIC" where
  "remap_and_init_to_offsets masterOffset slaveOffset pic =
     pic\<lparr>pic_masterOffset := masterOffset, pic_slaveOffset := slaveOffset, pic_masterMask := 0xFB, pic_slaveMask := 0xFF\<rparr>"

definition send_end_of_interrupt :: "u8 \<Rightarrow> PIC \<Rightarrow> PIC" where
  "send_end_of_interrupt vector pic =
     (let pic = (if vector \<ge> 8 then pic\<lparr>pic_slaveEoi := pic_slaveEoi pic + 1\<rparr> else pic)
      in pic\<lparr>pic_masterEoi := pic_masterEoi pic + 1\<rparr>)"

definition set_irq_mask :: "u8 \<Rightarrow> PIC \<Rightarrow> PIC" where
  "set_irq_mask irqLine pic =
     (if irqLine < 8 then pic\<lparr>pic_masterMask := pic_masterMask pic OR ucast (push_bit (unat irqLine) 1 :: u32)\<rparr>
      else pic\<lparr>pic_slaveMask := pic_slaveMask pic OR ucast (push_bit (unat (irqLine - 8)) 1 :: u32)\<rparr>)"

definition clear_irq_mask :: "u8 \<Rightarrow> PIC \<Rightarrow> PIC" where
  "clear_irq_mask irqLine pic =
     (if irqLine < 8 then pic\<lparr>pic_masterMask := pic_masterMask pic AND ucast (NOT (push_bit (unat irqLine) 1 :: u32))\<rparr>
      else pic\<lparr>pic_slaveMask := pic_slaveMask pic AND ucast (NOT (push_bit (unat (irqLine - 8)) 1 :: u32))\<rparr>)"

subsection \<open>The manager of interrupts\<close>

definition MAX_INTERRUPTS_VECTOR :: nat where "MAX_INTERRUPTS_VECTOR = 256"
definition MAX_EXCEPTIONS_VECTOR :: u8 where "MAX_EXCEPTIONS_VECTOR = 32"
definition MAX_PIC_VECTOR :: u8 where "MAX_PIC_VECTOR = 48"
definition MASTER_PIC_VECTOR_BASE :: u8 where "MASTER_PIC_VECTOR_BASE = 32"
definition SLAVE_PIC_VECTOR_BASE :: u8 where "SLAVE_PIC_VECTOR_BASE = 40"

record 'h InterruptManager =
  m_idt64 :: "DescriptorTableEntry list"
  m_interruptHandlerTable :: "u8 \<Rightarrow> 'h option"
  im_pic :: PIC

definition interrupts_initialise :: "(nat \<Rightarrow> u64) \<Rightarrow> u16 \<Rightarrow> 'h InterruptManager \<Rightarrow> 'h InterruptManager" where
  "interrupts_initialise isr_table cs im =
     im\<lparr>m_idt64 := map (\<lambda>vector. if vector \<le> unat MAX_PIC_VECTOR
                               then dt_set_flags (0x80 OR 0x0E OR 0x60) (set_code_segment_selector cs (set_offset (isr_table vector) (m_idt64 im ! vector)))
                               else m_idt64 im ! vector) [0..<MAX_INTERRUPTS_VECTOR],
        m_interruptHandlerTable := (\<lambda>_. None),
        im_pic := remap_and_init_to_offsets MASTER_PIC_VECTOR_BASE SLAVE_PIC_VECTOR_BASE (im_pic im)\<rparr>"

definition add_interrupt_handler :: "'h \<Rightarrow> u8 \<Rightarrow> 'h InterruptManager \<Rightarrow> 'h InterruptManager" where
  "add_interrupt_handler callback vector im =
     (let im = (if vector \<ge> MAX_EXCEPTIONS_VECTOR \<and> vector \<le> MAX_PIC_VECTOR
                then im\<lparr>im_pic := clear_irq_mask (vector - MAX_EXCEPTIONS_VECTOR) (im_pic im)\<rparr> else im)
      in im\<lparr>m_interruptHandlerTable := (m_interruptHandlerTable im)(vector := Some callback)\<rparr>)"

definition remove_interrupt_handler :: "u8 \<Rightarrow> 'h InterruptManager \<Rightarrow> 'h InterruptManager" where
  "remove_interrupt_handler vector im =
     (let im = (if vector \<ge> MAX_EXCEPTIONS_VECTOR \<and> vector \<le> MAX_PIC_VECTOR
                then im\<lparr>im_pic := set_irq_mask (vector - MAX_EXCEPTIONS_VECTOR) (im_pic im)\<rparr> else im)
      in im\<lparr>m_interruptHandlerTable := (m_interruptHandlerTable im)(vector := None)\<rparr>)"

datatype halt = PageFaultHalt u64 | GeneralProtection | MemoryPanic panic

definition page_fault :: "u64 \<Rightarrow> u64 \<Rightarrow> Manager \<Rightarrow> halt + Manager" where
  "page_fault cr2 cr3 m =
     (let physicalAddress = get_physical_address m (m_virtualAddressSpace m) cr2
      in if physicalAddress \<noteq> 0
         then case request_virtual_map \<lparr>physicalAddress = physicalAddress, virtualAddress = BYTE_ALIGN_DOWN cr2 0x1000,
                     allowWrite = False, allowUserAccess = False, pageSize = PAGE_4KiB\<rparr> cr3 m of
                Inl err \<Rightarrow> Inl (MemoryPanic err)
              | Inr m \<Rightarrow> Inr m
         else Inl (PageFaultHalt cr2))"

definition internal_interrupt_handler ::
  "('h \<Rightarrow> 's \<Rightarrow> 's option) \<Rightarrow> u64 \<Rightarrow> u64 \<Rightarrow> u8 \<Rightarrow> 'h InterruptManager \<times> Manager \<times> 's \<Rightarrow> (halt + 'h InterruptManager \<times> Manager \<times> 's) option" where
  "internal_interrupt_handler run cr2 cr3 vector = (\<lambda>(im, m, s).
     if vector = 14 then Some (case page_fault cr2 cr3 m of Inl h \<Rightarrow> Inl h | Inr m \<Rightarrow> Inr (im, m, s))
     else if vector = 13 then Some (Inl GeneralProtection)
     else if vector \<ge> MAX_EXCEPTIONS_VECTOR
     then do {
       s \<leftarrow> (case m_interruptHandlerTable im vector of None \<Rightarrow> Some s | Some h \<Rightarrow> run h s);
       let im = (if vector \<le> MAX_PIC_VECTOR
                 then im\<lparr>im_pic := send_end_of_interrupt (vector - MAX_EXCEPTIONS_VECTOR) (im_pic im)\<rparr> else im);
       Some (Inr (im, m, s))
     }
     else Some (Inr (im, m, s)))"

subsection \<open>The timer\<close>

record ProgrammableIntervalTimer =
  pit_freq :: u32
  pit_reload :: u16
  m_timeSinceBootMs :: u64

definition set_frequency :: "u32 \<Rightarrow> ProgrammableIntervalTimer \<Rightarrow> ProgrammableIntervalTimer" where
  "set_frequency frequency pit = pit\<lparr>pit_freq := frequency, pit_reload := ucast ((1193182 :: u64) div ucast frequency)\<rparr>"

definition pit_initialise :: "ProgrammableIntervalTimer \<times> 'h InterruptManager \<Rightarrow> ProgrammableIntervalTimer \<times> 'h InterruptManager" where
  "pit_initialise = (\<lambda>(pit, im). (set_frequency 200 pit, im\<lparr>im_pic := clear_irq_mask 0 (im_pic im)\<rparr>))"

definition pit_tick :: "bool \<Rightarrow> ProgrammableIntervalTimer \<times> TaskManager \<Rightarrow> (ProgrammableIntervalTimer \<times> TaskManager) option" where
  "pit_tick is_executing = (\<lambda>(pit, tm).
     let pit = pit\<lparr>m_timeSinceBootMs := m_timeSinceBootMs pit + 5\<rparr>
     in if is_executing then do { tm \<leftarrow> refresh (unat (m_timeSinceBootMs pit)) tm; Some (pit, tm) } else Some (pit, tm))"

subsection \<open>Descriptors keep their contents\<close>

lemma masks: "(0xFFFF :: u64) = mask 16" "(0xFFFFFFFF :: u64) = mask 32" "(0xFF :: u64) = mask 8"
  by (simp_all add: mask_eq_exp_minus_1)

text \<open>The processor joins the three parts of the offset.\<close>

lemma set_offset_parts:
  "push_bit 32 (ucast (m_offsetHigh (set_offset a e))) OR push_bit 16 (ucast (m_offsetMid (set_offset a e))) OR ucast (m_offsetLow (set_offset a e)) = (a :: u64)"
proof (rule bit_word_eqI)
  fix n assume n: "n < LENGTH(64)"
  consider "n < 16" | "16 \<le> n" "n < 32" | "32 \<le> n" by linarith
  then show "bit (push_bit 32 (ucast (m_offsetHigh (set_offset a e))) OR push_bit 16 (ucast (m_offsetMid (set_offset a e))) OR ucast (m_offsetLow (set_offset a e)) :: u64) n = bit a n"
    using n by cases (auto simp: set_offset_def masks bit_simps)
qed

lemma get_offset_sign: "get_offset (set_offset 0xFFFFFF8080001000 e) = 0xFFFFFFFF80001000"
  by (simp add: get_offset_def set_offset_def)

lemma dt_flags_roundtrip: "dt_get_flags (dt_set_flags f e) = f"
  by (auto simp: dt_get_flags_def dt_set_flags_def bit_simps intro!: bit_word_eqI)

lemma idt_entries:
  fixes isr_table :: "nat \<Rightarrow> u64" and cs :: u16 and im :: "'h InterruptManager"
  assumes "v \<le> 48"
  defines "e \<equiv> m_idt64 (interrupts_initialise isr_table cs im) ! v"
  shows "push_bit 32 (ucast (m_offsetHigh e)) OR push_bit 16 (ucast (m_offsetMid e)) OR ucast (m_offsetLow e) = isr_table v \<and> dt_get_flags e = 0xEE"
proof -
  have e: "e = dt_set_flags 0xEE (set_code_segment_selector cs (set_offset (isr_table v) (m_idt64 im ! v)))"
    using assms(1) by (simp add: e_def interrupts_initialise_def MAX_PIC_VECTOR_def MAX_INTERRUPTS_VECTOR_def)
  then show ?thesis using set_offset_parts [of "isr_table v" "m_idt64 im ! v"] dt_flags_roundtrip
    by (simp add: dt_set_flags_def set_code_segment_selector_def dt_get_flags_def)
qed

subsection \<open>Masks\<close>

text \<open>Whether a controller holds back the interrupts of a line.\<close>

definition line_masked :: "PIC \<Rightarrow> nat \<Rightarrow> bool" where
  "line_masked pic l = (if l < 8 then bit (pic_masterMask pic) l else bit (pic_slaveMask pic) (l - 8))"

lemma bit_one_shifted: "n < 8 \<Longrightarrow> l < 8 \<Longrightarrow> bit (ucast (2 ^ n :: u32) :: u8) l \<longleftrightarrow> l = n"
  by (auto simp: bit_simps)

lemma bit_not_one_shifted: "n < 8 \<Longrightarrow> l < 8 \<Longrightarrow> bit (ucast (NOT (2 ^ n :: u32)) :: u8) l \<longleftrightarrow> l \<noteq> n"
  by (auto simp: bit_simps)

lemma line_offset: "irq < 16 \<Longrightarrow> \<not> irq < 8 \<Longrightarrow> unat (irq - 8 :: u8) = unat irq - 8 \<and> unat irq < 16 \<and> 8 \<le> unat irq"
  by (simp add: unat_sub_if_size word_less_nat_alt word_le_nat_alt)

lemma line_masks:
  assumes "irq < 16" "l < 16"
  shows "line_masked (set_irq_mask irq pic) l \<longleftrightarrow> l = unat irq \<or> line_masked pic l"
    and "line_masked (clear_irq_mask irq pic) l \<longleftrightarrow> l \<noteq> unat irq \<and> line_masked pic l"
  using assms line_offset [OF assms(1)] word_less_nat_alt [of irq 8]
  by (auto simp: line_masked_def set_irq_mask_def clear_irq_mask_def bit_or_iff bit_and_iff bit_one_shifted bit_not_one_shifted)

text \<open>The number after the last line of the controllers, which the test for a vector of the controllers lets through, has no effect.\<close>

lemma line_16: "set_irq_mask 16 pic = pic" "clear_irq_mask 16 pic = pic"
proof -
  have "ucast (push_bit 8 1 :: u32) = (0 :: u8)" "ucast (NOT (push_bit 8 1 :: u32)) = (- 1 :: u8)" "unat (16 - 8 :: u8) = 8" by simp_all
  then show "set_irq_mask 16 pic = pic" "clear_irq_mask 16 pic = pic" unfolding set_irq_mask_def clear_irq_mask_def by (simp_all del: push_bit_of_1)
qed

subsection \<open>Handlers and masks agree\<close>

datatype 'h irq_op = Add 'h u8 | Remove u8

fun irq_run :: "'h irq_op list \<Rightarrow> 'h InterruptManager \<Rightarrow> 'h InterruptManager" where
  "irq_run [] im = im"
| "irq_run (Add h v # ops) im = irq_run ops (add_interrupt_handler h v im)"
| "irq_run (Remove v # ops) im = irq_run ops (remove_interrupt_handler v im)"

definition masks_agree :: "'h InterruptManager \<Rightarrow> bool" where
  "masks_agree im \<longleftrightarrow> (\<forall>l<16. l \<noteq> 2 \<longrightarrow> (line_masked (im_pic im) l \<longleftrightarrow> m_interruptHandlerTable im (32 + of_nat l) = None))"

lemma vector_line:
  fixes vector :: u8
  shows "\<not> (vector \<ge> 32 \<and> vector \<le> 48) \<Longrightarrow> l < 16 \<Longrightarrow> vector \<noteq> 32 + of_nat l"
    and "vector \<ge> 32 \<Longrightarrow> vector \<le> 48 \<Longrightarrow> vector - 32 \<noteq> 16 \<Longrightarrow> vector - 32 < 16"
    and "vector \<ge> 32 \<Longrightarrow> vector \<le> 48 \<Longrightarrow> l < 16 \<Longrightarrow> vector = 32 + of_nat l \<longleftrightarrow> unat (vector - 32) = l"
proof -
  have u: "unat (32 + of_nat l :: u8) = 32 + l" if "l < 16" for l using that by (simp add: unat_plus_if_size unat_of_nat word_size)
  show "\<not> (vector \<ge> 32 \<and> vector \<le> 48) \<Longrightarrow> l < 16 \<Longrightarrow> vector \<noteq> 32 + of_nat l"
    using u [of l] by (auto simp: word_le_nat_alt)
  show "vector \<ge> 32 \<Longrightarrow> vector \<le> 48 \<Longrightarrow> vector - 32 \<noteq> 16 \<Longrightarrow> vector - 32 < 16"
    by (auto simp: word_le_nat_alt word_less_nat_alt unat_sub_if_size word_unat_eq_iff)
  show "vector \<ge> 32 \<Longrightarrow> vector \<le> 48 \<Longrightarrow> l < 16 \<Longrightarrow> vector = 32 + of_nat l \<longleftrightarrow> unat (vector - 32) = l"
    using u [of l] by (auto simp: word_le_nat_alt unat_sub_if_size word_unat_eq_iff)
qed

lemma vector_masks:
  assumes v: "32 \<le> vector" "vector \<le> 48" and l: "l < 16"
  shows "line_masked (set_irq_mask (vector - 32) pic) l \<longleftrightarrow> 32 + of_nat l = vector \<or> line_masked pic l"
    and "line_masked (clear_irq_mask (vector - 32) pic) l \<longleftrightarrow> 32 + of_nat l \<noteq> vector \<and> line_masked pic l"
proof -
  have e: "32 + of_nat l = vector \<longleftrightarrow> l = unat (vector - 32)" using vector_line(3) [OF v l] by auto
  consider "vector - 32 = 16" | "vector - 32 < 16" using vector_line(2) [OF v] by blast
  then have "(line_masked (set_irq_mask (vector - 32) pic) l \<longleftrightarrow> l = unat (vector - 32) \<or> line_masked pic l) \<and>
     (line_masked (clear_irq_mask (vector - 32) pic) l \<longleftrightarrow> l \<noteq> unat (vector - 32) \<and> line_masked pic l)"
  proof cases
    case 1
    then show ?thesis using l by (simp add: line_16)
  qed (simp add: line_masks l)
  then show "line_masked (set_irq_mask (vector - 32) pic) l \<longleftrightarrow> 32 + of_nat l = vector \<or> line_masked pic l"
    "line_masked (clear_irq_mask (vector - 32) pic) l \<longleftrightarrow> 32 + of_nat l \<noteq> vector \<and> line_masked pic l" by (simp_all add: e)
qed

lemma handler_ops_agree:
  assumes "masks_agree im"
  shows "masks_agree (add_interrupt_handler h vector im)" "masks_agree (remove_interrupt_handler vector im)"
  using assms vector_line(1) [of vector]
  by (cases "vector \<ge> 32 \<and> vector \<le> 48"; force simp: masks_agree_def add_interrupt_handler_def remove_interrupt_handler_def
      MAX_EXCEPTIONS_VECTOR_def MAX_PIC_VECTOR_def vector_masks)+

lemma initialise_agree: "masks_agree (interrupts_initialise isr_table cs im)"
proof -
  have "bit (0xFB :: u8) l" if "l < 8" "l \<noteq> 2" for l
  proof -
    have "l \<in> {0, 1, 3, 4, 5, 6, 7}" using that by auto
    then show ?thesis by (auto simp: bit_iff_odd)
  qed
  moreover have "bit (0xFF :: u8) l" if "l < 8" for l
    using that by (subst mask_eq_exp_minus_1 [of 8, where ?'a = u8, simplified, symmetric]) (simp add: bit_mask_iff)
  ultimately show ?thesis
    by (auto simp: masks_agree_def interrupts_initialise_def remap_and_init_to_offsets_def line_masked_def)
qed

text \<open>
  Masks and handlers. After the initialisation and any sequence of adding and removing handlers, a line of the
  interrupt controllers, other than the one that connects the two, is let through exactly if it has a handler.
\<close>

theorem lines_follow_handlers:
  "masks_agree (irq_run ops (interrupts_initialise isr_table cs im))"
proof -
  have "masks_agree im \<Longrightarrow> masks_agree (irq_run ops im)" for im :: "'a InterruptManager"
    by (induction ops im rule: irq_run.induct) (simp_all add: handler_ops_agree)
  then show ?thesis using initialise_agree by blast
qed

text \<open>An interrupt of a device runs its handler, and the controllers are told once that it is over.\<close>

lemma device_interrupt:
  assumes "32 \<le> vector" "vector < 48" "m_interruptHandlerTable im vector = Some h" "run h s = Some s'"
  shows "\<exists>im'. internal_interrupt_handler run cr2 cr3 vector (im, m, s) = Some (Inr (im', m, s')) \<and>
    pic_masterEoi (im_pic im') = pic_masterEoi (im_pic im) + 1 \<and>
    pic_slaveEoi (im_pic im') = pic_slaveEoi (im_pic im) + (if vector \<ge> 40 then 1 else 0)"
proof -
  have v: "vector \<noteq> 13" "vector \<noteq> 14" "vector \<le> 48" "8 \<le> vector - 32 \<longleftrightarrow> 40 \<le> vector"
    using assms(1,2) by (auto simp: word_le_nat_alt word_less_nat_alt unat_sub_if_size)
  then show ?thesis using assms
    by (simp add: internal_interrupt_handler_def MAX_EXCEPTIONS_VECTOR_def MAX_PIC_VECTOR_def send_end_of_interrupt_def Let_def)
qed

subsection \<open>Page faults\<close>

lemma align_down_page: "CHECK_ALIGN (BYTE_ALIGN_DOWN v 0x1000) 0x1000" "same_page PAGE_4KiB (BYTE_ALIGN_DOWN v 0x1000) v"
  "PML4_index (BYTE_ALIGN_DOWN v 0x1000) = PML4_index v"
proof -
  have m: "(0xFFF :: u64) = mask 12" by (simp add: mask_eq_exp_minus_1)
  have d: "BYTE_ALIGN_DOWN v 0x1000 = v AND NOT (mask 12)" by (simp add: BYTE_ALIGN_DOWN_def m [symmetric])
  show "CHECK_ALIGN (BYTE_ALIGN_DOWN v 0x1000) 0x1000" unfolding d CHECK_ALIGN_def by (simp add: and.assoc m)
  show "same_page PAGE_4KiB (BYTE_ALIGN_DOWN v 0x1000) v" unfolding d by (auto simp: same_page_def bit_simps)
  show "PML4_index (BYTE_ALIGN_DOWN v 0x1000) = PML4_index v" unfolding d
    by (auto simp: PML4_index_def bit_simps intro!: bit_word_eqI)
qed


definition example_interrupts :: "nat InterruptManager" where
  "example_interrupts = \<lparr>m_idt64 = replicate 256 DescriptorTableEntry_new, m_interruptHandlerTable = (\<lambda>_. None),
     im_pic = \<lparr>pic_masterOffset = 0, pic_slaveOffset = 0, pic_masterMask = 0, pic_slaveMask = 0, pic_masterEoi = 0, pic_slaveEoi = 0\<rparr>\<rparr>"


end
