(* ===== verification/Arch_Tables.thy ===== *)
theory Arch_Tables
  imports Arch_Interrupts
begin

text \<open>
  Tables that the processor and the PCI bus define: the descriptors of \<open>Kernel/Arch/GDT.h\<close>, the task state segment of \<open>TSS.h\<close>
  with \<open>CPU.h\<close> and \<open>CPU.cpp\<close>, and \<open>Kernel/Arch/IO/PCI.h\<close> and \<open>PCI.cpp\<close>. Reading the configuration space of the bus is an argument. In
  C++ a small integer is shifted as an \<open>int\<close>, which is sign-extended when it is joined with a longer one.
\<close>

subsection \<open>Segment descriptors\<close>

record TableEntry32 =
  te_limit0 :: u16
  te_base0 :: u16
  te_base1 :: u8
  te_access :: u8
  te_flagsAndLimit1 :: u8
  te_base2 :: u8

record TableEntry64 = TableEntry32 +
  te_base3 :: u32

definition te_get_base :: "TableEntry32 \<Rightarrow> u32" where
  "te_get_base e = ucast (te_base0 e) OR push_bit 16 (ucast (te_base1 e)) OR push_bit 24 (ucast (te_base2 e))"

definition te_set_base :: "u32 \<Rightarrow> TableEntry32 \<Rightarrow> TableEntry32" where
  "te_set_base base e = e\<lparr>te_base0 := ucast (base AND 0xFFFF), te_base1 := ucast (drop_bit 16 base AND 0xFF), te_base2 := ucast (drop_bit 24 base AND 0xFF)\<rparr>"

definition te_get_limit :: "'a TableEntry32_scheme \<Rightarrow> u32" where
  "te_get_limit e = ucast (te_limit0 e) OR push_bit 16 (ucast (te_flagsAndLimit1 e AND 0xFF))"

definition te_set_limit :: "u32 \<Rightarrow> 'a TableEntry32_scheme \<Rightarrow> 'a TableEntry32_scheme" where
  "te_set_limit limit e = e\<lparr>te_limit0 := ucast limit, te_flagsAndLimit1 := (te_flagsAndLimit1 e AND 0xF0) OR ucast (limit AND 0x0F)\<rparr>"

definition te_set_access :: "u8 \<Rightarrow> 'a TableEntry32_scheme \<Rightarrow> 'a TableEntry32_scheme" where
  "te_set_access access e = e\<lparr>te_access := access\<rparr>"

definition te_get_flags :: "'a TableEntry32_scheme \<Rightarrow> u8" where
  "te_get_flags e = drop_bit 4 (te_flagsAndLimit1 e)"

definition te_set_flags :: "u8 \<Rightarrow> 'a TableEntry32_scheme \<Rightarrow> 'a TableEntry32_scheme" where
  "te_set_flags flags e = e\<lparr>te_flagsAndLimit1 := (te_flagsAndLimit1 e AND 0x0F) OR push_bit 4 flags\<rparr>"

definition te64_get_base :: "TableEntry64 \<Rightarrow> u64" where
  "te64_get_base e = scast (ucast (te_base0 e) OR push_bit 16 (ucast (te_base1 e)) OR push_bit 24 (ucast (te_base2 e)) :: u32) OR push_bit 32 (ucast (te_base3 e))"

definition te64_set_base :: "u64 \<Rightarrow> TableEntry64 \<Rightarrow> TableEntry64" where
  "te64_set_base base e = e\<lparr>te_base0 := ucast (base AND 0xFFFF), te_base1 := ucast (drop_bit 16 base AND 0xFF), te_base2 := ucast (drop_bit 24 base AND 0xFF),
     te_base3 := ucast (drop_bit 32 base AND 0xFFFFFFFF)\<rparr>"

definition TableEntry64_new :: "u64 \<Rightarrow> u32 \<Rightarrow> u8 \<Rightarrow> u8 \<Rightarrow> TableEntry64" where
  "TableEntry64_new base limit access flags =
     te_set_flags flags (te_set_access access (te_set_limit limit (te64_set_base base
       \<lparr>te_limit0 = 0, te_base0 = 0, te_base1 = 0, te_access = 0, te_flagsAndLimit1 = 0, te_base2 = 0, te_base3 = 0\<rparr>)))"

lemma masks32: "(0xFFFF :: u32) = mask 16" "(0xFF :: u32) = mask 8"
  by (simp_all add: mask_eq_exp_minus_1)

lemma te_base_roundtrip: "te_get_base (te_set_base b e) = b"
proof (rule bit_word_eqI)
  fix n assume n: "n < LENGTH(32)"
  consider "n < 16" | "16 \<le> n" "n < 24" | "24 \<le> n" by linarith
  then show "bit (te_get_base (te_set_base b e)) n = bit b n"
    using n by cases (auto simp: te_get_base_def te_set_base_def masks32 bit_simps)
qed

text \<open>The processor joins the four parts of the base.\<close>

lemma te64_base_parts:
  fixes b :: u64
  shows "push_bit 32 (ucast (te_base3 (te64_set_base b e))) OR push_bit 24 (ucast (te_base2 (te64_set_base b e))) OR
    push_bit 16 (ucast (te_base1 (te64_set_base b e))) OR ucast (te_base0 (te64_set_base b e)) = b"
proof (rule bit_word_eqI)
  fix n assume n: "n < LENGTH(64)"
  consider "n < 16" | "16 \<le> n" "n < 24" | "24 \<le> n" "n < 32" | "32 \<le> n" by linarith
  then show "bit (push_bit 32 (ucast (te_base3 (te64_set_base b e))) OR push_bit 24 (ucast (te_base2 (te64_set_base b e))) OR
    push_bit 16 (ucast (te_base1 (te64_set_base b e))) OR ucast (te_base0 (te64_set_base b e)) :: u64) n = bit b n"
    using n by cases (auto simp: te64_set_base_def masks bit_simps)
qed

lemma te_flags_roundtrip:
  assumes "flags < 16"
  shows "te_get_flags (te_set_flags flags e) = flags"
proof -
  have f: "flags AND mask 4 = flags" using assms by (simp add: word_unat_eq_iff unat_and_mask word_less_nat_alt)
  have m: "(0x0F :: u8) = mask 4" by (simp add: mask_eq_exp_minus_1)
  have "drop_bit 4 (te_flagsAndLimit1 e AND mask 4 OR push_bit 4 flags) = flags AND mask 4"
    by (auto simp: bit_simps intro!: bit_word_eqI)
  then show ?thesis using f by (simp add: te_get_flags_def te_set_flags_def m)
qed

text \<open>A limit is not stored as the processor reads it: the upper four bits are a copy of the lowest four.\<close>

lemma limit_wrong: "te_limit0 (TableEntry64_new b 0x10000 a 0) = 0 \<and> te_flagsAndLimit1 (TableEntry64_new b 0x10000 a 0) = 0"
  by (simp add: TableEntry64_new_def te_set_flags_def te_set_access_def te_set_limit_def te64_set_base_def)

subsection \<open>The task state segment\<close>

record TaskStateSegment =
  m_rsp0 :: u64
  m_rsp1 :: u64
  m_rsp2 :: u64

datatype Ring = RING_KERNEL | RING_ONE | RING_TWO

definition set_rsp0 :: "u64 \<Rightarrow> TaskStateSegment \<Rightarrow> TaskStateSegment" where "set_rsp0 rsp0 t = t\<lparr>m_rsp0 := rsp0\<rparr>"
definition set_rsp1 :: "u64 \<Rightarrow> TaskStateSegment \<Rightarrow> TaskStateSegment" where "set_rsp1 rsp1 t = t\<lparr>m_rsp1 := rsp1\<rparr>"
definition set_rsp2 :: "u64 \<Rightarrow> TaskStateSegment \<Rightarrow> TaskStateSegment" where "set_rsp2 rsp2 t = t\<lparr>m_rsp1 := rsp2\<rparr>"

definition set_ring_stack_pointer :: "u64 \<Rightarrow> Ring \<Rightarrow> TaskStateSegment \<Rightarrow> TaskStateSegment" where
  "set_ring_stack_pointer p ring t = (case ring of RING_KERNEL \<Rightarrow> set_rsp0 p t | RING_ONE \<Rightarrow> set_rsp1 p t | RING_TWO \<Rightarrow> set_rsp2 p t)"

definition sizeof_TaskStateSegment :: u32 where "sizeof_TaskStateSegment = 104"

definition tss_gdt_entry :: "u64 \<Rightarrow> TableEntry64" where
  "tss_gdt_entry taskStateSegment = te_set_access (0x80 OR 0x09) (TableEntry64_new taskStateSegment sizeof_TaskStateSegment 0 0)"

lemma ring_two_wrong: "m_rsp2 (set_ring_stack_pointer p RING_TWO t) = m_rsp2 t \<and> m_rsp1 (set_ring_stack_pointer p RING_TWO t) = p"
  by (simp add: set_ring_stack_pointer_def set_rsp2_def)

lemma tss_limit_wrong: "te_get_limit (tss_gdt_entry a) = 0x80068"
  by (simp add: tss_gdt_entry_def TableEntry64_new_def te_set_flags_def te_set_access_def te_set_limit_def te64_set_base_def te_get_limit_def
      sizeof_TaskStateSegment_def)

subsection \<open>Addresses in the configuration space\<close>

type_synonym ConfigAddress = u32

definition get_param :: "nat \<Rightarrow> u32 \<Rightarrow> ConfigAddress \<Rightarrow> u8" where
  "get_param bitOffset bitMask v = ucast (drop_bit bitOffset (v AND bitMask))"

definition set_param :: "nat \<Rightarrow> u32 \<Rightarrow> u8 \<Rightarrow> ConfigAddress \<Rightarrow> ConfigAddress" where
  "set_param bitOffset bitMask param v = (v AND NOT bitMask) OR (push_bit bitOffset (ucast param) AND bitMask)"

definition REG_BIT_MASK :: u32 where "REG_BIT_MASK = 0x000000FC"
definition FUNC_BIT_MASK :: u32 where "FUNC_BIT_MASK = 0x00000700"
definition DEV_BIT_MASK :: u32 where "DEV_BIT_MASK = 0x0000F800"
definition BUS_BIT_MASK :: u32 where "BUS_BIT_MASK = 0x00FF0000"

definition ConfigAddress_new :: "u8 \<Rightarrow> u8 \<Rightarrow> u8 \<Rightarrow> u8 \<Rightarrow> ConfigAddress" where
  "ConfigAddress_new bus device function reg =
     set_param 0 REG_BIT_MASK reg (set_param 8 FUNC_BIT_MASK function (set_param 11 DEV_BIT_MASK device (set_param 16 BUS_BIT_MASK bus (push_bit 31 1))))"

lemma config_masks: "REG_BIT_MASK = push_bit 2 (mask 6)" "FUNC_BIT_MASK = push_bit 8 (mask 3)" "DEV_BIT_MASK = push_bit 11 (mask 5)"
  "BUS_BIT_MASK = push_bit 16 (mask 8)"
  by (simp_all add: REG_BIT_MASK_def FUNC_BIT_MASK_def DEV_BIT_MASK_def BUS_BIT_MASK_def mask_eq_exp_minus_1)

text \<open>
  Addresses of the PCI bus. The four parts of a configuration address can be read back, as far as they fit: all of
  the bus, five bits of the device, three of the function, and the register rounded to four bytes.
\<close>

theorem config_address_roundtrip:
  "get_param 16 BUS_BIT_MASK (ConfigAddress_new bus device function reg) = bus \<and>
   get_param 11 DEV_BIT_MASK (ConfigAddress_new bus device function reg) = device AND 0x1F \<and>
   get_param 8 FUNC_BIT_MASK (ConfigAddress_new bus device function reg) = function AND 0x07 \<and>
   get_param 0 REG_BIT_MASK (ConfigAddress_new bus device function reg) = reg AND 0xFC"
proof -
  have m: "(0x1F :: u8) = mask 5" "(0x07 :: u8) = mask 3" "(0xFC :: u8) = push_bit 2 (mask 6)" by (simp_all add: mask_eq_exp_minus_1)
  show ?thesis unfolding get_param_def ConfigAddress_new_def set_param_def config_masks m
    by (intro conjI bit_word_eqI) (auto simp: bit_simps)
qed

subsection \<open>Devices on the bus\<close>

datatype BaseAddressRegister = MemoryBAR u32 | IOBAR u32

definition BaseAddressRegister_new :: "u32 \<Rightarrow> BaseAddressRegister" where
  "BaseAddressRegister_new v = (if v AND 1 = 0 then MemoryBAR v else IOBAR v)"

fun bar_base :: "BaseAddressRegister \<Rightarrow> u32" where
  "bar_base (MemoryBAR v) = v AND 0xFFFFFFF0"
| "bar_base (IOBAR v) = v AND 0xFFFFFFFC"

record BusDevice =
  bd_bus :: u8
  bd_device :: u8
  bd_function :: u8
  vendorId :: u16
  deviceId :: u16
  classCode :: u8
  subclassCode :: u8
  bd_status :: u16
  bd_command :: u16
  bd_revision :: u8
  baseAddressRegisters :: "BaseAddressRegister list"
  interruptLine :: u8

text \<open>\<open>conf\<close> is the double word of the configuration space at an address.\<close>

definition config_read_dword :: "(ConfigAddress \<Rightarrow> u32) \<Rightarrow> u8 \<Rightarrow> u8 \<Rightarrow> u8 \<Rightarrow> u8 \<Rightarrow> u32" where
  "config_read_dword conf bus device function reg = conf (ConfigAddress_new bus device function reg)"

definition device_functions_count :: "(ConfigAddress \<Rightarrow> u32) \<Rightarrow> u8 \<Rightarrow> u8 \<Rightarrow> nat" where
  "device_functions_count conf bus device = (if config_read_dword conf bus device 0 0x0C AND push_bit 23 1 \<noteq> 0 then 8 else 1)"

definition get_pci_device :: "(ConfigAddress \<Rightarrow> u32) \<Rightarrow> u8 \<Rightarrow> u8 \<Rightarrow> u8 \<Rightarrow> BusDevice" where
  "get_pci_device conf bus device function =
     (let rd = config_read_dword conf bus device function;
          vid = ucast (rd 0x00 AND 0xFFFF) :: u16
      in \<lparr>bd_bus = bus, bd_device = device, bd_function = function, vendorId = vid, deviceId = ucast (drop_bit 16 (rd 0x00) AND 0xFFFF),
          classCode = ucast (drop_bit 24 (rd 0x08) AND 0xFF), subclassCode = ucast (drop_bit 16 (rd 0x08) AND 0xFF),
          bd_status = ucast (drop_bit 16 (rd 0x04) AND 0xFFFF), bd_command = ucast (rd 0x04 AND 0xFFFF), bd_revision = ucast (rd 0x08 AND 0xFF),
          baseAddressRegisters = (if vid \<noteq> 0 \<and> vid \<noteq> 0xFFFF
             then map (\<lambda>barNum. BaseAddressRegister_new (rd (0x10 + 4 * of_nat barNum))) [0..<6] else replicate 6 (BaseAddressRegister_new 0)),
          interruptLine = ucast (rd 0x3C AND 0xF)\<rparr>)"

definition absent :: "BusDevice \<Rightarrow> bool" where
  "absent dev \<longleftrightarrow> vendorId dev = 0 \<or> vendorId dev = 0xFFFF"

fun scan_functions :: "(ConfigAddress \<Rightarrow> u32) \<Rightarrow> u8 \<Rightarrow> u8 \<Rightarrow> nat list \<Rightarrow> BusDevice list \<Rightarrow> BusDevice list" where
  "scan_functions conf bus device [] devices = devices"
| "scan_functions conf bus device (func # funcs) devices =
     (let dev = get_pci_device conf bus device (of_nat func)
      in if absent dev then devices else scan_functions conf bus device funcs (devices @ [dev]))"

definition pci_initialise :: "(ConfigAddress \<Rightarrow> u32) \<Rightarrow> BusDevice list" where
  "pci_initialise conf =
     fold (\<lambda>bus. fold (\<lambda>device. scan_functions conf (of_nat bus) (of_nat device) [0..<device_functions_count conf (of_nat bus) (of_nat device)])
       [0..<32]) [0..<8] []"

fun find_device :: "u16 \<Rightarrow> u16 \<Rightarrow> BusDevice list \<Rightarrow> BusDevice option" where
  "find_device vid did [] = None"
| "find_device vid did (dev # devices) = (if deviceId dev = did \<and> vendorId dev = vid then Some dev else find_device vid did devices)"

lemma scan_functions_devices:
  "scan_functions conf bus device funcs devices = devices @ takeWhile (\<lambda>dev. \<not> absent dev) (map (\<lambda>f. get_pci_device conf bus device (of_nat f)) funcs)"
  by (induction funcs arbitrary: devices) (simp_all add: Let_def)

lemma fold_append: "(\<And>x acc. g x acc = acc @ f x) \<Longrightarrow> fold g xs acc = acc @ concat (map f xs)"
  by (induction xs arbitrary: acc) simp_all

lemma pci_devices:
  "pci_initialise conf = concat (map (\<lambda>bus. concat (map (\<lambda>device. takeWhile (\<lambda>dev. \<not> absent dev)
     (map (\<lambda>f. get_pci_device conf (of_nat bus) (of_nat device) (of_nat f)) [0..<device_functions_count conf (of_nat bus) (of_nat device)])) [0..<32])) [0..<8])"
  unfolding pci_initialise_def
  by (subst fold_append, rule fold_append, rule scan_functions_devices) simp

lemma in_takeWhile: "i < length xs \<Longrightarrow> \<forall>j\<le>i. P (xs ! j) \<Longrightarrow> xs ! i \<in> set (takeWhile P xs)"
proof (induction xs arbitrary: i)
  case (Cons x xs)
  then show ?case
  proof (cases i)
    case (Suc k)
    then have "\<forall>j\<le>k. P (xs ! j)" "P x" using Cons.prems(2) by (auto dest: spec [of _ "Suc j" for j] spec [of _ 0])
    then show ?thesis using Cons.IH [of k] Cons.prems(1) Suc by simp
  qed (use Cons in auto)
qed simp

lemma find_device_complete: "dev \<in> set devices \<Longrightarrow> \<exists>d. find_device (vendorId dev) (deviceId dev) devices = Some d \<and> d \<in> set devices \<and>
   vendorId d = vendorId dev \<and> deviceId d = deviceId dev"
  by (induction devices) auto

text \<open>
  Finding devices. A function of a device on the first eight buses that answers, and for which all lower functions
  answer, is in the list after the initialisation, and looking for its vendor and device numbers finds a device with them.
\<close>

theorem pci_devices_found:
  assumes "bus < 8" "device < 32" "func < device_functions_count conf (of_nat bus) (of_nat device)"
    and "\<forall>f\<le>func. \<not> absent (get_pci_device conf (of_nat bus) (of_nat device) (of_nat f))"
  shows "\<exists>d. find_device (vendorId (get_pci_device conf (of_nat bus) (of_nat device) (of_nat func)))
      (deviceId (get_pci_device conf (of_nat bus) (of_nat device) (of_nat func))) (pci_initialise conf) = Some d \<and>
    vendorId d = vendorId (get_pci_device conf (of_nat bus) (of_nat device) (of_nat func)) \<and>
    deviceId d = deviceId (get_pci_device conf (of_nat bus) (of_nat device) (of_nat func))"
proof -
  let ?dev = "\<lambda>f. get_pci_device conf (of_nat bus) (of_nat device) (of_nat f)" and ?n = "device_functions_count conf (of_nat bus) (of_nat device)"
  have "map ?dev [0..<?n] ! func \<in> set (takeWhile (\<lambda>dev. \<not> absent dev) (map ?dev [0..<?n]))"
    using assms(3,4) by (intro in_takeWhile) auto
  then have "?dev func \<in> set (pci_initialise conf)" using assms(1-3) unfolding pci_devices by fastforce
  from find_device_complete [OF this] show ?thesis by blast
qed

definition example_conf :: "ConfigAddress \<Rightarrow> u32" where
  "example_conf a = (if a = ConfigAddress_new 0 3 0 0 then 0x20001022 else if a = ConfigAddress_new 0 3 0 0x0C then 0 else 0xFFFFFFFF)"

theorem pci_devices_found_witness:
  "\<exists>d. find_device 0x1022 0x2000 (pci_initialise example_conf) = Some d \<and> vendorId d = 0x1022"
proof -
  have ne: "ConfigAddress_new 0 3 0 0 \<noteq> ConfigAddress_new 0 3 0 0x0C"
    by (simp add: ConfigAddress_new_def set_param_def REG_BIT_MASK_def FUNC_BIT_MASK_def DEV_BIT_MASK_def BUS_BIT_MASK_def)
  have r: "config_read_dword example_conf 0 3 0 0 = 0x20001022" "config_read_dword example_conf 0 3 0 0x0C = 0"
    using ne by (simp_all add: config_read_dword_def example_conf_def)
  have d: "vendorId (get_pci_device example_conf 0 3 0) = 0x1022" "deviceId (get_pci_device example_conf 0 3 0) = 0x2000"
    by (simp_all add: get_pci_device_def Let_def r)
  have "device_functions_count example_conf (of_nat 0) (of_nat 3) = 1" by (simp add: device_functions_count_def r)
  moreover have "\<forall>f\<le>0. \<not> absent (get_pci_device example_conf (of_nat 0) (of_nat 3) (of_nat f))" using d by (simp add: absent_def)
  ultimately show ?thesis using pci_devices_found [of 0 3 0 example_conf] d by auto
qed

end
