(* ===== verification/Boot_Memory.thy ===== *)
theory Boot_Memory
  imports Page_Loops
begin

text \<open>
  The memory that the boot loader describes and the memory of the kernel's heap: the tags of \<open>Kernel/Boot/MultibootManager.h\<close>,
  the modules of \<open>Kernel/Boot/Modules/ModuleManager.cpp\<close>, and \<open>replacement_sbrk\<close> of \<open>Kernel/Memory/dlmallochook.cpp\<close>, which gives pages to
  the allocator. The structure of the boot loader is read from the memory byte by byte. \<^const>\<open>None\<close> is a walk over tags
  that never ends, or a loop over pages past the end of the address space.
\<close>

subsection \<open>Tags of the boot loader\<close>

definition tag_type :: "memory \<Rightarrow> addr \<Rightarrow> u32" where "tag_type mem tag = load_field mem tag 4"
definition tag_size :: "memory \<Rightarrow> addr \<Rightarrow> u32" where "tag_size mem tag = load_field mem (tag + 4) 4"

definition next_tag :: "memory \<Rightarrow> addr \<Rightarrow> addr" where
  "next_tag mem tag = tag + unat ((tag_size mem tag + 7) AND NOT 7)"

partial_function (option) advance :: "memory \<Rightarrow> u32 \<Rightarrow> addr \<Rightarrow> addr option option" where
  "advance mem desiredTag tag =
     (let tag = next_tag mem tag
      in if tag_type mem tag \<noteq> desiredTag \<and> tag_type mem tag \<noteq> 0 then advance mem desiredTag tag
         else Some (if tag_type mem tag = 0 then None else Some tag))"

definition IteratorBase_new :: "memory \<Rightarrow> u32 \<Rightarrow> addr \<Rightarrow> addr option option" where
  "IteratorBase_new mem desiredTag tag = (if tag_type mem tag \<noteq> desiredTag then advance mem desiredTag tag else Some (Some tag))"

text \<open>A loop from \<open>begin\<close> to \<open>end\<close>: the tags it visits.\<close>

partial_function (option) tags_from :: "memory \<Rightarrow> u32 \<Rightarrow> addr option \<Rightarrow> addr list option" where
  "tags_from mem desiredTag it =
     (case it of
        None \<Rightarrow> Some []
      | Some tag \<Rightarrow> do { it \<leftarrow> advance mem desiredTag tag; tags \<leftarrow> tags_from mem desiredTag it; Some (tag # tags) })"

definition MultibootTagCollection :: "memory \<Rightarrow> addr \<Rightarrow> u32 \<Rightarrow> addr list option" where
  "MultibootTagCollection mem info tagType = do { it \<leftarrow> IteratorBase_new mem tagType (info + 8); tags_from mem tagType it }"

text \<open>The layout that the boot loader promises: tags one behind the other, up to one of type 0.\<close>

fun tag_chain :: "memory \<Rightarrow> addr \<Rightarrow> addr list \<Rightarrow> bool" where
  "tag_chain mem tag [] \<longleftrightarrow> tag_type mem tag = 0"
| "tag_chain mem tag (t # ts) \<longleftrightarrow> t = tag \<and> tag_type mem tag \<noteq> 0 \<and> tag_chain mem (next_tag mem tag) ts"

lemma advance_chain:
  assumes "tag_chain mem (next_tag mem tag) ts" "desiredTag \<noteq> 0"
  shows "advance mem desiredTag tag = Some (case dropWhile (\<lambda>t. tag_type mem t \<noteq> desiredTag) ts of [] \<Rightarrow> None | t # _ \<Rightarrow> Some t) \<and>
    (case dropWhile (\<lambda>t. tag_type mem t \<noteq> desiredTag) ts of [] \<Rightarrow> True | t # ts' \<Rightarrow> tag_chain mem (next_tag mem t) ts')"
  using assms
proof (induction ts arbitrary: tag)
  case Nil
  then show ?case by (subst advance.simps) simp
next
  case (Cons t ts)
  show ?case
  proof (cases "tag_type mem t = desiredTag")
    case True
    then show ?thesis using Cons.prems by (subst advance.simps) auto
  next
    case False
    have "advance mem desiredTag tag = advance mem desiredTag t" using Cons.prems False by (subst advance.simps) auto
    then show ?thesis using Cons.IH [of t] Cons.prems False by auto
  qed
qed

lemma tags_from_chain:
  assumes "tag_chain mem (next_tag mem tag) ts" "desiredTag \<noteq> 0"
  shows "tags_from mem desiredTag (Some tag) = Some (tag # filter (\<lambda>t. tag_type mem t = desiredTag) ts)"
  using assms
proof (induction "length ts" arbitrary: tag ts rule: less_induct)
  case less
  note a = advance_chain [OF less.prems]
  have f: "filter (\<lambda>t. tag_type mem t = desiredTag) ts = filter (\<lambda>t. tag_type mem t = desiredTag) (dropWhile (\<lambda>t. tag_type mem t \<noteq> desiredTag) ts)"
    by (induction ts) auto
  show ?case
  proof (cases "dropWhile (\<lambda>t. tag_type mem t \<noteq> desiredTag) ts")
    case Nil
    have "advance mem desiredTag tag = Some None" "filter (\<lambda>t. tag_type mem t = desiredTag) ts = []" using a f unfolding Nil by simp_all
    then show ?thesis by (subst tags_from.simps) (simp add: tags_from.simps [of mem desiredTag None])
  next
    case (Cons t ts')
    have l: "length ts' < length ts" using length_dropWhile_le [of "\<lambda>t. tag_type mem t \<noteq> desiredTag" ts] Cons by simp
    have t: "tag_type mem t = desiredTag" using hd_dropWhile [of "\<lambda>t. tag_type mem t \<noteq> desiredTag" ts] Cons by simp
    have "tags_from mem desiredTag (Some t) = Some (t # filter (\<lambda>t. tag_type mem t = desiredTag) ts')"
      using less.hyps [OF l] a Cons less.prems(2) by simp
    then show ?thesis using a f Cons t by (subst tags_from.simps) simp
  qed
qed

lemma tag_collection:
  assumes "tag_chain mem (info + 8) ts" "ts \<noteq> []" "tagType \<noteq> 0"
  shows "MultibootTagCollection mem info tagType = Some (filter (\<lambda>t. tag_type mem t = tagType) ts)"
proof -
  obtain t ts' where ts: "ts = t # ts'" using assms(2) by (cases ts) auto
  have c: "t = info + 8" "tag_chain mem (next_tag mem t) ts'" using assms(1) ts by auto
  show ?thesis
  proof (cases "tag_type mem t = tagType")
    case True
    then show ?thesis using tags_from_chain [OF c(2) assms(3)] c(1) ts by (simp add: MultibootTagCollection_def IteratorBase_new_def)
  next
    case False
    note a = advance_chain [OF c(2) assms(3)]
    have f: "filter (\<lambda>t. tag_type mem t = tagType) ts' = filter (\<lambda>t. tag_type mem t = tagType) (dropWhile (\<lambda>t. tag_type mem t \<noteq> tagType) ts')"
      by (induction ts') auto
    show ?thesis
    proof (cases "dropWhile (\<lambda>t. tag_type mem t \<noteq> tagType) ts'")
      case Nil
      have "advance mem tagType t = Some None" "filter (\<lambda>t. tag_type mem t = tagType) ts' = []" using a f unfolding Nil by simp_all
      then show ?thesis using False c(1) ts by (simp add: MultibootTagCollection_def IteratorBase_new_def tags_from.simps [of mem tagType None])
    next
      case (Cons u us)
      have u: "tag_type mem u = tagType" using hd_dropWhile [of "\<lambda>t. tag_type mem t \<noteq> tagType" ts'] Cons by simp
      have "tags_from mem tagType (Some u) = Some (u # filter (\<lambda>t. tag_type mem t = tagType) us)"
        using tags_from_chain [of mem u us tagType] a Cons assms(3) by simp
      then show ?thesis using a f False c(1) ts Cons u by (simp add: MultibootTagCollection_def IteratorBase_new_def)
    qed
  qed
qed

subsection \<open>Modules\<close>

definition MULTIBOOT_TAG_TYPE_MODULE :: u32 where "MULTIBOOT_TAG_TYPE_MODULE = 3"

definition mod_start :: "memory \<Rightarrow> addr \<Rightarrow> u32" where "mod_start mem tag = load_field mem (tag + 8) 4"
definition mod_end :: "memory \<Rightarrow> addr \<Rightarrow> u32" where "mod_end mem tag = load_field mem (tag + 12) 4"

definition protect_pages :: "memory \<Rightarrow> addr \<Rightarrow> Manager \<Rightarrow> Manager option" where
  "protect_pages mem info m = do {
     tags \<leftarrow> MultibootTagCollection mem info MULTIBOOT_TAG_TYPE_MODULE;
     Some (fold (\<lambda>tag. deinit_physical_region (ucast (mod_start mem tag)) (ucast (mod_end mem tag - mod_start mem tag))) tags m)
   }"

lemma unat_lt32: "unat (w :: u32) < 2 ^ 32"
  by (rule order.strict_trans2 [OF unsigned_less]) simp

lemma sint_small: "- (2 ^ 63) \<le> i \<Longrightarrow> i < 2 ^ 63 \<Longrightarrow> sint (word_of_int i :: u64) = i"
  by (simp only: signed_of_int) (simp add: signed_take_bit_int_eq_self)

lemma deinit_fold_frames:
  "free_frames (fold (\<lambda>t. deinit_physical_region (f t) (g t)) ts m) =
     free_frames m - (\<Union>t\<in>set ts. {unat (f t) div 4096 ..< unat (f t) div 4096 + deinit_blocks (unat (f t)) (unat (g t))})"
  by (induction ts arbitrary: m) auto

text \<open>
  The frames that \<open>deinit_physical_region\<close> takes are those that hold a byte of the region, but for one: when the region starts
  inside a page and has a whole number of pages, the last frame is forgotten.
\<close>

definition last_forgotten :: "nat \<Rightarrow> nat \<Rightarrow> bool" where
  "last_forgotten first limit \<longleftrightarrow> first mod 4096 \<noteq> 0 \<and> (limit - first) mod 4096 = 0"

lemma deinit_blocks_exact:
  assumes "first \<le> limit"
  shows "n \<in> {first div 4096 ..< first div 4096 + deinit_blocks first (limit - first)} \<longleftrightarrow>
    (\<exists>a. first \<le> a \<and> a < limit \<and> a div 4096 = n) \<and> \<not> (last_forgotten first limit \<and> n = limit div 4096)"
proof -
  define q r k s where "q = first div 4096" and "r = first mod 4096" and "k = (limit - first) div 4096" and "s = (limit - first) mod 4096"
  have f: "first = 4096 * q + r" "r < 4096" by (simp_all add: q_def r_def)
  have l: "limit = 4096 * q + r + (4096 * k + s)" "s < 4096" using assms by (simp_all add: q_def r_def k_def s_def)
  have blocks: "deinit_blocks first (limit - first) = k + (if s = 0 then 0 else 1) + (if s + r > 4096 then 1 else 0)"
    by (simp add: deinit_blocks_def PHYSICAL_BLOCK_SIZE_def k_def s_def r_def)
  have byte: "(\<exists>a. first \<le> a \<and> a < limit \<and> a div 4096 = n) \<longleftrightarrow> q \<le> n \<and> 4096 * n < limit \<and> first < limit"
  proof
    assume "\<exists>a. first \<le> a \<and> a < limit \<and> a div 4096 = n"
    then obtain a where a: "first \<le> a" "a < limit" "a div 4096 = n" by blast
    then have "q \<le> n" by (simp add: q_def div_le_mono)
    moreover have "4096 * n \<le> a" using a(3) by simp
    ultimately show "q \<le> n \<and> 4096 * n < limit \<and> first < limit" using a by simp
  next
    assume h: "q \<le> n \<and> 4096 * n < limit \<and> first < limit"
    show "\<exists>a. first \<le> a \<and> a < limit \<and> a div 4096 = n"
    proof (cases "n = q")
      case True
      then show ?thesis using h by (intro exI [of _ first]) (simp add: q_def)
    next
      case False
      then have "q + 1 \<le> n" using h by simp
      then have "first \<le> 4096 * n" using f by simp
      then show ?thesis using h by (intro exI [of _ "4096 * n"]) simp
    qed
  qed
  have e: "limit div 4096 = q + k" if "s = 0" using l(1) f(2) that by simp
  show ?thesis unfolding byte q_def [symmetric]
    unfolding blocks last_forgotten_def r_def [symmetric] s_def [symmetric]
    using f l e by (auto split: if_splits)
qed


text \<open>A structure with one module from \<open>0x2000\<close> to \<open>0x3800\<close>.\<close>

definition example_multiboot :: memory where
  "example_multiboot a = (let bytes = [32, 0, 0, 0, 0, 0, 0, 0, 3, 0, 0, 0, 16, 0, 0, 0, 0, 0x20, 0, 0, 0, 0x38, 0, 0, 0, 0, 0, 0, 8, 0, 0, 0] in if a < 32 then bytes ! a else 0)"


subsection \<open>Pages for the heap\<close>

function sbrk_grow :: "u64 \<Rightarrow> u64 \<Rightarrow> u64 \<Rightarrow> Manager \<Rightarrow> (u64 \<times> Manager) kresult option" where
  "sbrk_grow tlTable current_base limit m =
     (if current_base < limit
      then case alloc_page \<lparr>alloc_virtualAddress = current_base, alloc_allowWrite = True, alloc_allowUserAccess = True\<rparr> tlTable m of
             Inl err \<Rightarrow> Some (Inl err)
           | Inr m \<Rightarrow> if current_base + 0x1000 < current_base then None else sbrk_grow tlTable (current_base + 0x1000) limit m
      else Some (Inr (current_base, m)))"
  by auto
termination by (relation "measure (\<lambda>(_, page, limit, _). unat limit - unat page)") (auto intro: page_step_less)

declare sbrk_grow.simps [simp del]

function sbrk_shrink :: "u64 \<Rightarrow> u64 \<Rightarrow> u64 \<Rightarrow> Manager \<Rightarrow> (u64 \<times> Manager) kresult option" where
  "sbrk_shrink tlTable current_base limit m =
     (if current_base > limit
      then case free_page \<lparr>free_virtualAddress = current_base - 0x1000\<rparr> tlTable m of
             Inl err \<Rightarrow> Some (Inl err)
           | Inr m \<Rightarrow> if current_base < 0x1000 then None else sbrk_shrink tlTable (current_base - 0x1000) limit m
      else Some (Inr (current_base, m)))"
  by auto
termination by (relation "measure (\<lambda>(_, page, limit, _). unat page)") (auto simp: word_less_nat_alt unat_sub_if_size)

declare sbrk_shrink.simps [simp del]

text \<open>The result is the returned pointer, the new \<open>current_base\<close> and the memory manager.\<close>

definition replacement_sbrk :: "u64 \<Rightarrow> u64 \<Rightarrow> Manager \<Rightarrow> (u64 \<times> u64 \<times> Manager) kresult option" where
  "replacement_sbrk sz current_base m =
     (let ret = current_base;
          pack = map_option (map_sum id (\<lambda>(base, m). (ret, base, m)))
      in if sz = 0 then Some (Inr (current_base, current_base, m))
         else if 0 \<le> sint sz then pack (sbrk_grow (m_virtualAddressSpace m) current_base (ret + sz) m)
         else let sz = - BYTE_ALIGN_DOWN (- sz) 0x1000
              in pack (sbrk_shrink (m_virtualAddressSpace m) current_base (ret - sz) m))"

interpretation sbrk: page_allocation "\<lambda>r page limit m. map_option (map_sum id snd) (sbrk_grow r page limit m)"
  by unfold_locales (subst sbrk_grow.simps, simp split: sum.split)

lemma sbrk_grow_base:
  assumes "sbrk_grow r base limit m = Some (Inr (base', m'))"
  shows "unat limit \<le> unat base' \<and> unat base \<le> unat base' \<and> unat base' < max (unat base + 1) (unat limit + 4096) \<and> unat base' mod 4096 = unat base mod 4096"
  using assms
proof (induction r base limit m rule: sbrk_grow.induct)
  case (1 r base limit m)
  show ?case
  proof (cases "base < limit")
    case False
    then show ?thesis using 1(2) by (auto simp: sbrk_grow.simps [of r base] word_less_nat_alt)
  next
    case True
    obtain m1 where m1: "alloc_page \<lparr>alloc_virtualAddress = base, alloc_allowWrite = True, alloc_allowUserAccess = True\<rparr> r m = Inr m1"
      "\<not> base + 0x1000 < base" "sbrk_grow r (base + 0x1000) limit m1 = Some (Inr (base', m'))"
      using 1(2) True by (subst (asm) sbrk_grow.simps) (auto split: sum.splits if_splits)
    have "unat (base + 0x1000) = unat base + 4096" using m1(2) by (auto simp: word_less_nat_alt unat_plus_if_size word_size split: if_splits)
    then show ?thesis using 1(1) [OF True m1] True by (auto simp: word_less_nat_alt mod_add_right_eq [symmetric])
  qed
qed

text \<open>The pages between the base of the heap and the kernel's own mappings.\<close>

definition heap_range :: "u64 \<Rightarrow> nat \<Rightarrow> bool" where
  "heap_range v n \<longleftrightarrow> unat v mod 4096 = 0 \<and> 0xFFFFDF8000000000 \<le> unat v \<and> unat v + 4096 * n \<le> 0xFFFFFF8000000000"

lemma heap_range_pages:
  assumes "heap_range v n"
  shows "page_range v n"
proof -
  note h = assms [unfolded heap_range_def]
  have "PML4_index (v + of_nat k * 0x1000) \<noteq> 511" if k: "k < n" for k
  proof
    let ?w = "v + of_nat k * 0x1000"
    assume i: "PML4_index ?w = 511"
    have e: "?w = of_nat (unat v + k * 4096)" by simp
    have u: "unat ?w = unat v + k * 4096" unfolding e by (rule unat_of_nat_64) (use h k in simp)
    have b: "0xFFFFDF8000000000 \<le> unat ?w" "unat ?w < 0xFFFFFF8000000000" unfolding u using h k by auto
    have "unat (drop_bit 39 ?w) = unat ?w div 2 ^ 39" by (simp only: unsigned_drop_bit_eq) (simp add: drop_bit_eq_div take_bit_nat_eq_self)
    moreover have "unat (PML4_index ?w) = unat (drop_bit 39 ?w) mod 512" by (simp only: PML4_index_def unsigned_ucast_eq take_bit_eq_mod) simp
    ultimately have "unat (PML4_index ?w) = unat ?w div 2 ^ 39 mod 512" by simp
    then have "unat ?w div 2 ^ 39 mod 512 = 511" using i by simp
    moreover have "33554367 \<le> unat ?w div 2 ^ 39" "unat ?w div 2 ^ 39 \<le> 33554430"
      using div_le_mono [OF b(1), of "2 ^ 39"] b(2) by (simp_all add: less_mult_imp_div_less div_less_iff_less_mult flip: less_Suc_eq_le)
    moreover from this obtain j where "unat ?w div 2 ^ 39 = 512 * 65535 + j" "j < 511" "j \<noteq> 511" using le_Suc_ex [of "512 * 65535" "unat ?w div 2 ^ 39"] by auto
    moreover from this(2) have "(512 * 65535 + j) mod 512 = j" by (subst mod_mult_self4) simp
    ultimately show False by metis
  qed
  then show ?thesis using h by (auto simp: page_range_def)
qed

text \<open>
  C40: Memory for the heap. Asked for more memory, \<open>replacement_sbrk\<close> returns the old end of the heap, moves the end to the
  next page boundary, and every byte that was asked for is mapped in the kernel's address space; no other page has changed.
\<close>

theorem sbrk_gives_memory:
  assumes "all_spaces R m" "m_virtualAddressSpace m \<in> R" "heap_range base n" "0 < k" "k \<le> 4096 * n" "4 * n \<le> card (free_frames m)"
  shows "\<exists>base' m'. replacement_sbrk (of_nat k) base m = Some (Inr (base, base', m')) \<and>
    unat base + k \<le> unat base' \<and> unat base' < unat base + k + 4096 \<and> unat base' mod 4096 = 0 \<and> all_spaces R m' \<and>
    (\<forall>a. unat base \<le> a \<and> a < unat base + k \<longrightarrow> mapped m' (m_virtualAddressSpace m) a) \<and>
    (\<forall>r\<in>R. \<forall>v. r \<noteq> m_virtualAddressSpace m \<or> (\<forall>i<n. \<not> same_page PAGE_4KiB (base + of_nat i * 0x1000) v) \<longrightarrow>
       get_physical_address m' r v = get_physical_address m r v)"
proof -
  let ?r = "m_virtualAddressSpace m" and ?limit = "base + of_nat k"
  note h = assms(3) [unfolded heap_range_def]
  have l: "unat ?limit = unat base + k"
  proof -
    have "?limit = of_nat (unat base + k)" by simp
    then show ?thesis using unat_of_nat_64 [of "unat base + k"] h assms(5) by simp
  qed
  have small: "k < 2 ^ 63" using h assms(5) by simp
  then have s: "sint (of_nat k :: u64) = int k" using sint_small [of "int k"] by simp
  have "unat (of_nat k :: u64) = k" by (rule unat_of_nat_64) (use small in simp)
  then have nz: "(of_nat k :: u64) \<noteq> 0" using assms(4) by auto
  obtain m' where m': "map_option (map_sum id snd) (sbrk_grow ?r base ?limit m) = Some (Inr m')" "all_spaces R m'"
    "\<forall>a. unat base \<le> a \<and> a < unat base + k \<or> mapped m ?r a \<longrightarrow> mapped m' ?r a"
    "\<forall>r\<in>R. \<forall>v. r \<noteq> ?r \<or> (\<forall>i<n. \<not> same_page PAGE_4KiB (base + of_nat i * 0x1000) v) \<longrightarrow> get_physical_address m' r v = get_physical_address m r v"
    using sbrk.pages_allocated [OF assms(1,2) heap_range_pages [OF assms(3)] assms(6), of ?limit] assms(5) unfolding l by auto
  from m'(1) obtain x where x: "sbrk_grow ?r base ?limit m = Some x" "map_sum id snd x = Inr m'" by auto
  then obtain base' where "x = Inr (base', m')" by (cases x) auto
  with x(1) have g: "sbrk_grow ?r base ?limit m = Some (Inr (base', m'))" by simp
  have "replacement_sbrk (of_nat k) base m = Some (Inr (base, base', m'))" using nz s g by (simp add: replacement_sbrk_def)
  then show ?thesis using sbrk_grow_base [OF g] m'(2-4) l h assms(4) by (intro exI [of _ base'] exI [of _ m']) auto
qed

theorem sbrk_gives_memory_witness:
  "\<exists>base' m'. replacement_sbrk 100 0xFFFFDF8000000000 example_space = Some (Inr (0xFFFFDF8000000000, base', m')) \<and>
     mapped m' 0x1000 0xFFFFDF8000000063"
proof -
  have h: "heap_range 0xFFFFDF8000000000 1" by (simp add: heap_range_def)
  have main: "m_virtualAddressSpace example_space = 0x1000" by (simp add: example_space_def)
  have "unat (0xFFFFDF8000000000 :: u64) = 0xFFFFDF8000000000" by simp
  then show ?thesis
    using sbrk_gives_memory [OF example_spaces(1) _ h, of 100] by (auto simp: main example_space_frames)
qed

text \<open>Giving memory back has no effect: the loop is left before its first pass.\<close>

lemma sbrk_never_shrinks:
  assumes "0 < k" "k < 2 ^ 63" "unat base + k < 2 ^ 64"
  shows "replacement_sbrk (- of_nat k) base m = Some (Inr (base, base, m))"
proof -
  have "BYTE_ALIGN_DOWN (of_nat k) 0x1000 \<le> of_nat k" by (simp add: BYTE_ALIGN_DOWN_def word_and_le2)
  moreover have "unat (of_nat k :: u64) = k" by (rule unat_of_nat_64) (use assms(2) in simp)
  ultimately have "unat (BYTE_ALIGN_DOWN (of_nat k) 0x1000) \<le> k" by (simp add: word_le_nat_alt)
  then have "\<not> base > base + BYTE_ALIGN_DOWN (of_nat k) 0x1000"
    using assms(3) by (simp add: word_less_nat_alt unat_plus_if_size word_size)
  moreover have "sint (- of_nat k :: u64) = - int k"
    using sint_small [of "- int k"] assms(2) by simp
  moreover have "- of_nat k \<noteq> (0 :: u64)" using \<open>sint (- of_nat k :: u64) = - int k\<close> assms(1) by auto
  ultimately show ?thesis using assms(1) by (simp add: replacement_sbrk_def Let_def sbrk_shrink.simps)
qed

end
