(* ===== verification/Spec2Isabelle.thy ===== *)
theory Spec2Isabelle
  imports Common_List Common_PriorityQueue Common_Hashmap Page_Mapping Tasks_Sync Shared_Memory Common_CircularBuffer Common_Vector Net_Server Memory_Routines Pipes_Theorems FS_Theorems WS_Server Syscalls GUI_Layout Net_PCNet Arch_Tables Boot_Memory
begin

text \<open>
  A model of the xpOS operating system and the theorems that make it correct.

  xpOS is a hobby operating system for 64-bit x86 machines: a kernel in C++ under \<open>Kernel/\<close> and programs and
  libraries under \<open>Userspace/\<close>. The kernel manages physical and virtual memory, schedules groups of tasks on
  one processor, and offers pipes (files, local sockets, network sockets, event listeners, devices) and shared
  memory to programs. The window server is the main program: it composes the windows that its clients draw
  into shared memory and talks to them over local sockets. The paths below are relative to the repository.

  \<^bold>\<open>How the parts interact.\<close> The containers of \<open>Kernel/Common\<close> carry everything else: the scheduler's queues are
  priority queues on linked lists, the tables of tasks, sockets and addresses are hash maps, a local socket is a
  circular buffer. A task that waits for another one goes through a mutex or a wait queue to
  \<open>TaskManager::block\<close> and \<open>unblock\<close>, which move it between its group and the scheduler. Local sockets wake their
  readers and inform event listeners; the IPC library turns a pair of them into a stream of messages, and the
  window server is driven by these messages and by the events of the mouse. Received frames climb from
  \<open>NetworkServer\<close> through Ethernet and IPv4 to a TCP socket. Shared memory maps the frames of the physical
  memory manager into the page tables of several tasks.

  \<^bold>\<open>Conventions.\<close> A machine integer is a word of its width where its wrap-around can matter, otherwise an \<^typ>\<open>int\<close> or
  \<^typ>\<open>nat\<close>, and the theory says why that is exact. An object in memory is an entry of a heap, a map from
  addresses; a pointer is an optional address. An operation that can fault, loop for ever or spin on a lock that
  is never released returns an option, and \<^const>\<open>None\<close> is that fault, so that a theorem with \<^const>\<open>Some\<close> is a
  statement of memory safety and termination. A kernel panic is a value of a sum type. What the sources call but do not contain (the
  addresses \<open>operator new\<close> returns, the frames that arrive, the time, a decoded image, what other tasks do while
  one waits) is an argument of the definitions. The kernel runs on one processor and takes spinlocks with
  interrupts off, so the critical section of an operation is one step; operations that wait are split there and
  interleaved by the step relations.

  \<^bold>\<open>The theories and what they show.\<close>

  \<^item> \<open>Xp_Prelude\<close>: types, generic lemmas and the collections of rules the other theories use.

  \<^item> \<open>Common_List\<close> (\<open>Kernel/Common/List.h\<close>): the doubly linked list pointer by pointer on a heap of nodes; insertion,
    erasing and clearing refine the operations on sequences and touch no other node (locale
    \<open>sequence_container\<close>). \<open>Common_PriorityQueue\<close> (\<open>PriorityQueue.h\<close>) is its client: it stays sorted and equal
    elements keep their order (locale \<open>queue_order\<close>, interpreted for the scheduler's and the sleeping tasks'
    comparisons).

  \<^item> \<open>Common_Hashmap\<close> (\<open>Hash/MurmurHash3.cpp\<close>, \<open>Hashmap.h\<close>, the pipe table of \<open>Tasks/Task.h\<close>): the hash is computed
    on words; the map behaves as a finite map (locale \<open>kv_store\<close>).

  \<^item> \<open>Common_CircularBuffer\<close>, \<open>Common_Vector\<close>, \<open>Common_RefCount\<close> (\<open>CircularBuffer.h\<close>, \<open>Vector.h\<close>, \<open>ReferenceCounting.h\<close>): the
    buffer is a first-in first-out stream of bytes (locale \<open>byte_stream\<close>), a control block lives as long as a
    handle. \<open>Memory_Routines\<close> (\<open>Memory/Memory.h\<close>, \<open>String.cpp\<close>): which bytes each routine writes and that the
    loops over strings end.

  \<^item> \<open>Physical_Memory\<close> (\<open>Memory/Address.h\<close>, \<open>MemoryManager.cpp\<close>): the bitmap of frames, allocation of the least free
    frame (locale \<open>frame_allocator\<close>), what is protected at boot. \<open>Page_Tables\<close> has the four levels of page
    tables and the map and unmap requests on the words in memory; \<open>Page_Mapping\<close> shows that the tables stay a tree and that a
    request changes the translation of its page and of nothing else (locale \<open>update_loop\<close> for the loops over
    pages). \<open>Address_Space\<close> and \<open>Shared_Memory\<close> (\<open>AddressSpace.cpp\<close>, \<open>SharedMemory.cpp\<close>): disjoint regions, and links
    that share exactly the frames of a block.

  \<^item> \<open>Scheduler\<close>, \<open>Task_Manager\<close> (\<open>Tasks/MasterScheduler.cpp\<close>, \<open>TaskManager.cpp\<close>, \<open>Task.h\<close>): the two queues, the choice
    of the next task, blocking, waking, sleeping, launching. \<open>Task_Scheduling\<close> has the invariant and that every
    operation keeps it; \<open>Task_Properties\<close> the reachable states, where no ready task is lost, no operation faults
    and a wake-up before blocking is not lost. \<open>Tasks_Sync\<close> (\<open>Spinlock.cpp\<close>, \<open>Mutex.cpp\<close>, \<open>WaitQueue.cpp\<close>): interrupts and
    the hand-over of locks.

  \<^item> \<open>Pipes_Events\<close>, \<open>Pipes_LocalSocket\<close>, \<open>Pipes_Pipe\<close> (\<open>Pipes/EventListener.cpp\<close>, \<open>EventListenerList.h\<close>,
    \<open>LocalSocket.cpp\<close>, \<open>Pipe.cpp\<close>): the operations. \<open>Pipes_Connections\<close>, \<open>Pipes_Properties\<close>, \<open>Pipes_Theorems\<close>: the
    references stay valid under any interleaving, a connected pair is a channel (locale \<open>byte_channel\<close>), writes wake
    and inform, and what closing and the connection handshake do wrong.

  \<^item> \<open>Net_Endian\<close>, \<open>Net_IPv4\<close>, \<open>Net_Link\<close>, \<open>Net_TCP\<close>, \<open>Net_TCP_Stream\<close>, \<open>Net_Server\<close> (\<open>API/Endian.h\<close>, \<open>API/Network.h\<close>,
    \<open>Networking/\<close>): headers and checksum, address resolution, the TCP socket, delivery of the byte stream, the path of a frame from one
    host's \<open>send\<close> to the other's socket, and the fault of segments that arrive in the wrong order.

  \<^item> \<open>FS_VFS\<close>, \<open>FS_Initrd\<close>, \<open>FS_Theorems\<close> (\<open>Filesystem/VFS.cpp\<close>, \<open>Drivers/Initrd/TARinitrd.cpp\<close>): the cache of nodes over
    any driver (locale \<open>vfs_driver\<close>), the archive reader as a driver, and that every file of an archive can be
    opened and read whatever was opened before.

  \<^item> \<open>WS_Geometry\<close>, \<open>WS_Graphics\<close>, \<open>WS_Desktop\<close>, \<open>WS_Theorems\<close>, \<open>WS_Server\<close> (\<open>Userspace/System/WindowServer\<close>): rectangles
    and clipping, drawing, the desktop, and that the frame buffer shows the scene after any sequence of
    events and messages.

  \<^item> \<open>IPC_Serialisation\<close>, \<open>IPC_Connection\<close> (\<open>Userspace/Libraries/SerialisationLib\<close>, \<open>IPCLib/Connection.h\<close>): encoders and
    decoders (locale \<open>codec\<close>, extended to vectors by \<open>vector_codec\<close>), and that messages sent over the kernel's local
    sockets arrive complete and in order.

  \<^item> \<open>HID_Drivers\<close> (\<open>Drivers/HID/Mouse.cpp\<close>, \<open>Keyboard.cpp\<close>): interrupt handlers that collect bytes, threads that decode
    them, and the device buffers of the readers. Movements arrive in order under any interleaving of
    interrupts, passes of the thread and reads, scancodes are decoded to the keys that were pressed, and
    \<open>WS_Server\<close> follows a packet of the mouse to the picture on the screen.

  \<^item> \<open>Loader_ELF\<close> (\<open>Loader/ELF.cpp\<close>): reading the headers from memory, mapping and filling the sections, the stack and
    the entry point. \<open>Syscalls\<close> (\<open>Syscalls/SyscallHandler.cpp\<close>): the calls and their dispatch over the state of
    the kernel; mapping memory, descriptors that are not open, futexes.

  \<^item> \<open>Page_Loops\<close>: the contract of a loop that allocates the pages of a range, as the locale \<open>page_allocation\<close>, interpreted for
    \<open>vmmap\<close> in \<open>Syscalls\<close> and for the heap in \<open>Boot_Memory\<close> (\<open>Memory/dlmallochook.cpp\<close>, \<open>Boot/MultibootManager.h\<close>,
    \<open>Boot/Modules/ModuleManager.cpp\<close>), which also walks the boot loader's tags and protects its modules.

  \<^item> \<open>Arch_Interrupts\<close>, \<open>Arch_Tables\<close> (\<open>Arch/Interrupts\<close>, \<open>Arch/IO/PIT.cpp\<close>, \<open>PCI.cpp\<close>, \<open>Arch/GDT.h\<close>, \<open>TSS.h\<close>): handlers and masks of
    the interrupt lines, page faults that copy a mapping of the kernel into a task's address space, descriptors, and the
    devices on the bus. \<open>Net_PCNet\<close> (\<open>Drivers/Network/PCNet.cpp\<close>): the rings shared with the card, and that received frames reach
    the server in order under any interleaving.

  \<^item> \<open>GUI_Layout\<close> (\<open>Userspace/Libraries/GUILib\<close>): views, their layout in rows and columns (locale \<open>stack_axis\<close>,
    interpreted for both axes), and the picture that drawing a layout leaves in the window.

  \<^bold>\<open>Bounds and loops.\<close> No definition takes fuel: a loop is structural recursion, a \<^theory_text>\<open>function\<close> with a measure, or
  takes the finite list of what happens while it waits. Loops of the sources that need not end (a spin on a
  held lock, an unterminated string, a header list without an end, a \<open>force_read\<close> from a silent peer) have the
  value \<^const>\<open>None\<close>, and the theorems show when they return. Bounds in theorems (lengths below \<open>2 ^ 64\<close>, page ranges
  below \<open>2 ^ 47\<close>, at most one window above a refreshed one) are hypotheses, each with an instance that satisfies it.

  \<^bold>\<open>Not modelled.\<close> Third-party code that is only called: \<open>dlmalloc.c\<close>, \<open>stb_image.h\<close>, \<open>stb_truetype.h\<close>,
  \<open>fast_gaussian_blur_template.h\<close>, \<open>multiboot2.h\<close>; the toolchain patches. Code whose effect is on the processor or on devices rather
  than on the state of the program: assembly, port input and output, the drivers for AC97 and SVGA-II, the
  initialisation of PCNet's registers. Boot code that runs once before the
  parts above exist. Code that only forwards to one of the parts above, and the demonstration programs. The manifest lists each part with its
  status.
\<close>

end
